(* ===== verification/Prelude.thy ===== *)
theory Prelude
  imports Complex_Main "HOL-Library.AList" "HOL-Library.Multiset"
begin

text \<open>
  What every component of the model shares: the JavaScript operators the sources use on
  numbers that may be absent, the insertion-ordered \<open>Map\<close> as an association list, the
  dictionary and step-invariant interfaces (locales) and generic list lemmas.

  Numbers are \<^typ>\<open>int\<close> wherever the sources keep integers (counts, costs, milliseconds);
  \<open>Date.now()\<close> and injected clocks are an explicit argument \<open>now\<close>, read once per
  operation. \<open>null\<close> and \<open>undefined\<close> are \<^term>\<open>None\<close>.
\<close>

named_theorems js_defs \<open>unfolding of the JavaScript operators\<close>
named_theorems js_map \<open>facts about insertion-ordered maps\<close>

subsection \<open>Numbers that may be absent\<close>

text \<open>\<open>!!x\<close> for a number that may be null: null and 0 are falsy.\<close>

definition truthy :: "int option \<Rightarrow> bool" where
  [js_defs]: "truthy x = (case x of None \<Rightarrow> False | Some n \<Rightarrow> n \<noteq> 0)"

text \<open>\<open>x || d\<close> (null and 0 give \<open>d\<close>) and \<open>x ?? d\<close> (only null gives \<open>d\<close>).\<close>

definition or_else :: "int option \<Rightarrow> int \<Rightarrow> int" where
  [js_defs]: "or_else x d = (case x of None \<Rightarrow> d | Some n \<Rightarrow> if n = 0 then d else n)"

definition nullish :: "'a option \<Rightarrow> 'a \<Rightarrow> 'a" where
  [js_defs]: "nullish x d = (case x of None \<Rightarrow> d | Some v \<Rightarrow> v)"

lemma truthy_simps [simp]:
  "truthy None = False"
  "truthy (Some n) = (n \<noteq> 0)"
  by (simp_all add: truthy_def)

lemma or_else_simps [simp]:
  "or_else None d = d"
  "or_else (Some n) d = (if n = 0 then d else n)"
  by (simp_all add: or_else_def)

lemma nullish_simps [simp]:
  "nullish None d = d"
  "nullish (Some v) d = v"
  by (simp_all add: nullish_def)

text \<open>\<open>Math.ceil(a / b)\<close> on integers with a positive divisor.\<close>

definition ceil_div :: "int \<Rightarrow> int \<Rightarrow> int" where
  "ceil_div a b = - ((- a) div b)"

lemma ceil_div_ceiling: "ceil_div a b = \<lceil>real_of_int a / real_of_int b\<rceil>"
proof -
  have "(- a) div b = \<lfloor>real_of_int (- a) / real_of_int b\<rfloor>"
    by (rule floor_divide_of_int_eq [symmetric])
  then show ?thesis by (simp add: ceil_div_def ceiling_def)
qed

lemma ceil_div_le_iff: "0 < b \<Longrightarrow> ceil_div a b \<le> n \<longleftrightarrow> a \<le> n * b"
  by (simp add: ceil_div_ceiling ceiling_le_iff pos_divide_le_eq flip: of_int_mult)

lemma ceil_div_nonneg: "0 < b \<Longrightarrow> 0 \<le> a \<Longrightarrow> 0 \<le> ceil_div a b"
  by (simp add: ceil_div_def div_nonpos_pos_le0)

lemma ceil_div_pos: "0 < b \<Longrightarrow> 0 < a \<Longrightarrow> 0 < ceil_div a b"
  by (simp add: ceil_div_def div_neg_pos_less0)

text \<open>\<open>Number.MAX_SAFE_INTEGER\<close>.\<close>

definition MAX_SAFE_INTEGER :: int where
  "MAX_SAFE_INTEGER = 9007199254740991"

lemma min_mult_int:
  assumes "0 \<le> a"
  shows "min (a * x) (a * y) = a * min x (y :: int)"
proof (cases "x \<le> y")
  case True
  then show ?thesis using mult_left_mono [OF True assms] by (simp add: min_def)
next
  case False
  then have "a * y \<le> a * x" using assms by (intro mult_left_mono) simp_all
  with False show ?thesis by (simp add: min_def)
qed

subsection \<open>Values that are not checked yet, and errors\<close>

text \<open>
  What the type \<open>unknown\<close> (or an optional number) holds, as far as the validators look: a finite
  number, one of the non-finite ones, or something that is not a number. A double is a real: the
  model does not round.
\<close>

datatype js_value = Undefined | Null | Not_number | Not_a_number | Infinite | Number real

fun is_nullish :: "js_value \<Rightarrow> bool" where
  "is_nullish Undefined = True"
| "is_nullish Null = True"
| "is_nullish _ = False"

text \<open>\<open>Number.isSafeInteger\<close>.\<close>

fun is_safe_integer :: "js_value \<Rightarrow> bool" where
  "is_safe_integer (Number r) = (r = of_int \<lfloor>r\<rfloor> \<and> \<bar>r\<bar> \<le> of_int MAX_SAFE_INTEGER)"
| "is_safe_integer _ = False"

text \<open>A computation that throws is a left value.\<close>

fun bindE :: "'e + 'a \<Rightarrow> ('a \<Rightarrow> 'e + 'b) \<Rightarrow> 'e + 'b" where
  "bindE (Inl e) f = Inl e"
| "bindE (Inr x) f = f x"

lemma bindE_Inr_iff: "bindE m f = Inr y \<longleftrightarrow> (\<exists>x. m = Inr x \<and> f x = Inr y)"
  by (cases m) simp_all

lemma bindE_InrE:
  assumes "bindE m f = Inr y"
  obtains x where "m = Inr x" and "f x = Inr y"
  using assms by (auto simp: bindE_Inr_iff)

text \<open>A loop that appends what each element gives and stops at the first that throws.\<close>

fun concat_mapE :: "('a \<Rightarrow> 'e + 'b list) \<Rightarrow> 'a list \<Rightarrow> 'e + 'b list" where
  "concat_mapE f [] = Inr []"
| "concat_mapE f (x # xs) = bindE (f x) (\<lambda>ys. bindE (concat_mapE f xs) (\<lambda>zs. Inr (ys @ zs)))"

lemma concat_mapE_Inr: "\<forall>x \<in> set xs. f x = Inr (g x) \<Longrightarrow> concat_mapE f xs = Inr (concat (map g xs))"
  by (induction xs) simp_all

subsection \<open>Texts\<close>

text \<open>\<open>trim\<close>, \<open>toLowerCase\<close>, \<open>startsWith\<close>, \<open>endsWith\<close> and \<open>slice(0, -n)\<close>, on ASCII.\<close>

definition js_space :: "char \<Rightarrow> bool" where
  "js_space c \<longleftrightarrow> of_char c \<in> {9, 10, 11, 12, 13, 32 :: nat}"

definition js_trim :: "string \<Rightarrow> string" where
  "js_trim s = rev (dropWhile js_space (rev (dropWhile js_space s)))"

definition js_lower :: "string \<Rightarrow> string" where
  "js_lower s = map (\<lambda>c. let n = of_char c :: nat in if 65 \<le> n \<and> n \<le> 90 then char_of (n + 32) else c) s"

definition starts_with :: "string \<Rightarrow> string \<Rightarrow> bool" where
  "starts_with s p \<longleftrightarrow> take (length p) s = p"

definition ends_with :: "string \<Rightarrow> string \<Rightarrow> bool" where
  "ends_with s p \<longleftrightarrow> length p \<le> length s \<and> drop (length s - length p) s = p"

definition slice_off :: "nat \<Rightarrow> string \<Rightarrow> string" where
  "slice_off n s = take (length s - n) s"

text \<open>\<open>s.includes(part)\<close>.\<close>

fun str_includes :: "string \<Rightarrow> string \<Rightarrow> bool" where
  "str_includes [] part \<longleftrightarrow> part = []"
| "str_includes (c # cs) part \<longleftrightarrow> take (length part) (c # cs) = part \<or> str_includes cs part"

lemma slice_end: "ends_with s p \<Longrightarrow> slice_off (length p) s @ p = s"
  unfolding ends_with_def slice_off_def by (metis append_take_drop_id)

lemma starts_split: "starts_with s p \<Longrightarrow> p @ drop (length p) s = s"
  unfolding starts_with_def by (metis append_take_drop_id)

lemma ends_with_append [simp]: "ends_with (s @ p) p"
  by (simp add: ends_with_def)

lemma slice_append [simp]: "slice_off (length p) (s @ p) = s"
  by (simp add: slice_off_def)

subsection \<open>Insertion-ordered maps\<close>

text \<open>
  A JavaScript \<open>Map\<close> iterates in insertion order; setting a key that is present keeps
  its place, a fresh key goes last. \<^const>\<open>AList.update\<close> does exactly that.
\<close>

type_synonym ('k, 'v) js_map = "('k \<times> 'v) list"

abbreviation map_get :: "('k, 'v) js_map \<Rightarrow> 'k \<Rightarrow> 'v option" where
  "map_get m k \<equiv> map_of m k"

abbreviation map_set :: "'k \<Rightarrow> 'v \<Rightarrow> ('k, 'v) js_map \<Rightarrow> ('k, 'v) js_map" where
  "map_set k v m \<equiv> AList.update k v m"

abbreviation map_delete :: "'k \<Rightarrow> ('k, 'v) js_map \<Rightarrow> ('k, 'v) js_map" where
  "map_delete k m \<equiv> AList.delete k m"

abbreviation map_has :: "('k, 'v) js_map \<Rightarrow> 'k \<Rightarrow> bool" where
  "map_has m k \<equiv> map_of m k \<noteq> None"

abbreviation map_wf :: "('k, 'v) js_map \<Rightarrow> bool" where
  "map_wf m \<equiv> distinct (map fst m)"

lemma map_of_update [js_map, simp]: "map_of (map_set k v m) = (map_of m)(k \<mapsto> v)"
  by (simp add: update_conv')

lemma map_of_delete [js_map, simp]: "map_of (map_delete k m) = (map_of m)(k := None)"
  by (simp add: delete_conv')

lemma map_wf_set [js_map]: "map_wf m \<Longrightarrow> map_wf (map_set k v m)"
  by (rule distinct_update)

lemma map_wf_delete [js_map]: "map_wf m \<Longrightarrow> map_wf (map_delete k m)"
  by (rule distinct_delete)

lemma length_set_fresh [js_map]: "map_of m k = None \<Longrightarrow> length (map_set k v m) = Suc (length m)"
  by (induction m) (auto split: if_splits)

lemma length_set_present [js_map]: "map_of m k \<noteq> None \<Longrightarrow> length (map_set k v m) = length m"
  by (induction m) auto

lemma length_delete_present [js_map]:
  "map_wf m \<Longrightarrow> map_of m k \<noteq> None \<Longrightarrow> Suc (length (map_delete k m)) = length m"
proof -
  assume wf: "map_wf m" and "map_of m k \<noteq> None"
  then have k: "k \<in> set (map fst m)" by (simp add: map_of_eq_None_iff)
  have "length (map_delete k m) = length (map fst (map_delete k m))" by simp
  also have "\<dots> = length (remove1 k (map fst m))"
    by (simp only: delete_keys distinct_remove1_removeAll [OF wf])
  also have "Suc \<dots> = length (map fst m)"
    using k length_pos_if_in_set [OF k] by (simp only: length_remove1 if_True Suc_diff_1)
  finally show ?thesis by simp
qed

lemma length_delete_le [js_map]: "length (map_delete k m) \<le> length m"
  by (simp add: AList.delete_eq)

lemma map_delete_absent [js_map]: "map_of m k = None \<Longrightarrow> map_delete k m = m"
  by (induction m) (auto split: if_splits)

lemma map_set_same: "map_of m k = Some v \<Longrightarrow> map_set k v m = m"
  by (induction m) (auto split: if_splits)

lemma map_set_fresh: "map_of m k = None \<Longrightarrow> map_set k v m = m @ [(k, v)]"
  by (induction m) (auto split: if_splits)

lemma set_map_set_subset: "set (map_set k v m) \<subseteq> insert (k, v) (set m)"
  by (induction m) auto

lemma set_map_delete_subset: "set (map_delete k m) \<subseteq> set m"
  by (auto simp: AList.delete_eq)

lemma map_of_in_values: "map_of m k = Some v \<Longrightarrow> v \<in> snd ` set m"
  by (force dest: map_of_SomeD)

text \<open>Sums over the values of a map.\<close>

definition sum_values :: "('v \<Rightarrow> 'a :: comm_monoid_add) \<Rightarrow> ('k, 'v) js_map \<Rightarrow> 'a" where
  "sum_values f m = sum_list (map (\<lambda>p. f (snd p)) m)"

lemma sum_values_simps [simp]:
  "sum_values f [] = 0"
  "sum_values f (p # m) = f (snd p) + sum_values f m"
  by (simp_all add: sum_values_def)

lemma sum_values_set:
  "map_of m k = Some v \<Longrightarrow> sum_values f (map_set k w m) + f v = sum_values f m + f w"
  by (induction m) (auto simp: ac_simps split: if_splits)

lemma sum_values_fresh: "map_of m k = None \<Longrightarrow> sum_values f (map_set k w m) = sum_values f m + f w"
  by (induction m) (auto simp: ac_simps split: if_splits)

lemma sum_values_delete:
  "map_wf m \<Longrightarrow> map_of m k = Some v \<Longrightarrow> sum_values f (map_delete k m) + f v = sum_values f m"
proof (induction m)
  case (Cons p m)
  show ?case
  proof (cases "fst p = k")
    case True
    then have "map_of m k = None" using Cons.prems(1) by (auto simp: map_of_eq_None_iff)
    then have "map_delete k m = m" by (rule map_delete_absent)
    then show ?thesis using True Cons.prems by (cases p) (auto simp: ac_simps)
  next
    case False
    then show ?thesis using Cons by (cases p) (auto simp: ac_simps)
  qed
qed simp

subsection \<open>Interfaces\<close>

text \<open>
  The contract of the keyed stores the components keep: what a lookup returns after a
  write or a removal, and how the number of entries moves.
\<close>

locale dictionary =
  fixes get :: "'m \<Rightarrow> 'k \<Rightarrow> 'v option"
    and put :: "'k \<Rightarrow> 'v \<Rightarrow> 'm \<Rightarrow> 'm"
    and del :: "'k \<Rightarrow> 'm \<Rightarrow> 'm"
    and count :: "'m \<Rightarrow> nat"
    and wf :: "'m \<Rightarrow> bool"
  assumes get_put: "get (put k v m) = (get m)(k \<mapsto> v)"
    and get_del: "get (del k m) = (get m)(k := None)"
    and wf_put: "wf m \<Longrightarrow> wf (put k v m)"
    and wf_del: "wf m \<Longrightarrow> wf (del k m)"
    and count_put_fresh: "get m k = None \<Longrightarrow> count (put k v m) = Suc (count m)"
    and count_put_present: "get m k \<noteq> None \<Longrightarrow> count (put k v m) = count m"
    and count_del_present: "wf m \<Longrightarrow> get m k \<noteq> None \<Longrightarrow> Suc (count (del k m)) = count m"
    and count_del_le: "count (del k m) \<le> count m"
begin

lemma count_put_le: "count (put k v m) \<le> Suc (count m)"
  by (cases "get m k = None") (simp_all add: count_put_fresh count_put_present)

lemma count_evict_put:
  assumes "wf m" and "get m victim \<noteq> None"
  shows "count (put k v (del victim m)) \<le> count m"
  using count_put_le [of k v "del victim m"] count_del_present [OF assms] by simp

lemma bounded_put:
  assumes "wf m" and "count m \<le> cap" and "0 < cap"
    and "get m k \<noteq> None \<or> count m < cap \<or> get m victim \<noteq> None"
    and "m' = (if get m k = None \<and> cap \<le> count m then del victim m else m)"
  shows "count (put k v m') \<le> cap"
proof (cases "get m k = None \<and> cap \<le> count m")
  case True
  then show ?thesis using assms count_evict_put [of m victim k v] by fastforce
next
  case False
  then have "m' = m" by (simp only: assms(5) if_False)
  moreover have "count (put k v m) \<le> cap"
  proof (cases "get m k = None")
    case True
    with False have "count m < cap" by simp
    then show ?thesis using count_put_le [of k v m] by simp
  next
    case False
    then show ?thesis using assms(2) by (simp add: count_put_present)
  qed
  ultimately show ?thesis by simp
qed

end

interpretation jsmap: dictionary map_of AList.update AList.delete length "\<lambda>m. distinct (map fst m)"
  by unfold_locales
    (auto simp: length_set_fresh length_set_present length_delete_present length_delete_le
      intro: map_wf_set map_wf_delete)

text \<open>
  The contract of a store that is written through to a database and read through a cache: a lookup
  sees the last write, and a restart, which loses the cache, changes no lookup.
\<close>

locale write_through =
  fixes lookup :: "'s \<Rightarrow> 'k \<Rightarrow> 'v option"
    and synced :: "'s \<Rightarrow> bool"
    and put :: "'k \<Rightarrow> 'v \<Rightarrow> 's \<Rightarrow> 's"
    and forget :: "'k \<Rightarrow> 's \<Rightarrow> 's"
    and restart :: "'s \<Rightarrow> 's"
  assumes put_law: "synced s \<Longrightarrow> synced (put k v s) \<and> lookup (put k v s) = (lookup s)(k \<mapsto> v)"
    and forget_law: "synced s \<Longrightarrow> synced (forget k s) \<and> lookup (forget k s) = (lookup s)(k := None)"
    and restart_law: "synced s \<Longrightarrow> synced (restart s) \<and> lookup (restart s) = lookup s"
begin

lemma durable_put: "synced s \<Longrightarrow> lookup (restart (put k v s)) k = Some v"
  by (simp add: put_law restart_law)

lemma durable_forget: "synced s \<Longrightarrow> lookup (restart (forget k s)) k = None"
  by (simp add: forget_law restart_law)

text \<open>Two stores that agree, one of them restarted, agree on after the same write.\<close>

lemma restart_put: "synced s \<Longrightarrow> lookup (put k v (restart s)) = lookup (restart (put k v s))"
  by (simp add: put_law restart_law)

text \<open>A computation that reads through the store and writes back keeps the agreement with a map.\<close>

lemma update_law:
  assumes "synced s" and "lookup s = m"
  shows "synced (put k (f (lookup s k)) s)" and "lookup (put k (f (lookup s k)) s) = m(k \<mapsto> f (m k))"
  using assms by (simp_all add: put_law)

end

text \<open>
  A component is a state and an operation per event. An invariant that every admissible
  event keeps holds after every run of admissible events.
\<close>

locale step_invariant =
  fixes step :: "'s \<Rightarrow> 'e \<Rightarrow> 's"
    and ok :: "'e \<Rightarrow> bool"
    and inv :: "'s \<Rightarrow> bool"
  assumes step_inv: "inv s \<Longrightarrow> ok e \<Longrightarrow> inv (step s e)"
begin

lemma run_inv: "inv s \<Longrightarrow> list_all ok es \<Longrightarrow> inv (foldl step s es)"
  by (induction es arbitrary: s) (auto intro: step_inv)

lemma run_inv_prefix: "inv s \<Longrightarrow> list_all ok es \<Longrightarrow> inv (foldl step s (take n es))"
  by (rule run_inv) (auto simp: list_all_iff dest: in_set_takeD)

end

subsection \<open>Lists\<close>

lemma take_last_append: "drop (length (xs @ ys) - length ys) (xs @ ys) = ys"
  by simp

lemma filter_length_less: "x \<in> set xs \<Longrightarrow> \<not> P x \<Longrightarrow> length (filter P xs) < length xs"
  by (metis length_filter_less)

lemma take_drop_remove1:
  "distinct xs \<Longrightarrow> i < length xs \<Longrightarrow> take i xs @ drop (Suc i) xs = remove1 (xs ! i) xs"
  by (induction xs arbitrary: i) (auto simp: nth_Cons split: nat.splits)

lemma mset_concat_split:
  "t \<in> set xs \<Longrightarrow> mset (concat (map f xs)) = mset (f t) + mset (concat (map f (remove1 t xs)))"
  by (induction xs) auto

lemma mset_filterD:
  assumes "mset xs = mset (filter P ys)" and "distinct ys"
  shows "distinct xs \<and> set xs \<subseteq> set ys \<and> length xs = length (filter P ys)"
  using assms
  by (metis distinct_filter filter_is_subset mset_eq_imp_distinct_iff mset_eq_length mset_eq_setD)

lemma sum_mset_nonneg_int:
  "(\<And>y. y \<in># W \<Longrightarrow> 0 \<le> f y) \<Longrightarrow> 0 \<le> (\<Sum>y\<in>#W. f y :: int)"
proof (induction W)
  case (add x W)
  then have "0 \<le> f x" "0 \<le> (\<Sum>y\<in>#W. f y)" by (simp_all add: add.IH)
  then show ?case by simp
qed simp

text \<open>\<open>Array.prototype.sort\<close> is stable, as \<^const>\<open>sort_key\<close> is.\<close>

abbreviation js_sort_by :: "('a \<Rightarrow> int) \<Rightarrow> 'a list \<Rightarrow> 'a list" where
  "js_sort_by f xs \<equiv> sort_key f xs"

end
