(* ===== verification/CircuitBreaker.thy ===== *)
theory CircuitBreaker
  imports Prelude
begin

text \<open>
  The circuit breaker of \<^verbatim>\<open>src/shared/utils/circuitBreaker.ts\<close> and the rows of
  \<^verbatim>\<open>src/lib/db/domainState.ts\<close> it is saved to.

  A breaker is a record with the fields of the class; \<open>'e\<close> is the type of the errors a
  guarded call throws. The calls of \<open>onStateChange\<close> are kept in the field
  \<open>stateChanges\<close> (oldest first) when a listener is installed. A database that throws is
  \<open>dbUp = False\<close>: the source swallows every database error. \<open>execute\<close> awaits the guarded
  call, so it is two steps, \<open>execute_begin\<close> and \<open>execute_settle\<close>, between which other calls
  on the same breaker may run.
\<close>

datatype circuit_state = CLOSED | DEGRADED | OPEN | HALF_OPEN

datatype failure_kind = Rate_limit | Quota_exhausted | Transient

record kind_threshold =
  kt_threshold :: "int option"
  kt_cooldown :: "int option"
  kt_immediateOpen :: "bool option"

text \<open>The \<open>reason\<close> strings of the transition records, one constructor per template.\<close>

datatype transition_reason =
    Manual_reset | Success_recovery | Probe_success | Recovery | Timeout_elapsed
  | Kind_reason failure_kind
  | Probe_failed int
  | Elevated_failures int int

record transition_record =
  tr_from :: circuit_state
  tr_to :: circuit_state
  tr_timestamp :: int
  tr_failureCount :: int
  tr_reason :: "transition_reason option"

record saved_options =
  so_failureThreshold :: "int option"
  so_resetTimeout :: "int option"
  so_halfOpenRequests :: "int option"
  so_lastFailureKind :: "failure_kind option"
  so_openCycleCount :: "int option"
  so_kindFailureCounts :: "(failure_kind \<rightharpoonup> int) option"

text \<open>A row; a state string that is none of the four known ones is \<^term>\<open>None\<close>.\<close>

record saved_breaker =
  sv_state :: "circuit_state option"
  sv_failureCount :: int
  sv_lastFailureTime :: "int option"
  sv_options :: "saved_options option"

record circuit_db =
  dbUp :: bool
  dbRows :: "(string, saved_breaker) js_map"

record 'e breaker =
  cb_name :: string
  failureThreshold :: int
  resetTimeout :: int
  halfOpenRequests :: int
  hasListener :: bool
  isFailure :: "'e \<Rightarrow> bool"
  cb_state :: circuit_state
  failureCount :: int
  successCount :: int
  lastFailureTime :: "int option"
  halfOpenAllowed :: int
  cooldownByKind :: "failure_kind \<rightharpoonup> int"
  classifyError :: "('e \<Rightarrow> unit + failure_kind option) option"
  lastFailureKind :: "failure_kind option"
  kindThresholds :: "failure_kind \<rightharpoonup> kind_threshold"
  degradationThreshold :: int
  maxBackoffMultiplier :: int
  backoffEscalationCount :: int
  kindFailureCounts :: "failure_kind \<rightharpoonup> int"
  openCycleCount :: int
  transitionHistory :: "transition_record list"
  maxTransitionHistory :: nat
  stateChanges :: "(circuit_state \<times> circuit_state) list"

record 'e breaker_options =
  op_failureThreshold :: "int option"
  op_resetTimeout :: "int option"
  op_halfOpenRequests :: "int option"
  op_hasListener :: "bool"
  op_isFailure :: "('e \<Rightarrow> bool) option"
  op_cooldownByKind :: "(failure_kind \<rightharpoonup> int) option"
  op_classifyError :: "('e \<Rightarrow> unit + failure_kind option) option"
  op_kindThresholds :: "(failure_kind \<rightharpoonup> kind_threshold) option"
  op_degradationThreshold :: "int option"
  op_maxBackoffMultiplier :: "int option"
  op_backoffEscalationCount :: "int option"

definition no_options :: "'e breaker_options" where
  "no_options = \<lparr>op_failureThreshold = None, op_resetTimeout = None, op_halfOpenRequests = None,
     op_hasListener = False, op_isFailure = None, op_cooldownByKind = None,
     op_classifyError = None, op_kindThresholds = None, op_degradationThreshold = None,
     op_maxBackoffMultiplier = None, op_backoffEscalationCount = None\<rparr>"

subsection \<open>The rows of the database\<close>

definition saveCircuitBreakerState :: "string \<Rightarrow> saved_breaker \<Rightarrow> circuit_db \<Rightarrow> circuit_db" where
  "saveCircuitBreakerState nm row d =
     (if dbUp d then d\<lparr>dbRows := map_set nm row (dbRows d)\<rparr> else d)"

definition loadCircuitBreakerState :: "string \<Rightarrow> circuit_db \<Rightarrow> saved_breaker option" where
  "loadCircuitBreakerState nm d =
     (if dbUp d
      then map_option (\<lambda>row. row\<lparr>sv_lastFailureTime :=
             (if truthy (sv_lastFailureTime row) then sv_lastFailureTime row else None)\<rparr>)
           (map_get (dbRows d) nm)
      else None)"

definition deleteCircuitBreakerState :: "string \<Rightarrow> circuit_db \<Rightarrow> circuit_db" where
  "deleteCircuitBreakerState nm d =
     (if dbUp d then d\<lparr>dbRows := map_delete nm (dbRows d)\<rparr> else d)"

definition deleteAllCircuitBreakerStates :: "circuit_db \<Rightarrow> circuit_db" where
  "deleteAllCircuitBreakerStates d = (if dbUp d then d\<lparr>dbRows := []\<rparr> else d)"

definition persistToDb :: "'e breaker \<Rightarrow> circuit_db \<Rightarrow> circuit_db" where
  "persistToDb b = saveCircuitBreakerState (cb_name b)
     \<lparr>sv_state = Some (cb_state b), sv_failureCount = failureCount b,
      sv_lastFailureTime = lastFailureTime b,
      sv_options = Some
        \<lparr>so_failureThreshold = Some (failureThreshold b), so_resetTimeout = Some (resetTimeout b),
         so_halfOpenRequests = Some (halfOpenRequests b), so_lastFailureKind = lastFailureKind b,
         so_openCycleCount = Some (openCycleCount b),
         so_kindFailureCounts = Some (kindFailureCounts b)\<rparr>\<rparr>"

definition restoreFromDb :: "circuit_db \<Rightarrow> 'e breaker \<Rightarrow> 'e breaker" where
  "restoreFromDb d b =
     (case loadCircuitBreakerState (cb_name b) d of
        None \<Rightarrow> b
      | Some saved \<Rightarrow>
          let b1 = (case sv_state saved of None \<Rightarrow> b | Some s \<Rightarrow> b\<lparr>cb_state := s\<rparr>);
              b2 = b1\<lparr>failureCount := sv_failureCount saved,
                      lastFailureTime := sv_lastFailureTime saved\<rparr>;
              b3 = (case Option.bind (sv_options saved) so_lastFailureKind of
                      None \<Rightarrow> b2 | Some k \<Rightarrow> b2\<lparr>lastFailureKind := Some k\<rparr>);
              b4 = b3\<lparr>openCycleCount := nullish (Option.bind (sv_options saved) so_openCycleCount) 0,
                      kindFailureCounts :=
                        nullish (Option.bind (sv_options saved) so_kindFailureCounts) Map.empty\<rparr>
          in if cb_state b4 = HALF_OPEN then b4\<lparr>halfOpenAllowed := halfOpenRequests b4\<rparr> else b4)"

definition new_breaker :: "string \<Rightarrow> 'e breaker_options \<Rightarrow> circuit_db \<Rightarrow> 'e breaker" where
  "new_breaker nm opts d =
     (let ft = nullish (op_failureThreshold opts) 5 in
      restoreFromDb d
      \<lparr>cb_name = nm,
       failureThreshold = ft,
       resetTimeout = nullish (op_resetTimeout opts) 30000,
       halfOpenRequests = nullish (op_halfOpenRequests opts) 1,
       hasListener = op_hasListener opts,
       isFailure = nullish (op_isFailure opts) (\<lambda>_. True),
       cb_state = CLOSED,
       failureCount = 0,
       successCount = 0,
       lastFailureTime = None,
       halfOpenAllowed = 0,
       cooldownByKind = nullish (op_cooldownByKind opts) Map.empty,
       classifyError = op_classifyError opts,
       lastFailureKind = None,
       kindThresholds = nullish (op_kindThresholds opts) Map.empty,
       degradationThreshold = nullish (op_degradationThreshold opts) (ceil_div (ft * 60) 100),
       maxBackoffMultiplier = nullish (op_maxBackoffMultiplier opts) 16,
       backoffEscalationCount = nullish (op_backoffEscalationCount opts) 3,
       kindFailureCounts = Map.empty,
       openCycleCount = 0,
       transitionHistory = [],
       maxTransitionHistory = 20,
       stateChanges = []\<rparr>)"

subsection \<open>Transitions and cooldowns\<close>

definition push_bounded :: "nat \<Rightarrow> 'a \<Rightarrow> 'a list \<Rightarrow> 'a list" where
  "push_bounded cap x xs = (if cap < length (xs @ [x]) then tl (xs @ [x]) else xs @ [x])"

definition transition ::
  "int \<Rightarrow> circuit_state \<Rightarrow> transition_reason option \<Rightarrow> 'e breaker \<Rightarrow> 'e breaker" where
  "transition now newState reason b =
     (let oldState = cb_state b;
          b1 = b\<lparr>cb_state := newState\<rparr>;
          b2 = (if newState = HALF_OPEN then b1\<lparr>halfOpenAllowed := halfOpenRequests b1\<rparr> else b1);
          b3 = b2\<lparr>transitionHistory := push_bounded (maxTransitionHistory b2)
                 \<lparr>tr_from = oldState, tr_to = newState, tr_timestamp = now,
                  tr_failureCount = failureCount b2, tr_reason = reason\<rparr> (transitionHistory b2)\<rparr>
      in if hasListener b3 \<and> oldState \<noteq> newState
         then b3\<lparr>stateChanges := stateChanges b3 @ [(oldState, newState)]\<rparr> else b3)"

definition effectiveResetTimeout :: "'e breaker \<Rightarrow> int" where
  "effectiveResetTimeout b =
     (if openCycleCount b \<le> backoffEscalationCount b then resetTimeout b
      else let escalationFactor = 2 ^ nat (openCycleCount b - backoffEscalationCount b)
           in min (resetTimeout b * escalationFactor) (resetTimeout b * maxBackoffMultiplier b))"

definition effectiveCooldown :: "'e breaker \<Rightarrow> int" where
  "effectiveCooldown b =
     (case lastFailureKind b of
        None \<Rightarrow> effectiveResetTimeout b
      | Some k \<Rightarrow>
          (case cooldownByKind b k of
             Some override \<Rightarrow> if 0 \<le> override then override else effectiveResetTimeout b
           | None \<Rightarrow> effectiveResetTimeout b))"

definition shouldAttemptReset :: "int \<Rightarrow> 'e breaker \<Rightarrow> bool" where
  "shouldAttemptReset now b =
     (case lastFailureTime b of
        None \<Rightarrow> True
      | Some t \<Rightarrow> t = 0 \<or> effectiveCooldown b \<le> now - t)"

definition timeUntilReset :: "int \<Rightarrow> 'e breaker \<Rightarrow> int" where
  "timeUntilReset now b =
     (case lastFailureTime b of
        None \<Rightarrow> 0
      | Some t \<Rightarrow> if t = 0 then 0 else max 0 (effectiveCooldown b - (now - t)))"

definition refreshOpenState :: "int \<Rightarrow> 'e breaker \<times> circuit_db \<Rightarrow> 'e breaker \<times> circuit_db" where
  "refreshOpenState now = (\<lambda>(b, d).
     if cb_state b = OPEN \<and> shouldAttemptReset now b
     then let b' = transition now HALF_OPEN (Some Timeout_elapsed) b in (b', persistToDb b' d)
     else (b, d))"

definition openCircuit :: "int \<Rightarrow> failure_kind option \<Rightarrow> 'e breaker \<Rightarrow> 'e breaker" where
  "openCircuit now kind b = transition now OPEN (map_option Kind_reason kind) b"

subsection \<open>Outcomes\<close>

definition onSuccess :: "int \<Rightarrow> 'e breaker \<times> circuit_db \<Rightarrow> 'e breaker \<times> circuit_db" where
  "onSuccess now = (\<lambda>(b, d).
     let b' = (if cb_state b = OPEN then
                 (transition now CLOSED (Some Success_recovery) b)
                   \<lparr>failureCount := 0, successCount := 0, lastFailureTime := None,
                    lastFailureKind := None, openCycleCount := 0, kindFailureCounts := Map.empty\<rparr>
               else if cb_state b = HALF_OPEN then
                 (transition now CLOSED (Some Probe_success) (b\<lparr>successCount := successCount b + 1\<rparr>))
                   \<lparr>failureCount := 0, lastFailureKind := None, openCycleCount := 0,
                    kindFailureCounts := Map.empty\<rparr>
               else
                 let b1 = b\<lparr>failureCount := max 0 (failureCount b - 1)\<rparr>
                 in if cb_state b1 = DEGRADED \<and> failureCount b1 \<le> degradationThreshold b1
                    then transition now CLOSED (Some Recovery) b1 else b1)
     in (b', persistToDb b' d))"

text \<open>The first half of \<open>_onFailure\<close>: the counters.\<close>

definition countFailure :: "int \<Rightarrow> failure_kind option \<Rightarrow> 'e breaker \<Rightarrow> 'e breaker" where
  "countFailure now kind b =
     (let b1 = b\<lparr>failureCount := failureCount b + 1, lastFailureTime := Some now,
                 lastFailureKind := kind\<rparr>
      in case kind of
           None \<Rightarrow> b1
         | Some k \<Rightarrow> b1\<lparr>kindFailureCounts :=
                        (kindFailureCounts b1)(k \<mapsto> or_else (kindFailureCounts b1 k) 0 + 1)\<rparr>)"

text \<open>The per-kind check: does this failure open the circuit on its kind's threshold?\<close>

definition kindTrips :: "failure_kind option \<Rightarrow> 'e breaker \<Rightarrow> bool" where
  "kindTrips kind b =
     (case kind of
        None \<Rightarrow> False
      | Some k \<Rightarrow>
          (case kindThresholds b k of
             None \<Rightarrow> False
           | Some cfg \<Rightarrow>
               let kindCount = or_else (kindFailureCounts b k) 0
               in (kt_immediateOpen cfg = Some True \<and> or_else (kt_threshold cfg) 1 \<le> kindCount)
                  \<or> or_else (kt_threshold cfg) (failureThreshold b) \<le> kindCount))"

definition onFailure ::
  "int \<Rightarrow> failure_kind option \<Rightarrow> 'e breaker \<times> circuit_db \<Rightarrow> 'e breaker \<times> circuit_db" where
  "onFailure now kind = (\<lambda>(b0, d).
     let b = countFailure now kind b0 in
     if kindTrips kind b then (openCircuit now kind b, d)
     else
       let b' = (case cb_state b of
                   OPEN \<Rightarrow> b
                 | HALF_OPEN \<Rightarrow>
                     let b1 = b\<lparr>openCycleCount := openCycleCount b + 1\<rparr>
                     in transition now OPEN (Some (Probe_failed (openCycleCount b1))) b1
                 | DEGRADED \<Rightarrow>
                     if failureThreshold b \<le> failureCount b then openCircuit now kind b else b
                 | CLOSED \<Rightarrow>
                     if failureThreshold b \<le> failureCount b then openCircuit now kind b
                     else if degradationThreshold b \<le> failureCount b
                     then transition now DEGRADED
                            (Some (Elevated_failures (failureCount b) (failureThreshold b))) b
                     else b)
       in (b', persistToDb b' d))"

subsection \<open>The operations a caller uses\<close>

datatype result_outcome = Success | Failure | Ignore

text \<open>\<open>classifyResult\<close> may throw (\<open>Inl ()\<close>): the resolution then counts as a success.\<close>

definition recordResolvedResult ::
  "int \<Rightarrow> 'r \<Rightarrow> ('r \<Rightarrow> unit + result_outcome) option
   \<Rightarrow> 'e breaker \<times> circuit_db \<Rightarrow> 'e breaker \<times> circuit_db" where
  "recordResolvedResult now res classify s =
     (let oc = (case classify of
                  None \<Rightarrow> Success
                | Some f \<Rightarrow> (case f res of Inl _ \<Rightarrow> Success | Inr x \<Rightarrow> x))
      in case oc of
           Failure \<Rightarrow> onFailure now None s
         | Success \<Rightarrow> onSuccess now s
         | Ignore \<Rightarrow> s)"

text \<open>\<open>CircuitBreakerOpenError\<close>: which message, the breaker's name, \<open>retryAfterMs\<close>.\<close>

datatype open_message = Is_OPEN | No_more_probes

record open_error =
  oe_message :: open_message
  oe_circuitName :: string
  oe_retryAfterMs :: int

definition execute_begin ::
  "int \<Rightarrow> 'e breaker \<times> circuit_db \<Rightarrow> (open_error + unit) \<times> 'e breaker \<times> circuit_db" where
  "execute_begin now s0 =
     (let (b, d) = refreshOpenState now s0 in
      if cb_state b = OPEN then
        (Inl \<lparr>oe_message = Is_OPEN, oe_circuitName = cb_name b,
              oe_retryAfterMs = timeUntilReset now b\<rparr>, b, d)
      else if cb_state b = HALF_OPEN \<and> halfOpenAllowed b \<le> 0 then
        (Inl \<lparr>oe_message = No_more_probes, oe_circuitName = cb_name b,
              oe_retryAfterMs = timeUntilReset now b\<rparr>, b, d)
      else if cb_state b = HALF_OPEN then
        (Inr (), b\<lparr>halfOpenAllowed := halfOpenAllowed b - 1\<rparr>, d)
      else (Inr (), b, d))"

text \<open>What the awaited call did.\<close>

datatype ('e, 'r) settled = Resolved 'r | Threw 'e

definition execute_settle ::
  "int \<Rightarrow> ('r \<Rightarrow> unit + result_outcome) option \<Rightarrow> ('e, 'r) settled
   \<Rightarrow> 'e breaker \<times> circuit_db \<Rightarrow> 'e breaker \<times> circuit_db" where
  "execute_settle now classify out s =
     (case out of
        Resolved res \<Rightarrow> recordResolvedResult now res classify s
      | Threw err \<Rightarrow>
          if isFailure (fst s) err then
            let kind = (case classifyError (fst s) of
                          None \<Rightarrow> None
                        | Some f \<Rightarrow> (case f err of Inl _ \<Rightarrow> None | Inr k \<Rightarrow> k))
            in onFailure now kind s
          else s)"

text \<open>
  A call that runs to its end with no other call in between: the guarded function is
  called only when the breaker admits it.
\<close>

definition execute ::
  "int \<Rightarrow> int \<Rightarrow> ('r \<Rightarrow> unit + result_outcome) option \<Rightarrow> ('e, 'r) settled
   \<Rightarrow> 'e breaker \<times> circuit_db \<Rightarrow> (open_error + ('e, 'r) settled) \<times> 'e breaker \<times> circuit_db" where
  "execute t0 t1 classify out s =
     (case execute_begin t0 s of
        (Inl e, s1) \<Rightarrow> (Inl e, s1)
      | (Inr _, s1) \<Rightarrow> (Inr out, execute_settle t1 classify out s1))"

definition canExecute ::
  "int \<Rightarrow> 'e breaker \<times> circuit_db \<Rightarrow> bool \<times> 'e breaker \<times> circuit_db" where
  "canExecute now s0 =
     (let (b, d) = refreshOpenState now s0 in
      (case cb_state b of
         CLOSED \<Rightarrow> True
       | DEGRADED \<Rightarrow> True
       | OPEN \<Rightarrow> False
       | HALF_OPEN \<Rightarrow> 0 < halfOpenAllowed b,
       b, d))"

definition getRetryAfterMs ::
  "int \<Rightarrow> 'e breaker \<times> circuit_db \<Rightarrow> int \<times> 'e breaker \<times> circuit_db" where
  "getRetryAfterMs now s0 =
     (let (b, d) = refreshOpenState now s0 in
      (if cb_state b = CLOSED \<or> cb_state b = DEGRADED then 0 else timeUntilReset now b, b, d))"

record breaker_status =
  st_name :: string
  st_state :: circuit_state
  st_failureCount :: int
  st_lastFailureTime :: "int option"
  st_retryAfterMs :: int
  st_lastFailureKind :: "failure_kind option"
  st_openCycleCount :: int
  st_kindFailureCounts :: "failure_kind \<rightharpoonup> int"
  st_degradationThreshold :: int
  st_effectiveResetTimeout :: int
  st_transitionHistory :: "transition_record list"

definition getStatus ::
  "int \<Rightarrow> 'e breaker \<times> circuit_db \<Rightarrow> breaker_status \<times> 'e breaker \<times> circuit_db" where
  "getStatus now s0 =
     (let s1 = refreshOpenState now s0; (r, b, d) = getRetryAfterMs now s1 in
      (\<lparr>st_name = cb_name b, st_state = cb_state b, st_failureCount = failureCount b,
        st_lastFailureTime = lastFailureTime b, st_retryAfterMs = r,
        st_lastFailureKind = lastFailureKind b, st_openCycleCount = openCycleCount b,
        st_kindFailureCounts = kindFailureCounts b,
        st_degradationThreshold = degradationThreshold b,
        st_effectiveResetTimeout = effectiveResetTimeout b,
        st_transitionHistory = transitionHistory b\<rparr>, b, d))"

definition reset_breaker :: "int \<Rightarrow> 'e breaker \<times> circuit_db \<Rightarrow> 'e breaker \<times> circuit_db" where
  "reset_breaker now = (\<lambda>(b, d).
     let b' = (transition now CLOSED (Some Manual_reset) b)
                \<lparr>failureCount := 0, successCount := 0, lastFailureTime := None,
                 lastFailureKind := None, openCycleCount := 0, kindFailureCounts := Map.empty\<rparr>
     in (b', persistToDb b' d))"

subsection \<open>What a transition and the helpers leave alone\<close>

lemma transition_simps [simp]:
  "cb_state (transition now q r b) = q"
  "cb_name (transition now q r b) = cb_name b"
  "failureThreshold (transition now q r b) = failureThreshold b"
  "resetTimeout (transition now q r b) = resetTimeout b"
  "halfOpenRequests (transition now q r b) = halfOpenRequests b"
  "hasListener (transition now q r b) = hasListener b"
  "isFailure (transition now q r b) = isFailure b"
  "failureCount (transition now q r b) = failureCount b"
  "successCount (transition now q r b) = successCount b"
  "lastFailureTime (transition now q r b) = lastFailureTime b"
  "cooldownByKind (transition now q r b) = cooldownByKind b"
  "classifyError (transition now q r b) = classifyError b"
  "lastFailureKind (transition now q r b) = lastFailureKind b"
  "kindThresholds (transition now q r b) = kindThresholds b"
  "degradationThreshold (transition now q r b) = degradationThreshold b"
  "maxBackoffMultiplier (transition now q r b) = maxBackoffMultiplier b"
  "backoffEscalationCount (transition now q r b) = backoffEscalationCount b"
  "kindFailureCounts (transition now q r b) = kindFailureCounts b"
  "openCycleCount (transition now q r b) = openCycleCount b"
  "maxTransitionHistory (transition now q r b) = maxTransitionHistory b"
  "halfOpenAllowed (transition now q r b) =
     (if q = HALF_OPEN then halfOpenRequests b else halfOpenAllowed b)"
  by (simp_all add: transition_def Let_def)

lemma transition_history:
  "transitionHistory (transition now q r b) = push_bounded (maxTransitionHistory b)
     \<lparr>tr_from = cb_state b, tr_to = q, tr_timestamp = now, tr_failureCount = failureCount b,
      tr_reason = r\<rparr> (transitionHistory b)"
  by (simp add: transition_def Let_def)

lemma countFailure_simps [simp]:
  "failureCount (countFailure now k b) = failureCount b + 1"
  "lastFailureTime (countFailure now k b) = Some now"
  "lastFailureKind (countFailure now k b) = k"
  "cb_state (countFailure now k b) = cb_state b"
  "cb_name (countFailure now k b) = cb_name b"
  "failureThreshold (countFailure now k b) = failureThreshold b"
  "degradationThreshold (countFailure now k b) = degradationThreshold b"
  "halfOpenAllowed (countFailure now k b) = halfOpenAllowed b"
  "halfOpenRequests (countFailure now k b) = halfOpenRequests b"
  "openCycleCount (countFailure now k b) = openCycleCount b"
  "transitionHistory (countFailure now k b) = transitionHistory b"
  "maxTransitionHistory (countFailure now k b) = maxTransitionHistory b"
  "kindThresholds (countFailure now k b) = kindThresholds b"
  "isFailure (countFailure now k b) = isFailure b"
  by (simp_all add: countFailure_def Let_def split: option.splits)

lemma push_bounded_length:
  "length xs \<le> cap \<Longrightarrow> length (push_bounded cap x xs) \<le> cap"
  by (simp add: push_bounded_def)

lemma push_bounded_last:
  "0 < cap \<Longrightarrow> push_bounded cap x xs \<noteq> [] \<and> last (push_bounded cap x xs) = x"
  by (cases xs) (auto simp: push_bounded_def)

text \<open>The bounded history is the end of the unbounded one.\<close>

lemma push_bounded_suffix:
  assumes "xs = drop (length full - cap) full"
  shows "push_bounded cap x xs = drop (length (full @ [x]) - cap) (full @ [x])"
proof (cases "cap \<le> length full")
  case True
  then have len: "length xs = cap" using assms by simp
  show ?thesis
  proof (cases cap)
    case 0
    with len show ?thesis by (simp add: push_bounded_def)
  next
    case (Suc c)
    with len have "xs \<noteq> []" by auto
    moreover have "drop (Suc (length full) - cap) full = tl xs"
      using True assms by (simp add: Suc_diff_le drop_Suc tl_drop)
    ultimately show ?thesis
      using len Suc True by (simp add: push_bounded_def)
  qed
next
  case False
  with assms show ?thesis by (simp add: push_bounded_def)
qed

subsection \<open>The invariant\<close>

text \<open>The recorded transitions form a path that ends in the current state.\<close>

fun chained :: "transition_record list \<Rightarrow> bool" where
  "chained [] = True"
| "chained [t] = True"
| "chained (t # u # ts) = (tr_to t = tr_from u \<and> chained (u # ts))"

definition history_ok :: "'e breaker \<Rightarrow> bool" where
  "history_ok b \<longleftrightarrow>
     length (transitionHistory b) \<le> maxTransitionHistory b \<and> chained (transitionHistory b) \<and>
     (transitionHistory b \<noteq> [] \<longrightarrow> tr_to (last (transitionHistory b)) = cb_state b)"

lemma chained_snoc:
  "chained (ts @ [t]) \<longleftrightarrow> chained ts \<and> (ts \<noteq> [] \<longrightarrow> tr_to (last ts) = tr_from t)"
  by (induction ts rule: chained.induct) auto

lemma chained_tl: "chained ts \<Longrightarrow> chained (tl ts)"
  by (induction ts rule: chained.induct) auto

lemma chained_push:
  assumes "chained ts" and "ts \<noteq> [] \<longrightarrow> tr_to (last ts) = tr_from t"
  shows "chained (push_bounded cap t ts)"
  using assms chained_tl [of "ts @ [t]"] by (simp add: push_bounded_def chained_snoc)

lemma transition_history_ok [simp]:
  assumes "history_ok b"
  shows "history_ok (transition now q r b)"
proof (cases "maxTransitionHistory b = 0")
  case True
  with assms have "transitionHistory b = []" by (simp add: history_ok_def)
  with True show ?thesis by (simp add: history_ok_def transition_history push_bounded_def)
next
  case False
  let ?t = "\<lparr>tr_from = cb_state b, tr_to = q, tr_timestamp = now,
             tr_failureCount = failureCount b, tr_reason = r\<rparr>"
  let ?h = "push_bounded (maxTransitionHistory b) ?t (transitionHistory b)"
  have "chained ?h"
    using assms by (intro chained_push) (simp_all add: history_ok_def)
  moreover have "last ?h = ?t"
    using push_bounded_last [of "maxTransitionHistory b" ?t "transitionHistory b"] False by simp
  moreover have "length ?h \<le> maxTransitionHistory b"
    using assms by (intro push_bounded_length) (simp add: history_ok_def)
  ultimately show ?thesis
    by (simp add: history_ok_def transition_history)
qed

text \<open>
  The invariant of a breaker that was not restored from a row: the counters are not
  negative, no more probes are allowed than configured, an open breaker knows when it
  failed last, a breaker that lets requests pass is below its thresholds, and the history
  is a bounded path to the current state.
\<close>

definition breaker_inv :: "'e breaker \<Rightarrow> bool" where
  "breaker_inv b \<longleftrightarrow>
     0 < failureThreshold b \<and> degradationThreshold b \<ge> 0 \<and> 0 \<le> halfOpenRequests b \<and>
     0 \<le> failureCount b \<and> 0 \<le> openCycleCount b \<and>
     0 \<le> halfOpenAllowed b \<and> halfOpenAllowed b \<le> halfOpenRequests b \<and>
     (cb_state b = OPEN \<longrightarrow> lastFailureTime b \<noteq> None) \<and>
     (cb_state b \<in> {CLOSED, DEGRADED} \<longrightarrow> failureCount b < failureThreshold b) \<and>
     (cb_state b = CLOSED \<longrightarrow> failureCount b \<le> degradationThreshold b) \<and>
     (cb_state b = DEGRADED \<longrightarrow> degradationThreshold b \<le> failureCount b) \<and>
     history_ok b"

lemma breaker_invI:
  assumes "history_ok b"
    and "0 < failureThreshold b" "0 \<le> degradationThreshold b" "0 \<le> halfOpenRequests b"
    and "0 \<le> failureCount b" "0 \<le> openCycleCount b"
    and "0 \<le> halfOpenAllowed b" "halfOpenAllowed b \<le> halfOpenRequests b"
    and "cb_state b = OPEN \<Longrightarrow> lastFailureTime b \<noteq> None"
    and "cb_state b = CLOSED \<Longrightarrow> failureCount b < failureThreshold b \<and> failureCount b \<le> degradationThreshold b"
    and "cb_state b = DEGRADED \<Longrightarrow> failureCount b < failureThreshold b \<and> degradationThreshold b \<le> failureCount b"
  shows "breaker_inv b"
  using assms by (auto simp: breaker_inv_def)

lemma history_ok_update [simp]:
  "history_ok (b\<lparr>failureCount := x1\<rparr>) = history_ok b"
  "history_ok (b\<lparr>successCount := x2\<rparr>) = history_ok b"
  "history_ok (b\<lparr>lastFailureTime := x3\<rparr>) = history_ok b"
  "history_ok (b\<lparr>lastFailureKind := x4\<rparr>) = history_ok b"
  "history_ok (b\<lparr>openCycleCount := x5\<rparr>) = history_ok b"
  "history_ok (b\<lparr>kindFailureCounts := x6\<rparr>) = history_ok b"
  "history_ok (b\<lparr>halfOpenAllowed := x7\<rparr>) = history_ok b"
  "history_ok (countFailure now k b) = history_ok b"
  by (simp_all add: history_ok_def)

lemma refreshOpenState_fst:
  "fst (refreshOpenState now s) =
     (if cb_state (fst s) = OPEN \<and> shouldAttemptReset now (fst s)
      then transition now HALF_OPEN (Some Timeout_elapsed) (fst s) else fst s)"
  by (simp add: refreshOpenState_def split_beta Let_def)

lemma refreshOpenState_inv: "breaker_inv (fst s) \<Longrightarrow> breaker_inv (fst (refreshOpenState now s))"
  by (auto simp: refreshOpenState_fst breaker_inv_def)

lemma onSuccess_inv: "breaker_inv (fst s) \<Longrightarrow> breaker_inv (fst (onSuccess now s))"
  by (cases s; cases "cb_state (fst s)")
    (auto simp: onSuccess_def Let_def breaker_inv_def max_def)

lemma openCircuit_simps [simp]:
  "cb_state (openCircuit now k b) = OPEN"
  "failureCount (openCircuit now k b) = failureCount b"
  "lastFailureTime (openCircuit now k b) = lastFailureTime b"
  "openCycleCount (openCircuit now k b) = openCycleCount b"
  "halfOpenAllowed (openCircuit now k b) = halfOpenAllowed b"
  "halfOpenRequests (openCircuit now k b) = halfOpenRequests b"
  "failureThreshold (openCircuit now k b) = failureThreshold b"
  "degradationThreshold (openCircuit now k b) = degradationThreshold b"
  "kindThresholds (openCircuit now k b) = kindThresholds b"
  "history_ok b \<Longrightarrow> history_ok (openCircuit now k b)"
  by (simp_all add: openCircuit_def)

lemma onFailure_inv: "breaker_inv (fst s) \<Longrightarrow> breaker_inv (fst (onFailure now k s))"
  by (cases s; cases "cb_state (fst s)")
    (auto simp: onFailure_def Let_def breaker_inv_def)

lemma recordResolvedResult_inv:
  "breaker_inv (fst s) \<Longrightarrow> breaker_inv (fst (recordResolvedResult now r c s))"
  by (auto simp: recordResolvedResult_def Let_def onSuccess_inv onFailure_inv
      split: option.splits sum.splits result_outcome.splits)

lemma execute_settle_inv:
  "breaker_inv (fst s) \<Longrightarrow> breaker_inv (fst (execute_settle now c out s))"
  by (cases out) (auto simp: execute_settle_def Let_def recordResolvedResult_inv onFailure_inv)

lemma execute_begin_inv: "breaker_inv (fst s) \<Longrightarrow> breaker_inv (fst (snd (execute_begin now s)))"
  using refreshOpenState_inv [of s now]
  by (cases "refreshOpenState now s") (auto simp: execute_begin_def breaker_inv_def)

subsection \<open>Runs of calls\<close>

text \<open>The calls a program makes on one breaker, each at its own time.\<close>

datatype ('e, 'r) breaker_call =
    Begin int
  | Settle int "('r \<Rightarrow> unit + result_outcome) option" "('e, 'r) settled"
  | Can_execute int
  | Retry_after int
  | Get_status int
  | Reset int

fun breaker_step ::
  "'e breaker \<times> circuit_db \<Rightarrow> ('e, 'r) breaker_call \<Rightarrow> 'e breaker \<times> circuit_db" where
  "breaker_step s (Begin now) = snd (execute_begin now s)"
| "breaker_step s (Settle now c out) = execute_settle now c out s"
| "breaker_step s (Can_execute now) = snd (canExecute now s)"
| "breaker_step s (Retry_after now) = snd (getRetryAfterMs now s)"
| "breaker_step s (Get_status now) = snd (getStatus now s)"
| "breaker_step s (Reset now) = reset_breaker now s"

lemma snd_canExecute [simp]: "snd (canExecute now s) = refreshOpenState now s"
  by (simp add: canExecute_def split_beta Let_def)

lemma snd_getRetryAfterMs [simp]: "snd (getRetryAfterMs now s) = refreshOpenState now s"
  by (simp add: getRetryAfterMs_def split_beta Let_def)

lemma snd_getStatus [simp]:
  "snd (getStatus now s) = refreshOpenState now (refreshOpenState now s)"
  by (simp add: getStatus_def split_beta Let_def)

lemma reset_breaker_inv: "breaker_inv (fst s) \<Longrightarrow> breaker_inv (fst (reset_breaker now s))"
  by (cases s) (auto simp: reset_breaker_def Let_def breaker_inv_def)

interpretation breaker: step_invariant breaker_step "\<lambda>_. True" "\<lambda>s. breaker_inv (fst s)"
proof
  fix s :: "'e breaker \<times> circuit_db" and c :: "('e, 'r) breaker_call"
  assume "breaker_inv (fst s)"
  then show "breaker_inv (fst (breaker_step s c))"
    by (cases c)
      (auto simp: execute_begin_inv execute_settle_inv refreshOpenState_inv reset_breaker_inv)
qed

lemma restore_absent:
  "loadCircuitBreakerState (cb_name b) d = None \<Longrightarrow> restoreFromDb d b = b"
  by (simp add: restoreFromDb_def)

definition options_ok :: "'e breaker_options \<Rightarrow> bool" where
  "options_ok opts \<longleftrightarrow> 0 < nullish (op_failureThreshold opts) 5 \<and>
     0 \<le> nullish (op_halfOpenRequests opts) 1 \<and> 0 \<le> nullish (op_degradationThreshold opts) 0"

lemma new_breaker_inv:
  assumes "options_ok opts" and "loadCircuitBreakerState nm d = None"
  shows "breaker_inv (new_breaker nm opts d)"
proof -
  have "0 \<le> nullish (op_degradationThreshold opts)
          (ceil_div (nullish (op_failureThreshold opts) 5 * 60) 100)"
    using assms(1) ceil_div_nonneg [of 100 "nullish (op_failureThreshold opts) 5 * 60"]
    by (cases "op_degradationThreshold opts") (auto simp: options_ok_def)
  then show ?thesis
    using assms by (simp add: new_breaker_def Let_def restore_absent breaker_inv_def
      history_ok_def options_ok_def)
qed

text \<open>
  \<open>_openCircuit\<close> never touches the counters of the path that leads to it: the effect of a
  failure on the state, for a failure with no kind.
\<close>

lemma onFailure_plain:
  "fst (onFailure now None (b, d)) =
     (let b' = countFailure now None b in
      case cb_state b of
        OPEN \<Rightarrow> b'
      | HALF_OPEN \<Rightarrow> transition now OPEN (Some (Probe_failed (openCycleCount b + 1)))
                       (b'\<lparr>openCycleCount := openCycleCount b + 1\<rparr>)
      | DEGRADED \<Rightarrow> if failureThreshold b \<le> failureCount b + 1 then openCircuit now None b' else b'
      | CLOSED \<Rightarrow> if failureThreshold b \<le> failureCount b + 1 then openCircuit now None b'
                   else if degradationThreshold b \<le> failureCount b + 1
                   then transition now DEGRADED
                     (Some (Elevated_failures (failureCount b + 1) (failureThreshold b))) b'
                   else b')"
  by (simp add: onFailure_def kindTrips_def Let_def split: circuit_state.split)

subsection \<open>A sample breaker for the witnesses\<close>

definition down_db :: circuit_db where
  "down_db = \<lparr>dbUp = False, dbRows = []\<rparr>"

definition breaker0 :: "int breaker" where
  "breaker0 = new_breaker ''openai'' no_options down_db"

lemma breaker0_simps [simp]:
  "cb_name breaker0 = ''openai''"
  "failureThreshold breaker0 = 5"
  "degradationThreshold breaker0 = 3"
  "resetTimeout breaker0 = 30000"
  "halfOpenRequests breaker0 = 1"
  "maxBackoffMultiplier breaker0 = 16"
  "backoffEscalationCount breaker0 = 3"
  "cb_state breaker0 = CLOSED"
  "failureCount breaker0 = 0"
  "openCycleCount breaker0 = 0"
  "lastFailureTime breaker0 = None"
  "lastFailureKind breaker0 = None"
  "halfOpenAllowed breaker0 = 0"
  "kindThresholds breaker0 = Map.empty"
  "kindFailureCounts breaker0 = Map.empty"
  "cooldownByKind breaker0 = Map.empty"
  "isFailure breaker0 = (\<lambda>_. True)"
  "hasListener breaker0 = False"
  "classifyError breaker0 = None"
  by (simp_all add: breaker0_def new_breaker_def no_options_def restoreFromDb_def down_db_def
      loadCircuitBreakerState_def Let_def ceil_div_def)

subsection \<open>Properties\<close>

text \<open>C1: Whatever calls a program makes on a breaker that was created without a saved row, in
  whatever order and at whatever times (calls that end long after they began included), its
  counters stay non-negative, it never allows more probes than configured, it is never open
  without a failure time, it lets requests pass only below the failure threshold, and its
  history is a bounded path of transitions ending in the current state.\<close>

theorem breaker_run_invariant:
  assumes "options_ok opts" and "loadCircuitBreakerState nm d = None"
  shows "breaker_inv (fst (foldl breaker_step (new_breaker nm opts d, d) calls))"
  using new_breaker_inv [OF assms]
  by (intro breaker.run_inv) (simp_all add: list_all_iff)

theorem breaker_run_invariant_witness:
  "breaker_inv (fst (foldl breaker_step (breaker0, down_db)
     [Settle 10 (None :: (nat \<Rightarrow> unit + result_outcome) option) (Threw 500), Begin 20, Reset 30]))"
  unfolding breaker0_def
  by (rule breaker_run_invariant)
    (simp_all add: options_ok_def no_options_def loadCircuitBreakerState_def down_db_def)

text \<open>Consecutive failures of no particular kind drive a fresh breaker through exactly the
  documented states: CLOSED below the degradation threshold, DEGRADED from there up to the
  failure threshold, OPEN from the failure threshold on; the failure count is the number of
  failures.\<close>

theorem consecutive_failures:
  assumes "cb_state b = CLOSED" and "failureCount b = 0"
    and "0 < degradationThreshold b" and "degradationThreshold b \<le> failureThreshold b"
  shows "(let b' = fst (foldl (\<lambda>s t. onFailure t None s) (b, d) ts); n = int (length ts) in
     failureCount b' = n \<and> degradationThreshold b' = degradationThreshold b \<and>
     failureThreshold b' = failureThreshold b \<and>
     cb_state b' = (if n < degradationThreshold b then CLOSED
                    else if n < failureThreshold b then DEGRADED else OPEN))"
proof (induction ts rule: rev_induct)
  case Nil
  show ?case using assms by simp
next
  case (snoc t ts)
  obtain b1 d1 where s: "foldl (\<lambda>s t. onFailure t None s) (b, d) ts = (b1, d1)" by fastforce
  with snoc assms show ?case
    by (simp add: Let_def onFailure_plain split: if_splits)
qed

theorem consecutive_failures_witness:
  "cb_state (fst (foldl (\<lambda>s t. onFailure t None s) (breaker0, down_db) [10, 20, 30, 40])) = DEGRADED"
  using consecutive_failures [of breaker0 down_db "[10, 20, 30, 40]"] by (simp add: Let_def)

text \<open>While an open breaker's cooldown has not elapsed, a guarded call is refused with the
  remaining time as \<open>retryAfterMs\<close> (which is positive), the guarded function is not called
  whatever it would have done, and neither the breaker nor its row changes.\<close>

theorem open_short_circuits:
  assumes "cb_state b = OPEN" and "lastFailureTime b = Some t" and "t \<noteq> 0"
    and "now - t < effectiveCooldown b"
  shows "execute now t1 c out (b, d) =
      (Inl \<lparr>oe_message = Is_OPEN, oe_circuitName = cb_name b,
            oe_retryAfterMs = effectiveCooldown b - (now - t)\<rparr>, b, d)
    \<and> 0 < effectiveCooldown b - (now - t)"
  using assms
  by (simp add: execute_def execute_begin_def refreshOpenState_def shouldAttemptReset_def
      timeUntilReset_def)

theorem open_short_circuits_witness:
  "fst (execute 150 160 (None :: (nat \<Rightarrow> unit + result_outcome) option) (Resolved 7)
      (breaker0\<lparr>cb_state := OPEN, lastFailureTime := Some 100\<rparr>, down_db))
    = Inl \<lparr>oe_message = Is_OPEN, oe_circuitName = ''openai'', oe_retryAfterMs = 29950\<rparr>"
proof -
  let ?b = "breaker0\<lparr>cb_state := OPEN, lastFailureTime := Some 100\<rparr>"
  have "effectiveCooldown ?b = 30000"
    by (simp add: effectiveCooldown_def effectiveResetTimeout_def)
  then show ?thesis
    using open_short_circuits [of ?b 100 150 160 None "Resolved (7::nat)" down_db] by simp
qed

text \<open>Which of a sequence of calls that begin, with none settling in between, are admitted.\<close>

fun admissions :: "'e breaker \<times> circuit_db \<Rightarrow> int list \<Rightarrow> bool list" where
  "admissions s [] = []"
| "admissions s (t # ts) =
     (case execute_begin t s of (r, s') \<Rightarrow> (r = Inr ()) # admissions s' ts)"

lemma admissions_half_open:
  assumes "cb_state b = HALF_OPEN" and "0 \<le> halfOpenAllowed b"
  shows "admissions (b, d) ts =
     replicate (min (length ts) (nat (halfOpenAllowed b))) True
     @ replicate (length ts - nat (halfOpenAllowed b)) False"
  using assms
proof (induction ts arbitrary: b)
  case Nil
  then show ?case by simp
next
  case (Cons t ts)
  show ?case
  proof (cases "halfOpenAllowed b = 0")
    case True
    then show ?thesis
      using Cons by (simp add: execute_begin_def refreshOpenState_def Let_def flip: replicate_Suc)
  next
    case False
    let ?b = "b\<lparr>halfOpenAllowed := halfOpenAllowed b - 1\<rparr>"
    have "execute_begin t (b, d) = (Inr (), ?b, d)"
      using Cons.prems False by (simp add: execute_begin_def refreshOpenState_def)
    moreover have "nat (halfOpenAllowed b) = Suc (nat (halfOpenAllowed b - 1))"
      using Cons.prems False by simp
    ultimately show ?thesis
      using Cons.IH [of ?b] Cons.prems False by simp
  qed
qed

text \<open>Between two outcomes a half-open breaker admits exactly its remaining probes: of any
  number of calls that begin, the first \<open>halfOpenAllowed\<close> are admitted and every later one is
  refused.\<close>

theorem half_open_probe_budget:
  assumes "cb_state b = HALF_OPEN" and "0 \<le> halfOpenAllowed b"
  shows "length (filter id (admissions (b, d) ts)) = min (length ts) (nat (halfOpenAllowed b))"
  by (simp add: admissions_half_open [OF assms])

theorem half_open_probe_budget_witness:
  "length (filter id (admissions
     (breaker0\<lparr>cb_state := HALF_OPEN, halfOpenAllowed := 2\<rparr>, down_db) [5, 6, 7])) = 2"
  using half_open_probe_budget [of "breaker0\<lparr>cb_state := HALF_OPEN, halfOpenAllowed := 2\<rparr>"
      down_db "[5, 6, 7]"] by simp

text \<open>The recovery cycle. Once the cooldown of an open breaker has elapsed and it may send a
  probe, the next guarded call runs; a probe that resolves as a success closes the breaker
  with all counters at zero, and a probe that fails reopens it with one more open cycle and
  the time of the probe as the new failure time.\<close>

theorem recovery_cycle:
  fixes b :: "'e breaker" and v :: 'r
  assumes "cb_state b = OPEN" and "shouldAttemptReset t0 b" and "0 < halfOpenRequests b"
    and "isFailure b e" and "classifyError b = None"
  shows "(let (r, b', d') = execute t0 t1 None (Resolved v) (b, d) in
      r = Inr (Resolved v) \<and> cb_state b' = CLOSED \<and> failureCount b' = 0 \<and> openCycleCount b' = 0
      \<and> lastFailureKind b' = None \<and> kindFailureCounts b' = Map.empty)
    \<and> (let (r, b', d') = execute t0 t1 (None :: ('r \<Rightarrow> unit + result_outcome) option) (Threw e) (b, d) in
      r = Inr (Threw e) \<and> cb_state b' = OPEN \<and> openCycleCount b' = openCycleCount b + 1
      \<and> lastFailureTime b' = Some t1 \<and> failureCount b' = failureCount b + 1)"
proof -
  let ?h = "(transition t0 HALF_OPEN (Some Timeout_elapsed) b)\<lparr>halfOpenAllowed := halfOpenRequests b - 1\<rparr>"
  have "execute_begin t0 (b, d) =
      (Inr (), ?h, persistToDb (transition t0 HALF_OPEN (Some Timeout_elapsed) b) d)"
    using assms(1-3) by (simp add: execute_begin_def refreshOpenState_def Let_def)
  then show ?thesis
    using assms(4,5)
    by (simp add: execute_def execute_settle_def recordResolvedResult_def onSuccess_def
        onFailure_def kindTrips_def Let_def)
qed

theorem recovery_cycle_witness:
  "cb_state (fst (snd (execute 40000 40100 (None :: (nat \<Rightarrow> unit + result_outcome) option)
      (Resolved 7) (breaker0\<lparr>cb_state := OPEN, lastFailureTime := Some 100\<rparr>, down_db)))) = CLOSED"
proof -
  let ?b = "breaker0\<lparr>cb_state := OPEN, lastFailureTime := Some 100\<rparr>"
  have "shouldAttemptReset 40000 ?b"
    by (simp add: shouldAttemptReset_def effectiveCooldown_def effectiveResetTimeout_def)
  then show ?thesis
    using recovery_cycle [of ?b 40000 0 40100 "7::nat" down_db]
    by (simp add: split_beta Let_def)
qed

text \<open>The adaptive backoff: the effective reset timeout starts at the configured one, never
  decreases as open cycles accumulate, doubles with each cycle beyond the escalation count
  until it reaches the cap, and never exceeds \<open>maxBackoffMultiplier\<close> times the configured
  one.\<close>

theorem backoff_escalation:
  assumes "0 \<le> resetTimeout b" and "1 \<le> maxBackoffMultiplier b" and "m \<le> n"
  shows "resetTimeout b \<le> effectiveResetTimeout (b\<lparr>openCycleCount := m\<rparr>)
    \<and> effectiveResetTimeout (b\<lparr>openCycleCount := m\<rparr>) \<le> effectiveResetTimeout (b\<lparr>openCycleCount := n\<rparr>)
    \<and> effectiveResetTimeout (b\<lparr>openCycleCount := n\<rparr>) \<le> resetTimeout b * maxBackoffMultiplier b
    \<and> effectiveResetTimeout (b\<lparr>openCycleCount := backoffEscalationCount b + int k\<rparr>)
       = resetTimeout b * min (2 ^ k) (maxBackoffMultiplier b)"
proof -
  have eq: "effectiveResetTimeout (b\<lparr>openCycleCount := j\<rparr>)
      = resetTimeout b * min (2 ^ nat (j - backoffEscalationCount b)) (maxBackoffMultiplier b)" for j
    using assms(1,2)
    by (simp add: effectiveResetTimeout_def Let_def min_mult_int)
  let ?f = "\<lambda>j. min (2 ^ nat (j - backoffEscalationCount b)) (maxBackoffMultiplier b)"
  have "(2::int) ^ nat (m - backoffEscalationCount b) \<le> 2 ^ nat (n - backoffEscalationCount b)"
    using assms(3) by (intro power_increasing) auto
  then have mono: "?f m \<le> ?f n" by (intro min.mono) auto
  have "1 \<le> ?f m" using assms(2) by simp
  with mono show ?thesis
    using assms(1) unfolding eq
    by (auto intro: mult_left_mono simp: mult_le_cancel_left1)
qed

theorem backoff_escalation_witness:
  "effectiveResetTimeout (breaker0\<lparr>openCycleCount := 5\<rparr>) = 120000"
proof -
  have "effectiveResetTimeout (breaker0\<lparr>openCycleCount := backoffEscalationCount breaker0 + int 2\<rparr>)
      = resetTimeout breaker0 * min (2 ^ 2) (maxBackoffMultiplier breaker0)"
    using backoff_escalation [of breaker0 3 5 2] by simp
  then show ?thesis by simp
qed

text \<open>Restarting the process: a breaker restored from the row an up database holds for the
  breaker that was saved has its state, counters, failure time and failure kind (a failure
  time of 0 reads back as none); a half-open one gets a full budget of probes.\<close>

theorem persist_restore_roundtrip:
  assumes "dbUp d" and "cb_name b = nm"
  shows "(let b' = new_breaker nm opts (persistToDb b d) in
     cb_state b' = cb_state b \<and> failureCount b' = failureCount b
     \<and> lastFailureTime b' = (if truthy (lastFailureTime b) then lastFailureTime b else None)
     \<and> lastFailureKind b' = lastFailureKind b \<and> openCycleCount b' = openCycleCount b
     \<and> kindFailureCounts b' = kindFailureCounts b
     \<and> halfOpenAllowed b' = (if cb_state b = HALF_OPEN then halfOpenRequests b' else 0))"
  using assms
  by (cases "lastFailureKind b")
    (simp_all add: new_breaker_def restoreFromDb_def persistToDb_def saveCircuitBreakerState_def
      loadCircuitBreakerState_def Let_def)

theorem persist_restore_roundtrip_witness:
  "cb_state (new_breaker ''openai'' (no_options :: int breaker_options)
     (persistToDb (breaker0\<lparr>cb_state := DEGRADED\<rparr>) \<lparr>dbUp = True, dbRows = []\<rparr>)) = DEGRADED"
  using persist_restore_roundtrip [of "\<lparr>dbUp = True, dbRows = []\<rparr>"
      "breaker0\<lparr>cb_state := DEGRADED\<rparr>" "''openai''" "no_options :: int breaker_options"]
  by (simp add: Let_def)

text \<open>A call that asks the breaker for admission or for its status, and reports no outcome.\<close>

fun asks :: "('e, 'r) breaker_call \<Rightarrow> bool" where
  "asks (Begin _) = True"
| "asks (Can_execute _) = True"
| "asks (Retry_after _) = True"
| "asks (Get_status _) = True"
| "asks _ = False"

definition exhausted :: "'e breaker \<Rightarrow> bool" where
  "exhausted b \<longleftrightarrow> cb_state b = HALF_OPEN \<and> halfOpenAllowed b \<le> 0"

lemma exhausted_refresh: "exhausted (fst s) \<Longrightarrow> refreshOpenState now s = s"
  by (cases s) (simp add: exhausted_def refreshOpenState_def)

lemma exhausted_begin:
  "exhausted (fst s) \<Longrightarrow> snd (execute_begin now s) = s \<and> fst (execute_begin now s) \<noteq> Inr ()"
  by (cases s) (simp add: exhausted_refresh execute_begin_def exhausted_def refreshOpenState_def)

lemma exhausted_forever:
  "exhausted (fst s) \<Longrightarrow> list_all asks calls \<Longrightarrow> foldl breaker_step s calls = s"
proof (induction calls)
  case (Cons c calls)
  have "breaker_step s c = s"
    using Cons.prems by (cases c) (auto simp: exhausted_begin exhausted_refresh)
  with Cons show ?case by simp
qed simp

text \<open>C4: A half-open breaker whose only probe ends with an error that \<open>isFailure\<close> excludes (a
  client disconnect, in the way the chat handler configures it) never admits a call again by
  itself: whatever calls ask for admission afterwards, at whatever times, the breaker stays
  half-open with no probe left and refuses them all.\<close>

theorem uncounted_probe_wedges:
  assumes "cb_state b = OPEN" and "shouldAttemptReset t0 b" and "halfOpenRequests b = 1"
    and "\<not> isFailure b e" and "list_all asks calls"
  shows "(let s1 = snd (execute t0 t1 c (Threw e) (b, d)); s2 = foldl breaker_step s1 calls in
     cb_state (fst s2) = HALF_OPEN \<and> fst (canExecute now s2) = False
     \<and> fst (execute_begin now s2) \<noteq> Inr ())"
proof -
  let ?h = "(transition t0 HALF_OPEN (Some Timeout_elapsed) b)\<lparr>halfOpenAllowed := 0\<rparr>"
  have "execute_begin t0 (b, d) =
      (Inr (), ?h, persistToDb (transition t0 HALF_OPEN (Some Timeout_elapsed) b) d)"
    using assms by (simp add: execute_begin_def refreshOpenState_def Let_def)
  then obtain d1 where s1: "snd (execute t0 t1 c (Threw e) (b, d)) = (?h, d1)"
    using assms(4) by (simp add: execute_def execute_settle_def)
  have ex: "exhausted (fst (?h, d1))" by (simp add: exhausted_def)
  show ?thesis
    using exhausted_forever [OF ex assms(5)] exhausted_begin [OF ex] exhausted_refresh [OF ex]
    by (simp add: s1 canExecute_def Let_def)
qed

theorem uncounted_probe_wedges_witness:
  "cb_state (fst (foldl breaker_step (snd (execute 40000 40100
      (None :: (nat \<Rightarrow> unit + result_outcome) option) (Threw 499)
      (breaker0\<lparr>cb_state := OPEN, lastFailureTime := Some 100, isFailure := (\<lambda>e. e \<noteq> 499)\<rparr>, down_db)))
      [Can_execute 99999999 :: (int, nat) breaker_call])) = HALF_OPEN"
proof -
  let ?b = "breaker0\<lparr>cb_state := OPEN, lastFailureTime := Some 100, isFailure := (\<lambda>e. e \<noteq> 499)\<rparr>"
  have "shouldAttemptReset 40000 ?b"
    by (simp add: shouldAttemptReset_def effectiveCooldown_def effectiveResetTimeout_def)
  then show ?thesis
    using uncounted_probe_wedges [of ?b 40000 499 "[Can_execute 99999999 :: (int, nat) breaker_call]"
        40100 "None :: (nat \<Rightarrow> unit + result_outcome) option" down_db 0]
    by (simp add: Let_def)
qed

text \<open>A failure that opens the circuit on its kind's own threshold does so in memory only: the
  saved row is left as it was before the failure, and a probe that fails this way does not
  count as an open cycle, so the backoff does not escalate.\<close>

theorem kind_trip_not_persisted:
  assumes "kindThresholds b k = Some cfg" and "kt_threshold cfg = Some n" and "0 < n"
    and "n \<le> or_else (kindFailureCounts b k) 0 + 1"
  shows "onFailure now (Some k) (b, d) = (openCircuit now (Some k) (countFailure now (Some k) b), d)
    \<and> cb_state (fst (onFailure now (Some k) (b, d))) = OPEN
    \<and> openCycleCount (fst (onFailure now (Some k) (b, d))) = openCycleCount b"
proof -
  have "kindFailureCounts (countFailure now (Some k) b) k
      = Some (or_else (kindFailureCounts b k) 0 + 1)"
    by (simp add: countFailure_def Let_def)
  then have "kindTrips (Some k) (countFailure now (Some k) b)"
    using assms by (simp add: kindTrips_def Let_def)
  then show ?thesis by (simp add: onFailure_def Let_def)
qed

theorem kind_trip_not_persisted_witness:
  "let b = breaker0\<lparr>kindThresholds := [Rate_limit \<mapsto>
       \<lparr>kt_threshold = Some 1, kt_cooldown = None, kt_immediateOpen = None\<rparr>]\<rparr>;
       s = onFailure 5 (Some Rate_limit) (b, \<lparr>dbUp = True, dbRows = []\<rparr>)
   in cb_state (fst s) = OPEN \<and> dbRows (snd s) = []"
  using kind_trip_not_persisted [of "breaker0\<lparr>kindThresholds := [Rate_limit \<mapsto>
       \<lparr>kt_threshold = Some 1, kt_cooldown = None, kt_immediateOpen = None\<rparr>]\<rparr>"
       Rate_limit _ 1 5 "\<lparr>dbUp = True, dbRows = []\<rparr>"]
  by (simp add: Let_def)

end
