(* ===== verification/CircuitRegistry.thy ===== *)
theory CircuitRegistry
  imports CircuitBreaker
begin

text \<open>
  The process-wide registry of \<^verbatim>\<open>src/shared/utils/circuitBreaker.ts\<close>: the map from names to
  breakers, its eviction of cold breakers, the periodic sweep and the bulk operations. The
  world is the map together with the database the breakers are saved to; a breaker is the
  value stored under its name, so a caller that keeps a reference to an evicted breaker is
  outside the model.
\<close>

definition MAX_REGISTRY_SIZE :: nat where
  "MAX_REGISTRY_SIZE = 500"

record 'e circuit_world =
  registry :: "(string, 'e breaker) js_map"
  circuitDb :: circuit_db

text \<open>\<open>getStatus()\<close> of every breaker in turn: each may move from OPEN to HALF_OPEN and be saved.\<close>

fun collect_statuses ::
  "int \<Rightarrow> string list \<Rightarrow> 'e circuit_world \<Rightarrow> (string \<times> breaker_status) list \<times> 'e circuit_world" where
  "collect_statuses now [] w = ([], w)"
| "collect_statuses now (n # ns) w =
     (case map_get (registry w) n of
        None \<Rightarrow> collect_statuses now ns w
      | Some b \<Rightarrow>
          let (st, b', d') = getStatus now (b, circuitDb w);
              (rest, w') = collect_statuses now ns
                (w\<lparr>registry := map_set n b' (registry w), circuitDb := d'\<rparr>)
          in ((n, st) # rest, w'))"

definition remove_breaker :: "'e circuit_world \<Rightarrow> string \<Rightarrow> 'e circuit_world" where
  "remove_breaker w n = w\<lparr>registry := map_delete n (registry w),
     circuitDb := deleteCircuitBreakerState n (circuitDb w)\<rparr>"

definition is_cold :: "breaker_status \<Rightarrow> bool" where
  "is_cold st \<longleftrightarrow> st_state st = CLOSED \<and> st_failureCount st = 0"

definition evictColdBreakersIfNeeded :: "int \<Rightarrow> 'e circuit_world \<Rightarrow> 'e circuit_world" where
  "evictColdBreakersIfNeeded now w =
     (if length (registry w) < MAX_REGISTRY_SIZE then w
      else
        let (sts, w1) = collect_statuses now (map fst (registry w)) w;
            candidates = map (\<lambda>(n, st). (n, or_else (st_lastFailureTime st) 0))
                           (filter (\<lambda>(n, st). is_cold st) sts);
            sorted_candidates = js_sort_by snd candidates;
            target = length (registry w1) - MAX_REGISTRY_SIZE + 1
        in foldl remove_breaker w1 (map fst (take target sorted_candidates)))"

text \<open>The body of the sweep timer (every five minutes).\<close>

definition registry_sweep :: "int \<Rightarrow> 'e circuit_world \<Rightarrow> 'e circuit_world" where
  "registry_sweep now w =
     (let (sts, w1) = collect_statuses now (map fst (registry w)) w
      in foldl remove_breaker w1
           (map fst (filter (\<lambda>(n, st). is_cold st \<and>
              (\<not> truthy (st_lastFailureTime st)
               \<or> 30 * 60 * 1000 < now - nullish (st_lastFailureTime st) 0)) sts)))"

definition apply_options :: "'e breaker_options \<Rightarrow> 'e breaker \<Rightarrow> 'e breaker" where
  "apply_options opts b =
     (let b1 = (case op_failureThreshold opts of None \<Rightarrow> b | Some n \<Rightarrow> b\<lparr>failureThreshold := n\<rparr>);
          b2 = (case op_resetTimeout opts of None \<Rightarrow> b1 | Some n \<Rightarrow> b1\<lparr>resetTimeout := n\<rparr>);
          b3 = (case op_halfOpenRequests opts of None \<Rightarrow> b2
                | Some n \<Rightarrow>
                    let b' = b2\<lparr>halfOpenRequests := n\<rparr>
                    in if cb_state b' = HALF_OPEN
                       then b'\<lparr>halfOpenAllowed := min (halfOpenAllowed b') (halfOpenRequests b')\<rparr>
                       else b');
          b4 = (if op_hasListener opts then b3\<lparr>hasListener := True\<rparr> else b3);
          b5 = (case op_isFailure opts of None \<Rightarrow> b4 | Some f \<Rightarrow> b4\<lparr>isFailure := f\<rparr>);
          b6 = (case op_cooldownByKind opts of None \<Rightarrow> b5
                | Some m \<Rightarrow> b5\<lparr>cooldownByKind := cooldownByKind b5 ++ m\<rparr>);
          b7 = (case op_classifyError opts of None \<Rightarrow> b6 | Some f \<Rightarrow> b6\<lparr>classifyError := Some f\<rparr>);
          b8 = (case op_kindThresholds opts of None \<Rightarrow> b7
                | Some m \<Rightarrow> b7\<lparr>kindThresholds := kindThresholds b7 ++ m\<rparr>);
          b9 = (case op_degradationThreshold opts of None \<Rightarrow> b8
                | Some n \<Rightarrow> b8\<lparr>degradationThreshold := n\<rparr>);
          b10 = (case op_maxBackoffMultiplier opts of None \<Rightarrow> b9
                 | Some n \<Rightarrow> b9\<lparr>maxBackoffMultiplier := n\<rparr>)
      in (case op_backoffEscalationCount opts of None \<Rightarrow> b10
          | Some n \<Rightarrow> b10\<lparr>backoffEscalationCount := n\<rparr>))"

definition getCircuitBreaker ::
  "int \<Rightarrow> string \<Rightarrow> 'e breaker_options option \<Rightarrow> 'e circuit_world \<Rightarrow> 'e breaker \<times> 'e circuit_world" where
  "getCircuitBreaker now n options w0 =
     (let w = (if map_has (registry w0) n then w0
               else let w1 = evictColdBreakersIfNeeded now w0
                    in w1\<lparr>registry := map_set n
                         (new_breaker n (nullish options no_options) (circuitDb w1)) (registry w1)\<rparr>);
          b = the (map_get (registry w) n)
      in case options of
           None \<Rightarrow> (b, w)
         | Some opts \<Rightarrow>
             let b' = apply_options opts b
             in (b', w\<lparr>registry := map_set n b' (registry w),
                       circuitDb := persistToDb b' (circuitDb w)\<rparr>))"

definition getAllCircuitBreakerStatuses ::
  "int \<Rightarrow> 'e circuit_world \<Rightarrow> breaker_status list \<times> 'e circuit_world" where
  "getAllCircuitBreakerStatuses now w =
     (let persisted = (if dbUp (circuitDb w)
                       then filter (\<lambda>n. n \<noteq> []) (map fst (dbRows (circuitDb w))) else []);
          w1 = foldl (\<lambda>w n. if map_has (registry w) n then w
                             else snd (getCircuitBreaker now n None w)) w persisted;
          (sts, w2) = collect_statuses now (map fst (registry w1)) w1
      in (map snd sts, w2))"

definition reset_one :: "int \<Rightarrow> 'e circuit_world \<Rightarrow> string \<Rightarrow> 'e circuit_world" where
  "reset_one now w n =
     (case map_get (registry w) n of
        None \<Rightarrow> w
      | Some b \<Rightarrow> let (b', d') = reset_breaker now (b, circuitDb w)
                 in w\<lparr>registry := map_set n b' (registry w), circuitDb := d'\<rparr>)"

definition resetAllCircuitBreakers :: "int \<Rightarrow> 'e circuit_world \<Rightarrow> 'e circuit_world" where
  "resetAllCircuitBreakers now w =
     (let w1 = foldl (reset_one now) w (map fst (registry w))
      in w1\<lparr>registry := [], circuitDb := deleteAllCircuitBreakerStates (circuitDb w1)\<rparr>)"

subsection \<open>Collecting statuses\<close>

lemma refresh_keeps:
  "cb_state (fst (refreshOpenState now s)) = CLOSED \<longleftrightarrow> cb_state (fst s) = CLOSED"
  "failureCount (fst (refreshOpenState now s)) = failureCount (fst s)"
  "lastFailureTime (fst (refreshOpenState now s)) = lastFailureTime (fst s)"
  by (simp_all add: refreshOpenState_fst)

lemma getStatus_fields:
  assumes "getStatus now (b, d) = (st, b', d')"
  shows "st_state st = cb_state b'" and "st_failureCount st = failureCount b'"
    and "st_lastFailureTime st = lastFailureTime b'"
    and "failureCount b' = failureCount b" and "lastFailureTime b' = lastFailureTime b"
    and "cb_state b' = CLOSED \<longleftrightarrow> cb_state b = CLOSED"
proof -
  have r: "fst (refreshOpenState now (refreshOpenState now (b, d))) = b'"
    using assms snd_getStatus [of now "(b, d)"] by (metis fst_conv snd_conv)
  show "st_state st = cb_state b'" "st_failureCount st = failureCount b'"
    "st_lastFailureTime st = lastFailureTime b'"
    using assms by (auto simp: getStatus_def getRetryAfterMs_def split_beta Let_def)
  show "failureCount b' = failureCount b" "lastFailureTime b' = lastFailureTime b"
    "cb_state b' = CLOSED \<longleftrightarrow> cb_state b = CLOSED"
    by (simp_all add: r [symmetric] refresh_keeps)
qed

lemma map_fst_set_present: "map_of m k \<noteq> None \<Longrightarrow> map fst (map_set k v m) = map fst m"
  by (induction m) auto

definition cold_at :: "'e circuit_world \<Rightarrow> string \<Rightarrow> bool" where
  "cold_at w n = (case map_get (registry w) n of None \<Rightarrow> False
     | Some b \<Rightarrow> cb_state b = CLOSED \<and> failureCount b = 0)"

lemma collect_statuses_step:
  assumes "map_get (registry w) n = Some b"
  obtains st b' d' where "getStatus now (b, circuitDb w) = (st, b', d')"
    and "collect_statuses now (n # ns) w =
      ((n, st) # fst (collect_statuses now ns
           (w\<lparr>registry := map_set n b' (registry w), circuitDb := d'\<rparr>)),
       snd (collect_statuses now ns (w\<lparr>registry := map_set n b' (registry w), circuitDb := d'\<rparr>)))"
    and "map fst (map_set n b' (registry w)) = map fst (registry w)"
    and "\<And>m. cold_at (w\<lparr>registry := map_set n b' (registry w), circuitDb := d'\<rparr>) m = cold_at w m"
    and "is_cold st = cold_at w n"
proof -
  obtain st b' d' where g: "getStatus now (b, circuitDb w) = (st, b', d')"
    by (metis prod_cases3)
  show ?thesis
  proof (rule that [OF g])
    show "collect_statuses now (n # ns) w =
      ((n, st) # fst (collect_statuses now ns
           (w\<lparr>registry := map_set n b' (registry w), circuitDb := d'\<rparr>)),
       snd (collect_statuses now ns (w\<lparr>registry := map_set n b' (registry w), circuitDb := d'\<rparr>)))"
      using assms g by (simp add: split_beta Let_def)
  qed (use assms getStatus_fields [OF g] in
      \<open>auto simp: map_fst_set_present cold_at_def is_cold_def split: option.splits\<close>)
qed

lemma collect_statuses_keeps:
  "map fst (registry (snd (collect_statuses now ns w))) = map fst (registry w)
   \<and> cold_at (snd (collect_statuses now ns w)) m = cold_at w m"
proof (induction ns arbitrary: w)
  case (Cons n ns)
  show ?case
  proof (cases "map_get (registry w) n")
    case (Some b)
    show ?thesis
      by (rule collect_statuses_step [OF Some, of now ns]) (simp add: Cons.IH)
  qed (use Cons.IH in simp)
qed simp

lemma collect_statuses_cold:
  "(n, st) \<in> set (fst (collect_statuses now ns w)) \<Longrightarrow> is_cold st = cold_at w n"
proof (induction ns arbitrary: w)
  case (Cons m ns)
  show ?case
  proof (cases "map_get (registry w) m")
    case (Some b)
    then show ?thesis
      by (rule collect_statuses_step [of _ _ _ now ns]) (use Cons in auto)
  qed (use Cons in simp)
qed simp

lemma collect_statuses_names:
  "set ns \<subseteq> fst ` set (registry w) \<Longrightarrow> map fst (fst (collect_statuses now ns w)) = ns"
proof (induction ns arbitrary: w)
  case (Cons m ns)
  then obtain b where b: "map_get (registry w) m = Some b"
    by (metis insert_subset list.set(2) map_of_eq_None_iff not_Some_eq)
  show ?case
    by (rule collect_statuses_step [OF b, of now ns])
      (use Cons in \<open>auto simp: image_set simp del: set_map\<close>)
qed simp

subsection \<open>Removing breakers\<close>

lemma registry_remove [simp]: "registry (remove_breaker w n) = map_delete n (registry w)"
  by (simp add: remove_breaker_def)

lemma foldl_remove_get:
  "map_get (registry (foldl remove_breaker w ns)) m =
     (if m \<in> set ns then None else map_get (registry w) m)"
  by (induction ns arbitrary: w) auto

lemma foldl_remove_wf: "map_wf (registry w) \<Longrightarrow> map_wf (registry (foldl remove_breaker w ns))"
  by (induction ns arbitrary: w) (simp_all add: map_wf_delete)

lemma foldl_remove_length:
  "map_wf (registry w) \<Longrightarrow> distinct ns \<Longrightarrow> set ns \<subseteq> fst ` set (registry w)
   \<Longrightarrow> length (registry (foldl remove_breaker w ns)) + length ns = length (registry w)"
proof (induction ns arbitrary: w)
  case (Cons n ns)
  then have "map_get (registry w) n \<noteq> None" by (auto simp: map_of_eq_None_iff)
  then have "Suc (length (registry (remove_breaker w n))) = length (registry w)"
    using Cons.prems(1) jsmap.count_del_present [of "registry w" n]
    by simp
  moreover have "set ns \<subseteq> fst ` set (registry (remove_breaker w n))"
    using Cons.prems by (auto simp: dom_map_of_conv_image_fst [symmetric] subset_iff domIff)
  ultimately show ?case
    using Cons by (simp add: map_wf_delete)
qed simp

subsection \<open>Eviction\<close>

definition evicted :: "int \<Rightarrow> 'e circuit_world \<Rightarrow> string list" where
  "evicted now w =
     (let (sts, w1) = collect_statuses now (map fst (registry w)) w
      in map fst (take (length (registry w1) - MAX_REGISTRY_SIZE + 1)
           (js_sort_by snd (map (\<lambda>(n, st). (n, or_else (st_lastFailureTime st) 0))
              (filter (\<lambda>(n, st). is_cold st) sts)))))"

lemma evict_eq:
  "evictColdBreakersIfNeeded now w =
     (if length (registry w) < MAX_REGISTRY_SIZE then w
      else foldl remove_breaker (snd (collect_statuses now (map fst (registry w)) w)) (evicted now w))"
  by (simp add: evictColdBreakersIfNeeded_def evicted_def split_beta Let_def)

lemma evicted_cold: "n \<in> set (evicted now w) \<Longrightarrow> cold_at w n"
  by (auto simp: evicted_def split_beta Let_def dest!: in_set_takeD collect_statuses_cold)

lemma cold_names:
  assumes "map_wf (registry w)"
  shows "map fst (filter (\<lambda>(n, st). is_cold st)
           (fst (collect_statuses now (map fst (registry w)) w)))
    = filter (cold_at w) (map fst (registry w))"
proof -
  let ?sts = "fst (collect_statuses now (map fst (registry w)) w)"
  have "map fst (filter (\<lambda>(n, st). is_cold st) ?sts) = map fst (filter (\<lambda>p. cold_at w (fst p)) ?sts)"
    by (rule arg_cong [where f = "map fst"], rule filter_cong)
      (auto dest: collect_statuses_cold)
  also have "\<dots> = filter (cold_at w) (map fst ?sts)" by (simp add: filter_map o_def)
  also have "map fst ?sts = map fst (registry w)" by (rule collect_statuses_names) simp
  finally show ?thesis .
qed

lemma evicted_distinct:
  assumes "map_wf (registry w)"
  shows "distinct (evicted now w)" and "set (evicted now w) \<subseteq> fst ` set (registry w)"
    and "length (evicted now w) = min (length (registry w) - MAX_REGISTRY_SIZE + 1)
           (length (filter (cold_at w) (map fst (registry w))))"
proof -
  let ?sts = "fst (collect_statuses now (map fst (registry w)) w)"
  let ?c = "map (\<lambda>(n, st). (n, or_else (st_lastFailureTime st) 0)) (filter (\<lambda>(n, st). is_cold st) ?sts)"
  let ?k = "length (registry (snd (collect_statuses now (map fst (registry w)) w))) - MAX_REGISTRY_SIZE + 1"
  have ev: "evicted now w = take ?k (map fst (js_sort_by snd ?c))"
    by (simp add: evicted_def split_beta Let_def take_map)
  have names: "map fst ?c = filter (cold_at w) (map fst (registry w))"
    using cold_names [OF assms] by (simp add: split_beta o_def)
  have len: "length (registry (snd (collect_statuses now (map fst (registry w)) w))) = length (registry w)"
    using collect_statuses_keeps by (metis length_map)
  have "mset (map fst (js_sort_by snd ?c)) = mset (map fst ?c)"
    by (simp only: mset_map mset_sort)
  then have "mset (map fst (js_sort_by snd ?c)) = mset (filter (cold_at w) (map fst (registry w)))"
    by (simp only: names)
  then have p: "distinct (map fst (js_sort_by snd ?c)) \<and>
      set (map fst (js_sort_by snd ?c)) \<subseteq> set (map fst (registry w)) \<and>
      length (map fst (js_sort_by snd ?c)) = length (filter (cold_at w) (map fst (registry w)))"
    using assms by (rule mset_filterD)
  then have perm: "distinct (map fst (js_sort_by snd ?c))"
      "set (map fst (js_sort_by snd ?c)) \<subseteq> fst ` set (registry w)"
      "length (map fst (js_sort_by snd ?c)) = length (filter (cold_at w) (map fst (registry w)))"
    by (simp_all only: list.set_map)
  show "distinct (evicted now w)" using perm(1) by (simp only: ev distinct_take)
  show "set (evicted now w) \<subseteq> fst ` set (registry w)"
    using perm(2) unfolding ev by (meson order_trans set_take_subset)
  show "length (evicted now w) = min (length (registry w) - MAX_REGISTRY_SIZE + 1)
           (length (filter (cold_at w) (map fst (registry w))))"
    unfolding ev length_take perm(3) len by simp
qed

lemma evict_wf: "map_wf (registry w) \<Longrightarrow> map_wf (registry (evictColdBreakersIfNeeded now w))"
  by (simp add: evict_eq foldl_remove_wf collect_statuses_keeps)

text \<open>Neither the eviction that makes room for a new breaker nor the periodic sweep ever
  removes a breaker that is not closed or that has failures on its account.\<close>

theorem eviction_spares_active:
  assumes "map_get (registry w) n = Some b" and "cb_state b \<noteq> CLOSED \<or> failureCount b \<noteq> 0"
  shows "map_has (registry (evictColdBreakersIfNeeded now w)) n
       \<and> map_has (registry (registry_sweep now w)) n"
proof -
  have cold: "\<not> cold_at w n" using assms by (auto simp: cold_at_def)
  have "map_has (registry (snd (collect_statuses now (map fst (registry w)) w))) n"
    using assms(1) collect_statuses_keeps [of now "map fst (registry w)" w n]
    by (metis map_of_eq_None_iff option.distinct(1) set_map)
  with cold show ?thesis
    using assms(1)
    by (auto simp: evict_eq registry_sweep_def split_beta Let_def foldl_remove_get
        dest: evicted_cold collect_statuses_cold)
qed

theorem eviction_spares_active_witness:
  "map_has (registry (registry_sweep 9999999 \<lparr>registry = [(''openai'', breaker0\<lparr>cb_state := OPEN,
      lastFailureTime := Some 100\<rparr>)], circuitDb = down_db\<rparr>)) ''openai''"
  using eviction_spares_active [of "\<lparr>registry = [(''openai'', breaker0\<lparr>cb_state := OPEN,
      lastFailureTime := Some 100\<rparr>)], circuitDb = down_db\<rparr>" "''openai''" _ 9999999]
  by simp

text \<open>Looking a breaker up, known or new, never lets the registry grow past its cap as long as
  it is within the cap and, when it is full, holds at least one cold breaker.\<close>

theorem registry_bounded:
  assumes "map_wf (registry w)" and "length (registry w) \<le> MAX_REGISTRY_SIZE"
    and "length (registry w) < MAX_REGISTRY_SIZE \<or> cold_at w m"
  shows "length (registry (snd (getCircuitBreaker now n opts w))) \<le> MAX_REGISTRY_SIZE
       \<and> map_wf (registry (snd (getCircuitBreaker now n opts w)))"
proof -
  let ?w1 = "evictColdBreakersIfNeeded now w"
  have room: "length (registry ?w1) < MAX_REGISTRY_SIZE"
  proof (cases "length (registry w) < MAX_REGISTRY_SIZE")
    case False
    with assms have m: "cold_at w m" and full: "length (registry w) = MAX_REGISTRY_SIZE" by auto
    from m have "m \<in> set (filter (cold_at w) (map fst (registry w)))"
      by (force simp: cold_at_def split: option.splits dest: map_of_SomeD)
    then have "0 < length (filter (cold_at w) (map fst (registry w)))"
      by (rule length_pos_if_in_set)
    then have "length (evicted now w) = 1"
      using evicted_distinct(3) [OF assms(1), of now] full
      by (metis Suc_leI One_nat_def add_0 diff_self_eq_0 min_absorb1)
    moreover have "length (registry ?w1) + length (evicted now w) = length (registry w)"
    proof -
      let ?w' = "snd (collect_statuses now (map fst (registry w)) w)"
      have k: "map fst (registry ?w') = map fst (registry w)" using collect_statuses_keeps by blast
      then have "set (evicted now w) \<subseteq> fst ` set (registry ?w')" "map_wf (registry ?w')"
          "length (registry ?w') = length (registry w)"
        using evicted_distinct(2) [OF assms(1), of now] assms(1) k
        by (metis list.set_map, simp, metis length_map)
      then show ?thesis
        using False foldl_remove_length [of ?w' "evicted now w"] evicted_distinct(1) [OF assms(1)]
        by (simp add: evict_eq)
    qed
    ultimately show ?thesis using full by simp
  qed (simp add: evict_eq)
  have "length (map_set n b (registry ?w1)) \<le> MAX_REGISTRY_SIZE" for b
    using jsmap.count_put_le [of n b "registry ?w1"] room by simp
  then show ?thesis
    using assms(1,2) evict_wf [OF assms(1), of now]
    by (cases opts) (auto simp: getCircuitBreaker_def Let_def jsmap.count_put_present map_wf_set)
qed

theorem registry_bounded_witness:
  "length (registry (snd (getCircuitBreaker 5 ''claude'' None
     \<lparr>registry = [(''openai'', breaker0)], circuitDb = down_db\<rparr>))) \<le> MAX_REGISTRY_SIZE"
  using registry_bounded [of "\<lparr>registry = [(''openai'', breaker0)], circuitDb = down_db\<rparr>" _ 5 "''claude''" None]
  by (simp add: MAX_REGISTRY_SIZE_def)

text \<open>Rounds of one failure of a kind followed by one success.\<close>

fun flapping :: "failure_kind \<Rightarrow> (int \<times> int) list \<Rightarrow> 'e breaker \<times> circuit_db \<Rightarrow> 'e breaker \<times> circuit_db" where
  "flapping k [] s = s"
| "flapping k ((t, t') # ts) s = flapping k ts (onSuccess t' (onFailure t (Some k) s))"

lemma flapping_counts:
  assumes "cb_state (fst s) = CLOSED" and "failureCount (fst s) = 0"
    and "kindThresholds (fst s) k = Some \<lparr>kt_threshold = Some m, kt_cooldown = cd, kt_immediateOpen = None\<rparr>"
    and "1 < degradationThreshold (fst s)" and "1 < failureThreshold (fst s)"
    and "0 < m" and "0 \<le> or_else (kindFailureCounts (fst s) k) 0"
    and "or_else (kindFailureCounts (fst s) k) 0 + int (length ts) < m"
  shows "(let b' = fst (flapping k ts s) in
     cb_state b' = CLOSED \<and> failureCount b' = 0 \<and> kindThresholds b' = kindThresholds (fst s)
     \<and> or_else (kindFailureCounts b' k) 0 = or_else (kindFailureCounts (fst s) k) 0 + int (length ts))"
  using assms
proof (induction ts arbitrary: s)
  case (Cons p ts)
  obtain t t' where p: "p = (t, t')" by (cases p)
  obtain b d where s: "s = (b, d)" by (cases s)
  define s2 where "s2 = onSuccess t' (onFailure t (Some k) s)"
  have kf: "kindFailureCounts (countFailure t (Some k) b) k = Some (or_else (kindFailureCounts b k) 0 + 1)"
    by (simp add: countFailure_def Let_def)
  have nt: "\<not> kindTrips (Some k) (countFailure t (Some k) b)"
    using Cons.prems s kf by (simp add: kindTrips_def Let_def)
  have s2: "fst s2 = (countFailure t (Some k) b)\<lparr>failureCount := 0\<rparr>"
    using Cons.prems s nt by (simp add: s2_def onFailure_def onSuccess_def Let_def)
  have dm: "degradationThreshold (fst s2) = degradationThreshold b" by (simp add: s2)
  have "or_else (kindFailureCounts (fst s2) k) 0 = or_else (kindFailureCounts b k) 0 + 1"
    using Cons.prems s kf by (simp add: s2)
  then show ?case
    using Cons.prems Cons.IH [of s2]
    unfolding p flapping.simps s2_def [symmetric] by (simp add: s s2 Let_def)
qed (simp add: Let_def)

text \<open>A breaker that is closed with no failure on its account, so that eviction may drop it,
  is not interchangeable with a fresh one: after \<open>m - 1\<close> failures of a kind with threshold
  \<open>m\<close>, each followed by a success, it is cold but one more failure of that kind opens it,
  while the breaker recreated under its name stays closed.\<close>

theorem cold_breaker_keeps_kind_counts:
  assumes "cb_state b = CLOSED" and "failureCount b = 0" and "kindFailureCounts b k = None"
    and "kindThresholds b k = Some \<lparr>kt_threshold = Some m, kt_cooldown = cd, kt_immediateOpen = None\<rparr>"
    and "1 < degradationThreshold b" and "1 < failureThreshold b" and "m = int (length ts) + 1" and "ts \<noteq> []"
  shows "(let b' = fst (flapping k ts (b, d)) in
      cb_state b' = CLOSED \<and> failureCount b' = 0
      \<and> cb_state (fst (onFailure t (Some k) (b', d))) = OPEN
      \<and> cb_state (fst (onFailure t (Some k) (b, d))) = CLOSED)"
proof -
  define b' where "b' = fst (flapping k ts (b, d))"
  have m: "0 < m" "1 < m" using assms(7,8) by (cases ts; simp)+
  have f: "cb_state b' = CLOSED" "failureCount b' = 0" "kindThresholds b' = kindThresholds b"
      "or_else (kindFailureCounts b' k) 0 = int (length ts)"
    using flapping_counts [of "(b, d)" k m cd ts] assms m by (simp_all add: b'_def Let_def)
  have "kindTrips (Some k) (countFailure t (Some k) b')"
    using f assms(4,7) m by (simp add: kindTrips_def Let_def countFailure_def)
  moreover have "\<not> kindTrips (Some k) (countFailure t (Some k) b)"
    using assms m by (simp add: kindTrips_def Let_def countFailure_def)
  ultimately show ?thesis
    using assms f by (simp add: b'_def [symmetric] Let_def onFailure_def)
qed

theorem cold_breaker_keeps_kind_counts_witness:
  "cb_state (fst (onFailure 9 (Some Rate_limit) (fst (flapping Rate_limit [(1, 2)]
     (breaker0\<lparr>kindThresholds := [Rate_limit \<mapsto>
        \<lparr>kt_threshold = Some 2, kt_cooldown = None, kt_immediateOpen = None\<rparr>]\<rparr>, down_db)), down_db))) = OPEN"
  using cold_breaker_keeps_kind_counts [of "breaker0\<lparr>kindThresholds := [Rate_limit \<mapsto>
      \<lparr>kt_threshold = Some 2, kt_cooldown = None, kt_immediateOpen = None\<rparr>]\<rparr>"
      Rate_limit 2 None "[(1, 2)]" down_db 9]
  by (simp add: Let_def)

end
