(* ===== verification/FairQueue.thy ===== *)
theory FairQueue
  imports Prelude "HOL-Library.Sublist"
begin

text \<open>
  The bounded multi-tenant fair queue of \<^verbatim>\<open>open-sse/services/admission/queue.ts\<close>: one FIFO
  bucket per tenant, a round-robin cursor over the tenants, caps on the number of entries and
  on their total cost, and the reservation that stops a large head from being passed over for
  ever. \<open>'i\<close> is the type of the entries' ids, \<open>'p\<close> that of their payloads. An absent
  \<open>skipCount\<close> reads as 0 everywhere in the source and is 0 here; the \<open>timerId\<close> field is
  only used by the controller and kept there.
\<close>

definition MAX_UNFITTABLE_SKIPS :: int where
  "MAX_UNFITTABLE_SKIPS = 2"

record ('i, 'p) queue_entry =
  e_id :: 'i
  e_tenantKey :: string
  e_cost :: int
  e_enqueuedAtMs :: int
  e_deadlineMs :: int
  e_payload :: 'p
  e_skipCount :: int

record ('i, 'p) fair_queue =
  fq_maxCount :: int
  fq_maxCost :: int
  fq_buckets :: "(string, ('i, 'p) queue_entry list) js_map"
  fq_order :: "string list"
  fq_cursor :: nat
  fq_count :: int
  fq_cost :: int

definition new_queue :: "int \<Rightarrow> int \<Rightarrow> ('i, 'p) fair_queue" where
  "new_queue maxCount maxCost =
     \<lparr>fq_maxCount = maxCount, fq_maxCost = maxCost, fq_buckets = [], fq_order = [],
      fq_cursor = 0, fq_count = 0, fq_cost = 0\<rparr>"

definition queue_snapshot :: "('i, 'p) fair_queue \<Rightarrow> int \<times> int" where
  "queue_snapshot q = (fq_count q, fq_cost q)"

definition canAccept :: "('i, 'p) fair_queue \<Rightarrow> int \<Rightarrow> bool" where
  "canAccept q entryCost =
     (if MAX_SAFE_INTEGER < entryCost \<or> entryCost \<le> 0 then False
      else if fq_maxCount q \<le> fq_count q then False
      else if fq_maxCost q - fq_cost q < entryCost then False
      else True)"

definition enqueue ::
  "('i, 'p) queue_entry \<Rightarrow> ('i, 'p) fair_queue \<Rightarrow> bool \<times> ('i, 'p) fair_queue" where
  "enqueue entry q =
     (if \<not> canAccept q (e_cost entry) then (False, q)
      else
        let t = e_tenantKey entry;
            q1 = (if map_has (fq_buckets q) t then q
                  else q\<lparr>fq_buckets := map_set t [] (fq_buckets q), fq_order := fq_order q @ [t]\<rparr>);
            bucket = the (map_get (fq_buckets q1) t)
        in (True, q1\<lparr>fq_buckets := map_set t (bucket @ [entry]) (fq_buckets q1),
                     fq_count := fq_count q1 + 1, fq_cost := fq_cost q1 + e_cost entry\<rparr>))"

text \<open>\<open>this.buckets.get(this.order[idx])?.[0]\<close>.\<close>

definition head_at :: "('i, 'p) fair_queue \<Rightarrow> nat \<Rightarrow> ('i, 'p) queue_entry option" where
  "head_at q idx =
     (case map_get (fq_buckets q) (fq_order q ! idx) of
        None \<Rightarrow> None
      | Some [] \<Rightarrow> None
      | Some (e # _) \<Rightarrow> Some e)"

text \<open>The indices the loops visit: from the cursor on, around the tenants once.\<close>

definition rotation :: "('i, 'p) fair_queue \<Rightarrow> nat list" where
  "rotation q = map (\<lambda>i. (fq_cursor q + i) mod length (fq_order q)) [0..<length (fq_order q)]"

definition takeAt ::
  "nat \<Rightarrow> ('i, 'p) fair_queue \<Rightarrow> ('i, 'p) queue_entry option \<times> ('i, 'p) fair_queue" where
  "takeAt idx q =
     (let t = fq_order q ! idx in
      case map_get (fq_buckets q) t of
        None \<Rightarrow> (None, q)
      | Some [] \<Rightarrow> (None, q)
      | Some (entry # rest) \<Rightarrow>
          let q1 = q\<lparr>fq_count := fq_count q - 1, fq_cost := fq_cost q - e_cost entry\<rparr>;
              q2 = (if rest = [] then
                      let ord = take idx (fq_order q) @ drop (Suc idx) (fq_order q)
                      in q1\<lparr>fq_buckets := map_delete t (fq_buckets q), fq_order := ord,
                            fq_cursor := (if ord = [] then 0 else idx mod length ord)\<rparr>
                    else q1\<lparr>fq_buckets := map_set t rest (fq_buckets q),
                           fq_cursor := (idx + 1) mod length (fq_order q)\<rparr>)
          in (Some (entry\<lparr>e_skipCount := 0\<rparr>), q2))"

text \<open>The oldest head, in rotation order, that was passed over often enough.\<close>

fun find_reserved ::
  "('i, 'p) fair_queue \<Rightarrow> nat list \<Rightarrow> (nat \<times> ('i, 'p) queue_entry) option
   \<Rightarrow> (nat \<times> ('i, 'p) queue_entry) option" where
  "find_reserved q [] reserved = reserved"
| "find_reserved q (idx # is) reserved =
     find_reserved q is
       (case head_at q idx of
          None \<Rightarrow> reserved
        | Some entry \<Rightarrow>
            if MAX_UNFITTABLE_SKIPS \<le> e_skipCount entry then
              (case reserved of
                 None \<Rightarrow> Some (idx, entry)
               | Some (_, r) \<Rightarrow>
                   if e_enqueuedAtMs entry < e_enqueuedAtMs r then Some (idx, entry) else reserved)
            else reserved)"

text \<open>The first head that fits, and the tenants whose heads were passed over on the way.\<close>

fun first_fitting ::
  "('i, 'p) fair_queue \<Rightarrow> int \<Rightarrow> nat list \<Rightarrow> string list \<Rightarrow> (nat \<times> string list) option" where
  "first_fitting q maxCost [] bypassed = None"
| "first_fitting q maxCost (idx # is) bypassed =
     (case head_at q idx of
        None \<Rightarrow> first_fitting q maxCost is bypassed
      | Some entry \<Rightarrow>
          if maxCost < e_cost entry
          then first_fitting q maxCost is (bypassed @ [fq_order q ! idx])
          else Some (idx, bypassed))"

definition bump_head :: "('i, 'p) fair_queue \<Rightarrow> string \<Rightarrow> ('i, 'p) fair_queue" where
  "bump_head q t =
     (case map_get (fq_buckets q) t of
        Some (e # es) \<Rightarrow>
          q\<lparr>fq_buckets := map_set t (e\<lparr>e_skipCount := e_skipCount e + 1\<rparr> # es) (fq_buckets q)\<rparr>
      | _ \<Rightarrow> q)"

definition dequeue ::
  "int \<Rightarrow> ('i, 'p) fair_queue \<Rightarrow> ('i, 'p) queue_entry option \<times> ('i, 'p) fair_queue" where
  "dequeue maxCost q =
     (if fq_count q = 0 then (None, q)
      else
        case find_reserved q (rotation q) None of
          Some (idx, entry) \<Rightarrow> if maxCost < e_cost entry then (None, q) else takeAt idx q
        | None \<Rightarrow>
            (case first_fitting q maxCost (rotation q) [] of
               None \<Rightarrow> (None, q)
             | Some (idx, bypassed) \<Rightarrow> takeAt idx (foldl bump_head q bypassed)))"

definition peek :: "('i, 'p) fair_queue \<Rightarrow> ('i, 'p) queue_entry option" where
  "peek q =
     (if fq_count q = 0 then None
      else Option.bind (List.find (\<lambda>idx. head_at q idx \<noteq> None) (rotation q)) (head_at q))"

text \<open>The index of the first entry with the id, if any.\<close>

fun findIndex_id :: "'i \<Rightarrow> ('i, 'p) queue_entry list \<Rightarrow> nat option" where
  "findIndex_id i [] = None"
| "findIndex_id i (e # es) = (if e_id e = i then Some 0 else map_option Suc (findIndex_id i es))"

definition remove_at ::
  "nat \<Rightarrow> nat \<Rightarrow> ('i, 'p) queue_entry list \<Rightarrow> ('i, 'p) fair_queue
   \<Rightarrow> ('i, 'p) queue_entry option \<times> ('i, 'p) fair_queue" where
  "remove_at ti idx bucket q =
     (let t = fq_order q ! ti;
          entry = bucket ! idx;
          rest = take idx bucket @ drop (Suc idx) bucket;
          q1 = q\<lparr>fq_count := fq_count q - 1, fq_cost := fq_cost q - e_cost entry\<rparr>
      in (Some entry,
          if rest = [] then
            let ord = take ti (fq_order q) @ drop (Suc ti) (fq_order q)
            in q1\<lparr>fq_buckets := map_delete t (fq_buckets q), fq_order := ord,
                  fq_cursor := (if ord = [] then 0
                                else if ti < fq_cursor q then fq_cursor q - 1
                                else if length ord \<le> fq_cursor q then 0
                                else fq_cursor q)\<rparr>
          else q1\<lparr>fq_buckets := map_set t rest (fq_buckets q)\<rparr>))"

fun remove_from ::
  "'i \<Rightarrow> nat list \<Rightarrow> ('i, 'p) fair_queue \<Rightarrow> ('i, 'p) queue_entry option \<times> ('i, 'p) fair_queue" where
  "remove_from i [] q = (None, q)"
| "remove_from i (ti # ts) q =
     (case map_get (fq_buckets q) (fq_order q ! ti) of
        None \<Rightarrow> remove_from i ts q
      | Some bucket \<Rightarrow>
          (case findIndex_id i bucket of
             None \<Rightarrow> remove_from i ts q
           | Some idx \<Rightarrow> remove_at ti idx bucket q))"

definition removeById ::
  "'i \<Rightarrow> ('i, 'p) fair_queue \<Rightarrow> ('i, 'p) queue_entry option \<times> ('i, 'p) fair_queue" where
  "removeById i q = remove_from i [0..<length (fq_order q)] q"

subsection \<open>The number of entries, and why draining ends\<close>

definition total :: "('i, 'p) fair_queue \<Rightarrow> nat" where
  "total q = sum_list (map (\<lambda>p. length (snd p)) (fq_buckets q))"

lemma sum_list_map_set:
  "map_of m k = Some v \<Longrightarrow>
   sum_list (map (\<lambda>p. f (snd p)) (map_set k w m)) + f v = sum_list (map (\<lambda>p. f (snd p)) m) + (f w :: nat)"
  by (induction m) (auto split: if_splits)

lemma sum_list_map_delete:
  "map_of m k = Some v \<Longrightarrow>
   sum_list (map (\<lambda>p. f (snd p)) (map_delete k m)) + (f v :: nat) \<le> sum_list (map (\<lambda>p. f (snd p)) m)"
proof (induction m)
  case (Cons p m)
  have le: "sum_list (map (\<lambda>p. f (snd p)) (map_delete k m)) \<le> sum_list (map (\<lambda>p. f (snd p)) m)"
    by (induction m) auto
  show ?case using Cons le by (cases p) (auto split: if_splits)
qed simp

lemma total_takeAt:
  assumes "takeAt idx q = (Some e, q')"
  shows "total q' < total q"
proof -
  let ?t = "fq_order q ! idx"
  obtain x rest where b: "map_get (fq_buckets q) ?t = Some (x # rest)"
    using assms by (auto simp: takeAt_def Let_def split: option.splits list.splits)
  show ?thesis
  proof (cases "rest = []")
    case True
    then show ?thesis
      using assms b sum_list_map_delete [OF b, of length]
      by (auto simp: takeAt_def Let_def total_def)
  next
    case False
    then show ?thesis
      using assms b sum_list_map_set [OF b, of length rest]
      by (auto simp: takeAt_def Let_def total_def)
  qed
qed

lemma total_bump_head [simp]: "total (bump_head q t) = total q"
proof (cases "\<exists>e es. map_get (fq_buckets q) t = Some (e # es)")
  case True
  then obtain e es where b: "map_get (fq_buckets q) t = Some (e # es)" by blast
  show ?thesis
    using sum_list_map_set [OF b, of length "e\<lparr>e_skipCount := e_skipCount e + 1\<rparr> # es"]
    by (simp add: bump_head_def total_def b)
next
  case False
  then show ?thesis by (auto simp: bump_head_def split: option.splits list.splits)
qed

lemma total_bumps [simp]: "total (foldl bump_head q ts) = total q"
  by (induction ts arbitrary: q) simp_all

lemma dequeue_takeAt:
  assumes "dequeue maxCost q = (Some e, q')"
  obtains idx ts where "takeAt idx (foldl bump_head q ts) = (Some e, q')"
  using assms that [of _ "[]"] that
  by (auto simp: dequeue_def split: if_splits option.splits)

lemma total_dequeue: "dequeue maxCost q = (Some e, q') \<Longrightarrow> total q' < total q"
  by (erule dequeue_takeAt) (use total_takeAt in fastforce)

function drain_loop ::
  "('i, 'p) fair_queue \<Rightarrow> ('i, 'p) queue_entry list \<times> ('i, 'p) fair_queue" where
  "drain_loop q =
     (case dequeue MAX_SAFE_INTEGER q of
        (None, q') \<Rightarrow> ([], q')
      | (Some e, q') \<Rightarrow> let (es, q'') = drain_loop q' in (e # es, q''))"
  by pat_completeness auto
termination
  by (relation "measure total") (auto dest: total_dequeue [OF sym])

declare drain_loop.simps [simp del]

definition drain ::
  "('i, 'p) fair_queue \<Rightarrow> ('i, 'p) queue_entry list \<times> ('i, 'p) fair_queue" where
  "drain q = (let (es, q') = drain_loop q in (es, q'\<lparr>fq_cursor := 0\<rparr>))"

subsection \<open>Buckets and their contents\<close>

definition bucket_of :: "('i, 'p) fair_queue \<Rightarrow> string \<Rightarrow> ('i, 'p) queue_entry list" where
  "bucket_of q t = (case map_get (fq_buckets q) t of None \<Rightarrow> [] | Some es \<Rightarrow> es)"

definition contents :: "('i, 'p) fair_queue \<Rightarrow> ('i, 'p) queue_entry list" where
  "contents q = concat (map (bucket_of q) (fq_order q))"

text \<open>What an entry is apart from how often it was passed over, and the queued work.\<close>

definition core :: "('i, 'p) queue_entry \<Rightarrow> ('i, 'p) queue_entry" where
  "core e = e\<lparr>e_skipCount := 0\<rparr>"

definition work :: "('i, 'p) fair_queue \<Rightarrow> ('i, 'p) queue_entry multiset" where
  "work q = image_mset core (mset (contents q))"

definition struct_inv :: "('i, 'p) fair_queue \<Rightarrow> bool" where
  "struct_inv q \<longleftrightarrow> map_wf (fq_buckets q) \<and> distinct (fq_order q)
     \<and> set (fq_order q) = fst ` set (fq_buckets q)
     \<and> (\<forall>t \<in> set (fq_order q). bucket_of q t \<noteq> [])"

definition set_bucket ::
  "string \<Rightarrow> ('i, 'p) queue_entry list \<Rightarrow> ('i, 'p) fair_queue \<Rightarrow> ('i, 'p) fair_queue" where
  "set_bucket t es q = q\<lparr>
     fq_buckets := (if es = [] then map_delete t (fq_buckets q) else map_set t es (fq_buckets q)),
     fq_order := (if es = [] then remove1 t (fq_order q) else fq_order q)\<rparr>"

lemma core_simps [simp]:
  "e_id (core e) = e_id e" "e_tenantKey (core e) = e_tenantKey e" "e_cost (core e) = e_cost e"
  "e_payload (core e) = e_payload e" "e_deadlineMs (core e) = e_deadlineMs e"
  "e_skipCount (core e) = 0" "core (core e) = core e"
  "core (e\<lparr>e_skipCount := n\<rparr>) = core e"
  by (simp_all add: core_def)

lemma bucket_of_cong: "fq_buckets q = fq_buckets r \<Longrightarrow> bucket_of q = bucket_of r"
  by (simp add: bucket_of_def fun_eq_iff)

lemma bucket_of_set_bucket [simp]: "bucket_of (set_bucket t es q) = (bucket_of q)(t := es)"
  by (auto simp: bucket_of_def set_bucket_def fun_eq_iff)

lemma order_set_bucket:
  "fq_order (set_bucket t es q) = (if es = [] then remove1 t (fq_order q) else fq_order q)"
  by (simp add: set_bucket_def)

lemma struct_set_bucket:
  assumes "struct_inv q" and "t \<in> set (fq_order q)"
  shows "struct_inv (set_bucket t es q)"
proof -
  have "fst ` set (map_delete t (fq_buckets q)) = fst ` set (fq_buckets q) - {t}"
    by (auto simp: AList.delete_eq)
  moreover have "t \<in> fst ` set (fq_buckets q)" using assms by (simp add: struct_inv_def)
  then have "map fst (map_set t es (fq_buckets q)) = map fst (fq_buckets q)"
    by (simp add: update_keys image_iff)
  then have "fst ` set (map_set t es (fq_buckets q)) = fst ` set (fq_buckets q)"
    by (metis list.set_map)
  moreover have "\<forall>u \<in> set (fq_order (set_bucket t es q)). bucket_of (set_bucket t es q) u \<noteq> []"
    using assms by (auto simp: struct_inv_def order_set_bucket)
  moreover have "set (fq_order (set_bucket t es q))
      = (if es = [] then set (fq_order q) - {t} else set (fq_order q))"
    using assms by (auto simp: struct_inv_def order_set_bucket)
  ultimately show ?thesis
    using assms
    by (simp add: struct_inv_def [of "set_bucket t es q"])
      (simp add: struct_inv_def set_bucket_def map_wf_set map_wf_delete)
qed

lemma mset_contents_set_bucket:
  assumes "struct_inv q" and "t \<in> set (fq_order q)"
  shows "mset (contents (set_bucket t es q)) + mset (bucket_of q t) = mset (contents q) + mset es"
proof -
  let ?rest = "mset (concat (map (bucket_of q) (remove1 t (fq_order q))))"
  have nt: "t \<notin> set (remove1 t (fq_order q))"
    using assms by (simp add: struct_inv_def)
  have same: "map ((bucket_of q)(t := es)) (remove1 t (fq_order q))
      = map (bucket_of q) (remove1 t (fq_order q))"
    using nt by (intro map_cong) auto
  have "mset (contents q) = mset (bucket_of q t) + ?rest"
    unfolding contents_def by (rule mset_concat_split [OF assms(2)])
  moreover have "mset (contents (set_bucket t es q)) = mset es + ?rest"
  proof (cases es)
    case Nil
    show ?thesis
      using same unfolding Nil
      by (simp only: contents_def bucket_of_set_bucket order_set_bucket if_True simp_thms mset.simps add_0)
  next
    case (Cons x xs)
    then show ?thesis
      using mset_concat_split [OF assms(2), of "(bucket_of q)(t := es)"] same
      by (simp only: contents_def bucket_of_set_bucket order_set_bucket list.distinct if_False fun_upd_same)
  qed
  ultimately show ?thesis by (simp add: ac_simps)
qed

lemma work_set_bucket:
  assumes "struct_inv q" and "t \<in> set (fq_order q)"
  shows "work (set_bucket t es q) + image_mset core (mset (bucket_of q t))
    = work q + image_mset core (mset es)"
  using mset_contents_set_bucket [OF assms, of es]
  by (simp add: work_def flip: image_mset_union)

text \<open>Fields the buckets do not depend on.\<close>

lemma work_update [simp]:
  "work (q\<lparr>fq_count := a\<rparr>) = work q" "work (q\<lparr>fq_cost := b\<rparr>) = work q"
  "work (q\<lparr>fq_cursor := c\<rparr>) = work q"
  by (simp_all add: work_def contents_def bucket_of_def [abs_def])

lemma struct_update [simp]:
  "struct_inv (q\<lparr>fq_count := a\<rparr>) = struct_inv q" "struct_inv (q\<lparr>fq_cost := b\<rparr>) = struct_inv q"
  "struct_inv (q\<lparr>fq_cursor := c\<rparr>) = struct_inv q"
  by (simp_all add: struct_inv_def bucket_of_def)

lemma bucket_update [simp]:
  "bucket_of (q\<lparr>fq_count := a\<rparr>) = bucket_of q" "bucket_of (q\<lparr>fq_cost := b\<rparr>) = bucket_of q"
  "bucket_of (q\<lparr>fq_cursor := c\<rparr>) = bucket_of q"
  by (simp_all add: bucket_of_def fun_eq_iff)

subsection \<open>The operations as bucket updates\<close>

lemma nonempty_bucket:
  assumes "struct_inv q" and "t \<in> set (fq_order q)"
  obtains e es where "map_get (fq_buckets q) t = Some (e # es)" and "bucket_of q t = e # es"
proof -
  have "bucket_of q t \<noteq> []" using assms by (simp add: struct_inv_def)
  then show ?thesis using that by (auto simp: bucket_of_def neq_Nil_conv split: option.splits)
qed

lemma takeAt_bucket:
  assumes "struct_inv q" and "idx < length (fq_order q)" and "bucket_of q (fq_order q ! idx) = e # es"
  shows "takeAt idx q = (Some (core e),
     (set_bucket (fq_order q ! idx) es q)
       \<lparr>fq_count := fq_count q - 1, fq_cost := fq_cost q - e_cost e,
        fq_cursor := (let n = length (fq_order (set_bucket (fq_order q ! idx) es q)) in
          if es = [] then (if n = 0 then 0 else idx mod n) else (idx + 1) mod n)\<rparr>)"
proof -
  have "map_get (fq_buckets q) (fq_order q ! idx) = Some (e # es)"
    using assms by (auto simp: bucket_of_def split: option.splits)
  moreover have "take idx (fq_order q) @ drop (Suc idx) (fq_order q) = remove1 (fq_order q ! idx) (fq_order q)"
    using assms by (intro take_drop_remove1) (simp_all add: struct_inv_def)
  ultimately show ?thesis
    by (simp add: takeAt_def Let_def set_bucket_def core_def)
qed

lemma bump_head_bucket:
  assumes "struct_inv q" and "t \<in> set (fq_order q)" and "bucket_of q t = e # es"
  shows "bump_head q t = set_bucket t (e\<lparr>e_skipCount := e_skipCount e + 1\<rparr> # es) q"
  using assms by (auto simp: bump_head_def set_bucket_def bucket_of_def split: option.splits)

lemma head_at_bucket:
  "head_at q idx = (case bucket_of q (fq_order q ! idx) of [] \<Rightarrow> None | e # _ \<Rightarrow> Some e)"
  by (auto simp: head_at_def bucket_of_def split: option.splits list.splits)

lemma rotation_less: "idx \<in> set (rotation q) \<Longrightarrow> idx < length (fq_order q)"
  by (cases "fq_order q = []") (auto simp: rotation_def)

subsection \<open>The invariant\<close>

definition entries_ok :: "('i, 'p) fair_queue \<Rightarrow> bool" where
  "entries_ok q \<longleftrightarrow> (\<forall>t e. e \<in> set (bucket_of q t) \<longrightarrow>
     e_tenantKey e = t \<and> 0 < e_cost e \<and> 0 \<le> e_skipCount e \<and> e_skipCount e \<le> MAX_UNFITTABLE_SKIPS)"

definition accounts_ok :: "('i, 'p) fair_queue \<Rightarrow> bool" where
  "accounts_ok q \<longleftrightarrow> fq_count q = int (size (work q)) \<and> fq_cost q = (\<Sum>e\<in>#work q. e_cost e)"

definition cursor_ok :: "('i, 'p) fair_queue \<Rightarrow> bool" where
  "cursor_ok q \<longleftrightarrow> (if fq_order q = [] then fq_cursor q = 0 else fq_cursor q < length (fq_order q))"

definition queue_inv :: "('i, 'p) fair_queue \<Rightarrow> bool" where
  "queue_inv q \<longleftrightarrow> struct_inv q \<and> entries_ok q \<and> accounts_ok q \<and> cursor_ok q
     \<and> fq_count q \<le> fq_maxCount q \<and> fq_cost q \<le> fq_maxCost q"

lemma new_queue_inv: "0 \<le> n \<Longrightarrow> 0 \<le> c \<Longrightarrow> queue_inv (new_queue n c)"
  by (simp add: queue_inv_def new_queue_def struct_inv_def entries_ok_def accounts_ok_def
      cursor_ok_def work_def contents_def bucket_of_def)

lemma work_new_queue [simp]: "work (new_queue n c) = {#}"
  by (simp add: new_queue_def work_def contents_def)

lemma order_nonempty_iff:
  assumes "struct_inv q"
  shows "work q = {#} \<longleftrightarrow> fq_order q = []"
  using assms by (auto simp: work_def contents_def struct_inv_def)

lemma count_zero_iff: "queue_inv q \<Longrightarrow> fq_count q = 0 \<longleftrightarrow> fq_order q = []"
  using order_nonempty_iff [of q] by (simp add: queue_inv_def accounts_ok_def)

text \<open>Replacing the bucket of a tenant that is queued.\<close>

lemma queue_inv_set_bucket:
  assumes "queue_inv q" and "t \<in> set (fq_order q)"
    and "\<And>e. e \<in> set es \<Longrightarrow> e_tenantKey e = t \<and> 0 < e_cost e \<and> 0 \<le> e_skipCount e
           \<and> e_skipCount e \<le> MAX_UNFITTABLE_SKIPS"
    and "n = int (size (work (set_bucket t es q)))"
    and "c = (\<Sum>e\<in>#work (set_bucket t es q). e_cost e)"
    and "n \<le> fq_maxCount q" and "c \<le> fq_maxCost q"
    and "if fq_order (set_bucket t es q) = [] then k = 0 else k < length (fq_order (set_bucket t es q))"
  shows "queue_inv ((set_bucket t es q)\<lparr>fq_count := n, fq_cost := c, fq_cursor := k\<rparr>)"
proof -
  have "struct_inv (set_bucket t es q)"
    using assms(1,2) by (auto simp: queue_inv_def intro: struct_set_bucket)
  moreover have "entries_ok (set_bucket t es q)"
    using assms(1,3) by (auto simp: entries_ok_def queue_inv_def)
  ultimately show ?thesis
    using assms(4-8)
    by (simp add: queue_inv_def entries_ok_def accounts_ok_def cursor_ok_def)
      (simp add: set_bucket_def)
qed

subsection \<open>Taking an entry\<close>

lemma takeAt_spec:
  assumes "queue_inv q" and "idx < length (fq_order q)"
  obtains e es q' where "bucket_of q (fq_order q ! idx) = e # es"
    and "takeAt idx q = (Some (core e), q')" and "queue_inv q'"
    and "work q = add_mset (core e) (work q')"
    and "bucket_of q' = (bucket_of q)(fq_order q ! idx := es)"
    and "fq_maxCount q' = fq_maxCount q" and "fq_maxCost q' = fq_maxCost q"
proof -
  let ?t = "fq_order q ! idx"
  have inv: "struct_inv q" using assms by (simp add: queue_inv_def)
  have t: "?t \<in> set (fq_order q)" using assms by simp
  obtain e es where b: "bucket_of q ?t = e # es" using nonempty_bucket [OF inv t] by blast
  let ?r = "set_bucket ?t es q"
  have w: "work q = add_mset (core e) (work ?r)"
    using work_set_bucket [OF inv t, of es] b by simp
  define q' where "q' = ?r\<lparr>fq_count := fq_count q - 1, fq_cost := fq_cost q - e_cost e,
        fq_cursor := (let n = length (fq_order ?r) in
          if es = [] then (if n = 0 then 0 else idx mod n) else (idx + 1) mod n)\<rparr>"
  have "queue_inv q'"
    unfolding q'_def
  proof (rule queue_inv_set_bucket [OF assms(1) t])
    show "e_tenantKey x = ?t \<and> 0 < e_cost x \<and> 0 \<le> e_skipCount x \<and> e_skipCount x \<le> MAX_UNFITTABLE_SKIPS"
      if "x \<in> set es" for x
      using assms(1) b that unfolding queue_inv_def entries_ok_def
      by (metis list.set_intros(2))
    have "e \<in> set (bucket_of q ?t)" using b by simp
    then have "0 < e_cost e" using assms(1) by (auto simp: queue_inv_def entries_ok_def)
    then show "fq_cost q - e_cost e \<le> fq_maxCost q" using assms(1) by (simp add: queue_inv_def)
    show "if fq_order ?r = [] then (let n = length (fq_order ?r) in
          if es = [] then (if n = 0 then 0 else idx mod n) else (idx + 1) mod n) = 0
       else (let n = length (fq_order ?r) in
          if es = [] then (if n = 0 then 0 else idx mod n) else (idx + 1) mod n) < length (fq_order ?r)"
      using t by (auto simp: Let_def order_set_bucket)
  qed (use assms(1) w in \<open>auto simp: queue_inv_def accounts_ok_def\<close>)
  moreover have "takeAt idx q = (Some (core e), q')"
    unfolding q'_def by (rule takeAt_bucket [OF inv assms(2) b])
  moreover have "work q = add_mset (core e) (work q')" using w by (simp add: q'_def)
  moreover have "bucket_of q' = (bucket_of q)(?t := es)" by (simp add: q'_def)
  moreover have "fq_maxCount q' = fq_maxCount q" "fq_maxCost q' = fq_maxCost q"
    by (simp_all add: q'_def set_bucket_def)
  ultimately show thesis using b that by blast
qed

text \<open>Passing heads over: only their skip counts change.\<close>

lemma bump_heads_spec:
  assumes "queue_inv q" and "distinct ts" and "set ts \<subseteq> set (fq_order q)"
    and "\<And>t e es. t \<in> set ts \<Longrightarrow> bucket_of q t = e # es \<Longrightarrow> e_skipCount e < MAX_UNFITTABLE_SKIPS"
  shows "queue_inv (foldl bump_head q ts) \<and> work (foldl bump_head q ts) = work q
    \<and> fq_order (foldl bump_head q ts) = fq_order q
    \<and> fq_maxCount (foldl bump_head q ts) = fq_maxCount q
    \<and> fq_maxCost (foldl bump_head q ts) = fq_maxCost q
    \<and> (\<forall>t. bucket_of (foldl bump_head q ts) t =
         (case bucket_of q t of [] \<Rightarrow> []
          | e # es \<Rightarrow> (if t \<in> set ts then e\<lparr>e_skipCount := e_skipCount e + 1\<rparr> else e) # es))"
  using assms
proof (induction ts arbitrary: q)
  case Nil
  then show ?case by (auto split: list.splits)
next
  case (Cons t ts)
  have inv: "struct_inv q" and t: "t \<in> set (fq_order q)"
    using Cons.prems by (auto simp: queue_inv_def)
  obtain e es where b: "bucket_of q t = e # es" using nonempty_bucket [OF inv t] by blast
  let ?e = "e\<lparr>e_skipCount := e_skipCount e + 1\<rparr>"
  define r where "r = bump_head q t"
  have r: "r = set_bucket t (?e # es) q"
    unfolding r_def by (rule bump_head_bucket [OF inv t b])
  have w: "work r = work q"
    using work_set_bucket [OF inv t, of "?e # es"] b by (simp add: r)
  have ord: "fq_order r = fq_order q" by (simp add: r set_bucket_def)
  have flds: "fq_count r = fq_count q" "fq_cost r = fq_cost q" "fq_cursor r = fq_cursor q"
      "fq_maxCount r = fq_maxCount q" "fq_maxCost r = fq_maxCost q"
    by (simp_all add: r set_bucket_def)
  have skip: "e_skipCount e < MAX_UNFITTABLE_SKIPS" using Cons.prems(4) [of t] b by simp
  have ok: "\<And>x. x \<in> set (e # es) \<Longrightarrow> e_tenantKey x = t \<and> 0 < e_cost x \<and> 0 \<le> e_skipCount x
      \<and> e_skipCount x \<le> MAX_UNFITTABLE_SKIPS"
    using Cons.prems(1) b unfolding queue_inv_def entries_ok_def by metis
  have "struct_inv r" unfolding r by (rule struct_set_bucket [OF inv t])
  moreover have "entries_ok r"
    using Cons.prems(1) ok skip unfolding queue_inv_def entries_ok_def r
    by (auto simp: MAX_UNFITTABLE_SKIPS_def)
  ultimately have rinv: "queue_inv r"
    using Cons.prems(1) w ord flds by (simp add: queue_inv_def accounts_ok_def cursor_ok_def)
  have "e_skipCount x < MAX_UNFITTABLE_SKIPS" if "u \<in> set ts" "bucket_of r u = x # xs" for u x xs
    using that Cons.prems(2) Cons.prems(4) [of u] by (auto simp: r split: if_splits)
  then have "queue_inv (foldl bump_head r ts) \<and> work (foldl bump_head r ts) = work r
    \<and> fq_order (foldl bump_head r ts) = fq_order r
    \<and> fq_maxCount (foldl bump_head r ts) = fq_maxCount r
    \<and> fq_maxCost (foldl bump_head r ts) = fq_maxCost r
    \<and> (\<forall>t. bucket_of (foldl bump_head r ts) t =
         (case bucket_of r t of [] \<Rightarrow> []
          | e # es \<Rightarrow> (if t \<in> set ts then e\<lparr>e_skipCount := e_skipCount e + 1\<rparr> else e) # es))"
    using Cons.IH [OF rinv] Cons.prems(2,3) ord by simp
  then show ?case
    using Cons.prems(2) w ord flds b
    by (auto simp: r_def [symmetric] r split: list.splits if_splits)
qed

subsection \<open>The searches of a dequeue\<close>

lemma inj_on_shift_mod: "inj_on (\<lambda>i. (c + i) mod n) {0..<n :: nat}"
proof -
  have le: "i = j" if "i \<le> j" "j < n" "(c + i) mod n = (c + j) mod n" for i j
  proof -
    have "n dvd (c + j) - (c + i)"
      using that by (metis add_left_mono mod_eq_dvd_iff_nat)
    then have "n dvd j - i" by simp
    then show ?thesis using that(1,2) dvd_imp_le [of n "j - i"] by linarith
  qed
  show ?thesis
  proof (rule inj_onI)
    fix i j assume "i \<in> {0..<n}" "j \<in> {0..<n}" "(c + i) mod n = (c + j) mod n"
    then show "i = j" using le [of i j] le [of j i] by (cases "i \<le> j") simp_all
  qed
qed

lemma distinct_rotation: "distinct (rotation q)"
  using inj_on_shift_mod by (simp add: rotation_def distinct_map)

lemma set_rotation: "set (rotation q) = {0..<length (fq_order q)}"
proof (rule card_seteq)
  show "set (rotation q) \<subseteq> {0..<length (fq_order q)}" by (auto dest: rotation_less)
  show "card {0..<length (fq_order q)} \<le> card (set (rotation q))"
    using distinct_card [OF distinct_rotation, of q] by (simp add: rotation_def)
qed simp

definition reserve ::
  "('i, 'p) fair_queue \<Rightarrow> nat \<Rightarrow> (nat \<times> ('i, 'p) queue_entry) option
   \<Rightarrow> (nat \<times> ('i, 'p) queue_entry) option" where
  "reserve q idx r = (case head_at q idx of
          None \<Rightarrow> r
        | Some entry \<Rightarrow>
            if MAX_UNFITTABLE_SKIPS \<le> e_skipCount entry then
              (case r of
                 None \<Rightarrow> Some (idx, entry)
               | Some (_, r') \<Rightarrow>
                   if e_enqueuedAtMs entry < e_enqueuedAtMs r' then Some (idx, entry) else r)
            else r)"

lemma find_reserved_reserve: "find_reserved q (idx # is) r = find_reserved q is (reserve q idx r)"
  by (simp add: reserve_def)

lemma reserve_Some:
  "reserve q i r = Some (idx, e) \<Longrightarrow>
     r = Some (idx, e) \<or> (idx = i \<and> head_at q i = Some e \<and> MAX_UNFITTABLE_SKIPS \<le> e_skipCount e)"
  by (auto simp: reserve_def split: option.splits if_splits)

lemma reserve_None:
  "reserve q i r = None \<Longrightarrow>
     r = None \<and> (\<forall>e. head_at q i = Some e \<longrightarrow> e_skipCount e < MAX_UNFITTABLE_SKIPS)"
  by (auto simp: reserve_def split: option.splits if_splits)

lemma find_reserved_Some:
  assumes "find_reserved q is r = Some (idx, e)"
  shows "r = Some (idx, e) \<or>
    (idx \<in> set is \<and> head_at q idx = Some e \<and> MAX_UNFITTABLE_SKIPS \<le> e_skipCount e)"
  using assms
proof (induction "is" arbitrary: r)
  case (Cons i "is")
  have "find_reserved q is (reserve q i r) = Some (idx, e)"
    using Cons.prems unfolding find_reserved_reserve .
  from Cons.IH [OF this] show ?case using reserve_Some [of q i r idx e] by auto
qed simp

lemma find_reserved_None:
  assumes "find_reserved q is r = None"
  shows "r = None \<and> (\<forall>idx \<in> set is. \<forall>e. head_at q idx = Some e \<longrightarrow> e_skipCount e < MAX_UNFITTABLE_SKIPS)"
  using assms
proof (induction "is" arbitrary: r)
  case (Cons i "is")
  have "find_reserved q is (reserve q i r) = None"
    using Cons.prems unfolding find_reserved_reserve .
  from Cons.IH [OF this] show ?case using reserve_None [of q i r] by auto
qed simp

lemma first_fitting_None:
  "first_fitting q m is by = None \<Longrightarrow> idx \<in> set is \<Longrightarrow> head_at q idx = Some e \<Longrightarrow> m < e_cost e"
  by (induction "is" arbitrary: "by") (auto split: option.splits if_splits)

lemma first_fitting_Some:
  assumes "first_fitting q m is by = Some (idx, by')"
    and "\<And>i. i \<in> set is \<Longrightarrow> head_at q i \<noteq> None"
  obtains pre suf e where "is = pre @ idx # suf" and "head_at q idx = Some e" and "e_cost e \<le> m"
    and "by' = by @ map ((!) (fq_order q)) pre"
    and "\<And>i x. i \<in> set pre \<Longrightarrow> head_at q i = Some x \<Longrightarrow> m < e_cost x"
  using assms
proof (induction "is" arbitrary: "by" thesis)
  case (Cons i "is")
  have "head_at q i \<noteq> None" using Cons.prems(3) by simp
  then obtain x where x: "head_at q i = Some x" by blast
  show ?case
  proof (cases "m < e_cost x")
    case True
    then have ff: "first_fitting q m is (by @ [fq_order q ! i]) = Some (idx, by')"
      using Cons.prems(2) x by simp
    show ?thesis
    proof (rule Cons.IH [OF _ ff])
      fix pre suf e
      assume *: "is = pre @ idx # suf" "head_at q idx = Some e" "e_cost e \<le> m"
        "by' = (by @ [fq_order q ! i]) @ map ((!) (fq_order q)) pre"
        and low: "\<And>i x. i \<in> set pre \<Longrightarrow> head_at q i = Some x \<Longrightarrow> m < e_cost x"
      have "m < e_cost y" if "j \<in> set (i # pre)" "head_at q j = Some y" for j y
        using that low [of j y] True x by auto
      then show ?thesis
        using Cons.prems(1) [of "i # pre" suf e] * by simp
    qed (use Cons.prems(3) in auto)
  next
    case False
    then show ?thesis using Cons.prems(1) [of "[]" "is" x] Cons.prems(2) x by auto
  qed
qed simp

lemma head_at_present:
  assumes "queue_inv q" and "idx < length (fq_order q)"
  obtains e es where "head_at q idx = Some e" and "bucket_of q (fq_order q ! idx) = e # es"
proof -
  have "fq_order q ! idx \<in> set (fq_order q)" using assms by simp
  then show thesis
    using nonempty_bucket [of q "fq_order q ! idx"] assms that
    by (auto simp: queue_inv_def head_at_bucket)
qed

text \<open>With no reserved head, the heads that do not fit are passed over up to the first that does.\<close>

lemma fitting_branch:
  assumes inv: "queue_inv q" and none: "find_reserved q (rotation q) None = None"
    and ff: "first_fitting q m (rotation q) [] = Some (idx, by')"
  obtains y ys where "idx < length (fq_order q)" and "bucket_of q (fq_order q ! idx) = y # ys"
    and "e_cost y \<le> m"
    and "queue_inv (foldl bump_head q by')" and "work (foldl bump_head q by') = work q"
    and "fq_order (foldl bump_head q by') = fq_order q"
    and "fq_maxCount (foldl bump_head q by') = fq_maxCount q"
    and "fq_maxCost (foldl bump_head q by') = fq_maxCost q"
    and "bucket_of (foldl bump_head q by') (fq_order q ! idx) = y # ys"
    and "\<And>u. map core (bucket_of (foldl bump_head q by') u) = map core (bucket_of q u)"
proof -
  have heads: "\<And>i. i \<in> set (rotation q) \<Longrightarrow> head_at q i \<noteq> None"
    using head_at_present [OF inv] by (metis option.distinct(1) rotation_less)
  obtain pre suf y where rot: "rotation q = pre @ idx # suf" and y: "head_at q idx = Some y" "e_cost y \<le> m"
    and by': "by' = map ((!) (fq_order q)) pre"
    using first_fitting_Some [OF ff heads] by (metis append_Nil)
  obtain ys where ys: "bucket_of q (fq_order q ! idx) = y # ys"
    using y(1) by (auto simp: head_at_bucket split: list.splits)
  have dist: "distinct (fq_order q)" using inv by (simp add: queue_inv_def struct_inv_def)
  have less: "\<And>i. i \<in> set pre \<union> {idx} \<Longrightarrow> i < length (fq_order q)"
    using rot rotation_less [of _ q] by auto
  have "distinct (pre @ [idx])" using distinct_rotation [of q] rot by auto
  then have bd: "distinct by'" "fq_order q ! idx \<notin> set by'"
    using dist less by (auto simp: by' distinct_map inj_on_def nth_eq_iff_index_eq)
  have sub: "set by' \<subseteq> set (fq_order q)" using less by (auto simp: by')
  have low: "e_skipCount e < MAX_UNFITTABLE_SKIPS" if "t \<in> set by'" "bucket_of q t = e # es" for t e es
  proof -
    have "t \<in> (\<lambda>i. fq_order q ! i) ` set pre" using \<open>t \<in> set by'\<close> unfolding by' by simp
    then obtain i where i: "i \<in> set pre" "t = fq_order q ! i" by blast
    then have "head_at q i = Some e" using \<open>bucket_of q t = e # es\<close> by (simp add: head_at_bucket)
    then show ?thesis using find_reserved_None [OF none] rot i(1) by auto
  qed
  note bump = bump_heads_spec [OF inv bd(1) sub low]
  show thesis
  proof (rule that [OF _ ys y(2)])
    show "map core (bucket_of (foldl bump_head q by') u) = map core (bucket_of q u)" for u
      using bump by (simp split: list.split)
    show "bucket_of (foldl bump_head q by') (fq_order q ! idx) = y # ys"
      using bump bd(2) ys by simp
  qed (use bump less in auto)
qed

text \<open>Everything a dequeue that returns an entry does.\<close>

lemma dequeue_Some:
  assumes inv: "queue_inv q" and deq: "dequeue m q = (Some e, q')"
  obtains t x xs where "t \<in> set (fq_order q)" and "bucket_of q t = x # xs" and "e = core x"
    and "e_cost x \<le> m" and "queue_inv q'" and "work q = add_mset e (work q')"
    and "map core (bucket_of q' t) = map core xs"
    and "\<And>u. u \<noteq> t \<Longrightarrow> map core (bucket_of q' u) = map core (bucket_of q u)"
    and "fq_maxCount q' = fq_maxCount q" and "fq_maxCost q' = fq_maxCost q"
proof -
  have c: "fq_count q \<noteq> 0" using deq by (auto simp: dequeue_def split: if_splits)
  show thesis
  proof (cases "find_reserved q (rotation q) None")
    case (Some p)
    obtain idx y where p: "p = (idx, y)" by (cases p)
    then have y: "idx \<in> set (rotation q)" "head_at q idx = Some y"
      using find_reserved_Some [of q "rotation q" None idx y] Some by auto
    have take: "takeAt idx q = (Some e, q')" "e_cost y \<le> m"
      using deq c Some p by (auto simp: dequeue_def split: if_splits)
    have idx: "idx < length (fq_order q)" using y(1) by (rule rotation_less)
    show thesis
    proof (rule takeAt_spec [OF inv idx])
      fix x xs r assume *: "bucket_of q (fq_order q ! idx) = x # xs" "takeAt idx q = (Some (core x), r)"
        "queue_inv r" "work q = add_mset (core x) (work r)"
        "bucket_of r = (bucket_of q)(fq_order q ! idx := xs)"
        "fq_maxCount r = fq_maxCount q" "fq_maxCost r = fq_maxCost q"
      have "x = y" using * y(2) by (simp add: head_at_bucket)
      then show thesis
        using that [of "fq_order q ! idx" x xs] * take idx by simp
    qed
  next
    case None
    then obtain idx by' where ff: "first_fitting q m (rotation q) [] = Some (idx, by')"
      and take: "takeAt idx (foldl bump_head q by') = (Some e, q')"
      using deq c by (auto simp: dequeue_def split: option.splits)
    let ?r = "foldl bump_head q by'"
    show thesis
    proof (rule fitting_branch [OF inv None ff])
      fix y ys
      assume r: "idx < length (fq_order q)" "bucket_of q (fq_order q ! idx) = y # ys" "e_cost y \<le> m"
        "queue_inv ?r" "work ?r = work q" "fq_order ?r = fq_order q" "fq_maxCount ?r = fq_maxCount q"
        "fq_maxCost ?r = fq_maxCost q" "bucket_of ?r (fq_order q ! idx) = y # ys"
        "\<And>u. map core (bucket_of ?r u) = map core (bucket_of q u)"
      have idx: "idx < length (fq_order ?r)" using r by simp
      show thesis
      proof (rule takeAt_spec [OF r(4) idx])
        fix x xs r' assume *: "bucket_of ?r (fq_order ?r ! idx) = x # xs" "takeAt idx ?r = (Some (core x), r')"
          "queue_inv r'" "work ?r = add_mset (core x) (work r')"
          "bucket_of r' = (bucket_of ?r)(fq_order ?r ! idx := xs)"
          "fq_maxCount r' = fq_maxCount ?r" "fq_maxCost r' = fq_maxCost ?r"
        show thesis
          using that [of "fq_order q ! idx" y ys] * take r by simp
      qed
    qed
  qed
qed

lemma dequeue_None:
  assumes inv: "queue_inv q" and deq: "dequeue m q = (None, q')"
  shows "q' = q \<and> (fq_order q = []
     \<or> (\<exists>t x xs. t \<in> set (fq_order q) \<and> bucket_of q t = x # xs \<and> m < e_cost x
          \<and> MAX_UNFITTABLE_SKIPS \<le> e_skipCount x)
     \<or> (\<forall>t \<in> set (fq_order q). \<forall>x xs. bucket_of q t = x # xs \<longrightarrow> m < e_cost x))"
proof (cases "fq_count q = 0")
  case True
  then show ?thesis using deq count_zero_iff [OF inv] by (simp add: dequeue_def)
next
  case c: False
  have takes: "takeAt idx r \<noteq> (None, r')" if "queue_inv r" "idx < length (fq_order r)" for idx r r'
    by (rule takeAt_spec [OF that]) simp
  show ?thesis
  proof (cases "find_reserved q (rotation q) None")
    case (Some p)
    obtain idx y where p: "p = (idx, y)" by (cases p)
    then have y: "idx \<in> set (rotation q)" "head_at q idx = Some y" "MAX_UNFITTABLE_SKIPS \<le> e_skipCount y"
      using find_reserved_Some [of q "rotation q" None idx y] Some by auto
    have idx: "idx < length (fq_order q)" using y(1) by (rule rotation_less)
    have "m < e_cost y"
      using deq c Some p takes [OF inv idx] by (auto simp: dequeue_def split: if_splits)
    moreover have "q' = q" using deq c Some p calculation by (simp add: dequeue_def)
    moreover obtain xs where "bucket_of q (fq_order q ! idx) = y # xs"
      using y(2) by (auto simp: head_at_bucket split: list.splits)
    ultimately show ?thesis using y(3) idx nth_mem by blast
  next
    case none: None
    show ?thesis
    proof (cases "first_fitting q m (rotation q) []")
      case None
      then have "q' = q" using deq c none by (simp add: dequeue_def)
      moreover have "m < e_cost x" if t: "t \<in> set (fq_order q)" and b: "bucket_of q t = x # xs" for t x xs
      proof -
        obtain i where "i < length (fq_order q)" "t = fq_order q ! i"
          using t by (auto simp: in_set_conv_nth)
        then show ?thesis
          using first_fitting_None [OF None, of i x] b by (simp add: set_rotation head_at_bucket)
      qed
      ultimately show ?thesis by blast
    next
      case (Some p)
      obtain idx by' where p: "p = (idx, by')" by (cases p)
      have "takeAt idx (foldl bump_head q by') = (None, q')"
        using deq c none Some p by (simp add: dequeue_def)
      moreover have "takeAt idx (foldl bump_head q by') \<noteq> (None, q')"
        by (rule fitting_branch [OF inv none Some [unfolded p]]) (simp add: takes)
      ultimately show ?thesis by simp
    qed
  qed
qed

subsection \<open>Adding an entry\<close>

lemma has_bucket_iff:
  assumes "struct_inv q"
  shows "map_get (fq_buckets q) t = None \<longleftrightarrow> t \<notin> set (fq_order q)"
  using assms by (simp add: struct_inv_def map_of_eq_None_iff)

lemma bucket_of_absent: "struct_inv q \<Longrightarrow> t \<notin> set (fq_order q) \<Longrightarrow> bucket_of q t = []"
  using has_bucket_iff [of q t] by (simp add: bucket_of_def)

text \<open>An accepted entry goes to the end of its tenant's bucket; a fresh tenant to the end of the order.\<close>

definition append_entry :: "('i, 'p) queue_entry \<Rightarrow> ('i, 'p) fair_queue \<Rightarrow> ('i, 'p) fair_queue" where
  "append_entry e q = q\<lparr>
     fq_buckets := map_set (e_tenantKey e) (bucket_of q (e_tenantKey e) @ [e]) (fq_buckets q),
     fq_order := (if e_tenantKey e \<in> set (fq_order q) then fq_order q else fq_order q @ [e_tenantKey e]),
     fq_count := fq_count q + 1, fq_cost := fq_cost q + e_cost e\<rparr>"

lemma map_set_set: "map_set k w (map_set k v m) = map_set k w m"
  by (induction m) auto

lemma enqueue_append:
  "struct_inv q \<Longrightarrow> enqueue e q = (if canAccept q (e_cost e) then (True, append_entry e q) else (False, q))"
  by (auto simp: enqueue_def append_entry_def Let_def has_bucket_iff [symmetric] bucket_of_def map_set_set)

lemma bucket_of_append_entry [simp]:
  "bucket_of (append_entry e q)
   = (bucket_of q)(e_tenantKey e := bucket_of q (e_tenantKey e) @ [e])"
  by (auto simp: append_entry_def bucket_of_def fun_eq_iff)

lemma work_append_entry:
  assumes "struct_inv q"
  shows "work (append_entry e q) = add_mset (core e) (work q)"
proof -
  let ?t = "e_tenantKey e"
  let ?f = "(bucket_of q)(?t := bucket_of q ?t @ [e])"
  let ?o = "fq_order (append_entry e q)"
  have t: "?t \<in> set ?o" by (simp add: append_entry_def)
  have dist: "distinct ?o" using assms by (auto simp: append_entry_def struct_inv_def)
  have same: "map ?f (remove1 ?t ?o) = map (bucket_of q) (remove1 ?t ?o)"
    using dist by (intro map_cong) auto
  have "mset (concat (map (bucket_of q) ?o)) = mset (contents q)"
    using bucket_of_absent [OF assms, of ?t] by (simp add: append_entry_def contents_def)
  then have "mset (contents (append_entry e q)) = add_mset e (mset (contents q))"
    using mset_concat_split [OF t, of ?f] mset_concat_split [OF t, of "bucket_of q"] same
    by (simp add: contents_def)
  then show ?thesis by (simp add: work_def)
qed

lemma struct_append_entry:
  assumes "struct_inv q"
  shows "struct_inv (append_entry e q)"
proof -
  have "set (fq_order (append_entry e q)) = insert (e_tenantKey e) (set (fq_order q))"
    by (auto simp: append_entry_def)
  moreover have "fst ` set (fq_buckets (append_entry e q))
      = insert (e_tenantKey e) (fst ` set (fq_buckets q))"
    by (simp add: append_entry_def dom_update dom_map_of_conv_image_fst [symmetric])
  moreover have "map_wf (fq_buckets (append_entry e q))" "distinct (fq_order (append_entry e q))"
    using assms by (simp_all add: append_entry_def struct_inv_def map_wf_set)
  moreover have "bucket_of (append_entry e q) t \<noteq> []" if "t \<in> set (fq_order (append_entry e q))" for t
  proof -
    have "t = e_tenantKey e \<or> t \<in> set (fq_order q)"
      using that by (auto simp: append_entry_def split: if_splits)
    then show ?thesis using assms unfolding bucket_of_append_entry by (auto simp: struct_inv_def)
  qed
  ultimately show ?thesis
    using assms by (simp add: struct_inv_def)
qed

lemma enqueue_spec:
  assumes inv: "queue_inv q" and e: "e_skipCount e = 0"
  shows "queue_inv (snd (enqueue e q))
    \<and> (fst (enqueue e q) \<longleftrightarrow> canAccept q (e_cost e))
    \<and> work (snd (enqueue e q)) = (if fst (enqueue e q) then add_mset (core e) (work q) else work q)
    \<and> bucket_of (snd (enqueue e q)) = (if fst (enqueue e q)
         then (bucket_of q)(e_tenantKey e := bucket_of q (e_tenantKey e) @ [e]) else bucket_of q)
    \<and> fq_maxCount (snd (enqueue e q)) = fq_maxCount q \<and> fq_maxCost (snd (enqueue e q)) = fq_maxCost q"
proof (cases "canAccept q (e_cost e)")
  case True
  have s: "struct_inv q" using inv by (simp add: queue_inv_def)
  have caps: "0 < e_cost e" "fq_count q < fq_maxCount q" "e_cost e \<le> fq_maxCost q - fq_cost q"
    using True by (simp_all add: canAccept_def split: if_splits)
  have "entries_ok (append_entry e q)"
    using inv e caps by (auto simp: queue_inv_def entries_ok_def MAX_UNFITTABLE_SKIPS_def)
  moreover have "cursor_ok (append_entry e q)"
    using inv by (auto simp: queue_inv_def cursor_ok_def append_entry_def split: if_splits)
  moreover have "accounts_ok (append_entry e q)"
    using inv work_append_entry [OF s, of e]
    by (simp add: queue_inv_def accounts_ok_def) (simp add: append_entry_def)
  ultimately have "queue_inv (append_entry e q)"
    using struct_append_entry [OF s, of e] caps inv
    by (simp add: queue_inv_def) (simp add: append_entry_def)
  then show ?thesis
    using True work_append_entry [OF s, of e]
    by (simp add: enqueue_append [OF s]) (simp add: append_entry_def)
next
  case False
  then show ?thesis using inv by (simp add: enqueue_def)
qed

subsection \<open>Removing by id\<close>

lemma findIndex_id_None: "findIndex_id i es = None \<longleftrightarrow> i \<notin> e_id ` set es"
  by (induction es) auto

lemma findIndex_id_Some:
  "findIndex_id i es = Some k \<Longrightarrow> k < length es \<and> e_id (es ! k) = i \<and> (\<forall>j < k. e_id (es ! j) \<noteq> i)"
  by (induction es arbitrary: k) (auto simp: nth_Cons split: if_splits nat.splits)

lemma mset_drop_nth:
  "k < length xs \<Longrightarrow> mset xs = add_mset (xs ! k) (mset (take k xs @ drop (Suc k) xs))"
  by (metis id_take_nth_drop mset.simps(2) mset_append union_mset_add_mset_right)

lemma set_drop_nth: "k < length xs \<Longrightarrow> set (take k xs @ drop (Suc k) xs) \<subseteq> set xs"
  by (auto dest: in_set_takeD in_set_dropD)

lemma remove_at_spec:
  assumes inv: "queue_inv q" and ti: "ti < length (fq_order q)"
    and b: "bucket_of q (fq_order q ! ti) = bucket" and k: "k < length bucket"
  shows "\<exists>q'. remove_at ti k bucket q = (Some (bucket ! k), q') \<and> queue_inv q'
    \<and> work q = add_mset (core (bucket ! k)) (work q')
    \<and> bucket_of q' = (bucket_of q)(fq_order q ! ti := take k bucket @ drop (Suc k) bucket)
    \<and> fq_maxCount q' = fq_maxCount q \<and> fq_maxCost q' = fq_maxCost q"
proof -
  let ?t = "fq_order q ! ti" and ?rest = "take k bucket @ drop (Suc k) bucket"
  let ?r = "set_bucket ?t ?rest q"
  have s: "struct_inv q" using inv by (simp add: queue_inv_def)
  have t: "?t \<in> set (fq_order q)" using ti by simp
  define c where "c = (if ?rest = [] then
      (if fq_order ?r = [] then 0 else if ti < fq_cursor q then fq_cursor q - 1
       else if length (fq_order ?r) \<le> fq_cursor q then 0 else fq_cursor q) else fq_cursor q)"
  define q' where "q' = ?r\<lparr>fq_count := fq_count q - 1, fq_cost := fq_cost q - e_cost (bucket ! k),
      fq_cursor := c\<rparr>"
  have ord: "take ti (fq_order q) @ drop (Suc ti) (fq_order q) = remove1 ?t (fq_order q)"
    using s ti by (intro take_drop_remove1) (simp_all add: struct_inv_def)
  have w: "work q = add_mset (core (bucket ! k)) (work ?r)"
    using work_set_bucket [OF s t, of ?rest] b mset_drop_nth [OF k] by simp
  have ok: "e_tenantKey x = ?t \<and> 0 < e_cost x \<and> 0 \<le> e_skipCount x \<and> e_skipCount x \<le> MAX_UNFITTABLE_SKIPS"
    if "x \<in> set bucket" for x
    using inv b that unfolding queue_inv_def entries_ok_def by metis
  have "queue_inv q'"
    unfolding q'_def
  proof (rule queue_inv_set_bucket [OF inv t])
    show "e_tenantKey x = ?t \<and> 0 < e_cost x \<and> 0 \<le> e_skipCount x \<and> e_skipCount x \<le> MAX_UNFITTABLE_SKIPS"
      if "x \<in> set ?rest" for x
      using ok that set_drop_nth [OF k] by blast
    show "fq_cost q - e_cost (bucket ! k) \<le> fq_maxCost q"
      using inv ok [of "bucket ! k"] k by (simp add: queue_inv_def)
    have "fq_order q \<noteq> []" using t by auto
    then have "fq_cursor q < length (fq_order q)" using inv by (simp add: queue_inv_def cursor_ok_def)
    then show "if fq_order ?r = [] then c = 0 else c < length (fq_order ?r)"
      using t ti unfolding c_def order_set_bucket by (auto simp: length_remove1 simp flip: length_greater_0_conv)
  qed (use inv w in \<open>auto simp: queue_inv_def accounts_ok_def\<close>)
  moreover have "remove_at ti k bucket q = (Some (bucket ! k), q')"
    unfolding q'_def c_def remove_at_def Let_def ord by (simp add: set_bucket_def)
  moreover have "work q = add_mset (core (bucket ! k)) (work q')" using w by (simp add: q'_def)
  moreover have "bucket_of q' = (bucket_of q)(?t := ?rest)" by (simp add: q'_def)
  moreover have "fq_maxCount q' = fq_maxCount q" "fq_maxCost q' = fq_maxCost q"
    by (simp_all add: q'_def set_bucket_def)
  ultimately show ?thesis by blast
qed

lemma remove_from_spec:
  assumes "queue_inv q" and "set ts \<subseteq> {0..<length (fq_order q)}"
  shows "(remove_from i ts q = (None, q) \<and> (\<forall>ti \<in> set ts. i \<notin> e_id ` set (bucket_of q (fq_order q ! ti))))
    \<or> (\<exists>ti k. ti \<in> set ts \<and> findIndex_id i (bucket_of q (fq_order q ! ti)) = Some k
        \<and> remove_from i ts q = remove_at ti k (bucket_of q (fq_order q ! ti)) q)"
  using assms(2)
proof (induction ts)
  case (Cons ti ts)
  have "map_get (fq_buckets q) (fq_order q ! ti) = Some (bucket_of q (fq_order q ! ti))"
  proof -
    have "struct_inv q" using assms(1) by (simp add: queue_inv_def)
    moreover have "fq_order q ! ti \<in> set (fq_order q)" using Cons.prems by simp
    ultimately show ?thesis by (rule nonempty_bucket) simp
  qed
  then have unf: "remove_from i (ti # ts) q =
      (case findIndex_id i (bucket_of q (fq_order q ! ti)) of
         None \<Rightarrow> remove_from i ts q
       | Some k \<Rightarrow> remove_at ti k (bucket_of q (fq_order q ! ti)) q)"
    by simp
  show ?case
  proof (cases "findIndex_id i (bucket_of q (fq_order q ! ti))")
    case None
    then have eq: "remove_from i (ti # ts) q = remove_from i ts q" using unf by simp
    have "i \<notin> e_id ` set (bucket_of q (fq_order q ! ti))" by (rule findIndex_id_None [THEN iffD1, OF None])
    moreover have "set ts \<subseteq> {0..<length (fq_order q)}" using Cons.prems by simp
    ultimately show ?thesis using Cons.IH unfolding eq set_simps by blast
  next
    case (Some k)
    then have "remove_from i (ti # ts) q = remove_at ti k (bucket_of q (fq_order q ! ti)) q"
      using unf by simp
    with Some show ?thesis by (intro disjI2 exI [of _ ti] exI [of _ k]) simp
  qed
qed simp

lemma in_contents_iff:
  "struct_inv q \<Longrightarrow> e \<in> set (contents q) \<longleftrightarrow> (\<exists>t. e \<in> set (bucket_of q t))"
  using bucket_of_absent by (fastforce simp: contents_def)

lemma removeById_spec:
  assumes inv: "queue_inv q"
  shows "(removeById i q = (None, q) \<and> i \<notin> e_id ` set (contents q))
    \<or> (\<exists>e q' t k. removeById i q = (Some e, q') \<and> e_id e = i \<and> e \<in> set (contents q) \<and> queue_inv q'
        \<and> work q = add_mset (core e) (work q')
        \<and> bucket_of q' = (bucket_of q)(t := take k (bucket_of q t) @ drop (Suc k) (bucket_of q t))
        \<and> fq_maxCount q' = fq_maxCount q \<and> fq_maxCost q' = fq_maxCost q)"
  using remove_from_spec [OF inv, of "[0..<length (fq_order q)]" i, unfolded set_upt, OF subset_refl]
proof (elim disjE exE conjE)
  assume none: "remove_from i [0..<length (fq_order q)] q = (None, q)"
    and all: "\<forall>ti \<in> {0..<length (fq_order q)}. i \<notin> e_id ` set (bucket_of q (fq_order q ! ti))"
  have "i \<notin> e_id ` set (contents q)"
    using all by (fastforce simp: contents_def in_set_conv_nth)
  then show ?thesis using none by (simp add: removeById_def)
next
  fix ti k
  assume *: "ti \<in> {0..<length (fq_order q)}"
    "findIndex_id i (bucket_of q (fq_order q ! ti)) = Some k"
    "remove_from i [0..<length (fq_order q)] q = remove_at ti k (bucket_of q (fq_order q ! ti)) q"
  note k = findIndex_id_Some [OF *(2)]
  have ti: "ti < length (fq_order q)" using *(1) by simp
  have "bucket_of q (fq_order q ! ti) ! k \<in> set (contents q)"
    using k ti by (auto simp: contents_def intro!: bexI [of _ "fq_order q ! ti"])
  moreover obtain q' where "remove_at ti k (bucket_of q (fq_order q ! ti)) q
      = (Some (bucket_of q (fq_order q ! ti) ! k), q')" "queue_inv q'"
      "work q = add_mset (core (bucket_of q (fq_order q ! ti) ! k)) (work q')"
      "bucket_of q' = (bucket_of q)(fq_order q ! ti := take k (bucket_of q (fq_order q ! ti))
         @ drop (Suc k) (bucket_of q (fq_order q ! ti)))"
      "fq_maxCount q' = fq_maxCount q" "fq_maxCost q' = fq_maxCost q"
    using remove_at_spec [OF inv ti refl, of k] k by blast
  ultimately show ?thesis
    using k *(3) unfolding removeById_def by metis
qed

subsection \<open>Draining\<close>

lemma cost_le_total:
  assumes "queue_inv q" and "x \<in> set (bucket_of q t)"
  shows "e_cost x \<le> fq_cost q"
proof -
  have s: "struct_inv q" using assms by (simp add: queue_inv_def)
  have pos: "\<And>y. y \<in># work q \<Longrightarrow> 0 < e_cost y"
    using assms(1) in_contents_iff [OF s] by (fastforce simp: work_def queue_inv_def entries_ok_def)
  have "core x \<in># work q" using in_contents_iff [OF s] assms(2) by (auto simp: work_def)
  then obtain W where W: "work q = add_mset (core x) W" by (metis multi_member_split)
  have "0 \<le> (\<Sum>y\<in>#W. e_cost y)"
    using pos unfolding W by (intro sum_mset_nonneg_int) (simp add: less_imp_le)
  then have "e_cost x \<le> (\<Sum>y\<in>#work q. e_cost y)" by (simp add: W)
  then show ?thesis using assms(1) by (simp add: queue_inv_def accounts_ok_def)
qed

lemma empty_queue_eq:
  assumes "queue_inv q" and "fq_order q = []"
  shows "q = new_queue (fq_maxCount q) (fq_maxCost q)"
proof -
  have "fq_buckets q = []" "fq_cursor q = 0"
    using assms by (auto simp: queue_inv_def struct_inv_def cursor_ok_def)
  moreover have "work q = {#}" using assms by (simp add: work_def contents_def)
  then have "fq_count q = 0" "fq_cost q = 0"
    using assms(1) by (simp_all add: queue_inv_def accounts_ok_def)
  ultimately show ?thesis using assms(2) by (simp add: new_queue_def)
qed

lemma drain_loop_spec:
  assumes "queue_inv q" and "fq_maxCost q \<le> MAX_SAFE_INTEGER"
  shows "image_mset core (mset (fst (drain_loop q))) = work q
    \<and> snd (drain_loop q) = new_queue (fq_maxCount q) (fq_maxCost q)"
  using assms
proof (induction q rule: drain_loop.induct)
  case (1 q)
  obtain r q' where d: "dequeue MAX_SAFE_INTEGER q = (r, q')" by (cases "dequeue MAX_SAFE_INTEGER q")
  show ?case
  proof (cases r)
    case None
    have small: "e_cost x \<le> MAX_SAFE_INTEGER" if "bucket_of q t = x # xs" for t x xs
      using cost_le_total [OF 1(2), of x t] that 1(2,3) by (simp add: queue_inv_def)
    have "struct_inv q" using 1(2) by (simp add: queue_inv_def)
    then have full: "\<And>t. t \<in> set (fq_order q) \<Longrightarrow> \<exists>x xs. bucket_of q t = x # xs"
      by (meson nonempty_bucket)
    have "q' = q" and "fq_order q = []"
      using dequeue_None [OF 1(2) d [unfolded None]] small full
      by (auto simp: linorder_not_less [symmetric])
        (metis list.set_intros(1) list.exhaust)
    then show ?thesis
      using d None empty_queue_eq [OF 1(2)] by (simp add: drain_loop.simps [of q] work_def contents_def)
  next
    case (Some e)
    show ?thesis
    proof (rule dequeue_Some [OF 1(2) d [unfolded Some]])
      fix x assume *: "queue_inv q'" "work q = add_mset e (work q')" "e = core x"
        "fq_maxCount q' = fq_maxCount q" "fq_maxCost q' = fq_maxCost q"
      then show ?thesis
        using 1(1) [OF d [symmetric] Some] 1(3) d Some
        by (simp add: drain_loop.simps [of q] split_beta)
    qed
  qed
qed

text \<open>
  C5: \<open>drain\<close> ends and returns every queued entry exactly once, whatever their costs and
  however often their heads were passed over; the queue it leaves is a new one.
\<close>

theorem drain_returns_everything:
  assumes "queue_inv q" and "fq_maxCost q \<le> MAX_SAFE_INTEGER"
  shows "image_mset core (mset (fst (drain q))) = work q
    \<and> snd (drain q) = new_queue (fq_maxCount q) (fq_maxCost q)"
  using drain_loop_spec [OF assms] by (simp add: drain_def split_beta) (simp add: new_queue_def)

subsection \<open>The tenants in the order they are served\<close>

definition ring :: "('i, 'p) fair_queue \<Rightarrow> string list" where
  "ring q = drop (fq_cursor q) (fq_order q) @ take (fq_cursor q) (fq_order q)"

lemma set_ring [simp]: "set (ring q) = set (fq_order q)"
proof -
  have "set (ring q) = set (take (fq_cursor q) (fq_order q) @ drop (fq_cursor q) (fq_order q))"
    by (simp only: ring_def set_append Un_commute)
  then show ?thesis by simp
qed

lemma length_ring [simp]: "length (ring q) = length (fq_order q)"
  by (simp add: ring_def)

primrec dequeues ::
  "int \<Rightarrow> nat \<Rightarrow> ('i, 'p) fair_queue \<Rightarrow> ('i, 'p) queue_entry option list" where
  "dequeues m 0 q = []"
| "dequeues m (Suc k) q = fst (dequeue m q) # dequeues m k (snd (dequeue m q))"

lemma find_reserved_unaged:
  "(\<And>i e. i \<in> set is \<Longrightarrow> head_at q i = Some e \<Longrightarrow> e_skipCount e < MAX_UNFITTABLE_SKIPS) \<Longrightarrow>
   find_reserved q is None = None"
proof (induction "is")
  case (Cons i "is")
  have "reserve q i None = None"
    using Cons.prems [of i] by (auto simp: reserve_def split: option.splits)
  moreover have "find_reserved q is None = None"
    using Cons.prems by (intro Cons.IH) (metis list.set_intros(2))
  ultimately show ?case unfolding find_reserved_reserve by simp
qed simp

lemma dequeue_all_fit:
  assumes inv: "queue_inv q" and ne: "fq_order q \<noteq> []"
    and fit: "\<And>e. e \<in> set (contents q) \<Longrightarrow> e_cost e \<le> m \<and> e_skipCount e < MAX_UNFITTABLE_SKIPS"
  shows "dequeue m q = takeAt (fq_cursor q) q"
proof -
  have cur: "fq_cursor q < length (fq_order q)"
    using inv ne by (simp add: queue_inv_def cursor_ok_def)
  have s: "struct_inv q" using inv by (simp add: queue_inv_def)
  have head: "e \<in> set (contents q)" if "head_at q i = Some e" for i e
  proof -
    have "e \<in> set (bucket_of q (fq_order q ! i))"
      using that by (simp add: head_at_bucket split: list.splits)
    then show ?thesis using in_contents_iff [OF s] by blast
  qed
  obtain x xs where x: "head_at q (fq_cursor q) = Some x"
    by (rule head_at_present [OF inv cur]) blast
  obtain is' where rot: "rotation q = fq_cursor q # is'"
    using ne cur by (simp add: rotation_def upt_conv_Cons)
  have "first_fitting q m (rotation q) [] = Some (fq_cursor q, [])"
    using x fit [OF head [OF x]] unfolding rot by simp
  moreover have "find_reserved q (rotation q) None = None"
    using fit head by (intro find_reserved_unaged) blast
  moreover have "fq_count q \<noteq> 0" using count_zero_iff [OF inv] ne by simp
  ultimately show ?thesis by (simp add: dequeue_def)
qed

lemma ring_advance:
  assumes "c < length ord" and "ring q = drop c ord @ take c ord"
    and "ring q' = drop ((c + 1) mod length ord) ord @ take ((c + 1) mod length ord) ord"
  shows "ring q' = tl (ring q) @ [hd (ring q)]"
proof -
  have d: "drop c ord = ord ! c # drop (Suc c) ord" using assms(1) by (rule Cons_nth_drop_Suc [symmetric])
  have t: "take (Suc c) ord = take c ord @ [ord ! c]" using assms(1) by (rule take_Suc_conv_app_nth)
  show ?thesis
  proof (cases "Suc c = length ord")
    case True
    then show ?thesis using assms(2,3) d t by simp
  next
    case False
    then have "Suc c mod length ord = Suc c" using assms(1) by simp
    then show ?thesis using assms(2,3) d t by simp
  qed
qed

lemma ring_drop:
  assumes "c < length ord" and "ring q = drop c ord @ take c ord"
    and "fq_order q' = take c ord @ drop (Suc c) ord"
    and "fq_cursor q' = (if fq_order q' = [] then 0 else c mod length (fq_order q'))"
  shows "ring q' = tl (ring q)"
proof -
  have d: "drop c ord = ord ! c # drop (Suc c) ord" using assms(1) by (rule Cons_nth_drop_Suc [symmetric])
  have n: "length (fq_order q') = length ord - 1" using assms(1,3) by simp
  show ?thesis
  proof (cases "Suc c = length ord")
    case True
    then have "fq_order q' = take c ord" "fq_cursor q' = 0"
      using assms(3,4) n by auto
    then show ?thesis using assms(2) d True by (simp add: ring_def)
  next
    case False
    then have "c < length (fq_order q')" using assms(1) n by simp
    then have "fq_cursor q' = c" using assms(4) by (metis list.size(3) mod_less not_less_zero)
    then show ?thesis using assms d by (simp add: ring_def)
  qed
qed

lemma dequeue_ring:
  assumes inv: "queue_inv q" and ne: "fq_order q \<noteq> []"
    and fit: "\<And>e. e \<in> set (contents q) \<Longrightarrow> e_cost e \<le> m \<and> e_skipCount e < MAX_UNFITTABLE_SKIPS"
  obtains e es q' where "dequeue m q = (Some (core e), q')" and "e_tenantKey e = hd (ring q)"
    and "queue_inv q'" and "set (contents q') \<subseteq> set (contents q)"
    and "ring q' = tl (ring q) @ (if es = [] then [] else [hd (ring q)])"
    and "bucket_of q (hd (ring q)) = e # es"
proof -
  let ?c = "fq_cursor q" and ?t = "fq_order q ! fq_cursor q"
  have cur: "?c < length (fq_order q)" using inv ne by (simp add: queue_inv_def cursor_ok_def)
  have s: "struct_inv q" using inv by (simp add: queue_inv_def)
  have deq: "dequeue m q = takeAt ?c q" by (rule dequeue_all_fit [OF assms])
  have hd: "hd (ring q) = ?t" using cur by (simp add: ring_def hd_append hd_drop_conv_nth)
  show thesis
  proof (rule takeAt_spec [OF inv cur])
    fix e es q'
    assume *: "bucket_of q ?t = e # es" "takeAt ?c q = (Some (core e), q')" "queue_inv q'"
      "bucket_of q' = (bucket_of q)(?t := es)"
    note q' = takeAt_bucket [OF s cur *(1), unfolded *(2), simplified]
    have "e \<in> set (bucket_of q ?t)" using *(1) by simp
    then have "e_tenantKey e = ?t" using inv unfolding queue_inv_def entries_ok_def by blast
    moreover have "set (contents q') \<subseteq> set (contents q)"
    proof
      fix x assume "x \<in> set (contents q')"
      then obtain u where "x \<in> set (bucket_of q' u)"
        using in_contents_iff [of q'] *(3) by (auto simp: queue_inv_def)
      then have "x \<in> set (bucket_of q u)" using *(1,4) by (auto split: if_splits)
      then show "x \<in> set (contents q)" using in_contents_iff [OF s] by blast
    qed
    moreover have "ring q' = tl (ring q) @ (if es = [] then [] else [hd (ring q)])"
    proof (cases "es = []")
      case True
      have "fq_order q' = take ?c (fq_order q) @ drop (Suc ?c) (fq_order q)"
        using True s cur by (simp add: q' order_set_bucket take_drop_remove1 struct_inv_def)
      moreover have "fq_cursor q' = (if fq_order q' = [] then 0 else ?c mod length (fq_order q'))"
        using True by (simp add: q' Let_def)
      ultimately have "ring q' = tl (ring q)"
        by (intro ring_drop [OF cur]) (simp_all add: ring_def)
      then show ?thesis using True by simp
    next
      case False
      then have "ring q' = tl (ring q) @ [hd (ring q)]"
        by (intro ring_advance [OF cur]) (simp_all add: ring_def q' order_set_bucket)
      then show ?thesis using False by simp
    qed
    ultimately show thesis
      using that [of e q' es] deq * hd by simp
  qed
qed

text \<open>
  Round-robin between the tenants that are queued: while every queued entry fits and none is
  reserved, the \<open>k\<close> dequeues that follow serve the \<open>k\<close> tenants from the cursor on, each of them once,
  so a tenant that stands at place \<open>k\<close> is served by the \<open>k\<close>-th dequeue.
\<close>

theorem round_robin_serves_each_tenant:
  assumes "queue_inv q" and "k \<le> length (fq_order q)"
    and "\<And>e. e \<in> set (contents q) \<Longrightarrow> e_cost e \<le> m \<and> e_skipCount e < MAX_UNFITTABLE_SKIPS"
  shows "map (map_option e_tenantKey) (dequeues m k q) = map Some (take k (ring q))"
  using assms
proof (induction k arbitrary: q)
  case (Suc k)
  have ne: "fq_order q \<noteq> []" using Suc.prems(2) by auto
  show ?case
  proof (rule dequeue_ring [OF Suc.prems(1) ne Suc.prems(3)])
    fix e es q'
    assume *: "dequeue m q = (Some (core e), q')" "e_tenantKey e = hd (ring q)" "queue_inv q'"
      "set (contents q') \<subseteq> set (contents q)"
      "ring q' = tl (ring q) @ (if es = [] then [] else [hd (ring q)])"
    have len: "length (tl (ring q)) = length (fq_order q) - 1" by simp
    have "length (fq_order q') = length (ring q')" by simp
    also have "\<dots> \<ge> length (fq_order q) - 1" unfolding *(5) by simp
    finally have "k \<le> length (fq_order q')" using Suc.prems(2) by simp
    then have "map (map_option e_tenantKey) (dequeues m k q') = map Some (take k (ring q'))"
      using Suc.IH [OF *(3)] *(4) Suc.prems(3) by blast
    moreover have "take k (ring q') = take k (tl (ring q))"
      using Suc.prems(2) len by (simp add: *(5))
    moreover have "ring q = hd (ring q) # tl (ring q)"
      using ne by (metis length_greater_0_conv length_ring list.collapse)
    ultimately show ?thesis
      using *(1,2) by (metis (no_types, lifting) core_simps(2) dequeues.simps(2) fst_conv list.simps(9)
          option.simps(9) snd_conv take_Suc_Cons)
  qed blast
qed simp

subsection \<open>Runs of the queue\<close>

text \<open>
  The operations a client performs, and a log of the entries they accepted, served and
  removed. The controller always enqueues an entry that was never passed over.
\<close>

datatype ('i, 'p) queue_event =
    Enqueue "('i, 'p) queue_entry"
  | Dequeue int
  | RemoveById 'i

record ('i, 'p) queue_log =
  ql_queue :: "('i, 'p) fair_queue"
  ql_accepted :: "('i, 'p) queue_entry list"
  ql_served :: "('i, 'p) queue_entry list"
  ql_removed :: "('i, 'p) queue_entry list"

definition start_log :: "int \<Rightarrow> int \<Rightarrow> ('i, 'p) queue_log" where
  "start_log n c = \<lparr>ql_queue = new_queue n c, ql_accepted = [], ql_served = [], ql_removed = []\<rparr>"

primrec opt_list :: "('i, 'p) queue_entry option \<Rightarrow> ('i, 'p) queue_entry list" where
  "opt_list None = []"
| "opt_list (Some e) = [core e]"

fun queue_step :: "('i, 'p) queue_log \<Rightarrow> ('i, 'p) queue_event \<Rightarrow> ('i, 'p) queue_log" where
  "queue_step l (Enqueue e) =
     (let (ok, q') = enqueue e (ql_queue l)
      in l\<lparr>ql_queue := q', ql_accepted := ql_accepted l @ (if ok then [core e] else [])\<rparr>)"
| "queue_step l (Dequeue m) =
     (let (r, q') = dequeue m (ql_queue l)
      in l\<lparr>ql_queue := q', ql_served := ql_served l @ opt_list r\<rparr>)"
| "queue_step l (RemoveById i) =
     (let (r, q') = removeById i (ql_queue l)
      in l\<lparr>ql_queue := q', ql_removed := ql_removed l @ opt_list r\<rparr>)"

fun fresh_entry :: "('i, 'p) queue_event \<Rightarrow> bool" where
  "fresh_entry (Enqueue e) = (e_skipCount e = 0)"
| "fresh_entry _ = True"

definition of_tenant :: "string \<Rightarrow> ('i, 'p) queue_entry list \<Rightarrow> ('i, 'p) queue_entry list" where
  "of_tenant t es = filter (\<lambda>e. e_tenantKey e = t) es"

definition log_inv :: "int \<Rightarrow> int \<Rightarrow> ('i, 'p) queue_log \<Rightarrow> bool" where
  "log_inv n c l \<longleftrightarrow> queue_inv (ql_queue l)
     \<and> fq_maxCount (ql_queue l) = n \<and> fq_maxCost (ql_queue l) = c
     \<and> mset (ql_accepted l) = mset (ql_served l) + mset (ql_removed l) + work (ql_queue l)
     \<and> (\<forall>t. subseq (of_tenant t (ql_served l) @ map core (bucket_of (ql_queue l) t))
                   (of_tenant t (ql_accepted l)))"

lemma of_tenant_simps [simp]:
  "of_tenant t [] = []"
  "of_tenant t (xs @ ys) = of_tenant t xs @ of_tenant t ys"
  "of_tenant t [e] = (if e_tenantKey e = t then [e] else [])"
  by (simp_all add: of_tenant_def)

lemma log_enqueue:
  assumes "log_inv n c l" and "e_skipCount e = 0"
  shows "log_inv n c (queue_step l (Enqueue e))"
proof -
  obtain ok q' where d: "enqueue e (ql_queue l) = (ok, q')" by fastforce
  have sub: "\<And>t. subseq (of_tenant t (ql_served l) @ map core (bucket_of (ql_queue l) t))
      (of_tenant t (ql_accepted l))"
    using assms(1) by (simp add: log_inv_def)
  show ?thesis
    using enqueue_spec [of "ql_queue l" e] d assms sub
    by (cases ok) (auto simp: log_inv_def simp flip: append_assoc intro: list_emb_append_mono)
qed

lemma log_dequeue:
  assumes "log_inv n c l"
  shows "log_inv n c (queue_step l (Dequeue m))"
proof -
  let ?q = "ql_queue l"
  have inv: "queue_inv ?q" using assms by (simp add: log_inv_def)
  obtain r q' where d: "dequeue m ?q = (r, q')" by fastforce
  show ?thesis
  proof (cases r)
    case None
    then have "q' = ?q" using dequeue_None [OF inv] d by blast
    then show ?thesis using assms d None by (simp add: log_inv_def)
  next
    case (Some e)
    show ?thesis
    proof (rule dequeue_Some [OF inv d [unfolded Some]])
      fix t x xs
      assume *: "bucket_of ?q t = x # xs" "e = core x" "queue_inv q'" "work ?q = add_mset e (work q')"
        "map core (bucket_of q' t) = map core xs"
        "\<And>u. u \<noteq> t \<Longrightarrow> map core (bucket_of q' u) = map core (bucket_of ?q u)"
        "fq_maxCount q' = fq_maxCount ?q" "fq_maxCost q' = fq_maxCost ?q"
      have "x \<in> set (bucket_of ?q t)" using *(1) by simp
      then have "e_tenantKey x = t" using inv unfolding queue_inv_def entries_ok_def by blast
      then have "of_tenant u (ql_served l @ [e]) @ map core (bucket_of q' u)
          = of_tenant u (ql_served l) @ map core (bucket_of ?q u)" for u
        using * by (cases "u = t") simp_all
      then show ?thesis
        using assms d Some * by (simp add: log_inv_def del: of_tenant_simps(2))
    qed
  qed
qed

lemma subseq_drop_nth: "subseq (take k xs @ drop (Suc k) xs) xs"
  by (induction xs arbitrary: k) (auto simp: take_Cons drop_Cons split: nat.splits)

lemma log_remove:
  assumes "log_inv n c l"
  shows "log_inv n c (queue_step l (RemoveById i))"
proof -
  let ?q = "ql_queue l"
  have inv: "queue_inv ?q" using assms by (simp add: log_inv_def)
  from removeById_spec [OF inv, of i] show ?thesis
  proof (elim disjE exE conjE)
    assume "removeById i ?q = (None, ?q)"
    then show ?thesis using assms by (simp add: log_inv_def)
  next
    fix e q' t k
    assume d: "removeById i ?q = (Some e, q')" and *: "queue_inv q'" "work ?q = add_mset (core e) (work q')"
      "bucket_of q' = (bucket_of ?q)(t := take k (bucket_of ?q t) @ drop (Suc k) (bucket_of ?q t))"
      "fq_maxCount q' = fq_maxCount ?q" "fq_maxCost q' = fq_maxCost ?q"
    have "subseq (map core (bucket_of q' u)) (map core (bucket_of ?q u))" for u
      unfolding *(3) using subseq_drop_nth [of k "bucket_of ?q t"]
      by (auto intro: subseq_map simp del: map_append)
    then have "subseq (of_tenant u (ql_served l) @ map core (bucket_of q' u)) (of_tenant u (ql_accepted l))" for u
      using assms unfolding log_inv_def
      by (meson list_emb_append_mono subseq_order.order_refl subseq_order.order_trans)
    then show ?thesis using assms d * by (simp add: log_inv_def)
  qed
qed

interpretation queue: step_invariant queue_step fresh_entry "log_inv n c" for n c
proof unfold_locales
  show "log_inv n c (queue_step l ev)" if "log_inv n c l" "fresh_entry ev" for l ev
    using that by (cases ev) (auto intro: log_enqueue log_dequeue log_remove simp del: queue_step.simps)
qed

lemma start_log_inv: "0 \<le> n \<Longrightarrow> 0 \<le> c \<Longrightarrow> log_inv n c (start_log n c)"
  using new_queue_inv [of n c]
  by (auto simp: log_inv_def start_log_def bucket_of_def new_queue_def [of n c] work_def contents_def)

lemma run_log_inv:
  "0 \<le> n \<Longrightarrow> 0 \<le> c \<Longrightarrow> list_all fresh_entry evs \<Longrightarrow> log_inv n c (foldl queue_step (start_log n c) evs)"
  by (rule queue.run_inv [OF start_log_inv])

lemma map_core_work: "image_mset f (work q) = image_mset (f \<circ> core) (mset (contents q))"
  by (simp add: work_def image_mset.compositionality)

text \<open>A small queue of two tenants to evaluate on.\<close>

definition job :: "nat \<Rightarrow> string \<Rightarrow> int \<Rightarrow> (nat, unit) queue_entry" where
  "job i t cost = \<lparr>e_id = i, e_tenantKey = t, e_cost = cost, e_enqueuedAtMs = int i, e_deadlineMs = 1000,
     e_payload = (), e_skipCount = 0\<rparr>"

definition sample_run :: "(nat, unit) queue_event list" where
  "sample_run = [Enqueue (job 1 ''a'' 5), Enqueue (job 2 ''a'' 1), Enqueue (job 3 ''b'' 2), Dequeue 3,
     Enqueue (job 4 ''b'' 50), RemoveById 2]"

text \<open>
  After any run of enqueues, dequeues and removals on a new queue the counters the class keeps
  are exact: \<open>count\<close> is the number of queued entries and \<open>cost\<close> their total cost, both within the
  caps; no tenant is listed twice or without an entry, the cursor points at a tenant, and no queued
  entry was passed over more than \<open>MAX_UNFITTABLE_SKIPS\<close> times.
\<close>

theorem queue_run_invariant:
  assumes "0 \<le> n" and "0 \<le> c" and "list_all fresh_entry evs"
    and "q = ql_queue (foldl queue_step (start_log n c) evs)"
  shows "fq_count q = int (length (contents q)) \<and> fq_count q \<le> n
    \<and> fq_cost q = sum_list (map e_cost (contents q)) \<and> fq_cost q \<le> c
    \<and> distinct (fq_order q) \<and> (\<forall>t \<in> set (fq_order q). bucket_of q t \<noteq> [])
    \<and> (fq_order q \<noteq> [] \<longrightarrow> fq_cursor q < length (fq_order q))
    \<and> (\<forall>e \<in> set (contents q). 0 < e_cost e \<and> e_skipCount e \<le> MAX_UNFITTABLE_SKIPS)"
proof -
  have l: "log_inv n c (foldl queue_step (start_log n c) evs)" by (rule run_log_inv [OF assms(1-3)])
  then have inv: "queue_inv q" "fq_maxCount q = n" "fq_maxCost q = c"
    unfolding assms(4) by (simp_all add: log_inv_def)
  have s: "struct_inv q" using inv by (simp add: queue_inv_def)
  have "fq_cost q = (\<Sum>e\<in>#mset (contents q). e_cost e)"
    using inv map_core_work [of e_cost q] by (simp add: queue_inv_def accounts_ok_def comp_def)
  then have "fq_cost q = sum_list (map e_cost (contents q))"
    by (simp only: mset_map [symmetric] sum_mset_sum_list)
  moreover have "0 < e_cost e \<and> e_skipCount e \<le> MAX_UNFITTABLE_SKIPS" if "e \<in> set (contents q)" for e
    using that inv in_contents_iff [OF s] by (auto simp: queue_inv_def entries_ok_def)
  ultimately show ?thesis
    using inv s by (simp add: queue_inv_def struct_inv_def accounts_ok_def work_def cursor_ok_def)
qed

theorem queue_run_invariant_witness:
  "let q = ql_queue (foldl queue_step (start_log 10 100) sample_run)
   in fq_cost q = sum_list (map e_cost (contents q)) \<and> fq_count q = 2 \<and> fq_cost q = 55"
proof -
  have "fq_count (ql_queue (foldl queue_step (start_log 10 100) sample_run)) = 2"
    "fq_cost (ql_queue (foldl queue_step (start_log 10 100) sample_run)) = 55"
    by code_simp+
  moreover have ok: "list_all fresh_entry sample_run" by (simp add: sample_run_def job_def)
  note queue_run_invariant [OF _ _ ok refl, of 10 100]
  ultimately show ?thesis by (simp add: Let_def)
qed

text \<open>
  C2: Nothing is lost, duplicated or reordered: over any run, every accepted entry was either served,
  or removed by id, or is still queued, exactly one of the three; and each tenant's entries are
  served in the order they were accepted in, ahead of its entries that still wait.
\<close>

theorem queue_conservation_fifo:
  assumes "0 \<le> n" and "0 \<le> c" and "list_all fresh_entry evs"
    and "l = foldl queue_step (start_log n c) evs"
  shows "mset (ql_accepted l) = mset (ql_served l) + mset (ql_removed l) + work (ql_queue l)
    \<and> subseq (of_tenant t (ql_served l) @ map core (bucket_of (ql_queue l) t))
             (of_tenant t (ql_accepted l))"
  using run_log_inv [OF assms(1-3)] unfolding assms(4) by (simp add: log_inv_def)

theorem queue_conservation_fifo_witness:
  "let l = foldl queue_step (start_log 10 100) sample_run
   in size (work (ql_queue l)) = 2 \<and> length (ql_served l) = 1 \<and> length (ql_removed l) = 1
    \<and> size (mset (ql_accepted l)) = 4"
proof -
  let ?l = "foldl queue_step (start_log 10 100) sample_run"
  have "length (ql_served ?l) = 1" "length (ql_removed ?l) = 1" "length (contents (ql_queue ?l)) = 2"
    by code_simp+
  moreover have ok: "list_all fresh_entry sample_run" by (simp add: sample_run_def job_def)
  moreover have "size (mset (ql_accepted ?l))
      = size (mset (ql_served ?l) + mset (ql_removed ?l) + work (ql_queue ?l))"
    using queue_conservation_fifo [OF _ _ ok refl, of 10 100] by simp
  ultimately show ?thesis by (simp add: Let_def work_def)
qed

text \<open>A queue of two tenants, the first with a large head.\<close>

definition sample_queue :: "(nat, unit) fair_queue" where
  "sample_queue = ql_queue (foldl queue_step (start_log 10 100)
     [Enqueue (job 1 ''a'' 5), Enqueue (job 2 ''a'' 1), Enqueue (job 3 ''b'' 2)])"

lemma sample_queue_inv: "queue_inv sample_queue" "fq_maxCost sample_queue = 100"
  using run_log_inv [of 10 100 "[Enqueue (job 1 ''a'' 5), Enqueue (job 2 ''a'' 1), Enqueue (job 3 ''b'' 2)]"]
  by (simp_all add: sample_queue_def log_inv_def job_def)

lemma sample_queue_contents:
  "contents sample_queue = [job 1 ''a'' 5, job 2 ''a'' 1, job 3 ''b'' 2]"
  "fq_order sample_queue = [''a'', ''b'']" "ring sample_queue = [''a'', ''b'']"
  by code_simp+

theorem drain_returns_everything_witness:
  "image_mset core (mset (fst (drain sample_queue))) = work sample_queue
   \<and> size (work sample_queue) = 3"
  using drain_returns_everything [OF sample_queue_inv(1)] sample_queue_inv(2)
  by (simp add: MAX_SAFE_INTEGER_def) (simp add: work_def sample_queue_contents)

theorem round_robin_serves_each_tenant_witness:
  "map (map_option e_tenantKey) (dequeues 5 2 sample_queue) = [Some ''a'', Some ''b'']"
proof -
  have "\<And>e. e \<in> set (contents sample_queue) \<Longrightarrow> e_cost e \<le> 5 \<and> e_skipCount e < MAX_UNFITTABLE_SKIPS"
    by (auto simp: sample_queue_contents job_def MAX_UNFITTABLE_SKIPS_def)
  from round_robin_serves_each_tenant [OF sample_queue_inv(1) _ this, of 2]
  show ?thesis by (simp add: sample_queue_contents)
qed

subsection \<open>The cursor after a removal\<close>

lemma rotate_remove:
  assumes "distinct ord" and "c < length ord" and "ti < length ord"
    and "ord' = take ti ord @ drop (Suc ti) ord"
    and "c' = (if ord' = [] then 0 else if ti < c then c - 1 else if length ord' \<le> c then 0 else c)"
  shows "drop c' ord' @ take c' ord' = remove1 (ord ! ti) (drop c ord @ take c ord)"
proof (cases "ti < c")
  case True
  have "ord ! ti \<notin> set (drop c ord)"
    using assms(1) nth_mem [of ti "take c ord"] True assms(2,3)
    by (auto dest!: set_take_disj_set_drop_if_distinct [where i = c and j = c])
  moreover have "remove1 (ord ! ti) (take c ord) = take ti ord @ drop (Suc ti) (take c ord)"
    using take_drop_remove1 [of "take c ord" ti] assms(1,2) True by (simp add: min_def)
  moreover have "ord' \<noteq> []" using True assms(2,4) by auto
  then have "c' = c - 1" using True assms(5) by simp
  moreover have "drop (c - 1) ord' = drop c ord" "take (c - 1) ord' = take ti ord @ drop (Suc ti) (take c ord)"
    using True assms(2,3,4) by (simp_all add: min_def drop_take) (use True in \<open>auto dest: le_antisym\<close>)
  ultimately show ?thesis by (simp add: remove1_append)
next
  case False
  have "ord ! ti = drop c ord ! (ti - c)" using False assms(2,3) by simp
  then have "ord ! ti \<in> set (drop c ord)" using False assms(3) by (metis diff_less_mono length_drop linorder_not_less nth_mem)
  moreover have "remove1 (ord ! ti) (drop c ord) = drop c (take ti ord) @ drop (Suc ti) ord"
    using take_drop_remove1 [of "drop c ord" "ti - c"] assms(1,3) False
    by (simp add: drop_take)
  ultimately have r: "remove1 (ord ! ti) (drop c ord @ take c ord)
      = (drop c (take ti ord) @ drop (Suc ti) ord) @ take c ord"
    by (simp add: remove1_append)
  show ?thesis
  proof (cases "length ord' \<le> c")
    case True
    then have "ti = c" "Suc ti = length ord" "c' = 0" using False assms(2-5) by auto
    then show ?thesis unfolding r using assms(4) by simp
  next
    case nl: False
    then have "c' = c" using False assms(5) by auto
    moreover have "drop c ord' = drop c (take ti ord) @ drop (Suc ti) ord" "take c ord' = take c ord"
      using False assms(2-4) by simp_all
    ultimately show ?thesis unfolding r by simp
  qed
qed

text \<open>
  Removing an entry by id never disturbs the rotation of the other tenants: the tenants are
  served in the same order as before from the cursor on, without the tenant that has no entry left.
\<close>

theorem removal_keeps_rotation:
  assumes "queue_inv q" and "removeById i q = (Some e, q')"
  shows "ring q' = (if bucket_of q' (e_tenantKey e) = [] then remove1 (e_tenantKey e) (ring q) else ring q)"
  using remove_from_spec [OF assms(1), of "[0..<length (fq_order q)]" i, unfolded set_upt, OF subset_refl]
proof (elim disjE exE conjE)
  assume "remove_from i [0..<length (fq_order q)] q = (None, q)"
  then show ?thesis using assms(2) by (simp add: removeById_def)
next
  fix ti k
  let ?t = "fq_order q ! ti"
  let ?rest = "take k (bucket_of q ?t) @ drop (Suc k) (bucket_of q ?t)"
  assume *: "ti \<in> {0..<length (fq_order q)}" "findIndex_id i (bucket_of q ?t) = Some k"
    "remove_from i [0..<length (fq_order q)] q = remove_at ti k (bucket_of q ?t) q"
  have ti: "ti < length (fq_order q)" using *(1) by simp
  have k: "k < length (bucket_of q ?t)" using findIndex_id_Some [OF *(2)] by blast
  have rem: "remove_at ti k (bucket_of q ?t) q = (Some e, q')"
    using assms(2) *(3) by (simp add: removeById_def)
  then have e: "e = bucket_of q ?t ! k" by (simp add: remove_at_def Let_def)
  then have t: "e_tenantKey e = ?t"
    using assms(1) k nth_mem unfolding queue_inv_def entries_ok_def by blast
  have b: "bucket_of q' ?t = ?rest"
    using remove_at_spec [OF assms(1) ti refl k] rem by auto
  have cur: "fq_cursor q < length (fq_order q)" and dist: "distinct (fq_order q)"
    using assms(1) ti by (auto simp: queue_inv_def cursor_ok_def struct_inv_def split: if_splits)
  have q': "q' = snd (remove_at ti k (bucket_of q ?t) q)" using rem by simp
  show ?thesis
  proof (cases "?rest = []")
    case True
    let ?ord = "take ti (fq_order q) @ drop (Suc ti) (fq_order q)"
    have "fq_order q' = ?ord"
      unfolding q' remove_at_def Let_def True by simp
    moreover have "fq_cursor q' = (if ?ord = [] then 0 else if ti < fq_cursor q then fq_cursor q - 1
        else if length ?ord \<le> fq_cursor q then 0 else fq_cursor q)"
      unfolding q' remove_at_def Let_def True by (simp only: simp_thms if_True snd_conv) simp
    ultimately have "ring q' = remove1 ?t (ring q)"
      unfolding ring_def by (intro rotate_remove [OF dist cur ti]) simp_all
    then show ?thesis unfolding t b True by simp
  next
    case False
    have "ring q' = ring q"
      unfolding q' remove_at_def Let_def ring_def using False by (simp only: if_False snd_conv) simp
    then show ?thesis unfolding t b using False by (simp only: if_False)
  qed
qed

theorem removal_keeps_rotation_witness:
  "ring (snd (removeById 3 sample_queue)) = [''a'']"
proof -
  have "fst (removeById 3 sample_queue) = Some (job 3 ''b'' 2)"
    "bucket_of (snd (removeById 3 sample_queue)) ''b'' = []"
    by code_simp+
  then show ?thesis
    using removal_keeps_rotation [OF sample_queue_inv(1), of 3 "job 3 ''b'' 2" "snd (removeById 3 sample_queue)"]
    by (simp add: sample_queue_contents job_def prod_eq_iff)
qed

subsection \<open>Reservation and blocking\<close>

text \<open>Whatever is reserved is the oldest of the heads passed over often enough.\<close>

definition aged_head :: "('i, 'p) fair_queue \<Rightarrow> ('i, 'p) queue_entry \<Rightarrow> bool" where
  "aged_head q e \<longleftrightarrow> MAX_UNFITTABLE_SKIPS \<le> e_skipCount e
     \<and> (\<exists>t es. t \<in> set (fq_order q) \<and> bucket_of q t = e # es)"

lemma reserve_oldest:
  assumes "reserve q i r = Some (idx, e)"
  shows "(\<forall>x j. r = Some (j, x) \<longrightarrow> e_enqueuedAtMs e \<le> e_enqueuedAtMs x)
    \<and> (\<forall>x. head_at q i = Some x \<and> MAX_UNFITTABLE_SKIPS \<le> e_skipCount x
           \<longrightarrow> e_enqueuedAtMs e \<le> e_enqueuedAtMs x)"
  using assms by (auto simp: reserve_def split: option.splits if_splits)

lemma find_reserved_oldest:
  assumes "find_reserved q is r = Some (idx, e)"
  shows "(\<forall>x j. r = Some (j, x) \<longrightarrow> e_enqueuedAtMs e \<le> e_enqueuedAtMs x)
    \<and> (\<forall>i \<in> set is. \<forall>x. head_at q i = Some x \<and> MAX_UNFITTABLE_SKIPS \<le> e_skipCount x
           \<longrightarrow> e_enqueuedAtMs e \<le> e_enqueuedAtMs x)"
  using assms
proof (induction "is" arbitrary: r)
  case (Cons i "is")
  have f: "find_reserved q is (reserve q i r) = Some (idx, e)"
    using Cons.prems unfolding find_reserved_reserve .
  show ?case
  proof (cases "reserve q i r")
    case None
    then show ?thesis using Cons.IH [OF f] reserve_None [of q i r] by fastforce
  next
    case (Some p)
    obtain k y where p: "p = (k, y)" by (cases p)
    then have "e_enqueuedAtMs e \<le> e_enqueuedAtMs y" using Cons.IH [OF f] Some by blast
    then show ?thesis
      using Cons.IH [OF f] reserve_oldest [of q i r k y] Some p by (auto intro: order_trans)
  qed
qed simp

lemma aged_head_at:
  assumes "aged_head q e"
  shows "\<exists>i \<in> set (rotation q). head_at q i = Some e \<and> MAX_UNFITTABLE_SKIPS \<le> e_skipCount e"
  using assms by (auto simp: aged_head_def in_set_conv_nth [of _ "fq_order q"] set_rotation head_at_bucket)
    (metis atLeastLessThan_iff list.case(2) zero_le)

text \<open>
  C3: Reservation stops starvation by size: when some tenant's head was passed over
  \<open>MAX_UNFITTABLE_SKIPS\<close> times, a dequeue either returns such a head, and the oldest of them,
  or, when that one does not fit, returns nothing and leaves the queue unchanged: no smaller
  entry of any tenant is admitted ahead of it.
\<close>

theorem aged_head_reserves_capacity:
  assumes "queue_inv q" and "aged_head q old"
  shows "\<exists>e. aged_head q e \<and> (\<forall>x. aged_head q x \<longrightarrow> e_enqueuedAtMs e \<le> e_enqueuedAtMs x)
    \<and> (if e_cost e \<le> m then fst (dequeue m q) = Some (core e) else dequeue m q = (None, q))"
proof -
  have "find_reserved q (rotation q) None \<noteq> None"
    using find_reserved_None [of q "rotation q" None] aged_head_at [OF assms(2)] by fastforce
  then obtain idx e where f: "find_reserved q (rotation q) None = Some (idx, e)" by auto
  note e = find_reserved_Some [OF f, simplified]
  obtain es where b: "bucket_of q (fq_order q ! idx) = e # es"
    using e by (auto simp: head_at_bucket split: list.splits)
  have idx: "idx < length (fq_order q)" using e rotation_less by blast
  have aged: "aged_head q e" unfolding aged_head_def using e b nth_mem [OF idx] by blast
  have oldest: "\<forall>x. aged_head q x \<longrightarrow> e_enqueuedAtMs e \<le> e_enqueuedAtMs x"
    using find_reserved_oldest [OF f] aged_head_at by blast
  have c: "fq_count q \<noteq> 0" using count_zero_iff [OF assms(1)] idx by auto
  have s: "struct_inv q" using assms(1) by (simp add: queue_inv_def)
  have "dequeue m q = (if e_cost e \<le> m then takeAt idx q else (None, q))"
    using c f by (simp add: dequeue_def)
  then have "if e_cost e \<le> m then fst (dequeue m q) = Some (core e) else dequeue m q = (None, q)"
    using takeAt_bucket [OF s idx b] by simp
  with aged oldest show ?thesis by blast
qed

text \<open>
  A dequeue returns nothing exactly when nothing can be admitted: the queue is empty, or no
  tenant's head fits, or the oldest reserved head does not fit; and then it changes nothing.
  In particular a poll without capacity never ages a head.
\<close>

theorem blocked_dequeue_changes_nothing:
  assumes "queue_inv q" and "fst (dequeue m q) = None"
  shows "snd (dequeue m q) = q \<and> (fq_order q = [] \<or> (\<exists>e. aged_head q e \<and> m < e_cost e)
     \<or> (\<forall>t \<in> set (fq_order q). m < e_cost (hd (bucket_of q t))))"
proof -
  have d: "dequeue m q = (None, snd (dequeue m q))" using assms(2) by (cases "dequeue m q") simp
  have s: "struct_inv q" using assms(1) by (simp add: queue_inv_def)
  have full: "\<And>t. t \<in> set (fq_order q) \<Longrightarrow> \<exists>x xs. bucket_of q t = x # xs"
    using nonempty_bucket [OF s] by metis
  show ?thesis
    using dequeue_None [OF assms(1) d] full unfolding aged_head_def by (metis list.sel(1))
qed

text \<open>
  Two dequeues with room for 2 only serve the small tenants and pass the large head of tenant a
  over twice; from then on it is reserved.
\<close>

definition aged_run :: "(nat, unit) queue_event list" where
  "aged_run = [Enqueue (job 1 ''a'' 5), Enqueue (job 2 ''b'' 1), Dequeue 2,
     Enqueue (job 3 ''c'' 1), Dequeue 2, Enqueue (job 4 ''d'' 1)]"

definition aged_queue :: "(nat, unit) fair_queue" where
  "aged_queue = ql_queue (foldl queue_step (start_log 10 100) aged_run)"

lemma aged_queue_inv: "queue_inv aged_queue"
proof -
  have ok: "list_all fresh_entry aged_run" by (simp add: aged_run_def job_def)
  show ?thesis using run_log_inv [OF _ _ ok, of 10 100] by (simp add: aged_queue_def log_inv_def)
qed

lemma aged_queue_buckets:
  "fq_order aged_queue = [''a'', ''d'']"
  "bucket_of aged_queue ''a'' = [(job 1 ''a'' 5)\<lparr>e_skipCount := 2\<rparr>]"
  "bucket_of aged_queue ''d'' = [job 4 ''d'' 1]"
  by code_simp+

lemma aged_head_aged_queue: "aged_head aged_queue e \<longleftrightarrow> e = (job 1 ''a'' 5)\<lparr>e_skipCount := 2\<rparr>"
  by (auto simp: aged_head_def aged_queue_buckets MAX_UNFITTABLE_SKIPS_def job_def)

theorem aged_head_reserves_capacity_witness:
  "dequeue 2 aged_queue = (None, aged_queue) \<and> fst (dequeue 5 aged_queue) = Some (job 1 ''a'' 5)"
  using aged_head_reserves_capacity [OF aged_queue_inv aged_head_aged_queue [THEN iffD2, OF refl], of 2]
    aged_head_reserves_capacity [OF aged_queue_inv aged_head_aged_queue [THEN iffD2, OF refl], of 5]
  by (simp add: aged_head_aged_queue) (simp add: job_def core_def)

theorem blocked_dequeue_changes_nothing_witness:
  "snd (dequeue 2 aged_queue) = aged_queue \<and> fq_order aged_queue \<noteq> []"
proof -
  have "fst (dequeue 2 aged_queue) = None" by code_simp
  from blocked_dequeue_changes_nothing [OF aged_queue_inv this]
  show ?thesis by (simp add: aged_queue_buckets)
qed

subsection \<open>What round-robin does not give\<close>

text \<open>
  The queue with one entry of tenant a behind the cursor and one of tenant b at it.
\<close>

definition behind_cursor ::
  "('i, 'p) queue_entry \<Rightarrow> ('i, 'p) queue_entry \<Rightarrow> int \<Rightarrow> int \<Rightarrow> ('i, 'p) fair_queue" where
  "behind_cursor ea eb n c = \<lparr>fq_maxCount = n, fq_maxCost = c,
     fq_buckets = [(e_tenantKey ea, [ea]), (e_tenantKey eb, [eb])],
     fq_order = [e_tenantKey ea, e_tenantKey eb], fq_cursor = 1, fq_count = 2,
     fq_cost = e_cost ea + e_cost eb\<rparr>"

text \<open>An arrival and then a dequeue, as at a server that always has one client waiting.\<close>

fun arrivals :: "int \<Rightarrow> ('i, 'p) queue_entry list \<Rightarrow> ('i, 'p) fair_queue
    \<Rightarrow> ('i, 'p) queue_entry option list \<times> ('i, 'p) fair_queue" where
  "arrivals m [] q = ([], q)"
| "arrivals m (e # es) q =
     (let (_, q1) = enqueue e q; (r, q2) = dequeue m q1; (rs, q3) = arrivals m es q2 in (r # rs, q3))"

fun successive :: "string \<Rightarrow> string \<Rightarrow> ('i, 'p) queue_entry list \<Rightarrow> bool" where
  "successive t u [] = True"
| "successive t u (e # es) =
     (e_tenantKey e \<noteq> t \<and> e_tenantKey e \<noteq> u \<and> e_cost e = 1 \<and> e_skipCount e = 0
      \<and> successive t (e_tenantKey e) es)"

lemma unskipped: "e_skipCount e = 0 \<Longrightarrow> e\<lparr>e_skipCount := 0\<rparr> = e"
  by (cases e) simp

lemma behind_cursor_step:
  assumes "e_tenantKey ea \<noteq> e_tenantKey eb" "e_tenantKey e \<noteq> e_tenantKey ea" "e_tenantKey e \<noteq> e_tenantKey eb"
    and "e_cost ea = 1" "e_cost eb = 1" "e_cost e = 1" "1 \<le> m" "3 \<le> n" "3 \<le> c"
    and "e_skipCount ea = 0" "e_skipCount eb = 0" "e_skipCount e = 0"
  shows "dequeue m (snd (enqueue e (behind_cursor ea eb n c))) = (Some eb, behind_cursor ea e n c)"
proof -
  have r: "[0..<3] = [0, 1, 2::nat]" by (simp add: upt_conv_Cons)
  define q where "q = \<lparr>fq_maxCount = n, fq_maxCost = c,
     fq_buckets = [(e_tenantKey ea, [ea]), (e_tenantKey eb, [eb]), (e_tenantKey e, [e])],
     fq_order = [e_tenantKey ea, e_tenantKey eb, e_tenantKey e], fq_cursor = 1, fq_count = 3, fq_cost = 3\<rparr>"
  have "snd (enqueue e (behind_cursor ea eb n c)) = q"
    using assms by (simp add: behind_cursor_def enqueue_def canAccept_def MAX_SAFE_INTEGER_def q_def Let_def)
  moreover have "rotation q = [1, 2, 0]" by (simp add: rotation_def q_def r)
  moreover have "takeAt 1 q = (Some eb, behind_cursor ea e n c)"
    using assms by (simp add: takeAt_def q_def behind_cursor_def Let_def unskipped)
  ultimately show ?thesis
    using assms by (simp add: dequeue_def) (simp add: q_def head_at_def MAX_UNFITTABLE_SKIPS_def)
qed

text \<open>
  The rotation is fair among the tenants that are queued, but not against new ones: a tenant
  whose bucket stands behind the cursor is never served while each dequeue is preceded by one
  arrival of a tenant that is not queued, because a new tenant is appended to \<open>order\<close>, which is
  ahead of it in the rotation. Two other tenants that alternate are enough, and the entry is
  never passed over for its cost, so it never becomes reserved either.
\<close>

theorem new_tenants_starve_a_waiting_one:
  assumes "e_tenantKey ea \<noteq> e_tenantKey eb" and "successive (e_tenantKey ea) (e_tenantKey eb) es"
    and "e_cost ea = 1" "e_cost eb = 1" "e_skipCount ea = 0" "e_skipCount eb = 0"
    and "1 \<le> m" "3 \<le> n" "3 \<le> c"
  shows "fst (arrivals m es (behind_cursor ea eb n c)) = map Some (butlast (eb # es))
    \<and> bucket_of (snd (arrivals m es (behind_cursor ea eb n c))) (e_tenantKey ea) = [ea]"
  using assms
proof (induction es arbitrary: eb)
  case Nil
  then show ?case by (simp add: behind_cursor_def bucket_of_def)
next
  case (Cons e es)
  have "dequeue m (snd (enqueue e (behind_cursor ea eb n c))) = (Some eb, behind_cursor ea e n c)"
    using Cons.prems by (intro behind_cursor_step) auto
  then show ?case using Cons by (auto simp: split_beta)
qed

theorem new_tenants_starve_a_waiting_one_witness:
  "let q = snd (dequeue 1 (ql_queue (foldl queue_step (start_log 3 3)
             [Enqueue (job 1 ''a'' 1), Enqueue (job 2 ''a'' 1), Enqueue (job 3 ''b'' 1)])));
       late = concat (replicate 100 [job 4 ''c'' 1, job 5 ''b'' 1])
   in bucket_of (snd (arrivals 1 late q)) ''a'' = [job 2 ''a'' 1]"
proof -
  have q: "snd (dequeue 1 (ql_queue (foldl queue_step (start_log 3 3)
             [Enqueue (job 1 ''a'' 1), Enqueue (job 2 ''a'' 1), Enqueue (job 3 ''b'' 1)])))
      = behind_cursor (job 2 ''a'' 1) (job 3 ''b'' 1) 3 3"
    by code_simp
  have "successive ''a'' ''b'' (concat (replicate k [job 4 ''c'' 1, job 5 ''b'' 1]))" for k
    by (induction k) (simp_all add: job_def)
  then have "successive (e_tenantKey (job 2 ''a'' 1)) (e_tenantKey (job 3 ''b'' 1))
      (concat (replicate 100 [job 4 ''c'' 1, job 5 ''b'' 1]))"
    by (simp only: job_def queue_entry.simps)
  from new_tenants_starve_a_waiting_one [OF _ this, of 1 3 3]
  show ?thesis unfolding q Let_def by (simp only: job_def queue_entry.simps) simp
qed

end
