(* ===== verification/AdmissionCost.thy ===== *)
theory AdmissionCost
  imports Prelude
begin

text \<open>
  The bounded cost estimator of \<^verbatim>\<open>open-sse/services/admission/cost.ts\<close> and the bounds of
  \<^verbatim>\<open>types.ts\<close> beside it. Every number a caller supplies is a \<^typ>\<open>js_value\<close>; the costs it is
  turned into are integers.
\<close>

definition MAX_ADMISSION_WINDOW_MS :: int where
  "MAX_ADMISSION_WINDOW_MS = 86400000"

definition MAX_ADMISSION_COST_OR_LIMIT :: int where
  "MAX_ADMISSION_COST_OR_LIMIT = MAX_SAFE_INTEGER div MAX_ADMISSION_WINDOW_MS"

datatype range_error =
    Not_positive_safe_integer string
  | Above_maximum string int
  | Out_of_interval string
  | Wrong_order string
  | Bad_mode

record cost_features =
  bodyBytes :: js_value
  estimatedInputTokens :: js_value
  messageCount :: js_value
  toolCount :: js_value
  requestedFanout :: js_value
  streaming :: "bool option"

record 'n cost_config_of =
  baseCost :: 'n
  bodyBytesPerUnit :: 'n
  tokensPerUnit :: 'n
  messagesPerUnit :: 'n
  toolsPerUnit :: 'n
  fanoutPerUnit :: 'n
  streamingClassCost :: 'n
  nonStreamingClassCost :: 'n
  maxRequestCost :: 'n

type_synonym cost_config = "int cost_config_of"
type_synonym partial_cost_config = "js_value cost_config_of"

definition DEFAULT_ADMISSION_COST_CONFIG :: cost_config where
  "DEFAULT_ADMISSION_COST_CONFIG =
     \<lparr>baseCost = 1, bodyBytesPerUnit = 16384, tokensPerUnit = 1024, messagesPerUnit = 32,
      toolsPerUnit = 8, fanoutPerUnit = 1, streamingClassCost = 1, nonStreamingClassCost = 2,
      maxRequestCost = 1000\<rparr>"

definition no_cost_config :: partial_cost_config where
  "no_cost_config =
     \<lparr>baseCost = Undefined, bodyBytesPerUnit = Undefined, tokensPerUnit = Undefined,
      messagesPerUnit = Undefined, toolsPerUnit = Undefined, fanoutPerUnit = Undefined,
      streamingClassCost = Undefined, nonStreamingClassCost = Undefined, maxRequestCost = Undefined\<rparr>"

fun finiteNonNegative :: "js_value \<Rightarrow> real" where
  "finiteNonNegative (Number r) = (if r < 0 then 0 else min r (of_int MAX_SAFE_INTEGER))"
| "finiteNonNegative _ = 0"

fun number_value :: "js_value \<Rightarrow> int" where
  "number_value (Number r) = \<lfloor>r\<rfloor>"
| "number_value _ = 0"

definition requirePositiveSafeInteger :: "string \<Rightarrow> js_value \<Rightarrow> int \<Rightarrow> range_error + int" where
  "requirePositiveSafeInteger name v mx =
     (if \<not> is_safe_integer v \<or> number_value v \<le> 0 then Inl (Not_positive_safe_integer name)
      else if mx < number_value v then Inl (Above_maximum name mx)
      else Inr (number_value v))"

text \<open>One key of \<open>COST_CONFIG_KEYS\<close>: \<open>partial?.[key] ?? d[key]\<close>, validated.\<close>

definition cost_key :: "string \<Rightarrow> js_value \<Rightarrow> int \<Rightarrow> range_error + int" where
  "cost_key name v d =
     requirePositiveSafeInteger name (if is_nullish v then Number (of_int d) else v)
       MAX_ADMISSION_COST_OR_LIMIT"

definition resolveCostConfig :: "partial_cost_config \<Rightarrow> range_error + cost_config" where
  "resolveCostConfig p =
     (let d = DEFAULT_ADMISSION_COST_CONFIG in
      bindE (cost_key ''baseCost'' (baseCost p) (baseCost d)) (\<lambda>base.
      bindE (cost_key ''bodyBytesPerUnit'' (bodyBytesPerUnit p) (bodyBytesPerUnit d)) (\<lambda>body.
      bindE (cost_key ''tokensPerUnit'' (tokensPerUnit p) (tokensPerUnit d)) (\<lambda>tokens.
      bindE (cost_key ''messagesPerUnit'' (messagesPerUnit p) (messagesPerUnit d)) (\<lambda>messages.
      bindE (cost_key ''toolsPerUnit'' (toolsPerUnit p) (toolsPerUnit d)) (\<lambda>tools.
      bindE (cost_key ''fanoutPerUnit'' (fanoutPerUnit p) (fanoutPerUnit d)) (\<lambda>fanout.
      bindE (cost_key ''streamingClassCost'' (streamingClassCost p) (streamingClassCost d)) (\<lambda>sc.
      bindE (cost_key ''nonStreamingClassCost'' (nonStreamingClassCost p) (nonStreamingClassCost d)) (\<lambda>nsc.
      bindE (cost_key ''maxRequestCost'' (maxRequestCost p) (maxRequestCost d)) (\<lambda>mx.
        Inr \<lparr>baseCost = base, bodyBytesPerUnit = body, tokensPerUnit = tokens,
             messagesPerUnit = messages, toolsPerUnit = tools, fanoutPerUnit = fanout,
             streamingClassCost = sc, nonStreamingClassCost = nsc, maxRequestCost = mx\<rparr>))))))))))"

definition unitsFrom :: "real \<Rightarrow> int \<Rightarrow> int" where
  "unitsFrom amount quantum = (if amount \<le> 0 then 0 else \<lceil>amount / of_int quantum\<rceil>)"

definition addBounded :: "int \<Rightarrow> int \<Rightarrow> int \<Rightarrow> int" where
  "addBounded tot contribution maximum =
     (if maximum - tot \<le> contribution then maximum else tot + contribution)"

text \<open>The loop over the contributions, with its \<open>break\<close>.\<close>

fun add_contributions :: "int \<Rightarrow> int \<Rightarrow> int list \<Rightarrow> int" where
  "add_contributions mx tot [] = tot"
| "add_contributions mx tot (c # cs) =
     (let t = addBounded tot c mx in if t = mx then t else add_contributions mx t cs)"

definition contributions :: "cost_features \<Rightarrow> cost_config \<Rightarrow> int list" where
  "contributions f cfg =
     (let body = finiteNonNegative (bodyBytes f);
          tokens = finiteNonNegative (estimatedInputTokens f);
          messages = finiteNonNegative (messageCount f);
          tools = finiteNonNegative (toolCount f);
          fanout = max 1 (finiteNonNegative (requestedFanout f))
      in [unitsFrom body (bodyBytesPerUnit cfg), unitsFrom tokens (tokensPerUnit cfg),
          unitsFrom messages (messagesPerUnit cfg), unitsFrom tools (toolsPerUnit cfg),
          unitsFrom fanout (fanoutPerUnit cfg),
          if streaming f \<noteq> Some False then streamingClassCost cfg else nonStreamingClassCost cfg])"

definition estimateAdmissionCost ::
  "cost_features \<Rightarrow> partial_cost_config \<Rightarrow> range_error + int" where
  "estimateAdmissionCost f config =
     bindE (resolveCostConfig config) (\<lambda>cfg.
       Inr (add_contributions (maxRequestCost cfg) (min (baseCost cfg) (maxRequestCost cfg))
              (contributions f cfg)))"

definition normalizeRequestCost :: "js_value \<Rightarrow> js_value \<Rightarrow> range_error + int" where
  "normalizeRequestCost cost mxRequestCost =
     bindE (requirePositiveSafeInteger ''maxRequestCost'' mxRequestCost MAX_ADMISSION_COST_OR_LIMIT) (\<lambda>mx.
     bindE (requirePositiveSafeInteger ''request cost'' cost MAX_ADMISSION_COST_OR_LIMIT) (\<lambda>v.
       Inr (min v mx)))"

subsection \<open>Validated values\<close>

lemma requirePositiveSafeInteger_Inr:
  "requirePositiveSafeInteger n v mx = Inr x \<Longrightarrow> 0 < x \<and> x \<le> mx \<and> v = Number (of_int x)"
  by (cases v) (auto simp: requirePositiveSafeInteger_def split: if_splits)

lemma requirePositiveSafeInteger_ok:
  "0 < x \<Longrightarrow> x \<le> mx \<Longrightarrow> x \<le> MAX_SAFE_INTEGER \<Longrightarrow>
     requirePositiveSafeInteger n (Number (of_int x)) mx = Inr x"
  by (simp add: requirePositiveSafeInteger_def)

lemma cost_key_Inr: "cost_key n v d = Inr x \<Longrightarrow> 0 < x \<and> x \<le> MAX_ADMISSION_COST_OR_LIMIT"
  unfolding cost_key_def by (blast dest: requirePositiveSafeInteger_Inr)

definition cost_config_ok :: "cost_config \<Rightarrow> bool" where
  "cost_config_ok c \<longleftrightarrow> (\<forall>n \<in> {baseCost c, bodyBytesPerUnit c, tokensPerUnit c, messagesPerUnit c,
      toolsPerUnit c, fanoutPerUnit c, streamingClassCost c, nonStreamingClassCost c, maxRequestCost c}.
      0 < n \<and> n \<le> MAX_ADMISSION_COST_OR_LIMIT)"

lemma resolveCostConfig_ok: "resolveCostConfig p = Inr c \<Longrightarrow> cost_config_ok c"
  by (auto simp: resolveCostConfig_def Let_def bindE_Inr_iff cost_config_ok_def dest!: cost_key_Inr)

lemma unitsFrom_nonneg: "0 < q \<Longrightarrow> 0 \<le> unitsFrom a q"
proof -
  assume q: "0 < q"
  have "0 \<le> \<lceil>a / of_int q\<rceil>" if "0 < a"
  proof -
    have "0 < a / of_int q" using that q by simp
    then show ?thesis by linarith
  qed
  then show ?thesis unfolding unitsFrom_def by (auto simp only: not_le split: if_split)
qed

lemma unitsFrom_mono:
  assumes "0 < q" and "a \<le> b"
  shows "unitsFrom a q \<le> unitsFrom b q"
proof (cases "a \<le> 0")
  case True
  then show ?thesis using unitsFrom_nonneg [OF assms(1)] by (simp add: unitsFrom_def [of a])
next
  case False
  have "a / of_int q \<le> b / of_int q" using assms by (intro divide_right_mono) simp_all
  then show ?thesis using False assms(2) by (simp add: unitsFrom_def ceiling_mono)
qed

lemma contributions_nonneg: "cost_config_ok c \<Longrightarrow> x \<in> set (contributions f c) \<Longrightarrow> 0 \<le> x"
  by (auto simp: contributions_def Let_def cost_config_ok_def intro!: unitsFrom_nonneg split: if_splits)

lemma addBounded_min: "addBounded t c mx = min mx (t + c)"
  by (simp add: addBounded_def)

lemma add_contributions_sum:
  "t \<le> mx \<Longrightarrow> (\<And>c. c \<in> set cs \<Longrightarrow> 0 \<le> c) \<Longrightarrow> add_contributions mx t cs = min mx (t + sum_list cs)"
proof (induction cs arbitrary: t)
  case (Cons c cs)
  have nn: "0 \<le> sum_list cs" using Cons.prems(2) by (intro sum_list_nonneg) simp
  show ?case
  proof (cases "addBounded t c mx = mx")
    case True
    then show ?thesis using nn by (simp add: addBounded_min min_def split: if_splits)
  next
    case False
    have "add_contributions mx (addBounded t c mx) cs = min mx (addBounded t c mx + sum_list cs)"
      using Cons.prems by (intro Cons.IH) (simp_all add: addBounded_min)
    then show ?thesis using False by (simp add: addBounded_min min_def split: if_splits)
  qed
qed simp

text \<open>
  The estimate of a request's cost is the sum of its base cost and its contributions, cut at
  \<open>maxRequestCost\<close>, however large the features are: the early exit and the saturating addition
  of the loop change nothing, and the result lies between 1 and the validated maximum.
\<close>

theorem estimate_is_bounded_sum:
  assumes "resolveCostConfig config = Inr cfg"
  shows "\<exists>n. estimateAdmissionCost f config = Inr n
    \<and> n = min (maxRequestCost cfg) (baseCost cfg + sum_list (contributions f cfg))
    \<and> 1 \<le> n \<and> n \<le> maxRequestCost cfg \<and> maxRequestCost cfg \<le> MAX_ADMISSION_COST_OR_LIMIT"
proof -
  have ok: "cost_config_ok cfg" by (rule resolveCostConfig_ok [OF assms])
  have nn: "0 \<le> sum_list (contributions f cfg)"
    using contributions_nonneg [OF ok] by (intro sum_list_nonneg) blast
  have "add_contributions (maxRequestCost cfg) (min (baseCost cfg) (maxRequestCost cfg)) (contributions f cfg)
      = min (maxRequestCost cfg) (min (baseCost cfg) (maxRequestCost cfg) + sum_list (contributions f cfg))"
    using contributions_nonneg [OF ok] by (intro add_contributions_sum) auto
  then show ?thesis
    using assms ok nn by (auto simp: estimateAdmissionCost_def cost_config_ok_def)
qed

theorem estimate_is_bounded_sum_witness:
  "estimateAdmissionCost \<lparr>bodyBytes = Number 40000, estimatedInputTokens = Number 5000,
      messageCount = Number 3, toolCount = Infinite, requestedFanout = Number (-1), streaming = Some False\<rparr>
      no_cost_config = Inr 13"
proof -
  let ?f = "\<lparr>bodyBytes = Number 40000, estimatedInputTokens = Number 5000, messageCount = Number 3,
      toolCount = Infinite, requestedFanout = Number (-1), streaming = Some False\<rparr>"
  have r: "resolveCostConfig no_cost_config = Inr DEFAULT_ADMISSION_COST_CONFIG" by code_simp
  have "baseCost DEFAULT_ADMISSION_COST_CONFIG = 1" "maxRequestCost DEFAULT_ADMISSION_COST_CONFIG = 1000"
    "contributions ?f DEFAULT_ADMISSION_COST_CONFIG = [3, 5, 1, 0, 1, 2]"
    by code_simp+
  then show ?thesis using estimate_is_bounded_sum [OF r, of ?f] by simp
qed

end
