(* ===== verification/AdmissionConfig.thy ===== *)
theory AdmissionConfig
  imports AdmissionCost
begin

text \<open>
  The strict validation of the admission configuration, \<^verbatim>\<open>open-sse/services/admission/config.ts\<close>:
  every field is checked in the order of the source, so the first bad one decides the error.
\<close>

datatype admission_mode = Off | Shadow | Enforce

text \<open>\<open>mode\<close> as supplied: \<open>None\<close> is \<open>undefined\<close>.\<close>

definition resolveMode :: "string option \<Rightarrow> range_error + admission_mode" where
  "resolveMode m =
     (case m of
        None \<Rightarrow> Inr Shadow
      | Some s \<Rightarrow>
          if s = ''off'' then Inr Off else if s = ''shadow'' then Inr Shadow
          else if s = ''enforce'' then Inr Enforce else Inl Bad_mode)"

record admission_config =
  ac_mode :: "string option"
  ac_minLimit :: js_value
  ac_maxLimit :: js_value
  ac_initialLimit :: js_value
  ac_maxQueueCount :: js_value
  ac_maxQueueCost :: js_value
  ac_defaultMaxWaitMs :: js_value
  ac_windowMs :: js_value
  ac_shortLatencyAlpha :: js_value
  ac_longLatencyAlpha :: js_value
  ac_increaseStep :: js_value
  ac_decreaseFactor :: js_value
  ac_criticalDecreaseFactor :: js_value
  ac_highUtilizationThreshold :: js_value
  ac_lowUtilizationThreshold :: js_value
  ac_latencyGradientThreshold :: js_value
  ac_maxIncreasePerWindow :: js_value
  ac_cost :: partial_cost_config
  ac_virtualLanes :: "bool option"

record adaptation_params =
  ap_minLimit :: int
  ap_maxLimit :: int
  ap_windowMs :: int
  ap_shortLatencyAlpha :: real
  ap_longLatencyAlpha :: real
  ap_increaseStep :: int
  ap_decreaseFactor :: real
  ap_criticalDecreaseFactor :: real
  ap_highUtilizationThreshold :: real
  ap_lowUtilizationThreshold :: real
  ap_latencyGradientThreshold :: real
  ap_maxIncreasePerWindow :: int

record validated_config =
  vc_mode :: admission_mode
  vc_minLimit :: int
  vc_maxLimit :: int
  vc_initialLimit :: int
  vc_maxQueueCount :: int
  vc_maxQueueCost :: int
  vc_defaultMaxWaitMs :: int
  vc_windowMs :: int
  vc_adaptation :: adaptation_params
  vc_maxRequestCost :: int
  vc_costConfig :: cost_config
  vc_virtualLanes :: bool

definition requirePositiveInt :: "string \<Rightarrow> js_value \<Rightarrow> int \<Rightarrow> range_error + int" where
  "requirePositiveInt name v mx =
     (case v of
        Number r \<Rightarrow>
          if r \<le> 0 \<or> \<not> is_safe_integer v then Inl (Not_positive_safe_integer name)
          else if of_int mx < r then Inl (Above_maximum name mx)
          else Inr \<lfloor>r\<rfloor>
      | _ \<Rightarrow> Inl (Not_positive_safe_integer name))"

definition requireUnitInterval :: "string \<Rightarrow> js_value \<Rightarrow> real \<Rightarrow> range_error + real" where
  "requireUnitInterval name v fallback =
     (case v of
        Undefined \<Rightarrow> Inr fallback
      | Number r \<Rightarrow> if r \<le> 0 \<or> 1 < r then Inl (Out_of_interval name) else Inr r
      | _ \<Rightarrow> Inl (Out_of_interval name))"

definition requireDecreaseFactor :: "string \<Rightarrow> js_value \<Rightarrow> real \<Rightarrow> range_error + real" where
  "requireDecreaseFactor name v fallback =
     (case v of
        Undefined \<Rightarrow> Inr fallback
      | Number r \<Rightarrow> if r \<le> 0 \<or> 1 \<le> r then Inl (Out_of_interval name) else Inr r
      | _ \<Rightarrow> Inl (Out_of_interval name))"

text \<open>\<open>value === undefined ? fallback : requirePositiveInt(name, value, max)\<close>.\<close>

definition positiveIntOr :: "string \<Rightarrow> js_value \<Rightarrow> int \<Rightarrow> int \<Rightarrow> range_error + int" where
  "positiveIntOr name v fallback mx = (if v = Undefined then Inr fallback else requirePositiveInt name v mx)"

definition resolveAdaptationParams ::
  "admission_config \<Rightarrow> int \<Rightarrow> int \<Rightarrow> int \<Rightarrow> range_error + adaptation_params" where
  "resolveAdaptationParams input minLimit maxLimit windowMs =
     bindE (requireDecreaseFactor ''decreaseFactor'' (ac_decreaseFactor input) (8 / 10)) (\<lambda>decreaseFactor.
     bindE (requireDecreaseFactor ''criticalDecreaseFactor'' (ac_criticalDecreaseFactor input) (5 / 10))
       (\<lambda>criticalDecreaseFactor.
     bindE (positiveIntOr ''increaseStep'' (ac_increaseStep input) 1 MAX_ADMISSION_COST_OR_LIMIT)
       (\<lambda>increaseStep.
     bindE (positiveIntOr ''maxIncreasePerWindow'' (ac_maxIncreasePerWindow input) increaseStep
              MAX_ADMISSION_COST_OR_LIMIT) (\<lambda>maxIncreasePerWindow.
     bindE (requireUnitInterval ''shortLatencyAlpha'' (ac_shortLatencyAlpha input) (5 / 10))
       (\<lambda>shortLatencyAlpha.
     bindE (requireUnitInterval ''longLatencyAlpha'' (ac_longLatencyAlpha input) (1 / 10))
       (\<lambda>longLatencyAlpha.
     bindE (requireUnitInterval ''highUtilizationThreshold'' (ac_highUtilizationThreshold input) (7 / 10))
       (\<lambda>high.
     bindE (requireUnitInterval ''lowUtilizationThreshold'' (ac_lowUtilizationThreshold input) (3 / 10))
       (\<lambda>low.
       if decreaseFactor < criticalDecreaseFactor then Inl (Wrong_order ''criticalDecreaseFactor'')
       else if high \<le> low then Inl (Wrong_order ''lowUtilizationThreshold'')
       else if shortLatencyAlpha \<le> longLatencyAlpha then Inl (Wrong_order ''shortLatencyAlpha'')
       else
         bindE (requireUnitInterval ''latencyGradientThreshold'' (ac_latencyGradientThreshold input) (25 / 100))
           (\<lambda>gradient.
           Inr \<lparr>ap_minLimit = minLimit, ap_maxLimit = maxLimit, ap_windowMs = windowMs,
                ap_shortLatencyAlpha = shortLatencyAlpha, ap_longLatencyAlpha = longLatencyAlpha,
                ap_increaseStep = increaseStep, ap_decreaseFactor = decreaseFactor,
                ap_criticalDecreaseFactor = criticalDecreaseFactor,
                ap_highUtilizationThreshold = high, ap_lowUtilizationThreshold = low,
                ap_latencyGradientThreshold = gradient,
                ap_maxIncreasePerWindow = maxIncreasePerWindow\<rparr>)))))))))"

definition validateConfig :: "admission_config \<Rightarrow> range_error + validated_config" where
  "validateConfig input =
     bindE (requirePositiveInt ''minLimit'' (ac_minLimit input) MAX_ADMISSION_COST_OR_LIMIT) (\<lambda>minLimit.
     bindE (requirePositiveInt ''maxLimit'' (ac_maxLimit input) MAX_ADMISSION_COST_OR_LIMIT) (\<lambda>maxLimit.
       if maxLimit < minLimit then Inl (Wrong_order ''minLimit'') else
     bindE (requirePositiveInt ''initialLimit'' (ac_initialLimit input) MAX_ADMISSION_COST_OR_LIMIT)
       (\<lambda>initialLimit.
     bindE (requirePositiveInt ''maxQueueCount'' (ac_maxQueueCount input) MAX_SAFE_INTEGER) (\<lambda>maxQueueCount.
     bindE (requirePositiveInt ''maxQueueCost'' (ac_maxQueueCost input) MAX_ADMISSION_COST_OR_LIMIT)
       (\<lambda>maxQueueCost.
     bindE (positiveIntOr ''windowMs'' (ac_windowMs input) 1000 MAX_ADMISSION_WINDOW_MS) (\<lambda>windowMs.
     bindE (positiveIntOr ''defaultMaxWaitMs'' (ac_defaultMaxWaitMs input) 5000 MAX_ADMISSION_WINDOW_MS)
       (\<lambda>defaultMaxWaitMs.
     bindE (resolveCostConfig (ac_cost input)) (\<lambda>costConfig.
     bindE (resolveMode (ac_mode input)) (\<lambda>md.
     bindE (resolveAdaptationParams input minLimit maxLimit windowMs) (\<lambda>adaptation.
       Inr \<lparr>vc_mode = md, vc_minLimit = minLimit, vc_maxLimit = maxLimit,
            vc_initialLimit = initialLimit, vc_maxQueueCount = maxQueueCount,
            vc_maxQueueCost = maxQueueCost, vc_defaultMaxWaitMs = defaultMaxWaitMs,
            vc_windowMs = windowMs, vc_adaptation = adaptation,
            vc_maxRequestCost = maxRequestCost costConfig, vc_costConfig = costConfig,
            vc_virtualLanes = (ac_virtualLanes input = Some True)\<rparr>))))))))))"

subsection \<open>What validation guarantees\<close>

definition params_ok :: "adaptation_params \<Rightarrow> bool" where
  "params_ok p \<longleftrightarrow> 0 < ap_minLimit p \<and> ap_minLimit p \<le> ap_maxLimit p
     \<and> ap_maxLimit p \<le> MAX_ADMISSION_COST_OR_LIMIT
     \<and> 0 < ap_windowMs p \<and> ap_windowMs p \<le> MAX_ADMISSION_WINDOW_MS
     \<and> 0 < ap_longLatencyAlpha p \<and> ap_longLatencyAlpha p < ap_shortLatencyAlpha p
     \<and> ap_shortLatencyAlpha p \<le> 1
     \<and> 0 < ap_increaseStep p \<and> 0 < ap_maxIncreasePerWindow p
     \<and> 0 < ap_criticalDecreaseFactor p \<and> ap_criticalDecreaseFactor p \<le> ap_decreaseFactor p
     \<and> ap_decreaseFactor p < 1
     \<and> 0 < ap_lowUtilizationThreshold p
     \<and> ap_lowUtilizationThreshold p < ap_highUtilizationThreshold p
     \<and> ap_highUtilizationThreshold p \<le> 1
     \<and> 0 < ap_latencyGradientThreshold p"

definition config_ok :: "validated_config \<Rightarrow> bool" where
  "config_ok c \<longleftrightarrow> params_ok (vc_adaptation c) \<and> cost_config_ok (vc_costConfig c)
     \<and> ap_minLimit (vc_adaptation c) = vc_minLimit c \<and> ap_maxLimit (vc_adaptation c) = vc_maxLimit c
     \<and> ap_windowMs (vc_adaptation c) = vc_windowMs c
     \<and> vc_maxRequestCost c = maxRequestCost (vc_costConfig c)
     \<and> 0 < vc_initialLimit c \<and> 0 < vc_maxQueueCount c \<and> 0 < vc_maxQueueCost c
     \<and> vc_maxQueueCost c \<le> MAX_ADMISSION_COST_OR_LIMIT
     \<and> 0 < vc_defaultMaxWaitMs c \<and> vc_defaultMaxWaitMs c \<le> MAX_ADMISSION_WINDOW_MS"

lemma requirePositiveInt_Inr: "requirePositiveInt n v mx = Inr x \<Longrightarrow> 0 < x \<and> x \<le> mx"
  by (cases v) (auto simp: requirePositiveInt_def split: if_splits)

lemma positiveIntOr_Inr: "positiveIntOr n v d mx = Inr x \<Longrightarrow> 0 < d \<Longrightarrow> d \<le> mx \<Longrightarrow> 0 < x \<and> x \<le> mx"
  by (auto simp: positiveIntOr_def dest: requirePositiveInt_Inr split: if_splits)

lemma requireUnitInterval_Inr:
  "requireUnitInterval n v d = Inr x \<Longrightarrow> 0 < d \<Longrightarrow> d \<le> 1 \<Longrightarrow> 0 < x \<and> x \<le> 1"
  by (cases v) (auto simp: requireUnitInterval_def split: if_splits)

lemma requireDecreaseFactor_Inr:
  "requireDecreaseFactor n v d = Inr x \<Longrightarrow> 0 < d \<Longrightarrow> d < 1 \<Longrightarrow> 0 < x \<and> x < 1"
  by (cases v) (auto simp: requireDecreaseFactor_def split: if_splits)

lemma max_constants: "1 < MAX_ADMISSION_COST_OR_LIMIT" "5000 < MAX_ADMISSION_WINDOW_MS"
  by (simp_all add: MAX_ADMISSION_COST_OR_LIMIT_def MAX_SAFE_INTEGER_def MAX_ADMISSION_WINDOW_MS_def)

lemma resolveAdaptationParams_ok:
  assumes "resolveAdaptationParams input mn mx w = Inr p"
    and "0 < mn" "mn \<le> mx" "mx \<le> MAX_ADMISSION_COST_OR_LIMIT" "0 < w" "w \<le> MAX_ADMISSION_WINDOW_MS"
  shows "params_ok p \<and> ap_minLimit p = mn \<and> ap_maxLimit p = mx \<and> ap_windowMs p = w"
  using assms(1) unfolding resolveAdaptationParams_def
proof (elim bindE_InrE)
  fix df cdf stp mi sa la high low
  assume *: "requireDecreaseFactor ''decreaseFactor'' (ac_decreaseFactor input) (8 / 10) = Inr df"
    "requireDecreaseFactor ''criticalDecreaseFactor'' (ac_criticalDecreaseFactor input) (5 / 10) = Inr cdf"
    "positiveIntOr ''increaseStep'' (ac_increaseStep input) 1 MAX_ADMISSION_COST_OR_LIMIT = Inr stp"
    "positiveIntOr ''maxIncreasePerWindow'' (ac_maxIncreasePerWindow input) stp MAX_ADMISSION_COST_OR_LIMIT
       = Inr mi"
    "requireUnitInterval ''shortLatencyAlpha'' (ac_shortLatencyAlpha input) (5 / 10) = Inr sa"
    "requireUnitInterval ''longLatencyAlpha'' (ac_longLatencyAlpha input) (1 / 10) = Inr la"
    "requireUnitInterval ''highUtilizationThreshold'' (ac_highUtilizationThreshold input) (7 / 10) = Inr high"
    "requireUnitInterval ''lowUtilizationThreshold'' (ac_lowUtilizationThreshold input) (3 / 10) = Inr low"
  have df: "0 < df \<and> df < 1" using requireDecreaseFactor_Inr [OF *(1)] by simp
  have cdf: "0 < cdf \<and> cdf < 1" using requireDecreaseFactor_Inr [OF *(2)] by simp
  have stp: "0 < stp \<and> stp \<le> MAX_ADMISSION_COST_OR_LIMIT" using positiveIntOr_Inr [OF *(3)] max_constants by simp
  have mi: "0 < mi" using positiveIntOr_Inr [OF *(4)] stp by simp
  have sa: "0 < sa \<and> sa \<le> 1" using requireUnitInterval_Inr [OF *(5)] by simp
  have la: "0 < la \<and> la \<le> 1" using requireUnitInterval_Inr [OF *(6)] by simp
  have high: "0 < high \<and> high \<le> 1" using requireUnitInterval_Inr [OF *(7)] by simp
  have low: "0 < low \<and> low \<le> 1" using requireUnitInterval_Inr [OF *(8)] by simp
  assume rest: "(if df < cdf then Inl (Wrong_order ''criticalDecreaseFactor'')
      else if high \<le> low then Inl (Wrong_order ''lowUtilizationThreshold'')
      else if sa \<le> la then Inl (Wrong_order ''shortLatencyAlpha'')
      else bindE (requireUnitInterval ''latencyGradientThreshold'' (ac_latencyGradientThreshold input) (25 / 100))
        (\<lambda>gradient. Inr \<lparr>ap_minLimit = mn, ap_maxLimit = mx, ap_windowMs = w,
                ap_shortLatencyAlpha = sa, ap_longLatencyAlpha = la,
                ap_increaseStep = stp, ap_decreaseFactor = df, ap_criticalDecreaseFactor = cdf,
                ap_highUtilizationThreshold = high, ap_lowUtilizationThreshold = low,
                ap_latencyGradientThreshold = gradient, ap_maxIncreasePerWindow = mi\<rparr>)) = Inr p"
  then obtain g where g: "requireUnitInterval ''latencyGradientThreshold'' (ac_latencyGradientThreshold input)
      (25 / 100) = Inr g"
    by (auto simp: bindE_Inr_iff split: if_splits)
  have "0 < g" using requireUnitInterval_Inr [OF g] by simp
  then show ?thesis
    using rest g df cdf stp mi sa la high low assms(2-6) by (auto simp: params_ok_def split: if_splits)
qed

lemma validateConfig_ok:
  assumes "validateConfig input = Inr c"
  shows "config_ok c"
  using assms unfolding validateConfig_def
proof (elim bindE_InrE)
  fix mn mx
  assume mn: "requirePositiveInt ''minLimit'' (ac_minLimit input) MAX_ADMISSION_COST_OR_LIMIT = Inr mn"
    and mx: "requirePositiveInt ''maxLimit'' (ac_maxLimit input) MAX_ADMISSION_COST_OR_LIMIT = Inr mx"
    and rest: "(if mx < mn then Inl (Wrong_order ''minLimit'') else
     bindE (requirePositiveInt ''initialLimit'' (ac_initialLimit input) MAX_ADMISSION_COST_OR_LIMIT)
       (\<lambda>initialLimit.
     bindE (requirePositiveInt ''maxQueueCount'' (ac_maxQueueCount input) MAX_SAFE_INTEGER) (\<lambda>maxQueueCount.
     bindE (requirePositiveInt ''maxQueueCost'' (ac_maxQueueCost input) MAX_ADMISSION_COST_OR_LIMIT)
       (\<lambda>maxQueueCost.
     bindE (positiveIntOr ''windowMs'' (ac_windowMs input) 1000 MAX_ADMISSION_WINDOW_MS) (\<lambda>windowMs.
     bindE (positiveIntOr ''defaultMaxWaitMs'' (ac_defaultMaxWaitMs input) 5000 MAX_ADMISSION_WINDOW_MS)
       (\<lambda>defaultMaxWaitMs.
     bindE (resolveCostConfig (ac_cost input)) (\<lambda>costConfig.
     bindE (resolveMode (ac_mode input)) (\<lambda>md.
     bindE (resolveAdaptationParams input mn mx windowMs) (\<lambda>adaptation.
       Inr \<lparr>vc_mode = md, vc_minLimit = mn, vc_maxLimit = mx,
            vc_initialLimit = initialLimit, vc_maxQueueCount = maxQueueCount,
            vc_maxQueueCost = maxQueueCost, vc_defaultMaxWaitMs = defaultMaxWaitMs,
            vc_windowMs = windowMs, vc_adaptation = adaptation,
            vc_maxRequestCost = maxRequestCost costConfig, vc_costConfig = costConfig,
            vc_virtualLanes = (ac_virtualLanes input = Some True)\<rparr>))))))))) = Inr c"
  from rest have le: "mn \<le> mx" by (simp split: if_splits)
  from rest obtain il qn qc w dw cc md ap
    where "requirePositiveInt ''initialLimit'' (ac_initialLimit input) MAX_ADMISSION_COST_OR_LIMIT = Inr il"
      and "requirePositiveInt ''maxQueueCount'' (ac_maxQueueCount input) MAX_SAFE_INTEGER = Inr qn"
      and "requirePositiveInt ''maxQueueCost'' (ac_maxQueueCost input) MAX_ADMISSION_COST_OR_LIMIT = Inr qc"
      and w: "positiveIntOr ''windowMs'' (ac_windowMs input) 1000 MAX_ADMISSION_WINDOW_MS = Inr w"
      and dw: "positiveIntOr ''defaultMaxWaitMs'' (ac_defaultMaxWaitMs input) 5000 MAX_ADMISSION_WINDOW_MS = Inr dw"
      and cc: "resolveCostConfig (ac_cost input) = Inr cc" and "resolveMode (ac_mode input) = Inr md"
      and ap: "resolveAdaptationParams input mn mx w = Inr ap"
      and c: "c = \<lparr>vc_mode = md, vc_minLimit = mn, vc_maxLimit = mx,
            vc_initialLimit = il, vc_maxQueueCount = qn, vc_maxQueueCost = qc, vc_defaultMaxWaitMs = dw,
            vc_windowMs = w, vc_adaptation = ap, vc_maxRequestCost = maxRequestCost cc, vc_costConfig = cc,
            vc_virtualLanes = (ac_virtualLanes input = Some True)\<rparr>"
    by (auto simp: bindE_Inr_iff split: if_splits)
  moreover have "0 < w \<and> w \<le> MAX_ADMISSION_WINDOW_MS" "0 < dw \<and> dw \<le> MAX_ADMISSION_WINDOW_MS"
    using positiveIntOr_Inr [OF w] positiveIntOr_Inr [OF dw] max_constants by simp_all
  ultimately show ?thesis
    using resolveAdaptationParams_ok [OF ap] resolveCostConfig_ok [OF cc] le
      requirePositiveInt_Inr [OF mn] requirePositiveInt_Inr [OF mx]
    by (auto simp: config_ok_def dest: requirePositiveInt_Inr)
qed

text \<open>The product of a validated limit and a validated window is a safe integer.\<close>

lemma cost_time_product_safe:
  assumes "0 \<le> l" "l \<le> MAX_ADMISSION_COST_OR_LIMIT" "0 \<le> w" "w \<le> MAX_ADMISSION_WINDOW_MS"
  shows "l * w \<le> MAX_SAFE_INTEGER"
proof -
  have "l * w \<le> MAX_ADMISSION_COST_OR_LIMIT * MAX_ADMISSION_WINDOW_MS"
    using assms max_constants by (intro mult_mono) simp_all
  also have "\<dots> \<le> MAX_SAFE_INTEGER"
    by (simp add: MAX_ADMISSION_COST_OR_LIMIT_def MAX_SAFE_INTEGER_def MAX_ADMISSION_WINDOW_MS_def)
  finally show ?thesis .
qed

end
