(* ===== verification/Adaptation.thy ===== *)
theory Adaptation
  imports AdmissionConfig
begin

text \<open>
  The feedback loop of the admission controller, \<^verbatim>\<open>open-sse/services/admission/adaptation.ts\<close>:
  a limit that grows by bounded steps under load, shrinks by a factor under pressure, and climbs
  back while idle. Doubles are reals here; limits and the cost-time integral are integers.
\<close>

datatype pressure = Normal | High | Critical

datatype release_outcome = Ok | Upstream_error | Timed_out | Local_reject | Cancelled

record adaptation =
  as_currentLimit :: int
  as_recoveryCeiling :: int
  as_shortLatencyEwma :: real
  as_longLatencyEwma :: real
  as_pressure :: pressure
  as_windowActiveCostIntegral :: int
  as_windowCompleted :: int
  as_windowLatencySamples :: int
  as_windowStartMs :: int
  as_freezeGrowth :: bool
  as_criticalDecreaseConsumed :: bool
  as_utilization :: real

definition clampLimit :: "js_value \<Rightarrow> int \<Rightarrow> int \<Rightarrow> int" where
  "clampLimit v minLimit maxLimit =
     (case v of Number r \<Rightarrow> min maxLimit (max minLimit \<lfloor>r\<rfloor>) | _ \<Rightarrow> minLimit)"

definition createAdaptationState :: "int \<Rightarrow> int \<Rightarrow> int \<Rightarrow> int \<Rightarrow> adaptation" where
  "createAdaptationState initialLimit minLimit maxLimit now =
     \<lparr>as_currentLimit = clampLimit (Number (of_int initialLimit)) minLimit maxLimit,
      as_recoveryCeiling = clampLimit (Number (of_int initialLimit)) minLimit maxLimit,
      as_shortLatencyEwma = 0, as_longLatencyEwma = 0, as_pressure = Normal,
      as_windowActiveCostIntegral = 0, as_windowCompleted = 0, as_windowLatencySamples = 0,
      as_windowStartMs = now, as_freezeGrowth = False, as_criticalDecreaseConsumed = False,
      as_utilization = 0\<rparr>"

definition noteLatency :: "js_value \<Rightarrow> adaptation_params \<Rightarrow> adaptation \<Rightarrow> adaptation" where
  "noteLatency latencyMs p a =
     (let sample = (case latencyMs of Number r \<Rightarrow> if 0 \<le> r then r else 0 | _ \<Rightarrow> 0);
          a1 = a\<lparr>as_windowLatencySamples := as_windowLatencySamples a + 1\<rparr>;
          sa = ap_shortLatencyAlpha p;
          la = ap_longLatencyAlpha p
      in if as_shortLatencyEwma a1 \<le> 0 \<and> as_longLatencyEwma a1 \<le> 0
         then a1\<lparr>as_shortLatencyEwma := sample, as_longLatencyEwma := sample\<rparr>
         else a1\<lparr>as_shortLatencyEwma := sa * sample + (1 - sa) * as_shortLatencyEwma a1,
                 as_longLatencyEwma := la * sample + (1 - la) * as_longLatencyEwma a1\<rparr>)"

definition noteOutcome :: "release_outcome \<Rightarrow> adaptation \<Rightarrow> adaptation" where
  "noteOutcome oc a =
     (if oc = Upstream_error then a\<lparr>as_freezeGrowth := True\<rparr>
      else if oc = Timed_out then a\<lparr>as_freezeGrowth := True\<rparr> else a)"

fun severity :: "pressure \<Rightarrow> int" where
  "severity Normal = 0"
| "severity High = 1"
| "severity Critical = 2"

definition setPressure :: "pressure \<Rightarrow> adaptation \<Rightarrow> adaptation" where
  "setPressure pr a = (if severity (as_pressure a) < severity pr then a\<lparr>as_pressure := pr\<rparr> else a)"

definition applyIdleRecovery :: "adaptation_params \<Rightarrow> int \<Rightarrow> adaptation \<Rightarrow> int" where
  "applyIdleRecovery p nxt a =
     (if as_pressure a \<noteq> Critical \<and> \<not> as_freezeGrowth a \<and> as_windowCompleted a = 0
         \<and> as_currentLimit a < as_recoveryCeiling a
      then min (as_recoveryCeiling a) (nxt + min (ap_increaseStep p) (ap_maxIncreasePerWindow p))
      else nxt)"

text \<open>The three parts of \<open>closeAdaptationWindow\<close>: the utilization, the next limit, the reset.\<close>

definition window_utilization :: "adaptation_params \<Rightarrow> int \<Rightarrow> adaptation \<Rightarrow> real" where
  "window_utilization p now a =
     (let elapsed = max 1 (min (ap_windowMs p) (now - as_windowStartMs a));
          avgActive = of_int (as_windowActiveCostIntegral a) / of_int elapsed;
          util = (if 0 < as_currentLimit a then avgActive / of_int (as_currentLimit a) else 0)
      in max 0 (min 1 util))"

definition latency_gradient :: "adaptation \<Rightarrow> real" where
  "latency_gradient a =
     (if 0 < as_longLatencyEwma a
      then (as_shortLatencyEwma a - as_longLatencyEwma a) / as_longLatencyEwma a else 0)"

definition next_limit :: "adaptation_params \<Rightarrow> adaptation \<Rightarrow> int" where
  "next_limit p a =
     (let nxt = as_currentLimit a in
      if as_pressure a = Critical then
        (if \<not> as_criticalDecreaseConsumed a
         then \<lfloor>of_int nxt * ap_criticalDecreaseFactor p\<rfloor> else nxt)
      else if as_pressure a = High
              \<or> (0 < as_windowLatencySamples a \<and> ap_latencyGradientThreshold p \<le> latency_gradient a)
      then \<lfloor>of_int nxt * ap_decreaseFactor p\<rfloor>
      else if \<not> as_freezeGrowth a \<and> as_pressure a = Normal
              \<and> ap_highUtilizationThreshold p \<le> as_utilization a \<and> 0 < as_windowCompleted a
      then nxt + min (ap_increaseStep p) (ap_maxIncreasePerWindow p)
      else nxt)"

definition closeAdaptationWindow :: "adaptation_params \<Rightarrow> int \<Rightarrow> adaptation \<Rightarrow> adaptation" where
  "closeAdaptationWindow p now a0 =
     (let a = a0\<lparr>as_utilization := window_utilization p now a0\<rparr>;
          nxt = next_limit p a;
          (a1, nxt1) =
            (if as_utilization a \<le> ap_lowUtilizationThreshold p
             then (a\<lparr>as_shortLatencyEwma := as_longLatencyEwma a\<rparr>, applyIdleRecovery p nxt a)
             else (a, nxt))
      in a1\<lparr>as_currentLimit := clampLimit (Number (of_int nxt1)) (ap_minLimit p) (ap_maxLimit p),
            as_windowActiveCostIntegral := 0, as_windowCompleted := 0, as_windowLatencySamples := 0,
            as_windowStartMs := now, as_freezeGrowth := False, as_criticalDecreaseConsumed := False,
            as_pressure := Normal\<rparr>)"

definition sampleActiveIntegral :: "int \<Rightarrow> int \<Rightarrow> adaptation \<Rightarrow> adaptation" where
  "sampleActiveIntegral activeCost dtMs a =
     (if dtMs \<le> 0 \<or> activeCost \<le> 0 then a
      else
        let boundedActiveCost = min activeCost (as_currentLimit a);
            contribution = (if MAX_SAFE_INTEGER div boundedActiveCost < dtMs then MAX_SAFE_INTEGER
                            else boundedActiveCost * dtMs)
        in a\<lparr>as_windowActiveCostIntegral :=
               (if MAX_SAFE_INTEGER - as_windowActiveCostIntegral a \<le> contribution then MAX_SAFE_INTEGER
                else as_windowActiveCostIntegral a + contribution)\<rparr>)"

text \<open>
  The immediate decrease of \<open>observePressure\<close> in \<^verbatim>\<open>controller.ts\<close>; the flag says whether this
  observation applied it.
\<close>

definition observeCritical :: "int \<Rightarrow> adaptation_params \<Rightarrow> pressure \<Rightarrow> adaptation \<Rightarrow> bool \<times> adaptation" where
  "observeCritical minLimit p pr a0 =
     (let a = setPressure pr a0 in
      if pr = Critical \<and> \<not> as_criticalDecreaseConsumed a
      then (True, a\<lparr>as_currentLimit :=
              max minLimit \<lfloor>of_int (as_currentLimit a) * ap_criticalDecreaseFactor p\<rfloor>,
              as_criticalDecreaseConsumed := True\<rparr>)
      else (False, a))"

subsection \<open>Steps and their invariant\<close>

datatype adaptation_event =
    Latency js_value
  | Outcome release_outcome
  | Complete
  | Pressure pressure
  | Observe pressure
  | Sample int int
  | Close int

primrec adaptation_step :: "adaptation_params \<Rightarrow> adaptation \<Rightarrow> adaptation_event \<Rightarrow> adaptation" where
  "adaptation_step p a (Latency l) = noteLatency l p a"
| "adaptation_step p a (Outcome oc) = noteOutcome oc a"
| "adaptation_step p a Complete = a\<lparr>as_windowCompleted := as_windowCompleted a + 1\<rparr>"
| "adaptation_step p a (Pressure pr) = setPressure pr a"
| "adaptation_step p a (Observe pr) = snd (observeCritical (ap_minLimit p) p pr a)"
| "adaptation_step p a (Sample cost dt) = sampleActiveIntegral cost dt a"
| "adaptation_step p a (Close now) = closeAdaptationWindow p now a"

definition adaptation_inv :: "adaptation_params \<Rightarrow> adaptation \<Rightarrow> bool" where
  "adaptation_inv p a \<longleftrightarrow>
     ap_minLimit p \<le> as_currentLimit a \<and> as_currentLimit a \<le> ap_maxLimit p
     \<and> ap_minLimit p \<le> as_recoveryCeiling a \<and> as_recoveryCeiling a \<le> ap_maxLimit p
     \<and> 0 \<le> as_shortLatencyEwma a \<and> 0 \<le> as_longLatencyEwma a
     \<and> 0 \<le> as_windowActiveCostIntegral a \<and> as_windowActiveCostIntegral a \<le> MAX_SAFE_INTEGER
     \<and> 0 \<le> as_utilization a \<and> as_utilization a \<le> 1
     \<and> 0 \<le> as_windowCompleted a \<and> 0 \<le> as_windowLatencySamples a"

lemma clampLimit_int [simp]: "clampLimit (Number (of_int n)) mn mx = min mx (max mn n)"
  by (simp add: clampLimit_def)

lemma floor_decrease:
  assumes "0 \<le> l" "0 < f" "f \<le> 1"
  shows "0 \<le> \<lfloor>of_int l * (f::real)\<rfloor> \<and> \<lfloor>of_int l * f\<rfloor> \<le> l"
proof -
  have "0 \<le> of_int l * f" using assms by simp
  moreover have "of_int l * f \<le> of_int l" using assms by (simp add: mult_left_le)
  ultimately show ?thesis by (simp add: floor_le_iff le_floor_iff)
qed

lemma ewma_nonneg: "0 \<le> x \<Longrightarrow> 0 \<le> y \<Longrightarrow> 0 < al \<Longrightarrow> al \<le> 1 \<Longrightarrow> 0 \<le> al * x + (1 - al) * (y::real)"
  by (intro add_nonneg_nonneg mult_nonneg_nonneg) simp_all

lemma noteLatency_inv: "params_ok p \<Longrightarrow> adaptation_inv p a \<Longrightarrow> adaptation_inv p (noteLatency l p a)"
  by (auto simp: noteLatency_def Let_def adaptation_inv_def params_ok_def intro!: ewma_nonneg
      split: js_value.split)

lemma sample_inv:
  assumes "params_ok p" and "adaptation_inv p a"
  shows "adaptation_inv p (sampleActiveIntegral cost dt a)"
proof (cases "dt \<le> 0 \<or> cost \<le> 0")
  case False
  let ?b = "min cost (as_currentLimit a)"
  have "0 < ?b" using False assms by (auto simp: adaptation_inv_def params_ok_def)
  then have "0 \<le> ?b * dt" using False by simp
  then show ?thesis
    using False assms(2) by (auto simp: sampleActiveIntegral_def Let_def adaptation_inv_def MAX_SAFE_INTEGER_def)
qed (use assms in \<open>auto simp: sampleActiveIntegral_def\<close>)

text \<open>The fields of a closed window.\<close>

definition utilized :: "adaptation_params \<Rightarrow> int \<Rightarrow> adaptation \<Rightarrow> adaptation" where
  "utilized p now a = a\<lparr>as_utilization := window_utilization p now a\<rparr>"

lemma close_fields:
  "as_currentLimit (closeAdaptationWindow p now a) = min (ap_maxLimit p) (max (ap_minLimit p)
     (if window_utilization p now a \<le> ap_lowUtilizationThreshold p
      then applyIdleRecovery p (next_limit p (utilized p now a)) (utilized p now a)
      else next_limit p (utilized p now a)))"
  "as_recoveryCeiling (closeAdaptationWindow p now a) = as_recoveryCeiling a"
  "as_shortLatencyEwma (closeAdaptationWindow p now a) =
     (if window_utilization p now a \<le> ap_lowUtilizationThreshold p then as_longLatencyEwma a
      else as_shortLatencyEwma a)"
  "as_longLatencyEwma (closeAdaptationWindow p now a) = as_longLatencyEwma a"
  "as_pressure (closeAdaptationWindow p now a) = Normal"
  "as_windowActiveCostIntegral (closeAdaptationWindow p now a) = 0"
  "as_windowCompleted (closeAdaptationWindow p now a) = 0"
  "as_windowLatencySamples (closeAdaptationWindow p now a) = 0"
  "as_windowStartMs (closeAdaptationWindow p now a) = now"
  "as_freezeGrowth (closeAdaptationWindow p now a) = False"
  "as_criticalDecreaseConsumed (closeAdaptationWindow p now a) = False"
  "as_utilization (closeAdaptationWindow p now a) = window_utilization p now a"
  by (simp_all add: closeAdaptationWindow_def Let_def utilized_def)

lemma utilized_simps:
  "as_currentLimit (utilized p now a) = as_currentLimit a" "as_pressure (utilized p now a) = as_pressure a"
  "as_criticalDecreaseConsumed (utilized p now a) = as_criticalDecreaseConsumed a"
  "as_windowLatencySamples (utilized p now a) = as_windowLatencySamples a"
  "as_windowCompleted (utilized p now a) = as_windowCompleted a"
  "as_freezeGrowth (utilized p now a) = as_freezeGrowth a"
  "as_recoveryCeiling (utilized p now a) = as_recoveryCeiling a"
  "latency_gradient (utilized p now a) = latency_gradient a"
  by (simp_all add: utilized_def latency_gradient_def)

lemma window_utilization_bounds: "0 \<le> window_utilization p now a \<and> window_utilization p now a \<le> 1"
  by (simp add: window_utilization_def Let_def)

lemma close_inv:
  assumes "params_ok p" and "adaptation_inv p a"
  shows "adaptation_inv p (closeAdaptationWindow p now a)"
proof -
  have "ap_minLimit p \<le> ap_maxLimit p" using assms(1) by (simp add: params_ok_def)
  then show ?thesis
    using assms(2) window_utilization_bounds [of p now a]
    by (simp add: adaptation_inv_def close_fields MAX_SAFE_INTEGER_def)
qed

lemma observe_inv:
  assumes "params_ok p" and "adaptation_inv p a"
  shows "adaptation_inv p (snd (observeCritical (ap_minLimit p) p pr a))"
proof -
  have "\<lfloor>of_int (as_currentLimit a) * ap_criticalDecreaseFactor p\<rfloor> \<le> as_currentLimit a"
    using assms by (intro conjunct2 [OF floor_decrease]) (auto simp: params_ok_def adaptation_inv_def)
  then show ?thesis
    using assms by (auto simp: observeCritical_def Let_def setPressure_def adaptation_inv_def params_ok_def)
qed

interpretation adaptation: step_invariant "adaptation_step p" "\<lambda>_. params_ok p" "adaptation_inv p" for p
proof unfold_locales
  show "adaptation_inv p (adaptation_step p a e)" if "adaptation_inv p a" "params_ok p" for a e
    using that noteLatency_inv sample_inv close_inv observe_inv
    by (cases e) (auto simp: adaptation_inv_def noteOutcome_def setPressure_def)
qed

lemma create_inv:
  "params_ok p \<Longrightarrow> adaptation_inv p (createAdaptationState n (ap_minLimit p) (ap_maxLimit p) now)"
  by (auto simp: createAdaptationState_def adaptation_inv_def params_ok_def MAX_SAFE_INTEGER_def)

subsection \<open>What the loop promises\<close>

definition default_params :: adaptation_params where
  "default_params = \<lparr>ap_minLimit = 2, ap_maxLimit = 40, ap_windowMs = 1000,
     ap_shortLatencyAlpha = 1 / 2, ap_longLatencyAlpha = 1 / 10, ap_increaseStep = 1,
     ap_decreaseFactor = 4 / 5, ap_criticalDecreaseFactor = 1 / 2, ap_highUtilizationThreshold = 7 / 10,
     ap_lowUtilizationThreshold = 3 / 10, ap_latencyGradientThreshold = 1 / 4, ap_maxIncreasePerWindow = 1\<rparr>"

lemma default_params_ok: "params_ok default_params"
  by (simp add: params_ok_def default_params_def MAX_ADMISSION_COST_OR_LIMIT_def MAX_SAFE_INTEGER_def
      MAX_ADMISSION_WINDOW_MS_def)

lemma default_bounds: "ap_minLimit default_params = 2" "ap_maxLimit default_params = 40"
  by (simp_all add: default_params_def)

lemma default_inv: "adaptation_inv default_params (createAdaptationState n 2 40 now)"
  using create_inv [OF default_params_ok] by (simp add: default_bounds)

text \<open>
  Under any sequence of latencies, outcomes, pressure reports, samples and window ends, at any
  times, the limit and the recovery ceiling stay between the configured bounds, the averages and
  counters stay non-negative, the utilization stays a fraction and the integral a safe integer.
\<close>

theorem adaptation_limit_bounded:
  assumes "params_ok p"
    and "a = foldl (adaptation_step p) (createAdaptationState n (ap_minLimit p) (ap_maxLimit p) now) evs"
  shows "ap_minLimit p \<le> as_currentLimit a \<and> as_currentLimit a \<le> ap_maxLimit p
    \<and> ap_minLimit p \<le> as_recoveryCeiling a \<and> as_recoveryCeiling a \<le> ap_maxLimit p
    \<and> 0 \<le> as_shortLatencyEwma a \<and> 0 \<le> as_longLatencyEwma a
    \<and> 0 \<le> as_utilization a \<and> as_utilization a \<le> 1
    \<and> 0 \<le> as_windowActiveCostIntegral a \<and> as_windowActiveCostIntegral a \<le> MAX_SAFE_INTEGER"
  using adaptation.run_inv [OF create_inv [OF assms(1)], of evs n now] assms
  by (simp add: adaptation_inv_def list_all_iff)

theorem adaptation_limit_bounded_witness:
  "let a = foldl (adaptation_step default_params) (createAdaptationState 10 2 40 0)
     [Observe Critical, Observe Critical, Close 1000, Pressure High, Latency Infinite, Close 2000]
   in as_currentLimit a = 5 \<and> ap_minLimit default_params \<le> as_currentLimit a"
proof -
  define evs where "evs = [Observe Critical, Observe Critical, Close 1000, Pressure High, Latency Infinite, Close 2000]"
  have "as_currentLimit (foldl (adaptation_step default_params) (createAdaptationState 10 2 40 0) evs) = 5"
    unfolding evs_def by code_simp
  moreover have "ap_minLimit default_params
      \<le> as_currentLimit (foldl (adaptation_step default_params) (createAdaptationState 10 2 40 0) evs)"
    using adaptation_limit_bounded [OF default_params_ok refl, of 10 0 evs] by (simp add: default_bounds)
  ultimately show ?thesis unfolding Let_def evs_def by blast
qed

text \<open>
  A critical episode costs one decrease: however often critical pressure is observed within a
  window, and also when the window then closes under it, the limit falls by the critical factor
  exactly once, and never below the minimum.
\<close>

theorem critical_decrease_once:
  assumes "params_ok p" and "adaptation_inv p a" and "\<not> as_criticalDecreaseConsumed a"
    and "b = foldl (adaptation_step p) a (replicate (Suc k) (Observe Critical))"
    and "l = max (ap_minLimit p) \<lfloor>of_int (as_currentLimit a) * ap_criticalDecreaseFactor p\<rfloor>"
  shows "as_currentLimit b = l \<and> as_currentLimit (closeAdaptationWindow p now b) = l"
proof -
  define c where "c = adaptation_step p a (Observe Critical)"
  have c: "as_currentLimit c = l" "as_criticalDecreaseConsumed c" "as_pressure c = Critical"
    using assms(3,5)
    by (cases "as_pressure a"; simp add: c_def observeCritical_def setPressure_def)+
  have "adaptation_step p c (Observe Critical) = c"
    using c(2,3) by (simp add: observeCritical_def setPressure_def)
  then have "foldl (adaptation_step p) c (replicate k (Observe Critical)) = c"
    by (induction k) simp_all
  then have b: "b = c" using assms(4) by (simp add: c_def)
  have "adaptation_inv p c" using observe_inv [OF assms(1,2)] by (simp add: c_def)
  then have "ap_minLimit p \<le> l \<and> l \<le> ap_maxLimit p" using c(1) by (simp add: adaptation_inv_def)
  then show ?thesis
    using c by (simp add: b close_fields next_limit_def applyIdleRecovery_def utilized_def)
qed

theorem critical_decrease_once_witness:
  "as_currentLimit (closeAdaptationWindow default_params 1000
     (foldl (adaptation_step default_params) (createAdaptationState 11 2 40 0)
       (replicate (Suc 4) (Observe Critical)))) = 5"
proof -
  let ?a = "createAdaptationState 11 2 40 0"
  have n: "\<not> as_criticalDecreaseConsumed ?a" by (simp add: createAdaptationState_def)
  have "max (ap_minLimit default_params) \<lfloor>of_int (as_currentLimit ?a) * ap_criticalDecreaseFactor default_params\<rfloor> = 5"
    by code_simp
  then show ?thesis
    using critical_decrease_once [OF default_params_ok default_inv n refl refl,
      of 4 1000]
    by (simp only:)
qed

text \<open>
  One window never raises the limit by more than one step, and it lowers it only under pressure
  or when the latency gradient calls for it, at most by the smaller factor and never below the minimum.
\<close>

theorem window_changes_limit_boundedly:
  assumes "params_ok p" and "adaptation_inv p a"
  shows "as_currentLimit (closeAdaptationWindow p now a)
      \<le> as_currentLimit a + min (ap_increaseStep p) (ap_maxIncreasePerWindow p)
    \<and> min (as_currentLimit a) (max (ap_minLimit p) \<lfloor>of_int (as_currentLimit a) * ap_criticalDecreaseFactor p\<rfloor>)
        \<le> as_currentLimit (closeAdaptationWindow p now a)
    \<and> (as_currentLimit (closeAdaptationWindow p now a) < as_currentLimit a \<longrightarrow>
         as_pressure a \<noteq> Normal
         \<or> (0 < as_windowLatencySamples a \<and> ap_latencyGradientThreshold p \<le> latency_gradient a))"
proof -
  let ?l = "as_currentLimit a" and ?c = "ap_criticalDecreaseFactor p" and ?d = "ap_decreaseFactor p"
  let ?u = "utilized p now a" and ?s = "min (ap_increaseStep p) (ap_maxIncreasePerWindow p)"
  have pos: "0 \<le> ?l" "0 < ?s" using assms by (auto simp: params_ok_def adaptation_inv_def)
  have fc: "\<lfloor>of_int ?l * ?c\<rfloor> \<le> ?l" and fd: "\<lfloor>of_int ?l * ?d\<rfloor> \<le> ?l"
    using floor_decrease [OF pos(1), of ?c] floor_decrease [OF pos(1), of ?d] assms(1)
    by (auto simp: params_ok_def)
  have cd: "\<lfloor>of_int ?l * ?c\<rfloor> \<le> \<lfloor>of_int ?l * ?d\<rfloor>"
    using assms(1) pos(1) by (intro floor_mono mult_left_mono) (auto simp: params_ok_def)
  have n: "next_limit p ?u \<le> ?l + ?s" "\<lfloor>of_int ?l * ?c\<rfloor> \<le> next_limit p ?u"
    "next_limit p ?u < ?l \<Longrightarrow> as_pressure a \<noteq> Normal
         \<or> (0 < as_windowLatencySamples a \<and> ap_latencyGradientThreshold p \<le> latency_gradient a)"
    using fc fd cd pos by (auto simp: next_limit_def Let_def utilized_simps split: if_splits)
  define r where "r = (if window_utilization p now a \<le> ap_lowUtilizationThreshold p
      then applyIdleRecovery p (next_limit p ?u) ?u else next_limit p ?u)"
  have "r \<le> ?l + ?s"
  proof (cases "next_limit p ?u \<le> ?l")
    case True
    then show ?thesis using pos by (auto simp: r_def applyIdleRecovery_def)
  next
    case False
    then have "0 < as_windowCompleted a"
      using fc fd by (auto simp: next_limit_def Let_def utilized_def split: if_splits)
    then show ?thesis using n(1) by (simp add: r_def applyIdleRecovery_def utilized_def)
  qed
  moreover have lo: "min (next_limit p ?u) ?l \<le> r" using pos by (auto simp: r_def applyIdleRecovery_def utilized_def)
  moreover have eq: "as_currentLimit (closeAdaptationWindow p now a) = min (ap_maxLimit p) (max (ap_minLimit p) r)"
    by (simp add: close_fields r_def)
  moreover have l: "ap_minLimit p \<le> ?l" "?l \<le> ap_maxLimit p" using assms(2) by (simp_all add: adaptation_inv_def)
  moreover have "next_limit p ?u < ?l" if "as_currentLimit (closeAdaptationWindow p now a) < ?l"
    using that lo eq l by linarith
  moreover have "min ?l (max (ap_minLimit p) \<lfloor>of_int ?l * ?c\<rfloor>) \<le> min (ap_maxLimit p) (max (ap_minLimit p) r)"
    using n(2) lo l by linarith
  moreover have "min (ap_maxLimit p) (max (ap_minLimit p) r) \<le> ?l + ?s"
    using \<open>r \<le> ?l + ?s\<close> l pos by linarith
  ultimately show ?thesis using n(3) unfolding eq by blast
qed

theorem window_changes_limit_boundedly_witness:
  "as_currentLimit (closeAdaptationWindow default_params 1000
      (setPressure High (createAdaptationState 10 2 40 0))) \<le> 11
   \<and> 5 \<le> as_currentLimit (closeAdaptationWindow default_params 1000
      (setPressure High (createAdaptationState 10 2 40 0)))"
proof -
  have i: "adaptation_inv default_params (setPressure High (createAdaptationState 10 2 40 0))"
    using adaptation.step_inv [OF default_inv default_params_ok, of 10 0 "Pressure High"] by simp
  define a where "a = setPressure High (createAdaptationState 10 2 40 0)"
  have l: "as_currentLimit a = 10" unfolding a_def by code_simp
  have "\<lfloor>of_int 10 * ap_criticalDecreaseFactor default_params\<rfloor> = 5"
    "min (ap_increaseStep default_params) (ap_maxIncreasePerWindow default_params) = 1"
    by (simp_all add: default_params_def)
  then show ?thesis
    using window_changes_limit_boundedly [OF default_params_ok i, of 1000]
    unfolding a_def [symmetric] l default_bounds by simp
qed

text \<open>A window in which nothing ran, nothing finished and no pressure was reported.\<close>

definition idle :: "adaptation \<Rightarrow> bool" where
  "idle a \<longleftrightarrow> as_pressure a = Normal \<and> \<not> as_freezeGrowth a \<and> as_windowCompleted a = 0
     \<and> as_windowLatencySamples a = 0 \<and> as_windowActiveCostIntegral a = 0"

lemma idle_close:
  assumes "params_ok p" and "adaptation_inv p a" and "idle a"
  shows "as_currentLimit (closeAdaptationWindow p now a)
      = (if as_currentLimit a < as_recoveryCeiling a
         then min (as_recoveryCeiling a) (as_currentLimit a + min (ap_increaseStep p) (ap_maxIncreasePerWindow p))
         else as_currentLimit a)"
proof -
  have "window_utilization p now a = 0"
    using assms(3) by (simp add: window_utilization_def Let_def idle_def)
  moreover have "next_limit p (utilized p now a) = as_currentLimit a"
    using assms(1,3) calculation
    by (auto simp: next_limit_def Let_def utilized_simps idle_def)
  ultimately show ?thesis
    using assms by (auto simp: close_fields applyIdleRecovery_def utilized_simps idle_def params_ok_def
        adaptation_inv_def)
qed

lemma idle_closed: "idle (closeAdaptationWindow p now a)"
  by (simp add: idle_def close_fields)

text \<open>
  Idle recovery: while the system is idle a limit that pressure or latency collapsed below the
  recovery ceiling climbs back to it, by one bounded step per window; after \<open>n\<close> idle windows it is
  \<open>n\<close> steps higher or has reached the ceiling, and it never overshoots it.
\<close>

theorem idle_recovery_reaches_ceiling:
  assumes "params_ok p" and "adaptation_inv p a" and "idle a" and "as_currentLimit a \<le> as_recoveryCeiling a"
  shows "as_currentLimit (foldl (\<lambda>s now. closeAdaptationWindow p now s) a nows)
    = min (as_recoveryCeiling a)
        (as_currentLimit a + int (length nows) * min (ap_increaseStep p) (ap_maxIncreasePerWindow p))"
  using assms(2-4)
proof (induction nows arbitrary: a)
  case (Cons now nows)
  let ?b = "closeAdaptationWindow p now a" and ?s = "min (ap_increaseStep p) (ap_maxIncreasePerWindow p)"
  have s: "0 < ?s" using assms(1) by (simp add: params_ok_def)
  have ceil: "as_recoveryCeiling ?b = as_recoveryCeiling a" by (simp add: close_fields)
  have b: "as_currentLimit ?b = min (as_recoveryCeiling a) (as_currentLimit a + ?s)"
    using idle_close [OF assms(1) Cons.prems(1,2), of now] Cons.prems(3) s by auto
  have "as_currentLimit (foldl (\<lambda>s now. closeAdaptationWindow p now s) ?b nows)
      = min (as_recoveryCeiling a) (as_currentLimit ?b + int (length nows) * ?s)"
    using Cons.IH [OF close_inv [OF assms(1) Cons.prems(1)] idle_closed] b ceil by simp
  moreover have "0 \<le> int (length nows) * ?s" using s by simp
  ultimately show ?case
    unfolding foldl.simps length_Cons of_nat_Suc distrib_right mult_1_left b
    using Cons.prems(3) s by linarith
qed simp

theorem idle_recovery_reaches_ceiling_witness:
  "let a = closeAdaptationWindow default_params 1000
       (snd (observeCritical 2 default_params Critical (createAdaptationState 10 2 40 0)))
   in as_currentLimit a = 5
    \<and> as_currentLimit (foldl (\<lambda>s now. closeAdaptationWindow default_params now s) a [2000, 3000, 4000, 5000, 6000, 7000]) = 10"
proof -
  define a where "a = closeAdaptationWindow default_params 1000
       (snd (observeCritical 2 default_params Critical (createAdaptationState 10 2 40 0)))"
  have l: "as_currentLimit a = 5" "as_recoveryCeiling a = 10" unfolding a_def by code_simp+
  have "adaptation_inv default_params a"
    unfolding a_def using close_inv [OF default_params_ok] observe_inv [OF default_params_ok default_inv]
    by (simp add: default_bounds)
  moreover have "idle a" unfolding a_def by (rule idle_closed)
  ultimately show ?thesis
    using idle_recovery_reaches_ceiling [OF default_params_ok, of a "[2000, 3000, 4000, 5000, 6000, 7000]"] l
    unfolding a_def [symmetric] Let_def by (simp add: default_params_def)
qed

lemma as_currentLimit_sample [simp]: "as_currentLimit (sampleActiveIntegral c d a) = as_currentLimit a"
  by (simp add: sampleActiveIntegral_def Let_def)

lemma as_windowStart_sample [simp]: "as_windowStartMs (sampleActiveIntegral c d a) = as_windowStartMs a"
  by (simp add: sampleActiveIntegral_def Let_def)

lemma sample_exact:
  assumes "0 < as_currentLimit a" and "0 \<le> c" and "0 \<le> d" and "0 \<le> as_windowActiveCostIntegral a"
    and "as_windowActiveCostIntegral a + min c (as_currentLimit a) * d \<le> MAX_SAFE_INTEGER"
  shows "as_windowActiveCostIntegral (sampleActiveIntegral c d a)
    = as_windowActiveCostIntegral a + min c (as_currentLimit a) * d"
proof (cases "d \<le> 0 \<or> c \<le> 0")
  case True
  then show ?thesis using assms by (auto simp: sampleActiveIntegral_def)
next
  case False
  let ?b = "min c (as_currentLimit a)"
  have b: "0 < ?b" using False assms(1) by simp
  have "?b * d \<le> MAX_SAFE_INTEGER" using assms(4,5) by simp
  then have "(?b * d) div ?b \<le> MAX_SAFE_INTEGER div ?b" using b by (rule zdiv_mono1)
  then have "d \<le> MAX_SAFE_INTEGER div ?b" using b by simp
  then show ?thesis using False assms(5) by (auto simp: sampleActiveIntegral_def Let_def not_less)
qed

definition sampled :: "(int \<times> int) list \<Rightarrow> adaptation \<Rightarrow> adaptation" where
  "sampled ss a = foldl (\<lambda>a (c, d). sampleActiveIntegral c d a) a ss"

lemma sampled_exact:
  assumes "0 < as_currentLimit a" and "\<And>c d. (c, d) \<in> set ss \<Longrightarrow> 0 \<le> c \<and> 0 \<le> d"
    and "0 \<le> as_windowActiveCostIntegral a"
    and "as_windowActiveCostIntegral a + as_currentLimit a * sum_list (map snd ss) \<le> MAX_SAFE_INTEGER"
  shows "as_windowActiveCostIntegral (sampled ss a)
      = as_windowActiveCostIntegral a + sum_list (map (\<lambda>(c, d). min c (as_currentLimit a) * d) ss)
    \<and> as_currentLimit (sampled ss a) = as_currentLimit a
    \<and> as_windowStartMs (sampled ss a) = as_windowStartMs a"
  using assms
proof (induction ss arbitrary: a)
  case Nil
  then show ?case by (simp add: sampled_def)
next
  case (Cons cd ss)
  obtain c d where cd: "cd = (c, d)" by (cases cd)
  have nn: "0 \<le> c" "0 \<le> d" using Cons.prems(2) cd by auto
  let ?l = "as_currentLimit a" and ?b = "sampleActiveIntegral c d a"
  have "0 \<le> sum_list (map snd ss)" using Cons.prems(2) by (intro sum_list_nonneg) force
  then have rest: "0 \<le> ?l * sum_list (map snd ss)" using Cons.prems(1) by simp
  have le: "min c ?l * d \<le> ?l * d" using nn by (intro mult_right_mono) simp_all
  have tot: "as_windowActiveCostIntegral a + ?l * d + ?l * sum_list (map snd ss) \<le> MAX_SAFE_INTEGER"
    using Cons.prems(4) by (simp add: cd distrib_left)
  have b: "as_windowActiveCostIntegral ?b = as_windowActiveCostIntegral a + min c ?l * d"
    using sample_exact [OF Cons.prems(1) nn Cons.prems(3)] tot rest le by linarith
  have "0 \<le> min c ?l * d" using nn Cons.prems(1) by simp
  then have "as_windowActiveCostIntegral (sampled ss ?b)
      = as_windowActiveCostIntegral ?b + sum_list (map (\<lambda>(c, d). min c (as_currentLimit ?b) * d) ss)
    \<and> as_currentLimit (sampled ss ?b) = as_currentLimit ?b
    \<and> as_windowStartMs (sampled ss ?b) = as_windowStartMs ?b"
    using Cons.prems(1-3) tot le b by (intro Cons.IH) auto
  then show ?case by (simp add: sampled_def cd b)
qed

text \<open>
  The bounds on limits and windows keep the utilization exact: the samples of a window, of any
  cost and at any points, are integrated without saturating, and a window run at or above the limit
  all the way has utilization 1.
\<close>

theorem full_window_integral_exact:
  assumes "params_ok p" and "adaptation_inv p a" and "as_windowActiveCostIntegral a = 0"
    and "\<And>c d. (c, d) \<in> set ss \<Longrightarrow> 0 \<le> c \<and> 0 \<le> d" and "sum_list (map snd ss) \<le> ap_windowMs p"
  shows "as_windowActiveCostIntegral (sampled ss a)
      = sum_list (map (\<lambda>(c, d). min c (as_currentLimit a) * d) ss)
    \<and> ((\<forall>(c, d) \<in> set ss. as_currentLimit a \<le> c) \<and> sum_list (map snd ss) = ap_windowMs p
        \<longrightarrow> window_utilization p (as_windowStartMs a + ap_windowMs p) (sampled ss a) = 1)"
proof -
  let ?l = "as_currentLimit a"
  have l: "0 < ?l" "?l \<le> MAX_ADMISSION_COST_OR_LIMIT" "0 < ap_windowMs p" "ap_windowMs p \<le> MAX_ADMISSION_WINDOW_MS"
    using assms(1,2) by (auto simp: params_ok_def adaptation_inv_def)
  have nn: "0 \<le> sum_list (map snd ss)" using assms(4) by (intro sum_list_nonneg) force
  have "?l * sum_list (map snd ss) \<le> MAX_SAFE_INTEGER"
    using l nn assms(5) by (intro cost_time_product_safe) simp_all
  then have ex: "as_windowActiveCostIntegral (sampled ss a)
      = sum_list (map (\<lambda>(c, d). min c ?l * d) ss)" "as_currentLimit (sampled ss a) = ?l"
    "as_windowStartMs (sampled ss a) = as_windowStartMs a"
    using sampled_exact [OF l(1) assms(4)] assms(3) by simp_all
  have "window_utilization p (as_windowStartMs a + ap_windowMs p) (sampled ss a) = 1"
    if full: "\<forall>(c, d) \<in> set ss. ?l \<le> c" and len: "sum_list (map snd ss) = ap_windowMs p"
  proof -
    have "map (\<lambda>(c, d). min c ?l * d) ss = map (\<lambda>x. ?l * snd x) ss"
      using full by (intro map_cong) (auto simp: min_def)
    then have "as_windowActiveCostIntegral (sampled ss a) = ?l * ap_windowMs p"
      using ex(1) sum_list_const_mult [of ?l snd ss] len by (simp only:)
    then show ?thesis using l ex(2,3) by (simp add: window_utilization_def Let_def)
  qed
  then show ?thesis using ex(1) by blast
qed

theorem full_window_integral_exact_witness:
  "window_utilization default_params 1000 (sampled [(12, 400), (10, 0), (99, 600)] (createAdaptationState 10 2 40 0)) = 1"
proof -
  let ?a = "createAdaptationState 10 2 40 0" and ?ss = "[(12, 400), (10, 0), (99, 600)] :: (int \<times> int) list"
  have z: "as_windowActiveCostIntegral ?a = 0" "as_windowStartMs ?a = 0" "as_currentLimit ?a = 10"
    by code_simp+
  have "(c, d) \<in> set ?ss \<Longrightarrow> 0 \<le> c \<and> 0 \<le> d" for c d by auto
  from full_window_integral_exact [OF default_params_ok default_inv z(1) this, of ?ss]
  have "(\<forall>(c, d) \<in> set ?ss. 10 \<le> c) \<and> sum_list (map snd ?ss) = ap_windowMs default_params
      \<longrightarrow> window_utilization default_params (0 + ap_windowMs default_params) (sampled ?ss ?a) = 1"
    unfolding z by (simp add: default_params_def)
  moreover have "ap_windowMs default_params = 1000" by (simp add: default_params_def)
  ultimately show ?thesis by simp
qed

end
