(* ===== verification/AdmissionController.thy ===== *)
theory AdmissionController
  imports Adaptation FairQueue
begin

text \<open>
  The adaptive admission controller, \<^verbatim>\<open>open-sse/services/admission/controller.ts\<close>. The class is
  a record; every method takes the time \<open>now\<close> its clock would return (one reading per
  operation) and returns the new record. Three things of the runtime are explicit in the state: the
  lease objects (\<open>am_records\<close>, which outlive their membership in \<open>active\<close>), the timers and abort
  listeners that are installed, and the settlements of the promises handed out, in order. The ids
  \<open>q-n\<close> and \<open>lease-n\<close> come from one counter; the model keeps it in the state of the controller.
\<close>

definition ADMISSION_LANE_TTL_MS :: int where
  "ADMISSION_LANE_TTL_MS = 60000"

definition ADMISSION_LANE_MAX_SESSIONS :: nat where
  "ADMISSION_LANE_MAX_SESSIONS = 1000"

datatype adm_id = QId nat | LeaseId nat

datatype disposition = D_active | D_queued | D_rejected | D_none

datatype reject_code =
    ADMISSION_OVERSIZED | ADMISSION_QUEUE_FULL | ADMISSION_DEADLINE | ADMISSION_ABORTED
  | ADMISSION_LANE_EVICTED | ADMISSION_SHUTDOWN

datatype settlement = Resolved_with adm_id | Rejected_with reject_code

record lease_record =
  lr_cost :: int
  lr_released :: bool
  lr_admittedAtMs :: int
  lr_disposition :: disposition

text \<open>The payload of a queued entry is its abort signal, if any.\<close>

type_synonym signal = nat
type_synonym adm_entry = "(adm_id, signal option) queue_entry"
type_synonym adm_queue = "(adm_id, signal option) fair_queue"

record lane =
  ln_queue :: adm_queue
  ln_lastUsedMs :: int

record admission =
  am_config :: validated_config
  am_adaptation :: adaptation
  am_queue :: adm_queue
  am_virtualQueue :: "(adm_id, adm_id) fair_queue"
  am_lanes :: "(string, lane) js_map"
  am_laneTimer :: bool
  am_records :: "(adm_id, lease_record) js_map"
  am_active :: "adm_id list"
  am_activeCost :: int
  am_virtualActiveCost :: int
  am_virtualActiveCount :: int
  am_lastSampleMs :: int
  am_windowTimer :: bool
  am_shutDown :: bool
  am_admittedCount :: int
  am_rejectedCount :: int
  am_wouldAdmitCount :: int
  am_wouldQueueCount :: int
  am_wouldRejectCount :: int
  am_leaseSeq :: nat
  am_timers :: "adm_id list"
  am_listeners :: "(adm_id \<times> signal) list"
  am_aborted :: "signal list"
  am_settled :: "(adm_id \<times> settlement) list"

record adm_request =
  rq_cost :: js_value
  rq_features :: "cost_features option"
  rq_tenantKey :: "string option"
  rq_maxWaitMs :: js_value
  rq_signal :: "signal option"
  rq_pressure :: "pressure option"

datatype shadow_decision = Would_admit | Would_queue | Would_reject

datatype acquire_result =
    Admitted adm_id "shadow_decision option"
  | Queued adm_id
  | Rejected reject_code

subsection \<open>Numbers of a snapshot\<close>

definition saturateSnapshotNumber :: "int \<Rightarrow> int" where
  "saturateSnapshotNumber v =
     (if v \<le> 0 then 0 else if MAX_SAFE_INTEGER \<le> v then MAX_SAFE_INTEGER else v)"

definition addSaturated :: "int \<Rightarrow> int \<Rightarrow> int" where
  "addSaturated tot delta =
     (if delta \<le> 0 then saturateSnapshotNumber tot
      else if MAX_SAFE_INTEGER - delta \<le> tot then MAX_SAFE_INTEGER else tot + delta)"

subsection \<open>Small steps\<close>

definition currentLimit :: "admission \<Rightarrow> int" where
  "currentLimit s = as_currentLimit (am_adaptation s)"

definition clearEntryTimer :: "adm_id \<Rightarrow> admission \<Rightarrow> admission" where
  "clearEntryTimer i s = s\<lparr>am_timers := removeAll i (am_timers s)\<rparr>"

definition detachAbort :: "adm_id \<Rightarrow> admission \<Rightarrow> admission" where
  "detachAbort i s = s\<lparr>am_listeners := filter (\<lambda>(j, _). j \<noteq> i) (am_listeners s)\<rparr>"

definition rejectEntry :: "reject_code \<Rightarrow> adm_id \<Rightarrow> admission \<Rightarrow> admission" where
  "rejectEntry code i s =
     s\<lparr>am_settled := am_settled s @ [(i, Rejected_with code)],
       am_rejectedCount := am_rejectedCount s + 1\<rparr>"

definition failQueued :: "reject_code \<Rightarrow> adm_entry \<Rightarrow> admission \<Rightarrow> admission" where
  "failQueued code e s = rejectEntry code (e_id e) (detachAbort (e_id e) (clearEntryTimer (e_id e) s))"

definition reject_now :: "reject_code \<Rightarrow> admission \<Rightarrow> acquire_result \<times> admission" where
  "reject_now code s = (Rejected code, s\<lparr>am_rejectedCount := am_rejectedCount s + 1\<rparr>)"

definition sampleIntegral :: "int \<Rightarrow> admission \<Rightarrow> admission" where
  "sampleIntegral now s =
     (let dt = now - am_lastSampleMs s in
      if 0 < dt then
        let limit = currentLimit s;
            activeForIntegral = (if limit \<le> am_activeCost s then limit else am_activeCost s)
        in s\<lparr>am_adaptation := sampleActiveIntegral activeForIntegral dt (am_adaptation s),
             am_lastSampleMs := now\<rparr>
      else s)"

definition admit :: "int \<Rightarrow> int \<Rightarrow> disposition \<Rightarrow> admission \<Rightarrow> adm_id \<times> admission" where
  "admit now cost disp s0 =
     (let s = sampleIntegral now s0;
          i = LeaseId (am_leaseSeq s + 1)
      in (i, s\<lparr>am_leaseSeq := am_leaseSeq s + 1,
               am_records := map_set i \<lparr>lr_cost = cost, lr_released = False, lr_admittedAtMs = now,
                                        lr_disposition = disp\<rparr> (am_records s),
               am_active := am_active s @ [i],
               am_activeCost := am_activeCost s + cost,
               am_admittedCount := am_admittedCount s + 1\<rparr>))"

text \<open>\<open>entry.payload.resolve(this.admit(entry.cost))\<close>.\<close>

definition admitEntry :: "int \<Rightarrow> adm_entry \<Rightarrow> admission \<Rightarrow> admission" where
  "admitEntry now e s =
     (let (i, s') = admit now (e_cost e) D_none s
      in s'\<lparr>am_settled := am_settled s' @ [(e_id e, Resolved_with i)]\<rparr>)"

text \<open>Mode off: no accounting.\<close>

definition admitVirtual :: "admission \<Rightarrow> adm_id \<times> admission" where
  "admitVirtual s =
     (let i = LeaseId (am_leaseSeq s + 1)
      in (i, s\<lparr>am_leaseSeq := am_leaseSeq s + 1, am_admittedCount := am_admittedCount s + 1\<rparr>))"

subsection \<open>Dispatching\<close>

text \<open>What happens to an entry that was dequeued; True when it was admitted.\<close>

definition dispatchEntry :: "int \<Rightarrow> adm_entry \<Rightarrow> admission \<Rightarrow> bool \<times> admission" where
  "dispatchEntry now e s0 =
     (let s = detachAbort (e_id e) (clearEntryTimer (e_id e) s0) in
      if (case e_payload e of None \<Rightarrow> False | Some sg \<Rightarrow> sg \<in> set (am_aborted s))
      then (False, rejectEntry ADMISSION_ABORTED (e_id e) s)
      else if e_deadlineMs e \<le> now then (False, rejectEntry ADMISSION_DEADLINE (e_id e) s)
      else (True, admitEntry now e s))"

definition set_lane :: "string \<Rightarrow> lane \<Rightarrow> admission \<Rightarrow> admission" where
  "set_lane k la s = s\<lparr>am_lanes := map_set k la (am_lanes s)\<rparr>"

definition removeEmptyLane :: "string \<Rightarrow> admission \<Rightarrow> admission" where
  "removeEmptyLane k s =
     (case map_get (am_lanes s) k of
        None \<Rightarrow> s
      | Some la \<Rightarrow> if fq_count (ln_queue la) = 0 then s\<lparr>am_lanes := map_delete k (am_lanes s)\<rparr> else s)"

lemma dispatchEntry_keeps [simp]:
  "am_queue (snd (dispatchEntry now e s)) = am_queue s"
  "am_lanes (snd (dispatchEntry now e s)) = am_lanes s"
  "am_config (snd (dispatchEntry now e s)) = am_config s"
  "am_shutDown (snd (dispatchEntry now e s)) = am_shutDown s"
  "am_aborted (snd (dispatchEntry now e s)) = am_aborted s"
  "am_virtualQueue (snd (dispatchEntry now e s)) = am_virtualQueue s"
  by (simp_all add: dispatchEntry_def Let_def rejectEntry_def admitEntry_def admit_def sampleIntegral_def
      clearEntryTimer_def detachAbort_def)

text \<open>The loop over the shared queue; False when it returned out of \<open>dispatch\<close>.\<close>

function dispatchLoop :: "int \<Rightarrow> admission \<Rightarrow> bool \<times> admission" where
  "dispatchLoop now s =
     (if fq_count (am_queue s) \<le> 0 then (True, s)
      else
        let available = currentLimit s - am_activeCost s in
        if available \<le> 0 then (False, s)
        else
          case dequeue available (am_queue s) of
            (None, q') \<Rightarrow> (False, s\<lparr>am_queue := q'\<rparr>)
          | (Some e, q') \<Rightarrow> dispatchLoop now (snd (dispatchEntry now e (s\<lparr>am_queue := q'\<rparr>))))"
  by pat_completeness auto
termination
  by (relation "measure (\<lambda>(now, s). total (am_queue s))") (auto dest: total_dequeue [OF sym])

declare dispatchLoop.simps [simp del]

text \<open>The loop over one lane; True when it returned out of \<open>dispatchLanes\<close>.\<close>

definition lane_total :: "string \<Rightarrow> admission \<Rightarrow> nat" where
  "lane_total k s = (case map_get (am_lanes s) k of None \<Rightarrow> 0 | Some la \<Rightarrow> total (ln_queue la))"

function dispatchLane :: "int \<Rightarrow> string \<Rightarrow> admission \<Rightarrow> bool \<times> admission" where
  "dispatchLane now k s =
     (case map_get (am_lanes s) k of
        None \<Rightarrow> (False, s)
      | Some la \<Rightarrow>
          if fq_count (ln_queue la) \<le> 0 then (False, s)
          else
            let available = currentLimit s - am_activeCost s in
            if available \<le> 0 then (True, s)
            else
              case dequeue available (ln_queue la) of
                (None, q') \<Rightarrow> (False, set_lane k (la\<lparr>ln_queue := q'\<rparr>) s)
              | (Some e, q') \<Rightarrow>
                  let r = dispatchEntry now e (set_lane k (la\<lparr>ln_queue := q'\<rparr>) s) in
                  if fst r then (False, snd r) else dispatchLane now k (snd r))"
  by pat_completeness auto
termination
  by (relation "measure (\<lambda>(now, k, s). lane_total k s)")
    (auto simp: lane_total_def set_lane_def dest: total_dequeue [OF sym])

declare dispatchLane.simps [simp del]

fun dispatchLanesOver :: "int \<Rightarrow> string list \<Rightarrow> admission \<Rightarrow> admission" where
  "dispatchLanesOver now [] s = s"
| "dispatchLanesOver now (k # ks) s =
     (if map_get (am_lanes s) k = None then dispatchLanesOver now ks s
      else
        let (returned, s') = dispatchLane now k s in
        if returned then s' else dispatchLanesOver now ks (removeEmptyLane k s'))"

definition dispatchLanes :: "int \<Rightarrow> admission \<Rightarrow> admission" where
  "dispatchLanes now s =
     (if am_shutDown s \<or> vc_mode (am_config s) \<noteq> Enforce then s
      else if am_lanes s = [] then s
      else dispatchLanesOver now (map fst (am_lanes s)) s)"

definition dispatch :: "int \<Rightarrow> admission \<Rightarrow> admission" where
  "dispatch now s =
     (if am_shutDown s \<or> vc_mode (am_config s) \<noteq> Enforce then s
      else
        let (drained, s') = dispatchLoop now s in
        if drained then dispatchLanes now s' else s')"

subsection \<open>The shadow accounting\<close>

definition set_disposition :: "adm_id \<Rightarrow> disposition \<Rightarrow> admission \<Rightarrow> admission" where
  "set_disposition i disp s =
     (case map_get (am_records s) i of
        None \<Rightarrow> s
      | Some r \<Rightarrow> s\<lparr>am_records := map_set i (r\<lparr>lr_disposition := disp\<rparr>) (am_records s)\<rparr>)"

lemma set_disposition_keeps [simp]: "am_virtualQueue (set_disposition i disp s) = am_virtualQueue s"
  by (simp add: set_disposition_def split: option.split)

function dispatchVirtual :: "admission \<Rightarrow> admission" where
  "dispatchVirtual s =
     (if fq_count (am_virtualQueue s) \<le> 0 then s
      else
        let available = currentLimit s - am_virtualActiveCost s in
        if available \<le> 0 then s
        else
          case dequeue available (am_virtualQueue s) of
            (None, q') \<Rightarrow> s\<lparr>am_virtualQueue := q'\<rparr>
          | (Some e, q') \<Rightarrow>
              let s1 = s\<lparr>am_virtualQueue := q'\<rparr>;
                  i = e_payload e
              in case (if i \<in> set (am_active s1) then map_get (am_records s1) i else None) of
                   None \<Rightarrow> dispatchVirtual s1
                 | Some r \<Rightarrow>
                     if lr_released r then dispatchVirtual s1
                     else
                       let s2 = set_disposition i D_active s1
                       in dispatchVirtual
                            (s2\<lparr>am_virtualActiveCost := addSaturated (am_virtualActiveCost s2) (lr_cost r),
                                am_virtualActiveCount := addSaturated (am_virtualActiveCount s2) 1\<rparr>))"
  by pat_completeness auto
termination
  by (relation "measure (\<lambda>s. total (am_virtualQueue s))") (auto dest: total_dequeue [OF sym])

declare dispatchVirtual.simps [simp del]

definition releaseVirtual :: "adm_id \<Rightarrow> admission \<Rightarrow> admission" where
  "releaseVirtual i s =
     (case map_get (am_records s) i of
        None \<Rightarrow> s
      | Some r \<Rightarrow>
          let s1 = (if lr_disposition r = D_active
                    then s\<lparr>am_virtualActiveCost := am_virtualActiveCost s - lr_cost r,
                           am_virtualActiveCount := am_virtualActiveCount s - 1\<rparr>
                    else if lr_disposition r = D_queued
                    then s\<lparr>am_virtualQueue := snd (removeById i (am_virtualQueue s))\<rparr>
                    else s)
          in dispatchVirtual (set_disposition i D_none s1))"

text \<open>One active record of \<open>rebuildVirtualState\<close>.\<close>

definition rebuildRecord :: "admission \<Rightarrow> adm_id \<Rightarrow> admission" where
  "rebuildRecord s i =
     (case map_get (am_records s) i of
        None \<Rightarrow> s
      | Some r \<Rightarrow>
          if currentLimit s < lr_cost r then set_disposition i D_rejected s
          else if lr_cost r \<le> currentLimit s - am_virtualActiveCost s then
            (set_disposition i D_active s)
              \<lparr>am_virtualActiveCost := addSaturated (am_virtualActiveCost s) (lr_cost r),
               am_virtualActiveCount := addSaturated (am_virtualActiveCount s) 1\<rparr>
          else
            let (ok, q') = enqueue \<lparr>e_id = i, e_tenantKey = ''_existing'', e_cost = lr_cost r,
                   e_enqueuedAtMs = lr_admittedAtMs r, e_deadlineMs = MAX_SAFE_INTEGER,
                   e_payload = i, e_skipCount = 0\<rparr> (am_virtualQueue s)
            in if ok then set_disposition i D_queued (s\<lparr>am_virtualQueue := q'\<rparr>)
               else set_disposition i D_rejected s)"

definition rebuildVirtualState :: "bool \<Rightarrow> admission \<Rightarrow> admission" where
  "rebuildVirtualState enable s =
     (let s1 = s\<lparr>am_virtualQueue := new_queue (vc_maxQueueCount (am_config s)) (vc_maxQueueCost (am_config s)),
                am_virtualActiveCost := 0, am_virtualActiveCount := 0\<rparr>;
          s2 = foldl (\<lambda>s i. set_disposition i D_none s) s1 (am_active s1)
      in if \<not> enable then s2 else foldl rebuildRecord s2 (am_active s2))"

subsection \<open>Lanes\<close>

definition deleteLane :: "string \<Rightarrow> admission \<Rightarrow> admission" where
  "deleteLane k s =
     (case map_get (am_lanes s) k of
        None \<Rightarrow> s
      | Some la \<Rightarrow>
          (foldl (\<lambda>s e. failQueued ADMISSION_LANE_EVICTED e s) s (fst (drain (ln_queue la))))
            \<lparr>am_lanes := map_delete k (am_lanes s)\<rparr>)"

text \<open>The last of the least recently used lanes (\<open>oldestMs\<close> starts at infinity).\<close>

fun oldestLane :: "(string \<times> int) option \<Rightarrow> (string, lane) js_map \<Rightarrow> string option" where
  "oldestLane best [] = map_option fst best"
| "oldestLane best ((k, la) # m) =
     oldestLane (case best of
                   None \<Rightarrow> Some (k, ln_lastUsedMs la)
                 | Some (_, ms) \<Rightarrow> if ln_lastUsedMs la \<le> ms then Some (k, ln_lastUsedMs la) else best) m"

definition oldestLaneKey :: "admission \<Rightarrow> string option" where
  "oldestLaneKey s = oldestLane None (am_lanes s)"

definition getOrCreateLane :: "int \<Rightarrow> string \<Rightarrow> admission \<Rightarrow> lane \<times> admission" where
  "getOrCreateLane now k s =
     (case map_get (am_lanes s) k of
        Some la \<Rightarrow>
          let la' = la\<lparr>ln_lastUsedMs := now\<rparr> in (la', set_lane k la' s)
      | None \<Rightarrow>
          let s1 = (if ADMISSION_LANE_MAX_SESSIONS \<le> length (am_lanes s) then
                      (case oldestLaneKey s of
                         None \<Rightarrow> s
                       | Some old \<Rightarrow> if old = [] then s else deleteLane old s)
                    else s);
              la = \<lparr>ln_queue = new_queue (vc_maxQueueCount (am_config s1)) (vc_maxQueueCost (am_config s1)),
                    ln_lastUsedMs = now\<rparr>
          in (la, set_lane k la s1))"

definition evictIdleLanes :: "int \<Rightarrow> admission \<Rightarrow> admission" where
  "evictIdleLanes now s =
     (let keysToDelete = map fst (filter (\<lambda>(k, la). ADMISSION_LANE_TTL_MS \<le> now - ln_lastUsedMs la) (am_lanes s));
          s1 = foldl (\<lambda>s k. deleteLane k s) s keysToDelete
      in s1\<lparr>am_laneTimer := (am_lanes s1 \<noteq> [])\<rparr>)"

definition laneTotalQueuedCost :: "admission \<Rightarrow> int" where
  "laneTotalQueuedCost s = foldl (\<lambda>t (k, la). addSaturated t (fq_cost (ln_queue la))) 0 (am_lanes s)"

definition laneTotalQueuedCount :: "admission \<Rightarrow> int" where
  "laneTotalQueuedCount s = foldl (\<lambda>t (k, la). addSaturated t (fq_count (ln_queue la))) 0 (am_lanes s)"

subsection \<open>Leases and waiting entries\<close>

text \<open>\<open>lease.release(outcome, meta)\<close>.\<close>

definition releaseLease ::
  "int \<Rightarrow> adm_id \<Rightarrow> release_outcome \<Rightarrow> js_value \<Rightarrow> pressure option \<Rightarrow> admission \<Rightarrow> admission" where
  "releaseLease now i oc latencyMs pr s0 =
     (case map_get (am_records s0) i of
        None \<Rightarrow> s0
      | Some r \<Rightarrow>
          if lr_released r then s0
          else
            let s1 = sampleIntegral now
                       (s0\<lparr>am_records := map_set i (r\<lparr>lr_released := True\<rparr>) (am_records s0)\<rparr>);
                s2 = (if i \<in> set (am_active s1)
                      then s1\<lparr>am_active := removeAll i (am_active s1),
                              am_activeCost := am_activeCost s1 - lr_cost r\<rparr>
                      else s1);
                latency = (if latencyMs \<noteq> Undefined then latencyMs
                           else Number (of_int (max 0 (now - lr_admittedAtMs r))));
                a1 = noteLatency latency (vc_adaptation (am_config s2)) (am_adaptation s2);
                a2 = noteOutcome oc a1;
                a3 = a2\<lparr>as_windowCompleted := as_windowCompleted a2 + 1\<rparr>;
                a4 = (case pr of None \<Rightarrow> a3 | Some x \<Rightarrow> setPressure x a3)
            in dispatch now (releaseVirtual i (s2\<lparr>am_adaptation := a4\<rparr>)))"

text \<open>The first lane that holds the entry, in the order of the map.\<close>

fun removeFromLanes :: "adm_id \<Rightarrow> string list \<Rightarrow> admission \<Rightarrow> adm_entry option \<times> admission" where
  "removeFromLanes i [] s = (None, s)"
| "removeFromLanes i (k # ks) s =
     (case map_get (am_lanes s) k of
        None \<Rightarrow> removeFromLanes i ks s
      | Some la \<Rightarrow>
          (case removeById i (ln_queue la) of
             (None, q') \<Rightarrow> removeFromLanes i ks s
           | (Some e, q') \<Rightarrow>
               (Some e, removeEmptyLane (e_tenantKey e) (set_lane k (la\<lparr>ln_queue := q'\<rparr>) s))))"

definition expireEntry :: "int \<Rightarrow> adm_id \<Rightarrow> reject_code \<Rightarrow> admission \<Rightarrow> admission" where
  "expireEntry now i code s =
     (let (found, s1) =
        (case removeById i (am_queue s) of
           (Some e, q') \<Rightarrow> (Some e, s\<lparr>am_queue := q'\<rparr>)
         | (None, q') \<Rightarrow> removeFromLanes i (map fst (am_lanes s)) s)
      in case found of
           None \<Rightarrow> s
         | Some e \<Rightarrow> dispatch now (failQueued code e s1))"

subsection \<open>Requests\<close>

definition as_partial :: "cost_config \<Rightarrow> partial_cost_config" where
  "as_partial c =
     \<lparr>baseCost = Number (of_int (baseCost c)), bodyBytesPerUnit = Number (of_int (bodyBytesPerUnit c)),
      tokensPerUnit = Number (of_int (tokensPerUnit c)), messagesPerUnit = Number (of_int (messagesPerUnit c)),
      toolsPerUnit = Number (of_int (toolsPerUnit c)), fanoutPerUnit = Number (of_int (fanoutPerUnit c)),
      streamingClassCost = Number (of_int (streamingClassCost c)),
      nonStreamingClassCost = Number (of_int (nonStreamingClassCost c)),
      maxRequestCost = Number (of_int (maxRequestCost c))\<rparr>"

definition resolveCost :: "adm_request \<Rightarrow> admission \<Rightarrow> range_error + int" where
  "resolveCost rq s =
     (if rq_cost rq \<noteq> Undefined
      then normalizeRequestCost (rq_cost rq) (Number (of_int (vc_maxRequestCost (am_config s))))
      else case rq_features rq of
             Some f \<Rightarrow> estimateAdmissionCost f (as_partial (vc_costConfig (am_config s)))
           | None \<Rightarrow> Inr 1)"

definition shouldAdmitSolo :: "int \<Rightarrow> admission \<Rightarrow> bool" where
  "shouldAdmitSolo cost s \<longleftrightarrow>
     cost \<le> vc_maxLimit (am_config s) \<and> am_active s = [] \<and> fq_count (am_queue s) = 0
     \<and> laneTotalQueuedCount s = 0 \<and> as_pressure (am_adaptation s) = Normal"

text \<open>\<open>request.tenantKey\<close> with the default for a missing or empty one.\<close>

definition tenant_or_default :: "string option \<Rightarrow> string" where
  "tenant_or_default t = (case t of None \<Rightarrow> ''_default'' | Some k \<Rightarrow> if k = [] then ''_default'' else k)"

text \<open>Into the tenant's lane when lanes are on and it names one, else into the shared queue.\<close>

definition placeEntry :: "int \<Rightarrow> adm_entry \<Rightarrow> admission \<Rightarrow> bool \<times> admission" where
  "placeEntry now entry s =
     (let k = e_tenantKey entry in
      if k \<noteq> ''_default'' \<and> vc_virtualLanes (am_config s) then
        (let (la, s') = getOrCreateLane now k s;
             (ok, q') = enqueue entry (ln_queue la)
         in if ok then (True, (set_lane k (la\<lparr>ln_queue := q'\<rparr>) s')\<lparr>am_laneTimer := True\<rparr>)
            else (False, removeEmptyLane k s'))
      else
        (let (ok, q') = enqueue entry (am_queue s)
         in if ok then (True, s\<lparr>am_queue := q'\<rparr>) else (False, s)))"

definition maxWaitOf :: "adm_request \<Rightarrow> admission \<Rightarrow> range_error + int" where
  "maxWaitOf rq s =
     normalizeRequestCost
       (if is_nullish (rq_maxWaitMs rq) then Number (of_int (vc_defaultMaxWaitMs (am_config s)))
        else rq_maxWaitMs rq) (Number (of_int MAX_ADMISSION_WINDOW_MS))"

text \<open>The deadline timer and the abort listener are installed after a first dispatch.\<close>

definition installWaiters :: "adm_id \<Rightarrow> signal option \<Rightarrow> admission \<Rightarrow> admission" where
  "installWaiters i sg s =
     (let s1 = s\<lparr>am_timers := am_timers s @ [i]\<rparr>
      in case sg of
           None \<Rightarrow> s1
         | Some g \<Rightarrow> s1\<lparr>am_listeners := am_listeners s1 @ [(i, g)]\<rparr>)"

definition enqueueRequest ::
  "int \<Rightarrow> adm_request \<Rightarrow> int \<Rightarrow> admission \<Rightarrow> (range_error + acquire_result) \<times> admission" where
  "enqueueRequest now rq cost s0 =
     (let i = QId (am_leaseSeq s0 + 1);
          s = s0\<lparr>am_leaseSeq := am_leaseSeq s0 + 1\<rparr>
      in case maxWaitOf rq s of
           Inl err \<Rightarrow> (Inl err, s)
         | Inr maxWait \<Rightarrow>
             let entry = \<lparr>e_id = i, e_tenantKey = tenant_or_default (rq_tenantKey rq), e_cost = cost,
                          e_enqueuedAtMs = now, e_deadlineMs = min MAX_SAFE_INTEGER (now + maxWait),
                          e_payload = rq_signal rq, e_skipCount = 0\<rparr>;
                 (placed, s1) = placeEntry now entry s
             in if \<not> placed then apfst Inr (reject_now ADMISSION_QUEUE_FULL s1)
                else (Inr (Queued i), dispatch now (installWaiters i (rq_signal rq) (dispatch now s1))))"

definition acquireShadow :: "int \<Rightarrow> adm_request \<Rightarrow> int \<Rightarrow> int \<Rightarrow> admission \<Rightarrow> acquire_result \<times> admission" where
  "acquireShadow now rq cost limit s =
     (let (decision, disp, s1) =
        (if limit < cost \<or> MAX_SAFE_INTEGER < cost then
           (Would_reject, D_rejected, s\<lparr>am_wouldRejectCount := am_wouldRejectCount s + 1\<rparr>)
         else if am_virtualActiveCost s + cost \<le> limit then
           (Would_admit, D_active,
            s\<lparr>am_virtualActiveCost := addSaturated (am_virtualActiveCost s) cost,
              am_virtualActiveCount := addSaturated (am_virtualActiveCount s) 1,
              am_wouldAdmitCount := addSaturated (am_wouldAdmitCount s) 1\<rparr>)
         else if canAccept (am_virtualQueue s) cost then
           (Would_queue, D_queued, s\<lparr>am_wouldQueueCount := am_wouldQueueCount s + 1\<rparr>)
         else (Would_reject, D_rejected, s\<lparr>am_wouldRejectCount := am_wouldRejectCount s + 1\<rparr>));
          (i, s2) = admit now cost disp s1;
          s3 = (if disp = D_queued
                then s2\<lparr>am_virtualQueue := snd (enqueue \<lparr>e_id = i,
                       e_tenantKey = tenant_or_default (rq_tenantKey rq), e_cost = cost,
                       e_enqueuedAtMs = now, e_deadlineMs = MAX_SAFE_INTEGER, e_payload = i,
                       e_skipCount = 0\<rparr> (am_virtualQueue s2))\<rparr>
                else s2)
      in (Admitted i (Some decision), s3))"

definition acquire ::
  "int \<Rightarrow> adm_request \<Rightarrow> admission \<Rightarrow> (range_error + acquire_result) \<times> admission" where
  "acquire now rq s0 =
     (if am_shutDown s0 then apfst Inr (reject_now ADMISSION_SHUTDOWN s0)
      else if (case rq_signal rq of None \<Rightarrow> False | Some sg \<Rightarrow> sg \<in> set (am_aborted s0))
      then apfst Inr (reject_now ADMISSION_ABORTED s0)
      else
        let s = (case rq_pressure rq of
                   None \<Rightarrow> s0
                 | Some pr \<Rightarrow> s0\<lparr>am_adaptation := setPressure pr (am_adaptation s0)\<rparr>)
        in case resolveCost rq s of
             Inl err \<Rightarrow> (Inl err, s)
           | Inr cost \<Rightarrow>
               let limit = currentLimit s in
               (case vc_mode (am_config s) of
                  Off \<Rightarrow> let (i, s') = admitVirtual s in (Inr (Admitted i None), s')
                | Shadow \<Rightarrow> apfst Inr (acquireShadow now rq cost limit s)
                | Enforce \<Rightarrow>
                    if limit < cost then
                      if shouldAdmitSolo cost s
                      then let (i, s') = admit now cost D_none s in (Inr (Admitted i None), s')
                      else apfst Inr (reject_now ADMISSION_OVERSIZED s)
                    else if fq_count (am_queue s) = 0 \<and> am_activeCost s + cost \<le> limit
                    then let (i, s') = admit now cost D_none s in (Inr (Admitted i None), s')
                    else if \<not> canAccept (am_queue s) cost
                    then apfst Inr (reject_now ADMISSION_QUEUE_FULL s)
                    else enqueueRequest now rq cost s))"

subsection \<open>The public operations\<close>

definition armWindowTimer :: "admission \<Rightarrow> admission" where
  "armWindowTimer s = s\<lparr>am_windowTimer := \<not> (am_shutDown s \<or> vc_mode (am_config s) = Off)\<rparr>"

text \<open>The constructor, for a configuration that validates; ids continue from \<open>seq\<close>.\<close>

definition new_admission :: "int \<Rightarrow> nat \<Rightarrow> validated_config \<Rightarrow> admission" where
  "new_admission now seq c = armWindowTimer
     \<lparr>am_config = c,
      am_adaptation = createAdaptationState (vc_initialLimit c) (vc_minLimit c) (vc_maxLimit c) now,
      am_queue = new_queue (vc_maxQueueCount c) (vc_maxQueueCost c),
      am_virtualQueue = new_queue (vc_maxQueueCount c) (vc_maxQueueCost c),
      am_lanes = [], am_laneTimer = False, am_records = [], am_active = [], am_activeCost = 0,
      am_virtualActiveCost = 0, am_virtualActiveCount = 0, am_lastSampleMs = now,
      am_windowTimer = False, am_shutDown = False, am_admittedCount = 0, am_rejectedCount = 0,
      am_wouldAdmitCount = 0, am_wouldQueueCount = 0, am_wouldRejectCount = 0, am_leaseSeq = seq,
      am_timers = [], am_listeners = [], am_aborted = [], am_settled = []\<rparr>"

definition create_controller :: "int \<Rightarrow> nat \<Rightarrow> admission_config \<Rightarrow> range_error + admission" where
  "create_controller now seq input = bindE (validateConfig input) (\<lambda>c. Inr (new_admission now seq c))"

definition observePressure :: "int \<Rightarrow> pressure \<Rightarrow> admission \<Rightarrow> admission" where
  "observePressure now pr s =
     (let (applied, a) = observeCritical (vc_minLimit (am_config s)) (vc_adaptation (am_config s)) pr (am_adaptation s);
          s1 = s\<lparr>am_adaptation := a\<rparr>
      in if applied then dispatchVirtual (dispatch now s1) else s1)"

definition tick :: "int \<Rightarrow> admission \<Rightarrow> admission" where
  "tick now s0 =
     (let s1 = evictIdleLanes now (sampleIntegral now s0);
          s2 = s1\<lparr>am_adaptation := closeAdaptationWindow (vc_adaptation (am_config s1)) now (am_adaptation s1)\<rparr>
      in dispatchVirtual (dispatch now s2))"

definition drain_lane :: "admission \<Rightarrow> string \<times> lane \<Rightarrow> admission" where
  "drain_lane s p = foldl (\<lambda>s e. failQueued ADMISSION_SHUTDOWN e s) s (fst (drain (ln_queue (snd p))))"

definition shutdown :: "admission \<Rightarrow> admission" where
  "shutdown s =
     (if am_shutDown s then s
      else
        let s1 = s\<lparr>am_shutDown := True, am_windowTimer := False\<rparr>;
            (es, q') = drain (am_queue s1);
            s2 = foldl (\<lambda>s e. failQueued ADMISSION_SHUTDOWN e s) (s1\<lparr>am_queue := q'\<rparr>) es;
            s3 = foldl drain_lane s2 (am_lanes s2)
        in s3\<lparr>am_lanes := [], am_laneTimer := False\<rparr>)"

text \<open>What \<open>updateConfig\<close> does with one entry that was waiting.\<close>

definition requeue :: "int \<Rightarrow> admission \<Rightarrow> adm_entry \<Rightarrow> admission" where
  "requeue now s e =
     (if vc_mode (am_config s) \<noteq> Enforce
      then admitEntry now e (detachAbort (e_id e) (clearEntryTimer (e_id e) s))
      else if currentLimit s < e_cost e then failQueued ADMISSION_OVERSIZED e s
      else
        let (ok, q') = enqueue e (am_queue s)
        in if ok then s\<lparr>am_queue := q'\<rparr> else failQueued ADMISSION_QUEUE_FULL e s)"

definition apply_config :: "int \<Rightarrow> validated_config \<Rightarrow> admission \<Rightarrow> admission" where
  "apply_config now nxt s0 =
     (let s1 = sampleIntegral now s0;
          a = am_adaptation s1;
          a' = a\<lparr>as_currentLimit := min (vc_maxLimit nxt) (max (vc_minLimit nxt) (as_currentLimit a)),
                 as_recoveryCeiling :=
                   clampLimit (Number (of_int (vc_initialLimit nxt))) (vc_minLimit nxt) (vc_maxLimit nxt),
                 as_windowStartMs := now, as_windowActiveCostIntegral := 0, as_windowCompleted := 0,
                 as_windowLatencySamples := 0, as_freezeGrowth := False,
                 as_criticalDecreaseConsumed := False, as_pressure := Normal\<rparr>;
          drained = fst (drain (am_queue s1)) @ concat (map (\<lambda>(k, la). fst (drain (ln_queue la))) (am_lanes s1));
          s2 = s1\<lparr>am_config := nxt, am_adaptation := a', am_lastSampleMs := now,
                  am_queue := new_queue (vc_maxQueueCount nxt) (vc_maxQueueCost nxt),
                  am_lanes := [], am_laneTimer := False\<rparr>;
          s3 = foldl (requeue now) s2 drained;
          s4 = armWindowTimer (rebuildVirtualState (vc_mode nxt = Shadow) s3)
      in if vc_mode nxt = Enforce then dispatch now s4 else s4)"

definition updateConfig :: "int \<Rightarrow> admission_config \<Rightarrow> admission \<Rightarrow> (range_error + unit) \<times> admission" where
  "updateConfig now input s =
     (case validateConfig input of
        Inl err \<Rightarrow> (Inl err, s)
      | Inr nxt \<Rightarrow> (Inr (), apply_config now nxt s))"

text \<open>The callbacks the runtime fires: a deadline timer, the window and lane timers, an abort signal.\<close>

definition deadline_fires :: "int \<Rightarrow> adm_id \<Rightarrow> admission \<Rightarrow> admission" where
  "deadline_fires now i s =
     (if i \<in> set (am_timers s)
      then expireEntry now i ADMISSION_DEADLINE (s\<lparr>am_timers := removeAll i (am_timers s)\<rparr>) else s)"

definition window_fires :: "int \<Rightarrow> admission \<Rightarrow> admission" where
  "window_fires now s =
     (if am_windowTimer s
      then let s' = tick now s in s'\<lparr>am_windowTimer := (\<not> am_shutDown s' \<and> vc_mode (am_config s') \<noteq> Off)\<rparr>
      else s)"

definition lane_timer_fires :: "int \<Rightarrow> admission \<Rightarrow> admission" where
  "lane_timer_fires now s = (if am_laneTimer s then evictIdleLanes now s else s)"

definition signal_aborts :: "int \<Rightarrow> signal \<Rightarrow> admission \<Rightarrow> admission" where
  "signal_aborts now sg s =
     (let ids = map fst (filter (\<lambda>(i, g). g = sg) (am_listeners s));
          s1 = s\<lparr>am_aborted := sg # am_aborted s,
                 am_listeners := filter (\<lambda>(i, g). g \<noteq> sg) (am_listeners s)\<rparr>
      in foldl (\<lambda>s i. expireEntry now i ADMISSION_ABORTED s) s1 ids)"

subsection \<open>Snapshots\<close>

record adm_snapshot =
  sn_mode :: admission_mode
  sn_currentLimit :: int
  sn_minLimit :: int
  sn_maxLimit :: int
  sn_activeCost :: int
  sn_activeCount :: int
  sn_queuedCost :: int
  sn_queuedCount :: int
  sn_virtualActiveCost :: int
  sn_virtualActiveCount :: int
  sn_virtualQueuedCost :: int
  sn_virtualQueuedCount :: int
  sn_virtualLanes :: bool
  sn_laneCount :: int
  sn_laneQueuedCost :: int
  sn_laneQueuedCount :: int
  sn_laneTenants :: "(string \<times> int \<times> int) list"
  sn_admittedCount :: int
  sn_rejectedCount :: int
  sn_wouldAdmitCount :: int
  sn_wouldQueueCount :: int
  sn_wouldRejectCount :: int
  sn_shortLatencyEwma :: real
  sn_longLatencyEwma :: real
  sn_utilization :: real
  sn_pressure :: pressure
  sn_shutdown :: bool

definition snapshot :: "int \<Rightarrow> admission \<Rightarrow> adm_snapshot \<times> admission" where
  "snapshot now s0 =
     (let s = sampleIntegral now s0; sat = saturateSnapshotNumber; a = am_adaptation s; c = am_config s in
      (\<lparr>sn_mode = vc_mode c, sn_currentLimit = as_currentLimit a, sn_minLimit = vc_minLimit c,
        sn_maxLimit = vc_maxLimit c, sn_activeCost = sat (am_activeCost s),
        sn_activeCount = sat (int (length (am_active s))), sn_queuedCost = sat (fq_cost (am_queue s)),
        sn_queuedCount = sat (fq_count (am_queue s)), sn_virtualActiveCost = sat (am_virtualActiveCost s),
        sn_virtualActiveCount = sat (am_virtualActiveCount s),
        sn_virtualQueuedCost = sat (fq_cost (am_virtualQueue s)),
        sn_virtualQueuedCount = sat (fq_count (am_virtualQueue s)), sn_virtualLanes = vc_virtualLanes c,
        sn_laneCount = sat (int (length (am_lanes s))), sn_laneQueuedCost = sat (laneTotalQueuedCost s),
        sn_laneQueuedCount = sat (laneTotalQueuedCount s),
        sn_laneTenants = map (\<lambda>(k, la). (k, sat (fq_count (ln_queue la)), sat (fq_cost (ln_queue la)))) (am_lanes s),
        sn_admittedCount = sat (am_admittedCount s), sn_rejectedCount = sat (am_rejectedCount s),
        sn_wouldAdmitCount = sat (am_wouldAdmitCount s), sn_wouldQueueCount = sat (am_wouldQueueCount s),
        sn_wouldRejectCount = sat (am_wouldRejectCount s), sn_shortLatencyEwma = as_shortLatencyEwma a,
        sn_longLatencyEwma = as_longLatencyEwma a, sn_utilization = as_utilization a,
        sn_pressure = as_pressure a, sn_shutdown = am_shutDown s\<rparr>, s))"

end
