(* ===== verification/AdmissionSafety.thy ===== *)
theory AdmissionSafety
  imports AdmissionController
begin

text \<open>
  What the admission controller keeps and promises: the invariant of its state, the accounting of
  the leases and of every promise handed out, the bound on the admitted load, and what its
  operations do to the entries that wait.
\<close>

subsection \<open>Invariants\<close>

definition lane_ok :: "string \<Rightarrow> lane \<Rightarrow> bool" where
  "lane_ok k la \<longleftrightarrow> queue_inv (ln_queue la) \<and> fq_maxCost (ln_queue la) \<le> MAX_SAFE_INTEGER
     \<and> (\<forall>t. t \<noteq> k \<longrightarrow> bucket_of (ln_queue la) t = [])"

definition queues_ok :: "admission \<Rightarrow> bool" where
  "queues_ok s \<longleftrightarrow> queue_inv (am_queue s) \<and> fq_maxCost (am_queue s) \<le> MAX_SAFE_INTEGER
     \<and> map_wf (am_lanes s) \<and> (\<forall>k la. map_get (am_lanes s) k = Some la \<longrightarrow> lane_ok k la)"

definition cost_of :: "admission \<Rightarrow> adm_id \<Rightarrow> int" where
  "cost_of s i = (case map_get (am_records s) i of None \<Rightarrow> 0 | Some r \<Rightarrow> lr_cost r)"

definition leases_ok :: "admission \<Rightarrow> bool" where
  "leases_ok s \<longleftrightarrow> distinct (am_active s)
     \<and> am_activeCost s = sum_list (map (cost_of s) (am_active s))
     \<and> (\<forall>i \<in> set (am_active s). map_has (am_records s) i)
     \<and> (\<forall>i r. map_get (am_records s) i = Some r \<longrightarrow>
           (i \<in> set (am_active s) \<longleftrightarrow> \<not> lr_released r) \<and> 0 < lr_cost r
           \<and> (\<exists>n. i = LeaseId n \<and> n \<le> am_leaseSeq s))"

definition adm_inv :: "admission \<Rightarrow> bool" where
  "adm_inv s \<longleftrightarrow> config_ok (am_config s) \<and> adaptation_inv (vc_adaptation (am_config s)) (am_adaptation s)
     \<and> queues_ok s \<and> leases_ok s"

text \<open>The entries that wait, and the ids that wait or were settled.\<close>

definition waiting :: "admission \<Rightarrow> adm_entry multiset" where
  "waiting s = work (am_queue s) + sum_values (\<lambda>la. work (ln_queue la)) (am_lanes s)"

definition accounted :: "admission \<Rightarrow> adm_id multiset" where
  "accounted s = image_mset e_id (waiting s) + mset (map fst (am_settled s))"

subsection \<open>Leases\<close>

lemma sampleIntegral_keeps [simp]:
  "am_config (sampleIntegral now s) = am_config s" "am_queue (sampleIntegral now s) = am_queue s"
  "am_lanes (sampleIntegral now s) = am_lanes s" "am_records (sampleIntegral now s) = am_records s"
  "am_active (sampleIntegral now s) = am_active s" "am_activeCost (sampleIntegral now s) = am_activeCost s"
  "am_leaseSeq (sampleIntegral now s) = am_leaseSeq s" "am_settled (sampleIntegral now s) = am_settled s"
  "am_shutDown (sampleIntegral now s) = am_shutDown s" "am_aborted (sampleIntegral now s) = am_aborted s"
  "currentLimit (sampleIntegral now s) = currentLimit s"
  "as_currentLimit (am_adaptation (sampleIntegral now s)) = as_currentLimit (am_adaptation s)"
  "as_recoveryCeiling (am_adaptation (sampleIntegral now s)) = as_recoveryCeiling (am_adaptation s)"
  by (simp_all add: sampleIntegral_def Let_def currentLimit_def sampleActiveIntegral_def)

lemma inv_adaptation:
  "adm_inv s \<Longrightarrow> adaptation_inv (vc_adaptation (am_config s)) a \<Longrightarrow> adm_inv (s\<lparr>am_adaptation := a\<rparr>)"
  by (simp add: adm_inv_def queues_ok_def leases_ok_def cost_of_def [abs_def])

lemma sampleIntegral_inv:
  assumes "adm_inv s"
  shows "adm_inv (sampleIntegral now s)"
proof (cases "0 < now - am_lastSampleMs s")
  case True
  have "adaptation_inv (vc_adaptation (am_config s)) (sampleActiveIntegral c d (am_adaptation s))" for c d
    using assms by (intro sample_inv) (auto simp: adm_inv_def config_ok_def)
  then show ?thesis
    using assms True inv_adaptation
    by (simp add: sampleIntegral_def Let_def adm_inv_def queues_ok_def leases_ok_def cost_of_def [abs_def])
qed (use assms in \<open>simp add: sampleIntegral_def\<close>)

lemma admit_leases:
  assumes "leases_ok s" and "0 < cost" and "s' = snd (admit now cost disp s)"
  shows "leases_ok s'"
proof -
  let ?i = "LeaseId (am_leaseSeq s + 1)"
  have fresh: "map_get (am_records s) ?i = None"
  proof (rule ccontr)
    assume "map_get (am_records s) ?i \<noteq> None"
    then obtain r where "map_get (am_records s) ?i = Some r" by blast
    then have "\<exists>n. ?i = LeaseId n \<and> n \<le> am_leaseSeq s" using assms(1) unfolding leases_ok_def by blast
    then show False by simp
  qed
  then have na: "?i \<notin> set (am_active s)" using assms(1) by (auto simp: leases_ok_def)
  have s': "am_records s' = map_set ?i \<lparr>lr_cost = cost, lr_released = False, lr_admittedAtMs = now,
        lr_disposition = disp\<rparr> (am_records s)" "am_active s' = am_active s @ [?i]"
      "am_activeCost s' = am_activeCost s + cost" "am_leaseSeq s' = am_leaseSeq s + 1"
    by (simp_all add: assms(3) admit_def Let_def)
  have "map (cost_of s') (am_active s) = map (cost_of s) (am_active s)"
    using na by (intro map_cong) (auto simp: cost_of_def s')
  then have "sum_list (map (cost_of s') (am_active s')) = am_activeCost s'"
    using assms(1) by (simp only: s'(2,3) map_append sum_list_append leases_ok_def) (simp add: cost_of_def s')
  moreover have "(j \<in> set (am_active s') \<longleftrightarrow> \<not> lr_released r) \<and> 0 < lr_cost r
      \<and> (\<exists>n. j = LeaseId n \<and> n \<le> am_leaseSeq s')" if "map_get (am_records s') j = Some r" for j r
  proof (cases "j = ?i")
    case True
    then show ?thesis using that assms(2) by (auto simp: s')
  next
    case False
    then have old: "map_get (am_records s) j = Some r" using that by (simp add: s')
    then have "(j \<in> set (am_active s) \<longleftrightarrow> \<not> lr_released r) \<and> 0 < lr_cost r
        \<and> (\<exists>n. j = LeaseId n \<and> n \<le> am_leaseSeq s)"
      using assms(1) unfolding leases_ok_def by blast
    then show ?thesis using False by (auto simp: s')
  qed
  moreover have "distinct (am_active s')" "\<forall>j \<in> set (am_active s'). map_has (am_records s') j"
    using assms(1) na by (auto simp: s' leases_ok_def)
  ultimately show ?thesis unfolding leases_ok_def by auto
qed

lemma admit_keeps [simp]:
  "am_config (snd (admit now cost disp s)) = am_config s" "am_queue (snd (admit now cost disp s)) = am_queue s"
  "am_lanes (snd (admit now cost disp s)) = am_lanes s" "am_settled (snd (admit now cost disp s)) = am_settled s"
  "am_shutDown (snd (admit now cost disp s)) = am_shutDown s"
  "am_activeCost (snd (admit now cost disp s)) = am_activeCost s + cost"
  "currentLimit (snd (admit now cost disp s)) = currentLimit s"
  "am_leaseSeq (snd (admit now cost disp s)) = am_leaseSeq s + 1"
  by (simp_all add: admit_def Let_def) (simp_all add: currentLimit_def)

lemma admit_inv:
  assumes "adm_inv s" and "0 < cost"
  shows "adm_inv (snd (admit now cost disp s))"
proof -
  have "am_adaptation (snd (admit now cost disp s)) = am_adaptation (sampleIntegral now s)"
    by (simp add: admit_def Let_def)
  then show ?thesis
    using assms sampleIntegral_inv [OF assms(1), of now] admit_leases [OF _ assms(2) refl, of s now disp]
    by (simp add: adm_inv_def queues_ok_def)
qed

text \<open>
  The bookkeeping of a step: the invariant, which ids are accounted for, the configuration, the
  shutdown flag, a bound on the active cost, and how far the id counter got.
\<close>

definition tracked :: "adm_id multiset \<Rightarrow> validated_config \<Rightarrow> bool \<Rightarrow> int \<Rightarrow> nat \<Rightarrow> admission \<Rightarrow> bool" where
  "tracked A c d b n s \<longleftrightarrow> adm_inv s \<and> accounted s = A \<and> am_config s = c \<and> am_shutDown s = d
     \<and> am_activeCost s \<le> b \<and> vc_maxLimit c \<le> b \<and> n \<le> am_leaseSeq s"

lemma adm_inv_fields [simp]:
  "adm_inv (s\<lparr>am_timers := t\<rparr>) = adm_inv s" "adm_inv (s\<lparr>am_listeners := l\<rparr>) = adm_inv s"
  "adm_inv (s\<lparr>am_settled := st\<rparr>) = adm_inv s" "adm_inv (s\<lparr>am_rejectedCount := r\<rparr>) = adm_inv s"
  "adm_inv (s\<lparr>am_laneTimer := lt\<rparr>) = adm_inv s" "adm_inv (s\<lparr>am_windowTimer := lt\<rparr>) = adm_inv s"
  "adm_inv (s\<lparr>am_shutDown := lt\<rparr>) = adm_inv s" "adm_inv (s\<lparr>am_aborted := ab\<rparr>) = adm_inv s"
  "adm_inv (s\<lparr>am_virtualQueue := vq\<rparr>) = adm_inv s" "adm_inv (s\<lparr>am_virtualActiveCost := x\<rparr>) = adm_inv s"
  "adm_inv (s\<lparr>am_virtualActiveCount := x\<rparr>) = adm_inv s" "adm_inv (s\<lparr>am_admittedCount := x\<rparr>) = adm_inv s"
  "adm_inv (s\<lparr>am_lastSampleMs := x\<rparr>) = adm_inv s"
  "adm_inv (s\<lparr>am_wouldAdmitCount := x\<rparr>) = adm_inv s" "adm_inv (s\<lparr>am_wouldQueueCount := x\<rparr>) = adm_inv s"
  "adm_inv (s\<lparr>am_wouldRejectCount := x\<rparr>) = adm_inv s"
  by (simp_all add: adm_inv_def queues_ok_def leases_ok_def cost_of_def [abs_def])

lemma accounted_fields [simp]:
  "accounted (s\<lparr>am_timers := t\<rparr>) = accounted s" "accounted (s\<lparr>am_listeners := l\<rparr>) = accounted s"
  "accounted (s\<lparr>am_rejectedCount := r\<rparr>) = accounted s"
  "accounted (s\<lparr>am_settled := am_settled s @ [(i, st)]\<rparr>) = add_mset i (accounted s)"
  "accounted (s\<lparr>am_laneTimer := lt\<rparr>) = accounted s" "accounted (s\<lparr>am_windowTimer := lt\<rparr>) = accounted s"
  "accounted (s\<lparr>am_shutDown := lt\<rparr>) = accounted s" "accounted (s\<lparr>am_aborted := ab\<rparr>) = accounted s"
  "accounted (s\<lparr>am_virtualQueue := vq\<rparr>) = accounted s" "accounted (s\<lparr>am_virtualActiveCost := x\<rparr>) = accounted s"
  "accounted (s\<lparr>am_virtualActiveCount := x\<rparr>) = accounted s" "accounted (s\<lparr>am_admittedCount := x\<rparr>) = accounted s"
  "accounted (s\<lparr>am_adaptation := a\<rparr>) = accounted s" "accounted (s\<lparr>am_records := rs\<rparr>) = accounted s"
  "accounted (s\<lparr>am_active := acs\<rparr>) = accounted s" "accounted (s\<lparr>am_activeCost := y\<rparr>) = accounted s"
  "accounted (s\<lparr>am_leaseSeq := z\<rparr>) = accounted s" "accounted (s\<lparr>am_lastSampleMs := y\<rparr>) = accounted s"
  "accounted (s\<lparr>am_config := c\<rparr>) = accounted s"
  "accounted (s\<lparr>am_wouldAdmitCount := y\<rparr>) = accounted s" "accounted (s\<lparr>am_wouldQueueCount := y\<rparr>) = accounted s"
  "accounted (s\<lparr>am_wouldRejectCount := y\<rparr>) = accounted s"
  by (simp_all add: accounted_def waiting_def)

lemma accounted_cong:
  "am_queue s = am_queue s' \<Longrightarrow> am_lanes s = am_lanes s' \<Longrightarrow> am_settled s = am_settled s' \<Longrightarrow>
     accounted s = accounted s'"
  by (simp add: accounted_def waiting_def)

subsection \<open>Dispatching keeps track of everything\<close>

lemma adm_inv_queue:
  "adm_inv s \<Longrightarrow> queue_inv q \<Longrightarrow> fq_maxCost q \<le> MAX_SAFE_INTEGER \<Longrightarrow> adm_inv (s\<lparr>am_queue := q\<rparr>)"
  by (simp add: adm_inv_def queues_ok_def leases_ok_def cost_of_def [abs_def])

lemma accounted_queue:
  "work (am_queue s) = add_mset (core e) (work q) \<Longrightarrow>
     accounted s = add_mset (e_id e) (accounted (s\<lparr>am_queue := q\<rparr>))"
  by (simp add: accounted_def waiting_def)

lemma adm_inv_lanes:
  "adm_inv s \<Longrightarrow> map_wf m \<Longrightarrow> (\<And>k la. map_get m k = Some la \<Longrightarrow> lane_ok k la) \<Longrightarrow> adm_inv (s\<lparr>am_lanes := m\<rparr>)"
  by (simp add: adm_inv_def queues_ok_def leases_ok_def cost_of_def [abs_def])

lemma adm_inv_set_lane:
  assumes "adm_inv s" and "lane_ok k la"
  shows "adm_inv (set_lane k la s)"
  using assms unfolding set_lane_def
  by (intro adm_inv_lanes) (auto simp: adm_inv_def queues_ok_def map_wf_set split: if_splits)

lemma accounted_set_lane:
  assumes "map_get (am_lanes s) k = Some la" and "work (ln_queue la) = add_mset (core e) (work (ln_queue la'))"
  shows "accounted s = add_mset (e_id e) (accounted (set_lane k la' s))"
proof -
  let ?f = "\<lambda>la. work (ln_queue la)"
  have "sum_values ?f (map_set k la' (am_lanes s)) + ?f la = sum_values ?f (am_lanes s) + ?f la'"
    by (rule sum_values_set [OF assms(1)])
  then have "sum_values ?f (am_lanes s) = add_mset (core e) (sum_values ?f (map_set k la' (am_lanes s)))"
    using assms(2) by simp
  then show ?thesis by (simp add: accounted_def waiting_def set_lane_def)
qed

lemma lane_ok_get: "adm_inv s \<Longrightarrow> map_get (am_lanes s) k = Some la \<Longrightarrow> lane_ok k la"
  by (simp add: adm_inv_def queues_ok_def)

text \<open>An entry leaves the shared queue or its lane.\<close>

lemma deq_shared:
  assumes "adm_inv s" and "dequeue m (am_queue s) = (Some e, q')"
  shows "adm_inv (s\<lparr>am_queue := q'\<rparr>) \<and> accounted s = add_mset (e_id e) (accounted (s\<lparr>am_queue := q'\<rparr>))
    \<and> 0 < e_cost e \<and> e_cost e \<le> m"
proof -
  have inv: "queue_inv (am_queue s)" "fq_maxCost (am_queue s) \<le> MAX_SAFE_INTEGER"
    using assms(1) by (simp_all add: adm_inv_def queues_ok_def)
  show ?thesis
  proof (rule dequeue_Some [OF inv(1) assms(2)])
    fix t x xs
    assume *: "bucket_of (am_queue s) t = x # xs" "e = core x" "e_cost x \<le> m" "queue_inv q'"
      "work (am_queue s) = add_mset e (work q')" "fq_maxCost q' = fq_maxCost (am_queue s)"
    have "x \<in> set (bucket_of (am_queue s) t)" using *(1) by simp
    then have "0 < e_cost x" using inv(1) unfolding queue_inv_def entries_ok_def by blast
    then show ?thesis
      using * inv(2) adm_inv_queue [OF assms(1) *(4)] accounted_queue [of s x q'] by simp
  qed
qed

lemma deq_lane:
  assumes "adm_inv s" and "map_get (am_lanes s) k = Some la" and "dequeue m (ln_queue la) = (Some e, q')"
    and "s' = set_lane k (la\<lparr>ln_queue := q'\<rparr>) s"
  shows "adm_inv s' \<and> accounted s = add_mset (e_id e) (accounted s') \<and> 0 < e_cost e \<and> e_cost e \<le> m"
proof -
  have ok: "lane_ok k la" using assms by (blast intro: lane_ok_get)
  then have inv: "queue_inv (ln_queue la)" by (simp add: lane_ok_def)
  show ?thesis
  proof (rule dequeue_Some [OF inv assms(3)])
    fix t x xs
    assume *: "bucket_of (ln_queue la) t = x # xs" "e = core x" "e_cost x \<le> m" "queue_inv q'"
      "work (ln_queue la) = add_mset e (work q')" "fq_maxCost q' = fq_maxCost (ln_queue la)"
      "map core (bucket_of q' t) = map core xs"
      "\<And>u. u \<noteq> t \<Longrightarrow> map core (bucket_of q' u) = map core (bucket_of (ln_queue la) u)"
    have "t = k" using ok *(1) by (auto simp: lane_ok_def)
    then have "lane_ok k (la\<lparr>ln_queue := q'\<rparr>)" using ok *(4,6,8) by (auto simp: lane_ok_def)
    moreover have "x \<in> set (bucket_of (ln_queue la) t)" using *(1) by simp
    then have "0 < e_cost x" using inv unfolding queue_inv_def entries_ok_def by blast
    ultimately show ?thesis
      using adm_inv_set_lane [OF assms(1), of k "la\<lparr>ln_queue := q'\<rparr>"]
        accounted_set_lane [OF assms(2), of x "la\<lparr>ln_queue := q'\<rparr>"] *
      by (simp add: assms(4))
  qed
qed

lemma deq_None_same: "queue_inv q \<Longrightarrow> dequeue m q = (None, q') \<Longrightarrow> q' = q"
  using dequeue_None by blast

lemma accounted_settle: "accounted (s\<lparr>am_settled := am_settled s @ [p]\<rparr>) = add_mset (fst p) (accounted s)"
  by (simp add: accounted_def waiting_def)

lemma admit_accounted: "accounted (snd (admit now c disp s)) = accounted s"
  by (rule accounted_cong) simp_all

lemma admitEntry_tracks:
  assumes "adm_inv s" and "0 < e_cost e"
  shows "adm_inv (admitEntry now e s)" "accounted (admitEntry now e s) = add_mset (e_id e) (accounted s)"
    "am_activeCost (admitEntry now e s) = am_activeCost s + e_cost e"
    "am_leaseSeq (admitEntry now e s) = am_leaseSeq s + 1" "currentLimit (admitEntry now e s) = currentLimit s"
    "am_config (admitEntry now e s) = am_config s" "am_shutDown (admitEntry now e s) = am_shutDown s"
    "am_queue (admitEntry now e s) = am_queue s" "am_lanes (admitEntry now e s) = am_lanes s"
proof -
  obtain i t where a: "admit now (e_cost e) D_none s = (i, t)" by (cases "admit now (e_cost e) D_none s")
  then have t: "t = snd (admit now (e_cost e) D_none s)" by simp
  have eq: "admitEntry now e s = t\<lparr>am_settled := am_settled t @ [(e_id e, Resolved_with i)]\<rparr>"
    by (simp add: admitEntry_def a)
  have "adm_inv t" unfolding t using assms by (rule admit_inv)
  then show "adm_inv (admitEntry now e s)" by (simp add: eq)
  show "accounted (admitEntry now e s) = add_mset (e_id e) (accounted s)"
    unfolding eq accounted_settle by (simp add: t admit_accounted)
  have "currentLimit (t\<lparr>am_settled := x\<rparr>) = currentLimit t" for x by (simp add: currentLimit_def)
  then show "currentLimit (admitEntry now e s) = currentLimit s" by (simp add: eq t del: admit_keeps(4))
  show "am_activeCost (admitEntry now e s) = am_activeCost s + e_cost e"
    "am_leaseSeq (admitEntry now e s) = am_leaseSeq s + 1"
    "am_config (admitEntry now e s) = am_config s" "am_shutDown (admitEntry now e s) = am_shutDown s"
    "am_queue (admitEntry now e s) = am_queue s" "am_lanes (admitEntry now e s) = am_lanes s"
    by (simp_all add: eq t)
qed

lemma rejectEntry_tracks:
  "adm_inv (rejectEntry code i s) = adm_inv s" "accounted (rejectEntry code i s) = add_mset i (accounted s)"
  "am_activeCost (rejectEntry code i s) = am_activeCost s" "am_leaseSeq (rejectEntry code i s) = am_leaseSeq s"
  "currentLimit (rejectEntry code i s) = currentLimit s" "am_config (rejectEntry code i s) = am_config s"
  "am_shutDown (rejectEntry code i s) = am_shutDown s" "am_queue (rejectEntry code i s) = am_queue s"
  "am_lanes (rejectEntry code i s) = am_lanes s"
  by (simp_all add: rejectEntry_def currentLimit_def)

lemma detach_tracks:
  "adm_inv (detachAbort i (clearEntryTimer j s)) = adm_inv s"
  "accounted (detachAbort i (clearEntryTimer j s)) = accounted s"
  "am_activeCost (detachAbort i (clearEntryTimer j s)) = am_activeCost s"
  "am_leaseSeq (detachAbort i (clearEntryTimer j s)) = am_leaseSeq s"
  "currentLimit (detachAbort i (clearEntryTimer j s)) = currentLimit s"
  "am_config (detachAbort i (clearEntryTimer j s)) = am_config s"
  "am_shutDown (detachAbort i (clearEntryTimer j s)) = am_shutDown s"
  "am_queue (detachAbort i (clearEntryTimer j s)) = am_queue s"
  "am_lanes (detachAbort i (clearEntryTimer j s)) = am_lanes s"
  by (simp_all add: detachAbort_def clearEntryTimer_def currentLimit_def)

lemmas entry_tracks = rejectEntry_tracks detach_tracks

lemma dispatchEntry_tracks:
  assumes "adm_inv s" and "0 < e_cost e"
  shows "adm_inv (snd (dispatchEntry now e s))
    \<and> accounted (snd (dispatchEntry now e s)) = add_mset (e_id e) (accounted s)
    \<and> am_activeCost (snd (dispatchEntry now e s)) \<le> am_activeCost s + e_cost e
    \<and> am_leaseSeq s \<le> am_leaseSeq (snd (dispatchEntry now e s))
    \<and> currentLimit (snd (dispatchEntry now e s)) = currentLimit s"
  using assms by (simp add: dispatchEntry_def Let_def entry_tracks admitEntry_tracks)

lemma removeEmptyLane_tracks:
  assumes "tracked A c d b n s"
  shows "tracked A c d b n (removeEmptyLane k s)"
proof (cases "map_get (am_lanes s) k")
  case None
  then show ?thesis using assms by (simp add: removeEmptyLane_def)
next
  case (Some la)
  have inv: "adm_inv s" using assms by (simp add: tracked_def)
  have wf: "map_wf (am_lanes s)" using inv by (simp add: adm_inv_def queues_ok_def)
  have q: "queue_inv (ln_queue la)" using lane_ok_get [OF inv Some] by (simp add: lane_ok_def)
  show ?thesis
  proof (cases "fq_count (ln_queue la) = 0")
    case True
    then have "work (ln_queue la) = {#}"
      using q count_zero_iff [OF q] order_nonempty_iff [of "ln_queue la"] by (simp add: queue_inv_def)
    then have "sum_values (\<lambda>la. work (ln_queue la)) (map_delete k (am_lanes s))
        = sum_values (\<lambda>la. work (ln_queue la)) (am_lanes s)"
      using sum_values_delete [OF wf Some, of "\<lambda>la. work (ln_queue la)"] by simp
    then have "accounted (s\<lparr>am_lanes := map_delete k (am_lanes s)\<rparr>) = accounted s"
      by (simp add: accounted_def waiting_def)
    moreover have "adm_inv (s\<lparr>am_lanes := map_delete k (am_lanes s)\<rparr>)"
      using inv wf by (intro adm_inv_lanes) (auto simp: map_wf_delete lane_ok_get split: if_splits)
    ultimately show ?thesis using assms True Some by (simp add: removeEmptyLane_def tracked_def)
  qed (use assms Some in \<open>simp add: removeEmptyLane_def\<close>)
qed

lemma currentLimit_le:
  assumes "tracked A c d b n s"
  shows "currentLimit s \<le> b"
  using assms by (auto simp: tracked_def adm_inv_def config_ok_def adaptation_inv_def currentLimit_def)

lemma dispatchEntry_tracked:
  assumes "tracked A c d b n s" and "adm_inv s1" and "accounted s = add_mset (e_id e) (accounted s1)"
    and "0 < e_cost e" and "e_cost e \<le> currentLimit s - am_activeCost s"
    and "am_config s1 = am_config s" "am_shutDown s1 = am_shutDown s" "am_activeCost s1 = am_activeCost s"
      "am_leaseSeq s1 = am_leaseSeq s"
  shows "tracked A c d b n (snd (dispatchEntry now e s1))"
  using dispatchEntry_tracks [OF assms(2,4), of now] currentLimit_le [OF assms(1)] assms
  by (auto simp: tracked_def)

lemma dispatchLoop_tracked:
  "tracked A c d b n s \<Longrightarrow> tracked A c d b n (snd (dispatchLoop now s))"
proof (induction now s rule: dispatchLoop.induct)
  case (1 now s)
  have inv: "adm_inv s" using "1.prems" by (simp add: tracked_def)
  let ?av = "currentLimit s - am_activeCost s"
  obtain r q' where d: "dequeue ?av (am_queue s) = (r, q')" by (cases "dequeue ?av (am_queue s)")
  show ?case
  proof (cases "0 < fq_count (am_queue s) \<and> 0 < ?av")
    case False
    then show ?thesis using "1.prems" by (auto simp: dispatchLoop.simps [of now s] Let_def)
  next
    case True
    show ?thesis
    proof (cases r)
      case None
      then have "q' = am_queue s"
        using deq_None_same [of "am_queue s"] d inv by (simp add: adm_inv_def queues_ok_def)
      then show ?thesis using True None d "1.prems" by (simp add: dispatchLoop.simps [of now s] Let_def)
    next
      case (Some e)
      note q = deq_shared [OF inv d [unfolded Some]]
      have "tracked A c d b n (snd (dispatchEntry now e (s\<lparr>am_queue := q'\<rparr>)))"
        by (rule dispatchEntry_tracked [OF "1.prems"]) (use q in auto)
      then show ?thesis
        using "1.IH" [OF _ refl _ d [symmetric] Some] True d Some
        by (simp add: dispatchLoop.simps [of now s] Let_def)
    qed
  qed
qed

lemma dispatchLane_tracked:
  "tracked A c d b n s \<Longrightarrow> tracked A c d b n (snd (dispatchLane now k s))"
proof (induction now k s rule: dispatchLane.induct)
  case (1 now k s)
  have inv: "adm_inv s" using "1.prems" by (simp add: tracked_def)
  let ?av = "currentLimit s - am_activeCost s"
  show ?case
  proof (cases "map_get (am_lanes s) k")
    case None
    then show ?thesis using "1.prems" by (simp add: dispatchLane.simps [of now k s])
  next
    case (Some la)
    obtain r q' where d: "dequeue ?av (ln_queue la) = (r, q')" by (cases "dequeue ?av (ln_queue la)")
    have q: "queue_inv (ln_queue la)" using lane_ok_get [OF inv Some] by (simp add: lane_ok_def)
    show ?thesis
    proof (cases "0 < fq_count (ln_queue la) \<and> 0 < ?av")
      case False
      then show ?thesis using "1.prems" Some by (auto simp: dispatchLane.simps [of now k s] Let_def)
    next
      case True
      show ?thesis
      proof (cases r)
        case None
        then have "q' = ln_queue la" using deq_None_same [OF q] d by simp
        then have "set_lane k (la\<lparr>ln_queue := q'\<rparr>) s = s"
          using Some by (simp add: set_lane_def map_set_same)
        then show ?thesis using True None d Some "1.prems" by (simp add: dispatchLane.simps [of now k s] Let_def)
      next
        case (Some e)
        let ?s = "set_lane k (la\<lparr>ln_queue := q'\<rparr>) s"
        note l = deq_lane [OF inv \<open>map_get (am_lanes s) k = Some la\<close> d [unfolded Some] refl]
        have "tracked A c d b n (snd (dispatchEntry now e ?s))"
          by (rule dispatchEntry_tracked [OF "1.prems"]) (use l in \<open>auto simp: set_lane_def\<close>)
        then show ?thesis
          using "1.IH" [OF \<open>map_get (am_lanes s) k = Some la\<close> _ refl _ d [symmetric] Some refl] True d Some
            \<open>map_get (am_lanes s) k = Some la\<close>
          by (simp add: dispatchLane.simps [of now k s] Let_def)
      qed
    qed
  qed
qed

lemma dispatchLanesOver_tracked:
  "tracked A c d b n s \<Longrightarrow> tracked A c d b n (dispatchLanesOver now ks s)"
proof (induction ks arbitrary: s)
  case (Cons k ks)
  have "tracked A c d b n (snd (dispatchLane now k s))" by (rule dispatchLane_tracked [OF Cons.prems])
  then show ?case
    using Cons removeEmptyLane_tracks by (auto simp: split_beta Let_def)
qed simp

lemma dispatch_tracked: "tracked A c d b n s \<Longrightarrow> tracked A c d b n (dispatch now s)"
  using dispatchLoop_tracked [of A c d b n s now] dispatchLanesOver_tracked
  by (auto simp: dispatch_def dispatchLanes_def Let_def split_beta)

subsection \<open>The shadow accounting changes nothing that is real\<close>

lemma leases_ok_cong:
  assumes "leases_ok s" and "am_active s' = am_active s" and "am_activeCost s' = am_activeCost s"
    and "am_leaseSeq s \<le> am_leaseSeq s'"
    and "\<And>i. map_option (\<lambda>r. (lr_cost r, lr_released r)) (map_get (am_records s') i)
           = map_option (\<lambda>r. (lr_cost r, lr_released r)) (map_get (am_records s) i)"
  shows "leases_ok s'"
proof -
  have c: "cost_of s' i = cost_of s i" for i
    using assms(5) [of i] by (auto simp: cost_of_def split: option.splits)
  have "(i \<in> set (am_active s') \<longleftrightarrow> \<not> lr_released r) \<and> 0 < lr_cost r \<and> (\<exists>n. i = LeaseId n \<and> n \<le> am_leaseSeq s')"
    if rec: "map_get (am_records s') i = Some r" for i r
  proof -
    obtain r0 where r0: "map_get (am_records s) i = Some r0" "lr_cost r0 = lr_cost r" "lr_released r0 = lr_released r"
      using assms(5) [of i] unfolding rec by (cases "map_get (am_records s) i") auto
    then show ?thesis using assms(1,2,4) unfolding leases_ok_def by (metis order_trans)
  qed
  moreover have "map_has (am_records s') i" if "i \<in> set (am_active s)" for i
  proof -
    have "map_has (am_records s) i" using assms(1) that by (simp add: leases_ok_def)
    then show ?thesis using assms(5) [of i] by auto
  qed
  moreover have "cost_of s' = cost_of s" using c by blast
  ultimately show ?thesis using assms(1-3) by (simp add: leases_ok_def)
qed

lemma set_disposition_tracked:
  assumes "tracked A c d b n s"
  shows "tracked A c d b n (set_disposition i disp s)"
proof (cases "map_get (am_records s) i")
  case (Some r)
  let ?s = "s\<lparr>am_records := map_set i (r\<lparr>lr_disposition := disp\<rparr>) (am_records s)\<rparr>"
  have "leases_ok s" using assms by (simp add: tracked_def adm_inv_def)
  then have "leases_ok ?s" by (rule leases_ok_cong) (simp_all add: Some)
  then have "adm_inv ?s" using assms by (auto simp: tracked_def adm_inv_def queues_ok_def)
  then have "tracked A c d b n ?s" using assms by (simp add: tracked_def)
  then show ?thesis using Some by (simp add: set_disposition_def)
qed (use assms in \<open>simp add: set_disposition_def\<close>)

lemma tracked_fields [simp]:
  "tracked A c d b n (s\<lparr>am_timers := t\<rparr>) = tracked A c d b n s"
  "tracked A c d b n (s\<lparr>am_listeners := l\<rparr>) = tracked A c d b n s"
  "tracked A c d b n (s\<lparr>am_rejectedCount := x\<rparr>) = tracked A c d b n s"
  "tracked A c d b n (s\<lparr>am_laneTimer := f\<rparr>) = tracked A c d b n s"
  "tracked A c d b n (s\<lparr>am_windowTimer := f\<rparr>) = tracked A c d b n s"
  "tracked A c d b n (s\<lparr>am_aborted := ab\<rparr>) = tracked A c d b n s"
  "tracked A c d b n (s\<lparr>am_virtualQueue := vq\<rparr>) = tracked A c d b n s"
  "tracked A c d b n (s\<lparr>am_virtualActiveCost := x\<rparr>) = tracked A c d b n s"
  "tracked A c d b n (s\<lparr>am_virtualActiveCount := x\<rparr>) = tracked A c d b n s"
  "tracked A c d b n (s\<lparr>am_lastSampleMs := x\<rparr>) = tracked A c d b n s"
  "tracked A c d b n (s\<lparr>am_wouldAdmitCount := x\<rparr>) = tracked A c d b n s"
  "tracked A c d b n (s\<lparr>am_wouldQueueCount := x\<rparr>) = tracked A c d b n s"
  "tracked A c d b n (s\<lparr>am_wouldRejectCount := x\<rparr>) = tracked A c d b n s"
  by (simp_all add: tracked_def)

lemma tracked_adaptation:
  "tracked A c d b n s \<Longrightarrow> adaptation_inv (vc_adaptation c) a \<Longrightarrow> tracked A c d b n (s\<lparr>am_adaptation := a\<rparr>)"
  using inv_adaptation by (simp add: tracked_def)

lemma tracked_sample: "tracked A c d b n s \<Longrightarrow> tracked A c d b n (sampleIntegral now s)"
  using sampleIntegral_inv accounted_cong [of "sampleIntegral now s" s] by (simp add: tracked_def)

lemma dispatchVirtual_tracked: "tracked A c d b n s \<Longrightarrow> tracked A c d b n (dispatchVirtual s)"
proof (induction s rule: dispatchVirtual.induct)
  case (1 s)
  let ?av = "currentLimit s - am_virtualActiveCost s"
  obtain r q' where d: "dequeue ?av (am_virtualQueue s) = (r, q')" by (cases "dequeue ?av (am_virtualQueue s)")
  show ?case
  proof (cases "0 < fq_count (am_virtualQueue s) \<and> 0 < ?av")
    case False
    then show ?thesis using "1.prems" by (auto simp: dispatchVirtual.simps [of s] Let_def)
  next
    case True
    show ?thesis
    proof (cases r)
      case None
      then show ?thesis using True d "1.prems" by (simp add: dispatchVirtual.simps [of s] Let_def)
    next
      case (Some e)
      let ?s = "s\<lparr>am_virtualQueue := q'\<rparr>"
      let ?rec = "if e_payload e \<in> set (am_active ?s) then map_get (am_records ?s) (e_payload e) else None"
      note IH = "1.IH" [OF _ refl _ d [symmetric] Some refl refl]
      have t: "tracked A c d b n ?s" using "1.prems" by simp
      show ?thesis
      proof (cases ?rec)
        case None
        then show ?thesis
          using IH(1) True t d Some by (simp add: dispatchVirtual.simps [of s] Let_def)
      next
        case rec: (Some rc)
        let ?t = "set_disposition (e_payload e) D_active ?s"
        have t2: "tracked A c d b n ?t" by (rule set_disposition_tracked [OF t])
        show ?thesis
        proof (cases "lr_released rc")
          case True
          then show ?thesis
            using IH(2) [OF _ _ rec] \<open>0 < fq_count (am_virtualQueue s) \<and> 0 < ?av\<close> t d Some rec
            by (simp add: dispatchVirtual.simps [of s] Let_def)
        next
          case False
          then show ?thesis
            using IH(3) [OF _ _ rec _ refl] \<open>0 < fq_count (am_virtualQueue s) \<and> 0 < ?av\<close> t2 d Some rec
            by (simp add: dispatchVirtual.simps [of s] Let_def)
        qed
      qed
    qed
  qed
qed

lemma releaseVirtual_tracked: "tracked A c d b n s \<Longrightarrow> tracked A c d b n (releaseVirtual i s)"
  by (auto simp: releaseVirtual_def Let_def intro!: dispatchVirtual_tracked set_disposition_tracked
      split: option.split)

lemma foldl_tracked:
  "(\<And>s x. tracked A c d b n s \<Longrightarrow> tracked A c d b n (f s x)) \<Longrightarrow> tracked A c d b n s \<Longrightarrow>
     tracked A c d b n (foldl f s xs)"
  by (induction xs arbitrary: s) auto

lemma rebuildRecord_tracked: "tracked A c d b n s \<Longrightarrow> tracked A c d b n (rebuildRecord s i)"
  by (auto simp: rebuildRecord_def Let_def split_beta intro!: set_disposition_tracked split: option.split)

lemma rebuildVirtualState_tracked: "tracked A c d b n s \<Longrightarrow> tracked A c d b n (rebuildVirtualState en s)"
  by (auto simp: rebuildVirtualState_def Let_def intro!: foldl_tracked rebuildRecord_tracked set_disposition_tracked)

subsection \<open>Releasing a lease\<close>

lemma release_leases:
  assumes "leases_ok s" and "map_get (am_records s) i = Some r" and "\<not> lr_released r"
    and "s' = s\<lparr>am_records := map_set i (r\<lparr>lr_released := True\<rparr>) (am_records s),
               am_active := removeAll i (am_active s), am_activeCost := am_activeCost s - lr_cost r\<rparr>"
  shows "leases_ok s'"
proof -
  have i: "i \<in> set (am_active s)" and dist: "distinct (am_active s)"
    using assms(1-3) by (auto simp: leases_ok_def)
  have costs: "map (cost_of s') (remove1 i (am_active s)) = map (cost_of s) (remove1 i (am_active s))"
    using dist by (intro map_cong) (auto simp: cost_of_def assms(4))
  have act: "am_active s' = remove1 i (am_active s)" "am_activeCost s' = am_activeCost s - lr_cost r"
    using dist by (simp_all add: assms(4) distinct_remove1_removeAll)
  have "am_activeCost s = cost_of s i + sum_list (map (cost_of s) (remove1 i (am_active s)))"
    using sum_list_map_remove1 [OF i, of "cost_of s"] assms(1) by (simp add: leases_ok_def)
  moreover have "cost_of s i = lr_cost r" using assms(2) by (simp add: cost_of_def)
  ultimately have "am_activeCost s' = sum_list (map (cost_of s') (am_active s'))"
    unfolding act costs by simp
  moreover have "(j \<in> set (am_active s') \<longleftrightarrow> \<not> lr_released q) \<and> 0 < lr_cost q
      \<and> (\<exists>n. j = LeaseId n \<and> n \<le> am_leaseSeq s')" if "map_get (am_records s') j = Some q" for j q
  proof (cases "j = i")
    case True
    moreover have "0 < lr_cost r \<and> (\<exists>n. i = LeaseId n \<and> n \<le> am_leaseSeq s)"
      using assms(1,2) unfolding leases_ok_def by blast
    ultimately show ?thesis using that by (auto simp: assms(4))
  next
    case False
    then have "map_get (am_records s) j = Some q" using that by (simp add: assms(4))
    then have "(j \<in> set (am_active s) \<longleftrightarrow> \<not> lr_released q) \<and> 0 < lr_cost q \<and> (\<exists>n. j = LeaseId n \<and> n \<le> am_leaseSeq s)"
      using assms(1) unfolding leases_ok_def by blast
    then show ?thesis using False by (simp add: assms(4))
  qed
  moreover have "distinct (am_active s')" "\<forall>j \<in> set (am_active s'). map_has (am_records s') j"
    using dist assms(1) by (auto simp: assms(4) leases_ok_def distinct_removeAll)
  ultimately show ?thesis unfolding leases_ok_def by blast
qed

lemma releaseLease_tracked:
  assumes "tracked A c d b n s"
  shows "tracked A c d b n (releaseLease now i oc lat pr s)"
proof (cases "map_get (am_records s) i")
  case (Some r)
  show ?thesis
  proof (cases "lr_released r")
    case False
    let ?s0 = "s\<lparr>am_records := map_set i (r\<lparr>lr_released := True\<rparr>) (am_records s)\<rparr>"
    let ?s2 = "(sampleIntegral now ?s0)\<lparr>am_active := removeAll i (am_active s),
        am_activeCost := am_activeCost s - lr_cost r\<rparr>"
    have inv: "adm_inv s" using assms by (simp add: tracked_def)
    have ok: "params_ok (vc_adaptation c)" using assms by (auto simp: tracked_def adm_inv_def config_ok_def)
    have i: "i \<in> set (am_active s)" and pos: "0 < lr_cost r"
      using inv Some False unfolding adm_inv_def leases_ok_def by blast+
    let ?r = "s\<lparr>am_records := map_set i (r\<lparr>lr_released := True\<rparr>) (am_records s),
               am_active := removeAll i (am_active s), am_activeCost := am_activeCost s - lr_cost r\<rparr>"
    have "leases_ok ?r"
      using inv Some False by (intro release_leases [OF _ _ _ refl]) (auto simp: adm_inv_def)
    then have "leases_ok ?s2"
      by (rule leases_ok_cong) simp_all
    moreover have "sampleIntegral now ?s0
        = (sampleIntegral now s)\<lparr>am_records := map_set i (r\<lparr>lr_released := True\<rparr>) (am_records s)\<rparr>"
      by (simp add: sampleIntegral_def Let_def currentLimit_def)
    then have ad: "am_adaptation ?s2 = am_adaptation (sampleIntegral now s)" by simp
    have "adm_inv (sampleIntegral now s)" by (rule sampleIntegral_inv [OF inv])
    ultimately have inv2: "adm_inv ?s2"
      by (auto simp: adm_inv_def queues_ok_def ad)
    have acc: "accounted ?s2 = accounted s" by (rule accounted_cong) simp_all
    have t2: "tracked A c d b n ?s2" using assms inv2 acc pos by (simp add: tracked_def)
    have "adaptation_inv (vc_adaptation c) (am_adaptation ?s2)"
      using t2 unfolding tracked_def adm_inv_def by blast
    note step = adaptation.step_inv [of "vc_adaptation c", OF _ ok]
    define lt where "lt = (if lat \<noteq> Undefined then lat else Number (of_int (max 0 (now - lr_admittedAtMs r))))"
    define a3 where "a3 = (let a2 = noteOutcome oc (noteLatency lt (vc_adaptation c) (am_adaptation ?s2))
        in a2\<lparr>as_windowCompleted := as_windowCompleted a2 + 1\<rparr>)"
    define a4 where "a4 = (case pr of None \<Rightarrow> a3 | Some x \<Rightarrow> setPressure x a3)"
    have a3: "adaptation_inv (vc_adaptation c) a3"
      using step [of _ Complete] step [of _ "Outcome oc"] step [of _ "Latency lt"]
        \<open>adaptation_inv (vc_adaptation c) (am_adaptation ?s2)\<close>
      by (simp add: a3_def Let_def)
    then have a4: "adaptation_inv (vc_adaptation c) a4"
      using step [of a3 "Pressure p" for p] by (cases pr) (simp_all add: a4_def)
    have "am_config s = c" using assms by (simp add: tracked_def)
    then have "releaseLease now i oc lat pr s = dispatch now (releaseVirtual i (?s2\<lparr>am_adaptation := a4\<rparr>))"
      using Some False i by (cases pr) (simp_all add: releaseLease_def Let_def a4_def a3_def lt_def)
    then show ?thesis
      using dispatch_tracked [OF releaseVirtual_tracked [OF tracked_adaptation [OF t2 a4]]] by simp
  qed (use assms Some in \<open>simp add: releaseLease_def\<close>)
qed (use assms in \<open>simp add: releaseLease_def\<close>)

subsection \<open>Entries that leave without being admitted\<close>

lemma failQueued_tracks [simp]:
  "adm_inv (failQueued code e s) = adm_inv s"
  "accounted (failQueued code e s) = add_mset (e_id e) (accounted s)"
  "am_activeCost (failQueued code e s) = am_activeCost s" "am_leaseSeq (failQueued code e s) = am_leaseSeq s"
  "am_config (failQueued code e s) = am_config s" "am_shutDown (failQueued code e s) = am_shutDown s"
  "am_queue (failQueued code e s) = am_queue s" "am_lanes (failQueued code e s) = am_lanes s"
  "am_settled (failQueued code e s) = am_settled s @ [(e_id e, Rejected_with code)]"
  "am_active (failQueued code e s) = am_active s" "am_windowTimer (failQueued code e s) = am_windowTimer s"
  by (simp_all add: failQueued_def entry_tracks) (simp_all add: rejectEntry_def detachAbort_def clearEntryTimer_def)

lemma fail_all:
  assumes "adm_inv s" and "s' = foldl (\<lambda>s e. failQueued code e s) s es"
  shows "adm_inv s' \<and> accounted s' = accounted s + image_mset e_id (mset es)
    \<and> am_config s' = am_config s \<and> am_shutDown s' = am_shutDown s \<and> am_activeCost s' = am_activeCost s
    \<and> am_leaseSeq s' = am_leaseSeq s \<and> am_queue s' = am_queue s \<and> am_lanes s' = am_lanes s
    \<and> am_settled s' = am_settled s @ map (\<lambda>e. (e_id e, Rejected_with code)) es
    \<and> am_active s' = am_active s \<and> am_windowTimer s' = am_windowTimer s"
  using assms
proof (induction es arbitrary: s s')
  case (Cons e es)
  have "adm_inv (failQueued code e s)" using Cons.prems(1) by simp
  from Cons.IH [OF this refl] show ?case unfolding Cons.prems(2) foldl.simps by simp
qed simp

lemma ids_of_drain:
  assumes "queue_inv q" and "fq_maxCost q \<le> MAX_SAFE_INTEGER"
  shows "image_mset e_id (mset (fst (drain q))) = image_mset e_id (work q)"
proof -
  have "image_mset core (mset (fst (drain q))) = work q"
    using drain_loop_spec [OF assms] by (simp add: drain_def split_beta)
  then have "image_mset e_id (image_mset core (mset (fst (drain q)))) = image_mset e_id (work q)" by simp
  then show ?thesis by (simp add: image_mset.compositionality comp_def)
qed

lemma drained_queue:
  assumes "queue_inv q" and "fq_maxCost q \<le> MAX_SAFE_INTEGER"
  shows "snd (drain q) = new_queue (fq_maxCount q) (fq_maxCost q)"
  using drain_loop_spec [OF assms] by (simp add: drain_def split_beta) (simp add: new_queue_def)

lemma drain_pos:
  assumes "queue_inv q" and "fq_maxCost q \<le> MAX_SAFE_INTEGER" and "e \<in> set (fst (drain q))"
  shows "0 < e_cost e"
proof -
  have "image_mset core (mset (fst (drain q))) = work q"
    using drain_loop_spec [OF assms(1,2)] by (simp add: drain_def split_beta)
  then have "core e \<in># work q" using assms(3) by (metis image_eqI set_image_mset set_mset_mset)
  then obtain x where "x \<in> set (contents q)" "core x = core e" by (auto simp: work_def)
  then show ?thesis
    using assms(1) in_contents_iff [of q x] core_simps(3) unfolding queue_inv_def entries_ok_def by metis
qed

lemma deleteLane_tracked:
  assumes "tracked A c d b n s"
  shows "tracked A c d b n (deleteLane k s)"
proof (cases "map_get (am_lanes s) k")
  case (Some la)
  let ?es = "fst (drain (ln_queue la))"
  have inv: "adm_inv s" using assms by (simp add: tracked_def)
  have wf: "map_wf (am_lanes s)" using inv by (simp add: adm_inv_def queues_ok_def)
  have q: "queue_inv (ln_queue la)" "fq_maxCost (ln_queue la) \<le> MAX_SAFE_INTEGER"
    using lane_ok_get [OF inv Some] by (simp_all add: lane_ok_def)
  define t where "t = foldl (\<lambda>s e. failQueued ADMISSION_LANE_EVICTED e s) s ?es"
  note f = fail_all [OF inv t_def]
  have "sum_values (\<lambda>la. work (ln_queue la)) (map_delete k (am_lanes s)) + work (ln_queue la)
      = sum_values (\<lambda>la. work (ln_queue la)) (am_lanes s)"
    by (rule sum_values_delete [OF wf Some])
  then have w: "waiting s = waiting (s\<lparr>am_lanes := map_delete k (am_lanes s)\<rparr>) + work (ln_queue la)"
    by (simp add: waiting_def)
  have "accounted (t\<lparr>am_lanes := map_delete k (am_lanes s)\<rparr>) = accounted s"
    using f ids_of_drain [OF q] w unfolding accounted_def waiting_def
    by (simp add: ac_simps image_mset.compositionality comp_def)
  moreover have "adm_inv (t\<lparr>am_lanes := map_delete k (am_lanes s)\<rparr>)"
    using f inv wf by (intro adm_inv_lanes) (auto simp: map_wf_delete lane_ok_get split: if_splits)
  ultimately show ?thesis
    using assms f Some by (simp add: deleteLane_def tracked_def t_def)
qed (use assms in \<open>simp add: deleteLane_def\<close>)

lemma evictIdleLanes_tracked: "tracked A c d b n s \<Longrightarrow> tracked A c d b n (evictIdleLanes now s)"
  by (simp add: evictIdleLanes_def Let_def foldl_tracked deleteLane_tracked)

lemma removed_shared:
  assumes "tracked A c d b n s" and "removeById i (am_queue s) = (Some e, q')"
  shows "tracked A c d b n (failQueued code e (s\<lparr>am_queue := q'\<rparr>))"
proof -
  have inv: "adm_inv s" using assms by (simp add: tracked_def)
  have q: "queue_inv (am_queue s)" "fq_maxCost (am_queue s) \<le> MAX_SAFE_INTEGER"
    using inv by (simp_all add: adm_inv_def queues_ok_def)
  have r: "queue_inv q'" "work (am_queue s) = add_mset (core e) (work q')" "fq_maxCost q' = fq_maxCost (am_queue s)"
    using removeById_spec [OF q(1), of i] assms(2) by auto
  show ?thesis
    using assms(1) adm_inv_queue [OF inv r(1)] accounted_queue [OF r(2)] q(2) r(3)
    by (simp add: tracked_def entry_tracks)
qed

lemma removed_lane:
  assumes "tracked A c d b n s" and "removeFromLanes i ks s = (Some e, s')"
  shows "tracked A c d b n (failQueued code e s')"
  using assms(2)
proof (induction ks)
  case (Cons k ks)
  have inv: "adm_inv s" using assms(1) by (simp add: tracked_def)
  show ?case
  proof (cases "map_get (am_lanes s) k")
    case None
    then show ?thesis using Cons by simp
  next
    case (Some la)
    have ok: "lane_ok k la" using lane_ok_get [OF inv Some] .
    then have q: "queue_inv (ln_queue la)" by (simp add: lane_ok_def)
    show ?thesis
      using removeById_spec [OF q, of i]
    proof (elim disjE exE conjE)
      assume "removeById i (ln_queue la) = (None, ln_queue la)"
      then show ?thesis using Cons Some by simp
    next
      fix x q' t j
      assume *: "removeById i (ln_queue la) = (Some x, q')" "queue_inv q'"
        "work (ln_queue la) = add_mset (core x) (work q')"
        "bucket_of q' = (bucket_of (ln_queue la))
           (t := take j (bucket_of (ln_queue la) t) @ drop (Suc j) (bucket_of (ln_queue la) t))"
        "fq_maxCost q' = fq_maxCost (ln_queue la)"
      let ?la = "la\<lparr>ln_queue := q'\<rparr>"
      have "lane_ok k ?la" using ok * by (auto simp: lane_ok_def)
      then have i2: "adm_inv (set_lane k ?la s)" by (rule adm_inv_set_lane [OF inv])
      have acc: "accounted s = add_mset (e_id x) (accounted (set_lane k ?la s))"
        by (rule accounted_set_lane [OF Some]) (use * in simp)
      define B where "B = accounted (set_lane k ?la s)"
      have "tracked B c d b n (set_lane k ?la s)"
        using assms(1) i2 by (simp add: tracked_def B_def) (simp add: set_lane_def)
      from removeEmptyLane_tracks [OF this, of "e_tenantKey x"]
      have "tracked (add_mset (e_id x) B) c d b n
          (failQueued code x (removeEmptyLane (e_tenantKey x) (set_lane k ?la s)))"
        by (simp add: tracked_def entry_tracks)
      moreover have "A = add_mset (e_id x) B" using acc assms(1) by (simp add: B_def tracked_def)
      ultimately show ?thesis using Cons.prems Some * by auto
    qed
  qed
qed simp

lemma expireEntry_tracked:
  assumes "tracked A c d b n s"
  shows "tracked A c d b n (expireEntry now i code s)"
proof (cases "removeById i (am_queue s)")
  case (Pair r q')
  show ?thesis
  proof (cases r)
    case (Some e)
    then show ?thesis
      using removed_shared [OF assms, of i e q' code] Pair dispatch_tracked by (simp add: expireEntry_def)
  next
    case None
    obtain f t where ft: "removeFromLanes i (map fst (am_lanes s)) s = (f, t)" by fastforce
    show ?thesis
    proof (cases f)
      case None
      then show ?thesis using \<open>r = None\<close> Pair ft assms by (simp add: expireEntry_def)
    next
      case (Some e)
      then show ?thesis
        using \<open>r = None\<close> Pair ft removed_lane [OF assms ft [unfolded Some], of code] dispatch_tracked
        by (simp add: expireEntry_def)
    qed
  qed
qed

subsection \<open>Requests\<close>

lemma config_costs:
  assumes "tracked A c d b n s"
  shows "vc_maxQueueCost c \<le> MAX_SAFE_INTEGER" "0 \<le> vc_maxQueueCost c" "0 \<le> vc_maxQueueCount c"
proof -
  have "config_ok c" using assms by (auto simp: tracked_def adm_inv_def)
  moreover have "MAX_ADMISSION_COST_OR_LIMIT \<le> MAX_SAFE_INTEGER"
    by (simp add: MAX_ADMISSION_COST_OR_LIMIT_def MAX_SAFE_INTEGER_def MAX_ADMISSION_WINDOW_MS_def)
  ultimately show "vc_maxQueueCost c \<le> MAX_SAFE_INTEGER" "0 \<le> vc_maxQueueCost c" "0 \<le> vc_maxQueueCount c"
    by (simp_all add: config_ok_def)
qed

lemma tracked_set_lane:
  assumes "tracked A c d b n s" and "lane_ok k la"
    and "accounted (set_lane k la s) = A'"
  shows "tracked A' c d b n (set_lane k la s)"
  using assms adm_inv_set_lane [of s k la] by (simp add: tracked_def) (simp add: set_lane_def)

lemma deleteLane_absent: "map_get (am_lanes s) k = None \<Longrightarrow> map_get (am_lanes (deleteLane j s)) k = None"
  by (simp add: deleteLane_def split: option.split)

lemma getOrCreateLane_tracked:
  assumes "tracked A c d b n s" and "getOrCreateLane now k s = (la, s')"
  shows "tracked A c d b n s' \<and> map_get (am_lanes s') k = Some la \<and> lane_ok k la \<and> am_leaseSeq s \<le> am_leaseSeq s'"
proof (cases "map_get (am_lanes s) k")
  case (Some l0)
  have inv: "adm_inv s" using assms by (simp add: tracked_def)
  have la: "la = l0\<lparr>ln_lastUsedMs := now\<rparr>" "s' = set_lane k la s"
    using assms(2) Some by (auto simp: getOrCreateLane_def Let_def)
  have ok: "lane_ok k la" using lane_ok_get [OF inv Some] by (simp add: la lane_ok_def)
  have "sum_values (\<lambda>la. work (ln_queue la)) (map_set k la (am_lanes s))
      = sum_values (\<lambda>la. work (ln_queue la)) (am_lanes s)"
    using sum_values_set [OF Some, of "\<lambda>la. work (ln_queue la)" la] by (simp add: la)
  then have "accounted s' = A" using assms(1) by (simp add: la(2) accounted_def waiting_def set_lane_def tracked_def)
  then show ?thesis
    using tracked_set_lane [OF assms(1) ok] ok la(2) by (simp add: set_lane_def)
next
  case None
  define s1 where "s1 = (if ADMISSION_LANE_MAX_SESSIONS \<le> length (am_lanes s) then
                      (case oldestLaneKey s of
                         None \<Rightarrow> s
                       | Some old \<Rightarrow> if old = [] then s else deleteLane old s)
                    else s)"
  have t1: "tracked A c d b n s1"
    using assms(1) deleteLane_tracked by (auto simp: s1_def split: option.split)
  have tn: "tracked A c d b (am_leaseSeq s) s" using assms(1) by (simp add: tracked_def)
  have "tracked A c d b (am_leaseSeq s) s1"
    using tn deleteLane_tracked by (auto simp: s1_def split: option.split)
  then have seq: "am_leaseSeq s \<le> am_leaseSeq s1" by (simp add: tracked_def)
  have c: "am_config s1 = c" using t1 by (simp add: tracked_def)
  have none: "map_get (am_lanes s1) k = None"
    using None by (auto simp: s1_def deleteLane_absent split: option.split)
  have la: "la = \<lparr>ln_queue = new_queue (vc_maxQueueCount c) (vc_maxQueueCost c), ln_lastUsedMs = now\<rparr>"
    "s' = set_lane k la s1"
    using assms(2) None c by (auto simp: getOrCreateLane_def Let_def s1_def)
  have ok: "lane_ok k la"
    using config_costs [OF assms(1)] new_queue_inv [of "vc_maxQueueCount c" "vc_maxQueueCost c"]
    by (simp add: la lane_ok_def) (simp add: new_queue_def bucket_of_def)
  have "accounted s' = A"
    using t1 sum_values_fresh [OF none, of "\<lambda>la. work (ln_queue la)" la]
    by (simp add: la accounted_def waiting_def set_lane_def tracked_def)
  then show ?thesis using tracked_set_lane [OF t1 ok] ok la(2) seq by (simp add: set_lane_def)
qed

lemma enqueue_lane:
  assumes "lane_ok k la" and "enqueue e (ln_queue la) = (True, q')" and "e_tenantKey e = k" and "e_skipCount e = 0"
  shows "lane_ok k (la\<lparr>ln_queue := q'\<rparr>) \<and> work q' = add_mset (core e) (work (ln_queue la))"
  using enqueue_spec [of "ln_queue la" e] assms by (auto simp: lane_ok_def)

lemma accounted_grow_lane:
  assumes "map_get (am_lanes s) k = Some la" and "work (ln_queue la') = add_mset (core e) (work (ln_queue la))"
  shows "accounted (set_lane k la' s) = add_mset (e_id e) (accounted s)"
proof -
  let ?f = "\<lambda>la. work (ln_queue la)"
  have "sum_values ?f (map_set k la' (am_lanes s)) + ?f la = sum_values ?f (am_lanes s) + ?f la'"
    by (rule sum_values_set [OF assms(1)])
  then have "sum_values ?f (map_set k la' (am_lanes s)) = add_mset (core e) (sum_values ?f (am_lanes s))"
    using assms(2) by simp
  then show ?thesis by (simp add: accounted_def waiting_def set_lane_def)
qed

lemma tracked_enqueue:
  assumes "tracked A c d b n s" and "enqueue e (am_queue s) = (True, q')" and "e_skipCount e = 0"
  shows "tracked (add_mset (e_id e) A) c d b n (s\<lparr>am_queue := q'\<rparr>)"
proof -
  have inv: "adm_inv s" using assms by (simp add: tracked_def)
  have q: "queue_inv (am_queue s)" "fq_maxCost (am_queue s) \<le> MAX_SAFE_INTEGER"
    using inv by (simp_all add: adm_inv_def queues_ok_def)
  note e = enqueue_spec [OF q(1) assms(3), unfolded assms(2), simplified]
  have "adm_inv (s\<lparr>am_queue := q'\<rparr>)" using adm_inv_queue [OF inv] e q(2) by simp
  moreover have "accounted (s\<lparr>am_queue := q'\<rparr>) = add_mset (e_id e) (accounted s)"
    using e by (simp add: accounted_def waiting_def)
  ultimately show ?thesis using assms(1) by (simp add: tracked_def)
qed

lemma tracked_seq:
  assumes "tracked A c d b n s" and "n' \<le> am_leaseSeq s + 1"
  shows "tracked A c d b n' (s\<lparr>am_leaseSeq := am_leaseSeq s + 1\<rparr>)"
proof -
  have "leases_ok s" using assms by (simp add: tracked_def adm_inv_def)
  then have "leases_ok (s\<lparr>am_leaseSeq := am_leaseSeq s + 1\<rparr>)" by (rule leases_ok_cong) simp_all
  then show ?thesis using assms by (auto simp: tracked_def adm_inv_def queues_ok_def)
qed

text \<open>Which id a result leaves waiting.\<close>

fun queued_ids :: "range_error + acquire_result \<Rightarrow> adm_id multiset" where
  "queued_ids (Inr (Queued i)) = {#i#}"
| "queued_ids _ = {#}"

lemma placeEntry_tracked:
  assumes "tracked A c d b n s" and "e_skipCount e = 0" and "placeEntry now e s = (placed, s')"
  shows "tracked (if placed then add_mset (e_id e) A else A) c d b n s'"
proof (cases "e_tenantKey e \<noteq> ''_default'' \<and> vc_virtualLanes (am_config s)")
  case True
  let ?k = "e_tenantKey e"
  obtain la s2 where g: "getOrCreateLane now ?k s = (la, s2)" by fastforce
  obtain ok q' where q: "enqueue e (ln_queue la) = (ok, q')" by fastforce
  note gt = getOrCreateLane_tracked [OF assms(1) g]
  show ?thesis
  proof (cases ok)
    case ok: True
    have "enqueue e (ln_queue la) = (True, q')" using q ok by simp
    note el = enqueue_lane [OF _ this refl assms(2)]
    have "tracked (add_mset (e_id e) A) c d b n (set_lane ?k (la\<lparr>ln_queue := q'\<rparr>) s2)"
    proof (rule tracked_set_lane)
      show "tracked A c d b n s2" using gt by blast
      show "lane_ok ?k (la\<lparr>ln_queue := q'\<rparr>)" using el gt by blast
      have "accounted (set_lane ?k (la\<lparr>ln_queue := q'\<rparr>) s2) = add_mset (e_id e) (accounted s2)"
        by (rule accounted_grow_lane) (use gt el in auto)
      then show "accounted (set_lane ?k (la\<lparr>ln_queue := q'\<rparr>) s2) = add_mset (e_id e) A"
        using gt by (simp add: tracked_def)
    qed
    then show ?thesis using assms(3) True ok g q by (auto simp: placeEntry_def Let_def)
  next
    case False
    then show ?thesis
      using assms(3) g q gt removeEmptyLane_tracks True by (auto simp: placeEntry_def Let_def)
  qed
next
  case False
  obtain ok q' where q: "enqueue e (am_queue s) = (ok, q')" by fastforce
  have pl: "placeEntry now e s = (if ok then (True, s\<lparr>am_queue := q'\<rparr>) else (False, s))"
    unfolding placeEntry_def Let_def using False q by (simp only: if_False split_conv)
  show ?thesis
    using tracked_enqueue [OF assms(1) _ assms(2), of q'] q assms(1,3) unfolding pl by (cases ok) auto
qed

lemma enqueueRequest_tracked:
  assumes "tracked A c d b n s" and "enqueueRequest now rq cost s = (r, s')"
  shows "tracked (queued_ids r + A) c d b n s'
    \<and> (\<forall>i. r = Inr (Queued i) \<longrightarrow> i = QId (am_leaseSeq s + 1) \<and> am_leaseSeq s + 1 \<le> am_leaseSeq s')"
proof -
  let ?i = "QId (am_leaseSeq s + 1)" and ?s = "s\<lparr>am_leaseSeq := am_leaseSeq s + 1\<rparr>"
  let ?n = "max n (am_leaseSeq s + 1)"
  have le: "n \<le> am_leaseSeq s" using assms by (simp add: tracked_def)
  have ts: "tracked A c d b ?n ?s" using assms(1) le by (intro tracked_seq) simp_all
  have down: "tracked B c d b n x" if "tracked B c d b ?n x" for B x using that by (simp add: tracked_def)
  show ?thesis
  proof (cases "maxWaitOf rq ?s")
    case (Inl err)
    then have "r = Inl err" "s' = ?s" using assms(2) by (auto simp: enqueueRequest_def Let_def)
    then show ?thesis using down [OF ts] by simp
  next
    case (Inr w)
    define e :: adm_entry where "e = \<lparr>e_id = ?i, e_tenantKey = tenant_or_default (rq_tenantKey rq), e_cost = cost,
                          e_enqueuedAtMs = now, e_deadlineMs = min MAX_SAFE_INTEGER (now + w),
                          e_payload = rq_signal rq, e_skipCount = 0\<rparr>"
    obtain placed s1 where p: "placeEntry now e ?s = (placed, s1)" by fastforce
    have t1: "tracked (if placed then add_mset ?i A else A) c d b ?n s1"
      using placeEntry_tracked [OF ts _ p] by (cases placed) (simp_all add: e_def)
    have er: "enqueueRequest now rq cost s = (if \<not> placed then apfst Inr (reject_now ADMISSION_QUEUE_FULL s1)
        else (Inr (Queued ?i), dispatch now (installWaiters ?i (rq_signal rq) (dispatch now s1))))"
      using Inr p by (simp add: enqueueRequest_def Let_def e_def)
    show ?thesis
    proof (cases placed)
      case False
      then have "r = Inr (Rejected ADMISSION_QUEUE_FULL)" "s' = s1\<lparr>am_rejectedCount := am_rejectedCount s1 + 1\<rparr>"
        using assms(2) by (simp_all add: er reject_now_def)
      then show ?thesis using down t1 False by simp
    next
      case True
      have "tracked (add_mset ?i A) c d b ?n (dispatch now s1)" using dispatch_tracked t1 True by simp
      then have "tracked (add_mset ?i A) c d b ?n (installWaiters ?i (rq_signal rq) (dispatch now s1))"
        by (cases "rq_signal rq") (simp_all add: installWaiters_def Let_def)
      then have f: "tracked (add_mset ?i A) c d b ?n
          (dispatch now (installWaiters ?i (rq_signal rq) (dispatch now s1)))" by (rule dispatch_tracked)
      have rs: "r = Inr (Queued ?i)" "s' = dispatch now (installWaiters ?i (rq_signal rq) (dispatch now s1))"
        using assms(2) True unfolding er by simp_all
      have "am_leaseSeq s + 1 \<le> am_leaseSeq s'" using f unfolding rs by (simp add: tracked_def)
      then show ?thesis using down [OF f] unfolding rs by simp
    qed
  qed
qed

lemma resolveCost_pos: "resolveCost rq s = Inr cost \<Longrightarrow> 0 < cost"
proof -
  assume r: "resolveCost rq s = Inr cost"
  show ?thesis
  proof (cases "rq_cost rq = Undefined")
    case False
    then show ?thesis
      using r by (auto simp: resolveCost_def normalizeRequestCost_def bindE_Inr_iff
          dest!: requirePositiveSafeInteger_Inr)
  next
    case True
    show ?thesis
    proof (cases "rq_features rq")
      case None
      then show ?thesis using r True by (simp add: resolveCost_def)
    next
      case (Some f)
      then have e: "estimateAdmissionCost f (as_partial (vc_costConfig (am_config s))) = Inr cost"
        using r True by (simp add: resolveCost_def)
      then obtain cfg where cfg: "resolveCostConfig (as_partial (vc_costConfig (am_config s))) = Inr cfg"
        by (auto simp: estimateAdmissionCost_def bindE_Inr_iff)
      then have ok: "cost_config_ok cfg" by (rule resolveCostConfig_ok)
      have "add_contributions (maxRequestCost cfg) (min (baseCost cfg) (maxRequestCost cfg)) (contributions f cfg)
          = min (maxRequestCost cfg) (min (baseCost cfg) (maxRequestCost cfg) + sum_list (contributions f cfg))"
        using contributions_nonneg [OF ok] by (intro add_contributions_sum) auto
      moreover have "0 \<le> sum_list (contributions f cfg)"
        using contributions_nonneg [OF ok] by (intro sum_list_nonneg) blast
      ultimately show ?thesis using e cfg ok by (auto simp: estimateAdmissionCost_def cost_config_ok_def)
    qed
  qed
qed

lemma admit_tracked:
  assumes "tracked A c d b n s" and "0 < cost" and "am_activeCost s + cost \<le> b'" and "b \<le> b'"
  shows "tracked A c d b' n (snd (admit now cost disp s))"
  using assms admit_inv [of s cost now disp] by (simp add: tracked_def admit_accounted)

lemma tracked_weaken: "tracked A c d b n s \<Longrightarrow> b \<le> b' \<Longrightarrow> tracked A c d b' n s"
  by (simp add: tracked_def)

lemma active_empty_cost: "tracked A c d b n s \<Longrightarrow> am_active s = [] \<Longrightarrow> am_activeCost s = 0"
  by (simp add: tracked_def adm_inv_def leases_ok_def)

text \<open>
  A request is accounted for; in enforce mode the active cost stays within a bound that is at
  least the maximum limit, and in the other modes it grows by what was admitted.
\<close>

lemma acquire_tracked:
  assumes t: "tracked A c d b n s" and r: "acquire now rq s = (r, s')"
  shows "\<exists>b'. tracked (queued_ids r + A) c d b' n s' \<and> (vc_mode c = Enforce \<longrightarrow> b' = b)
    \<and> (\<forall>i. r = Inr (Queued i) \<longrightarrow> i = QId (am_leaseSeq s + 1) \<and> am_leaseSeq s + 1 \<le> am_leaseSeq s')"
proof -
  have c: "am_config s = c" and le: "vc_maxLimit c \<le> b" using t by (simp_all add: tracked_def)
  define s1 where "s1 = (case rq_pressure rq of None \<Rightarrow> s
      | Some pr \<Rightarrow> s\<lparr>am_adaptation := setPressure pr (am_adaptation s)\<rparr>)"
  have ok: "params_ok (vc_adaptation c)" using t by (auto simp: tracked_def adm_inv_def config_ok_def)
  have "adaptation_inv (vc_adaptation c) (am_adaptation s)" using t by (auto simp: tracked_def adm_inv_def)
  then have ai: "adaptation_inv (vc_adaptation c) (setPressure pr (am_adaptation s))" for pr
    using adaptation.step_inv [OF _ ok, of "am_adaptation s" "Pressure pr"] by simp
  have t1: "tracked A c d b n s1"
    using t tracked_adaptation [OF t ai] by (simp add: s1_def split: option.split)
  have s1c: "am_config s1 = c" "am_leaseSeq s1 = am_leaseSeq s"
    using t1 by (simp_all add: tracked_def s1_def split: option.split)
  consider (early) code where "acquire now rq s = apfst Inr (reject_now code s)"
    | (go) "acquire now rq s = (case resolveCost rq s1 of
             Inl err \<Rightarrow> (Inl err, s1)
           | Inr cost \<Rightarrow>
               let limit = currentLimit s1 in
               (case vc_mode (am_config s1) of
                  Off \<Rightarrow> let (i, s') = admitVirtual s1 in (Inr (Admitted i None), s')
                | Shadow \<Rightarrow> apfst Inr (acquireShadow now rq cost limit s1)
                | Enforce \<Rightarrow>
                    if limit < cost then
                      if shouldAdmitSolo cost s1
                      then let (i, s') = admit now cost D_none s1 in (Inr (Admitted i None), s')
                      else apfst Inr (reject_now ADMISSION_OVERSIZED s1)
                    else if fq_count (am_queue s1) = 0 \<and> am_activeCost s1 + cost \<le> limit
                    then let (i, s') = admit now cost D_none s1 in (Inr (Admitted i None), s')
                    else if \<not> canAccept (am_queue s1) cost
                    then apfst Inr (reject_now ADMISSION_QUEUE_FULL s1)
                    else enqueueRequest now rq cost s1))"
    unfolding acquire_def Let_def s1_def by (metis (no_types, lifting))
  then show ?thesis
  proof cases
    case (early code)
    then show ?thesis using t r by (auto simp: reject_now_def)
  next
    case go
    show ?thesis
    proof (cases "resolveCost rq s1")
      case (Inl err)
      then show ?thesis using go r t1 by (intro exI [of _ b]) simp
    next
      case (Inr cost)
      have pos: "0 < cost" by (rule resolveCost_pos [OF Inr])
      show ?thesis
      proof (cases "vc_mode c")
        case Off
        have "tracked A c d b n (snd (admitVirtual s1))"
          using tracked_seq [OF t1, of n] t1 by (simp add: admitVirtual_def tracked_def)
        then show ?thesis
          using go r Inr Off s1c by (intro exI [of _ b]) (auto simp: admitVirtual_def)
      next
        case Shadow
        obtain dd s2 where "acquireShadow now rq cost (currentLimit s1) s1 = (dd, s2)" by fastforce
        moreover have "tracked A c d (max b (am_activeCost s1 + cost)) n
            (snd (acquireShadow now rq cost (currentLimit s1) s1))"
          using t1 pos
          by (auto simp: acquireShadow_def Let_def split_beta intro!: admit_tracked)
        moreover have "\<exists>i dec. fst (acquireShadow now rq cost (currentLimit s1) s1) = Admitted i dec"
          by (simp add: acquireShadow_def Let_def split_beta)
        ultimately show ?thesis
          using go r Inr Shadow s1c by (intro exI [of _ "max b (am_activeCost s1 + cost)"]) auto
      next
        case Enforce
        have adm: "tracked A c d b n (snd (admit now cost D_none s1))" if "am_activeCost s1 + cost \<le> b"
          using admit_tracked [OF t1 pos that order_refl] .
        have lim: "currentLimit s1 \<le> b" by (rule currentLimit_le [OF t1])
        have solo: "am_activeCost s1 + cost \<le> b" if "shouldAdmitSolo cost s1"
          using that active_empty_cost [OF t1] le s1c by (simp add: shouldAdmitSolo_def)
        obtain ei es where e: "enqueueRequest now rq cost s1 = (ei, es)" by fastforce
        obtain ai as' where a: "admit now cost D_none s1 = (ai, as')" by fastforce
        have rej: "tracked A c d b n (s1\<lparr>am_rejectedCount := x\<rparr>)" for x using t1 by simp
        show ?thesis
          using go r Inr Enforce s1c adm solo lim enqueueRequest_tracked [OF t1 e] e a t1
          by (intro exI [of _ b]) (auto simp: reject_now_def Let_def split: if_splits)
      qed
    qed
  qed
qed

lemma adaptation_of: "tracked A c d b n s \<Longrightarrow> adaptation_inv (vc_adaptation c) (am_adaptation s)
   \<and> params_ok (vc_adaptation c) \<and> ap_minLimit (vc_adaptation c) = vc_minLimit c"
  by (auto simp: tracked_def adm_inv_def config_ok_def)

lemma observePressure_tracked: "tracked A c d b n s \<Longrightarrow> tracked A c d b n (observePressure now pr s)"
proof -
  assume t: "tracked A c d b n s"
  then have c: "am_config s = c" by (simp add: tracked_def)
  obtain f a where o: "observeCritical (vc_minLimit c) (vc_adaptation c) pr (am_adaptation s) = (f, a)" by fastforce
  have "adaptation_inv (vc_adaptation c) a"
    using adaptation_of [OF t] observe_inv [of "vc_adaptation c" "am_adaptation s" pr] o by simp
  then have t1: "tracked A c d b n (s\<lparr>am_adaptation := a\<rparr>)" by (rule tracked_adaptation [OF t])
  have "observePressure now pr s = (if f then dispatchVirtual (dispatch now (s\<lparr>am_adaptation := a\<rparr>))
      else s\<lparr>am_adaptation := a\<rparr>)"
    using o c by (simp add: observePressure_def)
  then show ?thesis using dispatchVirtual_tracked [OF dispatch_tracked [OF t1]] t1 by (cases f) simp_all
qed

lemma tick_tracked: "tracked A c d b n s \<Longrightarrow> tracked A c d b n (tick now s)"
proof -
  assume t: "tracked A c d b n s"
  let ?s1 = "evictIdleLanes now (sampleIntegral now s)"
  have t1: "tracked A c d b n ?s1" by (rule evictIdleLanes_tracked [OF tracked_sample [OF t]])
  have "adaptation_inv (vc_adaptation c) (closeAdaptationWindow (vc_adaptation c) now (am_adaptation ?s1))"
    using adaptation_of [OF t1] close_inv by blast
  moreover have "am_config ?s1 = c" using t1 by (simp add: tracked_def)
  ultimately show ?thesis
    using dispatchVirtual_tracked [OF dispatch_tracked [OF tracked_adaptation [OF t1]]]
    by (simp add: tick_def Let_def)
qed

lemma callbacks_tracked:
  assumes "tracked A c d b n s"
  shows "tracked A c d b n (deadline_fires now i s)" "tracked A c d b n (window_fires now s)"
    "tracked A c d b n (lane_timer_fires now s)" "tracked A c d b n (signal_aborts now sg s)"
    "tracked A c d b n (snd (snapshot now s))"
  using assms
  by (simp_all add: deadline_fires_def expireEntry_tracked window_fires_def Let_def tick_tracked
      lane_timer_fires_def evictIdleLanes_tracked signal_aborts_def foldl_tracked snapshot_def tracked_sample)

subsection \<open>Shutdown and reconfiguration\<close>

definition lane_ids :: "(string, lane) js_map \<Rightarrow> adm_id multiset" where
  "lane_ids m = image_mset e_id (sum_values (\<lambda>la. work (ln_queue la)) m)"

lemma drain_lanes:
  assumes "adm_inv s" and "\<And>k la. (k, la) \<in> set m \<Longrightarrow> lane_ok k la" and "s' = foldl drain_lane s m"
  shows "adm_inv s' \<and> accounted s' = accounted s + lane_ids m
    \<and> am_config s' = am_config s \<and> am_shutDown s' = am_shutDown s \<and> am_activeCost s' = am_activeCost s
    \<and> am_leaseSeq s' = am_leaseSeq s \<and> am_queue s' = am_queue s \<and> am_lanes s' = am_lanes s"
  using assms
proof (induction m arbitrary: s s')
  case Nil
  then show ?case by (simp add: lane_ids_def)
next
  case (Cons p m)
  obtain k la where p: "p = (k, la)" by (cases p)
  have q: "queue_inv (ln_queue la)" "fq_maxCost (ln_queue la) \<le> MAX_SAFE_INTEGER"
    using Cons.prems(2) [of k la] p by (auto simp: lane_ok_def)
  have d: "drain_lane s p = foldl (\<lambda>s e. failQueued ADMISSION_SHUTDOWN e s) s (fst (drain (ln_queue la)))"
    by (simp add: drain_lane_def p)
  note f = fail_all [OF Cons.prems(1) d]
  have "adm_inv (drain_lane s p)" using f by blast
  note g = Cons.IH [OF this Cons.prems(2), of s', OF _ Cons.prems(3) [unfolded foldl.simps]]
  have "lane_ids (p # m) = image_mset e_id (work (ln_queue la)) + lane_ids m" by (simp add: lane_ids_def p)
  with g f show ?case by (simp add: ids_of_drain [OF q])
qed

lemma lanes_all_ok: "adm_inv s \<Longrightarrow> (k, la) \<in> set (am_lanes s) \<Longrightarrow> lane_ok k la"
  by (rule lane_ok_get) (auto simp: adm_inv_def queues_ok_def)

lemma accounted_split:
  "accounted s = image_mset e_id (work (am_queue s)) + lane_ids (am_lanes s) + mset (map fst (am_settled s))"
  by (simp add: accounted_def waiting_def lane_ids_def)

lemma queue_caps_nonneg:
  assumes "queue_inv q"
  shows "0 \<le> fq_maxCount q" "0 \<le> fq_maxCost q"
proof -
  have s: "struct_inv q" using assms by (simp add: queue_inv_def)
  have "0 \<le> e_cost y" if y: "y \<in># work q" for y
  proof -
    obtain x where "x \<in> set (contents q)" "y = core x" using y by (auto simp: work_def)
    then show ?thesis
      using assms in_contents_iff [OF s] unfolding queue_inv_def entries_ok_def
      by (metis core_simps(3) less_imp_le)
  qed
  then have "0 \<le> (\<Sum>y\<in>#work q. e_cost y)" by (rule sum_mset_nonneg_int)
  then show "0 \<le> fq_maxCost q" using assms by (simp add: queue_inv_def accounts_ok_def)
  show "0 \<le> fq_maxCount q" using assms by (simp add: queue_inv_def accounts_ok_def)
qed

lemma shutdown_tracked:
  assumes "tracked A c d b n s"
  shows "tracked A c True b n (shutdown s) \<and> (\<not> d \<longrightarrow> waiting (shutdown s) = {#})"
proof (cases d)
  case True
  then show ?thesis using assms by (simp add: shutdown_def tracked_def)
next
  case False
  have inv: "adm_inv s" using assms by (simp add: tracked_def)
  have q: "queue_inv (am_queue s)" "fq_maxCost (am_queue s) \<le> MAX_SAFE_INTEGER"
    using inv by (simp_all add: adm_inv_def queues_ok_def)
  let ?nq = "new_queue (fq_maxCount (am_queue s)) (fq_maxCost (am_queue s))"
  have nq: "queue_inv ?nq" "snd (drain (am_queue s)) = ?nq"
    using queue_caps_nonneg [OF q(1)] by (simp_all add: new_queue_inv drained_queue [OF q])
  let ?es = "fst (drain (am_queue s))"
  define s1 where "s1 = (s\<lparr>am_shutDown := True, am_windowTimer := False\<rparr>)\<lparr>am_queue := ?nq\<rparr>"
  define s2 where "s2 = foldl (\<lambda>s e. failQueued ADMISSION_SHUTDOWN e s) s1 ?es"
  define s3 where "s3 = foldl drain_lane s2 (am_lanes s2)"
  have i1: "adm_inv s1"
    unfolding s1_def using inv nq(1) q(2) by (intro adm_inv_queue) (simp_all add: new_queue_def)
  note f = fail_all [OF i1 s2_def]
  have i2: "adm_inv s2" using f by blast
  note g = drain_lanes [OF i2 lanes_all_ok [OF i2] s3_def]
  have eq: "shutdown s = s3\<lparr>am_lanes := [], am_laneTimer := False\<rparr>"
    using assms False nq(2) by (simp add: shutdown_def tracked_def Let_def split_beta s3_def s2_def s1_def)
  have "accounted s1 = lane_ids (am_lanes s) + mset (map fst (am_settled s))"
    by (simp add: accounted_split s1_def)
  then have "accounted s3 = A + lane_ids (am_lanes s3)"
    using f g ids_of_drain [OF q] assms by (auto simp: tracked_def accounted_split [of s] s1_def ac_simps)
  then have "accounted (shutdown s) = A"
    unfolding eq accounted_split [of s3] by (simp add: accounted_split lane_ids_def)
  moreover have "adm_inv (shutdown s)"
    unfolding eq using g adm_inv_lanes [of s3 "[]"] by simp
  moreover have "waiting (shutdown s) = {#}"
    unfolding eq using g f by (simp add: waiting_def s1_def)
  moreover have "am_config (shutdown s) = c" "am_shutDown (shutdown s)" "am_activeCost (shutdown s) = am_activeCost s"
    "am_leaseSeq (shutdown s) = am_leaseSeq s"
    unfolding eq using g f assms by (simp_all add: s1_def tracked_def)
  ultimately show ?thesis using assms by (simp add: tracked_def)
qed

lemma dequeue_unskipped: "dequeue m q = (Some e, q') \<Longrightarrow> e_skipCount e = 0"
  by (erule dequeue_takeAt) (auto simp: takeAt_def Let_def split: option.splits list.splits)

lemma drain_unskipped: "e \<in> set (fst (drain q)) \<Longrightarrow> e_skipCount e = 0"
proof -
  have "e \<in> set (fst (drain_loop q)) \<Longrightarrow> e_skipCount e = 0"
  proof (induction q rule: drain_loop.induct)
    case (1 q)
    obtain r q' where d: "dequeue MAX_SAFE_INTEGER q = (r, q')" by (cases "dequeue MAX_SAFE_INTEGER q")
    show ?case
      using 1(1) [OF d [symmetric]] 1(2) d dequeue_unskipped
      by (cases r) (auto simp: drain_loop.simps [of q] split_beta)
  qed
  then show "e \<in> set (fst (drain q)) \<Longrightarrow> e_skipCount e = 0" by (simp add: drain_def split_beta)
qed

lemma requeue_tracked:
  assumes "tracked A c d b n s" and "0 < e_cost e" and "e_skipCount e = 0"
  shows "\<exists>b'. tracked (add_mset (e_id e) A) c d b' n (requeue now s e)"
proof -
  have c: "am_config s = c" using assms by (simp add: tracked_def)
  consider "vc_mode c \<noteq> Enforce" | "vc_mode c = Enforce" "currentLimit s < e_cost e"
    | "vc_mode c = Enforce" "\<not> currentLimit s < e_cost e" by blast
  then show ?thesis
  proof cases
    case 1
    let ?s = "detachAbort (e_id e) (clearEntryTimer (e_id e) s)"
    have "adm_inv ?s" using assms by (simp add: entry_tracks tracked_def)
    note a = admitEntry_tracks [OF this assms(2), of now]
    have "tracked (add_mset (e_id e) A) c d (max b (am_activeCost s + e_cost e)) n (admitEntry now e ?s)"
      using a assms(1) by (auto simp: tracked_def entry_tracks)
    then show ?thesis using 1 c by (auto simp: requeue_def)
  next
    case 2
    then show ?thesis using assms c by (intro exI [of _ b]) (simp add: requeue_def tracked_def)
  next
    case 3
    obtain ok q' where q: "enqueue e (am_queue s) = (ok, q')" by fastforce
    show ?thesis
    proof (cases ok)
      case True
      then show ?thesis using tracked_enqueue [OF assms(1) _ assms(3)] q 3 c by (auto simp: requeue_def)
    next
      case False
      then show ?thesis using assms q 3 c by (intro exI [of _ b]) (simp add: requeue_def tracked_def)
    qed
  qed
qed

lemma requeue_all:
  assumes "tracked A c d b n s" and "\<And>e. e \<in> set es \<Longrightarrow> 0 < e_cost e \<and> e_skipCount e = 0"
  shows "\<exists>b'. tracked (A + image_mset e_id (mset es)) c d b' n (foldl (requeue now) s es)"
  using assms
proof (induction es arbitrary: A b s)
  case (Cons e es)
  obtain b1 where "tracked (add_mset (e_id e) A) c d b1 n (requeue now s e)"
    using requeue_tracked [OF Cons.prems(1), of e now] Cons.prems(2) [of e] by auto
  from Cons.IH [OF this] Cons.prems(2) show ?case by simp
qed auto

lemma all_drained:
  assumes "adm_inv s" and "es = fst (drain (am_queue s)) @ concat (map (\<lambda>(k, la). fst (drain (ln_queue la))) m)"
    and "\<And>k la. (k, la) \<in> set m \<Longrightarrow> lane_ok k la"
  shows "image_mset e_id (mset es) = image_mset e_id (work (am_queue s)) + lane_ids m
    \<and> (\<forall>e \<in> set es. 0 < e_cost e \<and> e_skipCount e = 0)"
proof -
  have q: "queue_inv (am_queue s)" "fq_maxCost (am_queue s) \<le> MAX_SAFE_INTEGER"
    using assms(1) by (simp_all add: adm_inv_def queues_ok_def)
  have "image_mset e_id (mset (concat (map (\<lambda>(k, la). fst (drain (ln_queue la))) m))) = lane_ids m
      \<and> (\<forall>e \<in> set (concat (map (\<lambda>(k, la). fst (drain (ln_queue la))) m)). 0 < e_cost e \<and> e_skipCount e = 0)"
    using assms(3)
  proof (induction m)
    case Nil
    then show ?case by (simp add: lane_ids_def)
  next
    case (Cons p m)
    obtain k la where p: "p = (k, la)" by (cases p)
    have l: "queue_inv (ln_queue la)" "fq_maxCost (ln_queue la) \<le> MAX_SAFE_INTEGER"
      using Cons.prems [of k la] p by (auto simp: lane_ok_def)
    show ?case
      using Cons.IH Cons.prems ids_of_drain [OF l] drain_pos [OF l] drain_unskipped
      by (auto simp: p lane_ids_def)
  qed
  then show ?thesis using ids_of_drain [OF q] drain_pos [OF q] drain_unskipped by (auto simp: assms(2))
qed

lemma apply_config_tracked:
  assumes "tracked A c d b n s" and "config_ok nxt"
  shows "\<exists>b'. tracked A nxt d b' n (apply_config now nxt s)"
proof -
  define s1 where "s1 = sampleIntegral now s"
  have t1: "tracked A c d b n s1" unfolding s1_def by (rule tracked_sample [OF assms(1)])
  then have i1: "adm_inv s1" by (simp add: tracked_def)
  define a where "a = (am_adaptation s1)\<lparr>as_currentLimit := min (vc_maxLimit nxt) (max (vc_minLimit nxt) (as_currentLimit (am_adaptation s1))),
                 as_recoveryCeiling :=
                   clampLimit (Number (of_int (vc_initialLimit nxt))) (vc_minLimit nxt) (vc_maxLimit nxt),
                 as_windowStartMs := now, as_windowActiveCostIntegral := 0, as_windowCompleted := 0,
                 as_windowLatencySamples := 0, as_freezeGrowth := False,
                 as_criticalDecreaseConsumed := False, as_pressure := Normal\<rparr>"
  define es where "es = fst (drain (am_queue s1)) @ concat (map (\<lambda>(k, la). fst (drain (ln_queue la))) (am_lanes s1))"
  note dr = all_drained [OF i1 es_def lanes_all_ok [OF i1]]
  have ords: "vc_minLimit nxt \<le> vc_maxLimit nxt" using assms(2) by (auto simp: config_ok_def params_ok_def)
  have "adaptation_inv (vc_adaptation nxt) a"
    using t1 assms(2) ords adaptation_of [OF t1]
    by (auto simp: a_def adaptation_inv_def config_ok_def MAX_SAFE_INTEGER_def)
  moreover define s2 where "s2 = s1\<lparr>am_config := nxt, am_adaptation := a, am_lastSampleMs := now,
                  am_queue := new_queue (vc_maxQueueCount nxt) (vc_maxQueueCost nxt),
                  am_lanes := [], am_laneTimer := False\<rparr>"
  have mx: "vc_maxQueueCost nxt \<le> MAX_SAFE_INTEGER"
    using assms(2) by (auto simp: config_ok_def MAX_ADMISSION_COST_OR_LIMIT_def MAX_SAFE_INTEGER_def
        MAX_ADMISSION_WINDOW_MS_def)
  have "queue_inv (new_queue (vc_maxQueueCount nxt) (vc_maxQueueCost nxt) :: adm_queue)"
    using assms(2) by (intro new_queue_inv) (auto simp: config_ok_def)
  then have "queues_ok s2" using mx by (simp add: queues_ok_def s2_def) (simp add: new_queue_def)
  moreover have "leases_ok s1" using i1 by (simp add: adm_inv_def)
  then have "leases_ok s2" by (rule leases_ok_cong) (simp_all add: s2_def)
  ultimately have i2: "adm_inv s2" using assms(2) by (simp add: adm_inv_def s2_def)
  have "accounted s2 + image_mset e_id (mset es) = A"
    using t1 dr by (auto simp: tracked_def accounted_split s2_def lane_ids_def ac_simps)
  moreover have "am_shutDown s2 = d" "n \<le> am_leaseSeq s2" using t1 by (simp_all add: s2_def tracked_def)
  ultimately have "tracked (accounted s2) nxt d (max (am_activeCost s2) (vc_maxLimit nxt)) n s2"
    using i2 by (simp add: tracked_def) (simp add: s2_def)
  from requeue_all [OF this, of es now] dr
  obtain b' where "tracked (accounted s2 + image_mset e_id (mset es)) nxt d b' n (foldl (requeue now) s2 es)"
    by blast
  then have t3: "tracked A nxt d b' n (foldl (requeue now) s2 es)"
    using \<open>accounted s2 + image_mset e_id (mset es) = A\<close> by simp
  define s4 where "s4 = armWindowTimer (rebuildVirtualState (vc_mode nxt = Shadow) (foldl (requeue now) s2 es))"
  have t4: "tracked A nxt d b' n s4"
    unfolding s4_def using rebuildVirtualState_tracked [OF t3] by (simp add: armWindowTimer_def)
  have "apply_config now nxt s = (if vc_mode nxt = Enforce then dispatch now s4 else s4)"
    by (simp add: apply_config_def Let_def s4_def s2_def es_def a_def s1_def)
  then show ?thesis using t4 dispatch_tracked [OF t4] by auto
qed

subsection \<open>Runs of the controller\<close>

text \<open>Every way the program and its runtime act on a controller, and the ids of the promises it handed out.\<close>

datatype adm_event =
    Acquire int adm_request
  | Release int adm_id release_outcome js_value "pressure option"
  | Tick int
  | Observe_pressure int pressure
  | Update int admission_config
  | Shutdown
  | Deadline_fires int adm_id
  | Window_fires int
  | Lane_fires int
  | Signal_aborts int signal
  | Snapshot int

record adm_run =
  ar_state :: admission
  ar_promises :: "adm_id list"

fun promise_of :: "range_error + acquire_result \<Rightarrow> adm_id list" where
  "promise_of (Inr (Queued i)) = [i]"
| "promise_of _ = []"

lemma mset_promise_of: "mset (promise_of r) = queued_ids r"
  by (cases r rule: promise_of.cases) simp_all

fun adm_step :: "adm_run \<Rightarrow> adm_event \<Rightarrow> adm_run" where
  "adm_step r (Acquire now rq) =
     (let (x, s) = acquire now rq (ar_state r)
      in \<lparr>ar_state = s, ar_promises = ar_promises r @ promise_of x\<rparr>)"
| "adm_step r (Release now i oc lat pr) = r\<lparr>ar_state := releaseLease now i oc lat pr (ar_state r)\<rparr>"
| "adm_step r (Tick now) = r\<lparr>ar_state := tick now (ar_state r)\<rparr>"
| "adm_step r (Observe_pressure now pr) = r\<lparr>ar_state := observePressure now pr (ar_state r)\<rparr>"
| "adm_step r (Update now input) = r\<lparr>ar_state := snd (updateConfig now input (ar_state r))\<rparr>"
| "adm_step r Shutdown = r\<lparr>ar_state := shutdown (ar_state r)\<rparr>"
| "adm_step r (Deadline_fires now i) = r\<lparr>ar_state := deadline_fires now i (ar_state r)\<rparr>"
| "adm_step r (Window_fires now) = r\<lparr>ar_state := window_fires now (ar_state r)\<rparr>"
| "adm_step r (Lane_fires now) = r\<lparr>ar_state := lane_timer_fires now (ar_state r)\<rparr>"
| "adm_step r (Signal_aborts now sg) = r\<lparr>ar_state := signal_aborts now sg (ar_state r)\<rparr>"
| "adm_step r (Snapshot now) = r\<lparr>ar_state := snd (snapshot now (ar_state r))\<rparr>"

definition start_run :: "int \<Rightarrow> nat \<Rightarrow> validated_config \<Rightarrow> adm_run" where
  "start_run now seq c = \<lparr>ar_state = new_admission now seq c, ar_promises = []\<rparr>"

definition promises_ok :: "adm_run \<Rightarrow> bool" where
  "promises_ok r \<longleftrightarrow> distinct (ar_promises r)
     \<and> (\<forall>i \<in> set (ar_promises r). \<exists>m. i = QId m \<and> m \<le> am_leaseSeq (ar_state r))"

definition run_ok :: "adm_run \<Rightarrow> bool" where
  "run_ok r \<longleftrightarrow> promises_ok r
     \<and> (\<exists>c d b. tracked (mset (ar_promises r)) c d b (am_leaseSeq (ar_state r)) (ar_state r))"

definition enforce_ok :: "validated_config \<Rightarrow> adm_run \<Rightarrow> bool" where
  "enforce_ok c r \<longleftrightarrow> (\<exists>d. tracked (mset (ar_promises r)) c d (vc_maxLimit c) (am_leaseSeq (ar_state r)) (ar_state r))"

lemma promises_mono:
  "promises_ok r \<Longrightarrow> am_leaseSeq (ar_state r) \<le> am_leaseSeq (ar_state r') \<Longrightarrow> ar_promises r' = ar_promises r \<Longrightarrow>
     promises_ok r'"
  unfolding promises_ok_def by (metis order_trans)

text \<open>One event keeps track; only a request hands out a promise, under a fresh id.\<close>

lemma adm_step_tracked:
  assumes t: "tracked (mset (ar_promises r)) c d b n (ar_state r)"
  shows "\<exists>c' d' b'. tracked (mset (ar_promises (adm_step r ev))) c' d' b' n (ar_state (adm_step r ev))
    \<and> (vc_mode c = Enforce \<and> (\<forall>now input. ev \<noteq> Update now input) \<longrightarrow> c' = c \<and> b' = b)"
  (is "?goal ev")
proof -
  have same: "?goal ev" if "tracked (mset (ar_promises r)) c d' b n (ar_state (adm_step r ev))"
    "ar_promises (adm_step r ev) = ar_promises r" for ev d'
    using that by (intro exI [of _ c] exI [of _ d'] exI [of _ b]) simp
  show ?thesis
  proof (cases ev)
  case (Acquire now rq)
  obtain x s where a: "acquire now rq (ar_state r) = (x, s)" by fastforce
  from acquire_tracked [OF t a] obtain b' where "tracked (queued_ids x + mset (ar_promises r)) c d b' n s"
    "vc_mode c = Enforce \<longrightarrow> b' = b" by blast
  then show ?thesis using Acquire a by (auto simp: mset_promise_of ac_simps)
next
  case (Release now i oc lat pr)
  show ?thesis unfolding Release by (rule same [where d' = d]) (simp_all add: releaseLease_tracked [OF t])
next
  case (Tick now)
  show ?thesis unfolding Tick by (rule same [where d' = d]) (simp_all add: tick_tracked [OF t])
next
  case (Observe_pressure now pr)
  show ?thesis unfolding Observe_pressure by (rule same [where d' = d]) (simp_all add: observePressure_tracked [OF t])
next
  case (Update now input)
  show ?thesis
  proof (cases "validateConfig input")
    case (Inl err)
    show ?thesis unfolding Update by (rule same [where d' = d]) (simp_all add: updateConfig_def Inl t)
  next
    case (Inr nxt)
    obtain b' where "tracked (mset (ar_promises r)) nxt d b' n (apply_config now nxt (ar_state r))"
      using apply_config_tracked [OF t validateConfig_ok [OF Inr]] by blast
    then show ?thesis
      by (intro exI [of _ nxt] exI [of _ d] exI [of _ b']) (simp add: Update updateConfig_def Inr)
  qed
next
  case Shutdown
  show ?thesis unfolding Shutdown by (rule same [where d' = True]) (simp_all add: shutdown_tracked [OF t])
next
  case (Deadline_fires now i)
  show ?thesis unfolding Deadline_fires by (rule same [where d' = d]) (simp_all add: callbacks_tracked(1) [OF t])
next
  case (Window_fires now)
  show ?thesis unfolding Window_fires by (rule same [where d' = d]) (simp_all add: callbacks_tracked(2) [OF t])
next
  case (Lane_fires now)
  show ?thesis unfolding Lane_fires by (rule same [where d' = d]) (simp_all add: callbacks_tracked(3) [OF t])
next
  case (Signal_aborts now sg)
  show ?thesis unfolding Signal_aborts by (rule same [where d' = d]) (simp_all add: callbacks_tracked(4) [OF t])
next
  case (Snapshot now)
  show ?thesis unfolding Snapshot by (rule same [where d' = d]) (simp_all add: callbacks_tracked(5) [OF t])
qed
qed

lemma adm_step_promises:
  assumes p: "promises_ok r" and t: "tracked (mset (ar_promises r)) c d b (am_leaseSeq (ar_state r)) (ar_state r)"
  shows "promises_ok (adm_step r ev)"
proof -
  obtain c' d' b' where "tracked (mset (ar_promises (adm_step r ev))) c' d' b' (am_leaseSeq (ar_state r)) (ar_state (adm_step r ev))"
    using adm_step_tracked [OF t] by blast
  then have seq: "am_leaseSeq (ar_state r) \<le> am_leaseSeq (ar_state (adm_step r ev))" by (simp add: tracked_def)
  show ?thesis
  proof (cases "ar_promises (adm_step r ev) = ar_promises r")
    case True
    then show ?thesis by (rule promises_mono [OF p seq])
  next
    case False
    then obtain now rq where ev: "ev = Acquire now rq" by (cases ev) auto
    obtain x s where a: "acquire now rq (ar_state r) = (x, s)" by fastforce
    then obtain i where x: "x = Inr (Queued i)" using False ev by (cases x rule: promise_of.cases) auto
    then have i: "i = QId (am_leaseSeq (ar_state r) + 1)" "am_leaseSeq (ar_state r) + 1 \<le> am_leaseSeq s"
      using acquire_tracked [OF t a] by blast+
    then have "i \<notin> set (ar_promises r)" using p by (auto simp: promises_ok_def)
    moreover have "\<exists>m. j = QId m \<and> m \<le> am_leaseSeq s" if "j \<in> set (ar_promises r)" for j
      using p that i(2) unfolding promises_ok_def by (metis add_leD1 order_trans)
    ultimately show ?thesis using p i by (auto simp: promises_ok_def ev a x)
  qed
qed

lemma run_ok_step:
  assumes "run_ok r"
  shows "run_ok (adm_step r ev)"
proof -
  obtain c d b where t: "tracked (mset (ar_promises r)) c d b (am_leaseSeq (ar_state r)) (ar_state r)"
    and p: "promises_ok r" using assms by (auto simp: run_ok_def)
  obtain c' d' b' where "tracked (mset (ar_promises (adm_step r ev))) c' d' b' (am_leaseSeq (ar_state r)) (ar_state (adm_step r ev))"
    using adm_step_tracked [OF t] by blast
  then have "tracked (mset (ar_promises (adm_step r ev))) c' d' b'
      (am_leaseSeq (ar_state (adm_step r ev))) (ar_state (adm_step r ev))" by (simp add: tracked_def)
  then show ?thesis using adm_step_promises [OF p t] unfolding run_ok_def by blast
qed

interpretation controller: step_invariant adm_step "\<lambda>_. True" run_ok
  by unfold_locales (rule run_ok_step)

fun keeps_config :: "adm_event \<Rightarrow> bool" where
  "keeps_config (Update now input) = False"
| "keeps_config _ = True"

interpretation enforced: step_invariant adm_step "\<lambda>ev. keeps_config ev \<and> vc_mode c = Enforce" "enforce_ok c" for c
proof unfold_locales
  fix r ev assume "enforce_ok c r" and ok: "keeps_config ev \<and> vc_mode c = Enforce"
  then obtain d where t: "tracked (mset (ar_promises r)) c d (vc_maxLimit c) (am_leaseSeq (ar_state r)) (ar_state r)"
    by (auto simp: enforce_ok_def)
  have "\<forall>now input. ev \<noteq> Update now input" using ok by auto
  then obtain d' where "tracked (mset (ar_promises (adm_step r ev))) c d' (vc_maxLimit c) (am_leaseSeq (ar_state r)) (ar_state (adm_step r ev))"
    using adm_step_tracked [OF t, of ev] ok by blast
  then have "tracked (mset (ar_promises (adm_step r ev))) c d' (vc_maxLimit c) (am_leaseSeq (ar_state (adm_step r ev)))
     (ar_state (adm_step r ev))" by (simp add: tracked_def)
  then show "enforce_ok c (adm_step r ev)" unfolding enforce_ok_def by blast
qed

lemma new_admission_inv:
  assumes "config_ok c"
  shows "tracked {#} c False (vc_maxLimit c) seq (new_admission now seq c)"
proof -
  have "adaptation_inv (vc_adaptation c) (createAdaptationState (vc_initialLimit c) (vc_minLimit c) (vc_maxLimit c) now)"
    using create_inv [of "vc_adaptation c" "vc_initialLimit c" now] assms by (simp add: config_ok_def)
  moreover have "queue_inv (new_queue (vc_maxQueueCount c) (vc_maxQueueCost c) :: adm_queue)"
    using assms by (intro new_queue_inv) (auto simp: config_ok_def)
  moreover have "vc_maxQueueCost c \<le> MAX_SAFE_INTEGER"
    using assms by (auto simp: config_ok_def MAX_ADMISSION_COST_OR_LIMIT_def MAX_SAFE_INTEGER_def
        MAX_ADMISSION_WINDOW_MS_def)
  moreover have "0 \<le> vc_maxLimit c" using assms by (auto simp: config_ok_def params_ok_def)
  ultimately show ?thesis
    using assms
    by (simp add: tracked_def new_admission_def armWindowTimer_def adm_inv_def queues_ok_def leases_ok_def
        accounted_def waiting_def) (simp add: new_queue_def)
qed

lemma start_run_ok: "config_ok c \<Longrightarrow> run_ok (start_run now seq c)" "config_ok c \<Longrightarrow> enforce_ok c (start_run now seq c)"
  using new_admission_inv [of c seq now]
  by (auto simp: run_ok_def enforce_ok_def start_run_def promises_ok_def new_admission_def armWindowTimer_def)

subsection \<open>What the controller promises\<close>

definition demo_input :: "bool \<Rightarrow> admission_config" where
  "demo_input lanes = \<lparr>ac_mode = Some ''enforce'', ac_minLimit = Number 1, ac_maxLimit = Number 4,
     ac_initialLimit = Number 2, ac_maxQueueCount = Number 10, ac_maxQueueCost = Number 20,
     ac_defaultMaxWaitMs = Undefined, ac_windowMs = Undefined, ac_shortLatencyAlpha = Undefined,
     ac_longLatencyAlpha = Undefined, ac_increaseStep = Undefined, ac_decreaseFactor = Undefined,
     ac_criticalDecreaseFactor = Undefined, ac_highUtilizationThreshold = Undefined,
     ac_lowUtilizationThreshold = Undefined, ac_latencyGradientThreshold = Undefined,
     ac_maxIncreasePerWindow = Undefined, ac_cost = no_cost_config, ac_virtualLanes = Some lanes\<rparr>"

definition demo_config :: "bool \<Rightarrow> validated_config" where
  "demo_config lanes = \<lparr>vc_mode = Enforce, vc_minLimit = 1, vc_maxLimit = 4, vc_initialLimit = 2,
     vc_maxQueueCount = 10, vc_maxQueueCost = 20, vc_defaultMaxWaitMs = 5000, vc_windowMs = 1000,
     vc_adaptation = \<lparr>ap_minLimit = 1, ap_maxLimit = 4, ap_windowMs = 1000,
       ap_shortLatencyAlpha = 1 / 2, ap_longLatencyAlpha = 1 / 10, ap_increaseStep = 1,
       ap_decreaseFactor = 4 / 5, ap_criticalDecreaseFactor = 1 / 2,
       ap_highUtilizationThreshold = 7 / 10, ap_lowUtilizationThreshold = 3 / 10,
       ap_latencyGradientThreshold = 1 / 4, ap_maxIncreasePerWindow = 1\<rparr>,
     vc_maxRequestCost = 1000, vc_costConfig = DEFAULT_ADMISSION_COST_CONFIG, vc_virtualLanes = lanes\<rparr>"

lemma demo_config_ok: "config_ok (demo_config lanes)"
  by (simp add: demo_config_def config_ok_def params_ok_def cost_config_ok_def DEFAULT_ADMISSION_COST_CONFIG_def
      MAX_ADMISSION_COST_OR_LIMIT_def MAX_SAFE_INTEGER_def MAX_ADMISSION_WINDOW_MS_def)

definition ask :: "int \<Rightarrow> string option \<Rightarrow> adm_request" where
  "ask cost t = \<lparr>rq_cost = Number (of_int cost), rq_features = None, rq_tenantKey = t,
     rq_maxWaitMs = Undefined, rq_signal = None, rq_pressure = None\<rparr>"

text \<open>Two leases of cost 1, a request of cost 2 that has to wait, and a release.\<close>

definition demo_run :: "bool \<Rightarrow> adm_run" where
  "demo_run lanes = foldl adm_step (start_run 0 0 (demo_config lanes))
     [Acquire 0 (ask 1 None), Acquire 0 (ask 1 None), Acquire 1 (ask 2 (Some ''a'')),
      Release 2 (LeaseId 1) Ok (Number 2) None]"


text \<open>
  C6: No promise is lost or settled twice: after any run of requests, releases, ticks, pressure
  reports, reconfigurations, timers, aborts and shutdowns, at any times, the ids of the promises the
  controller handed out are distinct, and each of them is either still waiting in the shared queue or
  a lane, or was settled, exactly one of the two and exactly once.
\<close>

theorem promises_settled_exactly_once:
  assumes "validateConfig input = Inr c" and "r = foldl adm_step (start_run now seq c) evs"
  shows "distinct (ar_promises r)
    \<and> mset (ar_promises r) = image_mset e_id (waiting (ar_state r)) + mset (map fst (am_settled (ar_state r)))
    \<and> distinct (map fst (am_settled (ar_state r)))"
proof -
  have "run_ok r"
    unfolding assms(2) by (rule controller.run_inv [OF start_run_ok(1) [OF validateConfig_ok [OF assms(1)]]])
      (simp add: list_all_iff)
  then have d: "distinct (ar_promises r)"
    and m: "mset (ar_promises r) = image_mset e_id (waiting (ar_state r)) + mset (map fst (am_settled (ar_state r)))"
    by (auto simp: run_ok_def promises_ok_def tracked_def accounted_def)
  obtain ws where "mset ws = image_mset e_id (waiting (ar_state r))" using ex_mset by blast
  then have "mset (ar_promises r) = mset (ws @ map fst (am_settled (ar_state r)))" using m by simp
  then have "distinct (ws @ map fst (am_settled (ar_state r)))" using d by (metis mset_eq_imp_distinct_iff)
  then have "distinct (map fst (am_settled (ar_state r)))" by simp
  with d m show ?thesis by blast
qed

lemma demo_valid: "validateConfig (demo_input lanes) = Inr (demo_config lanes)"
  by (cases lanes) code_simp+

definition demo_events :: "adm_event list" where
  "demo_events = [Acquire 0 (ask 1 None), Acquire 0 (ask 1 None), Acquire 1 (ask 2 (Some ''a'')),
     Acquire 2 (ask 2 (Some ''b'')), Release 3 (LeaseId 1) Ok (Number 2) None,
     Release 4 (LeaseId 2) Ok (Number 2) None]"

theorem promises_settled_exactly_once_witness:
  "let r = foldl adm_step (start_run 0 0 (demo_config False)) demo_events in
   mset (ar_promises r) = {#QId 3, QId 4#} \<and> map fst (am_settled (ar_state r)) = [QId 3]
   \<and> image_mset e_id (waiting (ar_state r)) = {#QId 4#}"
proof -
  let ?r = "foldl adm_step (start_run 0 0 (demo_config False)) demo_events"
  have "ar_promises ?r = [QId 3, QId 4]" "map fst (am_settled (ar_state ?r)) = [QId 3]" by code_simp+
  then show ?thesis
    using promises_settled_exactly_once [OF demo_valid [of False] refl, of 0 0 demo_events] by (simp add: Let_def)
qed

text \<open>
  C7: The load accounting is exact: after any run the active cost is the sum of the costs of the
  leases that are not released, each of them once, the limit lies between the configured bounds, and
  the shared queue and every lane are well formed (\<open>queue_inv\<close>): each tenant that waits is once in the
  order and has a bucket with entries of its own, of positive cost and a bounded skip count, the cursor
  points into the order, the counters are exact, and count and cost stay within the caps of the queue.
  There is one lane per tenant, and nobody else waits in it.
\<close>

theorem active_cost_is_exact:
  assumes "validateConfig input = Inr c" and "r = foldl adm_step (start_run now seq c) evs" and "s = ar_state r"
  shows "am_activeCost s = sum_list (map (cost_of s) (am_active s)) \<and> distinct (am_active s)
    \<and> (\<forall>i r. map_get (am_records s) i = Some r \<longrightarrow> (i \<in> set (am_active s) \<longleftrightarrow> \<not> lr_released r))
    \<and> vc_minLimit (am_config s) \<le> currentLimit s \<and> currentLimit s \<le> vc_maxLimit (am_config s)
    \<and> queue_inv (am_queue s) \<and> map_wf (am_lanes s)
    \<and> (\<forall>k la. map_get (am_lanes s) k = Some la \<longrightarrow>
        queue_inv (ln_queue la) \<and> (\<forall>t. t \<noteq> k \<longrightarrow> bucket_of (ln_queue la) t = []))"
proof -
  have "run_ok r"
    unfolding assms(2) by (rule controller.run_inv [OF start_run_ok(1) [OF validateConfig_ok [OF assms(1)]]])
      (simp add: list_all_iff)
  then have i: "adm_inv s" by (auto simp: assms(3) run_ok_def tracked_def)
  then have "vc_minLimit (am_config s) \<le> currentLimit s" "currentLimit s \<le> vc_maxLimit (am_config s)"
    by (auto simp: adm_inv_def config_ok_def adaptation_inv_def currentLimit_def)
  moreover have "queue_inv (ln_queue la) \<and> (\<forall>t. t \<noteq> k \<longrightarrow> bucket_of (ln_queue la) t = [])"
    if "map_get (am_lanes s) k = Some la" for k la
    using lane_ok_get [OF i that] by (simp add: lane_ok_def)
  ultimately show ?thesis
    using i unfolding adm_inv_def queues_ok_def leases_ok_def by blast
qed

theorem active_cost_is_exact_witness:
  "let s = ar_state (foldl adm_step (start_run 0 0 (demo_config False)) demo_events) in
   am_activeCost s = sum_list (map (cost_of s) (am_active s)) \<and> am_active s = [LeaseId 5]"
proof -
  have "am_active (ar_state (foldl adm_step (start_run 0 0 (demo_config False)) demo_events)) = [LeaseId 5]"
    by code_simp
  then show ?thesis
    using active_cost_is_exact [OF demo_valid [of False] refl refl, of 0 0 demo_events] by (simp only: Let_def simp_thms)
qed

text \<open>
  C8: In enforce mode the admitted load never exceeds the hard ceiling: over any run that keeps its
  configuration, however the adaptive limit moves, the leases that are out never cost more than
  \<open>maxLimit\<close> together. That includes the solo admission of a request above the current limit.
\<close>

theorem enforced_load_within_ceiling:
  assumes "validateConfig input = Inr c" and "vc_mode c = Enforce" and "list_all keeps_config evs"
  shows "am_activeCost (ar_state (foldl adm_step (start_run now seq c) evs)) \<le> vc_maxLimit c"
proof -
  have "enforce_ok c (foldl adm_step (start_run now seq c) evs)"
    by (rule enforced.run_inv [OF start_run_ok(2) [OF validateConfig_ok [OF assms(1)]]])
      (use assms(2,3) in \<open>simp add: list_all_iff\<close>)
  then show ?thesis by (auto simp: enforce_ok_def tracked_def)
qed

theorem enforced_load_within_ceiling_witness:
  "am_activeCost (ar_state (foldl adm_step (start_run 0 0 (demo_config False)) demo_events)) \<le> 4"
  using enforced_load_within_ceiling [OF demo_valid [of False], of demo_events 0 0]
  by (simp add: demo_config_def demo_events_def)

text \<open>
  Shutting down strands nobody: every promise the controller handed out is settled when
  \<open>shutdown\<close> returns, nothing waits in the queue or a lane, the load that is out keeps its
  accounting, and every later request is rejected with the shutdown code.
\<close>

theorem shutdown_settles_everyone:
  assumes "validateConfig input = Inr c" and "r = foldl adm_step (start_run now seq c) evs"
    and "\<not> am_shutDown (ar_state r)" and "s' = ar_state (adm_step r Shutdown)"
  shows "waiting s' = {#} \<and> mset (ar_promises r) = mset (map fst (am_settled s'))
    \<and> am_activeCost s' = sum_list (map (cost_of s') (am_active s'))
    \<and> fst (acquire t rq s') = Inr (Rejected ADMISSION_SHUTDOWN)"
proof -
  have "run_ok r"
    unfolding assms(2) by (rule controller.run_inv [OF start_run_ok(1) [OF validateConfig_ok [OF assms(1)]]])
      (simp add: list_all_iff)
  then obtain c d b where t: "tracked (mset (ar_promises r)) c d b (am_leaseSeq (ar_state r)) (ar_state r)"
    by (auto simp: run_ok_def)
  then have "\<not> d" using assms(3) by (simp add: tracked_def)
  then have "tracked (mset (ar_promises r)) c True b (am_leaseSeq (ar_state r)) s' \<and> waiting s' = {#}"
    using shutdown_tracked [OF t] by (simp add: assms(4))
  then show ?thesis
    by (auto simp: tracked_def accounted_def adm_inv_def leases_ok_def acquire_def reject_now_def)
qed

theorem shutdown_settles_everyone_witness:
  "let s = shutdown (ar_state (foldl adm_step (start_run 0 0 (demo_config True)) demo_events)) in
   waiting s = {#} \<and> mset (map fst (am_settled s)) = {#QId 3, QId 4#}"
proof -
  let ?r = "foldl adm_step (start_run 0 0 (demo_config True)) demo_events"
  have "ar_promises ?r = [QId 3, QId 4]" "\<not> am_shutDown (ar_state ?r)" by code_simp+
  then show ?thesis
    using shutdown_settles_everyone [OF demo_valid [of True] refl _ refl, of 0 0 demo_events]
    by (simp add: Let_def)
qed

text \<open>
  With virtual lanes on, a request that fits is admitted ahead of everything that waits in the
  lanes, whatever waits there and for how long: only the shared queue is consulted before the direct
  admission, so the rule that newer requests queue up behind older ones does not hold for lanes.
\<close>

theorem direct_arrivals_overtake_lanes:
  assumes "\<not> am_shutDown s" and "vc_mode (am_config s) = Enforce" and "rq_signal rq = None" and "rq_pressure rq = None"
    and "resolveCost rq s = Inr cost" and "fq_count (am_queue s) = 0"
    and "cost \<le> currentLimit s" and "am_activeCost s + cost \<le> currentLimit s"
  shows "fst (acquire now rq s) = Inr (Admitted (LeaseId (am_leaseSeq s + 1)) None)
    \<and> am_lanes (snd (acquire now rq s)) = am_lanes s
    \<and> waiting (snd (acquire now rq s)) = waiting s"
proof -
  have "acquire now rq s = (Inr (Admitted (fst (admit now cost D_none s)) None), snd (admit now cost D_none s))"
    using assms by (simp add: acquire_def Let_def split_beta)
  moreover have "fst (admit now cost D_none s) = LeaseId (am_leaseSeq s + 1)" by (simp add: admit_def Let_def)
  ultimately show ?thesis by (simp add: waiting_def)
qed

theorem direct_arrivals_overtake_lanes_witness:
  "let s = ar_state (demo_run True) in
   am_activeCost s = 1 \<and> currentLimit s = 2 \<and> map fst (am_lanes s) = [''a'']
   \<and> fst (acquire 3 (ask 1 None) s) = Inr (Admitted (LeaseId 4) None)
   \<and> map fst (am_lanes (snd (acquire 3 (ask 1 None) s))) = [''a'']"
proof -
  let ?s = "ar_state (demo_run True)"
  have f: "\<not> am_shutDown ?s" "vc_mode (am_config ?s) = Enforce" "rq_signal (ask 1 None) = None"
    "rq_pressure (ask 1 None) = None" "resolveCost (ask 1 None) ?s = Inr 1" "fq_count (am_queue ?s) = 0"
    by code_simp+
  have g: "currentLimit ?s = 2" "am_activeCost ?s = 1" "am_leaseSeq ?s = 3" "map fst (am_lanes ?s) = [''a'']"
    by code_simp+
  have "1 \<le> currentLimit ?s" "am_activeCost ?s + 1 \<le> currentLimit ?s" unfolding g by simp_all
  from direct_arrivals_overtake_lanes [OF f this, of 3] show ?thesis
    unfolding Let_def by (simp only: g simp_thms) simp
qed

end
