(* ===== verification/SlidingWindow.thy ===== *)
theory SlidingWindow
  imports Prelude
begin

text \<open>
  The sliding-window rate limiter of \<^verbatim>\<open>src/open-sse/services/slidingWindowLimiter.ts\<close>: a map from
  keys to the hits still in their window, acquisition of several scopes at once, leases that give
  their hits back. It is proved to refine a limiter that keeps the log of every grant and forgets
  nothing; the bound on any trailing window follows from the log.
\<close>

subsection \<open>Data\<close>

record rate_window =
  rw_requests :: int
  rw_windowMs :: int

record rate_scope =
  sc_key :: string
  sc_window :: rate_window

record hit =
  hit_id :: nat
  hit_at :: int

record limiter =
  sl_hits :: "(string, hit list) js_map"
  sl_nextHitId :: nat

text \<open>The entries a lease gives back when it is released.\<close>

type_synonym lease = "(string \<times> nat) list"

record multi_result =
  mr_allowed :: bool
  mr_retryAfterMs :: int
  mr_lease :: "lease option"

definition MAX_KEYS :: nat where
  "MAX_KEYS = 5000"

definition new_limiter :: limiter where
  "new_limiter = \<lparr>sl_hits = [], sl_nextHitId = 1\<rparr>"

subsection \<open>Operations\<close>

text \<open>\<open>private set(key, live)\<close>: an empty history is dropped, a new key may evict the oldest one.\<close>

definition set_hits :: "string \<Rightarrow> hit list \<Rightarrow> limiter \<Rightarrow> limiter" where
  "set_hits key live l =
     (if live = [] then l\<lparr>sl_hits := map_delete key (sl_hits l)\<rparr>
      else
        let hs = (if \<not> map_has (sl_hits l) key \<and> MAX_KEYS \<le> length (sl_hits l)
                  then (case sl_hits l of [] \<Rightarrow> [] | p # _ \<Rightarrow> map_delete (fst p) (sl_hits l))
                  else sl_hits l)
        in l\<lparr>sl_hits := map_set key live hs\<rparr>)"

definition in_window :: "int \<Rightarrow> int \<Rightarrow> hit list \<Rightarrow> hit list" where
  "in_window windowMs now hs = filter (\<lambda>h. now - windowMs < hit_at h) hs"

definition retry_after :: "rate_window \<Rightarrow> int \<Rightarrow> hit list \<Rightarrow> int" where
  "retry_after w now live =
     (if rw_requests w \<le> int (length live) then max 0 (hit_at (hd live) + rw_windowMs w - now) else 0)"

text \<open>One entry of \<open>prepared\<close>: the scope and its hits that are still in the window.\<close>

definition prepare :: "int \<Rightarrow> limiter \<Rightarrow> rate_scope \<Rightarrow> rate_scope \<times> hit list" where
  "prepare now l sc =
     (sc, in_window (rw_windowMs (sc_window sc)) now (nullish (map_get (sl_hits l) (sc_key sc)) []))"

definition active_scopes :: "rate_scope list \<Rightarrow> rate_scope list" where
  "active_scopes scopes = filter (\<lambda>sc. 0 < rw_requests (sc_window sc) \<and> 0 < rw_windowMs (sc_window sc)) scopes"

definition longest_retry :: "int \<Rightarrow> (rate_scope \<times> hit list) list \<Rightarrow> int" where
  "longest_retry now ps = foldl (\<lambda>m (sc, live). max m (retry_after (sc_window sc) now live)) 0 ps"

definition store_live :: "(rate_scope \<times> hit list) list \<Rightarrow> limiter \<Rightarrow> limiter" where
  "store_live ps l = foldl (\<lambda>l (sc, live). set_hits (sc_key sc) live l) l ps"

fun record_hits :: "int \<Rightarrow> (rate_scope \<times> hit list) list \<Rightarrow> limiter \<Rightarrow> lease \<times> limiter" where
  "record_hits now [] l = ([], l)"
| "record_hits now ((sc, live) # ps) l =
     (let i = sl_nextHitId l;
          l1 = set_hits (sc_key sc) (live @ [\<lparr>hit_id = i, hit_at = now\<rparr>]) (l\<lparr>sl_nextHitId := i + 1\<rparr>);
          (es, l2) = record_hits now ps l1
      in ((sc_key sc, i) # es, l2))"

definition tryAcquireMany :: "int \<Rightarrow> rate_scope list \<Rightarrow> limiter \<Rightarrow> multi_result \<times> limiter" where
  "tryAcquireMany now scopes l =
     (let act = active_scopes scopes in
      if act = [] then (\<lparr>mr_allowed = True, mr_retryAfterMs = 0, mr_lease = None\<rparr>, l)
      else
        let prepared = map (prepare now l) act;
            retryAfterMs = longest_retry now prepared;
            l1 = store_live prepared l
        in if 0 < retryAfterMs
           then (\<lparr>mr_allowed = False, mr_retryAfterMs = retryAfterMs, mr_lease = None\<rparr>, l1)
           else
             let (entries, l2) = record_hits now prepared l1
             in (\<lparr>mr_allowed = True, mr_retryAfterMs = 0, mr_lease = Some entries\<rparr>, l2))"

definition tryAcquire :: "int \<Rightarrow> string \<Rightarrow> rate_window \<Rightarrow> limiter \<Rightarrow> (bool \<times> int) \<times> limiter" where
  "tryAcquire now key w l =
     (let (r, l') = tryAcquireMany now [\<lparr>sc_key = key, sc_window = w\<rparr>] l
      in ((mr_allowed r, mr_retryAfterMs r), l'))"

text \<open>The first call of a lease's \<open>release\<close>; the flag \<open>released\<close> makes later calls do nothing.\<close>

definition release_entry :: "limiter \<Rightarrow> string \<times> nat \<Rightarrow> limiter" where
  "release_entry l e =
     (case map_get (sl_hits l) (fst e) of
        None \<Rightarrow> l
      | Some live \<Rightarrow>
          let remaining = filter (\<lambda>h. hit_id h \<noteq> snd e) live
          in if remaining \<noteq> [] then l\<lparr>sl_hits := map_set (fst e) remaining (sl_hits l)\<rparr>
             else l\<lparr>sl_hits := map_delete (fst e) (sl_hits l)\<rparr>)"

definition release_lease :: "lease \<Rightarrow> limiter \<Rightarrow> limiter" where
  "release_lease es l = foldl release_entry l es"

definition reset_limiter :: "string option \<Rightarrow> limiter \<Rightarrow> limiter" where
  "reset_limiter key l =
     (case key of None \<Rightarrow> l\<lparr>sl_hits := []\<rparr> | Some k \<Rightarrow> l\<lparr>sl_hits := map_delete k (sl_hits l)\<rparr>)"

subsection \<open>The history of a key\<close>

definition hits_of :: "limiter \<Rightarrow> string \<Rightarrow> hit list" where
  "hits_of l k = nullish (map_get (sl_hits l) k) []"

text \<open>The keys in use fit the map, so nothing is evicted.\<close>

definition keys_ok :: "string list \<Rightarrow> limiter \<Rightarrow> bool" where
  "keys_ok ks l \<longleftrightarrow> length ks \<le> MAX_KEYS \<and> map_wf (sl_hits l) \<and> fst ` set (sl_hits l) \<subseteq> set ks"

lemma keys_fit:
  assumes "keys_ok ks l" and "k \<in> set ks" and "map_get (sl_hits l) k = None"
  shows "length (sl_hits l) < MAX_KEYS"
proof -
  have "length (sl_hits l) = card (fst ` set (sl_hits l))"
    using assms(1) distinct_card [of "map fst (sl_hits l)"] by (simp add: keys_ok_def)
  also have "\<dots> < card (set ks)"
    using assms by (intro psubset_card_mono) (auto simp: keys_ok_def map_of_eq_None_iff)
  also have "\<dots> \<le> length ks" by (rule card_length)
  finally show ?thesis using assms(1) by (simp add: keys_ok_def)
qed

lemma set_hits_store:
  assumes "keys_ok ks l" and "k \<in> set ks"
  shows "hits_of (set_hits k live l) = (hits_of l)(k := live) \<and> keys_ok ks (set_hits k live l)
    \<and> sl_nextHitId (set_hits k live l) = sl_nextHitId l"
proof (cases "live = []")
  case True
  then show ?thesis
    using assms set_map_delete_subset [of k "sl_hits l"]
    by (auto simp: set_hits_def hits_of_def keys_ok_def fun_eq_iff intro: map_wf_delete)
next
  case False
  have "map_has (sl_hits l) k \<or> length (sl_hits l) < MAX_KEYS" using keys_fit [OF assms] by auto
  then have "set_hits k live l = l\<lparr>sl_hits := map_set k live (sl_hits l)\<rparr>"
    using False by (auto simp: set_hits_def)
  then show ?thesis
    using assms by (simp add: hits_of_def keys_ok_def fun_eq_iff map_wf_set dom_update)
qed

lemmas set_hits_of = set_hits_store [THEN conjunct1]
lemmas set_hits_keys = set_hits_store [THEN conjunct2, THEN conjunct1]
lemmas set_hits_next = set_hits_store [THEN conjunct2, THEN conjunct2]

lemma store_live_hits:
  assumes "keys_ok ks l" and "distinct (map (sc_key \<circ> fst) ps)" and "sc_key ` fst ` set ps \<subseteq> set ks"
  shows "hits_of (store_live ps l) =
      (\<lambda>k. nullish (map_of (map (\<lambda>p. (sc_key (fst p), snd p)) ps) k) (hits_of l k))
    \<and> keys_ok ks (store_live ps l) \<and> sl_nextHitId (store_live ps l) = sl_nextHitId l"
  using assms
proof (induction ps arbitrary: l)
  case Nil
  then show ?case by (simp add: store_live_def)
next
  case (Cons p ps)
  let ?l = "set_hits (sc_key (fst p)) (snd p) l"
  have k: "sc_key (fst p) \<in> set ks" using Cons.prems(3) by simp
  have s: "store_live (p # ps) l = store_live ps ?l" by (simp add: store_live_def split_beta)
  have fresh: "map_of (map (\<lambda>p. (sc_key (fst p), snd p)) ps) (sc_key (fst p)) = None"
    using Cons.prems(2) by (auto simp: map_of_eq_None_iff image_iff)
  have "hits_of (store_live ps ?l) =
      (\<lambda>k. nullish (map_of (map (\<lambda>p. (sc_key (fst p), snd p)) ps) k) (hits_of ?l k))
    \<and> keys_ok ks (store_live ps ?l) \<and> sl_nextHitId (store_live ps ?l) = sl_nextHitId ?l"
    using Cons.prems by (intro Cons.IH set_hits_keys [OF Cons.prems(1) k]) auto
  then show ?case
    using fresh unfolding s
    by (auto simp: set_hits_of [OF Cons.prems(1) k] set_hits_next [OF Cons.prems(1) k] fun_eq_iff)
qed

text \<open>The grants of one acquisition as entries of a log, and what a log holds for a key.\<close>

definition granted :: "int \<Rightarrow> lease \<Rightarrow> (string \<times> hit) list" where
  "granted now es = map (\<lambda>(k, i). (k, \<lparr>hit_id = i, hit_at = now\<rparr>)) es"

definition log_hits :: "(string \<times> hit) list \<Rightarrow> string \<Rightarrow> hit list" where
  "log_hits gl k = map snd (filter (\<lambda>p. fst p = k) gl)"

lemma log_hits_simps [simp]:
  "log_hits [] k = []"
  "log_hits (p # gl) k = (if fst p = k then snd p # log_hits gl k else log_hits gl k)"
  "log_hits (gl @ gl') k = log_hits gl k @ log_hits gl' k"
  by (simp_all add: log_hits_def)

lemma granted_Nil [simp]: "granted now [] = []"
  by (simp add: granted_def)

lemma log_hits_granted: "k \<notin> fst ` set es \<Longrightarrow> log_hits (granted now es) k = []"
  by (induction es) (auto simp: granted_def)

lemma record_hits_entries:
  "fst (record_hits now ps l) = zip (map (sc_key \<circ> fst) ps) [sl_nextHitId l ..< sl_nextHitId l + length ps]"
proof (induction ps arbitrary: l)
  case (Cons p ps)
  have "sl_nextHitId (set_hits k hs l) = sl_nextHitId l" for k hs l by (simp add: set_hits_def Let_def)
  then show ?case
    using Cons.IH [of "set_hits (sc_key (fst p)) (snd p @ [\<lparr>hit_id = sl_nextHitId l, hit_at = now\<rparr>])
      (l\<lparr>sl_nextHitId := sl_nextHitId l + 1\<rparr>)"]
    by (cases p) (simp add: Let_def split_beta upt_conv_Cons del: upt_Suc)
qed simp

lemma record_hits_store:
  assumes "keys_ok ks l" and "distinct (map (sc_key \<circ> fst) ps)" and "sc_key ` fst ` set ps \<subseteq> set ks"
    and "\<And>p. p \<in> set ps \<Longrightarrow> hits_of l (sc_key (fst p)) = snd p"
  shows "hits_of (snd (record_hits now ps l)) =
      (\<lambda>k. hits_of l k @ log_hits (granted now (fst (record_hits now ps l))) k)
    \<and> keys_ok ks (snd (record_hits now ps l))
    \<and> sl_nextHitId (snd (record_hits now ps l)) = sl_nextHitId l + length ps"
  using assms
proof (induction ps arbitrary: l)
  case Nil
  then show ?case by (simp add: granted_def)
next
  case (Cons p ps)
  let ?k = "sc_key (fst p)" and ?h = "\<lparr>hit_id = sl_nextHitId l, hit_at = now\<rparr>"
  let ?m = "l\<lparr>sl_nextHitId := Suc (sl_nextHitId l)\<rparr>"
  let ?l = "set_hits ?k (snd p @ [?h]) ?m"
  have k: "?k \<in> set ks" using Cons.prems(3) by simp
  have ok0: "keys_ok ks ?m" using Cons.prems(1) by (simp add: keys_ok_def)
  have h: "hits_of ?l = (hits_of l)(?k := snd p @ [?h])"
    unfolding set_hits_of [OF ok0 k] by (simp add: hits_of_def fun_eq_iff)
  have ok: "keys_ok ks ?l" by (rule set_hits_keys [OF ok0 k])
  have other: "hits_of ?l (sc_key (fst q)) = snd q" if "q \<in> set ps" for q
    using Cons.prems(2,4) that by (auto simp: h image_iff)
  have "hits_of (snd (record_hits now ps ?l)) =
      (\<lambda>k. hits_of ?l k @ log_hits (granted now (fst (record_hits now ps ?l))) k)
    \<and> keys_ok ks (snd (record_hits now ps ?l))
    \<and> sl_nextHitId (snd (record_hits now ps ?l)) = sl_nextHitId ?l + length ps"
    using Cons.prems(2,3) by (intro Cons.IH ok other) auto
  moreover have "record_hits now (p # ps) l =
      ((?k, sl_nextHitId l) # fst (record_hits now ps ?l), snd (record_hits now ps ?l))"
    by (cases p) (simp add: Let_def split_beta)
  moreover have "hits_of l ?k = snd p" using Cons.prems(4) by simp
  ultimately show ?case
    using set_hits_next [OF ok0 k, of "snd p @ [?h]"]
    by (auto simp: h fun_eq_iff granted_def)
qed

lemma release_entry_hits:
  assumes "keys_ok ks l"
  shows "hits_of (release_entry l e) = (\<lambda>k. filter (\<lambda>h. (k, hit_id h) \<noteq> e) (hits_of l k))
    \<and> keys_ok ks (release_entry l e) \<and> sl_nextHitId (release_entry l e) = sl_nextHitId l"
proof (cases "map_get (sl_hits l) (fst e)")
  case None
  then have "filter (\<lambda>h. (k, hit_id h) \<noteq> e) (hits_of l k) = hits_of l k" for k
    by (cases "k = fst e") (auto simp: hits_of_def intro: filter_True)
  then show ?thesis using None assms by (auto simp: release_entry_def fun_eq_iff)
next
  case (Some live)
  have "filter (\<lambda>h. (k, hit_id h) \<noteq> e) (hits_of l k)
      = (if k = fst e then filter (\<lambda>h. hit_id h \<noteq> snd e) live else hits_of l k)" for k
    using Some by (cases e) (auto simp: hits_of_def intro: filter_True)
  moreover have "fst e \<in> fst ` set (sl_hits l)" using Some by (force dest: map_of_SomeD)
  moreover have "fst ` set (map_delete (fst e) (sl_hits l)) \<subseteq> fst ` set (sl_hits l)"
    by (rule image_mono [OF set_map_delete_subset])
  ultimately show ?thesis
    using Some assms
    by (auto simp: release_entry_def Let_def fun_eq_iff keys_ok_def dom_update intro: map_wf_set map_wf_delete)
      (auto simp: hits_of_def)
qed

lemma release_lease_hits:
  assumes "keys_ok ks l"
  shows "hits_of (release_lease es l) = (\<lambda>k. filter (\<lambda>h. (k, hit_id h) \<notin> set es) (hits_of l k))
    \<and> keys_ok ks (release_lease es l) \<and> sl_nextHitId (release_lease es l) = sl_nextHitId l"
  using assms
proof (induction es arbitrary: l)
  case (Cons e es)
  note r = release_entry_hits [OF Cons.prems, of e]
  show ?case
    using Cons.IH [of "release_entry l e"] r
    by (auto simp: release_lease_def fun_eq_iff conj_commute)
qed (simp add: release_lease_def)

subsection \<open>Runs of the limiter and of the log it refines\<close>

text \<open>
  Calls on a limiter, each some milliseconds after the one before. A lease may be given back at any
  time and more than once. Beside the limiter a run keeps what its answers granted and callers did
  not give back.
\<close>

definition give_back :: "lease \<Rightarrow> (string \<times> hit) list \<Rightarrow> (string \<times> hit) list" where
  "give_back es gl = filter (\<lambda>p. (fst p, hit_id (snd p)) \<notin> set es) gl"

definition forget :: "string option \<Rightarrow> (string \<times> hit) list \<Rightarrow> (string \<times> hit) list" where
  "forget key gl = (case key of None \<Rightarrow> [] | Some k \<Rightarrow> filter (\<lambda>p. fst p \<noteq> k) gl)"

datatype limiter_event = Try nat "rate_scope list" | Give_back lease | Forget "string option"

record limiter_run =
  lr_now :: int
  lr_limiter :: limiter
  lr_results :: "multi_result list"
  lr_grants :: "(string \<times> hit) list"

fun limiter_step :: "limiter_run \<Rightarrow> limiter_event \<Rightarrow> limiter_run" where
  "limiter_step r (Try dt scopes) =
     (let now = lr_now r + int dt; (res, l) = tryAcquireMany now scopes (lr_limiter r)
      in r\<lparr>lr_now := now, lr_limiter := l, lr_results := lr_results r @ [res],
           lr_grants := lr_grants r @ granted now (nullish (mr_lease res) [])\<rparr>)"
| "limiter_step r (Give_back es) =
     r\<lparr>lr_limiter := release_lease es (lr_limiter r), lr_grants := give_back es (lr_grants r)\<rparr>"
| "limiter_step r (Forget k) =
     r\<lparr>lr_limiter := reset_limiter k (lr_limiter r), lr_grants := forget k (lr_grants r)\<rparr>"

definition start_limiter :: "int \<Rightarrow> limiter_run" where
  "start_limiter now = \<lparr>lr_now = now, lr_limiter = new_limiter, lr_results = [], lr_grants = []\<rparr>"

text \<open>
  The specification: a log of every grant that was not given back, in order. An acquisition is
  granted when each of its scopes has fewer grants than requests in the trailing window.
\<close>

record log_run =
  lg_now :: int
  lg_log :: "(string \<times> hit) list"
  lg_next :: nat
  lg_results :: "multi_result list"

definition log_live :: "int \<Rightarrow> (string \<times> hit) list \<Rightarrow> rate_scope \<Rightarrow> rate_scope \<times> hit list" where
  "log_live now gl sc = (sc, in_window (rw_windowMs (sc_window sc)) now (log_hits gl (sc_key sc)))"

definition log_try :: "int \<Rightarrow> rate_scope list \<Rightarrow> log_run \<Rightarrow> log_run" where
  "log_try now scopes g =
     (let act = active_scopes scopes;
          wait = longest_retry now (map (log_live now (lg_log g)) act);
          es = zip (map sc_key act) [lg_next g ..< lg_next g + length act]
      in if 0 < wait
         then g\<lparr>lg_now := now,
                lg_results := lg_results g @ [\<lparr>mr_allowed = False, mr_retryAfterMs = wait, mr_lease = None\<rparr>]\<rparr>
         else g\<lparr>lg_now := now, lg_log := lg_log g @ granted now es, lg_next := lg_next g + length act,
                lg_results := lg_results g @ [\<lparr>mr_allowed = True, mr_retryAfterMs = 0,
                                 mr_lease = (if act = [] then None else Some es)\<rparr>]\<rparr>)"

fun log_step :: "log_run \<Rightarrow> limiter_event \<Rightarrow> log_run" where
  "log_step g (Try dt scopes) = log_try (lg_now g + int dt) scopes g"
| "log_step g (Give_back es) = g\<lparr>lg_log := give_back es (lg_log g)\<rparr>"
| "log_step g (Forget k) = g\<lparr>lg_log := forget k (lg_log g)\<rparr>"

definition start_log :: "int \<Rightarrow> log_run" where
  "start_log now = \<lparr>lg_now = now, lg_log = [], lg_next = 1, lg_results = []\<rparr>"

text \<open>The callers' discipline: one window per key, a bounded set of keys, no key twice in one call.\<close>

fun try_ok :: "(string \<Rightarrow> rate_window) \<Rightarrow> string list \<Rightarrow> limiter_event \<Rightarrow> bool" where
  "try_ok w ks (Try dt scopes) \<longleftrightarrow> distinct (map sc_key scopes)
     \<and> list_all (\<lambda>sc. sc_key sc \<in> set ks \<and> sc_window sc = w (sc_key sc)) scopes"
| "try_ok w ks _ \<longleftrightarrow> True"

definition simulates :: "(string \<Rightarrow> rate_window) \<Rightarrow> string list \<Rightarrow> limiter_run \<times> log_run \<Rightarrow> bool" where
  "simulates w ks = (\<lambda>(r, g).
     keys_ok ks (lr_limiter r) \<and> lg_now g = lr_now r \<and> lg_next g = sl_nextHitId (lr_limiter r)
     \<and> lg_results g = lr_results r \<and> lr_grants r = lg_log g
     \<and> (\<forall>k. in_window (rw_windowMs (w k)) (lr_now r) (hits_of (lr_limiter r) k)
            = in_window (rw_windowMs (w k)) (lr_now r) (log_hits (lg_log g) k)))"

lemma in_window_later: "now \<le> now' \<Longrightarrow> in_window w now' (in_window w now hs) = in_window w now' hs"
  by (auto simp: in_window_def intro: filter_cong)

lemma in_window_filter: "in_window w now (filter P hs) = filter P (in_window w now hs)"
  by (simp add: in_window_def conj_commute)

lemma in_window_append: "in_window w now (xs @ ys) = in_window w now xs @ in_window w now ys"
  by (simp add: in_window_def)

lemma log_hits_give_back: "log_hits (give_back es gl) k = filter (\<lambda>h. (k, hit_id h) \<notin> set es) (log_hits gl k)"
  unfolding give_back_def by (induction gl) auto

lemma log_hits_forget:
  "log_hits (forget ko gl) k = (case ko of None \<Rightarrow> [] | Some k' \<Rightarrow> if k = k' then [] else log_hits gl k)"
  unfolding forget_def by (cases ko; induction gl) auto

lemma active_distinct: "distinct (map sc_key scopes) \<Longrightarrow> distinct (map sc_key (active_scopes scopes))"
  unfolding active_scopes_def by (rule distinct_map_filter)

lemma map_of_scopes:
  "distinct (map sc_key act) \<Longrightarrow> sc \<in> set act \<Longrightarrow> map_of (map (\<lambda>sc. (sc_key sc, f sc)) act) (sc_key sc) = Some (f sc)"
  by (induction act) (auto simp: image_iff)

lemma prepare_hits: "prepare now l sc = (sc, in_window (rw_windowMs (sc_window sc)) now (hits_of l (sc_key sc)))"
  by (simp add: prepare_def hits_of_def)

lemma try_simulates:
  assumes sim: "simulates w ks (r, g)" and ok: "try_ok w ks (Try dt scopes)"
  shows "simulates w ks (limiter_step r (Try dt scopes), log_step g (Try dt scopes))"
proof -
  define now where "now = lr_now r + int dt"
  define l where "l = lr_limiter r"
  define act where "act = active_scopes scopes"
  define ps where "ps = map (prepare now l) act"
  have ks: "keys_ok ks l" and t: "lg_now g = lr_now r" and n: "lg_next g = sl_nextHitId l"
    and res: "lg_results g = lr_results r" "lr_grants r = lg_log g"
    and h: "\<And>k. in_window (rw_windowMs (w k)) (lr_now r) (hits_of l k)
             = in_window (rw_windowMs (w k)) (lr_now r) (log_hits (lg_log g) k)"
    using sim by (simp_all add: simulates_def l_def)
  have h': "in_window (rw_windowMs (w k)) now (hits_of l k) = in_window (rw_windowMs (w k)) now (log_hits (lg_log g) k)" for k
    using arg_cong [OF h [of k], of "in_window (rw_windowMs (w k)) now"] by (simp add: now_def in_window_later)
  have act: "distinct (map sc_key act)" "\<And>sc. sc \<in> set act \<Longrightarrow> sc_key sc \<in> set ks \<and> sc_window sc = w (sc_key sc)"
    using ok active_distinct by (auto simp: act_def active_scopes_def list_all_iff)
  have ps: "ps = map (log_live now (lg_log g)) act"
    using act(2) h' by (auto simp: ps_def prepare_def log_live_def hits_of_def)
  have keys: "map (sc_key \<circ> fst) ps = map sc_key act" by (simp add: ps_def prepare_def)
  have mem: "sc_key ` fst ` set ps \<subseteq> set ks" using act(2) by (auto simp: ps_def prepare_def)
  define l1 where "l1 = store_live ps l"
  have dk: "distinct (map (sc_key \<circ> fst) ps)" unfolding keys by (rule act(1))
  note st = store_live_hits [OF ks dk mem, folded l1_def]
  have live: "hits_of l1 k = (if k \<in> sc_key ` set act then in_window (rw_windowMs (w k)) now (hits_of l k) else hits_of l k)" for k
  proof (cases "k \<in> sc_key ` set act")
    case True
    then obtain sc where sc: "sc \<in> set act" "k = sc_key sc" by auto
    have "map_of (map (\<lambda>p. (sc_key (fst p), snd p)) ps) k = Some (snd (prepare now l sc))"
      using map_of_scopes [OF act(1) sc(1), of "\<lambda>sc. snd (prepare now l sc)"]
      by (simp add: sc(2) ps_def comp_def prepare_def)
    then show ?thesis using True act(2) [OF sc(1)] st by (simp add: prepare_def hits_of_def sc(2))
  next
    case False
    then have "map_of (map (\<lambda>p. (sc_key (fst p), snd p)) ps) k = None"
      by (auto simp: map_of_eq_None_iff ps_def prepare_def)
    then show ?thesis using False st by simp
  qed
  have w1: "in_window (rw_windowMs (w k)) now (hits_of l1 k) = in_window (rw_windowMs (w k)) now (log_hits (lg_log g) k)" for k
    using h' [of k] by (simp add: live in_window_later)
  have hp: "hits_of l1 (sc_key (fst p)) = snd p" if "p \<in> set ps" for p
    using that act(2) by (auto simp: live ps_def prepare_hits)
  note rec = record_hits_store [OF _ dk mem hp, where now = now]
  have es: "fst (record_hits now ps l1) = zip (map sc_key act) [lg_next g ..< lg_next g + length act]"
    using st by (simp add: record_hits_entries keys n) (simp add: ps_def)
  have len: "length ps = length act" by (simp add: ps_def)
  show ?thesis
  proof (cases "act = []")
    case True
    have "longest_retry now [] = 0" by (simp add: longest_retry_def)
    then show ?thesis
      using True ks t n res h' unfolding act_def
      by (simp add: simulates_def tryAcquireMany_def log_try_def Let_def granted_def now_def l_def)
  next
    case False
    then have "tryAcquireMany now scopes l = (if 0 < longest_retry now ps
        then (\<lparr>mr_allowed = False, mr_retryAfterMs = longest_retry now ps, mr_lease = None\<rparr>, l1)
        else (\<lparr>mr_allowed = True, mr_retryAfterMs = 0, mr_lease = Some (fst (record_hits now ps l1))\<rparr>,
              snd (record_hits now ps l1)))"
      by (simp add: tryAcquireMany_def Let_def split_beta act_def ps_def l1_def)
    then show ?thesis
      using False ks t n res w1 st rec es len
      by (auto simp: simulates_def log_try_def Let_def act_def [symmetric] ps [symmetric]
          now_def [symmetric] l_def [symmetric] in_window_append)
  qed
qed

lemma step_simulates:
  assumes "simulates w ks p" and "try_ok w ks ev"
  shows "simulates w ks (limiter_step (fst p) ev, log_step (snd p) ev)"
proof (cases ev)
  case (Try dt scopes)
  then show ?thesis using try_simulates [of w ks "fst p" "snd p" dt scopes] assms by simp
next
  case (Give_back es)
  show ?thesis
    using assms(1) release_lease_hits [of ks "lr_limiter (fst p)" es]
    by (auto simp: Give_back simulates_def in_window_filter split_beta log_hits_give_back)
next
  case (Forget ko)
  have "hits_of (reset_limiter ko l) k = (case ko of None \<Rightarrow> [] | Some k' \<Rightarrow> if k = k' then [] else hits_of l k)" for l k
    by (auto simp: reset_limiter_def hits_of_def split: option.split)
  moreover have "keys_ok ks (reset_limiter ko l) \<and> sl_nextHitId (reset_limiter ko l) = sl_nextHitId l" if "keys_ok ks l" for l
    using that by (auto simp: reset_limiter_def keys_ok_def map_wf_delete split: option.split
        dest: subsetD [OF set_map_delete_subset])
  ultimately show ?thesis
    using assms(1) by (auto simp: Forget simulates_def split_beta log_hits_forget split: option.split)
qed

interpretation refined: step_invariant
  "\<lambda>p ev. (limiter_step (fst p) ev, log_step (snd p) ev)" "try_ok w ks" "simulates w ks" for w ks
  by unfold_locales (rule step_simulates)

lemma fold_pair: "foldl (\<lambda>p ev. (f (fst p) ev, g (snd p) ev)) (a, b) evs = (foldl f a evs, foldl g b evs)"
  by (induction evs arbitrary: a b) simp_all

lemma run_simulates:
  assumes "length ks \<le> MAX_KEYS" and "list_all (try_ok w ks) evs"
  shows "simulates w ks (foldl limiter_step (start_limiter now) evs, foldl log_step (start_log now) evs)"
proof -
  have "simulates w ks (start_limiter now, start_log now)"
    using assms(1) by (simp add: simulates_def start_limiter_def start_log_def new_limiter_def keys_ok_def hits_of_def)
  from refined.run_inv [OF this assms(2)] show ?thesis by (simp add: fold_pair)
qed

subsection \<open>The log\<close>

definition caps :: "rate_window \<Rightarrow> hit list \<Rightarrow> bool" where
  "caps w hs \<longleftrightarrow> (if 0 < rw_requests w \<and> 0 < rw_windowMs w
     then \<forall>t. int (length (filter (\<lambda>h. t - rw_windowMs w < hit_at h \<and> hit_at h \<le> t) hs)) \<le> rw_requests w
     else hs = [])"

definition log_ok :: "(string \<Rightarrow> rate_window) \<Rightarrow> log_run \<Rightarrow> bool" where
  "log_ok w g \<longleftrightarrow> (\<forall>k. sorted (map hit_at (log_hits (lg_log g) k))
     \<and> (\<forall>h \<in> set (log_hits (lg_log g) k). hit_at h \<le> lg_now g) \<and> caps (w k) (log_hits (lg_log g) k))"

lemma caps_filter: "caps w hs \<Longrightarrow> caps w (filter P hs)"
proof -
  assume c: "caps w hs"
  have sub: "int (length (filter Q (filter P hs))) \<le> int (length (filter Q hs))" for Q :: "hit \<Rightarrow> bool"
    by (induction hs) auto
  show ?thesis
  proof (cases "0 < rw_requests w \<and> 0 < rw_windowMs w")
    case True
    then show ?thesis
      using c unfolding caps_def by (simp only: if_True simp_thms) (blast intro: order_trans [OF sub])
  next
    case False
    then show ?thesis using c unfolding caps_def by (simp only: if_False filter.simps simp_thms)
  qed
qed

lemma caps_snoc:
  assumes "caps w hs" and "\<forall>h \<in> set hs. hit_at h \<le> now" and "0 < rw_requests w" and "0 < rw_windowMs w"
    and "int (length (in_window (rw_windowMs w) now hs)) < rw_requests w"
  shows "caps w (hs @ [\<lparr>hit_id = i, hit_at = now\<rparr>])"
proof -
  have "int (length (filter (\<lambda>h. t - rw_windowMs w < hit_at h \<and> hit_at h \<le> t) (hs @ [\<lparr>hit_id = i, hit_at = now\<rparr>])))
      \<le> rw_requests w" for t
  proof (cases "now \<le> t \<and> t - rw_windowMs w < now")
    case True
    have "filter (\<lambda>h. t - rw_windowMs w < hit_at h \<and> hit_at h \<le> t) hs
        = filter (\<lambda>h. t - rw_windowMs w < hit_at h \<and> hit_at h \<le> t) (in_window (rw_windowMs w) now hs)"
      using True by (auto simp: in_window_def intro: filter_cong)
    then have "length (filter (\<lambda>h. t - rw_windowMs w < hit_at h \<and> hit_at h \<le> t) hs)
        \<le> length (in_window (rw_windowMs w) now hs)" by simp
    then show ?thesis using True assms(5) by simp
  next
    case False
    then show ?thesis using assms(1,3,4) by (auto simp: caps_def)
  qed
  then show ?thesis using assms(3,4) by (simp add: caps_def)
qed

lemma longest_retry_bounds:
  "foldl (\<lambda>m (sc, live). max m (retry_after (sc_window sc) now live)) m0 ps \<le> (m :: int)
    \<longleftrightarrow> m0 \<le> m \<and> (\<forall>p \<in> set ps. retry_after (sc_window (fst p)) now (snd p) \<le> m)"
  by (induction ps arbitrary: m0) (auto simp: split_beta)

lemma longest_retry_le:
  "longest_retry now ps \<le> m \<longleftrightarrow> 0 \<le> m \<and> (\<forall>p \<in> set ps. retry_after (sc_window (fst p)) now (snd p) \<le> m)"
  unfolding longest_retry_def by (rule longest_retry_bounds)

lemma no_retry:
  assumes "retry_after w now (in_window (rw_windowMs w) now hs) \<le> 0" and "0 < rw_requests w"
  shows "int (length (in_window (rw_windowMs w) now hs)) < rw_requests w"
proof (rule ccontr)
  assume n: "\<not> ?thesis"
  then have "hd (in_window (rw_windowMs w) now hs) \<in> set (in_window (rw_windowMs w) now hs)"
    using assms(2) by (intro hd_in_set) auto
  then show False using n assms(1) by (auto simp: retry_after_def in_window_def)
qed

lemma log_hits_granted_in:
  "distinct (map fst es) \<Longrightarrow> (k, i) \<in> set es \<Longrightarrow> log_hits (granted now es) k = [\<lparr>hit_id = i, hit_at = now\<rparr>]"
proof (induction es)
  case (Cons e es)
  show ?case
  proof (cases "fst e = k")
    case True
    then have "k \<notin> fst ` set es" using Cons.prems(1) by auto
    then have "log_hits (granted now es) k = []" by (rule log_hits_granted)
    moreover have "snd e = i" using Cons.prems(2) True \<open>k \<notin> fst ` set es\<close> by (cases e) (auto simp: image_iff)
    ultimately show ?thesis using True by (simp add: granted_def split_beta)
  next
    case False
    then show ?thesis using Cons by (auto simp: granted_def split_beta)
  qed
qed simp

lemma step_log_ok:
  assumes ok: "log_ok w g" and ev: "try_ok w ks ev"
  shows "log_ok w (log_step g ev)"
proof (cases ev)
  case (Try dt scopes)
  define now where "now = lg_now g + int dt"
  define act where "act = active_scopes scopes"
  define es where "es = zip (map sc_key act) [lg_next g ..< lg_next g + length act]"
  let ?ps = "map (log_live now (lg_log g)) act"
  have act: "distinct (map sc_key act)"
    "\<And>sc. sc \<in> set act \<Longrightarrow> sc_window sc = w (sc_key sc) \<and> 0 < rw_requests (w (sc_key sc)) \<and> 0 < rw_windowMs (w (sc_key sc))"
    using ev active_distinct by (auto simp: Try act_def active_scopes_def list_all_iff)
  have es: "distinct (map fst es)" "fst ` set es = sc_key ` set act"
    using act(1) by (simp_all add: es_def flip: set_map)
  have old: "hit_at h \<le> now" if "h \<in> set (log_hits (lg_log g) k)" for h k
    using ok that by (fastforce simp: log_ok_def now_def)
  show ?thesis
  proof (cases "0 < longest_retry now ?ps")
    case True
    then show ?thesis using ok old by (simp add: Try log_try_def now_def [symmetric] act_def [symmetric] log_ok_def)
  next
    case False
    then have nr: "retry_after (sc_window sc) now (in_window (rw_windowMs (sc_window sc)) now (log_hits (lg_log g) (sc_key sc))) \<le> 0"
      if "sc \<in> set act" for sc
      using that longest_retry_le [of now ?ps 0] by (auto simp: log_live_def)
    have "sorted (map hit_at (log_hits (lg_log g @ granted now es) k))
        \<and> (\<forall>h \<in> set (log_hits (lg_log g @ granted now es) k). hit_at h \<le> now)
        \<and> caps (w k) (log_hits (lg_log g @ granted now es) k)" for k
    proof (cases "k \<in> fst ` set es")
      case True
      then obtain i where i: "(k, i) \<in> set es" by auto
      obtain sc where sc: "sc \<in> set act" "k = sc_key sc" using True es(2) by auto
      have "caps (w k) (log_hits (lg_log g) k @ [\<lparr>hit_id = i, hit_at = now\<rparr>])"
        using ok act(2) [OF sc(1)] nr [OF sc(1)] old sc(2)
        by (intro caps_snoc no_retry) (auto simp: log_ok_def)
      then show ?thesis
        using ok old by (auto simp: log_hits_granted_in [OF es(1) i] log_ok_def sorted_append)
    next
      case False
      then show ?thesis using ok old by (simp add: log_hits_granted log_ok_def)
    qed
    then show ?thesis
      using False
      by (simp add: Try log_try_def Let_def now_def [symmetric] act_def [symmetric] es_def [symmetric] log_ok_def)
  qed
next
  case (Give_back es)
  then show ?thesis
    using ok by (auto simp: log_ok_def log_hits_give_back intro: caps_filter sorted_filter)
next
  case (Forget ko)
  have "caps w []" for w by (simp add: caps_def)
  then show ?thesis using ok by (auto simp: Forget log_ok_def log_hits_forget split: option.split)
qed

interpretation logged: step_invariant log_step "try_ok w ks" "log_ok w" for w ks
  by unfold_locales (rule step_log_ok)

lemma run_log_ok: "list_all (try_ok w ks) evs \<Longrightarrow> log_ok w (foldl log_step (start_log now) evs)"
  by (rule logged.run_inv) (simp_all add: log_ok_def start_log_def caps_def)

text \<open>When a scope that is blocked has a slot again, if nothing else happens.\<close>

lemma retry_later:
  assumes "sorted (map hit_at hs)" and "0 < rw_requests w" and "now \<le> now'"
    and "int (length (in_window (rw_windowMs w) now hs)) \<le> rw_requests w"
  shows "0 < retry_after w now' (in_window (rw_windowMs w) now' hs)
    \<longleftrightarrow> now' < now + retry_after w now (in_window (rw_windowMs w) now hs)"
proof -
  define live where "live = in_window (rw_windowMs w) now hs"
  have later: "in_window (rw_windowMs w) now' hs = in_window (rw_windowMs w) now' live"
    by (simp add: live_def in_window_later [OF assms(3)])
  have s: "sorted (map hit_at live)" unfolding live_def in_window_def by (rule sorted_filter [OF assms(1)])
  show ?thesis
  proof (cases live)
    case Nil
    then show ?thesis
      using assms(2,3) unfolding later live_def [symmetric] by (simp add: retry_after_def in_window_def)
  next
    case (Cons h rest)
    have h: "now - rw_windowMs w < hit_at h"
    proof -
      have "h \<in> set live" by (simp add: Cons)
      then show ?thesis by (simp add: live_def in_window_def)
    qed
    show ?thesis
    proof (cases "now' - rw_windowMs w < hit_at h")
      case True
      then have "in_window (rw_windowMs w) now' live = live"
        using s unfolding Cons in_window_def by (intro filter_True) auto
      then show ?thesis
        using True h assms(3) unfolding later live_def [symmetric] by (auto simp: retry_after_def Cons)
    next
      case False
      then have "length (in_window (rw_windowMs w) now' live) \<le> length rest"
        by (simp add: Cons in_window_def)
      then have "retry_after w now' (in_window (rw_windowMs w) now' hs) = 0"
        using assms(4) unfolding later live_def [symmetric] Cons by (simp add: retry_after_def)
      then show ?thesis
        using False h assms(3) unfolding live_def [symmetric] by (auto simp: retry_after_def Cons)
    qed
  qed
qed

lemma longest_retry_later:
  assumes ok: "log_ok w g" and "lg_now g \<le> now" and "now \<le> now'"
    and act: "\<And>sc. sc \<in> set act \<Longrightarrow> sc_window sc = w (sc_key sc) \<and> 0 < rw_requests (w (sc_key sc)) \<and> 0 < rw_windowMs (w (sc_key sc))"
    and pos: "0 < longest_retry now (map (log_live now (lg_log g)) act)"
  shows "0 < longest_retry now' (map (log_live now' (lg_log g)) act)
    \<longleftrightarrow> now' < now + longest_retry now (map (log_live now (lg_log g)) act)"
proof -
  let ?r = "\<lambda>t sc. retry_after (w (sc_key sc)) t (in_window (rw_windowMs (w (sc_key sc))) t (log_hits (lg_log g) (sc_key sc)))"
  have one: "0 < ?r now' sc \<longleftrightarrow> now' < now + ?r now sc" if "sc \<in> set act" for sc
  proof (rule retry_later [OF _ _ assms(3)])
    let ?hs = "log_hits (lg_log g) (sc_key sc)" and ?w = "w (sc_key sc)"
    show "sorted (map hit_at ?hs)" using ok by (simp add: log_ok_def)
    show "0 < rw_requests ?w" using act [OF that] by simp
    have "in_window (rw_windowMs ?w) now ?hs = filter (\<lambda>h. now - rw_windowMs ?w < hit_at h \<and> hit_at h \<le> now) ?hs"
      using ok assms(2) by (force simp: in_window_def log_ok_def intro: filter_cong)
    then show "int (length (in_window (rw_windowMs ?w) now ?hs)) \<le> rw_requests ?w"
      using ok act [OF that] by (simp add: log_ok_def caps_def)
  qed
  have gt: "m < longest_retry t (map (log_live t (lg_log g)) act) \<longleftrightarrow> m < 0 \<or> (\<exists>sc \<in> set act. m < ?r t sc)" for m t
    using longest_retry_le [of t "map (log_live t (lg_log g)) act" m] act by (auto simp: log_live_def not_le [symmetric])
  have "0 < longest_retry now' (map (log_live now' (lg_log g)) act) \<longleftrightarrow> (\<exists>sc \<in> set act. now' < now + ?r now sc)"
    using gt [of 0 now'] one by auto
  also have "\<dots> \<longleftrightarrow> now' - now < longest_retry now (map (log_live now (lg_log g)) act)"
    using gt [of "now' - now" now] assms(3) by (auto simp: less_diff_eq algebra_simps)
  finally show ?thesis by linarith
qed

lemma active_disciplined:
  "try_ok w ks (Try dt scopes) \<Longrightarrow> sc \<in> set (active_scopes scopes)
    \<Longrightarrow> sc_window sc = w (sc_key sc) \<and> 0 < rw_requests (w (sc_key sc)) \<and> 0 < rw_windowMs (w (sc_key sc))"
  by (auto simp: active_scopes_def list_all_iff)

lemma log_try_allowed:
  "mr_allowed (last (lg_results (log_try now scopes g)))
    \<longleftrightarrow> \<not> 0 < longest_retry now (map (log_live now (lg_log g)) (active_scopes scopes))"
  by (simp add: log_try_def Let_def)

section \<open>Properties\<close>

text \<open>
  C9: The sliding-window limiter refines a limiter that never forgets: over any run of acquisitions,
  releases and resets, its answers (granted or not, for how long to wait, and the lease) are those
  of the full log of outstanding grants, although the limiter drops hits that left their window. It
  holds while callers use one window per key, no key twice in a call and at most \<open>MAX_KEYS\<close> keys.
\<close>

theorem limiter_refines_log:
  assumes "length ks \<le> MAX_KEYS" and "list_all (try_ok w ks) evs"
  shows "lr_results (foldl limiter_step (start_limiter now) evs) = lg_results (foldl log_step (start_log now) evs)"
  using run_simulates [OF assms, of now] by (simp add: simulates_def)

definition minute :: "string \<Rightarrow> rate_window" where
  "minute k = (if k = ''global'' then \<lparr>rw_requests = 2, rw_windowMs = 1000\<rparr> else \<lparr>rw_requests = 1, rw_windowMs = 300\<rparr>)"

definition scope_of :: "string \<Rightarrow> rate_scope" where
  "scope_of k = \<lparr>sc_key = k, sc_window = minute k\<rparr>"

definition limiter_demo :: "limiter_event list" where
  "limiter_demo = [Try 0 [scope_of ''global'', scope_of ''a''], Try 100 [scope_of ''global'', scope_of ''a''],
     Try 50 [scope_of ''global'', scope_of ''b''], Try 500 [scope_of ''global''], Give_back [(''global'', 3)],
     Try 1 [scope_of ''global'']]"

lemma limiter_demo_ok: "list_all (try_ok minute [''global'', ''a'', ''b'']) limiter_demo"
  "length [''global'', ''a'', ''b''] \<le> MAX_KEYS"
  by (simp_all add: limiter_demo_def scope_of_def MAX_KEYS_def)

theorem limiter_refines_log_witness:
  "map mr_allowed (lg_results (foldl log_step (start_log 0) limiter_demo)) = [True, False, True, False, True]
   \<and> lr_results (foldl limiter_step (start_limiter 0) limiter_demo)
     = lg_results (foldl log_step (start_log 0) limiter_demo)"
proof -
  have "map mr_allowed (lg_results (foldl log_step (start_log 0) limiter_demo)) = [True, False, True, False, True]"
    by code_simp
  then show ?thesis using limiter_refines_log [OF limiter_demo_ok(2,1), of 0] by blast
qed

text \<open>
  No trailing window of a key ever holds more grants than the window allows: for every instant
  \<open>t\<close>, past or present, the grants of the key in the \<open>windowMs\<close> before it that were not given back
  are at most \<open>requests\<close>. There is no burst at a window boundary.
\<close>

theorem trailing_window_bound:
  assumes "length ks \<le> MAX_KEYS" and "list_all (try_ok w ks) evs"
    and "0 < rw_requests (w k)" and "0 < rw_windowMs (w k)"
    and "gl = lr_grants (foldl limiter_step (start_limiter now) evs)"
  shows "int (length (filter (\<lambda>h. t - rw_windowMs (w k) < hit_at h \<and> hit_at h \<le> t) (log_hits gl k)))
    \<le> rw_requests (w k)"
proof -
  have "caps (w k) (log_hits gl k)"
    using run_log_ok [OF assms(2), of now] run_simulates [OF assms(1,2), of now]
    by (simp add: log_ok_def simulates_def assms(5))
  then show ?thesis using assms(3,4) by (simp add: caps_def)
qed

theorem trailing_window_bound_witness:
  "let gl = lr_grants (foldl limiter_step (start_limiter 0) limiter_demo) in
   map hit_at (log_hits gl ''global'') = [0, 651]
   \<and> int (length (filter (\<lambda>h. 651 - 1000 < hit_at h \<and> hit_at h \<le> 651) (log_hits gl ''global''))) \<le> 2"
proof -
  define gl where "gl = lr_grants (foldl limiter_step (start_limiter 0) limiter_demo)"
  have "map hit_at (log_hits gl ''global'') = [0, 651]" unfolding gl_def by code_simp
  moreover have "rw_requests (minute ''global'') = 2" "rw_windowMs (minute ''global'') = 1000"
    by (simp_all add: minute_def)
  ultimately show ?thesis
    using trailing_window_bound [OF limiter_demo_ok(2,1) _ _ gl_def, of "''global''" 651]
    unfolding gl_def [symmetric] Let_def by simp
qed

text \<open>
  The wait a blocked acquisition returns is exact: when nothing else happens in between, the
  same call is granted from \<open>retryAfterMs\<close> milliseconds on and refused at every earlier instant,
  with several scopes at once too.
\<close>

theorem retry_after_exact:
  assumes "length ks \<le> MAX_KEYS" and "list_all (try_ok w ks) evs" and "try_ok w ks (Try dt scopes)"
    and "r = limiter_step (foldl limiter_step (start_limiter now) evs) (Try dt scopes)"
    and "\<not> mr_allowed (last (lr_results r))"
  shows "0 < mr_retryAfterMs (last (lr_results r))
    \<and> (mr_allowed (last (lr_results (limiter_step r (Try dt' scopes))))
        \<longleftrightarrow> mr_retryAfterMs (last (lr_results r)) \<le> int dt')"
proof -
  define g where "g = foldl log_step (start_log now) evs"
  define g1 where "g1 = log_step g (Try dt scopes)"
  define act where "act = active_scopes scopes"
  define t where "t = lg_now g + int dt"
  define wt where "wt = longest_retry t (map (log_live t (lg_log g)) act)"
  have s1: "simulates w ks (r, g1)"
    using run_simulates [OF assms(1), of w "evs @ [Try dt scopes]" now] assms(2,3)
    by (simp add: assms(4) g1_def g_def del: limiter_step.simps log_step.simps)
  have s2: "simulates w ks (limiter_step r (Try dt' scopes), log_step g1 (Try dt' scopes))"
    by (rule try_simulates [OF s1]) (use assms(3) in simp)
  have res: "lr_results r = lg_results g1"
    "lr_results (limiter_step r (Try dt' scopes)) = lg_results (log_step g1 (Try dt' scopes))"
    using s1 s2 by (simp_all add: simulates_def del: limiter_step.simps log_step.simps)
  have g1: "g1 = log_try t scopes g" by (simp add: g1_def t_def)
  have wait: "0 < wt" using assms(5) unfolding res(1) g1 log_try_allowed by (simp add: wt_def act_def)
  have keeps: "lg_log g1 = lg_log g" "lg_now g1 = t" and rt: "mr_retryAfterMs (last (lg_results g1)) = wt"
    using wait by (simp_all add: g1 log_try_def Let_def wt_def act_def)
  have "log_ok w g" unfolding g_def by (rule run_log_ok [OF assms(2)])
  from longest_retry_later [OF this, of t "t + int dt'" act] wait
  have "0 < longest_retry (t + int dt') (map (log_live (t + int dt') (lg_log g)) act) \<longleftrightarrow> int dt' < wt"
    using active_disciplined [OF assms(3)] by (simp add: wt_def act_def t_def del: try_ok.simps)
  then have "mr_allowed (last (lg_results (log_step g1 (Try dt' scopes)))) \<longleftrightarrow> \<not> int dt' < wt"
    by (simp only: log_step.simps log_try_allowed keeps act_def)
  then show ?thesis using wait unfolding res rt not_less by blast
qed

theorem retry_after_exact_witness:
  "let r = limiter_step (foldl limiter_step (start_limiter 0) (take 3 limiter_demo)) (Try 500 [scope_of ''global'']) in
   mr_retryAfterMs (last (lr_results r)) = 350
   \<and> \<not> mr_allowed (last (lr_results (limiter_step r (Try 349 [scope_of ''global'']))))
   \<and> mr_allowed (last (lr_results (limiter_step r (Try 350 [scope_of ''global'']))))"
proof -
  define r where "r = limiter_step (foldl limiter_step (start_limiter 0) (take 3 limiter_demo)) (Try 500 [scope_of ''global''])"
  have b: "\<not> mr_allowed (last (lr_results r))" "mr_retryAfterMs (last (lr_results r)) = 350"
    unfolding r_def by code_simp+
  have ok: "list_all (try_ok minute [''global'', ''a'', ''b'']) (take 3 limiter_demo)"
    "try_ok minute [''global'', ''a'', ''b''] (Try 500 [scope_of ''global''])"
    by (simp_all add: limiter_demo_def scope_of_def)
  from retry_after_exact [OF limiter_demo_ok(2) ok r_def b(1)] b(2) show ?thesis
    unfolding r_def [symmetric] Let_def by (simp del: limiter_step.simps)
qed

end
