(* ===== verification/RollingRpm.thy ===== *)
theory RollingRpm
  imports SlidingWindow
begin

text \<open>
  The rolling requests-per-minute gate of \<^verbatim>\<open>src/open-sse/services/rollingRpmGate.ts\<close>, which puts the
  sliding-window limiter, blocks after upstream rejections and windows learned from response headers
  in front of a request. The asynchronous loop of \<open>acquire\<close> is one function per round: a round
  answers or says for how long to sleep, and other calls happen between two rounds.
\<close>

subsection \<open>State\<close>

text \<open>What the callbacks of the options return.\<close>

record rpm_options =
  ro_globalRpm :: "int option"
  ro_providerWindow :: "string \<Rightarrow> rate_window option"
  ro_connectionRpm :: "string \<Rightarrow> int option"
  ro_limiterKey :: "string \<Rightarrow> string \<Rightarrow> string option \<Rightarrow> string"

record learned_window =
  lw_window :: rate_window
  lw_expiresAt :: int

record rpm_gate =
  rg_limiter :: limiter
  rg_blockedUntil :: "(string, int) js_map"
  rg_learned :: "(string, learned_window) js_map"

definition RPM_WINDOW_MS :: int where
  "RPM_WINDOW_MS = 60000"

definition new_rpm_gate :: rpm_gate where
  "new_rpm_gate = \<lparr>rg_limiter = new_limiter, rg_blockedUntil = [], rg_learned = []\<rparr>"

text \<open>Whom a call is for: provider, connection, model.\<close>

record rpm_target =
  rt_provider :: string
  rt_connection :: string
  rt_model :: "string option"

definition limiter_key :: "rpm_options \<Rightarrow> rpm_target \<Rightarrow> string" where
  "limiter_key o' tg = ro_limiterKey o' (rt_provider tg) (rt_connection tg) (rt_model tg)"

definition header_key :: "rpm_options \<Rightarrow> rpm_target \<Rightarrow> string" where
  "header_key o' tg = ''header:'' @ limiter_key o' tg"

abbreviation blocked_until :: "rpm_gate \<Rightarrow> string \<Rightarrow> int" where
  "blocked_until g k \<equiv> nullish (map_get (rg_blockedUntil g) k) 0"

definition drop_block :: "string \<Rightarrow> rpm_gate \<Rightarrow> rpm_gate" where
  "drop_block k g = g\<lparr>rg_blockedUntil := map_delete k (rg_blockedUntil g)\<rparr>"

subsection \<open>Scopes\<close>

text \<open>The scopes that the configuration gives, without the learned header window.\<close>

definition configured_scopes :: "rpm_options \<Rightarrow> rpm_target \<Rightarrow> rate_scope list" where
  "configured_scopes o' tg =
     (case ro_globalRpm o' of
        Some n \<Rightarrow> if 0 < n then [\<lparr>sc_key = ''global'', sc_window = \<lparr>rw_requests = n, rw_windowMs = RPM_WINDOW_MS\<rparr>\<rparr>] else []
      | None \<Rightarrow> [])
     @ (case ro_providerWindow o' (rt_provider tg) of
          Some w \<Rightarrow> [\<lparr>sc_key = ''provider:'' @ rt_provider tg, sc_window = w\<rparr>]
        | None \<Rightarrow> [])
     @ (case ro_connectionRpm o' (rt_connection tg) of
          Some n \<Rightarrow>
            if 0 < n
            then [\<lparr>sc_key = ''provider-account:'' @ rt_provider tg @ '':'' @ rt_connection tg,
                   sc_window = \<lparr>rw_requests = n, rw_windowMs = RPM_WINDOW_MS\<rparr>\<rparr>]
            else []
        | None \<Rightarrow> [])"

definition getScopes :: "rpm_options \<Rightarrow> int \<Rightarrow> rpm_target \<Rightarrow> rpm_gate \<Rightarrow> rate_scope list \<times> rpm_gate" where
  "getScopes o' now tg g =
     (let scopes = configured_scopes o' tg;
          headerKey = header_key o' tg;
          headerBlockedUntil = blocked_until g headerKey;
          headerRemainingMs = headerBlockedUntil - now
      in if 0 < headerRemainingMs
         then (scopes @ [\<lparr>sc_key = headerKey, sc_window = \<lparr>rw_requests = 1, rw_windowMs = headerRemainingMs\<rparr>\<rparr>], g)
         else
           let g1 = (if 0 < headerBlockedUntil then drop_block headerKey g else g)
           in case map_get (rg_learned g1) headerKey of
                None \<Rightarrow> (scopes, g1)
              | Some lw \<Rightarrow>
                  if now < lw_expiresAt lw then (scopes @ [\<lparr>sc_key = headerKey, sc_window = lw_window lw\<rparr>], g1)
                  else (scopes, g1\<lparr>rg_learned := map_delete headerKey (rg_learned g1)\<rparr>))"

subsection \<open>Acquisition\<close>

text \<open>
  How a round ends: with a lease (none when no scope applies), with one of the two errors (a timeout
  names its reason: the upstream cooldown or the local queue), or with a sleep.
\<close>

datatype rpm_outcome = Granted "lease option" | Rpm_aborted | Rpm_timeout bool | Sleep int

definition scope_block :: "int \<Rightarrow> int \<times> rpm_gate \<Rightarrow> rate_scope \<Rightarrow> int \<times> rpm_gate" where
  "scope_block now = (\<lambda>(until, g) sc.
     let scopeBlocked = blocked_until g (sc_key sc)
     in if now < scopeBlocked then (max until scopeBlocked, g)
        else if 0 < scopeBlocked then (until, drop_block (sc_key sc) g) else (until, g))"

definition sleep_or_timeout :: "int \<Rightarrow> int \<Rightarrow> int \<Rightarrow> bool \<Rightarrow> int \<Rightarrow> rpm_outcome" where
  "sleep_or_timeout maxWaitMs startedAt now cooldown ms =
     (let remainingMs = (if 0 < maxWaitMs then maxWaitMs - (now - startedAt) else ms)
      in if 0 < maxWaitMs \<and> remainingMs \<le> 0 then Rpm_timeout cooldown
         else Sleep (min ms (if 0 < maxWaitMs then remainingMs else ms)))"

definition rpm_round ::
  "rpm_options \<Rightarrow> rpm_target \<Rightarrow> int \<Rightarrow> int \<Rightarrow> bool \<Rightarrow> int \<Rightarrow> rpm_gate \<Rightarrow> rpm_outcome \<times> rpm_gate" where
  "rpm_round o' tg maxWaitMs startedAt aborted now g =
     (if aborted then (Rpm_aborted, g)
      else
        let (scopes, g1) = getScopes o' now tg g; blockKey = limiter_key o' tg
        in if scopes = [] \<and> blocked_until g1 blockKey \<le> now then (Granted None, g1)
           else
             let blockedUntil = blocked_until g1 blockKey;
                 g2 = (if blockedUntil \<le> now then drop_block blockKey g1 else g1);
                 (scopeBlockedUntil, g3) = foldl (scope_block now) (0, g2) scopes;
                 forcedWaitMs = max 0 (max (blockedUntil - now) (scopeBlockedUntil - now))
             in if forcedWaitMs = 0 then
                  let (res, l) = tryAcquireMany now scopes (rg_limiter g3); g4 = g3\<lparr>rg_limiter := l\<rparr>
                  in if mr_allowed res then (Granted (mr_lease res), g4)
                     else (sleep_or_timeout maxWaitMs startedAt now False (max 1 (mr_retryAfterMs res)), g4)
                else (sleep_or_timeout maxWaitMs startedAt now True forcedWaitMs, g3))"

text \<open>The check before the loop, which does not look at the signal, and the first round.\<close>

definition rpm_begin ::
  "rpm_options \<Rightarrow> rpm_target \<Rightarrow> int \<Rightarrow> int \<Rightarrow> bool \<Rightarrow> int \<Rightarrow> rpm_gate \<Rightarrow> rpm_outcome \<times> rpm_gate" where
  "rpm_begin o' tg maxWaitMs startedAt aborted now g =
     (let (scopes, g1) = getScopes o' now tg g
      in if scopes = [] \<and> blocked_until g1 (limiter_key o' tg) \<le> now then (Granted None, g1)
         else rpm_round o' tg maxWaitMs startedAt aborted now g1)"

text \<open>
  How a sleep ends: the signal aborts it, or the timer fires, some milliseconds late, after other
  calls changed the gate. \<^const>\<open>None\<close> is an acquisition that still sleeps.
\<close>

datatype wake = Abort_signal | Timer nat "rpm_gate \<Rightarrow> rpm_gate"

fun rpm_resume ::
  "rpm_options \<Rightarrow> rpm_target \<Rightarrow> int \<Rightarrow> int \<Rightarrow> int \<Rightarrow> rpm_outcome \<times> rpm_gate \<Rightarrow> wake list \<Rightarrow> (rpm_outcome \<times> rpm_gate) option" where
  "rpm_resume o' tg maxWaitMs startedAt now (Sleep ms, g) [] = None"
| "rpm_resume o' tg maxWaitMs startedAt now (Sleep ms, g) (Abort_signal # ws) = Some (Rpm_aborted, g)"
| "rpm_resume o' tg maxWaitMs startedAt now (Sleep ms, g) (Timer late f # ws) =
     (let now' = now + ms + int late
      in rpm_resume o' tg maxWaitMs startedAt now' (rpm_round o' tg maxWaitMs startedAt False now' (f g)) ws)"
| "rpm_resume o' tg maxWaitMs startedAt now (oc, g) ws = Some (oc, g)"

definition rpm_acquire ::
  "rpm_options \<Rightarrow> rpm_target \<Rightarrow> int \<Rightarrow> int \<Rightarrow> bool \<Rightarrow> int \<Rightarrow> rpm_gate \<Rightarrow> wake list \<Rightarrow> (rpm_outcome \<times> rpm_gate) option" where
  "rpm_acquire o' tg maxWaitMs startedAt aborted now g ws =
     rpm_resume o' tg maxWaitMs startedAt now (rpm_begin o' tg maxWaitMs startedAt aborted now g) ws"

subsection \<open>What responses teach, and cleaning up\<close>

definition block :: "rpm_options \<Rightarrow> rpm_target \<Rightarrow> int \<Rightarrow> int \<Rightarrow> rpm_gate \<Rightarrow> rpm_gate" where
  "block o' tg retryAfterMs now g =
     (if 0 < retryAfterMs
      then g\<lparr>rg_blockedUntil := map_set (limiter_key o' tg) (now + retryAfterMs) (rg_blockedUntil g)\<rparr> else g)"

definition learnHeaderWindow :: "rpm_options \<Rightarrow> rpm_target \<Rightarrow> int \<Rightarrow> int \<Rightarrow> int \<Rightarrow> rpm_gate \<Rightarrow> rpm_gate" where
  "learnHeaderWindow o' tg requests windowMs expiresAt g =
     (let key = header_key o' tg in
      if requests \<le> 0
      then g\<lparr>rg_learned := map_delete key (rg_learned g),
             rg_blockedUntil := map_set key expiresAt (rg_blockedUntil g)\<rparr>
      else g\<lparr>rg_blockedUntil := map_delete key (rg_blockedUntil g),
             rg_learned := map_set key \<lparr>lw_window = \<lparr>rw_requests = requests, rw_windowMs = windowMs\<rparr>,
                                        lw_expiresAt = expiresAt\<rparr> (rg_learned g)\<rparr>)"

definition clearLearnedHeaderWindow :: "rpm_options \<Rightarrow> rpm_target \<Rightarrow> rpm_gate \<Rightarrow> rpm_gate" where
  "clearLearnedHeaderWindow o' tg g =
     g\<lparr>rg_learned := map_delete (header_key o' tg) (rg_learned g),
       rg_blockedUntil := map_delete (header_key o' tg) (rg_blockedUntil g)\<rparr>"

definition keyContainsConnection :: "string \<Rightarrow> string \<Rightarrow> bool" where
  "keyContainsConnection key connectionId \<longleftrightarrow>
     (let marker = '':'' @ connectionId in ends_with key marker \<or> str_includes key (marker @ '':''))"

definition clearConnection :: "string \<Rightarrow> rpm_gate \<Rightarrow> rpm_gate" where
  "clearConnection connectionId g =
     g\<lparr>rg_blockedUntil := filter (\<lambda>(k, _). \<not> keyContainsConnection k connectionId) (rg_blockedUntil g),
       rg_learned := filter (\<lambda>(k, _). \<not> keyContainsConnection k connectionId) (rg_learned g)\<rparr>"

definition reset_rpm :: "rpm_gate \<Rightarrow> rpm_gate" where
  "reset_rpm g = \<lparr>rg_limiter = reset_limiter None (rg_limiter g), rg_blockedUntil = [], rg_learned = []\<rparr>"

definition cleanupExpired :: "int \<Rightarrow> rpm_gate \<Rightarrow> rpm_gate" where
  "cleanupExpired now g =
     g\<lparr>rg_blockedUntil := filter (\<lambda>(_, expiresAt). now < expiresAt) (rg_blockedUntil g),
       rg_learned := filter (\<lambda>(_, lw). now < lw_expiresAt lw) (rg_learned g)\<rparr>"

subsection \<open>Every acquisition ends\<close>

lemma sleep_bounds:
  "sleep_or_timeout mx st now cd ms' = Sleep ms \<Longrightarrow> 0 < mx \<Longrightarrow> 1 \<le> ms' \<Longrightarrow> 1 \<le> ms \<and> now + ms \<le> st + mx"
  by (auto simp: sleep_or_timeout_def Let_def split: if_splits)

lemma round_sleep:
  assumes "rpm_round o' tg mx st ab now g = (Sleep ms, g')" and "0 < mx"
  shows "1 \<le> ms \<and> now + ms \<le> st + mx"
proof -
  obtain cd ms' where "sleep_or_timeout mx st now cd ms' = Sleep ms" "1 \<le> ms'"
    using assms(1) that by (auto simp: rpm_round_def Let_def split_beta split: if_splits)
  then show ?thesis using sleep_bounds assms(2) by blast
qed

lemma begin_sleep:
  "rpm_begin o' tg mx st ab now g = (Sleep ms, g') \<Longrightarrow> 0 < mx \<Longrightarrow> 1 \<le> ms \<and> now + ms \<le> st + mx"
  by (auto simp: rpm_begin_def Let_def split_beta split: if_splits dest: round_sleep)

lemma resume_ends:
  assumes "0 < mx" and "\<And>ms g'. r = (Sleep ms, g') \<Longrightarrow> 1 \<le> ms \<and> now + ms \<le> st + mx"
    and "st + mx - now \<le> int (length ws)"
  shows "\<exists>oc g'. rpm_resume o' tg mx st now r ws = Some (oc, g') \<and> (\<forall>ms. oc \<noteq> Sleep ms)"
  using assms(2,3)
proof (induction ws arbitrary: now r)
  case Nil
  then show ?case by (cases r; cases "fst r") fastforce+
next
  case (Cons x ws)
  obtain oc g where r: "r = (oc, g)" by (cases r)
  show ?case
  proof (cases oc)
    case (Sleep ms)
    have ms: "1 \<le> ms" using Cons.prems(1) r Sleep by blast
    show ?thesis
    proof (cases x)
      case Abort_signal
      then show ?thesis using r Sleep by simp
    next
      case (Timer late f)
      let ?t = "now + ms + int late"
      have "\<exists>oc g'. rpm_resume o' tg mx st ?t (rpm_round o' tg mx st False ?t (f g)) ws = Some (oc, g')
          \<and> (\<forall>ms. oc \<noteq> Sleep ms)"
      proof (rule Cons.IH)
        show "1 \<le> m \<and> ?t + m \<le> st + mx" if "rpm_round o' tg mx st False ?t (f g) = (Sleep m, g')" for m g'
          by (rule round_sleep [OF that assms(1)])
        show "st + mx - ?t \<le> int (length ws)" using Cons.prems(2) ms by simp
      qed
      then show ?thesis using r Sleep Timer by (simp add: Let_def)
    qed
  qed (simp_all add: r)
qed

subsection \<open>A window the provider declared used up\<close>

text \<open>Calls of any callers on the gate, each at its time; \<open>k\<close> is the header key that is blocked.\<close>

datatype rpm_event =
    Begin rpm_target int int bool
  | Round rpm_target int int bool
  | Block rpm_target int
  | Learn rpm_target int int int
  | Clear rpm_target
  | Cleanup

fun rpm_step :: "rpm_options \<Rightarrow> rpm_gate \<Rightarrow> int \<times> rpm_event \<Rightarrow> rpm_gate" where
  "rpm_step o' g (now, Begin tg mx st ab) = snd (rpm_begin o' tg mx st ab now g)"
| "rpm_step o' g (now, Round tg mx st ab) = snd (rpm_round o' tg mx st ab now g)"
| "rpm_step o' g (now, Block tg ms) = block o' tg ms now g"
| "rpm_step o' g (now, Learn tg n w ex) = learnHeaderWindow o' tg n w ex g"
| "rpm_step o' g (now, Clear tg) = clearLearnedHeaderWindow o' tg g"
| "rpm_step o' g (now, Cleanup) = cleanupExpired now g"

fun spares :: "rpm_options \<Rightarrow> string \<Rightarrow> rpm_event \<Rightarrow> bool" where
  "spares o' k (Learn tg n w ex) \<longleftrightarrow> header_key o' tg \<noteq> k"
| "spares o' k (Clear tg) \<longleftrightarrow> header_key o' tg \<noteq> k"
| "spares o' k ev \<longleftrightarrow> True"

definition blocked_at :: "string \<Rightarrow> int \<Rightarrow> rpm_gate \<Rightarrow> bool" where
  "blocked_at k ex g \<longleftrightarrow> map_get (rg_blockedUntil g) k = Some ex"

lemma getScopes_blocked:
  "blocked_at k ex g \<Longrightarrow> now < ex \<Longrightarrow> blocked_at k ex (snd (getScopes o' now tg g))"
  by (auto simp: getScopes_def Let_def blocked_at_def drop_block_def split: option.splits)

lemma scope_block_fold:
  assumes "blocked_at k ex g" and "now < ex"
  shows "blocked_at k ex (snd (foldl (scope_block now) (u, g) scs))
    \<and> u \<le> fst (foldl (scope_block now) (u, g) scs)
    \<and> (k \<in> sc_key ` set scs \<longrightarrow> ex \<le> fst (foldl (scope_block now) (u, g) scs))"
  using assms(1)
proof (induction scs arbitrary: u g)
  case (Cons sc scs)
  obtain u1 g1 where s: "scope_block now (u, g) sc = (u1, g1)" by (cases "scope_block now (u, g) sc")
  have "blocked_at k ex g1" "u \<le> u1" "k = sc_key sc \<longrightarrow> ex \<le> u1"
    using s Cons.prems assms(2)
    by (auto simp: scope_block_def Let_def blocked_at_def drop_block_def split: if_splits)
  then show ?case using Cons.IH [of g1 u1] by (auto simp: s)
qed simp

lemma round_blocked:
  assumes "blocked_at k ex g" and "now < ex" and "limiter_key o' tg \<noteq> k"
  shows "blocked_at k ex (snd (rpm_round o' tg mx st ab now g))
    \<and> (k = header_key o' tg \<longrightarrow> fst (rpm_round o' tg mx st ab now g) \<in> {Rpm_aborted, Rpm_timeout True} \<union> range Sleep)"
proof (cases ab)
  case True
  then show ?thesis using assms(1) by (simp add: rpm_round_def)
next
  case False
  obtain scs g1 where s: "getScopes o' now tg g = (scs, g1)" by (cases "getScopes o' now tg g")
  define bu where "bu = blocked_until g1 (limiter_key o' tg)"
  define g2 where "g2 = (if bu \<le> now then drop_block (limiter_key o' tg) g1 else g1)"
  obtain u g3 where f: "foldl (scope_block now) (0, g2) scs = (u, g3)"
    by (cases "foldl (scope_block now) (0, g2) scs")
  have b1: "blocked_at k ex g1" using getScopes_blocked [OF assms(1,2), of o' tg] by (simp add: s)
  then have "blocked_at k ex g2" using assms(3) by (simp add: g2_def drop_block_def blocked_at_def)
  from scope_block_fold [OF this assms(2), of 0 scs]
  have b3: "blocked_at k ex g3" "k \<in> sc_key ` set scs \<longrightarrow> ex \<le> u" by (simp_all add: f)
  have hdr: "k = header_key o' tg \<Longrightarrow> k \<in> sc_key ` set scs"
    using s assms(1,2) by (auto simp: getScopes_def Let_def blocked_at_def)
  define fw where "fw = max 0 (max (bu - now) (u - now))"
  have r: "rpm_round o' tg mx st ab now g =
      (if scs = [] \<and> bu \<le> now then (Granted None, g1)
       else if fw = 0 then
         let (res, l) = tryAcquireMany now scs (rg_limiter g3); g4 = g3\<lparr>rg_limiter := l\<rparr>
         in if mr_allowed res then (Granted (mr_lease res), g4)
            else (sleep_or_timeout mx st now False (max 1 (mr_retryAfterMs res)), g4)
       else (sleep_or_timeout mx st now True fw, g3))"
    using False by (simp add: rpm_round_def s f bu_def [symmetric] g2_def [symmetric] fw_def [symmetric] Let_def)
  have "k = header_key o' tg \<Longrightarrow> scs \<noteq> [] \<and> fw \<noteq> 0" using hdr b3(2) assms(2) by (auto simp: fw_def)
  moreover have "sleep_or_timeout mx st now True fw \<in> {Rpm_aborted, Rpm_timeout True} \<union> range Sleep"
    by (simp add: sleep_or_timeout_def Let_def)
  moreover have "blocked_at k ex (g3\<lparr>rg_limiter := l\<rparr>)" for l using b3(1) by (simp add: blocked_at_def)
  ultimately show ?thesis using b1 b3 unfolding r by (auto simp: Let_def split_beta)
qed

lemma begin_blocked:
  assumes "blocked_at k ex g" and "now < ex" and "limiter_key o' tg \<noteq> k"
  shows "blocked_at k ex (snd (rpm_begin o' tg mx st ab now g))
    \<and> (k = header_key o' tg \<longrightarrow> fst (rpm_begin o' tg mx st ab now g) \<in> {Rpm_aborted, Rpm_timeout True} \<union> range Sleep)"
proof -
  have "k = header_key o' tg \<Longrightarrow> fst (getScopes o' now tg g) \<noteq> []"
    using assms(1,2) by (simp add: getScopes_def Let_def blocked_at_def)
  then show ?thesis
    using getScopes_blocked [OF assms(1,2), of o' tg]
      round_blocked [OF getScopes_blocked [OF assms(1,2), of o' tg] assms(2,3)]
    by (auto simp: rpm_begin_def Let_def split_beta)
qed

lemma map_of_filter_kept: "map_of m k = Some v \<Longrightarrow> P (k, v) \<Longrightarrow> map_of (filter P m) k = Some v"
  by (induction m) (auto split: if_splits)

lemma step_blocked:
  assumes "blocked_at k ex g" and "now < ex" and "spares o' k ev" and "\<And>tg. limiter_key o' tg \<noteq> k"
  shows "blocked_at k ex (rpm_step o' g (now, ev))"
  using assms round_blocked [OF assms(1,2)] begin_blocked [OF assms(1,2)]
  by (cases ev) (auto simp: block_def learnHeaderWindow_def clearLearnedHeaderWindow_def cleanupExpired_def
      blocked_at_def Let_def intro: map_of_filter_kept)

interpretation exhausted: step_invariant "rpm_step o'"
  "\<lambda>p. fst p < ex \<and> spares o' k (snd p) \<and> (\<forall>tg. limiter_key o' tg \<noteq> k)" "blocked_at k ex" for o' k ex
  by unfold_locales (auto intro: step_blocked)

section \<open>Properties\<close>

text \<open>
  With a maximal wait an acquisition always comes to an end, whatever the other callers do to
  the gate between its rounds and however late its timers fire: it sleeps at least a millisecond at
  a time and never past its deadline, so after at most as many sleeps as the wait has milliseconds
  left it holds a lease, was aborted, or failed with a timeout.
\<close>

theorem rpm_acquire_ends:
  assumes "0 < maxWaitMs" and "startedAt + maxWaitMs - now \<le> int (length ws)"
  shows "\<exists>oc g'. rpm_acquire o' tg maxWaitMs startedAt aborted now g ws = Some (oc, g') \<and> (\<forall>ms. oc \<noteq> Sleep ms)"
  unfolding rpm_acquire_def
proof (rule resume_ends [OF assms(1)])
  show "1 \<le> ms \<and> now + ms \<le> startedAt + maxWaitMs"
    if "rpm_begin o' tg maxWaitMs startedAt aborted now g = (Sleep ms, g')" for ms g'
    by (rule begin_sleep [OF that assms(1)])
qed (rule assms(2))

definition demo_options :: rpm_options where
  "demo_options = \<lparr>ro_globalRpm = None, ro_providerWindow = \<lambda>_. None,
     ro_connectionRpm = \<lambda>c. if c = ''c1'' then Some 1 else None,
     ro_limiterKey = \<lambda>p c m. ''key:'' @ p @ '':'' @ c\<rparr>"

definition demo_target :: rpm_target where
  "demo_target = \<lparr>rt_provider = ''p'', rt_connection = ''c1'', rt_model = None\<rparr>"

definition busy_gate :: rpm_gate where
  "busy_gate = snd (rpm_begin demo_options demo_target 0 0 False 0 new_rpm_gate)"

theorem rpm_acquire_ends_witness:
  "fst (rpm_begin demo_options demo_target 2 10 False 10 busy_gate) = Sleep 2
   \<and> (\<exists>oc g'. rpm_acquire demo_options demo_target 2 10 False 10 busy_gate [Timer 5 id, Timer 0 id] = Some (oc, g')
        \<and> (\<forall>ms. oc \<noteq> Sleep ms))"
proof -
  have "fst (rpm_begin demo_options demo_target 2 10 False 10 busy_gate) = Sleep 2"
    unfolding busy_gate_def by code_simp
  then show ?thesis using rpm_acquire_ends [of 2 10 10 "[Timer 5 id, Timer 0 id]"] by simp
qed

text \<open>
  When a response says that no requests are left until \<open>expiresAt\<close>, nothing for that limiter key
  is let through before: whatever other calls do to the gate in the meantime (acquisitions, blocks,
  clean-ups, headers of other keys), an attempt at an earlier instant sleeps, is aborted, or times
  out with the upstream cooldown as its reason. Keys of limiters and of headers are taken apart.
\<close>

theorem exhausted_header_blocks:
  assumes "requests \<le> 0" and "\<And>tg'. limiter_key o' tg' \<noteq> header_key o' tg"
    and "\<And>t ev. (t, ev) \<in> set evs \<Longrightarrow> t < expiresAt \<and> spares o' (header_key o' tg) ev"
    and "g = foldl (rpm_step o') (learnHeaderWindow o' tg requests windowMs expiresAt g0) evs" and "now < expiresAt"
  shows "fst (rpm_begin o' tg mx st ab now g) \<in> {Rpm_aborted, Rpm_timeout True} \<union> range Sleep
    \<and> fst (rpm_round o' tg mx st ab now g) \<in> {Rpm_aborted, Rpm_timeout True} \<union> range Sleep"
proof -
  let ?k = "header_key o' tg"
  have "blocked_at ?k expiresAt (learnHeaderWindow o' tg requests windowMs expiresAt g0)"
    using assms(1) by (simp add: learnHeaderWindow_def blocked_at_def Let_def)
  then have "blocked_at ?k expiresAt g"
    unfolding assms(4)
    by (rule exhausted.run_inv [where o' = o']) (use assms(2,3) in \<open>force simp: list_all_iff\<close>)
  then show ?thesis
    using begin_blocked [OF _ assms(5,2)] round_blocked [OF _ assms(5,2)] by simp
qed

theorem exhausted_header_blocks_witness:
  "let g = foldl (rpm_step demo_options) (learnHeaderWindow demo_options demo_target 0 1000 5000 new_rpm_gate)
             [(100, Begin demo_target 0 100 False), (200, Block demo_target 50), (4000, Cleanup)]
   in fst (rpm_round demo_options demo_target 3000 2000 False 4999 g) = Sleep 1
    \<and> fst (rpm_begin demo_options demo_target 3000 2000 False 4999 g) \<in> {Rpm_aborted, Rpm_timeout True} \<union> range Sleep"
proof -
  define g where "g = foldl (rpm_step demo_options) (learnHeaderWindow demo_options demo_target 0 1000 5000 new_rpm_gate)
             [(100, Begin demo_target 0 100 False), (200, Block demo_target 50), (4000, Cleanup)]"
  have "fst (rpm_round demo_options demo_target 3000 2000 False 4999 g) = Sleep 1"
    unfolding g_def by code_simp
  moreover have "limiter_key demo_options tg' \<noteq> header_key demo_options demo_target" for tg'
    by (simp add: limiter_key_def header_key_def demo_options_def)
  moreover have "t < 5000 \<and> spares demo_options (header_key demo_options demo_target) ev"
    if "(t, ev) \<in> set [(100, Begin demo_target 0 100 False), (200, Block demo_target 50), (4000, Cleanup)]" for t :: int and ev
    using that by auto
  ultimately show ?thesis
    using exhausted_header_blocks [OF order_refl _ _ g_def, of 4999 3000 2000 False]
    unfolding g_def [symmetric] Let_def by (simp only: simp_thms)
qed

end
