(* ===== verification/RateSemaphore.thy ===== *)
theory RateSemaphore
  imports Prelude
begin

text \<open>
  The per-model concurrency limiter of \<^verbatim>\<open>src/open-sse/services/rateLimitSemaphore.ts\<close>. Gates are objects
  that timers keep hold of after the map has dropped them, so they live in a store and the map holds
  their addresses. Leases that are out, timers that are pending and promises that were settled are
  part of the state.
\<close>

subsection \<open>State\<close>

record model_gate =
  mg_running :: int
  mg_max :: int
  mg_queue :: "nat list"
  mg_rateLimitedUntil :: "int option"

datatype sem_settlement = Slot nat | Timed_out_in_queue | Reset_by_test

record cooldown_timer =
  ct_gate :: nat
  ct_model :: string
  ct_due :: int

text \<open>
  \<open>rs_leases\<close> are the slots not given back, by lease; \<open>rs_timers\<close> the waiters' timeouts with the
  gate object each one captured.
\<close>

record rate_sem =
  rs_store :: "(nat, model_gate) js_map"
  rs_gates :: "(string, nat) js_map"
  rs_leases :: "(nat, string) js_map"
  rs_timers :: "(nat, nat) js_map"
  rs_cooldowns :: "cooldown_timer list"
  rs_settled :: "(nat \<times> sem_settlement) list"
  rs_next :: nat

datatype sem_outcome = Acquired nat | Waiting nat | Queue_full

definition new_sem :: rate_sem where
  "new_sem = \<lparr>rs_store = [], rs_gates = [], rs_leases = [], rs_timers = [], rs_cooldowns = [],
    rs_settled = [], rs_next = 0\<rparr>"

subsection \<open>Gates\<close>

definition put_gate :: "nat \<Rightarrow> model_gate \<Rightarrow> rate_sem \<Rightarrow> rate_sem" where
  "put_gate a g s = s\<lparr>rs_store := map_set a g (rs_store s)\<rparr>"

definition gate_at :: "rate_sem \<Rightarrow> nat \<Rightarrow> model_gate" where
  "gate_at s a = nullish (map_get (rs_store s) a)
     \<lparr>mg_running = 0, mg_max = 0, mg_queue = [], mg_rateLimitedUntil = None\<rparr>"

definition drop_gate :: "string \<Rightarrow> rate_sem \<Rightarrow> rate_sem" where
  "drop_gate m s = s\<lparr>rs_gates := map_delete m (rs_gates s)\<rparr>"

definition gate_idle :: "model_gate \<Rightarrow> bool" where
  "gate_idle g \<longleftrightarrow> mg_running g = 0 \<and> mg_queue g = []"

definition DEFAULT_CONCURRENCY :: int where
  "DEFAULT_CONCURRENCY = 3"

definition getGate :: "string \<Rightarrow> int \<Rightarrow> rate_sem \<Rightarrow> nat \<times> rate_sem" where
  "getGate m maxConcurrency s0 =
     (let s = (if map_has (rs_gates s0) m then s0
               else s0\<lparr>rs_store := map_set (rs_next s0) \<lparr>mg_running = 0, mg_max = maxConcurrency,
                                     mg_queue = [], mg_rateLimitedUntil = None\<rparr> (rs_store s0),
                       rs_gates := map_set m (rs_next s0) (rs_gates s0), rs_next := rs_next s0 + 1\<rparr>);
          a = nullish (map_get (rs_gates s) m) 0
      in (a, put_gate a ((gate_at s a)\<lparr>mg_max := maxConcurrency\<rparr>) s))"

text \<open>The answer of \<open>isRateLimited\<close>, and the gate after it: an expired limit is cleared.\<close>

definition isRateLimited :: "int \<Rightarrow> model_gate \<Rightarrow> bool" where
  "isRateLimited now g \<longleftrightarrow> truthy (mg_rateLimitedUntil g) \<and> now < or_else (mg_rateLimitedUntil g) 0"

definition clear_expired :: "int \<Rightarrow> model_gate \<Rightarrow> model_gate" where
  "clear_expired now g =
     (if truthy (mg_rateLimitedUntil g) \<and> or_else (mg_rateLimitedUntil g) 0 \<le> now
      then g\<lparr>mg_rateLimitedUntil := None\<rparr> else g)"

text \<open>A slot for the model: the release function that \<open>createReleaseFn\<close> returns is a lease.\<close>

definition createReleaseFn :: "string \<Rightarrow> rate_sem \<Rightarrow> nat \<times> rate_sem" where
  "createReleaseFn m s =
     (rs_next s, s\<lparr>rs_leases := map_set (rs_next s) m (rs_leases s), rs_next := rs_next s + 1\<rparr>)"

definition resolve_waiter :: "string \<Rightarrow> nat \<Rightarrow> rate_sem \<Rightarrow> rate_sem" where
  "resolve_waiter m w s =
     (let (i, s1) = createReleaseFn m (s\<lparr>rs_timers := map_delete w (rs_timers s)\<rparr>)
      in s1\<lparr>rs_settled := rs_settled s1 @ [(w, Slot i)]\<rparr>)"

text \<open>The loop of \<open>drainQueue\<close> over the gate's queue.\<close>

fun serve :: "int \<Rightarrow> string \<Rightarrow> nat list \<Rightarrow> model_gate \<Rightarrow> rate_sem \<Rightarrow> model_gate \<times> rate_sem" where
  "serve now m [] g s = (g\<lparr>mg_queue := []\<rparr>, s)"
| "serve now m (w # ws) g s =
     (if mg_running g < mg_max g then
        if isRateLimited now g then (g\<lparr>mg_queue := w # ws\<rparr>, s)
        else serve now m ws ((clear_expired now g)\<lparr>mg_running := mg_running g + 1\<rparr>) (resolve_waiter m w s)
      else (g\<lparr>mg_queue := w # ws\<rparr>, s))"

definition drainQueue :: "int \<Rightarrow> string \<Rightarrow> rate_sem \<Rightarrow> rate_sem" where
  "drainQueue now m s =
     (case map_get (rs_gates s) m of
        None \<Rightarrow> s
      | Some a \<Rightarrow>
          let (g, s1) = serve now m (mg_queue (gate_at s a)) (gate_at s a) s; s2 = put_gate a g s1
          in if gate_idle g then drop_gate m s2 else s2)"

subsection \<open>Operations\<close>

text \<open>The release function of a lease; it does nothing the second time.\<close>

definition release_slot :: "int \<Rightarrow> nat \<Rightarrow> rate_sem \<Rightarrow> rate_sem" where
  "release_slot now i s0 =
     (case map_get (rs_leases s0) i of
        None \<Rightarrow> s0
      | Some m \<Rightarrow>
          let s = s0\<lparr>rs_leases := map_delete i (rs_leases s0)\<rparr>
          in case map_get (rs_gates s) m of
               None \<Rightarrow> s
             | Some a \<Rightarrow>
                 if 0 < mg_running (gate_at s a) then
                   let g = (gate_at s a)\<lparr>mg_running := mg_running (gate_at s a) - 1\<rparr>; s1 = put_gate a g s
                   in if gate_idle g then drop_gate m s1 else drainQueue now m s1
                 else s)"

definition acquire_slot :: "int \<Rightarrow> string \<Rightarrow> int \<Rightarrow> int option \<Rightarrow> rate_sem \<Rightarrow> sem_outcome \<times> rate_sem" where
  "acquire_slot now m maxConcurrency maxQueueSize s0 =
     (let (a, s1) = getGate m maxConcurrency s0;
          g0 = gate_at s1 a;
          g = (if mg_running g0 < mg_max g0 then clear_expired now g0 else g0);
          s = put_gate a g s1
      in if mg_running g0 < mg_max g0 \<and> \<not> isRateLimited now g0 then
           let (i, s2) = createReleaseFn m (put_gate a (g\<lparr>mg_running := mg_running g + 1\<rparr>) s)
           in (Acquired i, s2)
         else if (case maxQueueSize of None \<Rightarrow> False | Some n \<Rightarrow> 0 \<le> n \<and> n \<le> int (length (mg_queue g)))
         then (Queue_full, if gate_idle g then drop_gate m s else s)
         else
           let w = rs_next s; s2 = s\<lparr>rs_timers := map_set w a (rs_timers s), rs_next := w + 1\<rparr>
           in (Waiting w, put_gate a (g\<lparr>mg_queue := mg_queue g @ [w]\<rparr>) s2))"

text \<open>A waiter's timer fires.\<close>

definition wait_times_out :: "nat \<Rightarrow> rate_sem \<Rightarrow> rate_sem" where
  "wait_times_out w s =
     (case map_get (rs_timers s) w of
        None \<Rightarrow> s
      | Some a \<Rightarrow>
          let g = gate_at s a; s1 = s\<lparr>rs_timers := map_delete w (rs_timers s)\<rparr>;
              s2 = put_gate a (g\<lparr>mg_queue := remove1 w (mg_queue g)\<rparr>) s1
          in s2\<lparr>rs_settled := rs_settled s2 @ [(w, Timed_out_in_queue)]\<rparr>)"

definition markRateLimited :: "int \<Rightarrow> string \<Rightarrow> int \<Rightarrow> rate_sem \<Rightarrow> rate_sem" where
  "markRateLimited now m cooldownMs s0 =
     (let (a, s) = getGate m DEFAULT_CONCURRENCY s0;
          s1 = put_gate a ((gate_at s a)\<lparr>mg_rateLimitedUntil := Some (now + cooldownMs)\<rparr>) s
      in s1\<lparr>rs_cooldowns := rs_cooldowns s1 @ [\<lparr>ct_gate = a, ct_model = m, ct_due = now + cooldownMs + 50\<rparr>]\<rparr>)"

text \<open>The \<open>n\<close>th pending cooldown timer fires; it looks at the gate object it was made for.\<close>

definition cooldown_fires :: "int \<Rightarrow> nat \<Rightarrow> rate_sem \<Rightarrow> rate_sem" where
  "cooldown_fires now n s0 =
     (case drop n (rs_cooldowns s0) of
        [] \<Rightarrow> s0
      | c # cs \<Rightarrow>
          let s = s0\<lparr>rs_cooldowns := take n (rs_cooldowns s0) @ cs\<rparr>; g = gate_at s (ct_gate c)
          in if truthy (mg_rateLimitedUntil g) \<and> or_else (mg_rateLimitedUntil g) 0 \<le> now
             then drainQueue now (ct_model c) (put_gate (ct_gate c) (g\<lparr>mg_rateLimitedUntil := None\<rparr>) s)
             else s)"

text \<open>Per model: running, queued, max and the end of the rate limit.\<close>

definition sem_stats :: "rate_sem \<Rightarrow> (string \<times> int \<times> nat \<times> int \<times> int option) list" where
  "sem_stats s = map (\<lambda>(m, a). let g = gate_at s a in
     (m, mg_running g, length (mg_queue g), mg_max g,
      if truthy (mg_rateLimitedUntil g) then mg_rateLimitedUntil g else None)) (rs_gates s)"

definition reset_waiter :: "rate_sem \<Rightarrow> nat \<Rightarrow> rate_sem" where
  "reset_waiter s w = s\<lparr>rs_timers := map_delete w (rs_timers s), rs_settled := rs_settled s @ [(w, Reset_by_test)]\<rparr>"

definition sem_resetAll :: "rate_sem \<Rightarrow> rate_sem" where
  "sem_resetAll s =
     (foldl reset_waiter s (concat (map (\<lambda>(m, a). mg_queue (gate_at s a)) (rs_gates s))))\<lparr>rs_gates := []\<rparr>"

subsection \<open>Slots and waiters are accounted for\<close>

lemma gate_at_put [simp]: "gate_at (put_gate a g s) b = (if b = a then g else gate_at s b)"
  by (simp add: put_gate_def gate_at_def)

lemma gate_at_fields [simp]:
  "gate_at (s\<lparr>rs_gates := x1\<rparr>) = gate_at s" "gate_at (s\<lparr>rs_leases := x2\<rparr>) = gate_at s"
  "gate_at (s\<lparr>rs_timers := x3\<rparr>) = gate_at s" "gate_at (s\<lparr>rs_cooldowns := x4\<rparr>) = gate_at s"
  "gate_at (s\<lparr>rs_settled := x5\<rparr>) = gate_at s" "gate_at (s\<lparr>rs_next := x6\<rparr>) = gate_at s"
  by (simp_all add: gate_at_def fun_eq_iff)

lemma put_gate_fields [simp]:
  "rs_gates (put_gate a g s) = rs_gates s" "rs_leases (put_gate a g s) = rs_leases s"
  "rs_timers (put_gate a g s) = rs_timers s" "rs_settled (put_gate a g s) = rs_settled s"
  "rs_next (put_gate a g s) = rs_next s" "rs_cooldowns (put_gate a g s) = rs_cooldowns s"
  by (simp_all add: put_gate_def)

lemma drop_gate_fields [simp]:
  "rs_gates (drop_gate m s) = map_delete m (rs_gates s)" "rs_leases (drop_gate m s) = rs_leases s"
  "rs_timers (drop_gate m s) = rs_timers s" "rs_settled (drop_gate m s) = rs_settled s"
  "rs_next (drop_gate m s) = rs_next s" "rs_cooldowns (drop_gate m s) = rs_cooldowns s"
  "gate_at (drop_gate m s) a = gate_at s a"
  by (simp_all add: drop_gate_def gate_at_def)

lemma gate_at_cong: "rs_store s = rs_store s' \<Longrightarrow> gate_at s = gate_at s'"
  by (simp add: gate_at_def fun_eq_iff)

definition lease_count :: "rate_sem \<Rightarrow> string \<Rightarrow> int" where
  "lease_count s m = int (length (filter (\<lambda>p. snd p = m) (rs_leases s)))"

definition running_at :: "rate_sem \<Rightarrow> string \<Rightarrow> int" where
  "running_at s m = (case map_get (rs_gates s) m of None \<Rightarrow> 0 | Some a \<Rightarrow> mg_running (gate_at s a))"

text \<open>Identifiers are fresh and no two models share a gate.\<close>

definition ids_ok :: "rate_sem \<Rightarrow> bool" where
  "ids_ok s \<longleftrightarrow> map_wf (rs_gates s) \<and> map_wf (rs_leases s) \<and> map_wf (rs_timers s)
     \<and> distinct (map snd (rs_gates s))
     \<and> (\<forall>a \<in> snd ` set (rs_gates s). a < rs_next s)
     \<and> (\<forall>i \<in> fst ` set (rs_leases s). i < rs_next s) \<and> (\<forall>w \<in> fst ` set (rs_timers s). w < rs_next s)"

text \<open>A waiter is in the queue of the gate its timer captured, and the map still holds that gate.\<close>

definition queues_match :: "rate_sem \<Rightarrow> bool" where
  "queues_match s \<longleftrightarrow> (\<forall>a. distinct (mg_queue (gate_at s a))
     \<and> (\<forall>w. w \<in> set (mg_queue (gate_at s a)) \<longleftrightarrow> map_get (rs_timers s) w = Some a)
     \<and> (a \<notin> snd ` set (rs_gates s) \<longrightarrow> mg_queue (gate_at s a) = []))"

definition sem_inv :: "rate_sem \<Rightarrow> bool" where
  "sem_inv s \<longleftrightarrow> ids_ok s \<and> queues_match s \<and> (\<forall>m. lease_count s m = running_at s m)"

lemma lease_count_nonneg [simp]: "0 \<le> lease_count s m"
  by (simp add: lease_count_def)

lemma count_set_fresh:
  "map_of ls i = None \<Longrightarrow>
    length (filter (\<lambda>p. snd p = m) (map_set i m' ls)) = length (filter (\<lambda>p. snd p = m) ls) + (if m = m' then 1 else 0)"
  by (induction ls) (auto split: if_splits)

lemma count_delete:
  "map_wf ls \<Longrightarrow> map_of ls i = Some m' \<Longrightarrow>
    length (filter (\<lambda>p. snd p = m) (map_delete i ls)) + (if m = m' then 1 else 0) = length (filter (\<lambda>p. snd p = m) ls)"
proof (induction ls)
  case (Cons p ls)
  show ?case
  proof (cases "fst p = i")
    case True
    then have "map_delete i ls = ls" using Cons.prems(1) by (intro map_delete_absent) (auto simp: map_of_eq_None_iff)
    then show ?thesis using True Cons.prems by (cases p) auto
  next
    case False
    then show ?thesis using Cons by (cases p) auto
  qed
qed simp

lemma fresh_absent: "(\<forall>i \<in> fst ` set ls. i < n) \<Longrightarrow> n \<le> j \<Longrightarrow> map_of ls (j :: nat) = None"
  by (force simp: map_of_eq_None_iff)

lemma cooldowns_inv [simp]: "sem_inv (s\<lparr>rs_cooldowns := x\<rparr>) = sem_inv s"
proof -
  have "running_at (s\<lparr>rs_cooldowns := x\<rparr>) = running_at s"
    by (simp add: running_at_def fun_eq_iff split: option.split)
  then show ?thesis by (simp add: sem_inv_def ids_ok_def queues_match_def lease_count_def)
qed

text \<open>What serving does to the waiters and the leases.\<close>

definition deletes :: "nat list \<Rightarrow> (nat, nat) js_map \<Rightarrow> (nat, nat) js_map" where
  "deletes ws t = foldl (\<lambda>t w. map_delete w t) t ws"

lemma deletes_Cons: "deletes (w # ws) t = deletes ws (map_delete w t)"
  by (simp add: deletes_def)

lemma deletes_of: "map_of (deletes ws t) w = (if w \<in> set ws then None else map_of t w)"
  unfolding deletes_def by (induction ws arbitrary: t) auto

lemma deletes_subset: "fst ` set (deletes ws t) \<subseteq> fst ` set t"
proof (induction ws arbitrary: t)
  case (Cons w ws)
  show ?case
    unfolding deletes_Cons
    by (rule subset_trans [OF Cons.IH image_mono [OF set_map_delete_subset]])
qed (simp add: deletes_def)

lemma deletes_wf: "map_wf t \<Longrightarrow> map_wf (deletes ws t)"
  unfolding deletes_def by (induction ws arbitrary: t) (auto intro: map_wf_delete)

lemma serve_spec:
  assumes "serve now m ws g s = (g', s')" and "map_wf (rs_leases s)" and "\<forall>i \<in> fst ` set (rs_leases s). i < rs_next s"
  shows "\<exists>k \<le> length ws. mg_queue g' = drop k ws \<and> mg_running g' = mg_running g + int k \<and> mg_max g' = mg_max g
    \<and> (0 < k \<longrightarrow> mg_running g' \<le> mg_max g)
    \<and> (k < length ws \<longrightarrow> mg_max g \<le> mg_running g' \<or> isRateLimited now g')
    \<and> (\<forall>m'. lease_count s' m' = lease_count s m' + (if m' = m then int k else 0))
    \<and> map_wf (rs_leases s') \<and> (\<forall>i \<in> fst ` set (rs_leases s'). i < rs_next s') \<and> rs_next s \<le> rs_next s'
    \<and> rs_timers s' = deletes (take k ws) (rs_timers s)
    \<and> map fst (rs_settled s') = map fst (rs_settled s) @ take k ws
    \<and> rs_store s' = rs_store s \<and> rs_gates s' = rs_gates s \<and> rs_cooldowns s' = rs_cooldowns s"
  using assms
proof (induction ws arbitrary: g s)
  case Nil
  then show ?case by (auto simp: deletes_def)
next
  case (Cons w ws)
  show ?case
  proof (cases "mg_running g < mg_max g \<and> \<not> isRateLimited now g")
    case False
    then have "g' = g\<lparr>mg_queue := w # ws\<rparr>" "s' = s" using Cons.prems(1) by (auto split: if_splits)
    then show ?thesis
      using False Cons.prems(2,3) by (intro exI [of _ 0]) (auto simp: deletes_def isRateLimited_def)
  next
    case True
    define g1 where "g1 = (clear_expired now g)\<lparr>mg_running := mg_running g + 1\<rparr>"
    define s1 where "s1 = resolve_waiter m w s"
    have s1: "rs_leases s1 = map_set (rs_next s) m (rs_leases s)" "rs_next s1 = rs_next s + 1"
      "rs_timers s1 = map_delete w (rs_timers s)" "map fst (rs_settled s1) = map fst (rs_settled s) @ [w]"
      "rs_store s1 = rs_store s" "rs_gates s1 = rs_gates s" "rs_cooldowns s1 = rs_cooldowns s"
      by (simp_all add: s1_def resolve_waiter_def createReleaseFn_def Let_def)
    have c1: "lease_count s1 m' = lease_count s m' + (if m' = m then 1 else 0)" for m'
      using fresh_absent [OF Cons.prems(3) order_refl]
      by (simp add: lease_count_def s1 count_set_fresh)
    have rec: "serve now m ws g1 s1 = (g', s')" using True Cons.prems(1) by (simp add: g1_def s1_def)
    have "map_wf (rs_leases s1)" "\<forall>i \<in> fst ` set (rs_leases s1). i < rs_next s1"
      using Cons.prems(2,3) by (auto simp: s1 dom_update intro: map_wf_set)
    from Cons.IH [OF rec this] obtain k where k: "k \<le> length ws" "mg_queue g' = drop k ws"
      "mg_running g' = mg_running g1 + int k" "mg_max g' = mg_max g1" "0 < k \<longrightarrow> mg_running g' \<le> mg_max g1"
      "k < length ws \<longrightarrow> mg_max g1 \<le> mg_running g' \<or> isRateLimited now g'"
      "\<forall>m'. lease_count s' m' = lease_count s1 m' + (if m' = m then int k else 0)"
      "map_wf (rs_leases s')" "\<forall>i \<in> fst ` set (rs_leases s'). i < rs_next s'" "rs_next s1 \<le> rs_next s'"
      "rs_timers s' = deletes (take k ws) (rs_timers s1)"
      "map fst (rs_settled s') = map fst (rs_settled s1) @ take k ws"
      "rs_store s' = rs_store s1" "rs_gates s' = rs_gates s1" "rs_cooldowns s' = rs_cooldowns s1"
      by blast
    have "mg_max g1 = mg_max g" "mg_running g1 = mg_running g + 1" by (simp_all add: g1_def clear_expired_def)
    then show ?thesis
      using k True s1 by (intro exI [of _ "Suc k"]) (auto simp: c1 deletes_Cons)
  qed
qed

lemma gate_inj:
  assumes "ids_ok s" and "map_get (rs_gates s) m = Some a" and "map_get (rs_gates s) m' = Some a"
  shows "m = m'"
proof -
  have "inj_on snd (set (rs_gates s))" using assms(1) by (simp add: ids_ok_def distinct_map)
  from inj_onD [OF this _ map_of_SomeD [OF assms(2)] map_of_SomeD [OF assms(3)]] show ?thesis by simp
qed

lemma gate_in_map: "map_get (rs_gates s) m = Some a \<Longrightarrow> a \<in> snd ` set (rs_gates s)"
  by (force dest: map_of_SomeD)

text \<open>The promises that are waiting or settled.\<close>

definition promised :: "rate_sem \<Rightarrow> nat multiset" where
  "promised s = mset (map fst (rs_timers s)) + mset (map fst (rs_settled s))"

lemma promised_simps [simp]:
  "promised (put_gate a g s) = promised s" "promised (drop_gate m s) = promised s"
  "promised (s\<lparr>rs_cooldowns := x\<rparr>) = promised s"
  by (simp_all add: promised_def)

lemma mset_map_delete:
  assumes "map_wf t" and "map_of t w = Some a"
  shows "mset (map fst (map_delete w t)) + {#w#} = mset (map fst t)"
proof -
  have w: "w \<in> set (map fst t)" using assms(2) by (force dest: map_of_SomeD)
  have "mset (map fst (map_delete w t)) = mset (remove1 w (map fst t))"
    by (simp only: delete_keys distinct_remove1_removeAll [OF assms(1)])
  then show ?thesis using w by simp
qed

lemma mset_deletes:
  "map_wf t \<Longrightarrow> distinct ws \<Longrightarrow> \<forall>w \<in> set ws. map_of t w \<noteq> None \<Longrightarrow>
    mset (map fst (deletes ws t)) + mset ws = mset (map fst t)"
proof (induction ws arbitrary: t)
  case (Cons w ws)
  obtain a where a: "map_of t w = Some a" using Cons.prems(3) by auto
  have "mset (map fst (deletes ws (map_delete w t))) + mset ws = mset (map fst (map_delete w t))"
    using Cons.prems by (intro Cons.IH) (auto intro: map_wf_delete)
  then show ?case using mset_map_delete [OF Cons.prems(1) a] by (simp add: deletes_Cons)
qed (simp add: deletes_def)

lemma put_same_inv:
  assumes "sem_inv s" and "mg_queue g = mg_queue (gate_at s a)" and "mg_running g = mg_running (gate_at s a)"
  shows "sem_inv (put_gate a g s) \<and> running_at (put_gate a g s) = running_at s"
proof -
  have "running_at (put_gate a g s) m = running_at s m" for m
    using assms(3) by (simp add: running_at_def split: option.split)
  then show ?thesis
    using assms(1,2) by (auto simp: sem_inv_def ids_ok_def queues_match_def lease_count_def fun_eq_iff)
qed

lemma drop_idle_inv:
  assumes "sem_inv s" and "map_get (rs_gates s) m = Some a" and "gate_idle (gate_at s a)"
  shows "sem_inv (drop_gate m s)"
proof -
  have sub: "set (map_delete m (rs_gates s)) \<subseteq> set (rs_gates s)" by (rule set_map_delete_subset)
  have d: "distinct (map snd (map_delete m (rs_gates s)))"
    using assms(1) unfolding sem_inv_def ids_ok_def AList.delete_eq by (intro distinct_map_filter) simp
  have rn: "running_at (drop_gate m s) m' = running_at s m'" for m'
    using assms(2,3) by (cases "map_get (rs_gates s) m'") (auto simp: running_at_def gate_idle_def)
  have cov: "b = a \<or> b \<in> snd ` set (map_delete m (rs_gates s))" if mem: "b \<in> snd ` set (rs_gates s)" for b
  proof -
    obtain m' where m': "(m', b) \<in> set (rs_gates s)" using mem by force
    show ?thesis
    proof (cases "m' = m")
      case True
      then have "map_get (rs_gates s) m = Some b" using m' assms(1) by (simp add: sem_inv_def ids_ok_def)
      then show ?thesis using assms(2) by simp
    next
      case False
      then have "(m', b) \<in> set (map_delete m (rs_gates s))" using m' by (auto simp: AList.delete_eq)
      then show ?thesis by force
    qed
  qed
  have "ids_ok (drop_gate m s)"
    using assms(1) d sub by (auto simp: sem_inv_def ids_ok_def intro: map_wf_delete)
  moreover have "queues_match (drop_gate m s)"
    using assms(1,3) cov by (fastforce simp: sem_inv_def queues_match_def gate_idle_def)
  ultimately show ?thesis using assms(1) rn by (simp add: sem_inv_def lease_count_def)
qed

lemma running_at_put:
  assumes "ids_ok s" and "map_get (rs_gates s) m = Some a"
  shows "running_at (put_gate a g s) m' = (if m' = m then mg_running g else running_at s m')"
  using assms gate_inj [OF assms(1,2), of m'] by (cases "map_get (rs_gates s) m'") (auto simp: running_at_def)

lemma getGate_inv:
  assumes inv: "sem_inv s" and "getGate m c s = (a, s')"
  shows "sem_inv s' \<and> map_get (rs_gates s') m = Some a \<and> mg_max (gate_at s' a) = c
    \<and> running_at s' = running_at s \<and> promised s' = promised s \<and> lease_count s' = lease_count s
    \<and> rs_next s \<le> rs_next s' \<and> rs_settled s' = rs_settled s"
proof (cases "map_get (rs_gates s) m")
  case (Some b)
  then have s': "s' = put_gate b ((gate_at s b)\<lparr>mg_max := c\<rparr>) s" and "a = b"
    using assms(2) by (auto simp: getGate_def)
  then show ?thesis
    using put_same_inv [OF inv, of "(gate_at s b)\<lparr>mg_max := c\<rparr>" b] Some
    by (simp add: promised_def lease_count_def fun_eq_iff)
next
  case None
  let ?n = "rs_next s" and ?g = "\<lparr>mg_running = 0, mg_max = c, mg_queue = [], mg_rateLimitedUntil = None\<rparr>"
  define s1 where "s1 = (put_gate ?n ?g s)\<lparr>rs_gates := map_set m ?n (rs_gates s), rs_next := ?n + 1\<rparr>"
  have g: "gate_at s1 b = (if b = ?n then ?g else gate_at s b)" for b
    by (simp add: s1_def gate_at_def put_gate_def)
  have gs1: "rs_gates s1 = map_set m ?n (rs_gates s)" "rs_timers s1 = rs_timers s" "rs_leases s1 = rs_leases s"
    "rs_settled s1 = rs_settled s" "rs_next s1 = ?n + 1"
    by (simp_all add: s1_def)
  have s': "s' = put_gate ?n ?g s1" and a: "a = ?n"
    using None assms(2) by (auto simp: getGate_def s1_def Let_def put_gate_def gate_at_def)
  have new: "?n \<notin> snd ` set (rs_gates s)" using inv by (auto simp: sem_inv_def ids_ok_def)
  have old: "mg_queue (gate_at s ?n) = []" using inv new by (simp add: sem_inv_def queues_match_def)
  have upd: "snd ` set (map_set m ?n (rs_gates s)) = insert ?n (snd ` set (rs_gates s))"
    "distinct (map snd (map_set m ?n (rs_gates s)))"
  proof -
    have "map_set m ?n (rs_gates s) = rs_gates s @ [(m, ?n)]" by (rule map_set_fresh [OF None])
    then show "snd ` set (map_set m ?n (rs_gates s)) = insert ?n (snd ` set (rs_gates s))"
      "distinct (map snd (map_set m ?n (rs_gates s)))"
      using inv new by (auto simp: sem_inv_def ids_ok_def)
  qed
  have run: "running_at s1 m' = running_at s m'" for m'
  proof -
    have "map_get (rs_gates s) m' = Some b \<Longrightarrow> b \<noteq> ?n" for b using new gate_in_map by metis
    then show ?thesis using None by (cases "map_get (rs_gates s) m'") (auto simp: running_at_def g gs1)
  qed
  have "ids_ok s1" using inv upd by (auto simp: sem_inv_def ids_ok_def s1_def less_Suc_eq intro: map_wf_set)
  moreover have "queues_match s1"
    unfolding queues_match_def
  proof (intro allI)
    fix b
    have "distinct (mg_queue (gate_at s b)) \<and> (\<forall>w. w \<in> set (mg_queue (gate_at s b)) \<longleftrightarrow> map_get (rs_timers s) w = Some b)
        \<and> (b \<notin> snd ` set (rs_gates s) \<longrightarrow> mg_queue (gate_at s b) = [])"
      using inv by (simp add: sem_inv_def queues_match_def)
    then show "distinct (mg_queue (gate_at s1 b)) \<and> (\<forall>w. w \<in> set (mg_queue (gate_at s1 b)) \<longleftrightarrow> map_get (rs_timers s1) w = Some b)
        \<and> (b \<notin> snd ` set (rs_gates s1) \<longrightarrow> mg_queue (gate_at s1 b) = [])"
      using old by (auto simp: g gs1 upd)
  qed
  ultimately have "sem_inv s1" using inv run by (simp add: sem_inv_def lease_count_def s1_def)
  from put_same_inv [OF this, of ?g ?n] show ?thesis
    using run by (simp add: s' a g gs1 fun_eq_iff promised_def lease_count_def)
qed

lemma drainQueue_inv:
  assumes inv: "sem_inv s"
  shows "sem_inv (drainQueue now m s) \<and> promised (drainQueue now m s) = promised s \<and> rs_next s \<le> rs_next (drainQueue now m s)"
proof (cases "map_get (rs_gates s) m")
  case None
  then show ?thesis using inv by (simp add: drainQueue_def)
next
  case (Some a)
  let ?ws = "mg_queue (gate_at s a)"
  obtain g s1 where sv: "serve now m ?ws (gate_at s a) s = (g, s1)" by (cases "serve now m ?ws (gate_at s a) s")
  have ids: "ids_ok s" and qm: "queues_match s" and lc: "\<And>m. lease_count s m = running_at s m"
    using inv by (simp_all add: sem_inv_def)
  obtain k where k: "k \<le> length ?ws" "mg_queue g = drop k ?ws" "mg_running g = mg_running (gate_at s a) + int k"
      "\<forall>m'. lease_count s1 m' = lease_count s m' + (if m' = m then int k else 0)"
      "map_wf (rs_leases s1)" "\<forall>i \<in> fst ` set (rs_leases s1). i < rs_next s1" "rs_next s \<le> rs_next s1"
      "rs_timers s1 = deletes (take k ?ws) (rs_timers s)"
      "map fst (rs_settled s1) = map fst (rs_settled s) @ take k ?ws"
      "rs_store s1 = rs_store s" "rs_gates s1 = rs_gates s"
    using serve_spec [OF sv] ids by (auto simp: ids_ok_def)
  define s2 where "s2 = put_gate a g s1"
  have gat: "gate_at s2 b = (if b = a then g else gate_at s b)" for b
    using gate_at_cong [OF k(10)] by (simp add: s2_def)
  have gs2: "rs_gates s2 = rs_gates s" "rs_timers s2 = rs_timers s1" "rs_next s2 = rs_next s1"
    by (simp_all add: s2_def k(11))
  have d: "distinct ?ws" "\<And>w b. w \<in> set (mg_queue (gate_at s b)) \<longleftrightarrow> map_get (rs_timers s) w = Some b"
    using qm by (simp_all add: queues_match_def)
  have split: "set (take k ?ws) \<inter> set (drop k ?ws) = {}" "set ?ws = set (take k ?ws) \<union> set (drop k ?ws)"
    using d(1) by (metis append_take_drop_id distinct_append, metis append_take_drop_id set_append)
  have tm: "map_get (rs_timers s2) w = Some b \<longleftrightarrow> w \<in> set (mg_queue (gate_at s2 b))" for w b
    using d(2) [of w a] d(2) [of w b] split by (auto simp: gs2 k(2,8) deletes_of gat)
  have "w < rs_next s1" if w: "w \<in> fst ` set (deletes (take k ?ws) (rs_timers s))" for w
  proof -
    have "w \<in> fst ` set (rs_timers s)" by (rule subsetD [OF deletes_subset w])
    then have "w < rs_next s" using ids unfolding ids_ok_def by blast
    then show ?thesis using k(7) by simp
  qed
  then have ids2: "ids_ok s2"
    using ids k(5-7) deletes_wf [of "rs_timers s" "take k ?ws"]
    unfolding ids_ok_def s2_def put_gate_fields k(8,11)
    by (intro conjI ballI) (auto dest: order.strict_trans2)
  have run: "lease_count s2 m' = running_at s2 m'" for m'
  proof -
    have "running_at s2 m' = (if m' = m then mg_running g else running_at s m')"
      using gate_inj [OF ids Some, of m'] Some
      by (cases "map_get (rs_gates s) m'") (auto simp: running_at_def gat gs2)
    then show ?thesis using lc [of m'] k(3,4) Some by (auto simp: s2_def lease_count_def running_at_def)
  qed
  have "queues_match s2"
    unfolding queues_match_def
    using tm qm d(1) gate_in_map [OF Some] by (auto simp: gat k(2) gs2 queues_match_def)
  then have inv2: "sem_inv s2" using ids2 run by (simp add: sem_inv_def)
  have "mset (map fst (rs_timers s1)) + mset (take k ?ws) = mset (map fst (rs_timers s))"
    unfolding k(8) using ids d split(2) by (intro mset_deletes) (auto simp: ids_ok_def)
  then have "promised s2 = promised s" by (simp add: promised_def s2_def k(9))
  moreover have "drainQueue now m s = (if gate_idle g then drop_gate m s2 else s2)"
    using Some sv by (simp add: drainQueue_def s2_def)
  ultimately show ?thesis
    using inv2 drop_idle_inv [OF inv2, of m a] k(7) Some by (simp add: gat gs2 promised_def)
qed

lemma take_slot_inv:
  assumes inv: "sem_inv s" and m: "map_get (rs_gates s) m = Some a"
    and g: "mg_queue g = mg_queue (gate_at s a)" "mg_running g = mg_running (gate_at s a) + 1"
    and r: "createReleaseFn m (put_gate a g s) = (i, s')"
  shows "sem_inv s' \<and> promised s' = promised s \<and> rs_next s \<le> rs_next s'"
proof -
  have s': "s' = (put_gate a g s)\<lparr>rs_leases := map_set (rs_next s) m (rs_leases s), rs_next := rs_next s + 1\<rparr>"
    using r by (auto simp: createReleaseFn_def)
  have gat: "gate_at s' b = gate_at (put_gate a g s) b" for b by (rule fun_cong, rule gate_at_cong) (simp add: s')
  have ids: "ids_ok s" using inv by (simp add: sem_inv_def)
  have "map_get (rs_leases s) (rs_next s) = None" using ids by (intro fresh_absent) (auto simp: ids_ok_def)
  then have "lease_count s' m' = lease_count s m' + (if m' = m then 1 else 0)" for m'
    by (auto simp: s' lease_count_def count_set_fresh)
  moreover have "running_at s' m' = running_at (put_gate a g s) m'" for m'
    by (cases "map_get (rs_gates s) m'") (simp_all add: running_at_def s')
  moreover have "running_at s m = mg_running (gate_at s a)" by (simp add: running_at_def m)
  ultimately have "lease_count s' m' = running_at s' m'" for m'
    using inv running_at_put [OF ids m, of g m'] g(2) by (simp add: sem_inv_def)
  moreover have "ids_ok s'" using ids by (auto simp: s' ids_ok_def dom_update less_Suc_eq intro: map_wf_set)
  moreover have "queues_match s'" using inv g(1) by (auto simp: queues_match_def sem_inv_def gat) (auto simp: s')
  ultimately show ?thesis by (simp add: sem_inv_def) (simp add: s' promised_def)
qed

lemma enqueue_wait_inv:
  assumes inv: "sem_inv s" and m: "map_get (rs_gates s) m = Some a"
    and s': "s' = put_gate a ((gate_at s a)\<lparr>mg_queue := mg_queue (gate_at s a) @ [rs_next s]\<rparr>)
                   (s\<lparr>rs_timers := map_set (rs_next s) a (rs_timers s), rs_next := rs_next s + 1\<rparr>)"
  shows "sem_inv s' \<and> promised s' = promised s + {#rs_next s#} \<and> rs_next s' = rs_next s + 1"
proof -
  let ?g = "(gate_at s a)\<lparr>mg_queue := mg_queue (gate_at s a) @ [rs_next s]\<rparr>"
  have ids: "ids_ok s" using inv by (simp add: sem_inv_def)
  have fresh: "map_get (rs_timers s) (rs_next s) = None" using ids by (intro fresh_absent) (auto simp: ids_ok_def)
  have gat: "gate_at s' b = (if b = a then ?g else gate_at s b)" for b
    by (simp add: s' put_gate_def gate_at_def)
  have f: "rs_gates s' = rs_gates s" "rs_timers s' = map_set (rs_next s) a (rs_timers s)"
    "rs_leases s' = rs_leases s" "rs_next s' = rs_next s + 1" "rs_settled s' = rs_settled s"
    by (simp_all add: s')
  have "running_at s' m' = running_at s m'" for m'
    by (cases "map_get (rs_gates s) m'") (auto simp: running_at_def gat f)
  moreover have "ids_ok s'" using ids by (auto simp: f ids_ok_def dom_update less_Suc_eq intro: map_wf_set)
  moreover have "queues_match s'"
    unfolding queues_match_def
  proof (intro allI)
    fix b
    have "distinct (mg_queue (gate_at s b)) \<and> (\<forall>w. w \<in> set (mg_queue (gate_at s b)) \<longleftrightarrow> map_get (rs_timers s) w = Some b)
        \<and> (b \<notin> snd ` set (rs_gates s) \<longrightarrow> mg_queue (gate_at s b) = [])"
      using inv by (simp add: sem_inv_def queues_match_def)
    then show "distinct (mg_queue (gate_at s' b)) \<and> (\<forall>w. w \<in> set (mg_queue (gate_at s' b)) \<longleftrightarrow> map_get (rs_timers s') w = Some b)
        \<and> (b \<notin> snd ` set (rs_gates s') \<longrightarrow> mg_queue (gate_at s' b) = [])"
      using fresh gate_in_map [OF m] by (auto simp: gat f)
  qed
  ultimately show ?thesis
    using inv map_set_fresh [OF fresh, of a] by (simp add: sem_inv_def lease_count_def f promised_def)
qed

lemma acquire_slot_inv:
  assumes inv: "sem_inv s" and "acquire_slot now m c q s = (oc, s')"
  shows "sem_inv s' \<and> rs_next s \<le> rs_next s'
    \<and> promised s' = promised s + (case oc of Waiting w \<Rightarrow> {#w#} | _ \<Rightarrow> {#})
    \<and> (\<forall>w. oc = Waiting w \<longrightarrow> rs_next s \<le> w \<and> w < rs_next s')"
proof -
  obtain a s1 where gg: "getGate m c s = (a, s1)" by (cases "getGate m c s")
  note g1 = getGate_inv [OF inv gg]
  define g0 where "g0 = gate_at s1 a"
  define g where "g = (if mg_running g0 < mg_max g0 then clear_expired now g0 else g0)"
  define s2 where "s2 = put_gate a g s1"
  have g: "mg_queue g = mg_queue g0" "mg_running g = mg_running g0" by (simp_all add: g_def clear_expired_def)
  have i2: "sem_inv s2 \<and> running_at s2 = running_at s1"
    unfolding s2_def using g by (intro put_same_inv) (simp_all add: g1 g0_def)
  have m2: "map_get (rs_gates s2) m = Some a" using g1 by (simp add: s2_def)
  have p2: "promised s2 = promised s" "rs_next s \<le> rs_next s2" "gate_at s2 a = g"
    using g1 by (simp_all add: s2_def)
  have a: "acquire_slot now m c q s =
     (if mg_running g0 < mg_max g0 \<and> \<not> isRateLimited now g0 then
           let (i, s3) = createReleaseFn m (put_gate a (g\<lparr>mg_running := mg_running g + 1\<rparr>) s2)
           in (Acquired i, s3)
         else if (case q of None \<Rightarrow> False | Some n \<Rightarrow> 0 \<le> n \<and> n \<le> int (length (mg_queue g)))
         then (Queue_full, if gate_idle g then drop_gate m s2 else s2)
         else (Waiting (rs_next s2), put_gate a (g\<lparr>mg_queue := mg_queue g @ [rs_next s2]\<rparr>)
             (s2\<lparr>rs_timers := map_set (rs_next s2) a (rs_timers s2), rs_next := rs_next s2 + 1\<rparr>)))"
    unfolding acquire_slot_def gg g_def s2_def g0_def Let_def by simp
  consider (slot) i where "oc = Acquired i" "createReleaseFn m (put_gate a (g\<lparr>mg_running := mg_running g + 1\<rparr>) s2) = (i, s')"
    | (full) "oc = Queue_full" "s' = (if gate_idle g then drop_gate m s2 else s2)"
    | (wait) "oc = Waiting (rs_next s2)" "s' = put_gate a (g\<lparr>mg_queue := mg_queue g @ [rs_next s2]\<rparr>)
             (s2\<lparr>rs_timers := map_set (rs_next s2) a (rs_timers s2), rs_next := rs_next s2 + 1\<rparr>)"
    using assms(2) unfolding a by (auto simp: split_beta Let_def split: if_splits)
  then show ?thesis
  proof cases
    case slot
    then show ?thesis using take_slot_inv [OF _ m2, of "g\<lparr>mg_running := mg_running g + 1\<rparr>" i s'] i2 p2 by simp
  next
    case full
    then show ?thesis using drop_idle_inv [OF _ m2] i2 p2 by simp
  next
    case wait
    then show ?thesis using enqueue_wait_inv [OF _ m2, of s'] i2 p2 by simp
  qed
qed

lemma release_slot_inv:
  assumes inv: "sem_inv s"
  shows "sem_inv (release_slot now i s) \<and> promised (release_slot now i s) = promised s \<and> rs_next s \<le> rs_next (release_slot now i s)"
proof (cases "map_get (rs_leases s) i")
  case None
  then show ?thesis using inv by (simp add: release_slot_def)
next
  case (Some m)
  have ids: "ids_ok s" and lc: "\<And>m. lease_count s m = running_at s m" using inv by (simp_all add: sem_inv_def)
  define s1 where "s1 = s\<lparr>rs_leases := map_delete i (rs_leases s)\<rparr>"
  have cnt: "int (length (filter (\<lambda>p. snd p = m') (rs_leases s1))) + (if m' = m then 1 else 0) = lease_count s m'" for m'
    using count_delete [OF _ Some, of m'] ids by (auto simp: s1_def lease_count_def ids_ok_def)
  then have "0 < running_at s m" using lc [of m] cnt [of m] by simp
  then obtain a where a: "map_get (rs_gates s) m = Some a" "0 < mg_running (gate_at s a)"
    by (auto simp: running_at_def split: option.splits)
  have gat: "gate_at s1 = gate_at s" by (rule gate_at_cong) (simp add: s1_def)
  define g where "g = (gate_at s a)\<lparr>mg_running := mg_running (gate_at s a) - 1\<rparr>"
  define s2 where "s2 = put_gate a g s1"
  have f: "rs_gates s2 = rs_gates s" "rs_timers s2 = rs_timers s" "rs_settled s2 = rs_settled s" "rs_next s2 = rs_next s"
    "rs_leases s2 = map_delete i (rs_leases s)"
    by (simp_all add: s2_def s1_def)
  have run: "running_at s2 m' = (if m' = m then mg_running g else running_at s m')" for m'
    using gate_inj [OF ids a(1), of m'] a(1)
    by (cases "map_get (rs_gates s) m'") (auto simp: running_at_def f s2_def gat s1_def)
  have "lease_count s2 m' = running_at s2 m'" for m'
    using cnt [of m'] lc [of m'] a(1) unfolding run
    by (auto simp: lease_count_def s2_def g_def running_at_def split: if_splits)
  moreover have "ids_ok s2"
    using ids by (auto simp: ids_ok_def f intro: map_wf_delete dest: subsetD [OF set_map_delete_subset])
  moreover have "queues_match s2"
  proof -
    have "mg_queue (gate_at s2 b) = mg_queue (gate_at s b)" for b by (simp add: s2_def gat g_def)
    then show ?thesis using inv by (simp add: sem_inv_def queues_match_def f)
  qed
  ultimately have i2: "sem_inv s2" by (simp add: sem_inv_def)
  have r: "release_slot now i s = (if gate_idle g then drop_gate m s2 else drainQueue now m s2)"
    using Some a unfolding release_slot_def s2_def g_def s1_def Let_def by simp
  have "gate_at s2 a = g" by (simp add: s2_def)
  then show ?thesis
    using drainQueue_inv [OF i2, of now m] drop_idle_inv [OF i2, of m a] a(1)
    unfolding r by (simp add: f promised_def)
qed

lemma timeout_inv:
  assumes inv: "sem_inv s"
  shows "sem_inv (wait_times_out w s) \<and> promised (wait_times_out w s) = promised s \<and> rs_next (wait_times_out w s) = rs_next s"
proof (cases "map_get (rs_timers s) w")
  case None
  then show ?thesis using inv by (simp add: wait_times_out_def)
next
  case (Some a)
  let ?s = "wait_times_out w s"
  let ?g = "(gate_at s a)\<lparr>mg_queue := remove1 w (mg_queue (gate_at s a))\<rparr>"
  have ids: "ids_ok s" using inv by (simp add: sem_inv_def)
  have f: "rs_gates ?s = rs_gates s" "rs_timers ?s = map_delete w (rs_timers s)" "rs_leases ?s = rs_leases s"
    "rs_settled ?s = rs_settled s @ [(w, Timed_out_in_queue)]" "rs_next ?s = rs_next s"
    using Some by (simp_all add: wait_times_out_def Let_def)
  have gat: "gate_at ?s b = (if b = a then ?g else gate_at s b)" for b
    using Some by (simp add: wait_times_out_def Let_def put_gate_def gate_at_def)
  have "running_at ?s m' = running_at s m'" for m'
    by (cases "map_get (rs_gates s) m'") (auto simp: running_at_def gat f)
  moreover have "ids_ok ?s"
    using ids by (auto simp: ids_ok_def f intro: map_wf_delete dest: subsetD [OF set_map_delete_subset])
  moreover have "queues_match ?s"
    unfolding queues_match_def
  proof (intro allI)
    fix b
    have "distinct (mg_queue (gate_at s b)) \<and> (\<forall>w. w \<in> set (mg_queue (gate_at s b)) \<longleftrightarrow> map_get (rs_timers s) w = Some b)
        \<and> (b \<notin> snd ` set (rs_gates s) \<longrightarrow> mg_queue (gate_at s b) = [])"
      using inv by (simp add: sem_inv_def queues_match_def)
    then show "distinct (mg_queue (gate_at ?s b)) \<and> (\<forall>v. v \<in> set (mg_queue (gate_at ?s b)) \<longleftrightarrow> map_get (rs_timers ?s) v = Some b)
        \<and> (b \<notin> snd ` set (rs_gates ?s) \<longrightarrow> mg_queue (gate_at ?s b) = [])"
      using Some by (auto simp: gat f)
  qed
  ultimately have "sem_inv ?s" using inv by (simp add: sem_inv_def lease_count_def f)
  then show ?thesis using mset_map_delete [OF _ Some] ids by (simp add: promised_def f ids_ok_def flip: add_mset_add_single)
qed

lemma mark_inv:
  assumes inv: "sem_inv s"
  shows "sem_inv (markRateLimited now m cd s) \<and> promised (markRateLimited now m cd s) = promised s
    \<and> rs_next s \<le> rs_next (markRateLimited now m cd s)"
proof -
  obtain a s1 where gg: "getGate m DEFAULT_CONCURRENCY s = (a, s1)" by (cases "getGate m DEFAULT_CONCURRENCY s")
  note g1 = getGate_inv [OF inv gg]
  define s2 where "s2 = put_gate a ((gate_at s1 a)\<lparr>mg_rateLimitedUntil := Some (now + cd)\<rparr>) s1"
  have i2: "sem_inv s2" unfolding s2_def using put_same_inv g1 by simp
  then show ?thesis using g1 by (simp add: markRateLimited_def gg s2_def Let_def)
qed

lemma cooldown_inv:
  assumes inv: "sem_inv s"
  shows "sem_inv (cooldown_fires now n s) \<and> promised (cooldown_fires now n s) = promised s
    \<and> rs_next s \<le> rs_next (cooldown_fires now n s)"
proof (cases "drop n (rs_cooldowns s)")
  case Nil
  then show ?thesis using inv by (simp add: cooldown_fires_def)
next
  case (Cons c cs)
  define s1 where "s1 = s\<lparr>rs_cooldowns := take n (rs_cooldowns s) @ cs\<rparr>"
  define g where "g = gate_at s1 (ct_gate c)"
  define s2 where "s2 = put_gate (ct_gate c) (g\<lparr>mg_rateLimitedUntil := None\<rparr>) s1"
  have i1: "sem_inv s1" using inv by (simp add: s1_def)
  then have i2: "sem_inv s2" unfolding s2_def using put_same_inv by (simp add: g_def)
  have "cooldown_fires now n s = (if truthy (mg_rateLimitedUntil g) \<and> or_else (mg_rateLimitedUntil g) 0 \<le> now
      then drainQueue now (ct_model c) s2 else s1)"
    using Cons unfolding cooldown_fires_def s1_def g_def s2_def Let_def by simp
  then show ?thesis
    using i1 drainQueue_inv [OF i2, of now "ct_model c"] by (simp add: s2_def) (simp add: s1_def)
qed

subsection \<open>Runs\<close>

datatype sem_event =
    Sem_acquire string int "int option"
  | Sem_release nat
  | Sem_timeout nat
  | Sem_mark string int
  | Sem_cooldown nat

record sem_run =
  sr_sem :: rate_sem
  sr_promises :: "nat list"

fun sem_step :: "sem_run \<Rightarrow> int \<times> sem_event \<Rightarrow> sem_run" where
  "sem_step r (now, Sem_acquire m c q) =
     (let (oc, s) = acquire_slot now m c q (sr_sem r)
      in \<lparr>sr_sem = s, sr_promises = sr_promises r @ (case oc of Waiting w \<Rightarrow> [w] | _ \<Rightarrow> [])\<rparr>)"
| "sem_step r (now, Sem_release i) = r\<lparr>sr_sem := release_slot now i (sr_sem r)\<rparr>"
| "sem_step r (now, Sem_timeout w) = r\<lparr>sr_sem := wait_times_out w (sr_sem r)\<rparr>"
| "sem_step r (now, Sem_mark m cd) = r\<lparr>sr_sem := markRateLimited now m cd (sr_sem r)\<rparr>"
| "sem_step r (now, Sem_cooldown n) = r\<lparr>sr_sem := cooldown_fires now n (sr_sem r)\<rparr>"

definition start_sem :: sem_run where
  "start_sem = \<lparr>sr_sem = new_sem, sr_promises = []\<rparr>"

definition sem_run_ok :: "sem_run \<Rightarrow> bool" where
  "sem_run_ok r \<longleftrightarrow> sem_inv (sr_sem r) \<and> mset (sr_promises r) = promised (sr_sem r)
     \<and> distinct (sr_promises r) \<and> (\<forall>w \<in> set (sr_promises r). w < rs_next (sr_sem r))"

lemma sem_step_ok:
  assumes "sem_run_ok r"
  shows "sem_run_ok (sem_step r ev)"
proof -
  let ?s = "sr_sem r"
  have inv: "sem_inv ?s" and p: "mset (sr_promises r) = promised ?s" "distinct (sr_promises r)"
    and l: "\<forall>w \<in> set (sr_promises r). w < rs_next ?s"
    using assms by (simp_all add: sem_run_ok_def)
  have keep: "sem_run_ok (r\<lparr>sr_sem := s'\<rparr>)" if "sem_inv s' \<and> promised s' = promised ?s \<and> rs_next ?s \<le> rs_next s'" for s'
    using that p l by (fastforce simp: sem_run_ok_def)
  obtain now e where ev: "ev = (now, e)" by (cases ev)
  show ?thesis
  proof (cases e)
    case (Sem_acquire m c q)
    obtain oc s' where a: "acquire_slot now m c q ?s = (oc, s')" by (cases "acquire_slot now m c q ?s")
    from acquire_slot_inv [OF inv a] p l show ?thesis
      unfolding ev Sem_acquire by (cases oc) (fastforce simp: a sem_run_ok_def)+
  qed (use keep release_slot_inv [OF inv] timeout_inv [OF inv] mark_inv [OF inv] cooldown_inv [OF inv] in \<open>simp_all add: ev\<close>)
qed

interpretation semaphore: step_invariant sem_step "\<lambda>_. True" sem_run_ok
  by unfold_locales (rule sem_step_ok)

lemma start_sem_ok: "sem_run_ok start_sem"
  by (simp add: sem_run_ok_def start_sem_def new_sem_def sem_inv_def ids_ok_def queues_match_def gate_at_def
      lease_count_def running_at_def promised_def)

subsection \<open>Caps\<close>

definition within_cap :: "int \<Rightarrow> rate_sem \<Rightarrow> bool" where
  "within_cap C s \<longleftrightarrow> (\<forall>a. mg_max (gate_at s a) \<le> C \<and> mg_running (gate_at s a) \<le> C)"

fun cap_of :: "int \<Rightarrow> sem_event \<Rightarrow> bool" where
  "cap_of C (Sem_acquire m c q) \<longleftrightarrow> c \<le> C"
| "cap_of C _ \<longleftrightarrow> True"

lemma put_cap: "within_cap C s \<Longrightarrow> mg_max g \<le> C \<Longrightarrow> mg_running g \<le> C \<Longrightarrow> within_cap C (put_gate a g s)"
  by (simp add: within_cap_def)

lemma within_cap_fields [simp]:
  "within_cap C (drop_gate m s) = within_cap C s" "within_cap C (s\<lparr>rs_leases := x1\<rparr>) = within_cap C s"
  "within_cap C (s\<lparr>rs_timers := x2\<rparr>) = within_cap C s" "within_cap C (s\<lparr>rs_cooldowns := x3\<rparr>) = within_cap C s"
  "within_cap C (s\<lparr>rs_settled := x4\<rparr>) = within_cap C s" "within_cap C (s\<lparr>rs_next := x5\<rparr>) = within_cap C s"
  "within_cap C (s\<lparr>rs_gates := x6\<rparr>) = within_cap C s"
  by (simp_all add: within_cap_def)

lemma getGate_cap:
  assumes "within_cap C s" and "c \<le> C" and "0 \<le> C" and "getGate m c s = (a, s')"
  shows "within_cap C s'"
proof -
  have "within_cap C (s\<lparr>rs_store := map_set n \<lparr>mg_running = 0, mg_max = c, mg_queue = [], mg_rateLimitedUntil = None\<rparr> (rs_store s),
      rs_gates := x, rs_next := y\<rparr>)" for n x y
    using assms(1-3) by (simp add: within_cap_def gate_at_def)
  then show ?thesis
    using assms by (auto simp: getGate_def Let_def within_cap_def split: if_splits)
qed

lemma serve_cap:
  assumes "serve now m ws g s = (g', s')" and "mg_max g \<le> C" and "mg_running g \<le> C"
  shows "mg_max g' \<le> C \<and> mg_running g' \<le> C \<and> rs_store s' = rs_store s"
  using assms
  by (induction now m ws g s rule: serve.induct)
    (auto simp: clear_expired_def resolve_waiter_def createReleaseFn_def Let_def split: if_splits)

lemma drain_cap: "within_cap C s \<Longrightarrow> within_cap C (drainQueue now m s)"
proof (cases "map_get (rs_gates s) m")
  case (Some a)
  assume w: "within_cap C s"
  obtain g s1 where sv: "serve now m (mg_queue (gate_at s a)) (gate_at s a) s = (g, s1)"
    by (cases "serve now m (mg_queue (gate_at s a)) (gate_at s a) s")
  have "within_cap C s1" "mg_max g \<le> C" "mg_running g \<le> C"
    using serve_cap [OF sv, of C] w gate_at_cong [of s1 s] by (simp_all add: within_cap_def)
  then show ?thesis using Some sv by (simp add: drainQueue_def put_cap Let_def)
qed (simp add: drainQueue_def)

lemma acquire_cap:
  assumes w: "within_cap C s" and c: "c \<le> C" "0 \<le> C"
  shows "within_cap C (snd (acquire_slot now m c q s))"
proof -
  obtain a s1 where gg: "getGate m c s = (a, s1)" by (cases "getGate m c s")
  have w1: "within_cap C s1" by (rule getGate_cap [OF w c gg])
  define g where "g = (if mg_running (gate_at s1 a) < mg_max (gate_at s1 a) then clear_expired now (gate_at s1 a) else gate_at s1 a)"
  have g: "mg_max g \<le> C" "mg_running g \<le> C" "mg_running (gate_at s1 a) < mg_max (gate_at s1 a) \<Longrightarrow> mg_running g + 1 \<le> C"
    using w1 by (auto simp: g_def clear_expired_def within_cap_def intro: order_trans [OF zless_imp_add1_zle])
  have "within_cap C (put_gate a g s1)" using w1 g by (simp add: put_cap)
  then show ?thesis
    unfolding acquire_slot_def gg g_def [symmetric] Let_def prod.case
    using g by (auto simp: createReleaseFn_def g_def [symmetric] intro!: put_cap)
qed

lemma event_cap:
  assumes w: "within_cap C s" and "cap_of C e" and C: "3 \<le> C"
  shows "within_cap C (sr_sem (sem_step \<lparr>sr_sem = s, sr_promises = ps\<rparr> (now, e)))"
proof (cases e)
  case (Sem_acquire m c q)
  then show ?thesis using acquire_cap [OF w, of c now m q] assms(2) C by (simp add: Let_def split_beta)
next
  case (Sem_release i)
  have "mg_running (gate_at s a) - 1 \<le> C \<and> mg_max (gate_at s a) \<le> C" for a
    using w by (auto simp: within_cap_def intro: order_trans [of _ "mg_running (gate_at s a)"])
  then show ?thesis using w Sem_release by (auto simp: release_slot_def Let_def intro!: drain_cap put_cap split: option.split)
next
  case (Sem_timeout v)
  then show ?thesis using w by (auto simp: wait_times_out_def Let_def within_cap_def [of C s] intro!: put_cap split: option.split)
next
  case (Sem_mark m cd)
  obtain a s1 where gg: "getGate m DEFAULT_CONCURRENCY s = (a, s1)" by (cases "getGate m DEFAULT_CONCURRENCY s")
  have "within_cap C s1" using getGate_cap [OF w _ _ gg] C by (simp add: DEFAULT_CONCURRENCY_def)
  then show ?thesis using Sem_mark by (auto simp: markRateLimited_def gg Let_def within_cap_def [of C s1] intro!: put_cap)
next
  case (Sem_cooldown n)
  then show ?thesis
    using w by (auto simp: cooldown_fires_def Let_def within_cap_def [of C s] intro!: drain_cap put_cap split: list.split)
qed

interpretation capped: step_invariant sem_step "\<lambda>p. cap_of C (snd p) \<and> 3 \<le> C" "\<lambda>r. within_cap C (sr_sem r)" for C
proof (unfold_locales)
  fix r :: sem_run and p :: "int \<times> sem_event"
  assume "within_cap C (sr_sem r)" and "cap_of C (snd p) \<and> 3 \<le> C"
  then show "within_cap C (sr_sem (sem_step r p))"
    using event_cap [of C "sr_sem r" "snd p" "sr_promises r" "fst p"] by (cases r) simp
qed

section \<open>Properties\<close>

text \<open>
  The semaphore keeps exact books over any run of acquisitions, releases, timeouts, rate-limit
  marks and cooldown timers, in any order: for every model the running counter of its gate is the
  number of slots that callers hold, a model without a gate has none out, and every promise handed
  out is waiting or settled, exactly one of the two and once.
\<close>

theorem slots_match_leases:
  assumes "r = foldl sem_step start_sem evs" and "s = sr_sem r"
  shows "running_at s m = lease_count s m \<and> distinct (sr_promises r)
    \<and> mset (sr_promises r) = mset (map fst (rs_timers s)) + mset (map fst (rs_settled s))
    \<and> (\<forall>w a. map_get (rs_timers s) w = Some a \<longleftrightarrow> w \<in> set (mg_queue (gate_at s a)))"
proof -
  have "sem_run_ok r" unfolding assms(1) by (rule semaphore.run_inv [OF start_sem_ok]) (simp add: list_all_iff)
  then show ?thesis by (simp add: sem_run_ok_def sem_inv_def queues_match_def promised_def assms(2))
qed

definition sem_demo :: "(int \<times> sem_event) list" where
  "sem_demo = [(0, Sem_acquire ''m'' 1 None), (1, Sem_acquire ''m'' 1 None), (2, Sem_acquire ''m'' 1 (Some 1)),
     (3, Sem_acquire ''m'' 1 None), (4, Sem_timeout 2), (5, Sem_release 1)]"

theorem slots_match_leases_witness:
  "let s = sr_sem (foldl sem_step start_sem sem_demo) in
   running_at s ''m'' = 1 \<and> lease_count s ''m'' = 1 \<and> rs_settled s = [(2, Timed_out_in_queue), (3, Slot 4)]"
proof -
  define s where "s = sr_sem (foldl sem_step start_sem sem_demo)"
  have "running_at s ''m'' = 1" "rs_settled s = [(2, Timed_out_in_queue), (3, Slot 4)]"
    unfolding s_def by code_simp+
  then show ?thesis using slots_match_leases [OF refl s_def, of "''m''"] unfolding s_def [symmetric] Let_def by simp
qed

text \<open>
  No model ever has more requests running than the largest cap its callers ask for, or than the
  default cap of three that a rate-limit mark installs: the slots out of a model never exceed \<open>C\<close>
  when every acquisition asks for at most \<open>C\<close> and \<open>C\<close> is at least three.
\<close>

theorem concurrency_within_caps:
  assumes "list_all (\<lambda>p. cap_of C (snd p)) evs" and "3 \<le> C" and "s = sr_sem (foldl sem_step start_sem evs)"
  shows "lease_count s m \<le> C"
proof -
  have "within_cap C (sr_sem start_sem)" using assms(2) by (simp add: start_sem_def new_sem_def within_cap_def gate_at_def)
  then have "within_cap C s" unfolding assms(3) by (rule capped.run_inv) (use assms(1,2) in \<open>simp add: list_all_iff\<close>)
  then have "running_at s m \<le> C" using assms(2) by (simp add: within_cap_def running_at_def split: option.split)
  moreover have "sem_run_ok (foldl sem_step start_sem evs)"
    by (rule semaphore.run_inv [OF start_sem_ok]) (simp add: list_all_iff)
  ultimately show ?thesis by (simp add: sem_run_ok_def sem_inv_def assms(3))
qed

theorem concurrency_within_caps_witness:
  "lease_count (sr_sem (foldl sem_step start_sem sem_demo)) ''m'' \<le> 3"
  using concurrency_within_caps [OF _ order_refl refl, of sem_demo "''m''"] by (simp add: sem_demo_def)

text \<open>
  A rate limit does not outlive the slot in use when it is set: with one request of the model
  running and nobody waiting, the mark blocks further acquisitions until the cooldown ends, yet as
  soon as that request releases its slot the gate is dropped with the mark, and the next acquisition
  is admitted at once, however long the cooldown still lasts.
\<close>

theorem cooldown_lost_on_last_release:
  assumes "map_get (rs_gates s) m = Some a" and "mg_running (gate_at s a) = 1" and "mg_queue (gate_at s a) = []"
    and "map_get (rs_leases s) i = Some m" and "0 < cap" and "0 < now + cooldownMs" and "now3 < now + cooldownMs"
    and "s1 = markRateLimited now m cooldownMs s"
  shows "(\<forall>j. fst (acquire_slot now3 m cap q s1) \<noteq> Acquired j)
    \<and> (\<exists>j. fst (acquire_slot now3 m cap q (release_slot now2 i s1)) = Acquired j)"
proof -
  define g where "g = (gate_at s a)\<lparr>mg_max := DEFAULT_CONCURRENCY, mg_rateLimitedUntil := Some (now + cooldownMs)\<rparr>"
  have s1: "map_get (rs_gates s1) m = Some a" "gate_at s1 a = g" "rs_leases s1 = rs_leases s"
    using assms(1) by (simp_all add: assms(8) markRateLimited_def getGate_def Let_def g_def)
  have "fst (acquire_slot now3 m cap q s1) \<noteq> Acquired j" for j
    using s1 assms(6,7) by (simp add: acquire_slot_def getGate_def Let_def g_def isRateLimited_def split_beta)
  moreover have "map_get (rs_gates (release_slot now2 i s1)) m = None"
    using s1 assms(2-4) by (simp add: release_slot_def Let_def g_def gate_idle_def)
  then have "\<exists>j. fst (acquire_slot now3 m cap q (release_slot now2 i s1)) = Acquired j"
    using assms(5)
    by (simp add: acquire_slot_def getGate_def Let_def isRateLimited_def gate_at_def put_gate_def createReleaseFn_def)
  ultimately show ?thesis by blast
qed

theorem cooldown_lost_on_last_release_witness:
  "let s1 = markRateLimited 5 ''m'' 60000 (sr_sem (sem_step start_sem (0, Sem_acquire ''m'' 2 None))) in
   fst (acquire_slot 7 ''m'' 2 None s1) = Waiting 2
   \<and> (\<exists>j. fst (acquire_slot 7 ''m'' 2 None (release_slot 6 1 s1)) = Acquired j)"
proof -
  define s where "s = sr_sem (sem_step start_sem (0, Sem_acquire ''m'' 2 None))"
  have "map_get (rs_gates s) ''m'' = Some 0" "mg_running (gate_at s 0) = 1" "mg_queue (gate_at s 0) = []"
    "map_get (rs_leases s) 1 = Some ''m''"
    unfolding s_def by code_simp+
  note f = cooldown_lost_on_last_release [OF this, of 2 5 60000 7 _ None 6]
  have "fst (acquire_slot 7 ''m'' 2 None (markRateLimited 5 ''m'' 60000 s)) = Waiting 2" unfolding s_def by code_simp
  then show ?thesis using f unfolding s_def [symmetric] Let_def by simp
qed

text \<open>What draining does to the gate when no rate limit stands in the way.\<close>

lemma serve_full:
  "mg_rateLimitedUntil g = None \<Longrightarrow>
    mg_running (fst (serve now m ws g s)) = max (mg_running g) (min (mg_max g) (mg_running g + int (length ws)))
    \<and> rs_gates (snd (serve now m ws g s)) = rs_gates s"
proof (induction ws arbitrary: g s)
  case (Cons w ws)
  have lim: "\<not> isRateLimited now g" "clear_expired now g = g"
    using Cons.prems by (simp_all add: isRateLimited_def clear_expired_def)
  have gs: "rs_gates (resolve_waiter m w s) = rs_gates s"
    by (simp add: resolve_waiter_def createReleaseFn_def Let_def)
  show ?case
    using Cons.IH [of "g\<lparr>mg_running := mg_running g + 1\<rparr>" "resolve_waiter m w s"] Cons.prems
    by (auto simp: lim gs)
qed simp

text \<open>
  A rate-limit mark silently replaces the model's cap by the default of three: a gate configured
  for fewer requests at a time and full, with enough waiters, has three requests running as soon as
  the cooldown timer fires, although nobody released a slot and no caller asked for that cap.
\<close>

theorem mark_overrides_cap:
  assumes "map_get (rs_gates s) m = Some a" and "mg_running (gate_at s a) = mg_max (gate_at s a)"
    and "0 < mg_max (gate_at s a)" and "mg_max (gate_at s a) < 3"
    and "3 \<le> mg_max (gate_at s a) + int (length (mg_queue (gate_at s a)))"
    and "rs_cooldowns s = []" and "0 < now + cooldownMs" and "now + cooldownMs \<le> now2"
  shows "mg_running (gate_at (cooldown_fires now2 0 (markRateLimited now m cooldownMs s)) a) = 3"
proof -
  define g where "g = (gate_at s a)\<lparr>mg_max := 3, mg_rateLimitedUntil := None\<rparr>"
  obtain s1 where s1: "markRateLimited now m cooldownMs s = s1" by simp
  have f: "map_get (rs_gates s1) m = Some a" "rs_cooldowns s1 = [\<lparr>ct_gate = a, ct_model = m, ct_due = now + cooldownMs + 50\<rparr>]"
    "gate_at s1 a = g\<lparr>mg_rateLimitedUntil := Some (now + cooldownMs)\<rparr>"
    using assms(1,6) s1 by (auto simp: markRateLimited_def getGate_def Let_def g_def DEFAULT_CONCURRENCY_def)
  define s2 where "s2 = put_gate a g (s1\<lparr>rs_cooldowns := []\<rparr>)"
  have c: "cooldown_fires now2 0 s1 = drainQueue now2 m s2"
    using f assms(7,8) by (simp add: cooldown_fires_def Let_def s2_def g_def)
  have s2: "map_get (rs_gates s2) m = Some a" "gate_at s2 a = g" using f(1) by (simp_all add: s2_def)
  have r: "mg_running (fst (serve now2 m (mg_queue g) g s2)) = 3"
    using serve_full [of g now2 m "mg_queue g" s2] assms(2-5) by (simp add: g_def)
  then have "\<not> gate_idle (fst (serve now2 m (mg_queue g) g s2))" by (simp add: gate_idle_def)
  then show ?thesis using r by (simp add: s1 c drainQueue_def s2 Let_def split_beta)
qed

theorem mark_overrides_cap_witness:
  "let s = sr_sem (foldl sem_step start_sem [(0, Sem_acquire ''m'' 1 None), (1, Sem_acquire ''m'' 1 None), (2, Sem_acquire ''m'' 1 None)]) in
   mg_max (gate_at s 0) = 1 \<and> mg_running (gate_at s 0) = 1
   \<and> mg_running (gate_at (cooldown_fires 1053 0 (markRateLimited 3 ''m'' 1000 s)) 0) = 3"
proof -
  define s where "s = sr_sem (foldl sem_step start_sem [(0, Sem_acquire ''m'' 1 None), (1, Sem_acquire ''m'' 1 None), (2, Sem_acquire ''m'' 1 None)])"
  have "map_get (rs_gates s) ''m'' = Some 0" "mg_running (gate_at s 0) = 1" "mg_max (gate_at s 0) = 1"
    "mg_queue (gate_at s 0) = [2, 3]" "rs_cooldowns s = []"
    unfolding s_def by code_simp+
  then show ?thesis using mark_overrides_cap [of s "''m''" 0 3 1000 1053] unfolding s_def [symmetric] Let_def by simp
qed

end
