(* ===== verification/AccountSemaphore.thy ===== *)
theory AccountSemaphore
  imports Prelude "HOL-Library.List_Lexorder" "HOL-Library.Char_ord"
begin

text \<open>
  The hierarchical concurrency admission of \<^verbatim>\<open>src/open-sse/services/accountSemaphore.ts\<close>: one request
  takes a slot of several gates (global, provider, account) at once or waits for all of them. Gates
  are looked up by key at every step, so the map holds them by value. A waiting request is in
  \<open>ac_requests\<close> until it is settled; leases that were not released are in \<open>ac_leases\<close>.
\<close>

subsection \<open>State\<close>

record account_gate =
  ag_running :: int
  ag_max :: int
  ag_queue :: "nat list"
  ag_blockedUntil :: "int option"
  ag_cleanup :: bool

record acquire_request =
  aq_keys :: "string list"
  aq_signal :: "nat option"

datatype sem_error = SEMAPHORE_QUEUE_FULL | SEMAPHORE_TIMEOUT | SEMAPHORE_RESET | Abort_error

datatype account_settlement = Holds nat | Fails sem_error

record account_sem =
  ac_gates :: "(string, account_gate) js_map"
  ac_queued :: "nat list"
  ac_requests :: "(nat, acquire_request) js_map"
  ac_leases :: "(nat, string list) js_map"
  ac_settled :: "(nat \<times> account_settlement) list"
  ac_next :: nat

text \<open>What \<open>acquireMany\<close> answers: a release function without effect, a lease, a failure, a promise.\<close>

datatype account_outcome = Bypassed | Granted_now nat | Refused sem_error | Queued_as nat

definition new_account_sem :: account_sem where
  "new_account_sem = \<lparr>ac_gates = [], ac_queued = [], ac_requests = [], ac_leases = [], ac_settled = [], ac_next = 0\<rparr>"

definition DEFAULT_MAX_QUEUE_SIZE :: int where
  "DEFAULT_MAX_QUEUE_SIZE = 20"

definition buildAccountSemaphoreKey :: "string \<Rightarrow> string \<Rightarrow> string" where
  "buildAccountSemaphoreKey provider accountKey = provider @ '':'' @ accountKey"

text \<open>A limit that is not a positive finite number switches its gate off.\<close>

fun isBypassed :: "js_value \<Rightarrow> bool" where
  "isBypassed (Number r) \<longleftrightarrow> r \<le> 0"
| "isBypassed _ \<longleftrightarrow> True"

fun truncated :: "js_value \<Rightarrow> int" where
  "truncated (Number r) = \<lfloor>r\<rfloor>"
| "truncated _ = 0"

subsection \<open>Gates\<close>

definition ensureGate :: "string \<Rightarrow> int \<Rightarrow> (string, account_gate) js_map \<Rightarrow> (string, account_gate) js_map" where
  "ensureGate k maxConcurrency gs =
     (case map_get gs k of
        Some g \<Rightarrow> map_set k (g\<lparr>ag_max := maxConcurrency\<rparr>) gs
      | None \<Rightarrow> map_set k \<lparr>ag_running = 0, ag_max = maxConcurrency, ag_queue = [], ag_blockedUntil = None,
                          ag_cleanup = False\<rparr> gs)"

text \<open>The answer of \<open>isBlocked\<close>, and the gate after it: an expired block is cleared.\<close>

definition isBlocked :: "int \<Rightarrow> account_gate \<Rightarrow> bool" where
  "isBlocked now g \<longleftrightarrow> truthy (ag_blockedUntil g) \<and> now < or_else (ag_blockedUntil g) 0"

definition expire_block :: "int \<Rightarrow> account_gate \<Rightarrow> account_gate" where
  "expire_block now g =
     (if truthy (ag_blockedUntil g) \<and> or_else (ag_blockedUntil g) 0 \<le> now then g\<lparr>ag_blockedUntil := None\<rparr> else g)"

text \<open>A loop over keys that looks each gate up and changes it when it is there.\<close>

definition on_gate :: "(account_gate \<Rightarrow> account_gate) \<Rightarrow> (string, account_gate) js_map \<Rightarrow> string \<Rightarrow> (string, account_gate) js_map" where
  "on_gate f gs k = (case map_get gs k of None \<Rightarrow> gs | Some g \<Rightarrow> map_set k (f g) gs)"

definition on_gates :: "(account_gate \<Rightarrow> account_gate) \<Rightarrow> string list \<Rightarrow> (string, account_gate) js_map \<Rightarrow> (string, account_gate) js_map" where
  "on_gates f ks gs = foldl (on_gate f) gs ks"

definition idle_gate :: "account_gate \<Rightarrow> bool" where
  "idle_gate g \<longleftrightarrow> ag_running g = 0 \<and> ag_queue g = []"

text \<open>\<open>scheduleCleanup\<close> for a gate that is idle; the timer of a gate is a flag.\<close>

definition cleanup_if_idle :: "account_gate \<Rightarrow> account_gate" where
  "cleanup_if_idle g = (if idle_gate g then g\<lparr>ag_cleanup := True\<rparr> else g)"

definition cleanupGateIfIdle :: "int \<Rightarrow> string \<Rightarrow> account_sem \<Rightarrow> account_sem" where
  "cleanupGateIfIdle now k s =
     (case map_get (ac_gates s) k of
        None \<Rightarrow> s
      | Some g \<Rightarrow>
          if 0 < ag_running g \<or> ag_queue g \<noteq> [] \<or> isBlocked now g then s
          else s\<lparr>ac_gates := map_delete k (ac_gates s)\<rparr>)"

text \<open>The cleanup timer of the gate with key \<open>k\<close> fires.\<close>

definition cleanup_fires :: "int \<Rightarrow> string \<Rightarrow> account_sem \<Rightarrow> account_sem" where
  "cleanup_fires now k s =
     (case map_get (ac_gates s) k of
        None \<Rightarrow> s
      | Some g \<Rightarrow>
          if ag_cleanup g
          then cleanupGateIfIdle now k (s\<lparr>ac_gates := map_set k (g\<lparr>ag_cleanup := False\<rparr>) (ac_gates s)\<rparr>) else s)"

subsection \<open>Waiting requests\<close>

definition removeRequest :: "nat \<Rightarrow> account_sem \<Rightarrow> account_sem" where
  "removeRequest r s =
     (case map_get (ac_requests s) r of
        None \<Rightarrow> s
      | Some rq \<Rightarrow>
          s\<lparr>ac_queued := remove1 r (ac_queued s), ac_requests := map_delete r (ac_requests s),
            ac_gates := on_gates (\<lambda>g. cleanup_if_idle (g\<lparr>ag_queue := remove1 r (ag_queue g)\<rparr>)) (aq_keys rq) (ac_gates s)\<rparr>)"

fun canAcquire :: "int \<Rightarrow> nat \<Rightarrow> string list \<Rightarrow> (string, account_gate) js_map \<Rightarrow> bool \<times> (string, account_gate) js_map" where
  "canAcquire now r [] gs = (True, gs)"
| "canAcquire now r (k # ks) gs =
     (case map_get gs k of
        None \<Rightarrow> (False, gs)
      | Some g \<Rightarrow>
          if isBlocked now g then (False, gs)
          else
            let gs1 = map_set k (expire_block now g) gs
            in if ag_running g < ag_max g \<and> take 1 (ag_queue g) = [r] then canAcquire now r ks gs1 else (False, gs1))"

text \<open>The first waiting request, in the order of the set, that can be admitted.\<close>

fun first_ready :: "int \<Rightarrow> nat list \<Rightarrow> account_sem \<Rightarrow> nat option \<times> account_sem" where
  "first_ready now [] s = (None, s)"
| "first_ready now (r # rs) s =
     (case map_get (ac_requests s) r of
        None \<Rightarrow> first_ready now rs s
      | Some rq \<Rightarrow>
          let (ok, gs) = canAcquire now r (aq_keys rq) (ac_gates s); s1 = s\<lparr>ac_gates := gs\<rparr>
          in if ok then (Some r, s1) else first_ready now rs s1)"

definition settle :: "nat \<Rightarrow> account_settlement \<Rightarrow> account_sem \<Rightarrow> account_sem" where
  "settle r res s = s\<lparr>ac_settled := ac_settled s @ [(r, res)]\<rparr>"

text \<open>A slot of each gate, and the composite release function as a lease.\<close>

definition take_slots :: "string list \<Rightarrow> account_sem \<Rightarrow> nat \<times> account_sem" where
  "take_slots ks s =
     (ac_next s, s\<lparr>ac_gates := on_gates (\<lambda>g. g\<lparr>ag_running := ag_running g + 1\<rparr>) ks (ac_gates s),
                   ac_leases := map_set (ac_next s) ks (ac_leases s), ac_next := ac_next s + 1\<rparr>)"

definition grant_request :: "nat \<Rightarrow> account_sem \<Rightarrow> account_sem" where
  "grant_request r s =
     (case map_get (ac_requests s) r of
        None \<Rightarrow> s
      | Some rq \<Rightarrow> let (i, s1) = take_slots (aq_keys rq) (removeRequest r s) in settle r (Holds i) s1)"

lemma first_ready_fields:
  "ac_queued (snd (first_ready now rs s)) = ac_queued s" "ac_requests (snd (first_ready now rs s)) = ac_requests s"
  "ac_leases (snd (first_ready now rs s)) = ac_leases s" "ac_settled (snd (first_ready now rs s)) = ac_settled s"
  "ac_next (snd (first_ready now rs s)) = ac_next s"
  by (induction rs arbitrary: s) (auto simp: Let_def split_beta split: option.split)

lemma first_ready_member:
  "fst (first_ready now rs s) = Some r \<Longrightarrow> r \<in> set rs \<and> map_get (ac_requests s) r \<noteq> None"
  by (induction rs arbitrary: s) (fastforce simp: Let_def split_beta split: option.splits if_splits)+

lemma grant_queued: "map_get (ac_requests s) r \<noteq> None \<Longrightarrow> ac_queued (grant_request r s) = remove1 r (ac_queued s)"
  by (auto simp: grant_request_def take_slots_def removeRequest_def settle_def)

text \<open>The loop of \<open>drainQueues\<close>: it starts over after each admission and ends when there is none.\<close>

function drainQueues :: "int \<Rightarrow> account_sem \<Rightarrow> account_sem" where
  "drainQueues now s =
     (case first_ready now (ac_queued s) s of
        (None, s1) \<Rightarrow> s1
      | (Some r, s1) \<Rightarrow> drainQueues now (grant_request r s1))"
  by pat_completeness auto
termination
proof (relation "measure (\<lambda>(now, s). length (ac_queued s))", goal_cases)
  case (2 now s x z r)
  then have "fst (first_ready now (ac_queued s) s) = Some r" "snd (first_ready now (ac_queued s) s) = z"
    by (metis fst_conv, metis snd_conv)
  with first_ready_member [of now "ac_queued s" s r] first_ready_fields(1,2) [of now "ac_queued s" s]
  have "r \<in> set (ac_queued s)" "map_get (ac_requests z) r \<noteq> None" "ac_queued z = ac_queued s" by simp_all
  then show ?case
    using length_pos_if_in_set [of r "ac_queued s"] by (simp add: grant_queued length_remove1)
qed simp

declare drainQueues.simps [simp del]

subsection \<open>Operations\<close>

text \<open>The composite release function of a lease; it does nothing the second time.\<close>

definition release_composite :: "int \<Rightarrow> nat \<Rightarrow> account_sem \<Rightarrow> account_sem" where
  "release_composite now i s =
     (case map_get (ac_leases s) i of
        None \<Rightarrow> s
      | Some ks \<Rightarrow>
          let s1 = s\<lparr>ac_leases := map_delete i (ac_leases s),
                     ac_gates := on_gates (\<lambda>g. if 0 < ag_running g then g\<lparr>ag_running := ag_running g - 1\<rparr> else g)
                                   ks (ac_gates s)\<rparr>;
              s2 = drainQueues now s1
          in s2\<lparr>ac_gates := on_gates cleanup_if_idle ks (ac_gates s2)\<rparr>)"

text \<open>The limits of the gates that are switched on, the smaller one when a key comes twice.\<close>

definition enabled_limits :: "(string \<times> js_value) list \<Rightarrow> (string, int) js_map" where
  "enabled_limits reqs =
     foldl (\<lambda>m (k, mx).
       if isBypassed mx then m
       else let limit = truncated mx in map_set k (min (nullish (map_get m k) limit) limit) m) [] reqs"

text \<open>The loop that prepares the gates; False when a queue is full, the gates before it prepared.\<close>

fun prepare_gates :: "int \<Rightarrow> (string, int) js_map \<Rightarrow> string list \<Rightarrow> (string, account_gate) js_map \<Rightarrow> bool \<times> (string, account_gate) js_map" where
  "prepare_gates maxQueueSize lims [] gs = (True, gs)"
| "prepare_gates maxQueueSize lims (k # ks) gs =
     (let gs1 = on_gate (\<lambda>g. g\<lparr>ag_cleanup := False\<rparr>) (ensureGate k (nullish (map_get lims k) 0) gs) k
      in if 0 < maxQueueSize \<and> maxQueueSize \<le> int (length (nullish (map_option ag_queue (map_get gs1 k)) []))
         then (False, gs1) else prepare_gates maxQueueSize lims ks gs1)"

text \<open>Whether every gate is free, each with nobody waiting.\<close>

fun all_free :: "int \<Rightarrow> string list \<Rightarrow> (string, account_gate) js_map \<Rightarrow> bool \<times> (string, account_gate) js_map" where
  "all_free now [] gs = (True, gs)"
| "all_free now (k # ks) gs =
     (case map_get gs k of
        None \<Rightarrow> (False, gs)
      | Some g \<Rightarrow>
          if ag_queue g = [] \<and> ag_running g < ag_max g then
            if isBlocked now g then (False, gs) else all_free now ks (map_set k (expire_block now g) gs)
          else (False, gs))"

definition push_request :: "string list \<Rightarrow> nat option \<Rightarrow> account_sem \<Rightarrow> nat \<times> account_sem" where
  "push_request ks sg s =
     (let r = ac_next s in
      (r, s\<lparr>ac_queued := ac_queued s @ [r], ac_requests := map_set r \<lparr>aq_keys = ks, aq_signal = sg\<rparr> (ac_requests s),
            ac_gates := on_gates (\<lambda>g. g\<lparr>ag_queue := ag_queue g @ [r]\<rparr>) ks (ac_gates s), ac_next := r + 1\<rparr>))"

definition acquireMany ::
  "int \<Rightarrow> (string \<times> js_value) list \<Rightarrow> nat option \<Rightarrow> bool \<Rightarrow> int \<Rightarrow> account_sem \<Rightarrow> account_outcome \<times> account_sem" where
  "acquireMany now reqs sg aborted maxQueueSize s0 =
     (let lims = enabled_limits reqs in
      if lims = [] then (Bypassed, s0)
      else if aborted then (Refused Abort_error, s0)
      else
        let ks = sort (map fst lims);
            (room, gs) = prepare_gates maxQueueSize lims ks (ac_gates s0); s = s0\<lparr>ac_gates := gs\<rparr>
        in if \<not> room then (Refused SEMAPHORE_QUEUE_FULL, s)
           else
             let (free, gs1) = all_free now ks gs; s1 = s\<lparr>ac_gates := gs1\<rparr>
             in if free then let (i, s2) = take_slots ks s1 in (Granted_now i, s2)
                else let (r, s2) = push_request ks sg s1 in (Queued_as r, drainQueues now s2))"

definition acquire_one :: "int \<Rightarrow> string \<Rightarrow> js_value \<Rightarrow> nat option \<Rightarrow> bool \<Rightarrow> int \<Rightarrow> account_sem \<Rightarrow> account_outcome \<times> account_sem" where
  "acquire_one now key maxConcurrency sg aborted maxQueueSize s =
     acquireMany now [(key, maxConcurrency)] sg aborted maxQueueSize s"

text \<open>The timer of a waiting request fires, or its signal aborts: it fails and the queues are drained.\<close>

definition fail_request :: "int \<Rightarrow> sem_error \<Rightarrow> nat \<Rightarrow> account_sem \<Rightarrow> account_sem" where
  "fail_request now err r s =
     (if map_get (ac_requests s) r = None then s
      else drainQueues now (settle r (Fails err) (removeRequest r s)))"

datatype block_end = At js_value | In int

text \<open>The end of a block: a date or a date string by its time (not finite when invalid), or a duration.\<close>

definition markBlocked :: "int \<Rightarrow> string \<Rightarrow> block_end \<Rightarrow> account_sem \<Rightarrow> account_sem" where
  "markBlocked now k until s =
     (let untilMs = (case until of At (Number r) \<Rightarrow> Some \<lfloor>r\<rfloor> | At _ \<Rightarrow> None | In n \<Rightarrow> Some (now + max 0 n)) in
      case untilMs of
        None \<Rightarrow> s
      | Some u \<Rightarrow>
          if u \<le> now then s
          else s\<lparr>ac_gates := on_gate (\<lambda>g. g\<lparr>ag_cleanup := False, ag_blockedUntil := Some u\<rparr>)
                   (ensureGate k (nullish (map_option ag_max (map_get (ac_gates s) k)) 1) (ac_gates s)) k\<rparr>)"

definition unblock :: "int \<Rightarrow> string \<Rightarrow> account_sem \<Rightarrow> account_sem" where
  "unblock now k s =
     (case map_get (ac_gates s) k of
        None \<Rightarrow> s
      | Some g \<Rightarrow>
          cleanupGateIfIdle now k
            (drainQueues now (s\<lparr>ac_gates := map_set k (g\<lparr>ag_blockedUntil := None\<rparr>) (ac_gates s)\<rparr>)))"

text \<open>Per key: running, queued, max and the end of the block.\<close>

definition account_stats :: "account_sem \<Rightarrow> (string \<times> int \<times> nat \<times> int \<times> int option) list" where
  "account_stats s = map (\<lambda>(k, g). (k, ag_running g, length (ag_queue g), ag_max g,
     if truthy (ag_blockedUntil g) then ag_blockedUntil g else None)) (ac_gates s)"

definition isAccountSemaphoreFull :: "int \<Rightarrow> string \<Rightarrow> string \<Rightarrow> js_value \<Rightarrow> account_sem \<Rightarrow> bool \<times> account_sem" where
  "isAccountSemaphoreFull now provider accountKey maxConcurrency s =
     (case maxConcurrency of
        Number cap \<Rightarrow>
          if cap \<le> 0 then (False, s)
          else
            let k = buildAccountSemaphoreKey provider accountKey in
            (case map_get (ac_gates s) k of
               None \<Rightarrow> (False, s)
             | Some g \<Rightarrow>
                 if cap \<le> of_int (ag_running g) then (True, s)
                 else (isBlocked now g, s\<lparr>ac_gates := map_set k (expire_block now g) (ac_gates s)\<rparr>))
      | _ \<Rightarrow> (False, s))"

text \<open>\<open>reset\<close> settles what waits at the gate, drops the gate and then rejects.\<close>

definition reset_gate :: "int \<Rightarrow> string \<Rightarrow> account_sem \<Rightarrow> account_sem" where
  "reset_gate now k s =
     (case map_get (ac_gates s) k of
        None \<Rightarrow> s
      | Some g \<Rightarrow>
          let rs = filter (\<lambda>r. map_get (ac_requests s) r \<noteq> None) (ag_queue g);
              s1 = foldl (\<lambda>s r. removeRequest r s) s rs;
              s2 = s1\<lparr>ac_gates := map_delete k (ac_gates s1)\<rparr>;
              s3 = foldl (\<lambda>s r. settle r (Fails SEMAPHORE_RESET) s) s2 rs
          in drainQueues now s3)"

definition reset_account_sem :: "account_sem \<Rightarrow> account_sem" where
  "reset_account_sem s =
     (let rs = filter (\<lambda>r. map_get (ac_requests s) r \<noteq> None) (ac_queued s);
          s1 = foldl (\<lambda>s r. removeRequest r s) s rs;
          s2 = s1\<lparr>ac_gates := [], ac_queued := []\<rparr>
      in foldl (\<lambda>s r. settle r (Fails SEMAPHORE_RESET) s) s2 rs)"

subsection \<open>The books\<close>

lemma on_gate_of: "map_of (on_gate f gs k) k' = (if k' = k then map_option f (map_of gs k) else map_of gs k')"
  by (auto simp: on_gate_def split: option.split)

lemma on_gates_of:
  "distinct ks \<Longrightarrow> map_of (on_gates f ks gs) k = (if k \<in> set ks then map_option f (map_of gs k) else map_of gs k)"
  unfolding on_gates_def
  by (induction ks arbitrary: gs) (auto simp: on_gate_of)

definition keys_of :: "account_sem \<Rightarrow> nat \<Rightarrow> string list" where
  "keys_of s r = (case map_get (ac_requests s) r of None \<Rightarrow> [] | Some rq \<Rightarrow> aq_keys rq)"

text \<open>The waiting requests that want the key, in the order of their arrival; the slots held of it.\<close>

definition wants :: "account_sem \<Rightarrow> string \<Rightarrow> nat list" where
  "wants s k = filter (\<lambda>r. k \<in> set (keys_of s r)) (ac_queued s)"

definition held :: "account_sem \<Rightarrow> string \<Rightarrow> int" where
  "held s k = int (length (filter (\<lambda>p. k \<in> set (snd p)) (ac_leases s)))"

fun book_ok :: "nat list \<Rightarrow> int \<Rightarrow> account_gate option \<Rightarrow> bool" where
  "book_ok w h None \<longleftrightarrow> w = [] \<and> h = 0"
| "book_ok w h (Some g) \<longleftrightarrow> ag_queue g = w \<and> ag_running g = h"

text \<open>
  What a gate counts is what is held of its key and an offset, which is nothing before the gate is reset: a reset forgets
  the leases that are out.
\<close>

definition gates_match :: "(string \<Rightarrow> int) \<Rightarrow> account_sem \<Rightarrow> bool" where
  "gates_match off s \<longleftrightarrow> (\<forall>k. 0 \<le> held s k + off k \<and> book_ok (wants s k) (held s k + off k) (map_get (ac_gates s) k))"

definition requests_ok :: "account_sem \<Rightarrow> bool" where
  "requests_ok s \<longleftrightarrow> sorted_wrt (<) (ac_queued s) \<and> set (ac_queued s) = fst ` set (ac_requests s)
     \<and> map_wf (ac_requests s) \<and> map_wf (ac_leases s)
     \<and> (\<forall>r rq. map_get (ac_requests s) r = Some rq \<longrightarrow> distinct (aq_keys rq) \<and> aq_keys rq \<noteq> [])
     \<and> (\<forall>i ks. map_get (ac_leases s) i = Some ks \<longrightarrow> distinct ks)
     \<and> (\<forall>r \<in> fst ` set (ac_requests s). r < ac_next s) \<and> (\<forall>i \<in> fst ` set (ac_leases s). i < ac_next s)"

definition books_ok :: "(string \<Rightarrow> int) \<Rightarrow> account_sem \<Rightarrow> bool" where
  "books_ok off s \<longleftrightarrow> requests_ok s \<and> gates_match off s"

abbreviation acc_inv :: "account_sem \<Rightarrow> bool" where
  "acc_inv s \<equiv> books_ok (\<lambda>_. 0) s"

lemmas acc_inv_def = books_ok_def

text \<open>The promises that wait or are settled.\<close>

definition acc_promised :: "account_sem \<Rightarrow> nat multiset" where
  "acc_promised s = mset (ac_queued s) + mset (map fst (ac_settled s))"

lemma held_nonneg [simp]: "0 \<le> held s k"
  by (simp add: held_def)

lemma gates_upd [simp]:
  "requests_ok (s\<lparr>ac_gates := gs\<rparr>) = requests_ok s" "wants (s\<lparr>ac_gates := gs\<rparr>) = wants s"
  "held (s\<lparr>ac_gates := gs\<rparr>) = held s" "acc_promised (s\<lparr>ac_gates := gs\<rparr>) = acc_promised s"
  "keys_of (s\<lparr>ac_gates := gs\<rparr>) = keys_of s"
  by (simp_all add: requests_ok_def wants_def held_def acc_promised_def keys_of_def fun_eq_iff)

text \<open>A change of the gates that agrees with any books the gates agreed with.\<close>

definition keeps_books :: "(string, account_gate) js_map \<Rightarrow> (string, account_gate) js_map \<Rightarrow> bool" where
  "keeps_books gs gs' \<longleftrightarrow> (\<forall>k w h. 0 \<le> h \<longrightarrow> book_ok w h (map_of gs k) \<longrightarrow> book_ok w h (map_of gs' k))"

lemma keeps_books_refl [simp]: "keeps_books gs gs"
  by (simp add: keeps_books_def)

lemma keeps_books_trans: "keeps_books a b \<Longrightarrow> keeps_books b c \<Longrightarrow> keeps_books a c"
  by (simp add: keeps_books_def)

lemma acc_inv_same: "books_ok off s \<Longrightarrow> keeps_books (ac_gates s) gs \<Longrightarrow> books_ok off (s\<lparr>ac_gates := gs\<rparr>)"
  by (simp add: books_ok_def gates_match_def keeps_books_def)

lemma keeps_books_on:
  assumes "\<And>g. ag_queue (f g) = ag_queue g \<and> ag_running (f g) = ag_running g"
  shows "keeps_books gs (on_gate f gs k)"
  unfolding keeps_books_def
proof (intro allI impI)
  fix k' w h
  assume "book_ok w h (map_of gs k')"
  then show "book_ok w h (map_of (on_gate f gs k) k')"
    using assms by (cases "map_of gs k'") (auto simp: on_gate_of)
qed

lemma expire_block_fields [simp]:
  "ag_queue (expire_block now g) = ag_queue g" "ag_running (expire_block now g) = ag_running g"
  "ag_max (expire_block now g) = ag_max g"
  by (simp_all add: expire_block_def)

lemma keeps_books_set:
  "map_of gs k = Some g \<Longrightarrow> ag_queue g' = ag_queue g \<Longrightarrow> ag_running g' = ag_running g \<Longrightarrow> keeps_books gs (map_set k g' gs)"
  by (auto simp: keeps_books_def)

lemma canAcquire_same: "keeps_books gs (snd (canAcquire now r ks gs))"
proof (induction ks arbitrary: gs)
  case (Cons k ks)
  show ?case
  proof (cases "map_of gs k")
    case (Some g)
    have "keeps_books gs (map_set k (expire_block now g) gs)" by (rule keeps_books_set [OF Some]) simp_all
    then show ?thesis using Cons.IH Some by (auto simp: Let_def intro: keeps_books_trans)
  qed simp
qed simp

lemma all_free_same: "keeps_books gs (snd (all_free now ks gs))"
proof (induction ks arbitrary: gs)
  case (Cons k ks)
  show ?case
  proof (cases "map_of gs k")
    case (Some g)
    have "keeps_books gs (map_set k (expire_block now g) gs)" by (rule keeps_books_set [OF Some]) simp_all
    then show ?thesis using Cons.IH Some by (auto intro: keeps_books_trans)
  qed simp
qed simp

lemma first_ready_same: "keeps_books (ac_gates s) (ac_gates (snd (first_ready now rs s)))"
proof (induction rs arbitrary: s)
  case (Cons r rs)
  show ?case
  proof (cases "map_get (ac_requests s) r")
    case (Some rq)
    obtain ok gs where c: "canAcquire now r (aq_keys rq) (ac_gates s) = (ok, gs)"
      by (cases "canAcquire now r (aq_keys rq) (ac_gates s)")
    have "keeps_books (ac_gates s) gs" using canAcquire_same [of "ac_gates s" now r "aq_keys rq"] c by simp
    then show ?thesis using Some c Cons.IH [of "s\<lparr>ac_gates := gs\<rparr>"] by (auto simp: Let_def intro: keeps_books_trans)
  qed (simp add: Cons.IH)
qed simp

lemma first_ready_gates: "snd (first_ready now rs s) = s\<lparr>ac_gates := ac_gates (snd (first_ready now rs s))\<rparr>"
  using first_ready_fields [of now rs s] by simp

text \<open>What an acquirable request has: it heads the queue of each of its gates, which have room.\<close>

definition ready :: "int \<Rightarrow> nat \<Rightarrow> string list \<Rightarrow> (string, account_gate) js_map \<Rightarrow> bool" where
  "ready now r ks gs \<longleftrightarrow> (\<forall>k \<in> set ks. \<exists>g. map_of gs k = Some g \<and> \<not> isBlocked now g
     \<and> ag_running g < ag_max g \<and> take 1 (ag_queue g) = [r])"

lemma isBlocked_expire [simp]: "isBlocked now (expire_block now g) = isBlocked now g"
  by (auto simp: isBlocked_def expire_block_def)

lemma ready_expired:
  "map_of gs k = Some g \<Longrightarrow> ready now r ks (map_set k (expire_block now g) gs) = ready now r ks gs"
  unfolding ready_def by (intro ball_cong refl) auto

lemma canAcquire_iff: "fst (canAcquire now r ks gs) = ready now r ks gs"
proof (induction ks arbitrary: gs)
  case (Cons k ks)
  show ?case
  proof (cases "map_of gs k")
    case (Some g)
    have "ready now r (k # ks) gs = (\<not> isBlocked now g \<and> ag_running g < ag_max g \<and> take 1 (ag_queue g) = [r] \<and> ready now r ks gs)"
      using Some by (simp add: ready_def)
    then show ?thesis using Some Cons.IH [of "map_set k (expire_block now g) gs"] ready_expired [OF Some]
      by (auto simp: Let_def)
  qed (simp add: ready_def)
qed (simp add: ready_def)

lemma wants_member: "r \<in> set (wants s k) \<longleftrightarrow> r \<in> set (ac_queued s) \<and> k \<in> set (keys_of s r)"
  by (auto simp: wants_def)

lemma gate_of_wanted: "books_ok off s \<Longrightarrow> wants s k \<noteq> [] \<Longrightarrow> map_get (ac_gates s) k \<noteq> None"
  unfolding books_ok_def gates_match_def by (metis book_ok.simps(1))

lemma queued_distinct: "requests_ok s \<Longrightarrow> distinct (ac_queued s)"
  by (auto simp: requests_ok_def strict_sorted_iff)

lemma request_queued:
  assumes "requests_ok s" and "map_get (ac_requests s) r = Some rq"
  shows "r \<in> set (ac_queued s)"
proof -
  have "r \<in> fst ` set (ac_requests s)" using map_of_SomeD [OF assms(2)] by (rule image_eqI [rotated]) simp
  then show ?thesis using assms(1) by (simp add: requests_ok_def)
qed

lemma removeRequest_fields:
  assumes "map_get (ac_requests s) r = Some rq"
  shows "ac_queued (removeRequest r s) = remove1 r (ac_queued s)"
    "ac_requests (removeRequest r s) = map_delete r (ac_requests s)"
    "ac_leases (removeRequest r s) = ac_leases s" "ac_settled (removeRequest r s) = ac_settled s"
    "ac_next (removeRequest r s) = ac_next s"
    "ac_gates (removeRequest r s) = on_gates (\<lambda>g. cleanup_if_idle (g\<lparr>ag_queue := remove1 r (ag_queue g)\<rparr>)) (aq_keys rq) (ac_gates s)"
  using assms by (simp_all add: removeRequest_def)

lemma cleanup_if_idle_fields [simp]:
  "ag_queue (cleanup_if_idle g) = ag_queue g" "ag_running (cleanup_if_idle g) = ag_running g"
  "ag_max (cleanup_if_idle g) = ag_max g" "ag_blockedUntil (cleanup_if_idle g) = ag_blockedUntil g"
  by (simp_all add: cleanup_if_idle_def)

lemma filter_remove1: "distinct xs \<Longrightarrow> filter P (remove1 x xs) = remove1 x (filter P xs)"
  by (induction xs) (auto simp: remove1_idem)

lemma removeRequest_inv:
  assumes inv: "books_ok off s" and r: "map_get (ac_requests s) r = Some rq"
  shows "books_ok off (removeRequest r s) \<and> acc_promised (removeRequest r s) + {#r#} = acc_promised s"
proof -
  let ?s = "removeRequest r s"
  note f = removeRequest_fields [OF r]
  have ok: "requests_ok s" and gm: "gates_match off s" using inv by (simp_all add: books_ok_def)
  have d: "distinct (ac_queued s)" by (rule queued_distinct [OF ok])
  have q: "r \<in> set (ac_queued s)" by (rule request_queued [OF ok r])
  have keys: "keys_of ?s r' = (if r' = r then [] else keys_of s r')" for r' by (simp add: keys_of_def f)
  have w: "wants ?s k = remove1 r (wants s k)" for k
  proof -
    have "wants ?s k = filter (\<lambda>r'. k \<in> set (keys_of s r')) (remove1 r (ac_queued s))"
      unfolding wants_def f by (rule filter_cong [OF refl]) (use d in \<open>simp add: keys\<close>)
    then show ?thesis using d by (simp add: wants_def filter_remove1)
  qed
  have h: "held ?s = held s" by (simp add: held_def fun_eq_iff f)
  have "0 \<le> held ?s k + off k \<and> book_ok (wants ?s k) (held ?s k + off k) (map_get (ac_gates ?s) k)" for k
  proof -
    have b: "0 \<le> held s k + off k \<and> book_ok (wants s k) (held s k + off k) (map_get (ac_gates s) k)" using gm by (simp add: gates_match_def)
    have dk: "distinct (aq_keys rq)" using ok r by (simp add: requests_ok_def)
    show ?thesis
    proof (cases "k \<in> set (aq_keys rq)")
      case True
      then show ?thesis using b unfolding f(6) w h on_gates_of [OF dk] by (cases "map_get (ac_gates s) k") auto
    next
      case False
      then have "r \<notin> set (wants s k)" using r by (simp add: wants_member keys_of_def)
      then show ?thesis using b False unfolding f(6) w h on_gates_of [OF dk] by (simp add: remove1_idem)
    qed
  qed
  moreover have "requests_ok ?s"
  proof -
    have "sorted_wrt (<) (remove1 r (ac_queued s))"
      using ok by (simp add: requests_ok_def strict_sorted_iff sorted_remove1)
    moreover have "set (remove1 r (ac_queued s)) = fst ` set (map_delete r (ac_requests s))"
      using ok d by (auto simp: requests_ok_def AList.delete_eq)
    ultimately show ?thesis
      using ok unfolding requests_ok_def f
      by (auto intro: map_wf_delete dest: subsetD [OF set_map_delete_subset])
  qed
  moreover have "acc_promised ?s + {#r#} = acc_promised s" using q by (simp add: acc_promised_def f)
  ultimately show ?thesis by (simp add: books_ok_def gates_match_def)
qed

lemma settle_inv [simp]: "books_ok off (settle r x s) = books_ok off s"
  by (simp add: books_ok_def requests_ok_def gates_match_def settle_def wants_def held_def keys_of_def)

lemma settle_promised [simp]: "acc_promised (settle r x s) = acc_promised s + {#r#}"
  by (simp add: acc_promised_def settle_def)

lemma settle_fields [simp]:
  "ac_next (settle r x s) = ac_next s" "ac_queued (settle r x s) = ac_queued s" "ac_leases (settle r x s) = ac_leases s"
  "ac_requests (settle r x s) = ac_requests s" "ac_gates (settle r x s) = ac_gates s"
  "ac_settled (settle r x s) = ac_settled s @ [(r, x)]"
  by (simp_all add: settle_def)

lemma held_take:
  assumes "requests_ok s" and "take_slots ks s = (i, s')"
  shows "held s' k = held s k + (if k \<in> set ks then 1 else 0)"
proof -
  have s': "ac_leases s' = map_set (ac_next s) ks (ac_leases s)" using assms(2) by (auto simp: take_slots_def)
  have "map_get (ac_leases s) (ac_next s) = None" using assms(1) by (force simp: requests_ok_def map_of_eq_None_iff)
  then have "map_set (ac_next s) ks (ac_leases s) = ac_leases s @ [(ac_next s, ks)]"
    by (rule map_set_fresh)
  then show ?thesis by (simp add: held_def s')
qed

lemma take_slots_inv:
  assumes inv: "books_ok off s" and ks: "distinct ks" "\<And>k. k \<in> set ks \<Longrightarrow> map_get (ac_gates s) k \<noteq> None"
    and t: "take_slots ks s = (i, s')"
  shows "books_ok off s' \<and> acc_promised s' = acc_promised s \<and> ac_next s' = ac_next s + 1"
proof -
  have ok: "requests_ok s" and gm: "gates_match off s" using inv by (simp_all add: books_ok_def)
  have s': "s' = s\<lparr>ac_gates := on_gates (\<lambda>g. g\<lparr>ag_running := ag_running g + 1\<rparr>) ks (ac_gates s),
                   ac_leases := map_set (ac_next s) ks (ac_leases s), ac_next := ac_next s + 1\<rparr>"
    using t by (auto simp: take_slots_def)
  have w: "wants s' = wants s" by (simp add: s' wants_def keys_of_def fun_eq_iff)
  have "0 \<le> held s' k + off k \<and> book_ok (wants s' k) (held s' k + off k) (map_get (ac_gates s') k)" for k
  proof -
    have b: "0 \<le> held s k + off k \<and> book_ok (wants s k) (held s k + off k) (map_get (ac_gates s) k)" using gm by (simp add: gates_match_def)
    have "map_get (ac_gates s') k = (if k \<in> set ks then map_option (\<lambda>g. g\<lparr>ag_running := ag_running g + 1\<rparr>) (map_get (ac_gates s) k)
        else map_get (ac_gates s) k)"
      by (simp add: s' on_gates_of [OF ks(1)])
    then show ?thesis
      using b ks(2) [of k] unfolding w held_take [OF ok t] by (cases "map_get (ac_gates s) k") auto
  qed
  moreover have "requests_ok s'"
    using ok ks(1) by (auto simp: s' requests_ok_def dom_update less_Suc_eq intro: map_wf_set)
  ultimately show ?thesis by (simp add: books_ok_def gates_match_def) (simp add: s' acc_promised_def)
qed

lemma request_gates:
  assumes "books_ok off s" and "map_get (ac_requests s) r = Some rq" and "k \<in> set (aq_keys rq)"
  shows "map_get (ac_gates s) k \<noteq> None"
proof -
  have "requests_ok s" using assms(1) by (simp add: books_ok_def)
  then have "r \<in> set (wants s k)" using request_queued assms(2,3) by (simp add: wants_member keys_of_def)
  then have "wants s k \<noteq> []" by auto
  with gate_of_wanted [OF assms(1)] show ?thesis .
qed

lemma grant_inv:
  assumes inv: "books_ok off s" and r: "map_get (ac_requests s) r = Some rq"
  shows "books_ok off (grant_request r s) \<and> acc_promised (grant_request r s) = acc_promised s
    \<and> ac_next s \<le> ac_next (grant_request r s)"
proof -
  let ?s = "removeRequest r s"
  obtain i s1 where t: "take_slots (aq_keys rq) ?s = (i, s1)" by (cases "take_slots (aq_keys rq) ?s")
  have dk: "distinct (aq_keys rq)" using inv r by (simp add: books_ok_def requests_ok_def)
  have "map_get (ac_gates ?s) k \<noteq> None" if "k \<in> set (aq_keys rq)" for k
    using request_gates [OF inv r that] that by (simp add: removeRequest_fields [OF r] on_gates_of [OF dk])
  from take_slots_inv [OF conjunct1 [OF removeRequest_inv [OF inv r]] dk this t] show ?thesis
    using removeRequest_inv [OF inv r] removeRequest_fields(5) [OF r]
    by (simp add: grant_request_def r t)
qed

lemma drain_inv:
  "books_ok off s \<Longrightarrow> books_ok off (drainQueues now s) \<and> acc_promised (drainQueues now s) = acc_promised s
    \<and> ac_next s \<le> ac_next (drainQueues now s)"
proof (induction now s rule: drainQueues.induct)
  case (1 now s)
  obtain x s1 where f: "first_ready now (ac_queued s) s = (x, s1)" by (cases "first_ready now (ac_queued s) s")
  have s1: "s1 = s\<lparr>ac_gates := ac_gates s1\<rparr>" using first_ready_gates [of now "ac_queued s" s] f by simp
  have "books_ok off (s\<lparr>ac_gates := ac_gates s1\<rparr>)"
    using acc_inv_same [OF "1.prems" first_ready_same [of s now "ac_queued s"]] f by simp
  then have i1: "books_ok off s1 \<and> acc_promised s1 = acc_promised s \<and> ac_next s1 = ac_next s"
    using s1 by (metis account_sem.select_convs(6) account_sem.update_convs(1) gates_upd(4) account_sem.surjective)
  show ?case
  proof (cases x)
    case None
    then show ?thesis using f i1 by (simp add: drainQueues.simps [of now s])
  next
    case (Some r)
    have "map_get (ac_requests s) r \<noteq> None" using first_ready_member [of now "ac_queued s" s r] f Some by simp
    moreover have "ac_requests s1 = ac_requests s" using first_ready_fields(2) [of now "ac_queued s" s] f by simp
    ultimately obtain rq where rq: "map_get (ac_requests s1) r = Some rq" by auto
    note g = grant_inv [OF conjunct1 [OF i1] rq]
    from "1.IH" [OF f [symmetric] _ conjunct1 [OF g]] Some g i1 f show ?thesis
      by (simp add: drainQueues.simps [of now s])
  qed
qed

lemma push_inv:
  assumes inv: "books_ok off s" and ks: "distinct ks" "ks \<noteq> []" "\<And>k. k \<in> set ks \<Longrightarrow> map_get (ac_gates s) k \<noteq> None"
    and p: "push_request ks sg s = (r, s')"
  shows "books_ok off s' \<and> acc_promised s' = acc_promised s + {#r#} \<and> r = ac_next s \<and> ac_next s' = r + 1"
proof -
  have ok: "requests_ok s" and gm: "gates_match off s" using inv by (simp_all add: books_ok_def)
  have r: "r = ac_next s" using p by (simp add: push_request_def Let_def)
  have s': "s' = s\<lparr>ac_queued := ac_queued s @ [r], ac_requests := map_set r \<lparr>aq_keys = ks, aq_signal = sg\<rparr> (ac_requests s),
            ac_gates := on_gates (\<lambda>g. g\<lparr>ag_queue := ag_queue g @ [r]\<rparr>) ks (ac_gates s), ac_next := r + 1\<rparr>"
    using p r by (auto simp: push_request_def Let_def)
  have new: "r \<notin> fst ` set (ac_requests s)" "r \<notin> set (ac_queued s)" "\<forall>q \<in> set (ac_queued s). q < r"
    using ok unfolding requests_ok_def r by auto
  have keys: "keys_of s' q = (if q = r then ks else keys_of s q)" for q by (simp add: s' keys_of_def)
  have w: "wants s' k = wants s k @ (if k \<in> set ks then [r] else [])" for k
  proof -
    have "filter (\<lambda>q. k \<in> set (keys_of s' q)) (ac_queued s) = wants s k"
      unfolding wants_def by (rule filter_cong [OF refl]) (use new in \<open>auto simp: keys\<close>)
    then show ?thesis by (simp add: wants_def s') (simp add: keys_of_def)
  qed
  have h: "held s' = held s" by (simp add: s' held_def fun_eq_iff)
  have "0 \<le> held s' k + off k \<and> book_ok (wants s' k) (held s' k + off k) (map_get (ac_gates s') k)" for k
  proof -
    have b: "0 \<le> held s k + off k \<and> book_ok (wants s k) (held s k + off k) (map_get (ac_gates s) k)" using gm by (simp add: gates_match_def)
    have "map_get (ac_gates s') k = (if k \<in> set ks then map_option (\<lambda>g. g\<lparr>ag_queue := ag_queue g @ [r]\<rparr>) (map_get (ac_gates s) k)
        else map_get (ac_gates s) k)"
      by (simp add: s' on_gates_of [OF ks(1)])
    then show ?thesis using b ks(3) [of k] unfolding w h by (cases "map_get (ac_gates s) k") auto
  qed
  moreover have "requests_ok s'"
    using ok ks(1,2) new
    by (auto simp: s' requests_ok_def dom_update sorted_wrt_append less_Suc_eq r intro: map_wf_set)
  ultimately show ?thesis
    using r by (simp add: books_ok_def gates_match_def) (simp add: s' acc_promised_def)
qed

lemma ensureGate_keeps: "keeps_books gs (ensureGate k mx gs)"
  unfolding keeps_books_def
proof (intro allI impI)
  fix k' w h
  assume "book_ok w h (map_of gs k')"
  then show "book_ok w h (map_of (ensureGate k mx gs) k')"
    by (cases "map_of gs k") (auto simp: ensureGate_def)
qed

lemma ensureGate_present: "map_of (ensureGate k mx gs) k' \<noteq> None \<longleftrightarrow> k' = k \<or> map_of gs k' \<noteq> None"
  by (cases "map_of gs k") (auto simp: ensureGate_def)

lemma prepare_gates_keeps: "keeps_books gs (snd (prepare_gates mq lims ks gs))"
proof (induction ks arbitrary: gs)
  case (Cons k ks)
  let ?g = "on_gate (\<lambda>g. g\<lparr>ag_cleanup := False\<rparr>) (ensureGate k (nullish (map_get lims k) 0) gs) k"
  have "keeps_books gs ?g" by (rule keeps_books_trans [OF ensureGate_keeps keeps_books_on]) simp
  then show ?case using Cons.IH [of ?g] by (auto simp: Let_def intro: keeps_books_trans)
qed simp

lemma prepare_gates_present:
  "fst (prepare_gates mq lims ks gs) \<Longrightarrow> k \<in> set ks \<or> map_of gs k \<noteq> None
    \<Longrightarrow> map_of (snd (prepare_gates mq lims ks gs)) k \<noteq> None"
proof (induction ks arbitrary: gs)
  case (Cons k' ks)
  let ?g = "on_gate (\<lambda>g. g\<lparr>ag_cleanup := False\<rparr>) (ensureGate k' (nullish (map_get lims k') 0) gs) k'"
  have p: "map_of ?g j \<noteq> None \<longleftrightarrow> j = k' \<or> map_of gs j \<noteq> None" for j
    using ensureGate_present [of k' "nullish (map_get lims k') 0" gs j] by (auto simp: on_gate_of)
  have "fst (prepare_gates mq lims ks ?g)"
    "snd (prepare_gates mq lims (k' # ks) gs) = snd (prepare_gates mq lims ks ?g)"
    using Cons.prems(1) by (auto simp: Let_def split: if_splits)
  then show ?case using Cons.IH [of ?g] Cons.prems(2) p by auto
qed simp

lemma all_free_present: "map_of (snd (all_free now ks gs)) k \<noteq> None \<longleftrightarrow> map_of gs k \<noteq> None"
  by (induction ks arbitrary: gs) (auto split: option.split)

lemma enabled_distinct: "map_wf (enabled_limits reqs)"
proof -
  have "map_wf m \<Longrightarrow> map_wf (foldl (\<lambda>m (k, mx). if isBypassed mx then m
       else let limit = truncated mx in map_set k (min (nullish (map_get m k) limit) limit) m) m reqs)" for m
  proof (induction reqs arbitrary: m)
    case (Cons q reqs)
    show ?case by (cases q) (simp add: Let_def Cons.IH map_wf_set Cons.prems)
  qed simp
  then show ?thesis by (simp add: enabled_limits_def)
qed

lemma sort_nonempty: "xs \<noteq> [] \<Longrightarrow> sort xs \<noteq> []"
  by (metis length_0_conv length_sort)

lemma acquireMany_inv:
  assumes inv: "books_ok off s" and a: "acquireMany now reqs sg ab mq s = (oc, s')"
  shows "books_ok off s' \<and> ac_next s \<le> ac_next s'
    \<and> acc_promised s' = acc_promised s + (case oc of Queued_as r \<Rightarrow> {#r#} | _ \<Rightarrow> {#})
    \<and> (\<forall>r. oc = Queued_as r \<longrightarrow> ac_next s \<le> r \<and> r < ac_next s')"
proof (cases "enabled_limits reqs = [] \<or> ab")
  case True
  then show ?thesis using a inv by (auto simp: acquireMany_def Let_def split: if_splits)
next
  case False
  define ks where "ks = sort (map fst (enabled_limits reqs))"
  have ks: "distinct ks" "ks \<noteq> []" using enabled_distinct [of reqs] False by (auto simp: ks_def intro!: sort_nonempty)
  obtain room gs where pg: "prepare_gates mq (enabled_limits reqs) ks (ac_gates s) = (room, gs)"
    by (cases "prepare_gates mq (enabled_limits reqs) ks (ac_gates s)")
  have i1: "books_ok off (s\<lparr>ac_gates := gs\<rparr>)"
    using acc_inv_same [OF inv prepare_gates_keeps [of "ac_gates s" mq "enabled_limits reqs" ks]] pg by simp
  show ?thesis
  proof (cases room)
    case False
    then have "s' = s\<lparr>ac_gates := gs\<rparr>" "oc = Refused SEMAPHORE_QUEUE_FULL"
      using a pg \<open>\<not> (enabled_limits reqs = [] \<or> ab)\<close> by (auto simp: acquireMany_def Let_def ks_def [symmetric])
    then show ?thesis using i1 by simp
  next
    case True
    have present: "k \<in> set ks \<Longrightarrow> map_of gs k \<noteq> None" for k
      using prepare_gates_present [of mq "enabled_limits reqs" ks "ac_gates s" k] pg True by simp
    obtain free gs1 where af: "all_free now ks gs = (free, gs1)" by (cases "all_free now ks gs")
    let ?s1 = "s\<lparr>ac_gates := gs1\<rparr>"
    have i2: "books_ok off ?s1"
      using acc_inv_same [OF i1, of gs1] all_free_same [of gs now ks] af by simp
    have present1: "k \<in> set ks \<Longrightarrow> map_get (ac_gates ?s1) k \<noteq> None" for k
      using present all_free_present [of now ks gs k] af by simp
    show ?thesis
    proof (cases free)
      case True
      obtain i s2 where t: "take_slots ks ?s1 = (i, s2)" by (cases "take_slots ks ?s1")
      have "oc = Granted_now i" "s' = s2"
        using a pg af t True \<open>room\<close> \<open>\<not> (enabled_limits reqs = [] \<or> ab)\<close>
        by (auto simp: acquireMany_def Let_def ks_def [symmetric])
      then show ?thesis using take_slots_inv [OF i2 ks(1) present1 t] by simp
    next
      case False
      obtain r s2 where p: "push_request ks sg ?s1 = (r, s2)" by (cases "push_request ks sg ?s1")
      have "oc = Queued_as r" "s' = drainQueues now s2"
        using a pg af p False \<open>room\<close> \<open>\<not> (enabled_limits reqs = [] \<or> ab)\<close>
        by (auto simp: acquireMany_def Let_def ks_def [symmetric])
      then show ?thesis using push_inv [OF i2 ks present1 p] drain_inv [of off s2 now] by simp
    qed
  qed
qed

lemma fail_inv:
  assumes "books_ok off s"
  shows "books_ok off (fail_request now err r s) \<and> acc_promised (fail_request now err r s) = acc_promised s
    \<and> ac_next s \<le> ac_next (fail_request now err r s)"
proof (cases "map_get (ac_requests s) r")
  case (Some rq)
  then show ?thesis
    using removeRequest_inv [OF assms Some] drain_inv [of off "settle r (Fails err) (removeRequest r s)" now]
      removeRequest_fields(5) [OF Some]
    by (simp add: fail_request_def)
qed (simp add: fail_request_def assms)

lemma markBlocked_inv:
  assumes "books_ok off s"
  shows "books_ok off (markBlocked now k u s) \<and> acc_promised (markBlocked now k u s) = acc_promised s
    \<and> ac_next (markBlocked now k u s) = ac_next s"
proof -
  have "keeps_books (ac_gates s) (on_gate (\<lambda>g. g\<lparr>ag_cleanup := False, ag_blockedUntil := Some x\<rparr>) (ensureGate k mx (ac_gates s)) k)" for x mx
    by (rule keeps_books_trans [OF ensureGate_keeps keeps_books_on]) simp
  then show ?thesis using acc_inv_same [OF assms] assms by (auto simp: markBlocked_def Let_def split: option.split)
qed

lemma cleanup_idle_inv:
  assumes "books_ok off s"
  shows "books_ok off (cleanupGateIfIdle now k s) \<and> acc_promised (cleanupGateIfIdle now k s) = acc_promised s
    \<and> ac_next (cleanupGateIfIdle now k s) = ac_next s"
proof (cases "map_get (ac_gates s) k")
  case (Some g)
  show ?thesis
  proof (cases "0 < ag_running g \<or> ag_queue g \<noteq> [] \<or> isBlocked now g")
    case False
    then have "keeps_books (ac_gates s) (map_delete k (ac_gates s))" using Some by (auto simp: keeps_books_def)
    then show ?thesis using acc_inv_same [OF assms] False Some by (simp add: cleanupGateIfIdle_def)
  qed (use Some assms in \<open>auto simp: cleanupGateIfIdle_def\<close>)
qed (simp add: cleanupGateIfIdle_def assms)

lemma keep_set_inv:
  assumes "books_ok off s" and "map_get (ac_gates s) k = Some g" and "ag_queue g' = ag_queue g" and "ag_running g' = ag_running g"
  shows "books_ok off (s\<lparr>ac_gates := map_set k g' (ac_gates s)\<rparr>)"
  by (rule acc_inv_same [OF assms(1) keeps_books_set [OF assms(2-4)]])

lemma cleanup_fires_inv:
  assumes "books_ok off s"
  shows "books_ok off (cleanup_fires now k s) \<and> acc_promised (cleanup_fires now k s) = acc_promised s
    \<and> ac_next (cleanup_fires now k s) = ac_next s"
proof (cases "map_get (ac_gates s) k")
  case (Some g)
  then show ?thesis
    using cleanup_idle_inv [OF keep_set_inv [OF assms Some, of "g\<lparr>ag_cleanup := False\<rparr>"], of now k] assms
    by (simp add: cleanup_fires_def)
qed (simp add: cleanup_fires_def assms)

lemma unblock_inv:
  assumes "books_ok off s"
  shows "books_ok off (unblock now k s) \<and> acc_promised (unblock now k s) = acc_promised s \<and> ac_next s \<le> ac_next (unblock now k s)"
proof (cases "map_get (ac_gates s) k")
  case (Some g)
  let ?s = "s\<lparr>ac_gates := map_set k (g\<lparr>ag_blockedUntil := None\<rparr>) (ac_gates s)\<rparr>"
  have "books_ok off ?s" by (rule keep_set_inv [OF assms Some]) simp_all
  note d = drain_inv [OF this, of now]
  show ?thesis using cleanup_idle_inv [OF conjunct1 [OF d], of now k] d Some by (simp add: unblock_def)
qed (simp add: unblock_def assms)

lemma on_gates_keeps: "keeps_books gs (on_gates cleanup_if_idle ks gs)"
  unfolding on_gates_def
proof (induction ks arbitrary: gs)
  case (Cons k ks)
  have "keeps_books gs (on_gate cleanup_if_idle gs k)" by (rule keeps_books_on) simp
  then show ?case using Cons.IH by (auto intro: keeps_books_trans)
qed simp

lemma held_delete:
  assumes "map_wf ls" and "map_of ls i = Some ks"
  shows "int (length (filter (\<lambda>p. k \<in> set (snd p)) (map_delete i ls))) + (if k \<in> set ks then 1 else 0)
    = int (length (filter (\<lambda>p. k \<in> set (snd p)) ls))"
  using assms
proof (induction ls)
  case (Cons p ls)
  show ?case
  proof (cases "fst p = i")
    case True
    then have "map_delete i ls = ls" using Cons.prems(1) by (intro map_delete_absent) (auto simp: map_of_eq_None_iff)
    then show ?thesis using True Cons.prems by (cases p) auto
  next
    case False
    then show ?thesis using Cons by (cases p) auto
  qed
qed simp

text \<open>A release counts the gates of the lease down, unless they count nothing: then the offset takes the difference.\<close>

definition after_release :: "account_sem \<Rightarrow> string list \<Rightarrow> (string \<Rightarrow> int) \<Rightarrow> string \<Rightarrow> int" where
  "after_release s ks off k = (if k \<in> set ks \<and> held s k + off k = 0 then off k + 1 else off k)"

lemma release_held:
  assumes "requests_ok s" and "map_get (ac_leases s) i = Some ks"
  shows "held (s\<lparr>ac_leases := map_delete i (ac_leases s), ac_gates := gs\<rparr>) k + (if k \<in> set ks then 1 else 0) = held s k"
  using held_delete [of "ac_leases s" i ks k] assms by (simp add: held_def requests_ok_def)

lemma release_books_off:
  assumes inv: "books_ok off s" and i: "map_get (ac_leases s) i = Some ks"
  shows "books_ok (after_release s ks off) (s\<lparr>ac_leases := map_delete i (ac_leases s),
    ac_gates := on_gates (\<lambda>g. if 0 < ag_running g then g\<lparr>ag_running := ag_running g - 1\<rparr> else g) ks (ac_gates s)\<rparr>)"
proof -
  let ?f = "\<lambda>g. if 0 < ag_running g then g\<lparr>ag_running := ag_running g - 1\<rparr> else g" and ?o = "after_release s ks off"
  define s1 where "s1 = s\<lparr>ac_leases := map_delete i (ac_leases s), ac_gates := on_gates ?f ks (ac_gates s)\<rparr>"
  have ok: "requests_ok s" and gm: "gates_match off s" using inv by (simp_all add: books_ok_def)
  have dk: "distinct ks" using ok i by (auto simp: requests_ok_def)
  have w: "wants s1 = wants s" by (simp add: s1_def wants_def keys_of_def fun_eq_iff)
  have h: "held s1 k + (if k \<in> set ks then 1 else 0) = held s k" for k
    unfolding s1_def by (rule release_held [OF ok i])
  have "0 \<le> held s1 k + ?o k \<and> book_ok (wants s1 k) (held s1 k + ?o k) (map_get (ac_gates s1) k)" for k
  proof -
    have b: "0 \<le> held s k + off k \<and> book_ok (wants s k) (held s k + off k) (map_get (ac_gates s) k)" using gm by (simp add: gates_match_def)
    have g: "map_get (ac_gates s1) k = (if k \<in> set ks then map_option ?f (map_get (ac_gates s) k) else map_get (ac_gates s) k)"
      by (simp add: s1_def on_gates_of [OF dk])
    show ?thesis
      using b h [of k] unfolding w g after_release_def
      by (cases "map_get (ac_gates s) k") (auto split: if_splits)
  qed
  moreover have "requests_ok s1"
    using ok unfolding requests_ok_def s1_def
    by (auto intro: map_wf_delete dest: subsetD [OF set_map_delete_subset])
  ultimately show ?thesis by (simp add: books_ok_def gates_match_def s1_def [symmetric])
qed

lemma release_composite_books:
  assumes inv: "books_ok off s" and i: "map_get (ac_leases s) i = Some ks"
  shows "books_ok (after_release s ks off) (release_composite now i s) \<and> acc_promised (release_composite now i s) = acc_promised s
    \<and> ac_next s \<le> ac_next (release_composite now i s)"
proof -
  let ?s = "s\<lparr>ac_leases := map_delete i (ac_leases s),
    ac_gates := on_gates (\<lambda>g. if 0 < ag_running g then g\<lparr>ag_running := ag_running g - 1\<rparr> else g) ks (ac_gates s)\<rparr>"
  have "acc_promised ?s = acc_promised s" by (simp add: acc_promised_def)
  then show ?thesis
    using drain_inv [OF release_books_off [OF inv i], of now] acc_inv_same [OF _ on_gates_keeps] i
    by (simp add: release_composite_def Let_def)
qed

text \<open>Without a reset a lease that is out is counted, and its release leaves the offset at nothing.\<close>

lemma after_release_exact:
  assumes "requests_ok s" and "map_get (ac_leases s) i = Some ks"
  shows "after_release s ks (\<lambda>_. 0) = (\<lambda>_. 0)"
proof -
  have "held s k \<noteq> 0" if "k \<in> set ks" for k
  proof -
    have "0 \<le> held (s\<lparr>ac_leases := map_delete i (ac_leases s), ac_gates := ac_gates s\<rparr>) k" by (rule held_nonneg)
    then show ?thesis using release_held [OF assms, of "ac_gates s" k] that by (simp del: held_nonneg)
  qed
  then show ?thesis by (auto simp: after_release_def fun_eq_iff)
qed

lemma release_books:
  assumes "acc_inv s" and "map_get (ac_leases s) i = Some ks"
  shows "acc_inv (s\<lparr>ac_leases := map_delete i (ac_leases s),
    ac_gates := on_gates (\<lambda>g. if 0 < ag_running g then g\<lparr>ag_running := ag_running g - 1\<rparr> else g) ks (ac_gates s)\<rparr>)"
  using release_books_off [OF assms] after_release_exact [OF _ assms(2)] assms(1) by (simp add: books_ok_def [of _ s])

lemma release_composite_inv:
  assumes inv: "acc_inv s"
  shows "acc_inv (release_composite now i s) \<and> acc_promised (release_composite now i s) = acc_promised s
    \<and> ac_next s \<le> ac_next (release_composite now i s)"
proof (cases "map_get (ac_leases s) i")
  case (Some ks)
  then show ?thesis
    using release_composite_books [OF inv Some] after_release_exact [OF _ Some] inv by (simp add: books_ok_def [of _ s])
qed (simp add: release_composite_def inv)

subsection \<open>Runs\<close>

datatype acc_event =
    Acc_acquire "(string \<times> js_value) list" "nat option" bool int
  | Acc_release nat
  | Acc_fail sem_error nat
  | Acc_block string block_end
  | Acc_unblock string
  | Acc_cleanup string

record acc_run =
  ar_sem :: account_sem
  ar_waits :: "nat list"

fun acc_step :: "acc_run \<Rightarrow> int \<times> acc_event \<Rightarrow> acc_run" where
  "acc_step x (now, Acc_acquire reqs sg ab mq) =
     (let (oc, s) = acquireMany now reqs sg ab mq (ar_sem x)
      in \<lparr>ar_sem = s, ar_waits = ar_waits x @ (case oc of Queued_as r \<Rightarrow> [r] | _ \<Rightarrow> [])\<rparr>)"
| "acc_step x (now, Acc_release i) = x\<lparr>ar_sem := release_composite now i (ar_sem x)\<rparr>"
| "acc_step x (now, Acc_fail err r) = x\<lparr>ar_sem := fail_request now err r (ar_sem x)\<rparr>"
| "acc_step x (now, Acc_block k u) = x\<lparr>ar_sem := markBlocked now k u (ar_sem x)\<rparr>"
| "acc_step x (now, Acc_unblock k) = x\<lparr>ar_sem := unblock now k (ar_sem x)\<rparr>"
| "acc_step x (now, Acc_cleanup k) = x\<lparr>ar_sem := cleanup_fires now k (ar_sem x)\<rparr>"

definition start_acc :: acc_run where
  "start_acc = \<lparr>ar_sem = new_account_sem, ar_waits = []\<rparr>"

definition acc_run_ok :: "acc_run \<Rightarrow> bool" where
  "acc_run_ok x \<longleftrightarrow> acc_inv (ar_sem x) \<and> mset (ar_waits x) = acc_promised (ar_sem x)
     \<and> distinct (ar_waits x) \<and> (\<forall>r \<in> set (ar_waits x). r < ac_next (ar_sem x))"

lemma acc_step_ok:
  assumes "acc_run_ok x"
  shows "acc_run_ok (acc_step x ev)"
proof -
  let ?s = "ar_sem x"
  have inv: "acc_inv ?s" and p: "mset (ar_waits x) = acc_promised ?s" "distinct (ar_waits x)"
    and l: "\<forall>r \<in> set (ar_waits x). r < ac_next ?s"
    using assms by (simp_all add: acc_run_ok_def)
  have keep: "acc_run_ok (x\<lparr>ar_sem := s'\<rparr>)" if "acc_inv s' \<and> acc_promised s' = acc_promised ?s \<and> ac_next ?s \<le> ac_next s'" for s'
    using that p l by (fastforce simp: acc_run_ok_def)
  obtain now e where ev: "ev = (now, e)" by (cases ev)
  show ?thesis
  proof (cases e)
    case (Acc_acquire reqs sg ab mq)
    obtain oc s' where a: "acquireMany now reqs sg ab mq ?s = (oc, s')" by (cases "acquireMany now reqs sg ab mq ?s")
    from acquireMany_inv [OF inv a] p l show ?thesis
      unfolding ev Acc_acquire by (cases oc) (fastforce simp: a acc_run_ok_def)+
  qed (use keep release_composite_inv [OF inv] fail_inv [OF inv] markBlocked_inv [OF inv] unblock_inv [OF inv]
        cleanup_fires_inv [OF inv] in \<open>simp_all add: ev\<close>)
qed

interpretation account_semaphore: step_invariant acc_step "\<lambda>_. True" acc_run_ok
  by unfold_locales (rule acc_step_ok)

lemma start_acc_ok: "acc_run_ok start_acc"
  by (simp add: acc_run_ok_def start_acc_def new_account_sem_def acc_inv_def requests_ok_def gates_match_def
      acc_promised_def wants_def held_def)

lemma acc_run: "acc_run_ok (foldl acc_step start_acc evs)"
  by (rule account_semaphore.run_inv [OF start_acc_ok]) (simp add: list_all_iff)

subsection \<open>What draining admits and what it leaves\<close>

lemma ready_keeps: "ready now r ks (snd (canAcquire now r' ks' gs)) = ready now r ks gs"
proof (induction ks' arbitrary: gs)
  case (Cons k ks')
  show ?case
  proof (cases "map_of gs k")
    case (Some g)
    then show ?thesis using Cons.IH [of "map_set k (expire_block now g) gs"] ready_expired [OF Some] by (auto simp: Let_def)
  qed simp
qed simp

lemma first_ready_none:
  assumes "fst (first_ready now rs s) = None" and "r \<in> set rs" and "map_get (ac_requests s) r = Some rq"
  shows "\<not> ready now r (aq_keys rq) (ac_gates s)"
  using assms
proof (induction rs arbitrary: s)
  case (Cons r' rs)
  show ?case
  proof (cases "map_get (ac_requests s) r'")
    case None
    then show ?thesis using Cons.IH [of s] Cons.prems by auto
  next
    case (Some rq')
    obtain ok gs where c: "canAcquire now r' (aq_keys rq') (ac_gates s) = (ok, gs)"
      by (cases "canAcquire now r' (aq_keys rq') (ac_gates s)")
    have nok: "\<not> ok" "fst (first_ready now rs (s\<lparr>ac_gates := gs\<rparr>)) = None"
      using Cons.prems(1) Some c by (auto simp: Let_def split: if_splits)
    have gs: "ready now r (aq_keys rq) gs = ready now r (aq_keys rq) (ac_gates s)"
      using ready_keeps [of now r "aq_keys rq" r' "aq_keys rq'" "ac_gates s"] c by simp
    show ?thesis
    proof (cases "r = r'")
      case True
      then show ?thesis using canAcquire_iff [of now r' "aq_keys rq'" "ac_gates s"] c nok(1) Some Cons.prems(3) by simp
    next
      case False
      then show ?thesis using Cons.IH [OF nok(2)] Cons.prems(2,3) gs by simp
    qed
  qed
qed simp

lemma first_ready_some:
  assumes "fst (first_ready now rs s) = Some r" and "map_get (ac_requests s) r = Some rq"
  shows "ready now r (aq_keys rq) (ac_gates (snd (first_ready now rs s)))"
  using assms
proof (induction rs arbitrary: s)
  case (Cons r' rs)
  show ?case
  proof (cases "map_get (ac_requests s) r'")
    case None
    then show ?thesis using Cons by simp
  next
    case (Some rq')
    obtain ok gs where c: "canAcquire now r' (aq_keys rq') (ac_gates s) = (ok, gs)"
      by (cases "canAcquire now r' (aq_keys rq') (ac_gates s)")
    show ?thesis
    proof (cases ok)
      case True
      then have "r = r'" using Cons.prems(1) Some c by simp
      then show ?thesis
        using True c Some Cons.prems(2) canAcquire_iff [of now r' "aq_keys rq'" "ac_gates s"]
          ready_keeps [of now r' "aq_keys rq'" r' "aq_keys rq'" "ac_gates s"] by simp
    next
      case False
      then show ?thesis using Cons.IH [of "s\<lparr>ac_gates := gs\<rparr>"] Cons.prems Some c by (simp add: Let_def)
    qed
  qed
qed simp

lemma drain_nobody_ready:
  "map_get (ac_requests (drainQueues now s)) r = Some rq \<Longrightarrow> r \<in> set (ac_queued (drainQueues now s)) \<Longrightarrow>
    \<not> ready now r (aq_keys rq) (ac_gates (drainQueues now s))"
proof (induction now s rule: drainQueues.induct)
  case (1 now s)
  obtain x s1 where f: "first_ready now (ac_queued s) s = (x, s1)" by (cases "first_ready now (ac_queued s) s")
  show ?case
  proof (cases x)
    case None
    then have d: "drainQueues now s = s1" using f by (simp add: drainQueues.simps [of now s])
    have "first_ready now (ac_queued s1) s1 = first_ready now (ac_queued s) s1"
      using first_ready_fields(1) [of now "ac_queued s" s] f by simp
    have "map_get (ac_requests s) r = Some rq" "r \<in> set (ac_queued s)"
      using "1.prems" first_ready_fields(1,2) [of now "ac_queued s" s] f d by simp_all
    with first_ready_none [of now "ac_queued s" s r rq] None f
    have "\<not> ready now r (aq_keys rq) (ac_gates s)" by simp
    moreover have "ready now r ks (ac_gates (snd (first_ready now rs s))) = ready now r ks (ac_gates s)" for ks rs
    proof (induction rs arbitrary: s)
      case (Cons q rs)
      show ?case
      proof (cases "map_get (ac_requests s) q")
        case (Some rq)
        then show ?thesis
          using ready_keeps [of now r ks q "aq_keys rq" "ac_gates s"]
            Cons.IH [of "s\<lparr>ac_gates := snd (canAcquire now q (aq_keys rq) (ac_gates s))\<rparr>"]
          by (simp add: Let_def split_beta)
      qed (simp add: Cons.IH)
    qed simp
    ultimately show ?thesis using d f by (metis snd_conv)
  next
    case (Some q)
    then have "drainQueues now s = drainQueues now (grant_request q s1)" using f by (simp add: drainQueues.simps [of now s])
    then show ?thesis using "1.IH" [OF f [symmetric] Some] "1.prems" by simp
  qed
qed

subsection \<open>Who holds a slot came before whoever waits for it\<close>

text \<open>When the holder of a lease arrived: the waiting request it was granted to, or the lease itself.\<close>

definition arrival :: "account_sem \<Rightarrow> nat \<Rightarrow> nat" where
  "arrival s i = (case find (\<lambda>p. snd p = Holds i) (ac_settled s) of Some p \<Rightarrow> fst p | None \<Rightarrow> i)"

definition fifo :: "account_sem \<Rightarrow> bool" where
  "fifo s \<longleftrightarrow> (\<forall>i ks k r. map_get (ac_leases s) i = Some ks \<longrightarrow> k \<in> set ks \<longrightarrow> r \<in> set (wants s k) \<longrightarrow> arrival s i < r)
     \<and> (\<forall>p \<in> set (ac_settled s). fst p < ac_next s \<and> (\<forall>i. snd p = Holds i \<longrightarrow> i < ac_next s))"

lemma arrival_append:
  "arrival (s\<lparr>ac_settled := ac_settled s @ [(r, x)]\<rparr>) i
    = (if find (\<lambda>p. snd p = Holds i) (ac_settled s) = None \<and> x = Holds i then r else arrival s i)"
proof -
  have "find P (xs @ [y]) = (case find P xs of None \<Rightarrow> if P y then Some y else None | Some z \<Rightarrow> Some z)" for P xs and y :: "nat \<times> account_settlement"
    by (induction xs) auto
  then show ?thesis by (auto simp: arrival_def split: option.split)
qed

lemma arrival_fields [simp]:
  "arrival (s\<lparr>ac_gates := x1\<rparr>) = arrival s" "arrival (s\<lparr>ac_queued := x2\<rparr>) = arrival s"
  "arrival (s\<lparr>ac_requests := x3\<rparr>) = arrival s" "arrival (s\<lparr>ac_leases := x4\<rparr>) = arrival s"
  "arrival (s\<lparr>ac_next := x5\<rparr>) = arrival s"
  by (simp_all add: arrival_def fun_eq_iff)

lemma fifo_gates [simp]: "fifo (s\<lparr>ac_gates := gs\<rparr>) = fifo s"
  by (simp add: fifo_def)

lemma request_less:
  assumes "requests_ok s" and "map_get (ac_requests s) r = Some rq"
  shows "r < ac_next s"
proof -
  have "\<forall>r \<in> fst ` set (ac_requests s). r < ac_next s" using assms(1) unfolding requests_ok_def by (elim conjE)
  moreover have "r \<in> fst ` set (ac_requests s)" using map_of_SomeD [OF assms(2)] by (rule image_eqI [rotated]) simp
  ultimately show ?thesis by (rule bspec)
qed

lemma arrival_less:
  assumes "fifo s" and "requests_ok s" and "map_get (ac_leases s) i = Some ks"
  shows "arrival s i < ac_next s"
proof (cases "find (\<lambda>p. snd p = Holds i) (ac_settled s)")
  case None
  have "i \<in> fst ` set (ac_leases s)" using map_of_SomeD [OF assms(3)] by (rule image_eqI [rotated]) simp
  then have "i < ac_next s" using assms(2) unfolding requests_ok_def by blast
  then show ?thesis using None by (simp add: arrival_def)
next
  case (Some p)
  then have "p \<in> set (ac_settled s)" by (auto simp: find_Some_iff in_set_conv_nth)
  then show ?thesis using assms(1) Some by (simp add: arrival_def fifo_def)
qed

lemma wants_remove: "acc_inv s \<Longrightarrow> map_get (ac_requests s) r = Some rq \<Longrightarrow> set (wants (removeRequest r s) k) \<subseteq> set (wants s k) - {r}"
proof -
  assume inv: "acc_inv s" and r: "map_get (ac_requests s) r = Some rq"
  have "distinct (ac_queued s)" using inv by (simp add: acc_inv_def queued_distinct)
  then show ?thesis by (auto simp: wants_def removeRequest_fields [OF r] keys_of_def split: if_splits)
qed

lemma removeRequest_fifo:
  assumes "acc_inv s" and "map_get (ac_requests s) r = Some rq" and "fifo s"
  shows "fifo (removeRequest r s)"
proof -
  note f = removeRequest_fields [OF assms(2)]
  have arr: "arrival (removeRequest r s) = arrival s" by (simp add: arrival_def fun_eq_iff f)
  show ?thesis using wants_remove [OF assms(1,2)] assms(3) unfolding fifo_def f arr by blast
qed

lemma settle_fail_fifo: "fifo s \<Longrightarrow> r < ac_next s \<Longrightarrow> fifo (settle r (Fails err) s)"
  unfolding fifo_def settle_def by (auto simp: arrival_append wants_def keys_of_def)

lemma take_slots_fifo:
  assumes inv: "acc_inv s" and f: "fifo s" and t: "take_slots ks s = (i, s')" and w: "\<And>k. k \<in> set ks \<Longrightarrow> wants s k = []"
  shows "fifo s'"
proof -
  have s': "s' = s\<lparr>ac_gates := on_gates (\<lambda>g. g\<lparr>ag_running := ag_running g + 1\<rparr>) ks (ac_gates s),
                   ac_leases := map_set (ac_next s) ks (ac_leases s), ac_next := ac_next s + 1\<rparr>"
    using t by (auto simp: take_slots_def)
  have "wants s' = wants s" by (simp add: s' wants_def keys_of_def fun_eq_iff)
  moreover have "arrival s' = arrival s" by (simp add: s')
  ultimately show ?thesis using f w unfolding fifo_def by (auto simp: s' less_Suc_eq)
qed

lemma ready_head:
  assumes "acc_inv s" and "ready now r ks (ac_gates s)" and "k \<in> set ks"
  shows "\<exists>rs. wants s k = r # rs"
proof -
  obtain g where "map_get (ac_gates s) k = Some g" "take 1 (ag_queue g) = [r]" using assms(2,3) by (auto simp: ready_def)
  moreover have "book_ok (wants s k) (held s k) (map_get (ac_gates s) k)" using assms(1) by (simp add: acc_inv_def gates_match_def)
  ultimately show ?thesis by (cases "wants s k") auto
qed

lemma grant_fifo:
  assumes inv: "acc_inv s" and f: "fifo s" and r: "map_get (ac_requests s) r = Some rq"
    and rdy: "ready now r (aq_keys rq) (ac_gates s)"
  shows "fifo (grant_request r s)"
proof -
  let ?s = "removeRequest r s"
  obtain i s1 where t: "take_slots (aq_keys rq) ?s = (i, s1)" by (cases "take_slots (aq_keys rq) ?s")
  have ok: "requests_ok s" using inv by (simp add: acc_inv_def)
  note rf = removeRequest_fields [OF r]
  have i: "i = ac_next s" and s1: "ac_leases s1 = map_set i (aq_keys rq) (ac_leases s)" "ac_next s1 = ac_next s + 1"
    "ac_settled s1 = ac_settled s" "wants s1 = wants ?s"
    using t rf by (auto simp: take_slots_def wants_def keys_of_def fun_eq_iff)
  have rlt: "r < ac_next s" by (rule request_less [OF ok r])
  have none: "find (\<lambda>p. snd p = Holds i) (ac_settled s) = None"
    using f by (auto simp: find_None_iff fifo_def i)
  define s2 where "s2 = settle r (Holds i) s1"
  have s2: "ac_leases s2 = map_set i (aq_keys rq) (ac_leases s)" "ac_next s2 = ac_next s + 1"
    "ac_settled s2 = ac_settled s @ [(r, Holds i)]" "wants s2 = wants ?s"
    using s1 by (simp_all add: s2_def settle_def wants_def keys_of_def fun_eq_iff)
  have arr: "arrival s2 j = (if j = i then r else arrival s j)" for j
    using none arrival_append [of s1 r "Holds i" j] s1(3) by (auto simp: s2_def settle_def arrival_def)
  have new: "r < q" if mem: "k \<in> set (aq_keys rq)" "q \<in> set (wants ?s k)" for k q
  proof -
    obtain rs where rs: "wants s k = r # rs" using ready_head [OF inv rdy mem(1)] by blast
    have "sorted_wrt (<) (wants s k)" using ok unfolding wants_def requests_ok_def by (simp add: sorted_wrt_filter)
    then show ?thesis using rs subsetD [OF wants_remove [OF inv r] mem(2)] by auto
  qed
  have "fifo s2"
    unfolding fifo_def s2
  proof (intro conjI allI impI ballI)
    fix j ks k q
    assume "map_get (map_set i (aq_keys rq) (ac_leases s)) j = Some ks" "k \<in> set ks" "q \<in> set (wants ?s k)"
    then show "arrival s2 j < q"
      using new f subsetD [OF wants_remove [OF inv r]] unfolding arr fifo_def by (auto split: if_splits)
  next
    fix p
    assume "p \<in> set (ac_settled s @ [(r, Holds i)])"
    then show "fst p < ac_next s + 1" using f rlt by (auto simp: fifo_def less_Suc_eq)
  next
    fix p j
    assume "p \<in> set (ac_settled s @ [(r, Holds i)])" "snd p = Holds j"
    then show "j < ac_next s + 1" using f i by (auto simp: fifo_def less_Suc_eq)
  qed
  moreover have "grant_request r s = s2" by (simp add: grant_request_def r t s2_def)
  ultimately show ?thesis by simp
qed

lemma drain_fifo: "acc_inv s \<Longrightarrow> fifo s \<Longrightarrow> fifo (drainQueues now s)"
proof (induction now s rule: drainQueues.induct)
  case (1 now s)
  obtain x s1 where f: "first_ready now (ac_queued s) s = (x, s1)" by (cases "first_ready now (ac_queued s) s")
  obtain gs where s1: "s1 = s\<lparr>ac_gates := gs\<rparr>" using first_ready_gates [of now "ac_queued s" s] f by (metis snd_conv)
  have i1: "acc_inv s1" using acc_inv_same [OF "1.prems"(1), of gs] first_ready_same [of s now "ac_queued s"] f s1 by simp
  have f1: "fifo s1" using "1.prems"(2) s1 by simp
  show ?case
  proof (cases x)
    case None
    then show ?thesis using f f1 by (simp add: drainQueues.simps [of now s])
  next
    case (Some r)
    obtain rq where rq: "map_get (ac_requests s) r = Some rq" using first_ready_member [of now "ac_queued s" s r] f Some by auto
    then have rq1: "map_get (ac_requests s1) r = Some rq" by (simp add: s1)
    have "ready now r (aq_keys rq) (ac_gates s1)"
      using first_ready_some [of now "ac_queued s" s r rq] f Some rq by simp
    from "1.IH" [OF f [symmetric] Some conjunct1 [OF grant_inv [OF i1 rq1]] grant_fifo [OF i1 f1 rq1 this]]
    show ?thesis using f Some by (simp add: drainQueues.simps [of now s])
  qed
qed

lemma all_free_queues:
  assumes "fst (all_free now ks gs)" and "k \<in> set ks"
  shows "\<exists>g. map_of gs k = Some g \<and> ag_queue g = [] \<and> ag_running g < ag_max g"
  using assms
proof (induction ks arbitrary: gs)
  case (Cons k' ks)
  obtain g where g: "map_of gs k' = Some g" "ag_queue g = []" "ag_running g < ag_max g"
    "fst (all_free now ks (map_set k' (expire_block now g) gs))"
    using Cons.prems(1) by (auto split: option.splits if_splits)
  show ?case
  proof (cases "k = k'")
    case True
    then show ?thesis using g by simp
  next
    case False
    then show ?thesis using Cons.IH [OF g(4)] Cons.prems(2) by auto
  qed
qed simp

lemma push_fifo:
  assumes inv: "acc_inv s" and f: "fifo s" and p: "push_request ks sg s = (r, s')"
  shows "fifo s'"
proof -
  have ok: "requests_ok s" using inv by (simp add: acc_inv_def)
  have r: "r = ac_next s" and s': "s' = s\<lparr>ac_queued := ac_queued s @ [r], ac_requests := map_set r \<lparr>aq_keys = ks, aq_signal = sg\<rparr> (ac_requests s),
            ac_gates := on_gates (\<lambda>g. g\<lparr>ag_queue := ag_queue g @ [r]\<rparr>) ks (ac_gates s), ac_next := r + 1\<rparr>"
    using p by (auto simp: push_request_def Let_def)
  have w: "q = r \<or> q \<in> set (wants s k)" if "q \<in> set (wants s' k)" for q k
    using that by (auto simp: wants_member s' keys_of_def)
  have "arrival s' i < q" if "map_get (ac_leases s) i = Some js" "k \<in> set js" "q \<in> set (wants s' k)" for i js k q
    using w [OF that(3)] arrival_less [OF f ok that(1)] f that(1,2) r by (auto simp: fifo_def s')
  then show ?thesis using f r unfolding fifo_def by (auto simp: s' less_Suc_eq)
qed

lemma acquireMany_fifo:
  assumes inv: "acc_inv s" and f: "fifo s" and a: "acquireMany now reqs sg ab mq s = (oc, s')"
  shows "fifo s'"
proof (cases "enabled_limits reqs = [] \<or> ab")
  case True
  then show ?thesis using a f by (auto simp: acquireMany_def Let_def split: if_splits)
next
  case False
  define ks where "ks = sort (map fst (enabled_limits reqs))"
  have ks: "distinct ks" "ks \<noteq> []" using enabled_distinct [of reqs] False by (auto simp: ks_def intro!: sort_nonempty)
  obtain room gs where pg: "prepare_gates mq (enabled_limits reqs) ks (ac_gates s) = (room, gs)"
    by (cases "prepare_gates mq (enabled_limits reqs) ks (ac_gates s)")
  obtain free gs1 where af: "all_free now ks gs = (free, gs1)" by (cases "all_free now ks gs")
  let ?s1 = "s\<lparr>ac_gates := gs1\<rparr>"
  have i1: "acc_inv (s\<lparr>ac_gates := gs\<rparr>)"
    using acc_inv_same [OF inv prepare_gates_keeps [of "ac_gates s" mq "enabled_limits reqs" ks]] pg by simp
  have i2: "acc_inv ?s1" using acc_inv_same [OF i1, of gs1] all_free_same [of gs now ks] af by simp
  have s': "s' = (if \<not> room then s\<lparr>ac_gates := gs\<rparr> else if free then snd (take_slots ks ?s1)
      else drainQueues now (snd (push_request ks sg ?s1)))"
    using a pg af False by (auto simp: acquireMany_def Let_def ks_def [symmetric] split_beta split: if_splits)
  show ?thesis
  proof (cases "room \<and> \<not> free")
    case True
    obtain r s2 where p: "push_request ks sg ?s1 = (r, s2)" by (cases "push_request ks sg ?s1")
    have present1: "k \<in> set ks \<Longrightarrow> map_get (ac_gates ?s1) k \<noteq> None" for k
      using prepare_gates_present [of mq "enabled_limits reqs" ks "ac_gates s" k] all_free_present [of now ks gs k] pg af True
      by simp
    have "fifo s2" by (rule push_fifo [OF i2 _ p]) (simp add: f)
    then show ?thesis using True s' p push_inv [OF i2 ks present1 p] drain_fifo [of s2 now] by simp
  next
    case False
    show ?thesis
    proof (cases room)
      case True
      then have free: "fst (all_free now ks gs)" using False af by simp
      obtain i s2 where t: "take_slots ks ?s1 = (i, s2)" by (cases "take_slots ks ?s1")
      have "wants ?s1 k = []" if mem: "k \<in> set ks" for k
      proof -
        obtain g where g: "map_of gs k = Some g" "ag_queue g = []" using all_free_queues [OF free mem] by blast
        have "book_ok (wants s k) (held s k) (map_of gs k)" using i1 by (simp add: acc_inv_def gates_match_def)
        then show ?thesis using g by simp
      qed
      from take_slots_fifo [OF i2 _ t this] f s' t True False show ?thesis by simp
    qed (use s' f in simp)
  qed
qed

lemma acc_step_fifo:
  assumes "acc_run_ok x \<and> fifo (ar_sem x)"
  shows "acc_run_ok (acc_step x ev) \<and> fifo (ar_sem (acc_step x ev))"
proof -
  let ?s = "ar_sem x"
  have inv: "acc_inv ?s" and f: "fifo ?s" using assms by (simp_all add: acc_run_ok_def)
  obtain now e where ev: "ev = (now, e)" by (cases ev)
  have "fifo (ar_sem (acc_step x ev))"
  proof (cases e)
    case (Acc_acquire reqs sg ab mq)
    obtain oc s' where a: "acquireMany now reqs sg ab mq ?s = (oc, s')" by (cases "acquireMany now reqs sg ab mq ?s")
    from acquireMany_fifo [OF inv f a] show ?thesis by (simp add: ev Acc_acquire a)
  next
    case (Acc_release i)
    show ?thesis
    proof (cases "map_get (ac_leases ?s) i")
      case (Some ks)
      define s1 where "s1 = ?s\<lparr>ac_leases := map_delete i (ac_leases ?s),
        ac_gates := on_gates (\<lambda>g. if 0 < ag_running g then g\<lparr>ag_running := ag_running g - 1\<rparr> else g) ks (ac_gates ?s)\<rparr>"
      have "wants s1 = wants ?s" by (simp add: s1_def wants_def keys_of_def fun_eq_iff)
      moreover have "arrival s1 = arrival ?s" by (simp add: s1_def)
      ultimately have "fifo s1" using f unfolding fifo_def by (auto simp: s1_def)
      moreover have "acc_inv s1"
        using release_books [OF inv Some] by (simp add: s1_def)
      ultimately have "fifo (drainQueues now s1)" by (intro drain_fifo)
      then show ?thesis using Some by (simp add: ev Acc_release release_composite_def s1_def Let_def)
    qed (use f in \<open>simp add: ev Acc_release release_composite_def\<close>)
  next
    case (Acc_fail err r)
    show ?thesis
    proof (cases "map_get (ac_requests ?s) r")
      case (Some rq)
      have "r < ac_next ?s" by (rule request_less [OF _ Some]) (use inv in \<open>simp add: acc_inv_def\<close>)
      then have "fifo (settle r (Fails err) (removeRequest r ?s))"
        by (intro settle_fail_fifo removeRequest_fifo [OF inv Some f]) (simp add: removeRequest_fields [OF Some])
      then show ?thesis using removeRequest_inv [OF inv Some] Some by (simp add: ev Acc_fail fail_request_def drain_fifo)
    qed (use f in \<open>simp add: ev Acc_fail fail_request_def\<close>)
  next
    case (Acc_block k u)
    then show ?thesis using f by (simp add: ev markBlocked_def Let_def split: option.split)
  next
    case (Acc_unblock k)
    show ?thesis
    proof (cases "map_get (ac_gates ?s) k")
      case (Some g)
      let ?t = "?s\<lparr>ac_gates := map_set k (g\<lparr>ag_blockedUntil := None\<rparr>) (ac_gates ?s)\<rparr>"
      have "acc_inv ?t" by (rule keep_set_inv [OF inv Some]) simp_all
      then have "fifo (drainQueues now ?t)" by (rule drain_fifo) (simp add: f)
      then show ?thesis using Some by (simp add: ev Acc_unblock unblock_def cleanupGateIfIdle_def split: option.split)
    qed (use f in \<open>simp add: ev Acc_unblock unblock_def\<close>)
  next
    case (Acc_cleanup k)
    then show ?thesis using f by (simp add: ev cleanup_fires_def cleanupGateIfIdle_def split: option.split)
  qed
  then show ?thesis using acc_step_ok assms by blast
qed

interpretation fifo_semaphore: step_invariant acc_step "\<lambda>_. True" "\<lambda>x. acc_run_ok x \<and> fifo (ar_sem x)"
  by unfold_locales (rule acc_step_fifo)

lemma acc_run_fifo: "fifo (ar_sem (foldl acc_step start_acc evs))"
proof -
  have "acc_run_ok start_acc \<and> fifo (ar_sem start_acc)"
    using start_acc_ok by (simp add: fifo_def start_acc_def new_account_sem_def)
  then show ?thesis using fifo_semaphore.run_inv [of start_acc evs] by (simp add: list_all_iff)
qed

subsection \<open>The cap of a key\<close>

definition capped_key :: "string \<Rightarrow> int \<Rightarrow> (string, account_gate) js_map \<Rightarrow> bool" where
  "capped_key k C gs \<longleftrightarrow> (\<forall>g. map_of gs k = Some g \<longrightarrow> ag_max g \<le> C \<and> ag_running g \<le> C)"

fun respects_cap :: "string \<Rightarrow> int \<Rightarrow> acc_event \<Rightarrow> bool" where
  "respects_cap k C (Acc_acquire reqs sg ab mq) \<longleftrightarrow>
     list_all (\<lambda>(k', mx). k' = k \<longrightarrow> \<not> isBypassed mx \<longrightarrow> truncated mx \<le> C) reqs"
| "respects_cap k C _ \<longleftrightarrow> True"

lemma capped_on_gate:
  "capped_key k C gs \<Longrightarrow> (\<And>g. ag_max g \<le> C \<Longrightarrow> ag_running g \<le> C \<Longrightarrow> ag_max (f g) \<le> C \<and> ag_running (f g) \<le> C)
    \<Longrightarrow> capped_key k C (on_gate f gs k')"
  by (auto simp: capped_key_def on_gate_of)

lemma capped_on_gates:
  "capped_key k C gs \<Longrightarrow> (\<And>g. ag_max g \<le> C \<Longrightarrow> ag_running g \<le> C \<Longrightarrow> ag_max (f g) \<le> C \<and> ag_running (f g) \<le> C)
    \<Longrightarrow> capped_key k C (on_gates f ks gs)"
  unfolding on_gates_def by (induction ks arbitrary: gs) (auto intro: capped_on_gate)

lemma capped_set:
  "capped_key k C gs \<Longrightarrow> map_of gs k' = Some g \<Longrightarrow> ag_max g' = ag_max g \<Longrightarrow> ag_running g' = ag_running g
    \<Longrightarrow> capped_key k C (map_set k' g' gs)"
  by (auto simp: capped_key_def)

lemma capped_canAcquire: "capped_key k C gs \<Longrightarrow> capped_key k C (snd (canAcquire now r ks gs))"
proof (induction ks arbitrary: gs)
  case (Cons k' ks)
  show ?case
  proof (cases "map_of gs k'")
    case (Some g)
    then show ?thesis using Cons capped_set [OF Cons.prems Some, of "expire_block now g"] by (auto simp: Let_def)
  qed (simp add: Cons.prems)
qed simp

lemma capped_all_free: "capped_key k C gs \<Longrightarrow> capped_key k C (snd (all_free now ks gs))"
proof (induction ks arbitrary: gs)
  case (Cons k' ks)
  show ?case
  proof (cases "map_of gs k'")
    case (Some g)
    then show ?thesis using Cons capped_set [OF Cons.prems Some, of "expire_block now g"] by auto
  qed (simp add: Cons.prems)
qed simp

lemma capped_first_ready: "capped_key k C (ac_gates s) \<Longrightarrow> capped_key k C (ac_gates (snd (first_ready now rs s)))"
proof (induction rs arbitrary: s)
  case (Cons r rs)
  show ?case
  proof (cases "map_get (ac_requests s) r")
    case (Some rq)
    have "capped_key k C (snd (canAcquire now r (aq_keys rq) (ac_gates s)))" by (rule capped_canAcquire [OF Cons.prems])
    then show ?thesis using Some Cons.IH [of "s\<lparr>ac_gates := snd (canAcquire now r (aq_keys rq) (ac_gates s))\<rparr>"]
      by (simp add: Let_def split_beta)
  qed (simp add: Cons)
qed simp

lemma capped_remove:
  "capped_key k C (ac_gates s) \<Longrightarrow> capped_key k C (ac_gates (removeRequest r s))"
  by (cases "map_get (ac_requests s) r") (simp_all add: removeRequest_def capped_on_gates)

text \<open>Taking slots keeps the cap where every gate has room.\<close>

lemma capped_take:
  assumes "distinct ks" and "capped_key k C (ac_gates s)"
    and "\<And>g. k \<in> set ks \<Longrightarrow> map_get (ac_gates s) k = Some g \<Longrightarrow> ag_running g < ag_max g"
  shows "capped_key k C (ac_gates (snd (take_slots ks s)))"
  using assms(2,3) by (fastforce simp: take_slots_def capped_key_def on_gates_of [OF assms(1)])

lemma capped_grant:
  assumes "acc_inv s" and "capped_key k C (ac_gates s)" and r: "map_get (ac_requests s) r = Some rq"
    and rdy: "ready now r (aq_keys rq) (ac_gates s)"
  shows "capped_key k C (ac_gates (grant_request r s))"
proof -
  have dk: "distinct (aq_keys rq)" using assms(1) r by (simp add: acc_inv_def requests_ok_def)
  have "capped_key k C (ac_gates (snd (take_slots (aq_keys rq) (removeRequest r s))))"
  proof (rule capped_take [OF dk capped_remove [OF assms(2)]])
    fix g
    assume "k \<in> set (aq_keys rq)" "map_get (ac_gates (removeRequest r s)) k = Some g"
    then show "ag_running g < ag_max g"
      using rdy by (auto simp: removeRequest_fields [OF r] on_gates_of [OF dk] ready_def)
  qed
  then show ?thesis using r by (simp add: grant_request_def split_beta)
qed

lemma capped_drain: "acc_inv s \<Longrightarrow> capped_key k C (ac_gates s) \<Longrightarrow> capped_key k C (ac_gates (drainQueues now s))"
proof (induction now s rule: drainQueues.induct)
  case (1 now s)
  obtain x s1 where f: "first_ready now (ac_queued s) s = (x, s1)" by (cases "first_ready now (ac_queued s) s")
  obtain gs where s1: "s1 = s\<lparr>ac_gates := gs\<rparr>" using first_ready_gates [of now "ac_queued s" s] f by (metis snd_conv)
  have i1: "acc_inv s1" using acc_inv_same [OF "1.prems"(1), of gs] first_ready_same [of s now "ac_queued s"] f s1 by simp
  have c1: "capped_key k C (ac_gates s1)" using capped_first_ready [OF "1.prems"(2), of now "ac_queued s"] f by simp
  show ?case
  proof (cases x)
    case None
    then show ?thesis using f c1 by (simp add: drainQueues.simps [of now s])
  next
    case (Some r)
    obtain rq where rq: "map_get (ac_requests s) r = Some rq" using first_ready_member [of now "ac_queued s" s r] f Some by auto
    then have rq1: "map_get (ac_requests s1) r = Some rq" by (simp add: s1)
    have "ready now r (aq_keys rq) (ac_gates s1)"
      using first_ready_some [of now "ac_queued s" s r rq] f Some rq by simp
    from "1.IH" [OF f [symmetric] Some conjunct1 [OF grant_inv [OF i1 rq1]] capped_grant [OF i1 c1 rq1 this]]
    show ?thesis using f Some by (simp add: drainQueues.simps [of now s])
  qed
qed

lemma capped_ensure: "capped_key k C gs \<Longrightarrow> (k' = k \<Longrightarrow> mx \<le> C) \<Longrightarrow> 0 \<le> C \<Longrightarrow> capped_key k C (ensureGate k' mx gs)"
  by (cases "map_of gs k'") (auto simp: capped_key_def ensureGate_def)

lemma capped_prepare:
  "capped_key k C gs \<Longrightarrow> nullish (map_get lims k) 0 \<le> C \<Longrightarrow> 0 \<le> C \<Longrightarrow> capped_key k C (snd (prepare_gates mq lims ks gs))"
proof (induction ks arbitrary: gs)
  case (Cons k' ks)
  have "capped_key k C (on_gate (\<lambda>g. g\<lparr>ag_cleanup := False\<rparr>) (ensureGate k' (nullish (map_get lims k') 0) gs) k')"
    using Cons.prems by (intro capped_on_gate capped_ensure) auto
  then show ?case using Cons by (simp add: Let_def)
qed simp

lemma enabled_capped:
  assumes "list_all (\<lambda>(k', mx). k' = k \<longrightarrow> \<not> isBypassed mx \<longrightarrow> truncated mx \<le> C) reqs" and "0 \<le> C"
  shows "nullish (map_get (enabled_limits reqs) k) 0 \<le> C"
proof -
  have "nullish (map_get m k) 0 \<le> C \<Longrightarrow> nullish (map_get (foldl (\<lambda>m (k, mx). if isBypassed mx then m
       else let limit = truncated mx in map_set k (min (nullish (map_get m k) limit) limit) m) m reqs) k) 0 \<le> C" for m
    using assms(1)
  proof (induction reqs arbitrary: m)
    case (Cons q reqs)
    obtain k' mx where q: "q = (k', mx)" by (cases q)
    show ?case
    proof (cases "isBypassed mx")
      case False
      have "nullish (map_get (map_set k' (min (nullish (map_get m k') (truncated mx)) (truncated mx)) m) k) 0 \<le> C"
        using Cons.prems q False by (auto simp: min_le_iff_disj)
      then show ?thesis using Cons q False by (simp add: Let_def)
    qed (use Cons q in simp)
  qed simp
  then show ?thesis using assms(2) by (simp add: enabled_limits_def)
qed

lemma all_free_counters:
  "map_option ag_running (map_of (snd (all_free now ks gs)) j) = map_option ag_running (map_of gs j)
    \<and> map_option ag_max (map_of (snd (all_free now ks gs)) j) = map_option ag_max (map_of gs j)"
  by (induction ks arbitrary: gs) (auto split: option.split)

lemma acquireMany_capped:
  assumes inv: "acc_inv s" and c: "capped_key k C (ac_gates s)" "0 \<le> C"
    and l: "list_all (\<lambda>(k', mx). k' = k \<longrightarrow> \<not> isBypassed mx \<longrightarrow> truncated mx \<le> C) reqs"
    and a: "acquireMany now reqs sg ab mq s = (oc, s')"
  shows "capped_key k C (ac_gates s')"
proof (cases "enabled_limits reqs = [] \<or> ab")
  case True
  then show ?thesis using a c by (auto simp: acquireMany_def Let_def split: if_splits)
next
  case False
  define ks where "ks = sort (map fst (enabled_limits reqs))"
  have ks: "distinct ks" "ks \<noteq> []" using enabled_distinct [of reqs] False by (auto simp: ks_def intro!: sort_nonempty)
  obtain room gs where pg: "prepare_gates mq (enabled_limits reqs) ks (ac_gates s) = (room, gs)"
    by (cases "prepare_gates mq (enabled_limits reqs) ks (ac_gates s)")
  obtain free gs1 where af: "all_free now ks gs = (free, gs1)" by (cases "all_free now ks gs")
  let ?s1 = "s\<lparr>ac_gates := gs1\<rparr>"
  have i1: "acc_inv (s\<lparr>ac_gates := gs\<rparr>)"
    using acc_inv_same [OF inv prepare_gates_keeps [of "ac_gates s" mq "enabled_limits reqs" ks]] pg by simp
  have i2: "acc_inv ?s1" using acc_inv_same [OF i1, of gs1] all_free_same [of gs now ks] af by simp
  have c1: "capped_key k C gs"
    using capped_prepare [OF c(1) enabled_capped [OF l c(2)] c(2), of mq ks] pg by simp
  have c2: "capped_key k C gs1" using capped_all_free [OF c1, of now ks] af by simp
  have s': "s' = (if \<not> room then s\<lparr>ac_gates := gs\<rparr> else if free then snd (take_slots ks ?s1)
      else drainQueues now (snd (push_request ks sg ?s1)))"
    using a pg af False by (auto simp: acquireMany_def Let_def ks_def [symmetric] split_beta split: if_splits)
  consider (full) "\<not> room" | (free) "room" "free" | (wait) "room" "\<not> free" by blast
  then show ?thesis
  proof cases
    case full
    then show ?thesis using s' c1 by simp
  next
    case free
    have keep: "map_option ag_running (map_of (snd (all_free now ks gs)) j) = map_option ag_running (map_of gs j)
      \<and> map_option ag_max (map_of (snd (all_free now ks gs)) j) = map_option ag_max (map_of gs j)" for j
      by (rule all_free_counters)
    have "ag_running g < ag_max g" if mem: "k \<in> set ks" "map_get (ac_gates ?s1) k = Some g" for g
    proof -
      obtain g0 where "map_of gs k = Some g0" "ag_running g0 < ag_max g0"
        using all_free_queues [of now ks gs k] af free mem(1) by auto
      then show ?thesis using keep [of k] af mem(2) by simp
    qed
    then show ?thesis using s' free capped_take [OF ks(1), of k C ?s1] c2 by simp
  next
    case wait
    obtain r s2 where p: "push_request ks sg ?s1 = (r, s2)" by (cases "push_request ks sg ?s1")
    have present1: "k \<in> set ks \<Longrightarrow> map_get (ac_gates ?s1) k \<noteq> None" for k
      using prepare_gates_present [of mq "enabled_limits reqs" ks "ac_gates s" k] all_free_present [of now ks gs k] pg af wait
      by simp
    have "capped_key k C (on_gates (\<lambda>g. g\<lparr>ag_queue := ag_queue g @ [ac_next s]\<rparr>) ks gs1)"
      by (rule capped_on_gates [OF c2]) simp
    then have "capped_key k C (ac_gates s2)" using p by (auto simp: push_request_def Let_def)
    then show ?thesis using wait s' p push_inv [OF i2 ks present1 p] capped_drain [of s2 k C now] by simp
  qed
qed

lemma capped_delete: "capped_key k C gs \<Longrightarrow> capped_key k C (map_delete k' gs)"
  by (auto simp: capped_key_def)

lemma capped_cleanup: "capped_key k C (ac_gates s) \<Longrightarrow> capped_key k C (ac_gates (cleanupGateIfIdle now k' s))"
  by (auto simp: cleanupGateIfIdle_def intro: capped_delete split: option.split)

lemma capped_release:
  assumes inv: "acc_inv s" and c: "capped_key k C (ac_gates s)"
  shows "capped_key k C (ac_gates (release_composite now i s))"
proof (cases "map_get (ac_leases s) i")
  case (Some ks)
  let ?s = "s\<lparr>ac_leases := map_delete i (ac_leases s),
    ac_gates := on_gates (\<lambda>g. if 0 < ag_running g then g\<lparr>ag_running := ag_running g - 1\<rparr> else g) ks (ac_gates s)\<rparr>"
  have "capped_key k C (ac_gates ?s)" by (simp add: capped_on_gates [OF c])
  from capped_drain [OF release_books [OF inv Some] this, of now]
  have "capped_key k C (on_gates cleanup_if_idle ks (ac_gates (drainQueues now ?s)))"
    by (rule capped_on_gates) (simp add: cleanup_if_idle_def)
  then show ?thesis using Some by (simp add: release_composite_def Let_def)
qed (simp add: release_composite_def c)

lemma capped_fail:
  assumes inv: "acc_inv s" and c: "capped_key k C (ac_gates s)"
  shows "capped_key k C (ac_gates (fail_request now err r s))"
proof (cases "map_get (ac_requests s) r")
  case (Some rq)
  have "acc_inv (settle r (Fails err) (removeRequest r s))" using removeRequest_inv [OF inv Some] by simp
  then show ?thesis
    using capped_drain [of "settle r (Fails err) (removeRequest r s)" k C now] capped_remove [OF c] Some
    by (simp add: fail_request_def)
qed (simp add: fail_request_def c)

lemma capped_mark:
  assumes "capped_key k C (ac_gates s)" and "1 \<le> C"
  shows "capped_key k C (ac_gates (markBlocked now k' u s))"
proof -
  let ?gs = "ensureGate k' (nullish (map_option ag_max (map_get (ac_gates s) k')) 1) (ac_gates s)"
  have "capped_key k C ?gs"
    using assms by (intro capped_ensure [OF assms(1)]; cases "map_get (ac_gates s) k") (simp_all add: capped_key_def)
  then have "capped_key k C (on_gate (\<lambda>g. g\<lparr>ag_cleanup := False, ag_blockedUntil := Some x\<rparr>) ?gs k')" for x
    by (rule capped_on_gate) simp
  then show ?thesis using assms(1) by (simp add: markBlocked_def Let_def split: option.split)
qed

lemma capped_unblock:
  assumes inv: "acc_inv s" and c: "capped_key k C (ac_gates s)"
  shows "capped_key k C (ac_gates (unblock now k' s))"
proof (cases "map_get (ac_gates s) k'")
  case (Some g)
  let ?s = "s\<lparr>ac_gates := map_set k' (g\<lparr>ag_blockedUntil := None\<rparr>) (ac_gates s)\<rparr>"
  have "acc_inv ?s" by (rule keep_set_inv [OF inv Some]) simp_all
  moreover have "capped_key k C (ac_gates ?s)"
    using capped_set [OF c Some, of "g\<lparr>ag_blockedUntil := None\<rparr>"] by simp
  ultimately show ?thesis using capped_cleanup capped_drain Some by (simp add: unblock_def)
qed (simp add: unblock_def c)

lemma acc_step_capped:
  assumes C: "1 \<le> C" and x: "acc_run_ok x \<and> capped_key k C (ac_gates (ar_sem x))" and ok: "respects_cap k C (snd ev)"
  shows "acc_run_ok (acc_step x ev) \<and> capped_key k C (ac_gates (ar_sem (acc_step x ev)))"
proof -
  have inv: "acc_inv (ar_sem x)" and c: "capped_key k C (ac_gates (ar_sem x))" using x by (simp_all add: acc_run_ok_def)
  obtain now e where ev: "ev = (now, e)" by (cases ev)
  have "capped_key k C (ac_gates (ar_sem (acc_step x ev)))"
  proof (cases e)
    case (Acc_acquire reqs sg ab mq)
    obtain oc s' where a: "acquireMany now reqs sg ab mq (ar_sem x) = (oc, s')"
      by (cases "acquireMany now reqs sg ab mq (ar_sem x)")
    have "capped_key k C (ac_gates s')"
      using ok C by (intro acquireMany_capped [OF inv c _ _ a]) (simp_all add: ev Acc_acquire)
    then show ?thesis by (simp add: ev Acc_acquire a)
  next
    case (Acc_cleanup k')
    then show ?thesis
      using c capped_cleanup [of k C "ar_sem x\<lparr>ac_gates := map_set k' (g\<lparr>ag_cleanup := False\<rparr>) (ac_gates (ar_sem x))\<rparr>" now k' for g]
        capped_set [OF c]
      by (auto simp: ev cleanup_fires_def split: option.split)
  qed (use capped_release [OF inv c] capped_fail [OF inv c] capped_mark [OF c C] capped_unblock [OF inv c] in \<open>simp_all add: ev\<close>)
  then show ?thesis using x acc_step_ok by blast
qed

text \<open>The cap as a state machine of its own, for caps of at least one.\<close>

definition cap_kept :: "string \<Rightarrow> int \<Rightarrow> acc_run \<Rightarrow> bool" where
  "cap_kept k C x \<longleftrightarrow> 1 \<le> C \<and> acc_run_ok x \<and> capped_key k C (ac_gates (ar_sem x))"

interpretation account_cap: step_invariant acc_step "\<lambda>ev. respects_cap k C (snd ev)" "cap_kept k C" for k C
proof unfold_locales
  fix s and ev :: "int \<times> acc_event"
  assume "cap_kept k C s" and "respects_cap k C (snd ev)"
  then show "cap_kept k C (acc_step s ev)" unfolding cap_kept_def using acc_step_capped by blast
qed

lemma acc_run_capped:
  assumes "1 \<le> C" and "list_all (\<lambda>ev. respects_cap k C (snd ev)) evs"
  shows "held (ar_sem (foldl acc_step start_acc evs)) k \<le> C"
proof -
  let ?x = "foldl acc_step start_acc evs"
  have "cap_kept k C start_acc"
    using assms(1) start_acc_ok by (simp add: cap_kept_def capped_key_def start_acc_def new_account_sem_def)
  then have k: "acc_inv (ar_sem ?x)" "capped_key k C (ac_gates (ar_sem ?x))"
    using account_cap.run_inv [of k C start_acc evs] assms(2) by (simp_all add: cap_kept_def acc_run_ok_def)
  have "book_ok (wants (ar_sem ?x) k) (held (ar_sem ?x) k) (map_get (ac_gates (ar_sem ?x)) k)"
    using k(1) by (simp add: acc_inv_def gates_match_def)
  then show ?thesis using k(2) assms(1) by (cases "map_get (ac_gates (ar_sem ?x)) k") (auto simp: capped_key_def)
qed

lemma drain_nothing: "ac_queued s = [] \<Longrightarrow> drainQueues now s = s"
  by (simp add: drainQueues.simps [of now s])

lemma ready_cleanup: "ready now r ks' (on_gates cleanup_if_idle ks gs) = ready now r ks' gs"
  unfolding on_gates_def
proof (induction ks arbitrary: gs)
  case (Cons k ks)
  have c: "isBlocked now (cleanup_if_idle g) = isBlocked now g" "ag_max (cleanup_if_idle g) = ag_max g" for g
    by (simp_all add: cleanup_if_idle_def isBlocked_def)
  have "ready now r ks' (on_gate cleanup_if_idle gs k) = ready now r ks' gs"
    unfolding ready_def by (rule ball_cong [OF refl], cases "map_of gs k") (auto simp: on_gate_of c)
  then show ?case using Cons.IH by simp
qed simp

subsection \<open>Properties\<close>

text \<open>A demonstration: two leases of the provider's gate, a third request waits at both its gates.\<close>

definition acc_demo :: "(int \<times> acc_event) list" where
  "acc_demo =
     [(0, Acc_acquire [(''p'', Number 2), (''a'', Number 1)] None False 20),
      (1, Acc_acquire [(''p'', Number 2), (''b'', Number 1)] None False 20),
      (2, Acc_acquire [(''p'', Number 2), (''a'', Number 1)] None False 20),
      (3, Acc_acquire [(''p'', Number 2), (''b'', Number 1)] (Some 7) False 20),
      (4, Acc_release 1), (5, Acc_fail SEMAPHORE_TIMEOUT 2)]"

text \<open>
  Without resets the books of the hierarchical semaphore are exact after any run of acquisitions, releases
  (repeated ones too), timeouts, aborts, blocks and cleanups: each gate's running count is the number
  of leases out that hold its key, its queue is the waiting requests that want the key in the order
  they arrived, a key without a gate has neither, and every promise handed out is waiting or was
  settled exactly once. Two gates of one request never disagree, which is what makes the
  all-or-nothing reservation over several gates sound.
\<close>

theorem account_books_exact:
  "let x = foldl acc_step start_acc evs; s = ar_sem x in
   (\<forall>k. case map_get (ac_gates s) k of
          None \<Rightarrow> wants s k = [] \<and> held s k = 0
        | Some g \<Rightarrow> ag_queue g = wants s k \<and> ag_running g = held s k)
   \<and> distinct (map fst (ac_settled s))
   \<and> set (ar_waits x) = set (ac_queued s) \<union> fst ` set (ac_settled s)
   \<and> set (ac_queued s) \<inter> fst ` set (ac_settled s) = {}"
proof -
  define x where "x = foldl acc_step start_acc evs"
  have ok: "acc_inv (ar_sem x)" "mset (ar_waits x) = mset (ac_queued (ar_sem x) @ map fst (ac_settled (ar_sem x)))" "distinct (ar_waits x)"
    using acc_run [of evs] by (simp_all add: x_def acc_run_ok_def acc_promised_def)
  have d: "distinct (ac_queued (ar_sem x) @ map fst (ac_settled (ar_sem x)))"
    using ok(2,3) mset_eq_imp_distinct_iff by blast
  have e: "set (ar_waits x) = set (ac_queued (ar_sem x)) \<union> fst ` set (ac_settled (ar_sem x))"
    using mset_eq_setD [OF ok(2)] by simp
  have "case map_get (ac_gates (ar_sem x)) k of None \<Rightarrow> wants (ar_sem x) k = [] \<and> held (ar_sem x) k = 0
        | Some g \<Rightarrow> ag_queue g = wants (ar_sem x) k \<and> ag_running g = held (ar_sem x) k" for k
    using ok(1) by (cases "map_get (ac_gates (ar_sem x)) k") (auto simp: acc_inv_def gates_match_def dest!: spec [of _ k])
  then show ?thesis using d e unfolding x_def [symmetric] Let_def by simp
qed

text \<open>
  Admission is first come, first served at every gate of the hierarchy: whoever holds a slot of a
  key arrived before everybody who waits for that key, so a request never overtakes an earlier one
  that shares a gate with it, whatever other gates either of them needs.
\<close>

theorem holders_came_first:
  assumes "s = ar_sem (foldl acc_step start_acc evs)"
    and "map_get (ac_leases s) i = Some ks" and "k \<in> set ks" and "r \<in> set (ac_queued s)" and "k \<in> set (keys_of s r)"
  shows "arrival s i < r"
proof -
  have "fifo s" using acc_run_fifo [of evs] assms(1) by simp
  then show ?thesis using assms(2-5) by (auto simp: fifo_def wants_member)
qed

theorem holders_came_first_witness:
  "let s = ar_sem (foldl acc_step start_acc (take 5 acc_demo)) in
   arrival s 0 < 3 \<and> ac_queued s = [2, 3]"
proof -
  define s where "s = ar_sem (foldl acc_step start_acc (take 5 acc_demo))"
  have "map_get (ac_leases s) 0 = Some [''a'', ''p'']" "keys_of s 3 = [''b'', ''p'']" "ac_queued s = [2, 3]"
    unfolding s_def by code_simp+
  then show ?thesis using holders_came_first [OF s_def, of 0 _ "''p''" 3] unfolding s_def [symmetric] Let_def by simp
qed

text \<open>
  No key ever has more slots out than the largest limit its callers ask for: when every
  acquisition that names the key asks for at most \<open>C\<close> (limits that switch the gate off aside), the
  leases that hold the key never exceed \<open>C\<close>, through any order of acquisitions, releases, timeouts,
  aborts and blocks, and whatever the other gates of the requests do.
\<close>

theorem slots_within_cap:
  assumes "list_all (\<lambda>ev. respects_cap k C (snd ev)) evs" and "1 \<le> C" and "s = ar_sem (foldl acc_step start_acc evs)"
  shows "held s k \<le> C"
  using acc_run_capped [OF assms(2,1)] assms(3) by simp

theorem slots_within_cap_witness:
  "let s = ar_sem (foldl acc_step start_acc acc_demo) in held s ''p'' \<le> 2 \<and> held s ''p'' = 2"
proof -
  define s where "s = ar_sem (foldl acc_step start_acc acc_demo)"
  have "held s ''p'' = 2" unfolding s_def by code_simp
  then show ?thesis using slots_within_cap [OF _ _ s_def, of "''p''" 2] unfolding s_def [symmetric] Let_def
    by (simp add: acc_demo_def)
qed

text \<open>
  A release leaves nobody waiting who could go on: after the lease of a composite slot is
  released, every request that still waits is held up by one of its gates, which is missing, blocked,
  full, or has an earlier request at its head. The composite wait never loses a wake-up to a release.
\<close>

theorem release_wakes_the_ready:
  assumes "map_get (ac_leases s) i \<noteq> None" and "s' = release_composite now i s"
    and "r \<in> set (ac_queued s')" and "map_get (ac_requests s') r = Some rq"
  shows "\<exists>k \<in> set (aq_keys rq). case map_get (ac_gates s') k of
           None \<Rightarrow> True
         | Some g \<Rightarrow> isBlocked now g \<or> ag_max g \<le> ag_running g \<or> take 1 (ag_queue g) \<noteq> [r]"
proof -
  obtain ks where ks: "map_get (ac_leases s) i = Some ks" using assms(1) by auto
  define d where "d = drainQueues now (s\<lparr>ac_leases := map_delete i (ac_leases s),
    ac_gates := on_gates (\<lambda>g. if 0 < ag_running g then g\<lparr>ag_running := ag_running g - 1\<rparr> else g) ks (ac_gates s)\<rparr>)"
  have s': "s' = d\<lparr>ac_gates := on_gates cleanup_if_idle ks (ac_gates d)\<rparr>"
    using assms(2) ks by (simp add: release_composite_def Let_def d_def)
  have "\<not> ready now r (aq_keys rq) (ac_gates d)"
    unfolding d_def by (rule drain_nobody_ready) (use assms(3,4) s' in \<open>simp_all add: d_def\<close>)
  then have "\<not> ready now r (aq_keys rq) (ac_gates s')" by (simp add: s' ready_cleanup)
  then obtain k where "k \<in> set (aq_keys rq)"
    and "\<not> (\<exists>g. map_get (ac_gates s') k = Some g \<and> \<not> isBlocked now g \<and> ag_running g < ag_max g \<and> take 1 (ag_queue g) = [r])"
    unfolding ready_def by blast
  then show ?thesis by (intro bexI [of _ k]) (auto split: option.split)
qed

theorem release_wakes_the_ready_witness:
  "let s' = release_composite 4 1 (ar_sem (foldl acc_step start_acc (take 4 acc_demo))) in
   \<exists>k \<in> {''b'', ''p''}. case map_get (ac_gates s') k of
     None \<Rightarrow> True | Some g \<Rightarrow> isBlocked 4 g \<or> ag_max g \<le> ag_running g \<or> take 1 (ag_queue g) \<noteq> [3]"
proof -
  define s where "s = ar_sem (foldl acc_step start_acc (take 4 acc_demo))"
  define s' where "s' = release_composite 4 1 s"
  have "map_get (ac_leases s) 1 \<noteq> None" unfolding s_def by code_simp
  moreover have "ac_queued s' = [2, 3]" unfolding s'_def s_def by code_simp
  moreover have "map_get (ac_requests s') 3 = Some \<lparr>aq_keys = [''b'', ''p''], aq_signal = Some 7\<rparr>"
    unfolding s'_def s_def by code_simp
  ultimately show ?thesis using release_wakes_the_ready [OF _ s'_def, of 3]
    unfolding s_def [symmetric] s'_def [symmetric] Let_def by simp
qed

lemma enabled_one: "1 \<le> c \<Longrightarrow> enabled_limits [(k, Number c)] = [(k, \<lfloor>c\<rfloor>)]"
  by (simp add: enabled_limits_def Let_def)

abbreviation "blocked_gate mx q b \<equiv> \<lparr>ag_running = 0, ag_max = mx, ag_queue = q, ag_blockedUntil = b, ag_cleanup = False\<rparr>"

lemma acquire_blocked:
  assumes "0 \<le> now" and "now \<le> t" and "t < now + ms" and "1 \<le> c"
  shows "acquireMany t [(k, Number c)] None False 20 (markBlocked now k (In ms) new_account_sem)
    = (Queued_as 0, \<lparr>ac_gates = [(k, blocked_gate \<lfloor>c\<rfloor> [0] (Some (now + ms)))], ac_queued = [0],
        ac_requests = [(0, \<lparr>aq_keys = [k], aq_signal = None\<rparr>)], ac_leases = [], ac_settled = [], ac_next = 1\<rparr>)"
proof -
  have m: "markBlocked now k (In ms) new_account_sem = new_account_sem\<lparr>ac_gates := [(k, blocked_gate 1 [] (Some (now + ms)))]\<rparr>"
    using assms by (simp add: markBlocked_def new_account_sem_def ensureGate_def on_gate_def Let_def)
  have b: "isBlocked t (blocked_gate mx q (Some (now + ms)))" for mx q
    using assms by (simp add: isBlocked_def)
  have p: "prepare_gates 20 [(k, \<lfloor>c\<rfloor>)] [k] [(k, blocked_gate 1 [] (Some (now + ms)))]
      = (True, [(k, blocked_gate \<lfloor>c\<rfloor> [] (Some (now + ms)))])"
    by (simp add: ensureGate_def on_gate_def Let_def)
  have f: "all_free t [k] [(k, blocked_gate \<lfloor>c\<rfloor> [] (Some (now + ms)))] = (False, [(k, blocked_gate \<lfloor>c\<rfloor> [] (Some (now + ms)))])"
    using b by simp
  show ?thesis
    using b unfolding m
    by (simp add: acquireMany_def enabled_one [OF assms(4)] p f push_request_def on_gates_def on_gate_def
        new_account_sem_def Let_def drainQueues.simps [of t] del: prepare_gates.simps all_free.simps)
qed

text \<open>
  A block that expires wakes nobody. After an account is blocked for \<open>ms\<close>, a request for it waits;
  once the block is over the request could go on at once, and any drain would admit it, yet nothing is
  scheduled that drains: neither the block nor a cleanup timer does, and left alone the request waits
  until its own timeout, which rejects it although its gate is free.
\<close>

theorem expired_block_strands:
  assumes "0 \<le> now" and "now \<le> t" and "t < now + ms" and "now + ms \<le> late" and "1 \<le> c"
    and "(oc, s) = acquireMany t [(k, Number c)] None False 20 (markBlocked now k (In ms) new_account_sem)"
  shows "oc = Queued_as 0 \<and> (\<forall>k'. cleanup_fires late k' s = s)
    \<and> keys_of s 0 = [k] \<and> ready late 0 [k] (ac_gates s)
    \<and> ac_settled (drainQueues late s) = [(0, Holds 1)]
    \<and> ac_settled (fail_request late SEMAPHORE_TIMEOUT 0 s) = [(0, Fails SEMAPHORE_TIMEOUT)]"
proof -
  define g where "g = blocked_gate \<lfloor>c\<rfloor> [0] (Some (now + ms))"
  have s: "oc = Queued_as 0" "s = \<lparr>ac_gates = [(k, g)], ac_queued = [0],
        ac_requests = [(0, \<lparr>aq_keys = [k], aq_signal = None\<rparr>)], ac_leases = [], ac_settled = [], ac_next = 1\<rparr>"
    using acquire_blocked [OF assms(1-3,5), of k] assms(6) by (simp_all add: g_def)
  have r: "ready late 0 [k] (ac_gates s)"
    using assms by (simp add: s ready_def isBlocked_def g_def)
  obtain gs where f: "first_ready late [0] s = (Some 0, s\<lparr>ac_gates := gs\<rparr>)"
    using canAcquire_iff [of late 0 "[k]" "ac_gates s"] r by (auto simp: s Let_def split_beta)
  have q: "ac_queued s = [0]" "map_get (ac_requests s) 0 = Some \<lparr>aq_keys = [k], aq_signal = None\<rparr>"
    "ac_settled s = []" "ac_next s = 1"
    by (simp_all add: s)
  have "drainQueues late s = drainQueues late (grant_request 0 (s\<lparr>ac_gates := gs\<rparr>))"
    using f q(1) by (simp add: drainQueues.simps [of late s])
  also have "\<dots> = grant_request 0 (s\<lparr>ac_gates := gs\<rparr>)"
    using q(1,2) by (simp add: drain_nothing grant_queued)
  finally have "ac_settled (drainQueues late s) = [(0, Holds 1)]"
    using q by (simp add: grant_request_def removeRequest_def take_slots_def settle_def)
  moreover have "cleanup_fires late k' s = s" for k'
    by (simp add: cleanup_fires_def s g_def)
  moreover have "ac_settled (fail_request late SEMAPHORE_TIMEOUT 0 s) = [(0, Fails SEMAPHORE_TIMEOUT)]"
    by (simp add: fail_request_def s removeRequest_def settle_def drain_nothing)
  ultimately show ?thesis using r by (simp add: s keys_of_def)
qed

theorem expired_block_strands_witness:
  "let (oc, s) = acquireMany 100 [(''p:a'', Number 2)] None False 20 (markBlocked 0 ''p:a'' (In 1000) new_account_sem) in
   ready 1000 0 [''p:a''] (ac_gates s) \<and> ac_settled (fail_request 30100 SEMAPHORE_TIMEOUT 0 s) = [(0, Fails SEMAPHORE_TIMEOUT)]"
proof -
  obtain oc s where a: "(oc, s) = acquireMany 100 [(''p:a'', Number 2)] None False 20 (markBlocked 0 ''p:a'' (In 1000) new_account_sem)"
    by (metis surj_pair)
  show ?thesis
    using expired_block_strands [OF _ _ _ _ _ a, of 1000] expired_block_strands [OF _ _ _ _ _ a, of 30100]
    unfolding a [symmetric] by simp
qed

text \<open>
  Resetting a key lets its limit be exceeded: with a limit of one, a lease taken before the reset
  is still out when the new gate admits a second one; releasing the old lease then frees a slot of the
  new gate, which admits a third. Two leases are out for a limit of one, and the gate counts one.
\<close>

theorem reset_overcommits:
  "let acq = (\<lambda>t. acquire_one t k (Number 1) None False 20);
       s1 = snd (acq t1 new_account_sem); s2 = snd (acq t3 (reset_gate t2 k s1));
       (oc, s) = acq t5 (release_composite t4 0 s2)
   in oc = Granted_now 2 \<and> map_get (ac_leases s) 1 = Some [k] \<and> map_get (ac_leases s) 2 = Some [k] \<and> held s k = 2
     \<and> ag_max (the (map_get (ac_gates s) k)) = 1 \<and> ag_running (the (map_get (ac_gates s) k)) = 1"
  by (simp add: acquire_one_def acquireMany_def enabled_one new_account_sem_def Let_def ensureGate_def on_gate_def
      on_gates_def take_slots_def isBlocked_def expire_block_def reset_gate_def release_composite_def drain_nothing
      cleanup_if_idle_def held_def)

end
