(* ===== verification/AccountResets.thy ===== *)
theory AccountResets
  imports AccountSemaphore
begin

text \<open>
  Runs of the hierarchical semaphore of \<^verbatim>\<open>src/open-sse/services/accountSemaphore.ts\<close> that reset gates, as
  \<^verbatim>\<open>src/src/app/api/admin/concurrency\<close> does while requests run. A reset forgets the leases that are out, and their later
  releases count the new gate down. A cleanup timer that \<open>reset\<close> leaves behind, armed on the gate it drops, looks the key up
  when it fires: it may fire at any time here.
\<close>

subsection \<open>Events\<close>

datatype account_event = Sem_call acc_event | Sem_orphan string | Sem_reset string | Sem_reset_all

text \<open>
  Beside the run: for each key the first lease number after the last reset of its gate, and how many leases from before it
  were released since.
\<close>

record account_run =
  sr_run :: acc_run
  sr_since :: "string \<Rightarrow> nat"
  sr_late :: "string \<Rightarrow> nat"

definition late_release :: "acc_event \<Rightarrow> account_run \<Rightarrow> string \<Rightarrow> bool" where
  "late_release ev x k =
     (case ev of
        Acc_release i \<Rightarrow>
          (case map_get (ac_leases (ar_sem (sr_run x))) i of
             None \<Rightarrow> False
           | Some ks \<Rightarrow> k \<in> set ks \<and> i < sr_since x k)
      | _ \<Rightarrow> False)"

fun account_step :: "account_run \<Rightarrow> int \<times> account_event \<Rightarrow> account_run" where
  "account_step x (now, Sem_call ev) =
     x\<lparr>sr_run := acc_step (sr_run x) (now, ev),
       sr_late := (\<lambda>k. if late_release ev x k then sr_late x k + 1 else sr_late x k)\<rparr>"
| "account_step x (now, Sem_orphan k) =
     x\<lparr>sr_run := (sr_run x)\<lparr>ar_sem := cleanupGateIfIdle now k (ar_sem (sr_run x))\<rparr>\<rparr>"
| "account_step x (now, Sem_reset k) =
     x\<lparr>sr_run := (sr_run x)\<lparr>ar_sem := reset_gate now k (ar_sem (sr_run x))\<rparr>,
       sr_since := (sr_since x)(k := ac_next (ar_sem (sr_run x))), sr_late := (sr_late x)(k := 0)\<rparr>"
| "account_step x (now, Sem_reset_all) =
     x\<lparr>sr_run := (sr_run x)\<lparr>ar_sem := reset_account_sem (ar_sem (sr_run x))\<rparr>,
       sr_since := (\<lambda>_. ac_next (ar_sem (sr_run x))), sr_late := (\<lambda>_. 0)\<rparr>"

definition start_account :: account_run where
  "start_account = \<lparr>sr_run = start_acc, sr_since = (\<lambda>_. 0), sr_late = (\<lambda>_. 0)\<rparr>"

subsection \<open>Leases from before a number\<close>

definition older :: "nat \<Rightarrow> account_sem \<Rightarrow> string \<Rightarrow> int" where
  "older n s k = int (length (filter (\<lambda>p. fst p < n \<and> k \<in> set (snd p)) (ac_leases s)))"

text \<open>The leases of a key that were taken since its last reset.\<close>

definition fresh :: "account_run \<Rightarrow> string \<Rightarrow> int" where
  "fresh x k = int (length (filter (\<lambda>p. sr_since x k \<le> fst p \<and> k \<in> set (snd p)) (ac_leases (ar_sem (sr_run x)))))"

lemma held_split: "held s k = older n s k + int (length (filter (\<lambda>p. n \<le> fst p \<and> k \<in> set (snd p)) (ac_leases s)))"
proof -
  have "length (filter P xs) = length (filter (\<lambda>p. f p < n \<and> P p) xs) + length (filter (\<lambda>p. n \<le> f p \<and> P p) xs)"
    for P and f :: "'a \<Rightarrow> nat" and xs
    by (induction xs) auto
  from this [of "\<lambda>p. k \<in> set (snd p)" "ac_leases s" fst] show ?thesis by (simp add: held_def older_def)
qed

definition keeps_older :: "account_sem \<Rightarrow> account_sem \<Rightarrow> bool" where
  "keeps_older s s' \<longleftrightarrow> ac_next s \<le> ac_next s' \<and> (\<forall>n k. n \<le> ac_next s \<longrightarrow> older n s' k = older n s k)"

lemma keeps_older_trans: "keeps_older s s1 \<Longrightarrow> keeps_older s1 s2 \<Longrightarrow> keeps_older s s2"
  by (auto simp: keeps_older_def)

lemma keeps_older_same: "ac_leases s' = ac_leases s \<Longrightarrow> ac_next s' = ac_next s \<Longrightarrow> keeps_older s s'"
  by (simp add: keeps_older_def older_def)

lemma take_older:
  assumes "requests_ok s" and "take_slots ks s = (i, s')"
  shows "keeps_older s s'"
proof -
  have "map_get (ac_leases s) (ac_next s) = None" using assms(1) by (force simp: requests_ok_def map_of_eq_None_iff)
  then have "ac_leases s' = ac_leases s @ [(ac_next s, ks)]" using assms(2) by (auto simp: take_slots_def map_set_fresh)
  moreover have "ac_next s' = ac_next s + 1" using assms(2) by (auto simp: take_slots_def)
  ultimately show ?thesis by (simp add: keeps_older_def older_def)
qed

lemma grant_older:
  assumes "books_ok off s" and "map_get (ac_requests s) r = Some rq"
  shows "keeps_older s (grant_request r s)"
proof -
  let ?s = "removeRequest r s"
  obtain i s1 where t: "take_slots (aq_keys rq) ?s = (i, s1)" by (cases "take_slots (aq_keys rq) ?s")
  have "requests_ok ?s" using removeRequest_inv [OF assms] by (simp add: books_ok_def)
  then have "keeps_older ?s s1" using t by (rule take_older)
  moreover have "keeps_older s ?s" by (rule keeps_older_same) (simp_all add: removeRequest_fields [OF assms(2)])
  ultimately have "keeps_older s s1" by (rule keeps_older_trans [rotated])
  then show ?thesis using keeps_older_trans keeps_older_same [of "settle r (Holds i) s1" s1]
    by (simp add: grant_request_def assms(2) t)
qed

lemma drain_older: "books_ok off s \<Longrightarrow> keeps_older s (drainQueues now s)"
proof (induction now s rule: drainQueues.induct)
  case (1 now s)
  obtain o1 s1 where f: "first_ready now (ac_queued s) s = (o1, s1)" by (cases "first_ready now (ac_queued s) s")
  have s1: "s1 = s\<lparr>ac_gates := ac_gates s1\<rparr>" using first_ready_gates [of now "ac_queued s" s] f by simp
  have k1: "keeps_older s s1" using s1 by (intro keeps_older_same) (metis account_sem.select_convs account_sem.update_convs(1) account_sem.surjective)+
  have b1: "books_ok off s1"
    using acc_inv_same [OF "1.prems" first_ready_same [of s now "ac_queued s"]] f s1 by simp
  show ?case
  proof (cases o1)
    case None
    then show ?thesis using f k1 by (simp add: drainQueues.simps [of now s])
  next
    case (Some r)
    have "map_get (ac_requests s) r \<noteq> None" using first_ready_member [of now "ac_queued s" s r] f Some by simp
    moreover have "ac_requests s1 = ac_requests s" using first_ready_fields(2) [of now "ac_queued s" s] f by simp
    ultimately obtain rq where rq: "map_get (ac_requests s1) r = Some rq" by auto
    have "keeps_older (grant_request r s1) (drainQueues now (grant_request r s1))"
      using "1.IH" [OF f [symmetric] _ conjunct1 [OF grant_inv [OF b1 rq]]] Some by simp
    then have "keeps_older s1 (drainQueues now (grant_request r s1))" by (rule keeps_older_trans [OF grant_older [OF b1 rq]])
    with k1 have "keeps_older s (drainQueues now (grant_request r s1))" by (rule keeps_older_trans)
    then show ?thesis using f Some by (simp add: drainQueues.simps [of now s])
  qed
qed

lemma gates_older [simp]: "keeps_older s (s'\<lparr>ac_gates := gs\<rparr>) = keeps_older s s'" "keeps_older (s\<lparr>ac_gates := gs\<rparr>) s' = keeps_older s s'"
  by (simp_all add: keeps_older_def older_def)

lemma older_refl [simp]: "keeps_older s s"
  by (simp add: keeps_older_def)

lemma acquireMany_older:
  assumes "books_ok off s"
  shows "keeps_older s (snd (acquireMany now reqs sg ab mq s))"
proof (cases "enabled_limits reqs = [] \<or> ab")
  case True
  then show ?thesis by (auto simp: acquireMany_def Let_def)
next
  case False
  define ks where "ks = sort (map fst (enabled_limits reqs))"
  have ks: "distinct ks" "ks \<noteq> []" using enabled_distinct [of reqs] False by (auto simp: ks_def intro!: sort_nonempty)
  obtain room gs where pg: "prepare_gates mq (enabled_limits reqs) ks (ac_gates s) = (room, gs)"
    by (cases "prepare_gates mq (enabled_limits reqs) ks (ac_gates s)")
  obtain free gs1 where af: "all_free now ks gs = (free, gs1)" by (cases "all_free now ks gs")
  let ?s1 = "s\<lparr>ac_gates := gs1\<rparr>"
  obtain i s2 where t: "take_slots ks ?s1 = (i, s2)" by (cases "take_slots ks ?s1")
  obtain r s3 where p: "push_request ks sg ?s1 = (r, s3)" by (cases "push_request ks sg ?s1")
  have ok: "requests_ok ?s1" using assms by (simp add: books_ok_def)
  have t1: "keeps_older s s2" using take_older [OF ok t] by simp
  have "keeps_older s (drainQueues now s3)" if room
  proof -
    have present: "k \<in> set ks \<Longrightarrow> map_get (ac_gates ?s1) k \<noteq> None" for k
      using prepare_gates_present [of mq "enabled_limits reqs" ks "ac_gates s" k] all_free_present [of now ks gs k] pg af that by simp
    have "keeps_books (ac_gates s) gs1"
      using keeps_books_trans [OF prepare_gates_keeps [of "ac_gates s" mq "enabled_limits reqs" ks] all_free_same [of _ now ks]] pg af
      by simp
    then have "books_ok off ?s1" by (rule acc_inv_same [OF assms])
    from push_inv [OF this ks present p] have "keeps_older s3 (drainQueues now s3)" by (intro drain_older) blast
    moreover have "keeps_older s s3" using p by (auto simp: push_request_def Let_def keeps_older_def older_def)
    ultimately show ?thesis by (rule keeps_older_trans [rotated])
  qed
  then show ?thesis using False pg af t p t1 by (simp add: acquireMany_def Let_def ks_def [symmetric])
qed

lemma removeRequest_older: "keeps_older s (removeRequest r s)"
  by (rule keeps_older_same) (simp_all add: removeRequest_def split: option.split)

lemma settle_older [simp]: "keeps_older s (settle r x s') = keeps_older s s'"
  by (simp add: keeps_older_def older_def)

lemma fail_older:
  assumes "books_ok off s"
  shows "keeps_older s (fail_request now err r s)"
proof (cases "map_get (ac_requests s) r")
  case (Some rq)
  have "keeps_older (settle r (Fails err) (removeRequest r s)) (drainQueues now (settle r (Fails err) (removeRequest r s)))"
    using removeRequest_inv [OF assms Some] by (intro drain_older [of off]) simp
  moreover have "keeps_older s (settle r (Fails err) (removeRequest r s))" by (simp add: removeRequest_older)
  ultimately have "keeps_older s (drainQueues now (settle r (Fails err) (removeRequest r s)))" by (rule keeps_older_trans [rotated])
  then show ?thesis using Some by (simp add: fail_request_def)
qed (simp add: fail_request_def)

lemma markBlocked_older: "keeps_older s (markBlocked now k u s)"
  by (auto simp: markBlocked_def Let_def split: option.split)

lemma cleanup_older: "keeps_older s (cleanupGateIfIdle now k s)"
  by (auto simp: cleanupGateIfIdle_def split: option.split)

lemma cleanup_fires_older: "keeps_older s (cleanup_fires now k s)"
  using cleanup_older [of "s\<lparr>ac_gates := gs\<rparr>" now k for gs] by (auto simp: cleanup_fires_def split: option.split)

lemma unblock_older:
  assumes "books_ok off s"
  shows "keeps_older s (unblock now k s)"
proof (cases "map_get (ac_gates s) k")
  case (Some g)
  let ?s = "s\<lparr>ac_gates := map_set k (g\<lparr>ag_blockedUntil := None\<rparr>) (ac_gates s)\<rparr>"
  have "books_ok off ?s" by (rule keep_set_inv [OF assms Some]) simp_all
  then have "keeps_older s (drainQueues now ?s)" using drain_older [of off ?s now] by simp
  then show ?thesis using cleanup_older keeps_older_trans Some by (simp add: unblock_def)
qed (simp add: unblock_def)

lemma older_delete:
  assumes "map_wf ls" and "map_of ls i = Some ks"
  shows "int (length (filter (\<lambda>p. fst p < n \<and> k \<in> set (snd p)) (map_delete i ls))) + (if k \<in> set ks \<and> i < n then 1 else 0)
    = int (length (filter (\<lambda>p. fst p < n \<and> k \<in> set (snd p)) ls))"
  using assms
proof (induction ls)
  case (Cons p ls)
  show ?case
  proof (cases "fst p = i")
    case True
    then have "map_delete i ls = ls" using Cons.prems(1) by (intro map_delete_absent) (auto simp: map_of_eq_None_iff)
    then show ?thesis using True Cons.prems by (cases p) auto
  next
    case False
    then show ?thesis using Cons by (cases p) auto
  qed
qed simp

text \<open>A release takes one lease away, old or not, from each of its keys.\<close>

lemma release_older:
  assumes "books_ok off s" and "map_get (ac_leases s) i = Some ks" and "n \<le> ac_next s"
  shows "older n (release_composite now i s) k = older n s k - (if k \<in> set ks \<and> i < n then 1 else 0)"
proof -
  let ?gs = "on_gates (\<lambda>g. if 0 < ag_running g then g\<lparr>ag_running := ag_running g - 1\<rparr> else g) ks (ac_gates s)"
  let ?s = "s\<lparr>ac_leases := map_delete i (ac_leases s), ac_gates := ?gs\<rparr>"
  have d: "keeps_older ?s (drainQueues now ?s)" using drain_older [OF release_books_off [OF assms(1, 2)]] .
  have "older n (release_composite now i s) k = older n (drainQueues now ?s) k"
    using assms(2) by (simp add: release_composite_def Let_def older_def)
  also have "\<dots> = older n ?s k" using d assms(3) by (simp add: keeps_older_def)
  also have "\<dots> = older n s k - (if k \<in> set ks \<and> i < n then 1 else 0)"
    using older_delete [of "ac_leases s" i ks n k] assms(1, 2) by (simp add: older_def books_ok_def requests_ok_def)
  finally show ?thesis .
qed

subsection \<open>Resets\<close>

text \<open>Several waiting requests are taken out, and then rejected.\<close>

lemma removeRequest_wants:
  assumes "books_ok off s" and "map_get (ac_requests s) r = Some rq"
  shows "wants (removeRequest r s) k = remove1 r (wants s k)"
proof -
  have d: "distinct (ac_queued s)" using queued_distinct assms(1) by (simp add: books_ok_def)
  have "keys_of (removeRequest r s) q = (if q = r then [] else keys_of s q)" for q
    by (simp add: keys_of_def removeRequest_fields [OF assms(2)])
  then have "wants (removeRequest r s) k = filter (\<lambda>q. k \<in> set (keys_of s q)) (remove1 r (ac_queued s))"
    unfolding wants_def removeRequest_fields(1) [OF assms(2)] by (intro filter_cong refl) (use d in simp)
  then show ?thesis using d by (simp add: wants_def filter_remove1)
qed

lemma remove_all:
  assumes "books_ok off s" and "distinct rs" and "\<forall>r \<in> set rs. map_get (ac_requests s) r \<noteq> None"
  shows "books_ok off (foldl (\<lambda>s r. removeRequest r s) s rs)
    \<and> acc_promised (foldl (\<lambda>s r. removeRequest r s) s rs) + mset rs = acc_promised s
    \<and> set (wants (foldl (\<lambda>s r. removeRequest r s) s rs) k) = set (wants s k) - set rs
    \<and> set (ac_queued (foldl (\<lambda>s r. removeRequest r s) s rs)) = set (ac_queued s) - set rs
    \<and> ac_leases (foldl (\<lambda>s r. removeRequest r s) s rs) = ac_leases s
    \<and> ac_next (foldl (\<lambda>s r. removeRequest r s) s rs) = ac_next s"
  using assms
proof (induction rs arbitrary: s)
  case (Cons r rs)
  then obtain rq where rq: "map_get (ac_requests s) r = Some rq" by auto
  note f = removeRequest_fields [OF rq] and i = removeRequest_inv [OF Cons.prems(1) rq]
  have d: "distinct (ac_queued s)" using queued_distinct Cons.prems(1) by (simp add: books_ok_def)
  have "\<forall>q \<in> set rs. map_get (ac_requests (removeRequest r s)) q \<noteq> None" using Cons.prems(2, 3) by (auto simp: f(2))
  note IH = Cons.IH [OF conjunct1 [OF i] _ this]
  have "set (wants (removeRequest r s) k) = set (wants s k) - {r}"
    using removeRequest_wants [OF Cons.prems(1) rq, of k] d by (simp add: wants_def)
  then show ?case using IH Cons.prems(2) i d by (auto simp: f)
qed simp

lemma settle_all:
  "books_ok off (foldl (\<lambda>s r. settle r x s) s rs) = books_ok off s"
  "acc_promised (foldl (\<lambda>s r. settle r x s) s rs) = acc_promised s + mset rs"
  "ac_leases (foldl (\<lambda>s r. settle r x s) s rs) = ac_leases s" "ac_next (foldl (\<lambda>s r. settle r x s) s rs) = ac_next s"
  by (induction rs arbitrary: s) simp_all

lemma waiting_request: "requests_ok s \<Longrightarrow> r \<in> set (ac_queued s) \<Longrightarrow> map_get (ac_requests s) r \<noteq> None"
  by (simp add: requests_ok_def map_of_eq_None_iff)

lemma all_requests: "requests_ok s \<Longrightarrow> set rs \<subseteq> set (ac_queued s) \<Longrightarrow> filter (\<lambda>r. map_get (ac_requests s) r \<noteq> None) rs = rs"
  by (intro filter_True) (auto simp: requests_ok_def map_of_eq_None_iff)

text \<open>A reset drops the gate of the key: what is held of it is not counted any more.\<close>

lemma drop_gate_books:
  assumes "books_ok off s" and "wants s k = []"
  shows "books_ok (off(k := - held s k)) (s\<lparr>ac_gates := map_delete k (ac_gates s)\<rparr>)"
proof -
  have "0 \<le> held s j + (off(k := - held s k)) j
      \<and> book_ok (wants s j) (held s j + (off(k := - held s k)) j) (map_get (map_delete k (ac_gates s)) j)" for j
    using assms by (cases "j = k") (auto simp: books_ok_def gates_match_def)
  then show ?thesis using assms(1) by (simp add: books_ok_def gates_match_def)
qed

lemma reset_gate_ok:
  assumes "books_ok off s"
  shows "books_ok (off(k := - held s k)) (reset_gate now k s) \<and> acc_promised (reset_gate now k s) = acc_promised s
    \<and> keeps_older s (reset_gate now k s)"
proof (cases "map_get (ac_gates s) k")
  case None
  then have "held s k + off k = 0" using assms by (auto simp: books_ok_def gates_match_def dest!: spec [of _ k])
  then have "off(k := - held s k) = off" by (simp add: fun_eq_iff)
  then show ?thesis using None assms by (simp add: reset_gate_def)
next
  case (Some g)
  define rs where "rs = wants s k"
  have q: "ag_queue g = rs" using assms Some unfolding books_ok_def gates_match_def rs_def by (metis book_ok.simps(2))
  have ok: "requests_ok s" using assms by (simp add: books_ok_def)
  have rs: "distinct rs" "set rs \<subseteq> set (ac_queued s)" using queued_distinct [OF ok] by (auto simp: rs_def wants_def)
  have all: "filter (\<lambda>r. map_get (ac_requests s) r \<noteq> None) rs = rs" by (rule all_requests [OF ok rs(2)])
  have "\<forall>r \<in> set rs. map_get (ac_requests s) r \<noteq> None" using waiting_request [OF ok] rs(2) by blast
  note r0 = remove_all [OF assms rs(1) this, of k]
  define s1 where "s1 = foldl (\<lambda>s r. removeRequest r s) s rs"
  note r = r0 [folded s1_def]
  define s3 where "s3 = foldl (\<lambda>s r. settle r (Fails SEMAPHORE_RESET) s) (s1\<lparr>ac_gates := map_delete k (ac_gates s1)\<rparr>) rs"
  have w: "wants s1 k = []" using conjunct1 [OF conjunct2 [OF conjunct2 [OF r]]] by (simp add: rs_def)
  have l: "ac_leases s1 = ac_leases s" "ac_next s1 = ac_next s" "books_ok off s1" "acc_promised s1 + mset rs = acc_promised s"
    using r by blast+
  have "held s1 k = held s k" by (simp add: held_def l)
  then have b: "books_ok (off(k := - held s k)) s3"
    using drop_gate_books [OF l(3) w] by (simp add: s3_def settle_all)
  have p: "acc_promised s3 = acc_promised s" by (simp add: s3_def settle_all l(4))
  have k3: "keeps_older s s3" by (intro keeps_older_same) (simp_all add: s3_def settle_all l)
  have "reset_gate now k s = drainQueues now s3"
    unfolding reset_gate_def Some option.case q Let_def all s1_def s3_def by (rule refl)
  then show ?thesis using drain_inv [OF b, of now] drain_older [OF b, of now] keeps_older_trans [OF k3] p by simp
qed

lemma reset_all_ok:
  assumes "books_ok off s"
  shows "books_ok (\<lambda>k. - held s k) (reset_account_sem s) \<and> acc_promised (reset_account_sem s) = acc_promised s
    \<and> keeps_older s (reset_account_sem s)"
proof -
  define rs where "rs = ac_queued s"
  have ok: "requests_ok s" using assms by (simp add: books_ok_def)
  have rs: "distinct rs" "set rs \<subseteq> set (ac_queued s)" using queued_distinct [OF ok] by (auto simp: rs_def)
  have all: "filter (\<lambda>r. map_get (ac_requests s) r \<noteq> None) rs = rs" by (rule all_requests [OF ok rs(2)])
  have "\<forall>r \<in> set rs. map_get (ac_requests s) r \<noteq> None" using waiting_request [OF ok] rs(2) by blast
  note r0 = remove_all [OF assms rs(1) this]
  define s1 where "s1 = foldl (\<lambda>s r. removeRequest r s) s rs"
  note r = r0 [folded s1_def]
  have l: "ac_leases s1 = ac_leases s" "ac_next s1 = ac_next s" "books_ok off s1" "acc_promised s1 + mset rs = acc_promised s"
    "set (ac_queued s1) = set (ac_queued s) - set rs"
    using r by blast+
  have q1: "ac_queued s1 = []" using l(5) by (simp add: rs_def)
  have e: "reset_account_sem s = foldl (\<lambda>s r. settle r (Fails SEMAPHORE_RESET) s) (s1\<lparr>ac_gates := [], ac_queued := []\<rparr>) rs"
    unfolding reset_account_sem_def Let_def rs_def [symmetric] all s1_def by (rule refl)
  have b1: "requests_ok s1" using l(3) by (simp add: books_ok_def)
  have g: "s1\<lparr>ac_gates := [], ac_queued := []\<rparr> = s1\<lparr>ac_gates := []\<rparr>" using q1 by simp
  have "books_ok (\<lambda>k. - held s k) (s1\<lparr>ac_gates := []\<rparr>)"
    using b1 q1 by (simp add: books_ok_def gates_match_def held_def wants_def l(1))
  moreover have "keeps_older s (reset_account_sem s)"
    by (intro keeps_older_same) (simp_all add: e g settle_all l)
  moreover have "acc_promised (reset_account_sem s) = acc_promised s" by (simp add: e g settle_all l(4))
  ultimately show ?thesis by (simp add: e g settle_all)
qed

subsection \<open>Runs\<close>

definition offset_ok :: "account_run \<Rightarrow> (string \<Rightarrow> int) \<Rightarrow> bool" where
  "offset_ok x off \<longleftrightarrow> (\<forall>k. sr_since x k \<le> ac_next (ar_sem (sr_run x))
     \<and> off k + older (sr_since x k) (ar_sem (sr_run x)) k \<le> 0
     \<and> 0 \<le> off k + older (sr_since x k) (ar_sem (sr_run x)) k + int (sr_late x k))"

definition waits_ok :: "acc_run \<Rightarrow> bool" where
  "waits_ok r \<longleftrightarrow> mset (ar_waits r) = acc_promised (ar_sem r) \<and> distinct (ar_waits r)
     \<and> (\<forall>i \<in> set (ar_waits r). i < ac_next (ar_sem r))"

definition sem_ok :: "account_run \<Rightarrow> bool" where
  "sem_ok x \<longleftrightarrow> waits_ok (sr_run x) \<and> (\<exists>off. books_ok off (ar_sem (sr_run x)) \<and> offset_ok x off)"

lemma offset_kept:
  assumes "offset_ok x off" and "keeps_older (ar_sem (sr_run x)) (ar_sem r)"
  shows "offset_ok (x\<lparr>sr_run := r\<rparr>) off"
  using assms unfolding offset_ok_def keeps_older_def by (fastforce intro: order_trans)

text \<open>Each call that is not a release.\<close>

lemma call_ok:
  assumes b: "books_ok off (ar_sem r)" and p: "waits_ok r" and n: "\<And>i. ev \<noteq> Acc_release i"
  shows "books_ok off (ar_sem (acc_step r (now, ev))) \<and> waits_ok (acc_step r (now, ev))
    \<and> keeps_older (ar_sem r) (ar_sem (acc_step r (now, ev)))"
proof -
  let ?s = "ar_sem r"
  have keep: "waits_ok (r\<lparr>ar_sem := s'\<rparr>)" if "acc_promised s' = acc_promised ?s" "ac_next ?s \<le> ac_next s'" for s'
    using that p by (fastforce simp: waits_ok_def)
  show ?thesis
  proof (cases ev)
    case (Acc_acquire reqs sg ab mq)
    obtain oc s' where a: "acquireMany now reqs sg ab mq ?s = (oc, s')" by (cases "acquireMany now reqs sg ab mq ?s")
    have "waits_ok (acc_step r (now, ev))"
      using acquireMany_inv [OF b a] p unfolding Acc_acquire by (cases oc) (fastforce simp: a waits_ok_def)+
    then show ?thesis
      using acquireMany_inv [OF b a] acquireMany_older [OF b, of now reqs sg ab mq] unfolding Acc_acquire by (simp add: a)
  next
    case (Acc_fail err i)
    then show ?thesis using fail_inv [OF b, of now err i] fail_older [OF b, of now err i] keep by simp
  next
    case (Acc_block k u)
    then show ?thesis using markBlocked_inv [OF b, of now k u] markBlocked_older [of ?s now k u] keep by simp
  next
    case (Acc_unblock k)
    then show ?thesis using unblock_inv [OF b, of now k] unblock_older [OF b, of now k] keep by simp
  next
    case (Acc_cleanup k)
    then show ?thesis using cleanup_fires_inv [OF b, of now k] cleanup_fires_older [of ?s now k] keep by simp
  qed (use n in simp)
qed

lemma release_ok:
  assumes b: "books_ok off (ar_sem (sr_run x))" and p: "waits_ok (sr_run x)" and o: "offset_ok x off"
  shows "sem_ok (account_step x (now, Sem_call (Acc_release i)))"
proof (cases "map_get (ac_leases (ar_sem (sr_run x))) i")
  case None
  then have "late_release (Acc_release i) x = (\<lambda>_. False)" by (simp add: late_release_def fun_eq_iff)
  then show ?thesis using assms None by (auto simp: sem_ok_def release_composite_def offset_ok_def)
next
  case (Some ks)
  let ?s = "ar_sem (sr_run x)" and ?x = "account_step x (now, Sem_call (Acc_release i))"
  note r = release_composite_books [OF b Some, of now]
  have late: "sr_late ?x k = sr_late x k + (if k \<in> set ks \<and> i < sr_since x k then 1 else 0)" for k
    by (simp add: late_release_def Some)
  have old: "older (sr_since x k) (ar_sem (sr_run ?x)) k = older (sr_since x k) ?s k - (if k \<in> set ks \<and> i < sr_since x k then 1 else 0)" for k
    using release_older [OF b Some, of "sr_since x k" now k] o by (simp add: offset_ok_def)
  have "offset_ok ?x (after_release ?s ks off)"
    unfolding offset_ok_def
  proof (intro allI)
    fix k
    have k: "sr_since x k \<le> ac_next ?s" "off k + older (sr_since x k) ?s k \<le> 0" "0 \<le> off k + older (sr_since x k) ?s k + int (sr_late x k)"
      using o by (simp_all add: offset_ok_def)
    have "older (sr_since x k) ?s k < held ?s k" if "k \<in> set ks" "\<not> i < sr_since x k"
    proof -
      have "(i, ks) \<in> set (filter (\<lambda>p. sr_since x k \<le> fst p \<and> k \<in> set (snd p)) (ac_leases ?s))"
        using map_of_SomeD [OF Some] that by simp
      then have "0 < length (filter (\<lambda>p. sr_since x k \<le> fst p \<and> k \<in> set (snd p)) (ac_leases ?s))" by (rule length_pos_if_in_set)
      then show ?thesis using held_split [of ?s k "sr_since x k"] by linarith
    qed
    then show "sr_since ?x k \<le> ac_next (ar_sem (sr_run ?x)) \<and> after_release ?s ks off k + older (sr_since ?x k) (ar_sem (sr_run ?x)) k \<le> 0
      \<and> 0 \<le> after_release ?s ks off k + older (sr_since ?x k) (ar_sem (sr_run ?x)) k + int (sr_late ?x k)"
      using k r old [of k] late [of k] by (auto simp: after_release_def)
  qed
  then show ?thesis using r p by (fastforce simp: sem_ok_def waits_ok_def)
qed

lemma account_step_ok:
  assumes "sem_ok x"
  shows "sem_ok (account_step x ev)"
proof -
  obtain off where b: "books_ok off (ar_sem (sr_run x))" and o: "offset_ok x off" and p: "waits_ok (sr_run x)"
    using assms by (auto simp: sem_ok_def)
  let ?s = "ar_sem (sr_run x)"
  have keep: "waits_ok ((sr_run x)\<lparr>ar_sem := s'\<rparr>)" if "acc_promised s' = acc_promised ?s" "keeps_older ?s s'" for s'
    using that p by (fastforce simp: waits_ok_def keeps_older_def)
  obtain now e where ev: "ev = (now, e)" by (cases ev)
  show ?thesis
  proof (cases e)
    case (Sem_call c)
    show ?thesis
    proof (cases "\<exists>i. c = Acc_release i")
      case True
      then show ?thesis using release_ok [OF b p o] ev Sem_call by blast
    next
      case False
      then have "late_release c x = (\<lambda>_. False)" by (auto simp: late_release_def fun_eq_iff split: acc_event.split)
      then have e: "account_step x ev = x\<lparr>sr_run := acc_step (sr_run x) (now, c)\<rparr>" by (simp add: ev Sem_call)
      note c = call_ok [OF b p, of c now] False
      then show ?thesis unfolding e sem_ok_def using offset_kept [OF o] by auto
    qed
  next
    case (Sem_orphan k)
    have "offset_ok (account_step x ev) off" using offset_kept [OF o, of "(sr_run x)\<lparr>ar_sem := cleanupGateIfIdle now k ?s\<rparr>"] cleanup_older
      by (simp add: ev Sem_orphan)
    then show ?thesis using cleanup_idle_inv [OF b, of now k] keep [OF _ cleanup_older, of now k] by (auto simp: sem_ok_def ev Sem_orphan)
  next
    case (Sem_reset k)
    note r = reset_gate_ok [OF b, of k now]
    have "older (ac_next ?s) ?s k = held ?s k"
    proof -
      have "filter (\<lambda>p. ac_next ?s \<le> fst p \<and> k \<in> set (snd p)) (ac_leases ?s) = []"
        using b by (auto simp: books_ok_def requests_ok_def filter_empty_conv)
      then show ?thesis using held_split [of ?s k "ac_next ?s"] by simp
    qed
    moreover have "older n (reset_gate now k ?s) j = older n ?s j" if "n \<le> ac_next ?s" for n j
      using r that by (simp add: keeps_older_def)
    moreover have "ac_next ?s \<le> ac_next (reset_gate now k ?s)" using r by (simp add: keeps_older_def)
    ultimately have "offset_ok (account_step x ev) (off(k := - held ?s k))"
      using o by (auto simp: offset_ok_def ev Sem_reset intro: order_trans)
    then show ?thesis using r keep by (auto simp: sem_ok_def ev Sem_reset)
  next
    case Sem_reset_all
    note r = reset_all_ok [OF b]
    have "older (ac_next ?s) ?s k = held ?s k" for k
    proof -
      have "filter (\<lambda>p. ac_next ?s \<le> fst p \<and> k \<in> set (snd p)) (ac_leases ?s) = []"
        using b by (auto simp: books_ok_def requests_ok_def filter_empty_conv)
      then show ?thesis using held_split [of ?s k "ac_next ?s"] by simp
    qed
    moreover have "older (ac_next ?s) (reset_account_sem ?s) j = older (ac_next ?s) ?s j" for j
      using r by (simp add: keeps_older_def)
    moreover have "ac_next ?s \<le> ac_next (reset_account_sem ?s)" using r by (simp add: keeps_older_def)
    ultimately have "offset_ok (account_step x ev) (\<lambda>k. - held ?s k)"
      by (simp add: offset_ok_def ev Sem_reset_all)
    then show ?thesis using r keep by (auto simp: sem_ok_def ev Sem_reset_all)
  qed
qed

interpretation resettable: step_invariant account_step "\<lambda>_. True" sem_ok
  by unfold_locales (rule account_step_ok)

lemma start_account_ok: "sem_ok start_account"
  using start_acc_ok by (auto simp: sem_ok_def waits_ok_def acc_run_ok_def start_account_def offset_ok_def older_def
      start_acc_def new_account_sem_def intro!: exI [of _ "\<lambda>_. 0"])

text \<open>
  C10: The books of the hierarchical semaphore after any run of acquisitions, releases (repeated ones too), timeouts, aborts,
  blocks, cleanups (timers of dropped gates included) and resets of one key or of all. Each gate queues exactly the waiting
  requests that want its key, in the order they arrived, and counts at most the leases of the key that were taken since its
  last reset and are out. It counts as many, less at most one for each lease from before that reset which was released since:
  exactly the leases that are out when the key was never reset, or when nothing from before the reset has come back. A key
  without a gate counts as nothing. Every promise handed out is waiting or was settled exactly once, also by a reset.
\<close>

theorem account_books_across_resets:
  "let x = foldl account_step start_account evs; s = ar_sem (sr_run x) in
   (\<forall>k. case map_get (ac_gates s) k of
          None \<Rightarrow> wants s k = [] \<and> fresh x k \<le> int (sr_late x k)
        | Some g \<Rightarrow> ag_queue g = wants s k \<and> ag_running g \<le> fresh x k \<and> fresh x k \<le> ag_running g + int (sr_late x k))
   \<and> distinct (map fst (ac_settled s))
   \<and> set (ar_waits (sr_run x)) = set (ac_queued s) \<union> fst ` set (ac_settled s)
   \<and> set (ac_queued s) \<inter> fst ` set (ac_settled s) = {}"
proof -
  define x where "x = foldl account_step start_account evs"
  let ?s = "ar_sem (sr_run x)"
  have "sem_ok x" unfolding x_def by (rule resettable.run_inv [OF start_account_ok]) (simp add: list_all_iff)
  then obtain off where b: "books_ok off ?s" and o: "offset_ok x off" and p: "waits_ok (sr_run x)"
    by (auto simp: sem_ok_def)
  have m: "mset (ar_waits (sr_run x)) = mset (ac_queued ?s @ map fst (ac_settled ?s))" and "distinct (ar_waits (sr_run x))"
    using p by (simp_all add: waits_ok_def acc_promised_def)
  then have d: "distinct (ac_queued ?s @ map fst (ac_settled ?s))" using mset_eq_imp_distinct_iff by blast
  have e: "set (ar_waits (sr_run x)) = set (ac_queued ?s) \<union> fst ` set (ac_settled ?s)"
    using mset_eq_setD [OF m] by simp
  have "case map_get (ac_gates ?s) k of None \<Rightarrow> wants ?s k = [] \<and> fresh x k \<le> int (sr_late x k)
        | Some g \<Rightarrow> ag_queue g = wants ?s k \<and> ag_running g \<le> fresh x k \<and> fresh x k \<le> ag_running g + int (sr_late x k)" for k
  proof -
    have "held ?s k = older (sr_since x k) ?s k + fresh x k" unfolding fresh_def by (rule held_split)
    moreover have "off k + older (sr_since x k) ?s k \<le> 0 \<and> 0 \<le> off k + older (sr_since x k) ?s k + int (sr_late x k)"
      using o by (simp add: offset_ok_def)
    moreover have "book_ok (wants ?s k) (held ?s k + off k) (map_get (ac_gates ?s) k)"
      using b by (simp add: books_ok_def gates_match_def)
    ultimately show ?thesis by (cases "map_get (ac_gates ?s) k") auto
  qed
  then show ?thesis using d e unfolding x_def [symmetric] Let_def by simp
qed

end
