(* ===== verification/LockoutPolicy.thy ===== *)
theory LockoutPolicy
  imports Prelude
begin

text \<open>
  Account lockout: \<^verbatim>\<open>src/src/domain/lockoutPolicy.ts\<close> and the rows of
  \<^verbatim>\<open>src/src/lib/db/domainState.ts\<close> it writes through to. A state object is shared by the cache and
  the caller, and every operation that changes it stores it back before it returns, so the cache
  holds it by value. A database that throws is \<open>lk_up = False\<close>: the source swallows its errors.
  Attempts are times in milliseconds; a restart of the process empties the cache.
\<close>

subsection \<open>State\<close>

record lock_entry =
  le_attempts :: "int list"
  le_lockedUntil :: "int option"

record lockout_config =
  lc_maxAttempts :: int
  lc_lockoutDurationMs :: int
  lc_attemptWindowMs :: int

record lockout =
  lk_cache :: "(string, lock_entry) js_map"
  lk_rows :: "(string, lock_entry) js_map"
  lk_up :: bool

record lock_answer =
  la_locked :: bool
  la_remainingMs :: "int option"
  la_attempts :: "nat option"

definition DEFAULT_LOCKOUT_CONFIG :: lockout_config where
  "DEFAULT_LOCKOUT_CONFIG =
     \<lparr>lc_maxAttempts = 5, lc_lockoutDurationMs = 15 * 60 * 1000, lc_attemptWindowMs = 5 * 60 * 1000\<rparr>"

definition new_lockout :: lockout where
  "new_lockout = \<lparr>lk_cache = [], lk_rows = [], lk_up = True\<rparr>"

subsection \<open>The rows\<close>

definition saveLockoutState :: "string \<Rightarrow> lock_entry \<Rightarrow> lockout \<Rightarrow> lockout" where
  "saveLockoutState k e s = (if lk_up s then s\<lparr>lk_rows := map_set k e (lk_rows s)\<rparr> else s)"

definition loadLockoutState :: "string \<Rightarrow> lockout \<Rightarrow> lock_entry option" where
  "loadLockoutState k s = (if lk_up s then map_get (lk_rows s) k else None)"

definition deleteLockoutState :: "string \<Rightarrow> lockout \<Rightarrow> lockout" where
  "deleteLockoutState k s = (if lk_up s then s\<lparr>lk_rows := map_delete k (lk_rows s)\<rparr> else s)"

definition loadAllLockedIdentifiers :: "int \<Rightarrow> lockout \<Rightarrow> (string \<times> int) list" where
  "loadAllLockedIdentifiers now s =
     (if lk_up s
      then filter (\<lambda>(k, u). k \<noteq> [])
             (map (\<lambda>(k, e). (k, nullish (le_lockedUntil e) 0))
               (filter (\<lambda>(k, e). case le_lockedUntil e of None \<Rightarrow> False | Some u \<Rightarrow> now < u) (lk_rows s)))
      else [])"

subsection \<open>Operations\<close>

definition getState :: "string \<Rightarrow> lockout \<Rightarrow> lock_entry option \<times> lockout" where
  "getState k s =
     (case map_get (lk_cache s) k of
        Some e \<Rightarrow> (Some e, s)
      | None \<Rightarrow>
          (case loadLockoutState k s of
             Some e \<Rightarrow> (Some e, s\<lparr>lk_cache := map_set k e (lk_cache s)\<rparr>)
           | None \<Rightarrow> (None, s)))"

definition persistState :: "string \<Rightarrow> lock_entry \<Rightarrow> lockout \<Rightarrow> lockout" where
  "persistState k e s = saveLockoutState k e (s\<lparr>lk_cache := map_set k e (lk_cache s)\<rparr>)"

definition recent_attempts :: "int \<Rightarrow> lockout_config \<Rightarrow> int list \<Rightarrow> int list" where
  "recent_attempts now cfg ts = (let windowStart = now - lc_attemptWindowMs cfg in filter (\<lambda>t. windowStart < t) ts)"

definition checkLockout :: "int \<Rightarrow> lockout_config \<Rightarrow> string \<Rightarrow> lockout \<Rightarrow> lock_answer \<times> lockout" where
  "checkLockout now cfg k s0 =
     (case getState k s0 of
        (None, s) \<Rightarrow> (\<lparr>la_locked = False, la_remainingMs = None, la_attempts = Some 0\<rparr>, s)
      | (Some e, s) \<Rightarrow>
          if truthy (le_lockedUntil e) \<and> now < nullish (le_lockedUntil e) 0
          then (\<lparr>la_locked = True, la_remainingMs = Some (nullish (le_lockedUntil e) 0 - now),
                 la_attempts = Some (length (le_attempts e))\<rparr>, s)
          else
            let (e1, s1) = (if truthy (le_lockedUntil e)
                  then let e1 = e\<lparr>le_lockedUntil := None, le_attempts := []\<rparr> in (e1, persistState k e1 s)
                  else (e, s));
                recent = recent_attempts now cfg (le_attempts e1);
                e2 = e1\<lparr>le_attempts := recent\<rparr>
            in (\<lparr>la_locked = False, la_remainingMs = None, la_attempts = Some (length recent)\<rparr>, persistState k e2 s1))"

definition recordFailedAttempt :: "int \<Rightarrow> lockout_config \<Rightarrow> string \<Rightarrow> lockout \<Rightarrow> lock_answer \<times> lockout" where
  "recordFailedAttempt now cfg k s0 =
     (let (st, s) = getState k s0;
          e = nullish st \<lparr>le_attempts = [], le_lockedUntil = None\<rparr>;
          e1 = e\<lparr>le_attempts := recent_attempts now cfg (le_attempts e) @ [now]\<rparr>
      in if lc_maxAttempts cfg \<le> int (length (le_attempts e1))
         then (\<lparr>la_locked = True, la_remainingMs = Some (lc_lockoutDurationMs cfg), la_attempts = None\<rparr>,
               persistState k (e1\<lparr>le_lockedUntil := Some (now + lc_lockoutDurationMs cfg)\<rparr>) s)
         else (\<lparr>la_locked = False, la_remainingMs = None, la_attempts = None\<rparr>, persistState k e1 s))"

definition recordSuccess :: "string \<Rightarrow> lockout \<Rightarrow> lockout" where
  "recordSuccess k s = deleteLockoutState k (s\<lparr>lk_cache := map_delete k (lk_cache s)\<rparr>)"

definition forceUnlock :: "string \<Rightarrow> lockout \<Rightarrow> lockout" where
  "forceUnlock k s = deleteLockoutState k (s\<lparr>lk_cache := map_delete k (lk_cache s)\<rparr>)"

definition cache_locked :: "(string, lock_entry) js_map \<Rightarrow> string \<times> int \<Rightarrow> (string, lock_entry) js_map" where
  "cache_locked c p =
     (if map_has c (fst p) then c
      else map_set (fst p) \<lparr>le_attempts = [], le_lockedUntil = Some (snd p)\<rparr> c)"

definition getLockedIdentifiers :: "int \<Rightarrow> lockout \<Rightarrow> (string \<times> int \<times> int) list \<times> lockout" where
  "getLockedIdentifiers now s =
     (let c = foldl cache_locked (lk_cache s) (loadAllLockedIdentifiers now s)
      in (map (\<lambda>(k, e). (k, nullish (le_lockedUntil e) 0, nullish (le_lockedUntil e) 0 - now))
            (filter (\<lambda>(k, e). truthy (le_lockedUntil e) \<and> now < nullish (le_lockedUntil e) 0) c),
          s\<lparr>lk_cache := c\<rparr>))"

text \<open>The process starts over: the cache is empty, the rows stay.\<close>

definition restart_lockout :: "lockout \<Rightarrow> lockout" where
  "restart_lockout s = s\<lparr>lk_cache := []\<rparr>"

subsection \<open>The write-through contract\<close>

text \<open>What the store holds of an identifier, and that the cache is a part of the rows.\<close>

definition lock_view :: "lockout \<Rightarrow> string \<Rightarrow> lock_entry option" where
  "lock_view s k = (case map_get (lk_cache s) k of Some e \<Rightarrow> Some e | None \<Rightarrow> loadLockoutState k s)"

definition lockout_synced :: "lockout \<Rightarrow> bool" where
  "lockout_synced s \<longleftrightarrow> lk_up s \<and> (\<forall>k e. map_get (lk_cache s) k = Some e \<longrightarrow> map_get (lk_rows s) k = Some e)"

lemma getState_view: "fst (getState k s) = lock_view s k"
  by (simp add: getState_def lock_view_def split: option.split)

lemma synced_view: "lockout_synced s \<Longrightarrow> lock_view s = map_get (lk_rows s)"
  by (rule ext) (auto simp: lockout_synced_def lock_view_def loadLockoutState_def split: option.split)

lemma getState_keeps:
  assumes "lockout_synced s"
  shows "lockout_synced (snd (getState k s))" and "lock_view (snd (getState k s)) = lock_view s"
proof -
  show ok: "lockout_synced (snd (getState k s))"
    using assms by (auto simp: getState_def lockout_synced_def loadLockoutState_def split: option.split)
  have "lk_rows (snd (getState k s)) = lk_rows s" by (simp add: getState_def split: option.split)
  then show "lock_view (snd (getState k s)) = lock_view s" by (simp add: synced_view assms ok)
qed

lemma persist_synced: "lockout_synced s \<Longrightarrow> lockout_synced (persistState k e s) \<and> lock_view (persistState k e s) = (lock_view s)(k \<mapsto> e)"
proof -
  assume s: "lockout_synced s"
  then have "lockout_synced (persistState k e s)" and r: "lk_rows (persistState k e s) = map_set k e (lk_rows s)"
    by (auto simp: persistState_def saveLockoutState_def lockout_synced_def)
  then show ?thesis by (simp add: synced_view s fun_eq_iff)
qed

lemma forget_synced: "lockout_synced s \<Longrightarrow> lockout_synced (recordSuccess k s) \<and> lock_view (recordSuccess k s) = (lock_view s)(k := None)"
proof -
  assume s: "lockout_synced s"
  then have "lockout_synced (recordSuccess k s)" and r: "lk_rows (recordSuccess k s) = map_delete k (lk_rows s)"
    by (auto simp: recordSuccess_def deleteLockoutState_def lockout_synced_def)
  then show ?thesis by (simp add: synced_view s fun_eq_iff)
qed

lemma restart_synced: "lockout_synced s \<Longrightarrow> lockout_synced (restart_lockout s) \<and> lock_view (restart_lockout s) = lock_view s"
proof -
  assume s: "lockout_synced s"
  then have "lockout_synced (restart_lockout s)" by (simp add: restart_lockout_def lockout_synced_def)
  then show ?thesis using s by (simp add: synced_view) (simp add: restart_lockout_def)
qed

interpretation lockout_store: write_through lock_view lockout_synced persistState recordSuccess restart_lockout
  by unfold_locales (blast dest: persist_synced forget_synced restart_synced)+

subsection \<open>The ledger\<close>

text \<open>The lockout of one identifier, without cache and database.\<close>

fun entry_check :: "int \<Rightarrow> lockout_config \<Rightarrow> lock_entry option \<Rightarrow> lock_answer \<times> lock_entry option" where
  "entry_check now cfg None = (\<lparr>la_locked = False, la_remainingMs = None, la_attempts = Some 0\<rparr>, None)"
| "entry_check now cfg (Some e) =
     (if truthy (le_lockedUntil e) \<and> now < nullish (le_lockedUntil e) 0
      then (\<lparr>la_locked = True, la_remainingMs = Some (nullish (le_lockedUntil e) 0 - now),
             la_attempts = Some (length (le_attempts e))\<rparr>, Some e)
      else
        let ts = (if truthy (le_lockedUntil e) then [] else recent_attempts now cfg (le_attempts e))
        in (\<lparr>la_locked = False, la_remainingMs = None, la_attempts = Some (length ts)\<rparr>,
            Some \<lparr>le_attempts = ts, le_lockedUntil = (if truthy (le_lockedUntil e) then None else le_lockedUntil e)\<rparr>))"

definition entry_fail :: "int \<Rightarrow> lockout_config \<Rightarrow> lock_entry option \<Rightarrow> lock_answer \<times> lock_entry" where
  "entry_fail now cfg st =
     (let ts = (case st of None \<Rightarrow> [] | Some e \<Rightarrow> recent_attempts now cfg (le_attempts e)) @ [now];
          full = lc_maxAttempts cfg \<le> int (length ts)
      in (\<lparr>la_locked = full, la_remainingMs = (if full then Some (lc_lockoutDurationMs cfg) else None), la_attempts = None\<rparr>,
          \<lparr>le_attempts = ts, le_lockedUntil = (if full then Some (now + lc_lockoutDurationMs cfg)
             else Option.bind st le_lockedUntil)\<rparr>))"

datatype lock_event = Lk_check string | Lk_fail string | Lk_success string | Lk_unlock string | Lk_restart

fun lock_step :: "lockout_config \<Rightarrow> lockout \<Rightarrow> int \<times> lock_event \<Rightarrow> lock_answer option \<times> lockout" where
  "lock_step cfg s (now, Lk_check k) = (let (a, s1) = checkLockout now cfg k s in (Some a, s1))"
| "lock_step cfg s (now, Lk_fail k) = (let (a, s1) = recordFailedAttempt now cfg k s in (Some a, s1))"
| "lock_step cfg s (now, Lk_success k) = (None, recordSuccess k s)"
| "lock_step cfg s (now, Lk_unlock k) = (None, forceUnlock k s)"
| "lock_step cfg s (now, Lk_restart) = (None, restart_lockout s)"

fun lock_run :: "lockout_config \<Rightarrow> lockout \<Rightarrow> (int \<times> lock_event) list \<Rightarrow> lock_answer option list \<times> lockout" where
  "lock_run cfg s [] = ([], s)"
| "lock_run cfg s (ev # evs) =
     (let (a, s1) = lock_step cfg s ev; (as, s2) = lock_run cfg s1 evs in (a # as, s2))"

text \<open>The ledger is a map; it knows no restarts.\<close>

fun ledger_step :: "lockout_config \<Rightarrow> (string \<Rightarrow> lock_entry option) \<Rightarrow> int \<times> lock_event \<Rightarrow> lock_answer option \<times> (string \<Rightarrow> lock_entry option)" where
  "ledger_step cfg m (now, Lk_check k) = (let (a, e) = entry_check now cfg (m k) in (Some a, m(k := e)))"
| "ledger_step cfg m (now, Lk_fail k) = (let (a, e) = entry_fail now cfg (m k) in (Some a, m(k \<mapsto> e)))"
| "ledger_step cfg m (now, Lk_success k) = (None, m(k := None))"
| "ledger_step cfg m (now, Lk_unlock k) = (None, m(k := None))"
| "ledger_step cfg m (now, Lk_restart) = (None, m)"

fun ledger_run :: "lockout_config \<Rightarrow> (string \<Rightarrow> lock_entry option) \<Rightarrow> (int \<times> lock_event) list \<Rightarrow> lock_answer option list \<times> (string \<Rightarrow> lock_entry option)" where
  "ledger_run cfg m [] = ([], m)"
| "ledger_run cfg m (ev # evs) =
     (let (a, m1) = ledger_step cfg m ev; (as, m2) = ledger_run cfg m1 evs in (a # as, m2))"

lemma check_refines:
  assumes s: "lockout_synced s"
  shows "fst (checkLockout now cfg k s) = fst (entry_check now cfg (lock_view s k))
    \<and> lockout_synced (snd (checkLockout now cfg k s))
    \<and> lock_view (snd (checkLockout now cfg k s)) = (lock_view s)(k := snd (entry_check now cfg (lock_view s k)))"
proof -
  obtain st s1 where g: "getState k s = (st, s1)" by (cases "getState k s")
  have st: "st = lock_view s k" using getState_view [of k s] g by simp
  have s1: "lockout_synced s1" "lock_view s1 = lock_view s" using getState_keeps [OF s, of k] g by simp_all
  show ?thesis
  proof (cases st)
    case None
    then show ?thesis using g st s1 by (simp add: checkLockout_def fun_eq_iff)
  next
    case (Some e)
    have v: "lock_view s k = Some e" using st Some by simp
    note p = lockout_store.put_law [OF s1(1)]
    show ?thesis
    proof (cases "truthy (le_lockedUntil e)")
      case True
      then show ?thesis
        using g Some v s1 p lockout_store.put_law [OF conjunct1 [OF p]]
        by (cases e) (simp add: checkLockout_def recent_attempts_def Let_def fun_eq_iff)
    next
      case False
      then show ?thesis using g Some v s1 p by (cases e) (simp add: checkLockout_def Let_def fun_eq_iff)
    qed
  qed
qed

lemma fail_refines:
  assumes s: "lockout_synced s"
  shows "fst (recordFailedAttempt now cfg k s) = fst (entry_fail now cfg (lock_view s k))
    \<and> lockout_synced (snd (recordFailedAttempt now cfg k s))
    \<and> lock_view (snd (recordFailedAttempt now cfg k s)) = (lock_view s)(k \<mapsto> snd (entry_fail now cfg (lock_view s k)))"
proof -
  obtain st s1 where g: "getState k s = (st, s1)" by (cases "getState k s")
  have st: "lock_view s k = st" using getState_view [of k s] g by simp
  have s1: "lockout_synced s1" "lock_view s1 = lock_view s" using getState_keeps [OF s, of k] g by simp_all
  note p = lockout_store.put_law [OF s1(1)]
  show ?thesis
  proof (cases st)
    case None
    then show ?thesis using g st s1 p by (simp add: recordFailedAttempt_def entry_fail_def recent_attempts_def Let_def)
  next
    case (Some e)
    then show ?thesis using g st s1 p
      by (cases e) (simp add: recordFailedAttempt_def entry_fail_def Let_def)
  qed
qed

lemma unlock_is_success: "forceUnlock k s = recordSuccess k s"
  by (simp add: forceUnlock_def recordSuccess_def)

lemma lock_step_refines:
  assumes s: "lockout_synced s"
  shows "fst (lock_step cfg s ev) = fst (ledger_step cfg (lock_view s) ev)
    \<and> lockout_synced (snd (lock_step cfg s ev))
    \<and> lock_view (snd (lock_step cfg s ev)) = snd (ledger_step cfg (lock_view s) ev)"
proof -
  obtain now e where ev: "ev = (now, e)" by (cases ev)
  show ?thesis
    using check_refines [OF s, of now cfg] fail_refines [OF s, of now cfg] lockout_store.forget_law [OF s]
      lockout_store.restart_law [OF s]
    by (cases e) (simp_all add: ev split_beta unlock_is_success)
qed

lemma lock_run_refines:
  "lockout_synced s \<Longrightarrow> fst (lock_run cfg s evs) = fst (ledger_run cfg (lock_view s) evs)
    \<and> lockout_synced (snd (lock_run cfg s evs)) \<and> lock_view (snd (lock_run cfg s evs)) = snd (ledger_run cfg (lock_view s) evs)"
proof (induction evs arbitrary: s)
  case (Cons ev evs)
  then show ?case using lock_step_refines [OF Cons.prems, of cfg ev] by (simp add: split_beta)
qed simp

lemma new_lockout_view: "lockout_synced new_lockout" "lock_view new_lockout = (\<lambda>_. None)"
  by (simp_all add: new_lockout_def lockout_synced_def lock_view_def loadLockoutState_def fun_eq_iff)

subsection \<open>Properties\<close>

text \<open>
  C11: The lockout state survives restarts: in any sequence of checks, failed attempts, successes,
  unlocks and restarts at any point, with the database answering, every answer is the one a ledger
  gives that is a plain map and never loses anything. The cache and the rows it writes through to
  cannot be told from the map, so a restart neither frees a locked account nor forgets an attempt.
\<close>

theorem lockout_refines_ledger:
  "fst (lock_run cfg new_lockout evs) = fst (ledger_run cfg (\<lambda>_. None) evs)
   \<and> lock_view (snd (lock_run cfg new_lockout evs)) = snd (ledger_run cfg (\<lambda>_. None) evs)"
  using lock_run_refines [OF new_lockout_view(1), of cfg evs] by (simp add: new_lockout_view)

text \<open>
  A failed attempt locks the identifier exactly when it is the last of the configured number
  within the attempt window, and only that identifier; the lock holds, through a restart too, for
  exactly the configured duration, with the remaining time reported at every check, and when it ends
  the count of attempts starts from zero.
\<close>

theorem lock_lasts_its_duration:
  assumes "lockout_synced s" and "0 \<le> now" and "0 < lc_lockoutDurationMs cfg"
    and "(a, s1) = recordFailedAttempt now cfg k s"
    and "ts = (case lock_view s k of None \<Rightarrow> [] | Some e \<Rightarrow> filter (\<lambda>t. now - lc_attemptWindowMs cfg < t) (le_attempts e))"
    and "until = now + lc_lockoutDurationMs cfg"
  shows "(la_locked a \<longleftrightarrow> lc_maxAttempts cfg \<le> int (length ts) + 1)
    \<and> (la_locked a \<longrightarrow> (\<forall>t. let c = fst (checkLockout t cfg k (restart_lockout s1)) in
         (la_locked c \<longleftrightarrow> t < until) \<and> (t < until \<longrightarrow> la_remainingMs c = Some (until - t))
         \<and> (until \<le> t \<longrightarrow> la_attempts c = Some 0)))
    \<and> (\<forall>k'. k' \<noteq> k \<longrightarrow> lock_view s1 k' = lock_view s k')"
proof -
  have f: "a = fst (entry_fail now cfg (lock_view s k))" "lockout_synced s1"
    "lock_view s1 = (lock_view s)(k \<mapsto> snd (entry_fail now cfg (lock_view s k)))"
    using fail_refines [OF assms(1), of now cfg k] unfolding assms(4) [symmetric] by simp_all
  have ts: "(case lock_view s k of None \<Rightarrow> [] | Some e \<Rightarrow> recent_attempts now cfg (le_attempts e)) = ts"
    using assms(5) by (simp add: recent_attempts_def split: option.split)
  have l: "la_locked a \<longleftrightarrow> lc_maxAttempts cfg \<le> int (length ts) + 1"
    using ts by (simp add: f(1) entry_fail_def Let_def add.commute)
  have "let c = fst (checkLockout t cfg k (restart_lockout s1)) in
      (la_locked c \<longleftrightarrow> t < until) \<and> (t < until \<longrightarrow> la_remainingMs c = Some (until - t)) \<and> (until \<le> t \<longrightarrow> la_attempts c = Some 0)"
    if locked: "la_locked a" for t
  proof -
    have e: "snd (entry_fail now cfg (lock_view s k)) = \<lparr>le_attempts = ts @ [now], le_lockedUntil = Some until\<rparr>"
      using locked l ts assms(6) by (simp add: entry_fail_def Let_def add.commute)
    note r = lockout_store.restart_law [OF f(2)]
    show ?thesis
      using check_refines [OF conjunct1 [OF r], of t cfg k] assms(2,3,6)
      by (simp add: r f(3) e recent_attempts_def Let_def)
  qed
  then show ?thesis using l f(3) by simp
qed

definition lock_demo :: lockout where
  "lock_demo = snd (lock_run DEFAULT_LOCKOUT_CONFIG new_lockout
     [(1000, Lk_fail ''ip''), (2000, Lk_fail ''ip''), (3000, Lk_restart), (4000, Lk_fail ''ip''), (5000, Lk_fail ''ip'')])"

theorem lock_lasts_its_duration_witness:
  "let (a, s1) = recordFailedAttempt 6000 DEFAULT_LOCKOUT_CONFIG ''ip'' lock_demo in
   la_locked a \<and> la_locked (fst (checkLockout 905999 DEFAULT_LOCKOUT_CONFIG ''ip'' (restart_lockout s1)))
   \<and> la_attempts (fst (checkLockout 906000 DEFAULT_LOCKOUT_CONFIG ''ip'' (restart_lockout s1))) = Some 0"
proof -
  obtain a s1 where a: "(a, s1) = recordFailedAttempt 6000 DEFAULT_LOCKOUT_CONFIG ''ip'' lock_demo" by (metis surj_pair)
  have ok: "lockout_synced lock_demo"
    unfolding lock_demo_def by (rule conjunct1 [OF conjunct2 [OF lock_run_refines [OF new_lockout_view(1)]]])
  have v: "lock_view lock_demo ''ip'' = Some \<lparr>le_attempts = [1000, 2000, 4000, 5000], le_lockedUntil = None\<rparr>"
    unfolding lock_demo_def by code_simp
  show ?thesis
    using lock_lasts_its_duration [OF ok _ _ a refl refl]
    unfolding a [symmetric] Let_def by (simp add: v DEFAULT_LOCKOUT_CONFIG_def)
qed

lemma cache_locked_keeps: "map_of c k = Some e \<Longrightarrow> map_of (foldl cache_locked c ps) k = Some e"
proof (induction ps arbitrary: c)
  case (Cons p ps)
  have "map_of (cache_locked c p) k = Some e" using Cons.prems by (auto simp: cache_locked_def)
  then show ?case using Cons.IH by simp
qed simp

lemma cache_locked_lookup:
  "map_of c k = None \<Longrightarrow> map_of (foldl cache_locked c ps) k = map_option (\<lambda>u. \<lparr>le_attempts = [], le_lockedUntil = Some u\<rparr>) (map_of ps k)"
proof (induction ps arbitrary: c)
  case (Cons p ps)
  show ?case
  proof (cases "fst p = k")
    case True
    then have "map_of (cache_locked c p) k = Some \<lparr>le_attempts = [], le_lockedUntil = Some (snd p)\<rparr>"
      using Cons.prems by (auto simp: cache_locked_def)
    from cache_locked_keeps [OF this] show ?thesis using True by (cases p) simp
  next
    case False
    then show ?thesis using Cons by (cases p) (simp add: cache_locked_def)
  qed
qed simp

lemma locked_rows_lookup:
  assumes "lk_up s" and "map_of (lk_rows s) k = Some e" and "le_lockedUntil e = Some u" and "now < u" and "k \<noteq> []"
  shows "map_of (loadAllLockedIdentifiers now s) k = Some u"
proof -
  let ?P = "\<lambda>(k, e). case le_lockedUntil e of None \<Rightarrow> False | Some u \<Rightarrow> now < u"
  have "map_of (filter (\<lambda>(k, u). k \<noteq> []) (map (\<lambda>(k, e). (k, nullish (le_lockedUntil e) 0)) (filter ?P rows))) k = Some u"
    if "map_of rows k = Some e" for rows
    using that
  proof (induction rows)
    case (Cons p rows)
    obtain k' e' where p: "p = (k', e')" by (cases p)
    show ?case
    proof (cases "k' = k")
      case True
      then show ?thesis using Cons.prems p assms(3-5) by simp
    next
      case False
      then show ?thesis using Cons p by (cases "?P p") simp_all
    qed
  qed simp
  then show ?thesis using assms(1,2) by (simp add: loadAllLockedIdentifiers_def)
qed

text \<open>
  Listing the locked identifiers after a restart forgets their attempts: the listing caches each
  locked row without its attempts, and the cache hides the row from then on. A locked identifier whose
  next failed attempt would have extended its lock is then answered as not locked, and its check
  reports no attempts.
\<close>

theorem listing_forgets_attempts:
  assumes "lk_up s" and "lk_cache s = []" and "map_get (lk_rows s) k = Some \<lparr>le_attempts = ts, le_lockedUntil = Some u\<rparr>"
    and "k \<noteq> []" and "0 \<le> now" and "now < u" and "1 < lc_maxAttempts cfg"
    and "lc_maxAttempts cfg \<le> int (length (recent_attempts now cfg ts)) + 1"
    and "s' = snd (getLockedIdentifiers now s)"
  shows "la_attempts (fst (checkLockout now cfg k s)) = Some (length ts)
    \<and> la_locked (fst (recordFailedAttempt now cfg k s))
    \<and> la_attempts (fst (checkLockout now cfg k s')) = Some 0
    \<and> \<not> la_locked (fst (recordFailedAttempt now cfg k s'))"
proof -
  have "map_of (lk_cache s') k = Some \<lparr>le_attempts = [], le_lockedUntil = Some u\<rparr>"
    using cache_locked_lookup [of "[]" k "loadAllLockedIdentifiers now s"] locked_rows_lookup [OF assms(1,3) _ assms(6,4)] assms(2,9)
    by (simp add: getLockedIdentifiers_def Let_def)
  then have "getState k s' = (Some \<lparr>le_attempts = [], le_lockedUntil = Some u\<rparr>, s')" by (simp add: getState_def)
  moreover have "fst (getState k s) = Some \<lparr>le_attempts = ts, le_lockedUntil = Some u\<rparr>"
    using assms(1-3) by (simp add: getState_def loadLockoutState_def)
  ultimately show ?thesis
    using assms(5-8)
    by (simp add: checkLockout_def recordFailedAttempt_def recent_attempts_def Let_def split_beta add.commute)
qed

theorem listing_forgets_attempts_witness:
  "let s = restart_lockout (snd (recordFailedAttempt 6000 DEFAULT_LOCKOUT_CONFIG ''ip'' lock_demo));
       s' = snd (getLockedIdentifiers 7000 s) in
   la_locked (fst (recordFailedAttempt 7000 DEFAULT_LOCKOUT_CONFIG ''ip'' s))
   \<and> \<not> la_locked (fst (recordFailedAttempt 7000 DEFAULT_LOCKOUT_CONFIG ''ip'' s'))"
proof -
  define s where "s = restart_lockout (snd (recordFailedAttempt 6000 DEFAULT_LOCKOUT_CONFIG ''ip'' lock_demo))"
  have "lk_up s" "lk_cache s = []"
    "map_get (lk_rows s) ''ip'' = Some \<lparr>le_attempts = [1000, 2000, 4000, 5000, 6000], le_lockedUntil = Some 906000\<rparr>"
    unfolding s_def lock_demo_def by code_simp+
  then show ?thesis
    using listing_forgets_attempts [of s "''ip''" "[1000, 2000, 4000, 5000, 6000]" 906000 7000 DEFAULT_LOCKOUT_CONFIG _]
    unfolding s_def [symmetric] Let_def by (simp add: DEFAULT_LOCKOUT_CONFIG_def recent_attempts_def)
qed

end
