(* ===== verification/UtcTime.thy ===== *)
theory UtcTime
  imports Prelude
begin

text \<open>
  The part of the standard library's \<open>Date\<close> that the budget windows use: \<open>getUTCFullYear\<close>,
  \<open>getUTCMonth\<close>, \<open>getUTCDate\<close>, \<open>getUTCDay\<close> of a time in milliseconds and \<open>Date.UTC\<close>, which takes
  months and days outside their range. Days count from 1 January 1970; months count from 0.
\<close>

subsection \<open>Days and years\<close>

abbreviation MS_PER_DAY :: int where
  "MS_PER_DAY \<equiv> 86400000"

definition leap_year :: "int \<Rightarrow> bool" where
  "leap_year y \<longleftrightarrow> y mod 4 = 0 \<and> (y mod 100 \<noteq> 0 \<or> y mod 400 = 0)"

definition day_from_year :: "int \<Rightarrow> int" where
  "day_from_year y = 365 * (y - 1970) + (y - 1969) div 4 - (y - 1901) div 100 + (y - 1601) div 400"

definition year_of_day :: "int \<Rightarrow> int" where
  "year_of_day d =
     (let g = 1970 + (400 * d) div 146097
      in if d < day_from_year g then g - 1 else if day_from_year (g + 1) \<le> d then g + 1 else g)"

text \<open>The days of the year before its month \<open>m\<close>; month 12 is the end of the year.\<close>

definition days_before :: "bool \<Rightarrow> int \<Rightarrow> int" where
  "days_before leap m =
     (if m \<le> 0 then 0 else if m = 1 then 31 else
       (if leap then 1 else 0) +
       (if m = 2 then 59 else if m = 3 then 90 else if m = 4 then 120 else if m = 5 then 151
        else if m = 6 then 181 else if m = 7 then 212 else if m = 8 then 243 else if m = 9 then 273
        else if m = 10 then 304 else if m = 11 then 334 else 365))"

definition month_of :: "bool \<Rightarrow> int \<Rightarrow> int" where
  "month_of leap n =
     (if n < days_before leap 1 then 0 else if n < days_before leap 2 then 1 else if n < days_before leap 3 then 2
      else if n < days_before leap 4 then 3 else if n < days_before leap 5 then 4 else if n < days_before leap 6 then 5
      else if n < days_before leap 7 then 6 else if n < days_before leap 8 then 7 else if n < days_before leap 9 then 8
      else if n < days_before leap 10 then 9 else if n < days_before leap 11 then 10 else 11)"

definition utc_day_of :: "int \<Rightarrow> int" where
  "utc_day_of t = t div MS_PER_DAY"

definition getUTCFullYear :: "int \<Rightarrow> int" where
  "getUTCFullYear t = year_of_day (utc_day_of t)"

definition getUTCMonth :: "int \<Rightarrow> int" where
  "getUTCMonth t = (let y = getUTCFullYear t in month_of (leap_year y) (utc_day_of t - day_from_year y))"

definition getUTCDate :: "int \<Rightarrow> int" where
  "getUTCDate t = (let y = getUTCFullYear t in utc_day_of t - day_from_year y - days_before (leap_year y) (getUTCMonth t) + 1)"

definition getUTCDay :: "int \<Rightarrow> int" where
  "getUTCDay t = (utc_day_of t + 4) mod 7"

definition utc_days :: "int \<Rightarrow> int \<Rightarrow> int \<Rightarrow> int" where
  "utc_days y m d = (let yy = y + m div 12 in day_from_year yy + days_before (leap_year yy) (m mod 12) + d - 1)"

definition Date_UTC :: "int \<Rightarrow> int \<Rightarrow> int \<Rightarrow> int \<Rightarrow> int \<Rightarrow> int" where
  "Date_UTC y m d hours minutes = utc_days y m d * MS_PER_DAY + hours * 3600000 + minutes * 60000"

subsection \<open>The calendar is right\<close>

lemma div_next: "0 < n \<Longrightarrow> (z + 1) div n = z div n + (if (z + 1) mod n = 0 then 1 else 0)" for z n :: int
proof -
  assume n: "0 < n"
  define q r where "q = z div n" and "r = z mod n"
  have z: "z = q * n + r" "0 \<le> r" "r < n" using n by (simp_all add: q_def r_def)
  show ?thesis
  proof (cases "r + 1 = n")
    case True
    then have e: "z + 1 = (q + 1) * n" using z(1) by (simp add: algebra_simps)
    then have "(z + 1) div n = q + 1" "(z + 1) mod n = 0" using n by simp_all
    then show ?thesis by (simp add: q_def)
  next
    case False
    then have "(z + 1) div n = q" "(z + 1) mod n = r + 1"
      using z n int_div_pos_eq [of "z + 1" n q "r + 1"] int_mod_pos_eq [of "z + 1" n q "r + 1"] by (simp_all add: algebra_simps)
    then show ?thesis using z(2) by (simp add: q_def)
  qed
qed

lemma shift_mod: "n dvd c \<Longrightarrow> (y - c) mod n = y mod n" for n c y :: int
proof -
  assume "n dvd c"
  then obtain q where c: "c = n * q" by blast
  have "(y + n * (- q)) mod n = y mod n" by (rule mod_mult_self2)
  then show ?thesis by (simp add: c)
qed

lemma div_leap: "0 < n \<Longrightarrow> n dvd c \<Longrightarrow> (y - c) div n = (y - (c + 1)) div n + (if y mod n = 0 then 1 else 0)" for n c y :: int
  using div_next [of n "y - (c + 1)"] shift_mod [of n c y] by simp

lemma leap_days:
  "(y - 1968) div 4 = (y - 1969) div 4 + (if y mod 4 = 0 then 1 else 0)"
  "(y - 1900) div 100 = (y - 1901) div 100 + (if y mod 100 = 0 then 1 else 0)"
  "(y - 1600) div 400 = (y - 1601) div 400 + (if y mod 400 = 0 then 1 else 0)" for y :: int
proof -
  have e: "(1968 :: int) + 1 = 1969" "(1900 :: int) + 1 = 1901" "(1600 :: int) + 1 = 1601" by simp_all
  have d: "(0 :: int) < 4" "(4 :: int) dvd 1968" "(0 :: int) < 100" "(100 :: int) dvd 1900" "(0 :: int) < 400" "(400 :: int) dvd 1600"
    by simp_all
  show "(y - 1968) div 4 = (y - 1969) div 4 + (if y mod 4 = 0 then 1 else 0)" using div_leap [OF d(1,2), of y] unfolding e .
  show "(y - 1900) div 100 = (y - 1901) div 100 + (if y mod 100 = 0 then 1 else 0)" using div_leap [OF d(3,4), of y] unfolding e .
  show "(y - 1600) div 400 = (y - 1601) div 400 + (if y mod 400 = 0 then 1 else 0)" using div_leap [OF d(5,6), of y] unfolding e .
qed

lemma year_length: "day_from_year (y + 1) = day_from_year y + (if leap_year y then 366 else 365)"
proof -
  define a b c where "a = (y - 1969) div 4" and "b = (y - 1901) div 100" and "c = (y - 1601) div 400"
  define a' b' c' where "a' = (y - 1968) div 4" and "b' = (y - 1900) div 100" and "c' = (y - 1600) div 400"
  define p q r where "p = (y mod 4 = 0)" and "q = (y mod 100 = 0)" and "r = (y mod 400 = 0)"
  have l: "a' = a + (if p then 1 else 0)" "b' = b + (if q then 1 else 0)" "c' = c + (if r then 1 else 0)"
    unfolding a_def b_def c_def a'_def b'_def c'_def p_def q_def r_def by (rule leap_days)+
  have d: "q \<longrightarrow> p" "r \<longrightarrow> q"
    using mod_mod_cancel [of 4 100 y] mod_mod_cancel [of 100 400 y] unfolding p_def q_def r_def by fastforce+
  have s: "y + 1 - 1969 = y - 1968" "y + 1 - 1901 = y - 1900" "y + 1 - 1601 = y - 1600" by simp_all
  have e: "day_from_year y = 365 * (y - 1970) + a - b + c" by (simp only: day_from_year_def a_def b_def c_def)
  have e': "day_from_year (y + 1) = 365 * (y + 1 - 1970) + a' - b' + c'"
    by (simp only: day_from_year_def a'_def b'_def c'_def s)
  have "leap_year y = (p \<and> (\<not> q \<or> r))" by (simp only: leap_year_def p_def q_def r_def)
  then show ?thesis unfolding e e' l using d by (cases p; cases q; cases r) simp_all
qed

lemma div_bounds: "0 < n \<Longrightarrow> n * (z div n) \<le> z \<and> z < n * (z div n) + n" for z n :: int
  using mult_div_mod_eq [of n z] pos_mod_sign [of n z] pos_mod_bound [of n z] by linarith

lemma day_from_year_bounds:
  "146097 * k - 506 \<le> 400 * day_from_year (1970 + k) \<and> 400 * day_from_year (1970 + k) \<le> 146097 * k + 589"
proof -
  define a b c where "a = (k + 1) div 4" and "b = (k + 69) div 100" and "c = (k + 369) div 400"
  have s: "1970 + k - 1970 = k" "1970 + k - 1969 = k + 1" "1970 + k - 1901 = k + 69" "1970 + k - 1601 = k + 369"
    by simp_all
  have "4 * a \<le> k + 1 \<and> k + 1 < 4 * a + 4" unfolding a_def by (rule div_bounds) simp
  moreover have "100 * b \<le> k + 69 \<and> k + 69 < 100 * b + 100" unfolding b_def by (rule div_bounds) simp
  moreover have "400 * c \<le> k + 369 \<and> k + 369 < 400 * c + 400" unfolding c_def by (rule div_bounds) simp
  moreover have "day_from_year (1970 + k) = 365 * k + a - b + c" by (simp only: day_from_year_def s a_def b_def c_def)
  ultimately show ?thesis by linarith
qed

lemma year_of_day: "day_from_year (year_of_day d) \<le> d \<and> d < day_from_year (year_of_day d + 1)"
proof -
  define k where "k = (400 * d) div 146097"
  have k: "146097 * k \<le> 400 * d \<and> 400 * d < 146097 * k + 146097" unfolding k_def by (rule div_bounds) simp
  define g where "g = 1970 + k"
  have s: "1970 + (k - 1) = g - 1" "1970 + (k + 2) = g + 1 + 1" by (simp_all add: g_def)
  have "day_from_year (g - 1) \<le> d" using conjunct2 [OF day_from_year_bounds [of "k - 1"]] conjunct1 [OF k] unfolding s by simp
  moreover have "d < day_from_year (g + 1 + 1)" using conjunct1 [OF day_from_year_bounds [of "k + 2"]] conjunct2 [OF k] unfolding s by simp
  ultimately show ?thesis unfolding year_of_day_def k_def [symmetric] g_def [symmetric] Let_def by auto
qed

lemma month_of:
  assumes "0 \<le> n" and "n < days_before leap 12"
  shows "days_before leap (month_of leap n) \<le> n \<and> n < days_before leap (month_of leap n + 1)
    \<and> 0 \<le> month_of leap n \<and> month_of leap n < 12"
  using assms by (cases leap) (simp_all add: month_of_def days_before_def)

lemma days_before_year: "days_before leap 12 = (if leap then 366 else 365)"
  by (simp add: days_before_def)

lemma year_mono: "y < y' \<Longrightarrow> day_from_year y < day_from_year y'"
proof (induction y' rule: int_gr_induct)
  case base
  then show ?case using year_length [of y] by (simp split: if_splits)
next
  case (step y')
  then show ?case using year_length [of y'] by (simp split: if_splits)
qed

lemma civil_range:
  fixes t :: int
  defines "y \<equiv> getUTCFullYear t"
  shows "0 \<le> getUTCMonth t \<and> getUTCMonth t < 12 \<and> 1 \<le> getUTCDate t
    \<and> getUTCDate t \<le> days_before (leap_year y) (getUTCMonth t + 1) - days_before (leap_year y) (getUTCMonth t)"
proof -
  let ?d = "utc_day_of t"
  have y: "day_from_year y \<le> ?d" "?d < day_from_year y + days_before (leap_year y) 12"
    using year_of_day [of ?d] year_length [of y] by (simp_all add: y_def getUTCFullYear_def days_before_year split: if_splits)
  then show ?thesis
    using month_of [of "?d - day_from_year y" "leap_year y"]
    by (simp add: getUTCMonth_def getUTCDate_def Let_def y_def)
qed

lemma civil_roundtrip: "utc_days (getUTCFullYear t) (getUTCMonth t) (getUTCDate t) = utc_day_of t"
  using civil_range [of t] by (simp add: utc_days_def getUTCDate_def Let_def)

lemma utc_days_add: "utc_days y m (d + k) = utc_days y m d + k"
  by (simp add: utc_days_def Let_def)

text \<open>The first days of the months, counted through.\<close>

definition month_start :: "int \<Rightarrow> int" where
  "month_start i = utc_days (i div 12) (i mod 12) 1"

definition month_index :: "int \<Rightarrow> int" where
  "month_index t = 12 * getUTCFullYear t + getUTCMonth t"

lemma utc_days_index: "utc_days y m 1 = month_start (12 * y + m)"
  by (simp add: month_start_def utc_days_def Let_def)

lemma month_length: "0 \<le> m \<Longrightarrow> m < 12 \<Longrightarrow> 28 \<le> days_before l (m + 1) - days_before l m \<and> days_before l (m + 1) - days_before l m \<le> 31"
proof -
  assume "0 \<le> m" and "m < 12"
  then have "m = 0 \<or> m = 1 \<or> m = 2 \<or> m = 3 \<or> m = 4 \<or> m = 5 \<or> m = 6 \<or> m = 7 \<or> m = 8 \<or> m = 9 \<or> m = 10 \<or> m = 11"
    by presburger
  then show ?thesis by (elim disjE) (simp_all add: days_before_def)
qed

lemma month_start_next: "28 \<le> month_start (i + 1) - month_start i \<and> month_start (i + 1) - month_start i \<le> 31"
proof -
  define y m where "y = i div 12" and "m = i mod 12"
  have m: "0 \<le> m" "m < 12" by (simp_all add: m_def)
  have i: "i = 12 * y + m" by (simp add: y_def m_def)
  have s: "month_start (12 * y + j) = day_from_year y + days_before (leap_year y) j" if "0 \<le> j" "j < 12" for j
    using that by (simp add: month_start_def utc_days_def Let_def)
  have n: "month_start (i + 1) = day_from_year y + days_before (leap_year y) (m + 1)"
  proof (cases "m = 11")
    case True
    have "month_start (i + 1) = day_from_year (y + 1)"
      using s [of 0] by (simp add: i True month_start_def utc_days_def Let_def days_before_def add.commute)
    then show ?thesis using year_length [of y] by (simp add: True days_before_def)
  next
    case False
    then show ?thesis using s [of "m + 1"] m by (simp add: i add.assoc)
  qed
  show ?thesis using month_length [OF m, of "leap_year y"] s [OF m] n by (simp add: i [symmetric])
qed

lemma month_index_bounds: "month_start (month_index t) \<le> utc_day_of t \<and> utc_day_of t < month_start (month_index t + 1)"
proof -
  define y m where "y = getUTCFullYear t" and "m = getUTCMonth t"
  have r: "0 \<le> m" "m < 12" using civil_range [of t] by (simp_all add: m_def)
  have d: "utc_days y m 1 + (getUTCDate t - 1) = utc_day_of t"
    using civil_roundtrip [of t] utc_days_add [of y m 1 "getUTCDate t - 1"] by (simp add: y_def m_def)
  have n: "utc_days y (m + 1) 1 = utc_days y m 1 + (days_before (leap_year y) (m + 1) - days_before (leap_year y) m)"
  proof (cases "m = 11")
    case True
    then show ?thesis using year_length [of y] by (simp add: utc_days_def Let_def days_before_def)
  next
    case False
    then show ?thesis using r by (simp add: utc_days_def Let_def)
  qed
  have i: "month_start (month_index t) = utc_days y m 1" "month_start (month_index t + 1) = utc_days y (m + 1) 1"
    by (simp_all add: month_index_def y_def m_def utc_days_index add.assoc)
  show ?thesis using d n civil_range [of t] unfolding i y_def [symmetric] m_def [symmetric] by simp
qed

end
