(* ===== verification/SpendBatch.thy ===== *)
theory SpendBatch
  imports Prelude
begin

text \<open>
  The buffered cost writer of \<^verbatim>\<open>src/src/lib/spend/batchWriter.ts\<close>. \<open>flush\<close> runs synchronously up to the
  await of \<open>persistEntries\<close>: the call either throws at once or returns, and then the rest of the flush
  is the step \<open>flush_settles\<close>, with other calls in between. When the body of the flush ends without
  awaiting, its \<open>finally\<close> has cleared \<open>flushPromise\<close> before the assignment of the promise to the
  field: the field then holds a promise that is already resolved. Costs are reals; the effect of
  \<open>persistEntries\<close> on its store of type \<open>'d\<close> is a parameter.
\<close>

subsection \<open>State\<close>

record cost_entry =
  ce_key :: string
  ce_cost :: real
  ce_time :: int

record flush_result =
  fr_flushed :: nat
  fr_unique :: nat
  fr_requeued :: bool

datatype flush_promise = Flushing "cost_entry list" nat | Flushed flush_result

datatype persist_call = Throws | Returns

record spend =
  sw_buffer :: "cost_entry list"
  sw_inFlight :: "cost_entry list"
  sw_discarded :: "string list"
  sw_timer :: bool
  sw_started :: bool
  sw_promise :: "flush_promise option"
  sw_max :: int
  sw_interval :: int

definition DEFAULT_FLUSH_INTERVAL_MS :: int where
  "DEFAULT_FLUSH_INTERVAL_MS = 60000"

definition DEFAULT_MAX_BUFFER_SIZE :: int where
  "DEFAULT_MAX_BUFFER_SIZE = 1000"

text \<open>The value of the environment variable as \<open>parseInt\<close> reads it, None when that is not a number.\<close>

definition getFlushIntervalMs :: "int option \<Rightarrow> int" where
  "getFlushIntervalMs parsed = (case parsed of Some n \<Rightarrow> if 0 < n then n else DEFAULT_FLUSH_INTERVAL_MS
     | None \<Rightarrow> DEFAULT_FLUSH_INTERVAL_MS)"

definition getMaxBufferSize :: "int option \<Rightarrow> int" where
  "getMaxBufferSize parsed = (case parsed of Some n \<Rightarrow> if 0 < n then n else DEFAULT_MAX_BUFFER_SIZE
     | None \<Rightarrow> DEFAULT_MAX_BUFFER_SIZE)"

definition new_spend :: "int option \<Rightarrow> int option \<Rightarrow> int option \<Rightarrow> int option \<Rightarrow> spend" where
  "new_spend flushIntervalMs maxBufferSize env_interval env_size =
     \<lparr>sw_buffer = [], sw_inFlight = [], sw_discarded = [], sw_timer = False, sw_started = False, sw_promise = None,
      sw_max = nullish maxBufferSize (getMaxBufferSize env_size),
      sw_interval = nullish flushIntervalMs (getFlushIntervalMs env_interval)\<rparr>"

subsection \<open>Operations\<close>

definition normalizeEntry :: "string \<Rightarrow> js_value \<Rightarrow> int \<Rightarrow> cost_entry option" where
  "normalizeEntry k cost t =
     (case cost of
        Number c \<Rightarrow> if k = [] \<or> c \<le> 0 then None else Some \<lparr>ce_key = k, ce_cost = c, ce_time = t\<rparr>
      | _ \<Rightarrow> None)"

definition start_writer :: "spend \<Rightarrow> spend" where
  "start_writer w = (if sw_started w then w else w\<lparr>sw_started := True, sw_timer := True\<rparr>)"

definition flush :: "('d \<Rightarrow> cost_entry list \<Rightarrow> persist_call \<times> 'd) \<Rightarrow> spend \<Rightarrow> 'd \<Rightarrow> flush_promise \<times> spend \<times> 'd" where
  "flush persistEntries w d =
     (case sw_promise w of
        Some p \<Rightarrow> (p, w, d)
      | None \<Rightarrow>
          if sw_buffer w = [] then (Flushed \<lparr>fr_flushed = 0, fr_unique = 0, fr_requeued = False\<rparr>, w, d)
          else
            let entriesToFlush = sw_buffer w;
                w1 = w\<lparr>sw_buffer := [], sw_inFlight := entriesToFlush\<rparr>;
                keep = filter (\<lambda>e. ce_key e \<notin> set (sw_discarded w)) entriesToFlush;
                uniqueKeys = length (remdups (map ce_key keep))
            in if keep = [] then
                 let p = Flushed \<lparr>fr_flushed = 0, fr_unique = uniqueKeys, fr_requeued = False\<rparr>
                 in (p, w1\<lparr>sw_inFlight := [], sw_promise := Some p\<rparr>, d)
               else
                 (case persistEntries d keep of
                    (Throws, d') \<Rightarrow>
                      let p = Flushed \<lparr>fr_flushed = 0, fr_unique = uniqueKeys, fr_requeued = True\<rparr>
                      in (p, w1\<lparr>sw_buffer := keep @ sw_buffer w1, sw_inFlight := [], sw_promise := Some p\<rparr>, d')
                  | (Returns, d') \<Rightarrow>
                      let p = Flushing keep uniqueKeys in (p, w1\<lparr>sw_promise := Some p\<rparr>, d')))"

text \<open>The await of \<open>persistEntries\<close> ends, with success or with the rejection of its promise.\<close>

definition flush_settles :: "bool \<Rightarrow> spend \<Rightarrow> flush_result option \<times> spend" where
  "flush_settles ok w =
     (case sw_promise w of
        Some (Flushing keep u) \<Rightarrow>
          if ok then (Some \<lparr>fr_flushed = length keep, fr_unique = u, fr_requeued = False\<rparr>,
                      w\<lparr>sw_inFlight := [], sw_promise := None\<rparr>)
          else (Some \<lparr>fr_flushed = 0, fr_unique = u, fr_requeued = True\<rparr>,
                w\<lparr>sw_buffer := keep @ sw_buffer w, sw_inFlight := [], sw_promise := None\<rparr>)
      | _ \<Rightarrow> (None, w))"

definition increment ::
  "('d \<Rightarrow> cost_entry list \<Rightarrow> persist_call \<times> 'd) \<Rightarrow> string \<Rightarrow> js_value \<Rightarrow> int \<Rightarrow> spend \<Rightarrow> 'd \<Rightarrow> spend \<times> 'd" where
  "increment persistEntries k cost t w d =
     (case normalizeEntry k cost t of
        None \<Rightarrow> (w, d)
      | Some e \<Rightarrow>
          let w0 = start_writer w;
              w1 = w0\<lparr>sw_discarded := removeAll (ce_key e) (sw_discarded w0), sw_buffer := sw_buffer w0 @ [e]\<rparr>
          in if sw_max w1 \<le> int (length (sw_buffer w1)) then snd (flush persistEntries w1 d) else (w1, d))"

text \<open>The interval timer fires.\<close>

definition timer_fires :: "('d \<Rightarrow> cost_entry list \<Rightarrow> persist_call \<times> 'd) \<Rightarrow> spend \<Rightarrow> 'd \<Rightarrow> spend \<times> 'd" where
  "timer_fires persistEntries w d = (if sw_timer w then snd (flush persistEntries w d) else (w, d))"

definition stop_writer :: "('d \<Rightarrow> cost_entry list \<Rightarrow> persist_call \<times> 'd) \<Rightarrow> spend \<Rightarrow> 'd \<Rightarrow> flush_promise \<times> spend \<times> 'd" where
  "stop_writer persistEntries w d = flush persistEntries (w\<lparr>sw_timer := False, sw_started := False\<rparr>) d"

definition getBufferedEntries :: "string \<Rightarrow> int \<Rightarrow> int option \<Rightarrow> spend \<Rightarrow> cost_entry list" where
  "getBufferedEntries k since until w =
     filter (\<lambda>e. ce_key e = k \<and> since \<le> ce_time e \<and> (case until of None \<Rightarrow> True | Some u \<Rightarrow> ce_time e < u))
       (sw_inFlight w @ sw_buffer w)"

definition getPendingCostTotal :: "string \<Rightarrow> int \<Rightarrow> int option \<Rightarrow> spend \<Rightarrow> real" where
  "getPendingCostTotal k since until w = sum_list (map ce_cost (getBufferedEntries k since until w))"

definition discardEntries :: "string \<Rightarrow> spend \<Rightarrow> spend" where
  "discardEntries k w =
     w\<lparr>sw_discarded := List.insert k (sw_discarded w),
       sw_buffer := filter (\<lambda>e. ce_key e \<noteq> k) (sw_buffer w),
       sw_inFlight := filter (\<lambda>e. ce_key e \<noteq> k) (sw_inFlight w)\<rparr>"

definition resetForTests :: "spend \<Rightarrow> spend" where
  "resetForTests w = w\<lparr>sw_timer := False, sw_started := False, sw_buffer := [], sw_inFlight := [], sw_discarded := [],
     sw_promise := None\<rparr>"

subsection \<open>Runs\<close>

text \<open>
  A run of the writer: each event that flushes says how the call of \<open>persistEntries\<close> goes. What
  was accepted and what a settled flush confirmed as persisted are recorded beside the writer.
\<close>

datatype spend_event =
    Sp_increment string js_value int persist_call
  | Sp_timer persist_call
  | Sp_settles bool
  | Sp_discard string
  | Sp_stop persist_call

record spend_run =
  sp_writer :: spend
  sp_accepted :: "cost_entry list"
  sp_persisted :: "cost_entry list"

definition answering :: "persist_call \<Rightarrow> unit \<Rightarrow> cost_entry list \<Rightarrow> persist_call \<times> unit" where
  "answering c d es = (c, ())"

fun spend_step :: "spend_run \<Rightarrow> spend_event \<Rightarrow> spend_run" where
  "spend_step x (Sp_increment k cost t c) =
     \<lparr>sp_writer = fst (increment (answering c) k cost t (sp_writer x) ()),
      sp_accepted = sp_accepted x @ (case normalizeEntry k cost t of None \<Rightarrow> [] | Some e \<Rightarrow> [e]),
      sp_persisted = sp_persisted x\<rparr>"
| "spend_step x (Sp_timer c) = x\<lparr>sp_writer := fst (timer_fires (answering c) (sp_writer x) ())\<rparr>"
| "spend_step x (Sp_settles ok) =
     x\<lparr>sp_writer := snd (flush_settles ok (sp_writer x)),
       sp_persisted := sp_persisted x @
         (case sw_promise (sp_writer x) of Some (Flushing keep u) \<Rightarrow> if ok then keep else [] | _ \<Rightarrow> [])\<rparr>"
| "spend_step x (Sp_discard k) = x\<lparr>sp_writer := discardEntries k (sp_writer x)\<rparr>"
| "spend_step x (Sp_stop c) = x\<lparr>sp_writer := fst (snd (stop_writer (answering c) (sp_writer x) ()))\<rparr>"

definition start_spend :: "int \<Rightarrow> spend_run" where
  "start_spend n = \<lparr>sp_writer = new_spend None (Some n) None None, sp_accepted = [], sp_persisted = []\<rparr>"

subsection \<open>Nothing is lost\<close>

definition of_key :: "string \<Rightarrow> cost_entry list \<Rightarrow> cost_entry list" where
  "of_key k es = filter (\<lambda>e. ce_key e = k) es"

definition in_flight :: "spend \<Rightarrow> cost_entry list" where
  "in_flight w = (case sw_promise w of Some (Flushing keep u) \<Rightarrow> keep | _ \<Rightarrow> [])"

definition writer_books :: "string \<Rightarrow> cost_entry list \<Rightarrow> spend \<Rightarrow> bool" where
  "writer_books k pending w \<longleftrightarrow> k \<notin> set (sw_discarded w) \<and> of_key k (in_flight w @ sw_buffer w) = pending
     \<and> of_key k (sw_inFlight w) = of_key k (in_flight w)"

definition spend_books :: "string \<Rightarrow> spend_run \<Rightarrow> bool" where
  "spend_books k x \<longleftrightarrow> (\<exists>pending. writer_books k pending (sp_writer x)
     \<and> of_key k (sp_accepted x) = of_key k (sp_persisted x) @ pending)"

lemma of_key_simps [simp]:
  "of_key k [] = []" "of_key k (e # es) = (if ce_key e = k then e # of_key k es else of_key k es)"
  "of_key k (es @ fs) = of_key k es @ of_key k fs"
  by (simp_all add: of_key_def)

lemma of_key_kept: "k \<notin> set ds \<Longrightarrow> of_key k (filter (\<lambda>e. ce_key e \<notin> set ds) es) = of_key k es"
  by (induction es) auto

lemma of_key_dropped: "k \<noteq> k' \<Longrightarrow> of_key k (filter (\<lambda>e. ce_key e \<noteq> k') es) = of_key k es"
  by (induction es) auto

lemma flush_books:
  assumes "writer_books k pending w"
  shows "writer_books k pending (fst (snd (flush (answering c) w ())))"
proof (cases "sw_promise w = None \<and> sw_buffer w \<noteq> []")
  case True
  let ?keep = "filter (\<lambda>e. ce_key e \<notin> set (sw_discarded w)) (sw_buffer w)"
  have k: "k \<notin> set (sw_discarded w)" "of_key k (sw_buffer w) = pending"
    using assms True by (simp_all add: writer_books_def in_flight_def)
  have kept: "of_key k ?keep = pending" using of_key_kept [OF k(1)] k(2) by simp
  show ?thesis
  proof (cases "?keep = []")
    case True
    then show ?thesis using \<open>sw_promise w = None \<and> _\<close> k kept
      by (simp add: flush_def writer_books_def in_flight_def Let_def)
  next
    case False
    then show ?thesis using \<open>sw_promise w = None \<and> _\<close> k kept
      by (cases c) (simp_all add: flush_def answering_def writer_books_def in_flight_def Let_def)
  qed
next
  case False
  then have "fst (snd (flush (answering c) w ())) = w" by (auto simp: flush_def split: option.split)
  then show ?thesis using assms by simp
qed

lemma increment_books:
  assumes "writer_books k pending w"
  shows "writer_books k (pending @ of_key k (case normalizeEntry k' cost t of None \<Rightarrow> [] | Some e \<Rightarrow> [e]))
    (fst (increment (answering c) k' cost t w ()))"
proof (cases "normalizeEntry k' cost t")
  case (Some e)
  let ?w = "(start_writer w)\<lparr>sw_discarded := removeAll (ce_key e) (sw_discarded (start_writer w)),
    sw_buffer := sw_buffer (start_writer w) @ [e]\<rparr>"
  have s: "sw_buffer (start_writer w) = sw_buffer w" "sw_discarded (start_writer w) = sw_discarded w"
    "sw_inFlight (start_writer w) = sw_inFlight w" "sw_promise (start_writer w) = sw_promise w"
    by (simp_all add: start_writer_def)
  have "writer_books k (pending @ of_key k [e]) ?w"
    using assms s by (auto simp: writer_books_def in_flight_def)
  then show ?thesis using flush_books [of k _ ?w c] Some by (simp add: increment_def Let_def)
qed (use assms in \<open>simp add: increment_def\<close>)

lemma settles_books:
  assumes "writer_books k pending w"
  shows "\<exists>rest. writer_books k rest (snd (flush_settles ok w))
    \<and> pending = of_key k (case sw_promise w of Some (Flushing keep u) \<Rightarrow> if ok then keep else [] | _ \<Rightarrow> []) @ rest"
proof (cases "sw_promise w")
  case (Some p)
  then show ?thesis using assms by (cases p) (auto simp: flush_settles_def writer_books_def in_flight_def)
qed (use assms in \<open>simp add: flush_settles_def\<close>)

fun spares :: "string \<Rightarrow> spend_event \<Rightarrow> bool" where
  "spares k (Sp_discard k') \<longleftrightarrow> k' \<noteq> k"
| "spares k _ \<longleftrightarrow> True"

lemma spend_step_books:
  assumes "spend_books k x" and "spares k ev"
  shows "spend_books k (spend_step x ev)"
proof -
  obtain pending where w: "writer_books k pending (sp_writer x)"
    and a: "of_key k (sp_accepted x) = of_key k (sp_persisted x) @ pending"
    using assms(1) by (auto simp: spend_books_def)
  show ?thesis
  proof (cases ev)
    case (Sp_increment k' cost t c)
    show ?thesis using increment_books [OF w, of k' cost t c] a
      unfolding spend_books_def Sp_increment by (intro exI conjI) (assumption | simp)+
  next
    case (Sp_timer c)
    then show ?thesis using flush_books [OF w, of c] w a by (auto simp: spend_books_def timer_fires_def)
  next
    case (Sp_settles ok)
    obtain rest where r: "writer_books k rest (snd (flush_settles ok (sp_writer x)))"
      "pending = of_key k (case sw_promise (sp_writer x) of Some (Flushing keep u) \<Rightarrow> if ok then keep else [] | _ \<Rightarrow> []) @ rest"
      using settles_books [OF w] by blast
    then show ?thesis using a unfolding spend_books_def Sp_settles by (intro exI [of _ rest]) simp
  next
    case (Sp_discard k')
    then have "writer_books k pending (discardEntries k' (sp_writer x))"
      using w assms(2) by (auto simp: writer_books_def discardEntries_def in_flight_def of_key_dropped)
    then show ?thesis using a by (auto simp: spend_books_def Sp_discard)
  next
    case (Sp_stop c)
    have "writer_books k pending ((sp_writer x)\<lparr>sw_timer := False, sw_started := False\<rparr>)"
      using w by (simp add: writer_books_def in_flight_def)
    from flush_books [OF this, of c] show ?thesis using a by (auto simp: spend_books_def Sp_stop stop_writer_def)
  qed
qed

interpretation spend_writer: step_invariant spend_step "spares k" "spend_books k" for k
  by unfold_locales (rule spend_step_books)

lemma start_spend_books: "spend_books k (start_spend n)"
  by (simp add: spend_books_def start_spend_def new_spend_def writer_books_def in_flight_def)

lemma spend_run_books: "list_all (spares k) evs \<Longrightarrow> spend_books k (foldl spend_step (start_spend n) evs)"
  by (rule spend_writer.run_inv [OF start_spend_books])

text \<open>A promise that is already resolved stays in the field.\<close>

definition wedged :: "flush_result \<Rightarrow> spend \<Rightarrow> bool" where
  "wedged r w \<longleftrightarrow> sw_promise w = Some (Flushed r)"

lemma wedged_flush: "wedged r w \<Longrightarrow> flush p w d = (Flushed r, w, d)"
  by (simp add: wedged_def flush_def)

lemma wedged_step:
  assumes "wedged r (sp_writer x)"
  shows "wedged r (sp_writer (spend_step x ev)) \<and> sp_persisted (spend_step x ev) = sp_persisted x"
proof (cases ev)
  case (Sp_increment k cost t c)
  have "wedged r (fst (increment (answering c) k cost t (sp_writer x) ()))"
  proof (cases "normalizeEntry k cost t")
    case (Some e)
    let ?w = "(start_writer (sp_writer x))\<lparr>sw_discarded := removeAll (ce_key e) (sw_discarded (start_writer (sp_writer x))),
      sw_buffer := sw_buffer (start_writer (sp_writer x)) @ [e]\<rparr>"
    have "wedged r ?w" using assms by (simp add: wedged_def start_writer_def)
    then show ?thesis using wedged_flush [of r ?w "answering c" "()"] Some by (simp add: increment_def Let_def)
  qed (use assms in \<open>simp add: increment_def\<close>)
  then show ?thesis by (simp add: Sp_increment)
next
  case (Sp_timer c)
  then show ?thesis using assms by (simp add: timer_fires_def wedged_flush)
next
  case (Sp_settles ok)
  then show ?thesis using assms by (simp add: flush_settles_def wedged_def)
next
  case (Sp_discard k)
  then show ?thesis using assms by (simp add: discardEntries_def wedged_def)
next
  case (Sp_stop c)
  have "wedged r ((sp_writer x)\<lparr>sw_timer := False, sw_started := False\<rparr>)" using assms by (simp add: wedged_def)
  then show ?thesis using Sp_stop by (simp add: stop_writer_def wedged_flush)
qed

lemma wedged_run:
  "wedged r (sp_writer x) \<Longrightarrow> wedged r (sp_writer (foldl spend_step x evs)) \<and> sp_persisted (foldl spend_step x evs) = sp_persisted x"
  by (induction evs arbitrary: x) (use wedged_step in fastforce)+

subsection \<open>Properties\<close>

text \<open>The costs of the entries of a key in a span of time.\<close>

definition cost_between :: "string \<Rightarrow> int \<Rightarrow> int option \<Rightarrow> cost_entry list \<Rightarrow> real" where
  "cost_between k since until es = sum_list (map ce_cost
     (filter (\<lambda>e. since \<le> ce_time e \<and> (case until of None \<Rightarrow> True | Some u \<Rightarrow> ce_time e < u)) (of_key k es)))"

lemma cost_between_append: "cost_between k since until (es @ fs) = cost_between k since until es + cost_between k since until fs"
  by (simp add: cost_between_def)

lemma pending_cost_between: "getPendingCostTotal k since until w = cost_between k since until (sw_inFlight w @ sw_buffer w)"
proof -
  have "getBufferedEntries k since until w
    = filter (\<lambda>e. since \<le> ce_time e \<and> (case until of None \<Rightarrow> True | Some u \<Rightarrow> ce_time e < u)) (of_key k (sw_inFlight w @ sw_buffer w))"
    unfolding getBufferedEntries_def of_key_def filter_filter by (rule filter_cong) auto
  then show ?thesis by (simp only: getPendingCostTotal_def cost_between_def)
qed

text \<open>
  C12: The buffered writer loses and duplicates no cost: after any run of increments, timers, flushes
  that throw, succeed later or fail later, stops and discards of other keys, what was accepted for a
  key is, in the order it came, what was persisted, then what is in flight, then the buffer; so the
  pending total of any span of time is exactly what was accepted in it and not yet persisted.
\<close>

theorem costs_conserved:
  assumes "list_all (spares k) evs" and "x = foldl spend_step (start_spend n) evs"
  shows "of_key k (sp_accepted x) = of_key k (sp_persisted x @ sw_inFlight (sp_writer x) @ sw_buffer (sp_writer x))
    \<and> getPendingCostTotal k since until (sp_writer x)
        = cost_between k since until (sp_accepted x) - cost_between k since until (sp_persisted x)"
proof -
  have "spend_books k x" using spend_run_books [OF assms(1)] assms(2) by simp
  then have l: "of_key k (sp_accepted x) = of_key k (sp_persisted x @ (sw_inFlight (sp_writer x) @ sw_buffer (sp_writer x)))"
    by (auto simp: spend_books_def writer_books_def)
  then have "cost_between k since until (sp_accepted x)
      = cost_between k since until (sp_persisted x @ (sw_inFlight (sp_writer x) @ sw_buffer (sp_writer x)))"
    by (simp only: cost_between_def)
  then show ?thesis using l by (simp add: pending_cost_between cost_between_append)
qed

definition spend_demo :: "spend_event list" where
  "spend_demo =
     [Sp_increment ''a'' (Number 1) 10 Returns, Sp_increment ''b'' (Number 2) 20 Returns,
      Sp_increment ''a'' (Number 3) 30 Returns, Sp_settles False, Sp_timer Returns, Sp_settles True,
      Sp_increment ''a'' (Number 4) 40 Returns, Sp_discard ''b'', Sp_increment ''a'' Infinite 50 Returns]"

theorem costs_conserved_witness:
  "let x = foldl spend_step (start_spend 2) spend_demo in
   getPendingCostTotal ''a'' 0 None (sp_writer x) = cost_between ''a'' 0 None (sp_accepted x) - cost_between ''a'' 0 None (sp_persisted x)
   \<and> map ce_cost (of_key ''a'' (sp_accepted x)) = [1, 3, 4] \<and> map ce_cost (of_key ''a'' (sp_persisted x)) = [1, 3]"
proof -
  define x where "x = foldl spend_step (start_spend 2) spend_demo"
  have l: "list_all (spares ''a'') spend_demo" by (simp add: spend_demo_def)
  have "map ce_cost (of_key ''a'' (sp_accepted x)) = [1, 3, 4]" "map ce_cost (of_key ''a'' (sp_persisted x)) = [1, 3]"
    unfolding x_def by code_simp+
  then show ?thesis using conjunct2 [OF costs_conserved [OF l x_def]] unfolding x_def [symmetric] Let_def by simp
qed

text \<open>
  A flush whose call of \<open>persistEntries\<close> throws wedges the writer for good: the flush has ended,
  and its promise is stored afterwards, resolved. From then on, whatever is recorded, however often
  the timer fires and even on a stop, nothing is ever persisted again, and every flush answers with
  the old failure. The default \<open>persistEntries\<close> is synchronous, so a database error does this; a
  failure that arrives later, as a rejected promise, leaves the writer ready to try again.
\<close>

theorem failed_flush_wedges:
  assumes "sw_promise (sp_writer x) = None" and "sw_timer (sp_writer x)"
    and "keep = filter (\<lambda>e. ce_key e \<notin> set (sw_discarded (sp_writer x))) (sw_buffer (sp_writer x))" and "keep \<noteq> []"
  shows "sp_persisted (foldl spend_step x (Sp_timer Throws # evs)) = sp_persisted x
    \<and> (\<exists>u. \<forall>p (d :: 'd). fst (flush p (sp_writer (foldl spend_step x (Sp_timer Throws # evs))) d)
         = Flushed \<lparr>fr_flushed = 0, fr_unique = u, fr_requeued = True\<rparr>)
    \<and> (let y = foldl spend_step x [Sp_timer Returns, Sp_settles False] in
       sw_promise (sp_writer y) = None \<and> sw_buffer (sp_writer y) = keep)"
proof -
  define r where "r = \<lparr>fr_flushed = 0, fr_unique = length (remdups (map ce_key keep)), fr_requeued = True\<rparr>"
  have b: "sw_buffer (sp_writer x) \<noteq> []" using assms(3,4) by auto
  have f: "flush p (sp_writer x) d = (case p d keep of
        (Throws, d') \<Rightarrow> (Flushed r, (sp_writer x)\<lparr>sw_buffer := keep, sw_inFlight := [], sw_promise := Some (Flushed r)\<rparr>, d')
      | (Returns, d') \<Rightarrow> (Flushing keep (fr_unique r), (sp_writer x)\<lparr>sw_buffer := [], sw_inFlight := sw_buffer (sp_writer x),
          sw_promise := Some (Flushing keep (fr_unique r))\<rparr>, d'))" for p :: "unit \<Rightarrow> cost_entry list \<Rightarrow> persist_call \<times> unit" and d
    using assms(1,4) b unfolding flush_def Let_def assms(3) [symmetric] by (simp add: r_def split: prod.split persist_call.split)
  let ?x1 = "spend_step x (Sp_timer Throws)"
  have "wedged r (sp_writer ?x1)" "sp_persisted ?x1 = sp_persisted x"
    using f assms(2) by (simp_all add: timer_fires_def answering_def wedged_def)
  from wedged_run [OF this(1), of evs] this(2)
  have "sp_persisted (foldl spend_step x (Sp_timer Throws # evs)) = sp_persisted x"
    "wedged r (sp_writer (foldl spend_step x (Sp_timer Throws # evs)))" by simp_all
  moreover have "let y = foldl spend_step x [Sp_timer Returns, Sp_settles False] in
       sw_promise (sp_writer y) = None \<and> sw_buffer (sp_writer y) = keep"
    using f assms(2) by (simp add: timer_fires_def answering_def flush_settles_def)
  ultimately show ?thesis by (simp add: wedged_flush r_def)
qed

theorem failed_flush_wedges_witness:
  "let x = foldl spend_step (start_spend 1000) [Sp_increment ''a'' (Number 1) 10 Returns] in
   sp_persisted (foldl spend_step x [Sp_timer Throws, Sp_increment ''a'' (Number 3) 30 Returns, Sp_timer Returns, Sp_settles True, Sp_stop Returns]) = []"
proof -
  define x where "x = foldl spend_step (start_spend 1000) [Sp_increment ''a'' (Number 1) 10 Returns]"
  have "sw_promise (sp_writer x) = None" "sw_timer (sp_writer x)" "sp_persisted x = []"
    "filter (\<lambda>e. ce_key e \<notin> set (sw_discarded (sp_writer x))) (sw_buffer (sp_writer x)) \<noteq> []"
    unfolding x_def by code_simp+
  note f = conjunct1 [OF failed_flush_wedges [OF this(1,2) refl this(4)]]
  show ?thesis unfolding x_def [symmetric] Let_def f by (rule \<open>sp_persisted x = []\<close>)
qed

end
