(* ===== verification/JsonText.thy ===== *)
theory JsonText
  imports Prelude
begin

text \<open>
  JSON values and their text, as \<open>JSON.stringify\<close> writes it, and \<open>parseInt\<close>. The text determines the value
  (\<open>stringify_inj\<close>), which is what signatures and hashes of requests rest on. Text is ASCII; the text of a
  number is the parameter \<open>num\<close>.
\<close>

datatype json_value =
    V_null
  | V_bool bool
  | V_number real
  | V_string string
  | V_array "json_value list"
  | V_object "(string \<times> json_value) list"

text \<open>Properties of objects; nothing stands for \<open>undefined\<close>.\<close>

definition prop_of :: "(string \<times> json_value) list \<Rightarrow> string \<Rightarrow> json_value option" where
  "prop_of ps n = map_of ps n"

fun item_prop :: "json_value \<Rightarrow> string \<Rightarrow> json_value option" where
  "item_prop (V_object ps) n = prop_of ps n"
| "item_prop _ n = None"

text \<open>\<open>a ?? b\<close> on properties.\<close>

fun nullish_prop :: "json_value option \<Rightarrow> json_value option \<Rightarrow> json_value option" where
  "nullish_prop None b = b"
| "nullish_prop (Some V_null) b = b"
| "nullish_prop (Some v) b = Some v"

subsection \<open>Text\<close>

definition hex_digit :: "nat \<Rightarrow> char" where
  "hex_digit n = char_of (if n < 10 then 48 + n else 87 + n)"

definition escape_char :: "char \<Rightarrow> string" where
  "escape_char c =
     (let n = of_char c :: nat in
      if n = 34 \<or> n = 92 then [CHR 0x5C, c]
      else if n = 8 then [CHR 0x5C, CHR ''b'']
      else if n = 9 then [CHR 0x5C, CHR ''t'']
      else if n = 10 then [CHR 0x5C, CHR ''n'']
      else if n = 12 then [CHR 0x5C, CHR ''f'']
      else if n = 13 then [CHR 0x5C, CHR ''r'']
      else if n < 32 then [CHR 0x5C, CHR ''u'', CHR ''0'', CHR ''0'', hex_digit (n div 16), hex_digit (n mod 16)]
      else [c])"

definition quoted :: "string \<Rightarrow> string" where
  "quoted s = CHR 0x22 # concat (map escape_char s) @ [CHR 0x22]"

fun commas :: "string list \<Rightarrow> string" where
  "commas [] = []"
| "commas (x # xs) = x @ concat (map (\<lambda>y. CHR '','' # y) xs)"

fun stringify :: "(real \<Rightarrow> string) \<Rightarrow> json_value \<Rightarrow> string" where
  "stringify num V_null = ''null''"
| "stringify num (V_bool b) = (if b then ''true'' else ''false'')"
| "stringify num (V_number r) = num r"
| "stringify num (V_string s) = quoted s"
| "stringify num (V_array vs) = CHR ''['' # commas (map (stringify num) vs) @ '']''"
| "stringify num (V_object ps) = CHR ''{'' # commas (map (\<lambda>(k, v). quoted k @ '':'' @ stringify num v) ps) @ ''}''"

text \<open>\<open>parseInt(s, 10)\<close>: leading blanks and a sign, then the digits up to the first other character.\<close>

definition js_digit :: "char \<Rightarrow> bool" where
  "js_digit c \<longleftrightarrow> (let n = of_char c :: nat in 48 \<le> n \<and> n \<le> 57)"

fun digits_value :: "int \<Rightarrow> string \<Rightarrow> int" where
  "digits_value acc [] = acc"
| "digits_value acc (c # cs) = digits_value (10 * acc + (int (of_char c) - 48)) cs"

definition parse_digits :: "string \<Rightarrow> int option" where
  "parse_digits s = (case takeWhile js_digit s of [] \<Rightarrow> None | ds \<Rightarrow> Some (digits_value 0 ds))"

definition js_parseInt :: "string \<Rightarrow> int option" where
  "js_parseInt s =
     (case dropWhile js_space s of
        [] \<Rightarrow> None
      | c # cs \<Rightarrow>
          if c = CHR ''-'' then map_option uminus (parse_digits cs)
          else if c = CHR ''+'' then parse_digits cs
          else parse_digits (c # cs))"

text \<open>The decimal text of a natural number.\<close>

fun decimal :: "nat \<Rightarrow> string" where
  "decimal n = (if n < 10 then [char_of (48 + n)] else decimal (n div 10) @ [char_of (48 + n mod 10)])"

declare decimal.simps [simp del]

subsection \<open>Texts of numbers\<close>

lemma js_digit_char: "n < 10 \<Longrightarrow> js_digit (char_of (48 + n :: nat))"
  by (simp add: js_digit_def)

lemma digits_value_append: "digits_value acc (xs @ [c]) = 10 * digits_value acc xs + (int (of_char c) - 48)"
  by (induction xs arbitrary: acc) simp_all

lemma decimal_digits: "list_all js_digit (decimal n) \<and> decimal n \<noteq> [] \<and> digits_value 0 (decimal n) = int n"
proof (induction n rule: decimal.induct)
  case (1 n)
  show ?case
  proof (cases "n < 10")
    case True
    then show ?thesis by (simp add: decimal.simps [of n] js_digit_char)
  next
    case False
    have "10 * int (n div 10) + int (n mod 10) = int n"
      by (metis div_mult_mod_eq mult.commute of_nat_add of_nat_mult of_nat_numeral)
    with False 1 show ?thesis
      by (simp add: decimal.simps [of n] js_digit_char digits_value_append)
  qed
qed

lemma takeWhile_all: "list_all P xs \<Longrightarrow> takeWhile P xs = xs"
  by (induction xs) simp_all

lemma parse_all_digits: "list_all js_digit s \<Longrightarrow> s \<noteq> [] \<Longrightarrow> parse_digits s = Some (digits_value 0 s)"
  by (simp add: parse_digits_def takeWhile_all split: list.split)

lemma parse_decimal: "js_parseInt (decimal n) = Some (int n)"
proof -
  note d = decimal_digits [of n]
  then obtain c cs where n: "decimal n = c # cs" by (cases "decimal n") auto
  with d have c: "js_digit c" by simp
  then have "\<not> js_space c" "c \<noteq> CHR ''-''" "c \<noteq> CHR ''+''" by (auto simp: js_digit_def js_space_def Let_def)
  moreover have "parse_digits (decimal n) = Some (int n)"
    using d parse_all_digits [of "decimal n"] by simp
  ultimately show ?thesis by (simp add: js_parseInt_def n)
qed

lemma decimal_inj: "decimal a = decimal b \<longleftrightarrow> a = b"
  by (metis parse_decimal of_nat_eq_iff option.inject)

subsection \<open>The text determines the value\<close>

fun hex_value :: "char \<Rightarrow> nat" where
  "hex_value c = (let n = of_char c in if n < 58 then n - 48 else n - 87)"

lemma hex_value_digit: "n < 16 \<Longrightarrow> hex_value (hex_digit n) = n"
  by (simp add: hex_digit_def)

definition unescape :: "string \<Rightarrow> char \<times> string" where
  "unescape s =
     (case s of
        [] \<Rightarrow> (CHR 0x00, [])
      | c # r \<Rightarrow>
          if c \<noteq> CHR 0x5C then (c, r)
          else (case r of
              [] \<Rightarrow> (CHR 0x00, [])
            | d # r' \<Rightarrow>
                if d = CHR ''b'' then (char_of (8 :: nat), r')
                else if d = CHR ''t'' then (char_of (9 :: nat), r')
                else if d = CHR ''n'' then (char_of (10 :: nat), r')
                else if d = CHR ''f'' then (char_of (12 :: nat), r')
                else if d = CHR ''r'' then (char_of (13 :: nat), r')
                else if d = CHR ''u'' then (char_of (16 * hex_value (r' ! 2) + hex_value (r' ! 3)), drop 4 r')
                else (d, r')))"

lemma char_codes:
  "of_char c = (34 :: nat) \<longleftrightarrow> c = CHR 0x22" "of_char c = (92 :: nat) \<longleftrightarrow> c = CHR 0x5C"
  "of_char c = (8 :: nat) \<longleftrightarrow> c = CHR 0x08" "of_char c = (9 :: nat) \<longleftrightarrow> c = CHR 0x09"
  "of_char c = (10 :: nat) \<longleftrightarrow> c = CHR 0x0A" "of_char c = (12 :: nat) \<longleftrightarrow> c = CHR 0x0C"
  "of_char c = (13 :: nat) \<longleftrightarrow> c = CHR 0x0D"
proof -
  have "of_char (CHR 0x22) = (34 :: nat)" "of_char (CHR 0x5C) = (92 :: nat)" "of_char (CHR 0x08) = (8 :: nat)"
    "of_char (CHR 0x09) = (9 :: nat)" "of_char (CHR 0x0A) = (10 :: nat)" "of_char (CHR 0x0C) = (12 :: nat)"
    "of_char (CHR 0x0D) = (13 :: nat)" by simp_all
  then show "of_char c = (34 :: nat) \<longleftrightarrow> c = CHR 0x22" "of_char c = (92 :: nat) \<longleftrightarrow> c = CHR 0x5C"
    "of_char c = (8 :: nat) \<longleftrightarrow> c = CHR 0x08" "of_char c = (9 :: nat) \<longleftrightarrow> c = CHR 0x09"
    "of_char c = (10 :: nat) \<longleftrightarrow> c = CHR 0x0A" "of_char c = (12 :: nat) \<longleftrightarrow> c = CHR 0x0C"
    "of_char c = (13 :: nat) \<longleftrightarrow> c = CHR 0x0D" by (metis of_char_eq_iff)+
qed

lemma control_chars:
  "char_of (8 :: nat) = CHR 0x08" "char_of (9 :: nat) = CHR 0x09" "char_of (10 :: nat) = CHR 0x0A"
  "char_of (12 :: nat) = CHR 0x0C" "char_of (13 :: nat) = CHR 0x0D"
  by (metis char_codes char_of_char)+

lemma unescape_escape: "unescape (escape_char c @ r) = (c, r)"
proof -
  define n where "n = (of_char c :: nat)"
  consider "c \<in> {CHR 0x22, CHR 0x5C, CHR 0x08, CHR 0x09, CHR 0x0A, CHR 0x0C, CHR 0x0D}"
    | "n < 32" "c \<notin> {CHR 0x22, CHR 0x5C, CHR 0x08, CHR 0x09, CHR 0x0A, CHR 0x0C, CHR 0x0D}"
    | "\<not> n < 32" "c \<notin> {CHR 0x22, CHR 0x5C, CHR 0x08, CHR 0x09, CHR 0x0A, CHR 0x0C, CHR 0x0D}" by blast
  then show ?thesis
  proof cases
    case 1
    then show ?thesis
      by (elim insertE emptyE) (simp_all add: unescape_def escape_char_def control_chars)
  next
    case 2
    then have "escape_char c = [CHR 0x5C, CHR ''u'', CHR ''0'', CHR ''0'', hex_digit (n div 16), hex_digit (n mod 16)]"
      by (simp add: escape_char_def n_def Let_def char_codes)
    moreover have "16 * (n div 16) + n mod 16 = n" "n div 16 < 16" using 2 by simp_all
    moreover have "char_of n = c" by (simp add: n_def)
    ultimately show ?thesis
      by (simp add: unescape_def hex_value_digit numeral_2_eq_2 numeral_3_eq_3 del: hex_value.simps)
  next
    case 3
    then have "escape_char c = [c]" by (simp add: escape_char_def n_def Let_def char_codes)
    then show ?thesis using 3 by (simp add: unescape_def)
  qed
qed

lemma escape_prefix:
  assumes "escape_char a @ r = escape_char b @ s"
  shows "a = b \<and> r = s"
proof -
  have "unescape (escape_char a @ r) = unescape (escape_char b @ s)" using assms by (rule arg_cong)
  then show ?thesis unfolding unescape_escape by simp
qed

lemma escape_first: "\<exists>x xs. escape_char c = x # xs \<and> x \<noteq> CHR 0x22"
  by (auto simp: escape_char_def Let_def)

lemma quote_body: "concat (map escape_char a) @ CHR 0x22 # r = concat (map escape_char b) @ CHR 0x22 # s \<Longrightarrow> a = b \<and> r = s"
proof (induction a arbitrary: b)
  case Nil
  show ?case
  proof (cases b)
    case b: (Cons y ys)
    obtain z zs where "escape_char y = z # zs" "z \<noteq> CHR 0x22" using escape_first by blast
    then show ?thesis using Nil by (simp add: b)
  qed (use Nil in simp)
next
  case (Cons x xs)
  show ?case
  proof (cases b)
    case Nil
    obtain y ys where "escape_char x = y # ys" "y \<noteq> CHR 0x22" using escape_first by blast
    then show ?thesis using Cons.prems by (simp add: Nil)
  next
    case b: (Cons y ys)
    have "x = y \<and> concat (map escape_char xs) @ CHR 0x22 # r = concat (map escape_char ys) @ CHR 0x22 # s"
      using Cons.prems by (intro escape_prefix) (simp add: b)
    with Cons.IH [of ys] show ?thesis by (simp add: b)
  qed
qed

lemma quoted_prefix: "quoted a @ r = quoted b @ s \<Longrightarrow> a = b \<and> r = s"
  using quote_body [of a r b s] by (simp add: quoted_def)

text \<open>
  What the text of a number has to be: one text per number of the set \<open>N\<close> (the doubles), of digits, signs, a
  point and an exponent.
\<close>

definition number_char :: "char \<Rightarrow> bool" where
  "number_char c \<longleftrightarrow> c \<in> set ''0123456789+-.e''"

definition number_texts :: "real set \<Rightarrow> (real \<Rightarrow> string) \<Rightarrow> bool" where
  "number_texts N num \<longleftrightarrow> inj_on num N \<and> (\<forall>r \<in> N. num r \<noteq> [] \<and> list_all number_char (num r))"

fun numbers_of :: "json_value \<Rightarrow> real set" where
  "numbers_of (V_number r) = {r}"
| "numbers_of (V_array vs) = (\<Union>v \<in> set vs. numbers_of v)"
| "numbers_of (V_object ps) = (\<Union>p \<in> set ps. numbers_of (snd p))"
| "numbers_of _ = {}"

text \<open>What follows a value inside a text.\<close>

definition delimited :: "string \<Rightarrow> bool" where
  "delimited r \<longleftrightarrow> r = [] \<or> hd r \<in> {CHR '','', CHR '']'', CHR ''}''}"

definition prefix_code :: "('a \<Rightarrow> string) \<Rightarrow> 'a \<Rightarrow> 'a set \<Rightarrow> bool" where
  "prefix_code f v A \<longleftrightarrow> (\<forall>w \<in> A. \<forall>r s. delimited r \<longrightarrow> delimited s \<longrightarrow> f v @ r = f w @ s \<longrightarrow> v = w \<and> r = s)"

lemma number_span:
  assumes "list_all number_char x" and "list_all number_char y" and "delimited r" and "delimited s" and "x @ r = y @ s"
  shows "x = y \<and> r = s"
proof -
  have stop: "takeWhile number_char (z @ t) = z" if "list_all number_char z" "delimited t" for z t
    using that by (induction z) (auto simp: delimited_def number_char_def takeWhile_eq_Nil_iff)
  from stop [OF assms(1,3)] stop [OF assms(2,4)] assms(5) show ?thesis by simp
qed

lemma items_prefix:
  assumes "\<forall>v \<in> set vs. prefix_code f v A" and "set ws \<subseteq> A" and "c \<in> {CHR '']'', CHR ''}''}"
    and "concat (map (\<lambda>v. CHR '','' # f v) vs) @ c # r = concat (map (\<lambda>v. CHR '','' # f v) ws) @ c # s"
  shows "vs = ws \<and> r = s"
  using assms
proof (induction vs arbitrary: ws)
  case Nil
  then show ?case by (cases ws) auto
next
  case (Cons v vs)
  show ?case
  proof (cases ws)
    case Nil
    then show ?thesis using Cons.prems by auto
  next
    case w: (Cons w ws')
    have delim: "delimited (concat (map (\<lambda>v. CHR '','' # f v) xs) @ c # t)" for xs t
      using Cons.prems(3) by (cases xs) (auto simp: delimited_def)
    have "prefix_code f v A" "w \<in> A"
      and "f v @ concat (map (\<lambda>v. CHR '','' # f v) vs) @ c # r = f w @ concat (map (\<lambda>v. CHR '','' # f v) ws') @ c # s"
      using Cons.prems(1,2,4) by (auto simp: w)
    then have "v = w \<and> concat (map (\<lambda>v. CHR '','' # f v) vs) @ c # r = concat (map (\<lambda>v. CHR '','' # f v) ws') @ c # s"
      using delim unfolding prefix_code_def by blast
    with Cons.IH [of ws'] Cons.prems show ?thesis by (simp add: w)
  qed
qed

lemma commas_prefix:
  assumes "\<forall>v \<in> set vs. prefix_code f v A" and "set ws \<subseteq> A" and "c \<in> {CHR '']'', CHR ''}''}"
    and "\<And>v. v \<in> set vs \<union> set ws \<Longrightarrow> f v \<noteq> [] \<and> hd (f v) \<noteq> c"
    and "commas (map f vs) @ c # r = commas (map f ws) @ c # s"
  shows "vs = ws \<and> r = s"
proof -
  have "(vs = [] \<longleftrightarrow> ws = [])"
  proof -
    have "hd (commas (map f xs) @ c # t) = c \<longleftrightarrow> xs = []" if "\<forall>v \<in> set xs. f v \<noteq> [] \<and> hd (f v) \<noteq> c" for xs t
      using that by (cases xs) auto
    from this [of vs r] this [of ws s] show ?thesis using assms(4,5) by simp
  qed
  moreover have "vs = ws \<and> r = s" if vs: "vs = v # vs'" and ws: "ws = w # ws'" for v vs' w ws'
  proof -
    have "concat (map (\<lambda>v. CHR '','' # f v) vs) @ c # r = concat (map (\<lambda>v. CHR '','' # f v) ws) @ c # s"
      using assms(5) by (simp add: vs ws comp_def)
    with items_prefix [OF assms(1-3)] show ?thesis by blast
  qed
  ultimately show ?thesis using assms(5) by (metis append_Nil commas.simps(1) list.exhaust list.inject list.map(1))
qed

lemma text_head:
  assumes "number_texts N num" and "numbers_of v \<subseteq> N"
  shows "stringify num v \<noteq> [] \<and> hd (stringify num v) \<notin> {CHR '']'', CHR ''}'', CHR '',''}"
proof (cases v)
  case (V_number r)
  then have "num r \<noteq> []" "list_all number_char (num r)" using assms by (auto simp: number_texts_def)
  then show ?thesis by (cases "num r") (auto simp: V_number number_char_def)
qed (auto simp: quoted_def)

lemma text_kind:
  assumes "number_texts N num" and "numbers_of v \<subseteq> N"
  shows "number_char (hd (stringify num v)) \<longleftrightarrow> (\<exists>r. v = V_number r)"
proof (cases v)
  case (V_number r)
  then have "num r \<noteq> []" "list_all number_char (num r)" using assms by (auto simp: number_texts_def)
  then show ?thesis by (cases "num r") (auto simp: V_number)
qed (auto simp: quoted_def number_char_def)

lemma same_kind:
  assumes "number_texts N num" and "numbers_of v \<subseteq> N" and "numbers_of w \<subseteq> N" and "stringify num v @ r = stringify num w @ s"
  shows "(\<exists>a. v = V_number a) \<longleftrightarrow> (\<exists>b. w = V_number b)"
proof -
  have "hd (stringify num v) = hd (stringify num w)"
    using assms(4) text_head [OF assms(1,2)] text_head [OF assms(1,3)] by (metis hd_append2)
  then show ?thesis using text_kind [OF assms(1,2)] text_kind [OF assms(1,3)] by simp
qed

lemma prefix_codeI:
  assumes "number_texts N num" and "numbers_of v \<subseteq> N"
    and "\<And>w r s. numbers_of w \<subseteq> N \<Longrightarrow> delimited r \<Longrightarrow> delimited s \<Longrightarrow> stringify num v @ r = stringify num w @ s
      \<Longrightarrow> (\<exists>a. v = V_number a) \<longleftrightarrow> (\<exists>b. w = V_number b) \<Longrightarrow> v = w \<and> r = s"
  shows "prefix_code (stringify num) v {w. numbers_of w \<subseteq> N}"
  unfolding prefix_code_def
proof (intro ballI allI impI)
  fix w r s
  assume "w \<in> {w. numbers_of w \<subseteq> N}" and d: "delimited r" "delimited s" and e: "stringify num v @ r = stringify num w @ s"
  then have w: "numbers_of w \<subseteq> N" by simp
  show "v = w \<and> r = s" by (rule assms(3) [OF w d e same_kind [OF assms(1,2) w e]])
qed

lemma stringify_prefix:
  assumes "number_texts N num"
  shows "numbers_of v \<subseteq> N \<Longrightarrow> prefix_code (stringify num) v {w. numbers_of w \<subseteq> N}"
proof (induction v)
  case (V_number a)
  show ?case
  proof (rule prefix_codeI [OF assms V_number])
    fix w r s
    assume w: "numbers_of w \<subseteq> N" and d: "delimited r" "delimited s"
      and e: "stringify num (V_number a) @ r = stringify num w @ s" and k: "(\<exists>b. V_number a = V_number b) = (\<exists>b. w = V_number b)"
    from k obtain b where b: "w = V_number b" by auto
    have ab: "a \<in> N" "b \<in> N" using V_number w b by auto
    then have "num a = num b \<and> r = s"
      using e number_span [of "num a" "num b" r s] d assms by (auto simp: b number_texts_def)
    then show "V_number a = w \<and> r = s" using ab assms by (auto simp: b number_texts_def inj_on_def)
  qed
next
  case (V_array vs)
  have code: "\<forall>v \<in> set vs. prefix_code (stringify num) v {w. numbers_of w \<subseteq> N}" using V_array by auto
  show ?case
  proof (rule prefix_codeI [OF assms V_array.prems])
    fix w r s
    assume w: "numbers_of w \<subseteq> N" and e: "stringify num (V_array vs) @ r = stringify num w @ s"
      and "(\<exists>b. V_array vs = V_number b) = (\<exists>b. w = V_number b)"
    then obtain ws where ws: "w = V_array ws" by (cases w) (auto simp: quoted_def split: if_splits)
    have heads: "stringify num v \<noteq> [] \<and> hd (stringify num v) \<noteq> CHR '']''" if "v \<in> set vs \<union> set ws" for v
    proof -
      have "numbers_of v \<subseteq> N" using that V_array.prems w by (auto simp: ws)
      from text_head [OF assms this] show ?thesis by simp
    qed
    have sub: "set ws \<subseteq> {w. numbers_of w \<subseteq> N}" using w by (auto simp: ws)
    have "vs = ws \<and> r = s"
      using e by (intro commas_prefix [OF code sub, of "CHR '']''"] heads) (simp_all add: ws)
    then show "V_array vs = w \<and> r = s" by (simp add: ws)
  qed
next
  case (V_object ps)
  let ?item = "\<lambda>(k, v). quoted k @ '':'' @ stringify num v"
  have code: "\<forall>p \<in> set ps. prefix_code ?item p {q. numbers_of (snd q) \<subseteq> N}"
  proof
    fix p
    assume p: "p \<in> set ps"
    have ih: "prefix_code (stringify num) (snd p) {w. numbers_of w \<subseteq> N}"
      using V_object.prems p by (intro V_object.IH [of p "snd p"]) (auto simp: snds.intros)
    show "prefix_code ?item p {q. numbers_of (snd q) \<subseteq> N}"
      unfolding prefix_code_def
    proof (intro ballI allI impI)
      fix q r s
      assume q: "q \<in> {q. numbers_of (snd q) \<subseteq> N}" and d: "delimited r" "delimited s" and e: "?item p @ r = ?item q @ s"
      have "fst p = fst q \<and> stringify num (snd p) @ r = stringify num (snd q) @ s"
        using quoted_prefix [of "fst p" "'':'' @ stringify num (snd p) @ r" "fst q" "'':'' @ stringify num (snd q) @ s"] e
        by (simp add: split_beta)
      moreover from this have "snd p = snd q \<and> r = s" using ih q d unfolding prefix_code_def by blast
      ultimately show "p = q \<and> r = s" by (simp add: prod_eq_iff)
    qed
  qed
  show ?case
  proof (rule prefix_codeI [OF assms V_object.prems])
    fix w r s
    assume w: "numbers_of w \<subseteq> N" and e: "stringify num (V_object ps) @ r = stringify num w @ s"
      and "(\<exists>b. V_object ps = V_number b) = (\<exists>b. w = V_number b)"
    then obtain qs where qs: "w = V_object qs" by (cases w) (auto simp: quoted_def split: if_splits)
    have sub: "set qs \<subseteq> {q. numbers_of (snd q) \<subseteq> N}" using w by (auto simp: qs)
    have heads: "?item p \<noteq> [] \<and> hd (?item p) \<noteq> CHR ''}''" for p by (simp add: quoted_def split_beta)
    have "ps = qs \<and> r = s"
      using e by (intro commas_prefix [OF code sub, of "CHR ''}''"] heads) (simp_all add: qs)
    then show "V_object ps = w \<and> r = s" by (simp add: qs)
  qed
next
  case V_null
  show ?case by (rule prefix_codeI [OF assms V_null], case_tac w) (auto simp: quoted_def split: if_splits)
next
  case (V_bool b)
  show ?case by (rule prefix_codeI [OF assms V_bool], case_tac w) (auto simp: quoted_def split: if_splits)
next
  case (V_string t)
  show ?case
  proof (rule prefix_codeI [OF assms V_string])
    fix w r s
    assume e: "stringify num (V_string t) @ r = stringify num w @ s"
      and "(\<exists>b. V_string t = V_number b) = (\<exists>b. w = V_number b)"
    then obtain u where u: "w = V_string u" by (cases w) (auto simp: quoted_def split: if_splits)
    show "V_string t = w \<and> r = s" using e quoted_prefix [of t r u s] by (simp add: u)
  qed
qed

lemma stringify_inj:
  assumes "number_texts N num" and "numbers_of v \<subseteq> N" and "numbers_of w \<subseteq> N"
  shows "stringify num v = stringify num w \<longleftrightarrow> v = w"
proof
  assume "stringify num v = stringify num w"
  then have "stringify num v @ [] = stringify num w @ []" by simp
  moreover have "delimited []" by (simp add: delimited_def)
  ultimately show "v = w" using stringify_prefix [OF assms(1,2)] assms(3) unfolding prefix_code_def by blast
qed simp

text \<open>Such texts exist: on the natural numbers the decimal ones.\<close>

definition nat_text :: "real \<Rightarrow> string" where
  "nat_text r = decimal (nat \<lfloor>r\<rfloor>)"

lemma nat_texts: "number_texts \<nat> nat_text"
proof -
  have "list_all number_char (decimal n)" for n
  proof (rule list.pred_mono_strong [of js_digit])
    show "list_all js_digit (decimal n)" using decimal_digits by blast
    fix c assume "js_digit c"
    then obtain m where m: "of_char c = 48 + (m :: nat)" "m < 10" by (auto simp: js_digit_def Let_def le_iff_add)
    then have "c = char_of (48 + m)" by (metis char_of_char)
    moreover have "m \<in> set [0..<10]" using m(2) by simp
    moreover have "list_all (\<lambda>m. number_char (char_of (48 + m :: nat))) [0..<10]" by code_simp
    ultimately show "number_char c" unfolding list_all_iff by blast
  qed
  then show ?thesis
    using decimal_digits by (simp add: number_texts_def nat_text_def inj_on_def Nats_def decimal_inj)
qed

text \<open>A name put with a point before a digest can be read off when all digests have one length.\<close>

lemma namespaced_inj:
  assumes "length d = n" and "length d' = n"
    and "(if k = [] then d else k @ ''.'' @ d) = (if k' = [] then d' else k' @ ''.'' @ d')"
  shows "k = k' \<and> d = d'"
proof (cases "k = []"; cases "k' = []")
  assume "k \<noteq> []" "k' \<noteq> []"
  then have "(k @ ''.'') @ d = (k' @ ''.'') @ d'" using assms(3) by simp
  then have "k @ ''.'' = k' @ ''.'' \<and> d = d'" using assms(1,2) by (metis append_eq_append_conv)
  then show ?thesis by simp
next
  assume e: "k = []" "k' \<noteq> []"
  then have "length d = length (k' @ ''.'' @ d')" using assms(3) by simp
  then show ?thesis using e assms by simp
next
  assume e: "k \<noteq> []" "k' = []"
  then have "length (k @ ''.'' @ d) = length d'" using assms(3) by simp
  then show ?thesis using e assms by simp
qed (use assms in simp)

end
