(* ===== verification/NumberText.thy ===== *)
theory NumberText
  imports JsonText
begin

text \<open>
  \<open>Number(s)\<close> for a string, which the code uses to read amounts and times that come as text. It is the
  grammar \<open>StringNumericLiteral\<close> of the language: blanks around it are dropped, the empty text is zero, an
  integer may have base 2, 8 or 16 (then without a sign), and a decimal has a sign, digits with a point,
  and an exponent. Everything else is not a number. A double is a real here, so nothing is rounded, but a
  text beyond the range of a double is infinite, and one below the least positive double is zero.
\<close>

datatype config_value = Value js_value | Text string

subsection \<open>Number\<close>

definition digit_of :: "char \<Rightarrow> int option" where
  "digit_of c =
     (let n = of_char c :: int
      in if 48 \<le> n \<and> n \<le> 57 then Some (n - 48)
         else if 65 \<le> n \<and> n \<le> 90 then Some (n - 55)
         else if 97 \<le> n \<and> n \<le> 122 then Some (n - 87)
         else None)"

fun radix_digits :: "int \<Rightarrow> int \<Rightarrow> string \<Rightarrow> int option" where
  "radix_digits b acc [] = Some acc"
| "radix_digits b acc (c # cs) =
     (case digit_of c of
        None \<Rightarrow> None
      | Some d \<Rightarrow> if d < b then radix_digits b (b * acc + d) cs else None)"

text \<open>The base a prefix stands for.\<close>

definition radix_of :: "char \<Rightarrow> int option" where
  "radix_of c =
     (if c = CHR ''x'' \<or> c = CHR ''X'' then Some 16
      else if c = CHR ''o'' \<or> c = CHR ''O'' then Some 8
      else if c = CHR ''b'' \<or> c = CHR ''B'' then Some 2
      else None)"

definition ten_to :: "int \<Rightarrow> real" where
  "ten_to e = (if 0 \<le> e then 10 ^ nat e else 1 / 10 ^ nat (- e))"

definition as_double :: "real \<Rightarrow> js_value" where
  "as_double r =
     (if 2 ^ 1024 - 2 ^ 970 \<le> \<bar>r\<bar> then Infinite else if \<bar>r\<bar> \<le> 1 / 2 ^ 1075 then Number 0 else Number r)"

definition exponent_value :: "string \<Rightarrow> int option" where
  "exponent_value s =
     (let (sign, ds) = (case s of [] \<Rightarrow> (1, []) | c # cs \<Rightarrow>
            if c = CHR ''-'' then (- 1, cs) else if c = CHR ''+'' then (1, cs) else (1, c # cs))
      in if ds \<noteq> [] \<and> list_all js_digit ds then Some (sign * digits_value 0 ds) else None)"

text \<open>\<open>StrUnsignedDecimalLiteral\<close>, but for \<open>Infinity\<close>.\<close>

definition decimal_value :: "string \<Rightarrow> real option" where
  "decimal_value s =
     (let whole = takeWhile js_digit s; rest = dropWhile js_digit s;
          point = (rest \<noteq> [] \<and> hd rest = CHR ''.'');
          fraction = (if point then takeWhile js_digit (tl rest) else []);
          after = (if point then dropWhile js_digit (tl rest) else rest);
          exponent = (case after of
             [] \<Rightarrow> Some 0
           | c # cs \<Rightarrow> if c = CHR ''e'' \<or> c = CHR ''E'' then exponent_value cs else None)
      in if whole @ fraction = [] then None
         else map_option (\<lambda>e. of_int (digits_value 0 (whole @ fraction)) * ten_to (e - int (length fraction))) exponent)"

definition unsigned_number :: "string \<Rightarrow> js_value" where
  "unsigned_number s =
     (if s = ''Infinity'' then Infinite
      else case decimal_value s of None \<Rightarrow> Not_a_number | Some r \<Rightarrow> as_double r)"

fun negated :: "js_value \<Rightarrow> js_value" where
  "negated (Number r) = Number (- r)"
| "negated v = v"

definition js_number :: "string \<Rightarrow> js_value" where
  "js_number text =
     (let s = js_trim text
      in case s of
           [] \<Rightarrow> Number 0
         | c # cs \<Rightarrow>
             if c = CHR ''-'' then negated (unsigned_number cs)
             else if c = CHR ''+'' then unsigned_number cs
             else
               (case (if c = CHR ''0'' \<and> cs \<noteq> [] then radix_of (hd cs) else None) of
                  None \<Rightarrow> unsigned_number s
                | Some b \<Rightarrow>
                    (if tl cs = [] then Not_a_number
                     else case radix_digits b 0 (tl cs) of
                            None \<Rightarrow> Not_a_number
                          | Some n \<Rightarrow> as_double (of_int n))))"

subsection \<open>What texts mean\<close>

lemma as_double_number: "as_double r = Number x \<Longrightarrow> x = r \<or> x = 0"
  by (auto simp: as_double_def split: if_splits)

lemma trim_digits: "list_all js_digit s \<Longrightarrow> js_trim s = s"
proof -
  assume "list_all js_digit s"
  then have no: "\<not> js_space c" if "c \<in> set s" for c
    using that by (auto simp: list_all_iff js_digit_def js_space_def Let_def)
  have "dropWhile js_space s = s" using no [of "hd s"] by (cases "s = []") (simp_all add: dropWhile_eq_self_iff)
  moreover have "dropWhile js_space (rev s) = rev s" using no [of "last s"] by (cases "s = []") (simp_all add: dropWhile_eq_self_iff hd_rev)
  ultimately show ?thesis by (simp add: js_trim_def)
qed

text \<open>The decimal text of a natural number in the range of a double is that number.\<close>

lemma js_number_decimal:
  assumes "real n < 2 ^ 1024 - 2 ^ 970"
  shows "js_number (decimal n) = Number (real n)"
proof -
  note d = decimal_digits [of n]
  obtain c cs where s: "decimal n = c # cs" using d by (cases "decimal n") auto
  have c: "js_digit c" using d s by simp
  have head: "c \<noteq> CHR ''-''" "c \<noteq> CHR ''+''" "decimal n \<noteq> ''Infinity''"
    using c s by (auto simp: js_digit_def)
  have radix: "(if c = CHR ''0'' \<and> cs \<noteq> [] then radix_of (hd cs) else None) = None"
    using d s by (cases cs) (auto simp: js_digit_def radix_of_def)
  have all: "takeWhile js_digit (decimal n) = decimal n" "dropWhile js_digit (decimal n) = []"
    using d takeWhile_all [of js_digit "decimal n"] by (simp_all add: list_all_iff)
  have "decimal_value (decimal n) = Some (real n)"
    using d by (simp add: decimal_value_def all ten_to_def)
  moreover have "as_double (real n) = Number (real n)"
  proof (cases "n = 0")
    case False
    then have "1 / 2 ^ 1075 < (1 :: real)" "1 \<le> real n" by (simp_all add: field_simps)
    then show ?thesis using assms by (simp add: as_double_def)
  qed (simp add: as_double_def)
  ultimately show ?thesis
    using head radix trim_digits [of "decimal n"] d by (simp add: js_number_def unsigned_number_def s)
qed

lemma js_number_examples:
  "js_number ''12.50'' = Number (25 / 2)" "js_number '' -3e2 '' = Number (- 300)" "js_number ''.5'' = Number (1 / 2)"
  "js_number ''0x1F'' = Number 31" "js_number ''1,5'' = Not_a_number" "js_number ''-0x1'' = Not_a_number"
  "js_number ''5.'' = Number 5" "js_number ''.'' = Not_a_number" "js_number ''1e400'' = Infinite" "js_number ''1e-400'' = Number 0"
  by (simp_all add: js_number_def unsigned_number_def decimal_value_def exponent_value_def ten_to_def as_double_def
      js_trim_def js_space_def js_digit_def radix_of_def digit_of_def Let_def)

end
