(* ===== verification/BudgetRules.thy ===== *)
theory BudgetRules
  imports UtcTime SpendBatch NumberText "HOL-Library.List_Lexorder" "HOL-Library.Char_ord"
begin

text \<open>
  Budgets of API keys: \<^verbatim>\<open>src/src/domain/costRules.ts\<close> with the budget, reset log and cost tables of
  \<^verbatim>\<open>src/src/lib/db/domainState.ts\<close>, over the buffered writer of \<^verbatim>\<open>SpendBatch\<close>. Amounts are reals;
  strings are ASCII. A field of a configuration that comes in is a number, a string, or anything else
  (\<open>config_value\<close>); a string is read as \<^verbatim>\<open>NumberText\<close> says. A database that throws is
  \<open>db_up = False\<close>. The clock is read once per operation. The texts of the warning and of the
  refusal are left out; that a warning was printed is recorded in \<open>cs_warnings\<close>.
\<close>

subsection \<open>Configurations\<close>

datatype reset_interval = Daily | Weekly | Monthly

record budget_config =
  bc_daily :: config_value
  bc_weekly :: config_value
  bc_monthly :: config_value
  bc_warning :: config_value
  bc_interval :: config_value
  bc_time :: config_value
  bc_resetAt :: config_value
  bc_lastResetAt :: config_value
  bc_warnedAt :: config_value
  bc_warnPeriod :: config_value

record budget =
  bd_daily :: real
  bd_weekly :: real
  bd_monthly :: real
  bd_warning :: real
  bd_interval :: reset_interval
  bd_time :: string
  bd_resetAt :: "real option"
  bd_lastResetAt :: "real option"
  bd_warnedAt :: "real option"
  bd_warnPeriod :: "real option"

text \<open>The finite number that \<open>toNumber\<close> finds in a value; without one it returns the fallback.\<close>

fun finite_in :: "config_value \<Rightarrow> real option" where
  "finite_in (Value (Number r)) = Some r"
| "finite_in (Value _) = None"
| "finite_in (Text s) =
     (if js_trim s = [] then None else case js_number s of Number parsed \<Rightarrow> Some parsed | _ \<Rightarrow> None)"

definition toNumber :: "config_value \<Rightarrow> real \<Rightarrow> real" where
  "toNumber v fallback = (case finite_in v of None \<Rightarrow> fallback | Some r \<Rightarrow> r)"

text \<open>What \<open>typeof value === "string"\<close> lets through.\<close>

fun text_in :: "config_value \<Rightarrow> string option" where
  "text_in (Text s) = Some s"
| "text_in (Value _) = None"

definition normalizeResetInterval :: "string option \<Rightarrow> reset_interval" where
  "normalizeResetInterval v =
     (case v of
        None \<Rightarrow> Daily
      | Some s \<Rightarrow>
          let normalized = js_lower (js_trim s)
          in if normalized = ''weekly'' then Weekly else if normalized = ''monthly'' then Monthly else Daily)"

definition digit_val :: "char \<Rightarrow> int option" where
  "digit_val c = (let n = of_char c :: int in if 48 \<le> n \<and> n \<le> 57 then Some (n - 48) else None)"

definition two_digits :: "char \<Rightarrow> char \<Rightarrow> int option" where
  "two_digits a b = (case (digit_val a, digit_val b) of (Some x, Some y) \<Rightarrow> Some (10 * x + y) | _ \<Rightarrow> None)"

text \<open>The match of \<open>RESET_TIME_REGEX\<close>, with both groups parsed.\<close>

fun match_reset_time :: "string \<Rightarrow> (int \<times> int) option" where
  "match_reset_time [a, b, c, d, e] =
     (if c = CHR '':'' then
        (case (two_digits a b, two_digits d e) of (Some h, Some m) \<Rightarrow> Some (h, m) | _ \<Rightarrow> None)
      else None)"
| "match_reset_time _ = None"

text \<open>\<open>String(n).padStart(2, '0')\<close> for a number below 100.\<close>

definition pad2 :: "int \<Rightarrow> string" where
  "pad2 n = [char_of (48 + n div 10), char_of (48 + n mod 10)]"

definition normalizeResetTime :: "string option \<Rightarrow> string" where
  "normalizeResetTime v =
     (case v of
        None \<Rightarrow> ''00:00''
      | Some s \<Rightarrow>
          (case match_reset_time (js_trim s) of
             None \<Rightarrow> ''00:00''
           | Some (h, m) \<Rightarrow> pad2 (min (max h 0) 23) @ '':'' @ pad2 (min (max m 0) 59)))"

text \<open>The fallback is NaN here, which is not finite.\<close>

definition normalizeTimestamp :: "config_value \<Rightarrow> real option" where
  "normalizeTimestamp v =
     (case finite_in v of None \<Rightarrow> None | Some numeric \<Rightarrow> if 0 < numeric then Some numeric else None)"

definition normalizeBudgetConfig :: "budget_config \<Rightarrow> budget" where
  "normalizeBudgetConfig c =
     \<lparr>bd_daily = max 0 (toNumber (bc_daily c) 0), bd_weekly = max 0 (toNumber (bc_weekly c) 0),
      bd_monthly = max 0 (toNumber (bc_monthly c) 0),
      bd_warning = min (max (toNumber (bc_warning c) (4 / 5)) 0) 1,
      bd_interval = normalizeResetInterval (text_in (bc_interval c)),
      bd_time = normalizeResetTime (text_in (bc_time c)),
      bd_resetAt = normalizeTimestamp (bc_resetAt c), bd_lastResetAt = normalizeTimestamp (bc_lastResetAt c),
      bd_warnedAt = normalizeTimestamp (bc_warnedAt c), bd_warnPeriod = normalizeTimestamp (bc_warnPeriod c)\<rparr>"

fun interval_name :: "reset_interval \<Rightarrow> string" where
  "interval_name Daily = ''daily''"
| "interval_name Weekly = ''weekly''"
| "interval_name Monthly = ''monthly''"

text \<open>A normalized budget where a configuration is expected.\<close>

fun stamp :: "real option \<Rightarrow> config_value" where
  "stamp None = Value Null"
| "stamp (Some r) = Value (Number r)"

definition as_config :: "budget \<Rightarrow> budget_config" where
  "as_config b =
     \<lparr>bc_daily = Value (Number (bd_daily b)), bc_weekly = Value (Number (bd_weekly b)),
      bc_monthly = Value (Number (bd_monthly b)), bc_warning = Value (Number (bd_warning b)),
      bc_interval = Text (interval_name (bd_interval b)), bc_time = Text (bd_time b),
      bc_resetAt = stamp (bd_resetAt b), bc_lastResetAt = stamp (bd_lastResetAt b),
      bc_warnedAt = stamp (bd_warnedAt b), bc_warnPeriod = stamp (bd_warnPeriod b)\<rparr>"

lemma toNumber_number [simp]: "toNumber (Value (Number r)) fallback = r"
  by (simp add: toNumber_def)

text \<open>The decimal text of a natural number is read as that number, and a blank text as nothing.\<close>

lemma toNumber_decimal: "real n < 2 ^ 1024 - 2 ^ 970 \<Longrightarrow> toNumber (Text (decimal n)) fallback = real n"
  using trim_digits [of "decimal n"] decimal_digits [of n] by (simp add: toNumber_def js_number_decimal)

subsection \<open>Windows\<close>

record budget_window =
  periodStartAt :: int
  nextResetAt :: int

definition getResetTimeParts :: "string \<Rightarrow> int \<times> int" where
  "getResetTimeParts s = (case match_reset_time s of None \<Rightarrow> (0, 0) | Some p \<Rightarrow> p)"

definition getBudgetWindow :: "reset_interval \<Rightarrow> string \<Rightarrow> int \<Rightarrow> budget_window" where
  "getBudgetWindow iv resetTime now =
     (let (hours, minutes) = getResetTimeParts (normalizeResetTime (Some resetTime));
          year = getUTCFullYear now; month = getUTCMonth now; day = getUTCDate now
      in case iv of
           Weekly \<Rightarrow>
             let daysSinceMonday = (getUTCDay now + 6) mod 7;
                 thisWeekReset = Date_UTC year month (day - daysSinceMonday) hours minutes
             in if thisWeekReset \<le> now
                then \<lparr>periodStartAt = thisWeekReset, nextResetAt = Date_UTC year month (day - daysSinceMonday + 7) hours minutes\<rparr>
                else \<lparr>periodStartAt = Date_UTC year month (day - daysSinceMonday - 7) hours minutes, nextResetAt = thisWeekReset\<rparr>
         | Monthly \<Rightarrow>
             let thisMonthReset = Date_UTC year month 1 hours minutes
             in if thisMonthReset \<le> now
                then \<lparr>periodStartAt = thisMonthReset, nextResetAt = Date_UTC year (month + 1) 1 hours minutes\<rparr>
                else \<lparr>periodStartAt = Date_UTC year (month - 1) 1 hours minutes, nextResetAt = thisMonthReset\<rparr>
         | Daily \<Rightarrow>
             let todayReset = Date_UTC year month day hours minutes
             in if todayReset \<le> now
                then \<lparr>periodStartAt = todayReset, nextResetAt = Date_UTC year month (day + 1) hours minutes\<rparr>
                else \<lparr>periodStartAt = Date_UTC year month (day - 1) hours minutes, nextResetAt = todayReset\<rparr>)"

definition getActiveBudgetLimit :: "budget \<Rightarrow> real" where
  "getActiveBudgetLimit b =
     (case bd_interval b of
        Monthly \<Rightarrow> if 0 < bd_monthly b then bd_monthly b else bd_daily b
      | Weekly \<Rightarrow> if 0 < bd_weekly b then bd_weekly b else bd_daily b
      | Daily \<Rightarrow> bd_daily b)"

subsection \<open>Reset times and windows\<close>

lemma digit_char: "0 \<le> x \<Longrightarrow> x \<le> 9 \<Longrightarrow> digit_val (char_of (48 + x)) = Some x"
  by (simp add: digit_val_def Let_def)

lemma digit_char_not_space: "0 \<le> x \<Longrightarrow> x \<le> 9 \<Longrightarrow> \<not> js_space (char_of (48 + x :: int))"
proof -
  assume x: "0 \<le> x" "x \<le> 9"
  have "(of_char (char_of (48 + x)) :: int) = 48 + x" using x by simp
  moreover have "(of_char c :: int) = int (of_char c)" for c by (simp add: of_nat_of_char)
  ultimately have "int (of_char (char_of (48 + x))) = 48 + x" by simp
  then show ?thesis using x by (auto simp: js_space_def)
qed

lemma pad2_digits: "0 \<le> n \<Longrightarrow> n < 100 \<Longrightarrow> \<exists>x y. n = 10 * x + y \<and> 0 \<le> x \<and> x \<le> 9 \<and> 0 \<le> y \<and> y \<le> 9
    \<and> pad2 n = [char_of (48 + x), char_of (48 + y)]"
  by (rule exI [of _ "n div 10"], rule exI [of _ "n mod 10"]) (auto simp: pad2_def)

definition time_text :: "int \<Rightarrow> int \<Rightarrow> string" where
  "time_text h m = pad2 h @ '':'' @ pad2 m"

lemma time_text_facts:
  assumes "0 \<le> h" "h < 100" "0 \<le> m" "m < 100"
  shows "match_reset_time (time_text h m) = Some (h, m)" and "js_trim (time_text h m) = time_text h m"
proof -
  obtain a b where h: "h = 10 * a + b" "0 \<le> a" "a \<le> 9" "0 \<le> b" "b \<le> 9" "pad2 h = [char_of (48 + a), char_of (48 + b)]"
    using pad2_digits [OF assms(1,2)] by blast
  obtain c d where m: "m = 10 * c + d" "0 \<le> c" "c \<le> 9" "0 \<le> d" "d \<le> 9" "pad2 m = [char_of (48 + c), char_of (48 + d)]"
    using pad2_digits [OF assms(3,4)] by blast
  show "match_reset_time (time_text h m) = Some (h, m)"
    using h m by (simp add: time_text_def two_digits_def digit_char)
  show "js_trim (time_text h m) = time_text h m"
    using digit_char_not_space [OF h(2,3)] digit_char_not_space [OF m(4,5)] by (simp add: time_text_def h(6) m(6) js_trim_def)
qed

lemma normal_reset_time: "\<exists>h m. 0 \<le> h \<and> h \<le> 23 \<and> 0 \<le> m \<and> m \<le> 59 \<and> normalizeResetTime v = time_text h m"
proof -
  have z: "''00:00'' = time_text 0 0" by (simp add: time_text_def pad2_def) code_simp
  show ?thesis
  proof (cases v)
    case None
    then show ?thesis using z by (intro exI [of _ 0]) (simp add: normalizeResetTime_def)
  next
    case (Some s)
    show ?thesis
    proof (cases "match_reset_time (js_trim s)")
      case None
      then show ?thesis using z Some by (intro exI [of _ 0]) (simp add: normalizeResetTime_def)
    next
      case (Some p)
      obtain h m where p: "p = (h, m)" by (cases p)
      show ?thesis using \<open>v = Some s\<close> Some p
        by (intro exI [of _ "min (max h 0) 23"] exI [of _ "min (max m 0) 59"]) (simp add: normalizeResetTime_def time_text_def)
    qed
  qed
qed

lemma normalizeResetTime_idem: "normalizeResetTime (Some (normalizeResetTime v)) = normalizeResetTime v"
proof -
  obtain h m where t: "0 \<le> h" "h \<le> 23" "0 \<le> m" "m \<le> 59" "normalizeResetTime v = time_text h m" using normal_reset_time by blast
  then show ?thesis using time_text_facts [of h m] by (simp add: normalizeResetTime_def) (simp add: time_text_def)
qed

text \<open>The offset of the reset in its day.\<close>

definition reset_offset :: "string \<Rightarrow> int" where
  "reset_offset t = (let (h, m) = getResetTimeParts (normalizeResetTime (Some t)) in h * 3600000 + m * 60000)"

lemma reset_offset_bounds: "0 \<le> reset_offset t \<and> reset_offset t < MS_PER_DAY"
proof -
  obtain h m where "0 \<le> h" "h \<le> 23" "0 \<le> m" "m \<le> 59" "normalizeResetTime (Some t) = time_text h m" using normal_reset_time by blast
  then show ?thesis using time_text_facts(1) [of h m] by (simp add: reset_offset_def getResetTimeParts_def)
qed

text \<open>The resets of a schedule, counted through: \<open>reset_at iv t j\<close> begins the window \<open>j\<close>.\<close>

fun reset_day :: "reset_interval \<Rightarrow> int \<Rightarrow> int" where
  "reset_day Daily j = j"
| "reset_day Weekly j = 7 * j - 3"
| "reset_day Monthly j = month_start j"

definition reset_at :: "reset_interval \<Rightarrow> string \<Rightarrow> int \<Rightarrow> int" where
  "reset_at iv t j = reset_day iv j * MS_PER_DAY + reset_offset t"

lemma reset_day_next: "reset_day iv j < reset_day iv (j + 1)"
  using month_start_next [of j] by (cases iv) simp_all

lemma reset_at_next: "reset_at iv t j < reset_at iv t (j + 1)"
  using reset_day_next [of iv j] by (simp add: reset_at_def)

text \<open>Any schedule whose resets increase has one window for each time.\<close>

locale reset_schedule =
  fixes reset :: "int \<Rightarrow> int"
  assumes reset_next: "reset j < reset (j + 1)"
begin

lemma reset_less: "i < j \<Longrightarrow> reset i < reset j"
proof (induction j rule: int_gr_induct)
  case base
  show ?case by (rule reset_next)
next
  case (step j)
  then show ?case using reset_next [of j] by simp
qed

lemma window_unique:
  assumes "reset i \<le> t" and "t < reset (i + 1)" and "reset j \<le> t" and "t < reset (j + 1)"
  shows "i = j"
proof (rule ccontr)
  assume "i \<noteq> j"
  then consider "i + 1 \<le> j" | "j + 1 \<le> i" by linarith
  then show False
  proof cases
    case 1
    then have "reset (i + 1) \<le> reset j" using reset_less [of "i + 1" j] by (cases "i + 1 = j") simp_all
    then show ?thesis using assms by simp
  next
    case 2
    then have "reset (j + 1) \<le> reset i" using reset_less [of "j + 1" i] by (cases "j + 1 = i") simp_all
    then show ?thesis using assms by simp
  qed
qed

end

interpretation budget_schedule: reset_schedule "reset_at iv t" for iv t
  by unfold_locales (rule reset_at_next)

lemma ms_of_day: "utc_day_of now * MS_PER_DAY \<le> now \<and> now < (utc_day_of now + 1) * MS_PER_DAY"
  using div_bounds [of MS_PER_DAY now] by (simp add: utc_day_of_def algebra_simps)

lemma Date_UTC_reset:
  assumes "getResetTimeParts (normalizeResetTime (Some t)) = (h, m)"
  shows "Date_UTC y mo d h m = utc_days y mo d * MS_PER_DAY + reset_offset t"
  using assms by (simp add: Date_UTC_def reset_offset_def)

text \<open>The window of a time is the window of the schedule that contains it.\<close>

lemma window_is_scheduled:
  "\<exists>j. getBudgetWindow iv t now = \<lparr>periodStartAt = reset_at iv t j, nextResetAt = reset_at iv t (j + 1)\<rparr>
     \<and> reset_at iv t j \<le> now \<and> now < reset_at iv t (j + 1)"
proof -
  obtain h m where hm: "getResetTimeParts (normalizeResetTime (Some t)) = (h, m)" by (cases "getResetTimeParts (normalizeResetTime (Some t))")
  note u = Date_UTC_reset [OF hm]
  define d where "d = utc_day_of now"
  have day: "utc_days (getUTCFullYear now) (getUTCMonth now) (getUTCDate now + k) = d + k" for k
    by (simp add: utc_days_add civil_roundtrip d_def)
  note b = ms_of_day [of now, folded d_def] and o = reset_offset_bounds [of t]
  have pick: "\<exists>j. (if a \<le> now then \<lparr>periodStartAt = a, nextResetAt = n\<rparr> else \<lparr>periodStartAt = p, nextResetAt = a\<rparr>)
        = \<lparr>periodStartAt = reset_at iv t j, nextResetAt = reset_at iv t (j + 1)\<rparr> \<and> reset_at iv t j \<le> now \<and> now < reset_at iv t (j + 1)"
    if "a = reset_at iv t i" "n = reset_at iv t (i + 1)" "p = reset_at iv t (i - 1)" "reset_day iv i \<le> d" "d < reset_day iv (i + 1)" for a n p i
  proof (cases "a \<le> now")
    case True
    have "now < reset_at iv t (i + 1)" using that(5) b o by (simp add: reset_at_def)
    then show ?thesis using True that(1,2) by (intro exI [of _ i]) simp
  next
    case False
    have "reset_day iv (i - 1) < d" using reset_day_next [of iv "i - 1"] that(4) by simp
    then have "reset_at iv t (i - 1) \<le> now" using b o by (simp add: reset_at_def)
    then show ?thesis using False that(1,3) by (intro exI [of _ "i - 1"]) simp
  qed
  show ?thesis
  proof (cases iv)
    case Daily
    show ?thesis unfolding getBudgetWindow_def hm Let_def prod.case Daily reset_interval.case
      by (rule pick [unfolded Daily, of _ d]) (use day [of 0] day [of 1] day [of "-1"] in \<open>simp_all add: u reset_at_def\<close>)
  next
    case Weekly
    define w where "w = (getUTCDay now + 6) mod 7"
    have w: "w = (d + 3) mod 7" unfolding w_def getUTCDay_def d_def [symmetric] by presburger
    define i where "i = (d + 3) div 7"
    have "7 * i + w = d + 3" unfolding w i_def by (rule mult_div_mod_eq)
    then have i: "d - w = 7 * i - 3" by simp
    have wb: "0 \<le> w" "w < 7" by (simp_all add: w)
    have dd: "utc_days (getUTCFullYear now) (getUTCMonth now) (getUTCDate now - w) = 7 * i - 3"
      "utc_days (getUTCFullYear now) (getUTCMonth now) (getUTCDate now - w + 7) = 7 * i - 3 + 7"
      "utc_days (getUTCFullYear now) (getUTCMonth now) (getUTCDate now - w - 7) = 7 * i - 3 - 7"
      using day [of "- w"] day [of "- w + 7"] day [of "- w - 7"] i by (simp_all add: algebra_simps)
    show ?thesis unfolding getBudgetWindow_def hm Let_def prod.case Weekly reset_interval.case w_def [symmetric]
      by (rule pick [unfolded Weekly, of _ i]) (use dd i wb in \<open>simp_all add: u reset_at_def\<close>)
  next
    case Monthly
    define i where "i = month_index now"
    have dd: "utc_days (getUTCFullYear now) (getUTCMonth now) 1 = month_start i"
      "utc_days (getUTCFullYear now) (getUTCMonth now + 1) 1 = month_start (i + 1)"
      "utc_days (getUTCFullYear now) (getUTCMonth now - 1) 1 = month_start (i - 1)"
      by (simp_all add: utc_days_index i_def month_index_def add.assoc add_diff_eq)
    show ?thesis unfolding getBudgetWindow_def hm Let_def prod.case Monthly reset_interval.case
      by (rule pick [unfolded Monthly, of _ i])
        (use dd month_index_bounds [of now, folded i_def d_def] in \<open>simp_all add: u reset_at_def\<close>)
  qed
qed

lemma window_at:
  assumes "reset_at iv t j \<le> now" and "now < reset_at iv t (j + 1)"
  shows "getBudgetWindow iv t now = \<lparr>periodStartAt = reset_at iv t j, nextResetAt = reset_at iv t (j + 1)\<rparr>"
  using window_is_scheduled [of iv t now] budget_schedule.window_unique [OF assms] by blast

lemma same_window:
  assumes "periodStartAt (getBudgetWindow iv t now) \<le> t'" and "t' < nextResetAt (getBudgetWindow iv t now)"
  shows "getBudgetWindow iv t t' = getBudgetWindow iv t now"
proof -
  obtain i where i: "getBudgetWindow iv t now = \<lparr>periodStartAt = reset_at iv t i, nextResetAt = reset_at iv t (i + 1)\<rparr>"
    using window_is_scheduled [of iv t now] by blast
  then show ?thesis using window_at [of iv t i t'] assms by simp
qed

subsection \<open>Properties\<close>

text \<open>
  The windows of a budget partition time: for a daily, weekly or monthly budget with any reset
  time, the window computed at a moment contains that moment, is the same at each of its moments, and
  the next window begins exactly where it ends; a window lasts a day, a week, or one calendar month of
  28 to 31 days. A cost is therefore counted in exactly one window, leap years included.
\<close>

theorem budget_windows_partition:
  "let w = getBudgetWindow iv t now in
   periodStartAt w \<le> now \<and> now < nextResetAt w
   \<and> (\<forall>t'. periodStartAt w \<le> t' \<and> t' < nextResetAt w \<longrightarrow> getBudgetWindow iv t t' = w)
   \<and> periodStartAt (getBudgetWindow iv t (nextResetAt w)) = nextResetAt w
   \<and> (case iv of Daily \<Rightarrow> nextResetAt w - periodStartAt w = MS_PER_DAY
       | Weekly \<Rightarrow> nextResetAt w - periodStartAt w = 7 * MS_PER_DAY
       | Monthly \<Rightarrow> 28 * MS_PER_DAY \<le> nextResetAt w - periodStartAt w \<and> nextResetAt w - periodStartAt w \<le> 31 * MS_PER_DAY)"
proof -
  obtain j where w: "getBudgetWindow iv t now = \<lparr>periodStartAt = reset_at iv t j, nextResetAt = reset_at iv t (j + 1)\<rparr>"
    and j: "reset_at iv t j \<le> now" "now < reset_at iv t (j + 1)"
    using window_is_scheduled by blast
  note same = window_at [of iv t]
  have "getBudgetWindow iv t (reset_at iv t (j + 1)) = \<lparr>periodStartAt = reset_at iv t (j + 1), nextResetAt = reset_at iv t (j + 1 + 1)\<rparr>"
    by (rule same [OF order_refl reset_at_next])
  moreover have "case iv of Daily \<Rightarrow> reset_at iv t (j + 1) - reset_at iv t j = MS_PER_DAY
       | Weekly \<Rightarrow> reset_at iv t (j + 1) - reset_at iv t j = 7 * MS_PER_DAY
       | Monthly \<Rightarrow> 28 * MS_PER_DAY \<le> reset_at iv t (j + 1) - reset_at iv t j \<and> reset_at iv t (j + 1) - reset_at iv t j \<le> 31 * MS_PER_DAY"
    using month_start_next [of j] by (cases iv) (simp_all add: reset_at_def)
  ultimately show ?thesis using same j unfolding w Let_def budget_window.select_convs by simp
qed

text \<open>1 March 2024, midnight, with a monthly reset at 05:30: the window is February, of 29 days.\<close>

theorem budget_windows_partition_witness:
  "let w = getBudgetWindow Monthly ''05:30'' 1709251200000 in
   nextResetAt w - periodStartAt w = 29 * MS_PER_DAY \<and> getBudgetWindow Monthly ''05:30'' 1709270999999 = w"
proof -
  have parts: "getResetTimeParts (normalizeResetTime (Some ''05:30'')) = (5, 30)" by code_simp
  have d: "utc_day_of 1709251200000 = 19783" by (simp add: utc_day_of_def)
  have y: "day_from_year 2024 = 19723" "leap_year 2024" by (simp_all add: day_from_year_def leap_year_def)
  have "year_of_day 19783 = 2024" by (simp add: year_of_day_def day_from_year_def)
  then have year: "getUTCFullYear 1709251200000 = 2024" by (simp add: getUTCFullYear_def d)
  have "month_of True 60 = 2" by (simp add: month_of_def days_before_def)
  then have month: "getUTCMonth 1709251200000 = 2" by (simp add: getUTCMonth_def year d y)
  have u: "Date_UTC 2024 2 1 5 30 = 1709271000000" "Date_UTC 2024 1 1 5 30 = 1706765400000"
    by (simp_all add: Date_UTC_def utc_days_def y days_before_def)
  have w: "periodStartAt (getBudgetWindow Monthly ''05:30'' 1709251200000) = 1706765400000"
    "nextResetAt (getBudgetWindow Monthly ''05:30'' 1709251200000) = 1709271000000"
    by (simp_all add: getBudgetWindow_def parts year month u)
  define W where "W = getBudgetWindow Monthly ''05:30'' 1709251200000"
  have "\<forall>t'. periodStartAt W \<le> t' \<and> t' < nextResetAt W \<longrightarrow> getBudgetWindow Monthly ''05:30'' t' = W"
    using budget_windows_partition [of Monthly "''05:30''" 1709251200000] unfolding W_def [symmetric] Let_def by (elim conjE)
  from spec [OF this, of 1709270999999] w show ?thesis unfolding W_def [symmetric] Let_def by simp
qed

text \<open>What a normalized budget is: limits and threshold in range, a clock time, positive timestamps.\<close>

definition budget_ok :: "budget \<Rightarrow> bool" where
  "budget_ok b \<longleftrightarrow> 0 \<le> bd_daily b \<and> 0 \<le> bd_weekly b \<and> 0 \<le> bd_monthly b \<and> 0 \<le> bd_warning b \<and> bd_warning b \<le> 1
     \<and> (case match_reset_time (bd_time b) of None \<Rightarrow> False | Some (h, m) \<Rightarrow> 0 \<le> h \<and> h \<le> 23 \<and> 0 \<le> m \<and> m \<le> 59)
     \<and> list_all (\<lambda>x. case x of None \<Rightarrow> True | Some n \<Rightarrow> 0 < n) [bd_resetAt b, bd_lastResetAt b, bd_warnedAt b, bd_warnPeriod b]"

lemma interval_roundtrip: "normalizeResetInterval (Some (interval_name iv)) = iv"
proof -
  have "normalizeResetInterval (Some (interval_name Daily)) = Daily" "normalizeResetInterval (Some (interval_name Weekly)) = Weekly"
    "normalizeResetInterval (Some (interval_name Monthly)) = Monthly"
    by code_simp+
  then show ?thesis by (cases iv) simp_all
qed

lemma digit_val_char: "digit_val c = Some x \<Longrightarrow> 0 \<le> x \<and> x \<le> 9 \<and> c = char_of (48 + x)"
proof -
  assume "digit_val c = Some x"
  then have "(of_char c :: int) = 48 + x" "0 \<le> x" "x \<le> 9" by (auto simp: digit_val_def Let_def split: if_splits)
  moreover have "char_of (of_char c :: int) = c" by simp
  ultimately show ?thesis by simp
qed

lemma two_digits_pad: "two_digits a b = Some n \<Longrightarrow> 0 \<le> n \<and> n < 100 \<and> pad2 n = [a, b]"
  by (auto simp: two_digits_def pad2_def dest!: digit_val_char split: option.splits)

lemma matched_time:
  assumes "match_reset_time s = Some (h, m)"
  shows "s = time_text h m \<and> 0 \<le> h \<and> h < 100 \<and> 0 \<le> m \<and> m < 100"
proof -
  obtain a b d e where s: "s = [a, b, CHR '':'', d, e]" "two_digits a b = Some h" "two_digits d e = Some m"
    using assms by (cases s rule: match_reset_time.cases) (auto split: if_splits option.splits)
  then show ?thesis using two_digits_pad [of a b h] two_digits_pad [of d e m] by (simp add: time_text_def)
qed

lemma budget_ok_normal:
  assumes "budget_ok b"
  shows "normalizeBudgetConfig (as_config b) = b"
proof -
  obtain h m where t: "match_reset_time (bd_time b) = Some (h, m)" "0 \<le> h" "h \<le> 23" "0 \<le> m" "m \<le> 59"
    using assms by (auto simp: budget_ok_def split: option.splits)
  then have "normalizeResetTime (Some (bd_time b)) = bd_time b"
    using matched_time [OF t(1)] time_text_facts [of h m] by (simp add: normalizeResetTime_def) (simp add: time_text_def)
  moreover have "normalizeTimestamp (stamp x) = x" if "case x of None \<Rightarrow> True | Some n \<Rightarrow> 0 < n" for x
    using that by (cases x) (simp_all add: normalizeTimestamp_def)
  ultimately show ?thesis
    using assms by (cases b) (simp add: normalizeBudgetConfig_def as_config_def interval_roundtrip budget_ok_def)
qed

lemma normalizeTimestamp_facts:
  "normalizeTimestamp (stamp (normalizeTimestamp v)) = normalizeTimestamp v" "(case normalizeTimestamp v of None \<Rightarrow> True | Some n \<Rightarrow> 0 < n)"
  by (cases "finite_in v"; simp add: normalizeTimestamp_def)+


text \<open>A configuration as a form sends it: the limit and a time are strings, the threshold is not a number.\<close>

definition form_config :: budget_config where
  "form_config =
     \<lparr>bc_daily = Value Undefined, bc_weekly = Text ''-7'', bc_monthly = Text '' 1.5e2 '', bc_warning = Value Not_a_number,
      bc_interval = Text '' Monthly'', bc_time = Text ''25:70'', bc_resetAt = Text ''0x10'', bc_lastResetAt = Text ''soon'',
      bc_warnedAt = Value Null, bc_warnPeriod = Value (Number (5 / 2))\<rparr>"


end
