(* ===== verification/BudgetStore.thy ===== *)
theory BudgetStore
  imports BudgetRules
begin

text \<open>
  The state of \<^verbatim>\<open>src/src/domain/costRules.ts\<close>: the cache of budgets, the tables of
  \<^verbatim>\<open>src/src/lib/db/domainState.ts\<close> and the buffered writer, with the operations on them. A statement
  that throws (\<open>db_up = False\<close>) is caught by every caller here.
\<close>

subsection \<open>The tables\<close>

record reset_log =
  rl_key :: string
  rl_interval :: reset_interval
  rl_previousSpend :: real
  rl_resetAt :: int
  rl_nextResetAt :: int
  rl_periodStart :: int
  rl_periodEnd :: int

record budget_db =
  db_budgets :: "(string, budget) js_map"
  db_logs :: "reset_log list"
  db_costs :: "cost_entry list"
  db_up :: bool

definition saveBudget :: "string \<Rightarrow> budget \<Rightarrow> budget_db \<Rightarrow> budget_db" where
  "saveBudget k b d = (if db_up d then d\<lparr>db_budgets := map_set k b (db_budgets d)\<rparr> else d)"

definition non_zero :: "real option \<Rightarrow> real option" where
  "non_zero x = (if x = Some 0 then None else x)"

definition loaded_budget :: "budget \<Rightarrow> budget" where
  "loaded_budget b = b\<lparr>bd_resetAt := non_zero (bd_resetAt b), bd_lastResetAt := non_zero (bd_lastResetAt b),
     bd_warnedAt := non_zero (bd_warnedAt b), bd_warnPeriod := non_zero (bd_warnPeriod b)\<rparr>"

definition loadBudget :: "string \<Rightarrow> budget_db \<Rightarrow> budget option" where
  "loadBudget k d = (if db_up d then map_option loaded_budget (map_get (db_budgets d) k) else None)"

definition loadAllBudgets :: "budget_db \<Rightarrow> (string \<times> budget) list" where
  "loadAllBudgets d =
     (if db_up d then map (\<lambda>(k, b). (k, loaded_budget b)) (filter (\<lambda>(k, b). k \<noteq> []) (sort_key fst (db_budgets d))) else [])"

definition saveBudgetResetLog :: "reset_log \<Rightarrow> budget_db \<Rightarrow> budget_db" where
  "saveBudgetResetLog l d = (if db_up d then d\<lparr>db_logs := db_logs d @ [l]\<rparr> else d)"

definition loadBudgetResetLogs :: "string \<Rightarrow> int \<Rightarrow> budget_db \<Rightarrow> reset_log list" where
  "loadBudgetResetLogs k limit d =
     take (nat (max 1 limit)) (sort_key (\<lambda>l. - rl_resetAt l) (filter (\<lambda>l. rl_key l = k) (db_logs d)))"

definition db_deleteBudget :: "string \<Rightarrow> budget_db \<Rightarrow> budget_db" where
  "db_deleteBudget k d =
     (if db_up d then d\<lparr>db_budgets := map_delete k (db_budgets d), db_logs := filter (\<lambda>l. rl_key l \<noteq> k) (db_logs d)\<rparr> else d)"

definition saveCostEntry :: "cost_entry \<Rightarrow> budget_db \<Rightarrow> budget_db" where
  "saveCostEntry e d = (if db_up d then d\<lparr>db_costs := db_costs d @ [e]\<rparr> else d)"

text \<open>The default \<open>persistEntries\<close> of the writer: it throws when the database does.\<close>

definition batchSaveCostEntries :: "budget_db \<Rightarrow> cost_entry list \<Rightarrow> persist_call \<times> budget_db" where
  "batchSaveCostEntries d es =
     (if db_up d then (Returns, if es = [] then d else d\<lparr>db_costs := db_costs d @ es\<rparr>) else (Throws, d))"

definition loadCostTotal :: "string \<Rightarrow> int \<Rightarrow> budget_db \<Rightarrow> real" where
  "loadCostTotal k since d = sum_list (map ce_cost (filter (\<lambda>e. ce_key e = k \<and> since \<le> ce_time e) (db_costs d)))"

definition loadCostEntries :: "string \<Rightarrow> int \<Rightarrow> budget_db \<Rightarrow> cost_entry list" where
  "loadCostEntries k since d = sort_key ce_time (filter (\<lambda>e. ce_key e = k \<and> since \<le> ce_time e) (db_costs d))"

definition loadCostEntriesInRange :: "string \<Rightarrow> int \<Rightarrow> int \<Rightarrow> budget_db \<Rightarrow> cost_entry list" where
  "loadCostEntriesInRange k since until d =
     sort_key ce_time (filter (\<lambda>e. ce_key e = k \<and> since \<le> ce_time e \<and> ce_time e < until) (db_costs d))"

definition cleanOldCostEntries :: "int \<Rightarrow> budget_db \<Rightarrow> nat \<times> budget_db" where
  "cleanOldCostEntries older d =
     (length (filter (\<lambda>e. ce_time e < older) (db_costs d)), d\<lparr>db_costs := filter (\<lambda>e. \<not> ce_time e < older) (db_costs d)\<rparr>)"

definition deleteCostEntries :: "string \<Rightarrow> budget_db \<Rightarrow> budget_db" where
  "deleteCostEntries k d = (if db_up d then d\<lparr>db_costs := filter (\<lambda>e. ce_key e \<noteq> k) (db_costs d)\<rparr> else d)"

definition deleteAllCostData :: "budget_db \<Rightarrow> budget_db" where
  "deleteAllCostData d = (if db_up d then d\<lparr>db_costs := [], db_budgets := [], db_logs := []\<rparr> else d)"

subsection \<open>The store\<close>

record cost_store =
  cs_budgets :: "(string, budget) js_map"
  cs_spend :: spend
  cs_db :: budget_db
  cs_warnings :: "(string \<times> int) list"

definition new_cost_store :: "int \<Rightarrow> cost_store" where
  "new_cost_store n =
     \<lparr>cs_budgets = [], cs_spend = new_spend None (Some n) None None,
      cs_db = \<lparr>db_budgets = [], db_logs = [], db_costs = [], db_up = True\<rparr>, cs_warnings = []\<rparr>"

definition sumEntries :: "cost_entry list \<Rightarrow> real" where
  "sumEntries es = foldl (\<lambda>sum e. sum + ce_cost e) 0 es"

definition getBudgetWindowTotal :: "string \<Rightarrow> int \<Rightarrow> cost_store \<Rightarrow> real" where
  "getBudgetWindowTotal k start s =
     (if db_up (cs_db s) then loadCostTotal k start (cs_db s) + getPendingCostTotal k start None (cs_spend s) else 0)"

definition getBudgetWindowRangeTotal :: "string \<Rightarrow> int \<Rightarrow> int \<Rightarrow> cost_store \<Rightarrow> real" where
  "getBudgetWindowRangeTotal k start finish s =
     (if db_up (cs_db s)
      then sumEntries (loadCostEntriesInRange k start finish (cs_db s)) + getPendingCostTotal k start (Some finish) (cs_spend s)
      else 0)"

text \<open>
  The last reset comes from the configuration and may be fractional; the times of the entries are whole
  milliseconds, so the entries from it on are those from the next whole millisecond on.
\<close>

definition syncBudgetSchedule :: "string \<Rightarrow> budget_config \<Rightarrow> int \<Rightarrow> bool \<Rightarrow> bool \<Rightarrow> cost_store \<Rightarrow> budget \<times> cost_store" where
  "syncBudgetSchedule k config now logReset persist s =
     (let normalized = normalizeBudgetConfig config;
          window = getBudgetWindow (bd_interval normalized) (bd_time normalized) now;
          resetRolled = (case bd_lastResetAt normalized of None \<Rightarrow> False | Some t \<Rightarrow> t < of_int (periodStartAt window));
          s1 = (if resetRolled \<and> logReset
                then let previousSpend = getBudgetWindowRangeTotal k \<lceil>nullish (bd_lastResetAt normalized) 0\<rceil> (periodStartAt window) s
                     in s\<lparr>cs_db := saveBudgetResetLog
                           \<lparr>rl_key = k, rl_interval = bd_interval normalized, rl_previousSpend = previousSpend,
                            rl_resetAt = periodStartAt window, rl_nextResetAt = nextResetAt window,
                            rl_periodStart = periodStartAt window, rl_periodEnd = nextResetAt window\<rparr> (cs_db s)\<rparr>
                else s);
          updated = normalized\<lparr>bd_resetAt := Some (of_int (nextResetAt window)), bd_lastResetAt := Some (of_int (periodStartAt window)),
                      bd_warnedAt := (if resetRolled then None else bd_warnedAt normalized),
                      bd_warnPeriod := (if resetRolled then None else bd_warnPeriod normalized)\<rparr>;
          s2 = (if normalized \<noteq> updated \<and> persist then s1\<lparr>cs_db := saveBudget k updated (cs_db s1)\<rparr> else s1)
      in (updated, s2\<lparr>cs_budgets := map_set k updated (cs_budgets s2)\<rparr>))"

definition setBudget :: "string \<Rightarrow> budget_config \<Rightarrow> int \<Rightarrow> cost_store \<Rightarrow> budget \<times> cost_store" where
  "setBudget k config now s = syncBudgetSchedule k config now False True s"

definition getBudget :: "string \<Rightarrow> int \<Rightarrow> cost_store \<Rightarrow> budget option \<times> cost_store" where
  "getBudget k now s =
     (case map_get (cs_budgets s) k of
        Some b \<Rightarrow> (let (b', s') = syncBudgetSchedule k (as_config b) now True True s in (Some b', s'))
      | None \<Rightarrow>
          (case loadBudget k (cs_db s) of
             Some b \<Rightarrow> (let (b', s') = syncBudgetSchedule k (as_config b) now True True s in (Some b', s'))
           | None \<Rightarrow> (None, s)))"

definition deleteBudget :: "string \<Rightarrow> cost_store \<Rightarrow> cost_store" where
  "deleteBudget k s =
     s\<lparr>cs_budgets := map_delete k (cs_budgets s), cs_spend := discardEntries k (cs_spend s),
       cs_db := deleteCostEntries k (db_deleteBudget k (cs_db s))\<rparr>"

definition recordCost :: "string \<Rightarrow> js_value \<Rightarrow> int \<Rightarrow> cost_store \<Rightarrow> cost_store" where
  "recordCost k cost now s =
     (let (w, d) = increment batchSaveCostEntries k cost now (cs_spend s) (cs_db s) in s\<lparr>cs_spend := w, cs_db := d\<rparr>)"

text \<open>The steps of the writer: its timer, and the end of a flush, whose call was synchronous.\<close>

definition cost_timer :: "cost_store \<Rightarrow> cost_store" where
  "cost_timer s = (let (w, d) = timer_fires batchSaveCostEntries (cs_spend s) (cs_db s) in s\<lparr>cs_spend := w, cs_db := d\<rparr>)"

definition cost_settles :: "cost_store \<Rightarrow> cost_store" where
  "cost_settles s = s\<lparr>cs_spend := snd (flush_settles True (cs_spend s))\<rparr>"

definition syncAllBudgetSchedules :: "int \<Rightarrow> cost_store \<Rightarrow> (nat \<times> nat) \<times> cost_store" where
  "syncAllBudgetSchedules now s =
     foldl (\<lambda>((processed, resetCount), s) (k, b).
         let (synced, s') = syncBudgetSchedule k (as_config b) now True True s
         in ((processed + 1, if bd_lastResetAt b \<noteq> bd_lastResetAt synced then resetCount + 1 else resetCount), s'))
       ((0, 0), s) (loadAllBudgets (cs_db s))"

record budget_check =
  bk_allowed :: bool
  bk_used :: real
  bk_limit :: real
  bk_warned :: bool
  bk_remaining :: real
  bk_interval :: "reset_interval option"
  bk_time :: "string option"
  bk_resetAt :: "int option"
  bk_lastResetAt :: "int option"
  bk_periodStart :: "int option"

definition checkBudget :: "string \<Rightarrow> real \<Rightarrow> int \<Rightarrow> cost_store \<Rightarrow> budget_check \<times> cost_store" where
  "checkBudget k additionalCost now s0 =
     (case getBudget k now s0 of
        (None, s) \<Rightarrow>
          (\<lparr>bk_allowed = True, bk_used = 0, bk_limit = 0, bk_warned = False, bk_remaining = 0, bk_interval = None,
            bk_time = None, bk_resetAt = None, bk_lastResetAt = None, bk_periodStart = None\<rparr>, s)
      | (Some b, s) \<Rightarrow>
          let window = getBudgetWindow (bd_interval b) (bd_time b) now;
              periodUsed = getBudgetWindowTotal k (periodStartAt window) s;
              projectedTotal = periodUsed + additionalCost;
              activeLimitUsd = getActiveBudgetLimit b;
              warningReached = (0 < activeLimitUsd \<and> activeLimitUsd * bd_warning b \<le> projectedTotal);
              remaining = max (activeLimitUsd - projectedTotal) 0;
              s1 = (if warningReached \<and> bd_warnPeriod b \<noteq> Some (of_int (periodStartAt window))
                    then let b1 = b\<lparr>bd_warnedAt := Some (of_int now), bd_warnPeriod := Some (of_int (periodStartAt window))\<rparr>
                         in s\<lparr>cs_budgets := map_set k b1 (cs_budgets s), cs_db := saveBudget k b1 (cs_db s),
                              cs_warnings := (if db_up (cs_db s) then cs_warnings s @ [(k, periodStartAt window)] else cs_warnings s)\<rparr>
                    else s);
              over = (0 < activeLimitUsd \<and> activeLimitUsd < projectedTotal)
          in (\<lparr>bk_allowed = (\<not> over), bk_used = periodUsed, bk_limit = activeLimitUsd,
               bk_warned = (over \<or> warningReached), bk_remaining = remaining, bk_interval = Some (bd_interval b),
               bk_time = Some (bd_time b), bk_resetAt = Some (nextResetAt window),
               bk_lastResetAt = Some (periodStartAt window), bk_periodStart = Some (periodStartAt window)\<rparr>, s1))"

text \<open>Local midnight depends on the time zone of the process: it is the parameter \<open>midnight\<close>.\<close>

definition getDailyTotal :: "(int \<Rightarrow> int) \<Rightarrow> string \<Rightarrow> int \<Rightarrow> cost_store \<Rightarrow> real" where
  "getDailyTotal midnight k now s =
     (if db_up (cs_db s)
      then sumEntries (loadCostEntries k (midnight now) (cs_db s)) + getPendingCostTotal k (midnight now) None (cs_spend s)
      else 0)"

definition resetCostData :: "cost_store \<Rightarrow> cost_store" where
  "resetCostData s = s\<lparr>cs_budgets := [], cs_spend := resetForTests (cs_spend s), cs_db := deleteAllCostData (cs_db s)\<rparr>"

record cost_summary =
  su_daily :: real
  su_monthly :: real
  su_entries :: nat
  su_budget :: "budget option"
  su_period :: real
  su_limit :: real
  su_resetAt :: "real option"
  su_lastResetAt :: "real option"
  su_periodStart :: "real option"
  su_nextReset :: "real option"

text \<open>
  The summary: what the fields of the budget repeat is left out. The beginnings of the local day and
  of the local month are parameters.
\<close>

definition getCostSummary :: "(int \<Rightarrow> int) \<Rightarrow> (int \<Rightarrow> int) \<Rightarrow> string \<Rightarrow> int \<Rightarrow> cost_store \<Rightarrow> cost_summary \<times> cost_store" where
  "getCostSummary midnight first_of_month k now s0 =
     (let (bo, s) = getBudget k now s0;
          window = map_option (\<lambda>b. getBudgetWindow (bd_interval b) (bd_time b) now) bo;
          entries = (\<lambda>since. loadCostEntries k since (cs_db s) @ getBufferedEntries k since None (cs_spend s));
          monthly = entries (first_of_month now);
          limit = (case bo of None \<Rightarrow> 0 | Some b \<Rightarrow> getActiveBudgetLimit b)
      in (if db_up (cs_db s)
          then \<lparr>su_daily = sumEntries (entries (midnight now)), su_monthly = sumEntries monthly,
                su_entries = length monthly, su_budget = bo,
                su_period = (case window of None \<Rightarrow> 0 | Some w \<Rightarrow> sumEntries (entries (periodStartAt w))), su_limit = limit,
                su_resetAt = map_option (\<lambda>w. of_int (nextResetAt w)) window,
                su_lastResetAt = map_option (\<lambda>w. of_int (periodStartAt w)) window,
                su_periodStart = map_option (\<lambda>w. of_int (periodStartAt w)) window,
                su_nextReset = map_option (\<lambda>w. of_int (nextResetAt w)) window\<rparr>
          else \<lparr>su_daily = 0, su_monthly = 0, su_entries = 0, su_budget = bo, su_period = 0, su_limit = limit,
                su_resetAt = Option.bind bo bd_resetAt, su_lastResetAt = Option.bind bo bd_lastResetAt,
                su_periodStart = Option.bind bo bd_lastResetAt, su_nextReset = Option.bind bo bd_resetAt\<rparr>, s))"

subsection \<open>What is counted\<close>

datatype cost_event =
    Co_record string js_value
  | Co_timer
  | Co_settles
  | Co_set string budget_config
  | Co_get string
  | Co_check string real
  | Co_sync
  | Co_delete string

text \<open>A run with the database up; the entries that \<open>recordCost\<close> accepted are kept beside the store.\<close>

fun cost_step :: "cost_entry list \<times> cost_store \<Rightarrow> int \<times> cost_event \<Rightarrow> cost_entry list \<times> cost_store" where
  "cost_step (acc, s) (now, Co_record k c) =
     (acc @ (case normalizeEntry k c now of None \<Rightarrow> [] | Some e \<Rightarrow> [e]), recordCost k c now s)"
| "cost_step (acc, s) (now, Co_timer) = (acc, cost_timer s)"
| "cost_step (acc, s) (now, Co_settles) = (acc, cost_settles s)"
| "cost_step (acc, s) (now, Co_set k cfg) = (acc, snd (setBudget k cfg now s))"
| "cost_step (acc, s) (now, Co_get k) = (acc, snd (getBudget k now s))"
| "cost_step (acc, s) (now, Co_check k x) = (acc, snd (checkBudget k x now s))"
| "cost_step (acc, s) (now, Co_sync) = (acc, snd (syncAllBudgetSchedules now s))"
| "cost_step (acc, s) (now, Co_delete k) = (acc, deleteBudget k s)"

text \<open>What the operations on budgets leave alone.\<close>

definition same_costs :: "cost_store \<Rightarrow> cost_store \<Rightarrow> bool" where
  "same_costs s s' \<longleftrightarrow> cs_spend s' = cs_spend s \<and> db_costs (cs_db s') = db_costs (cs_db s) \<and> db_up (cs_db s') = db_up (cs_db s)"

lemma same_costs_refl [simp]: "same_costs s s"
  by (simp add: same_costs_def)

lemma same_costs_trans: "same_costs s1 s2 \<Longrightarrow> same_costs s2 s3 \<Longrightarrow> same_costs s1 s3"
  by (simp add: same_costs_def)

lemma save_fields [simp]:
  "db_costs (saveBudget k b d) = db_costs d" "db_up (saveBudget k b d) = db_up d" "db_logs (saveBudget k b d) = db_logs d"
  "db_costs (saveBudgetResetLog l d) = db_costs d" "db_up (saveBudgetResetLog l d) = db_up d"
  "db_budgets (saveBudgetResetLog l d) = db_budgets d"
  by (simp_all add: saveBudget_def saveBudgetResetLog_def)

lemma sync_costs: "same_costs s (snd (syncBudgetSchedule k c now lr p s))"
  by (simp add: syncBudgetSchedule_def Let_def same_costs_def)

lemma get_costs: "same_costs s (snd (getBudget k now s))"
  using sync_costs by (simp add: getBudget_def split_beta split: option.split)

lemma check_costs: "same_costs s (snd (checkBudget k x now s))"
proof -
  obtain bo s1 where g: "getBudget k now s = (bo, s1)" by (cases "getBudget k now s")
  have s1: "same_costs s s1" using get_costs [of s k now] g by simp
  show ?thesis
  proof (cases bo)
    case (Some b)
    then show ?thesis using s1 g by (auto simp: checkBudget_def Let_def same_costs_def)
  qed (use g s1 in \<open>simp add: checkBudget_def\<close>)
qed

lemma sync_all_costs: "same_costs s (snd (syncAllBudgetSchedules now s))"
proof -
  have "same_costs s (snd (foldl (\<lambda>((processed, resetCount), s) (k, b).
         let (synced, s') = syncBudgetSchedule k (as_config b) now True True s
         in ((processed + 1, if bd_lastResetAt b \<noteq> bd_lastResetAt synced then resetCount + 1 else resetCount), s')) (c, s) bs))"
    for c :: "nat \<times> nat" and bs
  proof (induction bs arbitrary: c s)
    case (Cons p bs)
    obtain k b where p: "p = (k, b)" by (cases p)
    obtain y s1 where y: "syncBudgetSchedule k (as_config b) now True True s = (y, s1)"
      by (cases "syncBudgetSchedule k (as_config b) now True True s")
    have "same_costs s s1" using sync_costs [of s k "as_config b" now True True] y by simp
    then show ?case using Cons.IH [where s = s1] same_costs_trans by (cases c) (simp add: p y)
  qed simp
  then show ?thesis by (simp add: syncAllBudgetSchedules_def)
qed

text \<open>The costs of a key: in the table or in the buffer; what is in flight is in the table already.\<close>

definition counted :: "string \<Rightarrow> cost_entry list \<Rightarrow> spend \<Rightarrow> budget_db \<Rightarrow> bool" where
  "counted k acc w d \<longleftrightarrow> db_up d \<and> k \<notin> set (sw_discarded w)
     \<and> (\<forall>e \<in> set (sw_buffer w). ce_key e \<notin> set (sw_discarded w))
     \<and> of_key k acc = of_key k (db_costs d) @ of_key k (sw_buffer w)
     \<and> (case sw_promise w of None \<Rightarrow> sw_inFlight w = [] | Some (Flushed r) \<Rightarrow> False | Some (Flushing keep u) \<Rightarrow> True)
     \<and> (\<exists>before. of_key k (db_costs d) = before @ of_key k (sw_inFlight w))"

lemma flush_returns:
  assumes "sw_promise w = None" and "sw_buffer w \<noteq> []" and "db_up d"
    and "filter (\<lambda>e. ce_key e \<notin> set (sw_discarded w)) (sw_buffer w) = sw_buffer w"
  shows "\<exists>p. snd (flush batchSaveCostEntries w d)
    = (w\<lparr>sw_buffer := [], sw_inFlight := sw_buffer w, sw_promise := Some p\<rparr>, d\<lparr>db_costs := db_costs d @ sw_buffer w\<rparr>)"
  using assms(1-3) unfolding flush_def Let_def assms(4)
  by (intro exI [of _ "Flushing (sw_buffer w) (length (remdups (map ce_key (sw_buffer w))))"]) (simp add: batchSaveCostEntries_def)

lemma flush_counted:
  assumes "counted k acc w d" and f: "flush batchSaveCostEntries w d = (p, w', d')"
  shows "counted k acc w' d'"
proof (cases "sw_promise w = None \<and> sw_buffer w \<noteq> []")
  case True
  have "filter (\<lambda>e. ce_key e \<notin> set (sw_discarded w)) (sw_buffer w) = sw_buffer w"
    using assms(1) by (simp add: counted_def)
  then have "w' = w\<lparr>sw_buffer := [], sw_inFlight := sw_buffer w, sw_promise := Some p\<rparr>"
    "d' = d\<lparr>db_costs := db_costs d @ sw_buffer w\<rparr>" "\<exists>u. p = Flushing (sw_buffer w) u"
    using assms True by (auto simp: flush_def batchSaveCostEntries_def counted_def Let_def)
  then show ?thesis using assms(1) True by (auto simp: counted_def)
next
  case False
  then have "w' = w" "d' = d" using f by (auto simp: flush_def split: option.splits)
  then show ?thesis using assms(1) by simp
qed

lemma record_counted:
  assumes "counted k acc (cs_spend s) (cs_db s)"
  shows "counted k (acc @ (case normalizeEntry k' c now of None \<Rightarrow> [] | Some e \<Rightarrow> [e])) (cs_spend (recordCost k' c now s)) (cs_db (recordCost k' c now s))"
proof (cases "normalizeEntry k' c now")
  case (Some e)
  let ?started = "start_writer (cs_spend s)"
  let ?w = "?started\<lparr>sw_discarded := removeAll (ce_key e) (sw_discarded ?started), sw_buffer := sw_buffer ?started @ [e]\<rparr>"
  have "sw_buffer ?started = sw_buffer (cs_spend s)" "sw_discarded ?started = sw_discarded (cs_spend s)"
    "sw_inFlight ?started = sw_inFlight (cs_spend s)" "sw_promise ?started = sw_promise (cs_spend s)"
    by (simp_all add: start_writer_def)
  then have c: "counted k (acc @ [e]) ?w (cs_db s)" using assms unfolding counted_def by (elim conjE) (intro conjI; simp split: option.splits flush_promise.splits)
  define w where "w = ?w"
  obtain p w' d' where f: "flush batchSaveCostEntries w (cs_db s) = (p, w', d')" by (cases "flush batchSaveCostEntries w (cs_db s)")
  have r: "increment batchSaveCostEntries k' c now (cs_spend s) (cs_db s)
      = (if sw_max w \<le> int (length (sw_buffer w)) then (w', d') else (w, cs_db s))"
    using Some f unfolding increment_def Let_def by (simp add: w_def)
  show ?thesis using c flush_counted [OF c [folded w_def] f] Some r unfolding w_def [symmetric]
    by (simp add: recordCost_def)
qed (use assms in \<open>simp add: recordCost_def increment_def\<close>)

lemma timer_counted:
  assumes "counted k acc (cs_spend s) (cs_db s)"
  shows "counted k acc (cs_spend (cost_timer s)) (cs_db (cost_timer s))"
  using flush_counted [OF assms] assms
  by (cases "flush batchSaveCostEntries (cs_spend s) (cs_db s)") (simp add: cost_timer_def timer_fires_def)

lemma settles_counted:
  assumes "counted k acc (cs_spend s) (cs_db s)"
  shows "counted k acc (cs_spend (cost_settles s)) (cs_db (cost_settles s))"
  using assms by (cases "sw_promise (cs_spend s)") (auto simp: cost_settles_def flush_settles_def counted_def split: flush_promise.splits)

lemma delete_counted:
  assumes "counted k acc (cs_spend s) (cs_db s)" and "k' \<noteq> k"
  shows "counted k acc (cs_spend (deleteBudget k' s)) (cs_db (deleteBudget k' s))"
proof -
  have u: "db_up (cs_db s)" using assms(1) by (simp add: counted_def)
  have d: "of_key k (filter (\<lambda>e. ce_key e \<noteq> k') es) = of_key k es" for es using assms(2) by (intro of_key_dropped) simp
  show ?thesis using assms u
    by (auto simp: counted_def deleteBudget_def discardEntries_def deleteCostEntries_def db_deleteBudget_def d split: option.splits flush_promise.splits)
qed

fun keeps_key :: "string \<Rightarrow> cost_event \<Rightarrow> bool" where
  "keeps_key k (Co_delete k') \<longleftrightarrow> k' \<noteq> k"
| "keeps_key k _ \<longleftrightarrow> True"

definition cost_books :: "string \<Rightarrow> cost_entry list \<times> cost_store \<Rightarrow> bool" where
  "cost_books k x \<longleftrightarrow> counted k (fst x) (cs_spend (snd x)) (cs_db (snd x))"

lemma same_costs_counted: "counted k acc (cs_spend s) (cs_db s) \<Longrightarrow> same_costs s s' \<Longrightarrow> counted k acc (cs_spend s') (cs_db s')"
  by (simp add: counted_def same_costs_def)

lemma cost_step_books:
  assumes "cost_books k x" and "keeps_key k (snd ev)"
  shows "cost_books k (cost_step x ev)"
proof -
  obtain acc s now e where x: "x = (acc, s)" "ev = (now, e)" by (cases x, cases ev)
  have c: "counted k acc (cs_spend s) (cs_db s)" using assms(1) by (simp add: cost_books_def x)
  show ?thesis
    using record_counted [OF c] timer_counted [OF c] settles_counted [OF c] delete_counted [OF c] assms(2)
      same_costs_counted [OF c sync_costs] same_costs_counted [OF c get_costs] same_costs_counted [OF c check_costs]
      same_costs_counted [OF c sync_all_costs]
    by (cases e) (simp_all add: x cost_books_def setBudget_def)
qed

interpretation cost_tracking: step_invariant cost_step "\<lambda>ev. keeps_key k (snd ev)" "cost_books k" for k
proof unfold_locales
  fix s and ev :: "int \<times> cost_event"
  assume "cost_books k s" and "keeps_key k (snd ev)"
  then show "cost_books k (cost_step s ev)" by (rule cost_step_books)
qed

lemma loadCostTotal_between: "loadCostTotal k since d = cost_between k since None (db_costs d)"
  by (simp add: loadCostTotal_def cost_between_def of_key_def conj_commute)

lemma counted_total:
  assumes "counted k acc (cs_spend s) (cs_db s)"
  shows "getBudgetWindowTotal k start s = cost_between k start None acc + cost_between k start None (sw_inFlight (cs_spend s))"
proof -
  have "cost_between k start None acc = cost_between k start None (db_costs (cs_db s) @ sw_buffer (cs_spend s))"
    using assms by (simp add: counted_def cost_between_def)
  then show ?thesis
    using assms by (simp add: getBudgetWindowTotal_def counted_def loadCostTotal_between pending_cost_between cost_between_append)
qed

lemma run_counted:
  assumes "list_all (\<lambda>ev. keeps_key k (snd ev)) evs" and "(acc, s) = foldl cost_step ([], new_cost_store n) evs"
  shows "counted k acc (cs_spend s) (cs_db s)"
proof -
  have "cost_books k ([], new_cost_store n)"
    by (simp add: cost_books_def counted_def new_cost_store_def new_spend_def)
  from cost_tracking.run_inv [OF this assms(1)] show ?thesis unfolding assms(2) [symmetric] by (simp add: cost_books_def)
qed

lemma normalizeEntry_fields:
  "normalizeEntry k c now = Some e \<Longrightarrow> ce_key e = k \<and> 0 < ce_cost e \<and> ce_time e = now"
  by (auto simp: normalizeEntry_def split: js_value.splits if_splits)

subsection \<open>Properties\<close>

text \<open>
  C14: Every recorded cost counts against the budget from the moment it is recorded: after any run of
  recordings, flushes, checks, settings and deletions of other keys with the database up, what a check
  counts as used in a window is exactly the sum of the accepted costs of the window, whether they are
  still buffered or in the table already, as long as no flush is under way; during a flush the entries
  in flight come on top of it.
\<close>

theorem budget_counts_every_cost:
  assumes "list_all (\<lambda>ev. keeps_key k (snd ev)) evs" and "(acc, s) = foldl cost_step ([], new_cost_store n) evs"
  shows "getBudgetWindowTotal k start s = cost_between k start None acc + cost_between k start None (sw_inFlight (cs_spend s))
    \<and> (sw_promise (cs_spend s) = None \<longrightarrow> getBudgetWindowTotal k start s = cost_between k start None acc)"
proof -
  have c: "counted k acc (cs_spend s) (cs_db s)" by (rule run_counted [OF assms])
  moreover have "sw_promise (cs_spend s) = None \<longrightarrow> sw_inFlight (cs_spend s) = []" using c by (auto simp: counted_def)
  ultimately show ?thesis using counted_total [OF c] by (auto simp: cost_between_def)
qed

definition cost_demo :: "(int \<times> cost_event) list" where
  "cost_demo =
     [(10, Co_record ''key'' (Number 2)), (20, Co_record ''other'' (Number 9)), (25, Co_settles),
      (30, Co_record ''key'' (Number 3)), (40, Co_delete ''other''), (50, Co_record ''key'' Not_a_number)]"

theorem budget_counts_every_cost_witness:
  "let s = snd (foldl cost_step ([], new_cost_store 2) cost_demo) in
   getBudgetWindowTotal ''key'' 0 s = 5 \<and> sw_buffer (cs_spend s) \<noteq> [] \<and> db_costs (cs_db s) \<noteq> []"
proof -
  obtain acc s where a: "(acc, s) = foldl cost_step ([], new_cost_store 2) cost_demo" by (metis surj_pair)
  have l: "list_all (\<lambda>ev. keeps_key ''key'' (snd ev)) cost_demo" by (simp add: cost_demo_def)
  have "cost_between ''key'' 0 None (fst (foldl cost_step ([], new_cost_store 2) cost_demo)) = 5"
    "sw_promise (cs_spend (snd (foldl cost_step ([], new_cost_store 2) cost_demo))) = None"
    "sw_buffer (cs_spend (snd (foldl cost_step ([], new_cost_store 2) cost_demo))) \<noteq> []"
    "db_costs (cs_db (snd (foldl cost_step ([], new_cost_store 2) cost_demo))) \<noteq> []"
    by code_simp+
  then show ?thesis using budget_counts_every_cost [OF l a, of 0] unfolding a [symmetric] Let_def by simp
qed

text \<open>
  A flush counts its costs twice until it settles. The write is synchronous, so that the entries
  are in the table while the writer still lists them as in flight: when a recording fills the buffer,
  the total used by a check before the flush has settled exceeds what was spent by all that was
  buffered and the cost just recorded, and a budget can be refused that is not used up; once the flush
  settles the total is right again.
\<close>

theorem flush_counts_twice:
  assumes "list_all (\<lambda>ev. keeps_key k (snd ev)) evs" and "(acc, s) = foldl cost_step ([], new_cost_store n) evs"
    and "sw_promise (cs_spend s) = None" and "normalizeEntry k c now = Some e" and "start \<le> now"
    and "sw_max (cs_spend s) \<le> int (length (sw_buffer (cs_spend s))) + 1"
    and "s' = recordCost k c now s" and "spent = cost_between k start None acc + ce_cost e"
  shows "getBudgetWindowTotal k start s' = spent + cost_between k start None (sw_buffer (cs_spend s)) + ce_cost e
    \<and> getBudgetWindowTotal k start (cost_settles s') = spent"
proof -
  let ?evs = "evs @ [(now, Co_record k c)]"
  have a: "(acc @ [e], s') = foldl cost_step ([], new_cost_store n) ?evs"
    using assms(4,7) by (simp add: assms(2) [symmetric])
  have l: "list_all (\<lambda>ev. keeps_key k (snd ev)) ?evs" using assms(1) by simp
  have c: "counted k (acc @ [e]) (cs_spend s') (cs_db s')" by (rule run_counted [OF l a])
  have e: "ce_key e = k" "ce_time e = now" using normalizeEntry_fields [OF assms(4)] by simp_all
  have cs: "counted k acc (cs_spend s) (cs_db s)" by (rule run_counted [OF assms(1,2)])
  let ?started = "start_writer (cs_spend s)"
  define w where "w = ?started\<lparr>sw_discarded := removeAll (ce_key e) (sw_discarded ?started), sw_buffer := sw_buffer ?started @ [e]\<rparr>"
  have w: "sw_buffer w = sw_buffer (cs_spend s) @ [e]" "sw_promise w = None" "sw_max w = sw_max (cs_spend s)"
    "filter (\<lambda>e. ce_key e \<notin> set (sw_discarded w)) (sw_buffer w) = sw_buffer w"
    using cs assms(3) by (simp_all add: w_def start_writer_def counted_def)
  have "sw_inFlight (cs_spend s') = sw_buffer (cs_spend s) @ [e]"
  proof -
    have "s' = (let (w', d) = snd (flush batchSaveCostEntries w (cs_db s)) in s\<lparr>cs_spend := w', cs_db := d\<rparr>)"
      unfolding assms(7) recordCost_def increment_def assms(4) option.case Let_def w_def [symmetric] using assms(6) w(1,3) by simp
    moreover have "db_up (cs_db s)" "sw_buffer w \<noteq> []" using cs w(1) by (simp_all add: counted_def)
    ultimately show ?thesis using flush_returns [OF w(2) _ _ w(4), of "cs_db s"] w(1) by auto
  qed
  then have "getBudgetWindowTotal k start s' = spent + cost_between k start None (sw_buffer (cs_spend s)) + ce_cost e"
    using counted_total [OF c, of start] assms(5,8) e by (simp add: cost_between_append) (simp add: cost_between_def)
  moreover have "counted k (acc @ [e]) (cs_spend (cost_settles s')) (cs_db (cost_settles s'))" by (rule settles_counted [OF c])
  note counted_total [OF this, of start]
  moreover have "sw_inFlight (cs_spend (cost_settles s')) = []"
    using c by (cases "sw_promise (cs_spend s')") (auto simp: cost_settles_def flush_settles_def counted_def split: flush_promise.splits)
  ultimately show ?thesis using assms(5,8) e by (simp add: cost_between_append) (simp add: cost_between_def)
qed

theorem flush_counts_twice_witness:
  "let s' = recordCost ''key'' (Number 6) 1000 (new_cost_store 1) in
   getBudgetWindowTotal ''key'' 0 s' = 12 \<and> getBudgetWindowTotal ''key'' 0 (cost_settles s') = 6"
proof -
  have a: "([], new_cost_store 1) = foldl cost_step ([], new_cost_store 1) []" by simp
  have e: "normalizeEntry ''key'' (Number 6) 1000 = Some \<lparr>ce_key = ''key'', ce_cost = 6, ce_time = 1000\<rparr>"
    by (simp add: normalizeEntry_def)
  have "sw_promise (cs_spend (new_cost_store 1)) = None" "sw_buffer (cs_spend (new_cost_store 1)) = []" "sw_max (cs_spend (new_cost_store 1)) = 1"
    by (simp_all add: new_cost_store_def new_spend_def)
  then show ?thesis using flush_counts_twice [OF _ a _ e _ _ refl refl, of 0] by (simp add: Let_def cost_between_def)
qed

lemma normal_timestamps:
  "budget_ok b \<Longrightarrow> 0 < n \<Longrightarrow> 0 < m \<Longrightarrow> budget_ok (b\<lparr>bd_resetAt := Some n, bd_lastResetAt := Some m, bd_warnedAt := x, bd_warnPeriod := y\<rparr>)
    \<longleftrightarrow> (case x of None \<Rightarrow> True | Some i \<Rightarrow> 0 < i) \<and> (case y of None \<Rightarrow> True | Some i \<Rightarrow> 0 < i)"
  by (simp add: budget_ok_def)

lemma window_positive: "0 < periodStartAt (getBudgetWindow iv t now) \<Longrightarrow> 0 < nextResetAt (getBudgetWindow iv t now)"
  using window_is_scheduled [of iv t now] reset_at_next by fastforce

text \<open>Synchronising a budget that is up to date changes neither the budget nor the database.\<close>

lemma sync_current:
  assumes "budget_ok b" and "bd_resetAt b = Some (of_int (nextResetAt w))" and "bd_lastResetAt b = Some (of_int (periodStartAt w))"
    and "w = getBudgetWindow (bd_interval b) (bd_time b) now"
  shows "syncBudgetSchedule k (as_config b) now lr p s = (b, s\<lparr>cs_budgets := map_set k b (cs_budgets s)\<rparr>)"
proof -
  have e: "b\<lparr>bd_resetAt := Some (of_int (nextResetAt w)), bd_lastResetAt := Some (of_int (periodStartAt w))\<rparr> = b"
    using assms(2,3) by (cases b) simp
  show ?thesis
    using assms(2,3) unfolding syncBudgetSchedule_def Let_def budget_ok_normal [OF assms(1)] assms(4) [symmetric]
    by (simp add: e)
qed

lemma range_total_between:
  assumes "db_up (cs_db s)"
  shows "getBudgetWindowRangeTotal k a b s = cost_between k a (Some b) (db_costs (cs_db s)) + getPendingCostTotal k a (Some b) (cs_spend s)"
proof -
  have "foldl (\<lambda>sum e. sum + ce_cost e) z es = z + sum_list (map ce_cost es)" for es :: "cost_entry list" and z
    by (induction es arbitrary: z) simp_all
  moreover have "sum_list (map ce_cost (sort_key ce_time es)) = sum_list (map ce_cost es)" for es :: "cost_entry list"
    by (metis mset_map mset_sort sum_mset_sum_list)
  moreover have "filter (\<lambda>e. ce_key e = k \<and> a \<le> ce_time e \<and> ce_time e < b) es
      = filter (\<lambda>e. a \<le> ce_time e \<and> ce_time e < b) (of_key k es)" for es :: "cost_entry list"
    by (simp add: of_key_def conj_commute conj_left_commute)
  ultimately show ?thesis
    using assms by (simp add: getBudgetWindowRangeTotal_def sumEntries_def loadCostEntriesInRange_def cost_between_def)
qed

lemma sync_rolls:
  assumes "budget_ok b" and "bd_lastResetAt b = Some t0" and "w = getBudgetWindow (bd_interval b) (bd_time b) now"
    and "t0 < of_int (periodStartAt w)" and "db_up (cs_db s)"
    and "b' = b\<lparr>bd_resetAt := Some (of_int (nextResetAt w)), bd_lastResetAt := Some (of_int (periodStartAt w)), bd_warnedAt := None, bd_warnPeriod := None\<rparr>"
  shows "fst (syncBudgetSchedule k (as_config b) now True True s) = b'
    \<and> map_get (cs_budgets (snd (syncBudgetSchedule k (as_config b) now True True s))) k = Some b'
    \<and> map_get (db_budgets (cs_db (snd (syncBudgetSchedule k (as_config b) now True True s)))) k = Some b'
    \<and> db_up (cs_db (snd (syncBudgetSchedule k (as_config b) now True True s)))
    \<and> db_logs (cs_db (snd (syncBudgetSchedule k (as_config b) now True True s))) = db_logs (cs_db s) @
        [\<lparr>rl_key = k, rl_interval = bd_interval b, rl_previousSpend = getBudgetWindowRangeTotal k \<lceil>t0\<rceil> (periodStartAt w) s,
          rl_resetAt = periodStartAt w, rl_nextResetAt = nextResetAt w, rl_periodStart = periodStartAt w, rl_periodEnd = nextResetAt w\<rparr>]"
proof -
  have ne: "b \<noteq> b'" using assms(2,4,6) by (auto dest: arg_cong [of _ _ bd_lastResetAt])
  have "syncBudgetSchedule k (as_config b) now True True s =
     (let s1 = s\<lparr>cs_db := saveBudgetResetLog
             \<lparr>rl_key = k, rl_interval = bd_interval b, rl_previousSpend = getBudgetWindowRangeTotal k \<lceil>t0\<rceil> (periodStartAt w) s,
              rl_resetAt = periodStartAt w, rl_nextResetAt = nextResetAt w, rl_periodStart = periodStartAt w, rl_periodEnd = nextResetAt w\<rparr> (cs_db s)\<rparr>;
          s2 = s1\<lparr>cs_db := saveBudget k b' (cs_db s1)\<rparr>
      in (b', s2\<lparr>cs_budgets := map_set k b' (cs_budgets s2)\<rparr>))"
    using assms(2,4,6) ne unfolding syncBudgetSchedule_def Let_def budget_ok_normal [OF assms(1)] assms(3) [symmetric]
    by simp
  then show ?thesis using assms(5) by (simp add: Let_def saveBudget_def saveBudgetResetLog_def)
qed

text \<open>
  A budget rolls over once per window: the first access in a new window logs one reset with what
  was spent since the last one, persisted and pending, moves the budget to the window and takes the
  warning back; every further access in the window, also after a restart that lost the cache, returns
  the same budget and logs nothing.
\<close>

theorem rollover_logged_once:
  assumes "map_get (cs_budgets s) k = Some b" and "budget_ok b" and "bd_lastResetAt b = Some t0" and "db_up (cs_db s)"
    and "w = getBudgetWindow (bd_interval b) (bd_time b) now" and "t0 < of_int (periodStartAt w)" and "0 < periodStartAt w"
    and "periodStartAt w \<le> later" and "later < nextResetAt w" and "(b1, s1) = getBudget k now s"
  shows "(\<exists>l. db_logs (cs_db s1) = db_logs (cs_db s) @ [l] \<and> rl_key l = k \<and> rl_resetAt l = periodStartAt w
      \<and> rl_previousSpend l = cost_between k \<lceil>t0\<rceil> (Some (periodStartAt w)) (db_costs (cs_db s))
          + getPendingCostTotal k \<lceil>t0\<rceil> (Some (periodStartAt w)) (cs_spend s))
    \<and> b1 = Some (b\<lparr>bd_resetAt := Some (of_int (nextResetAt w)), bd_lastResetAt := Some (of_int (periodStartAt w)), bd_warnedAt := None, bd_warnPeriod := None\<rparr>)
    \<and> (\<forall>cache \<in> {cs_budgets s1, []}. fst (getBudget k later (s1\<lparr>cs_budgets := cache\<rparr>)) = b1
        \<and> db_logs (cs_db (snd (getBudget k later (s1\<lparr>cs_budgets := cache\<rparr>)))) = db_logs (cs_db s1))"
proof -
  define b' where "b' = b\<lparr>bd_resetAt := Some (of_int (nextResetAt w)), bd_lastResetAt := Some (of_int (periodStartAt w)), bd_warnedAt := None, bd_warnPeriod := None\<rparr>"
  note r = sync_rolls [OF assms(2,3,5,6,4) b'_def, of k]
  have g: "b1 = Some b'" "s1 = snd (syncBudgetSchedule k (as_config b) now True True s)"
    using assms(10) r by (simp_all add: getBudget_def assms(1) split_beta)
  have ok: "budget_ok b'"
    using normal_timestamps [OF assms(2), of "of_int (nextResetAt w)" "of_int (periodStartAt w)" None None] assms(5,7)
      window_positive [OF assms(7) [unfolded assms(5)]]
    by (simp add: b'_def)
  have w: "w = getBudgetWindow (bd_interval b') (bd_time b') later"
    using same_window [of "bd_interval b" "bd_time b" now later] assms(5,8,9) by (simp add: b'_def)
  note c = sync_current [OF ok _ _ w]
  have "fst (getBudget k later (s1\<lparr>cs_budgets := cache\<rparr>)) = b1
      \<and> db_logs (cs_db (snd (getBudget k later (s1\<lparr>cs_budgets := cache\<rparr>)))) = db_logs (cs_db s1)"
    if "cache \<in> {cs_budgets s1, []}" for cache
  proof -
    have "loaded_budget b' = b'" using assms(7) window_positive [OF assms(7) [unfolded assms(5)]] assms(5)
      by (simp add: loaded_budget_def non_zero_def b'_def)
    then show ?thesis using that r c by (auto simp: getBudget_def g loadBudget_def b'_def)
  qed
  moreover have "\<exists>l. db_logs (cs_db s1) = db_logs (cs_db s) @ [l] \<and> rl_key l = k \<and> rl_resetAt l = periodStartAt w
      \<and> rl_previousSpend l = cost_between k \<lceil>t0\<rceil> (Some (periodStartAt w)) (db_costs (cs_db s))
          + getPendingCostTotal k \<lceil>t0\<rceil> (Some (periodStartAt w)) (cs_spend s)"
    using r g(2) range_total_between [OF assms(4), of k "\<lceil>t0\<rceil>" "periodStartAt w"] by simp
  ultimately show ?thesis using g(1) unfolding b'_def by blast
qed

text \<open>A daily budget with a warning of the first of March 2024, accessed on the second.\<close>

definition roll_demo :: cost_store where
  "roll_demo =
     (new_cost_store 10)\<lparr>cs_budgets := [(''key'', \<lparr>bd_daily = 10, bd_weekly = 0, bd_monthly = 0, bd_warning = 4 / 5,
         bd_interval = Daily, bd_time = ''00:00'', bd_resetAt = Some 1709337600000, bd_lastResetAt = Some 1709251200000,
         bd_warnedAt = Some 1709251300000, bd_warnPeriod = Some 1709251200000\<rparr>)],
       cs_db := \<lparr>db_budgets = [], db_logs = [],
         db_costs = [\<lparr>ce_key = ''key'', ce_cost = 3, ce_time = 1709251200500\<rparr>], db_up = True\<rparr>\<rparr>"

theorem rollover_logged_once_witness:
  "let s1 = snd (getBudget ''key'' 1709337605000 roll_demo) in
   map rl_previousSpend (db_logs (cs_db s1)) = [3]
   \<and> db_logs (cs_db (snd (getBudget ''key'' 1709423999999 (s1\<lparr>cs_budgets := []\<rparr>)))) = db_logs (cs_db s1)"
proof -
  obtain b where b: "map_get (cs_budgets roll_demo) ''key'' = Some b" "budget_ok b" "bd_lastResetAt b = Some 1709251200000"
    "bd_interval b = Daily" "bd_time b = ''00:00''"
    by (simp add: roll_demo_def budget_ok_def two_digits_def digit_val_def)
  have "getResetTimeParts (normalizeResetTime (Some ''00:00'')) = (0, 0)" by code_simp
  then have o: "reset_offset ''00:00'' = 0" by (simp add: reset_offset_def)
  have w: "\<lparr>periodStartAt = 1709337600000, nextResetAt = 1709424000000\<rparr> = getBudgetWindow (bd_interval b) (bd_time b) 1709337605000"
    using window_at [of Daily "''00:00''" 19784 1709337605000] by (simp add: b(4,5) reset_at_def o)
  obtain b1 s1 where g: "(b1, s1) = getBudget ''key'' 1709337605000 roll_demo" by (metis surj_pair)
  have c: "cost_between ''key'' 1709251200000 (Some 1709337600000) (db_costs (cs_db roll_demo)) = 3"
    "getPendingCostTotal ''key'' 1709251200000 (Some 1709337600000) (cs_spend roll_demo) = 0" "db_logs (cs_db roll_demo) = []"
    by (simp_all add: roll_demo_def cost_between_def getPendingCostTotal_def getBufferedEntries_def new_cost_store_def new_spend_def)
  have "db_up (cs_db roll_demo)" by (simp add: roll_demo_def)
  note r = rollover_logged_once [OF b(1-3) this w _ _ _ _ g, of 1709423999999]
  show ?thesis using r c unfolding g [symmetric] Let_def by auto
qed

end
