(* ===== verification/FallbackPolicy.thy ===== *)
theory FallbackPolicy
  imports Prelude
begin

text \<open>
  Fallback chains of models: \<^verbatim>\<open>src/src/domain/fallbackPolicy.ts\<close> and the rows of
  \<^verbatim>\<open>src/src/lib/db/domainState.ts\<close> they are saved to. The cache is filled from the rows once, at the
  first use; a database that throws is \<open>fb_up = False\<close>. Chains are stored and never changed in
  place, so they are held by value; priorities are integers.
\<close>

subsection \<open>State\<close>

record fallback_input =
  fi_provider :: string
  fi_priority :: "int option"
  fi_enabled :: "bool option"

record fallback_entry =
  fe_provider :: string
  fe_priority :: int
  fe_enabled :: bool

record fallbacks =
  fb_chains :: "(string, fallback_entry list) js_map"
  fb_loaded :: bool
  fb_rows :: "(string, fallback_entry list) js_map"
  fb_up :: bool

definition new_fallbacks :: fallbacks where
  "new_fallbacks = \<lparr>fb_chains = [], fb_loaded = False, fb_rows = [], fb_up = True\<rparr>"

subsection \<open>The rows\<close>

definition saveFallbackChain :: "string \<Rightarrow> fallback_entry list \<Rightarrow> fallbacks \<Rightarrow> fallbacks" where
  "saveFallbackChain m c s = (if fb_up s then s\<lparr>fb_rows := map_set m c (fb_rows s)\<rparr> else s)"

definition loadFallbackChain :: "string \<Rightarrow> fallbacks \<Rightarrow> fallback_entry list option" where
  "loadFallbackChain m s = map_get (fb_rows s) m"

definition loadAllFallbackChains :: "fallbacks \<Rightarrow> (string, fallback_entry list) js_map" where
  "loadAllFallbackChains s = filter (\<lambda>(m, c). m \<noteq> []) (fb_rows s)"

definition deleteFallbackChain :: "string \<Rightarrow> fallbacks \<Rightarrow> fallbacks" where
  "deleteFallbackChain m s = (if fb_up s then s\<lparr>fb_rows := map_delete m (fb_rows s)\<rparr> else s)"

definition deleteAllFallbackChains :: "fallbacks \<Rightarrow> fallbacks" where
  "deleteAllFallbackChains s = (if fb_up s then s\<lparr>fb_rows := []\<rparr> else s)"

subsection \<open>Operations\<close>

definition ensureLoaded :: "fallbacks \<Rightarrow> fallbacks" where
  "ensureLoaded s =
     (if fb_loaded s then s
      else s\<lparr>fb_loaded := True,
             fb_chains := (if fb_up s then foldl (\<lambda>c (m, ch). map_set m ch c) (fb_chains s) (loadAllFallbackChains s)
                           else fb_chains s)\<rparr>)"

definition sorted_chain :: "fallback_input list \<Rightarrow> fallback_entry list" where
  "sorted_chain chain = js_sort_by fe_priority
     (map (\<lambda>e. \<lparr>fe_provider = fi_provider e, fe_priority = nullish (fi_priority e) 0, fe_enabled = nullish (fi_enabled e) True\<rparr>) chain)"

definition store_chain :: "string \<Rightarrow> fallback_entry list \<Rightarrow> fallbacks \<Rightarrow> fallbacks" where
  "store_chain m c s0 = (let s = ensureLoaded s0 in saveFallbackChain m c (s\<lparr>fb_chains := map_set m c (fb_chains s)\<rparr>))"

definition registerFallback :: "string \<Rightarrow> fallback_input list \<Rightarrow> fallbacks \<Rightarrow> fallbacks" where
  "registerFallback m chain s = store_chain m (sorted_chain chain) s"

definition resolveFallbackChain :: "string option \<Rightarrow> string list \<Rightarrow> fallbacks \<Rightarrow> fallback_entry list \<times> fallbacks" where
  "resolveFallbackChain m excludeProviders s0 =
     (let s = ensureLoaded s0 in
      (case Option.bind m (map_get (fb_chains s)) of
         None \<Rightarrow> []
       | Some c \<Rightarrow> filter (\<lambda>e. fe_enabled e \<and> fe_provider e \<notin> set excludeProviders) c, s))"

definition getNextFallback :: "string \<Rightarrow> string list \<Rightarrow> fallbacks \<Rightarrow> string option \<times> fallbacks" where
  "getNextFallback m excludeProviders s0 =
     (let (c, s) = resolveFallbackChain (Some m) excludeProviders s0 in
      (case c of [] \<Rightarrow> None | e # _ \<Rightarrow> Some (fe_provider e), s))"

definition hasFallback :: "string \<Rightarrow> fallbacks \<Rightarrow> bool \<times> fallbacks" where
  "hasFallback m s0 =
     (let s = ensureLoaded s0 in (case map_get (fb_chains s) m of None \<Rightarrow> False | Some c \<Rightarrow> list_ex fe_enabled c, s))"

definition removeFallback :: "string \<Rightarrow> fallbacks \<Rightarrow> bool \<times> fallbacks" where
  "removeFallback m s0 =
     (let s = ensureLoaded s0 in
      if map_has (fb_chains s) m then (True, deleteFallbackChain m (s\<lparr>fb_chains := map_delete m (fb_chains s)\<rparr>)) else (False, s))"

definition getAllFallbackChains :: "fallbacks \<Rightarrow> (string, fallback_entry list) js_map \<times> fallbacks" where
  "getAllFallbackChains s0 = (let s = ensureLoaded s0 in (fb_chains s, s))"

definition resetAllFallbacks :: "fallbacks \<Rightarrow> fallbacks" where
  "resetAllFallbacks s = deleteAllFallbackChains (s\<lparr>fb_chains := [], fb_loaded := False\<rparr>)"

text \<open>The process starts over: nothing is loaded.\<close>

definition restart_fallbacks :: "fallbacks \<Rightarrow> fallbacks" where
  "restart_fallbacks s = s\<lparr>fb_chains := [], fb_loaded := False\<rparr>"

subsection \<open>The write-through contract\<close>

text \<open>The chain of a model, whose name is not empty: its first character and the rest.\<close>

definition chain_view :: "fallbacks \<Rightarrow> char \<times> string \<Rightarrow> fallback_entry list option" where
  "chain_view s m = map_get (fb_chains (ensureLoaded s)) (fst m # snd m)"

definition fallbacks_synced :: "fallbacks \<Rightarrow> bool" where
  "fallbacks_synced s \<longleftrightarrow> fb_up s \<and> map_wf (fb_rows s) \<and>
     (if fb_loaded s then \<forall>m. m \<noteq> [] \<longrightarrow> map_get (fb_chains s) m = map_get (fb_rows s) m else fb_chains s = [])"

lemma foldl_set_of: "map_of (foldl (\<lambda>c (m, ch). map_set m ch c) c0 rows) = map_of c0 ++ map_of (rev rows)"
proof (induction rows arbitrary: c0)
  case (Cons p rows)
  then show ?case by (cases p) (simp add: map_add_def fun_eq_iff split: option.split)
qed simp

lemma loaded_of:
  "map_wf (fb_rows s) \<Longrightarrow> m \<noteq> [] \<Longrightarrow> map_of (rev (loadAllFallbackChains s)) m = map_get (fb_rows s) m"
proof -
  assume wf: "map_wf (fb_rows s)" and m: "m \<noteq> []"
  have d: "map_wf (loadAllFallbackChains s)" using wf unfolding loadAllFallbackChains_def by (rule distinct_map_filter)
  have "map_of (filter (\<lambda>(m, c). m \<noteq> []) rows) m = map_of rows m" for rows :: "(string, fallback_entry list) js_map"
    using m by (induction rows) auto
  moreover have "map_of (rev (loadAllFallbackChains s)) = map_of (loadAllFallbackChains s)"
    using d by (subst map_of_inject_set) (simp_all add: rev_map [symmetric])
  ultimately show ?thesis by (simp add: loadAllFallbackChains_def)
qed

lemma ensure_synced:
  assumes "fallbacks_synced s"
  shows "fallbacks_synced (ensureLoaded s)" and "fb_loaded (ensureLoaded s)" and "fb_rows (ensureLoaded s) = fb_rows s"
    and "fb_up (ensureLoaded s)"
  using assms by (auto simp: fallbacks_synced_def ensureLoaded_def foldl_set_of loaded_of)

lemma chain_view_rows: "fallbacks_synced s \<Longrightarrow> chain_view s (a, m) = map_get (fb_rows s) (a # m)"
  using ensure_synced [of s] by (simp add: chain_view_def fallbacks_synced_def)

lemma store_chain_synced:
  assumes "fallbacks_synced s"
  shows "fallbacks_synced (store_chain m c s)" and "fb_rows (store_chain m c s) = map_set m c (fb_rows s)"
  using ensure_synced [OF assms] assms
  by (auto simp: store_chain_def saveFallbackChain_def fallbacks_synced_def Let_def intro: map_wf_set)

lemma removeFallback_synced:
  assumes "fallbacks_synced s" and "m \<noteq> []"
  shows "fallbacks_synced (snd (removeFallback m s))" and "map_of (fb_rows (snd (removeFallback m s))) = (map_of (fb_rows s))(m := None)"
proof -
  have e: "map_get (fb_chains (ensureLoaded s)) m = map_get (fb_rows s) m"
    using ensure_synced [OF assms(1)] assms(2) by (simp add: fallbacks_synced_def)
  show "fallbacks_synced (snd (removeFallback m s))"
    using ensure_synced [OF assms(1)] assms(1)
    by (auto simp: removeFallback_def deleteFallbackChain_def fallbacks_synced_def Let_def intro: map_wf_delete)
  show "map_of (fb_rows (snd (removeFallback m s))) = (map_of (fb_rows s))(m := None)"
    using ensure_synced [OF assms(1)] e by (auto simp: removeFallback_def deleteFallbackChain_def Let_def fun_eq_iff)
qed

lemma restart_fallbacks_synced:
  "fallbacks_synced s \<Longrightarrow> fallbacks_synced (restart_fallbacks s) \<and> fb_rows (restart_fallbacks s) = fb_rows s"
  by (simp add: fallbacks_synced_def restart_fallbacks_def)

interpretation fallback_store: write_through chain_view fallbacks_synced
    "\<lambda>m. store_chain (fst m # snd m)" "\<lambda>m s. snd (removeFallback (fst m # snd m) s)" restart_fallbacks
proof unfold_locales
  fix s and k :: "char \<times> string" and v
  assume s: "fallbacks_synced s"
  note st = store_chain_synced [OF s, of "fst k # snd k" v]
  show "fallbacks_synced (store_chain (fst k # snd k) v s) \<and> chain_view (store_chain (fst k # snd k) v s) = (chain_view s)(k \<mapsto> v)"
    using st by (cases k) (auto simp: fun_eq_iff chain_view_rows s)
next
  fix s and k :: "char \<times> string"
  assume s: "fallbacks_synced s"
  have ne: "fst k # snd k \<noteq> []" by simp
  note rm = removeFallback_synced [OF s ne]
  show "fallbacks_synced (snd (removeFallback (fst k # snd k) s)) \<and> chain_view (snd (removeFallback (fst k # snd k) s)) = (chain_view s)(k := None)"
    using rm by (cases k) (auto simp: fun_eq_iff chain_view_rows s)
next
  fix s
  assume s: "fallbacks_synced s"
  then show "fallbacks_synced (restart_fallbacks s) \<and> chain_view (restart_fallbacks s) = chain_view s"
    using restart_fallbacks_synced [OF s] by (auto simp: fun_eq_iff chain_view_rows)
qed

subsection \<open>Properties\<close>

lemma resolve_stored:
  assumes "fallbacks_synced s" and "m \<noteq> []"
  shows "fst (resolveFallbackChain (Some m) ex (restart_fallbacks (store_chain m c s))) = filter (\<lambda>e. fe_enabled e \<and> fe_provider e \<notin> set ex) c"
proof -
  obtain a n where m: "m = a # n" using assms(2) by (cases m) simp_all
  have "chain_view (restart_fallbacks (store_chain (a # n) c s)) (a, n) = Some c"
    using fallback_store.durable_put [OF assms(1), of "(a, n)" c] by simp
  then show ?thesis by (simp add: resolveFallbackChain_def chain_view_def m Let_def)
qed

text \<open>
  A registered chain resolves to exactly its enabled providers that are not excluded, in the order
  of their priorities and, among equal priorities, in the order given; missing priorities count as
  zero and missing switches as on. This holds at any time after the registration and after a restart.
  The next fallback is the first of them, so that no remaining provider has a smaller priority.
\<close>

theorem fallback_order:
  assumes "fallbacks_synced s" and "m \<noteq> []" and "s' = restart_fallbacks (registerFallback m chain s)"
    and "c = fst (resolveFallbackChain (Some m) ex s')"
  shows "sorted (map fe_priority c)
    \<and> (\<forall>p. map fe_provider (filter (\<lambda>e. fe_priority e = p) c)
          = map fi_provider (filter (\<lambda>e. nullish (fi_priority e) 0 = p \<and> nullish (fi_enabled e) True \<and> fi_provider e \<notin> set ex) chain))
    \<and> (case fst (getNextFallback m ex s') of
         None \<Rightarrow> c = []
       | Some p \<Rightarrow> \<exists>e \<in> set c. fe_provider e = p \<and> (\<forall>e' \<in> set c. fe_priority e \<le> fe_priority e'))"
proof -
  have c: "c = filter (\<lambda>e. fe_enabled e \<and> fe_provider e \<notin> set ex) (sorted_chain chain)"
    using resolve_stored [OF assms(1,2), of ex "sorted_chain chain"] assms(3,4) by (simp add: registerFallback_def)
  have s: "sorted (map fe_priority c)"
    unfolding c sorted_chain_def by (rule sorted_filter) simp
  have "map fe_provider (filter (\<lambda>e. fe_priority e = p) c)
      = map fi_provider (filter (\<lambda>e. nullish (fi_priority e) 0 = p \<and> nullish (fi_enabled e) True \<and> fi_provider e \<notin> set ex) chain)" for p
  proof -
    have k: "filter (\<lambda>e. fe_priority e = p) (filter Q (js_sort_by fe_priority xs)) = filter Q (filter (\<lambda>e. fe_priority e = p) xs)" for Q and xs :: "fallback_entry list"
    proof -
      have comm: "filter A (filter Q ys) = filter Q (filter A ys)" for A and ys :: "fallback_entry list"
        by (induction ys) simp_all
      show ?thesis unfolding comm sort_key_stable ..
    qed
    show ?thesis unfolding c sorted_chain_def k by (simp add: filter_map comp_def conj_commute conj_left_commute)
  qed
  moreover have "case fst (getNextFallback m ex s') of None \<Rightarrow> c = []
       | Some p \<Rightarrow> \<exists>e \<in> set c. fe_provider e = p \<and> (\<forall>e' \<in> set c. fe_priority e \<le> fe_priority e')"
    using s unfolding getNextFallback_def split_beta Let_def fst_conv assms(4) [symmetric] by (cases c) auto
  ultimately show ?thesis using s by blast
qed

theorem fallback_order_witness:
  "let ch = [\<lparr>fi_provider = ''b'', fi_priority = Some 2, fi_enabled = None\<rparr>, \<lparr>fi_provider = ''a'', fi_priority = None, fi_enabled = None\<rparr>,
             \<lparr>fi_provider = ''c'', fi_priority = Some 0, fi_enabled = Some True\<rparr>, \<lparr>fi_provider = ''d'', fi_priority = Some 1, fi_enabled = Some False\<rparr>];
       s' = restart_fallbacks (registerFallback ''gpt'' ch new_fallbacks) in
   map fe_provider (fst (resolveFallbackChain (Some ''gpt'') [''a''] s')) = [''c'', ''b'']
   \<and> sorted (map fe_priority (fst (resolveFallbackChain (Some ''gpt'') [''a''] s')))"
proof -
  define ch where "ch = [\<lparr>fi_provider = ''b'', fi_priority = Some 2, fi_enabled = None\<rparr>, \<lparr>fi_provider = ''a'', fi_priority = None, fi_enabled = None\<rparr>,
             \<lparr>fi_provider = ''c'', fi_priority = Some 0, fi_enabled = Some True\<rparr>, \<lparr>fi_provider = ''d'', fi_priority = Some 1, fi_enabled = Some False\<rparr>]"
  have s: "fallbacks_synced new_fallbacks" by (simp add: fallbacks_synced_def new_fallbacks_def)
  have "map fe_provider (fst (resolveFallbackChain (Some ''gpt'') [''a''] (restart_fallbacks (registerFallback ''gpt'' ch new_fallbacks)))) = [''c'', ''b'']"
    unfolding ch_def by code_simp
  then show ?thesis using fallback_order [OF s _ refl refl, of "''gpt''" "[''a'']" ch] unfolding ch_def [symmetric] Let_def by simp
qed

text \<open>
  A database that is not ready at the first use hides every stored chain for the life of the
  process: the failed load is marked as done, so that once the database answers, a model whose chain
  is stored still has no fallback and cannot even be removed, until a restart brings the chain back.
\<close>

theorem failed_load_hides_chains:
  assumes "fb_loaded s = False" and "fb_chains s = []" and "fb_up s = False" and "map_wf (fb_rows s)"
    and "map_get (fb_rows s) m = Some c" and "m \<noteq> []" and "list_ex fe_enabled c"
    and "s' = (snd (hasFallback m' s))\<lparr>fb_up := True\<rparr>"
  shows "fst (hasFallback m s') = False \<and> fst (getNextFallback m [] s') = None \<and> fst (removeFallback m s') = False
    \<and> map_get (fb_rows (snd (removeFallback m s'))) m = Some c \<and> fst (hasFallback m (restart_fallbacks s'))"
proof -
  have s': "s' = s\<lparr>fb_loaded := True, fb_up := True\<rparr>" using assms(1-3,8) by (simp add: hasFallback_def ensureLoaded_def Let_def)
  have "fallbacks_synced (restart_fallbacks s')" using assms(4) by (simp add: fallbacks_synced_def restart_fallbacks_def s')
  from ensure_synced [OF this] have "map_get (fb_chains (ensureLoaded (restart_fallbacks s'))) m = Some c"
    using assms(5,6) by (simp add: fallbacks_synced_def) (simp add: restart_fallbacks_def s')
  then show ?thesis using assms(2,5,7)
    by (simp add: hasFallback_def getNextFallback_def resolveFallbackChain_def removeFallback_def ensureLoaded_def s' Let_def)
qed

theorem failed_load_hides_chains_witness:
  "let c = [\<lparr>fe_provider = ''b'', fe_priority = 0, fe_enabled = True\<rparr>];
       s = \<lparr>fb_chains = [], fb_loaded = False, fb_rows = [(''gpt'', c)], fb_up = False\<rparr>;
       s' = (snd (hasFallback ''x'' s))\<lparr>fb_up := True\<rparr> in
   fst (hasFallback ''gpt'' s') = False \<and> fst (hasFallback ''gpt'' (restart_fallbacks s'))"
proof -
  define s where "s = \<lparr>fb_chains = [], fb_loaded = False, fb_rows = [(''gpt'', [\<lparr>fe_provider = ''b'', fe_priority = 0, fe_enabled = True\<rparr>])], fb_up = False\<rparr>"
  show ?thesis using failed_load_hides_chains [of s "''gpt''" "[\<lparr>fe_provider = ''b'', fe_priority = 0, fe_enabled = True\<rparr>]" _ "''x''", OF _ _ _ _ _ _ _ refl]
    by (simp add: s_def Let_def)
qed

end
