(* ===== verification/RequestPolicy.thy ===== *)
theory RequestPolicy
  imports LockoutPolicy BudgetStore FallbackPolicy
begin

text \<open>
  \<open>evaluateRequest\<close> of \<^verbatim>\<open>src/src/domain/policyEngine.ts\<close>, which composes the lockout, the
  budgets and the fallback chains into one verdict, and \<open>evaluateFirstAllowed\<close>. The three stores are
  one state; the texts of the reasons are left out, their numbers kept.
\<close>

subsection \<open>Requests\<close>

record policy_request =
  pr_model :: "string option"
  pr_apiKeyId :: "string option"
  pr_clientIp :: "string option"

datatype policy_verdict =
    Locked_out int
  | Over_budget
  | Passed "string option" "fallback_entry list"

record policy_state =
  ps_lockout :: lockout
  ps_costs :: cost_store
  ps_fallbacks :: fallbacks

fun verdict_allowed :: "policy_verdict \<Rightarrow> bool" where
  "verdict_allowed (Passed m c) = True"
| "verdict_allowed _ = False"

definition given :: "string option \<Rightarrow> bool" where
  "given x \<longleftrightarrow> x \<noteq> None \<and> x \<noteq> Some []"

definition evaluateRequest :: "int \<Rightarrow> policy_request \<Rightarrow> policy_state \<Rightarrow> policy_verdict \<times> policy_state" where
  "evaluateRequest now rq s0 =
     (let (locked, s1) = (if given (pr_clientIp rq)
            then let (a, l) = checkLockout now DEFAULT_LOCKOUT_CONFIG (nullish (pr_clientIp rq) []) (ps_lockout s0)
                 in (if la_locked a then Some (nullish (la_remainingMs a) 0) else None, s0\<lparr>ps_lockout := l\<rparr>)
            else (None, s0))
      in case locked of
           Some ms \<Rightarrow> (Locked_out ms, s1)
         | None \<Rightarrow>
             let (allowed, s2) = (if given (pr_apiKeyId rq)
                   then let (b, c) = checkBudget (nullish (pr_apiKeyId rq) []) 0 now (ps_costs s1)
                        in (bk_allowed b, s1\<lparr>ps_costs := c\<rparr>)
                   else (True, s1))
             in if \<not> allowed then (Over_budget, s2)
                else let (chain, f) = resolveFallbackChain (pr_model rq) [] (ps_fallbacks s2)
                     in (Passed (pr_model rq) chain, s2\<lparr>ps_fallbacks := f\<rparr>))"

text \<open>The first model that is allowed; when there is none the last model is evaluated again.\<close>

fun first_allowed :: "int \<Rightarrow> string list \<Rightarrow> policy_request \<Rightarrow> policy_state \<Rightarrow> (string \<times> policy_verdict) option \<times> policy_state" where
  "first_allowed now [] rq s = (None, s)"
| "first_allowed now (m # ms) rq s =
     (let (v, s1) = evaluateRequest now (rq\<lparr>pr_model := Some m\<rparr>) s
      in if verdict_allowed v then (Some (m, v), s1) else first_allowed now ms rq s1)"

definition evaluateFirstAllowed :: "int \<Rightarrow> string list \<Rightarrow> policy_request \<Rightarrow> policy_state \<Rightarrow> (string option \<times> policy_verdict) \<times> policy_state" where
  "evaluateFirstAllowed now models rq s =
     (case first_allowed now models rq s of
        (Some (m, v), s1) \<Rightarrow> ((Some m, v), s1)
      | (None, s1) \<Rightarrow>
          let (v, s2) = evaluateRequest now (rq\<lparr>pr_model := (if models = [] then None else Some (last models))\<rparr>) s1
          in ((None, v), s2))"

subsection \<open>The composition\<close>

definition locked_out :: "int \<Rightarrow> policy_request \<Rightarrow> policy_state \<Rightarrow> bool" where
  "locked_out now rq s \<longleftrightarrow> given (pr_clientIp rq) \<and>
     (case lock_view (ps_lockout s) (nullish (pr_clientIp rq) []) of
        None \<Rightarrow> False
      | Some e \<Rightarrow> truthy (le_lockedUntil e) \<and> now < nullish (le_lockedUntil e) 0)"

text \<open>The budget that is in force for a key: the one in the cache, else the stored one.\<close>

definition current_budget :: "string \<Rightarrow> cost_store \<Rightarrow> budget option" where
  "current_budget k s = map_option (\<lambda>b. normalizeBudgetConfig (as_config b))
     (case map_get (cs_budgets s) k of Some b \<Rightarrow> Some b | None \<Rightarrow> loadBudget k (cs_db s))"

definition key_over :: "int \<Rightarrow> string \<Rightarrow> cost_store \<Rightarrow> bool" where
  "key_over now k s \<longleftrightarrow> (case current_budget k s of
        None \<Rightarrow> False
      | Some b \<Rightarrow> 0 < getActiveBudgetLimit b
          \<and> getActiveBudgetLimit b < getBudgetWindowTotal k (periodStartAt (getBudgetWindow (bd_interval b) (bd_time b) now)) s)"

definition over_budget :: "int \<Rightarrow> policy_request \<Rightarrow> policy_state \<Rightarrow> bool" where
  "over_budget now rq s \<longleftrightarrow> given (pr_apiKeyId rq) \<and> key_over now (nullish (pr_apiKeyId rq) []) (ps_costs s)"

lemma check_locked:
  "la_locked (fst (checkLockout now cfg k s)) \<longleftrightarrow> (case lock_view s k of None \<Rightarrow> False
      | Some e \<Rightarrow> truthy (le_lockedUntil e) \<and> now < nullish (le_lockedUntil e) 0)"
proof -
  obtain st s1 where g: "getState k s = (st, s1)" by (cases "getState k s")
  have v: "lock_view s k = st" using getState_view [of k s] g by simp
  show ?thesis unfolding v by (cases st) (simp_all add: checkLockout_def g Let_def)
qed

text \<open>What \<open>getBudget\<close> keeps: the limits, the interval and the time of the budget in force.\<close>

definition same_rule :: "budget \<Rightarrow> budget \<Rightarrow> bool" where
  "same_rule b b' \<longleftrightarrow> bd_daily b = bd_daily b' \<and> bd_weekly b = bd_weekly b' \<and> bd_monthly b = bd_monthly b'
     \<and> bd_interval b = bd_interval b' \<and> bd_time b = bd_time b'"

lemma same_rule_limit: "same_rule b b' \<Longrightarrow> getActiveBudgetLimit b = getActiveBudgetLimit b'"
  by (cases "bd_interval b'") (simp_all add: same_rule_def getActiveBudgetLimit_def)

lemma sync_rule: "same_rule (normalizeBudgetConfig c) (fst (syncBudgetSchedule k c now lr p s))"
  by (simp add: syncBudgetSchedule_def Let_def same_rule_def)

lemma normal_rule: "same_rule (normalizeBudgetConfig c) b \<Longrightarrow> same_rule (normalizeBudgetConfig c) (normalizeBudgetConfig (as_config b))"
proof -
  assume s: "same_rule (normalizeBudgetConfig c) b"
  then have "bd_time b = normalizeResetTime (text_in (bc_time c))" by (simp add: same_rule_def normalizeBudgetConfig_def)
  then have "normalizeResetTime (Some (bd_time b)) = bd_time b" by (simp add: normalizeResetTime_idem)
  with s show ?thesis by (auto simp: same_rule_def normalizeBudgetConfig_def as_config_def interval_roundtrip)
qed

lemma get_current:
  "case current_budget k s of
     None \<Rightarrow> getBudget k now s = (None, s)
   | Some b \<Rightarrow> \<exists>b' s'. getBudget k now s = (Some b', s') \<and> same_rule b b' \<and> map_get (cs_budgets s') k = Some b'"
proof -
  define f where "f = (case map_get (cs_budgets s) k of Some b \<Rightarrow> Some b | None \<Rightarrow> loadBudget k (cs_db s))"
  have g: "getBudget k now s = (case f of None \<Rightarrow> (None, s)
      | Some b \<Rightarrow> (Some (fst (syncBudgetSchedule k (as_config b) now True True s)), snd (syncBudgetSchedule k (as_config b) now True True s)))"
    by (simp add: getBudget_def f_def split_beta split: option.split)
  have y: "map_get (cs_budgets (snd (syncBudgetSchedule k c now lr p s))) k = Some (fst (syncBudgetSchedule k c now lr p s))" for c lr p
    by (simp add: syncBudgetSchedule_def Let_def)
  show ?thesis
    unfolding g current_budget_def f_def [symmetric] by (cases f) (simp_all add: sync_rule y)
qed

lemma total_same: "same_costs s s' \<Longrightarrow> getBudgetWindowTotal k start s' = getBudgetWindowTotal k start s"
  by (simp add: same_costs_def getBudgetWindowTotal_def loadCostTotal_def)

lemma check_over: "bk_allowed (fst (checkBudget k 0 now s)) \<longleftrightarrow> \<not> key_over now k s"
proof (cases "current_budget k s")
  case None
  then show ?thesis using get_current [of k now s] by (simp add: checkBudget_def key_over_def)
next
  case (Some b)
  then obtain b' s' where g: "getBudget k now s = (Some b', s')" and r: "same_rule b b'"
    using get_current [of k now s] by auto
  have "same_costs s s'" using get_costs [of s k now] g by simp
  from total_same [OF this] show ?thesis
    using r same_rule_limit [OF r] Some g by (simp add: checkBudget_def key_over_def Let_def same_rule_def)
qed

lemma check_keeps_rule:
  "case current_budget k s of None \<Rightarrow> current_budget k (snd (checkBudget k 0 now s)) = None
   | Some b \<Rightarrow> \<exists>b'. current_budget k (snd (checkBudget k 0 now s)) = Some b' \<and> same_rule b b'"
proof (cases "current_budget k s")
  case None
  then show ?thesis using get_current [of k now s] by (simp add: checkBudget_def)
next
  case (Some b)
  then obtain b' s' where g: "getBudget k now s = (Some b', s')" and r: "same_rule b b'" and c: "map_get (cs_budgets s') k = Some b'"
    using get_current [of k now s] by auto
  obtain c0 where b: "b = normalizeBudgetConfig c0" using Some by (auto simp: current_budget_def)
  have n: "same_rule b (normalizeBudgetConfig (as_config x))" if "same_rule b x" for x
    using normal_rule [of c0 x] that b by simp
  have "\<exists>x. map_get (cs_budgets (snd (checkBudget k 0 now s))) k = Some x \<and> same_rule b x"
    using g r c by (simp add: checkBudget_def Let_def same_rule_def)
  then show ?thesis using Some n by (auto simp: current_budget_def split: option.split)
qed

lemma key_over_again: "key_over now k (snd (checkBudget k 0 now s)) = key_over now k s"
proof (cases "current_budget k s")
  case None
  then show ?thesis using check_keeps_rule [of k now s] by (simp add: key_over_def)
next
  case (Some b)
  then obtain b' where c: "current_budget k (snd (checkBudget k 0 now s)) = Some b'" and r: "same_rule b b'"
    using check_keeps_rule [of k now s] by auto
  have w: "bd_interval b = bd_interval b'" "bd_time b = bd_time b'" using r by (simp_all add: same_rule_def)
  show ?thesis
    unfolding key_over_def Some c option.case same_rule_limit [OF r] w total_same [OF check_costs] ..
qed

text \<open>One evaluation: the lockout first, the budget next, the chain last.\<close>

lemma check_answer:
  assumes "checkLockout now cfg k s = (a, s')" and "la_locked a"
  shows "\<exists>e. lock_view s k = Some e \<and> a = \<lparr>la_locked = True, la_remainingMs = Some (nullish (le_lockedUntil e) 0 - now), la_attempts = Some (length (le_attempts e))\<rparr>
    \<and> lock_view s' = lock_view s"
proof -
  obtain st s1 where g: "getState k s = (st, s1)" by (cases "getState k s")
  have v: "lock_view s k = st" using getState_view [of k s] g by simp
  have "lock_view s1 x = lock_view s x" for x
    using g by (cases "map_get (lk_cache s) x"; cases "x = k")
      (auto simp: getState_def lock_view_def loadLockoutState_def split: option.splits)
  then have "lock_view s1 = lock_view s" ..
  then show ?thesis
    using assms g v by (cases st) (auto simp: checkLockout_def Let_def split: if_splits prod.splits)
qed

lemma check_unlocked:
  assumes "\<not> la_locked (fst (checkLockout now cfg k s))"
  shows "\<not> la_locked (fst (checkLockout now cfg k (snd (checkLockout now cfg k s))))"
proof -
  obtain st s1 where g: "getState k s = (st, s1)" by (cases "getState k s")
  show ?thesis
  proof (cases st)
    case None
    then have "lock_view s1 k = None"
      using g by (auto simp: getState_def lock_view_def loadLockoutState_def split: option.splits)
    then show ?thesis using g None by (simp add: checkLockout_def check_locked [unfolded checkLockout_def])
  next
    case (Some e)
    have view: "lock_view (persistState k e2 s2) k = Some e2" for e2 s2
      by (simp add: persistState_def saveLockoutState_def lock_view_def)
    have "\<exists>e2 s2. snd (checkLockout now cfg k s) = persistState k e2 s2 \<and> \<not> truthy (le_lockedUntil e2)"
      using assms g Some by (cases "truthy (le_lockedUntil e)") (auto simp: checkLockout_def Let_def split: if_splits)
    then obtain e2 s2 where "snd (checkLockout now cfg k s) = persistState k e2 s2" "\<not> truthy (le_lockedUntil e2)" by blast
    then show ?thesis by (simp add: check_locked view)
  qed
qed

definition lock_asked :: "int \<Rightarrow> policy_request \<Rightarrow> policy_state \<Rightarrow> lock_answer \<times> lockout" where
  "lock_asked now rq s = checkLockout now DEFAULT_LOCKOUT_CONFIG (nullish (pr_clientIp rq) []) (ps_lockout s)"

lemma locked_asked: "locked_out now rq s \<longleftrightarrow> given (pr_clientIp rq) \<and> la_locked (fst (lock_asked now rq s))"
  by (simp add: locked_out_def lock_asked_def check_locked)

lemma request_cases:
  "evaluateRequest now rq s =
     (if locked_out now rq s
      then (Locked_out (nullish (la_remainingMs (fst (lock_asked now rq s))) 0), s\<lparr>ps_lockout := snd (lock_asked now rq s)\<rparr>)
      else
        let s1 = (if given (pr_clientIp rq) then s\<lparr>ps_lockout := snd (lock_asked now rq s)\<rparr> else s);
            s2 = (if given (pr_apiKeyId rq) then s1\<lparr>ps_costs := snd (checkBudget (nullish (pr_apiKeyId rq) []) 0 now (ps_costs s))\<rparr> else s1)
        in if over_budget now rq s then (Over_budget, s2)
           else (Passed (pr_model rq) (fst (resolveFallbackChain (pr_model rq) [] (ps_fallbacks s))),
                 s2\<lparr>ps_fallbacks := snd (resolveFallbackChain (pr_model rq) [] (ps_fallbacks s))\<rparr>))"
  by (simp add: evaluateRequest_def locked_asked over_budget_def check_over split_beta Let_def lock_asked_def)

lemma locked_same: "locked_out now (rq\<lparr>pr_model := x\<rparr>) s = locked_out now rq s"
  and asked_same: "lock_asked now (rq\<lparr>pr_model := x\<rparr>) s = lock_asked now rq s"
  and over_same: "over_budget now (rq\<lparr>pr_model := x\<rparr>) s = over_budget now rq s"
  by (simp_all add: locked_out_def lock_asked_def over_budget_def)

text \<open>A refusal is repeated for whatever model comes next.\<close>

lemma refused_again:
  assumes "evaluateRequest now (rq\<lparr>pr_model := x\<rparr>) s = (v, s')" and "\<not> verdict_allowed v"
  shows "fst (evaluateRequest now (rq\<lparr>pr_model := y\<rparr>) s') = v"
proof (cases "locked_out now rq s")
  case True
  have v: "v = Locked_out (nullish (la_remainingMs (fst (lock_asked now rq s))) 0)" and s': "s' = s\<lparr>ps_lockout := snd (lock_asked now rq s)\<rparr>"
    using assms(1) True by (simp_all add: request_cases locked_same asked_same)
  obtain a l where al: "lock_asked now rq s = (a, l)" by (cases "lock_asked now rq s")
  have la: "la_locked a" using True al by (simp add: locked_asked)
  obtain e where e: "lock_view (ps_lockout s) (nullish (pr_clientIp rq) []) = Some e"
      "la_remainingMs a = Some (nullish (le_lockedUntil e) 0 - now)" "lock_view l = lock_view (ps_lockout s)"
    using check_answer [OF al [unfolded lock_asked_def] la] by auto
  have l': "locked_out now rq s'" using True by (simp add: locked_out_def s' al e(3))
  obtain a' l2 where al': "lock_asked now rq s' = (a', l2)" by (cases "lock_asked now rq s'")
  have la': "la_locked a'" using l' al' by (simp add: locked_asked)
  have "la_remainingMs a' = Some (nullish (le_lockedUntil e) 0 - now)"
    using check_answer [OF al' [unfolded lock_asked_def] la'] e(1,3) by (auto simp: s' al)
  then show ?thesis using l' by (simp add: request_cases locked_same asked_same v al al' e(2))
next
  case False
  have o: "over_budget now rq s" and v: "v = Over_budget"
    using assms False by (auto simp: request_cases locked_same asked_same over_same Let_def split: if_splits)
  have s': "ps_lockout s' = (if given (pr_clientIp rq) then snd (lock_asked now rq s) else ps_lockout s)"
      "ps_costs s' = snd (checkBudget (nullish (pr_apiKeyId rq) []) 0 now (ps_costs s))"
    using assms(1) False o by (auto simp: request_cases locked_same asked_same over_same Let_def over_budget_def)
  have "\<not> locked_out now rq s'"
    using False check_unlocked by (auto simp: locked_asked lock_asked_def s')
  moreover have "over_budget now rq s'" using o by (simp add: over_budget_def s' key_over_again)
  ultimately show ?thesis by (simp add: request_cases locked_same over_same Let_def v)
qed

text \<open>
  C15: The verdict on a request: it is refused for the remaining time of the lock exactly when its
  client is locked out, and then neither the budgets nor the chains are looked at; otherwise it is
  refused exactly when its key has a limit that the costs of the current window exceed, and then the
  chains are not looked at; otherwise it passes with the model and its fallback chain. No evaluation
  changes the costs that count.
\<close>

theorem request_verdict:
  "let (v, s') = evaluateRequest now rq s in
   same_costs (ps_costs s) (ps_costs s')
   \<and> (if locked_out now rq s
      then (\<exists>ms > 0. v = Locked_out ms) \<and> ps_costs s' = ps_costs s \<and> ps_fallbacks s' = ps_fallbacks s
      else if over_budget now rq s then v = Over_budget \<and> ps_fallbacks s' = ps_fallbacks s
      else v = Passed (pr_model rq) (fst (resolveFallbackChain (pr_model rq) [] (ps_fallbacks s))))"
proof -
  have c: "same_costs (ps_costs s) (snd (checkBudget k x now (ps_costs s)))" for k x by (rule check_costs)
  show ?thesis
  proof (cases "locked_out now rq s")
    case True
    obtain a l where al: "lock_asked now rq s = (a, l)" by (cases "lock_asked now rq s")
    have la: "la_locked a" using True al by (simp add: locked_asked)
    from check_answer [OF al [unfolded lock_asked_def] la]
    obtain e where e: "lock_view (ps_lockout s) (nullish (pr_clientIp rq) []) = Some e" "la_remainingMs a = Some (nullish (le_lockedUntil e) 0 - now)"
      by auto
    have "now < nullish (le_lockedUntil e) 0" using True e(1) by (simp add: locked_out_def)
    then show ?thesis using True by (simp add: request_cases al e(2))
  next
    case False
    then show ?thesis using c by (simp add: request_cases Let_def)
  qed
qed

text \<open>
  Asking for several models asks for the first: its verdict is the verdict, and when it is refused
  every other model is refused for the same reason, so that no later model is ever chosen. Without any
  model there is no choice, but the verdict is that of a request without a model, which passes for a
  client that is not locked out and a key within its budget.
\<close>

theorem only_first_model_counts:
  "fst (evaluateFirstAllowed now (m # ms) rq s) =
     (let v = fst (evaluateRequest now (rq\<lparr>pr_model := Some m\<rparr>) s) in (if verdict_allowed v then Some m else None, v))
   \<and> fst (evaluateFirstAllowed now [] rq s) = (None, fst (evaluateRequest now (rq\<lparr>pr_model := None\<rparr>) s))
   \<and> (verdict_allowed (snd (fst (evaluateFirstAllowed now [] rq s))) \<longleftrightarrow> \<not> locked_out now rq s \<and> \<not> over_budget now rq s)"
proof -
  have stuck: "fst (first_allowed now ms rq s) = None
      \<and> (\<forall>y. fst (evaluateRequest now (rq\<lparr>pr_model := y\<rparr>) (snd (first_allowed now ms rq s))) = v)"
    if "\<forall>y. fst (evaluateRequest now (rq\<lparr>pr_model := y\<rparr>) s) = v" "\<not> verdict_allowed v" for ms v s
    using that(1)
  proof (induction ms arbitrary: s)
    case (Cons a ms)
    obtain v1 s1 where e: "evaluateRequest now (rq\<lparr>pr_model := Some a\<rparr>) s = (v1, s1)" by (cases "evaluateRequest now (rq\<lparr>pr_model := Some a\<rparr>) s")
    have "v1 = v" using Cons.prems e by (metis fst_conv)
    then show ?case using refused_again [OF e] Cons.IH [of s1] e that(2) by simp
  qed simp
  obtain v s1 where e: "evaluateRequest now (rq\<lparr>pr_model := Some m\<rparr>) s = (v, s1)" by (cases "evaluateRequest now (rq\<lparr>pr_model := Some m\<rparr>) s")
  have "fst (evaluateFirstAllowed now (m # ms) rq s) = (if verdict_allowed v then Some m else None, v)"
  proof (cases "verdict_allowed v")
    case True
    then show ?thesis by (simp add: evaluateFirstAllowed_def e)
  next
    case False
    have r: "\<forall>y. fst (evaluateRequest now (rq\<lparr>pr_model := y\<rparr>) s1) = v" using refused_again [OF e False] by simp
    obtain r s2 where f: "first_allowed now ms rq s1 = (r, s2)" by (cases "first_allowed now ms rq s1")
    show ?thesis using stuck [OF r False, of ms] False e f by (simp add: evaluateFirstAllowed_def split_beta)
  qed
  moreover have "fst (evaluateFirstAllowed now [] rq s) = (None, fst (evaluateRequest now (rq\<lparr>pr_model := None\<rparr>) s))"
    by (simp add: evaluateFirstAllowed_def split_beta)
  ultimately show ?thesis
    by (simp add: e) (simp add: request_cases locked_same over_same asked_same Let_def)
qed

end
