(* ===== verification/PolicyEngine.thy ===== *)
theory PolicyEngine
  imports Prelude
begin

text \<open>
  The class \<open>PolicyEngine\<close> of \<^verbatim>\<open>src/src/domain/policyEngine.ts\<close>: the policies it
  keeps, their evaluation for a model, and \<open>globMatch\<close>, which turns their patterns into regular
  expressions. Strings are ASCII; the reason of a verdict names the policy.
\<close>

subsection \<open>Patterns\<close>

text \<open>
  \<open>globMatch\<close> escapes the special characters of the pattern except the question mark and turns a star
  into \<open>.*\<close>. What is left of the syntax: a literal character, any text without a line end, and a
  question mark behind one of them, which makes a literal optional (a second one, or one behind a
  star, only makes the match lazy). A question mark with nothing to repeat is a syntax error.
\<close>

datatype glob_item = Lit char | Opt char | Any_text

definition skip_lazy :: "string \<Rightarrow> string" where
  "skip_lazy s = (case s of c # cs \<Rightarrow> if c = CHR ''?'' then cs else s | [] \<Rightarrow> [])"

lemma length_skip_lazy: "length (skip_lazy s) \<le> length s"
  by (cases s) (simp_all add: skip_lazy_def)

function glob_items :: "string \<Rightarrow> glob_item list option" where
  "glob_items [] = Some []"
| "glob_items (c # cs) =
     (if c = CHR ''?'' then None
      else if c = CHR ''*'' then map_option ((#) Any_text) (glob_items (skip_lazy cs))
      else if cs \<noteq> [] \<and> hd cs = CHR ''?'' then map_option ((#) (Opt c)) (glob_items (skip_lazy (tl cs)))
      else map_option ((#) (Lit c)) (glob_items cs))"
  by pat_completeness auto
termination
  by (relation "measure length") (auto simp: less_Suc_eq_le length_skip_lazy le_trans [OF length_skip_lazy])

definition line_end :: "char \<Rightarrow> bool" where
  "line_end c \<longleftrightarrow> of_char c \<in> {10, 13 :: nat}"

fun glob_run :: "glob_item list \<Rightarrow> string \<Rightarrow> bool" where
  "glob_run [] s = (s = [])"
| "glob_run (Lit c # is) s = (case s of [] \<Rightarrow> False | d # ds \<Rightarrow> d = c \<and> glob_run is ds)"
| "glob_run (Opt c # is) s = (glob_run is s \<or> (case s of [] \<Rightarrow> False | d # ds \<Rightarrow> d = c \<and> glob_run is ds))"
| "glob_run (Any_text # is) [] = glob_run is []"
| "glob_run (Any_text # is) (d # ds) = (glob_run is (d # ds) \<or> (\<not> line_end d \<and> glob_run (Any_text # is) ds))"

datatype pattern_error = Nothing_to_repeat

definition globMatch :: "string \<Rightarrow> string \<Rightarrow> pattern_error + bool" where
  "globMatch pattern v = (case glob_items pattern of None \<Rightarrow> Inl Nothing_to_repeat | Some is \<Rightarrow> Inr (glob_run is v))"

subsection \<open>The engine\<close>

record policy =
  pl_id :: string
  pl_name :: string
  pl_type :: string
  pl_enabled :: bool
  pl_priority :: int
  pl_pattern :: "string option"
  pl_prefer :: "string list option"
  pl_block :: "string list option"
  pl_maxTokens :: "int option"

record evaluation =
  ev_allowed :: bool
  ev_reason :: "string option"
  ev_preferred :: "string list"
  ev_applied :: "string list"
  ev_maxTokens :: "int option"

definition loadPolicies :: "policy list \<Rightarrow> policy list" where
  "loadPolicies ps = ps"

definition addPolicy :: "policy \<Rightarrow> policy list \<Rightarrow> policy list" where
  "addPolicy p ps = ps @ [p]"

definition removePolicy :: "string \<Rightarrow> policy list \<Rightarrow> policy list" where
  "removePolicy i ps = filter (\<lambda>p. pl_id p \<noteq> i) ps"

definition policy_applies :: "string \<Rightarrow> policy \<Rightarrow> pattern_error + bool" where
  "policy_applies model p =
     (case pl_pattern p of None \<Rightarrow> Inr True | Some pat \<Rightarrow> if pat = [] then Inr True else globMatch pat model)"

text \<open>\<open>some\<close> over the blocked patterns: it stops at the first match.\<close>

fun some_match :: "string \<Rightarrow> string list \<Rightarrow> pattern_error + bool" where
  "some_match model [] = Inr False"
| "some_match model (pat # pats) = bindE (globMatch pat model) (\<lambda>b. if b then Inr True else some_match model pats)"

text \<open>The loop over the sorted policies; the reason names the policy that blocks.\<close>

fun evaluate_policies :: "string \<Rightarrow> policy list \<Rightarrow> evaluation \<Rightarrow> pattern_error + evaluation" where
  "evaluate_policies model [] r = Inr r"
| "evaluate_policies model (p # ps) r =
     bindE (policy_applies model p) (\<lambda>b.
       if \<not> b then evaluate_policies model ps r
       else if pl_type p = ''routing'' then
         evaluate_policies model ps (r\<lparr>ev_preferred := ev_preferred r @ nullish (pl_prefer p) [], ev_applied := ev_applied r @ [pl_name p]\<rparr>)
       else if pl_type p = ''access'' then
         bindE (some_match model (nullish (pl_block p) [])) (\<lambda>blocked.
           if blocked then Inr (r\<lparr>ev_allowed := False, ev_reason := Some (pl_name p), ev_applied := ev_applied r @ [pl_name p]\<rparr>)
           else evaluate_policies model ps (r\<lparr>ev_applied := ev_applied r @ [pl_name p]\<rparr>))
       else if pl_type p = ''budget'' then
         evaluate_policies model ps (r\<lparr>ev_maxTokens := (if pl_maxTokens p = None then ev_maxTokens r else pl_maxTokens p),
           ev_applied := ev_applied r @ [pl_name p]\<rparr>)
       else evaluate_policies model ps r)"

definition evaluate :: "string \<Rightarrow> policy list \<Rightarrow> pattern_error + evaluation" where
  "evaluate model policies =
     evaluate_policies model (js_sort_by pl_priority (filter pl_enabled policies))
       \<lparr>ev_allowed = True, ev_reason = None, ev_preferred = [], ev_applied = [], ev_maxTokens = None\<rparr>"

subsection \<open>What a pattern matches\<close>

text \<open>What a character of the pattern stands for: a star for any text on one line, another for itself.\<close>

definition glob_piece :: "char \<Rightarrow> string \<Rightarrow> bool" where
  "glob_piece c s = (if c = CHR ''*'' then \<forall>d \<in> set s. \<not> line_end d else s = [c])"

lemma glob_run_any: "glob_run (Any_text # is) v \<longleftrightarrow> (\<exists>s t. v = s @ t \<and> (\<forall>d \<in> set s. \<not> line_end d) \<and> glob_run is t)"
proof (induction v)
  case (Cons d ds)
  let ?R = "\<lambda>v s t. v = s @ t \<and> (\<forall>d \<in> set s. \<not> line_end d) \<and> glob_run is t"
  have "\<exists>s t. ?R (d # ds) s t" if "glob_run is (d # ds)"
    by (rule exI [of _ "[]"], rule exI [of _ "d # ds"]) (simp add: that)
  moreover have "\<exists>s t. ?R (d # ds) s t" if "\<not> line_end d" and "?R ds s t" for s t
    using that by (intro exI [of _ "d # s"] exI [of _ t]) simp
  moreover have "glob_run is (d # ds) \<or> (\<not> line_end d \<and> (\<exists>s t. ?R ds s t))" if "?R (d # ds) s t" for s t
    using that by (cases s) auto
  ultimately show ?case unfolding glob_run.simps Cons.IH by blast
qed simp

lemma glob_items_literal:
  "CHR ''?'' \<notin> set pat \<Longrightarrow> glob_items pat = Some (map (\<lambda>c. if c = CHR ''*'' then Any_text else Lit c) pat)"
proof (induction pat)
  case (Cons c pat)
  then show ?case by (cases pat) (auto simp: skip_lazy_def)
qed simp

lemma glob_run_pieces:
  "glob_run (map (\<lambda>c. if c = CHR ''*'' then Any_text else Lit c) pat) v \<longleftrightarrow> (\<exists>ss. list_all2 glob_piece pat ss \<and> concat ss = v)"
proof (induction pat arbitrary: v)
  case (Cons c pat)
  have split: "(\<exists>ss. list_all2 glob_piece (c # pat) ss \<and> concat ss = v)
      \<longleftrightarrow> (\<exists>s t. v = s @ t \<and> glob_piece c s \<and> (\<exists>ss. list_all2 glob_piece pat ss \<and> concat ss = t))"
  proof
    assume "\<exists>ss. list_all2 glob_piece (c # pat) ss \<and> concat ss = v"
    then obtain z zs where "glob_piece c z" "list_all2 glob_piece pat zs" "z @ concat zs = v"
      by (auto simp: list_all2_Cons1)
    then show "\<exists>s t. v = s @ t \<and> glob_piece c s \<and> (\<exists>ss. list_all2 glob_piece pat ss \<and> concat ss = t)" by blast
  next
    assume "\<exists>s t. v = s @ t \<and> glob_piece c s \<and> (\<exists>ss. list_all2 glob_piece pat ss \<and> concat ss = t)"
    then obtain s ss where "v = s @ concat ss" "glob_piece c s" "list_all2 glob_piece pat ss" by blast
    then show "\<exists>ss. list_all2 glob_piece (c # pat) ss \<and> concat ss = v" by (intro exI [of _ "s # ss"]) simp
  qed
  show ?case
  proof (cases "c = CHR ''*''")
    case True
    have "glob_piece c s \<longleftrightarrow> (\<forall>d \<in> set s. \<not> line_end d)" for s by (simp add: glob_piece_def True)
    then show ?thesis unfolding split by (simp add: True glob_run_any Cons.IH)
  next
    case False
    then have "glob_piece c s \<longleftrightarrow> s = [c]" for s by (simp add: glob_piece_def)
    with False show ?thesis unfolding split by (cases v) (auto simp: Cons.IH)
  qed
qed auto

text \<open>
  A pattern without a question mark matches a model name exactly when the name is the pattern
  with every star replaced by a text without a line end: no other character of the pattern is special,
  whatever it means in a regular expression, and the match is of the whole name.
\<close>

theorem glob_match_exact:
  assumes "CHR ''?'' \<notin> set pat"
  shows "globMatch pat v = Inr (\<exists>ss. list_all2 glob_piece pat ss \<and> concat ss = v)"
  by (simp add: globMatch_def glob_items_literal [OF assms] glob_run_pieces)

theorem glob_match_exact_witness:
  "globMatch ''gpt-4.*'' ''gpt-4.1'' = Inr (\<exists>ss. list_all2 glob_piece ''gpt-4.*'' ss \<and> concat ss = ''gpt-4.1'')
   \<and> globMatch ''gpt-4.*'' ''gpt-4.1'' = Inr True \<and> globMatch ''gpt-4.*'' ''gpt-4o'' = Inr False"
proof -
  have "globMatch ''gpt-4.*'' ''gpt-4.1'' = Inr True \<and> globMatch ''gpt-4.*'' ''gpt-4o'' = Inr False" by code_simp
  then show ?thesis using glob_match_exact [of "''gpt-4.*''" "''gpt-4.1''"] by simp
qed

subsection \<open>What the policies decide\<close>

definition literal_policy :: "policy \<Rightarrow> bool" where
  "literal_policy p \<longleftrightarrow> (\<forall>pat \<in> set (nullish (pl_block p) []) \<union> set_option (pl_pattern p). CHR ''?'' \<notin> set pat)"

definition glob_matches :: "string \<Rightarrow> string \<Rightarrow> bool" where
  "glob_matches pat v \<longleftrightarrow> globMatch pat v = Inr True"

definition applicable :: "string \<Rightarrow> policy \<Rightarrow> bool" where
  "applicable model p \<longleftrightarrow> pl_enabled p \<and> pl_type p \<in> {''routing'', ''access'', ''budget''}
     \<and> (case pl_pattern p of None \<Rightarrow> True | Some pat \<Rightarrow> pat = [] \<or> glob_matches pat model)"

definition blocks :: "string \<Rightarrow> policy \<Rightarrow> bool" where
  "blocks model p \<longleftrightarrow> pl_type p = ''access'' \<and> (\<exists>pat \<in> set (nullish (pl_block p) []). glob_matches pat model)"

lemma glob_literal: "CHR ''?'' \<notin> set pat \<Longrightarrow> globMatch pat v = Inr (glob_matches pat v)"
  by (simp add: glob_matches_def globMatch_def glob_items_literal)

lemma some_match_literal:
  "\<forall>pat \<in> set pats. CHR ''?'' \<notin> set pat \<Longrightarrow> some_match v pats = Inr (\<exists>pat \<in> set pats. glob_matches pat v)"
  by (induction pats) (simp_all add: glob_literal)

lemma policy_applies_literal:
  "literal_policy p \<Longrightarrow> policy_applies m p = Inr (case pl_pattern p of None \<Rightarrow> True | Some pat \<Rightarrow> pat = [] \<or> glob_matches pat m)"
  by (auto simp: policy_applies_def literal_policy_def glob_literal split: option.splits)

definition last_given :: "'a option \<Rightarrow> 'a option list \<Rightarrow> 'a option" where
  "last_given x ys = foldl (\<lambda>x y. if y = None then x else y) x ys"

definition of_type :: "string \<Rightarrow> policy list \<Rightarrow> policy list" where
  "of_type t ps = filter (\<lambda>p. pl_type p = t) ps"

lemma evaluate_policies_exact:
  assumes "\<forall>p \<in> set ps. literal_policy p \<and> pl_enabled p" and "as = filter (applicable m) ps"
    and "pass = takeWhile (\<lambda>p. \<not> blocks m p) as" and "stop = dropWhile (\<lambda>p. \<not> blocks m p) as"
  shows "evaluate_policies m ps r =
    Inr (r\<lparr>ev_allowed := (if stop = [] then ev_allowed r else False),
           ev_reason := (if stop = [] then ev_reason r else Some (pl_name (hd stop))),
           ev_preferred := ev_preferred r @ concat (map (\<lambda>p. nullish (pl_prefer p) []) (of_type ''routing'' pass)),
           ev_applied := ev_applied r @ map pl_name pass @ map pl_name (take 1 stop),
           ev_maxTokens := last_given (ev_maxTokens r) (map pl_maxTokens (of_type ''budget'' pass))\<rparr>)"
  using assms
proof (induction ps arbitrary: r as pass stop)
  case Nil
  then show ?case by (simp add: of_type_def last_given_def)
next
  case (Cons p ps)
  have lit: "literal_policy p" "pl_enabled p" using Cons.prems(1) by simp_all
  have bl: "some_match m (nullish (pl_block p) []) = Inr (\<exists>pat \<in> set (nullish (pl_block p) []). glob_matches pat m)"
    using lit(1) by (intro some_match_literal) (auto simp: literal_policy_def)
  note IH = Cons.IH [OF _ refl refl refl]
  have rest: "\<forall>p \<in> set ps. literal_policy p \<and> pl_enabled p" using Cons.prems(1) by simp
  show ?case
  proof (cases "applicable m p")
    case False
    have skip: "evaluate_policies m (p # ps) r = evaluate_policies m ps r"
      using False lit(2) policy_applies_literal [OF lit(1), of m] by (auto simp: applicable_def)
    have f: "filter (applicable m) (p # ps) = filter (applicable m) ps" using False by simp
    show ?thesis unfolding Cons.prems(2-4) skip f by (rule IH [OF rest])
  next
    case True
    then have ap: "policy_applies m p = Inr True"
      by (simp add: policy_applies_literal [OF lit(1)] applicable_def)
    have t: "pl_type p = ''routing'' \<or> pl_type p = ''access'' \<or> pl_type p = ''budget''"
      using True by (simp add: applicable_def)
    show ?thesis
    proof (cases "blocks m p")
      case True': True
      then have "pl_type p = ''access''" "some_match m (nullish (pl_block p) []) = Inr True"
        unfolding bl by (simp_all add: blocks_def)
      then show ?thesis using True True' ap unfolding Cons.prems(2-4) by (simp add: of_type_def last_given_def)
    next
      case False
      then show ?thesis
        using True t ap bl unfolding Cons.prems(2-4)
        by (elim disjE) (auto simp: IH [OF rest] blocks_def of_type_def last_given_def)
    qed
  qed
qed

text \<open>
  When no pattern has a question mark, the evaluation never throws and decides as the policies
  say: the model is refused exactly when an enabled access policy that applies to it blocks it,
  whatever the order; the reason names the first such policy in priority order. The policies applied
  are the applicable ones in that order up to the one that blocks, the preferred providers those of the
  routing policies among them, the token limit that of the last budget policy that sets one.
\<close>

theorem engine_decides:
  assumes "\<forall>p \<in> set ps. literal_policy p" and "as = filter (applicable m) (sort_key pl_priority ps)"
    and "pass = takeWhile (\<lambda>p. \<not> blocks m p) as" and "stop = dropWhile (\<lambda>p. \<not> blocks m p) as"
  shows "\<exists>r. evaluate m ps = Inr r
    \<and> (ev_allowed r \<longleftrightarrow> \<not> (\<exists>p \<in> set ps. applicable m p \<and> blocks m p))
    \<and> ev_reason r = (if ev_allowed r then None else Some (pl_name (hd stop)))
    \<and> ev_applied r = map pl_name pass @ map pl_name (take 1 stop)
    \<and> ev_preferred r = concat (map (\<lambda>p. nullish (pl_prefer p) []) (of_type ''routing'' pass))
    \<and> ev_maxTokens r = last_given None (map pl_maxTokens (of_type ''budget'' pass))"
proof -
  have s: "sort_key pl_priority (filter pl_enabled ps) = filter pl_enabled (sort_key pl_priority ps)"
    by (simp add: filter_sort)
  have as: "as = filter (applicable m) (filter pl_enabled (sort_key pl_priority ps))"
    unfolding assms(2) filter_filter by (rule filter_cong) (auto simp: applicable_def)
  have ok: "\<forall>p \<in> set (filter pl_enabled (sort_key pl_priority ps)). literal_policy p \<and> pl_enabled p"
    using assms(1) by simp
  have st: "(stop = []) \<longleftrightarrow> \<not> (\<exists>p \<in> set ps. applicable m p \<and> blocks m p)"
    unfolding assms(4) assms(2) dropWhile_eq_Nil_conv by auto
  show ?thesis
    unfolding evaluate_def s evaluate_policies_exact [OF ok as assms(3,4)] st [symmetric]
    by (intro exI conjI, rule refl) simp_all
qed

theorem engine_decides_witness:
  "let free = \<lparr>pl_id = ''1'', pl_name = ''free'', pl_type = ''access'', pl_enabled = True, pl_priority = 5, pl_pattern = Some ''*'',
              pl_prefer = None, pl_block = Some [''gpt-*''], pl_maxTokens = None\<rparr>;
       eu = \<lparr>pl_id = ''2'', pl_name = ''eu'', pl_type = ''routing'', pl_enabled = True, pl_priority = 1, pl_pattern = None,
              pl_prefer = Some [''mistral''], pl_block = None, pl_maxTokens = None\<rparr> in
   (\<exists>r. evaluate ''gpt-4'' [free, eu] = Inr r \<and> \<not> ev_allowed r \<and> ev_reason r = Some ''free'' \<and> ev_applied r = [''eu'', ''free''])"
proof -
  define free where "free = \<lparr>pl_id = ''1'', pl_name = ''free'', pl_type = ''access'', pl_enabled = True, pl_priority = 5, pl_pattern = Some ''*'',
              pl_prefer = None, pl_block = Some [''gpt-*''], pl_maxTokens = None\<rparr>"
  define eu where "eu = \<lparr>pl_id = ''2'', pl_name = ''eu'', pl_type = ''routing'', pl_enabled = True, pl_priority = 1, pl_pattern = None,
              pl_prefer = Some [''mistral''], pl_block = None, pl_maxTokens = None\<rparr>"
  have l: "\<forall>p \<in> set [free, eu]. literal_policy p" unfolding free_def eu_def by (simp add: literal_policy_def)
  have b: "applicable ''gpt-4'' free" "applicable ''gpt-4'' eu" "blocks ''gpt-4'' free" "\<not> blocks ''gpt-4'' eu"
    unfolding free_def eu_def by code_simp+
  have s: "sort_key pl_priority [free, eu] = [eu, free]" by (simp add: free_def eu_def)
  have n: "pl_name free = ''free''" "pl_name eu = ''eu''" by (simp_all add: free_def eu_def)
  show ?thesis
    using engine_decides [OF l refl refl refl, of "''gpt-4''"] unfolding s free_def [symmetric] eu_def [symmetric] Let_def
    by (auto simp: b n)
qed

subsection \<open>Question marks\<close>

lemma glob_items_optional:
  assumes "CHR ''?'' \<notin> set pre" and "CHR ''*'' \<notin> set pre" and "c \<noteq> CHR ''?''" and "c \<noteq> CHR ''*''"
  shows "glob_items (pre @ [c, CHR ''?'']) = Some (map Lit pre @ [Opt c])"
  using assms(1,2)
proof (induction pre)
  case Nil
  then show ?case using assms(3,4) by (simp add: skip_lazy_def)
next
  case (Cons a pre)
  then have "hd (pre @ [c, CHR ''?'']) \<noteq> CHR ''?''" using assms(3) by (cases pre) auto
  with Cons show ?case by (simp del: glob_items.simps add: glob_items.simps(2)) blast
qed

lemma glob_run_optional: "glob_run (map Lit pre @ [Opt c]) v \<longleftrightarrow> v = pre \<or> v = pre @ [c]"
proof (induction pre arbitrary: v)
  case Nil
  show ?case by (cases v) auto
next
  case (Cons a pre)
  then show ?case by (cases v) auto
qed

lemma bad_pattern_throws:
  assumes "\<forall>p \<in> set ps. pl_type p \<noteq> ''access''" and "p \<in> set ps" and "\<forall>b. policy_applies m p \<noteq> Inr b"
  shows "evaluate_policies m ps r = Inl Nothing_to_repeat"
  using assms(1,2)
proof (induction ps arbitrary: r)
  case (Cons q ps)
  show ?case
  proof (cases "policy_applies m q")
    case (Inl e)
    then show ?thesis by (cases e) simp
  next
    case (Inr b)
    then have "p \<in> set ps" using Cons.prems(2) assms(3) by auto
    then show ?thesis using Cons Inr by simp
  qed
qed simp

text \<open>
  A question mark in a pattern is not a wildcard. Behind a literal character it makes that
  character optional, so that the pattern matches two names and not the names with one more character;
  a pattern that begins with one is no regular expression, and one enabled policy with such a pattern
  makes the evaluation of every model throw when no access policy can answer before it.
\<close>

theorem question_mark_throws:
  assumes "p \<in> set ps" and "pl_enabled p" and "pl_pattern p = Some (CHR ''?'' # rest)"
    and "\<forall>q \<in> set ps. pl_enabled q \<longrightarrow> pl_type q \<noteq> ''access''"
    and "CHR ''?'' \<notin> set (pre @ [c])" and "CHR ''*'' \<notin> set (pre @ [c])"
  shows "evaluate model ps = Inl Nothing_to_repeat
    \<and> globMatch (pre @ [c, CHR ''?'']) v = Inr (v = pre \<or> v = pre @ [c])"
proof -
  have "globMatch (pre @ [c, CHR ''?'']) v = Inr (v = pre \<or> v = pre @ [c])"
    using assms(5,6) glob_items_optional [of pre c] by (auto simp: globMatch_def glob_run_optional)
  moreover have "policy_applies model p = Inl Nothing_to_repeat"
    using assms(3) by (simp add: policy_applies_def globMatch_def)
  then have "evaluate model ps = Inl Nothing_to_repeat"
    unfolding evaluate_def using assms(1,2,4) by (intro bad_pattern_throws [of _ p]) auto
  ultimately show ?thesis by simp
qed

theorem question_mark_throws_witness:
  "let p = \<lparr>pl_id = ''1'', pl_name = ''any'', pl_type = ''routing'', pl_enabled = True, pl_priority = 1, pl_pattern = Some ''?pt-4'',
            pl_prefer = None, pl_block = None, pl_maxTokens = None\<rparr> in
   evaluate ''claude'' [p] = Inl Nothing_to_repeat
   \<and> globMatch ''gpt-4?'' ''gpt-4o'' = Inr False \<and> globMatch ''gpt-4?'' ''gpt-'' = Inr True"
proof -
  define p where "p = \<lparr>pl_id = ''1'', pl_name = ''any'', pl_type = ''routing'', pl_enabled = True, pl_priority = 1, pl_pattern = Some ''?pt-4'',
            pl_prefer = None, pl_block = None, pl_maxTokens = None\<rparr>"
  note q = question_mark_throws [of p "[p]" "''pt-4''" "''gpt-''" "CHR ''4''" "''claude''"]
  show ?thesis using q [of "''gpt-4o''"] q [of "''gpt-''"] unfolding p_def by (simp add: Let_def)
qed

end
