(* ===== verification/WireFormat.thy ===== *)
theory WireFormat
  imports Prelude "HOL-Library.Word"
begin

text \<open>
  The protobuf wire format of \<^verbatim>\<open>src/open-sse/utils/cursorAgentProtobuf/wire.ts\<close>: varints, tags, fields
  and their decoding. A buffer is a list of bytes, a bigint that is never negative a natural number, a
  double its 64 bits, and a text the list of its Unicode scalar values (no lone surrogates), which
  \<open>Buffer.from(s, "utf8")\<close> and \<open>toString("utf8")\<close> encode and decode.
\<close>

unbundle bit_operations_syntax

type_synonym byte = "8 word"
type_synonym bytes = "8 word list"

subsection \<open>What the standard library does\<close>

text \<open>\<open>Number\<close> of a bigint: exact below \<open>2\<^sup>5\<^sup>3\<close>, else the nearest number with 53 significant bits, ties to even.\<close>

fun bit_length :: "nat \<Rightarrow> nat" where
  "bit_length n = (if n = 0 then 0 else Suc (bit_length (n div 2)))"

declare bit_length.simps [simp del]

definition js_Number :: "nat \<Rightarrow> nat" where
  "js_Number n =
     (let k = bit_length n - 53; q = n div 2 ^ k; r = n mod 2 ^ k in
      (if 2 * r > 2 ^ k \<or> (2 * r = 2 ^ k \<and> odd q) then q + 1 else q) * 2 ^ k)"

type_synonym utext = "nat list"

definition text_of :: "string \<Rightarrow> utext" where
  "text_of s = map of_char s"

definition scalar :: "nat \<Rightarrow> bool" where
  "scalar c \<longleftrightarrow> c < 0x110000 \<and> \<not> (0xD800 \<le> c \<and> c \<le> 0xDFFF)"

definition utf8_char :: "nat \<Rightarrow> bytes" where
  "utf8_char c =
     (if c < 0x80 then [of_nat c]
      else if c < 0x800 then [of_nat (0xC0 + c div 64), of_nat (0x80 + c mod 64)]
      else if c < 0x10000 then [of_nat (0xE0 + c div 4096), of_nat (0x80 + c div 64 mod 64), of_nat (0x80 + c mod 64)]
      else [of_nat (0xF0 + c div 262144), of_nat (0x80 + c div 4096 mod 64), of_nat (0x80 + c div 64 mod 64), of_nat (0x80 + c mod 64)])"

definition utf8_bytes :: "utext \<Rightarrow> bytes" where
  "utf8_bytes s = concat (map utf8_char s)"

text \<open>
  The decoder: what a first byte emits, and the code point, the bytes needed and the bounds of the
  next byte it leaves. A byte out of its bounds gives one replacement character and is read again.
\<close>

definition utf8_start :: "nat \<Rightarrow> nat list \<times> nat \<times> nat \<times> nat \<times> nat" where
  "utf8_start x =
     (if x < 0x80 then ([x], 0, 0, 0x80, 0xBF)
      else if 0xC2 \<le> x \<and> x \<le> 0xDF then ([], x mod 32, 1, 0x80, 0xBF)
      else if 0xE0 \<le> x \<and> x \<le> 0xEF then ([], x mod 16, 2, if x = 0xE0 then 0xA0 else 0x80, if x = 0xED then 0x9F else 0xBF)
      else if 0xF0 \<le> x \<and> x \<le> 0xF4 then ([], x mod 8, 3, if x = 0xF0 then 0x90 else 0x80, if x = 0xF4 then 0x8F else 0xBF)
      else ([0xFFFD], 0, 0, 0x80, 0xBF))"

fun utf8_run :: "nat \<Rightarrow> nat \<Rightarrow> nat \<Rightarrow> nat \<Rightarrow> bytes \<Rightarrow> utext" where
  "utf8_run cp need lo hi [] = (if need = 0 then [] else [0xFFFD])"
| "utf8_run cp need lo hi (b # bs) =
     (let x = unat b in
      if 0 < need \<and> lo \<le> x \<and> x \<le> hi then
        (let cp' = cp * 64 + x mod 64 in
         if need = 1 then cp' # utf8_run 0 0 0x80 0xBF bs else utf8_run cp' (need - 1) 0x80 0xBF bs)
      else
        (let (out, cp', need', lo', hi') = utf8_start x
         in (if need = 0 then [] else [0xFFFD]) @ out @ utf8_run cp' need' lo' hi' bs))"

definition utf8_text :: "bytes \<Rightarrow> utext" where
  "utf8_text bs = utf8_run 0 0 0x80 0xBF bs"

subsection \<open>Encoding\<close>

definition WT_VARINT :: int where "WT_VARINT = 0"

definition WT_LEN :: int where "WT_LEN = 2"

text \<open>\<open>Buffer.from\<close> keeps the low eight bits of a number, also of a negative one.\<close>

function encodeVarint :: "int \<Rightarrow> bytes" where
  "encodeVarint v =
     (if v > 0x7F then (word_of_int (v AND 0x7F) OR 0x80) # encodeVarint (drop_bit 7 v) else [word_of_int v])"
  by pat_completeness auto
termination
  by (relation "measure nat") (simp_all add: drop_bit_eq_div)

declare encodeVarint.simps [simp del]

text \<open>The shift and the disjunction are on signed 32-bit integers.\<close>

definition encodeTag :: "int \<Rightarrow> int \<Rightarrow> bytes" where
  "encodeTag fieldNumber wireType = encodeVarint (sint (push_bit 3 (word_of_int fieldNumber :: 32 word) OR word_of_int wireType))"

definition encodeBytes :: "int \<Rightarrow> bytes \<Rightarrow> bytes" where
  "encodeBytes fieldNumber buf = encodeTag fieldNumber WT_LEN @ encodeVarint (int (length buf)) @ buf"

definition encodeString :: "int \<Rightarrow> utext \<Rightarrow> bytes" where
  "encodeString fieldNumber v = encodeBytes fieldNumber (utf8_bytes v)"

definition encodeMessage :: "int \<Rightarrow> bytes list \<Rightarrow> bytes" where
  "encodeMessage fieldNumber parts =
     (let inner = concat parts in encodeTag fieldNumber WT_LEN @ encodeVarint (int (length inner)) @ inner)"

definition encodeUInt32Field :: "int \<Rightarrow> int \<Rightarrow> bytes" where
  "encodeUInt32Field fieldNumber v = encodeTag fieldNumber WT_VARINT @ encodeVarint v"

definition encodeBoolField :: "int \<Rightarrow> bool \<Rightarrow> bytes" where
  "encodeBoolField fieldNumber v = encodeTag fieldNumber WT_VARINT @ encodeVarint (if v then 1 else 0)"

text \<open>\<open>writeDoubleLE\<close>: the eight bytes of the double, the low one first.\<close>

definition double_bytes :: "64 word \<Rightarrow> bytes" where
  "double_bytes v = map (\<lambda>i. ucast (drop_bit (8 * i) v)) [0..<8]"

definition double_of :: "bytes \<Rightarrow> 64 word" where
  "double_of bs = foldr (\<lambda>b v. ucast b OR push_bit 8 v) bs 0"

definition encodeDoubleField :: "int \<Rightarrow> 64 word \<Rightarrow> bytes" where
  "encodeDoubleField fieldNumber v = encodeTag fieldNumber 1 @ double_bytes v"

subsection \<open>Decoding\<close>

datatype wire_error = Varint_truncated | Overruns_buffer nat nat | Unsupported_wireType nat

fun varint_loop :: "bytes \<Rightarrow> nat \<Rightarrow> nat \<Rightarrow> nat \<Rightarrow> wire_error + nat \<times> nat" where
  "varint_loop [] r shift pos = Inl Varint_truncated"
| "varint_loop (b # bs) r shift pos =
     (let r' = r OR push_bit shift (unat (b AND 0x7F)) in
      if b AND 0x80 = 0 then Inr (r', pos + 1) else varint_loop bs r' (shift + 7) (pos + 1))"

definition decodeVarint :: "bytes \<Rightarrow> nat \<Rightarrow> wire_error + nat \<times> nat" where
  "decodeVarint buf offset = varint_loop (drop offset buf) 0 0 offset"

datatype field = Varint_field (field_number: nat) nat | Bytes_field (field_number: nat) bytes

definition checkedLen :: "nat \<Rightarrow> nat \<Rightarrow> bytes \<Rightarrow> wire_error + nat" where
  "checkedLen len pos buf = (if len > length buf - pos then Inl (Overruns_buffer len (length buf - pos)) else Inr len)"

definition subarray :: "bytes \<Rightarrow> nat \<Rightarrow> nat \<Rightarrow> bytes" where
  "subarray buf a b = take (b - a) (drop a buf)"

lemma varint_loop_pos: "varint_loop bs r shift pos = Inr (v, p) \<Longrightarrow> pos < p \<and> p \<le> pos + length bs"
  by (induction bs r shift pos rule: varint_loop.induct) (auto simp: Let_def split: if_splits)

lemma decodeVarint_pos: "decodeVarint buf pos = Inr (v, p) \<Longrightarrow> pos < p \<and> p \<le> length buf"
  using varint_loop_pos [of "drop pos buf" 0 0 pos v p] by (cases "pos \<le> length buf") (simp_all add: decodeVarint_def)

text \<open>One field from a position: what it adds to the result and where the next one begins.\<close>

definition decode_field :: "bytes \<Rightarrow> nat \<Rightarrow> wire_error + field list \<times> nat" where
  "decode_field buf pos =
     bindE (decodeVarint buf pos) (\<lambda>(tag, p).
       let fieldNumber = js_Number (drop_bit 3 tag); wireType = tag AND 7 in
       if wireType = 0 then bindE (decodeVarint buf p) (\<lambda>(v, p2). Inr ([Varint_field fieldNumber v], p2))
       else if wireType = 2 then
         bindE (decodeVarint buf p) (\<lambda>(len, p2).
           bindE (checkedLen len p2 buf) (\<lambda>n. Inr ([Bytes_field fieldNumber (subarray buf p2 (p2 + n))], p2 + n)))
       else if wireType = 5 then Inr ([], p + 4)
       else if wireType = 1 then Inr ([], p + 8)
       else Inl (Unsupported_wireType wireType))"

lemma decode_field_pos: "decode_field buf pos = Inr (fs, p) \<Longrightarrow> pos < p"
  unfolding decode_field_def Let_def
  by (auto simp: bindE_Inr_iff checkedLen_def split: if_splits dest!: decodeVarint_pos)

function decode_fields_from :: "bytes \<Rightarrow> nat \<Rightarrow> wire_error + field list" where
  "decode_fields_from buf pos =
     (if pos < length buf
      then case decode_field buf pos of
             Inl e \<Rightarrow> Inl e
           | Inr (fs, p) \<Rightarrow> bindE (decode_fields_from buf p) (\<lambda>rest. Inr (fs @ rest))
      else Inr [])"
  by pat_completeness auto
termination
proof (relation "measure (\<lambda>(buf, pos). length buf - pos)")
  fix buf pos x a b
  assume "pos < length buf" and "decode_field buf pos = Inr x" and "(a, b) = x"
  then show "((buf, b), buf, pos) \<in> measure (\<lambda>(buf, pos). length buf - pos)"
    using decode_field_pos [of buf pos a b] by auto
qed simp

declare decode_fields_from.simps [simp del]

definition decodeFields :: "bytes \<Rightarrow> wire_error + field list" where
  "decodeFields buf = decode_fields_from buf 0"

definition findField :: "field list \<Rightarrow> nat \<Rightarrow> field option" where
  "findField fields n = List.find (\<lambda>f. field_number f = n) fields"

definition decodeStringField :: "bytes \<Rightarrow> nat \<Rightarrow> wire_error + utext" where
  "decodeStringField buf n =
     bindE (decodeFields buf) (\<lambda>fields.
       Inr (case findField fields n of Some (Bytes_field _ bs) \<Rightarrow> utf8_text bs | _ \<Rightarrow> []))"

definition decodeVarintField :: "bytes \<Rightarrow> nat \<Rightarrow> wire_error + nat" where
  "decodeVarintField buf n =
     bindE (decodeFields buf) (\<lambda>fields.
       Inr (case findField fields n of Some (Varint_field _ v) \<Rightarrow> js_Number v | _ \<Rightarrow> 0))"

subsection \<open>Varints\<close>

lemma varint_step:
  assumes "v > 0x7F"
  shows "encodeVarint v = (word_of_int (v AND 0x7F) OR 0x80) # encodeVarint (drop_bit 7 v)"
  by (subst encodeVarint.simps) (simp add: assms)

lemma varint_last: "v \<le> 0x7F \<Longrightarrow> encodeVarint v = [word_of_int v]"
  by (subst encodeVarint.simps) simp

lemma bit_80: "bit (0x80 :: byte) n \<longleftrightarrow> n = 7" "bit (0x80 :: int) n \<longleftrightarrow> n = 7"
proof -
  have e: "(0x80 :: byte) = 2 ^ 7" "(0x80 :: int) = 2 ^ 7" by simp_all
  show "bit (0x80 :: byte) n \<longleftrightarrow> n = 7" unfolding e bit_exp_iff by auto
  show "bit (0x80 :: int) n \<longleftrightarrow> n = 7" unfolding e bit_exp_iff by simp
qed

lemma bit_7F: "bit (0x7F :: byte) n \<longleftrightarrow> n < 7" "bit (0x7F :: int) n \<longleftrightarrow> n < 7"
proof -
  have e: "(0x7F :: byte) = mask 7" "(0x7F :: int) = mask 7" by (simp_all add: mask_eq_exp_minus_1)
  show "bit (0x7F :: byte) n \<longleftrightarrow> n < 7" unfolding e bit_mask_iff by auto
  show "bit (0x7F :: int) n \<longleftrightarrow> n < 7" unfolding e bit_mask_iff by auto
qed

lemma low_byte:
  fixes v :: int
  shows "((word_of_int (v AND 0x7F) OR 0x80 :: byte) AND 0x7F) = word_of_int (take_bit 7 v)"
    and "((word_of_int (v AND 0x7F) OR 0x80 :: byte) AND 0x80) = 0x80"
proof -
  show "((word_of_int (v AND 0x7F) OR 0x80 :: byte) AND 0x7F) = word_of_int (take_bit 7 v)"
    by (rule bit_word_eqI) (auto simp: bit_and_iff bit_or_iff bit_7F bit_80 bit_word_of_int_iff bit_take_bit_iff)
  show "((word_of_int (v AND 0x7F) OR 0x80 :: byte) AND 0x80) = 0x80"
    by (rule bit_word_eqI) (auto simp: bit_and_iff bit_or_iff bit_7F bit_80 bit_word_of_int_iff)
qed

lemma last_byte:
  fixes v :: int
  assumes "0 \<le> v" and "v \<le> 0x7F"
  shows "((word_of_int v :: byte) AND 0x7F) = word_of_int v" and "((word_of_int v :: byte) AND 0x80) = 0"
proof -
  have t: "take_bit 7 v = v" using assms by (simp add: take_bit_int_eq_self_iff)
  have b: "bit v n \<Longrightarrow> n < 7" for n using bit_take_bit_iff [of 7 v n] unfolding t by simp
  show "((word_of_int v :: byte) AND 0x7F) = word_of_int v"
    by (rule bit_word_eqI) (auto simp: bit_and_iff bit_7F bit_word_of_int_iff dest: b)
  show "((word_of_int v :: byte) AND 0x80) = 0"
    by (rule bit_word_eqI) (auto simp: bit_and_iff bit_80 bit_word_of_int_iff dest: b)
qed

lemma unat_low: "unat (word_of_int (take_bit 7 v) :: byte) = nat (take_bit 7 v)"
proof -
  have "take_bit 7 v < 128" using take_bit_int_less_exp [of 7 v] by simp
  then have "take_bit 8 (take_bit 7 v) = take_bit 7 v" by (simp add: take_bit_int_eq_self_iff)
  then show ?thesis by (simp add: unsigned_of_int)
qed

lemma or_pieces: "push_bit s (take_bit 7 n) OR push_bit (s + 7) (drop_bit 7 n) = push_bit s (n :: nat)"
proof (rule bit_eqI)
  fix i
  have "s + 7 + (i - (s + 7)) = i" if "s + 7 \<le> i" using that by simp
  then show "bit (push_bit s (take_bit 7 n) OR push_bit (s + 7) (drop_bit 7 n)) i = bit (push_bit s n) i"
    by (cases "i < s + 7") (auto simp: bit_simps)
qed

text \<open>What was encoded comes out, whatever follows; a varint cut short is truncated.\<close>

lemma varint_decodes:
  "0 \<le> v \<Longrightarrow> varint_loop (encodeVarint v @ bs) r s pos = Inr (r OR push_bit s (nat v), pos + length (encodeVarint v))"
proof (induction v arbitrary: r s pos rule: encodeVarint.induct)
  case (1 v)
  show ?case
  proof (cases "v > 0x7F")
    case True
    have "push_bit s (nat (take_bit 7 v)) OR push_bit (s + 7) (nat (drop_bit 7 v)) = push_bit s (nat v)"
      using or_pieces [of s "nat v"] 1(2) by (simp add: nat_take_bit_eq drop_bit_eq_div nat_div_distrib)
    then show ?thesis
      using 1 True by (simp add: varint_step low_byte unat_low Let_def or.assoc)
  next
    case False
    then show ?thesis using 1(2) by (simp add: varint_last last_byte unsigned_of_int take_bit_int_eq_self)
  qed
qed

lemma varint_cut:
  "0 \<le> v \<Longrightarrow> n < length (encodeVarint v) \<Longrightarrow> varint_loop (take n (encodeVarint v)) r s pos = Inl Varint_truncated"
proof (induction v arbitrary: r s pos n rule: encodeVarint.induct)
  case (1 v)
  show ?case
  proof (cases "v > 0x7F")
    case True
    then show ?thesis using 1 by (cases n) (simp_all add: varint_step low_byte Let_def)
  next
    case False
    then show ?thesis using 1 by (simp add: varint_last)
  qed
qed

subsection \<open>Fields\<close>

lemma js_Number_exact: "n < 2 ^ 53 \<Longrightarrow> js_Number n = n"
proof -
  assume n: "n < 2 ^ 53"
  have "bit_length m \<le> k" if "m < 2 ^ k" for m k
    using that
  proof (induction m arbitrary: k rule: bit_length.induct)
    case (1 m)
    show ?case
    proof (cases "m = 0")
      case False
      then obtain k' where k: "k = Suc k'" using 1(2) by (cases k) auto
      then show ?thesis using 1(1) [OF False, of k'] 1(2) False by (subst bit_length.simps) simp
    qed (simp add: bit_length.simps)
  qed
  from this [OF n] show ?thesis by (simp add: js_Number_def)
qed

lemma small_or: "0 \<le> w \<Longrightarrow> w < 8 \<Longrightarrow> push_bit 3 a OR w = 8 * a + (w :: int)"
proof -
  assume "0 \<le> w" "w < 8"
  then have t: "take_bit 3 w = w" by (simp add: take_bit_int_eq_self_iff)
  have "push_bit 3 a + take_bit 3 w = push_bit 3 a OR take_bit 3 w"
    by (rule disjunctive_add_eq_or) (auto intro!: bit_eqI simp: bit_simps)
  then show ?thesis using t by (simp add: push_bit_eq_mult)
qed

definition tag_ok :: "int \<Rightarrow> bool" where
  "tag_ok n \<longleftrightarrow> 0 \<le> n \<and> n < 2 ^ 28"

lemma tag_value:
  assumes "0 \<le> w" and "w < 8"
  shows "sint (push_bit 3 (word_of_int n :: 32 word) OR word_of_int w) = signed_take_bit 31 (8 * n + w)"
proof -
  have "push_bit 3 (word_of_int n :: 32 word) OR word_of_int w = word_of_int (push_bit 3 n OR w)"
    by (simp add: push_bit_of_int of_int_or_eq)
  then show ?thesis unfolding small_or [OF assms] by (simp only: signed_of_int) simp
qed

lemma encodeTag_ok: "tag_ok n \<Longrightarrow> 0 \<le> w \<Longrightarrow> w < 8 \<Longrightarrow> encodeTag n w = encodeVarint (8 * n + w)"
  unfolding encodeTag_def by (subst tag_value) (simp_all add: tag_ok_def signed_take_bit_int_eq_self)

lemma varint_at: "0 \<le> v \<Longrightarrow> decodeVarint (pre @ encodeVarint v @ post) (length pre) = Inr (nat v, length pre + length (encodeVarint v))"
  by (simp add: decodeVarint_def varint_decodes)

lemma tag_parts:
  assumes "tag_ok n" and "0 \<le> w" and "w < 8"
  shows "js_Number (drop_bit 3 (nat (8 * n + w))) = nat n" and "nat (8 * n + w) AND 7 = nat w"
proof -
  obtain m where n: "n = int m" using assms(1) by (metis tag_ok_def nonneg_int_cases)
  obtain u where w: "w = int u" using assms(2) by (metis nonneg_int_cases)
  have e: "nat (8 * n + w) = 8 * m + u" unfolding n w by simp
  have u: "u < 8" using assms(3) w by simp
  have "drop_bit 3 (8 * m + u) = m" using u by (simp add: drop_bit_eq_div)
  then show "js_Number (drop_bit 3 (nat (8 * n + w))) = nat n"
    unfolding e using assms(1) n by (simp add: js_Number_exact tag_ok_def)
  have "(8 * m + u) AND 7 = take_bit 3 (8 * m + u)" by (simp add: take_bit_eq_mask mask_eq_exp_minus_1)
  then show "nat (8 * n + w) AND 7 = nat w" unfolding e using u w by (simp add: take_bit_eq_mod)
qed

text \<open>A tag is read at its place, whatever surrounds it.\<close>

lemma encodeVarint_ne: "encodeVarint v \<noteq> []"
  by (subst encodeVarint.simps) simp

lemma length_varint: "0 < length (encodeVarint v)"
  using encodeVarint_ne by simp

lemma varint_after:
  "0 \<le> v \<Longrightarrow> decodeVarint (pre @ a @ encodeVarint v @ post) (length pre + length a)
     = Inr (nat v, length pre + length a + length (encodeVarint v))"
  using varint_at [of v "pre @ a" post] by simp

lemma decode_uint:
  assumes "tag_ok n" and "0 \<le> v"
  shows "decode_field (pre @ encodeUInt32Field n v @ post) (length pre)
    = Inr ([Varint_field (nat n) (nat v)], length pre + length (encodeUInt32Field n v))"
proof -
  have e: "encodeUInt32Field n v = encodeVarint (8 * n + 0) @ encodeVarint v"
    unfolding encodeUInt32Field_def WT_VARINT_def by (subst encodeTag_ok [OF assms(1)]) simp_all
  have nn: "0 \<le> 8 * n + 0" using assms(1) by (simp add: tag_ok_def)
  show ?thesis
    unfolding e decode_field_def append_assoc varint_at [OF nn] bindE.simps prod.case tag_parts [OF assms(1), of 0, simplified] Let_def
      varint_after [OF assms(2)]
    using tag_parts [OF assms(1), of 0] by (simp add: varint_after [OF assms(2)])
qed

lemma decode_bytes:
  assumes "tag_ok n"
  shows "decode_field (pre @ encodeBytes n bs @ post) (length pre)
    = Inr ([Bytes_field (nat n) bs], length pre + length (encodeBytes n bs))"
proof -
  have e: "encodeBytes n bs = encodeVarint (8 * n + 2) @ encodeVarint (int (length bs)) @ bs"
    unfolding encodeBytes_def WT_LEN_def by (subst encodeTag_ok [OF assms(1)]) simp_all
  have nn: "0 \<le> 8 * n + 2" using assms(1) by (simp add: tag_ok_def)
  note len = varint_after [of "int (length bs)" pre "encodeVarint (8 * n + 2)" "bs @ post"]
  show ?thesis
    unfolding e decode_field_def append_assoc varint_at [OF nn] bindE.simps prod.case
    using tag_parts [OF assms(1), of 2] by (simp add: len checkedLen_def subarray_def Let_def)
qed

lemma decode_double:
  assumes "tag_ok n"
  shows "decode_field (pre @ encodeTag n 1 @ post) (length pre) = Inr ([], length pre + length (encodeTag n 1) + 8)"
proof -
  have e: "encodeTag n 1 = encodeVarint (8 * n + 1)" by (rule encodeTag_ok [OF assms]) simp_all
  have nn: "0 \<le> 8 * n + 1" using assms(1) by (simp add: tag_ok_def)
  show ?thesis
    unfolding e decode_field_def append_assoc varint_at [OF nn] bindE.simps prod.case
    using tag_parts [OF assms(1), of 1] by (simp add: Let_def)
qed

lemma length_double: "length (double_bytes v) = 8"
  by (simp add: double_bytes_def)

lemma message_is_bytes: "encodeMessage n ps = encodeBytes n (concat ps)"
  by (simp add: encodeMessage_def encodeBytes_def Let_def)

text \<open>What the encoders write, and what of it the decoder returns: a double is skipped.\<close>

datatype wire_item =
    W_uint int int
  | W_bool int bool
  | W_bytes int bytes
  | W_string int utext
  | W_message int "bytes list"
  | W_double int "64 word"

fun item_bytes :: "wire_item \<Rightarrow> bytes" where
  "item_bytes (W_uint n v) = encodeUInt32Field n v"
| "item_bytes (W_bool n b) = encodeBoolField n b"
| "item_bytes (W_bytes n bs) = encodeBytes n bs"
| "item_bytes (W_string n s) = encodeString n s"
| "item_bytes (W_message n ps) = encodeMessage n ps"
| "item_bytes (W_double n v) = encodeDoubleField n v"

fun item_fields :: "wire_item \<Rightarrow> field list" where
  "item_fields (W_uint n v) = [Varint_field (nat n) (nat v)]"
| "item_fields (W_bool n b) = [Varint_field (nat n) (if b then 1 else 0)]"
| "item_fields (W_bytes n bs) = [Bytes_field (nat n) bs]"
| "item_fields (W_string n s) = [Bytes_field (nat n) (utf8_bytes s)]"
| "item_fields (W_message n ps) = [Bytes_field (nat n) (concat ps)]"
| "item_fields (W_double n v) = []"

fun item_ok :: "wire_item \<Rightarrow> bool" where
  "item_ok (W_uint n v) = (tag_ok n \<and> 0 \<le> v)"
| "item_ok (W_bool n b) = tag_ok n"
| "item_ok (W_bytes n bs) = tag_ok n"
| "item_ok (W_string n s) = tag_ok n"
| "item_ok (W_message n ps) = tag_ok n"
| "item_ok (W_double n v) = tag_ok n"

lemma bool_is_uint: "encodeBoolField n b = encodeUInt32Field n (if b then 1 else 0)"
  by (simp add: encodeBoolField_def encodeUInt32Field_def)

lemma decode_item:
  "item_ok i \<Longrightarrow> decode_field (pre @ item_bytes i @ post) (length pre) = Inr (item_fields i, length pre + length (item_bytes i))"
  by (cases i) (simp_all add: decode_uint decode_bytes bool_is_uint encodeString_def message_is_bytes encodeDoubleField_def
      decode_double length_double)

lemma item_ne: "item_bytes i \<noteq> []"
  by (cases i) (simp_all add: encodeUInt32Field_def bool_is_uint encodeBytes_def encodeString_def encodeMessage_def
      encodeDoubleField_def encodeVarint_ne Let_def length_double flip: length_greater_0_conv)

lemma decode_items:
  assumes "list_all item_ok is"
  shows "decode_fields_from (pre @ concat (map item_bytes is) @ post) (length pre)
    = bindE (decode_fields_from (pre @ concat (map item_bytes is) @ post) (length pre + length (concat (map item_bytes is))))
        (\<lambda>rest. Inr (concat (map item_fields is) @ rest))"
  using assms
proof (induction "is" arbitrary: pre)
  case Nil
  show ?case by (cases "decode_fields_from (pre @ post) (length pre)") simp_all
next
  case (Cons i "is")
  let ?buf = "pre @ concat (map item_bytes (i # is)) @ post"
  have d: "decode_field ?buf (length pre) = Inr (item_fields i, length pre + length (item_bytes i))"
    using decode_item [of i pre "concat (map item_bytes is) @ post"] Cons.prems by simp
  have lt: "length pre < length ?buf" using item_ne [of i] by simp
  have rest: "decode_fields_from ?buf (length pre + length (item_bytes i))
    = bindE (decode_fields_from ?buf (length pre + length (concat (map item_bytes (i # is)))))
        (\<lambda>rest. Inr (concat (map item_fields is) @ rest))"
    using Cons.IH [of "pre @ item_bytes i"] Cons.prems by (simp add: add.assoc)
  show ?case
    apply (subst decode_fields_from.simps)
    apply (simp only: lt if_True d sum.case prod.case rest)
    by (cases "decode_fields_from ?buf (length pre + length (concat (map item_bytes (i # is))))") simp_all
qed

lemma decode_end: "length buf \<le> pos \<Longrightarrow> decode_fields_from buf pos = Inr []"
  by (subst decode_fields_from.simps) simp

lemma decodeFields_items: "list_all item_ok is \<Longrightarrow> decodeFields (concat (map item_bytes is)) = Inr (concat (map item_fields is))"
  using decode_items [of "is" "[]" "[]"] by (simp add: decodeFields_def decode_end)

subsection \<open>Truncated buffers\<close>

lemma varint_at_cut:
  "0 \<le> v \<Longrightarrow> n < length (encodeVarint v) \<Longrightarrow> decodeVarint (pre @ take n (encodeVarint v)) (length pre) = Inl Varint_truncated"
  by (simp add: decodeVarint_def varint_cut)

lemma varint_after_cut:
  "0 \<le> v \<Longrightarrow> n < length (encodeVarint v)
    \<Longrightarrow> decodeVarint (pre @ a @ take n (encodeVarint v)) (length pre + length a) = Inl Varint_truncated"
  using varint_at_cut [of v n "pre @ a"] by simp

lemma cut_uint:
  assumes "tag_ok k" and "0 \<le> v" and "n < length (encodeUInt32Field k v)"
  shows "decode_field (pre @ take n (encodeUInt32Field k v)) (length pre) = Inl Varint_truncated"
proof -
  let ?t = "encodeVarint (8 * k + 0)"
  have e: "encodeUInt32Field k v = ?t @ encodeVarint v"
    unfolding encodeUInt32Field_def WT_VARINT_def by (subst encodeTag_ok [OF assms(1)]) simp_all
  have nn: "0 \<le> 8 * k + 0" using assms(1) by (simp add: tag_ok_def)
  show ?thesis
  proof (cases "n < length ?t")
    case True
    then show ?thesis using varint_at_cut [OF nn True, of pre] by (simp add: e decode_field_def)
  next
    case False
    then obtain m where n: "n = length ?t + m" by (metis le_Suc_ex not_less)
    have m: "m < length (encodeVarint v)" using assms(3) by (simp add: e n)
    have tk: "take n (?t @ encodeVarint v) = ?t @ take m (encodeVarint v)" by (simp add: n)
    show ?thesis
      unfolding e decode_field_def tk varint_at [OF nn] bindE.simps prod.case
      using tag_parts [OF assms(1), of 0] by (simp add: varint_after_cut [OF assms(2) m] Let_def)
  qed
qed

lemma cut_bytes:
  assumes "tag_ok k" and "n < length (encodeBytes k bs)"
  shows "\<exists>e. decode_field (pre @ take n (encodeBytes k bs)) (length pre) = Inl e
    \<and> (e = Varint_truncated \<or> (\<exists>r. e = Overruns_buffer (length bs) r \<and> r < length bs))"
proof -
  let ?t = "encodeVarint (8 * k + 2)" and ?l = "encodeVarint (int (length bs))"
  have e: "encodeBytes k bs = ?t @ ?l @ bs"
    unfolding encodeBytes_def WT_LEN_def by (subst encodeTag_ok [OF assms(1)]) simp_all
  have nn: "0 \<le> 8 * k + 2" using assms(1) by (simp add: tag_ok_def)
  note tp = tag_parts [OF assms(1), of 2]
  show ?thesis
  proof (cases "n < length ?t")
    case True
    then show ?thesis using varint_at_cut [OF nn True, of pre] by (simp add: e decode_field_def)
  next
    case False
    then obtain m where n: "n = length ?t + m" by (metis le_Suc_ex not_less)
    have tk: "take n (?t @ ?l @ bs) = ?t @ take m (?l @ bs)" by (simp add: n)
    show ?thesis
    proof (cases "m < length ?l")
      case True
      show ?thesis
        unfolding e decode_field_def tk varint_at [OF nn] bindE.simps prod.case
        using tp True varint_after_cut [OF _ True, of pre ?t] by (simp add: Let_def)
    next
      case False
      then obtain j where m: "m = length ?l + j" by (metis le_Suc_ex not_less)
      have j: "j < length bs" using assms(2) by (simp add: e n m)
      note len = varint_after [of "int (length bs)" pre ?t "take j bs"]
      show ?thesis
        unfolding e decode_field_def tk varint_at [OF nn] bindE.simps prod.case
        using tp j len by (simp add: Let_def m checkedLen_def)
    qed
  qed
qed

fun is_double :: "wire_item \<Rightarrow> bool" where
  "is_double (W_double n v) = True"
| "is_double _ = False"

lemma cut_item:
  assumes "item_ok i" and "\<not> is_double i" and "n < length (item_bytes i)"
  shows "\<exists>e. decode_field (pre @ take n (item_bytes i)) (length pre) = Inl e \<and> (e = Varint_truncated \<or> (\<exists>l r. e = Overruns_buffer l r \<and> r < l))"
proof (cases i)
  case (W_uint k v)
  then show ?thesis using assms cut_uint [of k v n pre] by auto
next
  case (W_bool k b)
  then show ?thesis using assms cut_uint [of k "if b then 1 else 0" n pre] by (auto simp: bool_is_uint)
next
  case (W_bytes k bs)
  then show ?thesis using assms cut_bytes [of k n bs pre] by auto
next
  case (W_string k s)
  then show ?thesis using assms cut_bytes [of k n "utf8_bytes s" pre] by (auto simp: encodeString_def)
next
  case (W_message k ps)
  then show ?thesis using assms cut_bytes [of k n "concat ps" pre] by (auto simp: message_is_bytes)
qed (use assms in simp)

text \<open>
  C16: Whatever the encoders write for field numbers below \<open>2\<^sup>2\<^sup>8\<close>, one after the other, is decoded to
  the same fields in the same order with the same numbers, values and contents; varints of any size
  come back exactly, a boolean as 0 or 1, a nested message as its bytes, and a double is skipped.
\<close>

theorem wire_roundtrip:
  assumes "list_all item_ok items"
  shows "decodeFields (concat (map item_bytes items)) = Inr (concat (map item_fields items))"
  by (rule decodeFields_items [OF assms])

theorem wire_roundtrip_witness:
  "decodeFields (encodeUInt32Field 1 300 @ encodeString 15 (text_of ''id'') @ encodeDoubleField 2 0 @ encodeBoolField 4 True)
    = Inr [Varint_field 1 300, Bytes_field 15 [105, 100], Varint_field 4 1]"
proof -
  have s: "utf8_bytes (text_of ''id'') = [105, 100]" by (simp add: utf8_bytes_def text_of_def utf8_char_def)
  show ?thesis
    using wire_roundtrip [of "[W_uint 1 300, W_string 15 (text_of ''id''), W_double 2 0, W_bool 4 True]"]
    by (simp add: tag_ok_def s)
qed

text \<open>
  A buffer that ends inside a field other than a double is rejected, however many complete fields
  precede it: the decoder throws for a truncated varint or for a length beyond the end, and never
  returns a partial field.
\<close>

theorem cut_field_rejected:
  assumes "list_all item_ok items" and "item_ok i" and "\<not> is_double i" and "0 < n" and "n < length (item_bytes i)"
  shows "\<exists>e. decodeFields (concat (map item_bytes items) @ take n (item_bytes i)) = Inl e
    \<and> (e = Varint_truncated \<or> (\<exists>l r. e = Overruns_buffer l r \<and> r < l))"
proof -
  let ?pre = "concat (map item_bytes items)"
  let ?buf = "?pre @ take n (item_bytes i)"
  obtain e where e: "decode_field ?buf (length ?pre) = Inl e" "e = Varint_truncated \<or> (\<exists>l r. e = Overruns_buffer l r \<and> r < l)"
    using cut_item [OF assms(2,3,5), of ?pre] by blast
  have "length ?pre < length ?buf" using assms(4,5) item_ne [of i] by simp
  then have "decode_fields_from ?buf (length ?pre) = Inl e" using e(1) by (subst decode_fields_from.simps) simp
  then have "decodeFields ?buf = Inl e"
    using decode_items [OF assms(1), of "[]" "take n (item_bytes i)"] by (simp add: decodeFields_def)
  then show ?thesis using e(2) by blast
qed

theorem cut_field_rejected_witness:
  "\<exists>e. decodeFields (encodeUInt32Field 1 7 @ take 3 (encodeBytes 2 [1, 2, 3])) = Inl e
    \<and> (e = Varint_truncated \<or> (\<exists>l r. e = Overruns_buffer l r \<and> r < l))"
proof -
  have "length (encodeBytes 2 [1, 2, 3]) = 5"
    by (simp add: encodeBytes_def WT_LEN_def encodeTag_ok tag_ok_def varint_last)
  then show ?thesis
    using cut_field_rejected [of "[W_uint 1 7]" "W_bytes 2 [1, 2, 3]" 3] by (simp add: tag_ok_def)
qed

definition field_weight :: "field \<Rightarrow> nat" where
  "field_weight f = (case f of Varint_field n v \<Rightarrow> 2 | Bytes_field n bs \<Rightarrow> 2 + length bs)"

lemma decode_field_weight:
  "decode_field buf pos = Inr (fs, p) \<Longrightarrow> (\<Sum>f\<leftarrow>fs. field_weight f) \<le> p - pos \<and> (fs = [] \<or> p \<le> length buf)"
  unfolding decode_field_def Let_def
  by (auto simp: bindE_Inr_iff checkedLen_def subarray_def field_weight_def split: if_splits dest!: decodeVarint_pos)

lemma decode_fields_weight:
  "decode_fields_from buf pos = Inr fs \<Longrightarrow> (\<Sum>f\<leftarrow>fs. field_weight f) \<le> length buf - pos"
proof (induction buf pos arbitrary: fs rule: decode_fields_from.induct)
  case (1 buf pos)
  show ?case
  proof (cases "pos < length buf")
    case True
    then obtain gs p rest where d: "decode_field buf pos = Inr (gs, p)" "decode_fields_from buf p = Inr rest" "fs = gs @ rest"
      using 1(2) by (subst (asm) decode_fields_from.simps) (auto simp: bindE_Inr_iff split: sum.splits)
    have "(\<Sum>f\<leftarrow>rest. field_weight f) \<le> length buf - p" using 1(1) [OF True d(1) refl d(2)] .
    then show ?thesis using decode_field_weight [OF d(1)] decode_field_pos [OF d(1)] True d(3) by auto
  next
    case False
    then show ?thesis using 1(2) by (simp add: decode_end)
  qed
qed

text \<open>
  Nothing a decoder returns lies outside its buffer: the contents of all the fields together, with at
  least one byte of tag each and one more of a length or a value, are not longer than the buffer.
\<close>

theorem decoded_within_buffer:
  assumes "decodeFields buf = Inr fields"
  shows "(\<Sum>f\<leftarrow>fields. field_weight f) \<le> length buf"
  using decode_fields_weight [of buf 0 fields] assms by (simp add: decodeFields_def)

theorem decoded_within_buffer_witness:
  "(\<Sum>f\<leftarrow>[Varint_field 1 7, Bytes_field 2 [5]]. field_weight f) \<le> length ([8, 7, 18, 1, 5] :: bytes)"
proof -
  have "decodeFields [8, 7, 18, 1, 5] = Inr [Varint_field 1 7, Bytes_field 2 [5]]" by code_simp
  then show ?thesis by (rule decoded_within_buffer)
qed

subsection \<open>Texts\<close>

lemma unat_byte: "n < 256 \<Longrightarrow> unat (of_nat n :: byte) = n"
  by (simp add: unsigned_of_nat take_bit_nat_eq_self)

lemma utf8_lead:
  "utf8_start x = ([], cp, need, lo, hi) \<Longrightarrow> unat b = x \<Longrightarrow> utf8_run 0 0 0x80 0xBF (b # bs) = utf8_run cp need lo hi bs"
  by simp

lemma utf8_more:
  "unat b = x \<Longrightarrow> 1 < need \<Longrightarrow> lo \<le> x \<Longrightarrow> x \<le> hi \<Longrightarrow> utf8_run cp need lo hi (b # bs) = utf8_run (cp * 64 + x mod 64) (need - 1) 0x80 0xBF bs"
  "unat b = x \<Longrightarrow> need = 1 \<Longrightarrow> lo \<le> x \<Longrightarrow> x \<le> hi \<Longrightarrow> utf8_run cp need lo hi (b # bs) = (cp * 64 + x mod 64) # utf8_run 0 0 0x80 0xBF bs"
  by simp_all

lemma six_bits: "(0x80 + x mod 64) mod 64 = x mod (64 :: nat)" "0x80 + x mod 64 < (256 :: nat)"
  "0x80 \<le> 0x80 + x mod (64 :: nat)" "0x80 + x mod 64 \<le> (0xBF :: nat)"
proof -
  have "x mod 64 < 64" by simp
  then show "0x80 + x mod 64 < (256 :: nat)" "0x80 + x mod 64 \<le> (0xBF :: nat)" by linarith+
  have "(0x80 + x mod 64) mod 64 = (x mod 64 + 2 * 64) mod 64" by (simp add: add.commute)
  then show "(0x80 + x mod 64) mod 64 = x mod (64 :: nat)" by (simp only: mod_mult_self1 mod_mod_trivial)
qed simp

lemma digits_64: "c div 64 * 64 + c mod 64 = (c :: nat)" "c div 4096 = c div 64 div (64 :: nat)" "c div 262144 = c div 64 div 64 div (64 :: nat)"
  by (simp_all add: div_mult2_eq [symmetric])

lemma utf8_char_run:
  assumes "scalar c"
  shows "utf8_run 0 0 0x80 0xBF (utf8_char c @ bs) = c # utf8_run 0 0 0x80 0xBF bs"
proof -
  consider "c < 0x80" | "0x80 \<le> c" "c < 0x800" | "0x800 \<le> c" "c < 0x10000" | "0x10000 \<le> c" "c < 0x110000"
    using assms by (fastforce simp: scalar_def)
  then show ?thesis
  proof cases
    case 1
    then show ?thesis by (simp add: utf8_char_def unat_byte utf8_start_def)
  next
    case 2
    define q where "q = c div 64"
    have q: "2 \<le> q" "q < 32" using 2 by (auto simp: q_def div_le_mono div_less_iff_less_mult less_eq_div_iff_mult_less_eq)
    have u: "unat (of_nat (0xC0 + q) :: byte) = 0xC0 + q" by (rule unat_byte) (use q in simp)
    have s: "utf8_start (0xC0 + q) = ([], q, 1, 0x80, 0xBF)"
    proof -
      have "(0xC0 + q) mod 32 = (q + 6 * 32) mod 32" by (simp add: add.commute)
      then have "(0xC0 + q) mod 32 = q" using q by (simp only: mod_mult_self1) simp
      then show ?thesis using q by (simp add: utf8_start_def)
    qed
    have c: "utf8_char c = [of_nat (0xC0 + q), of_nat (0x80 + c mod 64)]" using 2 by (simp add: utf8_char_def q_def)
    show ?thesis
      unfolding c append_Cons append_Nil utf8_lead [OF s u]
      by (subst utf8_more(2) [OF unat_byte [OF six_bits(2)] refl six_bits(3,4)]) (simp add: six_bits(1) q_def digits_64)
  next
    case 3
    define q where "q = c div 4096"
    define m where "m = c div 64"
    have q: "q < 16" using 3 by (auto simp: q_def div_less_iff_less_mult)
    have u: "unat (of_nat (0xE0 + q) :: byte) = 0xE0 + q" by (rule unat_byte) (use q in simp)
    define lo hi where "lo = (if q = 0 then 0xA0 else 0x80 :: nat)" and "hi = (if q = 0xD then 0x9F else 0xBF :: nat)"
    have s: "utf8_start (0xE0 + q) = ([], q, 2, lo, hi)"
    proof -
      have "(0xE0 + q) mod 16 = (q + 14 * 16) mod 16" by (simp add: add.commute)
      then have "(0xE0 + q) mod 16 = q" using q by (simp only: mod_mult_self1) simp
      then show ?thesis using q by (simp add: utf8_start_def lo_def hi_def)
    qed
    have mq: "m = q * 64 + m mod 64" by (simp add: m_def q_def digits_64(2))
    have mr: "m mod 64 < 64" by simp
    have mb: "32 \<le> m" "m < 1024" using 3 by (auto simp: m_def div_less_iff_less_mult less_eq_div_iff_mult_less_eq)
    have sur: "\<not> (0x360 \<le> m \<and> m < 0x380)"
    proof
      assume "0x360 \<le> m \<and> m < 0x380"
      then have "0xD800 \<le> c" "c \<le> 0xDFFF" by (auto simp: m_def less_eq_div_iff_mult_less_eq div_less_iff_less_mult)
      then show False using assms by (simp add: scalar_def)
    qed
    have lo: "lo \<le> 0x80 + m mod 64" using mq mb mr by (auto simp: lo_def)
    have hi: "0x80 + m mod 64 \<le> hi" using mq mr sur by (auto simp: hi_def)
    have c: "utf8_char c = [of_nat (0xE0 + q), of_nat (0x80 + m mod 64), of_nat (0x80 + c mod 64)]"
      using 3 by (simp add: utf8_char_def q_def m_def)
    have fin: "(q * 64 + m mod 64) * 64 + c mod 64 = c" unfolding mq [symmetric] by (simp add: m_def)
    show ?thesis
      unfolding c append_Cons append_Nil utf8_lead [OF s u]
      by (subst utf8_more(1) [OF unat_byte [OF six_bits(2)] _ lo hi], simp,
          subst utf8_more(2) [OF unat_byte [OF six_bits(2)] _ six_bits(3,4)], simp)
        (simp only: six_bits(1) fin)
  next
    case 4
    define q where "q = c div 262144"
    define l where "l = c div 4096"
    define m where "m = c div 64"
    have q: "q < 5" using 4 by (auto simp: q_def div_less_iff_less_mult)
    have u: "unat (of_nat (0xF0 + q) :: byte) = 0xF0 + q" by (rule unat_byte) (use q in simp)
    define lo hi where "lo = (if q = 0 then 0x90 else 0x80 :: nat)" and "hi = (if q = 4 then 0x8F else 0xBF :: nat)"
    have s: "utf8_start (0xF0 + q) = ([], q, 3, lo, hi)"
    proof -
      have "(0xF0 + q) mod 8 = (q + 30 * 8) mod 8" by (simp add: add.commute)
      then have "(0xF0 + q) mod 8 = q" using q by (simp only: mod_mult_self1) simp
      then show ?thesis using q by (simp add: utf8_start_def lo_def hi_def)
    qed
    have lq: "l = q * 64 + l mod 64" by (simp add: l_def q_def digits_64(2,3))
    have ml: "m = l * 64 + m mod 64" by (simp add: m_def l_def digits_64(2))
    have lr: "l mod 64 < 64" by simp
    have lb: "16 \<le> l" "l < 272" using 4 by (auto simp: l_def div_less_iff_less_mult less_eq_div_iff_mult_less_eq)
    have lo: "lo \<le> 0x80 + l mod 64" using lq lb lr by (auto simp: lo_def)
    have hi: "0x80 + l mod 64 \<le> hi" using lq lb lr by (auto simp: hi_def)
    have c: "utf8_char c = [of_nat (0xF0 + q), of_nat (0x80 + l mod 64), of_nat (0x80 + m mod 64), of_nat (0x80 + c mod 64)]"
      using 4 by (simp add: utf8_char_def q_def l_def m_def)
    have fin: "((q * 64 + l mod 64) * 64 + m mod 64) * 64 + c mod 64 = c"
      unfolding lq [symmetric] ml [symmetric] by (simp add: m_def)
    show ?thesis
      unfolding c append_Cons append_Nil utf8_lead [OF s u]
      by (subst utf8_more(1) [OF unat_byte [OF six_bits(2)] _ lo hi], simp,
          subst utf8_more(1) [OF unat_byte [OF six_bits(2)] _ six_bits(3,4)], simp,
          subst utf8_more(2) [OF unat_byte [OF six_bits(2)] _ six_bits(3,4)], simp)
        (simp only: six_bits(1) fin)
  qed
qed

lemma utf8_roundtrip: "list_all scalar s \<Longrightarrow> utf8_text (utf8_bytes s) = s"
  by (induction s) (simp_all add: utf8_text_def utf8_bytes_def utf8_char_run)

lemma text_of_scalar: "list_all (\<lambda>c. of_char c < (0x80 :: nat)) s \<Longrightarrow> list_all scalar (text_of s)"
  by (auto simp: text_of_def list_all_iff scalar_def)

lemma decodeString_of:
  "tag_ok n \<Longrightarrow> list_all scalar s \<Longrightarrow> decodeStringField (encodeString n s) (nat n) = Inr s"
  using decodeFields_items [of "[W_string n s]"]
  by (simp add: decodeStringField_def findField_def utf8_roundtrip)

end
