(* ===== verification/ValueCodec.thy ===== *)
theory ValueCodec
  imports WireFormat
begin

text \<open>
  The codec of \<open>google.protobuf.Value\<close> in \<^verbatim>\<open>src/open-sse/utils/cursorAgentProtobuf.ts\<close>, by which JSON
  schemas and the arguments of tools travel. An object is the list of its own properties in their
  order; the special order of keys that are array indices is not modelled. The decoders of a value
  return only the value: no caller looks at the position after it.
\<close>

datatype json =
    J_null
  | J_number "64 word"
  | J_string utext
  | J_bool bool
  | J_list "json list"
  | J_object "(utext \<times> json) list"

named_theorems wire_consts \<open>field numbers\<close>

definition VAL_NULL :: nat where [wire_consts]: "VAL_NULL = 1"
definition VAL_NUMBER :: nat where [wire_consts]: "VAL_NUMBER = 2"
definition VAL_STRING :: nat where [wire_consts]: "VAL_STRING = 3"
definition VAL_BOOL :: nat where [wire_consts]: "VAL_BOOL = 4"
definition VAL_STRUCT :: nat where [wire_consts]: "VAL_STRUCT = 5"
definition VAL_LIST :: nat where [wire_consts]: "VAL_LIST = 6"
definition STRUCT_FIELDS :: nat where [wire_consts]: "STRUCT_FIELDS = 1"
definition LIST_VALUES :: nat where [wire_consts]: "LIST_VALUES = 1"
definition MAP_KEY :: nat where [wire_consts]: "MAP_KEY = 1"
definition MAP_VALUE :: nat where [wire_consts]: "MAP_VALUE = 2"

subsection \<open>Encoding\<close>

fun encodeProtobufValue :: "json \<Rightarrow> bytes" where
  "encodeProtobufValue J_null = encodeTag (int VAL_NULL) WT_VARINT @ encodeVarint 0"
| "encodeProtobufValue (J_number d) = encodeDoubleField (int VAL_NUMBER) d"
| "encodeProtobufValue (J_string s) = encodeString (int VAL_STRING) s"
| "encodeProtobufValue (J_bool b) = encodeTag (int VAL_BOOL) WT_VARINT @ encodeVarint (if b then 1 else 0)"
| "encodeProtobufValue (J_list vs) =
     encodeMessage (int VAL_LIST) (map (\<lambda>v. encodeMessage (int LIST_VALUES) [encodeProtobufValue v]) vs)"
| "encodeProtobufValue (J_object kvs) =
     encodeMessage (int VAL_STRUCT)
       (map (\<lambda>(k, v). encodeMessage (int STRUCT_FIELDS)
          [encodeString (int MAP_KEY) k @ encodeMessage (int MAP_VALUE) [encodeProtobufValue v]]) kvs)"

definition jsonSchemaToProtobufValue :: "json \<Rightarrow> bytes" where
  "jsonSchemaToProtobufValue j = encodeProtobufValue j"

subsection \<open>Decoding\<close>

definition findLengthDelimitedField :: "field list \<Rightarrow> nat \<Rightarrow> bytes option" where
  "findLengthDelimitedField fields n = (case findField fields n of Some (Bytes_field _ bs) \<Rightarrow> Some bs | _ \<Rightarrow> None)"

definition readLengthDelimitedPayload :: "bytes \<Rightarrow> nat \<Rightarrow> nat \<Rightarrow> wire_error + bytes option" where
  "readLengthDelimitedPayload buf pos wireType =
     (if wireType \<noteq> 2 then Inr None
      else bindE (decodeVarint buf pos) (\<lambda>(len, afterLength).
        bindE (checkedLen len afterLength buf) (\<lambda>n. Inr (Some (subarray buf afterLength (afterLength + n))))))"

definition decodeNullValue :: "bytes \<Rightarrow> nat \<Rightarrow> nat \<Rightarrow> wire_error + json" where
  "decodeNullValue buf pos wireType = (if wireType = 0 then bindE (decodeVarint buf pos) (\<lambda>_. Inr J_null) else Inr J_null)"

definition decodeNumberValue :: "bytes \<Rightarrow> nat \<Rightarrow> nat \<Rightarrow> wire_error + json" where
  "decodeNumberValue buf pos wireType =
     Inr (J_number (if wireType = 1 \<and> pos + 8 \<le> length buf then double_of (subarray buf pos (pos + 8)) else 0))"

definition decodeStringValue :: "bytes \<Rightarrow> nat \<Rightarrow> nat \<Rightarrow> wire_error + json" where
  "decodeStringValue buf pos wireType =
     bindE (readLengthDelimitedPayload buf pos wireType) (\<lambda>d. Inr (J_string (case d of None \<Rightarrow> [] | Some p \<Rightarrow> utf8_text p)))"

definition decodeBoolValue :: "bytes \<Rightarrow> nat \<Rightarrow> nat \<Rightarrow> wire_error + json" where
  "decodeBoolValue buf pos wireType =
     (if wireType \<noteq> 0 then Inr (J_bool False) else bindE (decodeVarint buf pos) (\<lambda>(v, _). Inr (J_bool (v \<noteq> 0))))"

text \<open>
  Assigning a property: the key \<open>__proto__\<close> reaches the setter of the prototype, so that no own
  property comes of it. The decoders below take the decoder of nested values as an argument.
\<close>

definition set_property :: "utext \<Rightarrow> json \<Rightarrow> (utext \<times> json) list \<Rightarrow> (utext \<times> json) list" where
  "set_property k v r = (if k = text_of ''__proto__'' then r else map_set k v r)"

definition decodeProtobufStructEntry :: "(bytes \<Rightarrow> wire_error + json) \<Rightarrow> bytes \<Rightarrow> wire_error + (utext \<times> json) option" where
  "decodeProtobufStructEntry dec payload =
     bindE (decodeFields payload) (\<lambda>fields.
       let key = (case findLengthDelimitedField fields MAP_KEY of None \<Rightarrow> [] | Some k \<Rightarrow> utf8_text k) in
       case findLengthDelimitedField fields MAP_VALUE of
         None \<Rightarrow> Inr None
       | Some v \<Rightarrow> if key = [] then Inr None else bindE (dec v) (\<lambda>j. Inr (Some (key, j))))"

fun struct_fields :: "nat \<Rightarrow> (bytes \<Rightarrow> wire_error + json) \<Rightarrow> field list \<Rightarrow> (utext \<times> json) list \<Rightarrow> wire_error + (utext \<times> json) list" where
  "struct_fields num dec [] r = Inr r"
| "struct_fields num dec (Varint_field n v # fs) r = struct_fields num dec fs r"
| "struct_fields num dec (Bytes_field n bs # fs) r =
     (if n \<noteq> num then struct_fields num dec fs r
      else bindE (decodeProtobufStructEntry dec bs) (\<lambda>e.
        struct_fields num dec fs (case e of None \<Rightarrow> r | Some (k, v) \<Rightarrow> set_property k v r)))"

definition decodeProtobufStruct :: "(bytes \<Rightarrow> wire_error + json) \<Rightarrow> bytes \<Rightarrow> wire_error + (utext \<times> json) list" where
  "decodeProtobufStruct dec buf = bindE (decodeFields buf) (\<lambda>fields. struct_fields STRUCT_FIELDS dec fields [])"

fun list_values :: "(bytes \<Rightarrow> wire_error + json) \<Rightarrow> field list \<Rightarrow> wire_error + json list" where
  "list_values dec [] = Inr []"
| "list_values dec (Varint_field n v # fs) = list_values dec fs"
| "list_values dec (Bytes_field n bs # fs) =
     (if n \<noteq> LIST_VALUES then list_values dec fs
      else bindE (dec bs) (\<lambda>j. bindE (list_values dec fs) (\<lambda>js. Inr (j # js))))"

definition decodeProtobufList :: "(bytes \<Rightarrow> wire_error + json) \<Rightarrow> bytes \<Rightarrow> wire_error + json list" where
  "decodeProtobufList dec buf = bindE (decodeFields buf) (list_values dec)"

definition decodeStructValue :: "(bytes \<Rightarrow> wire_error + json) \<Rightarrow> bytes \<Rightarrow> nat \<Rightarrow> nat \<Rightarrow> wire_error + json" where
  "decodeStructValue dec buf pos wireType =
     bindE (readLengthDelimitedPayload buf pos wireType) (\<lambda>d.
       case d of None \<Rightarrow> Inr (J_object []) | Some p \<Rightarrow> bindE (decodeProtobufStruct dec p) (\<lambda>r. Inr (J_object r)))"

definition decodeListValue :: "(bytes \<Rightarrow> wire_error + json) \<Rightarrow> bytes \<Rightarrow> nat \<Rightarrow> nat \<Rightarrow> wire_error + json" where
  "decodeListValue dec buf pos wireType =
     bindE (readLengthDelimitedPayload buf pos wireType) (\<lambda>d.
       case d of None \<Rightarrow> Inr (J_list []) | Some p \<Rightarrow> bindE (decodeProtobufList dec p) (\<lambda>r. Inr (J_list r)))"

definition value_decoder :: "(bytes \<Rightarrow> wire_error + json) \<Rightarrow> nat \<Rightarrow> (bytes \<Rightarrow> nat \<Rightarrow> nat \<Rightarrow> wire_error + json) option" where
  "value_decoder dec n =
     (if n = VAL_NULL then Some decodeNullValue
      else if n = VAL_NUMBER then Some decodeNumberValue
      else if n = VAL_STRING then Some decodeStringValue
      else if n = VAL_BOOL then Some decodeBoolValue
      else if n = VAL_STRUCT then Some (decodeStructValue dec)
      else if n = VAL_LIST then Some (decodeListValue dec)
      else None)"

definition skipUnknownProtobufField :: "bytes \<Rightarrow> nat \<Rightarrow> nat \<Rightarrow> wire_error + nat" where
  "skipUnknownProtobufField buf pos wireType =
     (if wireType = 0 then bindE (decodeVarint buf pos) (\<lambda>(_, p). Inr p)
      else if wireType = 2 then
        bindE (decodeVarint buf pos) (\<lambda>(len, afterLength). bindE (checkedLen len afterLength buf) (\<lambda>n. Inr (afterLength + n)))
      else if wireType = 1 then Inr (pos + 8)
      else if wireType = 5 then Inr (pos + 4)
      else Inr pos)"

lemma skip_pos: "skipUnknownProtobufField buf pos w = Inr p \<Longrightarrow> pos \<le> p"
  unfolding skipUnknownProtobufField_def
  by (auto simp: bindE_Inr_iff split: if_splits dest!: decodeVarint_pos)

text \<open>The loop over the fields of a value: the first one with a decoder decides.\<close>

function value_loop :: "(bytes \<Rightarrow> wire_error + json) \<Rightarrow> bytes \<Rightarrow> nat \<Rightarrow> wire_error + json" where
  "value_loop dec buf pos =
     (if pos < length buf
      then case decodeVarint buf pos of
             Inl e \<Rightarrow> Inl e
           | Inr (t, np) \<Rightarrow>
               (case value_decoder dec (js_Number (drop_bit 3 t)) of
                  Some d \<Rightarrow> d buf np (t AND 7)
                | None \<Rightarrow>
                    (case skipUnknownProtobufField buf np (t AND 7) of
                       Inl e \<Rightarrow> Inl e
                     | Inr p \<Rightarrow> value_loop dec buf p))
      else Inr J_null)"
  by pat_completeness auto
termination
proof (relation "measure (\<lambda>(dec, buf, pos). length buf - pos)")
  fix dec :: "bytes \<Rightarrow> wire_error + json" and buf pos x t np p
  assume "pos < length buf" and "decodeVarint buf pos = Inr x" and "(t, np) = x"
    and "skipUnknownProtobufField buf np (t AND 7) = Inr p"
  then show "((dec, buf, p), dec, buf, pos) \<in> measure (\<lambda>(dec, buf, pos). length buf - pos)"
    using decodeVarint_pos [of buf pos t np] skip_pos [of buf np "t AND 7" p] by auto
qed simp

declare value_loop.simps [simp del]

text \<open>A value is decoded with nested values, each of which lies inside it.\<close>

lemma field_shorter: "decodeFields buf = Inr fields \<Longrightarrow> Bytes_field n bs \<in> set fields \<Longrightarrow> length bs < length buf"
proof -
  assume d: "decodeFields buf = Inr fields" and m: "Bytes_field n bs \<in> set fields"
  have "field_weight (Bytes_field n bs) \<le> (\<Sum>f\<leftarrow>fields. field_weight f)" using m by (intro member_le_sum_list) simp_all
  then show ?thesis using decode_fields_weight [of buf 0 fields] d unfolding decodeFields_def by (simp add: field_weight_def [of "Bytes_field n bs"])
qed

lemma find_length_delimited: "findLengthDelimitedField fields n = Some bs \<Longrightarrow> \<exists>m. Bytes_field m bs \<in> set fields"
  by (auto simp: findLengthDelimitedField_def findField_def find_Some_iff split: option.splits field.splits) (metis nth_mem)

lemma payload_shorter: "readLengthDelimitedPayload buf pos w = Inr (Some p) \<Longrightarrow> length p \<le> length buf - pos"
  unfolding readLengthDelimitedPayload_def
  by (auto simp: bindE_Inr_iff checkedLen_def subarray_def split: if_splits dest!: decodeVarint_pos)

lemma entry_cong:
  assumes "\<And>x. length x < length bs \<Longrightarrow> f x = g x"
  shows "decodeProtobufStructEntry f bs = decodeProtobufStructEntry g bs"
proof (cases "decodeFields bs")
  case (Inr fields)
  have "f v = g v" if "findLengthDelimitedField fields MAP_VALUE = Some v" for v
    using find_length_delimited [OF that] field_shorter [OF Inr] assms by blast
  then show ?thesis by (simp add: decodeProtobufStructEntry_def Inr Let_def split: option.split)
qed (simp add: decodeProtobufStructEntry_def)

lemma struct_cong:
  assumes "\<And>x. length x < length bs \<Longrightarrow> f x = g x"
  shows "decodeProtobufStruct f bs = decodeProtobufStruct g bs"
proof (cases "decodeFields bs")
  case (Inr fields)
  have "struct_fields num f fs r = struct_fields num g fs r" if "set fs \<subseteq> set fields" for num fs r
    using that
  proof (induction fs arbitrary: r)
    case (Cons a fs)
    show ?case
    proof (cases a)
      case (Bytes_field n b)
      have "length b < length bs" using Cons.prems field_shorter [OF Inr, of n b] by (simp add: Bytes_field)
      then have "decodeProtobufStructEntry f b = decodeProtobufStructEntry g b"
        by (intro entry_cong) (use assms in auto)
      then show ?thesis using Cons by (cases "decodeProtobufStructEntry g b") (simp_all add: Bytes_field)
    qed (use Cons in simp)
  qed simp
  then show ?thesis by (simp add: decodeProtobufStruct_def Inr)
qed (simp add: decodeProtobufStruct_def)

lemma list_cong:
  assumes "\<And>x. length x < length bs \<Longrightarrow> f x = g x"
  shows "decodeProtobufList f bs = decodeProtobufList g bs"
proof (cases "decodeFields bs")
  case (Inr fields)
  have "list_values f fs = list_values g fs" if "set fs \<subseteq> set fields" for fs
    using that
  proof (induction fs)
    case (Cons a fs)
    show ?case
    proof (cases a)
      case (Bytes_field n b)
      have "length b < length bs" using Cons.prems field_shorter [OF Inr, of n b] by (simp add: Bytes_field)
      then show ?thesis using Cons assms [of b] by (cases "g b") (simp_all add: Bytes_field)
    qed (use Cons in simp)
  qed simp
  then show ?thesis by (simp add: decodeProtobufList_def Inr)
qed (simp add: decodeProtobufList_def)


lemma value_decoder_cong:
  assumes "\<And>x. length x < length buf \<Longrightarrow> f x = g x" and "0 < pos" and "pos \<le> length buf"
  shows "map_option (\<lambda>d. d buf pos w) (value_decoder f n) = map_option (\<lambda>d. d buf pos w) (value_decoder g n)"
proof -
  have "length p < length buf" if "readLengthDelimitedPayload buf pos w = Inr (Some p)" for p
    using payload_shorter [OF that] assms(2,3) by linarith
  then have s: "decodeProtobufStruct f p = decodeProtobufStruct g p" "decodeProtobufList f p = decodeProtobufList g p"
    if "readLengthDelimitedPayload buf pos w = Inr (Some p)" for p
    using that assms(1) by (auto intro!: struct_cong list_cong)
  have "decodeStructValue f buf pos w = decodeStructValue g buf pos w" "decodeListValue f buf pos w = decodeListValue g buf pos w"
    using s by (cases "readLengthDelimitedPayload buf pos w"; auto simp: decodeStructValue_def decodeListValue_def split: option.split)+
  then show ?thesis by (simp add: value_decoder_def)
qed

lemma value_loop_cong [fundef_cong]:
  assumes "buf = buf'" and "pos = pos'" and "\<And>x. length x < length buf' \<Longrightarrow> f x = g x"
  shows "value_loop f buf pos = value_loop g buf' pos'"
  unfolding assms(1,2)
proof (induction "length buf' - pos'" arbitrary: pos' rule: less_induct)
  case less
  show ?case
  proof (cases "pos' < length buf' \<and> (\<exists>t np. decodeVarint buf' pos' = Inr (t, np))")
    case True
    then obtain t np where d: "decodeVarint buf' pos' = Inr (t, np)" by blast
    note dp = decodeVarint_pos [OF d]
    let ?n = "js_Number (drop_bit 3 t)" and ?w = "t AND 7"
    have c: "map_option (\<lambda>d. d buf' np ?w) (value_decoder f ?n) = map_option (\<lambda>d. d buf' np ?w) (value_decoder g ?n)"
      using dp by (intro value_decoder_cong [OF assms(3)]) auto
    show ?thesis
    proof (cases "value_decoder f ?n")
      case None
      then have n: "value_decoder g ?n = None" using c by simp
      have "value_loop f buf' p = value_loop g buf' p" if "skipUnknownProtobufField buf' np ?w = Inr p" for p
      proof -
        have "length buf' - p < length buf' - pos'" using skip_pos [OF that] dp True by linarith
        then show ?thesis by (rule less)
      qed
      then show ?thesis using d None n by (subst (1 2) value_loop.simps) (simp split: sum.split)
    next
      case (Some h)
      then obtain h' where h': "value_decoder g ?n = Some h'" "h buf' np ?w = h' buf' np ?w" using c by (cases "value_decoder g ?n") auto
      then show ?thesis using d Some by (subst (1 2) value_loop.simps) simp
    qed
  next
    case False
    then show ?thesis by (subst (1 2) value_loop.simps) (auto split: sum.split)
  qed
qed

function decodeProtobufValue :: "bytes \<Rightarrow> wire_error + json" where
  "decodeProtobufValue buf = value_loop decodeProtobufValue buf 0"
  by pat_completeness auto
termination
  by (relation "measure length") simp_all

declare decodeProtobufValue.simps [simp del]

subsection \<open>Doubles\<close>

lemma double_pieces:
  "8 * n \<le> 64 \<Longrightarrow> double_of (map (\<lambda>i. ucast (drop_bit (8 * i) v)) [0..<n]) = take_bit (8 * n) (v :: 64 word)"
proof (induction n arbitrary: v)
  case 0
  then show ?case by (simp add: double_of_def)
next
  case (Suc n)
  have u: "[0..<Suc n] = 0 # map Suc [0..<n]" by (simp add: map_Suc_upt upt_conv_Cons del: upt_Suc)
  have s: "map (\<lambda>i. ucast (drop_bit (8 * i) v) :: byte) (map Suc [0..<n]) = map (\<lambda>i. ucast (drop_bit (8 * i) (drop_bit 8 v))) [0..<n]"
    by (simp add: add.commute)
  have "double_of (map (\<lambda>i. ucast (drop_bit (8 * i) v)) [0..<Suc n])
      = ucast (ucast v :: byte) OR push_bit 8 (take_bit (8 * n) (drop_bit 8 v))"
    unfolding u list.map(2) s using Suc.IH [of "drop_bit 8 v"] Suc.prems by (simp add: double_of_def)
  also have "\<dots> = take_bit (8 * Suc n) v"
  proof (rule bit_word_eqI)
    fix m :: nat
    have "8 + (m - 8) = m" if "8 \<le> m" using that by arith
    moreover assume "m < LENGTH(64)"
    ultimately show "bit (ucast (ucast v :: byte) OR push_bit 8 (take_bit (8 * n) (drop_bit 8 v))) m = bit (take_bit (8 * Suc n) v) m"
      by (cases "m < 8") (auto simp: bit_simps)
  qed
  finally show ?case .
qed

lemma double_roundtrip: "double_of (double_bytes v) = v"
  using double_pieces [of 8 v] by (simp add: double_bytes_def take_bit_word_eq_self)

subsection \<open>Round trip\<close>

text \<open>What survives: entries with an empty key or the key \<open>__proto__\<close> are lost, at any depth.\<close>

fun clean :: "json \<Rightarrow> json" where
  "clean (J_list vs) = J_list (map clean vs)"
| "clean (J_object kvs) =
     J_object (map (\<lambda>(k, v). (k, clean v)) (filter (\<lambda>(k, v). k \<noteq> [] \<and> k \<noteq> text_of ''__proto__'') kvs))"
| "clean v = v"

fun json_ok :: "json \<Rightarrow> bool" where
  "json_ok (J_string s) = list_all scalar s"
| "json_ok (J_list vs) = list_all json_ok vs"
| "json_ok (J_object kvs) = (distinct (map fst kvs) \<and> list_all (\<lambda>(k, v). list_all scalar k \<and> json_ok v) kvs)"
| "json_ok _ = True"

lemma tag_at_start:
  assumes "tag_ok (int n)" and "0 \<le> w" and "w < 8"
  shows "decodeVarint (encodeTag (int n) w @ post) 0 = Inr (nat (8 * int n + w), length (encodeTag (int n) w))"
    and "js_Number (drop_bit 3 (nat (8 * int n + w))) = n" and "nat (8 * int n + w) AND 7 = nat w"
  using varint_at [of "8 * int n + w" "[]" post] tag_parts [OF assms] assms by (simp_all add: encodeTag_ok)

lemma tag_nonempty: "tag_ok n \<Longrightarrow> 0 \<le> w \<Longrightarrow> w < 8 \<Longrightarrow> encodeTag n w \<noteq> []"
  by (simp add: encodeTag_ok encodeVarint_ne)

lemma loop_tagged:
  assumes "tag_ok (int n)" and "0 \<le> w" and "w < 8" and "value_decoder dec n = Some d"
  shows "value_loop dec (encodeTag (int n) w @ post) 0 = d (encodeTag (int n) w @ post) (length (encodeTag (int n) w)) (nat w)"
  using tag_at_start [OF assms(1-3)] tag_nonempty [OF assms(1-3)] assms(4)
  by (subst value_loop.simps) simp

lemma payload_of: "readLengthDelimitedPayload (pre @ encodeVarint (int (length bs)) @ bs) (length pre) 2 = Inr (Some bs)"
  using varint_at [of "int (length bs)" pre bs]
  by (simp add: readLengthDelimitedPayload_def checkedLen_def subarray_def)

lemma const_tags: "tag_ok (int n)" if "n < 100" using that by (simp add: tag_ok_def)

lemma loop_delimited:
  assumes "n < 100" and "value_decoder dec n = Some d"
  shows "\<exists>pre. encodeBytes (int n) bs = pre @ encodeVarint (int (length bs)) @ bs \<and> value_loop dec (encodeBytes (int n) bs) 0 = d (encodeBytes (int n) bs) (length pre) 2"
  using loop_tagged [OF const_tags [OF assms(1)], of 2 dec d "encodeVarint (int (length bs)) @ bs"] assms(2)
  unfolding encodeBytes_def WT_LEN_def by (intro exI [of _ "encodeTag (int n) 2"]) simp

lemma decode_payload:
  assumes "n < 100" and "value_decoder dec n = Some d"
    and "\<And>buf pos. readLengthDelimitedPayload buf pos 2 = Inr (Some bs) \<Longrightarrow> d buf pos 2 = r"
  shows "value_loop dec (encodeBytes (int n) bs) 0 = r"
  using loop_delimited [OF assms(1,2), of bs] assms(3) payload_of by metis

lemma struct_entries:
  assumes "\<forall>(k, v) \<in> set kvs. list_all scalar k \<and> dec (encodeProtobufValue v) = Inr (clean v)"
    and "distinct (map fst (r @ kvs))"
  shows "struct_fields num dec (map (\<lambda>(k, v). Bytes_field num (encodeString (int MAP_KEY) k @ encodeMessage (int MAP_VALUE) [encodeProtobufValue v])) kvs) r
    = Inr (r @ map (\<lambda>(k, v). (k, clean v)) (filter (\<lambda>(k, v). k \<noteq> [] \<and> k \<noteq> text_of ''__proto__'') kvs))"
  using assms
proof (induction kvs arbitrary: r)
  case (Cons kv kvs)
  obtain k v where kv: "kv = (k, v)" by (cases kv)
  have f: "decodeFields (encodeString (int MAP_KEY) k @ encodeMessage (int MAP_VALUE) [encodeProtobufValue v])
      = Inr [Bytes_field 1 (utf8_bytes k), Bytes_field 2 (encodeProtobufValue v)]"
    using decodeFields_items [of "[W_string 1 k, W_message 2 [encodeProtobufValue v]]"] by (simp add: wire_consts tag_ok_def)
  have k: "utf8_text (utf8_bytes k) = k" using Cons.prems(1) by (simp add: kv utf8_roundtrip)
  have e: "decodeProtobufStructEntry dec (encodeString (int MAP_KEY) k @ encodeMessage (int MAP_VALUE) [encodeProtobufValue v])
      = Inr (if k = [] then None else Some (k, clean v))"
    using Cons.prems(1) unfolding decodeProtobufStructEntry_def f bindE.simps
    by (simp add: findLengthDelimitedField_def findField_def wire_consts k kv)
  have fresh: "map_of r k = None" using Cons.prems(2) by (auto simp: kv map_of_eq_None_iff)
  show ?case
  proof (cases "k = [] \<or> k = text_of ''__proto__''")
    case True
    then have "struct_fields num dec (map (\<lambda>(k, v). Bytes_field num (encodeString (int MAP_KEY) k @ encodeMessage (int MAP_VALUE) [encodeProtobufValue v])) (kv # kvs)) r
      = struct_fields num dec (map (\<lambda>(k, v). Bytes_field num (encodeString (int MAP_KEY) k @ encodeMessage (int MAP_VALUE) [encodeProtobufValue v])) kvs) r"
      by (auto simp: kv e set_property_def)
    then show ?thesis using Cons True by (auto simp: kv)
  next
    case False
    then have "set_property k (clean v) r = r @ [(k, clean v)]" by (simp add: set_property_def map_set_fresh [OF fresh])
    then show ?thesis using Cons.IH [of "r @ [(k, clean v)]"] Cons.prems False by (auto simp: kv e)
  qed
qed simp

lemma list_entries:
  assumes "\<forall>v \<in> set vs. dec (encodeProtobufValue v) = Inr (clean v)"
  shows "list_values dec (map (\<lambda>v. Bytes_field 1 (encodeProtobufValue v)) vs) = Inr (map clean vs)"
  using assms by (induction vs) (simp_all add: wire_consts)

lemma value_decoders:
  "value_decoder dec VAL_NULL = Some decodeNullValue" "value_decoder dec VAL_NUMBER = Some decodeNumberValue"
  "value_decoder dec VAL_STRING = Some decodeStringValue" "value_decoder dec VAL_BOOL = Some decodeBoolValue"
  "value_decoder dec VAL_STRUCT = Some (decodeStructValue dec)" "value_decoder dec VAL_LIST = Some (decodeListValue dec)"
  by (simp_all add: value_decoder_def wire_consts)

lemma value_numbers: "VAL_NULL < 100" "VAL_NUMBER < 100" "VAL_STRING < 100" "VAL_BOOL < 100" "VAL_STRUCT < 100" "VAL_LIST < 100"
  by (simp_all add: wire_consts)

lemma value_roundtrips: "json_ok v \<Longrightarrow> decodeProtobufValue (encodeProtobufValue v) = Inr (clean v)"
proof (induction v)
  case J_null
  have "value_loop decodeProtobufValue (encodeTag (int VAL_NULL) 0 @ encodeVarint 0) 0 = Inr J_null"
    using loop_tagged [OF const_tags [OF value_numbers(1)] _ _ value_decoders(1), of 0 decodeProtobufValue "encodeVarint 0"]
      varint_at [of 0 "encodeTag (int VAL_NULL) 0" "[]"]
    by (simp add: decodeNullValue_def)
  then show ?case by (subst decodeProtobufValue.simps) (simp add: WT_VARINT_def)
next
  case (J_number d)
  have "value_loop decodeProtobufValue (encodeTag (int VAL_NUMBER) 1 @ double_bytes d) 0 = Inr (J_number d)"
    using loop_tagged [OF const_tags [OF value_numbers(2)] _ _ value_decoders(2), of 1 decodeProtobufValue "double_bytes d"]
    by (simp add: decodeNumberValue_def subarray_def length_double double_roundtrip)
  then show ?case by (subst decodeProtobufValue.simps) (simp add: encodeDoubleField_def)
next
  case (J_string s)
  have "value_loop decodeProtobufValue (encodeBytes (int VAL_STRING) (utf8_bytes s)) 0 = Inr (J_string s)"
    using J_string by (intro decode_payload [OF value_numbers(3) value_decoders(3)]) (simp add: decodeStringValue_def utf8_roundtrip)
  then show ?case by (subst decodeProtobufValue.simps) (simp add: encodeString_def)
next
  case (J_bool b)
  have "value_loop decodeProtobufValue (encodeTag (int VAL_BOOL) 0 @ encodeVarint (if b then 1 else 0)) 0 = Inr (J_bool b)"
    using loop_tagged [OF const_tags [OF value_numbers(4)] _ _ value_decoders(4), of 0 decodeProtobufValue "encodeVarint (if b then 1 else 0)"]
      varint_at [of "if b then 1 else 0" "encodeTag (int VAL_BOOL) 0" "[]"]
    by (simp add: decodeBoolValue_def)
  then show ?case by (subst decodeProtobufValue.simps) (simp add: WT_VARINT_def)
next
  case (J_list vs)
  let ?ps = "map (\<lambda>v. encodeMessage (int LIST_VALUES) [encodeProtobufValue v]) vs"
  have f: "decodeFields (concat ?ps) = Inr (map (\<lambda>v. Bytes_field 1 (encodeProtobufValue v)) vs)"
  proof -
    have "concat (map item_fields (map (\<lambda>v. W_message 1 [encodeProtobufValue v]) vs)) = map (\<lambda>v. Bytes_field 1 (encodeProtobufValue v)) vs"
      by (induction vs) simp_all
    moreover have "map item_bytes (map (\<lambda>v. W_message 1 [encodeProtobufValue v]) vs) = ?ps" by (simp add: wire_consts)
    moreover have "list_all item_ok (map (\<lambda>v. W_message 1 [encodeProtobufValue v]) vs)" by (simp add: list_all_iff tag_ok_def)
    ultimately show ?thesis using decodeFields_items by metis
  qed
  have "decodeProtobufList decodeProtobufValue (concat ?ps) = Inr (map clean vs)"
    unfolding decodeProtobufList_def f bindE.simps using J_list by (intro list_entries) (simp add: list_all_iff)
  then have "value_loop decodeProtobufValue (encodeBytes (int VAL_LIST) (concat ?ps)) 0 = Inr (J_list (map clean vs))"
    by (intro decode_payload [OF value_numbers(6) value_decoders(6)]) (simp add: decodeListValue_def)
  then show ?case by (subst decodeProtobufValue.simps) (simp add: message_is_bytes)
next
  case (J_object kvs)
  let ?e = "\<lambda>(k, v). encodeString (int MAP_KEY) k @ encodeMessage (int MAP_VALUE) [encodeProtobufValue v]"
  let ?ps = "map (\<lambda>(k, v). encodeMessage (int STRUCT_FIELDS) [?e (k, v)]) kvs"
  let ?r = "map (\<lambda>(k, v). (k, clean v)) (filter (\<lambda>(k, v). k \<noteq> [] \<and> k \<noteq> text_of ''__proto__'') kvs)"
  have f: "decodeFields (concat ?ps) = Inr (map (\<lambda>(k, v). Bytes_field 1 (?e (k, v))) kvs)"
  proof -
    have "concat (map item_fields (map (\<lambda>kv. W_message 1 [?e kv]) kvs)) = map (\<lambda>(k, v). Bytes_field 1 (?e (k, v))) kvs"
      by (induction kvs) auto
    moreover have "map item_bytes (map (\<lambda>kv. W_message 1 [?e kv]) kvs) = ?ps" by (auto simp: wire_consts)
    moreover have "list_all item_ok (map (\<lambda>kv. W_message 1 [?e kv]) kvs)" by (simp add: list_all_iff tag_ok_def)
    ultimately show ?thesis using decodeFields_items by metis
  qed
  have "\<forall>(k, v) \<in> set kvs. list_all scalar k \<and> decodeProtobufValue (encodeProtobufValue v) = Inr (clean v)"
    using J_object by (fastforce simp: list_all_iff)
  then have "decodeProtobufStruct decodeProtobufValue (concat ?ps) = Inr ?r"
    using struct_entries [of kvs decodeProtobufValue "[]" 1] J_object.prems
    unfolding decodeProtobufStruct_def f bindE.simps by (simp add: STRUCT_FIELDS_def)
  then have "value_loop decodeProtobufValue (encodeBytes (int VAL_STRUCT) (concat ?ps)) 0 = Inr (J_object ?r)"
    by (intro decode_payload [OF value_numbers(5) value_decoders(5)]) (simp add: decodeStructValue_def)
  then show ?case by (subst decodeProtobufValue.simps) (simp add: message_is_bytes)
qed

subsection \<open>Properties\<close>

text \<open>
  C17: A JSON value that is encoded and decoded again comes back without the entries of its objects
  whose key is empty or \<open>__proto__\<close>, at every depth, and otherwise the same: nulls, doubles bit by bit,
  texts, booleans, lists and objects with their entries in order. A value without such keys is unchanged.
\<close>

theorem value_roundtrip:
  assumes "json_ok v"
  shows "decodeProtobufValue (jsonSchemaToProtobufValue v) = Inr (clean v)"
  unfolding jsonSchemaToProtobufValue_def by (rule value_roundtrips [OF assms])

definition json_demo :: json where
  "json_demo = J_object [(text_of ''type'', J_string (text_of ''object'')), ([], J_null),
     (text_of ''required'', J_list [J_bool True, J_object [(text_of ''__proto__'', J_null), (text_of ''x'', J_number 7)]])]"

theorem value_roundtrip_witness:
  "decodeProtobufValue (jsonSchemaToProtobufValue json_demo)
    = Inr (J_object [(text_of ''type'', J_string (text_of ''object'')),
        (text_of ''required'', J_list [J_bool True, J_object [(text_of ''x'', J_number 7)]])])"
proof -
  have ok: "json_ok json_demo" by (simp add: json_demo_def text_of_def scalar_def)
  have "text_of ''type'' \<noteq> []" "text_of ''type'' \<noteq> text_of ''__proto__''" "text_of ''required'' \<noteq> []"
    "text_of ''required'' \<noteq> text_of ''__proto__''" "text_of ''x'' \<noteq> []" "text_of ''x'' \<noteq> text_of ''__proto__''"
    by (simp_all add: text_of_def)
  then have "clean json_demo = J_object [(text_of ''type'', J_string (text_of ''object'')),
        (text_of ''required'', J_list [J_bool True, J_object [(text_of ''x'', J_number 7)]])]"
    by (simp add: json_demo_def)
  then show ?thesis using value_roundtrip [OF ok] by simp
qed

end
