(* ===== verification/CursorEvents.thy ===== *)
theory CursorEvents
  imports ValueCodec
begin

text \<open>
  What Cursor sends, in \<^verbatim>\<open>src/open-sse/utils/cursorAgentProtobuf.ts\<close> and
  \<^verbatim>\<open>src/open-sse/utils/cursorAgentProtobuf/nativeTodoWrite.ts\<close>: the frames of a stream, the updates of a
  turn, the requests to run a tool and the requests for blobs. Compression is a parameter.
\<close>

subsection \<open>Frames\<close>

definition FLAG_NONE :: byte where "FLAG_NONE = 0"
definition FLAG_GZIP :: byte where "FLAG_GZIP = 1"

definition u32_be :: "nat \<Rightarrow> bytes" where
  "u32_be n = [of_nat (n div 16777216), of_nat (n div 65536 mod 256), of_nat (n div 256 mod 256), of_nat (n mod 256)]"

definition read_u32_be :: "bytes \<Rightarrow> nat \<Rightarrow> nat" where
  "read_u32_be buf pos =
     ((unat (buf ! pos) * 256 + unat (buf ! (pos + 1))) * 256 + unat (buf ! (pos + 2))) * 256 + unat (buf ! (pos + 3))"

datatype frame_error = Out_of_range

text \<open>\<open>writeUInt32BE\<close> throws for a length of 4 GiB or more.\<close>

definition wrapConnectFrame :: "(bytes \<Rightarrow> bytes) \<Rightarrow> bytes \<Rightarrow> bool \<Rightarrow> frame_error + bytes" where
  "wrapConnectFrame gzip payload compressed =
     (let data = (if compressed then gzip payload else payload) in
      if length data < 2 ^ 32
      then Inr ((if compressed then FLAG_GZIP else FLAG_NONE) # u32_be (length data) @ data)
      else Inl Out_of_range)"

record connect_frame =
  cf_flags :: byte
  cf_payload :: bytes

text \<open>
  The frames that are yielded and whether the generator then throws: a payload with the flag is
  decompressed, which fails for what is not compressed data.
\<close>

function frames_from :: "(bytes \<Rightarrow> bytes option) \<Rightarrow> bytes \<Rightarrow> nat \<Rightarrow> connect_frame list \<times> bool" where
  "frames_from gunzip stream pos =
     (if pos + 5 \<le> length stream then
        (let flags = stream ! pos; len = read_u32_be stream (pos + 1) in
         if length stream < pos + 5 + len then ([], False)
         else
           (let raw = subarray stream (pos + 5) (pos + 5 + len) in
            case (if flags AND FLAG_GZIP \<noteq> 0 then gunzip raw else Some raw) of
              None \<Rightarrow> ([], True)
            | Some payload \<Rightarrow>
                (let (rest, thrown) = frames_from gunzip stream (pos + 5 + len)
                 in (\<lparr>cf_flags = flags, cf_payload = payload\<rparr> # rest, thrown))))
      else ([], False))"
  by pat_completeness auto
termination
  by (relation "measure (\<lambda>(gunzip, stream, pos). length stream - pos)") auto

declare frames_from.simps [simp del]

definition iterateConnectFrames :: "(bytes \<Rightarrow> bytes option) \<Rightarrow> bytes \<Rightarrow> connect_frame list \<times> bool" where
  "iterateConnectFrames gunzip stream = frames_from gunzip stream 0"

subsection \<open>The native todo tool\<close>

datatype todo_status = Pending | In_progress | Completed | Cancelled

definition decodeNativeTodoStatus :: "nat \<Rightarrow> todo_status option" where
  "decodeNativeTodoStatus v =
     (if v = 1 then Some Pending else if v = 2 then Some In_progress
      else if v = 3 then Some Completed else if v = 4 then Some Cancelled else None)"

definition uniqueLenField :: "field list \<Rightarrow> nat \<Rightarrow> bytes option" where
  "uniqueLenField flds n = (case filter (\<lambda>f. field_number f = n) flds of [Bytes_field _ bs] \<Rightarrow> Some bs | _ \<Rightarrow> None)"

definition uniqueVarintField :: "field list \<Rightarrow> nat \<Rightarrow> nat option" where
  "uniqueVarintField flds n = (case filter (\<lambda>f. field_number f = n) flds of [Varint_field _ v] \<Rightarrow> Some v | _ \<Rightarrow> None)"

definition decodeNonEmptyUtf8 :: "bytes \<Rightarrow> utext option" where
  "decodeNonEmptyUtf8 bs = (let v = utf8_text bs in if v = [] \<or> utf8_bytes v \<noteq> bs then None else Some v)"

text \<open>The loop over the fields of the arguments: \<open>None\<close> is the early return of null.\<close>

fun todo_items :: "field list \<Rightarrow> wire_error + (utext \<times> todo_status) list option" where
  "todo_items [] = Inr (Some [])"
| "todo_items (f # fs) =
     (if field_number f = 2 then todo_items fs
      else if field_number f \<noteq> 1 then todo_items fs
      else case f of
        Varint_field _ _ \<Rightarrow> Inr None
      | Bytes_field _ bs \<Rightarrow>
          bindE (decodeFields bs) (\<lambda>itemFields.
            case (uniqueLenField itemFields 2, uniqueVarintField itemFields 3) of
              (Some content, Some status) \<Rightarrow>
                (case (decodeNonEmptyUtf8 content, decodeNativeTodoStatus status) of
                   (Some c, Some st) \<Rightarrow> bindE (todo_items fs) (\<lambda>r. Inr (map_option ((#) (c, st)) r))
                 | _ \<Rightarrow> Inr None)
            | _ \<Rightarrow> Inr None))"

definition todo_merge :: "field list \<Rightarrow> bool option" where
  "todo_merge argsFields =
     (let mergeFields = filter (\<lambda>f. field_number f = 2) argsFields in
      if length mergeFields > 1 then None
      else if length mergeFields = 1 then map_option (\<lambda>v. v \<noteq> 0) (uniqueVarintField argsFields 2)
      else Some False)"

definition decodeNativeTodoWriteCompletion :: "bytes \<Rightarrow> wire_error + (utext \<times> bool \<times> (utext \<times> todo_status) list) option" where
  "decodeNativeTodoWriteCompletion payload =
     bindE (decodeFields payload) (\<lambda>completedFields.
       case (uniqueLenField completedFields 1, uniqueLenField completedFields 2) of
         (Some idBytes, Some toolCall) \<Rightarrow>
           (case decodeNonEmptyUtf8 idBytes of
              None \<Rightarrow> Inr None
            | Some toolCallId \<Rightarrow>
                bindE (decodeFields toolCall) (\<lambda>callFields.
                  case uniqueLenField callFields 9 of
                    None \<Rightarrow> Inr None
                  | Some todoWrite \<Rightarrow>
                      bindE (decodeFields todoWrite) (\<lambda>writeFields.
                        case uniqueLenField writeFields 1 of
                          None \<Rightarrow> Inr None
                        | Some args \<Rightarrow>
                            bindE (decodeFields args) (\<lambda>argsFields.
                              case todo_merge argsFields of
                                None \<Rightarrow> Inr None
                              | Some merge \<Rightarrow> bindE (todo_items argsFields) (\<lambda>r. Inr (map_option (\<lambda>todos. (toolCallId, merge, todos)) r))))))
       | _ \<Rightarrow> Inr None)"

subsection \<open>Updates of a turn\<close>

datatype decoded_delta =
    D_text utext
  | D_thinking utext
  | D_thinking_complete
  | D_token_delta nat
  | D_turn_ended
  | D_heartbeat
  | D_tool_call_started
  | D_tool_call_completed
  | D_native_todo_write utext bool "(utext \<times> todo_status) list"
  | D_kv_server_message
  | D_unknown nat

definition IU_TEXT_DELTA :: nat where [wire_consts]: "IU_TEXT_DELTA = 1"
definition IU_TOOL_CALL_STARTED :: nat where [wire_consts]: "IU_TOOL_CALL_STARTED = 2"
definition IU_TOOL_CALL_COMPLETED :: nat where [wire_consts]: "IU_TOOL_CALL_COMPLETED = 3"
definition IU_THINKING_DELTA :: nat where [wire_consts]: "IU_THINKING_DELTA = 4"
definition IU_THINKING_COMPLETED :: nat where [wire_consts]: "IU_THINKING_COMPLETED = 5"
definition IU_TOKEN_DELTA :: nat where [wire_consts]: "IU_TOKEN_DELTA = 8"
definition IU_HEARTBEAT :: nat where [wire_consts]: "IU_HEARTBEAT = 13"
definition IU_TURN_ENDED :: nat where [wire_consts]: "IU_TURN_ENDED = 14"

definition decodeInteractionUpdate :: "field \<Rightarrow> wire_error + decoded_delta list" where
  "decodeInteractionUpdate f =
     (let n = field_number f; body = (case f of Bytes_field _ bs \<Rightarrow> Some bs | _ \<Rightarrow> None) in
      if n = IU_TEXT_DELTA then (case body of None \<Rightarrow> Inr [] | Some bs \<Rightarrow> bindE (decodeStringField bs 1) (\<lambda>t. Inr [D_text t]))
      else if n = IU_THINKING_DELTA then (case body of None \<Rightarrow> Inr [] | Some bs \<Rightarrow> bindE (decodeStringField bs 1) (\<lambda>t. Inr [D_thinking t]))
      else if n = IU_THINKING_COMPLETED then Inr [D_thinking_complete]
      else if n = IU_TOOL_CALL_STARTED then Inr [D_tool_call_started]
      else if n = IU_TOOL_CALL_COMPLETED then
        (case body of
           None \<Rightarrow> Inr [D_tool_call_completed]
         | Some bs \<Rightarrow> bindE (decodeNativeTodoWriteCompletion bs) (\<lambda>w.
             Inr ((case w of None \<Rightarrow> [] | Some (i, m, ts) \<Rightarrow> [D_native_todo_write i m ts]) @ [D_tool_call_completed])))
      else if n = IU_TOKEN_DELTA then (case body of None \<Rightarrow> Inr [] | Some bs \<Rightarrow> bindE (decodeVarintField bs 1) (\<lambda>v. Inr [D_token_delta v]))
      else if n = IU_HEARTBEAT then Inr [D_heartbeat]
      else if n = IU_TURN_ENDED then Inr [D_turn_ended]
      else Inr [D_unknown n])"

definition ASM_INTERACTION_UPDATE :: nat where [wire_consts]: "ASM_INTERACTION_UPDATE = 1"
definition ASM_EXEC_SERVER_MESSAGE :: nat where [wire_consts]: "ASM_EXEC_SERVER_MESSAGE = 2"
definition ASM_KV_SERVER_MESSAGE :: nat where [wire_consts]: "ASM_KV_SERVER_MESSAGE = 4"

definition decodeAgentServerMessage :: "bytes \<Rightarrow> wire_error + decoded_delta list" where
  "decodeAgentServerMessage payload =
     bindE (decodeFields payload) (concat_mapE (\<lambda>top.
       case top of
         Varint_field _ _ \<Rightarrow> Inr []
       | Bytes_field n bs \<Rightarrow>
           if n = ASM_KV_SERVER_MESSAGE then Inr [D_kv_server_message]
           else if n \<noteq> ASM_INTERACTION_UPDATE then Inr []
           else bindE (decodeFields bs) (concat_mapE decodeInteractionUpdate)))"

subsection \<open>Requests for blobs\<close>

datatype kv_event =
    Kv_get_blob nat bytes "bytes option"
  | Kv_set_blob nat bytes bytes "bytes option"

definition varint_or_zero :: "field list \<Rightarrow> nat \<Rightarrow> nat" where
  "varint_or_zero flds n = (case findField flds n of Some (Varint_field _ v) \<Rightarrow> js_Number v | _ \<Rightarrow> 0)"

definition decodeBlobId :: "bytes \<Rightarrow> nat \<Rightarrow> wire_error + bytes" where
  "decodeBlobId payload n = bindE (decodeFields payload) (\<lambda>flds. Inr (nullish (findLengthDelimitedField flds n) []))"

definition decodeSetBlobArgs :: "bytes \<Rightarrow> wire_error + bytes \<times> bytes" where
  "decodeSetBlobArgs payload =
     bindE (decodeFields payload) (\<lambda>flds.
       Inr (nullish (findLengthDelimitedField flds 1) [], nullish (findLengthDelimitedField flds 2) []))"

definition decodeKvServerEvent :: "bytes \<Rightarrow> wire_error + kv_event option" where
  "decodeKvServerEvent payload =
     bindE (decodeFields payload) (\<lambda>top.
       case findField top ASM_KV_SERVER_MESSAGE of
         Some (Bytes_field _ bs) \<Rightarrow>
           bindE (decodeFields bs) (\<lambda>flds.
             let kvId = varint_or_zero flds 1; requestMetadata = findLengthDelimitedField flds 4 in
             case findLengthDelimitedField flds 2 of
               Some args \<Rightarrow> bindE (decodeBlobId args 1) (\<lambda>b. Inr (Some (Kv_get_blob kvId b requestMetadata)))
             | None \<Rightarrow>
                 (case findLengthDelimitedField flds 3 of
                    None \<Rightarrow> Inr None
                  | Some args \<Rightarrow> bindE (decodeSetBlobArgs args) (\<lambda>(b, d). Inr (Some (Kv_set_blob kvId b d requestMetadata)))))
       | _ \<Rightarrow> Inr None)"

subsection \<open>Requests to run a tool\<close>

datatype path_kind = Exec_read | Exec_write | Exec_delete | Exec_ls
datatype shell_kind = Exec_shell | Exec_shell_stream | Exec_bg_shell

record shell_args =
  sa_command :: utext
  sa_workingDir :: utext
  sa_timeout :: nat
  sa_isBackground :: bool
  sa_hardTimeout :: nat

datatype exec_event =
    Exec_request_context nat utext
  | Exec_path path_kind nat utext utext
  | Exec_grep nat utext
  | Exec_diagnostics nat utext
  | Exec_shell_run shell_kind nat utext shell_args
  | Exec_fetch nat utext utext
  | Exec_write_shell_stdin nat utext
  | Exec_mcp nat utext utext utext "(utext \<times> json) list"

fun shell_field :: "shell_args \<Rightarrow> field \<Rightarrow> shell_args" where
  "shell_field a (Bytes_field n bs) = a"
| "shell_field a (Varint_field n v) =
     (if n = 3 then a\<lparr>sa_timeout := js_Number v\<rparr>
      else if n = 11 then a\<lparr>sa_isBackground := v \<noteq> 0\<rparr>
      else if n = 14 then a\<lparr>sa_hardTimeout := js_Number v\<rparr>
      else a)"

definition decodeShellArgs :: "bytes \<Rightarrow> wire_error + shell_args" where
  "decodeShellArgs payload =
     bindE (decodeStringField payload 1) (\<lambda>command.
       bindE (decodeStringField payload 2) (\<lambda>workingDir.
         bindE (decodeFields payload) (\<lambda>flds.
           Inr (foldl shell_field
             \<lparr>sa_command = command, sa_workingDir = workingDir, sa_timeout = 0, sa_isBackground = False, sa_hardTimeout = 0\<rparr> flds))))"

definition decodeMcpMapEntry :: "bytes \<Rightarrow> wire_error + (utext \<times> json) option" where
  "decodeMcpMapEntry payload = decodeProtobufStructEntry decodeProtobufValue payload"

text \<open>The loop over the arguments is the one of an object, over another field number.\<close>

definition decodeMcpExecEvent :: "nat \<Rightarrow> utext \<Rightarrow> bytes \<Rightarrow> wire_error + exec_event" where
  "decodeMcpExecEvent execMsgId execId bs =
     bindE (decodeFields bs) (\<lambda>flds.
       let toolName = (case findLengthDelimitedField flds 5 of
                         Some b \<Rightarrow> utf8_text b
                       | None \<Rightarrow> (case findLengthDelimitedField flds 1 of Some b \<Rightarrow> utf8_text b | None \<Rightarrow> []));
           toolCallId = (case findLengthDelimitedField flds 3 of Some b \<Rightarrow> utf8_text b | None \<Rightarrow> []) in
       bindE (struct_fields 2 decodeProtobufValue flds []) (\<lambda>args. Inr (Exec_mcp execMsgId execId toolName toolCallId args)))"

definition ESM_SHELL_ARGS :: nat where [wire_consts]: "ESM_SHELL_ARGS = 2"
definition ESM_WRITE_ARGS :: nat where [wire_consts]: "ESM_WRITE_ARGS = 3"
definition ESM_DELETE_ARGS :: nat where [wire_consts]: "ESM_DELETE_ARGS = 4"
definition ESM_GREP_ARGS :: nat where [wire_consts]: "ESM_GREP_ARGS = 5"
definition ESM_READ_ARGS :: nat where [wire_consts]: "ESM_READ_ARGS = 7"
definition ESM_LS_ARGS :: nat where [wire_consts]: "ESM_LS_ARGS = 8"
definition ESM_DIAGNOSTICS_ARGS :: nat where [wire_consts]: "ESM_DIAGNOSTICS_ARGS = 9"
definition ESM_REQUEST_CONTEXT_ARGS :: nat where [wire_consts]: "ESM_REQUEST_CONTEXT_ARGS = 10"
definition ESM_MCP_ARGS :: nat where [wire_consts]: "ESM_MCP_ARGS = 11"
definition ESM_SHELL_STREAM_ARGS :: nat where [wire_consts]: "ESM_SHELL_STREAM_ARGS = 14"
definition ESM_EXEC_ID :: nat where [wire_consts]: "ESM_EXEC_ID = 15"
definition ESM_BACKGROUND_SHELL_SPAWN :: nat where [wire_consts]: "ESM_BACKGROUND_SHELL_SPAWN = 16"
definition ESM_FETCH_ARGS :: nat where [wire_consts]: "ESM_FETCH_ARGS = 20"
definition ESM_WRITE_SHELL_STDIN_ARGS :: nat where [wire_consts]: "ESM_WRITE_SHELL_STDIN_ARGS = 23"

definition createPathExecEvent :: "path_kind \<Rightarrow> nat \<Rightarrow> utext \<Rightarrow> bytes \<Rightarrow> wire_error + exec_event" where
  "createPathExecEvent kind i e bs = bindE (decodeStringField bs 1) (\<lambda>p. Inr (Exec_path kind i e p))"

definition createShellExecEvent :: "shell_kind \<Rightarrow> nat \<Rightarrow> utext \<Rightarrow> bytes \<Rightarrow> wire_error + exec_event" where
  "createShellExecEvent kind i e bs = bindE (decodeShellArgs bs) (\<lambda>a. Inr (Exec_shell_run kind i e a))"

definition exec_decoder :: "nat \<Rightarrow> (nat \<Rightarrow> utext \<Rightarrow> bytes \<Rightarrow> wire_error + exec_event) option" where
  "exec_decoder n =
     (if n = ESM_REQUEST_CONTEXT_ARGS then Some (\<lambda>i e bs. Inr (Exec_request_context i e))
      else if n = ESM_READ_ARGS then Some (createPathExecEvent Exec_read)
      else if n = ESM_WRITE_ARGS then Some (createPathExecEvent Exec_write)
      else if n = ESM_DELETE_ARGS then Some (createPathExecEvent Exec_delete)
      else if n = ESM_LS_ARGS then Some (createPathExecEvent Exec_ls)
      else if n = ESM_GREP_ARGS then Some (\<lambda>i e bs. Inr (Exec_grep i e))
      else if n = ESM_DIAGNOSTICS_ARGS then Some (\<lambda>i e bs. Inr (Exec_diagnostics i e))
      else if n = ESM_SHELL_ARGS then Some (createShellExecEvent Exec_shell)
      else if n = ESM_SHELL_STREAM_ARGS then Some (createShellExecEvent Exec_shell_stream)
      else if n = ESM_BACKGROUND_SHELL_SPAWN then Some (createShellExecEvent Exec_bg_shell)
      else if n = ESM_FETCH_ARGS then Some (\<lambda>i e bs. bindE (decodeStringField bs 1) (\<lambda>u. Inr (Exec_fetch i e u)))
      else if n = ESM_WRITE_SHELL_STDIN_ARGS then Some (\<lambda>i e bs. Inr (Exec_write_shell_stdin i e))
      else if n = ESM_MCP_ARGS then Some decodeMcpExecEvent
      else None)"

text \<open>Envelope: the id, the exec id, and the first length-delimited field that is not the exec id.\<close>

definition decodeExecEventContext :: "bytes \<Rightarrow> wire_error + (nat \<times> utext \<times> nat \<times> bytes) option" where
  "decodeExecEventContext payload =
     bindE (decodeFields payload) (\<lambda>top.
       case findField top ASM_EXEC_SERVER_MESSAGE of
         Some (Bytes_field _ bs) \<Rightarrow>
           bindE (decodeFields bs) (\<lambda>flds.
             case List.find (\<lambda>f. case f of Bytes_field n _ \<Rightarrow> n \<noteq> ESM_EXEC_ID | _ \<Rightarrow> False) flds of
               Some (Bytes_field n body) \<Rightarrow>
                 Inr (Some (varint_or_zero flds 1,
                   case findLengthDelimitedField flds ESM_EXEC_ID of Some b \<Rightarrow> utf8_text b | None \<Rightarrow> [], n, body))
             | _ \<Rightarrow> Inr None)
       | _ \<Rightarrow> Inr None)"

definition decodeExecServerEvent :: "bytes \<Rightarrow> wire_error + exec_event option" where
  "decodeExecServerEvent payload =
     bindE (decodeExecEventContext payload) (\<lambda>c.
       case c of
         None \<Rightarrow> Inr None
       | Some (execMsgId, execId, n, body) \<Rightarrow>
           (case exec_decoder n of
              None \<Rightarrow> Inr None
            | Some d \<Rightarrow> bindE (d execMsgId execId body) (\<lambda>e. Inr (Some e))))"

definition decodeExecRequestContext :: "bytes \<Rightarrow> wire_error + (nat \<times> utext) option" where
  "decodeExecRequestContext payload =
     bindE (decodeExecServerEvent payload) (\<lambda>ev.
       Inr (case ev of Some (Exec_request_context i e) \<Rightarrow> Some (i, e) | _ \<Rightarrow> None))"

subsection \<open>Frames round trip\<close>

lemma read_u32: "n < 2 ^ 32 \<Longrightarrow> read_u32_be (pre @ f # u32_be n @ post) (length pre + 1) = n"
proof -
  assume n: "n < 2 ^ 32"
  define a b c where "a = n div 256" and "b = n div 65536" and "c = n div 16777216"
  have e: "a = n div 256" "b = a div 256" "c = b div 256" by (simp_all add: a_def b_def c_def div_mult2_eq [symmetric])
  have c: "c < 256" using n by (simp add: c_def div_less_iff_less_mult)
  have u: "u32_be n = [of_nat c, of_nat (b mod 256), of_nat (a mod 256), of_nat (n mod 256)]"
    by (simp add: u32_be_def a_def b_def c_def)
  have "((c * 256 + b mod 256) * 256 + a mod 256) * 256 + n mod 256 = n"
    unfolding e(3) div_mult_mod_eq e(2) unfolding e(1) by (simp only: div_mult_mod_eq)
  then show ?thesis using c by (simp add: read_u32_be_def u nth_append unat_byte)
qed

definition incomplete :: "bytes \<Rightarrow> bool" where
  "incomplete rest \<longleftrightarrow> length rest < 5 \<or> length rest < 5 + read_u32_be rest 1"

lemma flag_test: "(FLAG_GZIP AND FLAG_GZIP \<noteq> 0) = True" "(FLAG_NONE AND FLAG_GZIP \<noteq> 0) = False"
  by (simp_all add: FLAG_GZIP_def FLAG_NONE_def)

lemma read_shift: "pos + 4 \<le> length rest \<Longrightarrow> read_u32_be (pre @ rest) (length pre + pos) = read_u32_be rest pos"
  by (simp add: read_u32_be_def nth_append)

lemma frames_decode:
  assumes "\<forall>p. gunzip (gzip p) = Some p" and "list_all2 (\<lambda>(p, c) b. wrapConnectFrame gzip p c = Inr b) frames bufs"
    and "incomplete rest"
  shows "frames_from gunzip (pre @ concat bufs @ rest) (length pre)
    = (map (\<lambda>(p, c). \<lparr>cf_flags = (if c then FLAG_GZIP else FLAG_NONE), cf_payload = p\<rparr>) frames, False)"
  using assms(2)
proof (induction frames bufs arbitrary: pre rule: list_all2_induct)
  case Nil
  show ?case
  proof (cases "5 \<le> length rest")
    case True
    then show ?thesis using assms(3) read_shift [of 1 rest pre]
      by (subst frames_from.simps) (simp add: incomplete_def Let_def)
  next
    case False
    then show ?thesis by (subst frames_from.simps) simp
  qed
next
  case (Cons frame frames b bufs)
  obtain p c where frame: "frame = (p, c)" by (cases frame)
  define data where "data = (if c then gzip p else p)"
  define flag where "flag = (if c then FLAG_GZIP else FLAG_NONE)"
  have b: "b = flag # u32_be (length data) @ data" and len: "length data < 2 ^ 32"
    using Cons.hyps(1) by (auto simp: frame wrapConnectFrame_def data_def flag_def Let_def split: if_splits)
  let ?s = "pre @ concat (b # bufs) @ rest"
  have n: "read_u32_be ?s (length pre + 1) = length data"
    using read_u32 [OF len, of pre flag "data @ concat bufs @ rest"] by (simp add: b)
  have l4: "length (u32_be m) = 4" for m by (simp add: u32_be_def)
  have raw: "subarray ?s (length pre + 5) (length pre + 5 + length data) = data"
    by (simp add: subarray_def b l4)
  have f: "?s ! length pre = flag" by (simp add: b)
  have un: "(if flag AND FLAG_GZIP \<noteq> 0 then gunzip data else Some data) = Some p"
    using assms(1) flag_test by (cases c) (simp_all add: flag_def data_def)
  have ge: "length pre + 5 \<le> length ?s" "\<not> length ?s < length pre + 5 + length data" by (simp_all add: b l4)
  have rest: "frames_from gunzip ?s (length pre + 5 + length data)
      = (map (\<lambda>(p, c). \<lparr>cf_flags = (if c then FLAG_GZIP else FLAG_NONE), cf_payload = p\<rparr>) frames, False)"
    using Cons.IH [of "pre @ b"] by (simp add: b l4 add.assoc)
  show ?case
    by (subst frames_from.simps, simp only: ge if_True if_False Let_def f n raw un option.case rest prod.case frame list.map)
      (simp add: flag_def)
qed

text \<open>
  C18: A stream of frames is split into exactly the payloads that were wrapped, in order, compressed
  or not, and a frame at the end that is not complete yet yields nothing and throws nothing, so that the
  bytes can be presented again with what follows.
\<close>

theorem frames_roundtrip:
  assumes "\<forall>p. gunzip (gzip p) = Some p" and "list_all2 (\<lambda>(p, c) b. wrapConnectFrame gzip p c = Inr b) frames bufs"
    and "incomplete rest"
  shows "iterateConnectFrames gunzip (concat bufs @ rest)
    = (map (\<lambda>(p, c). \<lparr>cf_flags = (if c then FLAG_GZIP else FLAG_NONE), cf_payload = p\<rparr>) frames, False)"
  using frames_decode [OF assms, of "[]"] by (simp add: iterateConnectFrames_def)

theorem frames_roundtrip_witness:
  "iterateConnectFrames (\<lambda>b. Some (rev b)) ([0, 0, 0, 0, 2, 7, 8] @ [1, 0, 0, 0, 2, 8, 7] @ [0, 0, 0, 0, 3, 1])
    = ([\<lparr>cf_flags = 0, cf_payload = [7, 8]\<rparr>, \<lparr>cf_flags = 1, cf_payload = [7, 8]\<rparr>], False)"
proof -
  have w: "list_all2 (\<lambda>(p, c) b. wrapConnectFrame rev p c = Inr b) [([7, 8], False), ([7, 8], True)] [[0, 0, 0, 0, 2, 7, 8], [1, 0, 0, 0, 2, 8, 7]]"
    by (simp add: wrapConnectFrame_def u32_be_def FLAG_NONE_def FLAG_GZIP_def)
  have i: "incomplete [0, 0, 0, 0, 3, 1]" by (simp add: incomplete_def read_u32_be_def)
  show ?thesis using frames_roundtrip [OF _ w i, of "\<lambda>b. Some (rev b)"] by (simp add: FLAG_NONE_def FLAG_GZIP_def)
qed

subsection \<open>Requests to run a tool, decoded\<close>

definition exec_envelope :: "nat \<Rightarrow> utext \<Rightarrow> nat \<Rightarrow> bytes list \<Rightarrow> bytes" where
  "exec_envelope i e n body =
     encodeMessage (int ASM_EXEC_SERVER_MESSAGE) [encodeUInt32Field 1 (int i), encodeString (int ESM_EXEC_ID) e, encodeMessage (int n) body]"

lemma one_message: "tag_ok n \<Longrightarrow> decodeFields (encodeMessage n ps) = Inr [Bytes_field (nat n) (concat ps)]"
  using decodeFields_items [of "[W_message n ps]"] by simp

lemma envelope_context:
  assumes "i < 2 ^ 53" and "list_all scalar e" and "tag_ok (int n)" and "n \<noteq> ESM_EXEC_ID"
  shows "decodeExecEventContext (exec_envelope i e n body) = Inr (Some (i, e, n, concat body))"
proof -
  have top: "decodeFields (exec_envelope i e n body)
      = Inr [Bytes_field 2 (encodeUInt32Field 1 (int i) @ encodeString 15 e @ encodeMessage (int n) body)]"
    using one_message [of 2] by (simp add: exec_envelope_def wire_consts tag_ok_def)
  have "decodeFields (encodeUInt32Field 1 (int i) @ encodeString 15 e @ encodeMessage (int n) body)
      = Inr [Varint_field 1 i, Bytes_field 15 (utf8_bytes e), Bytes_field n (concat body)]"
    using decodeFields_items [of "[W_uint 1 (int i), W_string 15 e, W_message (int n) body]"] assms(3) by (simp add: tag_ok_def)
  then show ?thesis using assms
    by (simp add: decodeExecEventContext_def top findField_def wire_consts varint_or_zero_def js_Number_exact
        findLengthDelimitedField_def utf8_roundtrip)
qed

definition mcp_body :: "utext \<Rightarrow> utext \<Rightarrow> (utext \<times> json) list \<Rightarrow> bytes list" where
  "mcp_body name callId args =
     encodeString 5 name # encodeString 3 callId
     # map (\<lambda>(k, v). encodeMessage 2 [encodeString (int MAP_KEY) k @ encodeMessage (int MAP_VALUE) [encodeProtobufValue v]]) args"

lemma mcp_fields:
  "decodeFields (concat (mcp_body name callId args)) = Inr (Bytes_field 5 (utf8_bytes name) # Bytes_field 3 (utf8_bytes callId)
     # map (\<lambda>(k, v). Bytes_field 2 (encodeString (int MAP_KEY) k @ encodeMessage (int MAP_VALUE) [encodeProtobufValue v])) args)"
proof -
  let ?e = "\<lambda>(k, v). encodeString (int MAP_KEY) k @ encodeMessage (int MAP_VALUE) [encodeProtobufValue v]"
  let ?is = "W_string 5 name # W_string 3 callId # map (\<lambda>kv. W_message 2 [?e kv]) args"
  have "concat (map item_fields (map (\<lambda>kv. W_message 2 [?e kv]) args)) = map (\<lambda>(k, v). Bytes_field 2 (?e (k, v))) args"
    by (induction args) auto
  moreover have "map item_bytes ?is = mcp_body name callId args" by (auto simp: mcp_body_def)
  moreover have "list_all item_ok ?is" by (simp add: list_all_iff tag_ok_def)
  moreover have "concat (map item_fields ?is) = Bytes_field 5 (utf8_bytes name) # Bytes_field 3 (utf8_bytes callId)
      # concat (map item_fields (map (\<lambda>kv. W_message 2 [?e kv]) args))" by simp
  ultimately show ?thesis using decodeFields_items [of ?is] by simp
qed

definition shell_body :: "shell_args \<Rightarrow> bytes list" where
  "shell_body a = [encodeString 1 (sa_command a), encodeString 2 (sa_workingDir a), encodeUInt32Field 3 (int (sa_timeout a)),
     encodeBoolField 11 (sa_isBackground a), encodeUInt32Field 14 (int (sa_hardTimeout a))]"

lemma shell_decoded:
  assumes "list_all scalar (sa_command a)" and "list_all scalar (sa_workingDir a)" and "sa_timeout a < 2 ^ 53" and "sa_hardTimeout a < 2 ^ 53"
  shows "decodeShellArgs (concat (shell_body a)) = Inr a"
proof -
  have "decodeFields (concat (shell_body a)) = Inr [Bytes_field 1 (utf8_bytes (sa_command a)), Bytes_field 2 (utf8_bytes (sa_workingDir a)),
      Varint_field 3 (sa_timeout a), Varint_field 11 (if sa_isBackground a then 1 else 0), Varint_field 14 (sa_hardTimeout a)]"
    using decodeFields_items [of "[W_string 1 (sa_command a), W_string 2 (sa_workingDir a), W_uint 3 (int (sa_timeout a)),
      W_bool 11 (sa_isBackground a), W_uint 14 (int (sa_hardTimeout a))]"] by (simp add: tag_ok_def shell_body_def)
  then show ?thesis using assms
    by (simp add: decodeShellArgs_def decodeStringField_def findField_def utf8_roundtrip js_Number_exact)
qed

text \<open>
  A request of the server to run a tool is decoded to what was sent: for a declared tool its name,
  the id of the call and its arguments, without the entries whose key is empty or \<open>__proto__\<close>; for a
  shell the command, the directory, both timeouts and the switch; each with the id and the exec id of
  the envelope. A request of a kind that is not known gives no event and no error.
\<close>

theorem tool_request_decoded:
  assumes "i < 2 ^ 53" and "list_all scalar e" and "list_all scalar name" and "list_all scalar callId" and "json_ok (J_object args)"
    and "list_all scalar (sa_command a)" and "list_all scalar (sa_workingDir a)" and "sa_timeout a < 2 ^ 53" and "sa_hardTimeout a < 2 ^ 53"
    and "exec_decoder n = None" and "n \<noteq> ESM_EXEC_ID" and "tag_ok (int n)"
  shows "decodeExecServerEvent (exec_envelope i e ESM_MCP_ARGS (mcp_body name callId args))
      = Inr (Some (Exec_mcp i e name callId (map (\<lambda>(k, v). (k, clean v)) (filter (\<lambda>(k, v). k \<noteq> [] \<and> k \<noteq> text_of ''__proto__'') args))))
    \<and> decodeExecServerEvent (exec_envelope i e ESM_SHELL_ARGS (shell_body a)) = Inr (Some (Exec_shell_run Exec_shell i e a))
    \<and> decodeExecServerEvent (exec_envelope i e n body) = Inr None"
proof -
  have ok: "tag_ok (int ESM_MCP_ARGS)" "tag_ok (int ESM_SHELL_ARGS)" "ESM_MCP_ARGS \<noteq> ESM_EXEC_ID" "ESM_SHELL_ARGS \<noteq> ESM_EXEC_ID"
    by (simp_all add: wire_consts tag_ok_def)
  have d: "exec_decoder ESM_MCP_ARGS = Some decodeMcpExecEvent" "exec_decoder ESM_SHELL_ARGS = Some (createShellExecEvent Exec_shell)"
    by (simp_all add: exec_decoder_def wire_consts)
  let ?r = "map (\<lambda>(k, v). (k, clean v)) (filter (\<lambda>(k, v). k \<noteq> [] \<and> k \<noteq> text_of ''__proto__'') args)"
  have "\<forall>(k, v) \<in> set args. list_all scalar k \<and> decodeProtobufValue (encodeProtobufValue v) = Inr (clean v)"
    using assms(5) by (auto simp: list_all_iff intro!: value_roundtrips)
  from struct_entries [OF this, of "[]" 2]
  have s: "struct_fields 2 decodeProtobufValue (map (\<lambda>(k, v). Bytes_field 2 (encodeString (int MAP_KEY) k @ encodeMessage (int MAP_VALUE) [encodeProtobufValue v])) args) [] = Inr ?r"
    using assms(5) by simp
  have m: "decodeMcpExecEvent i e (concat (mcp_body name callId args)) = Inr (Exec_mcp i e name callId ?r)"
    unfolding decodeMcpExecEvent_def mcp_fields bindE.simps Let_def
    by (simp add: findLengthDelimitedField_def findField_def utf8_roundtrip assms(3,4) s)
  show ?thesis
    unfolding decodeExecServerEvent_def envelope_context [OF assms(1,2) ok(1,3)] envelope_context [OF assms(1,2) ok(2,4)]
      envelope_context [OF assms(1,2,12,11)]
    by (simp add: d m createShellExecEvent_def shell_decoded [OF assms(6-9)] assms(10))
qed

theorem tool_request_decoded_witness:
  "decodeExecServerEvent (exec_envelope 7 (text_of ''x'') ESM_MCP_ARGS (mcp_body (text_of ''search'') (text_of ''c1'') [(text_of ''q'', J_bool True), ([], J_null)]))
     = Inr (Some (Exec_mcp 7 (text_of ''x'') (text_of ''search'') (text_of ''c1'') [(text_of ''q'', J_bool True)]))
   \<and> decodeExecServerEvent (exec_envelope 7 (text_of ''x'') 24 []) = Inr None"
proof -
  have t: "text_of ''q'' \<noteq> []" "text_of ''q'' \<noteq> text_of ''__proto__''" by (simp_all add: text_of_def)
  show ?thesis
    using tool_request_decoded [of 7 "text_of ''x''" "text_of ''search''" "text_of ''c1''" "[(text_of ''q'', J_bool True), ([], J_null)]"
        "\<lparr>sa_command = text_of ''ls'', sa_workingDir = [], sa_timeout = 5, sa_isBackground = False, sa_hardTimeout = 9\<rparr>" 24 "[]"]
    by (simp add: text_of_scalar t exec_decoder_def wire_consts tag_ok_def)
qed

subsection \<open>The todo list, decoded\<close>

definition todo_body :: "utext \<Rightarrow> bool option \<Rightarrow> (utext \<times> nat) list \<Rightarrow> bytes" where
  "todo_body callId merge items =
     encodeString 1 callId
     @ encodeMessage 2 [encodeMessage 9 [encodeMessage 1
         (map (\<lambda>(c, st). encodeMessage 1 [encodeString 2 c, encodeUInt32Field 3 (int st)]) items
          @ (case merge of None \<Rightarrow> [] | Some b \<Rightarrow> [encodeBoolField 2 b]))]]"

lemma todo_items_decoded:
  assumes "\<forall>(c, st) \<in> set items. list_all scalar c" and "\<forall>f \<in> set fs. field_number f = 2"
  shows "todo_items (map (\<lambda>(c, st). Bytes_field 1 (encodeString 2 c @ encodeUInt32Field 3 (int st))) items @ fs)
    = Inr (if \<forall>(c, st) \<in> set items. c \<noteq> [] \<and> 1 \<le> st \<and> st \<le> 4
           then Some (map (\<lambda>(c, st). (c, the (decodeNativeTodoStatus st))) items) else None)"
  using assms(1)
proof (induction items)
  case Nil
  have "todo_items fs = Inr (Some [])" using assms(2) by (induction fs) simp_all
  then show ?case by simp
next
  case (Cons item items)
  obtain c st where it: "item = (c, st)" by (cases item)
  have f: "decodeFields (encodeString 2 c @ encodeUInt32Field 3 (int st)) = Inr [Bytes_field 2 (utf8_bytes c), Varint_field 3 st]"
    using decodeFields_items [of "[W_string 2 c, W_uint 3 (int st)]"] by (simp add: tag_ok_def)
  have c: "decodeNonEmptyUtf8 (utf8_bytes c) = (if c = [] then None else Some c)"
    using Cons.prems by (simp add: it decodeNonEmptyUtf8_def utf8_roundtrip)
  have s: "decodeNativeTodoStatus st = None \<longleftrightarrow> \<not> (1 \<le> st \<and> st \<le> 4)" by (auto simp: decodeNativeTodoStatus_def)
  have u: "uniqueLenField [Bytes_field 2 (utf8_bytes c), Varint_field 3 st] 2 = Some (utf8_bytes c)"
      "uniqueVarintField [Bytes_field 2 (utf8_bytes c), Varint_field 3 st] 3 = Some st"
    by (simp_all add: uniqueLenField_def uniqueVarintField_def)
  have h: "todo_items (Bytes_field 1 (encodeString 2 c @ encodeUInt32Field 3 (int st)) # rest)
      = (case (if c = [] then None else Some c, decodeNativeTodoStatus st) of
           (Some c, Some st) \<Rightarrow> bindE (todo_items rest) (\<lambda>r. Inr (map_option ((#) (c, st)) r)) | _ \<Rightarrow> Inr None)" for rest
    by (simp add: f u c)
  show ?case
  proof (cases "c \<noteq> [] \<and> 1 \<le> st \<and> st \<le> 4")
    case True
    then obtain x where "decodeNativeTodoStatus st = Some x" using s by auto
    then show ?thesis using Cons True unfolding it list.map prod.case append_Cons h by simp
  next
    case False
    then have "(if c = [] then None else Some c) = None \<or> decodeNativeTodoStatus st = None" using s by auto
    then have "todo_items (Bytes_field 1 (encodeString 2 c @ encodeUInt32Field 3 (int st)) # rest) = Inr None" for rest
      unfolding h by (auto split: option.split)
    then show ?thesis using False unfolding it list.map prod.case append_Cons by auto
  qed
qed

text \<open>
  A completed call of the native todo tool is decoded as a whole or not at all: with a call id and
  texts that are not empty and statuses from one to four the items come out in order with the switch,
  which is off when it is absent; a single item that is not so makes the whole list unreadable.
\<close>

theorem todo_all_or_nothing:
  assumes "list_all scalar callId" and "\<forall>(c, st) \<in> set items. list_all scalar c"
  shows "decodeNativeTodoWriteCompletion (todo_body callId merge items)
    = Inr (if callId \<noteq> [] \<and> (\<forall>(c, st) \<in> set items. c \<noteq> [] \<and> 1 \<le> st \<and> st \<le> 4)
           then Some (callId, merge = Some True, map (\<lambda>(c, st). (c, the (decodeNativeTodoStatus st))) items) else None)"
proof -
  let ?m = "case merge of None \<Rightarrow> [] | Some b \<Rightarrow> [Varint_field 2 (if b then 1 else 0)]"
  let ?fs = "map (\<lambda>(c, st). Bytes_field 1 (encodeString 2 c @ encodeUInt32Field 3 (int st))) items"
  define args where "args = map (\<lambda>(c, st). encodeMessage 1 [encodeString 2 c, encodeUInt32Field 3 (int st)]) items
          @ (case merge of None \<Rightarrow> [] | Some b \<Rightarrow> [encodeBoolField 2 b])"
  let ?is = "map (\<lambda>(c, st). W_message 1 [encodeString 2 c, encodeUInt32Field 3 (int st)]) items @ (case merge of None \<Rightarrow> [] | Some b \<Rightarrow> [W_bool 2 b])"
  have a: "decodeFields (concat args) = Inr (?fs @ ?m)"
  proof -
    have "concat (map item_fields (map (\<lambda>(c, st). W_message 1 [encodeString 2 c, encodeUInt32Field 3 (int st)]) items)) = ?fs"
      by (induction items) auto
    then have "concat (map item_fields ?is) = ?fs @ ?m" by (cases merge) simp_all
    moreover have "map item_bytes ?is = args" by (auto simp: args_def split: option.split)
    moreover have "list_all item_ok ?is" by (auto simp: list_all_iff tag_ok_def split: option.split)
    ultimately show ?thesis using decodeFields_items [of ?is] by simp
  qed
  have p: "decodeFields (todo_body callId merge items)
      = Inr [Bytes_field 1 (utf8_bytes callId), Bytes_field 2 (encodeMessage 9 [encodeMessage 1 args])]"
    using decodeFields_items [of "[W_string 1 callId, W_message 2 [encodeMessage 9 [encodeMessage 1 args]]]"]
    by (simp add: tag_ok_def todo_body_def args_def)
  have u: "uniqueLenField [Bytes_field 1 x, Bytes_field 2 y] 1 = Some x" "uniqueLenField [Bytes_field 1 x, Bytes_field 2 y] 2 = Some y"
    "uniqueLenField [Bytes_field 9 x] 9 = Some x" "uniqueLenField [Bytes_field 1 x] 1 = Some x" for x y
    by (simp_all add: uniqueLenField_def)
  have m: "todo_merge (?fs @ ?m) = Some (merge = Some True)"
  proof -
    have "filter (\<lambda>f. field_number f = 2) ?fs = []" by (auto simp: filter_empty_conv)
    then show ?thesis by (cases merge) (simp_all add: todo_merge_def uniqueVarintField_def)
  qed
  have i: "decodeNonEmptyUtf8 (utf8_bytes callId) = (if callId = [] then None else Some callId)"
    using assms(1) by (simp add: decodeNonEmptyUtf8_def utf8_roundtrip)
  have t: "todo_items (?fs @ ?m) = Inr (if \<forall>(c, st) \<in> set items. c \<noteq> [] \<and> 1 \<le> st \<and> st \<le> 4
           then Some (map (\<lambda>(c, st). (c, the (decodeNativeTodoStatus st))) items) else None)"
    by (rule todo_items_decoded [OF assms(2)]) (cases merge; simp)
  have w: "decodeFields (encodeMessage 9 ps) = Inr [Bytes_field 9 (concat ps)]" "decodeFields (encodeMessage 1 ps) = Inr [Bytes_field 1 (concat ps)]" for ps
    by (simp_all add: one_message tag_ok_def)
  define A where "A = ?fs @ ?m"
  note amt = a [folded A_def] m [folded A_def] t [folded A_def]
  show ?thesis
    unfolding decodeNativeTodoWriteCompletion_def p bindE.simps u prod.case option.case i
    by (simp add: w u u [unfolded One_nat_def] amt)
qed

theorem todo_all_or_nothing_witness:
  "decodeNativeTodoWriteCompletion (todo_body (text_of ''t1'') None [(text_of ''read'', 3), (text_of ''write'', 1)])
     = Inr (Some (text_of ''t1'', False, [(text_of ''read'', Completed), (text_of ''write'', Pending)]))
   \<and> decodeNativeTodoWriteCompletion (todo_body (text_of ''t1'') None [(text_of ''read'', 3), (text_of ''write'', 9)]) = Inr None"
proof -
  have s: "list_all scalar (text_of ''t1'')" "list_all scalar (text_of ''read'')" "list_all scalar (text_of ''write'')"
    by (simp_all add: text_of_scalar)
  have n: "text_of ''t1'' \<noteq> []" "text_of ''read'' \<noteq> []" "text_of ''write'' \<noteq> []" by (simp_all add: text_of_def)
  show ?thesis
    using todo_all_or_nothing [of "text_of ''t1''" "[(text_of ''read'', 3), (text_of ''write'', 1)]" None]
      todo_all_or_nothing [of "text_of ''t1''" "[(text_of ''read'', 3), (text_of ''write'', 9)]" None]
    by (simp add: s n decodeNativeTodoStatus_def)
qed

end
