(* ===== verification/CursorModels.thy ===== *)
theory CursorModels
  imports Prelude
begin

text \<open>
  How a model id becomes the id and the parameters Cursor expects: \<open>resolveRequestedModel\<close> of
  \<^verbatim>\<open>src/open-sse/utils/cursorAgentProtobuf.ts\<close> and the variants with a context of one million tokens in
  \<^verbatim>\<open>src/open-sse/utils/cursorAgentProtobuf/requestedModelParameters.ts\<close>. Ids are ASCII.
\<close>

record requested_model =
  rm_modelId :: string
  rm_parameters :: "(string \<times> string) list"

subsection \<open>Aliases\<close>

definition CURSOR_MODEL_ALIASES :: "(string \<times> string) list" where
  "CURSOR_MODEL_ALIASES =
     [('''', ''composer-2.5''), (''composer-2-5'', ''composer-2.5''), (''composer-2.5-sdk'', ''composer-2.5''),
      (''composer-latest'', ''composer-2.5''), (''composer-2-5-fast'', ''composer-2.5-fast''),
      (''composer-2.5-sdk-fast'', ''composer-2.5-fast''), (''composer-latest-fast'', ''composer-2.5-fast''),
      (''grok-4.5-medium'', ''cursor-grok-4.5-medium''), (''grok-4.5-fast-medium'', ''cursor-grok-4.5-medium-fast''),
      (''grok-4.5-high'', ''cursor-grok-4.5-high''), (''grok-4.5-fast-high'', ''cursor-grok-4.5-high-fast''),
      (''grok-4.5-xhigh'', ''cursor-grok-4.5-xhigh''), (''grok-4.5-fast-xhigh'', ''cursor-grok-4.5-xhigh-fast'')]"

text \<open>
  The aliases are a plain object: for the two names in lower case that every object inherits the lookup
  gives something that is no string, and the next method called on it throws.
\<close>

datatype model_error = Not_a_function

definition inherited_names :: "string list" where
  "inherited_names = [''constructor'', ''__proto__'']"

definition normalizeCursorModelId :: "string \<Rightarrow> model_error + string" where
  "normalizeCursorModelId modelId =
     (let i = js_trim modelId in
      if js_lower i \<in> set inherited_names then Inl Not_a_function
      else Inr (nullish (map_of CURSOR_MODEL_ALIASES (js_lower i)) i))"

subsection \<open>Effort suffixes\<close>

definition CURSOR_EFFORT_SUFFIXES :: "string list" where
  "CURSOR_EFFORT_SUFFIXES = [''low'', ''medium'', ''high'', ''xhigh'', ''max'']"

fun split_suffix :: "string \<Rightarrow> nat \<Rightarrow> string \<Rightarrow> string list \<Rightarrow> requested_model option" where
  "split_suffix s plen paramId [] = None"
| "split_suffix s plen paramId (suf # sufs) =
     (let marker = CHR ''-'' # suf in
      if ends_with s marker \<and> plen + length marker < length s
      then Some \<lparr>rm_modelId = slice_off (length marker) s, rm_parameters = [(paramId, suf)]\<rparr>
      else split_suffix s plen paramId sufs)"

definition splitCursorEffortSuffix :: "string \<Rightarrow> string \<Rightarrow> string \<Rightarrow> requested_model option" where
  "splitCursorEffortSuffix s pre paramId =
     (if starts_with s pre then split_suffix s (length pre) paramId CURSOR_EFFORT_SUFFIXES else None)"

definition resolveGrokRequestedModel :: "string \<Rightarrow> requested_model option" where
  "resolveGrokRequestedModel s =
     (case (if starts_with s ''cursor-grok-'' then Some ''cursor-grok-'' else if starts_with s ''grok-'' then Some ''grok-'' else None) of
        None \<Rightarrow> None
      | Some pre \<Rightarrow>
          let fast = (ends_with s ''-fast'' \<and> length pre + 5 < length s);
              i = (if fast then slice_off 5 s else s);
              extraParams = (if fast then [(''fast'', ''true'')] else [])
          in (case splitCursorEffortSuffix i pre ''effort'' of
                Some m \<Rightarrow> Some \<lparr>rm_modelId = rm_modelId m, rm_parameters = rm_parameters m @ extraParams\<rparr>
              | None \<Rightarrow> if extraParams \<noteq> [] then Some \<lparr>rm_modelId = i, rm_parameters = extraParams\<rparr> else None))"

subsection \<open>One million tokens of context\<close>

record one_million_family =
  fm_legacyPrefix :: string
  fm_modelId :: string
  fm_supportsFast :: bool
  fm_trailingThinking :: bool

definition CURSOR_CLAUDE_ONE_MILLION_FAMILIES :: "one_million_family list" where
  "CURSOR_CLAUDE_ONE_MILLION_FAMILIES =
     [\<lparr>fm_legacyPrefix = ''claude-fable-5-1'', fm_modelId = ''claude-fable-5-1'', fm_supportsFast = False, fm_trailingThinking = False\<rparr>,
      \<lparr>fm_legacyPrefix = ''claude-opus-5'', fm_modelId = ''claude-opus-5'', fm_supportsFast = True, fm_trailingThinking = False\<rparr>,
      \<lparr>fm_legacyPrefix = ''claude-opus-4-8'', fm_modelId = ''claude-opus-4-8'', fm_supportsFast = True, fm_trailingThinking = False\<rparr>,
      \<lparr>fm_legacyPrefix = ''claude-sonnet-5'', fm_modelId = ''claude-sonnet-5'', fm_supportsFast = False, fm_trailingThinking = False\<rparr>,
      \<lparr>fm_legacyPrefix = ''claude-4.6-sonnet'', fm_modelId = ''claude-sonnet-4-6'', fm_supportsFast = False, fm_trailingThinking = True\<rparr>]"

definition bool_text :: "bool \<Rightarrow> string" where
  "bool_text b = (if b then ''true'' else ''false'')"

text \<open>The regular expression: one of three models, a hyphen and one of six levels.\<close>

definition gpt_variants :: "(string \<times> string \<times> string) list" where
  "gpt_variants = [(m @ ''-'' @ l, m, l). m \<leftarrow> [''gpt-5.6-sol'', ''gpt-5.6-terra'', ''gpt-5.6-luna''], l \<leftarrow> ''none'' # CURSOR_EFFORT_SUFFIXES]"

definition resolveGptOneMillionContextModel :: "string \<Rightarrow> requested_model option" where
  "resolveGptOneMillionContextModel legacyId =
     (case map_of gpt_variants legacyId of
        None \<Rightarrow> None
      | Some (m, l) \<Rightarrow> Some \<lparr>rm_modelId = m, rm_parameters = [(''context'', ''1m''), (''reasoning'', l), (''fast'', ''false'')]\<rparr>)"

definition resolveClaudeOneMillionVariant :: "string \<Rightarrow> one_million_family \<Rightarrow> requested_model option" where
  "resolveClaudeOneMillionVariant legacyId family =
     (let pre = fm_legacyPrefix family @ ''-'' in
      if \<not> starts_with legacyId pre then None
      else
        let v0 = drop (length pre) legacyId;
            fast = ends_with v0 ''-fast'';
            v1 = (if fast then slice_off 5 v0 else v0)
        in if fast \<and> \<not> fm_supportsFast family then None
           else
             let trailing = (fm_trailingThinking family \<and> ends_with v1 ''-thinking'');
                 leading = (\<not> fm_trailingThinking family \<and> starts_with v1 ''thinking-'');
                 v2 = (if trailing then slice_off 9 v1 else v1);
                 v3 = (if leading then drop 9 v2 else v2)
             in if v3 \<notin> set CURSOR_EFFORT_SUFFIXES then None
                else Some \<lparr>rm_modelId = fm_modelId family,
                       rm_parameters = [(''thinking'', bool_text (trailing \<or> leading)), (''context'', ''1m''), (''effort'', v3)]
                         @ (if fm_supportsFast family then [(''fast'', bool_text fast)] else [])\<rparr>)"

fun resolve_families :: "string \<Rightarrow> one_million_family list \<Rightarrow> requested_model option" where
  "resolve_families legacyId [] = None"
| "resolve_families legacyId (f # fs) =
     (case resolveClaudeOneMillionVariant legacyId f of Some m \<Rightarrow> Some m | None \<Rightarrow> resolve_families legacyId fs)"

definition resolveClaudeOneMillionContextModel :: "string \<Rightarrow> requested_model option" where
  "resolveClaudeOneMillionContextModel legacyId = resolve_families legacyId CURSOR_CLAUDE_ONE_MILLION_FAMILIES"

definition resolveOneMillionContextModel :: "string \<Rightarrow> requested_model option" where
  "resolveOneMillionContextModel s =
     (if \<not> ends_with s ''-1m'' then None
      else let legacyId = slice_off 3 s in
           case resolveGptOneMillionContextModel legacyId of
             Some m \<Rightarrow> Some m
           | None \<Rightarrow> resolveClaudeOneMillionContextModel legacyId)"

subsection \<open>Resolution\<close>

definition CURSOR_ROUTING_LEVELS :: "string list" where
  "CURSOR_ROUTING_LEVELS = [''cost'', ''balance'', ''intelligence'']"

definition plain_model :: "string \<Rightarrow> requested_model" where
  "plain_model s = \<lparr>rm_modelId = s, rm_parameters = []\<rparr>"

definition resolve_normalized :: "string \<Rightarrow> string list option \<Rightarrow> requested_model" where
  "resolve_normalized s liveCatalogIds =
     (if s = ''auto'' then plain_model ''default''
      else case List.find (\<lambda>l. s = ''auto-'' @ l) CURSOR_ROUTING_LEVELS of
        Some l \<Rightarrow> \<lparr>rm_modelId = ''default'', rm_parameters = [(''optimization'', l)]\<rparr>
      | None \<Rightarrow>
      (case resolveOneMillionContextModel s of Some m \<Rightarrow> m | None \<Rightarrow>
       if s \<in> set (nullish liveCatalogIds []) then plain_model s
       else if starts_with s ''composer-'' \<and> ends_with s ''-fast'' then \<lparr>rm_modelId = slice_off 5 s, rm_parameters = [(''fast'', ''true'')]\<rparr>
       else case resolveGrokRequestedModel s of Some m \<Rightarrow> m | None \<Rightarrow>
         (case splitCursorEffortSuffix s ''claude-'' ''effort'' of Some m \<Rightarrow> m | None \<Rightarrow>
           (case splitCursorEffortSuffix s ''gpt-'' ''reasoning'' of Some m \<Rightarrow> m | None \<Rightarrow> plain_model s))))"

definition resolveRequestedModel :: "string \<Rightarrow> string list option \<Rightarrow> model_error + requested_model" where
  "resolveRequestedModel modelId liveCatalogIds =
     bindE (normalizeCursorModelId modelId) (\<lambda>s. Inr (resolve_normalized s liveCatalogIds))"

subsection \<open>Properties\<close>

text \<open>What a parameter stood for in the id.\<close>

definition param_suffix :: "string \<times> string \<Rightarrow> string" where
  "param_suffix p = CHR ''-'' # (if fst p = ''fast'' then ''fast'' else snd p)"

definition spelled :: "requested_model \<Rightarrow> string" where
  "spelled m = rm_modelId m @ concat (map param_suffix (rm_parameters m))"

lemma split_suffix_spelled:
  "split_suffix s n p sufs = Some m \<Longrightarrow> p \<noteq> ''fast'' \<Longrightarrow> spelled m = s"
proof (induction sufs)
  case (Cons suf sufs)
  show ?case
  proof (cases "ends_with s (CHR ''-'' # suf) \<and> n + length (CHR ''-'' # suf) < length s")
    case True
    then have m: "m = \<lparr>rm_modelId = slice_off (length (CHR ''-'' # suf)) s, rm_parameters = [(p, suf)]\<rparr>"
      using Cons.prems(1) by (simp add: Let_def)
    show ?thesis using slice_end [of s "CHR ''-'' # suf"] True Cons.prems(2) unfolding m
      by (simp add: spelled_def param_suffix_def slice_off_def)
  next
    case False
    then have "split_suffix s n p sufs = Some m" using Cons.prems(1) by (auto simp: Let_def split: if_splits)
    then show ?thesis using Cons.IH Cons.prems(2) by simp
  qed
qed simp

lemma effort_spelled: "splitCursorEffortSuffix s pre p = Some m \<Longrightarrow> p \<noteq> ''fast'' \<Longrightarrow> spelled m = s"
  using split_suffix_spelled by (auto simp: splitCursorEffortSuffix_def split: if_splits)

lemma slice_fast: "ends_with s ''-fast'' \<Longrightarrow> slice_off 5 s @ ''-fast'' = s"
  using slice_end [of s "''-fast''"] by (simp add: eval_nat_numeral)

lemma grok_spelled: "resolveGrokRequestedModel s = Some m \<Longrightarrow> spelled m = s"
proof -
  assume r: "resolveGrokRequestedModel s = Some m"
  then obtain pre where pre: "(if starts_with s ''cursor-grok-'' then Some ''cursor-grok-'' else if starts_with s ''grok-'' then Some ''grok-'' else None) = Some pre"
    by (auto simp: resolveGrokRequestedModel_def split: option.splits)
  define fast where "fast \<longleftrightarrow> ends_with s ''-fast'' \<and> length pre + 5 < length s"
  define i where "i = (if fast then slice_off 5 s else s)"
  have s: "i @ (if fast then ''-fast'' else []) = s"
    using slice_fast [of s] by (simp add: i_def fast_def)
  have m: "(case splitCursorEffortSuffix i pre ''effort'' of
                Some m \<Rightarrow> Some \<lparr>rm_modelId = rm_modelId m, rm_parameters = rm_parameters m @ (if fast then [(''fast'', ''true'')] else [])\<rparr>
              | None \<Rightarrow> if fast then Some \<lparr>rm_modelId = i, rm_parameters = [(''fast'', ''true'')]\<rparr> else None) = Some m"
    using r unfolding resolveGrokRequestedModel_def pre option.case Let_def fast_def [symmetric] i_def [symmetric]
    by (auto split: option.splits if_splits)
  show ?thesis
  proof (cases "splitCursorEffortSuffix i pre ''effort''")
    case None
    then show ?thesis using m s by (auto simp: spelled_def param_suffix_def split: if_splits)
  next
    case (Some m1)
    then have "spelled m1 = i" by (rule effort_spelled) simp
    then show ?thesis using m s Some by (auto simp: spelled_def param_suffix_def split: if_splits)
  qed
qed

lemma resolved_spelled:
  assumes "s \<noteq> ''auto''" and "\<forall>l \<in> set CURSOR_ROUTING_LEVELS. s \<noteq> ''auto-'' @ l" and "resolveOneMillionContextModel s = None"
  shows "spelled (resolve_normalized s live) = s"
proof -
  have f: "List.find (\<lambda>l. s = ''auto-'' @ l) CURSOR_ROUTING_LEVELS = None" using assms(2) by (auto simp: find_None_iff)
  have p: "spelled (plain_model s) = s" by (simp add: spelled_def plain_model_def)
  have c: "spelled \<lparr>rm_modelId = slice_off 5 s, rm_parameters = [(''fast'', ''true'')]\<rparr> = s" if "ends_with s ''-fast''"
    using slice_fast [OF that] by (simp add: spelled_def param_suffix_def)
  show ?thesis
    unfolding resolve_normalized_def f assms(3) option.case if_not_P [OF assms(1)]
    using p c grok_spelled effort_spelled [of s "''claude-''" "''effort''"] effort_spelled [of s "''gpt-''" "''reasoning''"]
    by (auto split: option.splits)
qed

text \<open>
  Resolving a model id loses nothing and invents nothing: apart from the automatic ids and the
  variants with one million tokens, the id that is sent with its parameters written behind it, each as
  a hyphen and its value, is the normalized id. An id of the live catalog is sent as it is.
\<close>

theorem resolution_lossless:
  assumes "normalizeCursorModelId modelId = Inr s" and "s \<noteq> ''auto''" and "\<forall>l \<in> set CURSOR_ROUTING_LEVELS. s \<noteq> ''auto-'' @ l"
    and "resolveOneMillionContextModel s = None"
  shows "\<exists>m. resolveRequestedModel modelId live = Inr m \<and> spelled m = s
    \<and> (s \<in> set (nullish live []) \<longrightarrow> m = plain_model s)"
proof -
  have f: "List.find (\<lambda>l. s = ''auto-'' @ l) CURSOR_ROUTING_LEVELS = None" using assms(3) by (auto simp: find_None_iff)
  have "resolve_normalized s live = plain_model s" if "s \<in> set (nullish live [])"
    unfolding resolve_normalized_def f assms(4) option.case if_not_P [OF assms(2)] by (simp add: that)
  then show ?thesis using resolved_spelled [OF assms(2-4), of live] assms(1) by (simp add: resolveRequestedModel_def)
qed

theorem resolution_lossless_witness:
  "resolveRequestedModel '' grok-4.5-fast-high'' None
     = Inr \<lparr>rm_modelId = ''cursor-grok-4.5'', rm_parameters = [(''effort'', ''high''), (''fast'', ''true'')]\<rparr>
   \<and> (\<exists>m. resolveRequestedModel '' grok-4.5-fast-high'' None = Inr m \<and> spelled m = ''cursor-grok-4.5-high-fast'')"
proof -
  have n: "normalizeCursorModelId '' grok-4.5-fast-high'' = Inr ''cursor-grok-4.5-high-fast''" by code_simp
  have "resolveOneMillionContextModel ''cursor-grok-4.5-high-fast'' = None" by (simp add: resolveOneMillionContextModel_def ends_with_def)
  moreover have "\<forall>l \<in> set CURSOR_ROUTING_LEVELS. ''cursor-grok-4.5-high-fast'' \<noteq> ''auto-'' @ l" by (simp add: CURSOR_ROUTING_LEVELS_def)
  moreover have "resolveRequestedModel '' grok-4.5-fast-high'' None
     = Inr \<lparr>rm_modelId = ''cursor-grok-4.5'', rm_parameters = [(''effort'', ''high''), (''fast'', ''true'')]\<rparr>" by code_simp
  ultimately show ?thesis using resolution_lossless [OF n, of None] by auto
qed

end
