(* ===== verification/CursorReplies.thy ===== *)
theory CursorReplies
  imports CursorEvents CursorModels
begin

text \<open>
  What OmniRoute sends to Cursor, in \<^verbatim>\<open>src/open-sse/utils/cursorAgentProtobuf.ts\<close> and
  \<^verbatim>\<open>src/open-sse/utils/cursorAgentProtobuf/imageEncoding.ts\<close>: replies to requests for tools, context and
  blobs, the definitions of tools, and the request that starts a turn. Replies are never compressed.
  Parameters: the hash of blobs, the JSON text of the system prompt and the random ids.
\<close>

definition ACM_RUN_REQUEST :: int where [wire_consts]: "ACM_RUN_REQUEST = 1"
definition ACM_EXEC_CLIENT_MESSAGE :: int where [wire_consts]: "ACM_EXEC_CLIENT_MESSAGE = 2"
definition ACM_KV_CLIENT_MESSAGE :: int where [wire_consts]: "ACM_KV_CLIENT_MESSAGE = 3"
definition RES_REJECTED :: int where [wire_consts]: "RES_REJECTED = 2"

abbreviation wrap_plain :: "bytes \<Rightarrow> frame_error + bytes" where
  "wrap_plain payload \<equiv> wrapConnectFrame id payload False"

subsection \<open>Replies to requests for tools\<close>

definition wrapExecClientMessage :: "nat \<Rightarrow> utext \<Rightarrow> int \<Rightarrow> bytes \<Rightarrow> frame_error + bytes" where
  "wrapExecClientMessage execMsgId execId resultField resultPayload =
     wrap_plain (encodeMessage ACM_EXEC_CLIENT_MESSAGE
       [encodeUInt32Field 1 (int execMsgId), encodeString 15 execId, encodeMessage resultField [resultPayload]])"

definition encodePathRejection :: "utext \<Rightarrow> utext \<Rightarrow> bytes" where
  "encodePathRejection path reason = encodeString 1 path @ encodeString 2 reason"

definition encodeShellRejection :: "utext \<Rightarrow> utext \<Rightarrow> utext \<Rightarrow> bytes" where
  "encodeShellRejection command workingDir reason = encodeString 1 command @ encodeString 2 workingDir @ encodeString 3 reason"

definition encodeExecReadRejected :: "nat \<Rightarrow> utext \<Rightarrow> utext \<Rightarrow> utext \<Rightarrow> frame_error + bytes" where
  "encodeExecReadRejected i e path reason =
     wrapExecClientMessage i e 7 (encodeMessage RES_REJECTED [encodePathRejection path reason])"

definition encodeExecWriteRejected :: "nat \<Rightarrow> utext \<Rightarrow> utext \<Rightarrow> utext \<Rightarrow> frame_error + bytes" where
  "encodeExecWriteRejected i e path reason =
     wrapExecClientMessage i e 3 (encodeMessage RES_REJECTED [encodePathRejection path reason])"

definition encodeExecDeleteRejected :: "nat \<Rightarrow> utext \<Rightarrow> utext \<Rightarrow> utext \<Rightarrow> frame_error + bytes" where
  "encodeExecDeleteRejected i e path reason =
     wrapExecClientMessage i e 4 (encodeMessage RES_REJECTED [encodePathRejection path reason])"

definition encodeExecLsRejected :: "nat \<Rightarrow> utext \<Rightarrow> utext \<Rightarrow> utext \<Rightarrow> frame_error + bytes" where
  "encodeExecLsRejected i e path reason =
     wrapExecClientMessage i e 8 (encodeMessage RES_REJECTED [encodePathRejection path reason])"

definition encodeExecShellRejected :: "nat \<Rightarrow> utext \<Rightarrow> utext \<Rightarrow> utext \<Rightarrow> utext \<Rightarrow> frame_error + bytes" where
  "encodeExecShellRejected i e command workingDir reason =
     wrapExecClientMessage i e 2 (encodeMessage RES_REJECTED [encodeShellRejection command workingDir reason])"

definition encodeExecBackgroundShellSpawnRejected :: "nat \<Rightarrow> utext \<Rightarrow> utext \<Rightarrow> utext \<Rightarrow> utext \<Rightarrow> frame_error + bytes" where
  "encodeExecBackgroundShellSpawnRejected i e command workingDir reason =
     wrapExecClientMessage i e 16 (encodeMessage RES_REJECTED [encodeShellRejection command workingDir reason])"

definition encodeExecGrepError :: "nat \<Rightarrow> utext \<Rightarrow> utext \<Rightarrow> frame_error + bytes" where
  "encodeExecGrepError i e errMsg = wrapExecClientMessage i e 5 (encodeMessage RES_REJECTED [encodeString 1 errMsg])"

definition encodeExecFetchError :: "nat \<Rightarrow> utext \<Rightarrow> utext \<Rightarrow> utext \<Rightarrow> frame_error + bytes" where
  "encodeExecFetchError i e url errMsg =
     wrapExecClientMessage i e 20 (encodeMessage RES_REJECTED [encodeString 1 url @ encodeString 2 errMsg])"

definition encodeExecWriteShellStdinError :: "nat \<Rightarrow> utext \<Rightarrow> utext \<Rightarrow> frame_error + bytes" where
  "encodeExecWriteShellStdinError i e errMsg = wrapExecClientMessage i e 23 (encodeMessage RES_REJECTED [encodeString 1 errMsg])"

definition encodeExecDiagnosticsResult :: "nat \<Rightarrow> utext \<Rightarrow> frame_error + bytes" where
  "encodeExecDiagnosticsResult i e = wrapExecClientMessage i e 9 []"

definition encodeExecMcpResult :: "nat \<Rightarrow> utext \<Rightarrow> utext \<Rightarrow> bool \<Rightarrow> frame_error + bytes" where
  "encodeExecMcpResult i e content isError =
     (let textContent = encodeMessage 1 [encodeString 1 content];
          successFields = [encodeMessage 1 [textContent]] @ (if isError then [encodeBoolField 2 True] else [])
      in wrapExecClientMessage i e 11 (encodeMessage 1 successFields))"

definition encodeExecMcpError :: "nat \<Rightarrow> utext \<Rightarrow> utext \<Rightarrow> frame_error + bytes" where
  "encodeExecMcpError i e errMsg = wrapExecClientMessage i e 11 (encodeMessage 2 [encodeString 1 errMsg])"

subsection \<open>Replies to requests for blobs\<close>

definition kv_parts :: "nat \<Rightarrow> bytes \<Rightarrow> bytes option \<Rightarrow> bytes list" where
  "kv_parts kvId result requestMetadata =
     (if kvId \<noteq> 0 then [encodeUInt32Field 1 (int kvId)] else []) @ [result]
     @ (case requestMetadata of Some m \<Rightarrow> if m \<noteq> [] then [encodeBytes 4 m] else [] | None \<Rightarrow> [])"

definition encodeKvGetBlobResult :: "nat \<Rightarrow> bytes \<Rightarrow> bytes option \<Rightarrow> frame_error + bytes" where
  "encodeKvGetBlobResult kvId blobData requestMetadata =
     wrap_plain (encodeMessage ACM_KV_CLIENT_MESSAGE (kv_parts kvId (encodeMessage 2 [encodeBytes 1 blobData]) requestMetadata))"

definition encodeKvSetBlobResult :: "nat \<Rightarrow> bytes option \<Rightarrow> frame_error + bytes" where
  "encodeKvSetBlobResult kvId requestMetadata =
     wrap_plain (encodeMessage ACM_KV_CLIENT_MESSAGE (kv_parts kvId (encodeMessage 3 []) requestMetadata))"

subsection \<open>Tools\<close>

record mcp_tool =
  mt_name :: utext
  mt_description :: utext
  mt_inputSchemaBytes :: bytes
  mt_providerIdentifier :: "utext option"
  mt_toolName :: "utext option"

definition given_text :: "int \<Rightarrow> utext option \<Rightarrow> bytes" where
  "given_text n t = (case t of Some s \<Rightarrow> if s \<noteq> [] then encodeString n s else [] | None \<Rightarrow> [])"

definition encodeMcpToolDefinitionBody :: "mcp_tool \<Rightarrow> bytes" where
  "encodeMcpToolDefinitionBody d =
     encodeString 1 (mt_name d) @ encodeString 2 (mt_description d) @ encodeBytes 3 (mt_inputSchemaBytes d)
     @ given_text 4 (mt_providerIdentifier d) @ given_text 5 (mt_toolName d)"

text \<open>A tool as a client declares it: name, description and parameters.\<close>

record openai_tool =
  ot_name :: utext
  ot_description :: "utext option"
  ot_parameters :: "json option"

definition openAIToolsToMcpDefs :: "openai_tool list \<Rightarrow> mcp_tool list" where
  "openAIToolsToMcpDefs tools = map (\<lambda>t.
     \<lparr>mt_name = ot_name t, mt_description = nullish (ot_description t) [],
      mt_inputSchemaBytes = jsonSchemaToProtobufValue (case ot_parameters t of
          None \<Rightarrow> J_object [(text_of ''type'', J_string (text_of ''object'')), (text_of ''properties'', J_object [])]
        | Some J_null \<Rightarrow> J_object [(text_of ''type'', J_string (text_of ''object'')), (text_of ''properties'', J_object [])]
        | Some p \<Rightarrow> p),
      mt_providerIdentifier = Some (text_of ''omniroute''), mt_toolName = Some (ot_name t)\<rparr>) tools"

definition encodeRequestContextResponse :: "nat \<Rightarrow> utext \<Rightarrow> mcp_tool list \<Rightarrow> frame_error + bytes" where
  "encodeRequestContextResponse i execId tools =
     (let rcParts = map (\<lambda>t. encodeMessage 2 [encodeMcpToolDefinitionBody t]) tools;
          success = encodeMessage 1 [encodeMessage 1 rcParts]
      in wrap_plain (encodeMessage ACM_EXEC_CLIENT_MESSAGE
           [encodeUInt32Field 1 (int i), encodeString 15 execId, encodeMessage 10 [success]]))"

subsection \<open>Images\<close>

type_synonym blob_store = "(bytes, bytes) js_map"

record encoded_image =
  im_data :: bytes
  im_mimeType :: "string option"
  im_width :: js_value
  im_height :: js_value
  im_uuid :: utext

definition cursorImageAttachmentPath :: "utext \<Rightarrow> string option \<Rightarrow> utext" where
  "cursorImageAttachmentPath uuid mimeType =
     (let normalized = js_lower (nullish mimeType []);
          ext = (if normalized = ''image/jpeg'' \<or> normalized = ''image/jpg'' then ''jpg''
                 else if normalized = ''image/gif'' then ''gif''
                 else if normalized = ''image/webp'' then ''webp'' else ''png'')
      in text_of ''attachment-'' @ uuid @ text_of ''.'' @ text_of ext)"

fun positive_number :: "js_value \<Rightarrow> int option" where
  "positive_number (Number r) = (if 0 < r then Some \<lfloor>r\<rfloor> else None)"
| "positive_number _ = None"

text \<open>The key of a blob is its hash (the code writes it in hexadecimal).\<close>

definition encodeSelectedImageBody :: "(bytes \<Rightarrow> bytes) \<Rightarrow> encoded_image \<Rightarrow> blob_store option \<Rightarrow> bytes \<times> blob_store option" where
  "encodeSelectedImageBody sha256 img store =
     (let blobId = sha256 (im_data img);
          dimension = (case (positive_number (im_width img), positive_number (im_height img)) of
              (Some w, Some h) \<Rightarrow> encodeMessage 4 [encodeUInt32Field 1 w, encodeUInt32Field 2 h]
            | _ \<Rightarrow> []);
          mime = (case im_mimeType img of Some m \<Rightarrow> if m \<noteq> [] then encodeString 7 (text_of m) else [] | None \<Rightarrow> [])
      in (encodeString 2 (im_uuid img) @ encodeString 3 (cursorImageAttachmentPath (im_uuid img) (im_mimeType img))
            @ dimension @ mime @ encodeMessage 9 [encodeBytes 1 blobId, encodeBytes 2 (im_data img)],
          map_option (map_set blobId (im_data img)) store))"

subsection \<open>The request that starts a turn\<close>

record run_input =
  ri_modelId :: string
  ri_liveCatalogIds :: "string list option"
  ri_userText :: utext
  ri_conversationId :: utext
  ri_messageId :: utext
  ri_tools :: "openai_tool list"
  ri_systemPrompt :: "utext option"
  ri_images :: "encoded_image list"

fun encode_images :: "(bytes \<Rightarrow> bytes) \<Rightarrow> encoded_image list \<Rightarrow> blob_store option \<Rightarrow> bytes list \<times> blob_store option" where
  "encode_images sha256 [] store = ([], store)"
| "encode_images sha256 (img # imgs) store =
     (let (body, store1) = encodeSelectedImageBody sha256 img store; (bodies, store2) = encode_images sha256 imgs store1
      in (encodeMessage 1 [body] # bodies, store2))"

text \<open>
  The ids of the conversation and of the message are given. The system prompt goes to the blob store
  under its hash, and only when there is a store. The resolution of the model id comes first and can throw.
\<close>

definition encode_run :: "(bytes \<Rightarrow> bytes) \<Rightarrow> (utext \<Rightarrow> utext) \<Rightarrow> run_input \<Rightarrow> requested_model \<Rightarrow> blob_store option \<Rightarrow> bytes \<times> blob_store option" where
  "encode_run sha256 system_json inp m store0 =
     (let modelId = text_of (rm_modelId m);
          (imageParts, store1) = encode_images sha256 (ri_images inp) store0;
          userMessage = encodeMessage 1 [encodeString 1 (ri_userText inp), encodeString 2 (ri_messageId inp),
            encodeMessage 3 imageParts, encodeTag 4 WT_VARINT @ encodeVarint 1];
          action = encodeMessage 2 [encodeMessage 1 [userMessage]];
          (cssParts, store2) = (case (ri_systemPrompt inp, store1) of
              (Some prompt, Some store) \<Rightarrow>
                if prompt = [] then ([], store1)
                else let blobBytes = utf8_bytes (system_json prompt); blobId = sha256 blobBytes
                     in ([encodeBytes 1 blobId], Some (map_set blobId blobBytes store))
            | _ \<Rightarrow> ([], store1));
          conversationState = encodeMessage 1 cssParts;
          requestedModel = encodeMessage 9 (encodeString 1 modelId
            # map (\<lambda>(k, v). encodeMessage 3 [encodeString 1 (text_of k), encodeString 2 (text_of v)]) (rm_parameters m));
          modelDetails = encodeMessage 3 [encodeString 1 modelId, encodeString 3 modelId, encodeString 4 modelId];
          mcpToolsBlock = encodeMessage 4 (map (\<lambda>d. encodeMessage 1 [encodeMcpToolDefinitionBody d]) (openAIToolsToMcpDefs (ri_tools inp)))
      in (encodeMessage ACM_RUN_REQUEST
            [conversationState, action, modelDetails, mcpToolsBlock, encodeString 5 (ri_conversationId inp), requestedModel,
             encodeTag 12 WT_VARINT @ encodeVarint 0, encodeString 16 (ri_conversationId inp)], store2))"

definition encodeAgentRunRequest ::
  "(bytes \<Rightarrow> bytes) \<Rightarrow> (utext \<Rightarrow> utext) \<Rightarrow> run_input \<Rightarrow> blob_store option \<Rightarrow> model_error + bytes \<times> blob_store option" where
  "encodeAgentRunRequest sha256 system_json inp store =
     bindE (resolveRequestedModel (ri_modelId inp) (ri_liveCatalogIds inp)) (\<lambda>m. Inr (encode_run sha256 system_json inp m store))"

definition buildAgentRequestBody ::
  "(bytes \<Rightarrow> bytes) \<Rightarrow> (utext \<Rightarrow> utext) \<Rightarrow> run_input \<Rightarrow> blob_store option \<Rightarrow> model_error + (frame_error + bytes) \<times> blob_store option" where
  "buildAgentRequestBody sha256 system_json inp store =
     bindE (encodeAgentRunRequest sha256 system_json inp store) (\<lambda>(body, store1). Inr (wrap_plain body, store1))"

subsection \<open>What a reply says\<close>

datatype exec_reply =
    R_read utext utext
  | R_write utext utext
  | R_delete utext utext
  | R_ls utext utext
  | R_shell utext utext utext
  | R_background utext utext utext
  | R_grep utext
  | R_fetch utext utext
  | R_stdin utext
  | R_mcp_error utext

fun encode_reply :: "nat \<Rightarrow> utext \<Rightarrow> exec_reply \<Rightarrow> frame_error + bytes" where
  "encode_reply i e (R_read p r) = encodeExecReadRejected i e p r"
| "encode_reply i e (R_write p r) = encodeExecWriteRejected i e p r"
| "encode_reply i e (R_delete p r) = encodeExecDeleteRejected i e p r"
| "encode_reply i e (R_ls p r) = encodeExecLsRejected i e p r"
| "encode_reply i e (R_shell c w r) = encodeExecShellRejected i e c w r"
| "encode_reply i e (R_background c w r) = encodeExecBackgroundShellSpawnRejected i e c w r"
| "encode_reply i e (R_grep m) = encodeExecGrepError i e m"
| "encode_reply i e (R_fetch u m) = encodeExecFetchError i e u m"
| "encode_reply i e (R_stdin m) = encodeExecWriteShellStdinError i e m"
| "encode_reply i e (R_mcp_error m) = encodeExecMcpError i e m"

text \<open>The field number the reply must have, which is the one of the request, and its texts.\<close>

fun reply_field :: "exec_reply \<Rightarrow> nat" where
  "reply_field (R_read p r) = ESM_READ_ARGS"
| "reply_field (R_write p r) = ESM_WRITE_ARGS"
| "reply_field (R_delete p r) = ESM_DELETE_ARGS"
| "reply_field (R_ls p r) = ESM_LS_ARGS"
| "reply_field (R_shell c w r) = ESM_SHELL_ARGS"
| "reply_field (R_background c w r) = ESM_BACKGROUND_SHELL_SPAWN"
| "reply_field (R_grep m) = ESM_GREP_ARGS"
| "reply_field (R_fetch u m) = ESM_FETCH_ARGS"
| "reply_field (R_stdin m) = ESM_WRITE_SHELL_STDIN_ARGS"
| "reply_field (R_mcp_error m) = ESM_MCP_ARGS"

fun reply_texts :: "exec_reply \<Rightarrow> utext list" where
  "reply_texts (R_read p r) = [p, r]"
| "reply_texts (R_write p r) = [p, r]"
| "reply_texts (R_delete p r) = [p, r]"
| "reply_texts (R_ls p r) = [p, r]"
| "reply_texts (R_shell c w r) = [c, w, r]"
| "reply_texts (R_background c w r) = [c, w, r]"
| "reply_texts (R_grep m) = [m]"
| "reply_texts (R_fetch u m) = [u, m]"
| "reply_texts (R_stdin m) = [m]"
| "reply_texts (R_mcp_error m) = [m]"

text \<open>The texts as fields with the numbers from one.\<close>

definition numbered :: "utext list \<Rightarrow> bytes" where
  "numbered ts = concat (map (\<lambda>(n, t). encodeString (int n) t) (zip [1..<Suc (length ts)] ts))"

lemma encode_reply_shape:
  "encode_reply i e r = wrapExecClientMessage i e (int (reply_field r)) (encodeMessage 2 [numbered (reply_texts r)])"
proof -
  have u: "[1..<Suc (Suc 0)] = [1]" "[1..<Suc (Suc (Suc 0))] = [1, 2]" "[1..<Suc (Suc (Suc (Suc 0)))] = [1, 2, 3]"
    by (simp_all add: upt_rec)
  show ?thesis
    by (cases r) (simp_all add: wire_consts numbered_def u encodeExecReadRejected_def encodeExecWriteRejected_def
        encodeExecDeleteRejected_def encodeExecLsRejected_def encodeExecShellRejected_def encodeExecBackgroundShellSpawnRejected_def
        encodeExecGrepError_def encodeExecFetchError_def encodeExecWriteShellStdinError_def encodeExecMcpError_def
        encodePathRejection_def encodeShellRejection_def)
qed

lemma numbered_fields:
  assumes "length ts < 100"
  shows "decodeFields (numbered ts) = Inr (map (\<lambda>(n, t). Bytes_field n (utf8_bytes t)) (zip [1..<Suc (length ts)] ts))"
proof -
  let ?z = "zip [1..<Suc (length ts)] ts"
  let ?is = "map (\<lambda>(n, t). W_string (int n) t) ?z"
  have "n < 101" if "(n, t) \<in> set ?z" for n t using set_zip_leftD [OF that] assms by (simp del: upt_Suc)
  then have "list_all item_ok ?is" by (fastforce simp: list_all_iff tag_ok_def)
  moreover have "concat (map item_bytes ?is) = numbered ts"
    unfolding numbered_def by (rule arg_cong [of _ _ concat]) auto
  moreover have "concat (map item_fields (map (\<lambda>(n, t). W_string (int n) t) z)) = map (\<lambda>(n, t). Bytes_field n (utf8_bytes t)) z" for z
    by (induction z) auto
  ultimately show ?thesis using decodeFields_items by metis
qed

lemma plain_frame:
  assumes "wrap_plain payload = Inr frame"
  shows "iterateConnectFrames gunzip frame = ([\<lparr>cf_flags = FLAG_NONE, cf_payload = payload\<rparr>], False)"
proof -
  have w: "frame = FLAG_NONE # u32_be (length payload) @ payload" "length payload < 2 ^ 32"
    using assms by (auto simp: wrapConnectFrame_def Let_def split: if_splits)
  have "read_u32_be frame 1 = length payload" using read_u32 [OF w(2), of "[]" FLAG_NONE payload] w(1) by simp
  then show ?thesis using flag_test(2) unfolding w(1)
    by (subst iterateConnectFrames_def, subst frames_from.simps, subst frames_from.simps) (simp add: u32_be_def subarray_def)
qed

lemma exec_message:
  assumes "tag_ok (int n)" and "wrapExecClientMessage i e (int n) p = Inr frame"
  shows "\<exists>payload ecm. iterateConnectFrames gunzip frame = ([\<lparr>cf_flags = FLAG_NONE, cf_payload = payload\<rparr>], False)
    \<and> decodeFields payload = Inr [Bytes_field 2 ecm]
    \<and> decodeFields ecm = Inr [Varint_field 1 i, Bytes_field 15 (utf8_bytes e), Bytes_field n p]"
proof -
  let ?ecm = "concat [encodeUInt32Field 1 (int i), encodeString 15 e, encodeMessage (int n) [p]]"
  have "decodeFields (encodeMessage ACM_EXEC_CLIENT_MESSAGE [encodeUInt32Field 1 (int i), encodeString 15 e, encodeMessage (int n) [p]])
      = Inr [Bytes_field 2 ?ecm]"
    using one_message [of 2] by (simp add: wire_consts tag_ok_def)
  moreover have "decodeFields ?ecm = Inr [Varint_field 1 i, Bytes_field 15 (utf8_bytes e), Bytes_field n p]"
    using decodeFields_items [of "[W_uint 1 (int i), W_string 15 e, W_message (int n) [p]]"] assms(1) by (simp add: tag_ok_def)
  ultimately show ?thesis using plain_frame [OF assms(2) [unfolded wrapExecClientMessage_def]] by blast
qed

text \<open>
  Every refusal OmniRoute sends is read back by a decoder of the protocol as what it is: one frame
  that is not compressed, with the id and the exec id of the request, and behind them the variant with
  the number of the tool that was asked for, rejected or failed, with the texts in the order of their
  field numbers.
\<close>

theorem refusal_decoded:
  assumes "encode_reply i e r = Inr frame"
  shows "\<exists>payload ecm body. iterateConnectFrames gunzip frame = ([\<lparr>cf_flags = FLAG_NONE, cf_payload = payload\<rparr>], False)
    \<and> decodeFields payload = Inr [Bytes_field 2 ecm]
    \<and> decodeFields ecm = Inr [Varint_field 1 i, Bytes_field 15 (utf8_bytes e), Bytes_field (reply_field r) body]
    \<and> decodeFields body = Inr [Bytes_field 2 (numbered (reply_texts r))]
    \<and> decodeFields (numbered (reply_texts r))
        = Inr (map (\<lambda>(n, t). Bytes_field n (utf8_bytes t)) (zip [1..<Suc (length (reply_texts r))] (reply_texts r)))"
proof -
  have ok: "tag_ok (int (reply_field r))" by (cases r) (simp_all add: wire_consts tag_ok_def)
  have len: "length (reply_texts r) < 100" by (cases r) simp_all
  have "decodeFields (encodeMessage 2 [numbered (reply_texts r)]) = Inr [Bytes_field 2 (numbered (reply_texts r))]"
    using one_message [of 2] by (simp add: tag_ok_def)
  then show ?thesis
    using exec_message [OF ok assms [unfolded encode_reply_shape], of gunzip] numbered_fields [OF len] by blast
qed

theorem refusal_decoded_witness:
  "\<exists>frame payload ecm body. encode_reply 7 (text_of ''x'') (R_grep (text_of ''no'')) = Inr frame
    \<and> iterateConnectFrames Some frame = ([\<lparr>cf_flags = FLAG_NONE, cf_payload = payload\<rparr>], False)
    \<and> decodeFields payload = Inr [Bytes_field 2 ecm]
    \<and> decodeFields ecm = Inr [Varint_field 1 7, Bytes_field 15 (utf8_bytes (text_of ''x'')), Bytes_field 5 body]"
proof -
  have "length (encodeMessage 2 [encodeUInt32Field 1 7, encodeString 15 (text_of ''x''), encodeMessage 5 [encodeMessage 2 [encodeString 1 (text_of ''no'')]]]) < 2 ^ 32"
    by (simp add: encodeMessage_def encodeUInt32Field_def encodeString_def encodeBytes_def Let_def encodeTag_ok tag_ok_def
        WT_LEN_def WT_VARINT_def varint_last text_of_def utf8_bytes_def utf8_char_def)
  then obtain frame where f: "encode_reply 7 (text_of ''x'') (R_grep (text_of ''no'')) = Inr frame"
    by (auto simp: encodeExecGrepError_def wrapExecClientMessage_def wrapConnectFrame_def wire_consts Let_def)
  show ?thesis using refusal_decoded [OF f, of Some] f by (auto simp: wire_consts)
qed

subsection \<open>Blobs\<close>

lemma kv_decoded:
  assumes "tag_ok n" and "wrap_plain (encodeMessage ACM_KV_CLIENT_MESSAGE (kv_parts kvId (encodeMessage n ps) md)) = Inr frame"
  shows "\<exists>payload kcm. iterateConnectFrames gunzip frame = ([\<lparr>cf_flags = FLAG_NONE, cf_payload = payload\<rparr>], False)
    \<and> decodeFields payload = Inr [Bytes_field 3 kcm]
    \<and> decodeFields kcm = Inr ((if kvId = 0 then [] else [Varint_field 1 kvId]) @ [Bytes_field (nat n) (concat ps)]
        @ (if nullish md [] = [] then [] else [Bytes_field 4 (nullish md [])]))"
proof -
  let ?is = "(if kvId = 0 then [] else [W_uint 1 (int kvId)]) @ [W_message n ps] @ (if nullish md [] = [] then [] else [W_bytes 4 (nullish md [])])"
  have "decodeFields (encodeMessage ACM_KV_CLIENT_MESSAGE (kv_parts kvId (encodeMessage n ps) md)) = Inr [Bytes_field 3 (concat (kv_parts kvId (encodeMessage n ps) md))]"
    using one_message [of 3] by (simp add: wire_consts tag_ok_def)
  moreover have "map item_bytes ?is = kv_parts kvId (encodeMessage n ps) md" by (cases md) (auto simp: kv_parts_def)
  moreover have "list_all item_ok ?is" using assms(1) by (simp add: tag_ok_def)
  moreover have "concat (map item_fields ?is) = (if kvId = 0 then [] else [Varint_field 1 kvId]) @ [Bytes_field (nat n) (concat ps)]
        @ (if nullish md [] = [] then [] else [Bytes_field 4 (nullish md [])])" by simp
  ultimately show ?thesis using plain_frame [OF assms(2)] decodeFields_items [of ?is] by metis
qed

text \<open>
  The server asks for a blob and is answered: its request is decoded to the id, the blob and the
  metadata it carries, and the reply, one frame that is not compressed, has the same id (left out when
  it is zero), the bytes of the blob and the same metadata (left out when it is empty).
\<close>

theorem blob_reply_echoes:
  assumes "kvId < 2 ^ 53" and "encodeKvGetBlobResult kvId blobData (Some md) = Inr frame"
  shows "decodeKvServerEvent (encodeMessage (int ASM_KV_SERVER_MESSAGE)
        [encodeUInt32Field 1 (int kvId), encodeMessage 2 [encodeBytes 1 blobId], encodeBytes 4 md]) = Inr (Some (Kv_get_blob kvId blobId (Some md)))
    \<and> (\<exists>payload kcm result. iterateConnectFrames gunzip frame = ([\<lparr>cf_flags = FLAG_NONE, cf_payload = payload\<rparr>], False)
        \<and> decodeFields payload = Inr [Bytes_field 3 kcm]
        \<and> decodeFields kcm = Inr ((if kvId = 0 then [] else [Varint_field 1 kvId]) @ [Bytes_field 2 result]
            @ (if md = [] then [] else [Bytes_field 4 md]))
        \<and> decodeFields result = Inr [Bytes_field 1 blobData])"
proof
  have "decodeFields (encodeMessage 4 [encodeUInt32Field 1 (int kvId), encodeMessage 2 [encodeBytes 1 blobId], encodeBytes 4 md])
      = Inr [Bytes_field 4 (encodeUInt32Field 1 (int kvId) @ encodeMessage 2 [encodeBytes 1 blobId] @ encodeBytes 4 md)]"
    using one_message [of 4] by (simp add: tag_ok_def)
  moreover have "decodeFields (encodeUInt32Field 1 (int kvId) @ encodeMessage 2 [encodeBytes 1 blobId] @ encodeBytes 4 md)
      = Inr [Varint_field 1 kvId, Bytes_field 2 (encodeBytes 1 blobId), Bytes_field 4 md]"
    using decodeFields_items [of "[W_uint 1 (int kvId), W_message 2 [encodeBytes 1 blobId], W_bytes 4 md]"] by (simp add: tag_ok_def)
  moreover have b: "decodeFields (encodeBytes 1 x) = Inr [Bytes_field 1 x]" for x
    using decodeFields_items [of "[W_bytes 1 x]"] by (simp add: tag_ok_def)
  ultimately show "decodeKvServerEvent (encodeMessage (int ASM_KV_SERVER_MESSAGE)
        [encodeUInt32Field 1 (int kvId), encodeMessage 2 [encodeBytes 1 blobId], encodeBytes 4 md]) = Inr (Some (Kv_get_blob kvId blobId (Some md)))"
    using assms(1) by (simp add: decodeKvServerEvent_def wire_consts findField_def findLengthDelimitedField_def varint_or_zero_def
        js_Number_exact decodeBlobId_def)
  have two: "tag_ok 2" by (simp add: tag_ok_def)
  show "\<exists>payload kcm result. iterateConnectFrames gunzip frame = ([\<lparr>cf_flags = FLAG_NONE, cf_payload = payload\<rparr>], False)
        \<and> decodeFields payload = Inr [Bytes_field 3 kcm]
        \<and> decodeFields kcm = Inr ((if kvId = 0 then [] else [Varint_field 1 kvId]) @ [Bytes_field 2 result]
            @ (if md = [] then [] else [Bytes_field 4 md]))
        \<and> decodeFields result = Inr [Bytes_field 1 blobData]"
    using kv_decoded [OF two assms(2) [unfolded encodeKvGetBlobResult_def], of gunzip] b by fastforce
qed

theorem blob_reply_echoes_witness:
  "\<exists>frame. encodeKvGetBlobResult 3 [9] (Some [1, 2]) = Inr frame
    \<and> decodeKvServerEvent (encodeMessage (int ASM_KV_SERVER_MESSAGE)
        [encodeUInt32Field 1 3, encodeMessage 2 [encodeBytes 1 [5]], encodeBytes 4 [1, 2]]) = Inr (Some (Kv_get_blob 3 [5] (Some [1, 2])))"
proof -
  have "length (encodeMessage 3 [encodeUInt32Field 1 3, encodeMessage 2 [encodeBytes 1 [9]], encodeBytes 4 [1, 2]]) < 2 ^ 32"
    by (simp add: encodeMessage_def encodeUInt32Field_def encodeBytes_def Let_def encodeTag_ok tag_ok_def
        WT_LEN_def WT_VARINT_def varint_last)
  then obtain frame where f: "encodeKvGetBlobResult 3 [9] (Some [1, 2]) = Inr frame"
    by (auto simp: encodeKvGetBlobResult_def kv_parts_def wrapConnectFrame_def wire_consts Let_def)
  show ?thesis using blob_reply_echoes [OF _ f, of "[5]" Some] f by auto
qed

definition blobs_hashed :: "(bytes \<Rightarrow> bytes) \<Rightarrow> blob_store \<Rightarrow> bool" where
  "blobs_hashed sha256 store \<longleftrightarrow> (\<forall>k d. map_of store k = Some d \<longrightarrow> sha256 d = k)"

lemma blobs_hashed_set: "blobs_hashed sha256 store \<Longrightarrow> blobs_hashed sha256 (map_set (sha256 d) d store)"
  by (simp add: blobs_hashed_def)

lemma images_stored:
  "blobs_hashed sha256 store \<Longrightarrow> \<exists>store'. snd (encode_images sha256 imgs (Some store)) = Some store' \<and> blobs_hashed sha256 store'
    \<and> dom (map_of store') = dom (map_of store) \<union> (\<lambda>img. sha256 (im_data img)) ` set imgs"
proof (induction imgs arbitrary: store)
  case (Cons img imgs)
  let ?s = "map_set (sha256 (im_data img)) (im_data img) store"
  obtain store' where "snd (encode_images sha256 imgs (Some ?s)) = Some store'" "blobs_hashed sha256 store'"
      "dom (map_of store') = dom (map_of ?s) \<union> (\<lambda>img. sha256 (im_data img)) ` set imgs"
    using Cons.IH [OF blobs_hashed_set [OF Cons.prems]] by blast
  then show ?case by (auto simp: encodeSelectedImageBody_def split_beta Let_def)
qed simp

text \<open>
  C19: Every blob a request refers to can be served: when the blobs of the store are filed under their
  hashes, they still are after a request is built, nothing that could be served is lost, and the store
  holds a blob under the hash of every image and of the system prompt. The request itself does not
  depend on what the store held.
\<close>

theorem request_blobs_served:
  assumes "blobs_hashed sha256 store" and "encodeAgentRunRequest sha256 system_json inp (Some store) = Inr (body, store')"
  shows "\<exists>st. store' = Some st \<and> blobs_hashed sha256 st
    \<and> dom (map_of st) = dom (map_of store) \<union> (\<lambda>img. sha256 (im_data img)) ` set (ri_images inp)
        \<union> (if nullish (ri_systemPrompt inp) [] = [] then {} else {sha256 (utf8_bytes (system_json (nullish (ri_systemPrompt inp) [])))})
    \<and> (\<forall>other. encodeAgentRunRequest sha256 system_json inp (Some other)
         = Inr (body, snd (encode_run sha256 system_json inp (projr (resolveRequestedModel (ri_modelId inp) (ri_liveCatalogIds inp))) (Some other))))"
proof -
  obtain m where m: "resolveRequestedModel (ri_modelId inp) (ri_liveCatalogIds inp) = Inr m"
      and e: "encode_run sha256 system_json inp m (Some store) = (body, store')"
    using assms(2) by (auto simp: encodeAgentRunRequest_def bindE_Inr_iff)
  obtain st1 where s1: "snd (encode_images sha256 (ri_images inp) (Some store)) = Some st1" "blobs_hashed sha256 st1"
      "dom (map_of st1) = dom (map_of store) \<union> (\<lambda>img. sha256 (im_data img)) ` set (ri_images inp)"
    using images_stored [OF assms(1)] by blast
  have parts: "fst (encode_images sha256 imgs (Some a)) = fst (encode_images sha256 imgs (Some b))" for imgs a b
    by (induction imgs arbitrary: a b) (simp_all add: encodeSelectedImageBody_def split_beta Let_def)
  have some: "\<exists>st. snd (encode_images sha256 imgs (Some a)) = Some st" for imgs a
    by (induction imgs arbitrary: a) (simp_all add: encodeSelectedImageBody_def split_beta Let_def)
  have same: "fst (encode_run sha256 system_json inp m (Some other)) = body" for other
  proof -
    obtain st2 where "snd (encode_images sha256 (ri_images inp) (Some other)) = Some st2" using some by blast
    then have "fst (encode_run sha256 system_json inp m (Some other)) = fst (encode_run sha256 system_json inp m (Some store))"
      using s1(1) parts [of "ri_images inp" other store] by (simp add: encode_run_def split_beta Let_def split: option.split)
    then show ?thesis using e by simp
  qed
  let ?blob = "utf8_bytes (system_json (nullish (ri_systemPrompt inp) []))"
  have st: "store' = Some (if nullish (ri_systemPrompt inp) [] = [] then st1 else map_set (sha256 ?blob) ?blob st1)"
    using e s1(1) by (auto simp: encode_run_def split_beta Let_def split: option.splits if_splits)
  show ?thesis
  proof (intro exI conjI)
    show "store' = Some (if nullish (ri_systemPrompt inp) [] = [] then st1 else map_set (sha256 ?blob) ?blob st1)" by (rule st)
    show "blobs_hashed sha256 (if nullish (ri_systemPrompt inp) [] = [] then st1 else map_set (sha256 ?blob) ?blob st1)"
      using s1(2) blobs_hashed_set by simp
    show "\<forall>other. encodeAgentRunRequest sha256 system_json inp (Some other)
         = Inr (body, snd (encode_run sha256 system_json inp (projr (resolveRequestedModel (ri_modelId inp) (ri_liveCatalogIds inp))) (Some other)))"
      using same by (simp add: encodeAgentRunRequest_def m prod_eq_iff)
  qed (use s1(3) in auto)
qed

definition run_demo :: run_input where
  "run_demo = \<lparr>ri_modelId = ''auto'', ri_liveCatalogIds = None, ri_userText = text_of ''hi'', ri_conversationId = text_of ''c'',
     ri_messageId = text_of ''m'', ri_tools = [], ri_systemPrompt = Some (text_of ''be brief''), ri_images = []\<rparr>"

theorem request_blobs_served_witness:
  "\<exists>body st. encodeAgentRunRequest rev id run_demo (Some [([2, 1], [1, 2])]) = Inr (body, Some st) \<and> blobs_hashed rev st
     \<and> dom (map_of st) = {[2, 1], rev (utf8_bytes (text_of ''be brief''))}"
proof -
  have h: "blobs_hashed rev [([2, 1], [1, 2])]" by (simp add: blobs_hashed_def)
  have "resolveRequestedModel ''auto'' None = Inr (plain_model ''default'')" by code_simp
  then obtain body store' where e: "encodeAgentRunRequest rev id run_demo (Some [([2, 1], [1, 2])]) = Inr (body, store')"
    by (metis encodeAgentRunRequest_def run_demo_def run_input.select_convs(1,2) bindE.simps(2) surj_pair)
  have "nullish (ri_systemPrompt run_demo) [] = text_of ''be brief''" "ri_images run_demo = []" "text_of ''be brief'' \<noteq> []"
    by (simp_all add: run_demo_def text_of_def)
  then show ?thesis using request_blobs_served [OF h e] e by auto
qed

end
