(* ===== verification/AccountBuckets.thy ===== *)
theory AccountBuckets
  imports Prelude
begin

text \<open>
  The buckets of \<^verbatim>\<open>src/src/lib/quota/accountBuckets.ts\<close>: which windows of a connection are used up. An
  entry whose window has passed is removed when it is read. \<open>Date.parse\<close> is the parameter \<open>parse\<close>; a
  utilization is a real number.
\<close>

record bucket =
  bu_saturated :: bool
  bu_resetsAtMs :: int

type_synonym buckets = "(string, bucket) js_map"

record usage_quota =
  uq_used :: js_value
  uq_resetAt :: "string option"

definition SATURATION_THRESHOLD_PCT :: real where "SATURATION_THRESHOLD_PCT = 100"

definition storeKey :: "string \<Rightarrow> string \<Rightarrow> string" where
  "storeKey connectionId windowKey = connectionId @ ''::'' @ windowKey"

definition parseResetAtMs :: "(string \<Rightarrow> int option) \<Rightarrow> string option \<Rightarrow> int" where
  "parseResetAtMs parse resetAt =
     (case resetAt of
        None \<Rightarrow> 0
      | Some s \<Rightarrow> if s = [] then 0 else (case parse s of Some ms \<Rightarrow> if 0 < ms then ms else 0 | None \<Rightarrow> 0))"

definition isBucketSaturated :: "string \<Rightarrow> string \<Rightarrow> int \<Rightarrow> buckets \<Rightarrow> bool \<times> buckets" where
  "isBucketSaturated connectionId windowKey now b =
     (if connectionId = [] \<or> windowKey = [] then (False, b)
      else let key = storeKey connectionId windowKey in
        (case map_get b key of
           None \<Rightarrow> (False, b)
         | Some e \<Rightarrow>
             if 0 < bu_resetsAtMs e \<and> bu_resetsAtMs e \<le> now then (False, map_delete key b) else (bu_saturated e, b)))"

fun used_up :: "js_value \<Rightarrow> bool" where
  "used_up (Number r) = (SATURATION_THRESHOLD_PCT \<le> r)"
| "used_up _ = False"

definition recordUsage :: "(string \<Rightarrow> int option) \<Rightarrow> string \<Rightarrow> string \<Rightarrow> js_value \<Rightarrow> string option \<Rightarrow> int \<Rightarrow> buckets \<Rightarrow> buckets" where
  "recordUsage parse connectionId windowKey usedPct resetAt now b =
     (if connectionId = [] \<or> windowKey = [] then b
      else let key = storeKey connectionId windowKey; resetsAtMs = parseResetAtMs parse resetAt in
        if 0 < resetsAtMs \<and> resetsAtMs \<le> now then map_delete key b
        else if \<not> used_up usedPct then map_delete key b
        else map_set key \<lparr>bu_saturated = True, bu_resetsAtMs = resetsAtMs\<rparr> b)"

fun is_number :: "js_value \<Rightarrow> bool" where
  "is_number (Number r) = True"
| "is_number Infinite = True"
| "is_number Not_a_number = True"
| "is_number _ = False"

definition processQuotaEntry :: "(string \<Rightarrow> int option) \<Rightarrow> string \<Rightarrow> string \<Rightarrow> usage_quota option \<Rightarrow> int \<Rightarrow> buckets \<Rightarrow> buckets" where
  "processQuotaEntry parse connectionId windowKey entry now b =
     (case entry of
        None \<Rightarrow> b
      | Some q \<Rightarrow> if is_number (uq_used q) then recordUsage parse connectionId windowKey (uq_used q) (uq_resetAt q) now b else b)"

text \<open>The regular expression \<open>weekly (.+) (7d)\<close>, anchored at both ends.\<close>

definition weekly_model :: "string \<Rightarrow> string option" where
  "weekly_model key =
     (let m = slice_off 5 (drop 7 key) in
      if starts_with key ''weekly '' \<and> ends_with key '' (7d)'' \<and> 12 < length key \<and> (\<forall>c \<in> set m. of_char c \<notin> {10, 13 :: nat})
      then Some m else None)"

definition updateAccountBuckets :: "(string \<Rightarrow> int option) \<Rightarrow> string \<Rightarrow> (string, usage_quota option) js_map option \<Rightarrow> int \<Rightarrow> buckets \<Rightarrow> buckets" where
  "updateAccountBuckets parse connectionId quotas now b =
     (case quotas of
        None \<Rightarrow> b
      | Some qs \<Rightarrow>
          if connectionId = [] then b
          else
            let b1 = processQuotaEntry parse connectionId ''5h'' (nullish (map_get qs ''session (5h)'') None) now b;
                b2 = processQuotaEntry parse connectionId ''7d'' (nullish (map_get qs ''weekly (7d)'') None) now b1
            in foldl (\<lambda>b (key, entry).
                 case weekly_model key of
                   None \<Rightarrow> b
                 | Some m \<Rightarrow> processQuotaEntry parse connectionId (''7d:'' @ m) entry now b) b2 qs)"

subsection \<open>The last observation decides\<close>

datatype bucket_event =
    Bu_usage string string js_value "string option"
  | Bu_read string string

fun bucket_step :: "(string \<Rightarrow> int option) \<Rightarrow> buckets \<Rightarrow> int \<times> bucket_event \<Rightarrow> buckets" where
  "bucket_step parse b (now, Bu_usage c w u r) = recordUsage parse c w u r now b"
| "bucket_step parse b (now, Bu_read c w) = snd (isBucketSaturated c w now b)"

text \<open>The last observation of a key, and whether it says that the window is used up at a time.\<close>

fun last_observation :: "string \<Rightarrow> (int \<times> bucket_event) list \<Rightarrow> (js_value \<times> string option) option" where
  "last_observation k [] = None"
| "last_observation k ((t, ev) # evs) =
     (case last_observation k evs of
        Some x \<Rightarrow> Some x
      | None \<Rightarrow> (case ev of Bu_usage c w u r \<Rightarrow> if c \<noteq> [] \<and> w \<noteq> [] \<and> storeKey c w = k then Some (u, r) else None | _ \<Rightarrow> None))"

definition says_saturated :: "(string \<Rightarrow> int option) \<Rightarrow> int \<Rightarrow> (js_value \<times> string option) option \<Rightarrow> bool" where
  "says_saturated parse now x = (case x of None \<Rightarrow> False
     | Some (u, r) \<Rightarrow> used_up u \<and> \<not> (0 < parseResetAtMs parse r \<and> parseResetAtMs parse r \<le> now))"

text \<open>What an entry says from a time on; the entry a key has from the last observation on.\<close>

definition bucket_says :: "int \<Rightarrow> bucket option \<Rightarrow> bool" where
  "bucket_says now e = (case e of None \<Rightarrow> False | Some e \<Rightarrow> bu_saturated e \<and> \<not> (0 < bu_resetsAtMs e \<and> bu_resetsAtMs e \<le> now))"

lemma read_says: "c \<noteq> [] \<Longrightarrow> w \<noteq> [] \<Longrightarrow> fst (isBucketSaturated c w now b) = bucket_says now (map_get b (storeKey c w))"
  by (auto simp: isBucketSaturated_def bucket_says_def Let_def split: option.split)

lemma read_keeps: "now \<le> t \<Longrightarrow> bucket_says t (map_get (snd (isBucketSaturated c w now b)) k) = bucket_says t (map_get b k)"
  by (auto simp: isBucketSaturated_def bucket_says_def Let_def split: option.split)

lemma usage_says:
  "now \<le> t \<Longrightarrow> bucket_says t (map_get (recordUsage parse c w u r now b) k)
     = (if c \<noteq> [] \<and> w \<noteq> [] \<and> storeKey c w = k then says_saturated parse t (Some (u, r)) else bucket_says t (map_get b k))"
  by (auto simp: recordUsage_def bucket_says_def says_saturated_def Let_def)

lemma run_says:
  assumes "\<forall>e \<in> set evs. fst e \<le> now"
  shows "bucket_says now (map_get (foldl (bucket_step parse) b evs) k)
    = (case last_observation k evs of None \<Rightarrow> bucket_says now (map_get b k) | Some x \<Rightarrow> says_saturated parse now (Some x))"
  using assms
proof (induction evs arbitrary: b)
  case (Cons e evs)
  obtain t ev where e: "e = (t, ev)" by (cases e)
  have t: "t \<le> now" using Cons.prems by (simp add: e)
  have IH: "bucket_says now (map_get (foldl (bucket_step parse) b' evs) k)
    = (case last_observation k evs of None \<Rightarrow> bucket_says now (map_get b' k) | Some x \<Rightarrow> says_saturated parse now (Some x))" for b'
    using Cons by simp
  show ?case
    by (cases ev) (auto simp: e IH usage_says [OF t] read_keeps [OF t] split: option.split)
qed simp

text \<open>
  Whether a window of a connection counts as used up is decided by its last observation alone:
  whatever was recorded before and read in between, it does exactly when that observation was at the
  threshold and its window, when the reset is known, has not passed at the time of the question.
\<close>

theorem last_usage_decides:
  assumes "\<forall>e \<in> set evs. fst e \<le> now" and "c \<noteq> []" and "w \<noteq> []"
  shows "fst (isBucketSaturated c w now (foldl (bucket_step parse) [] evs)) = says_saturated parse now (last_observation (storeKey c w) evs)"
  unfolding read_says [OF assms(2,3)] run_says [OF assms(1)]
  by (auto simp: bucket_says_def says_saturated_def split: option.split)

theorem last_usage_decides_witness:
  "let evs = [(5, Bu_usage ''c'' ''5h'' (Number 100) (Some ''r'')), (6, Bu_read ''c'' ''5h''), (7, Bu_usage ''c'' ''7d'' (Number 3) None)] in
   fst (isBucketSaturated ''c'' ''5h'' 50 (foldl (bucket_step (\<lambda>_. Some 60)) [] evs))
   \<and> \<not> fst (isBucketSaturated ''c'' ''5h'' 60 (foldl (bucket_step (\<lambda>_. Some 60)) [] evs))"
proof -
  define evs where "evs = [(5 :: int, Bu_usage ''c'' ''5h'' (Number 100) (Some ''r'')), (6, Bu_read ''c'' ''5h''), (7, Bu_usage ''c'' ''7d'' (Number 3) None)]"
  have l: "last_observation (storeKey ''c'' ''5h'') evs = Some (Number 100, Some ''r'')"
    by (simp add: evs_def storeKey_def)
  have "\<forall>e \<in> set evs. fst e \<le> 50" "\<forall>e \<in> set evs. fst e \<le> 60" by (simp_all add: evs_def)
  from this [THEN last_usage_decides, of "''c''" "''5h''" "\<lambda>_. Some 60"] show ?thesis
    unfolding evs_def [symmetric] by (simp add: l says_saturated_def parseResetAtMs_def SATURATION_THRESHOLD_PCT_def)
qed

end
