(* ===== verification/QuotaInflight.thy ===== *)
theory QuotaInflight
  imports Prelude
begin

text \<open>
  The counter of \<^verbatim>\<open>src/open-sse/services/combo/quotaShareInflight.ts\<close>: for each connection, the times at
  which the requests on their way stop counting. A slot whose leases a reading has removed stays in the
  map, empty, until the next increment.
\<close>

type_synonym inflight = "(string, int list) js_map"

definition DEFAULT_LEASE_MS :: int where "DEFAULT_LEASE_MS = 120000"
definition MAX_LEASES_PER_CONNECTION :: nat where "MAX_LEASES_PER_CONNECTION = 4096"

definition retireExpired :: "int \<Rightarrow> int list \<Rightarrow> int list" where
  "retireExpired now leases = (if leases = [] then leases else filter (\<lambda>expiresAtMs. now < expiresAtMs) leases)"

definition pruneExpired :: "int \<Rightarrow> inflight \<Rightarrow> inflight" where
  "pruneExpired now m =
     filter (\<lambda>(key, leases). leases \<noteq> []) (map (\<lambda>(key, leases). (key, retireExpired now leases)) m)"

definition incrementInflight :: "string \<Rightarrow> int option \<Rightarrow> int \<Rightarrow> inflight \<Rightarrow> nat \<times> inflight" where
  "incrementInflight connectionId leaseMs now m =
     (if connectionId = [] then (0, m)
      else
        let m1 = pruneExpired now m;
            pushed = nullish (map_get m1 connectionId) [] @ [now + nullish leaseMs DEFAULT_LEASE_MS];
            leases = (if MAX_LEASES_PER_CONNECTION < length pushed then tl pushed else pushed)
        in (length leases, map_set connectionId leases m1))"

text \<open>\<open>None\<close> is the index \<open>-1\<close>.\<close>

fun lastIndexWhere :: "'a list \<Rightarrow> ('a \<Rightarrow> bool) \<Rightarrow> nat option" where
  "lastIndexWhere [] p = None"
| "lastIndexWhere (x # xs) p =
     (case lastIndexWhere xs p of Some i \<Rightarrow> Some (Suc i) | None \<Rightarrow> if p x then Some 0 else None)"

definition retire_one :: "int \<Rightarrow> int list \<Rightarrow> int list" where
  "retire_one now leases =
     (case lastIndexWhere leases (\<lambda>expiresAtMs. expiresAtMs \<le> now) of
        Some i \<Rightarrow> take i leases @ drop (Suc i) leases
      | None \<Rightarrow> butlast leases)"

definition decrementInflight :: "string \<Rightarrow> int \<Rightarrow> inflight \<Rightarrow> inflight" where
  "decrementInflight connectionId now m =
     (if connectionId = [] then m
      else case map_get m connectionId of
        None \<Rightarrow> m
      | Some leases \<Rightarrow>
          let left = retireExpired now (retire_one now leases) in
          if left = [] then map_delete connectionId m else map_set connectionId left m)"

definition getInflight :: "string \<Rightarrow> int \<Rightarrow> inflight \<Rightarrow> nat \<times> inflight" where
  "getInflight connectionId now m =
     (if connectionId = [] then (0, m)
      else case map_get m connectionId of
        None \<Rightarrow> (0, m)
      | Some leases \<Rightarrow>
          let left = retireExpired now leases in (length left, map_set connectionId left m))"

subsection \<open>The leases of one connection\<close>

definition leases_of :: "inflight \<Rightarrow> string \<Rightarrow> int list" where
  "leases_of m c = nullish (map_get m c) []"

abbreviation live :: "int \<Rightarrow> int list \<Rightarrow> int list" where
  "live now \<equiv> filter (\<lambda>expiresAtMs. now < expiresAtMs)"

lemma retireExpired_live [simp]: "retireExpired now ls = live now ls"
  by (simp add: retireExpired_def)

lemma lastIndexWhere_SomeD: "lastIndexWhere xs p = Some i \<Longrightarrow> i < length xs \<and> p (xs ! i)"
  by (induction xs arbitrary: i) (auto split: option.splits if_splits)

lemma lastIndexWhere_None: "lastIndexWhere xs p = None \<longleftrightarrow> (\<forall>x \<in> set xs. \<not> p x)"
  by (induction xs) (auto split: option.splits)

lemma mset_remove_nth: "i < length xs \<Longrightarrow> mset (take i xs @ drop (Suc i) xs) = mset xs - {#xs ! i#}"
  by (metis add_diff_cancel_right' add_mset_add_single mset_append id_take_nth_drop union_mset_add_mset_right mset.simps(2))

lemma mset_butlast_sub: "mset (butlast xs) \<subseteq># mset xs"
  by (cases xs rule: rev_cases) simp_all

lemma retire_one_sub: "mset (retire_one now ls) \<subseteq># mset ls"
proof (cases "lastIndexWhere ls (\<lambda>x. x \<le> now)")
  case None
  then show ?thesis by (simp add: retire_one_def mset_butlast_sub)
next
  case (Some i)
  have "mset (take i ls @ drop (Suc i) ls) = mset ls - {#ls ! i#}"
    using lastIndexWhere_SomeD [OF Some] mset_remove_nth by blast
  with Some show ?thesis by (simp add: retire_one_def del: mset_append)
qed

lemma prune_get:
  assumes "map_wf m"
  shows "map_get (pruneExpired now m) c = (case map_get m c of None \<Rightarrow> None | Some ls \<Rightarrow> if live now ls = [] then None else Some (live now ls))"
  using assms
proof (induction m)
  case Nil
  show ?case by (simp add: pruneExpired_def)
next
  case (Cons p m)
  obtain k ls where p: "p = (k, ls)" by (cases p)
  have eq: "pruneExpired now (p # m) = (if live now ls = [] then [] else [(k, live now ls)]) @ pruneExpired now m"
    by (simp add: pruneExpired_def p)
  have k: "map_get m k = None" using Cons.prems by (simp add: p map_of_eq_None_iff)
  show ?case unfolding eq using Cons by (auto simp: p k split: option.split)
qed

lemma prune_wf: "map_wf m \<Longrightarrow> map_wf (pruneExpired now m)"
proof (induction m)
  case Nil
  show ?case by (simp add: pruneExpired_def)
next
  case (Cons p m)
  obtain k ls where p: "p = (k, ls)" by (cases p)
  have eq: "pruneExpired now (p # m) = (if live now ls = [] then [] else [(k, live now ls)]) @ pruneExpired now m"
    by (simp add: pruneExpired_def p)
  have "k \<notin> fst ` set (pruneExpired now m)" using Cons.prems by (force simp: p pruneExpired_def)
  with Cons show ?case unfolding eq by (simp add: p)
qed

definition capped_push :: "int list \<Rightarrow> int \<Rightarrow> int list" where
  "capped_push ls x = (if MAX_LEASES_PER_CONNECTION < Suc (length ls) then tl (ls @ [x]) else ls @ [x])"

lemma increment_leases:
  assumes "map_wf m"
  shows "leases_of (snd (incrementInflight d l now m)) c =
    (if d = [] then leases_of m c
     else if d = c then capped_push (live now (leases_of m c)) (now + nullish l DEFAULT_LEASE_MS)
     else live now (leases_of m c))"
proof -
  have p: "nullish (map_get (pruneExpired now m) c) [] = live now (leases_of m c)" for c
    by (cases "map_get m c") (simp_all add: prune_get [OF assms] leases_of_def)
  show ?thesis
    by (auto simp: incrementInflight_def Let_def leases_of_def capped_push_def p [unfolded leases_of_def])
qed

lemma decrement_leases:
  "leases_of (decrementInflight d now m) c =
    (if d = [] \<or> d \<noteq> c \<or> map_get m c = None then leases_of m c else live now (retire_one now (leases_of m c)))"
  by (auto simp: decrementInflight_def leases_of_def Let_def split: option.split)

lemma look_leases:
  "leases_of (snd (getInflight d now m)) c = (if d = [] \<or> d \<noteq> c then leases_of m c else live now (leases_of m c))"
  by (auto simp: getInflight_def leases_of_def Let_def split: option.split)

lemma look_count: "c \<noteq> [] \<Longrightarrow> fst (getInflight c now m) = length (live now (leases_of m c))"
  by (auto simp: getInflight_def leases_of_def Let_def split: option.split)

lemma increment_wf: "map_wf m \<Longrightarrow> map_wf (snd (incrementInflight d l now m))"
  by (simp add: incrementInflight_def Let_def map_wf_set prune_wf)

lemma decrement_wf: "map_wf m \<Longrightarrow> map_wf (decrementInflight d now m)"
  by (auto simp: decrementInflight_def Let_def map_wf_set map_wf_delete split: option.split)

lemma look_wf: "map_wf m \<Longrightarrow> map_wf (snd (getInflight d now m))"
  by (auto simp: getInflight_def Let_def map_wf_set split: option.split)

lemmas inflight_wf = increment_wf decrement_wf look_wf

subsection \<open>Runs\<close>

datatype inflight_event =
    If_start string "int option"
  | If_settle string
  | If_look string

fun inflight_step :: "inflight \<Rightarrow> int \<times> inflight_event \<Rightarrow> inflight" where
  "inflight_step m (now, If_start c l) = snd (incrementInflight c l now m)"
| "inflight_step m (now, If_settle c) = decrementInflight c now m"
| "inflight_step m (now, If_look c) = snd (getInflight c now m)"

abbreviation inflight_run :: "(int \<times> inflight_event) list \<Rightarrow> inflight" where
  "inflight_run evs \<equiv> foldl inflight_step [] evs"

text \<open>When the requests started on a connection stop counting, whatever happens to them.\<close>

fun lease_ends :: "string \<Rightarrow> (int \<times> inflight_event) list \<Rightarrow> int list" where
  "lease_ends c [] = []"
| "lease_ends c ((now, ev) # evs) =
     (case ev of If_start d l \<Rightarrow> (if d = c then [now + nullish l DEFAULT_LEASE_MS] else []) | _ \<Rightarrow> []) @ lease_ends c evs"

lemma inflight_step_wf: "map_wf m \<Longrightarrow> map_wf (inflight_step m e)"
  by (cases e, cases "snd e") (simp_all add: inflight_wf)

lemma inflight_run_wf: "map_wf m \<Longrightarrow> map_wf (foldl inflight_step m evs)"
  by (induction evs arbitrary: m) (simp_all add: inflight_step_wf)

lemma live_sub: "mset (live now ls) \<subseteq># mset ls"
  by simp

lemma capped_push_sub: "mset (capped_push ls x) \<subseteq># add_mset x (mset ls)"
  by (cases ls) (auto simp: capped_push_def MAX_LEASES_PER_CONNECTION_def)

lemma step_leases_sub:
  assumes "map_wf m" and "c \<noteq> []"
  shows "mset (leases_of (inflight_step m e) c) \<subseteq># mset (leases_of m c) + mset (lease_ends c [e])"
proof -
  obtain now ev where e: "e = (now, ev)" by (cases e)
  show ?thesis
  proof (cases ev)
    case (If_start d l)
    let ?x = "now + nullish l DEFAULT_LEASE_MS"
    have "mset (capped_push (live now (leases_of m c)) ?x) \<subseteq># add_mset ?x (mset (leases_of m c))"
      by (rule subset_mset.trans [OF capped_push_sub]) simp
    then show ?thesis using assms by (simp add: e If_start increment_leases)
  next
    case (If_settle d)
    have "mset (live now (retire_one now (leases_of m c))) \<subseteq># mset (leases_of m c)"
      by (rule subset_mset.trans [OF live_sub retire_one_sub])
    then show ?thesis by (simp add: e If_settle decrement_leases)
  next
    case (If_look d)
    then show ?thesis by (simp add: e look_leases)
  qed
qed

lemma run_leases_sub:
  assumes "map_wf m" and "c \<noteq> []"
  shows "mset (leases_of (foldl inflight_step m evs) c) \<subseteq># mset (leases_of m c) + mset (lease_ends c evs)"
  using assms(1)
proof (induction evs arbitrary: m)
  case (Cons e evs)
  have "mset (leases_of (foldl inflight_step (inflight_step m e) evs) c)
      \<subseteq># mset (leases_of (inflight_step m e) c) + mset (lease_ends c evs)"
    by (rule Cons.IH) (rule inflight_step_wf [OF Cons.prems])
  also have "\<dots> \<subseteq># mset (leases_of m c) + mset (lease_ends c [e]) + mset (lease_ends c evs)"
    by (intro subset_mset.add_right_mono step_leases_sub Cons.prems assms(2))
  finally show ?case by (cases e) (simp add: ac_simps)
qed simp

text \<open>
  The count cannot leak: whatever requests started, settled, were lost or were read about, on any
  connection and in any order of the clock, a connection counts at most the requests started on it
  whose own lease has not ended.
\<close>

theorem count_within_leases:
  "fst (getInflight c now (inflight_run evs)) \<le> length (filter (\<lambda>ends. now < ends) (lease_ends c evs))"
proof (cases "c = []")
  case True
  then show ?thesis by (simp add: getInflight_def)
next
  case False
  have "mset (leases_of (inflight_run evs) c) \<subseteq># mset (lease_ends c evs)"
    using run_leases_sub [of "[]" c evs] False by (simp add: leases_of_def)
  then have "mset (live now (leases_of (inflight_run evs) c)) \<subseteq># mset (live now (lease_ends c evs))"
    by (simp add: multiset_filter_mono)
  from size_mset_mono [OF this] show ?thesis
    unfolding look_count [OF False] by (simp only: size_mset)
qed

text \<open>The balance of starts and settlements, floored at zero and capped.\<close>

fun balance :: "string \<Rightarrow> nat \<Rightarrow> inflight_event list \<Rightarrow> nat" where
  "balance c n [] = n"
| "balance c n (If_start d l # evs) = balance c (if d = c then min MAX_LEASES_PER_CONNECTION (Suc n) else n) evs"
| "balance c n (If_settle d # evs) = balance c (if d = c then n - 1 else n) evs"
| "balance c n (If_look d # evs) = balance c n evs"

definition long_lived :: "int \<Rightarrow> int list \<Rightarrow> bool" where
  "long_lived until ls \<longleftrightarrow> (\<forall>x \<in> set ls. until \<le> x)"

lemma long_lived_live: "long_lived until ls \<Longrightarrow> now < until \<Longrightarrow> live now ls = ls"
  by (auto simp: long_lived_def filter_id_conv)

lemma long_lived_retire:
  assumes "long_lived until ls" and "now < until"
  shows "retire_one now ls = butlast ls"
proof -
  have "lastIndexWhere ls (\<lambda>x. x \<le> now) = None" using assms by (force simp: lastIndexWhere_None long_lived_def)
  then show ?thesis by (simp add: retire_one_def)
qed

lemma long_lived_butlast: "long_lived until ls \<Longrightarrow> long_lived until (butlast ls)"
  by (auto simp: long_lived_def dest: in_set_butlastD)

lemma long_lived_push: "long_lived until ls \<Longrightarrow> until \<le> x \<Longrightarrow> long_lived until (capped_push ls x)"
  by (cases ls) (auto simp: long_lived_def capped_push_def)

lemma capped_push_length:
  "length ls \<le> MAX_LEASES_PER_CONNECTION \<Longrightarrow> length (capped_push ls x) = min MAX_LEASES_PER_CONNECTION (Suc (length ls))"
  by (auto simp: capped_push_def)

lemma capped_push_le: "length ls \<le> MAX_LEASES_PER_CONNECTION \<Longrightarrow> length (capped_push ls x) \<le> MAX_LEASES_PER_CONNECTION"
  by (simp add: capped_push_length)

definition brief :: "int \<Rightarrow> int \<times> inflight_event \<Rightarrow> bool" where
  "brief t0 e \<longleftrightarrow> t0 \<le> fst e \<and> fst e < t0 + DEFAULT_LEASE_MS \<and> (case snd e of If_start d l \<Rightarrow> l = None | _ \<Rightarrow> True)"

definition counted_leases :: "int \<Rightarrow> string \<Rightarrow> nat \<Rightarrow> inflight \<Rightarrow> bool" where
  "counted_leases t0 c n m \<longleftrightarrow> map_wf m \<and> n \<le> MAX_LEASES_PER_CONNECTION \<and> length (leases_of m c) = n
     \<and> long_lived (t0 + DEFAULT_LEASE_MS) (leases_of m c)"

lemma counted_step:
  assumes m: "counted_leases t0 c n m" and e: "brief t0 e" and c: "c \<noteq> []"
  shows "counted_leases t0 c (balance c n [snd e]) (inflight_step m e)"
proof -
  obtain now ev where ev: "e = (now, ev)" by (cases e)
  have wf: "map_wf (inflight_step m e)" using m inflight_step_wf by (simp add: counted_leases_def)
  have now: "t0 \<le> now" "now < t0 + DEFAULT_LEASE_MS" using e by (simp_all add: brief_def ev)
  have l: "long_lived (t0 + DEFAULT_LEASE_MS) (leases_of m c)" "map_wf m" "length (leases_of m c) = n"
    "n \<le> MAX_LEASES_PER_CONNECTION" using m by (simp_all add: counted_leases_def)
  note live = long_lived_live [OF l(1) now(2)] long_lived_live [OF long_lived_butlast [OF l(1)] now(2)]
    long_lived_retire [OF l(1) now(2)]
  show ?thesis
  proof (cases ev)
    case (If_start d x)
    then have "x = None" using e by (simp add: brief_def ev)
    then show ?thesis
      using wf l now c by (simp add: counted_leases_def ev If_start increment_leases live capped_push_length capped_push_le long_lived_push)
  next
    case (If_settle d)
    have absent: "map_get m c = None \<Longrightarrow> n = 0" using l(3) by (simp add: leases_of_def)
    show ?thesis
      using wf l c absent by (auto simp: counted_leases_def ev If_settle decrement_leases live long_lived_butlast)
  next
    case (If_look d)
    then show ?thesis using wf l by (simp add: counted_leases_def ev look_leases live)
  qed
qed

lemma balance_Cons: "balance c n (e # es) = balance c (balance c n [e]) es"
  by (cases e) simp_all

lemma counted_run:
  "counted_leases t0 c n m \<Longrightarrow> \<forall>e \<in> set evs. brief t0 e \<Longrightarrow> c \<noteq> [] \<Longrightarrow> counted_leases t0 c (balance c n (map snd evs)) (foldl inflight_step m evs)"
proof (induction evs arbitrary: m n)
  case (Cons e evs)
  have "counted_leases t0 c (balance c n [snd e]) (inflight_step m e)" by (rule counted_step) (use Cons.prems in simp_all)
  from Cons.IH [OF this] Cons.prems show ?case
    unfolding list.map foldl_Cons balance_Cons [of c n "snd e" "map snd evs"] by simp
qed simp

text \<open>
  C20: Over any stretch shorter than a lease the count is exact: a connection counts the requests started
  on it minus those settled, never below zero and never above the bound on tracked leases, however the
  events of the connections interleave and whoever reads the counts in between.
\<close>

theorem count_is_balance:
  assumes "\<forall>e \<in> set evs. brief t0 e" and "c \<noteq> []" and "t0 \<le> now" and "now < t0 + DEFAULT_LEASE_MS"
  shows "fst (getInflight c now (inflight_run evs)) = balance c 0 (map snd evs)"
proof -
  have "counted_leases t0 c 0 []" by (simp add: counted_leases_def leases_of_def long_lived_def)
  from counted_run [OF this assms(1,2)] have "counted_leases t0 c (balance c 0 (map snd evs)) (inflight_run evs)" .
  then show ?thesis unfolding look_count [OF assms(2)] using long_lived_live [OF _ assms(4)] by (simp add: counted_leases_def)
qed

theorem count_is_balance_witness:
  "fst (getInflight ''a'' 9 (inflight_run [(0, If_start ''a'' None), (1, If_start ''b'' None), (2, If_look ''a''),
     (3, If_start ''a'' None), (4, If_settle ''b''), (5, If_settle ''a'')])) = 1"
  using count_is_balance [of "[(0, If_start ''a'' None), (1, If_start ''b'' None), (2, If_look ''a''),
     (3, If_start ''a'' None), (4, If_settle ''b''), (5, If_settle ''a'')]" 0 "''a''" 9]
  by (simp add: brief_def DEFAULT_LEASE_MS_def MAX_LEASES_PER_CONNECTION_def)

text \<open>
  A request that settles after its own lease was dropped takes the lease of another: when a second
  request starts once the lease of the first has ended, the settling of the first removes the second
  from the count, which says that the connection is idle while the second has its whole lease before it.
\<close>

theorem late_settle_uncounts_another:
  "let m = inflight_run [(t, If_start (x # c) None), (t + DEFAULT_LEASE_MS, If_start (x # c) None), (t', If_settle (x # c))] in
   fst (getInflight (x # c) now m) = 0"
proof -
  have "mset (live u (retire_one u' [z])) = {#}" for u u' z by (simp add: retire_one_def)
  then have one: "live u (retire_one u' [z]) = []" for u u' z using mset_zero_iff by blast
  define m0 where "m0 = inflight_run [(t, If_start (x # c) None), (t + DEFAULT_LEASE_MS, If_start (x # c) None)]"
  have wf: "map_wf m0" "map_wf (snd (incrementInflight (x # c) None t []))"
    unfolding m0_def by (simp_all add: increment_wf)
  have "leases_of m0 (x # c) = [t + DEFAULT_LEASE_MS + DEFAULT_LEASE_MS]"
    unfolding m0_def by (simp add: increment_leases wf(2) capped_push_def MAX_LEASES_PER_CONNECTION_def) (simp add: leases_of_def DEFAULT_LEASE_MS_def)
  moreover from this have "map_get m0 (x # c) \<noteq> None"
    by (cases "map_get m0 (x # c)") (simp_all add: leases_of_def)
  ultimately have "leases_of (decrementInflight (x # c) t' m0) (x # c) = []"
    by (simp add: decrement_leases one)
  then show ?thesis by (simp add: Let_def m0_def look_count)
qed

end
