(* ===== verification/QuotaShare.thy ===== *)
theory QuotaShare
  imports AccountBuckets QuotaInflight
begin

text \<open>
  The strategy of \<^verbatim>\<open>src/open-sse/services/combo/quotaShareStrategy.ts\<close>: among the targets of a quota-share
  combo, those whose connection is used up or busy go to the back, deficit round robin puts one of the
  others first, and the less loaded of the first two gets the request. The state the code keeps in
  three modules is one record here; weights, caps and deficits are real numbers.
\<close>

record combo_target =
  executionKey :: string
  modelStr :: string
  connectionId :: "string option"
  weight :: js_value

type_synonym deficits = "(string, real) js_map"

record quota_state =
  qs_buckets :: buckets
  qs_inflight :: inflight
  qs_drr :: "(string, deficits) js_map"

abbreviation conn :: "combo_target \<Rightarrow> string" where
  "conn t \<equiv> nullish (connectionId t) []"

subsection \<open>The state of the round robin\<close>

definition MAX_DRR_COMBOS :: nat where "MAX_DRR_COMBOS = 200"

definition getDrrDeficits :: "string \<Rightarrow> (string, deficits) js_map \<Rightarrow> deficits \<times> (string, deficits) js_map" where
  "getDrrDeficits comboName st =
     (case map_get st comboName of
        Some deficits \<Rightarrow> (deficits, st)
      | None \<Rightarrow>
          let st' = (if MAX_DRR_COMBOS \<le> length st
                     then (case st of (oldestKey, _) # _ \<Rightarrow> map_delete oldestKey st | [] \<Rightarrow> st) else st)
          in ([], map_set comboName [] st'))"

subsection \<open>Used-up windows\<close>

definition bareModelName :: "string \<Rightarrow> string" where
  "bareModelName m = (if CHR ''/'' \<in> set m then tl (dropWhile (\<lambda>c. c \<noteq> CHR ''/'') m) else m)"

text \<open>The disjunction stops at the first window that is used up.\<close>

definition target_saturated :: "string \<Rightarrow> int \<Rightarrow> string \<Rightarrow> buckets \<Rightarrow> bool \<times> buckets" where
  "target_saturated modelName now connId b =
     (let (s5, b1) = isBucketSaturated connId ''5h'' now b in
      if s5 then (True, b1)
      else let (s7, b2) = isBucketSaturated connId ''7d'' now b1 in
        if s7 then (True, b2)
        else if modelName = [] then (False, b2)
        else isBucketSaturated connId (''7d:'' @ modelName) now b2)"

fun keep_unsaturated :: "string \<Rightarrow> int \<Rightarrow> combo_target list \<Rightarrow> buckets \<Rightarrow> combo_target list \<times> buckets" where
  "keep_unsaturated modelName now [] b = ([], b)"
| "keep_unsaturated modelName now (t # ts) b =
     (if conn t = []
      then let (kept, b') = keep_unsaturated modelName now ts b in (t # kept, b')
      else let (saturated, b1) = target_saturated modelName now (conn t) b;
               (kept, b') = keep_unsaturated modelName now ts b1
           in (if saturated then kept else t # kept, b'))"

definition filterEligibleBySaturation :: "combo_target list \<Rightarrow> string \<Rightarrow> int \<Rightarrow> buckets \<Rightarrow> combo_target list \<times> buckets" where
  "filterEligibleBySaturation targets model now b =
     (let (eligible, b') = keep_unsaturated (bareModelName model) now targets b
      in (if eligible \<noteq> [] then eligible else targets, b'))"

subsection \<open>Connections at their cap\<close>

definition resolveConnectionCap :: "string \<Rightarrow> (string, js_value) js_map option \<Rightarrow> real option" where
  "resolveConnectionCap connId caps =
     (case caps of
        None \<Rightarrow> None
      | Some cs \<Rightarrow>
          if connId = [] then None
          else case map_get cs connId of Some (Number cap) \<Rightarrow> if cap \<le> 0 then None else Some cap | _ \<Rightarrow> None)"

fun partition_loop :: "(string, js_value) js_map \<Rightarrow> int \<Rightarrow> combo_target list \<Rightarrow> inflight
    \<Rightarrow> (combo_target list \<times> combo_target list) \<times> inflight" where
  "partition_loop caps now [] m = (([], []), m)"
| "partition_loop caps now (t # ts) m =
     (case resolveConnectionCap (conn t) (Some caps) of
        None \<Rightarrow> let ((withRoom, atCap), m') = partition_loop caps now ts m in ((t # withRoom, atCap), m')
      | Some cap \<Rightarrow>
          let (n, m1) = getInflight (conn t) now m;
              ((withRoom, atCap), m') = partition_loop caps now ts m1
          in (if cap \<le> of_nat n then (withRoom, t # atCap) else (t # withRoom, atCap), m'))"

definition partitionByConcurrencyCap :: "combo_target list \<Rightarrow> (string, js_value) js_map option \<Rightarrow> int \<Rightarrow> inflight
    \<Rightarrow> (combo_target list \<times> combo_target list) \<times> inflight" where
  "partitionByConcurrencyCap targets caps now m =
     (case caps of
        None \<Rightarrow> ((targets, []), m)
      | Some cs \<Rightarrow>
          if cs = [] then ((targets, []), m)
          else let ((withRoom, atCap), m') = partition_loop cs now targets m
               in (if withRoom = [] then (targets, []) else (withRoom, atCap), m'))"

subsection \<open>Deficit round robin\<close>

fun normalizeWeight :: "js_value \<Rightarrow> real" where
  "normalizeWeight (Number w) = (if w = 0 then 0 else if 0 < w then w else 1)"
| "normalizeWeight _ = 1"

definition deficit_of :: "deficits \<Rightarrow> combo_target \<Rightarrow> real" where
  "deficit_of deficits t = nullish (map_get deficits (executionKey t)) 0"

definition total_weight :: "combo_target list \<Rightarrow> real" where
  "total_weight targets = foldl (\<lambda>sum t. sum + normalizeWeight (weight t)) 0 targets"

definition add_quanta :: "combo_target list \<Rightarrow> deficits \<Rightarrow> deficits" where
  "add_quanta targets deficits =
     foldl (\<lambda>ds t. map_set (executionKey t) (deficit_of ds t + normalizeWeight (weight t) / total_weight targets) ds) deficits targets"

definition drr_winner :: "deficits \<Rightarrow> combo_target list \<Rightarrow> combo_target \<times> real" where
  "drr_winner deficits targets =
     foldl (\<lambda>(winner, best) t. let d = deficit_of deficits t in if best < d then (t, d) else (winner, best))
       (hd targets, deficit_of deficits (hd targets)) (tl targets)"

definition applyDrr :: "combo_target list \<Rightarrow> string \<Rightarrow> (string, deficits) js_map
    \<Rightarrow> combo_target list \<times> (string, deficits) js_map" where
  "applyDrr targets comboName st =
     (if length targets \<le> 1 then (targets, st)
      else let (deficits, st1) = getDrrDeficits comboName st in
        if total_weight targets \<le> 0 then (targets, st1)
        else
          let ds = add_quanta targets deficits;
              (winner, best) = drr_winner ds targets;
              rest = filter (\<lambda>t. executionKey t \<noteq> executionKey winner) targets
          in (winner # rest, map_set comboName (map_set (executionKey winner) (best - 1) ds) st1))"

subsection \<open>The less loaded of two, and the selection\<close>

definition pickByInflightP2C :: "combo_target \<Rightarrow> combo_target \<Rightarrow> int \<Rightarrow> inflight \<Rightarrow> nat \<times> inflight" where
  "pickByInflightP2C first second now m =
     (let (loadFirst, m1) = getInflight (conn first) now m;
          (loadSecond, m2) = getInflight (conn second) now m1
      in (if loadSecond < loadFirst then 1 else 0, m2))"

text \<open>The callback that gives the slot back: what it captured, and its flag.\<close>

record slot_release =
  rl_connection :: string
  rl_now :: int
  rl_released :: bool

definition run_release :: "slot_release \<Rightarrow> quota_state \<Rightarrow> slot_release \<times> quota_state" where
  "run_release r s =
     (if rl_released r then (r, s)
      else (r\<lparr>rl_released := True\<rparr>,
        if rl_connection r = [] then s
        else s\<lparr>qs_inflight := decrementInflight (rl_connection r) (rl_now r) (qs_inflight s)\<rparr>))"

record quota_result =
  qr_target :: "combo_target option"
  qr_ordered :: "combo_target list"
  qr_release :: slot_release

definition swap_first :: "nat \<Rightarrow> combo_target list \<Rightarrow> combo_target \<times> combo_target list" where
  "swap_first pick ordered =
     (if pick = 1 then (ordered ! 1, hd ordered # drop 2 ordered) else (hd ordered, tl ordered))"

definition selectQuotaShareTarget :: "combo_target list \<Rightarrow> string \<Rightarrow> string \<Rightarrow> int
    \<Rightarrow> (string, js_value) js_map option \<Rightarrow> quota_state \<Rightarrow> quota_result \<times> quota_state" where
  "selectQuotaShareTarget targets comboName model now caps s =
     (if targets = []
      then (\<lparr>qr_target = None, qr_ordered = [], qr_release = \<lparr>rl_connection = [], rl_now = now, rl_released = False\<rparr>\<rparr>, s)
      else
        let (eligible, b) = filterEligibleBySaturation targets model now (qs_buckets s);
            saturatedDeprioritized = filter (\<lambda>t. t \<notin> set eligible) targets;
            ((withRoom, atCap), m1) = partitionByConcurrencyCap eligible caps now (qs_inflight s);
            (ordered, drr) = applyDrr withRoom comboName (qs_drr s);
            (pick, m2) = (if 2 \<le> length ordered then pickByInflightP2C (ordered ! 0) (ordered ! 1) now m1 else (0, m1));
            (winner, rest) = swap_first pick ordered;
            m3 = (if conn winner = [] then m2 else snd (incrementInflight (conn winner) None now m2))
        in (\<lparr>qr_target = Some winner,
             qr_ordered = winner # rest @ atCap @ saturatedDeprioritized,
             qr_release = \<lparr>rl_connection = conn winner, rl_now = now, rl_released = False\<rparr>\<rparr>,
            \<lparr>qs_buckets = b, qs_inflight = m3, qs_drr = drr\<rparr>))"

subsection \<open>One round\<close>

text \<open>The targets of a combo are told apart by their execution keys.\<close>

abbreviation keyed :: "combo_target list \<Rightarrow> bool" where
  "keyed ts \<equiv> distinct (map executionKey ts)"

definition share :: "combo_target list \<Rightarrow> combo_target \<Rightarrow> real" where
  "share ts t = normalizeWeight (weight t) / total_weight ts"

lemma normalizeWeight_nonneg: "0 \<le> normalizeWeight w"
  by (cases w) auto

lemma foldl_plus: "foldl (\<lambda>a x. a + f x) z xs = z + (\<Sum>x \<leftarrow> xs. f x :: real)"
  by (induction xs arbitrary: z) simp_all

lemma total_weight_sum: "total_weight ts = (\<Sum>t \<leftarrow> ts. normalizeWeight (weight t))"
  by (simp add: total_weight_def foldl_plus)

lemma sum_list_divide: "(\<Sum>x \<leftarrow> xs. f x / c) = (\<Sum>x \<leftarrow> xs. f x) / (c :: real)"
  by (induction xs) (simp_all add: add_divide_distrib)

lemma shares_sum: "0 < total_weight ts \<Longrightarrow> (\<Sum>t \<leftarrow> ts. share ts t) = 1"
  by (simp add: share_def sum_list_divide flip: total_weight_sum)

lemma keyed_eq: "keyed ts \<Longrightarrow> t \<in> set ts \<Longrightarrow> u \<in> set ts \<Longrightarrow> executionKey t = executionKey u \<Longrightarrow> t = u"
  by (auto simp: distinct_map inj_on_def)

lemma deficit_set: "deficit_of (map_set k v ds) t = (if executionKey t = k then v else deficit_of ds t)"
  by (simp add: deficit_of_def)

lemma add_quanta_deficit:
  assumes "keyed ts" and "t \<in> set ts"
  shows "deficit_of (add_quanta ts ds) t = deficit_of ds t + share ts t"
proof -
  have "deficit_of (foldl (\<lambda>ds t. map_set (executionKey t) (deficit_of ds t + q t) ds) ds us) t
      = deficit_of ds t + q t" if "keyed us" "t \<in> set us" for q :: "combo_target \<Rightarrow> real" and us ds
    using that
  proof (induction us arbitrary: ds)
    case (Cons u us)
    let ?ds = "map_set (executionKey u) (deficit_of ds u + q u) ds"
    have other: "deficit_of (foldl (\<lambda>ds t. map_set (executionKey t) (deficit_of ds t + q t) ds) ds' us') t = deficit_of ds' t"
      if "executionKey t \<notin> executionKey ` set us'" for us' ds'
      using that by (induction us' arbitrary: ds') (auto simp: deficit_set)
    show ?case
    proof (cases "t = u")
      case True
      then show ?thesis using Cons.prems(1) other [of us ?ds] by (simp add: deficit_set)
    next
      case False
      then have "executionKey t \<noteq> executionKey u" using Cons.prems by (auto simp: image_iff)
      then show ?thesis using Cons.IH [of ?ds] Cons.prems False by (simp add: deficit_set)
    qed
  qed simp
  from this [OF assms, where q = "share ts" and ds = ds] show ?thesis by (simp add: add_quanta_def share_def)
qed

lemma drr_winner_max:
  assumes "ts \<noteq> []"
  shows "fst (drr_winner ds ts) \<in> set ts" and "snd (drr_winner ds ts) = deficit_of ds (fst (drr_winner ds ts))"
    and "\<forall>t \<in> set ts. deficit_of ds t \<le> snd (drr_winner ds ts)"
proof -
  have loop: "let r = foldl (\<lambda>(w, b) t. let d = deficit_of ds t in if b < d then (t, d) else (w, b)) (w, deficit_of ds w) us
    in fst r \<in> insert w (set us) \<and> snd r = deficit_of ds (fst r) \<and> (\<forall>t \<in> insert w (set us). deficit_of ds t \<le> snd r)" for w us
  proof (induction us arbitrary: w)
    case (Cons u us)
    show ?case using Cons.IH [of u] Cons.IH [of w] by (auto simp: Let_def)
  qed simp
  obtain u us where ts: "ts = u # us" using assms by (cases ts) auto
  have "let r = drr_winner ds ts in fst r \<in> insert u (set us) \<and> snd r = deficit_of ds (fst r)
      \<and> (\<forall>t \<in> insert u (set us). deficit_of ds t \<le> snd r)"
    using loop [of u us] by (simp only: drr_winner_def ts list.sel)
  then show "fst (drr_winner ds ts) \<in> set ts" "snd (drr_winner ds ts) = deficit_of ds (fst (drr_winner ds ts))"
    "\<forall>t \<in> set ts. deficit_of ds t \<le> snd (drr_winner ds ts)"
    unfolding Let_def ts list.set by blast+
qed

definition deficits_in :: "string \<Rightarrow> (string, deficits) js_map \<Rightarrow> deficits" where
  "deficits_in comboName st = nullish (map_get st comboName) []"

lemma getDrr:
  assumes "map_wf st"
  shows "fst (getDrrDeficits c st) = deficits_in c st" and "map_wf (snd (getDrrDeficits c st))"
  using assms by (auto simp: getDrrDeficits_def deficits_in_def Let_def map_wf_set map_wf_delete split: option.split list.split)

text \<open>What a round does: everybody is credited with his share, one who has the most pays one.\<close>

lemma round_effect:
  assumes wf: "map_wf st" and k: "keyed ts" and two: "2 \<le> length ts" and pos: "0 < total_weight ts"
    and round: "applyDrr ts c st = (ordered, st')"
  defines "before \<equiv> deficit_of (deficits_in c st)" and "after \<equiv> deficit_of (deficits_in c st')"
  shows "map_wf st'" and "hd ordered \<in> set ts"
    and "\<forall>t \<in> set ts. after t = before t + share ts t - (if t = hd ordered then 1 else 0)"
    and "\<forall>t \<in> set ts. before t + share ts t \<le> before (hd ordered) + share ts (hd ordered)"
proof -
  obtain ds st1 where g: "getDrrDeficits c st = (ds, st1)" by force
  obtain w b where w: "drr_winner (add_quanta ts ds) ts = (w, b)" by force
  have ds: "ds = deficits_in c st" "map_wf st1" using getDrr [OF wf, of c] by (simp_all add: g)
  have "ts \<noteq> []" using two by auto
  note max = drr_winner_max [OF this, of "add_quanta ts ds", unfolded w fst_conv snd_conv]
  have q: "deficit_of (add_quanta ts ds) t = before t + share ts t" if "t \<in> set ts" for t
    using add_quanta_deficit [OF k that, of ds] by (simp add: before_def ds)
  have st': "ordered = w # filter (\<lambda>t. executionKey t \<noteq> executionKey w) ts"
    "st' = map_set c (map_set (executionKey w) (b - 1) (add_quanta ts ds)) st1"
    using round two pos by (auto simp: applyDrr_def g w Let_def)
  show "map_wf st'" "hd ordered \<in> set ts" by (simp_all add: st' map_wf_set ds max)
  show "\<forall>t \<in> set ts. after t = before t + share ts t - (if t = hd ordered then 1 else 0)"
  proof
    fix t assume t: "t \<in> set ts"
    have "executionKey t = executionKey w \<longleftrightarrow> t = w" using keyed_eq [OF k t max(1)] by auto
    then show "after t = before t + share ts t - (if t = hd ordered then 1 else 0)"
      by (simp add: after_def deficits_in_def st' deficit_set q t max(1,2))
  qed
  show "\<forall>t \<in> set ts. before t + share ts t \<le> before (hd ordered) + share ts (hd ordered)"
    using max by (auto simp: st' q)
qed

subsection \<open>Many rounds\<close>

text \<open>The targets the round robin puts first in \<open>n\<close> rounds over the same targets, and the state after them.\<close>

fun drr_rounds :: "nat \<Rightarrow> combo_target list \<Rightarrow> string \<Rightarrow> (string, deficits) js_map
    \<Rightarrow> combo_target list \<times> (string, deficits) js_map" where
  "drr_rounds 0 ts c st = ([], st)"
| "drr_rounds (Suc n) ts c st =
     (let (firsts, st1) = drr_rounds n ts c st; (ordered, st2) = applyDrr ts c st1 in (firsts @ [hd ordered], st2))"

definition drr_ok :: "combo_target list \<Rightarrow> (combo_target \<Rightarrow> real) \<Rightarrow> bool" where
  "drr_ok ts d \<longleftrightarrow> (\<Sum>t \<leftarrow> ts. d t) = 0 \<and> (\<forall>t \<in> set ts. - 1 < d t)"

lemma sum_one_member:
  assumes "distinct ts" and "w \<in> set ts"
  shows "(\<Sum>t \<leftarrow> ts. if t = w then 1 else 0) = (1 :: real)"
  using assms by (simp add: sum_list_distinct_conv_sum_set)

text \<open>The one with the most credit has some: the credits of a round add up to one.\<close>

lemma max_positive:
  assumes "ts \<noteq> []" and "(\<Sum>t \<leftarrow> ts. f t) = (1 :: real)" and "\<forall>t \<in> set ts. f t \<le> m"
  shows "0 < m"
proof (rule ccontr)
  assume "\<not> 0 < m"
  then have "\<forall>t \<in> set ts. f t \<le> 0" using assms(3) by force
  then have "(\<Sum>t \<leftarrow> ts. f t) \<le> 0" by (rule_tac sum_list_nonpos) auto
  with assms(2) show False by simp
qed

lemma round_keeps_ok:
  assumes k: "keyed ts" and ne: "ts \<noteq> []" and pos: "0 < total_weight ts" and ok: "drr_ok ts d" and w: "w \<in> set ts"
    and after: "\<forall>t \<in> set ts. d' t = d t + share ts t - (if t = w then 1 else 0)"
    and most: "\<forall>t \<in> set ts. d t + share ts t \<le> d w + share ts w"
  shows "drr_ok ts d'"
proof -
  have dist: "distinct ts" using k by (simp add: distinct_map)
  have credit: "(\<Sum>t \<leftarrow> ts. d t + share ts t) = 1"
    using ok shares_sum [OF pos] by (simp add: sum_list_addf drr_ok_def)
  have "(\<Sum>t \<leftarrow> ts. d' t) = (\<Sum>t \<leftarrow> ts. (d t + share ts t) - (if t = w then 1 else 0))"
    using after by (intro arg_cong [where f = sum_list] map_cong) auto
  also have "\<dots> = 0" using credit sum_one_member [OF dist w] by (simp add: sum_list_subtractf)
  finally have sum: "(\<Sum>t \<leftarrow> ts. d' t) = 0" .
  have "- 1 < d' t" if t: "t \<in> set ts" for t
  proof (cases "t = w")
    case True
    have "0 < d w + share ts w" by (rule max_positive [OF ne credit most])
    then show ?thesis using after t True by simp
  next
    case False
    have "0 \<le> share ts t" using pos by (simp add: share_def normalizeWeight_nonneg)
    moreover have "- 1 < d t" using ok t by (simp add: drr_ok_def)
    ultimately show ?thesis using after t False by simp
  qed
  with sum show ?thesis by (simp add: drr_ok_def)
qed

lemma rounds_ok:
  assumes "keyed ts" and "2 \<le> length ts" and "0 < total_weight ts" and "map_wf st" and "map_get st c = None"
    and "drr_rounds n ts c st = (firsts, st')"
  defines "D \<equiv> deficit_of (deficits_in c st')"
  shows "map_wf st' \<and> drr_ok ts D \<and> (\<forall>t \<in> set ts. D t = real n * share ts t - real (count_list firsts t))"
  using assms(6) unfolding D_def
proof (induction n arbitrary: firsts st')
  case 0
  then have st': "firsts = []" "st' = st" by simp_all
  have "deficit_of (deficits_in c st) t = 0" for t by (simp add: deficits_in_def assms(5) deficit_of_def)
  then show ?case using assms(4) by (simp add: st' drr_ok_def)
next
  case (Suc n)
  obtain fs st1 where r: "drr_rounds n ts c st = (fs, st1)" by force
  obtain ord st2 where a: "applyDrr ts c st1 = (ord, st2)" by force
  have st': "firsts = fs @ [hd ord]" "st' = st2" using Suc.prems by (simp_all add: r a)
  note IH = Suc.IH [OF r]
  have ne: "ts \<noteq> []" using assms(2) by auto
  note eff = round_effect [OF IH [THEN conjunct1] assms(1-3) a]
  have "drr_ok ts (deficit_of (deficits_in c st2))"
    by (rule round_keeps_ok [OF assms(1) ne assms(3) _ eff(2-4)]) (use IH in blast)
  moreover have "\<forall>t \<in> set ts. deficit_of (deficits_in c st2) t = real (Suc n) * share ts t - real (count_list firsts t)"
  proof
    fix t assume t: "t \<in> set ts"
    have "deficit_of (deficits_in c st1) t = real n * share ts t - real (count_list fs t)" using IH t by blast
    then show "deficit_of (deficits_in c st2) t = real (Suc n) * share ts t - real (count_list firsts t)"
      using eff(3) t by (auto simp: st' algebra_simps)
  qed
  ultimately show ?case using eff(1) by (simp add: st')
qed

lemma ok_below:
  assumes "drr_ok ts d" and "distinct ts" and "t \<in> set ts"
  shows "d t \<le> real (length ts) - 1"
proof -
  have "(\<Sum>u \<leftarrow> ts. d u) = d t + (\<Sum>u \<leftarrow> remove1 t ts. d u)" using assms(3) by (simp add: sum_list_map_remove1)
  moreover have "(\<Sum>u \<leftarrow> remove1 t ts. - 1) \<le> (\<Sum>u \<leftarrow> remove1 t ts. d u)"
    using assms(1,2) by (intro sum_list_mono) (auto simp: drr_ok_def less_imp_le)
  moreover have "(\<Sum>u \<leftarrow> remove1 t ts. - 1) = 1 - real (length ts)"
    using assms(3) of_nat_diff [OF Suc_leI [OF length_pos_if_in_set [OF assms(3)]], where 'a = real]
    by (simp add: sum_list_triv length_remove1)
  ultimately show ?thesis using assms(1) by (simp add: drr_ok_def)
qed

text \<open>
  C21: The round robin is fair: however many rounds it has run over the same targets, it has put each of
  them first as often as its share of the weights asks for, up to less than one time more and at most
  the number of the other targets less.
\<close>

theorem drr_fair:
  assumes "keyed ts" and "2 \<le> length ts" and "0 < total_weight ts" and "map_wf st" and "map_get st c = None"
    and "t \<in> set ts"
  shows "real (count_list (fst (drr_rounds n ts c st)) t) < real n * share ts t + 1
    \<and> real n * share ts t - (real (length ts) - 1) \<le> real (count_list (fst (drr_rounds n ts c st)) t)"
proof -
  obtain firsts st' where r: "drr_rounds n ts c st = (firsts, st')" by force
  note ok = rounds_ok [OF assms(1-5) r]
  let ?d = "deficit_of (deficits_in c st')"
  have d: "?d t = real n * share ts t - real (count_list firsts t)" "drr_ok ts ?d" "- 1 < ?d t"
    using ok assms(6) by (auto simp: drr_ok_def)
  have "?d t \<le> real (length ts) - 1"
    by (rule ok_below [OF d(2) _ assms(6)]) (use assms(1) in \<open>simp add: distinct_map\<close>)
  with d(1,3) show ?thesis unfolding r fst_conv by linarith
qed

theorem drr_fair_witness:
  "let a = \<lparr>executionKey = ''a'', modelStr = ''m'', connectionId = None, weight = Number 3\<rparr>;
       b = \<lparr>executionKey = ''b'', modelStr = ''m'', connectionId = None, weight = Number 1\<rparr> in
   real (count_list (fst (drr_rounds 100 [a, b] ''c'' [])) a) < 76
   \<and> 74 \<le> real (count_list (fst (drr_rounds 100 [a, b] ''c'' [])) a)"
proof -
  define a b where "a = \<lparr>executionKey = ''a'', modelStr = ''m'', connectionId = None, weight = Number 3\<rparr>"
    and "b = \<lparr>executionKey = ''b'', modelStr = ''m'', connectionId = None, weight = Number 1\<rparr>"
  have "keyed [a, b]" "total_weight [a, b] = 4" "share [a, b] a = 3 / 4"
    by (simp_all add: a_def b_def total_weight_def share_def)
  with drr_fair [of "[a, b]" "[]" "''c''" a 100] show ?thesis
    unfolding Let_def a_def [symmetric] b_def [symmetric] by simp
qed

subsection \<open>The gates read the state as it is\<close>

definition saturated_at :: "string \<Rightarrow> int \<Rightarrow> buckets \<Rightarrow> combo_target \<Rightarrow> bool" where
  "saturated_at model now b t \<longleftrightarrow> conn t \<noteq> [] \<and>
     (bucket_says now (map_get b (storeKey (conn t) ''5h''))
      \<or> bucket_says now (map_get b (storeKey (conn t) ''7d''))
      \<or> (bareModelName model \<noteq> [] \<and> bucket_says now (map_get b (storeKey (conn t) (''7d:'' @ bareModelName model)))))"

text \<open>Two stores that say the same from a time on; two counters that count the same.\<close>

definition same_buckets :: "int \<Rightarrow> buckets \<Rightarrow> buckets \<Rightarrow> bool" where
  "same_buckets now b b' \<longleftrightarrow> (\<forall>k. bucket_says now (map_get b' k) = bucket_says now (map_get b k))"

definition same_load :: "int \<Rightarrow> inflight \<Rightarrow> inflight \<Rightarrow> bool" where
  "same_load now m m' \<longleftrightarrow> (\<forall>c. live now (leases_of m' c) = live now (leases_of m c))"

lemma same_refl [simp]: "same_buckets now b b" "same_load now m m"
  by (simp_all add: same_buckets_def same_load_def)

lemma same_buckets_trans: "same_buckets now a b \<Longrightarrow> same_buckets now b c \<Longrightarrow> same_buckets now a c"
  by (simp add: same_buckets_def)

lemma same_load_trans: "same_load now a b \<Longrightarrow> same_load now b c \<Longrightarrow> same_load now a c"
  by (simp add: same_load_def)

lemma read_same: "same_buckets now b (snd (isBucketSaturated c w now b))"
  by (simp add: same_buckets_def read_keeps)

lemma saturated_at_same: "same_buckets now b b' \<Longrightarrow> saturated_at model now b' = saturated_at model now b"
  by (auto simp: same_buckets_def saturated_at_def fun_eq_iff)

lemma look_same: "same_load now m (snd (getInflight c now m))"
  by (simp add: same_load_def look_leases)

lemma target_saturated_reads:
  assumes "conn t \<noteq> []"
  shows "fst (target_saturated (bareModelName model) now (conn t) b) = saturated_at model now b t"
    and "same_buckets now b (snd (target_saturated (bareModelName model) now (conn t) b))"
proof -
  let ?c = "conn t" and ?w = "''7d:'' @ bareModelName model"
  define b1 b2 where "b1 = snd (isBucketSaturated ?c ''5h'' now b)" and "b2 = snd (isBucketSaturated ?c ''7d'' now b1)"
  have same: "same_buckets now b b1" "same_buckets now b b2"
    using read_same read_same same_buckets_trans by (unfold b1_def b2_def) blast+
  have r: "isBucketSaturated ?c ''5h'' now b = (bucket_says now (map_get b (storeKey ?c ''5h'')), b1)"
    "isBucketSaturated ?c ''7d'' now b1 = (bucket_says now (map_get b1 (storeKey ?c ''7d'')), b2)"
    "fst (isBucketSaturated ?c ?w now b2) = bucket_says now (map_get b2 (storeKey ?c ?w))"
    unfolding b1_def b2_def by (intro prod_eqI; simp add: read_says assms)+ (simp add: read_says assms)
  have says: "bucket_says now (map_get b1 k) = bucket_says now (map_get b k)"
    "bucket_says now (map_get b2 k) = bucket_says now (map_get b k)" for k
    using same by (simp_all add: same_buckets_def)
  have last: "same_buckets now b (snd (isBucketSaturated ?c ?w now b2))"
    using same(2) read_same same_buckets_trans by blast
  show "fst (target_saturated (bareModelName model) now ?c b) = saturated_at model now b t"
    using assms r(3) by (simp add: target_saturated_def r(1,2) saturated_at_def says)
  show "same_buckets now b (snd (target_saturated (bareModelName model) now ?c b))"
    using same last by (simp add: target_saturated_def r(1,2))
qed

lemma keep_unsaturated_filter:
  "keep_unsaturated (bareModelName model) now ts b = (kept, b')
    \<Longrightarrow> kept = filter (\<lambda>t. \<not> saturated_at model now b t) ts \<and> same_buckets now b b'"
proof (induction ts arbitrary: b kept b')
  case (Cons t ts)
  show ?case
  proof (cases "conn t = []")
    case True
    then have "\<not> saturated_at model now b t" by (simp add: saturated_at_def)
    with Cons True show ?thesis by (auto split: prod.splits)
  next
    case False
    obtain s b1 where s: "target_saturated (bareModelName model) now (conn t) b = (s, b1)" by force
    have same: "same_buckets now b b1" and eq: "s = saturated_at model now b t"
      using target_saturated_reads [OF False, where model = model and now = now and b = b] by (simp_all add: s)
    obtain us b2 where r: "keep_unsaturated (bareModelName model) now ts b1 = (us, b2)" by force
    have "us = filter (\<lambda>t. \<not> saturated_at model now b t) ts \<and> same_buckets now b b2"
      using Cons.IH [OF r] same same_buckets_trans by (auto simp: saturated_at_same [OF same])
    with Cons.prems False show ?thesis by (auto simp: s r eq)
  qed
qed simp

definition has_room :: "(string, js_value) js_map option \<Rightarrow> int \<Rightarrow> inflight \<Rightarrow> combo_target \<Rightarrow> bool" where
  "has_room caps now m t = (case resolveConnectionCap (conn t) caps of
     None \<Rightarrow> True | Some cap \<Rightarrow> real (length (live now (leases_of m (conn t)))) < cap)"

lemma has_room_same: "same_load now m m' \<Longrightarrow> has_room caps now m' = has_room caps now m"
  by (auto simp: same_load_def has_room_def fun_eq_iff split: option.split)

lemma cap_connection: "resolveConnectionCap c caps = Some cap \<Longrightarrow> c \<noteq> []"
  by (auto simp: resolveConnectionCap_def split: option.splits)

lemma partition_loop_filter:
  "partition_loop cs now ts m = ((room, full), m')
    \<Longrightarrow> room = filter (has_room (Some cs) now m) ts \<and> full = filter (\<lambda>t. \<not> has_room (Some cs) now m t) ts \<and> same_load now m m'"
proof (induction ts arbitrary: m room full m')
  case (Cons t ts)
  show ?case
  proof (cases "resolveConnectionCap (conn t) (Some cs)")
    case None
    then have "has_room (Some cs) now m t" by (simp add: has_room_def)
    with Cons None show ?thesis by (auto split: prod.splits)
  next
    case (Some cap)
    obtain n m1 where g: "getInflight (conn t) now m = (n, m1)" by force
    have n: "n = length (live now (leases_of m (conn t)))"
      using look_count [OF cap_connection [OF Some], of now m] by (simp add: g)
    have same: "same_load now m m1" using look_same [of now m "conn t"] by (simp add: g)
    obtain r f m2 where p: "partition_loop cs now ts m1 = ((r, f), m2)" by (metis prod.exhaust)
    have "r = filter (has_room (Some cs) now m) ts \<and> f = filter (\<lambda>t. \<not> has_room (Some cs) now m t) ts \<and> same_load now m m2"
      using Cons.IH [OF p] same same_load_trans by (auto simp: has_room_same [OF same])
    moreover have "has_room (Some cs) now m t \<longleftrightarrow> real n < cap" by (simp add: has_room_def Some n)
    ultimately show ?thesis using Cons.prems Some by (auto simp: g p)
  qed
qed simp

subsection \<open>The order of a selection\<close>

text \<open>The three tiers: free, at its cap, used up.\<close>

definition tier :: "string \<Rightarrow> int \<Rightarrow> (string, js_value) js_map option \<Rightarrow> quota_state \<Rightarrow> combo_target \<Rightarrow> nat" where
  "tier model now caps s t =
     (if saturated_at model now (qs_buckets s) t then 2 else if has_room caps now (qs_inflight s) t then 0 else 1)"

lemma filter_eligible:
  assumes "filterEligibleBySaturation ts model now b = (eligible, b')"
  defines "kept \<equiv> filter (\<lambda>t. \<not> saturated_at model now b t) ts"
  shows "eligible = (if kept \<noteq> [] then kept else ts)" and "same_buckets now b b'"
proof -
  obtain us b1 where k: "keep_unsaturated (bareModelName model) now ts b = (us, b1)" by force
  from keep_unsaturated_filter [OF k] assms(1)
  show "eligible = (if kept \<noteq> [] then kept else ts)" "same_buckets now b b'"
    by (auto simp: filterEligibleBySaturation_def k kept_def)
qed

lemma no_caps_room: "caps = None \<or> caps = Some [] \<Longrightarrow> has_room caps now m t"
  by (auto simp: has_room_def resolveConnectionCap_def)

lemma partition_effect:
  assumes "partitionByConcurrencyCap ts caps now m = ((room, full), m')"
  defines "free \<equiv> filter (has_room caps now m) ts"
  shows "(room, full) = (if free \<noteq> [] then (free, filter (\<lambda>t. \<not> has_room caps now m t) ts) else (ts, []))"
    and "same_load now m m'"
proof -
  have "(room, full) = (if free \<noteq> [] then (free, filter (\<lambda>t. \<not> has_room caps now m t) ts) else (ts, [])) \<and> same_load now m m'"
  proof (cases "caps = None \<or> caps = Some []")
    case True
    then have "room = ts" "full = []" "m' = m" using assms(1) by (auto simp: partitionByConcurrencyCap_def)
    then show ?thesis using no_caps_room [OF True, of now m] by (simp add: free_def)
  next
    case False
    then obtain cs where cs: "caps = Some cs" "cs \<noteq> []" by auto
    obtain r f m1 where p: "partition_loop cs now ts m = ((r, f), m1)" by (metis prod.exhaust)
    from partition_loop_filter [OF p] assms(1) show ?thesis
      by (auto simp: partitionByConcurrencyCap_def cs p free_def)
  qed
  then show "(room, full) = (if free \<noteq> [] then (free, filter (\<lambda>t. \<not> has_room caps now m t) ts) else (ts, []))"
    "same_load now m m'" by blast+
qed

lemma filter_out_one:
  assumes "keyed ts" and "w \<in> set ts"
  shows "mset (w # filter (\<lambda>t. executionKey t \<noteq> executionKey w) ts) = mset ts"
proof -
  have "filter (\<lambda>t. executionKey t \<noteq> executionKey w) ts = filter (\<lambda>t. t \<noteq> w) ts"
    using keyed_eq [OF assms(1) _ assms(2)] by (intro filter_cong) auto
  also have "\<dots> = remove1 w ts" using assms(1) by (simp add: distinct_map distinct_remove1_removeAll removeAll_filter_not_eq eq_commute)
  finally show ?thesis using assms(2) by simp
qed

lemma applyDrr_perm:
  assumes "keyed ts"
  shows "mset (fst (applyDrr ts c st)) = mset ts"
proof (cases "length ts \<le> 1")
  case False
  obtain ds st1 where g: "getDrrDeficits c st = (ds, st1)" by force
  obtain w b where w: "drr_winner (add_quanta ts ds) ts = (w, b)" by force
  have "ts \<noteq> []" using False by auto
  from drr_winner_max(1) [OF this, of "add_quanta ts ds"] have "w \<in> set ts" by (simp add: w)
  from filter_out_one [OF assms this] False show ?thesis by (simp add: applyDrr_def g w Let_def)
qed (simp add: applyDrr_def)

lemma swap_first_perm:
  assumes "ordered \<noteq> []" and "pick = 1 \<Longrightarrow> 2 \<le> length ordered" and "swap_first pick ordered = (winner, rest)"
  shows "mset (winner # rest) = mset ordered"
proof -
  obtain a as where a: "ordered = a # as" using assms(1) by (cases ordered) auto
  show ?thesis
  proof (cases "pick = 1")
    case True
    then obtain b bs where "as = b # bs" using assms(2) by (cases as) (auto simp: a)
    then show ?thesis using assms(3) True by (auto simp: swap_first_def a)
  next
    case False
    then show ?thesis using assms(3) by (auto simp: swap_first_def a)
  qed
qed

text \<open>What a selection consists of.\<close>

lemma selectE:
  assumes "selectQuotaShareTarget ts c model now caps s = (r, s')" and "ts \<noteq> []"
  obtains eligible b withRoom atCap m1 ordered drr pick m2 winner rest
  where "filterEligibleBySaturation ts model now (qs_buckets s) = (eligible, b)"
    and "partitionByConcurrencyCap eligible caps now (qs_inflight s) = ((withRoom, atCap), m1)"
    and "applyDrr withRoom c (qs_drr s) = (ordered, drr)"
    and "(pick, m2) = (if 2 \<le> length ordered then pickByInflightP2C (ordered ! 0) (ordered ! 1) now m1 else (0, m1))"
    and "swap_first pick ordered = (winner, rest)"
    and "r = \<lparr>qr_target = Some winner, qr_ordered = winner # rest @ atCap @ filter (\<lambda>t. t \<notin> set eligible) ts,
      qr_release = \<lparr>rl_connection = conn winner, rl_now = now, rl_released = False\<rparr>\<rparr>"
    and "s' = \<lparr>qs_buckets = b, qs_inflight = (if conn winner = [] then m2 else snd (incrementInflight (conn winner) None now m2)), qs_drr = drr\<rparr>"
proof -
  obtain eligible b where f: "filterEligibleBySaturation ts model now (qs_buckets s) = (eligible, b)" by force
  obtain withRoom atCap m1 where p: "partitionByConcurrencyCap eligible caps now (qs_inflight s) = ((withRoom, atCap), m1)"
    by (metis prod.exhaust)
  obtain ordered drr where a: "applyDrr withRoom c (qs_drr s) = (ordered, drr)" by force
  obtain pick m2 where k: "(if 2 \<le> length ordered then pickByInflightP2C (ordered ! 0) (ordered ! 1) now m1 else (0, m1)) = (pick, m2)"
    by (metis prod.exhaust)
  obtain winner rest where w: "swap_first pick ordered = (winner, rest)" by force
  show ?thesis
    by (rule that [OF f p a k [symmetric] w]) (use assms in \<open>auto simp: selectQuotaShareTarget_def Let_def f p a k w\<close>)
qed

lemma sorted_const: "\<forall>x \<in> set xs. f x = k \<Longrightarrow> sorted (map f xs)"
  by (induction xs) auto

text \<open>What the two gates leave: a front that is not empty, those at their cap, and the used-up rest.\<close>

lemma gates:
  assumes f: "filterEligibleBySaturation ts model now (qs_buckets s) = (eligible, b)"
    and p: "partitionByConcurrencyCap eligible caps now (qs_inflight s) = ((room, full), m1)"
    and ne: "ts \<noteq> []" and keyed: "keyed ts"
  defines "back \<equiv> filter (\<lambda>t. t \<notin> set eligible) ts" and "T \<equiv> tier model now caps s"
  shows "room \<noteq> [] \<and> keyed room" and "mset room + mset full + mset back = mset ts"
    and "\<exists>i j. i \<le> j \<and> j \<le> 2 \<and> (\<forall>t \<in> set room. T t = i) \<and> (\<forall>t \<in> set full. T t = j)" and "\<forall>t \<in> set back. T t = 2"
proof -
  let ?sat = "saturated_at model now (qs_buckets s)" and ?room = "has_room caps now (qs_inflight s)"
  let ?kept = "filter (\<lambda>t. \<not> ?sat t) ts" and ?free = "filter ?room eligible"
  have e: "eligible = (if ?kept \<noteq> [] then ?kept else ts)" by (rule filter_eligible(1) [OF f])
  have rf: "(room, full) = (if ?free \<noteq> [] then (?free, filter (\<lambda>t. \<not> ?room t) eligible) else (eligible, []))"
    by (rule partition_effect(1) [OF p])
  have "eligible \<noteq> []" "keyed eligible" using ne keyed by (auto simp: e distinct_map_filter)
  then show "room \<noteq> [] \<and> keyed room" using rf by (auto simp: distinct_map_filter split: if_splits)
  have parts: "mset room + mset full = mset eligible" using rf by (auto split: if_splits)
  have "?kept \<noteq> [] \<Longrightarrow> back = filter ?sat ts" by (auto simp: back_def e intro: filter_cong)
  then show "mset room + mset full + mset back = mset ts" by (cases "?kept = []") (simp_all add: parts e back_def)
  show "\<forall>t \<in> set back. T t = 2" by (auto simp: back_def T_def e tier_def)
  have within: "set room \<union> set full \<subseteq> set eligible" using parts by (metis order.refl set_mset_mset set_mset_union)
  consider "?kept = []" | "?kept \<noteq> []" "?free = []" | "?kept \<noteq> []" "?free \<noteq> []" by blast
  then show "\<exists>i j. i \<le> j \<and> j \<le> 2 \<and> (\<forall>t \<in> set room. T t = i) \<and> (\<forall>t \<in> set full. T t = j)"
  proof cases
    case 1
    then have "\<forall>t \<in> set eligible. T t = 2" by (simp add: e tier_def T_def filter_empty_conv)
    then show ?thesis using within by (intro exI [of _ 2]) auto
  next
    case 2
    then have "\<forall>t \<in> set eligible. T t = 1" by (auto simp: e tier_def T_def filter_empty_conv)
    then show ?thesis using within by (intro exI [of _ 1]) auto
  next
    case 3
    then have "room = ?free" "full = filter (\<lambda>t. \<not> ?room t) eligible" "\<forall>t \<in> set eligible. \<not> ?sat t" using rf by (auto simp: e)
    then show ?thesis by (intro exI [of _ 0] exI [of _ 1]) (auto simp: tier_def T_def)
  qed
qed

text \<open>
  C22: A selection never drops a target and never blocks: the order it returns is a rearrangement of the
  targets, begins with the target it chose, and has those that are free before those at their
  cap and these before those that are used up. So the chosen one is free whenever one is.
\<close>

theorem selection_tiers:
  assumes "selectQuotaShareTarget ts c model now caps s = (r, s')" and "keyed ts" and "ts \<noteq> []"
  shows "mset (qr_ordered r) = mset ts \<and> qr_target r = Some (hd (qr_ordered r))
    \<and> sorted (map (tier model now caps s) (qr_ordered r))"
proof -
  from assms(1,3) obtain eligible b room full m1 ordered drr pick m2 w rest
    where f: "filterEligibleBySaturation ts model now (qs_buckets s) = (eligible, b)"
      and p: "partitionByConcurrencyCap eligible caps now (qs_inflight s) = ((room, full), m1)"
      and a: "applyDrr room c (qs_drr s) = (ordered, drr)"
      and k: "(pick, m2) = (if 2 \<le> length ordered then pickByInflightP2C (ordered ! 0) (ordered ! 1) now m1 else (0, m1))"
      and w: "swap_first pick ordered = (w, rest)"
      and r: "r = \<lparr>qr_target = Some w, qr_ordered = w # rest @ full @ filter (\<lambda>t. t \<notin> set eligible) ts,
        qr_release = \<lparr>rl_connection = conn w, rl_now = now, rl_released = False\<rparr>\<rparr>"
    by (rule selectE)
  note g = gates [OF f p assms(3,2)]
  have ord: "mset ordered = mset room" using applyDrr_perm [of room c "qs_drr s"] g(1) by (simp add: a)
  then have "ordered \<noteq> []" using g(1) by auto
  from swap_first_perm [OF this _ w] k have front: "mset (w # rest) = mset room"
    by (auto simp: ord split: if_splits)
  then have front_set: "set (w # rest) = set room" by (metis set_mset_mset)
  have "mset (qr_ordered r) = mset (w # rest) + mset full + mset (filter (\<lambda>t. t \<notin> set eligible) ts)" by (simp add: r)
  then have perm: "mset (qr_ordered r) = mset ts" by (simp only: front g(2))
  from g(3) obtain i j where ij: "i \<le> j" "j \<le> 2" "\<forall>t \<in> set (w # rest). tier model now caps s t = i"
    "\<forall>t \<in> set full. tier model now caps s t = j" unfolding front_set by blast
  have "sorted (map (tier model now caps s) ((w # rest) @ full @ filter (\<lambda>t. t \<notin> set eligible) ts))"
    using sorted_const [OF ij(3)] sorted_const [OF ij(4)] sorted_const [OF g(4)] ij g(4)
    unfolding map_append sorted_append by (auto simp: ball_Un)
  with perm show ?thesis by (simp add: r)
qed

theorem selection_tiers_witness:
  "let a = \<lparr>executionKey = ''a'', modelStr = ''m'', connectionId = Some ''x'', weight = Number 3\<rparr>;
       b = \<lparr>executionKey = ''b'', modelStr = ''m'', connectionId = Some ''y'', weight = Number 1\<rparr>;
       s = \<lparr>qs_buckets = [(storeKey ''x'' ''5h'', \<lparr>bu_saturated = True, bu_resetsAtMs = 0\<rparr>)], qs_inflight = [], qs_drr = []\<rparr>;
       r = fst (selectQuotaShareTarget [a, b] ''combo'' ''p/m'' 5 None s) in
   mset (qr_ordered r) = {#a, b#} \<and> sorted (map (tier ''p/m'' 5 None s) (qr_ordered r)) \<and> tier ''p/m'' 5 None s a = 2"
proof -
  define a b s where "a = \<lparr>executionKey = ''a'', modelStr = ''m'', connectionId = Some ''x'', weight = Number 3\<rparr>"
    and "b = \<lparr>executionKey = ''b'', modelStr = ''m'', connectionId = Some ''y'', weight = Number 1\<rparr>"
    and "s = \<lparr>qs_buckets = [(storeKey ''x'' ''5h'', \<lparr>bu_saturated = True, bu_resetsAtMs = 0\<rparr>)], qs_inflight = [], qs_drr = []\<rparr>"
  have "keyed [a, b]" by (simp add: a_def b_def)
  from selection_tiers [OF prod.collapse [symmetric] this, of "''combo''" "''p/m''" 5 None s]
  have "mset (qr_ordered (fst (selectQuotaShareTarget [a, b] ''combo'' ''p/m'' 5 None s))) = {#a, b#}
    \<and> sorted (map (tier ''p/m'' 5 None s) (qr_ordered (fst (selectQuotaShareTarget [a, b] ''combo'' ''p/m'' 5 None s))))"
    by simp
  moreover have "tier ''p/m'' 5 None s a = 2"
    by (simp add: tier_def saturated_at_def a_def s_def bucket_says_def)
  ultimately show ?thesis unfolding Let_def a_def [symmetric] b_def [symmetric] s_def [symmetric] by blast
qed

subsection \<open>Reserving and releasing\<close>

lemma pick_same: "pickByInflightP2C x y now m = (pick, m') \<Longrightarrow> same_load now m m'"
  using look_same same_load_trans by (auto simp: pickByInflightP2C_def split: prod.splits) (metis snd_conv)

lemma look_wf': "getInflight c now m = (n, m') \<Longrightarrow> map_wf m \<Longrightarrow> map_wf m'"
  using look_wf [of m c now] by simp

lemma partition_loop_wf: "partition_loop cs now ts m = (p, m') \<Longrightarrow> map_wf m \<Longrightarrow> map_wf m'"
  by (induction ts arbitrary: m p m') (fastforce split: option.splits prod.splits dest: look_wf')+

lemma partition_wf: "partitionByConcurrencyCap ts caps now m = (p, m') \<Longrightarrow> map_wf m \<Longrightarrow> map_wf m'"
  by (auto simp: partitionByConcurrencyCap_def split: option.splits if_splits prod.splits dest: partition_loop_wf)

lemma pick_wf: "pickByInflightP2C x y now m = (pick, m') \<Longrightarrow> map_wf m \<Longrightarrow> map_wf m'"
  by (auto simp: pickByInflightP2C_def split: prod.splits dest!: look_wf')

text \<open>Reserving a slot and giving it back at the time of the selection.\<close>

lemma reserve_effect:
  assumes "map_wf m" and "c \<noteq> []" and "length (live now (leases_of m c)) < MAX_LEASES_PER_CONNECTION"
  defines "m' \<equiv> snd (incrementInflight c None now m)"
  shows "leases_of m' d = live now (leases_of m d) @ (if d = c then [now + DEFAULT_LEASE_MS] else [])"
    and "same_load now m (decrementInflight c now m')"
proof -
  show l: "leases_of m' d = live now (leases_of m d) @ (if d = c then [now + DEFAULT_LEASE_MS] else [])" for d
    using assms by (cases "d = c") (auto simp: increment_leases capped_push_def)
  have lc: "leases_of m' c = live now (leases_of m c) @ [now + DEFAULT_LEASE_MS]" by (simp add: l)
  then have "map_get m' c \<noteq> None" by (cases "map_get m' c") (simp_all add: leases_of_def)
  moreover have "lastIndexWhere (leases_of m' c) (\<lambda>x. x \<le> now) = None"
    by (auto simp: lastIndexWhere_None lc DEFAULT_LEASE_MS_def)
  then have "retire_one now (leases_of m' c) = live now (leases_of m c)" by (simp add: retire_one_def lc)
  ultimately show "same_load now m (decrementInflight c now m')"
    using assms(2) by (auto simp: same_load_def decrement_leases l)
qed

lemma select_inflight:
  assumes "selectQuotaShareTarget ts c model now caps s = (r, s')" and "ts \<noteq> []" and "map_wf (qs_inflight s)"
  obtains m2 where "same_load now (qs_inflight s) m2" and "map_wf m2"
    and "qs_inflight s' = (if rl_connection (qr_release r) = [] then m2
      else snd (incrementInflight (rl_connection (qr_release r)) None now m2))"
    and "rl_now (qr_release r) = now" and "\<not> rl_released (qr_release r)"
proof -
  from assms(1,2) obtain eligible b room full m1 ordered pick m2 w rest drr
    where p: "partitionByConcurrencyCap eligible caps now (qs_inflight s) = ((room, full), m1)"
      and k: "(pick, m2) = (if 2 \<le> length ordered then pickByInflightP2C (ordered ! 0) (ordered ! 1) now m1 else (0, m1))"
      and r: "r = \<lparr>qr_target = Some w, qr_ordered = w # rest @ full @ filter (\<lambda>t. t \<notin> set eligible) ts,
        qr_release = \<lparr>rl_connection = conn w, rl_now = now, rl_released = False\<rparr>\<rparr>"
      and s': "s' = \<lparr>qs_buckets = b, qs_inflight = (if conn w = [] then m2 else snd (incrementInflight (conn w) None now m2)), qs_drr = drr\<rparr>"
    by (rule selectE)
  have m1: "same_load now (qs_inflight s) m1" "map_wf m1"
    using partition_effect(2) [OF p] partition_wf [OF p assms(3)] by blast+
  have m2: "same_load now m1 m2" "map_wf m2" using k m1(2)
    by (auto split: if_splits dest: pick_same [OF sym] pick_wf [OF sym])
  show ?thesis
    by (rule that [OF same_load_trans [OF m1(1) m2(1)] m2(2)]) (simp_all add: r s')
qed

text \<open>
  A selection reserves exactly one slot, on the connection of the target it chose, and the callback
  gives exactly that slot back, once however often it is called: at the time of the selection
  every connection counts as many requests as before.
\<close>

theorem release_undoes_selection:
  assumes "selectQuotaShareTarget ts c model now caps s = (r, s')" and "ts \<noteq> []" and "map_wf (qs_inflight s)"
    and "length (live now (leases_of (qs_inflight s) (rl_connection (qr_release r)))) < MAX_LEASES_PER_CONNECTION"
    and "run_release (qr_release r) s' = (rel, s2)"
  shows "fst (getInflight d now (qs_inflight s')) = fst (getInflight d now (qs_inflight s))
      + (if d = rl_connection (qr_release r) \<and> d \<noteq> [] then 1 else 0)
    \<and> fst (getInflight d now (qs_inflight s2)) = fst (getInflight d now (qs_inflight s))
    \<and> run_release rel s2 = (rel, s2)"
proof -
  let ?c = "rl_connection (qr_release r)"
  from assms(1-3) obtain m2 where m2: "same_load now (qs_inflight s) m2" "map_wf m2"
    and s': "qs_inflight s' = (if ?c = [] then m2 else snd (incrementInflight ?c None now m2))"
    and rel: "rl_now (qr_release r) = now" "\<not> rl_released (qr_release r)" by (rule select_inflight)
  have room: "length (live now (leases_of m2 ?c)) < MAX_LEASES_PER_CONNECTION"
    using assms(4) m2(1) by (simp add: same_load_def)
  have s2: "qs_inflight s2 = (if ?c = [] then m2 else decrementInflight ?c now (qs_inflight s'))" "run_release rel s2 = (rel, s2)"
    using assms(5) rel s' by (auto simp: run_release_def split: if_splits)
  have "same_load now (qs_inflight s) (qs_inflight s2)"
  proof (cases "?c = []")
    case True
    with m2 s2 show ?thesis by simp
  next
    case False
    from reserve_effect(2) [OF m2(2) False room] same_load_trans [OF m2(1)] False show ?thesis by (simp add: s2(1) s')
  qed
  then have undone: "fst (getInflight d now (qs_inflight s2)) = fst (getInflight d now (qs_inflight s))"
    by (cases "d = []") (simp_all add: getInflight_def [of "[]"] look_count same_load_def)
  have live: "live now (leases_of (qs_inflight s') d)
    = live now (leases_of (qs_inflight s) d) @ (if d = ?c \<and> d \<noteq> [] then [now + DEFAULT_LEASE_MS] else [])" if "d \<noteq> []"
  proof (cases "?c = []")
    case True
    with m2(1) s' that show ?thesis by (simp add: same_load_def)
  next
    case False
    have "leases_of (qs_inflight s') d = live now (leases_of m2 d) @ (if d = ?c then [now + DEFAULT_LEASE_MS] else [])"
      using reserve_effect(1) [OF m2(2) False room, of d] False by (simp add: s')
    with m2(1) that show ?thesis by (simp add: same_load_def DEFAULT_LEASE_MS_def)
  qed
  have "fst (getInflight d now (qs_inflight s')) = fst (getInflight d now (qs_inflight s)) + (if d = ?c \<and> d \<noteq> [] then 1 else 0)"
    by (cases "d = []") (simp_all add: getInflight_def [of "[]"] look_count live)
  with undone s2(2) show ?thesis by simp
qed

theorem release_undoes_selection_witness:
  "let a = \<lparr>executionKey = ''a'', modelStr = ''m'', connectionId = Some ''x'', weight = Number 1\<rparr>;
       s = \<lparr>qs_buckets = [], qs_inflight = [(''x'', [7])], qs_drr = []\<rparr>;
       (r, s') = selectQuotaShareTarget [a] ''combo'' ''m'' 5 None s;
       s2 = snd (run_release (qr_release r) s') in
   fst (getInflight ''x'' 5 (qs_inflight s')) = 2 \<and> fst (getInflight ''x'' 5 (qs_inflight s2)) = 1"
proof -
  define a s where "a = \<lparr>executionKey = ''a'', modelStr = ''m'', connectionId = Some ''x'', weight = Number 1\<rparr>"
    and "s = \<lparr>qs_buckets = [], qs_inflight = [(''x'', [7 :: int])], qs_drr = []\<rparr>"
  obtain r s' where sel: "selectQuotaShareTarget [a] ''combo'' ''m'' 5 None s = (r, s')" by force
  obtain rel s2 where rel: "run_release (qr_release r) s' = (rel, s2)" by force
  have "isBucketSaturated k w 5 [] = (False, [])" for k w by (simp add: isBucketSaturated_def)
  then have "filterEligibleBySaturation [a] ''m'' 5 [] = ([a], [])"
    by (simp add: filterEligibleBySaturation_def target_saturated_def a_def)
  then have "qr_release r = \<lparr>rl_connection = conn a, rl_now = 5, rl_released = False\<rparr>"
    using sel by (auto simp: selectQuotaShareTarget_def partitionByConcurrencyCap_def applyDrr_def swap_first_def s_def)
  then have c: "rl_connection (qr_release r) = ''x''" by (simp add: a_def)
  have "fst (getInflight ''x'' 5 (qs_inflight s')) = 1 + 1 \<and> fst (getInflight ''x'' 5 (qs_inflight s2)) = 1"
    using release_undoes_selection [OF sel _ _ _ rel, of "''x''"]
    by (simp add: c) (simp add: s_def leases_of_def MAX_LEASES_PER_CONNECTION_def getInflight_def)
  with sel rel show ?thesis unfolding Let_def a_def [symmetric] s_def [symmetric] by simp
qed

subsection \<open>A target that is switched off\<close>

text \<open>
  A weight of zero does not switch a target off: while the request of the only target with a weight
  is on its way, the next selection is for the target of weight zero, since the less loaded of the
  first two wins whatever their weights, and the other one still pays for it.
\<close>

theorem disabled_target_serves:
  fixes x y :: char and now :: int
  assumes "x \<noteq> y"
  defines "on \<equiv> \<lparr>executionKey = ''on'', modelStr = ''m'', connectionId = Some [x], weight = Number 1\<rparr>"
    and "off \<equiv> \<lparr>executionKey = ''off'', modelStr = ''m'', connectionId = Some [y], weight = Number 0\<rparr>"
  defines "s1 \<equiv> snd (selectQuotaShareTarget [on, off] ''combo'' ''m'' now None \<lparr>qs_buckets = [], qs_inflight = [], qs_drr = []\<rparr>)"
  shows "qr_target (fst (selectQuotaShareTarget [on, off] ''combo'' ''m'' now None s1)) = Some off"
proof -
  have reads: "isBucketSaturated c w now [] = (False, [])" for c w by (simp add: isBucketSaturated_def)
  then have elig: "filterEligibleBySaturation [on, off] ''m'' now [] = ([on, off], [])"
    by (simp add: filterEligibleBySaturation_def target_saturated_def on_def off_def)
  have part: "partitionByConcurrencyCap [on, off] None now m = (([on, off], []), m)" for m
    by (simp add: partitionByConcurrencyCap_def)
  have drr: "applyDrr [on, off] ''combo'' [] = ([on, off], [(''combo'', [(''on'', 0), (''off'', 0)])])"
    "applyDrr [on, off] ''combo'' [(''combo'', [(''on'', 0), (''off'', 0)])] = ([on, off], [(''combo'', [(''on'', 0), (''off'', 0)])])"
    by (simp_all add: applyDrr_def getDrrDeficits_def MAX_DRR_COMBOS_def total_weight_def add_quanta_def drr_winner_def deficit_of_def on_def off_def)
  have conns: "conn on = [x]" "conn off = [y]" by (simp_all add: on_def off_def)
  have s1: "s1 = \<lparr>qs_buckets = [], qs_inflight = [([x], [now + DEFAULT_LEASE_MS])], qs_drr = [(''combo'', [(''on'', 0), (''off'', 0)])]\<rparr>"
    by (simp add: s1_def selectQuotaShareTarget_def elig part drr pickByInflightP2C_def getInflight_def conns swap_first_def
        incrementInflight_def pruneExpired_def MAX_LEASES_PER_CONNECTION_def)
  show ?thesis
    using assms(1) by (simp add: s1 selectQuotaShareTarget_def elig part drr pickByInflightP2C_def getInflight_def conns swap_first_def DEFAULT_LEASE_MS_def)
qed

theorem disabled_target_serves_witness:
  "qr_target (fst (selectQuotaShareTarget [\<lparr>executionKey = ''on'', modelStr = ''m'', connectionId = Some ''x'', weight = Number 1\<rparr>,
     \<lparr>executionKey = ''off'', modelStr = ''m'', connectionId = Some ''y'', weight = Number 0\<rparr>] ''combo'' ''m'' 3 None
     (snd (selectQuotaShareTarget [\<lparr>executionKey = ''on'', modelStr = ''m'', connectionId = Some ''x'', weight = Number 1\<rparr>,
       \<lparr>executionKey = ''off'', modelStr = ''m'', connectionId = Some ''y'', weight = Number 0\<rparr>] ''combo'' ''m'' 3 None
       \<lparr>qs_buckets = [], qs_inflight = [], qs_drr = []\<rparr>))))
   = Some \<lparr>executionKey = ''off'', modelStr = ''m'', connectionId = Some ''y'', weight = Number 0\<rparr>"
  using disabled_target_serves [of "CHR ''x''" "CHR ''y''" 3] by simp

end
