(* ===== verification/StickyRounds.thy ===== *)
theory StickyRounds
  imports QuotaShare
begin

text \<open>
  The round robin of \<^verbatim>\<open>src/open-sse/services/combo/rrState.ts\<close>: a combo serves a target until it has
  succeeded a number of times in a row, then the next. \<open>to_number\<close> is the function \<open>Number\<close>.
\<close>

record sticky =
  sk_executionKey :: string
  sk_successCount :: nat

record rr_state =
  rr_counters :: "(string, nat) js_map"
  rr_stickyTargets :: "(string, sticky) js_map"
  rr_weightedTargets :: "(string, sticky) js_map"

fun clamp_number :: "js_value \<Rightarrow> int" where
  "clamp_number (Number r) = min (max \<lfloor>r\<rfloor> 1) 1000"
| "clamp_number _ = 1"

definition clampStickyRoundRobinTargetLimit :: "('v \<Rightarrow> js_value) \<Rightarrow> 'v \<Rightarrow> int" where
  "clampStickyRoundRobinTargetLimit to_number v = clamp_number (to_number v)"

fun findIndex :: "('a \<Rightarrow> bool) \<Rightarrow> 'a list \<Rightarrow> nat option" where
  "findIndex P [] = None"
| "findIndex P (x # xs) = (if P x then Some 0 else map_option Suc (findIndex P xs))"

definition counter_of :: "string \<Rightarrow> rr_state \<Rightarrow> nat" where
  "counter_of comboName s = nullish (map_get (rr_counters s) comboName) 0"

text \<open>The start index is not a number when there is no target.\<close>

definition getStickyRoundRobinStartIndex :: "string \<Rightarrow> combo_target list \<Rightarrow> int \<Rightarrow> rr_state \<Rightarrow> nat option \<times> nat" where
  "getStickyRoundRobinStartIndex comboName targets stickyLimit s =
     (let robin = (if targets = [] then None else Some (counter_of comboName s mod length targets), counter_of comboName s) in
      case map_get (rr_stickyTargets s) comboName of
        None \<Rightarrow> robin
      | Some st \<Rightarrow>
          (case findIndex (\<lambda>t. executionKey t = sk_executionKey st) targets of
             None \<Rightarrow> robin
           | Some i \<Rightarrow>
               if 1 < stickyLimit \<and> int (sk_successCount st) < stickyLimit
               then (Some i, counter_of comboName s) else robin))"

definition next_count :: "sticky option \<Rightarrow> string \<Rightarrow> nat" where
  "next_count st key = (case st of Some x \<Rightarrow> if sk_executionKey x = key then sk_successCount x + 1 else 1 | None \<Rightarrow> 1)"

definition recordStickyRoundRobinSuccess :: "string \<Rightarrow> combo_target \<Rightarrow> int \<Rightarrow> combo_target list \<Rightarrow> rr_state \<Rightarrow> rr_state" where
  "recordStickyRoundRobinSuccess comboName target stickyLimit targets s =
     (let successCount = next_count (map_get (rr_stickyTargets s) comboName) (executionKey target) in
      if stickyLimit \<le> int successCount
      then s\<lparr>rr_counters := map_set comboName
               (case findIndex (\<lambda>t. executionKey t = executionKey target) targets of
                  Some i \<Rightarrow> i + 1 | None \<Rightarrow> counter_of comboName s + 1) (rr_counters s),
             rr_stickyTargets := map_delete comboName (rr_stickyTargets s)\<rparr>
      else s\<lparr>rr_stickyTargets := map_set comboName
               \<lparr>sk_executionKey = executionKey target, sk_successCount = successCount\<rparr> (rr_stickyTargets s)\<rparr>)"

definition getStickyWeightedExecutionKey :: "string \<Rightarrow> int \<Rightarrow> rr_state \<Rightarrow> string option" where
  "getStickyWeightedExecutionKey comboName stickyLimit s =
     (case map_get (rr_weightedTargets s) comboName of
        None \<Rightarrow> None
      | Some st \<Rightarrow> if stickyLimit \<le> 1 \<or> stickyLimit \<le> int (sk_successCount st) then None else Some (sk_executionKey st))"

definition recordStickyWeightedSuccess :: "string \<Rightarrow> string \<Rightarrow> int \<Rightarrow> rr_state \<Rightarrow> rr_state" where
  "recordStickyWeightedSuccess comboName key stickyLimit s =
     (let successCount = next_count (map_get (rr_weightedTargets s) comboName) key in
      if stickyLimit \<le> int successCount
      then s\<lparr>rr_weightedTargets := map_delete comboName (rr_weightedTargets s)\<rparr>
      else s\<lparr>rr_weightedTargets := map_set comboName \<lparr>sk_executionKey = key, sk_successCount = successCount\<rparr> (rr_weightedTargets s)\<rparr>)"

record 'v sticky_settings =
  ss_comboStickyRoundRobinLimit :: "'v option"
  ss_stickyRoundRobinLimit :: "'v option"

text \<open>A value that is absent is \<open>undefined\<close>, which is not a number, or \<open>null\<close>, which is zero: both give the least limit.\<close>

definition resolveComboStickyRoundRobinLimit :: "('v \<Rightarrow> js_value) \<Rightarrow> 'v option \<Rightarrow> 'v sticky_settings option \<Rightarrow> int" where
  "resolveComboStickyRoundRobinLimit to_number perComboLimit settings =
     (case perComboLimit of
        Some v \<Rightarrow> clampStickyRoundRobinTargetLimit to_number v
      | None \<Rightarrow>
          (case settings of
             None \<Rightarrow> 1
           | Some st \<Rightarrow>
               (case ss_comboStickyRoundRobinLimit st of
                  Some v \<Rightarrow> clampStickyRoundRobinTargetLimit to_number v
                | None \<Rightarrow>
                    (case ss_stickyRoundRobinLimit st of
                       Some v \<Rightarrow> clampStickyRoundRobinTargetLimit to_number v
                     | None \<Rightarrow> 1))))"

subsection \<open>Limits\<close>

lemma clamp_range: "1 \<le> clamp_number v \<and> clamp_number v \<le> 1000"
  by (cases v) auto

lemma limit_range: "1 \<le> resolveComboStickyRoundRobinLimit to_number p st \<and> resolveComboStickyRoundRobinLimit to_number p st \<le> 1000"
  by (auto simp: resolveComboStickyRoundRobinLimit_def clampStickyRoundRobinTargetLimit_def clamp_range split: option.split)

subsection \<open>Batches\<close>

lemma findIndex_key:
  assumes "keyed ts" and "i < length ts"
  shows "findIndex (\<lambda>t. executionKey t = executionKey (ts ! i)) ts = Some i"
  using assms
proof (induction ts arbitrary: i)
  case (Cons t ts)
  show ?case
  proof (cases i)
    case (Suc j)
    then have j: "j < length ts" "executionKey t \<noteq> executionKey (ts ! j)" using Cons.prems by (auto simp: image_iff)
    then show ?thesis using Cons.IH [of j] Cons.prems Suc by simp
  qed simp
qed simp

text \<open>The indices the combo starts at when every request is served by the target it starts with and succeeds.\<close>

fun served :: "nat \<Rightarrow> string \<Rightarrow> combo_target list \<Rightarrow> int \<Rightarrow> rr_state \<Rightarrow> nat list" where
  "served 0 c ts l s = []"
| "served (Suc n) c ts l s =
     (case fst (getStickyRoundRobinStartIndex c ts l s) of
        None \<Rightarrow> []
      | Some i \<Rightarrow> i # served n c ts l (recordStickyRoundRobinSuccess c (ts ! i) l ts s))"

text \<open>After \<open>k\<close> successes, counted from the start of a cycle.\<close>

definition rr_at :: "string \<Rightarrow> combo_target list \<Rightarrow> nat \<Rightarrow> nat \<Rightarrow> rr_state \<Rightarrow> bool" where
  "rr_at c ts L k s \<longleftrightarrow>
     (let i = (k div L) mod length ts; j = k mod L in
      counter_of c s mod length ts = i
      \<and> map_get (rr_stickyTargets s) c = (if j = 0 then None else Some \<lparr>sk_executionKey = executionKey (ts ! i), sk_successCount = j\<rparr>))"

lemma rr_step:
  assumes "keyed ts" and "ts \<noteq> []" and "0 < L" and "rr_at c ts L k s"
  defines "i \<equiv> (k div L) mod length ts"
  shows "fst (getStickyRoundRobinStartIndex c ts (int L) s) = Some i
    \<and> rr_at c ts L (Suc k) (recordStickyRoundRobinSuccess c (ts ! i) (int L) ts s)"
proof -
  have i: "i < length ts" using assms(2) by (simp add: i_def)
  note idx = findIndex_key [OF assms(1) i]
  have at: "counter_of c s mod length ts = i"
    "map_get (rr_stickyTargets s) c = (if k mod L = 0 then None else Some \<lparr>sk_executionKey = executionKey (ts ! i), sk_successCount = k mod L\<rparr>)"
    using assms(4) by (simp_all add: rr_at_def i_def Let_def)
  have less: "k mod L < L" using assms(3) by simp
  have start: "fst (getStickyRoundRobinStartIndex c ts (int L) s) = Some i"
    using at less assms(2) idx by (auto simp: getStickyRoundRobinStartIndex_def Let_def)
  have count: "next_count (map_get (rr_stickyTargets s) c) (executionKey (ts ! i)) = Suc (k mod L)"
    by (auto simp: next_count_def at(2))
  have "rr_at c ts L (Suc k) (recordStickyRoundRobinSuccess c (ts ! i) (int L) ts s)"
  proof (cases "Suc (k mod L) = L")
    case True
    then have div: "Suc k div L = Suc (k div L)" "Suc k mod L = 0" by (simp_all add: div_Suc mod_Suc)
    have "(Suc i) mod length ts = Suc (k div L) mod length ts" by (simp add: i_def mod_Suc_eq)
    then show ?thesis
      by (simp add: rr_at_def Let_def recordStickyRoundRobinSuccess_def count True div idx counter_of_def)
  next
    case False
    then have div: "Suc k div L = k div L" "Suc k mod L = Suc (k mod L)" by (simp_all add: div_Suc mod_Suc)
    have "\<not> int L \<le> int (Suc (k mod L))" using False less by simp
    then show ?thesis using at(1)
      by (simp add: rr_at_def Let_def recordStickyRoundRobinSuccess_def count div i_def [symmetric] counter_of_def)
  qed
  with start show ?thesis by blast
qed

lemma served_from:
  assumes "keyed ts" and "ts \<noteq> []" and "0 < L"
  shows "rr_at c ts L k s \<Longrightarrow> served n c ts (int L) s = map (\<lambda>m. (m div L) mod length ts) [k..<k + n]"
proof (induction n arbitrary: k s)
  case (Suc n)
  have "[k..<k + Suc n] = k # [Suc k..<Suc k + n]" by (simp add: upt_conv_Cons del: upt_Suc)
  then show ?case
    using rr_step [OF assms Suc.prems] Suc.IH [of "Suc k"] by (simp del: upt_Suc)
qed simp

text \<open>
  The round robin serves in batches: on a combo without history whose requests succeed on the target they
  start with, the first \<open>L\<close> start with the first target, the next \<open>L\<close> with the second, and so on around,
  where \<open>L\<close> is the limit, from one up.
\<close>

theorem sticky_batches:
  assumes "keyed ts" and "ts \<noteq> []" and "0 < L" and "map_get (rr_counters s) c = None" and "map_get (rr_stickyTargets s) c = None"
  shows "served n c ts (int L) s = map (\<lambda>m. (m div L) mod length ts) [0..<n]"
proof -
  have "rr_at c ts L 0 s" using assms by (simp add: rr_at_def counter_of_def)
  from served_from [OF assms(1-3) this, of n] show ?thesis by simp
qed

theorem sticky_batches_witness:
  "let t = (\<lambda>k. \<lparr>executionKey = k, modelStr = ''m'', connectionId = None, weight = Number 1\<rparr>) in
   served 7 ''c'' [t ''a'', t ''b'', t ''x''] 2 \<lparr>rr_counters = [], rr_stickyTargets = [], rr_weightedTargets = []\<rparr> = [0, 0, 1, 1, 2, 2, 0]"
proof -
  define t where "t = (\<lambda>k. \<lparr>executionKey = k, modelStr = ''m'', connectionId = None, weight = Number 1\<rparr>)"
  have "keyed [t ''a'', t ''b'', t ''x'']" by (simp add: t_def)
  from sticky_batches [OF this, of 2 "\<lparr>rr_counters = [], rr_stickyTargets = [], rr_weightedTargets = []\<rparr>" "''c''" 7]
  show ?thesis unfolding Let_def t_def [symmetric] by (simp add: upt_rec)
qed

text \<open>A target of weight, once picked, is picked until its batch is over.\<close>

lemma weighted_batch:
  assumes "map_get (rr_weightedTargets s) c = (if j = 0 then None else Some \<lparr>sk_executionKey = k, sk_successCount = j\<rparr>)" and "int j < l"
  shows "getStickyWeightedExecutionKey c l (recordStickyWeightedSuccess c k l s) = (if int (Suc j) < l then Some k else None)"
  using assms by (auto simp: getStickyWeightedExecutionKey_def recordStickyWeightedSuccess_def next_count_def Let_def)

end
