(* ===== verification/FailureTracker.thy ===== *)
theory FailureTracker
  imports Prelude
begin

text \<open>
  The counter of \<^verbatim>\<open>src/open-sse/services/combo/failureTracker.ts\<close>: after three failures in a row of a
  combo for a session, the session's pin is cleared. \<open>deleteSessionModelHistory\<close> belongs to the
  database; it is a parameter that gives the history it leaves, or nothing when it throws.
\<close>

definition COMBO_FAILURE_THRESHOLD :: nat where "COMBO_FAILURE_THRESHOLD = 3"
definition COUNTER_TTL_MS :: int where "COUNTER_TTL_MS = 5 * 60 * 1000"
definition MAX_ENTRIES :: nat where "MAX_ENTRIES = 2000"

record failure_entry =
  fe_count :: nat
  fe_lastFailureAt :: int
  fe_pinClearedThisStreak :: bool

type_synonym failure_map = "(string, failure_entry) js_map"

definition keyOf :: "string \<Rightarrow> string \<Rightarrow> string" where
  "keyOf sessionId comboName = sessionId @ ''::'' @ comboName"

text \<open>The walk for the oldest entry: the first of the least time.\<close>

definition oldest_key :: "failure_map \<Rightarrow> string option" where
  "oldest_key m = map_option fst (foldl (\<lambda>best (k, entry).
     case best of
       None \<Rightarrow> Some (k, fe_lastFailureAt entry)
     | Some (bk, t) \<Rightarrow> if fe_lastFailureAt entry < t then Some (k, fe_lastFailureAt entry) else best) None m)"

lemma oldest_key_in: "m \<noteq> [] \<Longrightarrow> \<exists>k. oldest_key m = Some k \<and> k \<in> fst ` set m"
proof -
  let ?f = "\<lambda>best (k, entry). case best of
       None \<Rightarrow> Some (k, fe_lastFailureAt entry)
     | Some (bk, t) \<Rightarrow> if fe_lastFailureAt entry < t then Some (k, fe_lastFailureAt entry) else best"
  have run: "\<exists>k t. foldl ?f (Some (k0, t0)) m = Some (k, t) \<and> k \<in> insert k0 (fst ` set m)" for k0 t0 and m :: failure_map
  proof (induction m arbitrary: k0 t0)
    case (Cons p m)
    obtain k1 e where p: "p = (k1, e)" by (cases p)
    show ?case using Cons.IH [of k1 "fe_lastFailureAt e"] Cons.IH [of k0 t0] by (auto simp: p)
  qed simp
  assume "m \<noteq> []"
  then obtain k e ms where m: "m = (k, e) # ms" by (cases m) auto
  show ?thesis using run [of k "fe_lastFailureAt e" ms] by (auto simp: oldest_key_def m)
qed

lemma map_delete_shorter: "k \<in> fst ` set m \<Longrightarrow> length (map_delete k m) < length m"
  by (auto simp: AList.delete_eq intro!: filter_length_less)

text \<open>The loop that holds the cap.\<close>

function drop_oldest :: "failure_map \<Rightarrow> failure_map" where
  "drop_oldest m =
     (if MAX_ENTRIES < length m
      then case oldest_key m of None \<Rightarrow> m | Some k \<Rightarrow> drop_oldest (map_delete k m)
      else m)"
  by pat_completeness auto
termination
proof (relation "measure length")
  fix m k
  assume "MAX_ENTRIES < length m" "oldest_key m = Some k"
  moreover from this have "m \<noteq> []" by auto
  ultimately have "k \<in> fst ` set m" using oldest_key_in by force
  then show "(map_delete k m, m) \<in> measure length" by (simp add: map_delete_shorter)
qed simp

declare drop_oldest.simps [simp del]

definition evict_failures :: "int \<Rightarrow> failure_map \<Rightarrow> failure_map" where
  "evict_failures now m = drop_oldest (filter (\<lambda>(k, entry). \<not> COUNTER_TTL_MS < now - fe_lastFailureAt entry) m)"

record failure_result =
  fr_count :: nat
  fr_pinClearedNow :: bool

definition recordComboFailure :: "(string \<Rightarrow> string \<Rightarrow> 'h \<Rightarrow> 'h option) \<Rightarrow> string option \<Rightarrow> string \<Rightarrow> int
    \<Rightarrow> failure_map \<times> 'h \<Rightarrow> failure_result \<times> failure_map \<times> 'h" where
  "recordComboFailure deleteSessionModelHistory sessionId comboName now s =
     (let (m, h) = s in
      if nullish sessionId [] = [] then (\<lparr>fr_count = 0, fr_pinClearedNow = False\<rparr>, m, h)
      else
        let sid = nullish sessionId [];
            m1 = evict_failures now m;
            key = keyOf sid comboName;
            existing = map_get m1 key;
            count = (case existing of Some e \<Rightarrow> fe_count e | None \<Rightarrow> 0) + 1;
            pinClearedBefore = (case existing of Some e \<Rightarrow> fe_pinClearedThisStreak e | None \<Rightarrow> False);
            shouldClearNow = (COMBO_FAILURE_THRESHOLD \<le> count \<and> \<not> pinClearedBefore);
            m2 = map_set key \<lparr>fe_count = count, fe_lastFailureAt = now, fe_pinClearedThisStreak = shouldClearNow \<or> pinClearedBefore\<rparr> m1;
            h' = (if shouldClearNow then nullish (deleteSessionModelHistory sid comboName h) h else h)
        in (\<lparr>fr_count = count, fr_pinClearedNow = shouldClearNow\<rparr>, m2, h'))"

definition clearComboFailureTracking :: "string option \<Rightarrow> string \<Rightarrow> failure_map \<Rightarrow> failure_map" where
  "clearComboFailureTracking sessionId comboName m =
     (if nullish sessionId [] = [] then m else map_delete (keyOf (nullish sessionId []) comboName) m)"

definition getComboFailureCount :: "string option \<Rightarrow> string \<Rightarrow> int \<Rightarrow> failure_map \<Rightarrow> nat" where
  "getComboFailureCount sessionId comboName now m =
     (if nullish sessionId [] = [] then 0
      else case map_get m (keyOf (nullish sessionId []) comboName) of
        None \<Rightarrow> 0
      | Some e \<Rightarrow> if COUNTER_TTL_MS < now - fe_lastFailureAt e then 0 else fe_count e)"

subsection \<open>Bounds\<close>

lemma drop_oldest_length: "length (drop_oldest m) \<le> MAX_ENTRIES"
proof (induction m rule: drop_oldest.induct)
  case (1 m)
  show ?case
  proof (cases "MAX_ENTRIES < length m")
    case True
    then have "m \<noteq> []" by auto
    then obtain k where k: "oldest_key m = Some k" using oldest_key_in by blast
    show ?thesis using 1 [OF True k] True by (simp add: drop_oldest.simps [of m] k)
  next
    case False
    then show ?thesis by (simp add: drop_oldest.simps [of m])
  qed
qed

lemma drop_oldest_small: "length m \<le> MAX_ENTRIES \<Longrightarrow> drop_oldest m = m"
  by (simp add: drop_oldest.simps)

lemma map_set_length: "length (map_set k v m) \<le> Suc (length m)"
  by (induction m) auto

text \<open>
  The tracker is bounded: whatever it held, after a failure it holds at most 2001 entries (the
  cap is enforced before the entry is written), and looking for entries to drop always ends.
\<close>

theorem tracker_bounded:
  assumes "sessionId \<noteq> None" and "sessionId \<noteq> Some []"
  shows "length (fst (snd (recordComboFailure del sessionId comboName now s))) \<le> Suc MAX_ENTRIES"
proof -
  obtain sid where sid: "sessionId = Some sid" "sid \<noteq> []" using assms by auto
  have "length (map_set k v (evict_failures now m)) \<le> Suc MAX_ENTRIES" for k v m
    using map_set_length [of k v "evict_failures now m"] drop_oldest_length
    by (simp add: evict_failures_def le_trans)
  then show ?thesis by (simp add: recordComboFailure_def sid Let_def split: prod.split)
qed

theorem tracker_bounded_witness:
  "length (fst (snd (recordComboFailure (\<lambda>_ _ h. Some h) (Some ''s'') ''c'' 7 ([], ())))) \<le> 2001"
  using tracker_bounded [of "Some ''s''" "\<lambda>_ _ h. Some h" "''c''" 7 "([], ())"] by (simp add: MAX_ENTRIES_def)

subsection \<open>A streak\<close>

fun steady :: "int list \<Rightarrow> bool" where
  "steady (t # u # ts) = (u - t \<le> COUNTER_TTL_MS \<and> steady (u # ts))"
| "steady _ = True"

fun fail_run :: "(string \<Rightarrow> string \<Rightarrow> 'h \<Rightarrow> 'h option) \<Rightarrow> string \<Rightarrow> string \<Rightarrow> int list
    \<Rightarrow> failure_map \<times> 'h \<Rightarrow> failure_result list \<times> failure_map \<times> 'h" where
  "fail_run del sid combo [] s = ([], s)"
| "fail_run del sid combo (t # ts) s =
     (let (r, s1) = recordComboFailure del (Some sid) combo t s;
          (rs, s2) = fail_run del sid combo ts s1
      in (r # rs, s2))"

lemma kept_entry:
  "map_get m k = Some e \<Longrightarrow> now - fe_lastFailureAt e \<le> COUNTER_TTL_MS
    \<Longrightarrow> map_get (filter (\<lambda>(k, entry). \<not> COUNTER_TTL_MS < now - fe_lastFailureAt entry) m) k = Some e"
  by (induction m) (auto split: if_splits)

lemma absent_entry: "map_get m k = None \<Longrightarrow> map_get (filter P m) k = None"
  by (auto simp: map_of_eq_None_iff)

lemma evict_small: "length m \<le> MAX_ENTRIES
    \<Longrightarrow> evict_failures now m = filter (\<lambda>(k, entry). \<not> COUNTER_TTL_MS < now - fe_lastFailureAt entry) m"
  unfolding evict_failures_def by (rule drop_oldest_small) (rule le_trans [OF length_filter_le])

text \<open>The state of a streak of \<open>n\<close> failures, the last at \<open>t\<close>; before the first there is no entry.\<close>

definition streak :: "string \<Rightarrow> nat \<Rightarrow> int \<Rightarrow> failure_map \<Rightarrow> bool" where
  "streak key n t m \<longleftrightarrow>
     (if n = 0 then map_get m key = None \<and> length m < MAX_ENTRIES
      else map_get m key = Some \<lparr>fe_count = n, fe_lastFailureAt = t, fe_pinClearedThisStreak = 3 \<le> n\<rparr> \<and> length m \<le> MAX_ENTRIES)"

lemma streak_step:
  assumes "streak (keyOf sid combo) n t m" and "n = 0 \<or> now - t \<le> COUNTER_TTL_MS" and "sid \<noteq> []"
  shows "\<exists>m'. recordComboFailure del (Some sid) combo now (m, h)
      = (\<lparr>fr_count = Suc n, fr_pinClearedNow = (n = 2)\<rparr>, m', if n = 2 then nullish (del sid combo h) h else h)
    \<and> streak (keyOf sid combo) (Suc n) now m'"
proof -
  let ?k = "keyOf sid combo" and ?m1 = "evict_failures now m"
  have len: "length m \<le> MAX_ENTRIES" using assms(1) by (auto simp: streak_def split: if_splits)
  have "length ?m1 \<le> length m" unfolding evict_small [OF len] by (rule length_filter_le)
  have get: "map_get ?m1 ?k = (if n = 0 then None else Some \<lparr>fe_count = n, fe_lastFailureAt = t, fe_pinClearedThisStreak = 3 \<le> n\<rparr>)"
  proof (cases "n = 0")
    case True
    then show ?thesis using assms(1) by (simp add: streak_def evict_small [OF len] absent_entry)
  next
    case False
    then have "map_get m ?k = Some \<lparr>fe_count = n, fe_lastFailureAt = t, fe_pinClearedThisStreak = 3 \<le> n\<rparr>"
      using assms(1) by (simp add: streak_def)
    from kept_entry [OF this] show ?thesis using assms(2) False by (simp add: evict_small [OF len])
  qed
  have fits: "length (map_set ?k v ?m1) \<le> MAX_ENTRIES" for v
  proof (cases "n = 0")
    case True
    then have "length ?m1 < MAX_ENTRIES" using assms(1) \<open>length ?m1 \<le> length m\<close> by (simp add: streak_def)
    then show ?thesis using map_set_length [of ?k v ?m1] by simp
  next
    case False
    then have "map_get ?m1 ?k \<noteq> None" by (simp add: get)
    from length_set_present [OF this] show ?thesis using len \<open>length ?m1 \<le> length m\<close> by simp
  qed
  let ?e = "\<lparr>fe_count = Suc n, fe_lastFailureAt = now, fe_pinClearedThisStreak = 3 \<le> Suc n\<rparr>"
  have "recordComboFailure del (Some sid) combo now (m, h)
      = (\<lparr>fr_count = Suc n, fr_pinClearedNow = (n = 2)\<rparr>, map_set ?k ?e ?m1, if n = 2 then nullish (del sid combo h) h else h)"
    using assms(3) by (auto simp: recordComboFailure_def Let_def get COMBO_FAILURE_THRESHOLD_def)
  moreover have "streak ?k (Suc n) now (map_set ?k ?e ?m1)" by (simp add: streak_def fits)
  ultimately show ?thesis by blast
qed

lemma streak_run:
  assumes "streak (keyOf sid combo) n t m" and "n = 0 \<and> steady ts \<or> steady (t # ts)" and "sid \<noteq> []"
  shows "\<exists>m' t'. fail_run del sid combo ts (m, h)
      = (map (\<lambda>i. \<lparr>fr_count = i, fr_pinClearedNow = (i = 3)\<rparr>) [Suc n..<Suc n + length ts], m',
         if n < 3 \<and> 3 \<le> n + length ts then nullish (del sid combo h) h else h)
    \<and> streak (keyOf sid combo) (n + length ts) t' m'"
  using assms(1,2)
proof (induction ts arbitrary: n t m h)
  case Nil
  then show ?case by auto
next
  case (Cons u ts)
  have "n = 0 \<or> u - t \<le> COUNTER_TTL_MS" and steady: "steady (u # ts)" using Cons.prems(2) by auto
  from streak_step [where del = del and h = h, OF Cons.prems(1) this(1) assms(3)] obtain m1
    where r: "recordComboFailure del (Some sid) combo u (m, h)
        = (\<lparr>fr_count = Suc n, fr_pinClearedNow = (n = 2)\<rparr>, m1, if n = 2 then nullish (del sid combo h) h else h)"
      and s: "streak (keyOf sid combo) (Suc n) u m1" by blast
  let ?h = "if n = 2 then nullish (del sid combo h) h else h"
  from Cons.IH [OF s, of ?h] steady obtain m' t'
    where run: "fail_run del sid combo ts (m1, ?h)
        = (map (\<lambda>i. \<lparr>fr_count = i, fr_pinClearedNow = (i = 3)\<rparr>) [Suc (Suc n)..<Suc (Suc n) + length ts], m',
           if Suc n < 3 \<and> 3 \<le> Suc n + length ts then nullish (del sid combo ?h) ?h else ?h)"
      and s': "streak (keyOf sid combo) (Suc n + length ts) t' m'" by blast
  have hist: "(if Suc n < 3 \<and> 3 \<le> Suc n + length ts then nullish (del sid combo ?h) ?h else ?h)
      = (if n < 3 \<and> 3 \<le> n + length (u # ts) then nullish (del sid combo h) h else h)"
    by (cases "n < 2"; cases "n = 2"; simp)
  have list: "\<lparr>fr_count = Suc n, fr_pinClearedNow = (n = 2)\<rparr> # map (\<lambda>i. \<lparr>fr_count = i, fr_pinClearedNow = (i = 3)\<rparr>) [Suc (Suc n)..<Suc (Suc n) + length ts]
      = map (\<lambda>i. \<lparr>fr_count = i, fr_pinClearedNow = (i = 3)\<rparr>) [Suc n..<Suc n + length (u # ts)]"
  proof -
    have "[Suc n..<Suc n + length (u # ts)] = Suc n # [Suc (Suc n)..<Suc (Suc n) + length ts]" by (simp add: upt_conv_Cons del: upt_Suc)
    then show ?thesis by (simp del: upt_Suc)
  qed
  have "fail_run del sid combo (u # ts) (m, h)
      = (map (\<lambda>i. \<lparr>fr_count = i, fr_pinClearedNow = (i = 3)\<rparr>) [Suc n..<Suc n + length (u # ts)], m',
         if n < 3 \<and> 3 \<le> n + length (u # ts) then nullish (del sid combo h) h else h)"
    unfolding fail_run.simps r Let_def prod.case run unfolding hist list by (rule refl)
  moreover have "streak (keyOf sid combo) (n + length (u # ts)) t' m'" using s' by simp
  ultimately show ?case by blast
qed

text \<open>
  In a streak of failures of a combo for a session, none more than five minutes after the last, the counts go
  up by one from one, and the session's pin is cleared exactly once: with the third failure.
\<close>

theorem pin_cleared_on_third:
  assumes "sid \<noteq> []" and "map_get m (keyOf sid combo) = None" and "length m < MAX_ENTRIES" and "steady ts"
  shows "fst (fail_run del sid combo ts (m, h)) = map (\<lambda>i. \<lparr>fr_count = i, fr_pinClearedNow = (i = 3)\<rparr>) [1..<Suc (length ts)]
    \<and> snd (snd (fail_run del sid combo ts (m, h))) = (if 3 \<le> length ts then nullish (del sid combo h) h else h)"
proof -
  have "streak (keyOf sid combo) 0 0 m" using assms(2,3) by (simp add: streak_def)
  from streak_run [OF this _ assms(1), of ts del h] assms(4) show ?thesis by auto
qed

theorem pin_cleared_on_third_witness:
  "let ts = [5, 100, 300100, 300200]; run = fail_run (\<lambda>_ _ h. Some (Suc h)) ''s'' ''c'' ts ([], 0) in
   fst run = map (\<lambda>i. \<lparr>fr_count = i, fr_pinClearedNow = (i = 3)\<rparr>) [1..<Suc (length ts)] \<and> snd (snd run) = 1"
proof -
  define ts :: "int list" where "ts = [5, 100, 300100, 300200]"
  have "''s'' \<noteq> []" "map_get ([] :: failure_map) (keyOf ''s'' ''c'') = None" "length ([] :: failure_map) < MAX_ENTRIES"
    "steady ts" "3 \<le> length ts"
    by (simp_all add: MAX_ENTRIES_def COUNTER_TTL_MS_def ts_def)
  with pin_cleared_on_third [of "''s''" "[]" "''c''" ts "\<lambda>_ _ h. Some (Suc h)" 0]
  show ?thesis unfolding Let_def ts_def [symmetric] by simp
qed

text \<open>
  A pin that could not be cleared is reported as cleared: when the deletion throws at the third failure, the
  result still says that the pin was cleared, and no later failure of the streak tries again.
\<close>

theorem failed_clear_reported:
  assumes "sid \<noteq> []" and "map_get m (keyOf sid combo) = None" and "length m < MAX_ENTRIES" and "steady ts"
    and "3 \<le> length ts" and "del sid combo h = None"
  shows "fst (fail_run del sid combo ts (m, h)) ! 2 = \<lparr>fr_count = 3, fr_pinClearedNow = True\<rparr>
    \<and> snd (snd (fail_run del sid combo ts (m, h))) = h"
proof -
  have "streak (keyOf sid combo) 0 0 m" using assms(2,3) by (simp add: streak_def)
  from streak_run [OF this _ assms(1), of ts del h] assms(4-6) show ?thesis by (auto simp: nth_append)
qed

theorem failed_clear_reported_witness:
  "fst (fail_run (\<lambda>_ _ h. None) ''s'' ''c'' [5, 6, 7, 8, 9] ([], ''pin'')) ! 2 = \<lparr>fr_count = 3, fr_pinClearedNow = True\<rparr>"
proof -
  define ts :: "int list" where "ts = [5, 6, 7, 8, 9]"
  have "''s'' \<noteq> []" "map_get ([] :: failure_map) (keyOf ''s'' ''c'') = None" "length ([] :: failure_map) < MAX_ENTRIES"
    "steady ts" "3 \<le> length ts"
    by (simp_all add: MAX_ENTRIES_def COUNTER_TTL_MS_def ts_def)
  from failed_clear_reported [OF this, of "\<lambda>_ _ _. None" "''pin''"] show ?thesis unfolding ts_def by simp
qed

text \<open>Two pairs may share a counter.\<close>

lemma keys_collide: "keyOf (a @ ''::'' @ b) c = keyOf a (b @ ''::'' @ c)"
  by (simp add: keyOf_def)

end
