(* ===== verification/FairShare.thy ===== *)
theory FairShare
  imports Prelude
begin

text \<open>
  The fair shares of a quota pool: the dimensions of \<^verbatim>\<open>src/src/lib/quota/dimensions.ts\<close>, the
  decision of \<^verbatim>\<open>fairShare.ts\<close> and the rates of \<^verbatim>\<open>burnRate.ts\<close>. Amounts and shares are real numbers.
\<close>

subsection \<open>Dimensions\<close>

datatype quota_unit = Percent | Requests | Tokens | Usd
datatype quota_window = Per_5h | Per_hour | Per_day | Per_week | Per_month

text \<open>A policy is checked again when it comes from the database, so it may be any text.\<close>

datatype policy_kind = Hard | Soft | Burst | Other_policy string

fun unit_text :: "quota_unit \<Rightarrow> string" where
  "unit_text Percent = ''percent''"
| "unit_text Requests = ''requests''"
| "unit_text Tokens = ''tokens''"
| "unit_text Usd = ''usd''"

fun window_text :: "quota_window \<Rightarrow> string" where
  "window_text Per_5h = ''5h''"
| "window_text Per_hour = ''hourly''"
| "window_text Per_day = ''daily''"
| "window_text Per_week = ''weekly''"
| "window_text Per_month = ''monthly''"

fun WINDOW_MS :: "quota_window \<Rightarrow> int" where
  "WINDOW_MS Per_hour = 60 * 60 * 1000"
| "WINDOW_MS Per_5h = 5 * 60 * 60 * 1000"
| "WINDOW_MS Per_day = 24 * 60 * 60 * 1000"
| "WINDOW_MS Per_week = 7 * 24 * 60 * 60 * 1000"
| "WINDOW_MS Per_month = 30 * 24 * 60 * 60 * 1000"

record dimension_key =
  dk_poolId :: string
  dk_unit :: quota_unit
  dk_window :: quota_window

definition dimensionKeyToString :: "dimension_key \<Rightarrow> string" where
  "dimensionKeyToString k = dk_poolId k @ '':'' @ unit_text (dk_unit k) @ '':'' @ window_text (dk_window k)"

subsection \<open>The decision\<close>

record fair_share_dimension =
  fd_key :: dimension_key
  fd_limit :: real
  fd_consumedTotal :: real
  fd_globalUsedPercent :: real

record pool_allocation =
  al_apiKeyId :: string
  al_weight :: real
  al_capValue :: "real option"
  al_capUnit :: "quota_unit option"
  al_policy :: policy_kind

datatype fair_reason = Reason_ok | Reason_fair_share | Reason_cap_absolute | Reason_global_saturated

record fair_decision =
  fs_allow :: bool
  fs_reason :: fair_reason
  fs_penalized :: "bool option"
  fs_retryAfterMs :: "real option"

abbreviation block_with :: "fair_reason \<Rightarrow> fair_decision" where
  "block_with r \<equiv> \<lparr>fs_allow = False, fs_reason = r, fs_penalized = None, fs_retryAfterMs = None\<rparr>"

fun normalizePolicy :: "policy_kind \<Rightarrow> policy_kind" where
  "normalizePolicy (Other_policy s) = Hard"
| "normalizePolicy p = p"

text \<open>One turn of the loop: the decision that ends it, or whether the key is penalised so far.\<close>

definition check_dimension :: "pool_allocation \<Rightarrow> policy_kind \<Rightarrow> (string, real) js_map \<Rightarrow> real \<Rightarrow> bool
    \<Rightarrow> fair_share_dimension \<Rightarrow> fair_decision + bool" where
  "check_dimension alloc effectivePolicy consumedByThisKey threshold anyPenalized dm =
     (let consumed = nullish (map_get consumedByThisKey (dimensionKeyToString (fd_key dm))) 0;
          fairShare = al_weight alloc / 100 * fd_limit dm
      in if (case al_capValue alloc of None \<Rightarrow> False
             | Some cap \<Rightarrow> al_capUnit alloc = Some (dk_unit (fd_key dm)) \<and> cap \<le> consumed)
         then Inl (block_with Reason_cap_absolute)
         else if fd_limit dm \<le> fd_consumedTotal dm then Inl (block_with Reason_global_saturated)
         else if threshold \<le> fd_globalUsedPercent dm
         then (case effectivePolicy of
                 Hard \<Rightarrow> if fairShare \<le> consumed then Inl (block_with Reason_fair_share) else Inr anyPenalized
               | Soft \<Rightarrow> Inr (if fairShare \<le> consumed then True else anyPenalized)
               | _ \<Rightarrow> Inr anyPenalized)
         else (case effectivePolicy of
                 Hard \<Rightarrow> if fd_limit dm \<le> consumed then Inl (block_with Reason_global_saturated) else Inr anyPenalized
               | Soft \<Rightarrow> Inr (if fairShare \<le> consumed then True else anyPenalized)
               | _ \<Rightarrow> Inr anyPenalized))"

fun check_dimensions :: "pool_allocation \<Rightarrow> policy_kind \<Rightarrow> (string, real) js_map \<Rightarrow> real \<Rightarrow> bool
    \<Rightarrow> fair_share_dimension list \<Rightarrow> fair_decision + bool" where
  "check_dimensions alloc p consumed threshold pen [] = Inr pen"
| "check_dimensions alloc p consumed threshold pen (dm # dims) =
     bindE (check_dimension alloc p consumed threshold pen dm)
       (\<lambda>pen'. check_dimensions alloc p consumed threshold pen' dims)"

definition decideFairShare :: "fair_share_dimension list \<Rightarrow> pool_allocation \<Rightarrow> (string, real) js_map \<Rightarrow> real \<Rightarrow> fair_decision" where
  "decideFairShare dimensions alloc consumedByThisKey threshold =
     (if dimensions = [] then \<lparr>fs_allow = True, fs_reason = Reason_ok, fs_penalized = None, fs_retryAfterMs = None\<rparr>
      else case check_dimensions alloc (normalizePolicy (al_policy alloc)) consumedByThisKey threshold False dimensions of
        Inl decision \<Rightarrow> decision
      | Inr anyPenalized \<Rightarrow>
          \<lparr>fs_allow = True, fs_reason = Reason_ok, fs_penalized = (if anyPenalized then Some True else None), fs_retryAfterMs = None\<rparr>)"

subsection \<open>Burn rates\<close>

record burn_sample =
  bs_ts :: int
  bs_consumed :: real

record burn_rate =
  br_tokensPerSecond :: real
  br_timeToExhaustionMs :: "real option"

definition EMA_ALPHA :: real where "EMA_ALPHA = 3 / 10"

definition no_burn :: burn_rate where "no_burn = \<lparr>br_tokensPerSecond = 0, br_timeToExhaustionMs = None\<rparr>"

definition burn_result :: "real \<Rightarrow> real option \<Rightarrow> burn_rate" where
  "burn_result safeRate remaining =
     \<lparr>br_tokensPerSecond = safeRate,
      br_timeToExhaustionMs =
        (case remaining of None \<Rightarrow> None
         | Some r \<Rightarrow> if 0 < safeRate \<and> 0 \<le> r then Some (r / safeRate * 1000) else None)\<rparr>"

definition computeBurnRateFromWindow :: "real \<Rightarrow> int \<Rightarrow> real option \<Rightarrow> int \<Rightarrow> burn_rate" where
  "computeBurnRateFromWindow consumedTotal windowMs remaining nowMs =
     (if consumedTotal \<le> 0 \<or> windowMs \<le> 0 then no_burn
      else
        let currentBucketIndex = nowMs div windowMs;
            windowStartMs = currentBucketIndex * windowMs;
            elapsedMs = max 1 (nowMs - windowStartMs)
        in burn_result (consumedTotal / (real_of_int elapsedMs / 1000)) remaining)"

text \<open>The loop over the consecutive pairs; \<open>None\<close> while the average is not initialized.\<close>

definition instant_rate :: "burn_sample \<Rightarrow> burn_sample \<Rightarrow> real" where
  "instant_rate p q = (bs_consumed q - bs_consumed p) / (real_of_int (bs_ts q - bs_ts p) / 1000)"

fun ema_loop :: "real option \<Rightarrow> burn_sample list \<Rightarrow> real option" where
  "ema_loop ema (p # q # rest) =
     ema_loop
       (if bs_ts q - bs_ts p \<le> 0 then ema
        else case ema of
          None \<Rightarrow> Some (instant_rate p q)
        | Some e \<Rightarrow> Some (EMA_ALPHA * instant_rate p q + (1 - EMA_ALPHA) * e))
       (q # rest)"
| "ema_loop ema _ = ema"

definition computeBurnRate :: "burn_sample list \<Rightarrow> real option \<Rightarrow> burn_rate" where
  "computeBurnRate history remaining =
     (if length history < 2 then no_burn
      else case ema_loop None history of
        None \<Rightarrow> no_burn
      | Some emaRate \<Rightarrow> burn_result (max 0 emaRate) remaining)"

subsection \<open>What decides\<close>

text \<open>The obstacle a dimension puts up for a policy, by itself, and whether a soft share is used up in it.\<close>

definition key_use :: "(string, real) js_map \<Rightarrow> fair_share_dimension \<Rightarrow> real" where
  "key_use consumed dm = nullish (map_get consumed (dimensionKeyToString (fd_key dm))) 0"

definition fair_part :: "pool_allocation \<Rightarrow> fair_share_dimension \<Rightarrow> real" where
  "fair_part alloc dm = al_weight alloc / 100 * fd_limit dm"

definition capped_out :: "pool_allocation \<Rightarrow> (string, real) js_map \<Rightarrow> fair_share_dimension \<Rightarrow> bool" where
  "capped_out alloc consumed dm \<longleftrightarrow> (\<exists>cap. al_capValue alloc = Some cap
     \<and> al_capUnit alloc = Some (dk_unit (fd_key dm)) \<and> cap \<le> key_use consumed dm)"

definition obstacle :: "pool_allocation \<Rightarrow> policy_kind \<Rightarrow> (string, real) js_map \<Rightarrow> real \<Rightarrow> fair_share_dimension \<Rightarrow> fair_reason option" where
  "obstacle alloc p consumed threshold dm =
     (if capped_out alloc consumed dm then Some Reason_cap_absolute
      else if fd_limit dm \<le> fd_consumedTotal dm then Some Reason_global_saturated
      else if p = Hard \<and> threshold \<le> fd_globalUsedPercent dm \<and> fair_part alloc dm \<le> key_use consumed dm then Some Reason_fair_share
      else if p = Hard \<and> fd_globalUsedPercent dm < threshold \<and> fd_limit dm \<le> key_use consumed dm then Some Reason_global_saturated
      else None)"

definition over_share :: "pool_allocation \<Rightarrow> policy_kind \<Rightarrow> (string, real) js_map \<Rightarrow> fair_share_dimension \<Rightarrow> bool" where
  "over_share alloc p consumed dm \<longleftrightarrow> p = Soft \<and> fair_part alloc dm \<le> key_use consumed dm"

lemma cap_cases:
  "(case al_capValue alloc of None \<Rightarrow> False
    | Some cap \<Rightarrow> al_capUnit alloc = Some (dk_unit (fd_key dm)) \<and> cap \<le> key_use consumed dm) = capped_out alloc consumed dm"
  by (auto simp: capped_out_def split: option.split)

lemma check_dimension_obstacle:
  assumes "p \<in> {Hard, Soft, Burst}"
  shows "check_dimension alloc p consumed threshold pen dm =
    (case obstacle alloc p consumed threshold dm of
       Some r \<Rightarrow> Inl (block_with r) | None \<Rightarrow> Inr (pen \<or> over_share alloc p consumed dm))"
  using assms unfolding check_dimension_def Let_def key_use_def [symmetric] fair_part_def [symmetric] cap_cases
  by (auto simp: obstacle_def over_share_def)

lemma check_dimensions_obstacle:
  assumes "p \<in> {Hard, Soft, Burst}"
  shows "check_dimensions alloc p consumed threshold pen dims =
    (case List.map_filter (obstacle alloc p consumed threshold) dims of
       r # _ \<Rightarrow> Inl (block_with r) | [] \<Rightarrow> Inr (pen \<or> list_ex (over_share alloc p consumed) dims))"
  by (induction dims arbitrary: pen)
    (auto simp: check_dimension_obstacle [OF assms] map_filter_simps split: option.split list.split)

lemma normalized: "normalizePolicy p \<in> {Hard, Soft, Burst}"
  by (cases p) simp_all

text \<open>
  The decision is that of the first dimension that puts up an obstacle: the loop with its early
  returns and its flag blocks with the reason of that dimension, and allows when there is none, penalising a
  soft key that has used up its share in any dimension. An unknown policy counts as hard.
\<close>

theorem first_obstacle_decides:
  "decideFairShare dims alloc consumed threshold =
     (let p = normalizePolicy (al_policy alloc) in
      case List.map_filter (obstacle alloc p consumed threshold) dims of
        r # _ \<Rightarrow> block_with r
      | [] \<Rightarrow> \<lparr>fs_allow = True, fs_reason = Reason_ok,
          fs_penalized = (if list_ex (over_share alloc p consumed) dims then Some True else None), fs_retryAfterMs = None\<rparr>)"
  unfolding decideFairShare_def Let_def check_dimensions_obstacle [OF normalized]
  by (auto simp: map_filter_simps split: list.split)

lemma allow_iff:
  "fs_allow (decideFairShare dims alloc consumed threshold)
    \<longleftrightarrow> (\<forall>dm \<in> set dims. obstacle alloc (normalizePolicy (al_policy alloc)) consumed threshold dm = None)"
proof -
  have empty: "List.map_filter f dims = [] \<longleftrightarrow> (\<forall>dm \<in> set dims. f dm = None)" for f :: "fair_share_dimension \<Rightarrow> fair_reason option"
    by (induction dims) (auto simp: map_filter_simps split: option.split)
  show ?thesis
    unfolding decideFairShare_def Let_def check_dimensions_obstacle [OF normalized]
    by (cases "List.map_filter (obstacle alloc (normalizePolicy (al_policy alloc)) consumed threshold) dims")
      (auto simp: empty [symmetric] map_filter_simps)
qed

text \<open>
  The policies are ordered: what the hard policy allows the soft one allows, the soft and the burst
  policy allow the same requests, and a policy nobody knows allows what the hard one does.
\<close>

theorem policies_ordered:
  "let allowed = \<lambda>p. fs_allow (decideFairShare dims (alloc\<lparr>al_policy := p\<rparr>) consumed threshold) in
   (allowed Hard \<longrightarrow> allowed Soft) \<and> allowed Soft = allowed Burst \<and> allowed (Other_policy s) = allowed Hard"
proof -
  have same: "capped_out (alloc\<lparr>al_policy := p\<rparr>) = capped_out alloc" "fair_part (alloc\<lparr>al_policy := p\<rparr>) = fair_part alloc" for p
    by (simp_all add: capped_out_def fair_part_def fun_eq_iff)
  show ?thesis unfolding Let_def allow_iff by (auto simp: obstacle_def same split: if_splits)
qed

theorem policies_ordered_witness:
  "let dm = \<lparr>fd_key = \<lparr>dk_poolId = ''p'', dk_unit = Tokens, dk_window = Per_day\<rparr>, fd_limit = 10, fd_consumedTotal = 4, fd_globalUsedPercent = 0\<rparr>;
       alloc = \<lparr>al_apiKeyId = ''k'', al_weight = 50, al_capValue = None, al_capUnit = None, al_policy = Hard\<rparr> in
   fs_allow (decideFairShare [dm] (alloc\<lparr>al_policy := Soft\<rparr>) [] (1 / 2))"
proof -
  define dm alloc where "dm = \<lparr>fd_key = \<lparr>dk_poolId = ''p'', dk_unit = Tokens, dk_window = Per_day\<rparr>, fd_limit = 10,
      fd_consumedTotal = 4, fd_globalUsedPercent = 0\<rparr>"
    and "alloc = \<lparr>al_apiKeyId = ''k'', al_weight = 50, al_capValue = None, al_capUnit = None, al_policy = Hard\<rparr>"
  have "fs_allow (decideFairShare [dm] (alloc\<lparr>al_policy := Hard\<rparr>) [] (1 / 2))"
    by (simp add: dm_def alloc_def decideFairShare_def check_dimension_def)
  with policies_ordered [of "[dm]" alloc "[]" "1 / 2"] show ?thesis
    unfolding Let_def dm_def [symmetric] alloc_def [symmetric] by blast
qed

text \<open>
  C23: A share is a guarantee: a key without a cap of its own that has used less than its share in every
  dimension is allowed, and not penalised, under every policy and however saturated the provider says it is,
  while the pool as a whole is below its limits.
\<close>

theorem share_guaranteed:
  assumes "al_capValue alloc = None" and "al_weight alloc \<le> 100"
    and "\<forall>dm \<in> set dims. 0 \<le> fd_limit dm \<and> fd_consumedTotal dm < fd_limit dm \<and> key_use consumed dm < fair_part alloc dm"
  shows "fs_allow (decideFairShare dims alloc consumed threshold)
    \<and> fs_penalized (decideFairShare dims alloc consumed threshold) = None"
proof -
  have below: "key_use consumed dm < fd_limit dm" if "dm \<in> set dims" for dm
  proof -
    have "fair_part alloc dm \<le> 1 * fd_limit dm"
      unfolding fair_part_def using assms(2,3) that by (intro mult_right_mono) auto
    then show ?thesis using assms(3) that by fastforce
  qed
  let ?p = "normalizePolicy (al_policy alloc)"
  have none: "\<forall>dm \<in> set dims. obstacle alloc ?p consumed threshold dm = None"
  proof
    fix dm assume dm: "dm \<in> set dims"
    then show "obstacle alloc ?p consumed threshold dm = None"
      using assms below [OF dm] by (auto simp: obstacle_def capped_out_def)
  qed
  then have "List.map_filter (obstacle alloc ?p consumed threshold) dims = []"
    by (induction dims) (simp_all add: map_filter_simps)
  moreover have "\<not> list_ex (over_share alloc ?p consumed) dims"
    using assms(3) by (auto simp: over_share_def list_ex_iff)
  ultimately have "decideFairShare dims alloc consumed threshold
      = \<lparr>fs_allow = True, fs_reason = Reason_ok, fs_penalized = None, fs_retryAfterMs = None\<rparr>"
    unfolding decideFairShare_def check_dimensions_obstacle [OF normalized] by simp
  then show ?thesis by simp
qed

theorem share_guaranteed_witness:
  "let dm = \<lparr>fd_key = \<lparr>dk_poolId = ''p'', dk_unit = Tokens, dk_window = Per_day\<rparr>, fd_limit = 10, fd_consumedTotal = 9, fd_globalUsedPercent = 1\<rparr>;
       alloc = \<lparr>al_apiKeyId = ''k'', al_weight = 50, al_capValue = None, al_capUnit = None, al_policy = Hard\<rparr> in
   fs_allow (decideFairShare [dm] alloc [(''p:tokens:daily'', 4)] (1 / 2))"
proof -
  define dm alloc where "dm = \<lparr>fd_key = \<lparr>dk_poolId = ''p'', dk_unit = Tokens, dk_window = Per_day\<rparr>, fd_limit = 10,
      fd_consumedTotal = 9, fd_globalUsedPercent = 1\<rparr>"
    and "alloc = \<lparr>al_apiKeyId = ''k'', al_weight = 50, al_capValue = None, al_capUnit = None, al_policy = Hard\<rparr>"
  have "al_capValue alloc = None" "al_weight alloc \<le> 100"
    "\<forall>d \<in> set [dm]. 0 \<le> fd_limit d \<and> fd_consumedTotal d < fd_limit d \<and> key_use [(''p:tokens:daily'', 4)] d < fair_part alloc d"
    by (simp_all add: dm_def alloc_def key_use_def fair_part_def dimensionKeyToString_def)
  from share_guaranteed [OF this, of "1 / 2"] show ?thesis
    unfolding Let_def dm_def [symmetric] alloc_def [symmetric] by blast
qed

subsection \<open>Rates\<close>

lemma ema_between:
  assumes "\<forall>i. Suc i < length h \<longrightarrow> bs_ts (h ! i) < bs_ts (h ! Suc i) \<longrightarrow> lo \<le> instant_rate (h ! i) (h ! Suc i) \<and> instant_rate (h ! i) (h ! Suc i) \<le> hi"
    and "\<forall>e. ema = Some e \<longrightarrow> lo \<le> e \<and> e \<le> hi" and "ema_loop ema h = Some r"
  shows "lo \<le> r \<and> r \<le> hi"
  using assms
proof (induction ema h rule: ema_loop.induct)
  case (1 ema p q rest)
  let ?i = "instant_rate p q"
  let ?ema = "if bs_ts q - bs_ts p \<le> 0 then ema else case ema of None \<Rightarrow> Some ?i | Some e \<Rightarrow> Some (EMA_ALPHA * ?i + (1 - EMA_ALPHA) * e)"
  have pairs: "\<forall>i. Suc i < length (q # rest) \<longrightarrow> bs_ts ((q # rest) ! i) < bs_ts ((q # rest) ! Suc i)
      \<longrightarrow> lo \<le> instant_rate ((q # rest) ! i) ((q # rest) ! Suc i) \<and> instant_rate ((q # rest) ! i) ((q # rest) ! Suc i) \<le> hi"
    using 1(2) by (metis Suc_less_eq length_Cons nth_Cons_Suc)
  have first: "bs_ts p < bs_ts q \<Longrightarrow> lo \<le> ?i \<and> ?i \<le> hi" using 1(2) [rule_format, of 0] by simp
  have mix: "lo \<le> EMA_ALPHA * ?i + (1 - EMA_ALPHA) * e \<and> EMA_ALPHA * ?i + (1 - EMA_ALPHA) * e \<le> hi"
    if "lo \<le> ?i" "?i \<le> hi" "lo \<le> e" "e \<le> hi" for e
    using that by (simp add: EMA_ALPHA_def)
  have "\<forall>e. ?ema = Some e \<longrightarrow> lo \<le> e \<and> e \<le> hi"
    using first mix 1(3) by (auto split: option.split)
  from 1(1) [OF pairs this] 1(4) show ?case by simp
qed simp_all

text \<open>
  The burn rate is a mean: whatever the history, it lies between the bounds of the rates between its
  consecutive samples (those whose time goes forward), and the time left is what remains at that rate.
\<close>

theorem burn_rate_between:
  assumes "\<forall>i. Suc i < length h \<longrightarrow> bs_ts (h ! i) < bs_ts (h ! Suc i) \<longrightarrow> lo \<le> instant_rate (h ! i) (h ! Suc i) \<and> instant_rate (h ! i) (h ! Suc i) \<le> hi"
    and "0 \<le> lo" and "lo \<le> hi" and "\<exists>i. Suc i < length h \<and> bs_ts (h ! i) < bs_ts (h ! Suc i)"
  shows "lo \<le> br_tokensPerSecond (computeBurnRate h rem) \<and> br_tokensPerSecond (computeBurnRate h rem) \<le> hi
    \<and> (\<forall>left ms. rem = Some left \<longrightarrow> br_timeToExhaustionMs (computeBurnRate h rem) = Some ms
         \<longrightarrow> ms * br_tokensPerSecond (computeBurnRate h rem) = left * 1000)"
proof -
  have some: "ema_loop ema h \<noteq> None" if "ema \<noteq> None \<or> (\<exists>i. Suc i < length h \<and> bs_ts (h ! i) < bs_ts (h ! Suc i))" for ema
    using that
  proof (induction ema h rule: ema_loop.induct)
    case (1 ema p q rest)
    show ?case
    proof (cases "ema \<noteq> None \<or> bs_ts p < bs_ts q")
      case True
      then show ?thesis using 1(1) by (auto split: option.split)
    next
      case False
      then obtain i where i: "Suc i < length (p # q # rest)" "bs_ts ((p # q # rest) ! i) < bs_ts ((p # q # rest) ! Suc i)" using 1(2) by blast
      then obtain j where "i = Suc j" using False by (cases i) auto
      with i show ?thesis using 1(1) False by auto
    qed
  qed auto
  then obtain e where e: "ema_loop None h = Some e" using assms(4) by blast
  have "lo \<le> e \<and> e \<le> hi" by (rule ema_between [OF assms(1) _ e]) simp
  moreover have "\<not> length h < 2" using assms(4) by auto
  ultimately show ?thesis
    using assms(2) by (auto simp: computeBurnRate_def e burn_result_def split: if_splits)
qed

theorem burn_rate_between_witness:
  "10 \<le> br_tokensPerSecond (computeBurnRate [\<lparr>bs_ts = 0, bs_consumed = 0\<rparr>, \<lparr>bs_ts = 1000, bs_consumed = 10\<rparr>, \<lparr>bs_ts = 2000, bs_consumed = 30\<rparr>] None)
   \<and> br_tokensPerSecond (computeBurnRate [\<lparr>bs_ts = 0, bs_consumed = 0\<rparr>, \<lparr>bs_ts = 1000, bs_consumed = 10\<rparr>, \<lparr>bs_ts = 2000, bs_consumed = 30\<rparr>] None) \<le> 20"
proof -
  let ?h = "[\<lparr>bs_ts = 0, bs_consumed = 0\<rparr>, \<lparr>bs_ts = 1000, bs_consumed = 10\<rparr>, \<lparr>bs_ts = 2000, bs_consumed = 30\<rparr>]"
  have "\<forall>i. Suc i < length ?h \<longrightarrow> bs_ts (?h ! i) < bs_ts (?h ! Suc i) \<longrightarrow> 10 \<le> instant_rate (?h ! i) (?h ! Suc i) \<and> instant_rate (?h ! i) (?h ! Suc i) \<le> 20"
    by (auto simp: less_Suc_eq instant_rate_def)
  moreover have "\<exists>i. Suc i < length ?h \<and> bs_ts (?h ! i) < bs_ts (?h ! Suc i)" by (intro exI [of _ 0]) simp
  ultimately show ?thesis using burn_rate_between [of ?h 10 20 None] by simp
qed

end
