(* ===== verification/QuotaUsage.thy ===== *)
theory QuotaUsage
  imports FairShare
begin

text \<open>
  What the keys of a pool have used: the table of \<^verbatim>\<open>src/src/lib/db/quotaConsumption.ts\<close> with one
  row for each key, dimension and window of time, and the store of \<^verbatim>\<open>src/src/lib/quota/sqliteQuotaStore.ts\<close>
  that reads a sliding window off two of its rows. A write is one statement of the database, and
  the writes for one key and dimension run one after the other, so a run is a sequence of operations.
\<close>

subsection \<open>The table\<close>

record consumption_row =
  cr_consumed :: real
  cr_updatedAt :: int

type_synonym consumption = "(string \<times> string \<times> int, consumption_row) js_map"

definition getBucket :: "consumption \<Rightarrow> string \<Rightarrow> string \<Rightarrow> int \<Rightarrow> real" where
  "getBucket table apiKeyId dimensionKey bucketIndex =
     (case map_get table (apiKeyId, dimensionKey, bucketIndex) of Some row \<Rightarrow> cr_consumed row | None \<Rightarrow> 0)"

definition incrementBucket :: "string \<Rightarrow> string \<Rightarrow> int \<Rightarrow> real \<Rightarrow> int \<Rightarrow> consumption \<Rightarrow> consumption" where
  "incrementBucket apiKeyId dimensionKey bucketIndex delta nowMs table =
     (let key = (apiKeyId, dimensionKey, bucketIndex) in
      case map_get table key of
        None \<Rightarrow> map_set key \<lparr>cr_consumed = delta, cr_updatedAt = nowMs\<rparr> table
      | Some row \<Rightarrow> map_set key \<lparr>cr_consumed = cr_consumed row + delta, cr_updatedAt = nowMs\<rparr> table)"

definition getPair :: "consumption \<Rightarrow> string \<Rightarrow> string \<Rightarrow> int \<Rightarrow> real \<times> real" where
  "getPair table apiKeyId dimensionKey currentBucket =
     (let prevBucket = currentBucket - 1 in
      (case map_get table (apiKeyId, dimensionKey, currentBucket) of Some row \<Rightarrow> cr_consumed row | None \<Rightarrow> 0,
       case map_get table (apiKeyId, dimensionKey, prevBucket) of Some row \<Rightarrow> cr_consumed row | None \<Rightarrow> 0))"

definition bucket_total :: "consumption \<Rightarrow> string \<Rightarrow> int \<Rightarrow> real" where
  "bucket_total table dimensionKey bucketIndex =
     (\<Sum>(key, row) \<leftarrow> filter (\<lambda>((k, d, b), row). d = dimensionKey \<and> b = bucketIndex) table. cr_consumed row)"

definition sumPoolDimension :: "consumption \<Rightarrow> string \<Rightarrow> int \<Rightarrow> real \<times> real" where
  "sumPoolDimension table dimensionKey currentBucket =
     (bucket_total table dimensionKey currentBucket, bucket_total table dimensionKey (currentBucket - 1))"

definition gcOlderThan :: "int \<Rightarrow> consumption \<Rightarrow> nat \<times> consumption" where
  "gcOlderThan maxUpdatedAtMs table =
     (let kept = filter (\<lambda>(key, row). \<not> cr_updatedAt row < maxUpdatedAtMs) table
      in (length table - length kept, kept))"

subsection \<open>Listing the rows of a pool\<close>

record consumption_event =
  ce_apiKeyId :: string
  ce_dimensionKey :: string
  ce_unit :: string
  ce_window :: string
  ce_bucketIndex :: int
  ce_consumed :: real
  ce_updatedAt :: int

fun split_colon :: "string \<Rightarrow> string list" where
  "split_colon [] = [[]]"
| "split_colon (c # cs) =
     (if c = CHR '':'' then [] # split_colon cs
      else case split_colon cs of [] \<Rightarrow> [[c]] | p # ps \<Rightarrow> (c # p) # ps)"

fun join_colon :: "string list \<Rightarrow> string" where
  "join_colon [] = []"
| "join_colon [p] = p"
| "join_colon (p # ps) = p @ '':'' @ join_colon ps"

definition row_event :: "(string \<times> string \<times> int) \<times> consumption_row \<Rightarrow> consumption_event" where
  "row_event r = (case r of ((apiKeyId, dimensionKey, bucketIndex), row) \<Rightarrow>
     let parts = split_colon dimensionKey in
     \<lparr>ce_apiKeyId = apiKeyId, ce_dimensionKey = dimensionKey,
      ce_unit = (if 1 < length parts then parts ! 1 else []),
      ce_window = join_colon (drop 2 parts),
      ce_bucketIndex = bucketIndex, ce_consumed = cr_consumed row, ce_updatedAt = cr_updatedAt row\<rparr>)"

text \<open>
  The pattern is the pool and a colon, escaped, with anything behind it; the database compares letters
  without case. Rows of the same time may come in any order: here they keep that of the table.
\<close>

definition listConsumptionForPool :: "consumption \<Rightarrow> string \<Rightarrow> int \<Rightarrow> consumption_event list" where
  "listConsumptionForPool table poolId limit =
     (let safeLimit = max 1 (min limit 500);
          rows = filter (\<lambda>((k, d, b), row). starts_with (js_lower d) (js_lower (poolId @ '':''))) table
      in map row_event (take (nat safeLimit) (sort_key (\<lambda>(key, row). - cr_updatedAt row) rows)))"

subsection \<open>The store\<close>

definition slidingWindowEffective :: "real \<Rightarrow> real \<Rightarrow> int \<Rightarrow> int \<Rightarrow> real" where
  "slidingWindowEffective cur prev nowMs windowMs =
     (let currentBucketIndex = nowMs div windowMs;
          currentBucketStartMs = currentBucketIndex * windowMs;
          elapsed = nowMs - currentBucketStartMs;
          weight = 1 - real_of_int elapsed / real_of_int windowMs
      in prev * weight + cur)"

definition peek_usage :: "consumption \<Rightarrow> string \<Rightarrow> dimension_key \<Rightarrow> int \<Rightarrow> real" where
  "peek_usage table apiKeyId d nowMs =
     (let dimKey = dimensionKeyToString d; windowMs = WINDOW_MS (dk_window d); currentBucket = nowMs div windowMs;
          (cur, prev) = getPair table apiKeyId dimKey currentBucket
      in slidingWindowEffective cur prev nowMs windowMs)"

definition consume :: "string \<Rightarrow> dimension_key \<Rightarrow> real \<Rightarrow> int \<Rightarrow> consumption \<Rightarrow> real \<times> consumption" where
  "consume apiKeyId d cost nowMs table =
     (let dimKey = dimensionKeyToString d; windowMs = WINDOW_MS (dk_window d); currentBucket = nowMs div windowMs;
          table' = incrementBucket apiKeyId dimKey currentBucket cost nowMs table;
          (cur, prev) = getPair table' apiKeyId dimKey currentBucket
      in (slidingWindowEffective cur prev nowMs windowMs, table'))"

definition poolConsumedTotal :: "consumption \<Rightarrow> string \<Rightarrow> dimension_key \<Rightarrow> int \<Rightarrow> real" where
  "poolConsumedTotal table poolId d nowMs =
     (let dimKey = dimensionKeyToString d; windowMs = WINDOW_MS (dk_window d); currentBucket = nowMs div windowMs;
          (currTotal, prevTotal) = sumPoolDimension table dimKey currentBucket
      in slidingWindowEffective currTotal prevTotal nowMs windowMs)"

definition clear_usage :: "string \<Rightarrow> dimension_key \<Rightarrow> int \<Rightarrow> consumption \<Rightarrow> consumption" where
  "clear_usage apiKeyId d nowMs table =
     (let dimKey = dimensionKeyToString d; windowMs = WINDOW_MS (dk_window d);
          currentBucket = nowMs div windowMs; prevBucket = currentBucket - 1;
          currVal = getBucket table apiKeyId dimKey currentBucket;
          table1 = (if currVal \<noteq> 0 then incrementBucket apiKeyId dimKey currentBucket (- currVal) nowMs table else table);
          prevVal = getBucket table1 apiKeyId dimKey prevBucket
      in if prevVal \<noteq> 0 then incrementBucket apiKeyId dimKey prevBucket (- prevVal) nowMs table1 else table1)"

subsection \<open>The report on a pool\<close>

record plan_dimension =
  pd_unit :: quota_unit
  pd_window :: string
  pd_limit :: real

record key_usage =
  ku_apiKeyId :: string
  ku_consumed :: real
  ku_fairShare :: real
  ku_deficit :: real
  ku_borrowing :: bool

record dimension_usage =
  du_unit :: quota_unit
  du_window :: string
  du_limit :: real
  du_consumedTotal :: real
  du_perKey :: "key_usage list"

record pool_usage =
  pu_poolId :: string
  pu_dimensions :: "dimension_usage list"
  pu_burnRate :: "burn_rate option"

definition windows :: "(string \<times> quota_window) list" where
  "windows = map (\<lambda>w. (window_text w, w)) [Per_hour, Per_5h, Per_day, Per_week, Per_month]"

text \<open>A dimension with a window the table of windows does not know is left out.\<close>

definition report_dimension :: "consumption \<Rightarrow> string \<Rightarrow> pool_allocation list \<Rightarrow> plan_dimension \<Rightarrow> int \<Rightarrow> dimension_usage option" where
  "report_dimension table poolId allocations planDim nowMs =
     (case map_of windows (pd_window planDim) of
        Some w \<Rightarrow>
          let totalWeight = foldl (\<lambda>sum a. sum + al_weight a) 0 allocations;
              perKey = map (\<lambda>alloc.
                let consumed = peek_usage table (al_apiKeyId alloc) \<lparr>dk_poolId = poolId, dk_unit = pd_unit planDim, dk_window = w\<rparr> nowMs;
                    effectiveWeight = (if 0 < totalWeight then al_weight alloc else 0);
                    fairShare = effectiveWeight / 100 * pd_limit planDim
                in \<lparr>ku_apiKeyId = al_apiKeyId alloc, ku_consumed = consumed, ku_fairShare = fairShare,
                    ku_deficit = consumed - fairShare, ku_borrowing = (fairShare < consumed)\<rparr>) allocations
          in Some \<lparr>du_unit = pd_unit planDim, du_window = pd_window planDim, du_limit = pd_limit planDim,
               du_consumedTotal = foldl (\<lambda>sum k. sum + ku_consumed k) 0 perKey, du_perKey = perKey\<rparr>
      | None \<Rightarrow> None)"

definition poolUsageWithDimensions :: "consumption \<Rightarrow> string \<Rightarrow> pool_allocation list option \<Rightarrow> plan_dimension list \<Rightarrow> int \<Rightarrow> pool_usage" where
  "poolUsageWithDimensions table poolId allocations planDimensions nowMs =
     (case allocations of
        None \<Rightarrow> \<lparr>pu_poolId = poolId, pu_dimensions = [], pu_burnRate = None\<rparr>
      | Some as \<Rightarrow>
          let snapshots = List.map_filter (\<lambda>d. report_dimension table poolId as d nowMs) planDimensions;
              burnRate =
                (case List.find (\<lambda>d. du_unit d = Tokens) snapshots of
                   None \<Rightarrow> None
                 | Some d \<Rightarrow>
                     if 0 < du_consumedTotal d
                     then Some (computeBurnRateFromWindow (du_consumedTotal d)
                       (case map_of windows (du_window d) of Some w \<Rightarrow> WINDOW_MS w | None \<Rightarrow> 0)
                       (Some (du_limit d - du_consumedTotal d)) nowMs)
                     else None)
          in \<lparr>pu_poolId = poolId, pu_dimensions = snapshots, pu_burnRate = burnRate\<rparr>)"

subsection \<open>Keys of dimensions\<close>

lemma last_part:
  assumes "CHR '':'' \<notin> set w" and "CHR '':'' \<notin> set w'" and "x @ '':'' @ w = x' @ '':'' @ w'"
  shows "x = x' \<and> w = w'"
proof -
  have "takeWhile (\<lambda>c. c \<noteq> CHR '':'') (rev (y @ '':'' @ v)) = rev v" if "CHR '':'' \<notin> set v" for y v
  proof -
    have "c \<noteq> CHR '':''" if "c \<in> set (rev v)" for c using that \<open>CHR '':'' \<notin> set v\<close> by auto
    from takeWhile_append2 [of "rev v" "\<lambda>c. c \<noteq> CHR '':''", OF this] show ?thesis by simp
  qed
  from this [OF assms(1), of x] this [OF assms(2), of x'] have "w = w'" by (simp only: assms(3) rev_is_rev_conv)
  with assms(3) show ?thesis by simp
qed

lemma no_colon: "CHR '':'' \<notin> set (unit_text u)" "CHR '':'' \<notin> set (window_text w)"
  by (cases u; simp) (cases w; simp)

lemma unit_text_inj: "unit_text u = unit_text v \<Longrightarrow> u = v"
  by (cases u; cases v) simp_all

lemma window_text_inj: "window_text u = window_text v \<Longrightarrow> u = v"
  by (cases u; cases v) simp_all

lemma dimension_key_inj: "dimensionKeyToString d = dimensionKeyToString e \<Longrightarrow> d = e"
proof -
  assume "dimensionKeyToString d = dimensionKeyToString e"
  then have "(dk_poolId d @ '':'' @ unit_text (dk_unit d)) @ '':'' @ window_text (dk_window d)
    = (dk_poolId e @ '':'' @ unit_text (dk_unit e)) @ '':'' @ window_text (dk_window e)"
    by (simp add: dimensionKeyToString_def)
  from last_part [OF no_colon(2) no_colon(2) this]
  have "dk_poolId d @ '':'' @ unit_text (dk_unit d) = dk_poolId e @ '':'' @ unit_text (dk_unit e)"
    and w: "dk_window d = dk_window e" by (blast intro: window_text_inj)+
  from last_part [OF no_colon(1) no_colon(1) this(1)] have "dk_poolId d = dk_poolId e" "dk_unit d = dk_unit e"
    by (blast intro: unit_text_inj)+
  with w show "d = e" by simp
qed

lemma WINDOW_MS_pos: "0 < WINDOW_MS w"
  by (cases w) simp_all

subsection \<open>The rows as amounts\<close>

lemma getPair_getBucket: "getPair table k d b = (getBucket table k d b, getBucket table k d (b - 1))"
  by (simp add: getPair_def getBucket_def)

lemma getBucket_increment:
  "getBucket (incrementBucket k d b delta now table) k' d' b'
    = getBucket table k' d' b' + (if k = k' \<and> d = d' \<and> b = b' then delta else 0)"
  by (auto simp: getBucket_def incrementBucket_def Let_def split: option.split)

lemma increment_usage_wf: "map_wf table \<Longrightarrow> map_wf (incrementBucket k d b delta now table)"
  by (auto simp: incrementBucket_def Let_def map_wf_set split: option.split)

text \<open>The weight of the previous bucket.\<close>

definition decay :: "int \<Rightarrow> int \<Rightarrow> real" where
  "decay now w = 1 - real_of_int (now mod w) / real_of_int w"

lemma effective_decay: "slidingWindowEffective cur prev now w = prev * decay now w + cur"
proof -
  have "real_of_int (now - now div w * w) = real_of_int (now mod w)" by (simp only: minus_div_mult_eq_mod)
  then show ?thesis by (simp only: slidingWindowEffective_def decay_def Let_def)
qed

lemma decay_range: "0 < w \<Longrightarrow> 0 < decay now w \<and> decay now w \<le> 1"
  by (simp add: decay_def field_simps)

lemma peek_buckets:
  "peek_usage table k d now = getBucket table k (dimensionKeyToString d) (now div WINDOW_MS (dk_window d) - 1) * decay now (WINDOW_MS (dk_window d))
     + getBucket table k (dimensionKeyToString d) (now div WINDOW_MS (dk_window d))"
  by (simp add: peek_usage_def Let_def getPair_getBucket effective_decay)

subsection \<open>The pool and its keys\<close>

lemma bucket_total_sum:
  assumes "map_wf table" and "finite K" and "\<forall>((k, d', b'), row) \<in> set table. d' = d \<longrightarrow> k \<in> K"
  shows "bucket_total table d b = (\<Sum>k \<in> K. getBucket table k d b)"
  using assms(1,3)
proof (induction table)
  case Nil
  show ?case by (simp add: bucket_total_def getBucket_def)
next
  case (Cons r table)
  obtain k d' b' row where r: "r = ((k, d', b'), row)" by (metis prod.exhaust)
  have IH: "bucket_total table d b = (\<Sum>k \<in> K. getBucket table k d b)" using Cons by simp
  show ?case
  proof (cases "d' = d \<and> b' = b")
    case True
    have k: "k \<in> K" using Cons.prems(2) True by (simp add: r)
    have "map_get table (k, d, b) = None" using Cons.prems(1) True by (simp add: r map_of_eq_None_iff)
    then have zero: "getBucket table k d b = 0" by (simp add: getBucket_def)
    have "(\<Sum>x \<in> K. getBucket (r # table) x d b) = cr_consumed row + (\<Sum>x \<in> K - {k}. getBucket table x d b)"
      unfolding sum.remove [OF assms(2) k] by (auto simp: getBucket_def r True intro!: sum.cong)
    also have "\<dots> = cr_consumed row + (\<Sum>x \<in> K. getBucket table x d b)"
      unfolding sum.remove [OF assms(2) k, of "\<lambda>x. getBucket table x d b"] by (simp add: zero)
    finally show ?thesis using IH True by (simp add: bucket_total_def r)
  next
    case False
    then have "getBucket (r # table) x d b = getBucket table x d b" for x by (auto simp: getBucket_def r)
    moreover have "bucket_total (r # table) d b = bucket_total table d b" using False by (auto simp: bucket_total_def r)
    ultimately show ?thesis using IH by simp
  qed
qed

text \<open>
  The pool's total is the sum of what its keys have used: reading the sliding window once off
  the totals of the pool gives the same as adding up the sliding windows of any set of keys that holds
  every key with a row in the dimension.
\<close>

theorem pool_total_is_sum_of_peeks:
  assumes "map_wf table" and "finite K"
    and "\<forall>((k, d', b'), row) \<in> set table. d' = dimensionKeyToString d \<longrightarrow> k \<in> K"
  shows "poolConsumedTotal table (dk_poolId d) d now = (\<Sum>k \<in> K. peek_usage table k d now)"
  unfolding poolConsumedTotal_def sumPoolDimension_def Let_def prod.case effective_decay peek_buckets
    bucket_total_sum [OF assms]
  by (simp add: sum.distrib sum_distrib_right)

theorem pool_total_is_sum_of_peeks_witness:
  "let d = \<lparr>dk_poolId = ''p'', dk_unit = Tokens, dk_window = Per_hour\<rparr>;
       t = snd (consume ''a'' d 3 10 (snd (consume ''b'' d 5 7 []))) in
   poolConsumedTotal t ''p'' d 20 = peek_usage t ''a'' d 20 + peek_usage t ''b'' d 20"
proof -
  define d where "d = \<lparr>dk_poolId = ''p'', dk_unit = Tokens, dk_window = Per_hour\<rparr>"
  define t where "t = snd (consume ''a'' d 3 10 (snd (consume ''b'' d 5 7 [])))"
  have t: "t = [((''b'', dimensionKeyToString d, 0), \<lparr>cr_consumed = 5, cr_updatedAt = 7\<rparr>),
      ((''a'', dimensionKeyToString d, 0), \<lparr>cr_consumed = 3, cr_updatedAt = 10\<rparr>)]"
    unfolding t_def by (simp add: consume_def incrementBucket_def Let_def d_def getPair_def)
  have "map_wf t" "finite {''a'', ''b''}" "\<forall>((k, d', b'), row) \<in> set t. d' = dimensionKeyToString d \<longrightarrow> k \<in> {''a'', ''b''}"
    by (auto simp: t)
  from pool_total_is_sum_of_peeks [OF this, of 20] show ?thesis
    unfolding Let_def d_def [symmetric] t_def [symmetric] by (simp add: d_def)
qed

subsection \<open>Runs\<close>

datatype usage_event =
    Us_consume string dimension_key real
  | Us_clear string dimension_key
  | Us_gc int

fun usage_step :: "consumption \<Rightarrow> int \<times> usage_event \<Rightarrow> consumption" where
  "usage_step table (now, Us_consume k d cost) = snd (consume k d cost now table)"
| "usage_step table (now, Us_clear k d) = clear_usage k d now table"
| "usage_step table (now, Us_gc before) = snd (gcOlderThan before table)"

text \<open>What one consumption counts for at a time: all in the window of the time, part of it in the one before, then nothing.\<close>

definition age_weight :: "int \<Rightarrow> int \<Rightarrow> int \<Rightarrow> real" where
  "age_weight w now t =
     (if t div w = now div w then 1 else if t div w = now div w - 1 then decay now w else 0)"

fun weighed :: "string \<Rightarrow> dimension_key \<Rightarrow> int \<Rightarrow> int \<times> usage_event \<Rightarrow> real" where
  "weighed k d now (t, Us_consume k' d' cost) =
     (if k' = k \<and> d' = d then cost * age_weight (WINDOW_MS (dk_window d)) now t else 0)"
| "weighed k d now _ = 0"

lemma consume_table:
  "snd (consume k d cost now table)
    = incrementBucket k (dimensionKeyToString d) (now div WINDOW_MS (dk_window d)) cost now table"
  by (simp add: consume_def Let_def split: prod.split)

lemma peek_consume:
  "peek_usage (snd (consume k' d' cost t table)) k d now = peek_usage table k d now + weighed k d now (t, Us_consume k' d' cost)"
proof (cases "k' = k \<and> d' = d")
  case True
  then have eq: "k' = k" "d' = d" by simp_all
  show ?thesis
    unfolding eq by (simp add: peek_buckets consume_table getBucket_increment age_weight_def algebra_simps)
next
  case False
  then have ne: "\<not> (k' = k \<and> dimensionKeyToString d' = dimensionKeyToString d)" using dimension_key_inj by blast
  have "getBucket (snd (consume k' d' cost t table)) k (dimensionKeyToString d) b = getBucket table k (dimensionKeyToString d) b" for b
    unfolding consume_table getBucket_increment using ne by auto
  moreover have "weighed k d now (t, Us_consume k' d' cost) = 0" unfolding weighed.simps using False by auto
  ultimately show ?thesis by (simp only: peek_buckets add_0_right)
qed

text \<open>
  C24: What a key is held to have used at a time is the sum of what it has consumed in the dimension, each
  amount weighed by its age: all of it in the same window as the time, the part of the window that
  is not over yet for the window before, nothing earlier; other keys and other dimensions do not count.
\<close>

theorem peek_is_weighted_sum:
  assumes "\<forall>e \<in> set evs. \<exists>t k' d' cost. e = (t, Us_consume k' d' cost)"
  shows "peek_usage (foldl usage_step [] evs) k d now = (\<Sum>e \<leftarrow> evs. weighed k d now e)"
  using assms
proof (induction evs rule: rev_induct)
  case Nil
  show ?case by (simp add: peek_buckets getBucket_def)
next
  case (snoc e evs)
  then obtain t k' d' cost where e: "e = (t, Us_consume k' d' cost)" by force
  have "usage_step (foldl usage_step [] evs) e = snd (consume k' d' cost t (foldl usage_step [] evs))" by (simp only: e usage_step.simps)
  then show ?case using snoc by (simp add: peek_consume e del: weighed.simps)
qed

theorem peek_is_weighted_sum_witness:
  "peek_usage (foldl usage_step [] [(1000, Us_consume ''a'' \<lparr>dk_poolId = ''p'', dk_unit = Usd, dk_window = Per_hour\<rparr> 8),
     (3600000, Us_consume ''a'' \<lparr>dk_poolId = ''p'', dk_unit = Usd, dk_window = Per_hour\<rparr> 1)])
     ''a'' \<lparr>dk_poolId = ''p'', dk_unit = Usd, dk_window = Per_hour\<rparr> 5400000 = 5"
proof -
  define d where "d = \<lparr>dk_poolId = ''p'', dk_unit = Usd, dk_window = Per_hour\<rparr>"
  have w: "WINDOW_MS (dk_window d) = 3600000" by (simp add: d_def)
  have "peek_usage (foldl usage_step [] [(1000, Us_consume ''a'' d 8), (3600000, Us_consume ''a'' d 1)]) ''a'' d 5400000
    = (\<Sum>e \<leftarrow> [(1000, Us_consume ''a'' d 8), (3600000, Us_consume ''a'' d 1)]. weighed ''a'' d 5400000 e)"
    by (rule peek_is_weighted_sum) auto
  also have "\<dots> = 5" by (simp add: w age_weight_def decay_def)
  finally show ?thesis by (simp only: d_def)
qed

subsection \<open>Cleaning up\<close>

text \<open>A row is not older than the start of its window.\<close>

definition rows_fresh :: "dimension_key \<Rightarrow> consumption \<Rightarrow> bool" where
  "rows_fresh d table \<longleftrightarrow> (\<forall>((k, d', b), row) \<in> set table.
     d' = dimensionKeyToString d \<longrightarrow> b * WINDOW_MS (dk_window d) \<le> cr_updatedAt row)"

lemma window_start: "0 < w \<Longrightarrow> (now div w) * w \<le> (now :: int)"
  using minus_mod_eq_div_mult [of now w] pos_mod_sign [of w now] by linarith

lemma increment_rows:
  "\<exists>c. set (incrementBucket k d' b delta now table) \<subseteq> insert ((k, d', b), \<lparr>cr_consumed = c, cr_updatedAt = now\<rparr>) (set table)"
proof (cases "map_get table (k, d', b)")
  case None
  then show ?thesis unfolding incrementBucket_def Let_def by (intro exI [of _ delta]) (simp add: set_map_set_subset)
next
  case (Some row)
  then show ?thesis
    unfolding incrementBucket_def Let_def by (intro exI [of _ "cr_consumed row + delta"]) (simp add: set_map_set_subset)
qed

lemma increment_fresh:
  assumes "rows_fresh d table" and "d' = dimensionKeyToString d \<Longrightarrow> b * WINDOW_MS (dk_window d) \<le> now"
  shows "rows_fresh d (incrementBucket k d' b delta now table)"
proof -
  obtain c where sub: "set (incrementBucket k d' b delta now table) \<subseteq> insert ((k, d', b), \<lparr>cr_consumed = c, cr_updatedAt = now\<rparr>) (set table)"
    using increment_rows by blast
  have "\<forall>r \<in> insert ((k, d', b), \<lparr>cr_consumed = c, cr_updatedAt = now\<rparr>) (set table).
      case r of ((k, d', b), row) \<Rightarrow> d' = dimensionKeyToString d \<longrightarrow> b * WINDOW_MS (dk_window d) \<le> cr_updatedAt row"
    using assms(2) assms(1) [unfolded rows_fresh_def] unfolding ball_simps by auto
  with sub show ?thesis unfolding rows_fresh_def by blast
qed

lemma usage_step_fresh:
  assumes "rows_fresh d table"
  shows "rows_fresh d (usage_step table e)"
proof -
  obtain now ev where e: "e = (now, ev)" by (cases e)
  have start: "dimensionKeyToString d' = dimensionKeyToString d
      \<Longrightarrow> (now div WINDOW_MS (dk_window d')) * WINDOW_MS (dk_window d) \<le> now
        \<and> (now div WINDOW_MS (dk_window d') - 1) * WINDOW_MS (dk_window d) \<le> now" for d'
    using window_start [OF WINDOW_MS_pos, of now "dk_window d"] WINDOW_MS_pos [of "dk_window d"]
    by (auto dest!: dimension_key_inj simp: left_diff_distrib)
  show ?thesis
  proof (cases ev)
    case (Us_consume k d' cost)
    then show ?thesis using assms start by (simp add: e consume_table increment_fresh)
  next
    case (Us_clear k d')
    then show ?thesis using assms start by (auto simp: e clear_usage_def Let_def intro!: increment_fresh)
  next
    case (Us_gc before)
    then show ?thesis using assms by (auto simp: e gcOlderThan_def Let_def rows_fresh_def)
  qed
qed

lemma usage_run_fresh: "rows_fresh d table \<Longrightarrow> rows_fresh d (foldl usage_step table evs)"
  by (induction evs arbitrary: table) (simp_all add: usage_step_fresh)

lemma clear_wf: "map_wf table \<Longrightarrow> map_wf (clear_usage k d now table)"
  by (simp add: clear_usage_def Let_def increment_usage_wf)

lemma gc_wf: "map_wf table \<Longrightarrow> map_wf (snd (gcOlderThan before table))"
  by (simp add: gcOlderThan_def Let_def distinct_map_filter)

lemma usage_step_wf: "map_wf table \<Longrightarrow> map_wf (usage_step table e)"
  by (cases e, cases "snd e") (simp_all add: consume_table increment_usage_wf clear_wf gc_wf)

lemma usage_run_wf: "map_wf table \<Longrightarrow> map_wf (foldl usage_step table evs)"
  by (induction evs arbitrary: table) (simp_all add: usage_step_wf)

lemma map_of_filter_keep:
  assumes "map_wf m" and "\<forall>v. (k, v) \<in> set m \<longrightarrow> P (k, v)"
  shows "map_of (filter P m) k = map_of m k"
  using assms by (induction m) (auto simp: map_of_eq_None_iff)

text \<open>
  Cleaning up is invisible: after any run, removing the rows that have not been written since before the
  start of the previous window of a dimension changes nothing that can be read about the dimension,
  for any key, from then on.
\<close>

theorem gc_keeps_peek:
  assumes "before \<le> (now div WINDOW_MS (dk_window d) - 1) * WINDOW_MS (dk_window d)"
  shows "peek_usage (snd (gcOlderThan before (foldl usage_step [] evs))) k d now = peek_usage (foldl usage_step [] evs) k d now"
proof -
  let ?w = "WINDOW_MS (dk_window d)" and ?t = "foldl usage_step [] evs" and ?d = "dimensionKeyToString d"
  have fresh: "rows_fresh d ?t" by (rule usage_run_fresh) (simp add: rows_fresh_def)
  have wf: "map_wf ?t" by (rule usage_run_wf) simp
  have same: "getBucket (snd (gcOlderThan before ?t)) k ?d b = getBucket ?t k ?d b" if "now div ?w - 1 \<le> b" for b
  proof -
    have "(now div ?w - 1) * ?w \<le> b * ?w" using that WINDOW_MS_pos [of "dk_window d"] by (intro mult_right_mono) simp_all
    then have "\<forall>row. ((k, ?d, b), row) \<in> set ?t \<longrightarrow> \<not> cr_updatedAt row < before"
      using fresh assms by (force simp: rows_fresh_def)
    then have "map_get (snd (gcOlderThan before ?t)) (k, ?d, b) = map_get ?t (k, ?d, b)"
      unfolding gcOlderThan_def Let_def snd_conv by (intro map_of_filter_keep [OF wf]) simp
    then show ?thesis by (simp add: getBucket_def)
  qed
  show ?thesis by (simp add: peek_buckets same)
qed

theorem gc_keeps_peek_witness:
  "let d = \<lparr>dk_poolId = ''p'', dk_unit = Usd, dk_window = Per_hour\<rparr>;
       t = foldl usage_step [] [(1000, Us_consume ''a'' d 8), (7200000, Us_consume ''a'' d 1)] in
   peek_usage (snd (gcOlderThan 3600000 t)) ''a'' d 7300000 = peek_usage t ''a'' d 7300000"
proof -
  have "(3600000 :: int) \<le> (7300000 div WINDOW_MS (dk_window \<lparr>dk_poolId = ''p'', dk_unit = Usd, dk_window = Per_hour\<rparr>) - 1)
      * WINDOW_MS (dk_window \<lparr>dk_poolId = ''p'', dk_unit = Usd, dk_window = Per_hour\<rparr>)" by simp
  from gc_keeps_peek [OF this] show ?thesis unfolding Let_def by blast
qed

text \<open>
  Clearing a key leaves nothing of it: at that time it is held to have used nothing in the dimension, in the
  window of the time and in the one before.
\<close>

theorem clear_zeroes:
  "peek_usage (clear_usage k d now table) k d now = 0"
  by (auto simp: peek_buckets clear_usage_def Let_def getBucket_increment)

subsection \<open>The list of a pool and the rows of its models\<close>

lemma split_colon_plain: "CHR '':'' \<notin> set s \<Longrightarrow> split_colon (s @ CHR '':'' # t) = s # split_colon t"
  by (induction s) auto

lemma split_colon_single: "CHR '':'' \<notin> set s \<Longrightarrow> split_colon s = [s]"
  by (induction s) auto

text \<open>
  The list of a pool's consumption reports a row of a pool dimension with its unit and window; a row of a
  model's cap, whose key has the model after the pool, is listed too, and then \<open>model\<close> is reported as
  its unit and the rest of the key, model, unit and window together, as its window.
\<close>

theorem listing_reads_keys:
  fixes pool :: string
  assumes "CHR '':'' \<notin> set pool" and "CHR '':'' \<notin> set m"
  shows "ce_unit (row_event ((k, dimensionKeyToString \<lparr>dk_poolId = pool, dk_unit = u, dk_window = w\<rparr>, b), row)) = unit_text u
    \<and> ce_window (row_event ((k, dimensionKeyToString \<lparr>dk_poolId = pool, dk_unit = u, dk_window = w\<rparr>, b), row)) = window_text w
    \<and> ce_unit (row_event ((k, dimensionKeyToString \<lparr>dk_poolId = pool @ '':model:'' @ m, dk_unit = u, dk_window = w\<rparr>, b), row)) = ''model''
    \<and> ce_window (row_event ((k, dimensionKeyToString \<lparr>dk_poolId = pool @ '':model:'' @ m, dk_unit = u, dk_window = w\<rparr>, b), row))
      = m @ '':'' @ unit_text u @ '':'' @ window_text w"
proof -
  have model: "CHR '':'' \<notin> set ''model''" by simp
  have "split_colon (pool @ '':'' @ unit_text u @ '':'' @ window_text w) = [pool, unit_text u, window_text w]"
    using assms(1) no_colon by (simp add: split_colon_plain split_colon_single)
  moreover have "split_colon (pool @ '':'' @ ''model'' @ '':'' @ m @ '':'' @ unit_text u @ '':'' @ window_text w)
      = [pool, ''model'', m, unit_text u, window_text w]"
    using assms no_colon split_colon_plain [OF model] by (simp add: split_colon_plain split_colon_single)
  ultimately show ?thesis by (simp add: row_event_def dimensionKeyToString_def Let_def)
qed

theorem listing_reads_keys_witness:
  "ce_unit (row_event ((''k'', dimensionKeyToString \<lparr>dk_poolId = ''p'' @ '':model:'' @ ''gpt'', dk_unit = Tokens, dk_window = Per_hour\<rparr>, 7),
     \<lparr>cr_consumed = 3, cr_updatedAt = 9\<rparr>)) = ''model''"
  using listing_reads_keys [of "''p''" "''gpt''" "''k''" Tokens Per_hour 7 "\<lparr>cr_consumed = 3, cr_updatedAt = 9\<rparr>"] by simp

end
