(* ===== verification/QuotaEnforce.thy ===== *)
theory QuotaEnforce
  imports QuotaUsage
begin

text \<open>
  The gate of the shared quotas: the pools of \<^verbatim>\<open>src/src/lib/db/quotaPools.ts\<close>, the caps of
  \<^verbatim>\<open>quotaModelCaps.ts\<close>, the plans of \<^verbatim>\<open>planRegistry.ts\<close> and \<^verbatim>\<open>planResolver.ts\<close>, and the check
  before a request and the recording after it of \<^verbatim>\<open>enforce.ts\<close>, with the SQLite store. A reading
  that throws or is rejected is a fault; the saturation signal, which asks the provider, is a parameter.
\<close>

subsection \<open>Plans\<close>

definition EPSILON :: real where "EPSILON = 1 / 2 ^ 52"

record quota_dimension =
  qd_unit :: quota_unit
  qd_window :: quota_window
  qd_limit :: real

record provider_plan =
  pp_connectionId :: "string option"
  pp_provider :: string
  pp_dimensions :: "quota_dimension list"
  pp_manual :: bool

abbreviation qdim :: "quota_unit \<Rightarrow> quota_window \<Rightarrow> real \<Rightarrow> quota_dimension" where
  "qdim u w l \<equiv> \<lparr>qd_unit = u, qd_window = w, qd_limit = l\<rparr>"

definition KNOWN_PLANS :: "(string \<times> quota_dimension list) list" where
  "KNOWN_PLANS =
     [(''codex'', [qdim Percent Per_5h 100, qdim Percent Per_week 100]),
      (''claude'', [qdim Percent Per_5h 100, qdim Percent Per_week 100]),
      (''glm'', [qdim Tokens Per_5h EPSILON, qdim Tokens Per_week EPSILON]),
      (''minimax'', [qdim Tokens Per_5h EPSILON, qdim Tokens Per_week EPSILON]),
      (''deepseek'', [qdim Usd Per_month EPSILON]),
      (''bailian'', [qdim Percent Per_5h 100, qdim Percent Per_week 100, qdim Percent Per_month 100]),
      (''kimi'', [qdim Requests Per_hour 1500]),
      (''kimi-coding'', [qdim Tokens Per_5h EPSILON, qdim Tokens Per_week EPSILON]),
      (''xiaomi-mimo'', [qdim Tokens Per_month 4100000000]),
      (''xiaomi-mimo-token-plan'', [qdim Tokens Per_month 4100000000]),
      (''alibaba'', [qdim Requests Per_month 90000]),
      (''grok-cli'', [qdim Requests Per_day 864, qdim Tokens Per_day 18000000,
                      qdim Requests Per_week 6048, qdim Tokens Per_week 126000000])]"

definition getKnownPlan :: "string \<Rightarrow> (string \<times> quota_dimension list) option" where
  "getKnownPlan provider = map_option (\<lambda>dims. (provider, dims)) (map_of KNOWN_PLANS provider)"

subsection \<open>The tables\<close>

record alloc_row =
  ar_poolId :: string
  ar_apiKeyId :: string
  ar_weight :: real
  ar_capValue :: "real option"
  ar_capUnit :: "quota_unit option"
  ar_policy :: string

record pool_row =
  pr_connectionId :: string
  pr_name :: string
  pr_groupId :: "string option"

record quota_pool =
  qp_id :: string
  qp_connectionId :: string
  qp_connectionIds :: "string list"
  qp_name :: string
  qp_groupId :: string
  qp_allocations :: "pool_allocation list"

record model_cap =
  mc_capValue :: real
  mc_capUnit :: quota_unit

text \<open>The members of the pools are in the order of their creation; \<open>db_deleting\<close> is the set of pools being deleted.\<close>

record quota_db =
  db_pools :: "(string, pool_row) js_map"
  db_members :: "(string \<times> string) list"
  db_allocations :: "alloc_row list"
  db_deleting :: "string list"
  db_caps :: "(string \<times> string \<times> string, model_cap) js_map"
  db_plans :: "(string, provider_plan) js_map"

text \<open>Which readings fail.\<close>

record quota_faults =
  ft_allocations :: bool
  ft_pool :: "string \<Rightarrow> bool"
  ft_cap :: bool
  ft_plan :: bool
  ft_peek :: "string \<Rightarrow> bool"
  ft_total :: "string \<Rightarrow> bool"
  ft_consume :: "string \<Rightarrow> bool"

definition policy_of :: "string \<Rightarrow> policy_kind" where
  "policy_of value =
     (if value = ''hard'' then Hard else if value = ''soft'' then Soft else if value = ''burst'' then Burst else Hard)"

definition rowToAllocation :: "alloc_row \<Rightarrow> pool_allocation" where
  "rowToAllocation row =
     \<lparr>al_apiKeyId = ar_apiKeyId row, al_weight = ar_weight row, al_capValue = ar_capValue row,
      al_capUnit = ar_capUnit row, al_policy = policy_of (ar_policy row)\<rparr>"

definition or_text :: "string \<Rightarrow> string \<Rightarrow> string" where
  "or_text s d = (if s = [] then d else s)"

definition build_pool :: "quota_db \<Rightarrow> string \<Rightarrow> pool_row \<Rightarrow> quota_pool" where
  "build_pool db poolId row =
     (let conns = map snd (filter (\<lambda>(p, c). p = poolId) (db_members db))
      in \<lparr>qp_id = poolId, qp_connectionId = pr_connectionId row,
          qp_connectionIds = (if conns \<noteq> [] then conns else [pr_connectionId row]),
          qp_name = pr_name row, qp_groupId = or_text (nullish (pr_groupId row) []) ''group-demo'',
          qp_allocations = map rowToAllocation (filter (\<lambda>r. ar_poolId r = poolId) (db_allocations db))\<rparr>)"

definition getPool :: "quota_db \<Rightarrow> string \<Rightarrow> quota_pool option" where
  "getPool db poolId = map_option (build_pool db poolId) (map_get (db_pools db) poolId)"

definition listAllocationsForApiKey :: "quota_db \<Rightarrow> string \<Rightarrow> (string \<times> pool_allocation) list" where
  "listAllocationsForApiKey db apiKeyId =
     map (\<lambda>row. (ar_poolId row, rowToAllocation row)) (filter (\<lambda>r. ar_apiKeyId r = apiKeyId) (db_allocations db))"

definition policy_text :: "policy_kind \<Rightarrow> string" where
  "policy_text p = (case p of Hard \<Rightarrow> ''hard'' | Soft \<Rightarrow> ''soft'' | Burst \<Rightarrow> ''burst'' | Other_policy s \<Rightarrow> s)"

definition alloc_to_row :: "string \<Rightarrow> pool_allocation \<Rightarrow> alloc_row" where
  "alloc_to_row pid a =
     \<lparr>ar_poolId = pid, ar_apiKeyId = al_apiKeyId a, ar_weight = al_weight a, ar_capValue = al_capValue a,
      ar_capUnit = al_capUnit a, ar_policy = policy_text (al_policy a)\<rparr>"

definition equal_split :: "pool_allocation list \<Rightarrow> pool_allocation list" where
  "equal_split allocations =
     (if foldl (\<lambda>s a. s + al_weight a) 0 allocations = 0 \<and> allocations \<noteq> []
      then map (\<lambda>a. a\<lparr>al_weight := 100 / real (length allocations)\<rparr>) allocations else allocations)"

definition group_pools :: "quota_db \<Rightarrow> string \<Rightarrow> string list" where
  "group_pools db poolId =
     (case map_get (db_pools db) poolId of
        None \<Rightarrow> [poolId]
      | Some row \<Rightarrow>
          (case pr_groupId row of
             None \<Rightarrow> [poolId]
           | Some g \<Rightarrow>
               if g = [] then [poolId]
               else let ids = map fst (filter (\<lambda>(p, r). pr_groupId r = Some g) (db_pools db))
                    in if ids \<noteq> [] then ids else [poolId]))"

definition upsertAllocations :: "string \<Rightarrow> pool_allocation list \<Rightarrow> quota_db \<Rightarrow> quota_db" where
  "upsertAllocations poolId allocations db =
     (if poolId \<in> set (db_deleting db) then db
      else foldl (\<lambda>db pid. db\<lparr>db_allocations :=
             filter (\<lambda>r. ar_poolId r \<noteq> pid) (db_allocations db) @ map (alloc_to_row pid) (equal_split allocations)\<rparr>)
           db (group_pools db poolId))"

definition getModelCap :: "quota_db \<Rightarrow> string \<Rightarrow> string \<Rightarrow> string \<Rightarrow> model_cap option" where
  "getModelCap db poolId apiKeyId model = map_get (db_caps db) (poolId, apiKeyId, model)"

definition setModelCap :: "string \<Rightarrow> string \<Rightarrow> string \<Rightarrow> model_cap \<Rightarrow> quota_db \<Rightarrow> quota_db" where
  "setModelCap poolId apiKeyId model cap db = db\<lparr>db_caps := map_set (poolId, apiKeyId, model) cap (db_caps db)\<rparr>"

definition resolvePlan :: "quota_faults \<Rightarrow> quota_db \<Rightarrow> string \<Rightarrow> string \<Rightarrow> provider_plan" where
  "resolvePlan ft db connId provider =
     (let catalog =
        (case getKnownPlan provider of
           Some (name, dims) \<Rightarrow> \<lparr>pp_connectionId = None, pp_provider = name, pp_dimensions = dims, pp_manual = False\<rparr>
         | None \<Rightarrow> \<lparr>pp_connectionId = None, pp_provider = provider, pp_dimensions = [], pp_manual = True\<rparr>)
      in case (if ft_plan ft then None else map_get (db_plans db) connId) of
           Some p \<Rightarrow> if pp_dimensions p \<noteq> [] then p else catalog
         | None \<Rightarrow> catalog)"

subsection \<open>Before a request\<close>

record enforce_input =
  ei_apiKeyId :: string
  ei_connectionId :: string
  ei_provider :: string
  ei_model :: "string option"

datatype enforce_decision =
    En_allow "bool option"
  | En_block string int "int option"

record quota_notice =
  nt_reason :: string
  nt_model :: "string option"

definition COUNTABLE_UNITS :: "quota_unit set" where "COUNTABLE_UNITS = {Requests, Tokens, Usd}"

fun find_pool :: "quota_faults \<Rightarrow> quota_db \<Rightarrow> string \<Rightarrow> (string \<times> pool_allocation) list \<Rightarrow> (quota_pool \<times> pool_allocation) option" where
  "find_pool ft db connId [] = None"
| "find_pool ft db connId ((poolId, allocation) # rest) =
     (if ft_pool ft poolId then find_pool ft db connId rest
      else case getPool db poolId of
        Some p \<Rightarrow> if connId \<in> set (qp_connectionIds p) then Some (p, allocation) else find_pool ft db connId rest
      | None \<Rightarrow> find_pool ft db connId rest)"

definition peek_or_zero :: "quota_faults \<Rightarrow> consumption \<Rightarrow> string \<Rightarrow> dimension_key \<Rightarrow> int \<Rightarrow> real" where
  "peek_or_zero ft usage apiKeyId d now = (if ft_peek ft (dimensionKeyToString d) then 0 else peek_usage usage apiKeyId d now)"

definition model_dimension :: "string \<Rightarrow> string \<Rightarrow> model_cap \<Rightarrow> dimension_key" where
  "model_dimension poolId m cap = \<lparr>dk_poolId = poolId @ '':model:'' @ m, dk_unit = mc_capUnit cap, dk_window = Per_hour\<rparr>"

definition active_cap :: "quota_faults \<Rightarrow> quota_db \<Rightarrow> string \<Rightarrow> string \<Rightarrow> string option \<Rightarrow> (string \<times> model_cap) option" where
  "active_cap ft db poolId apiKeyId model =
     (case model of
        None \<Rightarrow> None
      | Some m \<Rightarrow>
          if m = [] then None
          else case (if ft_cap ft then None else getModelCap db poolId apiKeyId m) of
            None \<Rightarrow> None
          | Some cap \<Rightarrow> if EPSILON < mc_capValue cap then Some (m, cap) else None)"

definition accountCount :: "quota_pool \<Rightarrow> nat" where
  "accountCount pool = (if qp_connectionIds pool \<noteq> [] then length (qp_connectionIds pool) else 1)"

definition dimension_info :: "quota_faults \<Rightarrow> consumption \<Rightarrow> real \<Rightarrow> quota_pool \<Rightarrow> quota_dimension \<Rightarrow> int \<Rightarrow> fair_share_dimension" where
  "dimension_info ft usage globalUsedPercent pool d now =
     (let dimKey = \<lparr>dk_poolId = qp_id pool, dk_unit = qd_unit d, dk_window = qd_window d\<rparr>;
          effectiveLimit = qd_limit d * real (accountCount pool);
          consumedTotal =
            (if qd_unit d \<in> COUNTABLE_UNITS
             then (if ft_total ft (dimensionKeyToString dimKey) then 0 else poolConsumedTotal usage (qp_id pool) dimKey now)
             else globalUsedPercent * effectiveLimit)
      in \<lparr>fd_key = dimKey, fd_limit = effectiveLimit, fd_consumedTotal = consumedTotal, fd_globalUsedPercent = globalUsedPercent\<rparr>)"

fun gather_dimensions :: "quota_faults \<Rightarrow> consumption \<Rightarrow> (quota_dimension \<Rightarrow> real) \<Rightarrow> quota_pool \<Rightarrow> string \<Rightarrow> int
    \<Rightarrow> quota_dimension list \<Rightarrow> fair_share_dimension list \<times> (string, real) js_map
    \<Rightarrow> fair_share_dimension list \<times> (string, real) js_map" where
  "gather_dimensions ft usage sat pool apiKeyId now [] acc = acc"
| "gather_dimensions ft usage sat pool apiKeyId now (d # ds) (infos, byKey) =
     gather_dimensions ft usage sat pool apiKeyId now ds
       (if \<not> EPSILON < qd_limit d then (infos, byKey)
        else let dimKey = \<lparr>dk_poolId = qp_id pool, dk_unit = qd_unit d, dk_window = qd_window d\<rparr>
             in (infos @ [dimension_info ft usage (sat d) pool d now],
                 map_set (dimensionKeyToString dimKey) (peek_or_zero ft usage apiKeyId dimKey now) byKey))"

definition effective_weight :: "quota_pool \<Rightarrow> pool_allocation \<Rightarrow> real" where
  "effective_weight pool allocation =
     (let poolTotalWeight = foldl (\<lambda>s a. s + al_weight a) 0 (qp_allocations pool);
          allocCount = length (qp_allocations pool)
      in if 0 < poolTotalWeight then al_weight allocation
         else if 0 < allocCount then 100 / real allocCount else 0)"

definition messageForReason :: "fair_reason \<Rightarrow> string \<Rightarrow> string" where
  "messageForReason reason provider =
     (case reason of
        Reason_fair_share \<Rightarrow> ''Quota share limit reached for your API key on '' @ provider
      | Reason_cap_absolute \<Rightarrow> ''Absolute quota cap reached for your API key on '' @ provider
      | Reason_global_saturated \<Rightarrow> ''Provider '' @ provider @ '' quota window is saturated; no shared capacity available''
      | _ \<Rightarrow> ''Quota share enforcement blocked the request'')"

definition reason_text :: "fair_reason \<Rightarrow> string" where
  "reason_text r = (case r of Reason_ok \<Rightarrow> ''ok'' | Reason_fair_share \<Rightarrow> ''fair-share''
     | Reason_cap_absolute \<Rightarrow> ''cap-absolute'' | Reason_global_saturated \<Rightarrow> ''global-saturated'')"

definition model_cap_block :: "quota_faults \<Rightarrow> quota_db \<Rightarrow> consumption \<Rightarrow> quota_pool \<Rightarrow> enforce_input \<Rightarrow> int
    \<Rightarrow> (enforce_decision \<times> quota_notice list) option" where
  "model_cap_block ft db usage pool input now =
     (case active_cap ft db (qp_id pool) (ei_apiKeyId input) (ei_model input) of
        None \<Rightarrow> None
      | Some (m, cap) \<Rightarrow>
          if mc_capValue cap \<le> peek_or_zero ft usage (ei_apiKeyId input) (model_dimension (qp_id pool) m cap) now
          then Some (En_block (''Model cap reached for your API key on '' @ ei_provider input @ ''/'' @ m @ '' [model-cap]'') 429 None,
            [\<lparr>nt_reason = ''model-cap'', nt_model = Some m\<rparr>])
          else None)"

definition pool_decision :: "quota_faults \<Rightarrow> (quota_dimension \<Rightarrow> real) \<Rightarrow> real \<Rightarrow> consumption \<Rightarrow> quota_pool \<Rightarrow> pool_allocation
    \<Rightarrow> quota_dimension list \<Rightarrow> enforce_input \<Rightarrow> int \<Rightarrow> fair_decision" where
  "pool_decision ft sat threshold usage pool poolAllocation dims input now =
     (let (infos, byKey) = gather_dimensions ft usage sat pool (ei_apiKeyId input) now dims ([], [])
      in decideFairShare infos (poolAllocation\<lparr>al_weight := effective_weight pool poolAllocation\<rparr>) byKey threshold)"

definition enforceQuotaShare :: "quota_faults \<Rightarrow> (string \<Rightarrow> string \<Rightarrow> quota_dimension \<Rightarrow> real option) \<Rightarrow> real \<Rightarrow> quota_db \<Rightarrow> consumption
    \<Rightarrow> enforce_input \<Rightarrow> int \<Rightarrow> enforce_decision \<times> quota_notice list" where
  "enforceQuotaShare ft getSaturation threshold db usage input now =
     (if ft_allocations ft then (En_allow None, [])
      else case find_pool ft db (ei_connectionId input) (listAllocationsForApiKey db (ei_apiKeyId input)) of
        None \<Rightarrow> (En_allow None, [])
      | Some (pool, poolAllocation) \<Rightarrow>
          let plan = resolvePlan ft db (ei_connectionId input) (ei_provider input) in
          case model_cap_block ft db usage pool input now of
            Some blocked \<Rightarrow> blocked
          | None \<Rightarrow>
              if pp_dimensions plan = [] then (En_allow None, [])
              else
                let sat = (\<lambda>d. nullish (getSaturation (ei_connectionId input) (ei_provider input) d) 0);
                    decision = pool_decision ft sat threshold usage pool poolAllocation (pp_dimensions plan) input now
                in if \<not> fs_allow decision
                   then (En_block (messageForReason (fs_reason decision) (ei_provider input)) 429
                           (case fs_retryAfterMs decision of
                              None \<Rightarrow> None
                            | Some ms \<Rightarrow> if ms = 0 then None else Some \<lceil>ms / 1000\<rceil>),
                         [\<lparr>nt_reason = reason_text (fs_reason decision), nt_model = None\<rparr>])
                   else (En_allow (Some (fs_penalized decision = Some True)), []))"

subsection \<open>After a response\<close>

record consumption_cost =
  cc_tokens :: "real option"
  cc_usd :: "real option"
  cc_requests :: "real option"

fun costForUnit :: "consumption_cost \<Rightarrow> quota_unit \<Rightarrow> real" where
  "costForUnit cost Tokens = nullish (cc_tokens cost) 0"
| "costForUnit cost Usd = nullish (cc_usd cost) 0"
| "costForUnit cost Requests = nullish (cc_requests cost) 1"
| "costForUnit cost Percent = 0"

fun find_pool_id :: "quota_faults \<Rightarrow> quota_db \<Rightarrow> string \<Rightarrow> (string \<times> pool_allocation) list \<Rightarrow> string option" where
  "find_pool_id ft db connId [] = None"
| "find_pool_id ft db connId ((pid, allocation) # rest) =
     (if ft_pool ft pid then find_pool_id ft db connId rest
      else case getPool db pid of
        Some p \<Rightarrow> if connId \<in> set (qp_connectionIds p) then Some pid else find_pool_id ft db connId rest
      | None \<Rightarrow> find_pool_id ft db connId rest)"

definition consume_or_drift :: "quota_faults \<Rightarrow> string \<Rightarrow> dimension_key \<Rightarrow> real \<Rightarrow> int \<Rightarrow> consumption \<Rightarrow> consumption" where
  "consume_or_drift ft apiKeyId d cost now usage =
     (if 0 < cost \<and> \<not> ft_consume ft (dimensionKeyToString d) then snd (consume apiKeyId d cost now usage) else usage)"

definition recordConsumption :: "quota_faults \<Rightarrow> quota_db \<Rightarrow> enforce_input \<Rightarrow> consumption_cost \<Rightarrow> int \<Rightarrow> consumption \<Rightarrow> consumption" where
  "recordConsumption ft db input cost now usage =
     (if ft_allocations ft then usage
      else case find_pool_id ft db (ei_connectionId input) (listAllocationsForApiKey db (ei_apiKeyId input)) of
        None \<Rightarrow> usage
      | Some poolId \<Rightarrow>
          if poolId = [] then usage
          else
          let plan = resolvePlan ft db (ei_connectionId input) (ei_provider input);
              usage1 = foldl (\<lambda>usage d. consume_or_drift ft (ei_apiKeyId input)
                  \<lparr>dk_poolId = poolId, dk_unit = qd_unit d, dk_window = qd_window d\<rparr> (costForUnit cost (qd_unit d)) now usage)
                usage (pp_dimensions plan)
          in (case active_cap ft db poolId (ei_apiKeyId input) (ei_model input) of
                None \<Rightarrow> usage1
              | Some (m, cap) \<Rightarrow>
                  consume_or_drift ft (ei_apiKeyId input) (model_dimension poolId m cap) (costForUnit cost (mc_capUnit cap)) now usage1))"

subsection \<open>The pool that is checked is the pool that is charged\<close>

lemma getPool_id: "getPool db pid = Some p \<Longrightarrow> qp_id p = pid"
  by (auto simp: getPool_def build_pool_def Let_def)

lemma find_pool_id_eq: "find_pool_id ft db c as = map_option (\<lambda>(p, a). qp_id p) (find_pool ft db c as)"
  by (induction as) (auto simp: getPool_id split: option.split)

lemma find_pool_getPool: "find_pool ft db c as = Some (p, a) \<Longrightarrow> getPool db (qp_id p) = Some p"
proof (induction as)
  case (Cons x as)
  obtain pid alloc where x: "x = (pid, alloc)" by (cases x)
  from Cons show ?case
    by (cases "ft_pool ft pid"; cases "getPool db pid") (auto simp: x dest: getPool_id split: if_splits)
qed simp

subsection \<open>The dimensions of a decision\<close>

definition active :: "quota_dimension \<Rightarrow> bool" where
  "active d \<longleftrightarrow> EPSILON < qd_limit d"

abbreviation key_of :: "string \<Rightarrow> quota_dimension \<Rightarrow> dimension_key" where
  "key_of pid d \<equiv> \<lparr>dk_poolId = pid, dk_unit = qd_unit d, dk_window = qd_window d\<rparr>"

lemma gather_infos:
  "fst (gather_dimensions ft usage sat pool k now dims (infos, byKey))
    = infos @ map (\<lambda>d. dimension_info ft usage (sat d) pool d now) (filter active dims)"
  by (induction dims arbitrary: infos byKey) (auto simp: active_def Let_def)

lemma dimension_key_eq: "dimensionKeyToString d = dimensionKeyToString e \<longleftrightarrow> d = e"
  using dimension_key_inj by blast

lemma gather_use:
  "map_get (snd (gather_dimensions ft usage sat pool k now dims (infos, byKey))) (dimensionKeyToString x)
    = (if \<exists>d \<in> set (filter active dims). key_of (qp_id pool) d = x then Some (peek_or_zero ft usage k x now)
       else map_get byKey (dimensionKeyToString x))"
proof (induction dims arbitrary: infos byKey)
  case (Cons d dims)
  show ?case
  proof (cases "active d")
    case True
    then have "\<not> \<not> EPSILON < qd_limit d" by (simp add: active_def)
    then have step: "gather_dimensions ft usage sat pool k now (d # dims) (infos, byKey)
        = gather_dimensions ft usage sat pool k now dims (infos @ [dimension_info ft usage (sat d) pool d now],
            map_set (dimensionKeyToString (key_of (qp_id pool) d)) (peek_or_zero ft usage k (key_of (qp_id pool) d) now) byKey)"
      by (simp only: gather_dimensions.simps Let_def if_False)
    show ?thesis
      unfolding step Cons.IH map_of_update fun_upd_apply dimension_key_eq using True by auto
  next
    case False
    then have "\<not> EPSILON < qd_limit d" by (simp add: active_def)
    then have step: "gather_dimensions ft usage sat pool k now (d # dims) (infos, byKey)
        = gather_dimensions ft usage sat pool k now dims (infos, byKey)"
      by (simp only: gather_dimensions.simps Let_def if_True not_False_eq_True)
    show ?thesis unfolding step Cons.IH using False by simp
  qed
qed simp

lemma dimension_info_key: "fd_key (dimension_info ft usage g pool d now) = key_of (qp_id pool) d"
  by (simp add: dimension_info_def Let_def)

text \<open>The obstacle of a dimension of the plan: the readings it is decided on.\<close>

definition plan_obstacle :: "quota_faults \<Rightarrow> (quota_dimension \<Rightarrow> real) \<Rightarrow> real \<Rightarrow> consumption \<Rightarrow> quota_pool \<Rightarrow> pool_allocation
    \<Rightarrow> string \<Rightarrow> int \<Rightarrow> quota_dimension \<Rightarrow> fair_reason option" where
  "plan_obstacle ft sat threshold usage pool alloc k now d =
     obstacle (alloc\<lparr>al_weight := effective_weight pool alloc\<rparr>) (normalizePolicy (al_policy alloc))
       [(dimensionKeyToString (key_of (qp_id pool) d), peek_or_zero ft usage k (key_of (qp_id pool) d) now)]
       threshold (dimension_info ft usage (sat d) pool d now)"

lemma obstacle_use:
  "key_use byKey dm = key_use byKey' dm \<Longrightarrow> obstacle alloc p byKey threshold dm = obstacle alloc p byKey' threshold dm"
  by (simp only: obstacle_def capped_out_def)

lemma pool_allows:
  "fs_allow (pool_decision ft sat threshold usage pool alloc dims input now)
    \<longleftrightarrow> (\<forall>d \<in> set dims. active d \<longrightarrow> plan_obstacle ft sat threshold usage pool alloc (ei_apiKeyId input) now d = None)"
proof -
  let ?g = "gather_dimensions ft usage sat pool (ei_apiKeyId input) now dims ([], [])"
  let ?info = "\<lambda>d. dimension_info ft usage (sat d) pool d now"
  have use: "key_use (snd ?g) (?info d) = key_use [(dimensionKeyToString (key_of (qp_id pool) d),
      peek_or_zero ft usage (ei_apiKeyId input) (key_of (qp_id pool) d) now)] (?info d)" if "d \<in> set dims" "active d" for d
    using that by (auto simp: key_use_def dimension_info_key gather_use)
  have "fs_allow (pool_decision ft sat threshold usage pool alloc dims input now)
    \<longleftrightarrow> (\<forall>d \<in> set (filter active dims). obstacle (alloc\<lparr>al_weight := effective_weight pool alloc\<rparr>)
          (normalizePolicy (al_policy alloc)) (snd ?g) threshold (?info d) = None)"
    using gather_infos [of ft usage sat pool "ei_apiKeyId input" now dims "[]" "[]"]
    unfolding pool_decision_def Let_def by (cases ?g) (simp add: allow_iff)
  also have "\<dots> \<longleftrightarrow> (\<forall>d \<in> set (filter active dims). plan_obstacle ft sat threshold usage pool alloc (ei_apiKeyId input) now d = None)"
    unfolding plan_obstacle_def using obstacle_use [OF use] by auto
  finally show ?thesis by auto
qed

lemma EPSILON_pos: "0 < EPSILON"
  by (simp add: EPSILON_def)

lemma model_cap_blocks: "model_cap_block ft db usage pool input now = Some (dec, ns) \<Longrightarrow> \<exists>r. dec = En_block r 429 None"
  by (auto simp: model_cap_block_def split: option.splits if_splits prod.splits)

text \<open>When a request is allowed: no pool, or a pool with no cap reached and no obstacle.\<close>

lemma enforce_allows:
  assumes "\<not> ft_allocations ft"
    and "find_pool ft db (ei_connectionId input) (listAllocationsForApiKey db (ei_apiKeyId input)) = Some (pool, alloc)"
    and sat: "sat = (\<lambda>d. nullish (getSaturation (ei_connectionId input) (ei_provider input) d) 0)"
  shows "(\<exists>pen ns. enforceQuotaShare ft getSaturation threshold db usage input now = (En_allow pen, ns))
    \<longleftrightarrow> model_cap_block ft db usage pool input now = None
      \<and> (\<forall>d \<in> set (pp_dimensions (resolvePlan ft db (ei_connectionId input) (ei_provider input))).
           active d \<longrightarrow> plan_obstacle ft sat threshold usage pool alloc (ei_apiKeyId input) now d = None)"
proof -
  have "fs_allow (pool_decision ft sat threshold usage pool alloc [] input now)"
    by (simp add: pool_decision_def decideFairShare_def)
  then show ?thesis using assms(1,2) unfolding sat pool_allows [symmetric, where input = input]
  by (auto simp: enforceQuotaShare_def Let_def dest: model_cap_blocks split: option.splits)
qed

subsection \<open>Faults\<close>

text \<open>Every reading of what has been used fails.\<close>

definition blind :: "quota_faults \<Rightarrow> bool" where
  "blind ft \<longleftrightarrow> (\<forall>k. ft_peek ft k) \<and> (\<forall>k. ft_total ft k)"

text \<open>
  C25: The gate fails open: when the pools cannot be read, or when nothing that was used can be read and the
  provider gives no signal, every request is allowed, whatever the tables hold, as long as the caps in
  them are positive and the threshold is.
\<close>

theorem fail_open:
  assumes "ft_allocations ft \<or> blind ft \<and> (\<forall>c p d. getSaturation c p d = None)"
    and "0 < threshold" and "\<forall>r \<in> set (db_allocations db). \<forall>cap. ar_capValue r = Some cap \<longrightarrow> 0 < cap"
  shows "\<exists>pen ns. enforceQuotaShare ft getSaturation threshold db usage input now = (En_allow pen, ns)"
proof (cases "ft_allocations ft")
  case True
  then show ?thesis by (simp add: enforceQuotaShare_def)
next
  case False
  then have blind: "blind ft" "\<forall>c p d. getSaturation c p d = None" using assms(1) by auto
  let ?as = "listAllocationsForApiKey db (ei_apiKeyId input)"
  show ?thesis
  proof (cases "find_pool ft db (ei_connectionId input) ?as")
    case None
    with False show ?thesis by (simp add: enforceQuotaShare_def)
  next
    case (Some pa)
    obtain pool alloc where pa: "pa = (pool, alloc)" by (cases pa)
    have "alloc \<in> snd ` set as" if "find_pool ft db c as = Some (pool, alloc)" for c as
      using that by (induction as) (auto split: if_splits option.splits)
    then have "alloc \<in> snd ` set ?as" using Some pa by blast
    then have cap: "al_capValue alloc = Some cap \<Longrightarrow> 0 < cap" for cap
      using assms(3) by (auto simp: listAllocationsForApiKey_def rowToAllocation_def)
    have peek0: "peek_or_zero ft usage k x now = 0" for k x using blind(1) by (simp add: peek_or_zero_def blind_def)
    have nocap: "model_cap_block ft db usage pool input now = None"
      using EPSILON_pos by (auto simp: model_cap_block_def peek0 active_cap_def split: option.splits if_splits)
    have "plan_obstacle ft (\<lambda>d. 0) threshold usage pool alloc k now d = None" if "active d" for k d
    proof -
      have "0 < qd_limit d" using that EPSILON_pos by (simp add: active_def)
      moreover have "0 < real (accountCount pool)" by (simp add: accountCount_def)
      ultimately have "0 < qd_limit d * real (accountCount pool)" by simp
      then have "0 < fd_limit (dimension_info ft usage 0 pool d now)" "fd_consumedTotal (dimension_info ft usage 0 pool d now) = 0"
        "fd_globalUsedPercent (dimension_info ft usage 0 pool d now) = 0"
        using blind(1) by (simp_all add: dimension_info_def Let_def blind_def)
      then show ?thesis using assms(2) cap
        by (force simp: plan_obstacle_def obstacle_def capped_out_def key_use_def peek0 dimension_info_key)
    qed
    then show ?thesis
      using enforce_allows [where getSaturation = getSaturation and threshold = threshold and usage = usage and now = now,
          OF False Some [unfolded pa] refl] nocap blind(2) by simp
  qed
qed

theorem fail_open_witness:
  "let ft = \<lparr>ft_allocations = False, ft_pool = \<lambda>_. False, ft_cap = False, ft_plan = False, ft_peek = \<lambda>_. True, ft_total = \<lambda>_. True, ft_consume = \<lambda>_. True\<rparr>;
       db = \<lparr>db_pools = [(''p'', \<lparr>pr_connectionId = ''c'', pr_name = ''n'', pr_groupId = None\<rparr>)], db_members = [],
         db_allocations = [\<lparr>ar_poolId = ''p'', ar_apiKeyId = ''k'', ar_weight = 50, ar_capValue = Some 3, ar_capUnit = Some Requests, ar_policy = ''hard''\<rparr>],
         db_deleting = [], db_caps = [], db_plans = []\<rparr> in
   \<exists>pen ns. enforceQuotaShare ft (\<lambda>_ _ _. None) (1 / 2) db [((''k'', ''p:requests:hourly'', 0), \<lparr>cr_consumed = 9999, cr_updatedAt = 1\<rparr>)]
     \<lparr>ei_apiKeyId = ''k'', ei_connectionId = ''c'', ei_provider = ''kimi'', ei_model = None\<rparr> 5 = (En_allow pen, ns)"
  unfolding Let_def by (rule fail_open) (simp_all add: blind_def)

subsection \<open>Shares of a percentage\<close>

lemma record_keeps_percent:
  assumes "dk_unit x = Percent"
  shows "peek_usage (recordConsumption ft db input cost t usage) k x now = peek_usage usage k x now"
proof -
  have one: "peek_usage (consume_or_drift ft k' y (costForUnit cost (dk_unit y)) t usage) k x now = peek_usage usage k x now" for y k' usage
    using assms by (auto simp: consume_or_drift_def peek_consume)
  have many: "peek_usage (foldl (\<lambda>usage d. consume_or_drift ft k' (key_of pid d) (costForUnit cost (qd_unit d)) t usage) usage ds) k x now
      = peek_usage usage k x now" for k' pid ds usage
  proof (induction ds arbitrary: usage)
    case (Cons d ds)
    then show ?case using one [of k' "key_of pid d"] by simp
  qed simp
  have model: "dk_unit (model_dimension pid m cap) = mc_capUnit cap" for pid m cap by (simp add: model_dimension_def)
  show ?thesis
    by (auto simp: recordConsumption_def Let_def many one [of _ "model_dimension _ _ _", unfolded model] split: option.split)
qed

text \<open>
  On a plan in percent (Codex, Claude and Bailian have no other in the catalogue) shares are not
  attributed to keys: whatever has been recorded, a key with a weight and no cap is allowed exactly when the
  provider's own signal is below one in every dimension, however much of the pool the key has used itself.
\<close>

theorem percent_plan_ignores_use:
  assumes "\<not> ft_allocations ft"
    and "find_pool ft db (ei_connectionId input) (listAllocationsForApiKey db (ei_apiKeyId input)) = Some (pool, alloc)"
    and "al_capValue alloc = None" and "ei_model input = None" and "0 < effective_weight pool alloc"
    and plan: "\<forall>d \<in> set (pp_dimensions (resolvePlan ft db (ei_connectionId input) (ei_provider input))). qd_unit d = Percent \<and> active d"
    and runs: "usage = foldl (\<lambda>u (db', i, cost, t). recordConsumption ft db' i cost t u) [] recorded"
  shows "(\<exists>pen ns. enforceQuotaShare ft getSaturation threshold db usage input now = (En_allow pen, ns))
    \<longleftrightarrow> (\<forall>d \<in> set (pp_dimensions (resolvePlan ft db (ei_connectionId input) (ei_provider input))).
          nullish (getSaturation (ei_connectionId input) (ei_provider input) d) 0 < 1)"
proof -
  let ?dims = "pp_dimensions (resolvePlan ft db (ei_connectionId input) (ei_provider input))"
  define sat where "sat = (\<lambda>d. nullish (getSaturation (ei_connectionId input) (ei_provider input) d) 0)"
  have "peek_usage usage k x now = 0" if "dk_unit x = Percent" for k x
    unfolding runs
  proof (induction recorded rule: rev_induct)
    case Nil
    show ?case by (simp add: peek_buckets getBucket_def)
  next
    case (snoc e es)
    then show ?case using record_keeps_percent [OF that] by (cases e) simp
  qed
  then have peek0: "peek_or_zero ft usage k x now = 0" if "dk_unit x = Percent" for k x
    using that by (simp add: peek_or_zero_def)
  have nocap: "model_cap_block ft db usage pool input now = None" using assms(4) by (simp add: model_cap_block_def active_cap_def)
  have "plan_obstacle ft sat threshold usage pool alloc (ei_apiKeyId input) now d = None \<longleftrightarrow> sat d < 1" if "d \<in> set ?dims" for d
  proof -
    have u: "qd_unit d = Percent" and "0 < qd_limit d" using plan that EPSILON_pos by (force simp: active_def)+
    then have L: "0 < qd_limit d * real (accountCount pool)" by (simp add: accountCount_def)
    let ?i = "dimension_info ft usage (sat d) pool d now"
    have i: "fd_limit ?i = qd_limit d * real (accountCount pool)" "fd_consumedTotal ?i = sat d * fd_limit ?i" "fd_globalUsedPercent ?i = sat d"
      by (simp_all add: dimension_info_def Let_def u COUNTABLE_UNITS_def)
    have total: "fd_limit ?i \<le> fd_consumedTotal ?i \<longleftrightarrow> 1 \<le> sat d"
      using mult_le_cancel_right_pos [OF L, of 1 "sat d"] by (simp add: i)
    have use: "peek_or_zero ft usage (ei_apiKeyId input) (key_of (qp_id pool) d) now = 0" by (rule peek0) (simp add: u)
    have "0 < fair_part (alloc\<lparr>al_weight := effective_weight pool alloc\<rparr>) ?i"
      using assms(5) L by (simp add: fair_part_def i(1))
    then show ?thesis
      using L by (auto simp: plan_obstacle_def obstacle_def capped_out_def assms(3) key_use_def use dimension_info_key total [unfolded i(1)] i(1))
  qed
  then show ?thesis
    using enforce_allows [where getSaturation = getSaturation and threshold = threshold and usage = usage and now = now, OF assms(1,2) sat_def]
      nocap plan unfolding sat_def by auto
qed

theorem percent_plan_ignores_use_witness:
  "let ft = \<lparr>ft_allocations = False, ft_pool = \<lambda>_. False, ft_cap = False, ft_plan = False, ft_peek = \<lambda>_. False, ft_total = \<lambda>_. False, ft_consume = \<lambda>_. False\<rparr>;
       db = \<lparr>db_pools = [(''p'', \<lparr>pr_connectionId = ''c'', pr_name = ''n'', pr_groupId = None\<rparr>)], db_members = [],
         db_allocations = [\<lparr>ar_poolId = ''p'', ar_apiKeyId = ''k'', ar_weight = 1, ar_capValue = None, ar_capUnit = None, ar_policy = ''hard''\<rparr>],
         db_deleting = [], db_caps = [], db_plans = []\<rparr>;
       input = \<lparr>ei_apiKeyId = ''k'', ei_connectionId = ''c'', ei_provider = ''codex'', ei_model = None\<rparr>;
       usage = recordConsumption ft db input \<lparr>cc_tokens = Some 1000000, cc_usd = Some 50, cc_requests = Some 1000\<rparr> 3 [] in
   \<exists>pen ns. enforceQuotaShare ft (\<lambda>_ _ _. Some (9 / 10)) (1 / 2) db usage input 5 = (En_allow pen, ns)"
proof -
  define ft where "ft = \<lparr>ft_allocations = False, ft_pool = \<lambda>_. False, ft_cap = False, ft_plan = False, ft_peek = \<lambda>_. False, ft_total = \<lambda>_. False, ft_consume = \<lambda>_. False\<rparr>"
  define db where "db = \<lparr>db_pools = [(''p'', \<lparr>pr_connectionId = ''c'', pr_name = ''n'', pr_groupId = None\<rparr>)], db_members = [],
         db_allocations = [\<lparr>ar_poolId = ''p'', ar_apiKeyId = ''k'', ar_weight = 1, ar_capValue = None, ar_capUnit = None, ar_policy = ''hard''\<rparr>],
         db_deleting = [], db_caps = [], db_plans = []\<rparr>"
  define input where "input = \<lparr>ei_apiKeyId = ''k'', ei_connectionId = ''c'', ei_provider = ''codex'', ei_model = None\<rparr>"
  define cost where "cost = \<lparr>cc_tokens = Some 1000000, cc_usd = Some 50, cc_requests = Some (1000 :: real)\<rparr>"
  define alloc where "alloc = \<lparr>al_apiKeyId = ''k'', al_weight = 1, al_capValue = None, al_capUnit = None, al_policy = Hard\<rparr>"
  define pool where "pool = \<lparr>qp_id = ''p'', qp_connectionId = ''c'', qp_connectionIds = [''c''], qp_name = ''n'', qp_groupId = ''group-demo'', qp_allocations = [alloc]\<rparr>"
  have found: "find_pool ft db (ei_connectionId input) (listAllocationsForApiKey db (ei_apiKeyId input)) = Some (pool, alloc)"
    by (simp add: ft_def db_def input_def pool_def alloc_def listAllocationsForApiKey_def getPool_def build_pool_def rowToAllocation_def policy_of_def or_text_def)
  have dims: "pp_dimensions (resolvePlan ft db (ei_connectionId input) (ei_provider input)) = [qdim Percent Per_5h 100, qdim Percent Per_week 100]"
    by (simp add: resolvePlan_def ft_def db_def input_def getKnownPlan_def KNOWN_PLANS_def)
  have "\<exists>pen ns. enforceQuotaShare ft (\<lambda>_ _ _. Some (9 / 10)) (1 / 2) db (recordConsumption ft db input cost 3 []) input 5 = (En_allow pen, ns)"
  proof (subst percent_plan_ignores_use [where recorded = "[(db, input, cost, 3)]", OF _ found])
    show "\<not> ft_allocations ft" by (simp add: ft_def)
    show "\<forall>d \<in> set (pp_dimensions (resolvePlan ft db (ei_connectionId input) (ei_provider input))). qd_unit d = Percent \<and> active d"
      unfolding dims by (simp add: active_def EPSILON_def)
  qed (simp_all add: alloc_def input_def pool_def effective_weight_def)
  then show ?thesis unfolding Let_def ft_def db_def input_def cost_def by blast
qed

subsection \<open>The pool is not overrun\<close>

lemma bucket_total_increment:
  "bucket_total (incrementBucket k d' b' delta now t) d b = bucket_total t d b + (if d' = d \<and> b' = b then delta else 0)"
proof -
  have upd: "bucket_total (map_set (k, d', b') r t) d b
      = bucket_total t d b + (if d' = d \<and> b' = b then cr_consumed r - getBucket t k d' b' else 0)" for r
    by (induction t) (auto simp: bucket_total_def getBucket_def)
  show ?thesis
    by (cases "map_get t (k, d', b')") (auto simp: incrementBucket_def Let_def upd getBucket_def)
qed

definition pool_total :: "dimension_key \<Rightarrow> int \<Rightarrow> consumption \<Rightarrow> real" where
  "pool_total x now t = (let w = WINDOW_MS (dk_window x) in
     bucket_total t (dimensionKeyToString x) (now div w - 1) * decay now w + bucket_total t (dimensionKeyToString x) (now div w))"

lemma pool_total_eq: "poolConsumedTotal t p x now = pool_total x now t"
  by (simp add: poolConsumedTotal_def sumPoolDimension_def Let_def effective_decay pool_total_def)

lemma pool_total_consume:
  "pool_total x now (snd (consume k y cost now t)) = pool_total x now t + (if y = x then cost else 0)"
  by (auto simp: pool_total_def Let_def consume_table bucket_total_increment dimension_key_eq algebra_simps)

text \<open>Nothing lies in the future and no amount is negative: then the total only falls with time.\<close>

definition settled_usage :: "dimension_key \<Rightarrow> int \<Rightarrow> consumption \<Rightarrow> bool" where
  "settled_usage x now t \<longleftrightarrow> (\<forall>b. 0 \<le> bucket_total t (dimensionKeyToString x) b)
     \<and> (\<forall>b > now div WINDOW_MS (dk_window x). bucket_total t (dimensionKeyToString x) b = 0)"

lemma settled_later: "settled_usage x now t \<Longrightarrow> now \<le> now' \<Longrightarrow> settled_usage x now' t"
  using zdiv_mono1 [OF _ WINDOW_MS_pos, of now now' "dk_window x"] unfolding settled_usage_def by force

lemma settled_consume: "settled_usage x now t \<Longrightarrow> 0 \<le> cost \<Longrightarrow> settled_usage x now (snd (consume k y cost now t))"
  by (auto simp: settled_usage_def consume_table bucket_total_increment dimension_key_eq)

lemma pool_total_falls:
  assumes "settled_usage x now t" and "now \<le> now'"
  shows "pool_total x now' t \<le> pool_total x now t"
proof -
  let ?w = "WINDOW_MS (dk_window x)" and ?B = "bucket_total t (dimensionKeyToString x)"
  have w: "0 < ?w" by (rule WINDOW_MS_pos)
  have B: "0 \<le> ?B b" "b > now div ?w \<Longrightarrow> ?B b = 0" for b using assms(1) by (simp_all add: settled_usage_def)
  have le: "now div ?w \<le> now' div ?w" by (rule zdiv_mono1 [OF assms(2) w])
  consider "now' div ?w = now div ?w" | "now' div ?w = now div ?w + 1" | "now' div ?w \<ge> now div ?w + 2" using le by linarith
  then show ?thesis
  proof cases
    case 1
    have "now div ?w * ?w + now mod ?w = now" "now div ?w * ?w + now' mod ?w = now'"
      using div_mult_mod_eq [of now' ?w] by (simp_all add: 1)
    then have "now mod ?w \<le> now' mod ?w" using assms(2) by linarith
    then have "decay now' ?w \<le> decay now ?w" using w by (simp add: decay_def divide_right_mono)
    then show ?thesis using B(1) by (simp add: pool_total_def Let_def 1 mult_left_mono)
  next
    case 2
    have "?B (now div ?w) * decay now' ?w \<le> ?B (now div ?w) * 1"
      by (rule mult_left_mono) (use decay_range [OF w] B(1) in auto)
    moreover have "0 \<le> ?B (now div ?w - 1) * decay now ?w" using decay_range [OF w, of now] B(1) by simp
    ultimately show ?thesis using B(2) by (simp add: pool_total_def Let_def 2)
  next
    case 3
    then have "?B (now' div ?w) = 0" "?B (now' div ?w - 1) = 0" using B(2) by simp_all
    moreover have "0 \<le> pool_total x now t" using decay_range [OF w, of now] B(1) by (simp add: pool_total_def Let_def)
    ultimately show ?thesis by (simp add: pool_total_def Let_def)
  qed
qed

text \<open>What one recording adds to a dimension of the pool: at most its cost, once.\<close>

lemma charge_once:
  assumes "distinct (map (key_of pid) ds)" and "0 \<le> costForUnit cost (dk_unit x)"
  shows "pool_total x now (foldl (\<lambda>u d. consume_or_drift ft k (key_of pid d) (costForUnit cost (qd_unit d)) now u) usage ds)
      \<le> pool_total x now usage + (if x \<in> key_of pid ` set ds then costForUnit cost (dk_unit x) else 0)
    \<and> (settled_usage x now usage \<longrightarrow> settled_usage x now (foldl (\<lambda>u d. consume_or_drift ft k (key_of pid d) (costForUnit cost (qd_unit d)) now u) usage ds))"
  using assms(1)
proof (induction ds arbitrary: usage)
  case (Cons d ds)
  let ?u = "consume_or_drift ft k (key_of pid d) (costForUnit cost (qd_unit d)) now usage"
  have step: "pool_total x now ?u \<le> pool_total x now usage + (if key_of pid d = x then costForUnit cost (dk_unit x) else 0)"
    using assms(2) by (auto simp: consume_or_drift_def pool_total_consume)
  have keep: "settled_usage x now usage \<longrightarrow> settled_usage x now ?u"
    by (simp add: consume_or_drift_def settled_consume)
  have "key_of pid d = x \<longrightarrow> x \<notin> key_of pid ` set ds" using Cons.prems by auto
  with Cons.IH [of ?u] Cons.prems step keep assms(2) show ?case by (auto split: if_splits)
qed simp

lemma model_dimension_other: "model_dimension pid m cap \<noteq> \<lparr>dk_poolId = pid, dk_unit = u, dk_window = w\<rparr>"
proof
  assume "model_dimension pid m cap = \<lparr>dk_poolId = pid, dk_unit = u, dk_window = w\<rparr>"
  then have "length (pid @ '':model:'' @ m) = length pid" by (simp add: model_dimension_def)
  then show False by simp
qed

definition serves :: "quota_faults \<Rightarrow> quota_db \<Rightarrow> quota_pool \<Rightarrow> quota_dimension \<Rightarrow> enforce_input \<Rightarrow> bool" where
  "serves ft db pool d input \<longleftrightarrow>
     (\<exists>alloc. find_pool ft db (ei_connectionId input) (listAllocationsForApiKey db (ei_apiKeyId input)) = Some (pool, alloc))
     \<and> d \<in> set (pp_dimensions (resolvePlan ft db (ei_connectionId input) (ei_provider input)))
     \<and> distinct (map (\<lambda>e. (qd_unit e, qd_window e)) (pp_dimensions (resolvePlan ft db (ei_connectionId input) (ei_provider input))))"

lemma record_charges:
  assumes "serves ft db pool d input" and "\<forall>u. 0 \<le> costForUnit cost u"
  shows "pool_total (key_of (qp_id pool) d) now (recordConsumption ft db input cost now usage)
      \<le> pool_total (key_of (qp_id pool) d) now usage + costForUnit cost (qd_unit d)"
    and "settled_usage (key_of (qp_id pool) d) now usage \<longrightarrow> settled_usage (key_of (qp_id pool) d) now (recordConsumption ft db input cost now usage)"
proof -
  let ?x = "key_of (qp_id pool) d" and ?ds = "pp_dimensions (resolvePlan ft db (ei_connectionId input) (ei_provider input))"
  have id: "find_pool_id ft db (ei_connectionId input) (listAllocationsForApiKey db (ei_apiKeyId input)) = Some (qp_id pool)"
    using assms(1) by (auto simp: serves_def find_pool_id_eq)
  have "map (key_of (qp_id pool)) ?ds = map (\<lambda>(u, w). \<lparr>dk_poolId = qp_id pool, dk_unit = u, dk_window = w\<rparr>) (map (\<lambda>e. (qd_unit e, qd_window e)) ?ds)"
    by simp
  moreover have "inj (\<lambda>(u, w). \<lparr>dk_poolId = qp_id pool, dk_unit = u, dk_window = w\<rparr>)" by (auto simp: inj_def)
  ultimately have dist: "distinct (map (key_of (qp_id pool)) ?ds)"
    using assms(1) unfolding serves_def by (simp add: distinct_map inj_on_subset [OF _ subset_UNIV] del: map_map)
  define u1 where "u1 = foldl (\<lambda>u e. consume_or_drift ft (ei_apiKeyId input) (key_of (qp_id pool) e) (costForUnit cost (qd_unit e)) now u) usage ?ds"
  have c: "pool_total ?x now u1 \<le> pool_total ?x now usage + costForUnit cost (qd_unit d)" "settled_usage ?x now usage \<longrightarrow> settled_usage ?x now u1"
  proof -
    have "?x \<in> key_of (qp_id pool) ` set ?ds" using assms(1) by (auto simp: serves_def)
    with charge_once [OF dist, of cost ?x now ft "ei_apiKeyId input" usage] assms(2)
    show "pool_total ?x now u1 \<le> pool_total ?x now usage + costForUnit cost (qd_unit d)" "settled_usage ?x now usage \<longrightarrow> settled_usage ?x now u1"
      by (simp_all add: u1_def)
  qed
  have model: "pool_total ?x now (consume_or_drift ft k (model_dimension (qp_id pool) m cap) v now u1) = pool_total ?x now u1"
    "settled_usage ?x now u1 \<longrightarrow> settled_usage ?x now (consume_or_drift ft k (model_dimension (qp_id pool) m cap) v now u1)" for k m cap v
    by (simp_all add: consume_or_drift_def pool_total_consume model_dimension_other settled_consume)
  have "recordConsumption ft db input cost now usage \<in> {usage, u1} \<or> (\<exists>k m cap v. recordConsumption ft db input cost now usage
      = consume_or_drift ft k (model_dimension (qp_id pool) m cap) v now u1)"
    by (auto simp: recordConsumption_def id Let_def u1_def split: option.split)
  with c model assms(2) show "pool_total ?x now (recordConsumption ft db input cost now usage) \<le> pool_total ?x now usage + costForUnit cost (qd_unit d)"
    "settled_usage ?x now usage \<longrightarrow> settled_usage ?x now (recordConsumption ft db input cost now usage)"
    by auto
qed

text \<open>
  Requests of a pool: one is admitted when the gate allows it and fewer than \<open>M\<close> are on their way, and
  settles later, in any order, when its cost is recorded. A cost is at most \<open>K\<close> in the unit of the dimension.
\<close>

record pool_run =
  ru_now :: int
  ru_usage :: consumption
  ru_pending :: "enforce_input list"

inductive pool_step :: "quota_faults \<Rightarrow> (string \<Rightarrow> string \<Rightarrow> quota_dimension \<Rightarrow> real option) \<Rightarrow> real \<Rightarrow> quota_db \<Rightarrow> quota_pool
    \<Rightarrow> quota_dimension \<Rightarrow> nat \<Rightarrow> real \<Rightarrow> pool_run \<Rightarrow> pool_run \<Rightarrow> bool"
  for ft sat threshold db pool d M K where
  admit: "\<lbrakk>ru_now s \<le> now; length (ru_pending s) < M; serves ft db pool d input;
      enforceQuotaShare ft sat threshold db (ru_usage s) input now = (En_allow pen, ns)\<rbrakk>
    \<Longrightarrow> pool_step ft sat threshold db pool d M K s (s\<lparr>ru_now := now, ru_pending := ru_pending s @ [input]\<rparr>)"
| settle: "\<lbrakk>ru_now s \<le> now; i < length (ru_pending s); \<forall>u. 0 \<le> costForUnit cost u; costForUnit cost (qd_unit d) \<le> K\<rbrakk>
    \<Longrightarrow> pool_step ft sat threshold db pool d M K s
      (s\<lparr>ru_now := now, ru_pending := take i (ru_pending s) @ drop (Suc i) (ru_pending s),
         ru_usage := recordConsumption ft db (ru_pending s ! i) cost now (ru_usage s)\<rparr>)"

text \<open>The gate lets nobody in once the pool is at its limit.\<close>

lemma admitted_below:
  assumes "serves ft db pool d input" and "enforceQuotaShare ft sat threshold db usage input now = (En_allow pen, ns)"
    and "\<not> ft_allocations ft" and "active d" and "qd_unit d \<in> COUNTABLE_UNITS" and "\<not> ft_total ft (dimensionKeyToString (key_of (qp_id pool) d))"
  shows "pool_total (key_of (qp_id pool) d) now usage < qd_limit d * real (accountCount pool)"
proof -
  obtain alloc where found: "find_pool ft db (ei_connectionId input) (listAllocationsForApiKey db (ei_apiKeyId input)) = Some (pool, alloc)"
    and d: "d \<in> set (pp_dimensions (resolvePlan ft db (ei_connectionId input) (ei_provider input)))"
    using assms(1) by (auto simp: serves_def)
  define g where "g = (\<lambda>d. nullish (sat (ei_connectionId input) (ei_provider input) d) 0)"
  have "plan_obstacle ft g threshold usage pool alloc (ei_apiKeyId input) now d = None"
    using enforce_allows [where getSaturation = sat and threshold = threshold and usage = usage and now = now, OF assms(3) found g_def]
      assms(2,4) d by blast
  then have "\<not> fd_limit (dimension_info ft usage (g d) pool d now) \<le> fd_consumedTotal (dimension_info ft usage (g d) pool d now)"
    by (auto simp: plan_obstacle_def obstacle_def split: if_splits)
  then show ?thesis using assms(5,6) by (simp add: dimension_info_def Let_def pool_total_eq)
qed

definition in_budget :: "quota_pool \<Rightarrow> quota_dimension \<Rightarrow> nat \<Rightarrow> real \<Rightarrow> quota_faults \<Rightarrow> quota_db \<Rightarrow> pool_run \<Rightarrow> bool" where
  "in_budget pool d M K ft db s \<longleftrightarrow>
     settled_usage (key_of (qp_id pool) d) (ru_now s) (ru_usage s) \<and> length (ru_pending s) \<le> M
     \<and> (\<forall>i \<in> set (ru_pending s). serves ft db pool d i)
     \<and> pool_total (key_of (qp_id pool) d) (ru_now s) (ru_usage s) + real (length (ru_pending s)) * K
        \<le> qd_limit d * real (accountCount pool) + real M * K"

lemma pool_step_in_budget:
  assumes "pool_step ft sat threshold db pool d M K s s'" and "in_budget pool d M K ft db s" and "0 \<le> K"
    and "\<not> ft_allocations ft" and "active d" and "qd_unit d \<in> COUNTABLE_UNITS" and "\<not> ft_total ft (dimensionKeyToString (key_of (qp_id pool) d))"
  shows "in_budget pool d M K ft db s'"
  using assms(1)
proof cases
  case (admit now input pen ns)
  let ?x = "key_of (qp_id pool) d"
  have st: "settled_usage ?x now (ru_usage s)" using assms(2) settled_later [OF _ admit(2)] by (simp add: in_budget_def)
  have "real (Suc (length (ru_pending s))) * K \<le> real M * K" using admit(3) assms(3) by (intro mult_right_mono) simp_all
  moreover have "pool_total ?x now (ru_usage s) < qd_limit d * real (accountCount pool)"
    by (rule admitted_below [OF admit(4,5) assms(4-7)])
  ultimately show ?thesis using assms(2) admit st by (simp add: in_budget_def)
next
  case (settle now i cost)
  let ?x = "key_of (qp_id pool) d" and ?u = "recordConsumption ft db (ru_pending s ! i) cost now (ru_usage s)"
  have st: "settled_usage ?x now (ru_usage s)" using assms(2) settled_later [OF _ settle(2)] by (simp add: in_budget_def)
  have serves: "serves ft db pool d (ru_pending s ! i)" using assms(2) settle(3) by (simp add: in_budget_def)
  have "pool_total ?x now ?u \<le> pool_total ?x now (ru_usage s) + K"
    using record_charges(1) [OF serves settle(4), of now "ru_usage s"] settle(5) by simp
  moreover have "pool_total ?x now (ru_usage s) \<le> pool_total ?x (ru_now s) (ru_usage s)"
    using pool_total_falls [OF _ settle(2)] assms(2) by (simp add: in_budget_def)
  moreover have "real (length (ru_pending s)) * K = real (length (ru_pending s) - 1) * K + K"
    using settle(3) by (simp add: of_nat_diff algebra_simps)
  ultimately have "pool_total ?x now ?u + real (length (ru_pending s) - 1) * K \<le> qd_limit d * real (accountCount pool) + real M * K"
    using assms(2) unfolding in_budget_def by linarith
  moreover have "length (ru_pending s) - 1 \<le> M" using assms(2) by (simp add: in_budget_def le_diff_conv)
  moreover have "\<forall>j \<in> set (take i (ru_pending s) @ drop (Suc i) (ru_pending s)). serves ft db pool d j"
    using assms(2) by (auto simp: in_budget_def dest: in_set_takeD in_set_dropD)
  ultimately show ?thesis
    using assms(2) settle(1,3) record_charges(2) [OF serves settle(4), of now "ru_usage s"] st by (simp add: in_budget_def)
qed

text \<open>
  C26: A shared pool is overrun by at most the requests on their way: with the gate in front and at
  most \<open>M\<close> requests between their admission and the recording of their cost, at most \<open>K\<close> each, the pool never
  uses more than its limit (that of the plan for each of its accounts) and \<open>M\<close> times \<open>K\<close>.
\<close>

theorem pool_overrun_bounded:
  assumes "(pool_step ft sat threshold db pool d M K)\<^sup>*\<^sup>* \<lparr>ru_now = t0, ru_usage = [], ru_pending = []\<rparr> s" and "0 \<le> K"
    and "\<not> ft_allocations ft" and "active d" and "qd_unit d \<in> COUNTABLE_UNITS" and "\<not> ft_total ft (dimensionKeyToString (key_of (qp_id pool) d))"
  shows "poolConsumedTotal (ru_usage s) (qp_id pool) (key_of (qp_id pool) d) (ru_now s)
    \<le> qd_limit d * real (accountCount pool) + real M * K"
proof -
  have L: "0 < qd_limit d * real (accountCount pool)"
    using assms(4) EPSILON_pos by (simp add: active_def accountCount_def)
  have "in_budget pool d M K ft db s"
    using assms(1)
  proof induction
    case base
    show ?case using L assms(2) by (simp add: in_budget_def settled_usage_def bucket_total_def pool_total_def Let_def)
  next
    case (step s s')
    show ?case by (rule pool_step_in_budget [OF step(2,3) assms(2-6)])
  qed
  moreover have "0 \<le> real (length (ru_pending s)) * K" using assms(2) by simp
  ultimately show ?thesis unfolding pool_total_eq in_budget_def by linarith
qed

theorem pool_overrun_bounded_witness:
  "let ft = \<lparr>ft_allocations = False, ft_pool = \<lambda>_. False, ft_cap = False, ft_plan = False, ft_peek = \<lambda>_. False, ft_total = \<lambda>_. False, ft_consume = \<lambda>_. False\<rparr>;
       db = \<lparr>db_pools = [(''p'', \<lparr>pr_connectionId = ''c'', pr_name = ''n'', pr_groupId = None\<rparr>)], db_members = [],
         db_allocations = [\<lparr>ar_poolId = ''p'', ar_apiKeyId = ''k'', ar_weight = 1, ar_capValue = None, ar_capUnit = None, ar_policy = ''burst''\<rparr>],
         db_deleting = [], db_caps = [], db_plans = []\<rparr>;
       input = \<lparr>ei_apiKeyId = ''k'', ei_connectionId = ''c'', ei_provider = ''kimi'', ei_model = None\<rparr>;
       usage = recordConsumption ft db input \<lparr>cc_tokens = None, cc_usd = None, cc_requests = None\<rparr> 7 [] in
   poolConsumedTotal usage ''p'' \<lparr>dk_poolId = ''p'', dk_unit = Requests, dk_window = Per_hour\<rparr> 7 \<le> 1500 + 2"
proof -
  define ft where "ft = \<lparr>ft_allocations = False, ft_pool = \<lambda>_. False, ft_cap = False, ft_plan = False, ft_peek = \<lambda>_. False, ft_total = \<lambda>_. False, ft_consume = \<lambda>_. False\<rparr>"
  define db where "db = \<lparr>db_pools = [(''p'', \<lparr>pr_connectionId = ''c'', pr_name = ''n'', pr_groupId = None\<rparr>)], db_members = [],
         db_allocations = [\<lparr>ar_poolId = ''p'', ar_apiKeyId = ''k'', ar_weight = 1, ar_capValue = None, ar_capUnit = None, ar_policy = ''burst''\<rparr>],
         db_deleting = [], db_caps = [], db_plans = []\<rparr>"
  define input where "input = \<lparr>ei_apiKeyId = ''k'', ei_connectionId = ''c'', ei_provider = ''kimi'', ei_model = None\<rparr>"
  define cost where "cost = \<lparr>cc_tokens = None, cc_usd = None, cc_requests = (None :: real option)\<rparr>"
  define alloc where "alloc = \<lparr>al_apiKeyId = ''k'', al_weight = 1, al_capValue = None, al_capUnit = None, al_policy = Burst\<rparr>"
  define pool where "pool = \<lparr>qp_id = ''p'', qp_connectionId = ''c'', qp_connectionIds = [''c''], qp_name = ''n'', qp_groupId = ''group-demo'', qp_allocations = [alloc]\<rparr>"
  let ?d = "qdim Requests Per_hour 1500" and ?sat = "\<lambda>_ _ _. None :: real option"
  have found: "find_pool ft db (ei_connectionId input) (listAllocationsForApiKey db (ei_apiKeyId input)) = Some (pool, alloc)"
    by (simp add: ft_def db_def input_def pool_def alloc_def listAllocationsForApiKey_def getPool_def build_pool_def rowToAllocation_def policy_of_def or_text_def)
  have dims: "pp_dimensions (resolvePlan ft db (ei_connectionId input) (ei_provider input)) = [?d]"
    by (simp add: resolvePlan_def ft_def db_def input_def getKnownPlan_def KNOWN_PLANS_def)
  have serves: "serves ft db pool ?d input" by (simp add: serves_def found dims)
  have nofault: "\<not> ft_allocations ft" "\<not> ft_total ft k" for k by (simp_all add: ft_def)
  have "\<exists>pen ns. enforceQuotaShare ft ?sat (1 / 2) db [] input 7 = (En_allow pen, ns)"
    unfolding enforce_allows [where getSaturation = ?sat, OF nofault(1) found refl] dims
    by (simp add: model_cap_block_def active_cap_def input_def plan_obstacle_def obstacle_def capped_out_def alloc_def pool_def
        dimension_info_def accountCount_def nofault Let_def pool_total_eq pool_total_def bucket_total_def COUNTABLE_UNITS_def)
  then obtain pen ns where allow: "enforceQuotaShare ft ?sat (1 / 2) db [] input 7 = (En_allow pen, ns)" by blast
  define s0 where "s0 = \<lparr>ru_now = 3, ru_usage = [], ru_pending = []\<rparr>"
  define s1 where "s1 = \<lparr>ru_now = 7, ru_usage = [], ru_pending = [input]\<rparr>"
  have "pool_step ft ?sat (1 / 2) db pool ?d 2 1 s0 s1"
    using pool_step.admit [of s0 7 2 ft db pool ?d input ?sat "1 / 2" pen ns 1] allow serves by (simp add: s0_def s1_def)
  moreover have "\<forall>u. 0 \<le> costForUnit cost u"
  proof
    fix u show "0 \<le> costForUnit cost u" by (cases u) (simp_all add: cost_def)
  qed
  then have "pool_step ft ?sat (1 / 2) db pool ?d 2 1 s1 (s1\<lparr>ru_now := 7, ru_pending := [], ru_usage := recordConsumption ft db input cost 7 []\<rparr>)"
    using pool_step.settle [of s1 7 0 cost ?d 1 ft ?sat "1 / 2" db pool 2] by (simp add: s1_def cost_def)
  ultimately have "(pool_step ft ?sat (1 / 2) db pool ?d 2 1)\<^sup>*\<^sup>* s0 (s1\<lparr>ru_now := 7, ru_pending := [], ru_usage := recordConsumption ft db input cost 7 []\<rparr>)"
    by (rule converse_rtranclp_into_rtranclp [OF _ r_into_rtranclp])
  from pool_overrun_bounded [OF this [unfolded s0_def]]
  have "poolConsumedTotal (recordConsumption ft db input cost 7 []) ''p'' \<lparr>dk_poolId = ''p'', dk_unit = Requests, dk_window = Per_hour\<rparr> 7 \<le> 1500 + 2"
    using nofault by (simp add: active_def EPSILON_def COUNTABLE_UNITS_def pool_def accountCount_def s1_def)
  then show ?thesis unfolding Let_def ft_def db_def input_def cost_def .
qed

subsection \<open>Allocations of a group\<close>

lemma upsert_fold:
  "db_allocations (foldl (\<lambda>db pid. db\<lparr>db_allocations := filter (\<lambda>r. ar_poolId r \<noteq> pid) (db_allocations db) @ map (alloc_to_row pid) as\<rparr>) db pids)
     = foldl (\<lambda>rows pid. filter (\<lambda>r. ar_poolId r \<noteq> pid) rows @ map (alloc_to_row pid) as) (db_allocations db) pids"
  by (induction pids arbitrary: db) simp_all

lemma upsert_rows:
  "filter (\<lambda>r. ar_poolId r = q) (foldl (\<lambda>rows pid. filter (\<lambda>r. ar_poolId r \<noteq> pid) rows @ map (alloc_to_row pid) as) rows pids)
     = (if q \<in> set pids then map (alloc_to_row q) as else filter (\<lambda>r. ar_poolId r = q) rows)"
proof (induction pids arbitrary: rows)
  case (Cons pid pids)
  have rows: "filter (\<lambda>r. ar_poolId r = q) (map (alloc_to_row pid) as) = (if q = pid then map (alloc_to_row q) as else [])"
    by (auto simp: filter_map o_def alloc_to_row_def intro!: filter_True)
  have kept: "filter (\<lambda>r. ar_poolId r \<noteq> pid \<and> ar_poolId r = q) rows = (if q = pid then [] else filter (\<lambda>r. ar_poolId r = q) rows)"
    by (auto intro!: filter_cong)
  show ?case unfolding foldl.simps Cons.IH filter_append filter_filter rows kept by simp
qed simp

lemma row_roundtrip: "rowToAllocation (alloc_to_row q a) = a\<lparr>al_policy := policy_of (policy_text (al_policy a))\<rparr>"
  by (cases a) (simp add: rowToAllocation_def alloc_to_row_def)

text \<open>
  What is allocated to one pool of a group is allocated to all: after it, every pool of the group has exactly
  the given allocations (an equal split when no weight was set, and an unknown policy read as hard),
  and the pools of other groups have what they had.
\<close>

theorem allocations_propagate:
  assumes "p \<notin> set (db_deleting db)"
  shows "map rowToAllocation (filter (\<lambda>r. ar_poolId r = q) (db_allocations (upsertAllocations p allocs db)))
    = (if q \<in> set (group_pools db p) then map (\<lambda>a. a\<lparr>al_policy := policy_of (policy_text (al_policy a))\<rparr>) (equal_split allocs)
       else map rowToAllocation (filter (\<lambda>r. ar_poolId r = q) (db_allocations db)))"
  using assms by (simp add: upsertAllocations_def upsert_fold upsert_rows row_roundtrip)

theorem allocations_propagate_witness:
  "let row = (\<lambda>g. \<lparr>pr_connectionId = ''c'', pr_name = ''n'', pr_groupId = Some g\<rparr>);
       db = \<lparr>db_pools = [(''p'', row ''g''), (''q'', row ''g''), (''r'', row ''h'')], db_members = [], db_allocations = [],
         db_deleting = [], db_caps = [], db_plans = []\<rparr>;
       a = \<lparr>al_apiKeyId = ''k'', al_weight = 0, al_capValue = None, al_capUnit = None, al_policy = Soft\<rparr> in
   map rowToAllocation (filter (\<lambda>r. ar_poolId r = ''q'') (db_allocations (upsertAllocations ''p'' [a] db))) = [a\<lparr>al_weight := 100\<rparr>]"
  unfolding Let_def
  by (subst allocations_propagate) (simp_all add: group_pools_def equal_split_def policy_of_def policy_text_def)

end
