(* ===== verification/LruCache.thy ===== *)
theory LruCache
  imports JsonText "HOL-Library.List_Lexorder" "HOL-Library.Char_ord"
begin

text \<open>
  The cache of prompts and responses, \<^verbatim>\<open>src/src/lib/cacheLayer.ts\<close>: a map in the order of last use, bounded in
  entries and in bytes, whose entries expire. \<open>text_of\<close> is \<open>JSON.stringify\<close> on values, nothing where it throws
  or gives no text; \<open>sha256_hex\<close> is the hash. A limit read from the environment may not be a number: then it
  is \<^term>\<open>None\<close>, and every comparison with it is false.
\<close>

type_synonym limit = "int option"

definition DEFAULT_MAX_ENTRIES :: int where "DEFAULT_MAX_ENTRIES = 50"
definition DEFAULT_MAX_BYTES :: int where "DEFAULT_MAX_BYTES = 2 * 1024 * 1024"
definition DEFAULT_TTL :: int where "DEFAULT_TTL = 300000"

record 'v lru_entry =
  le_key :: string
  le_value :: 'v
  le_createdAt :: int
  le_ttl :: limit
  le_size :: nat
  le_hits :: nat

record 'v lru_cache =
  lc_cache :: "(string, 'v lru_entry) js_map"
  lc_maxSize :: limit
  lc_maxBytes :: limit
  lc_defaultTTL :: limit
  lc_currentSize :: int
  lc_currentBytes :: int
  lc_hits :: nat
  lc_misses :: nat
  lc_evictions :: nat

text \<open>Options are an object; a property may be present and \<open>undefined\<close>.\<close>

type_synonym lru_options = "(string, limit option) js_map"

definition option_or :: "lru_options \<Rightarrow> string \<Rightarrow> int \<Rightarrow> limit" where
  "option_or os name d = (case map_get os name of Some (Some n) \<Rightarrow> n | _ \<Rightarrow> Some d)"

definition new_lru :: "lru_options \<Rightarrow> 'v lru_cache" where
  "new_lru options =
     \<lparr>lc_cache = [],
      lc_maxSize = option_or options ''maxSize'' DEFAULT_MAX_ENTRIES,
      lc_maxBytes = option_or options ''maxBytes'' DEFAULT_MAX_BYTES,
      lc_defaultTTL = option_or options ''defaultTTL'' DEFAULT_TTL,
      lc_currentSize = 0, lc_currentBytes = 0, lc_hits = 0, lc_misses = 0, lc_evictions = 0\<rparr>"

subsection \<open>Operations\<close>

definition entry_expired :: "int \<Rightarrow> 'v lru_entry \<Rightarrow> bool" where
  "entry_expired now e = (case le_ttl e of Some ttl \<Rightarrow> ttl < now - le_createdAt e | None \<Rightarrow> False)"

definition deleteEntry :: "string \<Rightarrow> 'v lru_entry \<Rightarrow> 'v lru_cache \<Rightarrow> 'v lru_cache" where
  "deleteEntry k e c =
     c\<lparr>lc_cache := map_delete k (lc_cache c),
       lc_currentSize := lc_currentSize c - 1,
       lc_currentBytes := max 0 (lc_currentBytes c - int (le_size e))\<rparr>"

definition lru_get :: "int \<Rightarrow> string \<Rightarrow> 'v lru_cache \<Rightarrow> 'v option \<times> 'v lru_cache" where
  "lru_get now k c =
     (case map_get (lc_cache c) k of
        None \<Rightarrow> (None, c\<lparr>lc_misses := lc_misses c + 1\<rparr>)
      | Some e \<Rightarrow>
          if entry_expired now e then (None, let c1 = deleteEntry k e c in c1\<lparr>lc_misses := lc_misses c1 + 1\<rparr>)
          else (Some (le_value e),
                c\<lparr>lc_cache := map_set k (e\<lparr>le_hits := le_hits e + 1\<rparr>) (map_delete k (lc_cache c)),
                  lc_hits := lc_hits c + 1\<rparr>))"

definition estimateSize :: "('v \<Rightarrow> string option) \<Rightarrow> 'v \<Rightarrow> nat" where
  "estimateSize text_of v = (case text_of v of Some t \<Rightarrow> length t * 2 | None \<Rightarrow> 1024)"

definition over_limit :: "nat \<Rightarrow> 'v lru_cache \<Rightarrow> bool" where
  "over_limit entrySize c \<longleftrightarrow>
     (case lc_maxSize c of Some m \<Rightarrow> m \<le> lc_currentSize c | None \<Rightarrow> False)
     \<or> (case lc_maxBytes c of Some b \<Rightarrow> b < lc_currentBytes c + int entrySize | None \<Rightarrow> False)"

text \<open>The loop that evicts from the front.\<close>

function evict_loop :: "nat \<Rightarrow> 'v lru_cache \<Rightarrow> 'v lru_cache" where
  "evict_loop entrySize c =
     (if over_limit entrySize c then
        case lc_cache c of
          [] \<Rightarrow> c
        | (k, e) # _ \<Rightarrow> let c1 = deleteEntry k e c in evict_loop entrySize (c1\<lparr>lc_evictions := lc_evictions c1 + 1\<rparr>)
      else c)"
  by pat_completeness auto
termination
  by (relation "measure (\<lambda>(s, c). length (lc_cache c))")
     (auto simp: deleteEntry_def length_delete_le less_Suc_eq_le)

declare evict_loop.simps [simp del]

definition lru_set :: "('v \<Rightarrow> string option) \<Rightarrow> int \<Rightarrow> string \<Rightarrow> 'v \<Rightarrow> limit option \<Rightarrow> 'v lru_cache \<Rightarrow> 'v lru_cache" where
  "lru_set text_of now k v ttl c =
     (let entrySize = estimateSize text_of v;
          c1 = (case map_get (lc_cache c) k of
                  Some old \<Rightarrow>
                    c\<lparr>lc_currentBytes := lc_currentBytes c - int (le_size old),
                      lc_currentSize := lc_currentSize c - 1,
                      lc_cache := map_delete k (lc_cache c)\<rparr>
                | None \<Rightarrow> c);
          c2 = evict_loop entrySize c1;
          e = \<lparr>le_key = k, le_value = v, le_createdAt = now, le_ttl = nullish ttl (lc_defaultTTL c), le_size = entrySize, le_hits = 0\<rparr>
      in c2\<lparr>lc_cache := map_set k e (lc_cache c2),
            lc_currentSize := lc_currentSize c2 + 1,
            lc_currentBytes := lc_currentBytes c2 + int entrySize\<rparr>)"

definition lru_has :: "int \<Rightarrow> string \<Rightarrow> 'v lru_cache \<Rightarrow> bool \<times> 'v lru_cache" where
  "lru_has now k c =
     (case map_get (lc_cache c) k of
        None \<Rightarrow> (False, c)
      | Some e \<Rightarrow> if entry_expired now e then (False, deleteEntry k e c) else (True, c))"

definition lru_delete :: "string \<Rightarrow> 'v lru_cache \<Rightarrow> bool \<times> 'v lru_cache" where
  "lru_delete k c = (case map_get (lc_cache c) k of Some e \<Rightarrow> (True, deleteEntry k e c) | None \<Rightarrow> (False, c))"

definition lru_clear :: "'v lru_cache \<Rightarrow> 'v lru_cache" where
  "lru_clear c = c\<lparr>lc_cache := [], lc_currentSize := 0, lc_currentBytes := 0\<rparr>"

record lru_stats =
  ls_size :: int
  ls_maxSize :: limit
  ls_bytes :: int
  ls_maxBytes :: limit
  ls_hits :: nat
  ls_misses :: nat
  ls_evictions :: nat
  ls_hitRate :: real

definition lru_getStats :: "'v lru_cache \<Rightarrow> lru_stats" where
  "lru_getStats c =
     (let total = lc_hits c + lc_misses c in
      \<lparr>ls_size = lc_currentSize c, ls_maxSize = lc_maxSize c, ls_bytes = lc_currentBytes c, ls_maxBytes = lc_maxBytes c,
       ls_hits = lc_hits c, ls_misses = lc_misses c, ls_evictions = lc_evictions c,
       ls_hitRate = (if 0 < total then real (lc_hits c) / real total * 100 else 0)\<rparr>)"

text \<open>
  The key of parameters. \<open>JSON.stringify\<close> with a list of names writes, in every object at any depth, only
  the properties whose name is in the list, in the order of the list.
\<close>

fun select_names :: "string list \<Rightarrow> json_value \<Rightarrow> json_value" where
  "select_names names (V_object ps) =
     V_object (List.map_filter (\<lambda>n. map_option (\<lambda>v. (n, v)) (map_of (map (\<lambda>(k, v). (k, select_names names v)) ps) n)) names)"
| "select_names names (V_array vs) = V_array (map (select_names names) vs)"
| "select_names names v = v"

definition generateKey :: "(real \<Rightarrow> string) \<Rightarrow> (string \<Rightarrow> string) \<Rightarrow> (string \<times> json_value) list \<Rightarrow> string" where
  "generateKey num sha256_hex params =
     take 16 (sha256_hex (stringify num (select_names (sort (map fst params)) (V_object params))))"

text \<open>The instance that is made once, from the environment and the options of the first caller.\<close>

definition env_int :: "(string \<Rightarrow> string option) \<Rightarrow> string \<Rightarrow> string \<Rightarrow> limit" where
  "env_int env name d = js_parseInt (case env name of Some t \<Rightarrow> if t = [] then d else t | None \<Rightarrow> d)"

definition getPromptCache :: "(string \<Rightarrow> string option) \<Rightarrow> lru_options \<Rightarrow> 'v lru_cache option \<Rightarrow> 'v lru_cache" where
  "getPromptCache env options promptCache =
     (case promptCache of
        Some c \<Rightarrow> c
      | None \<Rightarrow>
          new_lru (foldl (\<lambda>m (k, v). map_set k v m)
            [(''maxSize'', Some (env_int env ''PROMPT_CACHE_MAX_SIZE'' ''50'')),
             (''maxBytes'', Some (env_int env ''PROMPT_CACHE_MAX_BYTES'' (decimal (2 * 1024 * 1024)))),
             (''defaultTTL'', Some (env_int env ''PROMPT_CACHE_TTL_MS'' ''300000''))] options))"

subsection \<open>Invariant\<close>

text \<open>
  The counters are exact; the entries are at most the greater of one and the limit; the bytes exceed their
  limit only when there is a single entry.
\<close>

abbreviation lru_bytes :: "(string, 'v lru_entry) js_map \<Rightarrow> int" where
  "lru_bytes m \<equiv> sum_values (\<lambda>e. int (le_size e)) m"

definition lru_exact :: "'v lru_cache \<Rightarrow> bool" where
  "lru_exact c \<longleftrightarrow> map_wf (lc_cache c) \<and> lc_currentSize c = int (length (lc_cache c)) \<and> lc_currentBytes c = lru_bytes (lc_cache c)"

definition lru_bounded :: "'v lru_cache \<Rightarrow> bool" where
  "lru_bounded c \<longleftrightarrow>
     (\<forall>m. lc_maxSize c = Some m \<longrightarrow> int (length (lc_cache c)) \<le> max 1 m)
     \<and> (\<forall>b. lc_maxBytes c = Some b \<longrightarrow> lru_bytes (lc_cache c) \<le> b \<or> length (lc_cache c) \<le> 1)"

definition lru_inv :: "'v lru_cache \<Rightarrow> bool" where
  "lru_inv c \<longleftrightarrow> lru_exact c \<and> lru_bounded c"

lemma lru_bytes_nonneg: "0 \<le> lru_bytes m"
  by (induction m) simp_all

lemma map_of_wf_in: "map_wf m \<Longrightarrow> map_of m k = Some v \<longleftrightarrow> (k, v) \<in> set m"
  by simp

lemma deleteEntry_exact:
  assumes "lru_exact c" and "map_get (lc_cache c) k = Some e"
  shows "lru_exact (deleteEntry k e c)" and "Suc (length (map_delete k (lc_cache c))) = length (lc_cache c)"
    and "lru_bytes (map_delete k (lc_cache c)) + int (le_size e) = lru_bytes (lc_cache c)"
proof -
  have wf: "map_wf (lc_cache c)" using assms(1) by (simp add: lru_exact_def)
  show l: "Suc (length (map_delete k (lc_cache c))) = length (lc_cache c)"
    by (rule length_delete_present [OF wf]) (simp add: assms(2))
  show b: "lru_bytes (map_delete k (lc_cache c)) + int (le_size e) = lru_bytes (lc_cache c)"
    by (rule sum_values_delete [OF wf assms(2)])
  have "lc_currentSize c - 1 = int (length (map_delete k (lc_cache c)))"
    using assms(1) l by (simp add: lru_exact_def)
  moreover have "max 0 (lc_currentBytes c - int (le_size e)) = lru_bytes (map_delete k (lc_cache c))"
    using assms(1) b lru_bytes_nonneg [of "map_delete k (lc_cache c)"] by (simp add: lru_exact_def)
  ultimately show "lru_exact (deleteEntry k e c)"
    using map_wf_delete [OF wf, of k] by (simp add: lru_exact_def deleteEntry_def)
qed

lemma bounded_smaller:
  assumes "lru_bounded c" and "lc_maxSize c' = lc_maxSize c" and "lc_maxBytes c' = lc_maxBytes c"
    and "length (lc_cache c') \<le> length (lc_cache c)" and "lru_bytes (lc_cache c') \<le> lru_bytes (lc_cache c)"
  shows "lru_bounded c'"
proof -
  have "int (length (lc_cache c')) \<le> max 1 m" if "lc_maxSize c' = Some m" for m
  proof -
    have "int (length (lc_cache c)) \<le> max 1 m" using assms(1,2) that by (simp add: lru_bounded_def)
    with assms(4) show ?thesis by linarith
  qed
  moreover have "lru_bytes (lc_cache c') \<le> b \<or> length (lc_cache c') \<le> 1" if "lc_maxBytes c' = Some b" for b
  proof -
    have "lru_bytes (lc_cache c) \<le> b \<or> length (lc_cache c) \<le> 1" using assms(1,3) that by (simp add: lru_bounded_def)
    with assms(4,5) show ?thesis by linarith
  qed
  ultimately show ?thesis unfolding lru_bounded_def by blast
qed

lemma deleteEntry_inv:
  assumes "lru_inv c" and "map_get (lc_cache c) k = Some e"
  shows "lru_inv (deleteEntry k e c)"
proof -
  have x: "lru_exact c" using assms(1) by (simp add: lru_inv_def)
  note d = deleteEntry_exact [OF x assms(2)]
  have "lru_bounded (deleteEntry k e c)"
  proof (rule bounded_smaller)
    show "lru_bounded c" using assms(1) by (simp add: lru_inv_def)
    show "lru_bytes (lc_cache (deleteEntry k e c)) \<le> lru_bytes (lc_cache c)" using d(3) by (simp add: deleteEntry_def)
  qed (simp_all add: deleteEntry_def length_delete_le)
  with d(1) show ?thesis by (simp add: lru_inv_def)
qed

text \<open>Fields that an operation leaves alone.\<close>

lemma deleteEntry_simps [simp]:
  "lc_maxSize (deleteEntry k e c) = lc_maxSize c" "lc_maxBytes (deleteEntry k e c) = lc_maxBytes c"
  "lc_defaultTTL (deleteEntry k e c) = lc_defaultTTL c" "lc_evictions (deleteEntry k e c) = lc_evictions c"
  "lc_cache (deleteEntry k e c) = map_delete k (lc_cache c)"
  by (simp_all add: deleteEntry_def)

lemma lru_inv_counters [simp]:
  "lru_inv (c\<lparr>lc_hits := h\<rparr>) = lru_inv c" "lru_inv (c\<lparr>lc_misses := h\<rparr>) = lru_inv c" "lru_inv (c\<lparr>lc_evictions := h\<rparr>) = lru_inv c"
  "lru_exact (c\<lparr>lc_evictions := h\<rparr>) = lru_exact c"
  by (simp_all add: lru_inv_def lru_exact_def lru_bounded_def)

lemma lru_get_inv: "lru_inv c \<Longrightarrow> lru_inv (snd (lru_get now k c))"
proof -
  assume inv: "lru_inv c"
  show ?thesis
  proof (cases "map_get (lc_cache c) k")
    case None
    then show ?thesis using inv by (simp add: lru_get_def)
  next
    case (Some e)
    have x: "lru_exact c" using inv by (simp add: lru_inv_def)
    note d = deleteEntry_exact [OF x Some]
    have fresh: "map_of (map_delete k (lc_cache c)) k = None" by simp
    show ?thesis
    proof (cases "entry_expired now e")
      case True
      then show ?thesis
        using deleteEntry_inv [OF inv Some] by (simp add: lru_get_def Some Let_def)
    next
      case False
      have "lru_bytes (map_set k (e\<lparr>le_hits := le_hits e + 1\<rparr>) (map_delete k (lc_cache c))) = lru_bytes (lc_cache c)"
        using d(3) sum_values_fresh [OF fresh, of "\<lambda>e. int (le_size e)" "e\<lparr>le_hits := le_hits e + 1\<rparr>"] by simp
      moreover have "length (map_set k (e\<lparr>le_hits := le_hits e + 1\<rparr>) (map_delete k (lc_cache c))) = length (lc_cache c)"
        using d(2) length_set_fresh [OF fresh] by simp
      ultimately show ?thesis
        using inv x False by (simp add: lru_get_def Some lru_inv_def lru_exact_def lru_bounded_def map_wf_set map_wf_delete)
    qed
  qed
qed

subsection \<open>Eviction\<close>

text \<open>There is room for a new entry beside these.\<close>

definition has_place :: "nat \<Rightarrow> 'v lru_cache \<Rightarrow> (string, 'v lru_entry) js_map \<Rightarrow> bool" where
  "has_place sz c m \<longleftrightarrow>
     (\<forall>M. lc_maxSize c = Some M \<longrightarrow> int (length m) < M) \<and> (\<forall>B. lc_maxBytes c = Some B \<longrightarrow> lru_bytes m + int sz \<le> B)"

lemma over_limit_iff: "lru_exact c \<Longrightarrow> over_limit s c \<longleftrightarrow> \<not> has_place s c (lc_cache c)"
  by (auto simp: over_limit_def has_place_def lru_exact_def split: option.splits)

lemma evict_loop_drops:
  assumes "lru_exact c"
  shows "\<exists>n \<le> length (lc_cache c). lc_cache (evict_loop s c) = drop n (lc_cache c) \<and> lc_evictions (evict_loop s c) = lc_evictions c + n
    \<and> (n = length (lc_cache c) \<or> has_place s c (drop n (lc_cache c))) \<and> (\<forall>m < n. \<not> has_place s c (drop m (lc_cache c)))
    \<and> lru_exact (evict_loop s c) \<and> lc_maxSize (evict_loop s c) = lc_maxSize c \<and> lc_maxBytes (evict_loop s c) = lc_maxBytes c
    \<and> lc_defaultTTL (evict_loop s c) = lc_defaultTTL c"
  using assms
proof (induction s c rule: evict_loop.induct)
  case (1 s c)
  show ?case
  proof (cases "over_limit s c \<and> lc_cache c \<noteq> []")
    case False
    then have "evict_loop s c = c" by (simp add: evict_loop.simps [of s c] split: list.split)
    then show ?thesis using False 1(2) by (intro exI [of _ 0]) (auto simp: over_limit_iff)
  next
    case True
    then obtain k e r where m: "lc_cache c = (k, e) # r" by (cases "lc_cache c") auto
    let ?c = "(deleteEntry k e c)\<lparr>lc_evictions := lc_evictions c + 1\<rparr>"
    have step: "evict_loop s c = evict_loop s ?c" using True by (simp add: evict_loop.simps [of s c] m Let_def)
    have "map_wf ((k, e) # r)" using 1(2) by (simp add: lru_exact_def m)
    then have r: "map_delete k r = r" by (auto simp: map_delete_absent map_of_eq_None_iff)
    have x: "lru_exact ?c" using deleteEntry_exact(1) [OF 1(2), of k e] by (simp add: m)
    obtain n where n: "n \<le> length r" "lc_cache (evict_loop s ?c) = drop n r" "lc_evictions (evict_loop s ?c) = lc_evictions c + 1 + n"
        "n = length r \<or> has_place s ?c (drop n r)" "\<forall>m < n. \<not> has_place s ?c (drop m r)"
        "lru_exact (evict_loop s ?c)" "lc_maxSize (evict_loop s ?c) = lc_maxSize c" "lc_maxBytes (evict_loop s ?c) = lc_maxBytes c"
        "lc_defaultTTL (evict_loop s ?c) = lc_defaultTTL c"
      using 1(1) [of "(k, e)" r k e "deleteEntry k e c"] True x by (auto simp: m r)
    have place: "has_place s ((deleteEntry k e c)\<lparr>lc_evictions := h\<rparr>) = has_place s c" for h by (intro ext) (simp add: has_place_def)
    have "\<not> has_place s c (drop j (lc_cache c))" if "j < Suc n" for j
      using that n(5) True over_limit_iff [OF 1(2), of s] by (cases j) (auto simp: m place)
    then show ?thesis using n by (intro exI [of _ "Suc n"]) (simp add: step m place)
  qed
qed

lemma evict_loop_bounded:
  assumes "lru_exact c"
  shows "has_place s c (lc_cache (evict_loop s c)) \<or> lc_cache (evict_loop s c) = []"
  using evict_loop_drops [OF assms, of s] by (metis drop_all order_refl)

text \<open>The cache without the entry that is replaced.\<close>

definition without_old :: "string \<Rightarrow> 'v lru_cache \<Rightarrow> 'v lru_cache" where
  "without_old k c =
     (case map_get (lc_cache c) k of
        Some old \<Rightarrow> c\<lparr>lc_currentBytes := lc_currentBytes c - int (le_size old), lc_currentSize := lc_currentSize c - 1,
                      lc_cache := map_delete k (lc_cache c)\<rparr>
      | None \<Rightarrow> c)"

definition new_entry :: "('v \<Rightarrow> string option) \<Rightarrow> int \<Rightarrow> string \<Rightarrow> 'v \<Rightarrow> limit option \<Rightarrow> 'v lru_cache \<Rightarrow> 'v lru_entry" where
  "new_entry text_of now k v ttl c =
     \<lparr>le_key = k, le_value = v, le_createdAt = now, le_ttl = nullish ttl (lc_defaultTTL c), le_size = estimateSize text_of v, le_hits = 0\<rparr>"

lemma without_old_simps:
  "lc_cache (without_old k c) = map_delete k (lc_cache c)" "lc_maxSize (without_old k c) = lc_maxSize c"
  "lc_maxBytes (without_old k c) = lc_maxBytes c" "lc_evictions (without_old k c) = lc_evictions c"
  "lc_defaultTTL (without_old k c) = lc_defaultTTL c"
  by (auto simp: without_old_def map_delete_absent split: option.split)

lemma without_old_exact:
  assumes "lru_exact c"
  shows "lru_exact (without_old k c)"
proof (cases "map_get (lc_cache c) k")
  case (Some e)
  have wf: "map_wf (lc_cache c)" using assms by (simp add: lru_exact_def)
  note d = deleteEntry_exact [OF assms Some]
  have "lc_currentSize c - 1 = int (length (map_delete k (lc_cache c)))" using assms d(2) by (simp add: lru_exact_def)
  then show ?thesis using assms d(3) map_wf_delete [OF wf, of k] by (simp add: lru_exact_def without_old_def Some)
qed (simp add: without_old_def assms)

lemma lru_set_eq:
  fixes text_of :: "'v \<Rightarrow> string option" and k :: string and v :: 'v
  assumes "lru_exact c"
  defines "c2 \<equiv> evict_loop (estimateSize text_of v) (without_old k c)"
  shows "lc_cache (lru_set text_of now k v ttl c) = lc_cache c2 @ [(k, new_entry text_of now k v ttl c)]"
    and "lc_evictions (lru_set text_of now k v ttl c) = lc_evictions c2"
    and "lru_inv (lru_set text_of now k v ttl c)"
    and "map_of (lc_cache c2) k = None"
proof -
  let ?e = "new_entry text_of now k v ttl c"
  have set_eq: "lru_set text_of now k v ttl c = c2\<lparr>lc_cache := map_set k ?e (lc_cache c2),
      lc_currentSize := lc_currentSize c2 + 1, lc_currentBytes := lc_currentBytes c2 + int (le_size ?e)\<rparr>"
    by (simp add: lru_set_def Let_def c2_def without_old_def new_entry_def)
  have x: "lru_exact (without_old k c)" by (rule without_old_exact [OF assms(1)])
  obtain n where n: "lc_cache c2 = drop n (map_delete k (lc_cache c))" "lru_exact c2" "lc_maxSize c2 = lc_maxSize c" "lc_maxBytes c2 = lc_maxBytes c"
    using evict_loop_drops [OF x, of "estimateSize text_of v"] by (auto simp: c2_def without_old_simps)
  have "k \<notin> fst ` set (lc_cache c2)" using set_drop_subset [of n] by (force simp: n(1) AList.delete_eq)
  then show fresh: "map_of (lc_cache c2) k = None" by (simp add: map_of_eq_None_iff)
  have appended: "map_set k ?e (lc_cache c2) = lc_cache c2 @ [(k, ?e)]" by (rule map_set_fresh [OF fresh])
  show "lc_cache (lru_set text_of now k v ttl c) = lc_cache c2 @ [(k, ?e)]"
    and "lc_evictions (lru_set text_of now k v ttl c) = lc_evictions c2" by (simp_all add: set_eq appended)
  have bytes: "lru_bytes (map_set k ?e (lc_cache c2)) = lru_bytes (lc_cache c2) + int (le_size ?e)" by (rule sum_values_fresh [OF fresh])
  have len: "length (map_set k ?e (lc_cache c2)) = Suc (length (lc_cache c2))" by (rule length_set_fresh [OF fresh])
  have place: "has_place (le_size ?e) c (lc_cache c2) \<or> lc_cache c2 = []"
    using evict_loop_bounded [OF x, of "estimateSize text_of v"] by (simp add: c2_def new_entry_def has_place_def without_old_simps)
  have "lru_bounded (lru_set text_of now k v ttl c)"
    using place by (auto simp: lru_bounded_def set_eq len bytes n(3,4) has_place_def)
  moreover have "lru_exact (lru_set text_of now k v ttl c)"
    using n(2) by (simp add: lru_exact_def set_eq len bytes map_wf_set)
  ultimately show "lru_inv (lru_set text_of now k v ttl c)" by (simp add: lru_inv_def)
qed

lemma lru_set_kept:
  assumes "lru_exact c" and "map_of (lc_cache (evict_loop s (without_old k c))) j = Some e"
  shows "map_of (lc_cache c) j = Some e"
proof -
  have wf: "map_wf (lc_cache c)" using assms(1) by (simp add: lru_exact_def)
  obtain n where "lc_cache (evict_loop s (without_old k c)) = drop n (map_delete k (lc_cache c))"
    using evict_loop_drops [OF without_old_exact [OF assms(1), of k], of s] by (auto simp: without_old_simps)
  then have "(j, e) \<in> set (map_delete k (lc_cache c))" using map_of_SomeD [OF assms(2)] by (auto dest: in_set_dropD)
  then show ?thesis using wf set_map_delete_subset [of k "lc_cache c"] by auto
qed

subsection \<open>Runs\<close>

datatype 'v lru_event =
    Lru_set string 'v "limit option"
  | Lru_get string
  | Lru_has string
  | Lru_delete string
  | Lru_clear

fun lru_apply :: "('v \<Rightarrow> string option) \<Rightarrow> int \<Rightarrow> 'v lru_event \<Rightarrow> 'v lru_cache \<Rightarrow> 'v lru_cache" where
  "lru_apply text_of now (Lru_set k v ttl) c = lru_set text_of now k v ttl c"
| "lru_apply text_of now (Lru_get k) c = snd (lru_get now k c)"
| "lru_apply text_of now (Lru_has k) c = snd (lru_has now k c)"
| "lru_apply text_of now (Lru_delete k) c = snd (lru_delete k c)"
| "lru_apply text_of now Lru_clear c = lru_clear c"

text \<open>The specification: a store without limits, that keeps for each key what was last set until it expires.\<close>

type_synonym 'v ideal_store = "string \<Rightarrow> ('v \<times> int \<times> limit) option"

fun ideal_lookup :: "int \<Rightarrow> ('v \<times> int \<times> limit) option \<Rightarrow> ('v \<times> int \<times> limit) option" where
  "ideal_lookup now None = None"
| "ideal_lookup now (Some (v, t, ttl)) =
     (case ttl of Some n \<Rightarrow> if n < now - t then None else Some (v, t, ttl) | None \<Rightarrow> Some (v, t, ttl))"

fun ideal_apply :: "limit \<Rightarrow> int \<Rightarrow> 'v lru_event \<Rightarrow> 'v ideal_store \<Rightarrow> 'v ideal_store" where
  "ideal_apply d now (Lru_set k v ttl) m = m(k \<mapsto> (v, now, nullish ttl d))"
| "ideal_apply d now (Lru_get k) m = m(k := ideal_lookup now (m k))"
| "ideal_apply d now (Lru_has k) m = m(k := ideal_lookup now (m k))"
| "ideal_apply d now (Lru_delete k) m = m(k := None)"
| "ideal_apply d now Lru_clear m = Map.empty"

text \<open>The number of the event that last used a key: set it, or got it with success.\<close>

fun used_by :: "int \<Rightarrow> 'v lru_event \<Rightarrow> 'v lru_cache \<Rightarrow> string option" where
  "used_by now (Lru_set k v ttl) c = Some k"
| "used_by now (Lru_get k) c = (if fst (lru_get now k c) = None then None else Some k)"
| "used_by now _ c = None"

record 'v lru_run =
  lr_cache :: "'v lru_cache"
  lr_store :: "'v ideal_store"
  lr_used :: "string \<Rightarrow> nat"
  lr_count :: nat

definition lru_step :: "('v \<Rightarrow> string option) \<Rightarrow> 'v lru_run \<Rightarrow> int \<times> 'v lru_event \<Rightarrow> 'v lru_run" where
  "lru_step text_of r ev =
     \<lparr>lr_cache = lru_apply text_of (fst ev) (snd ev) (lr_cache r),
      lr_store = ideal_apply (lc_defaultTTL (lr_cache r)) (fst ev) (snd ev) (lr_store r),
      lr_used = (case used_by (fst ev) (snd ev) (lr_cache r) of Some k \<Rightarrow> (lr_used r)(k := lr_count r) | None \<Rightarrow> lr_used r),
      lr_count = lr_count r + 1\<rparr>"

definition lru_start :: "lru_options \<Rightarrow> 'v lru_run" where
  "lru_start options = \<lparr>lr_cache = new_lru options, lr_store = Map.empty, lr_used = (\<lambda>_. 0), lr_count = 0\<rparr>"

definition entry_view :: "'v lru_entry \<Rightarrow> 'v \<times> int \<times> limit" where
  "entry_view e = (le_value e, le_createdAt e, le_ttl e)"

definition agrees :: "'v lru_cache \<Rightarrow> 'v ideal_store \<Rightarrow> bool" where
  "agrees c m \<longleftrightarrow>
     (\<forall>k e. map_of (lc_cache c) k = Some e \<longrightarrow> m k = Some (entry_view e))
     \<and> (lc_evictions c = 0 \<longrightarrow> (\<forall>k. map_of (lc_cache c) k = None \<longrightarrow> m k = None))"

definition in_use_order :: "(string, 'v lru_entry) js_map \<Rightarrow> (string \<Rightarrow> nat) \<Rightarrow> nat \<Rightarrow> bool" where
  "in_use_order m used n \<longleftrightarrow>
     sorted_wrt (\<lambda>p q. used (fst p) < used (fst q)) m \<and> (\<forall>p \<in> set m. used (fst p) < n)"

definition lru_run_ok :: "'v lru_run \<Rightarrow> bool" where
  "lru_run_ok r \<longleftrightarrow> lru_inv (lr_cache r) \<and> agrees (lr_cache r) (lr_store r) \<and> in_use_order (lc_cache (lr_cache r)) (lr_used r) (lr_count r)"

lemma ideal_expired: "ideal_lookup now (Some (entry_view e)) = (if entry_expired now e then None else Some (entry_view e))"
  by (simp add: entry_view_def entry_expired_def split: option.split)

lemma in_use_delete: "in_use_order m used n \<Longrightarrow> in_use_order (map_delete k m) used n"
  by (simp add: in_use_order_def AList.delete_eq sorted_wrt_filter)

lemma in_use_later: "in_use_order m used n \<Longrightarrow> in_use_order m used (Suc n)"
  by (auto simp: in_use_order_def less_SucI)

lemma in_use_drop: "in_use_order m used n \<Longrightarrow> in_use_order (drop i m) used n"
  by (auto simp: in_use_order_def sorted_wrt_drop dest: in_set_dropD)

lemma in_use_push:
  assumes "in_use_order m used n" and "map_of m k = None"
  shows "in_use_order (m @ [(k, e)]) (used(k := n)) (n + 1)"
proof -
  have k: "fst p \<noteq> k" if "p \<in> set m" for p using that assms(2) by (force simp: map_of_eq_None_iff)
  have "sorted_wrt (\<lambda>p q. (used(k := n)) (fst p) < (used(k := n)) (fst q)) m"
    by (rule sorted_wrt_mono_rel [of m "\<lambda>p q. used (fst p) < used (fst q)"])
       (use assms(1) k in \<open>auto simp: in_use_order_def\<close>)
  then show ?thesis using assms(1) k by (auto simp: in_use_order_def sorted_wrt_append less_SucI)
qed

lemma agrees_delete:
  assumes "agrees c m" and "lru_exact c"
  shows "agrees (deleteEntry k e c) (m(k := None))"
  using assms by (auto simp: agrees_def)

lemma agrees_counters [simp]:
  "agrees (c\<lparr>lc_hits := h\<rparr>) m = agrees c m" "agrees (c\<lparr>lc_misses := h\<rparr>) m = agrees c m"
  by (simp_all add: agrees_def)

lemma agrees_lookup:
  assumes "agrees c m"
  shows "map_get (lc_cache c) k = Some e \<Longrightarrow> m k = Some (entry_view e)"
    and "map_get (lc_cache c) k = None \<Longrightarrow> agrees c (m(k := x)) \<longleftrightarrow> (lc_evictions c = 0 \<longrightarrow> x = None)"
  using assms by (auto simp: agrees_def)

lemma look_step:
  assumes "lru_run_ok r"
  shows "map_get (lc_cache (lr_cache r)) k = None \<Longrightarrow> agrees (lr_cache r) ((lr_store r)(k := ideal_lookup now (lr_store r k)))"
    and "map_get (lc_cache (lr_cache r)) k = Some e \<Longrightarrow> \<not> entry_expired now e \<Longrightarrow> (lr_store r)(k := ideal_lookup now (lr_store r k)) = lr_store r"
    and "map_get (lc_cache (lr_cache r)) k = Some e \<Longrightarrow> entry_expired now e \<Longrightarrow> (lr_store r)(k := ideal_lookup now (lr_store r k)) = (lr_store r)(k := None)"
proof -
  have a: "agrees (lr_cache r) (lr_store r)" using assms by (simp add: lru_run_ok_def)
  show "agrees (lr_cache r) ((lr_store r)(k := ideal_lookup now (lr_store r k)))" if "map_get (lc_cache (lr_cache r)) k = None"
    using a that by (auto simp: agrees_lookup(2) [OF a that]) (simp add: agrees_def)
  show "(lr_store r)(k := ideal_lookup now (lr_store r k)) = lr_store r" if "map_get (lc_cache (lr_cache r)) k = Some e" "\<not> entry_expired now e"
    using agrees_lookup(1) [OF a that(1)] that(2) by (simp add: ideal_expired fun_upd_idem)
  show "(lr_store r)(k := ideal_lookup now (lr_store r k)) = (lr_store r)(k := None)" if "map_get (lc_cache (lr_cache r)) k = Some e" "entry_expired now e"
    using agrees_lookup(1) [OF a that(1)] that(2) by (simp add: ideal_expired)
qed

lemma lru_set_run:
  assumes "lru_run_ok r"
  shows "lru_run_ok (lru_step text_of r (now, Lru_set k v ttl))"
proof -
  let ?c = "lr_cache r"
  let ?c2 = "evict_loop (estimateSize text_of v) (without_old k ?c)"
  have x: "lru_exact ?c" using assms by (simp add: lru_run_ok_def lru_inv_def)
  note s = lru_set_eq(1-3) [OF x, where text_of = text_of and v = v and k = k and now = now and ttl = ttl]
    and s4 = lru_set_eq(4) [OF x, where text_of = text_of and v = v and k = k]
  obtain n where n: "lc_cache ?c2 = drop n (map_delete k (lc_cache ?c))" "lc_evictions ?c2 = lc_evictions ?c + n"
    using evict_loop_drops [OF without_old_exact [OF x, of k], of "estimateSize text_of v"] by (auto simp: without_old_simps)
  have "agrees (lru_set text_of now k v ttl ?c) ((lr_store r)(k \<mapsto> (v, now, nullish ttl (lc_defaultTTL ?c))))"
  proof -
    let ?e = "new_entry text_of now k v ttl ?c"
    have view: "entry_view ?e = (v, now, nullish ttl (lc_defaultTTL ?c))" by (simp add: entry_view_def new_entry_def)
    have m: "map_of (lc_cache (lru_set text_of now k v ttl ?c)) j = (if j = k then Some ?e else map_of (lc_cache ?c2) j)" for j
      unfolding s(1) map_set_fresh [OF s4, symmetric] by simp
    have old: "lr_store r j = Some (entry_view e)" if "map_of (lc_cache ?c2) j = Some e" for j e
      using lru_set_kept [OF x that] assms unfolding lru_run_ok_def agrees_def by blast
    have gone: "lr_store r j = None" if "lc_evictions ?c2 = 0" "map_of (lc_cache ?c2) j = None" "j \<noteq> k" for j
    proof -
      have "n = 0" "lc_evictions ?c = 0" using that(1) n(2) by simp_all
      then have "map_of (lc_cache ?c) j = None" using that(2,3) n(1) by simp
      then show ?thesis using assms \<open>lc_evictions ?c = 0\<close> unfolding lru_run_ok_def agrees_def by blast
    qed
    show ?thesis unfolding agrees_def
    proof (intro conjI allI impI)
      fix j e
      assume "map_of (lc_cache (lru_set text_of now k v ttl ?c)) j = Some e"
      then show "((lr_store r)(k \<mapsto> (v, now, nullish ttl (lc_defaultTTL ?c)))) j = Some (entry_view e)"
        using old [of j e] view by (cases "j = k") (simp_all add: m)
    next
      fix j
      assume "lc_evictions (lru_set text_of now k v ttl ?c) = 0" "map_of (lc_cache (lru_set text_of now k v ttl ?c)) j = None"
      then show "((lr_store r)(k \<mapsto> (v, now, nullish ttl (lc_defaultTTL ?c)))) j = None"
        using gone [of j] by (cases "j = k") (simp_all add: m s(2))
    qed
  qed
  moreover have "in_use_order (lc_cache (lru_set text_of now k v ttl ?c)) ((lr_used r)(k := lr_count r)) (lr_count r + 1)"
    unfolding s(1) by (rule in_use_push [OF _ s4]) (use assms in \<open>simp add: n(1) lru_run_ok_def in_use_drop in_use_delete\<close>)
  ultimately show ?thesis using s(3) by (simp add: lru_run_ok_def lru_step_def)
qed

lemma lru_get_run:
  assumes "lru_run_ok r"
  shows "lru_run_ok (lru_step text_of r (now, Lru_get k))"
proof -
  let ?c = "lr_cache r"
  have inv: "lru_inv ?c" and a: "agrees ?c (lr_store r)" and o': "in_use_order (lc_cache ?c) (lr_used r) (lr_count r)"
    using assms by (simp_all add: lru_run_ok_def)
  have x: "lru_exact ?c" using inv by (simp add: lru_inv_def)
  note look = look_step [OF assms, of k]
  consider "map_get (lc_cache ?c) k = None" | e where "map_get (lc_cache ?c) k = Some e" "entry_expired now e"
    | e where "map_get (lc_cache ?c) k = Some e" "\<not> entry_expired now e" by (cases "map_get (lc_cache ?c) k") auto
  then show ?thesis
  proof cases
    case 1
    then show ?thesis using inv look(1) in_use_later o' by (simp add: lru_run_ok_def lru_step_def lru_get_def)
  next
    case (2 e)
    then show ?thesis
      using deleteEntry_inv [OF inv 2(1)] agrees_delete [OF a x, of k e] look(3) [OF 2] in_use_later in_use_delete [OF o', of k]
      by (simp add: lru_run_ok_def lru_step_def lru_get_def Let_def)
  next
    case (3 e)
    let ?m = "map_delete k (lc_cache ?c)" and ?e = "e\<lparr>le_hits := le_hits e + 1\<rparr>"
    have fresh: "map_of ?m k = None" by simp
    have app: "map_set k ?e ?m = ?m @ [(k, ?e)]" by (rule map_set_fresh [OF fresh])
    have "in_use_order (map_set k ?e ?m) ((lr_used r)(k := lr_count r)) (lr_count r + 1)"
      unfolding app by (rule in_use_push [OF in_use_delete [OF o'] fresh])
    moreover have "agrees (snd (lru_get now k ?c)) (lr_store r)"
      using a 3 by (auto simp: lru_get_def agrees_def entry_view_def)
    ultimately show ?thesis
      using lru_get_inv [OF inv, of now k] look(2) [OF 3] 3 by (simp add: lru_run_ok_def lru_step_def lru_get_def)
  qed
qed

lemma lru_has_run:
  assumes "lru_run_ok r"
  shows "lru_run_ok (lru_step text_of r (now, Lru_has k))"
proof -
  let ?c = "lr_cache r"
  have inv: "lru_inv ?c" and a: "agrees ?c (lr_store r)" and o': "in_use_order (lc_cache ?c) (lr_used r) (lr_count r)"
    using assms by (simp_all add: lru_run_ok_def)
  have x: "lru_exact ?c" using inv by (simp add: lru_inv_def)
  note look = look_step [OF assms, of k]
  consider "map_get (lc_cache ?c) k = None" | e where "map_get (lc_cache ?c) k = Some e" "entry_expired now e"
    | e where "map_get (lc_cache ?c) k = Some e" "\<not> entry_expired now e" by (cases "map_get (lc_cache ?c) k") auto
  then show ?thesis
  proof cases
    case 1
    then show ?thesis using inv look(1) in_use_later o' by (simp add: lru_run_ok_def lru_step_def lru_has_def)
  next
    case (2 e)
    then show ?thesis
      using deleteEntry_inv [OF inv 2(1)] agrees_delete [OF a x, of k e] look(3) [OF 2] in_use_later in_use_delete [OF o', of k]
      by (simp add: lru_run_ok_def lru_step_def lru_has_def)
  next
    case (3 e)
    then show ?thesis using inv a look(2) [OF 3] in_use_later o' by (simp add: lru_run_ok_def lru_step_def lru_has_def)
  qed
qed

lemma lru_remove_run:
  assumes "lru_run_ok r"
  shows "lru_run_ok (lru_step text_of r (now, Lru_delete k))" and "lru_run_ok (lru_step text_of r (now, Lru_clear))"
proof -
  let ?c = "lr_cache r"
  have inv: "lru_inv ?c" and a: "agrees ?c (lr_store r)" and o': "in_use_order (lc_cache ?c) (lr_used r) (lr_count r)"
    using assms by (simp_all add: lru_run_ok_def)
  have x: "lru_exact ?c" using inv by (simp add: lru_inv_def)
  show "lru_run_ok (lru_step text_of r (now, Lru_clear))"
    by (auto simp: lru_run_ok_def lru_step_def lru_clear_def lru_inv_def lru_exact_def lru_bounded_def agrees_def in_use_order_def)
  show "lru_run_ok (lru_step text_of r (now, Lru_delete k))"
  proof (cases "map_get (lc_cache ?c) k")
    case None
    then show ?thesis using inv agrees_lookup(2) [OF a None] in_use_later o' by (simp add: lru_run_ok_def lru_step_def lru_delete_def)
  next
    case (Some e)
    then show ?thesis
      using deleteEntry_inv [OF inv Some] agrees_delete [OF a x, of k e] in_use_later in_use_delete [OF o', of k]
      by (simp add: lru_run_ok_def lru_step_def lru_delete_def)
  qed
qed

interpretation lru: step_invariant "lru_step text_of" "\<lambda>_. True" lru_run_ok
  for text_of :: "'a \<Rightarrow> string option"
proof
  fix r :: "'a lru_run" and ev :: "int \<times> 'a lru_event"
  assume ok: "lru_run_ok r"
  obtain now e where ev: "ev = (now, e)" by (cases ev)
  show "lru_run_ok (lru_step text_of r ev)"
    by (cases e) (simp_all add: ev lru_set_run [OF ok] lru_get_run [OF ok] lru_has_run [OF ok] lru_remove_run [OF ok])
qed

lemma lru_start_ok: "lru_run_ok (lru_start options)"
  by (auto simp: lru_run_ok_def lru_start_def new_lru_def lru_inv_def lru_exact_def lru_bounded_def agrees_def in_use_order_def)

lemma lru_runs_ok: "lru_run_ok (foldl (lru_step text_of) (lru_start options) evs)"
  using lru.run_inv [OF lru_start_ok] by (simp add: list_all_iff)

subsection \<open>Properties\<close>

text \<open>
  After any run the sizes the cache reports are exact: the number of its entries, at most the greater of one
  and the limit, and the sum of their bytes, above its limit only with a single entry.
\<close>

theorem lru_counters_exact:
  "let c = lr_cache (foldl (lru_step text_of) (lru_start options) evs); st = lru_getStats c in
   ls_size st = int (length (lc_cache c)) \<and> ls_bytes st = lru_bytes (lc_cache c)
   \<and> (case ls_maxSize st of Some m \<Rightarrow> ls_size st \<le> max 1 m | None \<Rightarrow> True)
   \<and> (case ls_maxBytes st of Some b \<Rightarrow> ls_bytes st \<le> b \<or> ls_size st \<le> 1 | None \<Rightarrow> True)"
  using lru_runs_ok [of text_of options evs]
  by (auto simp: Let_def lru_run_ok_def lru_inv_def lru_exact_def lru_bounded_def lru_getStats_def split: option.split)

text \<open>The longest rest of a list that leaves a place.\<close>

fun longest_rest :: "('a list \<Rightarrow> bool) \<Rightarrow> 'a list \<Rightarrow> 'a list" where
  "longest_rest P [] = []"
| "longest_rest P (x # xs) = (if P (x # xs) then x # xs else longest_rest P xs)"

lemma longest_rest_drop:
  "n \<le> length xs \<Longrightarrow> n = length xs \<or> P (drop n xs) \<Longrightarrow> \<forall>m < n. \<not> P (drop m xs) \<Longrightarrow> longest_rest P xs = drop n xs"
proof (induction xs arbitrary: n)
  case (Cons x xs)
  show ?case
  proof (cases n)
    case 0
    then show ?thesis using Cons.prems by auto
  next
    case (Suc j)
    then have "\<not> P (x # xs)" "\<forall>m < j. \<not> P (drop m xs)" using Cons.prems(3) by (auto dest: spec [of _ "Suc _"])
    then show ?thesis using Cons.IH [of j] Cons.prems Suc by auto
  qed
qed simp

text \<open>
  C27: Setting a key, after any run, drops from the other entries the fewest that have to go, those whose last use
  is longest ago: what stays is the longest rest, in the order of last use, that leaves a place, and the new
  entry goes last.
\<close>

theorem set_drops_least_recent:
  "let r = foldl (lru_step text_of) (lru_start options) evs; c = lr_cache r; others = map_delete k (lc_cache c) in
   lc_cache (lru_set text_of now k v ttl c) = longest_rest (has_place (estimateSize text_of v) c) others @ [(k, new_entry text_of now k v ttl c)]
   \<and> sorted_wrt (\<lambda>p q. lr_used r (fst p) < lr_used r (fst q)) others"
proof -
  define r where "r = foldl (lru_step text_of) (lru_start options) evs"
  have ok: "lru_run_ok r" unfolding r_def by (rule lru_runs_ok)
  then have x: "lru_exact (lr_cache r)" by (simp add: lru_run_ok_def lru_inv_def)
  have place: "has_place s (without_old k (lr_cache r)) = has_place s (lr_cache r)" for s
    by (intro ext) (simp add: has_place_def without_old_simps)
  then have "lc_cache (evict_loop (estimateSize text_of v) (without_old k (lr_cache r)))
      = longest_rest (has_place (estimateSize text_of v) (lr_cache r)) (map_delete k (lc_cache (lr_cache r)))"
  proof -
    obtain n where "n \<le> length (map_delete k (lc_cache (lr_cache r)))"
        "lc_cache (evict_loop (estimateSize text_of v) (without_old k (lr_cache r))) = drop n (map_delete k (lc_cache (lr_cache r)))"
        "n = length (map_delete k (lc_cache (lr_cache r)))
         \<or> has_place (estimateSize text_of v) (lr_cache r) (drop n (map_delete k (lc_cache (lr_cache r))))"
        "\<forall>m < n. \<not> has_place (estimateSize text_of v) (lr_cache r) (drop m (map_delete k (lc_cache (lr_cache r))))"
      using evict_loop_drops [OF without_old_exact [OF x, of k], of "estimateSize text_of v"]
      unfolding without_old_simps place by blast
    then show ?thesis by (metis longest_rest_drop)
  qed
  moreover have "in_use_order (map_delete k (lc_cache (lr_cache r))) (lr_used r) (lr_count r)"
    using ok by (simp add: lru_run_ok_def in_use_delete)
  ultimately show ?thesis
    by (simp add: Let_def r_def [symmetric] lru_set_eq(1) [OF x] in_use_order_def)
qed

text \<open>
  The cache refines a store without limits: what it answers is what was last set for the key and has not
  expired, and as long as nothing was evicted it answers everything that store does.
\<close>

theorem lru_refines_store:
  "let r = foldl (lru_step text_of) (lru_start options) evs; c = lr_cache r;
       answer = map_option fst (ideal_lookup now (lr_store r k)) in
   fst (lru_get now k c) \<in> {None, answer} \<and> (0 < lc_evictions c \<or> fst (lru_get now k c) = answer)"
proof -
  define r where "r = foldl (lru_step text_of) (lru_start options) evs"
  have a: "agrees (lr_cache r) (lr_store r)" using lru_runs_ok [of text_of options evs] by (simp add: lru_run_ok_def r_def)
  have "map_option fst (ideal_lookup now (lr_store r k)) = fst (lru_get now k (lr_cache r))" if "map_get (lc_cache (lr_cache r)) k = Some e" for e
    using agrees_lookup(1) [OF a that] that by (simp add: ideal_expired lru_get_def) (simp add: entry_view_def)
  moreover have "lr_store r k = None \<or> 0 < lc_evictions (lr_cache r)" "fst (lru_get now k (lr_cache r)) = None" if "map_get (lc_cache (lr_cache r)) k = None"
    using a that by (auto simp: agrees_def lru_get_def)
  ultimately show ?thesis unfolding Let_def r_def [symmetric] by (cases "map_get (lc_cache (lr_cache r)) k") auto
qed

text \<open>A value larger than the limit of bytes drops everything else and is stored nevertheless.\<close>

lemma oversized_value_drops_all:
  assumes "lru_exact c" and "lc_maxBytes c = Some b" and "b < int (estimateSize text_of v)"
  shows "lc_cache (lru_set text_of now k v ttl c) = [(k, new_entry text_of now k v ttl c)]"
proof -
  have "\<not> has_place (estimateSize text_of v) (without_old k c) m" for m
    using assms(2,3) lru_bytes_nonneg [of m] by (auto simp: has_place_def without_old_simps)
  then have "lc_cache (evict_loop (estimateSize text_of v) (without_old k c)) = []"
    using evict_loop_bounded [OF without_old_exact [OF assms(1)], of "estimateSize text_of v" k] by blast
  then show ?thesis by (simp add: lru_set_eq(1) [OF assms(1)])
qed

text \<open>The contents of messages have no part in the key of parameters: two prompts have one key.\<close>

lemma nested_contents_ignored:
  "generateKey num sha256_hex [(''model'', m), (''messages'', V_array [V_object [(''role'', r), (''content'', a)]])]
   = generateKey num sha256_hex [(''model'', m), (''messages'', V_array [V_object [(''role'', r'), (''content'', b)]])]"
  by (simp add: generateKey_def List.map_filter_def)

end
