(* ===== verification/SemanticCache.thy ===== *)
theory SemanticCache
  imports LruCache
begin

text \<open>
  The cache of responses of \<^verbatim>\<open>src/src/lib/semanticCache.ts\<close>: the cache in memory in front of the table
  \<open>semantic_cache\<close>, and the signature under which a response is found. Parameters: the environment \<open>env\<close>, the
  texts of numbers, the hash, random ids and \<open>JSON.parse\<close> (nothing where it throws). The column of responses holds
  texts; dates are their times. The flag \<open>up\<close> says whether the database can be reached in an operation.
\<close>

subsection \<open>Signatures\<close>

fun stringifyForSignature :: "(real \<Rightarrow> string) \<Rightarrow> json_value \<Rightarrow> string" where
  "stringifyForSignature num (V_string s) = s"
| "stringifyForSignature num v = stringify num v"

fun role_of :: "json_value option \<Rightarrow> string" where
  "role_of (Some (V_string s)) = (if js_trim s = [] then ''user'' else s)"
| "role_of _ = ''user''"

definition normal_item :: "(real \<Rightarrow> string) \<Rightarrow> json_value \<Rightarrow> json_value" where
  "normal_item num item =
     V_object ((''role'', V_string (role_of (item_prop item ''role'')))
       # (case item_prop item ''content'' of
            None \<Rightarrow> []
          | Some v \<Rightarrow> [(''content'', V_string (stringifyForSignature num v))]))"

fun normalizeConversation :: "(real \<Rightarrow> string) \<Rightarrow> json_value option \<Rightarrow> json_value list" where
  "normalizeConversation num (Some (V_string s)) = [V_object [(''role'', V_string ''user''), (''content'', V_string s)]]"
| "normalizeConversation num (Some (V_array items)) = map (normal_item num) items"
| "normalizeConversation num _ = []"

definition signature_payload :: "(real \<Rightarrow> string) \<Rightarrow> string \<Rightarrow> json_value option \<Rightarrow> json_value option \<Rightarrow> json_value option \<Rightarrow> json_value" where
  "signature_payload num model conversation temperature topP =
     V_object [(''model'', V_string model),
       (''messages'', V_array (normalizeConversation num conversation)),
       (''temperature'', nullish temperature (V_number 0)),
       (''top_p'', nullish topP (V_number 1))]"

definition generateSignature :: "(real \<Rightarrow> string) \<Rightarrow> (string \<Rightarrow> string) \<Rightarrow> string \<Rightarrow> json_value option \<Rightarrow> json_value option
    \<Rightarrow> json_value option \<Rightarrow> string option \<Rightarrow> string" where
  "generateSignature num sha256_hex model conversation temperature topP apiKeyId =
     (let digest = sha256_hex (stringify num (signature_payload num model conversation temperature topP)); k = nullish apiKeyId [] in
      if k = [] then digest else k @ ''.'' @ digest)"

datatype header_source =
    No_headers
  | Header_get "string \<Rightarrow> string option"
  | Header_record "(string \<times> json_value) list"

fun getHeaderValue :: "header_source \<Rightarrow> string \<Rightarrow> string option" where
  "getHeaderValue No_headers name = None"
| "getHeaderValue (Header_get f) name = f name"
| "getHeaderValue (Header_record hs) name =
     (case find (\<lambda>(k, v). js_lower k = js_lower name) hs of
        Some (_, V_string s) \<Rightarrow> Some s
      | _ \<Rightarrow> None)"

definition cache_refused :: "header_source \<Rightarrow> bool" where
  "cache_refused headers \<longleftrightarrow> js_lower (nullish (getHeaderValue headers ''x-omniroute-no-cache'') []) = ''true''"

definition isCacheableForRead :: "(string \<times> json_value) list \<Rightarrow> header_source \<Rightarrow> bool" where
  "isCacheableForRead body headers \<longleftrightarrow> \<not> cache_refused headers \<and> prop_of body ''temperature'' = Some (V_number 0)"

definition isCacheableForWrite :: "(string \<times> json_value) list \<Rightarrow> header_source \<Rightarrow> bool" where
  "isCacheableForWrite body headers \<longleftrightarrow> \<not> cache_refused headers \<and> prop_of body ''temperature'' = Some (V_number 0)"

subsection \<open>The two caches\<close>

record cached_value =
  cv_response :: json_value
  cv_tokens :: real

definition cached_text :: "(real \<Rightarrow> string) \<Rightarrow> cached_value \<Rightarrow> string option" where
  "cached_text num v = Some (stringify num (V_object [(''response'', cv_response v), (''tokensSaved'', V_number (cv_tokens v))]))"

record semantic_row =
  sr_id :: string
  sr_signature :: string
  sr_model :: string
  sr_promptHash :: string
  sr_response :: string
  sr_tokensSaved :: real
  sr_hitCount :: nat
  sr_createdAt :: int
  sr_expiresAt :: int

record cache_metrics =
  cm_hits :: nat
  cm_misses :: nat
  cm_tokensSaved :: real

record semantic_cache =
  sm_memory :: "cached_value lru_cache option"
  sm_rows :: "semantic_row list"
  sm_metrics :: "cache_metrics option"

definition ensureCacheMetricsTable :: "bool \<Rightarrow> semantic_cache \<Rightarrow> semantic_cache" where
  "ensureCacheMetricsTable up s =
     (if up \<and> sm_metrics s = None then s\<lparr>sm_metrics := Some \<lparr>cm_hits = 0, cm_misses = 0, cm_tokensSaved = 0\<rparr>\<rparr> else s)"

definition incrementMetric :: "bool \<Rightarrow> (cache_metrics \<Rightarrow> cache_metrics) \<Rightarrow> semantic_cache \<Rightarrow> semantic_cache" where
  "incrementMetric up f s = (if up then s\<lparr>sm_metrics := map_option f (sm_metrics s)\<rparr> else s)"

definition count_hit :: "bool \<Rightarrow> real \<Rightarrow> semantic_cache \<Rightarrow> semantic_cache" where
  "count_hit up tokens s =
     incrementMetric up (\<lambda>m. m\<lparr>cm_tokensSaved := cm_tokensSaved m + tokens\<rparr>) (incrementMetric up (\<lambda>m. m\<lparr>cm_hits := cm_hits m + 1\<rparr>) s)"

definition count_miss :: "bool \<Rightarrow> semantic_cache \<Rightarrow> semantic_cache" where
  "count_miss up s = incrementMetric up (\<lambda>m. m\<lparr>cm_misses := cm_misses m + 1\<rparr>) s"

definition new_memory :: "(string \<Rightarrow> string option) \<Rightarrow> cached_value lru_cache" where
  "new_memory env =
     new_lru [(''maxSize'', Some (env_int env ''SEMANTIC_CACHE_MAX_SIZE'' ''50'')),
       (''maxBytes'', Some (env_int env ''SEMANTIC_CACHE_MAX_BYTES'' (decimal (2 * 1024 * 1024)))),
       (''defaultTTL'', Some (env_int env ''SEMANTIC_CACHE_TTL_MS'' ''1800000''))]"

definition getMemoryCache :: "(string \<Rightarrow> string option) \<Rightarrow> bool \<Rightarrow> semantic_cache \<Rightarrow> cached_value lru_cache \<times> semantic_cache" where
  "getMemoryCache env up s =
     (case sm_memory s of
        Some c \<Rightarrow> (c, s)
      | None \<Rightarrow> let c = new_memory env in (c, ensureCacheMetricsTable up (s\<lparr>sm_memory := Some c\<rparr>)))"

text \<open>Applying an operation to the cache in memory.\<close>

definition in_memory :: "(string \<Rightarrow> string option) \<Rightarrow> bool \<Rightarrow> (cached_value lru_cache \<Rightarrow> 'a \<times> cached_value lru_cache)
    \<Rightarrow> semantic_cache \<Rightarrow> 'a \<times> semantic_cache" where
  "in_memory env up f s =
     (let (c, s1) = getMemoryCache env up s; (x, c1) = f c in (x, s1\<lparr>sm_memory := Some c1\<rparr>))"

definition row_hit :: "string \<Rightarrow> semantic_row \<Rightarrow> semantic_row" where
  "row_hit sig r = (if sr_signature r = sig then r\<lparr>sr_hitCount := sr_hitCount r + 1\<rparr> else r)"

definition getCachedResponse :: "(string \<Rightarrow> string option) \<Rightarrow> (real \<Rightarrow> string) \<Rightarrow> (string \<Rightarrow> json_value option) \<Rightarrow> int \<Rightarrow> bool \<Rightarrow> string
    \<Rightarrow> semantic_cache \<Rightarrow> json_value option \<times> semantic_cache" where
  "getCachedResponse env num parse now up sig s =
     (let (memResult, s1) = in_memory env up (lru_get now sig) s in
      case memResult of
        Some v \<Rightarrow> (Some (cv_response v), count_hit up (cv_tokens v) s1)
      | None \<Rightarrow>
          if \<not> up then (None, count_miss up s1)
          else (case find (\<lambda>r. sr_signature r = sig \<and> now < sr_expiresAt r) (sm_rows s1) of
              None \<Rightarrow> (None, count_miss up s1)
            | Some r \<Rightarrow>
                if sr_response r = [] then (None, count_miss up s1)
                else (case parse (sr_response r) of
                    None \<Rightarrow> (None, count_miss up s1)
                  | Some response \<Rightarrow>
                      let s2 = snd (in_memory env up (\<lambda>c. ((), lru_set (cached_text num) now sig
                                 \<lparr>cv_response = response, cv_tokens = sr_tokensSaved r\<rparr> None c)) s1);
                          s3 = s2\<lparr>sm_rows := map (row_hit sig) (sm_rows s2)\<rparr>
                      in (Some response, count_hit up (sr_tokensSaved r) s3))))"

text \<open>The lifetime of an entry, and the row that is written unless the date of its end is invalid.\<close>

definition int_text :: "int \<Rightarrow> string" where
  "int_text n = (if n < 0 then CHR ''-'' # decimal (nat (- n)) else decimal (nat n))"

definition entry_ttl :: "(string \<Rightarrow> string option) \<Rightarrow> int \<Rightarrow> limit" where
  "entry_ttl env ttlMs = env_int env ''SEMANTIC_CACHE_TTL_MS'' (int_text ttlMs)"

definition setCachedResponse :: "(string \<Rightarrow> string option) \<Rightarrow> (real \<Rightarrow> string) \<Rightarrow> string \<Rightarrow> int \<Rightarrow> bool \<Rightarrow> string \<Rightarrow> string \<Rightarrow> json_value
    \<Rightarrow> real \<Rightarrow> int \<Rightarrow> semantic_cache \<Rightarrow> semantic_cache" where
  "setCachedResponse env num uuid now up sig model response tokensSaved ttlMs s =
     (let ttl = entry_ttl env ttlMs;
          s1 = snd (in_memory env up (\<lambda>c. ((), lru_set (cached_text num) now sig
                 \<lparr>cv_response = response, cv_tokens = tokensSaved\<rparr> (Some ttl) c)) s)
      in case ttl of
           None \<Rightarrow> s1
         | Some t \<Rightarrow>
             if up then
               s1\<lparr>sm_rows := filter (\<lambda>r. sr_signature r \<noteq> sig \<and> sr_id r \<noteq> uuid) (sm_rows s1) @
                  [\<lparr>sr_id = uuid, sr_signature = sig, sr_model = model, sr_promptHash = take 16 sig, sr_response = stringify num response,
                    sr_tokensSaved = tokensSaved, sr_hitCount = 0, sr_createdAt = now, sr_expiresAt = now + t\<rparr>]\<rparr>
             else s1)"

text \<open>Removal from the table, with the number of rows removed; zero when the database cannot be reached.\<close>

definition delete_rows :: "bool \<Rightarrow> (semantic_row \<Rightarrow> bool) \<Rightarrow> semantic_cache \<Rightarrow> nat \<times> semantic_cache" where
  "delete_rows up P s = (if up then (length (filter P (sm_rows s)), s\<lparr>sm_rows := filter (\<lambda>r. \<not> P r) (sm_rows s)\<rparr>) else (0, s))"

definition clearMemoryCache :: "(string \<Rightarrow> string option) \<Rightarrow> bool \<Rightarrow> semantic_cache \<Rightarrow> semantic_cache" where
  "clearMemoryCache env up s = snd (in_memory env up (\<lambda>c. ((), lru_clear c)) s)"

definition invalidateByModel :: "(string \<Rightarrow> string option) \<Rightarrow> bool \<Rightarrow> string \<Rightarrow> semantic_cache \<Rightarrow> nat \<times> semantic_cache" where
  "invalidateByModel env up model s = delete_rows up (\<lambda>r. sr_model r = model) (clearMemoryCache env up s)"

definition invalidateBySignature :: "(string \<Rightarrow> string option) \<Rightarrow> bool \<Rightarrow> string \<Rightarrow> semantic_cache \<Rightarrow> bool \<times> semantic_cache" where
  "invalidateBySignature env up sig s =
     (let (n, s1) = delete_rows up (\<lambda>r. sr_signature r = sig) (snd (in_memory env up (lru_delete sig) s)) in (0 < n, s1))"

definition invalidateStale :: "(string \<Rightarrow> string option) \<Rightarrow> int \<Rightarrow> bool \<Rightarrow> int \<Rightarrow> semantic_cache \<Rightarrow> nat \<times> semantic_cache" where
  "invalidateStale env now up maxAgeMs s = delete_rows up (\<lambda>r. sr_createdAt r < now - maxAgeMs) (clearMemoryCache env up s)"

text \<open>
  \<^verbatim>\<open>src/src/lib/db/semanticCache.ts\<close>: the entries that the administrator deletes go from the table alone. The first
  answers one whether a row went or not.
\<close>

definition deleteSemanticCacheBySignature :: "string \<Rightarrow> semantic_cache \<Rightarrow> nat \<times> semantic_cache" where
  "deleteSemanticCacheBySignature sig s = (1, snd (delete_rows True (\<lambda>r. sr_signature r = sig) s))"

definition deleteSemanticCacheByModel :: "string \<Rightarrow> semantic_cache \<Rightarrow> nat \<times> semantic_cache" where
  "deleteSemanticCacheByModel model s = delete_rows True (\<lambda>r. sr_model r = model) s"

definition clearCache :: "(string \<Rightarrow> string option) \<Rightarrow> bool \<Rightarrow> semantic_cache \<Rightarrow> nat \<times> semantic_cache" where
  "clearCache env up s =
     (let (n, s1) = delete_rows up (\<lambda>_. True) (clearMemoryCache env up s)
      in (n, incrementMetric up (\<lambda>_. \<lparr>cm_hits = 0, cm_misses = 0, cm_tokensSaved = 0\<rparr>) s1))"

record semantic_stats =
  ss_memoryEntries :: int
  ss_dbEntries :: nat
  ss_hits :: nat
  ss_misses :: nat
  ss_hitRate :: real
  ss_tokensSaved :: real

text \<open>The rate is given before it is rounded to one decimal.\<close>

definition getCacheStats :: "(string \<Rightarrow> string option) \<Rightarrow> int \<Rightarrow> bool \<Rightarrow> semantic_cache \<Rightarrow> semantic_stats \<times> semantic_cache" where
  "getCacheStats env now up s =
     (let (st, s1) = in_memory env up (\<lambda>c. (lru_getStats c, c)) s;
          m = (if up then nullish (sm_metrics s1) \<lparr>cm_hits = 0, cm_misses = 0, cm_tokensSaved = 0\<rparr>
               else \<lparr>cm_hits = 0, cm_misses = 0, cm_tokensSaved = 0\<rparr>);
          total = cm_hits m + cm_misses m
      in (\<lparr>ss_memoryEntries = ls_size st,
           ss_dbEntries = (if up then length (filter (\<lambda>r. now < sr_expiresAt r) (sm_rows s1)) else 0),
           ss_hits = cm_hits m, ss_misses = cm_misses m,
           ss_hitRate = (if 0 < total then real (cm_hits m) / real total * 100 else 0),
           ss_tokensSaved = cm_tokensSaved m\<rparr>, s1))"

text \<open>The two places a request passes: the lookup before it and the store after a stream of status 200.\<close>

definition checkSemanticCache :: "(string \<Rightarrow> string option) \<Rightarrow> (real \<Rightarrow> string) \<Rightarrow> (string \<Rightarrow> string) \<Rightarrow> (string \<Rightarrow> json_value option) \<Rightarrow> int \<Rightarrow> bool
    \<Rightarrow> bool \<Rightarrow> bool \<Rightarrow> string \<Rightarrow> (string \<times> json_value) list \<Rightarrow> header_source \<Rightarrow> string option \<Rightarrow> semantic_cache \<Rightarrow> json_value option \<times> semantic_cache" where
  "checkSemanticCache env num sha256_hex parse now up bypass enabled model body headers apiKeyId s =
     (if bypass then (None, s)
      else if enabled \<and> isCacheableForRead body headers then
        getCachedResponse env num parse now up
          (generateSignature num sha256_hex model (nullish_prop (prop_of body ''messages'') (prop_of body ''input''))
             (prop_of body ''temperature'') (prop_of body ''top_p'') apiKeyId) s
      else (None, s))"

definition storeStreamingSemanticCacheResponse :: "(string \<Rightarrow> string option) \<Rightarrow> (real \<Rightarrow> string) \<Rightarrow> (string \<Rightarrow> string) \<Rightarrow> (json_value \<Rightarrow> bool) \<Rightarrow> string
    \<Rightarrow> int \<Rightarrow> bool \<Rightarrow> bool \<Rightarrow> int \<Rightarrow> (string \<times> json_value) list option \<Rightarrow> (string \<times> json_value) list \<Rightarrow> header_source \<Rightarrow> string \<Rightarrow> string option \<Rightarrow> real
    \<Rightarrow> semantic_cache \<Rightarrow> semantic_cache" where
  "storeStreamingSemanticCacheResponse env num sha256_hex small uuid now up enabled status streamBody body headers model apiKeyId tokensSaved s =
     (case streamBody of
        None \<Rightarrow> s
      | Some ps \<Rightarrow>
          if \<not> enabled \<or> status \<noteq> 200 \<or> \<not> isCacheableForWrite body headers then s
          else let cleanBody = V_object (filter (\<lambda>(k, v). k \<noteq> ''_streamed'') ps) in
               if \<not> small cleanBody then s
               else setCachedResponse env num uuid now up
                 (generateSignature num sha256_hex model (nullish_prop (prop_of body ''messages'') (prop_of body ''input''))
                    (prop_of body ''temperature'') (prop_of body ''top_p'') apiKeyId)
                 model cleanBody tokensSaved 3600000 s)"

subsection \<open>What a signature says\<close>

lemma nullish_prop_Some: "nullish_prop a b = Some v \<Longrightarrow> a = Some v \<or> b = Some v"
  by (cases "(a, b)" rule: nullish_prop.cases) auto

lemma normal_item_numbers: "numbers_of (normal_item num item) = {}"
  by (cases "item_prop item ''content''") (simp_all add: normal_item_def)

lemma conversation_numbers: "(\<Union>v \<in> set (normalizeConversation num c). numbers_of v) = {}"
  by (cases "(num, c)" rule: normalizeConversation.cases) (simp_all add: normal_item_numbers)

lemma payload_numbers:
  "numbers_of (signature_payload num m c t p) = numbers_of (nullish t (V_number 0)) \<union> numbers_of (nullish p (V_number 1))"
  using conversation_numbers [of num c] by (simp add: signature_payload_def)

text \<open>
  C28: As far as the hash does not collide, two requests have the same signature exactly when they come with the same
  API key and have the same model, the same normalised conversation, the same temperature and the same top-p.
\<close>

theorem signature_exact:
  assumes "number_texts N num" and "\<And>x. length (sha256_hex x) = 64"
    and "numbers_of (signature_payload num m c t p) \<union> numbers_of (signature_payload num m' c' t' p') \<subseteq> N"
    and "sha256_hex (stringify num (signature_payload num m c t p)) = sha256_hex (stringify num (signature_payload num m' c' t' p'))
      \<Longrightarrow> stringify num (signature_payload num m c t p) = stringify num (signature_payload num m' c' t' p')"
  shows "generateSignature num sha256_hex m c t p key = generateSignature num sha256_hex m' c' t' p' key'
    \<longleftrightarrow> nullish key [] = nullish key' [] \<and> m = m' \<and> normalizeConversation num c = normalizeConversation num c'
      \<and> nullish t (V_number 0) = nullish t' (V_number 0) \<and> nullish p (V_number 1) = nullish p' (V_number 1)"
proof -
  let ?P = "signature_payload num m c t p" and ?P' = "signature_payload num m' c' t' p'"
  have "generateSignature num sha256_hex m c t p key = generateSignature num sha256_hex m' c' t' p' key'
      \<longleftrightarrow> nullish key [] = nullish key' [] \<and> sha256_hex (stringify num ?P) = sha256_hex (stringify num ?P')"
    using namespaced_inj [OF assms(2,2), of "nullish key []" "stringify num ?P" "nullish key' []" "stringify num ?P'"]
    unfolding generateSignature_def Let_def by auto
  also have "sha256_hex (stringify num ?P) = sha256_hex (stringify num ?P') \<longleftrightarrow> stringify num ?P = stringify num ?P'"
    using assms(4) by auto
  also have "\<dots> \<longleftrightarrow> ?P = ?P'" using assms(3) by (intro stringify_inj [OF assms(1)]) auto
  finally show ?thesis by (simp add: signature_payload_def)
qed

theorem signature_exact_witness:
  "generateSignature nat_text (\<lambda>x. if ''hello'' = take 5 (drop 51 x) then replicate 64 CHR ''a'' else replicate 64 CHR ''b'')
     ''m'' (Some (V_string ''hello'')) None None (Some ''k'')
   \<noteq> generateSignature nat_text (\<lambda>x. if ''hello'' = take 5 (drop 51 x) then replicate 64 CHR ''a'' else replicate 64 CHR ''b'')
     ''m'' (Some (V_string ''world'')) None None (Some ''k'')"
proof -
  let ?h = "\<lambda>x. if ''hello'' = take 5 (drop 51 x) then replicate 64 CHR ''a'' else replicate 64 CHR ''b''"
  have n: "numbers_of (signature_payload nat_text ''m'' (Some (V_string ''hello'')) None None)
      \<union> numbers_of (signature_payload nat_text ''m'' (Some (V_string ''world'')) None None) \<subseteq> \<nat>"
    by (simp add: payload_numbers)
  have d: "?h (stringify nat_text (signature_payload nat_text ''m'' (Some (V_string ''hello'')) None None))
      \<noteq> ?h (stringify nat_text (signature_payload nat_text ''m'' (Some (V_string ''world'')) None None))"
    by (simp add: signature_payload_def quoted_def escape_char_def nat_text_def decimal.simps)
  show ?thesis
    using signature_exact [OF nat_texts _ n, of ?h "Some ''k''" "Some ''k''"] d by simp
qed

text \<open>The calls of tools in a message have no part in the signature, and neither have the tools of the request.\<close>

lemma tool_calls_ignored:
  "generateSignature num sha256_hex m (Some (V_array [V_object [(''role'', r), (''content'', a), (''tool_calls'', x)]])) t p key
   = generateSignature num sha256_hex m (Some (V_array [V_object [(''role'', r), (''content'', a), (''tool_calls'', y)]])) t p key"
  by (simp add: generateSignature_def signature_payload_def normal_item_def prop_of_def)

subsection \<open>Runs\<close>

datatype semantic_event =
    Sem_get string
  | Sem_set string string string json_value real int
  | Sem_clear_memory
  | Sem_model string
  | Sem_signature string
  | Sem_stale int
  | Sem_clear
  | Sem_row_signature string
  | Sem_row_model string

fun semantic_apply :: "(string \<Rightarrow> string option) \<Rightarrow> (real \<Rightarrow> string) \<Rightarrow> (string \<Rightarrow> json_value option) \<Rightarrow> int \<Rightarrow> semantic_event
    \<Rightarrow> semantic_cache \<Rightarrow> semantic_cache" where
  "semantic_apply env num parse now (Sem_get sig) s = snd (getCachedResponse env num parse now True sig s)"
| "semantic_apply env num parse now (Sem_set uuid sig model response tokens ttlMs) s =
     setCachedResponse env num uuid now True sig model response tokens ttlMs s"
| "semantic_apply env num parse now Sem_clear_memory s = clearMemoryCache env True s"
| "semantic_apply env num parse now (Sem_model m) s = snd (invalidateByModel env True m s)"
| "semantic_apply env num parse now (Sem_signature sig) s = snd (invalidateBySignature env True sig s)"
| "semantic_apply env num parse now (Sem_stale age) s = snd (invalidateStale env now True age s)"
| "semantic_apply env num parse now Sem_clear s = snd (clearCache env True s)"
| "semantic_apply env num parse now (Sem_row_signature sig) s = snd (deleteSemanticCacheBySignature sig s)"
| "semantic_apply env num parse now (Sem_row_model m) s = snd (deleteSemanticCacheByModel m s)"

text \<open>
  The specification: what was last stored under a signature, for which model, when and for how long, and whether its row
  was deleted since. What has no row any more is forgotten as soon as the memory is cleared.
\<close>

record stored =
  st_response :: json_value
  st_model :: string
  st_at :: int
  st_ttl :: int
  st_rowless :: bool

type_synonym ideal_cache = "string \<Rightarrow> stored option"

definition forget_where :: "(stored \<Rightarrow> bool) \<Rightarrow> ideal_cache \<Rightarrow> ideal_cache" where
  "forget_where P m = (\<lambda>k. case m k of Some x \<Rightarrow> if P x then None else Some x | None \<Rightarrow> None)"

definition lose_row :: "(string \<Rightarrow> stored \<Rightarrow> bool) \<Rightarrow> ideal_cache \<Rightarrow> ideal_cache" where
  "lose_row P m = (\<lambda>k. map_option (\<lambda>x. if P k x then x\<lparr>st_rowless := True\<rparr> else x) (m k))"

fun stored_after :: "(string \<Rightarrow> string option) \<Rightarrow> int \<Rightarrow> semantic_event \<Rightarrow> ideal_cache \<Rightarrow> ideal_cache" where
  "stored_after env now (Sem_set uuid sig model response tokens ttlMs) m =
     m(sig := map_option (\<lambda>t. \<lparr>st_response = response, st_model = model, st_at = now, st_ttl = t, st_rowless = False\<rparr>) (entry_ttl env ttlMs))"
| "stored_after env now Sem_clear_memory m = forget_where st_rowless m"
| "stored_after env now (Sem_model model) m = forget_where (\<lambda>x. st_model x = model \<or> st_rowless x) m"
| "stored_after env now (Sem_signature sig) m = m(sig := None)"
| "stored_after env now (Sem_stale age) m = forget_where (\<lambda>x. st_at x < now - age \<or> st_rowless x) m"
| "stored_after env now Sem_clear m = Map.empty"
| "stored_after env now (Sem_row_signature sig) m = lose_row (\<lambda>k x. k = sig) m"
| "stored_after env now (Sem_row_model model) m = lose_row (\<lambda>k x. st_model x = model) m"
| "stored_after env now (Sem_get sig) m = m"

text \<open>
  What every entry of the memory and every row is: a copy of what is stored, that lasts in the table until its
  time is over, and in memory at most as long again as the default \<open>d\<close> of the memory.
\<close>

definition copy_of :: "int \<Rightarrow> ideal_cache \<Rightarrow> string \<Rightarrow> cached_value \<times> int \<times> limit \<Rightarrow> bool" where
  "copy_of d m k x \<longleftrightarrow>
     (case x of (v, made, ttl) \<Rightarrow>
        \<exists>z l. m k = Some z \<and> cv_response v = st_response z \<and> ttl = Some l \<and> made + l \<le> st_at z + st_ttl z + max 0 d)"

definition row_of :: "(string \<Rightarrow> json_value option) \<Rightarrow> ideal_cache \<Rightarrow> semantic_row \<Rightarrow> bool" where
  "row_of parse m r \<longleftrightarrow>
     (\<exists>z. m (sr_signature r) = Some z \<and> \<not> st_rowless z \<and> parse (sr_response r) = Some (st_response z) \<and> sr_model r = st_model z
        \<and> sr_createdAt r = st_at z \<and> sr_expiresAt r = st_at z + st_ttl z)"

definition entries_are :: "(string \<Rightarrow> 'v \<times> int \<times> limit \<Rightarrow> bool) \<Rightarrow> 'v lru_cache \<Rightarrow> bool" where
  "entries_are P c \<longleftrightarrow> lru_inv c \<and> (\<forall>k e. map_of (lc_cache c) k = Some e \<longrightarrow> P k (entry_view e))"

definition semantic_ok :: "int \<Rightarrow> (string \<Rightarrow> json_value option) \<Rightarrow> semantic_cache \<Rightarrow> ideal_cache \<Rightarrow> bool" where
  "semantic_ok d parse s m \<longleftrightarrow>
     (case sm_memory s of None \<Rightarrow> True | Some c \<Rightarrow> lc_defaultTTL c = Some d \<and> entries_are (copy_of d m) c)
     \<and> list_all (row_of parse m) (sm_rows s)"

subsection \<open>The cache in memory keeps what holds of its entries\<close>

lemma get_defaultTTL: "lc_defaultTTL (snd (lru_get now k c)) = lc_defaultTTL c"
  by (simp add: lru_get_def Let_def split: option.split)

lemma set_defaultTTL:
  assumes "lru_exact c"
  shows "lc_defaultTTL (lru_set text_of now k v ttl c) = lc_defaultTTL c"
  using evict_loop_drops [OF without_old_exact [OF assms, of k], of "estimateSize text_of v"]
  by (auto simp: lru_set_def Let_def without_old_def without_old_simps split: option.splits)

lemma get_entries:
  assumes "entries_are P c"
  shows "entries_are P (snd (lru_get now k c))"
    and "fst (lru_get now k c) = Some v \<Longrightarrow> \<exists>made ttl. P k (v, made, ttl) \<and> (case ttl of Some n \<Rightarrow> now \<le> made + n | None \<Rightarrow> True)"
proof -
  have inv: "lru_inv c" using assms by (simp add: entries_are_def)
  show "entries_are P (snd (lru_get now k c))"
    using assms lru_get_inv [OF inv, of now k]
    by (auto simp: entries_are_def lru_get_def Let_def entry_view_def split: option.splits if_splits)
  show "\<exists>made ttl. P k (v, made, ttl) \<and> (case ttl of Some n \<Rightarrow> now \<le> made + n | None \<Rightarrow> True)" if hit: "fst (lru_get now k c) = Some v"
  proof -
    obtain e where e: "map_get (lc_cache c) k = Some e" "\<not> entry_expired now e" "le_value e = v"
      using hit by (auto simp: lru_get_def split: option.splits if_splits)
    then have "P k (entry_view e)" using assms unfolding entries_are_def by blast
    then show ?thesis using e
      by (intro exI [of _ "le_createdAt e"] exI [of _ "le_ttl e"]) (auto simp: entry_view_def entry_expired_def split: option.splits)
  qed
qed

lemma set_entries:
  assumes "entries_are P c" and "P' k (v, now, nullish ttl (lc_defaultTTL c))" and "\<And>j x. j \<noteq> k \<Longrightarrow> P j x \<Longrightarrow> P' j x"
  shows "entries_are P' (lru_set text_of now k v ttl c)"
proof -
  have inv: "lru_inv c" and x: "lru_exact c" using assms(1) by (simp_all add: entries_are_def lru_inv_def)
  let ?c2 = "evict_loop (estimateSize text_of v) (without_old k c)"
  note s = lru_set_eq(1,3) [OF x, where text_of = text_of and v = v and k = k and now = now and ttl = ttl]
    and s4 = lru_set_eq(4) [OF x, where text_of = text_of and v = v and k = k]
  show ?thesis unfolding entries_are_def
  proof (intro conjI allI impI)
    show "lru_inv (lru_set text_of now k v ttl c)" by (rule s(2))
    fix j e
    assume "map_of (lc_cache (lru_set text_of now k v ttl c)) j = Some e"
    then have "((map_of (lc_cache ?c2))(k \<mapsto> new_entry text_of now k v ttl c)) j = Some e"
      unfolding s(1) map_set_fresh [OF s4, symmetric] by simp
    then consider "j = k" "e = new_entry text_of now k v ttl c" | "j \<noteq> k" "map_of (lc_cache ?c2) j = Some e"
      by (auto split: if_splits)
    then show "P' j (entry_view e)"
    proof cases
      case 1
      then show ?thesis using assms(2) by (simp add: entry_view_def new_entry_def)
    next
      case 2
      then have "P j (entry_view e)" using lru_set_kept [OF x 2(2)] assms(1) unfolding entries_are_def by blast
      then show ?thesis using assms(3) 2(1) by blast
    qed
  qed
qed

lemma delete_entries:
  assumes "entries_are P c"
  shows "entries_are (\<lambda>j x. j \<noteq> k \<and> P j x) (snd (lru_delete k c))" and "lc_defaultTTL (snd (lru_delete k c)) = lc_defaultTTL c"
  using assms deleteEntry_inv [of c k]
  by (auto simp: entries_are_def lru_delete_def split: option.splits if_splits)

lemma clear_entries: "entries_are P (lru_clear c)" "lc_defaultTTL (lru_clear c) = lc_defaultTTL c"
  by (auto simp: entries_are_def lru_clear_def lru_inv_def lru_exact_def lru_bounded_def)

lemma entries_mono: "entries_are P c \<Longrightarrow> (\<And>j x. P j x \<Longrightarrow> P' j x) \<Longrightarrow> entries_are P' c"
  unfolding entries_are_def by blast

subsection \<open>Every answer is what was stored\<close>

lemma metrics_keep [simp]:
  "sm_memory (incrementMetric up f s) = sm_memory s" "sm_rows (incrementMetric up f s) = sm_rows s"
  "sm_memory (count_hit up n s) = sm_memory s" "sm_rows (count_hit up n s) = sm_rows s"
  "sm_memory (count_miss up s) = sm_memory s" "sm_rows (count_miss up s) = sm_rows s"
  "sm_memory (ensureCacheMetricsTable up s) = sm_memory s" "sm_rows (ensureCacheMetricsTable up s) = sm_rows s"
  by (simp_all add: incrementMetric_def count_hit_def count_miss_def ensureCacheMetricsTable_def)

lemma semantic_ok_cong:
  "sm_memory s' = sm_memory s \<Longrightarrow> sm_rows s' = sm_rows s \<Longrightarrow> semantic_ok d parse s' m = semantic_ok d parse s m"
  by (simp add: semantic_ok_def)

lemma new_memory_entries: "entries_are P (new_memory env)"
  by (auto simp: new_memory_def new_lru_def entries_are_def lru_inv_def lru_exact_def lru_bounded_def)

text \<open>An operation on the memory, seen from outside.\<close>

lemma in_memory_result:
  assumes "semantic_ok d parse s m" and "lc_defaultTTL (new_memory env) = Some d"
  obtains c where "entries_are (copy_of d m) c" and "lc_defaultTTL c = Some d"
    and "fst (in_memory env up f s) = fst (f c)" and "sm_memory (snd (in_memory env up f s)) = Some (snd (f c))"
    and "sm_rows (snd (in_memory env up f s)) = sm_rows s"
proof (cases "sm_memory s")
  case None
  then show ?thesis
    using assms(2) new_memory_entries [of _ env] by (intro that [of "new_memory env"]) (simp_all add: in_memory_def getMemoryCache_def Let_def split_beta)
next
  case (Some c)
  then show ?thesis
    using assms(1) by (intro that [of c]) (simp_all add: in_memory_def getMemoryCache_def semantic_ok_def split_beta)
qed

lemma in_memory_unit:
  assumes "semantic_ok d parse s m" and "lc_defaultTTL (new_memory env) = Some d"
  obtains c where "entries_are (copy_of d m) c" and "lc_defaultTTL c = Some d"
    and "sm_memory (snd (in_memory env up (\<lambda>c. ((), g c)) s)) = Some (g c)"
    and "sm_rows (snd (in_memory env up (\<lambda>c. ((), g c)) s)) = sm_rows s"
  using in_memory_result [OF assms, of up "\<lambda>c. ((), g c)"] by auto

lemma get_semantic:
  assumes ok: "semantic_ok d parse s m" and d: "lc_defaultTTL (new_memory env) = Some d"
  shows "semantic_ok d parse (snd (getCachedResponse env num parse now up sig s)) m"
    and "fst (getCachedResponse env num parse now up sig s) = Some v
      \<Longrightarrow> \<exists>z. m sig = Some z \<and> v = st_response z \<and> now \<le> st_at z + st_ttl z + max 0 d"
proof -
  obtain c where c: "entries_are (copy_of d m) c" "lc_defaultTTL c = Some d"
      "fst (in_memory env up (lru_get now sig) s) = fst (lru_get now sig c)"
      "sm_memory (snd (in_memory env up (lru_get now sig) s)) = Some (snd (lru_get now sig c))"
      "sm_rows (snd (in_memory env up (lru_get now sig) s)) = sm_rows s"
    by (rule in_memory_result [OF ok d])
  define s1 where "s1 = snd (in_memory env up (lru_get now sig) s)"
  have rows: "list_all (row_of parse m) (sm_rows s)" using ok by (simp add: semantic_ok_def)
  have ok1: "semantic_ok d parse s1 m"
    using get_entries(1) [OF c(1)] c(2,4,5) rows by (simp add: semantic_ok_def s1_def get_defaultTTL)
  let ?row = "find (\<lambda>r. sr_signature r = sig \<and> now < sr_expiresAt r) (sm_rows s1)"
  have both: "semantic_ok d parse (snd (getCachedResponse env num parse now up sig s)) m \<and>
    (fst (getCachedResponse env num parse now up sig s) = Some v
      \<longrightarrow> (\<exists>z. m sig = Some z \<and> v = st_response z \<and> now \<le> st_at z + st_ttl z + max 0 d))"
    (is "?ok \<and> (?hit \<longrightarrow> ?served)")
  proof (cases "fst (lru_get now sig c)")
    case (Some w)
    have "getCachedResponse env num parse now up sig s = (Some (cv_response w), count_hit up (cv_tokens w) s1)"
      by (simp add: getCachedResponse_def split_beta c(3) Some s1_def)
    moreover obtain made ttl where "copy_of d m sig (w, made, ttl)" "case ttl of Some n \<Rightarrow> now \<le> made + n | None \<Rightarrow> True"
      using get_entries(2) [OF c(1) Some] by blast
    ultimately show ?thesis using ok1 semantic_ok_cong [of "count_hit up (cv_tokens w) s1" s1] by (fastforce simp: copy_of_def)
  next
    case None
    show ?thesis
    proof (cases "\<exists>r response. up \<and> ?row = Some r \<and> sr_response r \<noteq> [] \<and> parse (sr_response r) = Some response")
      case False
      have "getCachedResponse env num parse now up sig s = (None, count_miss up s1)"
        using False by (auto simp: getCachedResponse_def split_beta c(3) None s1_def split: option.split)
      then show ?thesis using ok1 semantic_ok_cong [of "count_miss up s1" s1] by simp
    next
      case True
      then obtain r response where r: "up" "?row = Some r" "sr_response r \<noteq> []" "parse (sr_response r) = Some response" by blast
      define s2 where "s2 = snd (in_memory env up (\<lambda>c. ((), lru_set (cached_text num) now sig
        \<lparr>cv_response = response, cv_tokens = sr_tokensSaved r\<rparr> None c)) s1)"
      let ?s3 = "s2\<lparr>sm_rows := map (row_hit sig) (sm_rows s2)\<rparr>"
      have eq: "getCachedResponse env num parse now up sig s = (Some response, count_hit up (sr_tokensSaved r) ?s3)"
      proof -
        have "fst (in_memory env True (lru_get now sig) s) = None" using c(3) None r(1) by simp
        then show ?thesis using r by (simp add: getCachedResponse_def split_beta s1_def s2_def Let_def)
      qed
      have "row_of parse m r" "sr_signature r = sig" "now < sr_expiresAt r"
        using r(2) rows c(5) by (auto simp: find_Some_iff list_all_iff s1_def)
      then obtain z where z: "m sig = Some z" "st_response z = response" "now < st_at z + st_ttl z"
        using r(4) by (auto simp: row_of_def)
      have copy: "copy_of d m sig (\<lparr>cv_response = response, cv_tokens = sr_tokensSaved r\<rparr>, now, nullish None (Some d))"
        using z by (simp add: copy_of_def)
      obtain c1 where c1: "entries_are (copy_of d m) c1" "lc_defaultTTL c1 = Some d"
          "sm_memory s2 = Some (lru_set (cached_text num) now sig \<lparr>cv_response = response, cv_tokens = sr_tokensSaved r\<rparr> None c1)"
          "sm_rows s2 = sm_rows s1"
        unfolding s2_def by (rule in_memory_unit [OF ok1 d])
      have "lru_exact c1" using c1(1) by (simp add: entries_are_def lru_inv_def)
      then have "entries_are (copy_of d m) (lru_set (cached_text num) now sig \<lparr>cv_response = response, cv_tokens = sr_tokensSaved r\<rparr> None c1)"
          "lc_defaultTTL (lru_set (cached_text num) now sig \<lparr>cv_response = response, cv_tokens = sr_tokensSaved r\<rparr> None c1) = Some d"
        using set_entries [OF c1(1), of "copy_of d m" sig _ now None] copy c1(2) by (simp_all add: set_defaultTTL)
      moreover have "list_all (row_of parse m) (map (row_hit sig) (sm_rows s1))"
        using rows c(5) by (auto simp: list_all_iff row_hit_def row_of_def s1_def)
      ultimately have "semantic_ok d parse ?s3 m" using c1(3,4) by (simp add: semantic_ok_def)
      moreover have "now \<le> st_at z + st_ttl z + max 0 d" using z(3) by linarith
      ultimately show ?thesis using eq z semantic_ok_cong [of "count_hit up (sr_tokensSaved r) ?s3" ?s3] by simp
    qed
  qed
  show "semantic_ok d parse (snd (getCachedResponse env num parse now up sig s)) m" using both by blast
  show "\<exists>z. m sig = Some z \<and> v = st_response z \<and> now \<le> st_at z + st_ttl z + max 0 d"
    if "fst (getCachedResponse env num parse now up sig s) = Some v" using both that by blast
qed

lemma parse_decimal_minus: "js_parseInt (CHR ''-'' # decimal n) = Some (- int n)"
  using decimal_digits [of n] parse_all_digits [of "decimal n"] by (simp add: js_parseInt_def js_space_def)

lemma parse_int_text: "js_parseInt (int_text n) = Some n"
  by (simp add: int_text_def parse_decimal parse_decimal_minus)

lemma entry_ttl_number:
  assumes "lc_defaultTTL (new_memory env) = Some d"
  shows "\<exists>t. entry_ttl env ttlMs = Some t"
  using assms parse_int_text [of ttlMs]
  by (auto simp: new_memory_def new_lru_def option_or_def entry_ttl_def env_int_def split: option.splits if_splits)

lemma set_semantic:
  assumes ok: "semantic_ok d parse s m" and d: "lc_defaultTTL (new_memory env) = Some d"
    and parse: "parse (stringify num response) = Some response"
  shows "semantic_ok d parse (setCachedResponse env num uuid now True sig model response tokens ttlMs s)
    (stored_after env now (Sem_set uuid sig model response tokens ttlMs) m)"
proof -
  obtain t where t: "entry_ttl env ttlMs = Some t" using entry_ttl_number [OF d] by blast
  let ?z = "\<lparr>st_response = response, st_model = model, st_at = now, st_ttl = t, st_rowless = False\<rparr>"
  let ?m = "m(sig \<mapsto> ?z)"
  let ?v = "\<lparr>cv_response = response, cv_tokens = tokens\<rparr>"
  define s1 where "s1 = snd (in_memory env True (\<lambda>c. ((), lru_set (cached_text num) now sig ?v (Some (Some t)) c)) s)"
  obtain c where c: "entries_are (copy_of d m) c" "lc_defaultTTL c = Some d"
      "sm_memory s1 = Some (lru_set (cached_text num) now sig ?v (Some (Some t)) c)" "sm_rows s1 = sm_rows s"
    unfolding s1_def by (rule in_memory_unit [OF ok d])
  have x: "lru_exact c" using c(1) by (simp add: entries_are_def lru_inv_def)
  have "entries_are (copy_of d ?m) (lru_set (cached_text num) now sig ?v (Some (Some t)) c)"
    by (rule set_entries [OF c(1)]) (simp_all add: copy_of_def)
  moreover have "list_all (row_of parse ?m) (filter (\<lambda>r. sr_signature r \<noteq> sig \<and> sr_id r \<noteq> uuid) (sm_rows s))"
    using ok by (auto simp: semantic_ok_def list_all_iff row_of_def)
  ultimately show ?thesis
    using c parse x by (simp add: setCachedResponse_def Let_def t semantic_ok_def s1_def [symmetric] set_defaultTTL row_of_def)
qed

lemma forget_keeps: "m k = Some z \<Longrightarrow> \<not> P z \<Longrightarrow> forget_where P m k = Some z"
  by (simp add: forget_where_def)

lemma clear_semantic:
  assumes "semantic_ok d parse s m" and "lc_defaultTTL (new_memory env) = Some d"
    and "\<And>r. row_of parse m r \<Longrightarrow> \<not> P r \<Longrightarrow> row_of parse m' r"
  shows "semantic_ok d parse (snd (delete_rows True P (clearMemoryCache env True s))) m'"
proof -
  obtain c where c: "entries_are (copy_of d m) c" "lc_defaultTTL c = Some d"
      "sm_memory (clearMemoryCache env True s) = Some (lru_clear c)" "sm_rows (clearMemoryCache env True s) = sm_rows s"
    unfolding clearMemoryCache_def by (rule in_memory_unit [OF assms(1,2)])
  then show ?thesis using assms(1,3) by (auto simp: delete_rows_def semantic_ok_def clear_entries list_all_iff)
qed

text \<open>Rows that are deleted alone leave the copies in memory as they are.\<close>

lemma lose_copy:
  assumes "copy_of d m k x"
  shows "copy_of d (lose_row P m) k x"
proof -
  obtain v made ttl z l where x: "x = (v, made, ttl)" "m k = Some z" "cv_response v = st_response z" "ttl = Some l"
      "made + l \<le> st_at z + st_ttl z + max 0 d"
    using assms by (auto simp: copy_of_def)
  then show ?thesis by (cases "P k z") (simp_all add: copy_of_def lose_row_def)
qed

lemma lose_semantic:
  assumes "semantic_ok d parse s m" and "\<And>r z. row_of parse m r \<Longrightarrow> m (sr_signature r) = Some z \<Longrightarrow> P (sr_signature r) z \<Longrightarrow> D r"
  shows "semantic_ok d parse (snd (delete_rows True D s)) (lose_row P m)"
proof -
  have "row_of parse (lose_row P m) r" if "row_of parse m r" "\<not> D r" for r
    using assms(2) [OF that(1)] that by (auto simp: row_of_def lose_row_def)
  then have "list_all (row_of parse (lose_row P m)) (filter (\<lambda>r. \<not> D r) (sm_rows s))"
    using assms(1) by (auto simp: semantic_ok_def list_all_iff)
  then show ?thesis
    using assms(1) entries_mono [OF _ lose_copy] by (auto simp: semantic_ok_def delete_rows_def split: option.splits)
qed

lemma semantic_step_ok:
  assumes ok: "semantic_ok d parse s m" and d: "lc_defaultTTL (new_memory env) = Some d"
    and parse: "\<And>uuid sig model response tokens ttlMs. ev = Sem_set uuid sig model response tokens ttlMs
      \<Longrightarrow> parse (stringify num response) = Some response"
  shows "semantic_ok d parse (semantic_apply env num parse now ev s) (stored_after env now ev m)"
proof (cases ev)
  case (Sem_get sig)
  then show ?thesis using get_semantic(1) [OF ok d] by simp
next
  case (Sem_set uuid sig model response tokens ttlMs)
  then show ?thesis using set_semantic [OF ok d parse] by simp
next
  case Sem_clear_memory
  have "semantic_ok d parse (snd (delete_rows True (\<lambda>_. False) (clearMemoryCache env True s))) (forget_where st_rowless m)"
    by (rule clear_semantic [OF ok d]) (auto simp: row_of_def forget_where_def)
  then show ?thesis by (simp add: Sem_clear_memory delete_rows_def)
next
  case (Sem_model model)
  show ?thesis unfolding Sem_model semantic_apply.simps stored_after.simps invalidateByModel_def
    by (rule clear_semantic [OF ok d]) (auto simp: row_of_def forget_where_def)
next
  case (Sem_signature sig)
  define s1 where "s1 = snd (in_memory env True (lru_delete sig) s)"
  obtain c where c: "entries_are (copy_of d m) c" "lc_defaultTTL c = Some d" "sm_memory s1 = Some (snd (lru_delete sig c))" "sm_rows s1 = sm_rows s"
    unfolding s1_def by (rule in_memory_result [OF ok d, where up = True])
  have "entries_are (copy_of d (m(sig := None))) (snd (lru_delete sig c))"
    by (rule entries_mono [OF delete_entries(1) [OF c(1)]]) (simp add: copy_of_def)
  then have "semantic_ok d parse (s1\<lparr>sm_rows := filter (\<lambda>r. sr_signature r \<noteq> sig) (sm_rows s)\<rparr>) (m(sig := None))"
    using c ok delete_entries(2) [OF c(1)] by (auto simp: semantic_ok_def list_all_iff row_of_def)
  then show ?thesis using c(4) by (simp add: Sem_signature invalidateBySignature_def delete_rows_def s1_def [symmetric] Let_def)
next
  case (Sem_stale age)
  show ?thesis unfolding Sem_stale semantic_apply.simps stored_after.simps invalidateStale_def
    by (rule clear_semantic [OF ok d]) (auto simp: row_of_def forget_where_def)
next
  case Sem_clear
  have "semantic_ok d parse (snd (delete_rows True (\<lambda>_. True) (clearMemoryCache env True s))) Map.empty"
    by (rule clear_semantic [OF ok d]) simp
  then show ?thesis by (simp add: Sem_clear clearCache_def split_beta semantic_ok_def)
next
  case (Sem_row_signature sig)
  show ?thesis unfolding Sem_row_signature semantic_apply.simps stored_after.simps deleteSemanticCacheBySignature_def snd_conv
    by (rule lose_semantic [OF ok]) (auto simp: row_of_def)
next
  case (Sem_row_model model)
  show ?thesis unfolding Sem_row_model semantic_apply.simps stored_after.simps deleteSemanticCacheByModel_def
    by (rule lose_semantic [OF ok]) (auto simp: row_of_def)
qed

definition semantic_step :: "(string \<Rightarrow> string option) \<Rightarrow> (real \<Rightarrow> string) \<Rightarrow> (string \<Rightarrow> json_value option) \<Rightarrow> semantic_cache \<times> ideal_cache
    \<Rightarrow> int \<times> semantic_event \<Rightarrow> semantic_cache \<times> ideal_cache" where
  "semantic_step env num parse s ev =
     (semantic_apply env num parse (fst ev) (snd ev) (fst s), stored_after env (fst ev) (snd ev) (snd s))"

definition new_semantic :: semantic_cache where
  "new_semantic = \<lparr>sm_memory = None, sm_rows = [], sm_metrics = None\<rparr>"

text \<open>The text of a response that is stored is read back as the response.\<close>

fun reads_back :: "(real \<Rightarrow> string) \<Rightarrow> (string \<Rightarrow> json_value option) \<Rightarrow> semantic_event \<Rightarrow> bool" where
  "reads_back num parse (Sem_set uuid sig model response tokens ttlMs) = (parse (stringify num response) = Some response)"
| "reads_back num parse _ = True"

interpretation semantic: step_invariant "semantic_step env num parse"
    "\<lambda>ev. lc_defaultTTL (new_memory env) = Some d \<and> reads_back num parse (snd ev)" "\<lambda>s. semantic_ok d parse (fst s) (snd s)"
  for env num parse d
proof
  fix s :: "semantic_cache \<times> ideal_cache" and ev :: "int \<times> semantic_event"
  assume "semantic_ok d parse (fst s) (snd s)" and e: "lc_defaultTTL (new_memory env) = Some d \<and> reads_back num parse (snd ev)"
  then show "semantic_ok d parse (fst (semantic_step env num parse s ev)) (snd (semantic_step env num parse s ev))"
    unfolding semantic_step_def fst_conv snd_conv by (intro semantic_step_ok) auto
qed

lemma new_semantic_ok: "semantic_ok d parse new_semantic m"
  by (simp add: new_semantic_def semantic_ok_def)

text \<open>
  C29: Over any run of readings, writings, removals and deletions of rows with the database at hand, whatever a reading
  answers is what was last stored under the signature and not removed since, by signature, model, age or as a whole; and it
  is answered at most the default lifetime of the memory after its own lifetime has ended. Deleting rows as the list of
  entries does is no such removal: the copy in memory goes on being answered, at the latest until the memory is cleared.
\<close>

theorem cached_answer_current:
  assumes "lc_defaultTTL (new_memory env) = Some d" and "list_all (\<lambda>ev. reads_back num parse (snd ev)) evs"
    and "fst (getCachedResponse env num parse now True sig (fst (foldl (semantic_step env num parse) (new_semantic, Map.empty) evs))) = Some v"
  shows "\<exists>z. snd (foldl (semantic_step env num parse) (new_semantic, Map.empty) evs) sig = Some z
    \<and> v = st_response z \<and> now \<le> st_at z + st_ttl z + max 0 d"
proof -
  have "list_all (\<lambda>ev. lc_defaultTTL (new_memory env) = Some d \<and> reads_back num parse (snd ev)) evs"
    using assms(1,2) by (simp add: list_all_iff)
  then have "semantic_ok d parse (fst (foldl (semantic_step env num parse) (new_semantic, Map.empty) evs))
      (snd (foldl (semantic_step env num parse) (new_semantic, Map.empty) evs))"
    by (intro semantic.run_inv) (simp_all add: new_semantic_ok)
  from get_semantic(2) [OF this assms(1,3)] show ?thesis .
qed

text \<open>What is in memory is answered after its row was deleted as well as before.\<close>

theorem deleted_row_answered:
  assumes "fst (in_memory env True (lru_get now sig) s) = Some v"
  shows "fst (getCachedResponse env num parse now True sig (snd (deleteSemanticCacheBySignature sig' s))) = Some (cv_response v)"
    and "fst (getCachedResponse env num parse now True sig (snd (deleteSemanticCacheByModel model s))) = Some (cv_response v)"
proof -
  have "fst (in_memory env True (lru_get now sig) (snd (delete_rows True D s))) = fst (in_memory env True (lru_get now sig) s)" for D
    by (auto simp: in_memory_def getMemoryCache_def delete_rows_def split_beta Let_def ensureCacheMetricsTable_def split: option.split)
  then show "fst (getCachedResponse env num parse now True sig (snd (deleteSemanticCacheBySignature sig' s))) = Some (cv_response v)"
    "fst (getCachedResponse env num parse now True sig (snd (deleteSemanticCacheByModel model s))) = Some (cv_response v)"
    using assms by (simp_all add: getCachedResponse_def deleteSemanticCacheBySignature_def deleteSemanticCacheByModel_def split_beta)
qed

text \<open>
  The bound is reached: a response stored for ten seconds is read from the table in its last millisecond and is then
  answered from the memory for half an hour more.
\<close>

definition one_text :: "string \<Rightarrow> json_value option" where
  "one_text t = (if t = ''{}'' then Some (V_object []) else None)"

definition late_run :: "(int \<times> semantic_event) list" where
  "late_run = [(0, Sem_set ''u'' ''s'' ''m'' (V_object []) 0 10000), (1, Sem_clear_memory), (9999, Sem_get ''s'')]"

lemma default_ttl_plain: "lc_defaultTTL (new_memory (\<lambda>_. None)) = Some 1800000"
  by (simp add: new_memory_def new_lru_def option_or_def env_int_def js_parseInt_def parse_digits_def js_space_def js_digit_def)

lemma plain_env: "env_int (\<lambda>_. None) ''SEMANTIC_CACHE_MAX_SIZE'' ''50'' = Some 50"
    "env_int (\<lambda>_. None) ''SEMANTIC_CACHE_MAX_BYTES'' (decimal n) = Some (int n)"
    "entry_ttl (\<lambda>_. None) ttl = Some ttl"
  by (simp_all add: env_int_def entry_ttl_def parse_int_text parse_decimal)
     (simp add: js_parseInt_def parse_digits_def js_space_def js_digit_def)

lemma plain_memory: "new_memory (\<lambda>_. None) = \<lparr>lc_cache = [], lc_maxSize = Some 50, lc_maxBytes = Some 2097152, lc_defaultTTL = Some 1800000,
   lc_currentSize = 0, lc_currentBytes = 0, lc_hits = 0, lc_misses = 0, lc_evictions = 0\<rparr>"
  using default_ttl_plain plain_env(1) plain_env(2) [of "2 * 1024 * 1024"] by (simp add: new_memory_def new_lru_def option_or_def)

lemma empty_text: "cached_text (\<lambda>_. ''0'') \<lparr>cv_response = V_object [], cv_tokens = 0\<rparr> = Some ''{\"response\":{},\"tokensSaved\":0}''"
  by (simp add: cached_text_def quoted_def escape_char_def)

text \<open>The states of that run.\<close>

definition late_memory :: "int \<Rightarrow> int \<Rightarrow> nat \<Rightarrow> cached_value lru_cache" where
  "late_memory made ttl misses = \<lparr>lc_cache = [(''s'', \<lparr>le_key = ''s'', le_value = \<lparr>cv_response = V_object [], cv_tokens = 0\<rparr>,
             le_createdAt = made, le_ttl = Some ttl, le_size = 62, le_hits = 0\<rparr>)],
        lc_maxSize = Some 50, lc_maxBytes = Some 2097152,
        lc_defaultTTL = Some 1800000, lc_currentSize = 1,
        lc_currentBytes = 62, lc_hits = 0, lc_misses = misses, lc_evictions = 0\<rparr>"

definition late_row :: "nat \<Rightarrow> semantic_row" where
 "late_row hits = \<lparr>sr_id = ''u'', sr_signature = ''s'', sr_model = ''m'',
          sr_promptHash = ''s'', sr_response = ''{}'', sr_tokensSaved = 0,
          sr_hitCount = hits, sr_createdAt = 0, sr_expiresAt = 10000\<rparr>"

lemma stored_once: "semantic_apply (\<lambda>_. None) (\<lambda>_. ''0'') one_text 0 (Sem_set ''u'' ''s'' ''m'' (V_object []) 0 10000) new_semantic
  = \<lparr>sm_memory = Some (late_memory 0 10000 0), sm_rows = [late_row 0], sm_metrics = Some \<lparr>cm_hits = 0, cm_misses = 0, cm_tokensSaved = 0\<rparr>\<rparr>"
  by (simp add: new_semantic_def setCachedResponse_def plain_env in_memory_def getMemoryCache_def Let_def plain_memory
        ensureCacheMetricsTable_def lru_set_def estimateSize_def empty_text late_memory_def late_row_def evict_loop.simps over_limit_def)

lemma memory_cleared: "semantic_apply (\<lambda>_. None) (\<lambda>_. ''0'') one_text 1 Sem_clear_memory
    \<lparr>sm_memory = Some (late_memory 0 10000 0), sm_rows = rs, sm_metrics = ms\<rparr>
  = \<lparr>sm_memory = Some ((late_memory 0 10000 0)\<lparr>lc_cache := [], lc_currentSize := 0, lc_currentBytes := 0\<rparr>), sm_rows = rs, sm_metrics = ms\<rparr>"
  by (simp add: clearMemoryCache_def in_memory_def getMemoryCache_def lru_clear_def)

lemma read_again: "semantic_apply (\<lambda>_. None) (\<lambda>_. ''0'') one_text 9999 (Sem_get ''s'')
    \<lparr>sm_memory = Some ((late_memory 0 10000 0)\<lparr>lc_cache := [], lc_currentSize := 0, lc_currentBytes := 0\<rparr>), sm_rows = [late_row 0],
     sm_metrics = Some \<lparr>cm_hits = 0, cm_misses = 0, cm_tokensSaved = 0\<rparr>\<rparr>
  = \<lparr>sm_memory = Some (late_memory 9999 1800000 1), sm_rows = [late_row 1], sm_metrics = Some \<lparr>cm_hits = 1, cm_misses = 0, cm_tokensSaved = 0\<rparr>\<rparr>"
  by (simp add: getCachedResponse_def in_memory_def getMemoryCache_def lru_get_def Let_def late_memory_def late_row_def one_text_def
      lru_set_def estimateSize_def empty_text evict_loop.simps over_limit_def row_hit_def count_hit_def incrementMetric_def)

lemma late_state: "fst (foldl (semantic_step (\<lambda>_. None) (\<lambda>_. ''0'') one_text) (new_semantic, Map.empty) late_run)
  = \<lparr>sm_memory = Some (late_memory 9999 1800000 1), sm_rows = [late_row 1], sm_metrics = Some \<lparr>cm_hits = 1, cm_misses = 0, cm_tokensSaved = 0\<rparr>\<rparr>"
  by (simp add: late_run_def semantic_step_def stored_once memory_cleared read_again del: semantic_apply.simps)

lemma late_hit: "fst (getCachedResponse (\<lambda>_. None) (\<lambda>_. ''0'') one_text 1809999 True ''s''
     (fst (foldl (semantic_step (\<lambda>_. None) (\<lambda>_. ''0'') one_text) (new_semantic, Map.empty) late_run))) = Some (V_object [])"
  unfolding late_state
  by (simp add: getCachedResponse_def in_memory_def getMemoryCache_def lru_get_def late_memory_def entry_expired_def)

theorem cached_answer_current_witness:
  "fst (getCachedResponse (\<lambda>_. None) (\<lambda>_. ''0'') one_text 1809999 True ''s''
     (fst (foldl (semantic_step (\<lambda>_. None) (\<lambda>_. ''0'') one_text) (new_semantic, Map.empty) late_run))) = Some (V_object [])
   \<and> (\<exists>z. snd (foldl (semantic_step (\<lambda>_. None) (\<lambda>_. ''0'') one_text) (new_semantic, Map.empty) late_run) ''s'' = Some z
      \<and> V_object [] = st_response z \<and> 1809999 \<le> st_at z + st_ttl z + max 0 1800000)"
proof -
  have "list_all (\<lambda>ev. reads_back (\<lambda>_. ''0'') one_text (snd ev)) late_run" by (simp add: late_run_def one_text_def)
  from cached_answer_current [OF default_ttl_plain this late_hit] late_hit show ?thesis by blast
qed

end
