(* ===== verification/RequestDedup.thy ===== *)
theory RequestDedup
  imports JsonText
begin

text \<open>
  Sharing of identical requests that run at the same time, \<^verbatim>\<open>src/open-sse/services/requestDedup.ts\<close>: the hash of a
  request, and the map from hashes to the promises of running calls. A call and its promise have one number.
  Outcomes are values (right) or errors (left).
\<close>

definition MAX_INFLIGHT :: nat where "MAX_INFLIGHT = 1000"

record dedup_config =
  dc_enabled :: bool
  dc_maxTemperature :: real
  dc_timeoutMs :: int

definition DEFAULT_DEDUP_CONFIG :: dedup_config where
  "DEFAULT_DEDUP_CONFIG = \<lparr>dc_enabled = True, dc_maxTemperature = 1 / 10, dc_timeoutMs = 60000\<rparr>"

subsection \<open>The hash of a request\<close>

type_synonym json_object = "(string \<times> json_value) list"

fun asRecord :: "json_value option \<Rightarrow> json_object option" where
  "asRecord (Some (V_object ps)) = Some ps"
| "asRecord _ = None"

definition or_null :: "json_value option \<Rightarrow> json_value" where
  "or_null v = nullish v V_null"

text \<open>The first of several readings that is defined.\<close>

fun first_defined :: "json_value option list \<Rightarrow> json_value option" where
  "first_defined [] = None"
| "first_defined (None # vs) = first_defined vs"
| "first_defined (Some v # vs) = Some v"

definition nested_prop :: "json_object option \<Rightarrow> string \<Rightarrow> json_value option" where
  "nested_prop r n = (case r of Some ps \<Rightarrow> prop_of ps n | None \<Rightarrow> None)"

definition kiro_content :: "json_object \<Rightarrow> json_value option" where
  "kiro_content body =
     (case asRecord (prop_of body ''conversationState'') of
        None \<Rightarrow> None
      | Some cs \<Rightarrow>
          let userInputMessage = asRecord (nested_prop (asRecord (prop_of cs ''currentMessage'')) ''userInputMessage'') in
          if userInputMessage \<noteq> None \<or> prop_of cs ''history'' \<noteq> None
          then Some (V_object [(''content'', or_null (nested_prop userInputMessage ''content'')), (''history'', or_null (prop_of cs ''history''))])
          else None)"

definition extractPromptContent :: "json_object \<Rightarrow> json_value" where
  "extractPromptContent body =
     or_null (first_defined [prop_of body ''messages'', prop_of body ''contents'', prop_of body ''input'',
       nested_prop (asRecord (prop_of body ''request'')) ''contents'', kiro_content body])"

definition extractSystemContent :: "json_object \<Rightarrow> json_value" where
  "extractSystemContent body =
     or_null (first_defined [prop_of body ''system'', prop_of body ''instructions'', prop_of body ''systemInstruction'',
       nested_prop (asRecord (prop_of body ''request'')) ''systemInstruction''])"

fun number_or_one :: "json_value option \<Rightarrow> real" where
  "number_or_one (Some (V_number r)) = r"
| "number_or_one _ = 1"

definition canonical :: "json_object \<Rightarrow> json_value" where
  "canonical body =
     V_object [(''model'', or_null (prop_of body ''model'')),
       (''messages'', extractPromptContent body),
       (''system'', extractSystemContent body),
       (''temperature'', V_number (number_or_one (prop_of body ''temperature''))),
       (''tools'', or_null (prop_of body ''tools'')),
       (''tool_choice'', or_null (prop_of body ''tool_choice'')),
       (''max_tokens'', or_null (prop_of body ''max_tokens'')),
       (''response_format'', or_null (prop_of body ''response_format'')),
       (''top_p'', or_null (prop_of body ''top_p'')),
       (''frequency_penalty'', or_null (prop_of body ''frequency_penalty'')),
       (''presence_penalty'', or_null (prop_of body ''presence_penalty''))]"

definition short_digest :: "(real \<Rightarrow> string) \<Rightarrow> (string \<Rightarrow> string) \<Rightarrow> json_object \<Rightarrow> string" where
  "short_digest num sha256_hex body = take 16 (sha256_hex (stringify num (canonical body)))"

definition computeRequestHash :: "(real \<Rightarrow> string) \<Rightarrow> (string \<Rightarrow> string) \<Rightarrow> json_object \<Rightarrow> string option \<Rightarrow> string" where
  "computeRequestHash num sha256_hex body tenantId =
     (let digest = short_digest num sha256_hex body; k = nullish tenantId [] in
      if k = [] then digest else k @ ''.'' @ digest)"

definition shouldDeduplicate :: "json_object \<Rightarrow> dedup_config \<Rightarrow> bool" where
  "shouldDeduplicate body config =
     (if \<not> dc_enabled config then False
      else if prop_of body ''stream'' = Some (V_bool True) then False
      else \<not> dc_maxTemperature config < number_or_one (prop_of body ''temperature''))"

subsection \<open>Calls\<close>

text \<open>
  \<open>dd_running\<close> are the calls whose function runs under a shared promise, with their hashes; \<open>dd_timers\<close> their
  timers; \<open>dd_joined\<close> pairs each caller that waits with the call it waits for; \<open>dd_alone\<close> are calls made with sharing
  switched off. \<open>dd_answers\<close> is what callers got, with whether it was shared; \<open>dd_unhandled\<close> are the shared promises
  that were rejected while nobody waited for them.
\<close>

record ('e, 'r) dedup =
  dd_inflight :: "(string, nat) js_map"
  dd_running :: "(nat, string) js_map"
  dd_timers :: "nat list"
  dd_joined :: "(nat \<times> nat) list"
  dd_alone :: "nat list"
  dd_answers :: "(nat \<times> ('e + 'r) \<times> bool) list"
  dd_unhandled :: "nat list"
  dd_next :: nat

definition drop_first :: "(string, nat) js_map \<Rightarrow> (string, nat) js_map" where
  "drop_first m = (case m of [] \<Rightarrow> [] | (k, _) # _ \<Rightarrow> map_delete k m)"

text \<open>From the call to its first \<open>await\<close>.\<close>

definition dedup_begin :: "string \<Rightarrow> dedup_config \<Rightarrow> ('e, 'r) dedup \<Rightarrow> ('e, 'r) dedup" where
  "dedup_begin h config s =
     (let n = dd_next s; s0 = s\<lparr>dd_next := n + 1\<rparr> in
      if \<not> dc_enabled config then s0\<lparr>dd_alone := dd_alone s @ [n]\<rparr>
      else case map_get (dd_inflight s) h of
        Some p \<Rightarrow> s0\<lparr>dd_joined := dd_joined s @ [(n, p)]\<rparr>
      | None \<Rightarrow>
          let m = (if MAX_INFLIGHT \<le> length (dd_inflight s) then drop_first (dd_inflight s) else dd_inflight s) in
          s0\<lparr>dd_inflight := map_set h n m,
             dd_running := map_set n h (dd_running s),
             dd_timers := dd_timers s @ [n]\<rparr>)"

definition delete_own :: "string \<Rightarrow> nat \<Rightarrow> (string, nat) js_map \<Rightarrow> (string, nat) js_map" where
  "delete_own h n m = (if map_get m h = Some n then map_delete h m else m)"

definition dedup_timer :: "nat \<Rightarrow> ('e, 'r) dedup \<Rightarrow> ('e, 'r) dedup" where
  "dedup_timer n s =
     (case map_get (dd_running s) n of
        None \<Rightarrow> s
      | Some h \<Rightarrow>
          if n \<in> set (dd_timers s)
          then s\<lparr>dd_timers := removeAll n (dd_timers s), dd_inflight := delete_own h n (dd_inflight s)\<rparr>
          else s)"

text \<open>The function of a call has ended: the caller, and everyone who waits, gets its outcome.\<close>

definition waiting_for :: "nat \<Rightarrow> (nat \<times> nat) list \<Rightarrow> nat list" where
  "waiting_for n js = map fst (filter (\<lambda>(c, p). p = n) js)"

definition dedup_settle :: "nat \<Rightarrow> ('e + 'r) \<Rightarrow> ('e, 'r) dedup \<Rightarrow> ('e, 'r) dedup" where
  "dedup_settle n outcome s =
     (case map_get (dd_running s) n of
        Some h \<Rightarrow>
          let ws = waiting_for n (dd_joined s) in
          s\<lparr>dd_answers := dd_answers s @ (n, outcome, False) # map (\<lambda>c. (c, outcome, True)) ws,
            dd_joined := filter (\<lambda>(c, p). p \<noteq> n) (dd_joined s),
            dd_running := map_delete n (dd_running s),
            dd_timers := removeAll n (dd_timers s),
            dd_inflight := delete_own h n (dd_inflight s),
            dd_unhandled := (case outcome of Inl _ \<Rightarrow> if ws = [] then dd_unhandled s @ [n] else dd_unhandled s | Inr _ \<Rightarrow> dd_unhandled s)\<rparr>
      | None \<Rightarrow>
          if n \<in> set (dd_alone s)
          then s\<lparr>dd_answers := dd_answers s @ [(n, outcome, False)], dd_alone := remove1 n (dd_alone s)\<rparr>
          else s)"

definition getInflightCount :: "('e, 'r) dedup \<Rightarrow> nat" where "getInflightCount s = length (dd_inflight s)"
definition getInflightHashes :: "('e, 'r) dedup \<Rightarrow> string list" where "getInflightHashes s = map fst (dd_inflight s)"
definition clearInflight :: "('e, 'r) dedup \<Rightarrow> ('e, 'r) dedup" where "clearInflight s = s\<lparr>dd_inflight := []\<rparr>"

datatype ('e, 'r) dedup_event =
    Dd_begin string dedup_config
  | Dd_timer nat
  | Dd_settle nat "'e + 'r"
  | Dd_clear

text \<open>
  A run keeps besides the hash of every call and the calls that lost their place in the map before they ended: to their
  timer, to a newer call when the map was full, or to \<open>clearInflight\<close>.
\<close>

record ('e, 'r) dedup_run =
  dr_state :: "('e, 'r) dedup"
  dr_hash :: "nat \<Rightarrow> string"
  dr_lost :: "nat set"

fun dedup_apply :: "('e, 'r) dedup_event \<Rightarrow> ('e, 'r) dedup \<Rightarrow> ('e, 'r) dedup" where
  "dedup_apply (Dd_begin h config) s = dedup_begin h config s"
| "dedup_apply (Dd_timer n) s = dedup_timer n s"
| "dedup_apply (Dd_settle n outcome) s = dedup_settle n outcome s"
| "dedup_apply Dd_clear s = clearInflight s"

text \<open>The calls that lose their place in a step.\<close>

definition losing :: "('e, 'r) dedup \<Rightarrow> ('e, 'r) dedup \<Rightarrow> nat set" where
  "losing s s' = {n. \<exists>h. map_get (dd_inflight s) h = Some n \<and> map_get (dd_inflight s') h \<noteq> Some n \<and> map_get (dd_running s') n \<noteq> None}"

definition dedup_step :: "('e, 'r) dedup_run \<Rightarrow> ('e, 'r) dedup_event \<Rightarrow> ('e, 'r) dedup_run" where
  "dedup_step r ev =
     (let s = dr_state r; s' = dedup_apply ev s in
      \<lparr>dr_state = s',
       dr_hash = (case ev of Dd_begin h _ \<Rightarrow> (dr_hash r)(dd_next s := h) | _ \<Rightarrow> dr_hash r),
       dr_lost = dr_lost r \<union> losing s s'\<rparr>)"

definition dedup_start :: "('e, 'r) dedup_run" where
  "dedup_start = \<lparr>dr_state = \<lparr>dd_inflight = [], dd_running = [], dd_timers = [], dd_joined = [], dd_alone = [], dd_answers = [],
     dd_unhandled = [], dd_next = 0\<rparr>, dr_hash = (\<lambda>_. []), dr_lost = {}\<rparr>"

subsection \<open>Invariants\<close>

definition shares :: "('e, 'r) dedup \<Rightarrow> (nat \<Rightarrow> string) \<Rightarrow> nat set \<Rightarrow> bool" where
  "shares s hash lost \<longleftrightarrow>
     map_wf (dd_inflight s) \<and> map_wf (dd_running s) \<and> length (dd_inflight s) \<le> MAX_INFLIGHT
     \<and> (\<forall>h n. map_get (dd_inflight s) h = Some n \<longrightarrow> map_get (dd_running s) n = Some h)
     \<and> (\<forall>n h. map_get (dd_running s) n = Some h \<longrightarrow> n < dd_next s \<and> hash n = h \<and> (n \<in> lost \<or> map_get (dd_inflight s) h = Some n))
     \<and> (\<forall>(c, p) \<in> set (dd_joined s). c < dd_next s \<and> map_get (dd_running s) p = Some (hash c))
     \<and> (\<forall>c \<in> set (dd_alone s). c < dd_next s)"

definition answered :: "('e, 'r) dedup \<Rightarrow> (nat \<Rightarrow> string) \<Rightarrow> bool" where
  "answered s hash \<longleftrightarrow>
     (\<forall>(c, o', shared) \<in> set (dd_answers s). c < dd_next s \<and> (shared \<longrightarrow> (\<exists>p. (p, o', False) \<in> set (dd_answers s) \<and> hash p = hash c)))"

definition callers :: "('e, 'r) dedup \<Rightarrow> nat multiset" where
  "callers s = mset (map fst (dd_answers s)) + mset (map fst (dd_running s)) + mset (map fst (dd_joined s)) + mset (dd_alone s)"

definition dedup_ok :: "('e, 'r) dedup_run \<Rightarrow> bool" where
  "dedup_ok r \<longleftrightarrow> shares (dr_state r) (dr_hash r) (dr_lost r) \<and> answered (dr_state r) (dr_hash r)
     \<and> callers (dr_state r) = mset [0..<dd_next (dr_state r)]"

lemma answeredD:
  assumes "answered s hash" and "(c, o', shared) \<in> set (dd_answers s)"
  shows "c < dd_next s" and "shared \<Longrightarrow> \<exists>p. (p, o', False) \<in> set (dd_answers s) \<and> hash p = hash c"
  using bspec [OF assms(1) [unfolded answered_def] assms(2)] by auto

lemma drop_first_get: "map_wf m \<Longrightarrow> map_get (drop_first m) h = Some n \<Longrightarrow> map_get m h = Some n"
  by (cases m) (auto simp: drop_first_def split: if_splits)

lemma drop_first_wf: "map_wf m \<Longrightarrow> map_wf (drop_first m)"
  by (auto simp: drop_first_def map_delete_absent map_of_eq_None_iff split: list.split)

lemma drop_first_length: "map_wf m \<Longrightarrow> m \<noteq> [] \<Longrightarrow> Suc (length (drop_first m)) = length m"
  by (auto simp: drop_first_def map_delete_absent map_of_eq_None_iff split: list.split)

lemma drop_first_absent: "map_get m h = None \<Longrightarrow> map_get (drop_first m) h = None"
  by (auto simp: drop_first_def split: list.splits if_splits)

lemma delete_own_get: "map_get (delete_own h n m) k = (if k = h \<and> map_get m h = Some n then None else map_get m k)"
  by (simp add: delete_own_def)

lemma delete_own_wf: "map_wf m \<Longrightarrow> map_wf (delete_own h n m)"
  by (simp add: delete_own_def map_wf_delete)

lemma delete_own_length: "length (delete_own h n m) \<le> length m"
  by (simp add: delete_own_def length_delete_le)

lemma mset_keys_delete: "map_wf m \<Longrightarrow> map_of m k \<noteq> None \<Longrightarrow> mset (map fst m) = add_mset k (mset (map fst (map_delete k m)))"
proof -
  assume wf: "map_wf m" and "map_of m k \<noteq> None"
  then have k: "k \<in> set (map fst m)" by (simp add: map_of_eq_None_iff)
  have "map fst (map_delete k m) = remove1 k (map fst m)" by (simp only: delete_keys distinct_remove1_removeAll [OF wf])
  then show ?thesis using k by (simp add: insert_DiffM)
qed

lemma mset_waiting: "mset (map fst js) = mset (waiting_for n js) + mset (map fst (filter (\<lambda>(c, p). p \<noteq> n) js))"
  by (induction js) (auto simp: waiting_for_def)

lemma sharesD:
  assumes "shares s hash lost"
  shows "map_wf (dd_inflight s)" and "map_wf (dd_running s)" and "length (dd_inflight s) \<le> MAX_INFLIGHT"
    and "map_get (dd_inflight s) h = Some n \<Longrightarrow> map_get (dd_running s) n = Some h"
    and "map_get (dd_running s) n = Some h \<Longrightarrow> n < dd_next s"
    and "map_get (dd_running s) n = Some h \<Longrightarrow> hash n = h"
    and "map_get (dd_running s) n = Some h \<Longrightarrow> n \<notin> lost \<Longrightarrow> map_get (dd_inflight s) h = Some n"
    and "(c, p) \<in> set (dd_joined s) \<Longrightarrow> c < dd_next s"
    and "(c, p) \<in> set (dd_joined s) \<Longrightarrow> map_get (dd_running s) p = Some (hash c)"
    and "c \<in> set (dd_alone s) \<Longrightarrow> c < dd_next s"
  using assms unfolding shares_def by blast+

lemma sharesI:
  assumes "map_wf (dd_inflight s)" and "map_wf (dd_running s)" and "length (dd_inflight s) \<le> MAX_INFLIGHT"
    and "\<And>h n. map_get (dd_inflight s) h = Some n \<Longrightarrow> map_get (dd_running s) n = Some h"
    and "\<And>h n. map_get (dd_running s) n = Some h \<Longrightarrow> n < dd_next s"
    and "\<And>h n. map_get (dd_running s) n = Some h \<Longrightarrow> hash n = h"
    and "\<And>h n. map_get (dd_running s) n = Some h \<Longrightarrow> n \<notin> lost \<Longrightarrow> map_get (dd_inflight s) h = Some n"
    and "\<And>c p. (c, p) \<in> set (dd_joined s) \<Longrightarrow> c < dd_next s"
    and "\<And>c p. (c, p) \<in> set (dd_joined s) \<Longrightarrow> map_get (dd_running s) p = Some (hash c)"
    and "\<And>c. c \<in> set (dd_alone s) \<Longrightarrow> c < dd_next s"
  shows "shares s hash lost"
  using assms unfolding shares_def by blast

lemma not_losing:
  "n \<notin> losing s s' \<Longrightarrow> map_get (dd_inflight s) h = Some n \<Longrightarrow> map_get (dd_running s') n = Some k \<Longrightarrow> map_get (dd_inflight s') h = Some n"
  by (auto simp: losing_def)

lemma shares_calls:
  assumes "shares s hash lost" and same: "dd_inflight s' = dd_inflight s" "dd_running s' = dd_running s"
    and "dd_next s \<le> dd_next s'" and "\<And>n. n < dd_next s \<Longrightarrow> hash' n = hash n"
    and joined: "\<And>c p. (c, p) \<in> set (dd_joined s') \<Longrightarrow> c < dd_next s' \<and> map_get (dd_running s) p = Some (hash' c)"
    and alone: "\<And>c. c \<in> set (dd_alone s') \<Longrightarrow> c < dd_next s'"
  shows "shares s' hash' (lost \<union> X)"
proof (rule sharesI)
  note D = sharesD [OF assms(1)]
  show "map_wf (dd_inflight s')" "map_wf (dd_running s')" "length (dd_inflight s') \<le> MAX_INFLIGHT"
    using D(1-3) unfolding same by blast+
  show "map_get (dd_running s') n = Some h" if "map_get (dd_inflight s') h = Some n" for h n
    using D(4) that unfolding same by blast
  fix h n
  assume "map_get (dd_running s') n = Some h"
  then have r: "map_get (dd_running s) n = Some h" unfolding same .
  show "n < dd_next s'" using D(5) [OF r] assms(4) by linarith
  show "hash' n = h" using D(5,6) [OF r] assms(5) by metis
  show "map_get (dd_inflight s') h = Some n" if "n \<notin> lost \<union> X" using D(7) [OF r] that unfolding same by blast
next
  show "c < dd_next s'" "map_get (dd_running s') p = Some (hash' c)" if "(c, p) \<in> set (dd_joined s')" for c p
    using joined [OF that] unfolding same by blast+
qed (rule alone)

lemma shares_same:
  assumes "shares s hash lost" and "dd_inflight s' = dd_inflight s" and "dd_running s' = dd_running s" and "dd_joined s' = dd_joined s"
    and "set (dd_alone s') \<subseteq> set (dd_alone s)" and "dd_next s' = dd_next s"
  shows "shares s' hash (lost \<union> X)"
  using assms(2,3)
proof (rule shares_calls [OF assms(1)])
  show "c < dd_next s' \<and> map_get (dd_running s) p = Some (hash c)" if "(c, p) \<in> set (dd_joined s')" for c p
    using sharesD(8,9) [OF assms(1)] that unfolding assms(4,6) by blast
  show "c < dd_next s'" if "c \<in> set (dd_alone s')" for c
    using sharesD(10) [OF assms(1)] that assms(5) unfolding assms(6) by blast
qed (simp_all add: assms(6))

text \<open>Beginning a call.\<close>

lemma begin_new:
  assumes "shares s hash lost"
  shows "map_get (dd_running s) (dd_next s) = None"
  using sharesD(5) [OF assms] by (metis less_irrefl not_None_eq)

lemma begin_shares:
  fixes s :: "('e, 'r) dedup" and h :: string and config :: dedup_config
  assumes "shares s hash lost"
  defines "s' \<equiv> dedup_begin h config s"
  shows "shares s' (hash(dd_next s := h)) (lost \<union> losing s s')"
proof -
  let ?n = "dd_next s" and ?hash = "hash(dd_next s := h)"
  note D = sharesD [OF assms(1)]
  note new = begin_new [OF assms(1)]
  have run: "k < Suc ?n" "?hash k = j" if "map_get (dd_running s) k = Some j" for k j
    using D(5,6) [OF that] by simp_all
  have joined: "c < Suc ?n" "map_get (dd_running s) p = Some (?hash c)" if "(c, p) \<in> set (dd_joined s)" for c p
    using D(8,9) [OF that] by simp_all
  have alone: "c < Suc ?n" if "c \<in> set (dd_alone s)" for c using D(10) [OF that] by simp
  consider "\<not> dc_enabled config" | p where "dc_enabled config" "map_get (dd_inflight s) h = Some p" | "dc_enabled config" "map_get (dd_inflight s) h = None"
    by blast
  then show ?thesis
  proof cases
    case 1
    then have s': "s' = s\<lparr>dd_next := ?n + 1, dd_alone := dd_alone s @ [?n]\<rparr>" by (simp add: s'_def dedup_begin_def Let_def)
    show ?thesis
    proof (rule shares_calls [OF assms(1)])
      show "c < dd_next s' \<and> map_get (dd_running s) p = Some (?hash c)" if "(c, p) \<in> set (dd_joined s')" for c p
        using joined that by (simp add: s')
      show "c < dd_next s'" if "c \<in> set (dd_alone s')" for c using alone that by (auto simp: s')
    qed (simp_all add: s')
  next
    case (2 p)
    have p: "map_get (dd_running s) p = Some h" using D(4) 2(2) by blast
    from 2 have s': "s' = s\<lparr>dd_next := ?n + 1, dd_joined := dd_joined s @ [(?n, p)]\<rparr>" by (simp add: s'_def dedup_begin_def Let_def)
    show ?thesis
    proof (rule shares_calls [OF assms(1)])
      show "c < dd_next s' \<and> map_get (dd_running s) q = Some (?hash c)" if "(c, q) \<in> set (dd_joined s')" for c q
      proof (cases "(c, q) \<in> set (dd_joined s)")
        case True
        then show ?thesis using joined by (simp add: s')
      next
        case False
        then have "c = ?n" "q = p" using that by (simp_all add: s')
        then show ?thesis using p by (simp add: s')
      qed
      show "c < dd_next s'" if "c \<in> set (dd_alone s')" for c using alone that by (simp add: s')
    qed (simp_all add: s')
  next
    case 3
    define m where "m = (if MAX_INFLIGHT \<le> length (dd_inflight s) then drop_first (dd_inflight s) else dd_inflight s)"
    have m_wf: "map_wf m" using D(1) by (simp add: m_def drop_first_wf)
    have m_get: "map_get (dd_inflight s) k = Some n" if "map_get m k = Some n" for k n
      using that drop_first_get [OF D(1)] unfolding m_def by (metis (full_types))
    have m_h: "map_get m h = None" using 3 by (simp add: m_def drop_first_absent)
    have m_len: "length m < MAX_INFLIGHT"
    proof (cases "dd_inflight s")
      case Nil
      then show ?thesis by (simp add: m_def MAX_INFLIGHT_def)
    next
      case (Cons x xs)
      then have "Suc (length (drop_first (dd_inflight s))) = length (dd_inflight s)" by (intro drop_first_length [OF D(1)]) simp
      then show ?thesis using D(3) by (simp add: m_def)
    qed
    have s': "dd_inflight s' = map_set h ?n m" "dd_running s' = map_set ?n h (dd_running s)" "dd_joined s' = dd_joined s"
        "dd_alone s' = dd_alone s" "dd_next s' = Suc ?n"
      using 3 by (simp_all add: s'_def dedup_begin_def m_def Let_def)
    show ?thesis
    proof (rule sharesI)
      show "map_wf (dd_inflight s')" "map_wf (dd_running s')" using m_wf D(2) unfolding s' by (simp_all add: map_wf_set)
      show "length (dd_inflight s') \<le> MAX_INFLIGHT" using m_len by (simp add: s' length_set_fresh [OF m_h])
    next
      fix k n
      assume i: "map_get (dd_inflight s') k = Some n"
      show "map_get (dd_running s') n = Some k"
      proof (cases "k = h")
        case True
        then show ?thesis using i by (simp add: s')
      next
        case False
        then have "map_get (dd_running s) n = Some k" using i m_get D(4) by (simp add: s' del: map_of_eq_Some_iff)
        moreover from this new have "n \<noteq> ?n" by auto
        ultimately show ?thesis by (simp add: s' del: map_of_eq_Some_iff)
      qed
    next
      fix n k
      assume r: "map_get (dd_running s') k = Some n"
      then have old: "k \<noteq> ?n \<Longrightarrow> map_get (dd_running s) k = Some n" by (simp add: s' del: map_of_eq_Some_iff)
      show "k < dd_next s'" using old run(1) by (cases "k = ?n") (simp_all add: s' del: map_of_eq_Some_iff)
      show "?hash k = n"
      proof (cases "k = ?n")
        case True
        then show ?thesis using r by (simp add: s')
      next
        case False
        then show ?thesis by (rule run(2) [OF old])
      qed
      assume l: "k \<notin> lost \<union> losing s s'"
      show "map_get (dd_inflight s') n = Some k"
      proof (cases "k = ?n")
        case True
        then show ?thesis using r by (simp add: s')
      next
        case False
        then have "map_get (dd_inflight s) n = Some k" using old D(7) l by blast
        then show ?thesis using not_losing l r by blast
      qed
    next
      fix c p
      assume "(c, p) \<in> set (dd_joined s')"
      then have j: "(c, p) \<in> set (dd_joined s)" by (simp add: s')
      show "c < dd_next s'" using joined(1) [OF j] by (simp add: s')
      have "p \<noteq> ?n" using joined(2) [OF j] new by auto
      then show "map_get (dd_running s') p = Some (?hash c)" using joined(2) [OF j] by (simp add: s' del: fun_upd_apply map_of_eq_Some_iff) simp
    next
      fix c
      assume "c \<in> set (dd_alone s')"
      then show "c < dd_next s'" using alone by (simp add: s')
    qed
  qed
qed

text \<open>Timers, ends of calls and clearing only take away.\<close>

lemma less_inflight:
  assumes "shares s hash lost" and "map_wf (dd_inflight s')" and "length (dd_inflight s') \<le> length (dd_inflight s)"
    and "\<And>h k. map_get (dd_inflight s') h = Some k \<Longrightarrow> map_get (dd_inflight s) h = Some k"
    and "dd_running s' = dd_running s" and "dd_joined s' = dd_joined s" and "dd_alone s' = dd_alone s" and "dd_next s' = dd_next s"
  shows "shares s' hash (lost \<union> losing s s')"
proof (rule sharesI)
  note D = sharesD [OF assms(1)]
  show "map_wf (dd_inflight s')" by (rule assms(2))
  show "length (dd_inflight s') \<le> MAX_INFLIGHT" using assms(3) D(3) by linarith
  show "map_get (dd_running s') n = Some h" if "map_get (dd_inflight s') h = Some n" for h n
    using D(4) [OF assms(4) [OF that]] by (simp only: assms(5))
  show "map_get (dd_inflight s') h = Some n" if "map_get (dd_running s') n = Some h" "n \<notin> lost \<union> losing s s'" for h n
    using D(7) [of n h] that not_losing [of n s s' h h] unfolding assms(5) by blast
  show "map_wf (dd_running s')" using D(2) by (simp only: assms(5))
  show "n < dd_next s'" "hash n = h" if "map_get (dd_running s') n = Some h" for h n
    using D(5,6) that unfolding assms(5,8) by blast+
  show "c < dd_next s'" "map_get (dd_running s') p = Some (hash c)" if "(c, p) \<in> set (dd_joined s')" for c p
    using D(8,9) that unfolding assms(5,6,8) by blast+
  show "c < dd_next s'" if "c \<in> set (dd_alone s')" for c
    using D(10) that unfolding assms(7,8) by blast
qed

lemma timer_shares:
  assumes "shares s hash lost"
  shows "shares (dedup_timer n s) hash (lost \<union> losing s (dedup_timer n s))"
proof (rule less_inflight [OF assms])
  show "map_wf (dd_inflight (dedup_timer n s))" using sharesD(1) [OF assms]
    by (simp add: dedup_timer_def delete_own_wf split: option.split)
  show "length (dd_inflight (dedup_timer n s)) \<le> length (dd_inflight s)"
    by (simp add: dedup_timer_def delete_own_length split: option.split)
  show "map_get (dd_inflight s) h = Some k" if "map_get (dd_inflight (dedup_timer n s)) h = Some k" for h k
    using that by (auto simp: dedup_timer_def delete_own_get simp del: map_of_eq_Some_iff split: option.splits if_splits)
qed (simp_all add: dedup_timer_def split: option.split)

lemma clear_shares:
  assumes "shares s hash lost"
  shows "shares (clearInflight s) hash (lost \<union> losing s (clearInflight s))"
  by (rule less_inflight [OF assms]) (simp_all add: clearInflight_def)

lemma settle_shares:
  assumes "shares s hash lost"
  shows "shares (dedup_settle n o' s) hash (lost \<union> losing s (dedup_settle n o' s))"
proof (cases "map_get (dd_running s) n")
  case None
  then show ?thesis using set_remove1_subset [of n "dd_alone s"]
    by (intro shares_same [OF assms]) (simp_all add: dedup_settle_def)
next
  case (Some h)
  let ?s = "dedup_settle n o' s"
  note D = sharesD [OF assms]
  have s': "dd_inflight ?s = delete_own h n (dd_inflight s)" "dd_running ?s = map_delete n (dd_running s)"
      "dd_joined ?s = filter (\<lambda>(c, p). p \<noteq> n) (dd_joined s)" "dd_alone ?s = dd_alone s" "dd_next ?s = dd_next s"
    by (simp_all add: dedup_settle_def Some Let_def)
  have kept: "map_get (dd_running s) k = Some j" "k \<noteq> n" if "map_get (dd_running ?s) k = Some j" for k j
    using that by (auto simp: s' simp del: map_of_eq_Some_iff split: if_splits)
  show ?thesis
  proof (rule sharesI)
    show "map_wf (dd_inflight ?s)" "map_wf (dd_running ?s)" using D(1,2) by (simp_all add: s' delete_own_wf map_wf_delete)
    show "length (dd_inflight ?s) \<le> MAX_INFLIGHT" using D(3) delete_own_length [of h n "dd_inflight s"] by (simp add: s')
  next
    fix j k
    assume i: "map_get (dd_inflight ?s) j = Some k"
    then have old: "map_get (dd_inflight s) j = Some k" "\<not> (j = h \<and> k = n)"
      by (auto simp: s' delete_own_get simp del: map_of_eq_Some_iff split: if_splits)
    have r: "map_get (dd_running s) k = Some j" by (rule D(4) [OF old(1)])
    then have "k \<noteq> n" using old(2) Some by auto
    then show "map_get (dd_running ?s) k = Some j" using r by (simp add: s' del: map_of_eq_Some_iff)
  next
    fix k j
    assume r: "map_get (dd_running ?s) k = Some j"
    show "k < dd_next ?s" "hash k = j" using D(5,6) [OF kept(1) [OF r]] by (simp_all add: s')
    show "map_get (dd_inflight ?s) j = Some k" if "k \<notin> lost \<union> losing s ?s"
      using D(7) [OF kept(1) [OF r]] not_losing [of k s ?s j j] that r by blast
  next
    fix c p
    assume "(c, p) \<in> set (dd_joined ?s)"
    then have j: "(c, p) \<in> set (dd_joined s)" "p \<noteq> n" by (auto simp: s')
    show "c < dd_next ?s" using D(8) [OF j(1)] by (simp add: s')
    show "map_get (dd_running ?s) p = Some (hash c)" using D(9) [OF j(1)] j(2) by (simp add: s' del: map_of_eq_Some_iff)
  next
    fix c
    assume "c \<in> set (dd_alone ?s)"
    then show "c < dd_next ?s" using D(10) by (simp add: s')
  qed
qed

text \<open>Answers and callers.\<close>

lemma begin_answered:
  assumes "answered s hash"
  shows "answered (dedup_begin h config s) (hash(dd_next s := h))"
proof -
  have a: "dd_answers (dedup_begin h config s) = dd_answers s" "dd_next (dedup_begin h config s) = dd_next s + 1"
    by (auto simp: dedup_begin_def Let_def split: option.split)
  have old: "c < dd_next s" if "(c, x) \<in> set (dd_answers s)" for c x using assms that by (auto simp: answered_def)
  show ?thesis using assms old unfolding answered_def a by (fastforce dest: less_imp_neq)
qed

lemma settle_answered:
  assumes "answered s hash" and "shares s hash lost"
  shows "answered (dedup_settle n o' s) hash"
proof -
  have nx: "dd_next (dedup_settle n o' s) = dd_next s" by (auto simp: dedup_settle_def Let_def split: option.split)
  have waiters: "c < dd_next s \<and> hash n = hash c" if "c \<in> set (waiting_for n (dd_joined s))" "map_get (dd_running s) n = Some h" for c h
    using that sharesD(6,8,9) [OF assms(2)] by (fastforce simp: waiting_for_def simp del: map_of_eq_Some_iff)
  show ?thesis
  proof (cases "map_get (dd_running s) n")
    case None
    show ?thesis
    proof (cases "n \<in> set (dd_alone s)")
      case True
      then have a: "dd_answers (dedup_settle n o' s) = dd_answers s @ [(n, o', False)]" by (simp add: dedup_settle_def None)
      show ?thesis using assms(1) sharesD(10) [OF assms(2) True] unfolding answered_def nx a by fastforce
    next
      case False
      then show ?thesis using assms(1) by (simp add: dedup_settle_def None)
    qed
  next
    case (Some h)
    have n: "n < dd_next s" by (rule sharesD(5) [OF assms(2) Some])
    have a: "dd_answers (dedup_settle n o' s) = dd_answers s @ (n, o', False) # map (\<lambda>c. (c, o', True)) (waiting_for n (dd_joined s))"
      by (simp add: dedup_settle_def Some Let_def)
    show ?thesis using assms(1) n waiters [OF _ Some] unfolding answered_def nx a by fastforce
  qed
qed

lemma other_answered:
  assumes "answered s hash"
  shows "answered (dedup_timer n s) hash" and "answered (clearInflight s) hash"
  using assms by (simp_all add: answered_def dedup_timer_def clearInflight_def split: option.split)

lemma step_callers:
  assumes "shares s hash lost" and "callers s = mset [0..<dd_next s]"
  shows "callers (dedup_apply ev s) = mset [0..<dd_next (dedup_apply ev s)]"
proof (cases ev)
  case (Dd_begin h config)
  note new = begin_new [OF assms(1)]
  have "mset [0..<Suc (dd_next s)] = add_mset (dd_next s) (mset [0..<dd_next s])" by simp
  moreover from new have "map_set (dd_next s) h' (dd_running s) = dd_running s @ [(dd_next s, h')]" for h' by (rule map_set_fresh)
  ultimately show ?thesis using assms(2)
    by (simp add: Dd_begin dedup_begin_def callers_def Let_def del: upt_Suc mset_upt split: option.split)
next
  case (Dd_settle n o')
  show ?thesis
  proof (cases "map_get (dd_running s) n")
    case None
    have "n \<in> set (dd_alone s) \<Longrightarrow> mset (dd_alone s) = add_mset n (mset (remove1 n (dd_alone s)))" by (simp add: insert_DiffM)
    then have "callers (dedup_settle n o' s) = callers s" by (simp add: dedup_settle_def None callers_def)
    moreover have "dd_next (dedup_settle n o' s) = dd_next s" by (simp add: dedup_settle_def None)
    ultimately show ?thesis using assms(2) by (simp add: Dd_settle)
  next
    case (Some h)
    have "map_wf (dd_running s)" using assms(1) by (simp add: shares_def)
    from mset_keys_delete [OF this, of n] Some
    have r: "mset (map fst (dd_running s)) = add_mset n (mset (map fst (map_delete n (dd_running s))))" by simp
    have "callers (dedup_settle n o' s) = callers s"
      using r mset_waiting [of "dd_joined s" n] by (simp add: dedup_settle_def Some Let_def callers_def comp_def)
    moreover have "dd_next (dedup_settle n o' s) = dd_next s" by (simp add: dedup_settle_def Some Let_def)
    ultimately show ?thesis using assms(2) by (simp add: Dd_settle)
  qed
next
  case (Dd_timer n)
  then show ?thesis using assms(2) by (simp add: dedup_timer_def callers_def split: option.split)
next
  case Dd_clear
  then show ?thesis using assms(2) by (simp add: clearInflight_def callers_def)
qed

interpretation dedup: step_invariant dedup_step "\<lambda>_. True" dedup_ok
proof
  fix r :: "('e, 'r) dedup_run" and ev
  assume ok: "dedup_ok r"
  then have s: "shares (dr_state r) (dr_hash r) (dr_lost r)" and a: "answered (dr_state r) (dr_hash r)"
    and c: "callers (dr_state r) = mset [0..<dd_next (dr_state r)]" by (simp_all add: dedup_ok_def)
  show "dedup_ok (dedup_step r ev)"
    using step_callers [OF s c, of ev]
      begin_shares [OF s] timer_shares [OF s] settle_shares [OF s] clear_shares [OF s]
      begin_answered [OF a] settle_answered [OF a s] other_answered [OF a]
    by (cases ev) (simp_all add: dedup_ok_def dedup_step_def Let_def)
qed

lemma dedup_start_ok: "dedup_ok dedup_start"
  by (simp add: dedup_start_def dedup_ok_def shares_def answered_def callers_def MAX_INFLIGHT_def)

lemma dedup_runs_ok: "dedup_ok (foldl dedup_step dedup_start evs)"
  using dedup.run_inv [OF dedup_start_ok] by (simp add: list_all_iff)

subsection \<open>Properties\<close>

text \<open>
  Over any run every caller is in exactly one place: it has its answer, or its own call runs, or it waits for a
  call that runs, or it runs unshared; so none is answered twice and none waits for a call that has ended.
\<close>

theorem every_caller_once:
  "let s = dr_state (foldl dedup_step dedup_start evs) in
   mset (map fst (dd_answers s)) + mset (map fst (dd_running s)) + mset (map fst (dd_joined s)) + mset (dd_alone s) = mset [0..<dd_next s]
   \<and> snd ` set (dd_joined s) \<subseteq> fst ` set (dd_running s)"
proof -
  define r where "r = foldl dedup_step dedup_start evs"
  have ok: "dedup_ok r" unfolding r_def by (rule dedup_runs_ok)
  then have s: "shares (dr_state r) (dr_hash r) (dr_lost r)" by (simp add: dedup_ok_def)
  have "snd ` set (dd_joined (dr_state r)) \<subseteq> fst ` set (dd_running (dr_state r))"
    using sharesD(9) [OF s] by (force dest: map_of_SomeD simp del: map_of_eq_Some_iff)
  then show ?thesis using ok by (simp add: Let_def r_def [symmetric] dedup_ok_def callers_def)
qed

text \<open>
  Of the calls that run at the same time with one hash, all but one have lost their place in the map, to their
  timer, to a newer call when a thousand were on their way, or to clearing: without those, identical requests run once.
\<close>

theorem one_call_per_hash:
  assumes "r = foldl dedup_step dedup_start evs"
    and "map_get (dd_running (dr_state r)) n = Some h" and "map_get (dd_running (dr_state r)) k = Some h"
    and "n \<notin> dr_lost r" and "k \<notin> dr_lost r"
  shows "n = k \<and> getInflightCount (dr_state r) \<le> MAX_INFLIGHT"
proof -
  have s: "shares (dr_state r) (dr_hash r) (dr_lost r)" using dedup_runs_ok [of evs] by (simp add: dedup_ok_def assms(1))
  have "map_get (dd_inflight (dr_state r)) h = Some n" "map_get (dd_inflight (dr_state r)) h = Some k"
    using sharesD(7) [OF s assms(2,4)] sharesD(7) [OF s assms(3,5)] .
  then show ?thesis using sharesD(3) [OF s] by (simp add: getInflightCount_def)
qed

theorem one_call_per_hash_witness:
  "dd_running (dr_state (foldl dedup_step dedup_start
     [Dd_begin ''h'' DEFAULT_DEDUP_CONFIG, Dd_begin ''h'' DEFAULT_DEDUP_CONFIG] :: (string, nat) dedup_run)) = [(0, ''h'')]
   \<and> getInflightCount (dr_state (foldl dedup_step dedup_start
     [Dd_begin ''h'' DEFAULT_DEDUP_CONFIG, Dd_begin ''h'' DEFAULT_DEDUP_CONFIG] :: (string, nat) dedup_run)) \<le> MAX_INFLIGHT"
proof -
  define r :: "(string, nat) dedup_run" where
    "r = foldl dedup_step dedup_start [Dd_begin ''h'' DEFAULT_DEDUP_CONFIG, Dd_begin ''h'' DEFAULT_DEDUP_CONFIG]"
  have r: "dd_running (dr_state r) = [(0, ''h'')]" "dr_lost r = {}"
    by (simp_all add: r_def dedup_step_def dedup_start_def dedup_begin_def DEFAULT_DEDUP_CONFIG_def MAX_INFLIGHT_def losing_def Let_def)
  from one_call_per_hash [OF r_def, of 0 "''h''" 0] r show ?thesis unfolding r_def [symmetric] by simp
qed

lemma canonical_hash:
  assumes "number_texts N num" and "numbers_of (canonical b) \<union> numbers_of (canonical b') \<subseteq> N" and "\<And>x. length (sha256_hex x) = 64"
    and "short_digest num sha256_hex b = short_digest num sha256_hex b' \<Longrightarrow> stringify num (canonical b) = stringify num (canonical b')"
  shows "computeRequestHash num sha256_hex b t = computeRequestHash num sha256_hex b' t'
    \<longleftrightarrow> nullish t [] = nullish t' [] \<and> canonical b = canonical b'"
proof -
  have len: "length (short_digest num sha256_hex x) = 16" for x by (simp add: short_digest_def assms(3))
  have "computeRequestHash num sha256_hex b t = computeRequestHash num sha256_hex b' t'
      \<longleftrightarrow> nullish t [] = nullish t' [] \<and> short_digest num sha256_hex b = short_digest num sha256_hex b'"
    using namespaced_inj [OF len len, of "nullish t []" b "nullish t' []" b'] unfolding computeRequestHash_def Let_def by auto
  also have "short_digest num sha256_hex b = short_digest num sha256_hex b' \<longleftrightarrow> stringify num (canonical b) = stringify num (canonical b')"
    using assms(4) by (auto simp: short_digest_def)
  also have "\<dots> \<longleftrightarrow> canonical b = canonical b'" using assms(2) by (intro stringify_inj [OF assms(1)]) auto
  finally show ?thesis .
qed

text \<open>
  C30: Nobody gets the answer of another tenant or of another request: when the hashes of all calls are those of requests,
  and the digests of these requests do not collide, whoever is answered with a shared outcome is answered with that of a
  call whose tenant and canonical request are its own.
\<close>

theorem answers_stay_with_tenant:
  assumes "number_texts N num" and "\<And>x. length (sha256_hex x) = 64"
    and "\<And>c. c < dd_next (dr_state (foldl dedup_step dedup_start evs))
      \<Longrightarrow> dr_hash (foldl dedup_step dedup_start evs) c = computeRequestHash num sha256_hex (body c) (tenant c)"
    and "\<And>c. numbers_of (canonical (body c)) \<subseteq> N"
    and "\<And>c p. short_digest num sha256_hex (body c) = short_digest num sha256_hex (body p)
      \<Longrightarrow> stringify num (canonical (body c)) = stringify num (canonical (body p))"
    and "(c, outcome, True) \<in> set (dd_answers (dr_state (foldl dedup_step dedup_start evs)))"
  shows "\<exists>p. (p, outcome, False) \<in> set (dd_answers (dr_state (foldl dedup_step dedup_start evs)))
    \<and> nullish (tenant p) [] = nullish (tenant c) [] \<and> canonical (body p) = canonical (body c)"
proof -
  have a: "answered (dr_state (foldl dedup_step dedup_start evs)) (dr_hash (foldl dedup_step dedup_start evs))"
    using dedup_runs_ok [of evs] by (simp add: dedup_ok_def)
  then obtain p where p: "(p, outcome, False) \<in> set (dd_answers (dr_state (foldl dedup_step dedup_start evs)))"
      "dr_hash (foldl dedup_step dedup_start evs) p = dr_hash (foldl dedup_step dedup_start evs) c"
      "p < dd_next (dr_state (foldl dedup_step dedup_start evs))" "c < dd_next (dr_state (foldl dedup_step dedup_start evs))"
    using answeredD(2) [OF a assms(6) TrueI] answeredD(1) [OF a] assms(6) by metis
  have "computeRequestHash num sha256_hex (body p) (tenant p) = computeRequestHash num sha256_hex (body c) (tenant c)"
    using p(2) unfolding assms(3) [OF p(3)] assms(3) [OF p(4)] .
  then have "nullish (tenant p) [] = nullish (tenant c) [] \<and> canonical (body p) = canonical (body c)"
  proof -
    have "numbers_of (canonical (body p)) \<union> numbers_of (canonical (body c)) \<subseteq> N" using assms(4) by simp
    from canonical_hash [OF assms(1) this assms(2) assms(5) [of p c], where t = "tenant p" and t' = "tenant c"] \<open>computeRequestHash _ _ _ _ = _\<close>
    show ?thesis by simp
  qed
  with p(1) show ?thesis by blast
qed

definition small_body :: json_object where "small_body = [(''model'', V_string ''m''), (''temperature'', V_number 0)]"

definition shared_run :: "(string, unit) dedup_event list" where
  "shared_run =
     [Dd_begin (computeRequestHash nat_text (\<lambda>_. replicate 64 CHR ''0'') small_body (Some ''k'')) DEFAULT_DEDUP_CONFIG,
      Dd_begin (computeRequestHash nat_text (\<lambda>_. replicate 64 CHR ''0'') small_body (Some ''k'')) DEFAULT_DEDUP_CONFIG,
      Dd_settle 0 (Inr ())]"

lemma shared_state:
  "dd_answers (dr_state (foldl dedup_step dedup_start shared_run)) = [(0, Inr (), False), (1, Inr (), True)]"
  "dd_next (dr_state (foldl dedup_step dedup_start shared_run)) = 2"
  "c < 2 \<Longrightarrow> dr_hash (foldl dedup_step dedup_start shared_run) c = computeRequestHash nat_text (\<lambda>_. replicate 64 CHR ''0'') small_body (Some ''k'')"
  by (simp_all add: shared_run_def dedup_step_def dedup_start_def dedup_begin_def dedup_settle_def DEFAULT_DEDUP_CONFIG_def
      MAX_INFLIGHT_def waiting_for_def Let_def)

theorem answers_stay_with_tenant_witness:
  "\<exists>p. (p, Inr (), False) \<in> set (dd_answers (dr_state (foldl dedup_step dedup_start shared_run)))
    \<and> nullish (Some ''k'') [] = nullish (Some ''k'') [] \<and> canonical small_body = canonical small_body"
proof -
  have n: "numbers_of (canonical small_body) \<subseteq> \<nat>"
    by (simp add: small_body_def canonical_def prop_of_def or_null_def extractPromptContent_def extractSystemContent_def kiro_content_def nested_prop_def)
  have "(1, Inr (), True) \<in> set (dd_answers (dr_state (foldl dedup_step dedup_start shared_run)))" by (simp add: shared_state)
  from answers_stay_with_tenant [OF nat_texts, of "\<lambda>_. replicate 64 CHR ''0''" shared_run "\<lambda>_. small_body" "\<lambda>_. Some ''k''" 1 "Inr ()"] n this
  show ?thesis by (simp add: shared_state)
qed

text \<open>
  A call that fails while nobody waits for it leaves a rejected promise behind that nobody handles, besides the error
  its own caller gets.
\<close>

theorem failure_left_unhandled:
  assumes "s = dr_state (foldl dedup_step dedup_start evs)"
    and "dc_enabled config" and "map_get (dd_inflight s) h = None"
    and "s' = dedup_settle (dd_next s) (Inl e) (dedup_begin h config s)"
  shows "dd_unhandled s' = dd_unhandled s @ [dd_next s] \<and> dd_answers s' = dd_answers s @ [(dd_next s, Inl e, False)]"
proof -
  have ok: "shares s (dr_hash (foldl dedup_step dedup_start evs)) (dr_lost (foldl dedup_step dedup_start evs))"
    using dedup_runs_ok [of evs] by (simp add: dedup_ok_def assms(1))
  have "(c, dd_next s) \<notin> set (dd_joined s)" for c
    using sharesD(9) [OF ok, of c "dd_next s"] begin_new [OF ok] by auto
  then have "waiting_for (dd_next s) (dd_joined s) = []" by (auto simp: waiting_for_def filter_empty_conv)
  then show ?thesis using assms(2,3) by (simp add: assms(4) dedup_begin_def dedup_settle_def Let_def)
qed

theorem failure_left_unhandled_witness:
  "let s' = dedup_settle 0 (Inl ''refused'') (dedup_begin ''h'' DEFAULT_DEDUP_CONFIG (dr_state dedup_start :: (string, nat) dedup)) in
   dd_unhandled s' = [0] \<and> dd_answers s' = [(0, Inl ''refused'', False)]"
  using failure_left_unhandled [of "dr_state dedup_start :: (string, nat) dedup" "[]" DEFAULT_DEDUP_CONFIG "''h''"
    "dedup_settle 0 (Inl ''refused'') (dedup_begin ''h'' DEFAULT_DEDUP_CONFIG (dr_state dedup_start))" "''refused''"]
  by (simp add: Let_def dedup_start_def DEFAULT_DEDUP_CONFIG_def)

text \<open>What is not in the canonical form has no part in the hash, such as the texts that end a generation.\<close>

lemma stop_ignored:
  "computeRequestHash num sha256_hex (b @ [(''stop'', x)]) t = computeRequestHash num sha256_hex (b @ [(''stop'', y)]) t"
proof -
  have p: "prop_of (b @ [(''stop'', v)]) n = prop_of b n" if "n \<noteq> ''stop''" for v n
    using that by (simp add: prop_of_def map_of_append map_add_def split: option.split)
  have "canonical (b @ [(''stop'', x)]) = canonical (b @ [(''stop'', y)])"
    by (simp add: canonical_def extractPromptContent_def extractSystemContent_def kiro_content_def p)
  then show ?thesis by (simp add: computeRequestHash_def short_digest_def)
qed

end
