(* ===== verification/IpFilter.thy ===== *)
theory IpFilter
  imports JsonText "HOL-Library.Word"
begin

text \<open>
  The filter by address of \<^verbatim>\<open>src/open-sse/services/ipFilter.ts\<close>. Addresses of version four are words of 32 bits.
  \<open>is_ip\<close> is \<open>net.isIP(x) !== 0\<close>. The row in the database is the value of its text, absent when there is none or the
  text does not parse; lists in it are lists of texts. The flag \<open>up\<close> says whether the database can be reached.
\<close>

unbundle bit_operations_syntax

subsection \<open>Addresses\<close>

fun split_on :: "char \<Rightarrow> string \<Rightarrow> string list" where
  "split_on c [] = [[]]"
| "split_on c (x # xs) = (if x = c then [] # split_on c xs else (x # hd (split_on c xs)) # tl (split_on c xs))"

definition normalizeIP :: "string \<Rightarrow> string" where
  "normalizeIP ip = (if ip = [] then [] else js_trim (if starts_with ip ''::ffff:'' then drop 7 ip else ip))"

fun pickFirstValidIp :: "(string \<Rightarrow> bool) \<Rightarrow> string option \<Rightarrow> string option" where
  "pickFirstValidIp is_ip None = None"
| "pickFirstValidIp is_ip (Some raw) =
     (if js_trim raw = [] then None
      else find (\<lambda>n. n \<noteq> [] \<and> is_ip n) (map normalizeIP (split_on CHR '','' raw)))"

fun octets_to_num :: "string list \<Rightarrow> 32 word \<Rightarrow> 32 word option" where
  "octets_to_num [] num = Some num"
| "octets_to_num (p # ps) num =
     (case js_parseInt p of
        None \<Rightarrow> None
      | Some n \<Rightarrow> if n < 0 \<or> 255 < n then None else octets_to_num ps (push_bit 8 num OR word_of_int n))"

definition ipToNum :: "string \<Rightarrow> 32 word option" where
  "ipToNum ip = (let parts = split_on CHR ''.'' ip in if length parts \<noteq> 4 then None else octets_to_num parts 0)"

text \<open>\<open>(-1 << n) >>> 0\<close>: the operator shifts by the last five bits of \<open>n\<close>.\<close>

definition shifted_ones :: "nat \<Rightarrow> 32 word" where
  "shifted_ones n = push_bit (n mod 32) (- 1)"

definition matchesCIDR :: "string \<Rightarrow> string \<Rightarrow> bool" where
  "matchesCIDR ip cidr =
     (case split_on CHR ''/'' cidr of
        rng # bs # _ \<Rightarrow>
          (case js_parseInt bs of
             None \<Rightarrow> False
           | Some m \<Rightarrow>
               if m < 0 \<or> 32 < m then False
               else (case (ipToNum ip, ipToNum rng) of
                       (Some ipNum, Some rangeNum) \<Rightarrow>
                         let maskBits = shifted_ones (nat (32 - m)) in ipNum AND maskBits = rangeNum AND maskBits
                     | _ \<Rightarrow> False))
      | _ \<Rightarrow> False)"

definition matchesWildcard :: "string \<Rightarrow> string \<Rightarrow> bool" where
  "matchesWildcard ip pattern =
     (let ipParts = split_on CHR ''.'' ip; patParts = split_on CHR ''.'' pattern in
      length ipParts = 4 \<and> length patParts = 4 \<and> list_all2 (\<lambda>part pat. pat = ''*'' \<or> part = pat) ipParts patParts)"

definition entry_matches :: "string \<Rightarrow> string \<Rightarrow> bool" where
  "entry_matches ip e \<longleftrightarrow> CHR ''/'' \<in> set e \<and> matchesCIDR ip e \<or> CHR ''*'' \<in> set e \<and> matchesWildcard ip e"

definition matchesAny :: "string \<Rightarrow> string list \<Rightarrow> bool" where
  "matchesAny ip ipSet = (ip \<in> set ipSet \<or> list_ex (entry_matches ip) ipSet)"

subsection \<open>State\<close>

record ban_info =
  bi_until :: int
  bi_reason :: string

record ip_filter =
  if_enabled :: bool
  if_mode :: string
  if_blacklist :: "string list"
  if_whitelist :: "string list"
  if_tempBans :: "(string, ban_info) js_map"
  if_row :: "json_value option"

text \<open>A set keeps its elements in the order of their insertion.\<close>

definition set_add :: "'a \<Rightarrow> 'a list \<Rightarrow> 'a list" where
  "set_add x xs = (if x \<in> set xs then xs else xs @ [x])"

definition new_set :: "'a list \<Rightarrow> 'a list" where
  "new_set xs = foldl (\<lambda>s x. set_add x s) [] xs"

fun string_value :: "json_value \<Rightarrow> string option" where
  "string_value (V_string s) = Some s"
| "string_value _ = None"

fun list_of_texts :: "json_value option \<Rightarrow> string list" where
  "list_of_texts (Some (V_array vs)) = List.map_filter string_value vs"
| "list_of_texts _ = []"

definition ensureFilterLoaded :: "bool \<Rightarrow> ip_filter \<Rightarrow> ip_filter" where
  "ensureFilterLoaded up s =
     (case if_row s of
        Some parsed \<Rightarrow>
          if up \<and> parsed \<noteq> V_null then
            s\<lparr>if_enabled := (item_prop parsed ''enabled'' = Some (V_bool True)),
              if_mode := (case item_prop parsed ''mode'' of Some (V_string m) \<Rightarrow> m | _ \<Rightarrow> if_mode s),
              if_blacklist := new_set (list_of_texts (item_prop parsed ''blacklist'')),
              if_whitelist := new_set (list_of_texts (item_prop parsed ''whitelist''))\<rparr>
          else s
      | None \<Rightarrow> s)"

definition filter_row :: "ip_filter \<Rightarrow> json_value" where
  "filter_row s =
     V_object [(''enabled'', V_bool (if_enabled s)), (''mode'', V_string (if_mode s)),
       (''blacklist'', V_array (map V_string (if_blacklist s))), (''whitelist'', V_array (map V_string (if_whitelist s)))]"

definition persist :: "bool \<Rightarrow> ip_filter \<Rightarrow> ip_filter" where
  "persist up s = (if up then s\<lparr>if_row := Some (filter_row s)\<rparr> else s)"

definition tempBanSweep :: "int \<Rightarrow> ip_filter \<Rightarrow> ip_filter" where
  "tempBanSweep now s = s\<lparr>if_tempBans := filter (\<lambda>(ip, b). \<not> bi_until b \<le> now) (if_tempBans s)\<rparr>"

record filter_change =
  fc_enabled :: "bool option"
  fc_mode :: "string option"
  fc_blacklist :: "string list option"
  fc_whitelist :: "string list option"

definition configureIPFilter :: "bool \<Rightarrow> filter_change \<Rightarrow> ip_filter \<Rightarrow> ip_filter" where
  "configureIPFilter up c s0 =
     (let s = ensureFilterLoaded up s0 in
      persist up (s\<lparr>if_enabled := nullish (fc_enabled c) (if_enabled s),
        if_mode := (if nullish (fc_mode c) [] = [] then if_mode s else nullish (fc_mode c) []),
        if_blacklist := (case fc_blacklist c of Some l \<Rightarrow> new_set l | None \<Rightarrow> if_blacklist s),
        if_whitelist := (case fc_whitelist c of Some l \<Rightarrow> new_set l | None \<Rightarrow> if_whitelist s)\<rparr>))"

record ban_view =
  bv_ip :: string
  bv_until :: int
  bv_reason :: string
  bv_remainingMs :: int

record filter_view =
  fv_enabled :: bool
  fv_mode :: string
  fv_blacklist :: "string list"
  fv_whitelist :: "string list"
  fv_tempBans :: "ban_view list"

definition getIPFilterConfig :: "int \<Rightarrow> bool \<Rightarrow> ip_filter \<Rightarrow> filter_view \<times> ip_filter" where
  "getIPFilterConfig now up s0 =
     (let s = ensureFilterLoaded up s0 in
      (\<lparr>fv_enabled = if_enabled s, fv_mode = if_mode s, fv_blacklist = if_blacklist s, fv_whitelist = if_whitelist s,
        fv_tempBans = map (\<lambda>(ip, b). \<lparr>bv_ip = ip, bv_until = bi_until b, bv_reason = bi_reason b, bv_remainingMs = max 0 (bi_until b - now)\<rparr>)
          (if_tempBans s)\<rparr>, s))"

text \<open>The verdict: nothing when the address is allowed, else the reason.\<close>

definition list_verdict :: "string \<Rightarrow> string list \<Rightarrow> string list \<Rightarrow> string \<Rightarrow> string option" where
  "list_verdict mode blacklist whitelist ip =
     (if mode = ''whitelist'' then
        (if \<not> matchesAny ip whitelist then Some ''IP not in whitelist'' else None)
      else if mode = ''whitelist-priority'' then
        (if matchesAny ip whitelist then None
         else if matchesAny ip blacklist then Some ''IP blacklisted'' else None)
      else (if matchesAny ip blacklist then Some ''IP blacklisted'' else None))"

definition checkIP :: "int \<Rightarrow> bool \<Rightarrow> string \<Rightarrow> ip_filter \<Rightarrow> string option \<times> ip_filter" where
  "checkIP now up ip s0 =
     (let s = ensureFilterLoaded up s0; n = normalizeIP ip in
      if \<not> if_enabled s \<or> ip = [] then (None, s)
      else case map_get (if_tempBans s) n of
        Some b \<Rightarrow>
          if now < bi_until b then (Some (''Temporarily banned: '' @ bi_reason b), s)
          else (list_verdict (if_mode s) (if_blacklist s) (if_whitelist s) n, s\<lparr>if_tempBans := map_delete n (if_tempBans s)\<rparr>)
      | None \<Rightarrow> (list_verdict (if_mode s) (if_blacklist s) (if_whitelist s) n, s))"

definition tempBanIP :: "int \<Rightarrow> string \<Rightarrow> int \<Rightarrow> string option \<Rightarrow> ip_filter \<Rightarrow> ip_filter" where
  "tempBanIP now ip durationMs reason s =
     s\<lparr>if_tempBans := map_set (normalizeIP ip) \<lparr>bi_until = now + durationMs, bi_reason = nullish reason ''Automated ban''\<rparr> (if_tempBans s)\<rparr>"

definition removeTempBan :: "string \<Rightarrow> ip_filter \<Rightarrow> ip_filter" where
  "removeTempBan ip s = s\<lparr>if_tempBans := map_delete (normalizeIP ip) (if_tempBans s)\<rparr>"

definition addToBlacklist :: "bool \<Rightarrow> string \<Rightarrow> ip_filter \<Rightarrow> ip_filter" where
  "addToBlacklist up ip s0 = (let s = ensureFilterLoaded up s0 in persist up (s\<lparr>if_blacklist := set_add (normalizeIP ip) (if_blacklist s)\<rparr>))"

definition removeFromBlacklist :: "bool \<Rightarrow> string \<Rightarrow> ip_filter \<Rightarrow> ip_filter" where
  "removeFromBlacklist up ip s0 = (let s = ensureFilterLoaded up s0 in persist up (s\<lparr>if_blacklist := removeAll (normalizeIP ip) (if_blacklist s)\<rparr>))"

definition addToWhitelist :: "bool \<Rightarrow> string \<Rightarrow> ip_filter \<Rightarrow> ip_filter" where
  "addToWhitelist up ip s0 = (let s = ensureFilterLoaded up s0 in persist up (s\<lparr>if_whitelist := set_add (normalizeIP ip) (if_whitelist s)\<rparr>))"

definition removeFromWhitelist :: "bool \<Rightarrow> string \<Rightarrow> ip_filter \<Rightarrow> ip_filter" where
  "removeFromWhitelist up ip s0 = (let s = ensureFilterLoaded up s0 in persist up (s\<lparr>if_whitelist := removeAll (normalizeIP ip) (if_whitelist s)\<rparr>))"

text \<open>A new instance of the module, over the row that is there.\<close>

definition new_filter :: "json_value option \<Rightarrow> ip_filter" where
  "new_filter row = \<lparr>if_enabled = False, if_mode = ''blacklist'', if_blacklist = [], if_whitelist = [], if_tempBans = [], if_row = row\<rparr>"

definition resetIPFilter :: "ip_filter \<Rightarrow> ip_filter" where
  "resetIPFilter s = new_filter (if_row s)"

subsection \<open>Requests\<close>

fun text_or :: "string option \<Rightarrow> string option \<Rightarrow> string option" where
  "text_or (Some t) b = (if t = [] then b else Some t)"
| "text_or None b = b"

record ip_request =
  ir_header :: "string \<Rightarrow> string option"
  ir_remoteAddress :: "string option"
  ir_ip :: "string option"

definition checkRequestIP :: "(string \<Rightarrow> bool) \<Rightarrow> int \<Rightarrow> bool \<Rightarrow> ip_request \<Rightarrow> string option \<Rightarrow> ip_filter \<Rightarrow> string option \<times> ip_filter" where
  "checkRequestIP is_ip now up r trustedPeerIp s =
     checkIP now up
       (nullish
         (text_or (pickFirstValidIp is_ip (text_or trustedPeerIp None))
           (text_or (pickFirstValidIp is_ip (ir_header r ''cf-connecting-ip''))
             (text_or (pickFirstValidIp is_ip (ir_header r ''x-forwarded-for''))
               (text_or (pickFirstValidIp is_ip (ir_header r ''x-real-ip''))
                 (text_or (Some (normalizeIP (nullish (ir_ip r) []))) None)))))
         ''unknown'') s"

definition extractClientIP :: "(string \<Rightarrow> bool) \<Rightarrow> ip_request \<Rightarrow> string" where
  "extractClientIP is_ip r =
     nullish
       (text_or (pickFirstValidIp is_ip (ir_header r ''cf-connecting-ip''))
         (text_or (pickFirstValidIp is_ip (ir_header r ''x-forwarded-for''))
           (text_or (pickFirstValidIp is_ip (ir_header r ''x-real-ip''))
             (text_or (pickFirstValidIp is_ip (ir_remoteAddress r))
               (pickFirstValidIp is_ip (ir_ip r))))))
       ''unknown''"

text \<open>The middleware: nothing when the request goes on, else the text of the error of its answer 403.\<close>

definition createIPFilterMiddleware :: "(string \<Rightarrow> bool) \<Rightarrow> int \<Rightarrow> bool \<Rightarrow> ip_request \<Rightarrow> ip_filter \<Rightarrow> string option \<times> ip_filter" where
  "createIPFilterMiddleware is_ip now up r s = checkIP now up (extractClientIP is_ip r) s"

subsection \<open>Texts of addresses\<close>

definition octet :: "nat \<Rightarrow> 32 word \<Rightarrow> nat" where
  "octet i w = unat (take_bit 8 (drop_bit (8 * i) w))"

definition dotted :: "32 word \<Rightarrow> string" where
  "dotted w = decimal (octet 3 w) @ ''.'' @ decimal (octet 2 w) @ ''.'' @ decimal (octet 1 w) @ ''.'' @ decimal (octet 0 w)"

lemma split_on_none: "c \<notin> set s \<Longrightarrow> split_on c s = [s]"
  by (induction s) auto

lemma split_on_append: "c \<notin> set a \<Longrightarrow> split_on c (a @ c # r) = a # split_on c r"
  by (induction a) auto

lemma decimal_char: "x \<in> set (decimal n) \<Longrightarrow> js_digit x"
  using decimal_digits [of n] by (auto simp: list_all_iff)

lemma not_in_decimal: "\<not> js_digit c \<Longrightarrow> c \<notin> set (decimal n)"
  using decimal_char by blast

lemma octet_less: "octet i w < 256"
  using take_bit_nat_less_exp [of 8 "unat (drop_bit (8 * i) w)"] by (simp add: octet_def unsigned_take_bit_eq)

lemma dotted_parts: "split_on CHR ''.'' (dotted w) = [decimal (octet 3 w), decimal (octet 2 w), decimal (octet 1 w), decimal (octet 0 w)]"
proof -
  have n: "CHR ''.'' \<notin> set (decimal k)" for k by (rule not_in_decimal) (simp add: js_digit_def)
  show ?thesis by (simp add: dotted_def split_on_append [OF n] split_on_none [OF n])
qed

lemma octets_word: "push_bit 8 (push_bit 8 (push_bit 8 (push_bit 8 0 OR word_of_int (int (octet 3 w))) OR word_of_int (int (octet 2 w)))
    OR word_of_int (int (octet 1 w))) OR word_of_int (int (octet 0 w)) = (w :: 32 word)"
proof -
  have o: "word_of_int (int (octet i w)) = take_bit 8 (drop_bit (8 * i) w)" for i by (simp add: octet_def)
  show ?thesis
    unfolding o
  proof (rule bit_word_eqI)
    fix n
    assume "n < LENGTH(32)"
    then have n: "n < 32" by simp
    consider "n < 8" | "8 \<le> n" "n < 16" | "16 \<le> n" "n < 24" | "24 \<le> n" by linarith
    then show "bit (push_bit 8 (push_bit 8 (push_bit 8 (push_bit 8 0 OR take_bit 8 (drop_bit (8 * 3) w)) OR take_bit 8 (drop_bit (8 * 2) w))
        OR take_bit 8 (drop_bit (8 * 1) w)) OR take_bit 8 (drop_bit (8 * 0) w)) n \<longleftrightarrow> bit w n"
      using n by cases (auto simp: bit_or_iff bit_push_bit_iff bit_take_bit_iff bit_drop_bit_eq not_le)
  qed
qed

lemma ipToNum_dotted: "ipToNum (dotted w) = Some w"
proof -
  have "\<not> int (octet i w) < 0" "\<not> 255 < int (octet i w)" for i using octet_less [of i w] by simp_all
  then show ?thesis using octets_word [of w]
    by (simp add: ipToNum_def dotted_parts Let_def parse_decimal del: push_bit_of_0 or.left_neutral)
qed

subsection \<open>Ranges\<close>

lemma range_parts: "split_on CHR ''/'' (dotted w @ CHR ''/'' # decimal m) = [dotted w, decimal m]"
proof -
  have d: "CHR ''/'' \<notin> set (decimal k)" for k by (rule not_in_decimal) (simp add: js_digit_def)
  then have "CHR ''/'' \<notin> set (dotted w)" by (simp add: dotted_def)
  then show ?thesis by (simp add: split_on_append split_on_none [OF d])
qed

lemma cidr_masks:
  assumes "m \<le> 32"
  shows "matchesCIDR (dotted a) (dotted w @ CHR ''/'' # decimal m) \<longleftrightarrow> a AND shifted_ones (32 - m) = w AND shifted_ones (32 - m)"
proof -
  have "nat (32 - int m) = 32 - m" using assms by simp
  then show ?thesis using assms by (simp add: matchesCIDR_def range_parts parse_decimal ipToNum_dotted Let_def)
qed

lemma same_above_iff: "a AND push_bit n (- 1) = w AND push_bit n (- 1) \<longleftrightarrow> drop_bit n a = drop_bit n (w :: 32 word)"
proof -
  have "x AND push_bit n (- 1) = push_bit n (drop_bit n x)" for x :: "32 word"
    by (rule bit_word_eqI) (auto simp: bit_and_iff bit_push_bit_iff bit_drop_bit_eq bit_not_iff bit_mask_iff)
  moreover have "drop_bit n (push_bit n (drop_bit n x)) = drop_bit n x" for x :: "32 word"
    by (rule bit_word_eqI) (auto simp: bit_push_bit_iff bit_drop_bit_eq dest: bit_imp_le_length)
  ultimately show ?thesis by metis
qed

text \<open>
  C31: A range with a prefix of one to 32 bits matches exactly the addresses that have these leading bits in common with
  it; a prefix of no bits, which is meant to match every address, matches only the address it is written with.
\<close>

theorem cidr_exact:
  assumes "m \<le> 32"
  shows "matchesCIDR (dotted a) (dotted w @ CHR ''/'' # decimal m) \<longleftrightarrow> (if m = 0 then a = w else drop_bit (32 - m) a = drop_bit (32 - m) w)"
proof (cases "m = 0")
  case True
  then show ?thesis using cidr_masks [OF assms, of a w] by (simp add: shifted_ones_def)
next
  case False
  then have "(32 - m) mod 32 = 32 - m" by simp
  then show ?thesis using False unfolding cidr_masks [OF assms] shifted_ones_def by (simp only: same_above_iff if_False)
qed

theorem cidr_exact_witness:
  "matchesCIDR (dotted 0xC0A80105) (dotted 0xC0A80000 @ CHR ''/'' # decimal 16)
   \<and> \<not> matchesCIDR (dotted 0xC0A80105) (dotted 0xC0A80000 @ CHR ''/'' # decimal 24)
   \<and> \<not> matchesCIDR (dotted 0xC0A80105) (dotted 0 @ CHR ''/'' # decimal 0)"
  using cidr_exact [of 16 "0xC0A80105" "0xC0A80000"] cidr_exact [of 24 "0xC0A80105" "0xC0A80000"] cidr_exact [of 0 "0xC0A80105" 0]
  by (simp add: drop_bit_eq_div)

subsection \<open>Bans\<close>

text \<open>What a program may do between a ban and a check without touching the ban of the address.\<close>

datatype filter_event =
    Fi_configure filter_change
  | Fi_check string
  | Fi_show
  | Fi_ban string int "string option"
  | Fi_unban string
  | Fi_blacklist string
  | Fi_unblacklist string
  | Fi_whitelist string
  | Fi_unwhitelist string
  | Fi_sweep

fun filter_step :: "ip_filter \<Rightarrow> int \<times> bool \<times> filter_event \<Rightarrow> ip_filter" where
  "filter_step s (now, up, Fi_configure c) = configureIPFilter up c s"
| "filter_step s (now, up, Fi_check ip) = snd (checkIP now up ip s)"
| "filter_step s (now, up, Fi_show) = snd (getIPFilterConfig now up s)"
| "filter_step s (now, up, Fi_ban ip d reason) = tempBanIP now ip d reason s"
| "filter_step s (now, up, Fi_unban ip) = removeTempBan ip s"
| "filter_step s (now, up, Fi_blacklist ip) = addToBlacklist up ip s"
| "filter_step s (now, up, Fi_unblacklist ip) = removeFromBlacklist up ip s"
| "filter_step s (now, up, Fi_whitelist ip) = addToWhitelist up ip s"
| "filter_step s (now, up, Fi_unwhitelist ip) = removeFromWhitelist up ip s"
| "filter_step s (now, up, Fi_sweep) = tempBanSweep now s"

fun leaves_ban :: "string \<Rightarrow> filter_event \<Rightarrow> bool" where
  "leaves_ban n (Fi_ban ip d reason) = (normalizeIP ip \<noteq> n)"
| "leaves_ban n (Fi_unban ip) = (normalizeIP ip \<noteq> n)"
| "leaves_ban n _ = True"

definition ban_stands :: "string \<Rightarrow> ban_info \<Rightarrow> ip_filter \<Rightarrow> bool" where
  "ban_stands n b s \<longleftrightarrow> map_wf (if_tempBans s) \<and> map_get (if_tempBans s) n = Some b"

lemma loaded_bans [simp]: "if_tempBans (ensureFilterLoaded up s) = if_tempBans s" "if_row (ensureFilterLoaded up s) = if_row s"
  by (simp_all add: ensureFilterLoaded_def split: option.split)

lemma persist_fields [simp]:
  "if_tempBans (persist up s) = if_tempBans s" "if_enabled (persist up s) = if_enabled s" "if_mode (persist up s) = if_mode s"
  "if_blacklist (persist up s) = if_blacklist s" "if_whitelist (persist up s) = if_whitelist s"
  by (simp_all add: persist_def)

lemma map_of_filter_key: "map_wf m \<Longrightarrow> map_get m k = Some v \<Longrightarrow> P (k, v) \<Longrightarrow> map_get (filter P m) k = Some v"
  by (induction m) (auto simp: map_of_eq_None_iff split: if_splits)

lemma check_bans: "if_tempBans (snd (checkIP now up ip s)) = if_tempBans s
    \<or> (\<exists>b. map_get (if_tempBans s) (normalizeIP ip) = Some b \<and> bi_until b \<le> now \<and> if_tempBans (snd (checkIP now up ip s)) = map_delete (normalizeIP ip) (if_tempBans s))"
  by (auto simp: checkIP_def Let_def split: option.split)

lemma ban_step:
  assumes "ban_stands n b s" and "leaves_ban n e" and "now < bi_until b"
  shows "ban_stands n b (filter_step s (now, up, e))"
proof (cases e)
  case (Fi_check ip)
  consider "if_tempBans (snd (checkIP now up ip s)) = if_tempBans s"
    | c where "map_get (if_tempBans s) (normalizeIP ip) = Some c" "bi_until c \<le> now"
        "if_tempBans (snd (checkIP now up ip s)) = map_delete (normalizeIP ip) (if_tempBans s)"
    using check_bans [of now up ip s] by blast
  then show ?thesis
  proof cases
    case 1
    then show ?thesis using assms by (simp add: ban_stands_def Fi_check)
  next
    case (2 c)
    then have "normalizeIP ip \<noteq> n" using assms unfolding ban_stands_def by (metis not_le option.inject)
    then show ?thesis using assms 2(3) unfolding ban_stands_def Fi_check filter_step.simps
      by (simp add: map_wf_delete del: map_of_eq_Some_iff)
  qed
next
  case Fi_sweep
  have "map_wf (filter (\<lambda>(ip, b). \<not> bi_until b \<le> now) (if_tempBans s))"
    using assms(1) by (simp add: ban_stands_def distinct_map_filter)
  then show ?thesis using assms map_of_filter_key [of "if_tempBans s" n b "\<lambda>(ip, b). \<not> bi_until b \<le> now"]
    by (simp add: ban_stands_def Fi_sweep tempBanSweep_def del: map_of_eq_Some_iff)
next
  case (Fi_ban ip d reason)
  then show ?thesis using assms by (simp add: ban_stands_def tempBanIP_def map_wf_set del: map_of_eq_Some_iff)
next
  case (Fi_unban ip)
  then show ?thesis using assms by (simp add: ban_stands_def removeTempBan_def map_wf_delete del: map_of_eq_Some_iff)
qed (use assms in \<open>simp_all add: ban_stands_def configureIPFilter_def getIPFilterConfig_def addToBlacklist_def removeFromBlacklist_def
      addToWhitelist_def removeFromWhitelist_def Let_def\<close>)

interpretation ban: step_invariant filter_step "\<lambda>ev. leaves_ban n (snd (snd ev)) \<and> fst ev < bi_until b" "ban_stands n b" for n b
proof
  fix s and ev :: "int \<times> bool \<times> filter_event"
  obtain now up e where "ev = (now, up, e)" by (cases ev)
  then show "ban_stands n b s \<Longrightarrow> leaves_ban n (snd (snd ev)) \<and> fst ev < bi_until b \<Longrightarrow> ban_stands n b (filter_step s ev)"
    using ban_step by simp
qed

text \<open>
  C32: A ban holds until its end and no longer: whatever else happens before, a check of any spelling of the address is
  refused with the reason of the ban while the filter is on, and from the end on the ban has no part in the verdict.
\<close>

theorem ban_lasts:
  assumes "map_wf (if_tempBans s)" and "list_all (\<lambda>ev. leaves_ban (normalizeIP ip) (snd (snd ev)) \<and> fst ev < t + d) evs"
    and "r = foldl filter_step (tempBanIP t ip d reason s) evs" and "normalizeIP ip' = normalizeIP ip" and "ip' \<noteq> []"
    and "if_enabled (ensureFilterLoaded up r)"
  shows "fst (checkIP now up ip' r) =
    (if now < t + d then Some (''Temporarily banned: '' @ nullish reason ''Automated ban'')
     else list_verdict (if_mode (ensureFilterLoaded up r)) (if_blacklist (ensureFilterLoaded up r)) (if_whitelist (ensureFilterLoaded up r)) (normalizeIP ip))"
proof -
  let ?b = "\<lparr>bi_until = t + d, bi_reason = nullish reason ''Automated ban''\<rparr>"
  have "ban_stands (normalizeIP ip) ?b (tempBanIP t ip d reason s)"
    using assms(1) by (simp add: ban_stands_def tempBanIP_def map_wf_set)
  then have "ban_stands (normalizeIP ip) ?b r"
    unfolding assms(3) using assms(2) by (intro ban.run_inv) simp_all
  then have "map_get (if_tempBans r) (normalizeIP ip) = Some ?b" by (simp only: ban_stands_def)
  then show ?thesis using assms(4-6) by (simp add: checkIP_def Let_def)
qed

theorem ban_lasts_witness:
  "let on = \<lparr>fc_enabled = Some True, fc_mode = None, fc_blacklist = None, fc_whitelist = None\<rparr>;
       r = foldl filter_step (tempBanIP 0 ''10.0.0.1'' 60 None (new_filter None)) [(1, True, Fi_configure on), (5, True, Fi_sweep)] in
   fst (checkIP 59 True ''::ffff:10.0.0.1'' r) = Some ''Temporarily banned: Automated ban'' \<and> fst (checkIP 60 True ''10.0.0.1'' r) = None"
proof -
  define r where "r = foldl filter_step (tempBanIP 0 ''10.0.0.1'' 60 None (new_filter None))
    [(1, True, Fi_configure \<lparr>fc_enabled = Some True, fc_mode = None, fc_blacklist = None, fc_whitelist = None\<rparr>), (5, True, Fi_sweep)]"
  have n: "normalizeIP ''10.0.0.1'' = ''10.0.0.1''" "normalizeIP ''::ffff:10.0.0.1'' = ''10.0.0.1''"
    by (simp_all add: normalizeIP_def starts_with_def js_trim_def js_space_def)
  have l: "if_enabled (ensureFilterLoaded True r)" "if_mode (ensureFilterLoaded True r) = ''blacklist''" "if_blacklist (ensureFilterLoaded True r) = []"
    by (simp_all add: r_def tempBanIP_def new_filter_def configureIPFilter_def ensureFilterLoaded_def persist_def filter_row_def prop_of_def
        tempBanSweep_def List.map_filter_def new_set_def Let_def)
  have w: "map_wf (if_tempBans (new_filter None))" by (simp add: new_filter_def)
  have "fst (checkIP 59 True ''::ffff:10.0.0.1'' r) = Some ''Temporarily banned: Automated ban''"
    using ban_lasts [OF w _ r_def, of "''::ffff:10.0.0.1''" True 59] n l by simp
  moreover have "fst (checkIP 60 True ''10.0.0.1'' r) = None"
    using ban_lasts [OF w _ r_def, of "''10.0.0.1''" True 60] n l by (simp add: list_verdict_def matchesAny_def)
  ultimately show ?thesis by (simp add: Let_def r_def)
qed

subsection \<open>Settings\<close>

definition settings :: "ip_filter \<Rightarrow> bool \<times> string \<times> string list \<times> string list" where
  "settings s = (if_enabled s, if_mode s, if_blacklist s, if_whitelist s)"

lemma set_add_distinct: "distinct xs \<Longrightarrow> distinct (set_add x xs)"
  by (simp add: set_add_def)

lemma foldl_set_add: "distinct acc \<Longrightarrow> distinct (foldl (\<lambda>s x. set_add x s) acc xs)"
  by (induction xs arbitrary: acc) (simp_all add: set_add_distinct)

lemma new_set_distinct: "distinct (new_set xs)"
  by (simp add: new_set_def foldl_set_add)

lemma foldl_set_add_id: "distinct (acc @ xs) \<Longrightarrow> foldl (\<lambda>s x. set_add x s) acc xs = acc @ xs"
  by (induction xs arbitrary: acc) (simp_all add: set_add_def)

lemma new_set_id: "distinct xs \<Longrightarrow> new_set xs = xs"
  using foldl_set_add_id [of "[]" xs] by (simp add: new_set_def)

lemma texts_back: "list_of_texts (Some (V_array (map V_string xs))) = xs"
  by (induction xs) (simp_all add: List.map_filter_def)

text \<open>Loading a row that was written takes over its settings, whatever is in memory.\<close>

lemma load_written:
  assumes "if_row s = Some (filter_row x)" and "distinct (if_blacklist x)" and "distinct (if_whitelist x)"
  shows "settings (ensureFilterLoaded True s) = settings x"
proof -
  have "item_prop (filter_row x) ''enabled'' = Some (V_bool (if_enabled x))" "item_prop (filter_row x) ''mode'' = Some (V_string (if_mode x))"
      "item_prop (filter_row x) ''blacklist'' = Some (V_array (map V_string (if_blacklist x)))"
      "item_prop (filter_row x) ''whitelist'' = Some (V_array (map V_string (if_whitelist x)))" "filter_row x \<noteq> V_null"
    by (simp_all add: filter_row_def prop_of_def)
  then show ?thesis using assms by (simp add: settings_def ensureFilterLoaded_def texts_back new_set_id del: list_of_texts.simps)
qed

lemma load_distinct: "distinct (if_blacklist s) \<Longrightarrow> distinct (if_blacklist (ensureFilterLoaded up s))"
  "distinct (if_whitelist s) \<Longrightarrow> distinct (if_whitelist (ensureFilterLoaded up s))"
  by (simp_all add: ensureFilterLoaded_def new_set_distinct split: option.split)

lemma load_again: "settings (ensureFilterLoaded True (ensureFilterLoaded up s)) = settings (ensureFilterLoaded True s)"
  by (simp add: settings_def ensureFilterLoaded_def split: option.split json_value.split)

lemma load_cong: "settings s = settings s' \<Longrightarrow> if_row s = if_row s' \<Longrightarrow> settings (ensureFilterLoaded True s) = settings (ensureFilterLoaded True s')"
  by (simp add: settings_def ensureFilterLoaded_def split: option.split json_value.split)

text \<open>A restart sees what this instance sees.\<close>

definition durable :: "ip_filter \<Rightarrow> bool" where
  "durable s \<longleftrightarrow> distinct (if_blacklist s) \<and> distinct (if_whitelist s)
     \<and> settings (ensureFilterLoaded True s) = settings (ensureFilterLoaded True (new_filter (if_row s)))"

lemma durable_read:
  assumes "durable s" and "settings s' = settings (ensureFilterLoaded up s)" and "if_row s' = if_row s"
  shows "durable s'"
proof -
  have "settings (ensureFilterLoaded True s') = settings (ensureFilterLoaded True (ensureFilterLoaded up s))"
    by (rule load_cong) (simp_all add: assms)
  moreover have "distinct (if_blacklist s')" "distinct (if_whitelist s')"
    using assms(1,2) load_distinct [of s up] by (auto simp: durable_def settings_def)
  ultimately show ?thesis using assms(1,3) by (simp add: durable_def load_again)
qed

lemma durable_cong:
  assumes "durable s" and "settings s' = settings s" and "if_row s' = if_row s"
  shows "durable s'"
  using assms load_cong [OF assms(2,3)] by (auto simp: durable_def settings_def)

lemma durable_write:
  assumes "distinct (if_blacklist x)" and "distinct (if_whitelist x)"
  shows "durable (persist True x)"
proof -
  have row: "if_row (persist True x) = Some (filter_row x)" by (simp add: persist_def)
  then show ?thesis
    using load_written [OF row assms] load_written [of "new_filter (Some (filter_row x))" x] assms
    by (simp add: durable_def new_filter_def)
qed

lemma durable_step:
  assumes "durable s"
  shows "durable (filter_step s (now, True, e))"
proof -
  have d: "distinct (if_blacklist (ensureFilterLoaded True s))" "distinct (if_whitelist (ensureFilterLoaded True s))"
    using assms load_distinct [of s True] by (simp_all add: durable_def)
  show ?thesis
  proof (cases e)
    case (Fi_configure c)
    then show ?thesis using d
      by (auto simp: configureIPFilter_def Let_def new_set_distinct intro!: durable_write split: option.split)
  next
    case (Fi_check ip)
    have "settings (snd (checkIP now True ip s)) = settings (ensureFilterLoaded True s)" "if_row (snd (checkIP now True ip s)) = if_row s"
      by (auto simp: checkIP_def Let_def settings_def split: option.split)
    then show ?thesis using durable_read [OF assms] by (simp add: Fi_check)
  next
    case Fi_show
    then show ?thesis using durable_read [OF assms, of "ensureFilterLoaded True s" True] by (simp add: getIPFilterConfig_def Let_def)
  next
    case (Fi_ban ip dur reason)
    then show ?thesis by (intro durable_cong [OF assms]) (simp_all add: tempBanIP_def settings_def)
  next
    case (Fi_unban ip)
    then show ?thesis by (intro durable_cong [OF assms]) (simp_all add: removeTempBan_def settings_def)
  next
    case Fi_sweep
    then show ?thesis by (intro durable_cong [OF assms]) (simp_all add: tempBanSweep_def settings_def)
  qed (use d in \<open>auto simp: addToBlacklist_def removeFromBlacklist_def addToWhitelist_def removeFromWhitelist_def Let_def
        set_add_distinct distinct_removeAll intro!: durable_write\<close>)
qed

interpretation durable_filter: step_invariant filter_step "\<lambda>ev. fst (snd ev)" durable
proof
  fix s and ev :: "int \<times> bool \<times> filter_event"
  obtain now up e where "ev = (now, up, e)" by (cases ev)
  then show "durable s \<Longrightarrow> fst (snd ev) \<Longrightarrow> durable (filter_step s ev)" using durable_step by simp
qed

text \<open>
  C33: After any run with the database at hand, a new instance of the module shows the same switch, mode and lists as the
  old one; the bans are gone.
\<close>

theorem settings_survive_restart:
  assumes "list_all (\<lambda>ev. fst (snd ev)) evs" and "s = foldl filter_step (new_filter row) evs"
  shows "fst (getIPFilterConfig now True (new_filter (if_row s))) = (fst (getIPFilterConfig now True s))\<lparr>fv_tempBans := []\<rparr>"
proof -
  have "durable (new_filter row)" by (simp add: durable_def new_filter_def)
  then have "durable s" unfolding assms(2) using assms(1) by (rule durable_filter.run_inv)
  then have "settings (ensureFilterLoaded True s) = settings (ensureFilterLoaded True (new_filter (if_row s)))" by (simp add: durable_def)
  moreover have "if_tempBans (new_filter (if_row s)) = []" by (simp add: new_filter_def)
  ultimately show ?thesis by (simp add: getIPFilterConfig_def Let_def settings_def)
qed

theorem settings_survive_restart_witness:
  "fst (getIPFilterConfig 2 True (new_filter (if_row (foldl filter_step (new_filter None) [(0, True, Fi_ban ''b'' 9 None), (1, True, Fi_blacklist ''a'')]))))
   = (fst (getIPFilterConfig 2 True (foldl filter_step (new_filter None) [(0, True, Fi_ban ''b'' 9 None), (1, True, Fi_blacklist ''a'')])))\<lparr>fv_tempBans := []\<rparr>"
  by (rule settings_survive_restart [OF _ refl]) simp

text \<open>
  An address put on the blacklist while its row could not be written is checked as if it had not been: the next check
  reads the old row back.
\<close>

theorem unsaved_change_lost:
  assumes "if_row s = Some (filter_row x)" and "distinct (if_blacklist x)" and "distinct (if_whitelist x)"
  shows "fst (checkIP now True ip (addToBlacklist False bad s)) = fst (checkIP now True ip s)"
proof -
  have row: "if_row (addToBlacklist False bad s) = Some (filter_row x)" and bans: "if_tempBans (addToBlacklist False bad s) = if_tempBans s"
    using assms(1) by (simp_all add: addToBlacklist_def persist_def Let_def)
  have "settings (ensureFilterLoaded True (addToBlacklist False bad s)) = settings (ensureFilterLoaded True s)"
    using load_written [OF row assms(2,3)] load_written [OF assms] by simp
  then show ?thesis using bans by (simp add: checkIP_def Let_def settings_def split: option.split)
qed

theorem unsaved_change_lost_witness:
  "let x = (new_filter None)\<lparr>if_enabled := True\<rparr>; s = x\<lparr>if_row := Some (filter_row x)\<rparr> in
   if_blacklist (addToBlacklist False ''10.0.0.1'' s) = [''10.0.0.1''] \<and> fst (checkIP 0 True ''10.0.0.1'' (addToBlacklist False ''10.0.0.1'' s)) = None"
proof -
  define x where "x = (new_filter None)\<lparr>if_enabled := True\<rparr>"
  define s where "s = x\<lparr>if_row := Some (filter_row x)\<rparr>"
  have n: "normalizeIP ''10.0.0.1'' = ''10.0.0.1''" by (simp add: normalizeIP_def starts_with_def js_trim_def js_space_def)
  have d: "distinct (if_blacklist x)" "distinct (if_whitelist x)" "if_row s = Some (filter_row x)" by (simp_all add: x_def s_def new_filter_def)
  have "fst (checkIP 0 True ''10.0.0.1'' s) = None"
    using load_written [OF d(3,1,2)] n by (simp add: checkIP_def Let_def settings_def x_def s_def new_filter_def list_verdict_def matchesAny_def)
  then have "fst (checkIP 0 True ''10.0.0.1'' (addToBlacklist False ''10.0.0.1'' s)) = None"
    using unsaved_change_lost [OF d(3,1,2), of 0 "''10.0.0.1''" "''10.0.0.1''"] by simp
  moreover have "if_blacklist (addToBlacklist False ''10.0.0.1'' s) = [''10.0.0.1'']"
    using n by (simp add: addToBlacklist_def ensureFilterLoaded_def persist_def s_def x_def new_filter_def set_add_def filter_row_def)
  ultimately show ?thesis by (simp add: Let_def x_def [symmetric] s_def [symmetric])
qed

end
