(* ===== verification/ProviderCooldown.thy ===== *)
theory ProviderCooldown
  imports Prelude
begin

text \<open>
  The cooldowns of providers and their connections across requests, \<^verbatim>\<open>src/open-sse/services/providerCooldownTracker.ts\<close>.
  Times and settings are milliseconds. The record \<open>cooldown_env\<close> holds what comes from the environment: the settings of
  the category of each provider, and the defaults of \<^verbatim>\<open>src/src/lib/resilience/settings.ts\<close> for settings a call leaves out.
\<close>

record cooldown_entry =
  ce_lastFailureAt :: int
  ce_failureCount :: nat
  ce_retentionMs :: int
  ce_failureTimestamps :: "int list option"

type_synonym cooldown_map = "(string, cooldown_entry) js_map"

record window_profile =
  wp_failureThreshold :: int
  wp_failureWindowMs :: int
  wp_cooldownMs :: int

record cooldown_settings =
  cs_minRetryCooldownMs :: "int option"
  cs_maxRetryCooldownMs :: "int option"

record cooldown_env =
  cx_profile :: "string \<Rightarrow> window_profile"
  cx_minRetryCooldownMs :: int
  cx_maxRetryCooldownMs :: int

definition DEFAULT_ENTRY_RETENTION_MS :: int where "DEFAULT_ENTRY_RETENTION_MS = 30 * 60 * 1000"

definition minCooldownMs :: "cooldown_env \<Rightarrow> cooldown_settings option \<Rightarrow> int" where
  "minCooldownMs env settings = nullish (Option.bind settings cs_minRetryCooldownMs) (cx_minRetryCooldownMs env)"

definition maxCooldownMs :: "cooldown_env \<Rightarrow> cooldown_settings option \<Rightarrow> int" where
  "maxCooldownMs env settings = nullish (Option.bind settings cs_maxRetryCooldownMs) (cx_maxRetryCooldownMs env)"

definition pruneWindow :: "int list \<Rightarrow> int \<Rightarrow> int \<Rightarrow> int list" where
  "pruneWindow timestamps windowMs now =
     (let pruned = filter (\<lambda>t. now - windowMs \<le> t) timestamps in
      if 200 < length pruned then drop (length pruned - 200) pruned else pruned)"

definition providerWindowCooldownMs :: "cooldown_env \<Rightarrow> string \<Rightarrow> cooldown_entry \<Rightarrow> int \<Rightarrow> int" where
  "providerWindowCooldownMs env provider entry now =
     (let p = cx_profile env provider; inWindow = pruneWindow (nullish (ce_failureTimestamps entry) []) (wp_failureWindowMs p) now in
      if int (length inWindow) < wp_failureThreshold p then 0
      else let remaining = wp_cooldownMs p - (now - ce_lastFailureAt entry) in if 0 < remaining then remaining else 0)"

definition getEntryRetentionMs :: "cooldown_env \<Rightarrow> cooldown_settings option \<Rightarrow> int" where
  "getEntryRetentionMs env settings = max DEFAULT_ENTRY_RETENTION_MS (maxCooldownMs env settings)"

definition cleanupExpiredCooldownEntries :: "int \<Rightarrow> cooldown_map \<Rightarrow> cooldown_map" where
  "cleanupExpiredCooldownEntries now m = filter (\<lambda>(k, e). \<not> ce_retentionMs e < now - ce_lastFailureAt e) m"

text \<open>An empty connection counts as none.\<close>

definition has_connection :: "string option \<Rightarrow> bool" where
  "has_connection connectionId \<longleftrightarrow> nullish connectionId [] \<noteq> []"

definition cooldownKey :: "string \<Rightarrow> string option \<Rightarrow> string" where
  "cooldownKey provider connectionId =
     (if has_connection connectionId then provider @ '':'' @ nullish connectionId [] else provider)"

definition untracked :: "string \<Rightarrow> bool" where
  "untracked provider \<longleftrightarrow> provider = [] \<or> provider = ''unknown''"

definition failed_again :: "cooldown_env \<Rightarrow> string \<Rightarrow> string option \<Rightarrow> int \<Rightarrow> int \<Rightarrow> cooldown_entry \<Rightarrow> cooldown_entry" where
  "failed_again env provider connectionId retentionMs now e =
     (let e1 = e\<lparr>ce_lastFailureAt := now, ce_failureCount := ce_failureCount e + 1, ce_retentionMs := max (ce_retentionMs e) retentionMs\<rparr> in
      if has_connection connectionId then e1
      else e1\<lparr>ce_failureTimestamps :=
        Some (pruneWindow (nullish (ce_failureTimestamps e) [] @ [now]) (wp_failureWindowMs (cx_profile env provider)) now)\<rparr>)"

definition recordProviderCooldown :: "cooldown_env \<Rightarrow> string \<Rightarrow> string option \<Rightarrow> cooldown_settings option \<Rightarrow> int
    \<Rightarrow> cooldown_map \<Rightarrow> cooldown_map" where
  "recordProviderCooldown env provider connectionId settings now m =
     (if untracked provider then m
      else let key = cooldownKey provider connectionId; retentionMs = getEntryRetentionMs env settings in
        map_set key
          (case map_get m key of
             Some e \<Rightarrow> failed_again env provider connectionId retentionMs now e
           | None \<Rightarrow> \<lparr>ce_lastFailureAt = now, ce_failureCount = 1, ce_retentionMs = retentionMs,
                      ce_failureTimestamps = (if has_connection connectionId then None else Some [now])\<rparr>) m)"

definition scaledCooldownMs :: "cooldown_env \<Rightarrow> cooldown_settings option \<Rightarrow> nat \<Rightarrow> int" where
  "scaledCooldownMs env settings failureCount = min (minCooldownMs env settings * 2 ^ min (failureCount - 1) 10) (maxCooldownMs env settings)"

definition isProviderInCooldown :: "cooldown_env \<Rightarrow> string \<Rightarrow> string option \<Rightarrow> cooldown_settings option \<Rightarrow> int
    \<Rightarrow> cooldown_map \<Rightarrow> bool" where
  "isProviderInCooldown env provider connectionId settings now m =
     (if untracked provider then False
      else case map_get m (cooldownKey provider connectionId) of
        None \<Rightarrow> False
      | Some e \<Rightarrow>
          if ce_failureCount e = 0 then False
          else if \<not> has_connection connectionId then 0 < providerWindowCooldownMs env provider e now
          else now - ce_lastFailureAt e < scaledCooldownMs env settings (ce_failureCount e))"

definition getRemainingCooldownMs :: "cooldown_env \<Rightarrow> string \<Rightarrow> string option \<Rightarrow> cooldown_settings option \<Rightarrow> int
    \<Rightarrow> cooldown_map \<Rightarrow> int" where
  "getRemainingCooldownMs env provider connectionId settings now m =
     (if untracked provider then 0
      else case map_get m (cooldownKey provider connectionId) of
        None \<Rightarrow> 0
      | Some e \<Rightarrow>
          if \<not> has_connection connectionId then
            (if ce_failureCount e = 0 then 0 else providerWindowCooldownMs env provider e now)
          else let remaining = scaledCooldownMs env settings (ce_failureCount e) - (now - ce_lastFailureAt e) in
            if 0 < remaining then remaining else 0)"

definition recordProviderSuccess :: "string \<Rightarrow> string option \<Rightarrow> cooldown_map \<Rightarrow> cooldown_map" where
  "recordProviderSuccess provider connectionId m =
     (if untracked provider then m
      else let key = cooldownKey provider connectionId in
        case map_get m key of
          None \<Rightarrow> m
        | Some e \<Rightarrow> map_set key (e\<lparr>ce_failureCount := 0, ce_failureTimestamps := Some []\<rparr>) m)"

definition clearCooldownState :: "cooldown_map \<Rightarrow> cooldown_map" where "clearCooldownState m = []"
definition getCooldownEntryCount :: "cooldown_map \<Rightarrow> nat" where "getCooldownEntryCount m = length m"

subsection \<open>Connections\<close>

lemma untracked_key: "\<not> untracked provider \<Longrightarrow> cooldownKey provider c \<noteq> []"
  by (simp add: untracked_def cooldownKey_def)

text \<open>A connection or provider is in cooldown when time remains, unless it has succeeded since its last failure.\<close>

lemma cooldown_iff_remaining:
  "isProviderInCooldown env provider c settings now m \<longleftrightarrow>
     0 < getRemainingCooldownMs env provider c settings now m
     \<and> (case map_get m (cooldownKey provider c) of Some e \<Rightarrow> ce_failureCount e \<noteq> 0 | None \<Rightarrow> False)"
  by (auto simp: isProviderInCooldown_def getRemainingCooldownMs_def Let_def split: option.split)

text \<open>The failures of a connection in a row, the first after a success or ever, each with its time.\<close>

definition connection_streak :: "nat \<Rightarrow> int \<Rightarrow> string \<Rightarrow> cooldown_map \<Rightarrow> bool" where
  "connection_streak n t key m \<longleftrightarrow> (\<exists>e. map_get m key = Some e \<and> ce_failureCount e = n \<and> ce_lastFailureAt e = t)"

lemma streak_run_connection:
  assumes "\<not> untracked provider" and "has_connection c"
    and "(case map_get m (cooldownKey provider c) of Some e \<Rightarrow> ce_failureCount e = k | None \<Rightarrow> k = 0)" and "ts \<noteq> []"
  shows "connection_streak (k + length ts) (last ts) (cooldownKey provider c)
    (foldl (\<lambda>m t. recordProviderCooldown env provider c settings t m) m ts)"
  using assms(3,4)
proof (induction ts arbitrary: m k)
  case (Cons t ts)
  let ?m = "recordProviderCooldown env provider c settings t m"
  have one: "connection_streak (k + 1) t (cooldownKey provider c) ?m"
    using assms(1,2) Cons.prems(1)
    by (auto simp: recordProviderCooldown_def failed_again_def connection_streak_def Let_def split: option.splits)
  show ?case
  proof (cases "ts = []")
    case True
    then show ?thesis using one by simp
  next
    case False
    have "case map_get ?m (cooldownKey provider c) of Some e \<Rightarrow> ce_failureCount e = k + 1 | None \<Rightarrow> k + 1 = 0"
      using one by (auto simp: connection_streak_def)
    from Cons.IH [OF this False] False show ?thesis by simp
  qed
qed simp

text \<open>
  After failures in a row a connection is in cooldown until the least time, doubled with every failure after the
  first up to ten times and capped by the greatest, has passed since the last one.
\<close>

theorem cooldown_doubles:
  assumes "\<not> untracked provider" and "has_connection c" and "map_get m (cooldownKey provider c) = None" and "ts \<noteq> []"
  shows "isProviderInCooldown env provider c settings now (foldl (\<lambda>m t. recordProviderCooldown env provider c settings t m) m ts)
    \<longleftrightarrow> now - last ts < min (minCooldownMs env settings * 2 ^ min (length ts - 1) 10) (maxCooldownMs env settings)"
proof -
  obtain e where "map_get (foldl (\<lambda>m t. recordProviderCooldown env provider c settings t m) m ts) (cooldownKey provider c) = Some e"
      "ce_failureCount e = length ts" "ce_lastFailureAt e = last ts"
    using streak_run_connection [OF assms(1,2) _ assms(4), where m = m and k = 0 and env = env and settings = settings] assms(3) by (auto simp: connection_streak_def)
  then show ?thesis using assms(1,2,4) by (simp add: isProviderInCooldown_def scaledCooldownMs_def)
qed

definition plain_cooldown_env :: cooldown_env where
  "plain_cooldown_env = \<lparr>cx_profile = \<lambda>_. \<lparr>wp_failureThreshold = 10, wp_failureWindowMs = 900000, wp_cooldownMs = 300000\<rparr>,
     cx_minRetryCooldownMs = 5000, cx_maxRetryCooldownMs = 300000\<rparr>"

theorem cooldown_doubles_witness:
  "isProviderInCooldown plain_cooldown_env ''p'' (Some ''c'') None 20999 (foldl (\<lambda>m t. recordProviderCooldown plain_cooldown_env ''p'' (Some ''c'') None t m) [] [0, 1, 1000])
   \<and> \<not> isProviderInCooldown plain_cooldown_env ''p'' (Some ''c'') None 21000 (foldl (\<lambda>m t. recordProviderCooldown plain_cooldown_env ''p'' (Some ''c'') None t m) [] [0, 1, 1000])"
  using cooldown_doubles [of "''p''" "Some ''c''" "[]" "[0, 1, 1000]" plain_cooldown_env None 20999]
    cooldown_doubles [of "''p''" "Some ''c''" "[]" "[0, 1, 1000]" plain_cooldown_env None 21000]
  by (simp add: untracked_def has_connection_def minCooldownMs_def maxCooldownMs_def plain_cooldown_env_def)

text \<open>After a success the remaining time of a connection is still reported, although it is not in cooldown.\<close>

lemma remaining_after_success:
  assumes "\<not> untracked provider" and "has_connection c" and "map_get m (cooldownKey provider c) = Some e"
  shows "\<not> isProviderInCooldown env provider c settings now (recordProviderSuccess provider c m)"
    and "getRemainingCooldownMs env provider c settings now (recordProviderSuccess provider c m)
      = max 0 (min (minCooldownMs env settings) (maxCooldownMs env settings) - (now - ce_lastFailureAt e))"
proof -
  show "\<not> isProviderInCooldown env provider c settings now (recordProviderSuccess provider c m)"
    using assms by (simp add: isProviderInCooldown_def recordProviderSuccess_def Let_def)
  have "(if 0 < x then x else 0) = max 0 x" for x :: int by simp
  then show "getRemainingCooldownMs env provider c settings now (recordProviderSuccess provider c m)
      = max 0 (min (minCooldownMs env settings) (maxCooldownMs env settings) - (now - ce_lastFailureAt e))"
    using assms by (simp add: getRemainingCooldownMs_def recordProviderSuccess_def scaledCooldownMs_def Let_def)
qed

subsection \<open>Whole providers\<close>

text \<open>Failures and successes of a provider as a whole, oldest first, and the failures since the last success.\<close>

datatype provider_event = Failed int | Succeeded

fun provider_step :: "cooldown_env \<Rightarrow> string \<Rightarrow> cooldown_settings option \<Rightarrow> cooldown_map \<Rightarrow> provider_event \<Rightarrow> cooldown_map" where
  "provider_step env provider settings m (Failed t) = recordProviderCooldown env provider None settings t m"
| "provider_step env provider settings m Succeeded = recordProviderSuccess provider None m"

fun failure_log :: "int list \<Rightarrow> provider_event \<Rightarrow> int list" where
  "failure_log l (Failed t) = l @ [t]"
| "failure_log l Succeeded = []"

fun event_times :: "provider_event list \<Rightarrow> int list" where
  "event_times [] = []"
| "event_times (Failed t # es) = t # event_times es"
| "event_times (Succeeded # es) = event_times es"

text \<open>How many failures are not older than a time.\<close>

definition recent :: "int \<Rightarrow> int list \<Rightarrow> nat" where
  "recent f l = length (filter (\<lambda>t. f \<le> t) l)"

lemma recent_drop: "sorted xs \<Longrightarrow> recent f (drop j xs) = min (length xs - j) (recent f xs)"
proof (induction xs arbitrary: j)
  case (Cons x xs)
  show ?case
  proof (cases j)
    case 0
    have "recent f (x # xs) \<le> length (x # xs)" unfolding recent_def by (rule length_filter_le)
    then show ?thesis by (simp add: 0)
  next
    case (Suc i)
    have "recent f xs = length xs" if "f \<le> x"
    proof -
      have "filter (\<lambda>t. f \<le> t) xs = xs" using Cons.prems that by (auto intro: filter_True order_trans)
      then show ?thesis by (simp add: recent_def)
    qed
    then show ?thesis using Cons.IH [of i] Cons.prems by (auto simp: Suc recent_def)
  qed
qed (simp add: recent_def)

lemma recent_filter: "g \<le> f \<Longrightarrow> recent f (filter (\<lambda>t. g \<le> t) xs) = recent f xs"
  by (auto simp: recent_def intro!: arg_cong [where f = length] filter_cong)

lemma prune_sorted: "sorted xs \<Longrightarrow> sorted (pruneWindow xs w now)"
  by (simp add: pruneWindow_def Let_def sorted_wrt_filter sorted_wrt_drop)

lemma prune_subset: "set (pruneWindow xs w now) \<subseteq> set xs"
  by (auto simp: pruneWindow_def Let_def dest: in_set_dropD)

lemma prune_recent: "sorted xs \<Longrightarrow> now - w \<le> f \<Longrightarrow> min 200 (recent f (pruneWindow xs w now)) = min 200 (recent f xs)"
  using recent_drop [of "filter (\<lambda>t. now - w \<le> t) xs" f "length (filter (\<lambda>t. now - w \<le> t) xs) - 200"] recent_filter [of "now - w" f xs]
  by (auto simp: pruneWindow_def Let_def sorted_wrt_filter)

lemma prune_length: "length (pruneWindow xs w now) = min 200 (recent (now - w) xs)"
  by (simp add: pruneWindow_def Let_def recent_def)

text \<open>
  What the entry of a provider says of its log of failures: how many, the last one, and, up to two hundred, how many of
  them any later window will hold.
\<close>

definition tells :: "int \<Rightarrow> int list \<Rightarrow> cooldown_entry \<Rightarrow> bool" where
  "tells w l e \<longleftrightarrow>
     ce_failureCount e = length l \<and> (l \<noteq> [] \<longrightarrow> ce_lastFailureAt e = last l)
     \<and> (\<exists>ts. ce_failureTimestamps e = Some ts \<and> sorted ts \<and> (\<forall>t \<in> set ts. t \<le> ce_lastFailureAt e)
        \<and> (\<forall>f \<ge> ce_lastFailureAt e - w. min 200 (recent f ts) = min 200 (recent f l)))"

lemma recent_snoc: "recent f (l @ [t]) = recent f l + (if f \<le> t then 1 else 0)"
  by (simp add: recent_def)

lemma tells_failure:
  assumes "tells (wp_failureWindowMs (cx_profile env p)) l e" and "ce_lastFailureAt e \<le> t" and "\<not> has_connection c"
  shows "tells (wp_failureWindowMs (cx_profile env p)) (l @ [t]) (failed_again env p c ret t e)"
proof -
  let ?w = "wp_failureWindowMs (cx_profile env p)"
  obtain ts where ts: "ce_failureTimestamps e = Some ts" "sorted ts" "\<forall>x \<in> set ts. x \<le> ce_lastFailureAt e"
      "\<forall>f \<ge> ce_lastFailureAt e - ?w. min 200 (recent f ts) = min 200 (recent f l)"
    using assms(1) by (auto simp: tells_def)
  have sorted: "sorted (ts @ [t])" using ts(2,3) assms(2) by (force simp: sorted_append)
  have "min 200 (recent f (pruneWindow (ts @ [t]) ?w t)) = min 200 (recent f (l @ [t]))" if "t - ?w \<le> f" for f
  proof -
    have "min 200 (recent f ts) = min 200 (recent f l)" using ts(4) that assms(2) by auto
    then have "min 200 (recent f (ts @ [t])) = min 200 (recent f (l @ [t]))" by (simp add: recent_snoc)
    then show ?thesis using prune_recent [OF sorted that] by simp
  qed
  moreover have "\<forall>x \<in> set (pruneWindow (ts @ [t]) ?w t). x \<le> t"
    using prune_subset [of "ts @ [t]" ?w t] ts(3) assms(2) by force
  ultimately show ?thesis
    using assms(1,3) prune_sorted [OF sorted] by (simp add: failed_again_def Let_def ts(1) tells_def)
qed

definition provider_told :: "cooldown_env \<Rightarrow> string \<Rightarrow> cooldown_map \<Rightarrow> int list \<Rightarrow> int \<Rightarrow> bool" where
  "provider_told env p m l t \<longleftrightarrow>
     (case map_get m (cooldownKey p None) of
        None \<Rightarrow> l = []
      | Some e \<Rightarrow> tells (wp_failureWindowMs (cx_profile env p)) l e \<and> ce_lastFailureAt e \<le> t)"

lemma no_connection [simp]: "\<not> has_connection None"
  by (simp add: has_connection_def)

lemma provider_told_step:
  assumes "provider_told env p m l t" and "\<not> untracked p" and "\<forall>x \<in> set (event_times [ev]). t \<le> x"
  shows "provider_told env p (provider_step env p settings m ev) (failure_log l ev) (last (t # event_times [ev]))"
proof (cases ev)
  case Succeeded
  show ?thesis
  proof (cases "map_get m (cooldownKey p None)")
    case None
    then show ?thesis using assms(1,2) by (simp add: Succeeded provider_told_def recordProviderSuccess_def Let_def)
  next
    case (Some e)
    then show ?thesis using assms(1,2)
      by (simp add: Succeeded provider_told_def recordProviderSuccess_def Let_def tells_def)
  qed
next
  case (Failed x)
  show ?thesis
  proof (cases "map_get m (cooldownKey p None)")
    case None
    then show ?thesis using assms(1,2)
      by (simp add: Failed provider_told_def recordProviderCooldown_def Let_def tells_def)
  next
    case (Some e)
    then have e: "tells (wp_failureWindowMs (cx_profile env p)) l e" "ce_lastFailureAt e \<le> x"
      using assms(1,3) by (auto simp: provider_told_def Failed)
    show ?thesis using assms(2) tells_failure [OF e no_connection]
      by (simp add: Failed provider_told_def recordProviderCooldown_def Let_def Some) (simp add: failed_again_def Let_def)
  qed
qed

lemma provider_told_run:
  "provider_told env p m l t \<Longrightarrow> \<not> untracked p \<Longrightarrow> sorted (t # event_times es)
   \<Longrightarrow> provider_told env p (foldl (provider_step env p settings) m es) (foldl failure_log l es) (last (t # event_times es))"
proof (induction es arbitrary: m l t)
  case (Cons ev es)
  have "event_times (ev # es) = event_times [ev] @ event_times es" by (cases ev) simp_all
  then have "provider_told env p (foldl (provider_step env p settings) (provider_step env p settings m ev) es) (foldl failure_log (failure_log l ev) es)
      (last (last (t # event_times [ev]) # event_times es))"
    using Cons.prems by (intro Cons.IH provider_told_step) (cases ev; auto)+
  moreover have "last (last (t # event_times [ev]) # event_times es) = last (t # event_times (ev # es))" by (cases ev) simp_all
  ultimately show ?case by simp
qed simp

text \<open>
  C34: A provider as a whole is in cooldown exactly while at least as many failures as the threshold, of those since its
  last success, lie in the window that ends now, and its time has not passed since the last of them; a threshold of at
  most two hundred and a clock that does not go back are assumed. The cooldown so ends early when failures leave the window.
\<close>

theorem provider_gate_reads_log:
  assumes "\<not> untracked p" and "map_get m (cooldownKey p None) = None" and "sorted (event_times es @ [now])"
    and "wp_failureThreshold (cx_profile env p) \<le> 200"
  shows "isProviderInCooldown env p None settings now (foldl (provider_step env p settings) m es) \<longleftrightarrow>
    (let l = foldl failure_log [] es; w = cx_profile env p in
     l \<noteq> [] \<and> wp_failureThreshold w \<le> int (recent (now - wp_failureWindowMs w) l) \<and> now - last l < wp_cooldownMs w)"
proof -
  let ?l = "foldl failure_log [] es" and ?w = "cx_profile env p"
  define t where "t = Min (set (now # event_times es))"
  have t: "\<forall>x \<in> set (now # event_times es). t \<le> x" unfolding t_def by simp
  have "provider_told env p (foldl (provider_step env p settings) m es) ?l (last (t # event_times es))"
    by (rule provider_told_run) (use assms t in \<open>simp_all add: provider_told_def sorted_append\<close>)
  moreover have "last (t # event_times es) \<le> now"
    using assms(3) t by (cases "event_times es = []") (auto simp: sorted_append)
  ultimately show ?thesis
  proof (cases "map_get (foldl (provider_step env p settings) m es) (cooldownKey p None)")
    case None
    then show ?thesis using \<open>provider_told _ _ _ _ _\<close> assms(1) by (simp add: provider_told_def isProviderInCooldown_def Let_def)
  next
    case (Some e)
    then have e: "tells (wp_failureWindowMs ?w) ?l e" "ce_lastFailureAt e \<le> now"
      using \<open>provider_told _ _ _ _ _\<close> \<open>last _ \<le> now\<close> by (auto simp: provider_told_def)
    then obtain ts where ts: "ce_failureTimestamps e = Some ts"
        "min 200 (recent (now - wp_failureWindowMs ?w) ts) = min 200 (recent (now - wp_failureWindowMs ?w) ?l)"
      unfolding tells_def by auto
    have "int (length (pruneWindow ts (wp_failureWindowMs ?w) now)) < wp_failureThreshold ?w
        \<longleftrightarrow> int (recent (now - wp_failureWindowMs ?w) ?l) < wp_failureThreshold ?w"
      unfolding prune_length ts(2) using assms(4) by auto
    then show ?thesis using Some e assms(1)
      by (auto simp: isProviderInCooldown_def providerWindowCooldownMs_def Let_def ts(1) tells_def)
  qed
qed

text \<open>Ten failures in nine hundred seconds: the provider is in cooldown, and a millisecond later it is not any more.\<close>

theorem provider_gate_reads_log_witness:
  "let m = foldl (provider_step plain_cooldown_env ''p'' None) [] (map (\<lambda>i. Failed (100000 * int i)) [0..<10]) in
   isProviderInCooldown plain_cooldown_env ''p'' None None 900000 m \<and> \<not> isProviderInCooldown plain_cooldown_env ''p'' None None 900001 m"
  using provider_gate_reads_log [of "''p''" "[]" "map (\<lambda>i. Failed (100000 * int i)) [0..<10]" 900000 plain_cooldown_env None]
    provider_gate_reads_log [of "''p''" "[]" "map (\<lambda>i. Failed (100000 * int i)) [0..<10]" 900001 plain_cooldown_env None]
  by (simp add: untracked_def plain_cooldown_env_def recent_def upt_rec)

text \<open>Removing expired entries ends no cooldown that the retention covers.\<close>

lemma cleanup_ends_no_cooldown:
  assumes "map_wf m" and "\<And>e. map_get m (cooldownKey p c) = Some e \<Longrightarrow> maxCooldownMs env settings \<le> ce_retentionMs e"
    and "\<And>e. map_get m (cooldownKey p c) = Some e \<Longrightarrow> wp_cooldownMs (cx_profile env p) \<le> ce_retentionMs e"
  shows "isProviderInCooldown env p c settings now (cleanupExpiredCooldownEntries now m) \<longleftrightarrow> isProviderInCooldown env p c settings now m"
proof (cases "map_get m (cooldownKey p c)")
  case None
  then have "map_get (cleanupExpiredCooldownEntries now m) (cooldownKey p c) = None"
    by (auto simp: cleanupExpiredCooldownEntries_def map_of_eq_None_iff)
  then show ?thesis using None by (simp add: isProviderInCooldown_def)
next
  case (Some e)
  show ?thesis
  proof (cases "ce_retentionMs e < now - ce_lastFailureAt e")
    case True
    have "map_get (cleanupExpiredCooldownEntries now m) (cooldownKey p c) = None"
      using Some assms(1) True eq_key_imp_eq_value [OF assms(1)]
      by (fastforce simp: cleanupExpiredCooldownEntries_def map_of_eq_None_iff dest: map_of_SomeD)
    moreover have "scaledCooldownMs env settings n \<le> maxCooldownMs env settings" for n by (simp add: scaledCooldownMs_def)
    moreover have "\<not> now - ce_lastFailureAt e < scaledCooldownMs env settings (ce_failureCount e)"
      using True assms(2) [OF Some] calculation(2) [of "ce_failureCount e"] by linarith
    moreover have "providerWindowCooldownMs env p e now = 0"
      using True assms(3) [OF Some] by (simp add: providerWindowCooldownMs_def Let_def)
    ultimately show ?thesis using Some by (simp add: isProviderInCooldown_def)
  next
    case False
    then have "(cooldownKey p c, e) \<in> set (cleanupExpiredCooldownEntries now m)" "map_wf (cleanupExpiredCooldownEntries now m)"
      using Some assms(1) by (auto simp: cleanupExpiredCooldownEntries_def distinct_map_filter)
    then have "map_get (cleanupExpiredCooldownEntries now m) (cooldownKey p c) = Some e" by simp
    then show ?thesis using Some by (simp add: isProviderInCooldown_def)
  qed
qed

end
