(* ===== verification/WildcardRouter.thy ===== *)
theory WildcardRouter
  imports Prelude
begin

text \<open>
  Wildcards in the names of models, \<^verbatim>\<open>src/open-sse/services/wildcardRouter.ts\<close>. The regular expression a pattern is
  turned into is run by \<open>wild_run\<close> on the pattern itself; \<open>wild_split\<close> says what it accepts. Text is ASCII.
\<close>

subsection \<open>Matching\<close>

text \<open>What a point of a regular expression stands for.\<close>

definition any_char :: "char \<Rightarrow> bool" where
  "any_char c \<longleftrightarrow> c \<noteq> CHR 0x0A \<and> c \<noteq> CHR 0x0D"

definition same_letter :: "char \<Rightarrow> char \<Rightarrow> bool" where
  "same_letter a b \<longleftrightarrow> js_lower [a] = js_lower [b]"

function wild_run :: "string \<Rightarrow> string \<Rightarrow> bool" where
  "wild_run [] s = (s = [])"
| "wild_run (x # p) s =
     (if x = CHR ''*'' then wild_run p s \<or> (case s of [] \<Rightarrow> False | c # cs \<Rightarrow> any_char c \<and> wild_run (x # p) cs)
      else (case s of
          [] \<Rightarrow> False
        | c # cs \<Rightarrow> (if x = CHR ''?'' then any_char c else same_letter x c) \<and> wild_run p cs))"
  by pat_completeness auto
termination by (relation "measure (\<lambda>(p, s). length p + length s)") auto

declare wild_run.simps(2) [simp del]

definition wildcardMatch :: "string \<Rightarrow> string \<Rightarrow> bool" where
  "wildcardMatch model pattern =
     (if model = [] \<or> pattern = [] then False
      else if pattern = ''*'' then True
      else if pattern = model then True
      else wild_run pattern model)"

subsection \<open>Choice\<close>

fun split_where :: "(char \<Rightarrow> bool) \<Rightarrow> string \<Rightarrow> string list" where
  "split_where P [] = [[]]"
| "split_where P (c # cs) = (if P c then [] # split_where P cs else (c # hd (split_where P cs)) # tl (split_where P cs))"

definition getSpecificity :: "string \<Rightarrow> int" where
  "getSpecificity pattern =
     (if pattern = [] then 0
      else sum_list (map (\<lambda>seg. if 0 < length seg then int (length seg) * 10 else 0) (split_where (\<lambda>c. c \<in> set ''/*?'') pattern))
        - int (count_list pattern CHR ''*'') * 50 - int (count_list pattern CHR ''?'') * 5 + int (length pattern))"

text \<open>An entry; its own properties overwrite those that are computed for it.\<close>

record wildcard_alias =
  wa_pattern :: "string option"
  wa_alias :: "string option"
  wa_from :: "string option"
  wa_target :: "string option"
  wa_model :: "string option"
  wa_to :: "string option"
  wa_specificity :: "int option"

record wildcard_match =
  wm_pattern :: string
  wm_target :: string
  wm_specificity :: int

fun first_text :: "string option list \<Rightarrow> string" where
  "first_text [] = []"
| "first_text (None # ts) = first_text ts"
| "first_text (Some t # ts) = (if t = [] then first_text ts else t)"

definition alias_match :: "string \<Rightarrow> wildcard_alias \<Rightarrow> wildcard_match option" where
  "alias_match model a =
     (let pattern = first_text [wa_pattern a, wa_alias a, wa_from a]; target = first_text [wa_target a, wa_model a, wa_to a] in
      if pattern = [] \<or> target = [] then None
      else if wildcardMatch model pattern
      then Some \<lparr>wm_pattern = nullish (wa_pattern a) pattern, wm_target = nullish (wa_target a) target,
                 wm_specificity = nullish (wa_specificity a) (getSpecificity pattern)\<rparr>
      else None)"

definition resolveWildcardAlias :: "string \<Rightarrow> wildcard_alias list \<Rightarrow> wildcard_match option" where
  "resolveWildcardAlias model aliases =
     (if model = [] then None
      else case sort_key (\<lambda>m. - wm_specificity m) (List.map_filter (alias_match model) aliases) of
        [] \<Rightarrow> None
      | m # _ \<Rightarrow> Some m)"

datatype exact_aliases =
    Alias_map "(string, string) js_map"
  | Alias_object "(string, string) js_map"

fun exact_alias :: "exact_aliases \<Rightarrow> string \<Rightarrow> string option" where
  "exact_alias (Alias_map m) model = map_get m model"
| "exact_alias (Alias_object m) model = (case map_get m model of Some t \<Rightarrow> if t = [] then None else Some t | None \<Rightarrow> None)"

definition resolveModel :: "string \<Rightarrow> exact_aliases \<Rightarrow> wildcard_alias list \<Rightarrow> string" where
  "resolveModel model exactAliases wildcardAliases =
     (if model = [] then model
      else case exact_alias exactAliases model of
        Some t \<Rightarrow> t
      | None \<Rightarrow>
          (case resolveWildcardAlias model wildcardAliases of
             Some m \<Rightarrow> wm_target m
           | None \<Rightarrow> model))"

subsection \<open>What a pattern accepts\<close>

text \<open>The part of a name that one character of a pattern stands for.\<close>

definition stands_for :: "char \<Rightarrow> string \<Rightarrow> bool" where
  "stands_for x w \<longleftrightarrow>
     (if x = CHR ''*'' then list_all any_char w
      else \<exists>c. w = [c] \<and> (if x = CHR ''?'' then any_char c else same_letter x c))"

definition wild_split :: "string \<Rightarrow> string \<Rightarrow> bool" where
  "wild_split p s \<longleftrightarrow> (\<exists>ws. list_all2 stands_for p ws \<and> concat ws = s)"

lemma wild_split_Cons: "wild_split (x # p) s \<longleftrightarrow> (\<exists>w r. s = w @ r \<and> stands_for x w \<and> wild_split p r)"
proof
  assume "wild_split (x # p) s"
  then obtain w ws where "stands_for x w" "list_all2 stands_for p ws" "concat (w # ws) = s"
    unfolding wild_split_def list_all2_Cons1 by blast
  then show "\<exists>w r. s = w @ r \<and> stands_for x w \<and> wild_split p r"
    by (intro exI [of _ w] exI [of _ "concat ws"]) (auto simp: wild_split_def)
next
  assume "\<exists>w r. s = w @ r \<and> stands_for x w \<and> wild_split p r"
  then obtain w ws where "s = w @ concat ws" "stands_for x w" "list_all2 stands_for p ws" by (auto simp: wild_split_def)
  then show "wild_split (x # p) s" unfolding wild_split_def by (intro exI [of _ "w # ws"]) simp
qed

lemma wild_run_split: "wild_run p s \<longleftrightarrow> wild_split p s"
proof (induction p s rule: wild_run.induct)
  case (1 s)
  then show ?case by (auto simp: wild_split_def)
next
  case (2 x p s)
  show ?case
  proof (cases "x = CHR ''*''")
    case True
    have "wild_split (x # p) s \<longleftrightarrow> wild_split p s \<or> (\<exists>c cs. s = c # cs \<and> any_char c \<and> wild_split (x # p) cs)"
    proof
      assume "wild_split (x # p) s"
      then obtain w r where w: "s = w @ r" "list_all any_char w" "wild_split p r" by (auto simp: wild_split_Cons stands_for_def True)
      show "wild_split p s \<or> (\<exists>c cs. s = c # cs \<and> any_char c \<and> wild_split (x # p) cs)"
      proof (cases w)
        case (Cons c w')
        then have "wild_split (x # p) (w' @ r)" using w by (auto simp: wild_split_Cons stands_for_def True)
        then show ?thesis using w Cons by simp
      qed (use w in simp)
    next
      assume "wild_split p s \<or> (\<exists>c cs. s = c # cs \<and> any_char c \<and> wild_split (x # p) cs)"
      then show "wild_split (x # p) s"
      proof
        assume "wild_split p s"
        then show ?thesis unfolding wild_split_Cons by (intro exI [of _ "[]"] exI [of _ s]) (simp add: stands_for_def True)
      next
        assume "\<exists>c cs. s = c # cs \<and> any_char c \<and> wild_split (x # p) cs"
        then obtain c w r where "s = c # w @ r" "any_char c" "list_all any_char w" "wild_split p r"
          by (auto simp: wild_split_Cons stands_for_def True)
        then show ?thesis unfolding wild_split_Cons by (intro exI [of _ "c # w"] exI [of _ r]) (simp add: stands_for_def True)
      qed
    qed
    moreover have "wild_run (x # p) s \<longleftrightarrow> wild_run p s \<or> (\<exists>c cs. s = c # cs \<and> any_char c \<and> wild_run (x # p) cs)"
      unfolding wild_run.simps(2) [of x p s] using True by (cases s) simp_all
    moreover have "wild_run p s \<longleftrightarrow> wild_split p s" by (rule 2(1) [OF True])
    moreover have "wild_run (x # p) cs \<longleftrightarrow> wild_split (x # p) cs" if "s = c # cs" for c cs by (rule 2(2) [OF True that])
    ultimately show ?thesis by blast
  next
    case False
    have "wild_split (x # p) s \<longleftrightarrow> (\<exists>c cs. s = c # cs \<and> stands_for x [c] \<and> wild_split p cs)"
    proof
      assume "wild_split (x # p) s"
      then show "\<exists>c cs. s = c # cs \<and> stands_for x [c] \<and> wild_split p cs"
        using False unfolding wild_split_Cons by (auto simp: stands_for_def)
    next
      assume "\<exists>c cs. s = c # cs \<and> stands_for x [c] \<and> wild_split p cs"
      then obtain c cs where "s = [c] @ cs" "stands_for x [c]" "wild_split p cs" by auto
      then show "wild_split (x # p) s" unfolding wild_split_Cons by blast
    qed
    moreover have "wild_run (x # p) s \<longleftrightarrow> (\<exists>c cs. s = c # cs \<and> stands_for x [c] \<and> wild_run p cs)"
      unfolding wild_run.simps(2) [of x p s] using False by (cases s) (simp_all add: stands_for_def)
    moreover have "wild_run p cs \<longleftrightarrow> wild_split p cs" if "s = c # cs" for c cs by (rule 2(3) [OF False that])
    ultimately show ?thesis by blast
  qed
qed

lemma find_filter: "filter P xs = y # ys \<Longrightarrow> find P xs = Some y"
  by (induction xs) (auto split: if_splits)

lemma same_letter_refl: "same_letter c c"
  by (simp add: same_letter_def)

lemma wild_literal:
  assumes "CHR ''*'' \<notin> set p" and "CHR ''?'' \<notin> set p"
  shows "wild_run p s \<longleftrightarrow> js_lower p = js_lower s"
  using assms
proof (induction p arbitrary: s)
  case Nil
  then show ?case by (auto simp: js_lower_def)
next
  case (Cons x p)
  then show ?case by (cases s) (auto simp: wild_run.simps(2) same_letter_def js_lower_def)
qed

text \<open>
  A name matches a pattern other than the lone star exactly when it can be cut into one piece per character of the
  pattern, any piece for a star, one character for a question mark, and the same letter in either case for all others.
\<close>

theorem wildcard_match_exact:
  assumes "model \<noteq> []" and "pattern \<noteq> []" and "pattern \<noteq> ''*''" and "list_all any_char model"
  shows "wildcardMatch model pattern \<longleftrightarrow> wild_split pattern model"
proof -
  have "wild_split model model" if "list_all any_char model" for model
    using that
  proof (induction model)
    case (Cons c cs)
    have "stands_for c [c]" using Cons.prems by (auto simp: stands_for_def same_letter_refl)
    then show ?case using Cons unfolding wild_split_Cons by (intro exI [of _ "[c]"] exI [of _ cs]) simp
  qed (simp add: wild_split_def)
  then show ?thesis using assms by (auto simp: wildcardMatch_def wild_run_split)
qed

theorem wildcard_match_exact_witness:
  "wildcardMatch ''GPT-4o'' ''gpt-?*'' \<and> wild_split ''gpt-?*'' ''GPT-4o''"
proof -
  have "wildcardMatch ''GPT-4o'' ''gpt-?*''"
    by code_simp
  then show ?thesis using wildcard_match_exact [of "''GPT-4o''" "''gpt-?*''"] by (simp add: any_char_def)
qed

subsection \<open>The most specific alias\<close>

lemma sort_key_head:
  assumes "sort_key f xs = y # ys"
  shows "y \<in> set xs" and "\<forall>x \<in> set xs. f y \<le> f x" and "find (\<lambda>x. f x = f y) xs = Some y"
proof -
  have s: "sorted (map f (y # ys))" using sorted_sort_key [of f xs] unfolding assms .
  have m: "set xs = set (y # ys)" by (metis assms set_sort)
  show "y \<in> set xs" by (simp add: m)
  show "\<forall>x \<in> set xs. f y \<le> f x" using s m by auto
  have "filter (\<lambda>x. f x = f y) (sort_key f xs) = filter (\<lambda>x. f x = f y) xs" by (rule sort_key_stable)
  then have "filter (\<lambda>x. f x = f y) xs = y # filter (\<lambda>x. f x = f y) ys" unfolding assms by simp
  then show "find (\<lambda>x. f x = f y) xs = Some y" by (induction xs) (auto split: if_splits)
qed

text \<open>
  A name resolves to its exact alias if it has one, else to the target of the first of the most specific aliases
  that match it, else to itself.
\<close>

theorem resolution_order:
  assumes "model \<noteq> []"
  shows "resolveModel model exact aliases =
    (case exact_alias exact model of
       Some t \<Rightarrow> t
     | None \<Rightarrow>
         let ms = List.map_filter (alias_match model) aliases in
         case find (\<lambda>m. list_all (\<lambda>k. wm_specificity k \<le> wm_specificity m) ms) ms of
           Some m \<Rightarrow> wm_target m
         | None \<Rightarrow> model)"
proof -
  define ms where "ms = List.map_filter (alias_match model) aliases"
  have "(case sort_key (\<lambda>m. - wm_specificity m) ms of [] \<Rightarrow> None | m # _ \<Rightarrow> Some m)
      = find (\<lambda>m. list_all (\<lambda>k. wm_specificity k \<le> wm_specificity m) ms) ms"
  proof (cases "sort_key (\<lambda>m. - wm_specificity m) ms")
    case Nil
    then have "ms = []" by (metis length_0_conv length_sort)
    then show ?thesis by simp
  next
    case (Cons y ys)
    note h = sort_key_head [OF Cons]
    have "list_all (\<lambda>k. wm_specificity k \<le> wm_specificity m) ms \<longleftrightarrow> wm_specificity m = wm_specificity y" if "m \<in> set ms" for m
      using h(1,2) that by (force simp: list_all_iff)
    then have "find (\<lambda>m. list_all (\<lambda>k. wm_specificity k \<le> wm_specificity m) ms) ms = find (\<lambda>m. - wm_specificity m = - wm_specificity y) ms"
      by (intro find_cong) auto
    then show ?thesis using h(3) Cons by simp
  qed
  then show ?thesis using assms by (simp add: resolveModel_def resolveWildcardAlias_def ms_def Let_def split: option.split)
qed

text \<open>An entry whose target is empty but whose model is not gives the empty name.\<close>

lemma empty_target_wins:
  assumes "model \<noteq> []"
  shows "resolveModel model (Alias_map []) [\<lparr>wa_pattern = Some ''*'', wa_alias = None, wa_from = None, wa_target = Some [], wa_model = Some ''m'',
    wa_to = None, wa_specificity = None\<rparr>] = []"
  using assms by (simp add: resolveModel_def resolveWildcardAlias_def alias_match_def List.map_filter_def wildcardMatch_def Let_def)
end
