(* ===== verification/ApiKeyRotator.thy ===== *)
theory ApiKeyRotator
  imports JsonText
begin

text \<open>
  The rotation over the keys of a connection and their health: \<^verbatim>\<open>src/open-sse/services/apiKeyRotator.ts\<close>, the choice of
  the key of a request in \<^verbatim>\<open>src/open-sse/executors/base.ts\<close>, the recording of its outcome in
  \<^verbatim>\<open>src/open-sse/handlers/chatCore/keyHealth.ts\<close>, and the reading of a connection in \<^verbatim>\<open>src/src/sse/services/auth.ts\<close>.

  The health of a key is an object that the map of the module, and the connection a request was given, may share, and
  that is changed in place. So the module keeps references into a store of objects, \<open>ro_heap\<close>. Texts of times are the
  times; extra keys are texts.
\<close>

datatype key_status = Key_active | Key_warning | Key_invalid

record key_health =
  kh_status :: key_status
  kh_failures :: nat
  kh_lastFailure :: "int option"
  kh_lastSuccess :: "int option"
  kh_totalRequests :: nat
  kh_totalFailures :: nat

record rotator =
  ro_keyIndexes :: "(string, nat) js_map"
  ro_connectionExtraKeys :: "(string, bool) js_map"
  ro_keyHealth :: "(string, nat) js_map"
  ro_heap :: "key_health list"

definition MAX_KEY_HEALTH_ENTRIES :: nat where "MAX_KEY_HEALTH_ENTRIES = 500"
definition MAX_CONNECTION_EXTRA_KEYS :: nat where "MAX_CONNECTION_EXTRA_KEYS = 500"
definition FAILURE_THRESHOLD :: nat where "FAILURE_THRESHOLD = 2"

definition new_health :: key_health where
  "new_health = \<lparr>kh_status = Key_active, kh_failures = 0, kh_lastFailure = None, kh_lastSuccess = None,
     kh_totalRequests = 0, kh_totalFailures = 0\<rparr>"

definition not_blank :: "string \<Rightarrow> bool" where
  "not_blank k \<longleftrightarrow> js_trim k \<noteq> []"

text \<open>\<open>keys().next()\<close>, deleted where there is one.\<close>

definition drop_oldest_entry :: "(string, 'v) js_map \<Rightarrow> (string, 'v) js_map" where
  "drop_oldest_entry m = (case m of [] \<Rightarrow> m | (k, _) # _ \<Rightarrow> map_delete k m)"

definition trackConnectionExtraKeys :: "string \<Rightarrow> string list \<Rightarrow> rotator \<Rightarrow> rotator" where
  "trackConnectionExtraKeys cid extraKeys ro =
     (let m = ro_connectionExtraKeys ro;
          m1 = (if \<not> map_has m cid \<and> MAX_CONNECTION_EXTRA_KEYS \<le> length m then drop_oldest_entry m else m) in
      ro\<lparr>ro_connectionExtraKeys := map_set cid (filter not_blank extraKeys \<noteq> []) m1\<rparr>)"

definition connectionHasExtraKeys :: "string \<Rightarrow> string list option \<Rightarrow> rotator \<Rightarrow> bool" where
  "connectionHasExtraKeys cid extraKeys ro \<longleftrightarrow>
     nullish extraKeys [] \<noteq> [] \<or> nullish (map_get (ro_connectionExtraKeys ro) cid) False"

definition scoped_key :: "string \<Rightarrow> string \<Rightarrow> string" where
  "scoped_key cid kid = cid @ '':'' @ kid"

definition getOrCreateHealth :: "string \<Rightarrow> string \<Rightarrow> rotator \<Rightarrow> nat \<times> rotator" where
  "getOrCreateHealth cid kid ro =
     (case map_get (ro_keyHealth ro) (scoped_key cid kid) of
        Some i \<Rightarrow> (i, ro)
      | None \<Rightarrow>
          let m = ro_keyHealth ro; m1 = (if MAX_KEY_HEALTH_ENTRIES \<le> length m then drop_oldest_entry m else m);
              i = length (ro_heap ro) in
          (i, ro\<lparr>ro_keyHealth := map_set (scoped_key cid kid) i m1, ro_heap := ro_heap ro @ [new_health]\<rparr>))"

text \<open>What a connection carries: the objects of its row, by the identifiers of its keys.\<close>

type_synonym health_refs = "(string, nat) js_map"

definition health_or_tracked :: "health_refs option \<Rightarrow> string \<Rightarrow> string \<Rightarrow> rotator \<Rightarrow> nat \<times> rotator" where
  "health_or_tracked health cid kid ro =
     (case Option.bind health (\<lambda>h. map_get h kid) of Some i \<Rightarrow> (i, ro) | None \<Rightarrow> getOrCreateHealth cid kid ro)"

definition usable :: "nat \<Rightarrow> rotator \<Rightarrow> bool" where
  "usable i ro \<longleftrightarrow> kh_status (ro_heap ro ! i) \<noteq> Key_invalid"

definition extra_id :: "nat \<Rightarrow> string" where
  "extra_id i = ''extra_'' @ decimal i"

text \<open>The loop over the extra keys, from the index it has reached.\<close>

fun valid_extras :: "health_refs option \<Rightarrow> string \<Rightarrow> nat \<Rightarrow> string list \<Rightarrow> rotator \<Rightarrow> (string \<times> string) list \<times> rotator" where
  "valid_extras health cid i [] ro = ([], ro)"
| "valid_extras health cid i (k # ks) ro =
     (let (r, ro1) = health_or_tracked health cid (extra_id i) ro; (rest, ro2) = valid_extras health cid (Suc i) ks ro1 in
      (if usable r ro1 then (k, extra_id i) # rest else rest, ro2))"

definition valid_keys :: "string \<Rightarrow> string \<Rightarrow> string list \<Rightarrow> health_refs option \<Rightarrow> rotator \<Rightarrow> (string \<times> string) list \<times> rotator" where
  "valid_keys cid primaryKey extraKeys health ro =
     (let (first, ro1) =
            (if primaryKey = [] then ([], ro)
             else let (r, ro') = health_or_tracked health cid ''primary'' ro in
                  (if usable r ro' then [(primaryKey, ''primary'')] else [], ro'));
          (rest, ro2) = valid_extras health cid 0 (filter not_blank extraKeys) ro1 in
      (first @ rest, ro2))"

definition getValidApiKey ::
  "string \<Rightarrow> string \<Rightarrow> string list \<Rightarrow> health_refs option \<Rightarrow> rotator \<Rightarrow> (string \<times> string) option \<times> rotator" where
  "getValidApiKey cid primaryKey extraKeys health ro =
     (let (allKeys, ro1) = valid_keys cid primaryKey extraKeys health ro in
      case allKeys of
        [] \<Rightarrow> (None, ro1)
      | [k] \<Rightarrow> (Some k, ro1)
      | _ \<Rightarrow> let current = nullish (map_get (ro_keyIndexes ro1) cid) 0 in
             (Some (allKeys ! (current mod length allKeys)),
              ro1\<lparr>ro_keyIndexes := map_set cid (current + 1) (ro_keyIndexes ro1)\<rparr>))"

definition getRotatingApiKey :: "string \<Rightarrow> string \<Rightarrow> string list \<Rightarrow> rotator \<Rightarrow> string \<times> rotator" where
  "getRotatingApiKey cid primaryKey extraKeys ro =
     (let validExtras = filter not_blank extraKeys; allKeys = filter (\<lambda>k. k \<noteq> []) (primaryKey # validExtras) in
      if validExtras = [] \<or> length allKeys \<le> 1 then (primaryKey, ro)
      else let current = nullish (map_get (ro_keyIndexes ro) cid) 0 in
           (allKeys ! (current mod length allKeys), ro\<lparr>ro_keyIndexes := map_set cid (current + 1) (ro_keyIndexes ro)\<rparr>))"

text \<open>An object changed in place, and a copy of it returned.\<close>

definition mutate :: "string \<Rightarrow> string \<Rightarrow> (key_health \<Rightarrow> key_health) \<Rightarrow> rotator \<Rightarrow> key_health \<times> rotator" where
  "mutate cid kid f ro =
     (let (i, ro1) = getOrCreateHealth cid kid ro; h = f (ro_heap ro1 ! i) in
      (h, ro1\<lparr>ro_heap := (ro_heap ro1)[i := h]\<rparr>))"

definition failed_health :: "int \<Rightarrow> key_health \<Rightarrow> key_health" where
  "failed_health now h =
     (let n = kh_failures h + 1 in
      h\<lparr>kh_failures := n, kh_totalRequests := kh_totalRequests h + 1, kh_totalFailures := kh_totalFailures h + 1,
        kh_lastFailure := Some now,
        kh_status := if FAILURE_THRESHOLD \<le> n then Key_invalid else if 0 < n then Key_warning else kh_status h\<rparr>)"

definition recordKeyFailure :: "int \<Rightarrow> string \<Rightarrow> string \<Rightarrow> rotator \<Rightarrow> key_health \<times> rotator" where
  "recordKeyFailure now cid kid = mutate cid kid (failed_health now)"

definition terminal_health :: "int \<Rightarrow> key_health \<Rightarrow> key_health" where
  "terminal_health now h =
     h\<lparr>kh_failures := max (kh_failures h + 1) FAILURE_THRESHOLD, kh_totalRequests := kh_totalRequests h + 1,
       kh_totalFailures := kh_totalFailures h + 1, kh_lastFailure := Some now, kh_status := Key_invalid\<rparr>"

definition recordKeyTerminal :: "int \<Rightarrow> string \<Rightarrow> string \<Rightarrow> rotator \<Rightarrow> key_health \<times> rotator" where
  "recordKeyTerminal now cid kid = mutate cid kid (terminal_health now)"

definition succeeded_health :: "int \<Rightarrow> key_health \<Rightarrow> key_health" where
  "succeeded_health now h =
     h\<lparr>kh_failures := 0, kh_totalRequests := kh_totalRequests h + 1, kh_lastSuccess := Some now, kh_status := Key_active\<rparr>"

definition recordKeySuccess :: "int \<Rightarrow> string \<Rightarrow> string \<Rightarrow> rotator \<Rightarrow> key_health \<times> rotator" where
  "recordKeySuccess now cid kid = mutate cid kid (succeeded_health now)"

definition resetKeyStatus :: "string \<Rightarrow> string \<Rightarrow> rotator \<Rightarrow> key_health \<times> rotator" where
  "resetKeyStatus cid kid = mutate cid kid (\<lambda>h. h\<lparr>kh_failures := 0, kh_status := Key_active, kh_lastFailure := None\<rparr>)"

definition getInvalidKeyCount :: "health_refs option \<Rightarrow> rotator \<Rightarrow> nat" where
  "getInvalidKeyCount health ro = length (filter (\<lambda>p. \<not> usable (snd p) ro) (nullish health []))"

fun count_statuses :: "health_refs option \<Rightarrow> string \<Rightarrow> string list \<Rightarrow> nat \<times> nat \<times> nat \<Rightarrow> rotator \<Rightarrow> (nat \<times> nat \<times> nat) \<times> rotator" where
  "count_statuses health cid [] n ro = (n, ro)"
| "count_statuses health cid (kid # kids) (a, w, x) ro =
     (let (i, ro1) = health_or_tracked health cid kid ro in
      count_statuses health cid kids
        (case kh_status (ro_heap ro1 ! i) of
           Key_active \<Rightarrow> (a + 1, w, x) | Key_warning \<Rightarrow> (a, w + 1, x) | Key_invalid \<Rightarrow> (a, w, x + 1)) ro1)"

definition getKeyHealthStats ::
  "string \<Rightarrow> string \<Rightarrow> string list \<Rightarrow> health_refs option \<Rightarrow> rotator \<Rightarrow> (nat \<times> nat \<times> nat \<times> nat) \<times> rotator" where
  "getKeyHealthStats cid primaryKey extraKeys health ro =
     (let (counts, ro1) = count_statuses health cid (''primary'' # map extra_id [0..<length extraKeys]) (0, 0, 0) ro in
      (((if primaryKey = [] then 0 else 1) + length (filter not_blank extraKeys), counts), ro1))"

definition getAllKeyHealth :: "rotator \<Rightarrow> (string, key_health) js_map" where
  "getAllKeyHealth ro = map (\<lambda>(k, i). (k, ro_heap ro ! i)) (ro_keyHealth ro)"

fun sync_entries :: "string \<Rightarrow> health_refs \<Rightarrow> rotator \<Rightarrow> rotator" where
  "sync_entries cid [] ro = ro"
| "sync_entries cid ((kid, i) # es) ro =
     (let m = ro_keyHealth ro;
          m1 = (if \<not> map_has m (scoped_key cid kid) \<and> MAX_KEY_HEALTH_ENTRIES \<le> length m then drop_oldest_entry m else m) in
      sync_entries cid es (ro\<lparr>ro_keyHealth := map_set (scoped_key cid kid) i m1\<rparr>))"

definition syncHealthFromDB :: "string \<Rightarrow> health_refs option \<Rightarrow> rotator \<Rightarrow> rotator" where
  "syncHealthFromDB cid health ro = (case health of None \<Rightarrow> ro | Some es \<Rightarrow> sync_entries cid es ro)"

definition resetRotationIndex :: "string \<Rightarrow> rotator \<Rightarrow> rotator" where
  "resetRotationIndex cid ro = ro\<lparr>ro_keyIndexes := map_delete cid (ro_keyIndexes ro)\<rparr>"

definition getApiKeyCount :: "string \<Rightarrow> string list \<Rightarrow> nat" where
  "getApiKeyCount primaryKey extraKeys = (if primaryKey = [] then 0 else 1) + length (filter not_blank extraKeys)"

text \<open>The index in an identifier that matches \<open>extra_\<close> and digits.\<close>

definition extra_index :: "string \<Rightarrow> nat option" where
  "extra_index kid =
     (if starts_with kid ''extra_'' \<and> drop 6 kid \<noteq> [] \<and> list_all js_digit (drop 6 kid)
      then Some (nat (digits_value 0 (drop 6 kid))) else None)"

definition selected_key :: "string \<Rightarrow> string list \<Rightarrow> string \<Rightarrow> (string \<times> string) option" where
  "selected_key primaryKey extraKeys kid =
     (if kid = ''primary'' \<and> primaryKey \<noteq> [] then Some (primaryKey, ''primary'')
      else case extra_index kid of
             Some i \<Rightarrow> if i < length extraKeys \<and> not_blank (extraKeys ! i) then Some (extraKeys ! i, kid) else None
           | None \<Rightarrow> None)"

definition resolveKeyForRequest ::
  "string \<Rightarrow> string \<Rightarrow> string list \<Rightarrow> string option \<Rightarrow> rotator \<Rightarrow> (string \<times> string) option \<times> rotator" where
  "resolveKeyForRequest cid primaryKey extraKeys selectedKeyId ro =
     (case nullish selectedKeyId [] of
        [] \<Rightarrow> getValidApiKey cid primaryKey extraKeys None ro
      | kid \<Rightarrow>
          let (i, ro1) = getOrCreateHealth cid kid ro in
          case (if usable i ro1 then selected_key primaryKey extraKeys kid else None) of
            Some k \<Rightarrow> (Some k, ro1)
          | None \<Rightarrow> getValidApiKey cid primaryKey extraKeys None ro1)"

definition removeConnectionHealth :: "string \<Rightarrow> rotator \<Rightarrow> rotator" where
  "removeConnectionHealth cid ro = ro\<lparr>ro_keyHealth := filter (\<lambda>(k, _). \<not> starts_with k (scoped_key cid [])) (ro_keyHealth ro)\<rparr>"

definition removeConnectionIndex :: "string \<Rightarrow> rotator \<Rightarrow> rotator" where
  "removeConnectionIndex cid ro =
     removeConnectionHealth cid
       (ro\<lparr>ro_keyIndexes := map_delete cid (ro_keyIndexes ro), ro_connectionExtraKeys := map_delete cid (ro_connectionExtraKeys ro)\<rparr>)"

subsection \<open>A connection and its requests\<close>

text \<open>
  What the row of a connection holds of it, and what a request is given: the same with references to the objects of the
  health of its keys.
\<close>

record 'h provider_data =
  pd_extraApiKeys :: "string list option"
  pd_selectedKeyId :: "string option"
  pd_apiKeyHealth :: "(string, 'h) js_map option"

record credentials =
  cr_connectionId :: "string option"
  cr_apiKey :: "string option"
  cr_accessToken :: "string option"
  cr_data :: "nat provider_data option"

text \<open>\<open>recoverKeyHealth\<close>: the data with the recovered key, or nothing where there is nothing to recover.\<close>

definition with_health :: "string \<Rightarrow> key_health \<Rightarrow> nat provider_data option \<Rightarrow> rotator \<Rightarrow> key_health provider_data" where
  "with_health kid h data ro =
     (let old = (case Option.bind data pd_apiKeyHealth of Some es \<Rightarrow> map (\<lambda>(k, i). (k, ro_heap ro ! i)) es | None \<Rightarrow> []) in
      \<lparr>pd_extraApiKeys = Option.bind data pd_extraApiKeys, pd_selectedKeyId = Option.bind data pd_selectedKeyId,
        pd_apiKeyHealth = Some (map_set kid h old)\<rparr>)"

definition recoverKeyHealth ::
  "int \<Rightarrow> string \<Rightarrow> string \<Rightarrow> nat provider_data option \<Rightarrow> rotator \<Rightarrow> key_health provider_data option \<times> rotator" where
  "recoverKeyHealth now cid kid data ro =
     (let health = Option.bind data pd_apiKeyHealth in
      case Option.bind health (\<lambda>h. map_get h kid) of
        None \<Rightarrow> (None, ro)
      | Some i \<Rightarrow>
          let current = ro_heap ro ! i in
          if kh_status current = Key_active \<and> kh_failures current = 0 then (None, ro)
          else let (h, ro1) = recordKeySuccess now cid kid (syncHealthFromDB cid health ro) in
               (Some (with_health kid h data ro1), ro1))"

text \<open>\<open>resolveEffectiveKey\<close>: the key of a request; the identifier of the key is noted in the data of the connection.\<close>

definition resolveEffectiveKey :: "credentials \<Rightarrow> rotator \<Rightarrow> string option \<times> credentials \<times> rotator" where
  "resolveEffectiveKey creds ro =
     (let validExtras = filter not_blank (nullish (Option.bind (cr_data creds) pd_extraApiKeys) []);
          cid = nullish (cr_connectionId creds) [] in
      if validExtras \<noteq> [] \<and> cid \<noteq> [] then
        let (resolved, ro1) =
              resolveKeyForRequest cid (nullish (cr_apiKey creds) []) validExtras
                (Option.bind (cr_data creds) pd_selectedKeyId) ro in
        case resolved of
          None \<Rightarrow> (cr_apiKey creds, creds, ro1)
        | Some (key, kid) \<Rightarrow> (Some key, creds\<lparr>cr_data := map_option (\<lambda>d. d\<lparr>pd_selectedKeyId := Some kid\<rparr>) (cr_data creds)\<rparr>, ro1)
      else (cr_apiKey creds, creds, ro))"

text \<open>
  Which rejections speak against the key. The texts are searched by regular expressions and by the fragments of the
  fallback between model families, which are given: \<open>unavailable\<close> and \<open>credential\<close>.
\<close>

record failure_texts =
  ft_unavailable :: "int \<Rightarrow> string \<Rightarrow> bool"
  ft_credential :: "string \<Rightarrow> bool"

text \<open>\<open>replace(/[_-]+/g, " ")\<close>.\<close>

definition joiner :: "char \<Rightarrow> bool" where
  "joiner c \<longleftrightarrow> c = CHR ''_'' \<or> c = CHR ''-''"

fun spaced :: "string \<Rightarrow> string" where
  "spaced [] = []"
| "spaced (c # cs) =
     (if joiner c then (case cs of d # _ \<Rightarrow> if joiner d then spaced cs else CHR '' '' # spaced cs | [] \<Rightarrow> '' '')
      else c # spaced cs)"

definition isModelCapabilityFailure :: "failure_texts \<Rightarrow> int \<Rightarrow> string \<Rightarrow> bool" where
  "isModelCapabilityFailure texts status detail \<longleftrightarrow>
     detail \<noteq> [] \<and> ft_unavailable texts (if status = 401 then 403 else status) (spaced detail)"

definition isCredentialFailure :: "failure_texts \<Rightarrow> int \<Rightarrow> string \<Rightarrow> bool" where
  "isCredentialFailure texts status detail \<longleftrightarrow>
     (status = 401 \<or> status = 403) \<and> \<not> isModelCapabilityFailure texts status detail
     \<and> (status = 401 \<or> ft_credential texts detail)"

text \<open>The data that is written to the row, where anything is, and the state after it.\<close>

definition recordKeyHealthStatus ::
  "failure_texts \<Rightarrow> int \<Rightarrow> int \<Rightarrow> credentials option \<Rightarrow> string option \<Rightarrow> string \<Rightarrow> rotator
    \<Rightarrow> key_health provider_data option \<times> rotator" where
  "recordKeyHealthStatus texts now status creds transport detail ro =
     (let cid = nullish (Option.bind creds cr_connectionId) []; data = Option.bind creds cr_data;
          health = Option.bind data pd_apiKeyHealth;
          kid = nullish (Option.bind data pd_selectedKeyId) ''primary'';
          ro1 = trackConnectionExtraKeys cid (nullish (Option.bind data pd_extraApiKeys) []) ro;
          before = (\<lambda>r. map_option (\<lambda>i. ro_heap r ! i) (Option.bind health (\<lambda>h. map_get h kid))) in
      if transport = Some ''cliproxyapi'' \<or> cid = []
         \<or> nullish (Option.bind creds cr_apiKey) [] = [] \<and> nullish (Option.bind creds cr_accessToken) [] = []
      then (None, ro)
      else if isCredentialFailure texts status detail then
        let (h, ro2) = recordKeyFailure now cid kid ro1; prev = before ro2 in
        (if Some (kh_status h) \<noteq> map_option kh_status prev \<or> kh_failures h \<noteq> (case prev of Some p \<Rightarrow> kh_failures p | None \<Rightarrow> 0)
         then Some (with_health kid h data ro2) else None, ro2)
      else if status = 402 then
        let (h, ro2) = recordKeyTerminal now cid kid ro1; prev = before ro2 in
        (if Some (kh_status h) \<noteq> map_option kh_status prev then Some (with_health kid h data ro2) else None, ro2)
      else if 200 \<le> status \<and> status < 300 then
        let (h, ro2) = recordKeySuccess now cid kid ro1; prev = before ro2 in
        (if map_option kh_status prev \<in> {Some Key_warning, Some Key_invalid} then Some (with_health kid h data ro2) else None, ro2)
      else (None, ro1))"

text \<open>
  A connection read from its row: new objects, which the tracked health of its keys becomes.
\<close>

definition materialize :: "string \<Rightarrow> string option \<Rightarrow> string option \<Rightarrow> key_health provider_data \<Rightarrow> rotator \<Rightarrow> credentials \<times> rotator" where
  "materialize cid apiKey accessToken row ro =
     (let n = length (ro_heap ro);
          refs = map_option (\<lambda>es. zip (map fst es) [n..<n + length es]) (pd_apiKeyHealth row);
          new_objects = map snd (nullish (pd_apiKeyHealth row) []) in
      (\<lparr>cr_connectionId = Some cid, cr_apiKey = apiKey, cr_accessToken = accessToken,
        cr_data = Some \<lparr>pd_extraApiKeys = pd_extraApiKeys row, pd_selectedKeyId = pd_selectedKeyId row, pd_apiKeyHealth = refs\<rparr>\<rparr>,
       syncHealthFromDB cid refs (ro\<lparr>ro_heap := ro_heap ro @ new_objects\<rparr>)))"

subsection \<open>The shape of the state\<close>

definition rotator_inv :: "rotator \<Rightarrow> bool" where
  "rotator_inv ro \<longleftrightarrow>
     map_wf (ro_keyHealth ro) \<and> length (ro_keyHealth ro) \<le> MAX_KEY_HEALTH_ENTRIES
     \<and> (\<forall>k i. map_get (ro_keyHealth ro) k = Some i \<longrightarrow> i < length (ro_heap ro))"

text \<open>The health the module keeps for a key.\<close>

definition tracked_health :: "rotator \<Rightarrow> string \<Rightarrow> key_health option" where
  "tracked_health ro k = map_option (\<lambda>i. ro_heap ro ! i) (map_get (ro_keyHealth ro) k)"

lemma drop_oldest_wf: "map_wf m \<Longrightarrow> map_wf (drop_oldest_entry m)"
  by (auto simp: drop_oldest_entry_def map_wf_delete split: list.split)

lemma drop_oldest_less: "m \<noteq> [] \<Longrightarrow> length (drop_oldest_entry m) < length m"
  by (cases m) (auto simp: drop_oldest_entry_def less_Suc_eq_le length_delete_le split: prod.split)

lemma drop_oldest_get: "map_get (drop_oldest_entry m) k = Some i \<Longrightarrow> map_get m k = Some i"
  by (auto simp: drop_oldest_entry_def split: list.splits if_splits)

lemma make_room:
  assumes "map_wf m" and "length m \<le> cap" and "0 < cap"
    and "m1 = (if \<not> map_has m k \<and> cap \<le> length m then drop_oldest_entry m else m)"
  shows "map_wf (map_set k v m1)" and "length (map_set k v m1) \<le> cap"
    and "map_get (map_set k v m1) j = Some i \<Longrightarrow> j = k \<and> i = v \<or> map_get m j = Some i"
proof -
  show "map_wf (map_set k v m1)" using assms by (auto intro: map_wf_set drop_oldest_wf)
  show "length (map_set k v m1) \<le> cap"
  proof (cases "map_has m k")
    case True
    then show ?thesis using assms by (simp add: length_set_present)
  next
    case False
    have "length m1 < cap"
      using False assms drop_oldest_less [of m] by (cases "m = []") auto
    then show ?thesis using jsmap.count_put_le [of k v m1] by simp
  qed
  show "map_get (map_set k v m1) j = Some i \<Longrightarrow> j = k \<and> i = v \<or> map_get m j = Some i"
    using assms(4) by (auto split: if_splits dest: drop_oldest_get)
qed

lemma max_entries_pos [simp]: "0 < MAX_KEY_HEALTH_ENTRIES"
  by (simp add: MAX_KEY_HEALTH_ENTRIES_def)

lemma getOrCreate_inv:
  assumes "rotator_inv ro"
  shows "rotator_inv (snd (getOrCreateHealth cid kid ro))"
    and "fst (getOrCreateHealth cid kid ro) < length (ro_heap (snd (getOrCreateHealth cid kid ro)))"
    and "map_get (ro_keyHealth (snd (getOrCreateHealth cid kid ro))) (scoped_key cid kid) = Some (fst (getOrCreateHealth cid kid ro))"
proof -
  have "rotator_inv (snd (getOrCreateHealth cid kid ro))
    \<and> fst (getOrCreateHealth cid kid ro) < length (ro_heap (snd (getOrCreateHealth cid kid ro)))
    \<and> map_get (ro_keyHealth (snd (getOrCreateHealth cid kid ro))) (scoped_key cid kid) = Some (fst (getOrCreateHealth cid kid ro))"
  proof (cases "map_get (ro_keyHealth ro) (scoped_key cid kid)")
    case None
    define m where "m = ro_keyHealth ro"
    define m1 where "m1 = (if MAX_KEY_HEALTH_ENTRIES \<le> length m then drop_oldest_entry m else m)"
    have i: "map_wf m" "length m \<le> MAX_KEY_HEALTH_ENTRIES" "\<And>k i. map_get m k = Some i \<Longrightarrow> i < length (ro_heap ro)"
      using assms by (simp_all add: rotator_inv_def m_def)
    have "m1 = (if \<not> map_has m (scoped_key cid kid) \<and> MAX_KEY_HEALTH_ENTRIES \<le> length m then drop_oldest_entry m else m)"
      using None by (simp add: m1_def m_def)
    note r = make_room [OF i(1, 2) max_entries_pos this, of "length (ro_heap ro)"]
    have less: "i < Suc (length (ro_heap ro))" if "map_get (map_set (scoped_key cid kid) (length (ro_heap ro)) m1) j = Some i" for i j
      using r(3) [OF that] i(3) less_Suc_eq by blast
    have "getOrCreateHealth cid kid ro = (length (ro_heap ro), ro\<lparr>ro_keyHealth := map_set (scoped_key cid kid) (length (ro_heap ro)) m1,
        ro_heap := ro_heap ro @ [new_health]\<rparr>)"
      using None by (simp add: getOrCreateHealth_def Let_def m1_def m_def)
    then show ?thesis using r(1, 2) less by (simp add: rotator_inv_def)
  qed (use assms in \<open>simp add: getOrCreateHealth_def rotator_inv_def\<close>)
  then show "rotator_inv (snd (getOrCreateHealth cid kid ro))"
    "fst (getOrCreateHealth cid kid ro) < length (ro_heap (snd (getOrCreateHealth cid kid ro)))"
    "map_get (ro_keyHealth (snd (getOrCreateHealth cid kid ro))) (scoped_key cid kid) = Some (fst (getOrCreateHealth cid kid ro))"
    by simp_all
qed

lemma mutate_inv: "rotator_inv ro \<Longrightarrow> rotator_inv (snd (mutate cid kid f ro))"
  using getOrCreate_inv(1) [of ro cid kid] by (simp add: mutate_def Let_def split_beta rotator_inv_def)

lemma rotator_inv_cong: "ro_keyHealth ro' = ro_keyHealth ro \<Longrightarrow> ro_heap ro' = ro_heap ro \<Longrightarrow> rotator_inv ro' = rotator_inv ro"
  by (simp add: rotator_inv_def)

lemma health_or_tracked_inv: "rotator_inv ro \<Longrightarrow> rotator_inv (snd (health_or_tracked health cid kid ro))"
  by (auto simp: health_or_tracked_def getOrCreate_inv(1) split: option.split)

lemma valid_extras_inv: "rotator_inv ro \<Longrightarrow> rotator_inv (snd (valid_extras health cid i ks ro))"
  by (induction ks arbitrary: i ro) (simp_all add: split_beta health_or_tracked_inv)

lemma asked_inv:
  assumes "rotator_inv ro"
  shows "rotator_inv (snd (getValidApiKey cid p es health ro))"
proof -
  have "rotator_inv (snd (valid_keys cid p es health ro))"
    using assms by (simp add: valid_keys_def split_beta valid_extras_inv health_or_tracked_inv)
  moreover have "ro_keyHealth (snd (getValidApiKey cid p es health ro)) = ro_keyHealth (snd (valid_keys cid p es health ro))"
    "ro_heap (snd (getValidApiKey cid p es health ro)) = ro_heap (snd (valid_keys cid p es health ro))"
    by (simp_all add: getValidApiKey_def split_beta Let_def split: list.split)
  ultimately show ?thesis
    by (simp only: rotator_inv_cong [of "snd (getValidApiKey cid p es health ro)" "snd (valid_keys cid p es health ro)"])
qed

lemma resumed_inv: "rotator_inv ro \<Longrightarrow> rotator_inv (snd (resolveKeyForRequest cid p es sel ro))"
  by (auto simp: resolveKeyForRequest_def split_beta Let_def asked_inv getOrCreate_inv(1) split: list.split option.split)

subsection \<open>Rotation\<close>

text \<open>The keys of a connection with their identifiers, and those not known to be invalid.\<close>

definition candidates :: "string \<Rightarrow> string list \<Rightarrow> (string \<times> string) list" where
  "candidates primaryKey extraKeys =
     (let ks = filter not_blank extraKeys in
      (if primaryKey = [] then [] else [(primaryKey, ''primary'')]) @ zip ks (map extra_id [0..<length ks]))"

definition in_health :: "rotator \<Rightarrow> string \<Rightarrow> string \<Rightarrow> bool" where
  "in_health ro cid kid \<longleftrightarrow> (case tracked_health ro (scoped_key cid kid) of Some h \<Rightarrow> kh_status h \<noteq> Key_invalid | None \<Rightarrow> True)"

definition known :: "rotator \<Rightarrow> string \<Rightarrow> string \<Rightarrow> bool" where
  "known ro cid kid \<longleftrightarrow> map_has (ro_keyHealth ro) (scoped_key cid kid)"

lemma known_health:
  assumes "known ro cid kid"
  shows "snd (health_or_tracked None cid kid ro) = ro"
    and "usable (fst (health_or_tracked None cid kid ro)) ro = in_health ro cid kid"
  using assms by (auto simp: known_def health_or_tracked_def getOrCreateHealth_def in_health_def tracked_health_def usable_def)

lemma valid_extras_known:
  assumes "\<forall>j < length ks. known ro cid (extra_id (i + j))"
  shows "valid_extras None cid i ks ro
    = (filter (\<lambda>(_, kid). in_health ro cid kid) (zip ks (map extra_id [i..<i + length ks])), ro)"
  using assms
proof (induction ks arbitrary: i)
  case (Cons k ks)
  have k0: "known ro cid (extra_id i)" using Cons.prems by force
  have a: "\<forall>j < length ks. known ro cid (extra_id (Suc i + j))" using Cons.prems by (metis Suc_less_eq add_Suc_shift length_Cons)
  have "[i..<i + length (k # ks)] = i # [Suc i..<Suc i + length ks]" by (simp add: upt_conv_Cons del: upt_Suc)
  note u = this
  from Cons.IH [OF a] u known_health [OF k0] show ?case
    by (cases "health_or_tracked None cid (extra_id i) ro") (simp del: upt_Suc)
qed simp

lemma valid_keys_known:
  assumes "\<forall>(k, kid) \<in> set (candidates primaryKey extraKeys). known ro cid kid"
  shows "valid_keys cid primaryKey extraKeys None ro
    = (filter (\<lambda>(_, kid). in_health ro cid kid) (candidates primaryKey extraKeys), ro)"
proof -
  let ?ks = "filter not_blank extraKeys"
  have "\<forall>j < length ?ks. known ro cid (extra_id (0 + j))"
  proof (intro allI impI)
    fix j assume j: "j < length ?ks"
    then have "(?ks ! j, extra_id j) \<in> set (zip ?ks (map extra_id [0..<length ?ks]))"
      by (auto simp: in_set_zip intro!: exI [of _ j])
    then show "known ro cid (extra_id (0 + j))" using assms by (auto simp: candidates_def Let_def)
  qed
  note e = valid_extras_known [OF this]
  show ?thesis
  proof (cases "primaryKey = []")
    case True
    then show ?thesis using e by (simp add: valid_keys_def candidates_def Let_def)
  next
    case False
    then have "known ro cid ''primary''" using assms by (auto simp: candidates_def Let_def)
    from known_health [OF this] show ?thesis using e False
      by (cases "health_or_tracked None cid ''primary'' ro") (simp add: valid_keys_def candidates_def Let_def)
  qed
qed

text \<open>Requests one after the other.\<close>

fun key_requests :: "nat \<Rightarrow> string \<Rightarrow> string \<Rightarrow> string list \<Rightarrow> rotator \<Rightarrow> (string \<times> string) option list" where
  "key_requests 0 cid primaryKey extraKeys ro = []"
| "key_requests (Suc n) cid primaryKey extraKeys ro =
     (let (k, ro1) = getValidApiKey cid primaryKey extraKeys None ro in k # key_requests n cid primaryKey extraKeys ro1)"

lemma turn_of:
  assumes "\<forall>(k, kid) \<in> set (candidates p es). known ro cid kid"
    and "ks = filter (\<lambda>(_, kid). in_health ro cid kid) (candidates p es)" and "2 \<le> length ks"
  shows "getValidApiKey cid p es None ro
    = (Some (ks ! (nullish (map_get (ro_keyIndexes ro) cid) 0 mod length ks)),
       ro\<lparr>ro_keyIndexes := map_set cid (nullish (map_get (ro_keyIndexes ro) cid) 0 + 1) (ro_keyIndexes ro)\<rparr>)"
  using valid_keys_known [OF assms(1)] assms(2, 3)
  by (auto simp: getValidApiKey_def Let_def split: list.split)

lemma requests_in_turn:
  assumes "\<forall>(k, kid) \<in> set (candidates p es). known ro cid kid"
    and "ks = filter (\<lambda>(_, kid). in_health ro cid kid) (candidates p es)" and "2 \<le> length ks"
    and "i = nullish (map_get (ro_keyIndexes ro) cid) 0"
  shows "key_requests n cid p es ro = map (\<lambda>j. Some (ks ! ((i + j) mod length ks))) [0..<n]"
  using assms
proof (induction n arbitrary: ro i)
  case (Suc n)
  let ?ro = "ro\<lparr>ro_keyIndexes := map_set cid (i + 1) (ro_keyIndexes ro)\<rparr>"
  have "known ?ro = known ro" "in_health ?ro = in_health ro" by (simp_all add: fun_eq_iff known_def in_health_def tracked_health_def)
  then have "key_requests n cid p es ?ro = map (\<lambda>j. Some (ks ! ((i + 1 + j) mod length ks))) [0..<n]"
    using Suc.prems by (intro Suc.IH) simp_all
  moreover have "getValidApiKey cid p es None ro = (Some (ks ! (i mod length ks)), ?ro)"
    using turn_of [OF Suc.prems(1-3)] Suc.prems(4) by simp
  moreover have "map (\<lambda>j. Some (ks ! ((i + j) mod length ks))) [0..<Suc n]
    = Some (ks ! (i mod length ks)) # map (\<lambda>j. Some (ks ! ((i + 1 + j) mod length ks))) [0..<n]"
    by (simp only: upt_conv_Cons [of 0 "Suc n"] map_upt_Suc map_Suc_upt [symmetric] zero_less_Suc) simp
  ultimately show ?case by simp
qed simp

lemma mset_turns:
  assumes "n = length ks"
  shows "mset (map (\<lambda>j. ks ! ((i + j) mod n)) [0..<n]) = mset ks"
proof (cases "n = 0")
  case False
  have "map (\<lambda>j. ks ! ((i + j) mod n)) [0..<n] = rotate i ks"
    using False assms by (intro nth_equalityI) (simp_all add: nth_rotate add.commute)
  moreover have "mset (rotate i ks) = mset (take (i mod n) ks @ drop (i mod n) ks)"
    by (simp only: rotate_drop_take mset_append assms union_commute)
  ultimately show ?thesis by simp
qed (use assms in simp)

text \<open>
  C35: While nothing changes the health of its keys, a connection with at least two keys not known to be invalid hands
  them out in turn and no other: as many requests as there are such keys get each exactly once, and a blank key or an
  invalid one is never used.
\<close>

theorem keys_in_turn:
  assumes "\<forall>(k, kid) \<in> set (candidates primaryKey extraKeys). known ro cid kid"
    and "ks = filter (\<lambda>(_, kid). in_health ro cid kid) (candidates primaryKey extraKeys)" and "2 \<le> length ks"
  shows "key_requests n cid primaryKey extraKeys ro
      = map (\<lambda>j. Some (ks ! ((nullish (map_get (ro_keyIndexes ro) cid) 0 + j) mod length ks))) [0..<n]
    \<and> mset (key_requests (length ks) cid primaryKey extraKeys ro) = image_mset Some (mset ks)"
proof -
  note r = requests_in_turn [OF assms refl]
  have "key_requests (length ks) cid primaryKey extraKeys ro
    = map Some (map (\<lambda>j. ks ! ((nullish (map_get (ro_keyIndexes ro) cid) 0 + j) mod length ks)) [0..<length ks])"
    by (simp only: r map_map comp_def)
  then have "mset (key_requests (length ks) cid primaryKey extraKeys ro) = image_mset Some (mset ks)"
    by (simp only: mset_map [of Some] mset_turns [OF refl])
  then show ?thesis using r by (intro conjI)
qed

subsection \<open>Judging a key\<close>

text \<open>
  The events of a process that change the health of keys, create it or read it: a connection is decoded from its row and
  given to a request, or tested by the administrator, with its key found good (\<^verbatim>\<open>src/src/app/api/providers/[id]/test\<close>),
  and a connection is deleted.
\<close>

definition tested_good :: "int \<Rightarrow> string \<Rightarrow> string \<Rightarrow> key_health provider_data \<Rightarrow> rotator \<Rightarrow> rotator" where
  "tested_good now cid kid row ro =
     (let n = length (ro_heap ro);
          refs = map_option (\<lambda>es. zip (map fst es) [n..<n + length es]) (pd_apiKeyHealth row) in
      snd (recoverKeyHealth now cid kid
        (Some \<lparr>pd_extraApiKeys = pd_extraApiKeys row, pd_selectedKeyId = pd_selectedKeyId row, pd_apiKeyHealth = refs\<rparr>)
        (ro\<lparr>ro_heap := ro_heap ro @ map snd (nullish (pd_apiKeyHealth row) [])\<rparr>)))"

datatype key_event =
    Key_rejected int string string
  | Key_terminal int string string
  | Key_succeeded int string string
  | Key_restored string string
  | Key_asked string string "string list"
  | Key_resumed string string "string list" "string option"
  | Key_read string "key_health provider_data"
  | Key_tested int string string "key_health provider_data"
  | Key_removed string

fun key_step :: "rotator \<Rightarrow> key_event \<Rightarrow> rotator" where
  "key_step ro (Key_rejected now cid kid) = snd (recordKeyFailure now cid kid ro)"
| "key_step ro (Key_terminal now cid kid) = snd (recordKeyTerminal now cid kid ro)"
| "key_step ro (Key_succeeded now cid kid) = snd (recordKeySuccess now cid kid ro)"
| "key_step ro (Key_restored cid kid) = snd (resetKeyStatus cid kid ro)"
| "key_step ro (Key_asked cid p es) = snd (getValidApiKey cid p es None ro)"
| "key_step ro (Key_resumed cid p es sel) = snd (resolveKeyForRequest cid p es sel ro)"
| "key_step ro (Key_read cid row) = snd (materialize cid None None row ro)"
| "key_step ro (Key_tested now cid kid row) = tested_good now cid kid row ro"
| "key_step ro (Key_removed cid) = removeConnectionIndex cid (removeConnectionHealth cid ro)"

text \<open>Objects new to the map are entered one by one.\<close>

lemma more_objects_inv: "rotator_inv ro \<Longrightarrow> rotator_inv (ro\<lparr>ro_heap := ro_heap ro @ hs\<rparr>)"
  by (auto simp: rotator_inv_def intro: trans_less_add1)

lemma sync_entries_inv:
  assumes "rotator_inv ro" and "\<forall>(kid, i) \<in> set es. i < length (ro_heap ro)"
  shows "rotator_inv (sync_entries cid es ro) \<and> ro_heap (sync_entries cid es ro) = ro_heap ro"
  using assms
proof (induction es arbitrary: ro)
  case (Cons e es)
  obtain kid i where e: "e = (kid, i)" by (cases e)
  define m1 where "m1 = (if \<not> map_has (ro_keyHealth ro) (scoped_key cid kid) \<and> MAX_KEY_HEALTH_ENTRIES \<le> length (ro_keyHealth ro)
    then drop_oldest_entry (ro_keyHealth ro) else ro_keyHealth ro)"
  have i: "map_wf (ro_keyHealth ro)" "length (ro_keyHealth ro) \<le> MAX_KEY_HEALTH_ENTRIES"
      "\<And>k j. map_get (ro_keyHealth ro) k = Some j \<Longrightarrow> j < length (ro_heap ro)"
    using Cons.prems(1) by (simp_all add: rotator_inv_def)
  note r = make_room [OF i(1, 2) max_entries_pos m1_def, of i]
  have "j < length (ro_heap ro)" if "map_get (map_set (scoped_key cid kid) i m1) k = Some j" for k j
    using r(3) [OF that] i(3) Cons.prems(2) e by auto
  then have "rotator_inv (ro\<lparr>ro_keyHealth := map_set (scoped_key cid kid) i m1\<rparr>)"
    using r(1, 2) by (simp add: rotator_inv_def)
  then have "rotator_inv (sync_entries cid es (ro\<lparr>ro_keyHealth := map_set (scoped_key cid kid) i m1\<rparr>))
    \<and> ro_heap (sync_entries cid es (ro\<lparr>ro_keyHealth := map_set (scoped_key cid kid) i m1\<rparr>)) = ro_heap ro"
    using Cons.IH [of "ro\<lparr>ro_keyHealth := map_set (scoped_key cid kid) i m1\<rparr>"] Cons.prems(2) by simp
  then show ?case unfolding e sync_entries.simps Let_def m1_def [symmetric] .
qed simp

text \<open>The references to the objects of a row, and the state that has them.\<close>

definition row_refs :: "(string, key_health) js_map \<Rightarrow> rotator \<Rightarrow> health_refs" where
  "row_refs hs ro = zip (map fst hs) [length (ro_heap ro)..<length (ro_heap ro) + length hs]"

definition with_objects :: "(string, key_health) js_map \<Rightarrow> rotator \<Rightarrow> rotator" where
  "with_objects hs ro = ro\<lparr>ro_heap := ro_heap ro @ map snd hs\<rparr>"

lemma refs_bounds: "(kid, i) \<in> set (row_refs hs ro) \<Longrightarrow> length (ro_heap ro) \<le> i \<and> i < length (ro_heap ro) + length hs"
  by (auto simp: row_refs_def dest!: set_zip_rightD)

lemma loaded_inv:
  assumes "rotator_inv ro"
  shows "rotator_inv (with_objects hs ro)" and "rotator_inv (sync_entries cid (row_refs hs ro) (with_objects hs ro))"
proof -
  show w: "rotator_inv (with_objects hs ro)" unfolding with_objects_def by (rule more_objects_inv [OF assms])
  show "rotator_inv (sync_entries cid (row_refs hs ro) (with_objects hs ro))"
    using refs_bounds by (intro conjunct1 [OF sync_entries_inv [OF w]]) (auto simp: with_objects_def)
qed

lemma read_eq:
  "snd (materialize cid p t row ro) =
     (case pd_apiKeyHealth row of None \<Rightarrow> ro | Some hs \<Rightarrow> sync_entries cid (row_refs hs ro) (with_objects hs ro))"
  by (simp add: materialize_def Let_def syncHealthFromDB_def row_refs_def with_objects_def split: option.split)

text \<open>A test finds nothing to recover where the row knows nothing of the key, or nothing against it.\<close>

definition recovers :: "string \<Rightarrow> (string, key_health) js_map \<Rightarrow> bool" where
  "recovers kid hs \<longleftrightarrow> (case map_get hs kid of None \<Rightarrow> False | Some h \<Rightarrow> \<not> (kh_status h = Key_active \<and> kh_failures h = 0))"

lemma objects_at: "\<forall>j < length hs. ro_heap (with_objects hs ro) ! (length (ro_heap ro) + j) = snd (hs ! j)"
  by (simp add: with_objects_def nth_append)

lemma refs_get:
  "case map_get hs kid of None \<Rightarrow> map_get (row_refs hs ro) kid = None
   | Some h \<Rightarrow> \<exists>i. map_get (row_refs hs ro) kid = Some i \<and> ro_heap (with_objects hs ro) ! i = h"
proof -
  have "case map_get hs kid of None \<Rightarrow> map_get (zip (map fst hs) [n..<n + length hs]) kid = None
    | Some h \<Rightarrow> \<exists>i. map_get (zip (map fst hs) [n..<n + length hs]) kid = Some i \<and> H ! i = h"
    if "\<forall>j < length hs. H ! (n + j) = snd (hs ! j)" for n and H :: "key_health list"
    using that
  proof (induction hs arbitrary: n)
    case (Cons e hs)
    have "[n..<n + length (e # hs)] = n # [Suc n..<Suc n + length hs]" by (simp add: upt_conv_Cons del: upt_Suc)
    moreover have "\<forall>j < length hs. H ! (Suc n + j) = snd (hs ! j)" using Cons.prems by (metis Suc_less_eq add_Suc_shift length_Cons nth_Cons_Suc)
    note Cons.IH [OF this]
    moreover have "H ! n = snd e" using Cons.prems by force
    ultimately show ?case by (cases e) (auto simp del: upt_Suc split: option.splits)
  qed simp
  from this [OF objects_at] show ?thesis unfolding row_refs_def .
qed

lemma tested_eq:
  "tested_good now cid kid row ro =
     (case pd_apiKeyHealth row of
        None \<Rightarrow> ro
      | Some hs \<Rightarrow>
          if recovers kid hs then snd (recordKeySuccess now cid kid (sync_entries cid (row_refs hs ro) (with_objects hs ro)))
          else with_objects hs ro)"
proof (cases "pd_apiKeyHealth row")
  case (Some hs)
  have t: "tested_good now cid kid row ro = snd (recoverKeyHealth now cid kid
      (Some \<lparr>pd_extraApiKeys = pd_extraApiKeys row, pd_selectedKeyId = pd_selectedKeyId row, pd_apiKeyHealth = Some (row_refs hs ro)\<rparr>)
      (with_objects hs ro))"
    by (simp add: tested_good_def Some Let_def row_refs_def with_objects_def)
  show ?thesis using refs_get [where kid = kid and hs = hs and ro = ro]
    by (cases "map_get hs kid") (auto simp: t Some recoverKeyHealth_def recovers_def syncHealthFromDB_def Let_def split_beta)
qed (simp add: tested_good_def recoverKeyHealth_def Let_def)

lemma read_inv: "rotator_inv ro \<Longrightarrow> rotator_inv (snd (materialize cid p t row ro))"
  by (simp add: read_eq loaded_inv split: option.split)

lemma tested_inv: "rotator_inv ro \<Longrightarrow> rotator_inv (tested_good now cid kid row ro)"
  by (simp add: tested_eq loaded_inv recordKeySuccess_def mutate_inv split: option.split)

lemma filter_get: "map_get (filter (\<lambda>(k, _). P k) m) k = (if P k then map_get m k else None)"
  by (induction m) auto

lemma removed_inv: "rotator_inv ro \<Longrightarrow> rotator_inv (removeConnectionIndex cid (removeConnectionHealth cid ro))"
  by (auto simp: rotator_inv_def removeConnectionIndex_def removeConnectionHealth_def distinct_map_filter filter_get
    intro: order_trans [OF length_filter_le] split: if_splits)

interpretation rotation: step_invariant key_step "\<lambda>_. True" rotator_inv
proof
  fix ro ev
  assume "rotator_inv ro"
  then show "rotator_inv (key_step ro ev)"
    by (cases ev) (simp_all add: recordKeyFailure_def recordKeyTerminal_def recordKeySuccess_def resetKeyStatus_def
      mutate_inv asked_inv resumed_inv read_inv tested_inv removed_inv)
qed

text \<open>
  A verdict on a key: its failures in a row and what it is held to be. What an event says of the key with a scoped
  identifier: a rejection counts on, a terminal failure counts as two at least, and a row that is read puts its own verdict
  in the place of what was seen since it was written.
\<close>

type_synonym verdict = "nat \<times> key_status"

definition clean :: verdict where
  "clean = (0, Key_active)"

definition verdict_of :: "key_health \<Rightarrow> verdict" where
  "verdict_of h = (kh_failures h, kh_status h)"

lemma verdict_iff: "verdict_of h = v \<longleftrightarrow> kh_failures h = fst v \<and> kh_status h = snd v"
  by (cases v) (simp add: verdict_of_def)

definition row_verdict :: "string \<Rightarrow> (string, key_health) js_map \<Rightarrow> string \<Rightarrow> verdict \<Rightarrow> verdict" where
  "row_verdict cid hs k v = foldl (\<lambda>v (kid, h). if scoped_key cid kid = k then verdict_of h else v) v hs"

fun judge :: "string \<Rightarrow> verdict \<Rightarrow> key_event \<Rightarrow> verdict" where
  "judge k v (Key_rejected _ cid kid) =
     (if scoped_key cid kid = k then (fst v + 1, if fst v + 1 < 2 then Key_warning else Key_invalid) else v)"
| "judge k v (Key_terminal _ cid kid) = (if scoped_key cid kid = k then (max (fst v + 1) 2, Key_invalid) else v)"
| "judge k v (Key_succeeded _ cid kid) = (if scoped_key cid kid = k then clean else v)"
| "judge k v (Key_restored cid kid) = (if scoped_key cid kid = k then clean else v)"
| "judge k v (Key_read cid row) = row_verdict cid (nullish (pd_apiKeyHealth row) []) k v"
| "judge k v (Key_tested _ cid kid row) =
     (let hs = nullish (pd_apiKeyHealth row) [] in
      if recovers kid hs then if scoped_key cid kid = k then clean else row_verdict cid hs k v else v)"
| "judge k v (Key_removed cid) = (if starts_with k (scoped_key cid []) then clean else v)"
| "judge k v _ = v"

definition ids_of_connection :: "string \<Rightarrow> string list \<Rightarrow> string set" where
  "ids_of_connection cid es = insert (scoped_key cid ''primary'') (scoped_key cid ` extra_id ` {..<length es})"

fun keys_named :: "key_event \<Rightarrow> string set" where
  "keys_named (Key_rejected _ cid kid) = {scoped_key cid kid}"
| "keys_named (Key_terminal _ cid kid) = {scoped_key cid kid}"
| "keys_named (Key_succeeded _ cid kid) = {scoped_key cid kid}"
| "keys_named (Key_restored cid kid) = {scoped_key cid kid}"
| "keys_named (Key_asked cid p es) = ids_of_connection cid es"
| "keys_named (Key_resumed cid p es sel) = insert (scoped_key cid (nullish sel [])) (ids_of_connection cid es)"
| "keys_named (Key_read cid row) = scoped_key cid ` set (map fst (nullish (pd_apiKeyHealth row) []))"
| "keys_named (Key_tested _ cid kid row) = scoped_key cid ` set (map fst (nullish (pd_apiKeyHealth row) []))"
| "keys_named (Key_removed cid) = {}"

text \<open>Each key that is known has its own object, no key had to make room for another, and each is as it is judged.\<close>

definition agrees :: "key_health option \<Rightarrow> verdict \<Rightarrow> bool" where
  "agrees x v \<longleftrightarrow> (case x of None \<Rightarrow> v = clean | Some h \<Rightarrow> verdict_of h = v)"

definition judged :: "string set \<Rightarrow> (string \<Rightarrow> verdict) \<Rightarrow> rotator \<Rightarrow> bool" where
  "judged K g ro \<longleftrightarrow>
     rotator_inv ro \<and> set (map fst (ro_keyHealth ro)) \<subseteq> K \<and> inj_on (map_get (ro_keyHealth ro)) (dom (map_get (ro_keyHealth ro)))
     \<and> (\<forall>k. agrees (tracked_health ro k) (g k))"

lemma room_left:
  assumes "map_wf m" and "set (map fst m) \<subseteq> K" and "finite K" and "card K \<le> cap" and "k \<in> K" and "map_get m k = None"
  shows "length m < cap"
proof -
  have "set (map fst m) \<subseteq> K - {k}" using assms(2, 6) by (force simp: map_of_eq_None_iff)
  then have "card (set (map fst m)) < card K" using assms(3, 5) by (meson Diff_subset card_Diff1_less card_mono finite_Diff le_less_trans)
  then show ?thesis using assms(1, 4) distinct_card [OF assms(1)] by simp
qed

lemma getOrCreate_judged:
  assumes "judged K g ro" and "finite K" and "card K \<le> MAX_KEY_HEALTH_ENTRIES" and "scoped_key cid kid \<in> K"
  shows "judged K g (snd (getOrCreateHealth cid kid ro))"
proof (cases "map_get (ro_keyHealth ro) (scoped_key cid kid)")
  case None
  let ?m = "ro_keyHealth ro" and ?k = "scoped_key cid kid"
  have j: "rotator_inv ro" "set (map fst ?m) \<subseteq> K" "inj_on (map_get ?m) (dom (map_get ?m))"
      "\<forall>k. agrees (tracked_health ro k) (g k)"
    using assms(1) by (simp_all add: judged_def)
  have "length ?m < MAX_KEY_HEALTH_ENTRIES"
    using room_left [of ?m K _ ?k] assms(2-4) j(1, 2) None by (simp add: rotator_inv_def)
  then have e: "snd (getOrCreateHealth cid kid ro) = ro\<lparr>ro_keyHealth := map_set ?k (length (ro_heap ro)) ?m, ro_heap := ro_heap ro @ [new_health]\<rparr>"
    using None by (simp add: getOrCreateHealth_def Let_def)
  have less: "i < length (ro_heap ro)" if "map_get ?m k = Some i" for k i using j(1) that by (simp add: rotator_inv_def)
  have fresh: "map_get ?m k \<noteq> Some (length (ro_heap ro))" for k using less by blast
  have "set (map fst (map_set ?k (length (ro_heap ro)) ?m)) \<subseteq> K"
    using j(2) assms(4) set_map_set_subset [of ?k "length (ro_heap ro)" ?m] by fastforce
  moreover have "inj_on (map_get (map_set ?k (length (ro_heap ro)) ?m)) (dom (map_get (map_set ?k (length (ro_heap ro)) ?m)))"
    using j(3) fresh by (auto simp: inj_on_def dom_def)
  moreover have "agrees (tracked_health (snd (getOrCreateHealth cid kid ro)) k) (g k)" for k
  proof -
    have "g ?k = clean" using j(4) None by (auto simp: tracked_health_def agrees_def dest!: spec [of _ ?k])
    moreover have "tracked_health (snd (getOrCreateHealth cid kid ro)) k = (if k = ?k then Some new_health else tracked_health ro k)"
      using less by (cases "map_get ?m k") (auto simp: e tracked_health_def nth_append)
    ultimately show ?thesis using j(4) by (auto simp: new_health_def agrees_def verdict_of_def clean_def)
  qed
  ultimately show ?thesis using getOrCreate_inv(1) [OF j(1), of cid kid] by (simp add: judged_def e)
qed (use assms in \<open>simp add: getOrCreateHealth_def\<close>)

lemma mutate_judged:
  assumes "judged K g ro" and "finite K" and "card K \<le> MAX_KEY_HEALTH_ENTRIES" and "scoped_key cid kid \<in> K"
    and "\<And>h. verdict_of h = g (scoped_key cid kid) \<Longrightarrow> verdict_of (f h) = n"
  shows "judged K (g(scoped_key cid kid := n)) (snd (mutate cid kid f ro))"
proof -
  obtain i ro1 where c: "getOrCreateHealth cid kid ro = (i, ro1)" by (cases "getOrCreateHealth cid kid ro")
  let ?k = "scoped_key cid kid"
  have j: "judged K g ro1" using getOrCreate_judged [OF assms(1-4)] c by simp
  have i: "i < length (ro_heap ro1)" "map_get (ro_keyHealth ro1) ?k = Some i"
    using getOrCreate_inv [of ro cid kid] assms(1) c by (simp_all add: judged_def)
  have own: "i' = i \<longleftrightarrow> k = ?k" if "map_get (ro_keyHealth ro1) k = Some i'" for k i'
    using j i(2) that by (auto simp: judged_def inj_on_def dom_def)
  have h: "verdict_of (ro_heap ro1 ! i) = g ?k"
    using j i(2) by (auto simp: judged_def tracked_health_def agrees_def dest!: spec [of _ ?k])
  have t: "tracked_health (snd (mutate cid kid f ro)) k = (if k = ?k then Some (f (ro_heap ro1 ! i)) else tracked_health ro1 k)" for k
  proof (cases "map_get (ro_keyHealth ro1) k")
    case (Some a)
    then show ?thesis using i own [OF Some] by (cases "k = ?k") (simp_all add: mutate_def c Let_def tracked_health_def)
  qed (use i in \<open>auto simp: mutate_def c Let_def tracked_health_def\<close>)
  have "agrees (tracked_health (snd (mutate cid kid f ro)) k) ((g(?k := n)) k)" for k
  proof (cases "k = ?k")
    case False
    moreover have "agrees (tracked_health ro1 k) (g k)" using j by (simp add: judged_def)
    ultimately show ?thesis by (simp only: t if_False fun_upd_other not_False_eq_True)
  qed (use assms(5) [OF h] in \<open>simp add: t agrees_def\<close>)
  moreover have "ro_keyHealth (snd (mutate cid kid f ro)) = ro_keyHealth ro1" by (simp add: mutate_def c Let_def)
  ultimately show ?thesis using j mutate_inv [of ro cid kid f] assms(1) by (simp add: judged_def)
qed

lemma health_or_tracked_None: "health_or_tracked None cid kid ro = getOrCreateHealth cid kid ro"
  by (simp add: health_or_tracked_def)

lemma valid_extras_judged:
  assumes "judged K g ro" and "finite K" and "card K \<le> MAX_KEY_HEALTH_ENTRIES"
    and "scoped_key cid ` extra_id ` {i..<i + length ks} \<subseteq> K"
  shows "judged K g (snd (valid_extras None cid i ks ro))"
  using assms
proof (induction ks arbitrary: i ro)
  case (Cons k ks)
  have "judged K g (snd (getOrCreateHealth cid (extra_id i) ro))"
    using Cons.prems by (intro getOrCreate_judged) auto
  then have "judged K g (snd (valid_extras None cid (Suc i) ks (snd (getOrCreateHealth cid (extra_id i) ro))))"
    using Cons.prems by (intro Cons.IH) auto
  then show ?case by (simp add: health_or_tracked_None split_beta)
qed simp

lemma judged_cong: "ro_keyHealth ro' = ro_keyHealth ro \<Longrightarrow> ro_heap ro' = ro_heap ro \<Longrightarrow> judged K g ro' = judged K g ro"
  by (simp add: judged_def rotator_inv_def tracked_health_def)

lemma asked_judged:
  assumes "judged K g ro" and "finite K" and "card K \<le> MAX_KEY_HEALTH_ENTRIES" and "ids_of_connection cid es \<subseteq> K"
  shows "judged K g (snd (getValidApiKey cid p es None ro))"
proof -
  define ro1 where "ro1 = (if p = [] then ro else snd (getOrCreateHealth cid ''primary'' ro))"
  have "judged K g ro1"
    using getOrCreate_judged [OF assms(1-3)] assms(1, 4) by (simp add: ro1_def ids_of_connection_def)
  moreover have "scoped_key cid ` extra_id ` {0..<0 + length (filter not_blank es)} \<subseteq> K"
  proof -
    have "{0..<0 + length (filter not_blank es)} \<subseteq> {..<length es}" by (auto intro: less_le_trans [OF _ length_filter_le])
    then have "scoped_key cid ` extra_id ` {0..<0 + length (filter not_blank es)} \<subseteq> scoped_key cid ` extra_id ` {..<length es}"
      by (intro image_mono)
    then show ?thesis using assms(4) unfolding ids_of_connection_def by blast
  qed
  ultimately have "judged K g (snd (valid_extras None cid 0 (filter not_blank es) ro1))"
    using assms(2, 3) by (intro valid_extras_judged) auto
  moreover have "snd (valid_keys cid p es None ro) = snd (valid_extras None cid 0 (filter not_blank es) ro1)"
    by (simp add: valid_keys_def ro1_def health_or_tracked_None split_beta)
  moreover have "ro_keyHealth (snd (getValidApiKey cid p es None ro)) = ro_keyHealth (snd (valid_keys cid p es None ro))"
    "ro_heap (snd (getValidApiKey cid p es None ro)) = ro_heap (snd (valid_keys cid p es None ro))"
    by (simp_all add: getValidApiKey_def split_beta Let_def split: list.split)
  ultimately show ?thesis by (simp only: judged_cong [of "snd (getValidApiKey cid p es None ro)" "snd (valid_keys cid p es None ro)"])
qed

lemma resumed_judged:
  assumes "judged K g ro" and "finite K" and "card K \<le> MAX_KEY_HEALTH_ENTRIES"
    and "insert (scoped_key cid (nullish sel [])) (ids_of_connection cid es) \<subseteq> K"
  shows "judged K g (snd (resolveKeyForRequest cid p es sel ro))"
proof (cases "nullish sel []")
  case Nil
  then show ?thesis using asked_judged assms by (simp add: resolveKeyForRequest_def)
next
  case (Cons c cs)
  have "judged K g (snd (getOrCreateHealth cid (nullish sel []) ro))" using getOrCreate_judged assms by simp
  then show ?thesis using asked_judged [OF _ assms(2, 3)] assms(4) Cons
    by (auto simp: resolveKeyForRequest_def split_beta Let_def split: option.split)
qed

text \<open>Reading a row: each of its keys gets an object of its own with the verdict of the row.\<close>

lemma with_objects_judged:
  assumes "judged K g ro"
  shows "judged K g (with_objects hs ro)"
proof -
  have i: "i < length (ro_heap ro)" if "map_get (ro_keyHealth ro) k = Some i" for k i
    using assms that by (simp add: judged_def rotator_inv_def)
  have "tracked_health (with_objects hs ro) k = tracked_health ro k" for k
    using i [of k] by (cases "map_get (ro_keyHealth ro) k") (simp_all add: tracked_health_def with_objects_def nth_append)
  then show ?thesis using assms loaded_inv(1) [of ro hs] unfolding judged_def by (simp add: with_objects_def)
qed

lemma enter_judged:
  assumes "judged K g ro" and "finite K" and "card K \<le> MAX_KEY_HEALTH_ENTRIES" and "k \<in> K" and "i < length (ro_heap ro)"
    and "\<And>j. map_get (ro_keyHealth ro) j \<noteq> Some i"
  shows "judged K (g(k := verdict_of (ro_heap ro ! i))) (ro\<lparr>ro_keyHealth := map_set k i (ro_keyHealth ro)\<rparr>)"
    and "\<not> map_has (ro_keyHealth ro) k \<Longrightarrow> length (ro_keyHealth ro) < MAX_KEY_HEALTH_ENTRIES"
proof -
  let ?m = "ro_keyHealth ro"
  have j: "rotator_inv ro" "set (map fst ?m) \<subseteq> K" "inj_on (map_get ?m) (dom (map_get ?m))" "\<forall>k. agrees (tracked_health ro k) (g k)"
    using assms(1) by (simp_all add: judged_def)
  have wf: "map_wf ?m" using j(1) by (simp add: rotator_inv_def)
  show room: "length ?m < MAX_KEY_HEALTH_ENTRIES" if "\<not> map_has ?m k"
    using room_left [OF wf j(2) assms(2, 3, 4)] that by simp
  have "length (map_set k i ?m) \<le> MAX_KEY_HEALTH_ENTRIES"
  proof (cases "map_has ?m k")
    case True
    then show ?thesis using j(1) by (simp add: length_set_present rotator_inv_def)
  next
    case False
    then show ?thesis using room jsmap.count_put_le [of k i ?m] by simp
  qed
  then have "rotator_inv (ro\<lparr>ro_keyHealth := map_set k i ?m\<rparr>)"
    using j(1) assms(5) wf by (auto simp: rotator_inv_def intro: map_wf_set)
  moreover have "set (map fst (map_set k i ?m)) \<subseteq> K"
    using j(2) assms(4) set_map_set_subset [of k i ?m] by fastforce
  moreover have "inj_on (map_get (map_set k i ?m)) (dom (map_get (map_set k i ?m)))"
    using j(3) assms(6) by (auto simp: inj_on_def dom_def)
  moreover have "agrees (tracked_health (ro\<lparr>ro_keyHealth := map_set k i ?m\<rparr>) k') ((g(k := verdict_of (ro_heap ro ! i))) k')" for k'
    using j(4) by (cases "k' = k") (simp_all add: tracked_health_def agrees_def)
  ultimately show "judged K (g(k := verdict_of (ro_heap ro ! i))) (ro\<lparr>ro_keyHealth := map_set k i ?m\<rparr>)"
    by (simp add: judged_def)
qed

lemma sync_judged:
  assumes "judged K g ro" and "finite K" and "card K \<le> MAX_KEY_HEALTH_ENTRIES" and "scoped_key cid ` set (map fst es) \<subseteq> K"
    and "distinct (map snd es)" and "\<forall>i \<in> set (map snd es). i < length (ro_heap ro) \<and> (\<forall>j. map_get (ro_keyHealth ro) j \<noteq> Some i)"
    and "H = ro_heap ro"
  shows "judged K (\<lambda>k. foldl (\<lambda>v (kid, i). if scoped_key cid kid = k then verdict_of (H ! i) else v) (g k) es) (sync_entries cid es ro)"
  using assms
proof (induction es arbitrary: g ro)
  case (Cons e es)
  obtain kid i where e: "e = (kid, i)" by (cases e)
  let ?k = "scoped_key cid kid"
  let ?ro = "ro\<lparr>ro_keyHealth := map_set ?k i (ro_keyHealth ro)\<rparr>"
  have k: "?k \<in> K" "i < length (ro_heap ro)" "\<And>j. map_get (ro_keyHealth ro) j \<noteq> Some i" using Cons.prems by (auto simp: e)
  note n = enter_judged [OF Cons.prems(1-3) k]
  have s: "sync_entries cid (e # es) ro = sync_entries cid es ?ro" using n(2) by (auto simp: e Let_def)
  have "judged K (\<lambda>k. foldl (\<lambda>v (kid, i). if scoped_key cid kid = k then verdict_of (H ! i) else v) ((g(?k := verdict_of (H ! i))) k) es)
      (sync_entries cid es ?ro)"
    using Cons.prems by (intro Cons.IH [OF n(1) [folded Cons.prems(7)]]) (auto simp: e)
  moreover have "foldl (\<lambda>v (kid, i). if scoped_key cid kid = k then verdict_of (H ! i) else v) (g k) (e # es)
    = foldl (\<lambda>v (kid, i). if scoped_key cid kid = k then verdict_of (H ! i) else v) ((g(?k := verdict_of (H ! i))) k) es" for k
    by (auto simp: e)
  ultimately show ?case unfolding s by presburger
qed simp

lemma refs_verdict:
  "foldl (\<lambda>v (kid, i). if scoped_key cid kid = k then verdict_of (ro_heap (with_objects hs ro) ! i) else v) v (row_refs hs ro)
    = row_verdict cid hs k v"
proof -
  have "foldl (\<lambda>v (kid, i). if scoped_key cid kid = k then verdict_of (H ! i) else v) v (zip (map fst hs) [n..<n + length hs])
      = foldl (\<lambda>v (kid, h). if scoped_key cid kid = k then verdict_of h else v) v hs"
    if "\<forall>j < length hs. H ! (n + j) = snd (hs ! j)" for n v and H :: "key_health list"
    using that
  proof (induction hs arbitrary: n v)
    case (Cons e hs)
    have "[n..<n + length (e # hs)] = n # [Suc n..<Suc n + length hs]" by (simp add: upt_conv_Cons del: upt_Suc)
    moreover have "\<forall>j < length hs. H ! (Suc n + j) = snd (hs ! j)" using Cons.prems by (metis Suc_less_eq add_Suc_shift length_Cons nth_Cons_Suc)
    note Cons.IH [OF this]
    moreover have "H ! n = snd e" using Cons.prems by force
    ultimately show ?case by (cases e) (simp del: upt_Suc)
  qed simp
  from this [OF objects_at] show ?thesis unfolding row_refs_def row_verdict_def .
qed

lemma load_judged:
  assumes "judged K g ro" and "finite K" and "card K \<le> MAX_KEY_HEALTH_ENTRIES" and "scoped_key cid ` set (map fst hs) \<subseteq> K"
  shows "judged K (\<lambda>k. row_verdict cid hs k (g k)) (sync_entries cid (row_refs hs ro) (with_objects hs ro))"
proof -
  have f: "map fst (row_refs hs ro) = map fst hs" "map snd (row_refs hs ro) = [length (ro_heap ro)..<length (ro_heap ro) + length hs]"
    by (simp_all add: row_refs_def)
  have i: "i < length (ro_heap ro)" if "map_get (ro_keyHealth ro) j = Some i" for i j
    using assms(1) that by (simp add: judged_def rotator_inv_def)
  have "judged K (\<lambda>k. foldl (\<lambda>v (kid, i). if scoped_key cid kid = k then verdict_of (ro_heap (with_objects hs ro) ! i) else v) (g k) (row_refs hs ro))
      (sync_entries cid (row_refs hs ro) (with_objects hs ro))"
  proof (rule sync_judged [OF with_objects_judged [OF assms(1)] assms(2, 3)])
    show "scoped_key cid ` set (map fst (row_refs hs ro)) \<subseteq> K" unfolding f(1) by (rule assms(4))
    show "distinct (map snd (row_refs hs ro))" unfolding f(2) by simp
    show "\<forall>i \<in> set (map snd (row_refs hs ro)). i < length (ro_heap (with_objects hs ro))
        \<and> (\<forall>j. map_get (ro_keyHealth (with_objects hs ro)) j \<noteq> Some i)"
      unfolding f(2) using i by (fastforce simp: with_objects_def)
  qed (rule refl)
  then show ?thesis unfolding refs_verdict .
qed

lemma removed_judged:
  assumes "judged K g ro"
  shows "judged K (\<lambda>k. if starts_with k (scoped_key cid []) then clean else g k) (removeConnectionIndex cid (removeConnectionHealth cid ro))"
proof -
  let ?ro = "removeConnectionIndex cid (removeConnectionHealth cid ro)"
  have f: "ro_keyHealth ?ro = filter (\<lambda>(k, _). \<not> starts_with k (scoped_key cid [])) (ro_keyHealth ro)" "ro_heap ?ro = ro_heap ro"
    by (simp_all add: removeConnectionIndex_def removeConnectionHealth_def)
  have g: "map_get (ro_keyHealth ?ro) k = (if starts_with k (scoped_key cid []) then None else map_get (ro_keyHealth ro) k)" for k
    by (simp add: f(1) filter_get)
  then have "agrees (tracked_health ?ro k) (if starts_with k (scoped_key cid []) then clean else g k)" for k
    using assms by (auto simp: judged_def tracked_health_def f(2) agrees_def)
  moreover have "inj_on (map_get (ro_keyHealth ?ro)) (dom (map_get (ro_keyHealth ?ro)))"
    using assms by (auto simp: judged_def inj_on_def dom_def g split: if_splits)
  moreover have "set (map fst (ro_keyHealth ?ro)) \<subseteq> K" using assms by (auto simp: judged_def f(1))
  ultimately show ?thesis using assms removed_inv by (simp add: judged_def)
qed

lemma key_step_judged:
  assumes "judged K g ro" and "finite K" and "card K \<le> MAX_KEY_HEALTH_ENTRIES" and "keys_named ev \<subseteq> K"
  shows "judged K (\<lambda>k. judge k (g k) ev) (key_step ro ev)"
proof -
  note m = mutate_judged [OF assms(1-3)]
  show ?thesis
  proof (cases ev)
    case (Key_rejected now cid kid)
    let ?k = "scoped_key cid kid"
    have "judged K (g(?k := (fst (g ?k) + 1, if fst (g ?k) + 1 < 2 then Key_warning else Key_invalid))) (snd (mutate cid kid (failed_health now) ro))"
      using assms(4) Key_rejected by (intro m) (auto simp: failed_health_def Let_def verdict_iff FAILURE_THRESHOLD_def)
    moreover have "(\<lambda>k. judge k (g k) ev) = g(?k := (fst (g ?k) + 1, if fst (g ?k) + 1 < 2 then Key_warning else Key_invalid))"
      by (auto simp: Key_rejected fun_eq_iff)
    ultimately show ?thesis by (simp only: Key_rejected recordKeyFailure_def key_step.simps)
  next
    case (Key_terminal now cid kid)
    let ?k = "scoped_key cid kid"
    have "judged K (g(?k := (max (fst (g ?k) + 1) 2, Key_invalid))) (snd (mutate cid kid (terminal_health now) ro))"
      using assms(4) Key_terminal by (intro m) (auto simp: terminal_health_def verdict_iff FAILURE_THRESHOLD_def)
    moreover have "(\<lambda>k. judge k (g k) ev) = g(?k := (max (fst (g ?k) + 1) 2, Key_invalid))" by (auto simp: Key_terminal fun_eq_iff)
    ultimately show ?thesis by (simp only: Key_terminal recordKeyTerminal_def key_step.simps)
  next
    case (Key_succeeded now cid kid)
    have "judged K (g(scoped_key cid kid := clean)) (snd (mutate cid kid (succeeded_health now) ro))"
      using assms(4) Key_succeeded by (intro m) (auto simp: succeeded_health_def verdict_of_def clean_def)
    moreover have "(\<lambda>k. judge k (g k) ev) = g(scoped_key cid kid := clean)" by (auto simp: Key_succeeded)
    ultimately show ?thesis by (simp add: Key_succeeded recordKeySuccess_def)
  next
    case (Key_restored cid kid)
    have "judged K (g(scoped_key cid kid := clean)) (snd (resetKeyStatus cid kid ro))"
      unfolding resetKeyStatus_def using assms(4) Key_restored by (intro m) (auto simp: verdict_of_def clean_def)
    moreover have "(\<lambda>k. judge k (g k) ev) = g(scoped_key cid kid := clean)" by (auto simp: Key_restored)
    ultimately show ?thesis by (simp add: Key_restored)
  next
    case (Key_read cid row)
    then show ?thesis using load_judged [OF assms(1-3)] assms(1, 4) by (auto simp: read_eq row_verdict_def split: option.split)
  next
    case (Key_tested now cid kid row)
    show ?thesis
    proof (cases "\<exists>hs. pd_apiKeyHealth row = Some hs \<and> recovers kid hs")
      case True
      then obtain hs where hs: "pd_apiKeyHealth row = Some hs" "recovers kid hs" by blast
      let ?ro = "sync_entries cid (row_refs hs ro) (with_objects hs ro)" and ?g = "\<lambda>k. row_verdict cid hs k (g k)"
      have j: "judged K ?g ?ro" using load_judged [OF assms(1-3)] assms(4) Key_tested hs(1) by simp
      have "kid \<in> set (map fst hs)" using hs(2) by (force simp: recovers_def dest: map_of_SomeD split: option.splits)
      then have "scoped_key cid kid \<in> K" using assms(4) Key_tested hs(1) by auto
      then have "judged K (?g(scoped_key cid kid := clean)) (snd (mutate cid kid (succeeded_health now) ?ro))"
        by (intro mutate_judged [OF j assms(2, 3)]) (auto simp: succeeded_health_def verdict_of_def clean_def)
      moreover have "(\<lambda>k. judge k (g k) ev) = ?g(scoped_key cid kid := clean)" using hs by (auto simp: Key_tested fun_eq_iff)
      ultimately show ?thesis using hs by (simp add: Key_tested tested_eq recordKeySuccess_def)
    next
      case False
      then have "(\<lambda>k. judge k (g k) ev) = g"
        by (cases "pd_apiKeyHealth row") (auto simp: Key_tested fun_eq_iff recovers_def)
      moreover have "key_step ro ev = (case pd_apiKeyHealth row of None \<Rightarrow> ro | Some hs \<Rightarrow> with_objects hs ro)"
        using False by (simp add: Key_tested tested_eq split: option.split)
      ultimately show ?thesis using assms(1) with_objects_judged by (simp split: option.split)
    qed
  next
    case (Key_removed cid)
    then show ?thesis using removed_judged [OF assms(1)] by simp
  qed (use assms asked_judged resumed_judged in simp_all)
qed

definition new_rotator :: rotator where
  "new_rotator = \<lparr>ro_keyIndexes = [], ro_connectionExtraKeys = [], ro_keyHealth = [], ro_heap = []\<rparr>"

lemma run_judged:
  assumes "finite K" and "card K \<le> MAX_KEY_HEALTH_ENTRIES" and "\<forall>ev \<in> set evs. keys_named ev \<subseteq> K" and "judged K g ro"
  shows "judged K (\<lambda>k. foldl (judge k) (g k) evs) (foldl key_step ro evs)"
  using assms(3, 4)
proof (induction evs arbitrary: g ro)
  case (Cons ev evs)
  have "judged K (\<lambda>k. judge k (g k) ev) (key_step ro ev)" using Cons.prems assms(1, 2) by (intro key_step_judged) auto
  from Cons.IH [OF _ this] Cons.prems(1) show ?case by simp
qed simp

lemma finite_named: "finite (keys_named ev)"
  by (cases ev) (simp_all add: ids_of_connection_def)

text \<open>
  C36: In a process that has seen at most five hundred keys, a key is kept out of rotation exactly if the verdict on it is
  invalid, which a ledger keeps that knows no other key: a second rejection in a row or one that is final makes it invalid; a
  success, a restoration by hand or the deletion of the connection clears it; and each reading of the connection from its
  row, for a request or for a test by the administrator, puts what the row says of the key in the place of what was seen
  since. A test that finds the key good clears it if the row holds something against it. How often keys are asked for has no
  part in it. A reading is one that decodes the row anew.
\<close>

theorem key_judged_exactly:
  assumes "card (\<Union> (keys_named ` set evs)) \<le> MAX_KEY_HEALTH_ENTRIES"
  shows "in_health (foldl key_step new_rotator evs) cid kid
    \<longleftrightarrow> snd (foldl (judge (scoped_key cid kid)) clean evs) \<noteq> Key_invalid"
proof -
  have "judged (\<Union> (keys_named ` set evs)) (\<lambda>_. clean) new_rotator"
    by (simp add: judged_def rotator_inv_def new_rotator_def tracked_health_def agrees_def)
  then have "judged (\<Union> (keys_named ` set evs)) (\<lambda>k. foldl (judge k) clean evs) (foldl key_step new_rotator evs)"
    using run_judged [of "\<Union> (keys_named ` set evs)" evs "\<lambda>_. clean"] assms finite_named by blast
  then have "agrees (tracked_health (foldl key_step new_rotator evs) (scoped_key cid kid)) (foldl (judge (scoped_key cid kid)) clean evs)"
    by (simp add: judged_def)
  then show ?thesis by (auto simp: agrees_def in_health_def verdict_iff clean_def split: option.splits)
qed

subsection \<open>Rejections of requests that read the connection anew\<close>

record key_world =
  kw_row :: "key_health provider_data"
  kw_rotator :: rotator
  kw_used :: "string option list"

text \<open>A request: the connection is read, a key chosen, the upstream answers 401, and the outcome is recorded.\<close>

definition rejected_request :: "failure_texts \<Rightarrow> string \<Rightarrow> string \<Rightarrow> key_world \<Rightarrow> int \<times> string \<Rightarrow> key_world" where
  "rejected_request texts cid apiKey w = (\<lambda>(now, detail).
     let (creds, ro1) = materialize cid (Some apiKey) None (kw_row w) (kw_rotator w);
         (key, creds1, ro2) = resolveEffectiveKey creds ro1;
         (saved, ro3) = recordKeyHealthStatus texts now 401 (Some creds1) None detail ro2 in
     \<lparr>kw_row = nullish saved (kw_row w), kw_rotator = ro3, kw_used = kw_used w @ [key]\<rparr>)"

lemma scoped_inj [simp]: "scoped_key cid a = scoped_key cid b \<longleftrightarrow> a = b"
  by (simp add: scoped_key_def)

text \<open>With room for all of them, the entries of a row end up in the map as they are.\<close>

lemma sync_entries_get:
  assumes "map_wf (ro_keyHealth ro)" and "set (map fst (ro_keyHealth ro)) \<subseteq> K" and "scoped_key cid ` set (map fst es) \<subseteq> K"
    and "finite K" and "card K \<le> MAX_KEY_HEALTH_ENTRIES" and "map_wf es"
  shows "map_get (ro_keyHealth (sync_entries cid es ro)) (scoped_key cid kid)
      = (case map_get es kid of Some i \<Rightarrow> Some i | None \<Rightarrow> map_get (ro_keyHealth ro) (scoped_key cid kid))
    \<and> map_wf (ro_keyHealth (sync_entries cid es ro)) \<and> set (map fst (ro_keyHealth (sync_entries cid es ro))) \<subseteq> K
    \<and> ro_heap (sync_entries cid es ro) = ro_heap ro"
  using assms
proof (induction es arbitrary: ro)
  case (Cons e es)
  obtain k i where e: "e = (k, i)" by (cases e)
  let ?ro = "ro\<lparr>ro_keyHealth := map_set (scoped_key cid k) i (ro_keyHealth ro)\<rparr>"
  have "\<not> map_has (ro_keyHealth ro) (scoped_key cid k) \<Longrightarrow> length (ro_keyHealth ro) < MAX_KEY_HEALTH_ENTRIES"
    using room_left [OF Cons.prems(1, 2, 4, 5), of "scoped_key cid k"] Cons.prems(3) e by simp
  then have s: "sync_entries cid (e # es) ro = sync_entries cid es ?ro" by (auto simp: e Let_def)
  have "map_get (ro_keyHealth (sync_entries cid es ?ro)) (scoped_key cid kid)
      = (case map_get es kid of Some i \<Rightarrow> Some i | None \<Rightarrow> map_get (ro_keyHealth ?ro) (scoped_key cid kid))
    \<and> map_wf (ro_keyHealth (sync_entries cid es ?ro)) \<and> set (map fst (ro_keyHealth (sync_entries cid es ?ro))) \<subseteq> K
    \<and> ro_heap (sync_entries cid es ?ro) = ro_heap ?ro"
  proof (rule Cons.IH)
    have "fst ` set (map_set (scoped_key cid k) i (ro_keyHealth ro)) \<subseteq> insert (scoped_key cid k) (fst ` set (ro_keyHealth ro))"
      using image_mono [OF set_map_set_subset, of fst "scoped_key cid k" i "ro_keyHealth ro"] by simp
    moreover have "insert (scoped_key cid k) (fst ` set (ro_keyHealth ro)) \<subseteq> K" using Cons.prems(2, 3) e by simp
    ultimately have "fst ` set (map_set (scoped_key cid k) i (ro_keyHealth ro)) \<subseteq> K" by (rule subset_trans)
    then show "set (map fst (ro_keyHealth ?ro)) \<subseteq> K" by simp
  qed (use Cons.prems e in \<open>auto intro: map_wf_set\<close>)
  moreover have "map_get es k = None" using Cons.prems(6) e by (simp add: map_of_eq_None_iff)
  ultimately show ?case unfolding s using e by (auto split: option.splits)
qed simp

text \<open>The row of a connection whose noted key is known to it and not invalid.\<close>

definition noted_key :: "string \<Rightarrow> key_health provider_data \<Rightarrow> string \<Rightarrow> string \<Rightarrow> bool" where
  "noted_key apiKey row kid key \<longleftrightarrow>
     pd_selectedKeyId row = Some kid \<and> kid \<noteq> []
     \<and> selected_key apiKey (filter not_blank (nullish (pd_extraApiKeys row) [])) kid = Some (key, kid)
     \<and> filter not_blank (nullish (pd_extraApiKeys row) []) \<noteq> []
     \<and> map_wf (nullish (pd_apiKeyHealth row) [])
     \<and> (\<exists>h. map_get (nullish (pd_apiKeyHealth row) []) kid = Some h \<and> kh_status h \<noteq> Key_invalid)"

definition rooms :: "string \<Rightarrow> key_health provider_data \<Rightarrow> rotator \<Rightarrow> string set" where
  "rooms cid row ro = set (map fst (ro_keyHealth ro)) \<union> scoped_key cid ` set (map fst (nullish (pd_apiKeyHealth row) []))"

lemma selected_id: "selected_key p es kid = Some (key, kid') \<Longrightarrow> kid' = kid"
  by (auto simp: selected_key_def split: if_splits option.splits)

lemma zip_map_of:
  assumes "map_wf es" and "map_get es k = Some h" and "length xs = length es"
  shows "\<exists>j < length es. map_get (zip (map fst es) xs) k = Some (xs ! j) \<and> map snd es ! j = h"
proof -
  obtain j where j: "j < length es" "es ! j = (k, h)" using map_of_SomeD [OF assms(2)] by (auto simp: in_set_conv_nth)
  then have "map_of (zip (map fst es) xs) (map fst es ! j) = Some (xs ! j)"
    using assms by (intro map_of_zip_nth) simp_all
  then show ?thesis using j by auto
qed

lemma track_fields [simp]:
  "ro_keyHealth (trackConnectionExtraKeys cid es ro) = ro_keyHealth ro"
  "ro_heap (trackConnectionExtraKeys cid es ro) = ro_heap ro"
  by (simp_all add: trackConnectionExtraKeys_def Let_def)

lemma getOrCreate_known:
  "map_get (ro_keyHealth ro) (scoped_key cid kid) = Some i \<Longrightarrow> getOrCreateHealth cid kid ro = (i, ro)"
  by (simp add: getOrCreateHealth_def)

text \<open>A failure of an object that the connection shares: what was there before is read when it is already changed.\<close>

lemma shared_failure_not_saved:
  assumes "map_get (ro_keyHealth ro) (scoped_key cid kid) = Some i" and "i < length (ro_heap ro)"
    and "map_get health kid = Some i" and "cid \<noteq> []" and "p \<noteq> []" and "\<not> isModelCapabilityFailure texts 401 detail"
    and "creds = \<lparr>cr_connectionId = Some cid, cr_apiKey = Some p, cr_accessToken = None,
      cr_data = Some \<lparr>pd_extraApiKeys = es, pd_selectedKeyId = Some kid, pd_apiKeyHealth = Some health\<rparr>\<rparr>"
  shows "fst (recordKeyHealthStatus texts now 401 (Some creds) None detail ro) = None
    \<and> ro_keyHealth (snd (recordKeyHealthStatus texts now 401 (Some creds) None detail ro)) = ro_keyHealth ro"
proof -
  define ro1 where "ro1 = trackConnectionExtraKeys cid (nullish es []) ro"
  let ?h = "failed_health now (ro_heap ro1 ! i)"
  have r: "recordKeyFailure now cid kid ro1 = (?h, ro1\<lparr>ro_heap := (ro_heap ro1)[i := ?h]\<rparr>)"
    using assms(1) by (simp add: recordKeyFailure_def mutate_def ro1_def getOrCreate_known Let_def)
  have "isCredentialFailure texts 401 detail" using assms(6) by (simp add: isCredentialFailure_def)
  then have "recordKeyHealthStatus texts now 401 (Some creds) None detail ro = (None, ro1\<lparr>ro_heap := (ro_heap ro1)[i := ?h]\<rparr>)"
    using assms(2-5) r by (simp add: recordKeyHealthStatus_def assms(7) Let_def ro1_def [symmetric]) (simp add: ro1_def)
  then show ?thesis by (simp add: ro1_def)
qed

lemma rejection_round:
  assumes "noted_key p (kw_row w) kid key" and "map_wf (ro_keyHealth (kw_rotator w))"
    and "rooms cid (kw_row w) (kw_rotator w) \<subseteq> K" and "finite K" and "card K \<le> MAX_KEY_HEALTH_ENTRIES"
    and "cid \<noteq> []" and "p \<noteq> []" and "\<not> isModelCapabilityFailure texts 401 detail"
    and "w' = rejected_request texts cid p w (now, detail)"
  shows "kw_row w' = kw_row w \<and> kw_used w' = kw_used w @ [Some key] \<and> map_wf (ro_keyHealth (kw_rotator w'))
    \<and> rooms cid (kw_row w) (kw_rotator w') \<subseteq> K"
proof -
  define ro where "ro = kw_rotator w"
  define row where "row = kw_row w"
  define extras where "extras = filter not_blank (nullish (pd_extraApiKeys row) [])"
  obtain es h where es: "pd_apiKeyHealth row = Some es" and h: "map_get es kid = Some h" "kh_status h \<noteq> Key_invalid" and wf: "map_wf es"
    using assms(1) by (auto simp: noted_key_def row_def [symmetric] nullish_def split: option.splits)
  define refs where "refs = zip (map fst es) [length (ro_heap ro)..<length (ro_heap ro) + length es]"
  define ro1 where "ro1 = sync_entries cid refs (ro\<lparr>ro_heap := ro_heap ro @ map snd es\<rparr>)"
  obtain j where j: "j < length es" "map_get refs kid = Some (length (ro_heap ro) + j)" "map snd es ! j = h"
    using zip_map_of [OF wf h(1), of "[length (ro_heap ro)..<length (ro_heap ro) + length es]"] by (auto simp: refs_def)
  define i where "i = length (ro_heap ro) + j"
  have f: "map fst refs = map fst es" by (simp add: refs_def)
  have s: "map_get (ro_keyHealth ro1) (scoped_key cid kid) = Some i" "map_wf (ro_keyHealth ro1)"
      "set (map fst (ro_keyHealth ro1)) \<subseteq> K" "ro_heap ro1 = ro_heap ro @ map snd es"
    using sync_entries_get [of "ro\<lparr>ro_heap := ro_heap ro @ map snd es\<rparr>" K cid refs kid] assms(2-5) wf j(2)
    by (auto simp: ro1_def f rooms_def es ro_def [symmetric] row_def [symmetric] i_def)
  have i: "i < length (ro_heap ro1)" "usable i ro1" using s(4) j h(2) by (simp_all add: i_def usable_def nth_append)
  define creds where "creds = \<lparr>cr_connectionId = Some cid, cr_apiKey = Some p, cr_accessToken = None,
      cr_data = Some \<lparr>pd_extraApiKeys = pd_extraApiKeys row, pd_selectedKeyId = Some kid, pd_apiKeyHealth = Some refs\<rparr>\<rparr>"
  have n: "pd_selectedKeyId row = Some kid" "kid \<noteq> []" "selected_key p extras kid = Some (key, kid)" "extras \<noteq> []"
    using assms(1) by (simp_all add: noted_key_def row_def extras_def)
  have m: "materialize cid (Some p) None row ro = (creds, ro1)"
    by (simp add: materialize_def es Let_def refs_def [symmetric] creds_def n(1) syncHealthFromDB_def ro1_def)
  have "resolveKeyForRequest cid p extras (Some kid) ro1 = (Some (key, kid), ro1)"
    using n(2, 3) i(2) s(1) by (cases kid) (simp_all add: resolveKeyForRequest_def getOrCreate_known)
  then have r: "resolveEffectiveKey creds ro1 = (Some key, creds, ro1)"
    using n(4) assms(6) by (simp add: resolveEffectiveKey_def creds_def Let_def extras_def [symmetric])
  note q = shared_failure_not_saved [OF s(1) i(1) j(2) [folded i_def] assms(6-8) creds_def, of now]
  obtain ro3 where "recordKeyHealthStatus texts now 401 (Some creds) None detail ro1 = (None, ro3)" "ro_keyHealth ro3 = ro_keyHealth ro1"
    using q by (cases "recordKeyHealthStatus texts now 401 (Some creds) None detail ro1") auto
  then have "w' = \<lparr>kw_row = row, kw_rotator = ro3, kw_used = kw_used w @ [Some key]\<rparr>" "ro_keyHealth ro3 = ro_keyHealth ro1"
    by (simp_all add: assms(9) rejected_request_def m [unfolded row_def ro_def] r row_def)
  then show ?thesis using s(2, 3) assms(3) by (auto simp: row_def rooms_def)
qed

lemma rejection_rounds:
  assumes "noted_key p (kw_row w) kid key" and "map_wf (ro_keyHealth (kw_rotator w))"
    and "rooms cid (kw_row w) (kw_rotator w) \<subseteq> K" and "finite K" and "card K \<le> MAX_KEY_HEALTH_ENTRIES"
    and "cid \<noteq> []" and "p \<noteq> []" and "\<forall>(now, detail) \<in> set reqs. \<not> isModelCapabilityFailure texts 401 detail"
  shows "kw_row (foldl (rejected_request texts cid p) w reqs) = kw_row w
    \<and> kw_used (foldl (rejected_request texts cid p) w reqs) = kw_used w @ replicate (length reqs) (Some key)"
  using assms
proof (induction reqs arbitrary: w)
  case (Cons q reqs)
  let ?w = "rejected_request texts cid p w q"
  obtain now detail where q: "q = (now, detail)" by (cases q)
  have r: "kw_row ?w = kw_row w" "kw_used ?w = kw_used w @ [Some key]" "map_wf (ro_keyHealth (kw_rotator ?w))"
      "rooms cid (kw_row w) (kw_rotator ?w) \<subseteq> K"
    using rejection_round [OF Cons.prems(1-7) _ refl, of texts detail now] Cons.prems(8) by (simp_all add: q)
  show ?case using Cons.IH [of ?w] Cons.prems r by simp
qed simp

text \<open>
  C37: The rejections of a key are not remembered: once the row of a connection knows the health of the key it uses, a
  request that reads the connection anew shares that object with the rotation, compares it with itself after changing
  it, and writes nothing; however many requests are answered 401, the row stays as it was and the same rejected key is
  used by all of them.
\<close>

theorem rejections_forgotten:
  assumes "noted_key apiKey (kw_row w) kid key" and "map_wf (ro_keyHealth (kw_rotator w))"
    and "card (rooms cid (kw_row w) (kw_rotator w)) \<le> MAX_KEY_HEALTH_ENTRIES" and "cid \<noteq> []" and "apiKey \<noteq> []"
    and "\<forall>(now, detail) \<in> set reqs. \<not> isModelCapabilityFailure texts 401 detail"
  shows "kw_row (foldl (rejected_request texts cid apiKey) w reqs) = kw_row w
    \<and> kw_used (foldl (rejected_request texts cid apiKey) w reqs) = kw_used w @ replicate (length reqs) (Some key)"
proof -
  have "finite (rooms cid (kw_row w) (kw_rotator w))" by (simp add: rooms_def)
  from rejection_rounds [OF assms(1, 2) subset_refl this assms(3-6)] show ?thesis .
qed

subsection \<open>Witnesses\<close>

definition two_extras :: rotator where
  "two_extras = foldl key_step new_rotator [Key_asked ''c'' ''p'' [''k1'', '' '', ''k2''], Key_terminal 5 ''c'' ''extra_0'']"

theorem keys_in_turn_witness:
  "key_requests 4 ''c'' ''p'' [''k1'', '' '', ''k2''] two_extras
    = [Some (''k2'', ''extra_1''), Some (''p'', ''primary''), Some (''k2'', ''extra_1''), Some (''p'', ''primary'')]"
proof -
  have c: "candidates ''p'' [''k1'', '' '', ''k2''] = [(''p'', ''primary''), (''k1'', ''extra_0''), (''k2'', ''extra_1'')]" by code_simp
  have k: "known two_extras ''c'' ''primary''" "known two_extras ''c'' ''extra_0''" "known two_extras ''c'' ''extra_1''" by code_simp+
  have h: "in_health two_extras ''c'' ''primary''" "\<not> in_health two_extras ''c'' ''extra_0''" "in_health two_extras ''c'' ''extra_1''" by code_simp+
  have i: "nullish (map_get (ro_keyIndexes two_extras) ''c'') 0 = 1" by code_simp
  have n: "[0..<4] = [0, 1, 2, 3]" by (simp add: upt_rec)
  have m: "(3 :: nat) mod Suc (Suc 0) = 1" "(4 :: nat) mod Suc (Suc 0) = 0" by (simp_all flip: numeral_2_eq_2)
  show ?thesis
    using keys_in_turn [of "''p''" "[''k1'', '' '', ''k2'']" two_extras "''c''" "[(''p'', ''primary''), (''k2'', ''extra_1'')]" 4] c k h
    by (simp add: i n m)
qed

definition warned_row :: "key_health provider_data" where
  "warned_row = \<lparr>pd_extraApiKeys = None, pd_selectedKeyId = None,
     pd_apiKeyHealth = Some [(''primary'', new_health\<lparr>kh_status := Key_warning, kh_failures := 1\<rparr>)]\<rparr>"

theorem key_judged_exactly_witness:
  "\<not> in_health (foldl key_step new_rotator [Key_rejected 1 ''c'' ''primary'', Key_asked ''c'' ''p'' [''k''], Key_rejected 2 ''c'' ''primary'']) ''c'' ''primary''
   \<and> in_health (foldl key_step new_rotator [Key_rejected 1 ''c'' ''primary'', Key_rejected 2 ''c'' ''primary'', Key_read ''c'' warned_row]) ''c'' ''primary''
   \<and> \<not> in_health (foldl key_step new_rotator [Key_read ''c'' warned_row, Key_rejected 3 ''c'' ''primary'']) ''c'' ''primary''"
  using key_judged_exactly [of "[Key_rejected 1 ''c'' ''primary'', Key_asked ''c'' ''p'' [''k''], Key_rejected 2 ''c'' ''primary'']" "''c''" "''primary''"]
    key_judged_exactly [of "[Key_rejected 1 ''c'' ''primary'', Key_rejected 2 ''c'' ''primary'', Key_read ''c'' warned_row]" "''c''" "''primary''"]
    key_judged_exactly [of "[Key_read ''c'' warned_row, Key_rejected 3 ''c'' ''primary'']" "''c''" "''primary''"]
  by (simp add: MAX_KEY_HEALTH_ENTRIES_def ids_of_connection_def lessThan_Suc card_insert_if del: foldl_Cons key_step.simps)
     (simp add: warned_row_def clean_def row_verdict_def verdict_of_def MAX_KEY_HEALTH_ENTRIES_def del: key_step.simps)

definition plain_texts :: failure_texts where
  "plain_texts = \<lparr>ft_unavailable = (\<lambda>_ _. False), ft_credential = (\<lambda>_. False)\<rparr>"

definition fresh_connection :: key_world where
  "fresh_connection =
     \<lparr>kw_row = \<lparr>pd_extraApiKeys = Some [''k''], pd_selectedKeyId = Some ''extra_0'', pd_apiKeyHealth = None\<rparr>,
      kw_rotator = new_rotator, kw_used = []\<rparr>"

definition warned :: "int \<Rightarrow> key_health" where
  "warned now = \<lparr>kh_status = Key_warning, kh_failures = 1, kh_lastFailure = Some now, kh_lastSuccess = None, kh_totalRequests = 1, kh_totalFailures = 1\<rparr>"

text \<open>The first rejection is written; the four that follow are not, and all five requests use the key.\<close>

theorem rejections_forgotten_witness:
  "let w = foldl (rejected_request plain_texts ''c'' ''p'') fresh_connection [(1, []), (2, []), (3, []), (4, []), (5, [])] in
   pd_apiKeyHealth (kw_row w) = Some [(''extra_0'', warned 1)] \<and> kw_used w = [Some ''k'', Some ''k'', Some ''k'', Some ''k'', Some ''k'']"
proof -
  define w1 where "w1 = rejected_request plain_texts ''c'' ''p'' fresh_connection (1, [])"
  have w1: "kw_row w1 = \<lparr>pd_extraApiKeys = Some [''k''], pd_selectedKeyId = Some ''extra_0'', pd_apiKeyHealth = Some [(''extra_0'', warned 1)]\<rparr>"
    "kw_used w1 = [Some ''k'']" "ro_keyHealth (kw_rotator w1) = [(''c:extra_0'', 0)]"
    unfolding w1_def by code_simp+
  have s: "selected_key ''p'' (filter not_blank [''k'']) ''extra_0'' = Some (''k'', ''extra_0'')" "filter not_blank [''k''] \<noteq> []" by code_simp+
  have "noted_key ''p'' (kw_row w1) ''extra_0'' ''k''" using s by (simp add: noted_key_def w1 warned_def)
  moreover have "card (rooms ''c'' (kw_row w1) (kw_rotator w1)) \<le> MAX_KEY_HEALTH_ENTRIES"
    by (simp add: rooms_def w1 MAX_KEY_HEALTH_ENTRIES_def scoped_key_def)
  ultimately have "kw_row (foldl (rejected_request plain_texts ''c'' ''p'') w1 [(2, []), (3, []), (4, []), (5, [])]) = kw_row w1
    \<and> kw_used (foldl (rejected_request plain_texts ''c'' ''p'') w1 [(2, []), (3, []), (4, []), (5, [])]) = kw_used w1 @ [Some ''k'', Some ''k'', Some ''k'', Some ''k'']"
    using rejections_forgotten [of "''p''" w1 "''extra_0''" "''k''" "''c''" "[(2, []), (3, []), (4, []), (5, [])]" plain_texts]
    by (simp add: w1 isModelCapabilityFailure_def eval_nat_numeral)
  then show ?thesis by (simp add: w1_def [symmetric] w1)
qed

end
