(* ===== verification/ModelLocks.thy ===== *)
theory ModelLocks
  imports Prelude
begin

text \<open>
  The lockouts of models on connections: the part of \<^verbatim>\<open>src/open-sse/services/accountFallback.ts\<close> that keeps them, with
  \<^verbatim>\<open>exactModelLock.ts\<close>, \<^verbatim>\<open>lockoutEviction.ts\<close> and \<^verbatim>\<open>cooldownCap.ts\<close> of its directory, and the scopes a lockout has:
  \<^verbatim>\<open>src/open-sse/config/codexQuotaScopes.ts\<close> and \<^verbatim>\<open>src/open-sse/services/antigravityQuotaFamily.ts\<close>.

  The table of providers by alias is a parameter, \<open>ids\<close>. Durations are whole milliseconds, and an operation reads the
  clock once. An empty model stands for one that is missing.
\<close>

subsection \<open>Keys\<close>

type_synonym provider_ids = "string \<Rightarrow> string option"

definition resolveProviderId :: "provider_ids \<Rightarrow> string \<Rightarrow> string" where
  "resolveProviderId ids aliasOrId = (case ids aliasOrId of Some i \<Rightarrow> if i = [] then aliasOrId else i | None \<Rightarrow> aliasOrId)"

definition CODEX_SCOPE_PATTERNS :: "(string \<times> string) list" where
  "CODEX_SCOPE_PATTERNS =
     [(''codex-spark'', ''spark''), (''spark'', ''spark''), (''bengalfox'', ''spark''), (''codex'', ''codex''), (''gpt-5'', ''codex'')]"

definition getCodexModelScope :: "string \<Rightarrow> string" where
  "getCodexModelScope model =
     (case find (\<lambda>(pattern, _). str_includes (js_lower model) pattern) CODEX_SCOPE_PATTERNS of
        Some (_, scope) \<Rightarrow> scope | None \<Rightarrow> ''codex'')"

definition without_provider :: "string \<Rightarrow> string" where
  "without_provider model =
     (if starts_with model ''antigravity/'' then drop 12 model else if starts_with model ''agy/'' then drop 4 model else model)"

definition after_slash :: "string \<Rightarrow> string" where
  "after_slash s = (case dropWhile (\<lambda>c. c \<noteq> CHR ''/'') s of [] \<Rightarrow> s | _ # r \<Rightarrow> r)"

definition getAntigravityQuotaFamily :: "string \<Rightarrow> string" where
  "getAntigravityQuotaFamily model =
     (let bare = after_slash (without_provider (js_lower (js_trim model))) in
      if starts_with bare ''gemini-'' \<or> str_includes bare ''/gemini-'' \<or> str_includes bare ''gemini'' then ''gemini''
      else if starts_with bare ''claude-'' \<or> starts_with bare ''cloud-'' \<or> str_includes bare ''/claude-''
              \<or> str_includes bare ''/cloud-'' \<or> str_includes bare ''anthropic'' then ''claude''
      else ''other'')"

definition getQuotaScopedModelForProvider :: "string \<Rightarrow> string \<Rightarrow> string option" where
  "getQuotaScopedModelForProvider provider model =
     (if model = [] then None
      else if provider \<noteq> ''antigravity'' \<and> provider \<noteq> ''agy'' then Some model
      else let family = getAntigravityQuotaFamily model in
           if family = ''other'' then Some model else Some (''family:'' @ family))"

definition scoped_model :: "string \<Rightarrow> string \<Rightarrow> string" where
  "scoped_model provider model =
     (if provider = ''codex'' then getCodexModelScope model
      else case getQuotaScopedModelForProvider provider model of Some m \<Rightarrow> if m = [] then model else m | None \<Rightarrow> model)"

definition getModelLockKey :: "provider_ids \<Rightarrow> string \<Rightarrow> string \<Rightarrow> string \<Rightarrow> string option \<Rightarrow> int option \<Rightarrow> string" where
  "getModelLockKey ids provider connectionId model reason status =
     (let canonical = resolveProviderId ids provider;
          lockModel = (if reason = Some ''not_found'' \<or> status = Some 404 then model else scoped_model canonical model) in
      canonical @ '':'' @ connectionId @ '':'' @ lockModel)"

definition buildExactModelLockKey :: "string \<Rightarrow> string \<Rightarrow> string \<Rightarrow> string" where
  "buildExactModelLockKey canonical connectionId model =
     canonical @ '':'' @ connectionId @ '':exact:'' @ js_lower (js_trim model)"

text \<open>Without repetitions, the first of equal keys being kept.\<close>

definition collectModelLockKeys :: "string \<Rightarrow> string \<Rightarrow> string \<Rightarrow> string list" where
  "collectModelLockKeys familyKey notFoundKey exactKey = rev (remdups (rev [familyKey, notFoundKey, exactKey]))"

definition getModelLockKeys :: "provider_ids \<Rightarrow> string \<Rightarrow> string \<Rightarrow> string \<Rightarrow> string list" where
  "getModelLockKeys ids provider connectionId model =
     collectModelLockKeys (getModelLockKey ids provider connectionId model None None)
       (getModelLockKey ids provider connectionId model (Some ''not_found'') (Some 404))
       (buildExactModelLockKey (resolveProviderId ids provider) connectionId model)"

subsection \<open>State\<close>

record model_lock =
  mk_reason :: string
  mk_until :: int
  mk_lockedAt :: int
  mk_failureCount :: int
  mk_lastFailureAt :: int
  mk_resetAfterMs :: int

record failure_state =
  fs_failureCount :: int
  fs_lastFailureAt :: int
  fs_resetAfterMs :: int
  fs_lastCooldownMs :: "int option"

record model_locks =
  ml_lockouts :: "(string, model_lock) js_map"
  ml_failures :: "(string, failure_state) js_map"

record lock_profile =
  lp_baseCooldownMs :: int
  lp_resetTimeoutMs :: int
  lp_maxBackoffSteps :: int

definition BACKOFF_MAX :: int where "BACKOFF_MAX = 2 * 60 * 1000"
definition BACKOFF_BASE :: int where "BACKOFF_BASE = 1000"
definition BACKOFF_MAX_LEVEL :: int where "BACKOFF_MAX_LEVEL = 15"
definition TRANSIENT_COOLDOWN_MS :: int where "TRANSIENT_COOLDOWN_MS = 5 * 1000"

definition calculateBackoffCooldown :: "int \<Rightarrow> int" where
  "calculateBackoffCooldown level = min (BACKOFF_BASE * 2 ^ nat (max 0 level)) BACKOFF_MAX"

definition getFailureWindowMs :: "lock_profile option \<Rightarrow> int" where
  "getFailureWindowMs profile =
     (case profile of Some p \<Rightarrow> if 0 < lp_resetTimeoutMs p then lp_resetTimeoutMs p else 30 * 60 * 1000 | None \<Rightarrow> 30 * 60 * 1000)"

definition within_failure_window :: "int \<Rightarrow> failure_state \<Rightarrow> bool" where
  "within_failure_window now f \<longleftrightarrow> now - fs_lastFailureAt f \<le> fs_resetAfterMs f + nullish (fs_lastCooldownMs f) 0"

definition cleanupModelLockKey :: "int \<Rightarrow> string \<Rightarrow> model_locks \<Rightarrow> model_locks" where
  "cleanupModelLockKey now key s =
     (let s1 = (case map_get (ml_lockouts s) key of
                  Some e \<Rightarrow> if mk_until e < now then s\<lparr>ml_lockouts := map_delete key (ml_lockouts s)\<rparr> else s
                | None \<Rightarrow> s) in
      case map_get (ml_failures s1) key of
        None \<Rightarrow> s1
      | Some f \<Rightarrow>
          if within_failure_window now f \<or> map_has (ml_lockouts s1) key then s1
          else s1\<lparr>ml_failures := map_delete key (ml_failures s1)\<rparr>)"

definition getModelLockBaseCooldown :: "int \<Rightarrow> int \<Rightarrow> lock_profile option \<Rightarrow> int" where
  "getModelLockBaseCooldown status fallbackCooldownMs profile =
     (if 0 < fallbackCooldownMs then fallbackCooldownMs
      else case profile of
             Some p \<Rightarrow> if 0 \<le> lp_baseCooldownMs p then lp_baseCooldownMs p
                       else if status = 429 then calculateBackoffCooldown 0 else TRANSIENT_COOLDOWN_MS
           | None \<Rightarrow> if status = 429 then calculateBackoffCooldown 0 else TRANSIENT_COOLDOWN_MS)"

definition getScaledCooldown :: "int \<Rightarrow> int \<Rightarrow> int \<Rightarrow> int" where
  "getScaledCooldown baseCooldownMs failureCount maxBackoffLevel =
     (let safeBase = (if 0 < baseCooldownMs then baseCooldownMs else 1000);
          exponent = min (max 0 (failureCount - 1)) (max 0 maxBackoffLevel) in
      safeBase * 2 ^ nat exponent)"

definition capScaledCooldownMs :: "int \<Rightarrow> int option \<Rightarrow> int \<Rightarrow> int" where
  "capScaledCooldownMs cooldownMs maxCooldownMs fallbackMaxMs =
     min cooldownMs (case maxCooldownMs of Some m \<Rightarrow> if 0 < m then m else fallbackMaxMs | None \<Rightarrow> fallbackMaxMs)"

definition selectLockoutCooldownMs :: "int option \<Rightarrow> int \<Rightarrow> bool \<Rightarrow> int" where
  "selectLockoutCooldownMs parsedCooldownMs baseCooldownMs useExponentialBackoff =
     (case parsedCooldownMs of
        Some p \<Rightarrow> if baseCooldownMs < p then p else if useExponentialBackoff then 0 else baseCooldownMs
      | None \<Rightarrow> if useExponentialBackoff then 0 else baseCooldownMs)"

definition classifyLockoutReason :: "int \<Rightarrow> string" where
  "classifyLockoutReason status =
     (if status = 429 then ''rate_limit'' else if status = 403 then ''quota_exhausted'' else ''unknown'')"

text \<open>The next midnight of the local time is given.\<close>

definition getMsUntilTomorrow :: "int \<Rightarrow> int \<Rightarrow> int" where
  "getMsUntilTomorrow midnight now =
     (let ms = midnight - now in if 0 < ms \<and> ms \<le> 25 * 60 * 60 * 1000 then ms else 24 * 60 * 60 * 1000)"

subsection \<open>Locking\<close>

record lock_meta =
  lm_failureCount :: "int option"
  lm_lastFailureAt :: "int option"
  lm_resetAfterMs :: "int option"

definition no_meta :: lock_meta where
  "no_meta = \<lparr>lm_failureCount = None, lm_lastFailureAt = None, lm_resetAfterMs = None\<rparr>"

text \<open>The entry that is written, where one is: a lock that ends later stays, with the higher count of failures.\<close>

definition computeExactModelLockEntry :: "int \<Rightarrow> model_lock option \<Rightarrow> string \<Rightarrow> int \<Rightarrow> lock_meta \<Rightarrow> model_lock option" where
  "computeExactModelLockEntry now existing reason cooldownMs meta =
     (let newUntil = now + cooldownMs;
          fresh = \<lparr>mk_reason = reason, mk_until = newUntil, mk_lockedAt = now,
            mk_failureCount = nullish (lm_failureCount meta) (nullish (map_option mk_failureCount existing) 1),
            mk_lastFailureAt = nullish (lm_lastFailureAt meta) now,
            mk_resetAfterMs = nullish (lm_resetAfterMs meta) (nullish (map_option mk_resetAfterMs existing) 0)\<rparr> in
      case existing of
        Some e \<Rightarrow>
          if newUntil < mk_until e then
            (if truthy (lm_failureCount meta) \<and> mk_failureCount e < nullish (lm_failureCount meta) 0 then
               Some (e\<lparr>mk_failureCount := nullish (lm_failureCount meta) 0,
                 mk_lastFailureAt := nullish (lm_lastFailureAt meta) (mk_lastFailureAt e),
                 mk_resetAfterMs := nullish (lm_resetAfterMs meta) (mk_resetAfterMs e)\<rparr>)
             else None)
          else Some fresh
      | None \<Rightarrow> Some fresh)"

definition lock_key :: "int \<Rightarrow> string \<Rightarrow> string \<Rightarrow> int \<Rightarrow> lock_meta \<Rightarrow> model_locks \<Rightarrow> model_locks" where
  "lock_key now key reason cooldownMs meta s =
     (let s1 = cleanupModelLockKey now key s in
      case computeExactModelLockEntry now (map_get (ml_lockouts s1) key) reason cooldownMs meta of
        Some e \<Rightarrow> s1\<lparr>ml_lockouts := map_set key e (ml_lockouts s1)\<rparr>
      | None \<Rightarrow> s1)"

definition lockModel :: "provider_ids \<Rightarrow> int \<Rightarrow> string \<Rightarrow> string \<Rightarrow> string \<Rightarrow> string \<Rightarrow> int \<Rightarrow> lock_meta \<Rightarrow> model_locks \<Rightarrow> model_locks" where
  "lockModel ids now provider connectionId model reason cooldownMs meta s =
     (if model = [] then s
      else lock_key now (getModelLockKey ids provider connectionId model (Some reason) None) reason cooldownMs meta s)"

definition lockExactModel :: "provider_ids \<Rightarrow> int \<Rightarrow> string \<Rightarrow> string \<Rightarrow> string \<Rightarrow> string \<Rightarrow> int \<Rightarrow> lock_meta \<Rightarrow> model_locks \<Rightarrow> model_locks" where
  "lockExactModel ids now provider connectionId model reason cooldownMs meta s =
     (if model = [] then s
      else lock_key now (buildExactModelLockKey (resolveProviderId ids provider) connectionId model) reason cooldownMs meta s)"

record lock_options =
  lo_exactCooldownMs :: "int option"
  lo_maxCooldownMs :: "int option"
  lo_exactScope :: bool
  lo_exactCooldownIsUpstreamReset :: bool

record lock_result =
  lt_cooldownMs :: int
  lt_failureCount :: int
  lt_resetAfterMs :: int

text \<open>What a failure says of a model, on a connection of a provider.\<close>

record model_failure =
  mf_provider :: string
  mf_connectionId :: string
  mf_model :: string
  mf_reason :: string
  mf_status :: int
  mf_fallbackCooldownMs :: int
  mf_profile :: "lock_profile option"
  mf_options :: lock_options

definition failure_key :: "provider_ids \<Rightarrow> model_failure \<Rightarrow> string" where
  "failure_key ids f =
     (if lo_exactScope (mf_options f) then buildExactModelLockKey (resolveProviderId ids (mf_provider f)) (mf_connectionId f) (mf_model f)
      else getModelLockKey ids (mf_provider f) (mf_connectionId f) (mf_model f) (Some (mf_reason f)) (Some (mf_status f)))"

definition lockout_cooldown :: "int \<Rightarrow> int \<Rightarrow> int \<Rightarrow> model_failure \<Rightarrow> int" where
  "lockout_cooldown midnight now failureCount f =
     (let o1 = mf_options f;
          exact = (if mf_reason f = ''quota_exhausted'' \<and> lo_exactCooldownMs o1 = None then Some (getMsUntilTomorrow midnight now)
                   else lo_exactCooldownMs o1);
          base = getModelLockBaseCooldown (mf_status f) (mf_fallbackCooldownMs f) (mf_profile f);
          maxCooldownMs = (case lo_maxCooldownMs o1 of Some m \<Rightarrow> if 0 < m then Some m else None | None \<Rightarrow> None);
          scaled = min (getScaledCooldown base failureCount (nullish (map_option lp_maxBackoffSteps (mf_profile f)) BACKOFF_MAX_LEVEL))
                       (nullish maxCooldownMs BACKOFF_MAX) in
      case exact of
        Some e \<Rightarrow>
          if 0 < e then
            (case maxCooldownMs of Some m \<Rightarrow> if lo_exactCooldownIsUpstreamReset o1 then e else min e m | None \<Rightarrow> e)
          else scaled
      | None \<Rightarrow> scaled)"

definition recordModelLockoutFailure ::
  "provider_ids \<Rightarrow> int \<Rightarrow> int \<Rightarrow> model_failure \<Rightarrow> model_locks \<Rightarrow> lock_result \<times> model_locks" where
  "recordModelLockoutFailure ids midnight now f s =
     (let key = failure_key ids f;
          s1 = cleanupModelLockKey now key s;
          resetAfterMs = getFailureWindowMs (mf_profile f);
          failureCount = (case map_get (ml_failures s1) key of
                            Some previous \<Rightarrow> if within_failure_window now previous then fs_failureCount previous + 1 else 1
                          | None \<Rightarrow> 1);
          cooldownMs = lockout_cooldown midnight now failureCount f;
          s2 = s1\<lparr>ml_failures := map_set key
                 \<lparr>fs_failureCount = failureCount, fs_lastFailureAt = now, fs_resetAfterMs = resetAfterMs, fs_lastCooldownMs = Some cooldownMs\<rparr>
                 (ml_failures s1)\<rparr>;
          lockFn = (if lo_exactScope (mf_options f) then lockExactModel else lockModel) in
      (\<lparr>lt_cooldownMs = cooldownMs, lt_failureCount = failureCount, lt_resetAfterMs = resetAfterMs\<rparr>,
       lockFn ids now (mf_provider f) (mf_connectionId f) (mf_model f) (mf_reason f) cooldownMs
         \<lparr>lm_failureCount = Some failureCount, lm_lastFailureAt = Some now, lm_resetAfterMs = Some resetAfterMs\<rparr> s2))"

subsection \<open>Reading and clearing\<close>

definition clearMultiKeyLock :: "string list \<Rightarrow> model_locks \<Rightarrow> bool \<times> model_locks" where
  "clearMultiKeyLock keys s =
     foldl (\<lambda>(cleared, s) key.
        (map_has (ml_lockouts s) key \<or> map_has (ml_failures s) key \<or> cleared,
         s\<lparr>ml_lockouts := map_delete key (ml_lockouts s), ml_failures := map_delete key (ml_failures s)\<rparr>)) (False, s) keys"

definition clearModelLock :: "provider_ids \<Rightarrow> string \<Rightarrow> string \<Rightarrow> string \<Rightarrow> model_locks \<Rightarrow> bool \<times> model_locks" where
  "clearModelLock ids provider connectionId model s =
     (if model = [] then (False, s) else clearMultiKeyLock (getModelLockKeys ids provider connectionId model) s)"

definition decayModelFailureCount :: "provider_ids \<Rightarrow> string \<Rightarrow> string \<Rightarrow> string \<Rightarrow> model_locks \<Rightarrow> (bool \<times> int) \<times> model_locks" where
  "decayModelFailureCount ids provider connectionId model s =
     (let key = getModelLockKey ids provider connectionId model None None in
      case map_get (ml_failures s) key of
        None \<Rightarrow> ((False, 0), s)
      | Some f \<Rightarrow>
          let n = fs_failureCount f div 2 in
          if n = 0 then ((True, 0), s\<lparr>ml_failures := map_delete key (ml_failures s)\<rparr>)
          else ((False, n), s\<lparr>ml_failures := map_set key (f\<lparr>fs_failureCount := n\<rparr>) (ml_failures s)\<rparr>))"

definition clearAllModelLockouts :: "model_locks \<Rightarrow> model_locks" where
  "clearAllModelLockouts s = s\<lparr>ml_lockouts := [], ml_failures := []\<rparr>"

fun isAnyKeyLocked :: "int \<Rightarrow> string list \<Rightarrow> model_locks \<Rightarrow> bool \<times> model_locks" where
  "isAnyKeyLocked now [] s = (False, s)"
| "isAnyKeyLocked now (k # ks) s =
     (let s1 = cleanupModelLockKey now k s in
      if map_has (ml_lockouts s1) k then (True, s1) else isAnyKeyLocked now ks s1)"

definition isModelLocked :: "provider_ids \<Rightarrow> int \<Rightarrow> string \<Rightarrow> string \<Rightarrow> string \<Rightarrow> model_locks \<Rightarrow> bool \<times> model_locks" where
  "isModelLocked ids now provider connectionId model s =
     (if model = [] then (False, s) else isAnyKeyLocked now (getModelLockKeys ids provider connectionId model) s)"

fun active_entries :: "int \<Rightarrow> string list \<Rightarrow> model_locks \<Rightarrow> model_lock list \<times> model_locks" where
  "active_entries now [] s = ([], s)"
| "active_entries now (k # ks) s =
     (let s1 = cleanupModelLockKey now k s; (es, s2) = active_entries now ks s1 in
      (case map_get (ml_lockouts s1) k of Some e \<Rightarrow> e # es | None \<Rightarrow> es, s2))"

definition findLatestLockEntry :: "int \<Rightarrow> string list \<Rightarrow> model_locks \<Rightarrow> model_lock option \<times> model_locks" where
  "findLatestLockEntry now keys s =
     (let (es, s1) = active_entries now keys s in
      (case sort_key (\<lambda>e. - mk_until e) es of e # _ \<Rightarrow> Some e | [] \<Rightarrow> None, s1))"

text \<open>Reason, remaining time, time of the lock and count of failures.\<close>

definition getModelLockoutInfo ::
  "provider_ids \<Rightarrow> int \<Rightarrow> string \<Rightarrow> string \<Rightarrow> string \<Rightarrow> model_locks \<Rightarrow> (string \<times> int \<times> int \<times> int) option \<times> model_locks" where
  "getModelLockoutInfo ids now provider connectionId model s =
     (if model = [] then (None, s)
      else let (e, s1) = findLatestLockEntry now (getModelLockKeys ids provider connectionId model) s in
           (map_option (\<lambda>e. (mk_reason e, mk_until e - now, mk_lockedAt e, mk_failureCount e)) e, s1))"

record lockout_info =
  li_provider :: string
  li_connectionId :: string
  li_model :: string
  li_reason :: string
  li_remainingMs :: int
  li_failureCount :: int
  li_lockedAt :: int
  li_until :: int

definition key_parts :: "string \<Rightarrow> string \<times> string \<times> string" where
  "key_parts key =
     (let provider = takeWhile (\<lambda>c. c \<noteq> CHR '':'') key; r = drop (length provider + 1) key;
          connectionId = takeWhile (\<lambda>c. c \<noteq> CHR '':'') r in
      (provider, connectionId, drop (length connectionId + 1) r))"

definition cleanup_all :: "int \<Rightarrow> string list \<Rightarrow> model_locks \<Rightarrow> model_locks" where
  "cleanup_all now keys s = foldl (\<lambda>s k. cleanupModelLockKey now k s) s keys"

definition getAllModelLockouts :: "int \<Rightarrow> model_locks \<Rightarrow> lockout_info list \<times> model_locks" where
  "getAllModelLockouts now s =
     (let s1 = cleanup_all now (map fst (ml_lockouts s)) s in
      (map (\<lambda>(key, e). case key_parts key of (p, c, m) \<Rightarrow>
          \<lparr>li_provider = p, li_connectionId = c, li_model = m, li_reason = mk_reason e, li_remainingMs = mk_until e - now,
            li_failureCount = mk_failureCount e, li_lockedAt = mk_lockedAt e, li_until = mk_until e\<rparr>) (ml_lockouts s1), s1))"

subsection \<open>The sweep\<close>

definition MODEL_LOCKOUT_EVICTION_CAP :: nat where "MODEL_LOCKOUT_EVICTION_CAP = 1000"

text \<open>The loop over the failures counts every key it looks at, whether it deletes it or not.\<close>

definition evictLockoutOverflow :: "nat \<Rightarrow> int \<Rightarrow> model_locks \<Rightarrow> model_locks" where
  "evictLockoutOverflow cap now s =
     (let s1 = (if cap < length (ml_lockouts s) then
                  let gone = map fst (take (length (ml_lockouts s) - cap) (filter (\<lambda>(_, e). mk_until e \<le> now) (ml_lockouts s))) in
                  foldl (\<lambda>s k. s\<lparr>ml_lockouts := map_delete k (ml_lockouts s), ml_failures := map_delete k (ml_failures s)\<rparr>) s gone
                else s) in
      if cap < length (ml_failures s1) then
        foldl (\<lambda>s k. if map_has (ml_lockouts s) k then s else s\<lparr>ml_failures := map_delete k (ml_failures s)\<rparr>) s1
          (take (length (ml_failures s1) - cap) (map fst (ml_failures s1)))
      else s1)"

definition lock_sweep :: "int \<Rightarrow> model_locks \<Rightarrow> model_locks" where
  "lock_sweep now s =
     (let s1 = cleanup_all now (map fst (ml_lockouts s)) s; s2 = cleanup_all now (map fst (ml_failures s1)) s1 in
      evictLockoutOverflow MODEL_LOCKOUT_EVICTION_CAP now s2)"

definition no_locks :: model_locks where
  "no_locks = \<lparr>ml_lockouts = [], ml_failures = []\<rparr>"

subsection \<open>Runs\<close>

datatype lock_event =
    Lk_failure int model_failure
  | Lk_lock string string string string int lock_meta
  | Lk_lock_exact string string string string int lock_meta
  | Lk_clear string string string
  | Lk_decay string string string
  | Lk_check string string string
  | Lk_info string string string
  | Lk_list
  | Lk_sweep
  | Lk_clear_all

fun lock_step :: "provider_ids \<Rightarrow> model_locks \<Rightarrow> int \<times> lock_event \<Rightarrow> model_locks" where
  "lock_step ids s (now, Lk_failure midnight f) = snd (recordModelLockoutFailure ids midnight now f s)"
| "lock_step ids s (now, Lk_lock p c m r d meta) = lockModel ids now p c m r d meta s"
| "lock_step ids s (now, Lk_lock_exact p c m r d meta) = lockExactModel ids now p c m r d meta s"
| "lock_step ids s (now, Lk_clear p c m) = snd (clearModelLock ids p c m s)"
| "lock_step ids s (now, Lk_decay p c m) = snd (decayModelFailureCount ids p c m s)"
| "lock_step ids s (now, Lk_check p c m) = snd (isModelLocked ids now p c m s)"
| "lock_step ids s (now, Lk_info p c m) = snd (getModelLockoutInfo ids now p c m s)"
| "lock_step ids s (now, Lk_list) = snd (getAllModelLockouts now s)"
| "lock_step ids s (now, Lk_sweep) = lock_sweep now s"
| "lock_step ids s (now, Lk_clear_all) = clearAllModelLockouts s"

text \<open>A key that is locked until a time at least, and the events before that time that do not clear it.\<close>

definition locked_until :: "string \<Rightarrow> int \<Rightarrow> model_locks \<Rightarrow> bool" where
  "locked_until key u s \<longleftrightarrow> (\<exists>e. map_get (ml_lockouts s) key = Some e \<and> u \<le> mk_until e)"

fun leaves_lock :: "provider_ids \<Rightarrow> string \<Rightarrow> int \<Rightarrow> int \<times> lock_event \<Rightarrow> bool" where
  "leaves_lock ids key u (now, Lk_clear p c m) \<longleftrightarrow> now < u \<and> (m = [] \<or> key \<notin> set (getModelLockKeys ids p c m))"
| "leaves_lock ids key u (now, Lk_clear_all) \<longleftrightarrow> False"
| "leaves_lock ids key u (now, ev) \<longleftrightarrow> now < u"

lemma locked_cong: "ml_lockouts s' = ml_lockouts s \<Longrightarrow> locked_until key u s' = locked_until key u s"
  by (simp add: locked_until_def)

lemma cleanup_locked: "locked_until key u s \<Longrightarrow> now \<le> u \<Longrightarrow> locked_until key u (cleanupModelLockKey now k s)"
  by (auto simp: cleanupModelLockKey_def locked_until_def Let_def split: option.split)

lemma cleanup_all_locked: "locked_until key u s \<Longrightarrow> now \<le> u \<Longrightarrow> locked_until key u (cleanup_all now ks s)"
  by (induction ks arbitrary: s) (auto simp: cleanup_all_def cleanup_locked)

lemma entry_until:
  "computeExactModelLockEntry now existing reason d meta = Some e \<Longrightarrow> now + d \<le> mk_until e \<and> (\<forall>e0. existing = Some e0 \<longrightarrow> mk_until e0 \<le> mk_until e)"
  by (auto simp: computeExactModelLockEntry_def Let_def split: option.splits if_splits)

lemma entry_none:
  "computeExactModelLockEntry now existing reason d meta = None \<Longrightarrow> \<exists>e. existing = Some e \<and> now + d < mk_until e"
  by (auto simp: computeExactModelLockEntry_def Let_def split: option.splits if_splits)

lemma lock_key_locked:
  assumes "locked_until key u s" and "now \<le> u"
  shows "locked_until key u (lock_key now k reason d meta s)"
proof -
  let ?s = "cleanupModelLockKey now k s"
  obtain e where e: "map_get (ml_lockouts ?s) key = Some e" "u \<le> mk_until e"
    using cleanup_locked [OF assms] by (auto simp: locked_until_def)
  show ?thesis
  proof (cases "computeExactModelLockEntry now (map_get (ml_lockouts ?s) k) reason d meta")
    case (Some e1)
    then show ?thesis using e entry_until [OF Some] by (auto simp: lock_key_def locked_until_def Let_def intro: order_trans)
  qed (use e in \<open>simp add: lock_key_def locked_until_def Let_def\<close>)
qed

text \<open>Locking a key locks it for the whole cooldown.\<close>

lemma lock_key_locks: "locked_until key (now + d) (lock_key now key reason d meta s)"
proof -
  let ?s = "cleanupModelLockKey now key s"
  show ?thesis
  proof (cases "computeExactModelLockEntry now (map_get (ml_lockouts ?s) key) reason d meta")
    case None
    then show ?thesis using entry_none [OF None] by (auto simp: lock_key_def locked_until_def Let_def)
  next
    case (Some e1)
    then show ?thesis using entry_until [OF Some] by (auto simp: lock_key_def locked_until_def Let_def)
  qed
qed

lemma any_locked_keeps: "locked_until key u s \<Longrightarrow> now \<le> u \<Longrightarrow> locked_until key u (snd (isAnyKeyLocked now ks s))"
  by (induction ks arbitrary: s) (simp_all add: Let_def cleanup_locked)

lemma any_locked_reads:
  "locked_until key u s \<Longrightarrow> now \<le> u \<Longrightarrow> key \<in> set ks \<Longrightarrow> fst (isAnyKeyLocked now ks s)"
proof (induction ks arbitrary: s)
  case (Cons k ks)
  have l: "locked_until key u (cleanupModelLockKey now k s)" using Cons.prems by (intro cleanup_locked)
  then show ?case using Cons.IH [OF l] Cons.prems by (cases "k = key") (auto simp: Let_def locked_until_def)
qed simp

lemma active_keeps: "locked_until key u s \<Longrightarrow> now \<le> u \<Longrightarrow> locked_until key u (snd (active_entries now ks s))"
  by (induction ks arbitrary: s) (simp_all add: Let_def split_beta cleanup_locked)

lemma clear_keys_keeps:
  "key \<notin> set ks \<Longrightarrow> map_get (ml_lockouts (snd (foldl (\<lambda>(cleared, s) k.
      (map_has (ml_lockouts s) k \<or> map_has (ml_failures s) k \<or> cleared,
       s\<lparr>ml_lockouts := map_delete k (ml_lockouts s), ml_failures := map_delete k (ml_failures s)\<rparr>)) (b, s) ks))) key
    = map_get (ml_lockouts s) key"
  by (induction ks arbitrary: b s) auto

lemma evict_keeps_gone:
  "key \<notin> set gone \<Longrightarrow> map_get (ml_lockouts (foldl (\<lambda>s k. s\<lparr>ml_lockouts := map_delete k (ml_lockouts s), ml_failures := map_delete k (ml_failures s)\<rparr>) s gone)) key
    = map_get (ml_lockouts s) key"
  by (induction gone arbitrary: s) auto

lemma evict_failures_keeps:
  "ml_lockouts (foldl (\<lambda>s k. if map_has (ml_lockouts s) k then s else s\<lparr>ml_failures := map_delete k (ml_failures s)\<rparr>) s ks) = ml_lockouts s"
  by (induction ks arbitrary: s) auto

text \<open>Keys of the locks stay distinct.\<close>

abbreviation locks_wf :: "model_locks \<Rightarrow> bool" where
  "locks_wf s \<equiv> map_wf (ml_lockouts s)"

lemma cleanup_wf: "locks_wf s \<Longrightarrow> locks_wf (cleanupModelLockKey now k s)"
  by (auto simp: cleanupModelLockKey_def Let_def map_wf_delete split: option.split)

lemma cleanup_all_wf: "locks_wf s \<Longrightarrow> locks_wf (cleanup_all now ks s)"
  by (induction ks arbitrary: s) (simp_all add: cleanup_all_def cleanup_wf)

lemma lock_key_wf: "locks_wf s \<Longrightarrow> locks_wf (lock_key now k reason d meta s)"
  by (auto simp: lock_key_def Let_def cleanup_wf map_wf_set split: option.split)

lemma any_locked_wf: "locks_wf s \<Longrightarrow> locks_wf (snd (isAnyKeyLocked now ks s))"
  by (induction ks arbitrary: s) (simp_all add: Let_def cleanup_wf)

lemma active_wf: "locks_wf s \<Longrightarrow> locks_wf (snd (active_entries now ks s))"
  by (induction ks arbitrary: s) (simp_all add: Let_def split_beta cleanup_wf)

lemma clear_keys_wf:
  "locks_wf s \<Longrightarrow> locks_wf (snd (foldl (\<lambda>(cleared, s) k.
      (map_has (ml_lockouts s) k \<or> map_has (ml_failures s) k \<or> cleared,
       s\<lparr>ml_lockouts := map_delete k (ml_lockouts s), ml_failures := map_delete k (ml_failures s)\<rparr>)) (b, s) ks))"
  by (induction ks arbitrary: b s) (auto simp: map_wf_delete)

lemma clear_multi:
  "locks_wf s \<Longrightarrow> locks_wf (snd (clearMultiKeyLock ks s))"
  "key \<notin> set ks \<Longrightarrow> locked_until key u (snd (clearMultiKeyLock ks s)) = locked_until key u s"
  by (simp_all only: clearMultiKeyLock_def clear_keys_wf locked_until_def clear_keys_keeps not_False_eq_True)

lemma evict_gone_wf:
  "locks_wf s \<Longrightarrow> locks_wf (foldl (\<lambda>s k. s\<lparr>ml_lockouts := map_delete k (ml_lockouts s), ml_failures := map_delete k (ml_failures s)\<rparr>) s gone)"
  by (induction gone arbitrary: s) (simp_all add: map_wf_delete)

lemma evict_locks_wf: "locks_wf s \<Longrightarrow> locks_wf (evictLockoutOverflow cap now s)"
  by (simp add: evictLockoutOverflow_def Let_def evict_failures_keeps [simplified] evict_gone_wf)

lemma evict_locked:
  assumes "locks_wf s" and "locked_until key u s" and "now < u"
  shows "locked_until key u (evictLockoutOverflow cap now s)"
proof -
  obtain e where e: "map_get (ml_lockouts s) key = Some e" "u \<le> mk_until e" using assms(2) by (auto simp: locked_until_def)
  have "key \<notin> set (map fst (take n (filter (\<lambda>(_, e). mk_until e \<le> now) (ml_lockouts s))))" for n
  proof
    assume "key \<in> set (map fst (take n (filter (\<lambda>(_, e). mk_until e \<le> now) (ml_lockouts s))))"
    then obtain e' where "(key, e') \<in> set (take n (filter (\<lambda>(_, e). mk_until e \<le> now) (ml_lockouts s)))" by auto
    then have "(key, e') \<in> set (filter (\<lambda>(_, e). mk_until e \<le> now) (ml_lockouts s))" by (rule in_set_takeD)
    then have "(key, e') \<in> set (ml_lockouts s)" "mk_until e' \<le> now" by simp_all
    then show False using e assms(1, 3) by (simp add: map_of_is_SomeI [OF assms(1)])
  qed
  then have "map_get (ml_lockouts (evictLockoutOverflow cap now s)) key = map_get (ml_lockouts s) key"
    by (simp add: evictLockoutOverflow_def Let_def evict_failures_keeps [simplified] evict_keeps_gone)
  then show ?thesis using e by (simp add: locked_until_def)
qed

text \<open>What a failure does besides keeping its count.\<close>

definition lock_after_failure :: "provider_ids \<Rightarrow> int \<Rightarrow> model_failure \<Rightarrow> lock_result \<Rightarrow> model_locks \<Rightarrow> model_locks" where
  "lock_after_failure ids now f r s =
     (if lo_exactScope (mf_options f) then lockExactModel else lockModel) ids now (mf_provider f) (mf_connectionId f) (mf_model f) (mf_reason f)
       (lt_cooldownMs r) \<lparr>lm_failureCount = Some (lt_failureCount r), lm_lastFailureAt = Some now, lm_resetAfterMs = Some (lt_resetAfterMs r)\<rparr> s"

lemma record_locks:
  "\<exists>fs. snd (recordModelLockoutFailure ids midnight now f s)
     = lock_after_failure ids now f (fst (recordModelLockoutFailure ids midnight now f s))
         ((cleanupModelLockKey now (failure_key ids f) s)\<lparr>ml_failures := fs\<rparr>)"
  by (simp add: recordModelLockoutFailure_def lock_after_failure_def Let_def exI)

definition locks_held :: "string \<Rightarrow> int \<Rightarrow> model_locks \<Rightarrow> bool" where
  "locks_held key u s \<longleftrightarrow> locks_wf s \<and> locked_until key u s"

lemma lock_held:
  "locks_held key u s \<Longrightarrow> now \<le> u \<Longrightarrow> locks_held key u (lockModel ids now p c m r d meta s)"
  "locks_held key u s \<Longrightarrow> now \<le> u \<Longrightarrow> locks_held key u (lockExactModel ids now p c m r d meta s)"
  by (simp_all add: locks_held_def lockModel_def lockExactModel_def lock_key_wf lock_key_locked)

lemma failure_held:
  assumes "locks_held key u s" and "now \<le> u"
  shows "locks_held key u (snd (recordModelLockoutFailure ids midnight now f s))"
proof -
  obtain fs where e: "snd (recordModelLockoutFailure ids midnight now f s)
      = lock_after_failure ids now f (fst (recordModelLockoutFailure ids midnight now f s))
          ((cleanupModelLockKey now (failure_key ids f) s)\<lparr>ml_failures := fs\<rparr>)"
    using record_locks by blast
  have "locks_held key u ((cleanupModelLockKey now (failure_key ids f) s)\<lparr>ml_failures := fs\<rparr>)"
    using assms cleanup_locked by (simp add: locks_held_def cleanup_wf locked_cong [of "_\<lparr>ml_failures := fs\<rparr>"])
  then show ?thesis unfolding e lock_after_failure_def using assms(2) by (simp add: lock_held)
qed

lemma lock_step_held:
  assumes "locks_held key u s" and "leaves_lock ids key u ev"
  shows "locks_held key u (lock_step ids s ev)"
proof -
  obtain now e where ev: "ev = (now, e)" by (cases ev)
  have n: "now < u" using assms(2) ev by (cases e) auto
  have h: "locks_wf s" "locked_until key u s" using assms(1) by (simp_all add: locks_held_def)
  show ?thesis
  proof (cases e)
    case (Lk_clear p c m)
    then show ?thesis using h assms(2) ev
      by (auto simp: locks_held_def clearModelLock_def clear_multi)
  next
    case (Lk_decay p c m)
    then show ?thesis using h ev by (auto simp: locks_held_def decayModelFailureCount_def Let_def locked_until_def split: option.split)
  next
    case (Lk_check p c m)
    then show ?thesis using h n ev by (simp add: locks_held_def isModelLocked_def any_locked_wf any_locked_keeps)
  next
    case (Lk_info p c m)
    then show ?thesis using h n ev
      by (simp add: locks_held_def getModelLockoutInfo_def findLatestLockEntry_def split_beta active_wf active_keeps)
  next
    case Lk_list
    then show ?thesis using h n ev by (simp add: locks_held_def getAllModelLockouts_def Let_def cleanup_all_wf cleanup_all_locked)
  next
    case Lk_sweep
    then show ?thesis using h n ev
      by (simp add: locks_held_def lock_sweep_def Let_def cleanup_all_wf cleanup_all_locked evict_locks_wf evict_locked)
  next
    case Lk_clear_all
    then show ?thesis using assms(2) ev by simp
  qed (use assms(1) n ev in \<open>simp_all add: failure_held lock_held\<close>)
qed

interpretation held: step_invariant "lock_step ids" "leaves_lock ids key u" "locks_held key u" for ids key u
  by unfold_locales (rule lock_step_held)

text \<open>The key that a failure locks is among those that are looked up for its model.\<close>

definition locked_key :: "provider_ids \<Rightarrow> model_failure \<Rightarrow> string" where
  "locked_key ids f =
     (if lo_exactScope (mf_options f) then buildExactModelLockKey (resolveProviderId ids (mf_provider f)) (mf_connectionId f) (mf_model f)
      else getModelLockKey ids (mf_provider f) (mf_connectionId f) (mf_model f) (Some (mf_reason f)) None)"

lemma locked_key_looked_up: "locked_key ids f \<in> set (getModelLockKeys ids (mf_provider f) (mf_connectionId f) (mf_model f))"
  by (auto simp: locked_key_def getModelLockKeys_def collectModelLockKeys_def getModelLockKey_def Let_def)

lemma failure_locks:
  assumes "mf_model f \<noteq> []" and "locks_wf s" and "(r, s') = recordModelLockoutFailure ids midnight now f s"
  shows "locks_held (locked_key ids f) (now + lt_cooldownMs r) s'"
proof -
  obtain fs where e: "s' = lock_after_failure ids now f r ((cleanupModelLockKey now (failure_key ids f) s)\<lparr>ml_failures := fs\<rparr>)"
    using record_locks [of ids midnight now f s] assms(3) by (metis fst_conv snd_conv)
  show ?thesis using assms(1, 2)
    by (auto simp: e lock_after_failure_def locks_held_def locked_key_def lockModel_def lockExactModel_def lock_key_wf cleanup_wf lock_key_locks)
qed

lemma run_wf_step: "locks_wf s \<Longrightarrow> locks_wf (lock_step ids s ev)"
proof -
  assume h: "locks_wf s"
  obtain now e where ev: "ev = (now, e)" by (cases ev)
  show ?thesis
  proof (cases e)
    case (Lk_failure midnight f)
    obtain fs where "snd (recordModelLockoutFailure ids midnight now f s)
        = lock_after_failure ids now f (fst (recordModelLockoutFailure ids midnight now f s))
            ((cleanupModelLockKey now (failure_key ids f) s)\<lparr>ml_failures := fs\<rparr>)"
      using record_locks by blast
    then show ?thesis using h ev Lk_failure
      by (simp add: lock_after_failure_def lockModel_def lockExactModel_def lock_key_wf cleanup_wf)
  next
    case (Lk_decay p c m)
    then show ?thesis using h ev by (auto simp: decayModelFailureCount_def Let_def split: option.split)
  qed (use h ev in \<open>simp_all add: lockModel_def lockExactModel_def lock_key_wf clearModelLock_def clear_multi
      isModelLocked_def any_locked_wf getModelLockoutInfo_def findLatestLockEntry_def split_beta active_wf getAllModelLockouts_def
      Let_def cleanup_all_wf lock_sweep_def evict_locks_wf clearAllModelLockouts_def\<close>)
qed

interpretation locks: step_invariant "lock_step ids" "\<lambda>_. True" locks_wf for ids
  by unfold_locales (rule run_wf_step)

lemma runs_locks_wf: "locks_wf (foldl (lock_step ids) no_locks evs)"
  using locks.run_inv [of no_locks evs ids] by (simp add: no_locks_def list_all_iff)

text \<open>
  C38: A model that failed is locked on its connection for the whole cooldown the failure was answered with: whatever
  fails, is locked, checked, listed or swept in the meantime, for the same model or any other, every check until the end
  of the cooldown finds it locked, unless a lock of the same scope is cleared.
\<close>

theorem lock_lasts_cooldown:
  assumes "(r, s) = recordModelLockoutFailure ids midnight now f (foldl (lock_step ids) no_locks before)"
    and "mf_model f \<noteq> []" and "\<forall>ev \<in> set evs. leaves_lock ids (locked_key ids f) (now + lt_cooldownMs r) ev"
    and "t \<le> now + lt_cooldownMs r"
  shows "fst (isModelLocked ids t (mf_provider f) (mf_connectionId f) (mf_model f) (foldl (lock_step ids) s evs))"
proof -
  have "locks_held (locked_key ids f) (now + lt_cooldownMs r) s"
    using failure_locks [OF assms(2) runs_locks_wf assms(1)] .
  then have "locks_held (locked_key ids f) (now + lt_cooldownMs r) (foldl (lock_step ids) s evs)"
    using assms(3) by (intro held.run_inv) (auto simp: list_all_iff)
  then have "locked_until (locked_key ids f) (now + lt_cooldownMs r) (foldl (lock_step ids) s evs)" by (simp add: locks_held_def)
  from any_locked_reads [OF this assms(4) locked_key_looked_up] show ?thesis
    using assms(2) by (simp add: isModelLocked_def)
qed

subsection \<open>Scopes and counts\<close>

lemma codex_scope_key:
  "resolveProviderId ids p = ''codex'' \<Longrightarrow> reason \<noteq> Some ''not_found''
    \<Longrightarrow> getModelLockKey ids p c m reason None = ''codex:'' @ c @ '':'' @ getCodexModelScope m"
  by (simp add: getModelLockKey_def scoped_model_def)

text \<open>
  C39: A model of codex that is answered 404 for a reason that is not called not_found, as the combo router records it,
  locks every model of its scope on the connection for the whole cooldown, although its failures are counted under its
  own name.
\<close>

theorem missing_model_locks_scope:
  assumes "resolveProviderId ids (mf_provider f) = ''codex''" and "getCodexModelScope m' = getCodexModelScope (mf_model f)"
    and "mf_model f \<noteq> []" and "m' \<noteq> []" and "mf_status f = 404" and "mf_reason f \<noteq> ''not_found''" and "\<not> lo_exactScope (mf_options f)"
    and "(r, s) = recordModelLockoutFailure ids midnight now f (foldl (lock_step ids) no_locks before)"
    and "t \<le> now + lt_cooldownMs r"
  shows "fst (isModelLocked ids t (mf_provider f) (mf_connectionId f) m' s)
    \<and> failure_key ids f = ''codex:'' @ mf_connectionId f @ '':'' @ mf_model f"
proof -
  have "locked_key ids f = getModelLockKey ids (mf_provider f) (mf_connectionId f) m' None None"
    using assms(1, 2, 6, 7) by (simp add: locked_key_def codex_scope_key)
  then have k: "locked_key ids f \<in> set (getModelLockKeys ids (mf_provider f) (mf_connectionId f) m')"
    by (simp add: getModelLockKeys_def collectModelLockKeys_def)
  have "locked_until (locked_key ids f) (now + lt_cooldownMs r) s"
    using failure_locks [OF assms(3) runs_locks_wf assms(8)] by (simp add: locks_held_def)
  from any_locked_reads [OF this assms(9) k] show ?thesis
    using assms(1, 4, 5, 7) by (simp add: isModelLocked_def failure_key_def getModelLockKey_def)
qed

text \<open>With the reason not_found no other model is locked.\<close>

lemma not_found_locks_one:
  assumes "resolveProviderId ids (mf_provider f) = ''codex''" and "mf_reason f = ''not_found''" and "\<not> lo_exactScope (mf_options f)"
    and "mf_model f \<notin> {getCodexModelScope m', m', ''exact:'' @ js_lower (js_trim m')}"
  shows "\<not> fst (isModelLocked ids t (mf_provider f) (mf_connectionId f) m' (snd (recordModelLockoutFailure ids midnight now f no_locks)))"
proof -
  have none: "map_get (ml_lockouts s) k = None \<Longrightarrow> map_get (ml_lockouts (cleanupModelLockKey t k' s)) k = None" for s k k'
    by (auto simp: cleanupModelLockKey_def Let_def split: option.split)
  have unlocked: "\<not> fst (isAnyKeyLocked t ks s)" if "\<forall>k \<in> set ks. map_get (ml_lockouts s) k = None" for ks s
    using that by (induction ks arbitrary: s) (auto simp: Let_def none)
  obtain fs where e: "snd (recordModelLockoutFailure ids midnight now f no_locks)
      = lock_after_failure ids now f (fst (recordModelLockoutFailure ids midnight now f no_locks))
          ((cleanupModelLockKey now (failure_key ids f) no_locks)\<lparr>ml_failures := fs\<rparr>)"
    using record_locks by blast
  have c: "ml_lockouts (cleanupModelLockKey now k s) = []" if "ml_lockouts s = []" for k s
    using that by (auto simp: cleanupModelLockKey_def Let_def split: option.split)
  have "map_get (ml_lockouts (snd (recordModelLockoutFailure ids midnight now f no_locks))) k = None" if "k \<noteq> locked_key ids f" for k
    using that assms(3) unfolding e
    by (auto simp: lock_after_failure_def lockModel_def lock_key_def Let_def c no_locks_def locked_key_def split: option.split)
  moreover have "locked_key ids f \<notin> set (getModelLockKeys ids (mf_provider f) (mf_connectionId f) m')"
    using assms by (auto simp: locked_key_def getModelLockKeys_def collectModelLockKeys_def getModelLockKey_def buildExactModelLockKey_def
        scoped_model_def)
  ultimately have "\<not> fst (isAnyKeyLocked t (getModelLockKeys ids (mf_provider f) (mf_connectionId f) m')
      (snd (recordModelLockoutFailure ids midnight now f no_locks)))" by (intro unlocked) metis
  then show ?thesis by (simp add: isModelLocked_def)
qed

text \<open>Every cooldown is positive, and at most the limit unless the upstream gave the time of its reset.\<close>

lemma scaled_pos: "0 < getScaledCooldown b n m"
  by (simp add: getScaledCooldown_def Let_def)

lemma lockout_cooldown_pos: "0 < lockout_cooldown midnight now n f"
  by (cases "lo_maxCooldownMs (mf_options f)"; cases "lo_exactCooldownMs (mf_options f)")
     (simp_all add: lockout_cooldown_def Let_def scaled_pos BACKOFF_MAX_def getMsUntilTomorrow_def)

lemma failure_window_pos: "0 < getFailureWindowMs p"
  by (simp add: getFailureWindowMs_def split: option.split)

text \<open>
  Failures one after the other, with nothing else in between: each with the next midnight and the time. They may differ in
  status, reason, hints and settings as long as they are counted under one key.
\<close>

type_synonym timed_failure = "int \<times> int \<times> model_failure"

fun failures_at :: "provider_ids \<Rightarrow> timed_failure list \<Rightarrow> model_locks \<Rightarrow> lock_result list" where
  "failures_at ids [] s = []"
| "failures_at ids ((midnight, t, f) # evs) s =
     (let (r, s1) = recordModelLockoutFailure ids midnight t f s in r # failures_at ids evs s1)"

text \<open>Each within the window of the one before, which its cooldown extends.\<close>

fun in_a_row :: "provider_ids \<Rightarrow> int \<Rightarrow> timed_failure \<Rightarrow> timed_failure list \<Rightarrow> bool" where
  "in_a_row ids n _ [] \<longleftrightarrow> True"
| "in_a_row ids n (midnight0, t0, f0) ((midnight, t, f) # evs) \<longleftrightarrow>
     failure_key ids f = failure_key ids f0
     \<and> t - t0 \<le> getFailureWindowMs (mf_profile f0) + lockout_cooldown midnight0 t0 n f0
     \<and> in_a_row ids (n + 1) (midnight, t, f) evs"

definition last_failure :: "int \<Rightarrow> model_failure \<Rightarrow> int \<Rightarrow> int \<Rightarrow> failure_state" where
  "last_failure midnight f n t =
     \<lparr>fs_failureCount = n, fs_lastFailureAt = t, fs_resetAfterMs = getFailureWindowMs (mf_profile f),
      fs_lastCooldownMs = Some (lockout_cooldown midnight t n f)\<rparr>"

lemma cleanup_keeps_failure:
  "map_get (ml_failures s) key = Some x \<Longrightarrow> within_failure_window now x
    \<Longrightarrow> map_get (ml_failures (cleanupModelLockKey now k s)) key = Some x"
  by (auto simp: cleanupModelLockKey_def Let_def split: option.split)

lemma cleanup_fresh_failure:
  "map_get (ml_failures s) key = None \<Longrightarrow> map_get (ml_failures (cleanupModelLockKey now k s)) key = None"
  by (auto simp: cleanupModelLockKey_def Let_def split: option.split)

lemma lock_key_failures: "map_get (ml_failures s) key = Some x \<Longrightarrow> within_failure_window now x
    \<Longrightarrow> map_get (ml_failures (lock_key now k reason d meta s)) key = Some x"
  using cleanup_keeps_failure [of s key x now k] by (auto simp: lock_key_def Let_def split: option.split)

lemma record_count:
  assumes "map_get (ml_failures s) (failure_key ids f) = x" and "x = None \<and> n = 1 \<or> (\<exists>y. x = Some y \<and> within_failure_window now y \<and> n = fs_failureCount y + 1)"
  shows "fst (recordModelLockoutFailure ids midnight now f s)
      = \<lparr>lt_cooldownMs = lockout_cooldown midnight now n f, lt_failureCount = n, lt_resetAfterMs = getFailureWindowMs (mf_profile f)\<rparr>"
    and "map_get (ml_failures (snd (recordModelLockoutFailure ids midnight now f s))) (failure_key ids f) = Some (last_failure midnight f n now)"
proof -
  let ?s = "cleanupModelLockKey now (failure_key ids f) s"
  have c: "(case map_get (ml_failures ?s) (failure_key ids f) of
      Some y \<Rightarrow> if within_failure_window now y then fs_failureCount y + 1 else 1 | None \<Rightarrow> 1) = n"
    using assms by (auto simp: cleanup_fresh_failure cleanup_keeps_failure)
  then show "fst (recordModelLockoutFailure ids midnight now f s)
      = \<lparr>lt_cooldownMs = lockout_cooldown midnight now n f, lt_failureCount = n, lt_resetAfterMs = getFailureWindowMs (mf_profile f)\<rparr>"
    by (simp add: recordModelLockoutFailure_def Let_def)
  have w: "within_failure_window now (last_failure midnight f n now)"
    using lockout_cooldown_pos [of midnight now n f] failure_window_pos [of "mf_profile f"]
    by (simp add: within_failure_window_def last_failure_def)
  let ?s1 = "?s\<lparr>ml_failures := map_set (failure_key ids f) (last_failure midnight f n now) (ml_failures ?s)\<rparr>"
  have "map_get (ml_failures (lock_key now k reason d meta ?s1)) (failure_key ids f) = Some (last_failure midnight f n now)" for k reason d meta
    using w by (intro lock_key_failures) simp_all
  then show "map_get (ml_failures (snd (recordModelLockoutFailure ids midnight now f s))) (failure_key ids f) = Some (last_failure midnight f n now)"
    by (simp add: recordModelLockoutFailure_def Let_def c lockModel_def lockExactModel_def last_failure_def [symmetric])
qed

definition result_of :: "int \<Rightarrow> timed_failure \<Rightarrow> lock_result" where
  "result_of n = (\<lambda>(midnight, t, f).
     \<lparr>lt_cooldownMs = lockout_cooldown midnight t n f, lt_failureCount = n, lt_resetAfterMs = getFailureWindowMs (mf_profile f)\<rparr>)"

lemma failures_counted:
  assumes "map_get (ml_failures s) (failure_key ids f0) = Some (last_failure midnight0 f0 n t0)"
    and "in_a_row ids n (midnight0, t0, f0) evs"
  shows "failures_at ids evs s = map (\<lambda>i. result_of (n + int i + 1) (evs ! i)) [0..<length evs]"
  using assms
proof (induction evs arbitrary: s n midnight0 t0 f0)
  case (Cons ev evs)
  obtain midnight t f where ev: "ev = (midnight, t, f)" by (cases ev)
  have k: "failure_key ids f = failure_key ids f0" using Cons.prems(2) by (simp add: ev)
  have "within_failure_window t (last_failure midnight0 f0 n t0)"
    using Cons.prems(2) by (simp add: ev within_failure_window_def last_failure_def)
  then have "Some (last_failure midnight0 f0 n t0) = None \<and> n + 1 = 1
      \<or> (\<exists>y. Some (last_failure midnight0 f0 n t0) = Some y \<and> within_failure_window t y \<and> n + 1 = fs_failureCount y + 1)"
    by (simp add: last_failure_def)
  note r = record_count [where f = f, OF Cons.prems(1) [folded k] this, of midnight]
  have u: "[0..<length (ev # evs)] = 0 # map Suc [0..<length evs]" by (simp add: upt_conv_Cons map_Suc_upt del: upt_Suc)
  have "in_a_row ids (n + 1) (midnight, t, f) evs" using Cons.prems(2) by (simp add: ev)
  from Cons.IH [OF r(2) this] r(1) show ?case
    unfolding u by (simp add: ev split_beta comp_def ac_simps result_of_def del: upt_Suc)
qed simp

text \<open>The base of the cooldown of a failure, which is one second where none is given, and its positive limit.\<close>

definition base_cooldown :: "model_failure \<Rightarrow> int" where
  "base_cooldown f = (let b = getModelLockBaseCooldown (mf_status f) (mf_fallbackCooldownMs f) (mf_profile f) in if 0 < b then b else 1000)"

definition limit_of :: "model_failure \<Rightarrow> int option" where
  "limit_of f = (case lo_maxCooldownMs (mf_options f) of Some m \<Rightarrow> if 0 < m then Some m else None | None \<Rightarrow> None)"

definition within_limit :: "model_failure \<Rightarrow> int \<Rightarrow> int" where
  "within_limit f d = (case limit_of f of Some m \<Rightarrow> min d m | None \<Rightarrow> d)"

text \<open>A time that is given is taken within the limit, unless the upstream announced it.\<close>

definition hinted :: "model_failure \<Rightarrow> int \<Rightarrow> int" where
  "hinted f d = (if lo_exactCooldownIsUpstreamReset (mf_options f) then d else within_limit f d)"

definition steps_of :: "model_failure \<Rightarrow> nat" where
  "steps_of f = nat (nullish (map_option lp_maxBackoffSteps (mf_profile f)) BACKOFF_MAX_LEVEL)"

lemma scaled_cooldown:
  assumes "nullish (lo_exactCooldownMs (mf_options f)) 0 \<le> 0" and "mf_reason f \<noteq> ''quota_exhausted'' \<or> lo_exactCooldownMs (mf_options f) \<noteq> None"
  shows "lockout_cooldown midnight t (int i + 1) f = min (base_cooldown f * 2 ^ min i (steps_of f)) (nullish (limit_of f) BACKOFF_MAX)"
proof -
  have n: "nat (min (int i) (max 0 n)) = min i (nat n)" for n by (cases "0 \<le> n") (auto simp: min_def max_def le_nat_iff)
  have g: "getScaledCooldown b (int i + 1) m = (if 0 < b then b else 1000) * 2 ^ min i (nat m)" for b m
    by (simp add: getScaledCooldown_def Let_def n)
  have "\<exists>x. (if mf_reason f = ''quota_exhausted'' \<and> lo_exactCooldownMs (mf_options f) = None then Some (getMsUntilTomorrow midnight t)
      else lo_exactCooldownMs (mf_options f)) = x \<and> (case x of None \<Rightarrow> True | Some e \<Rightarrow> \<not> 0 < e)"
    using assms by (cases "lo_exactCooldownMs (mf_options f)") (auto simp: nullish_def)
  then obtain x where x: "(if mf_reason f = ''quota_exhausted'' \<and> lo_exactCooldownMs (mf_options f) = None then Some (getMsUntilTomorrow midnight t)
      else lo_exactCooldownMs (mf_options f)) = x" "case x of None \<Rightarrow> True | Some e \<Rightarrow> \<not> 0 < e" by blast
  show ?thesis
    unfolding lockout_cooldown_def Let_def x(1) g base_cooldown_def steps_of_def limit_of_def using x(2) by (cases x) simp_all
qed

lemma hinted_cooldown:
  assumes "lo_exactCooldownMs (mf_options f) = Some e" and "0 < e"
  shows "lockout_cooldown midnight t n f = hinted f e"
  using assms by (simp add: lockout_cooldown_def Let_def hinted_def within_limit_def limit_of_def split: option.split)

text \<open>A quota that is used up comes back at midnight; a midnight that is not ahead, or too far, counts as a day.\<close>

lemma quota_cooldown:
  assumes "mf_reason f = ''quota_exhausted''" and "lo_exactCooldownMs (mf_options f) = None"
  shows "lockout_cooldown midnight t n f = hinted f (if t < midnight \<and> midnight - t \<le> 90000000 then midnight - t else 86400000)"
  using assms by (auto simp: lockout_cooldown_def Let_def hinted_def within_limit_def limit_of_def getMsUntilTomorrow_def split: option.split)


subsection \<open>Witnesses\<close>

definition cx_ids :: provider_ids where
  "cx_ids a = (if a = ''cx'' then Some ''codex'' else None)"

definition missing_model :: model_failure where
  "missing_model =
     \<lparr>mf_provider = ''cx'', mf_connectionId = ''c'', mf_model = ''gpt-5-old'', mf_reason = ''unknown'', mf_status = 404,
      mf_fallbackCooldownMs = 120000, mf_profile = Some \<lparr>lp_baseCooldownMs = 5000, lp_resetTimeoutMs = 30000, lp_maxBackoffSteps = 3\<rparr>,
      mf_options = \<lparr>lo_exactCooldownMs = Some 0, lo_maxCooldownMs = Some 1800000, lo_exactScope = False,
        lo_exactCooldownIsUpstreamReset = False\<rparr>\<rparr>"

lemma missing_cooldown: "lt_cooldownMs (fst (recordModelLockoutFailure cx_ids 0 7 missing_model no_locks)) = 120000"
  by code_simp

theorem lock_lasts_cooldown_witness:
  "fst (isModelLocked cx_ids 120007 ''cx'' ''c'' ''gpt-5-old''
     (foldl (lock_step cx_ids) (snd (recordModelLockoutFailure cx_ids 0 7 missing_model no_locks))
       [(8, Lk_sweep), (9, Lk_clear ''cx'' ''d'' ''gpt-5-old''), (60000, Lk_lock ''cx'' ''c'' ''gpt-5-old'' ''rate_limit'' 5 no_meta)]))"
proof -
  have k: "locked_key cx_ids missing_model = ''codex:c:codex''" by code_simp
  have c: "''codex:c:codex'' \<notin> set (getModelLockKeys cx_ids ''cx'' ''d'' ''gpt-5-old'')" by code_simp
  have m: "mf_provider missing_model = ''cx''" "mf_connectionId missing_model = ''c''" "mf_model missing_model = ''gpt-5-old''"
    by (simp_all add: missing_model_def)
  show ?thesis
    using lock_lasts_cooldown [of "fst (recordModelLockoutFailure cx_ids 0 7 missing_model no_locks)"
        "snd (recordModelLockoutFailure cx_ids 0 7 missing_model no_locks)" cx_ids 0 7 missing_model "[]"
        "[(8, Lk_sweep), (9, Lk_clear ''cx'' ''d'' ''gpt-5-old''), (60000, Lk_lock ''cx'' ''c'' ''gpt-5-old'' ''rate_limit'' 5 no_meta)]" 120007]
    by (simp add: missing_cooldown k c m del: foldl_Cons) 
qed

theorem missing_model_locks_scope_witness:
  "fst (isModelLocked cx_ids 120007 ''cx'' ''c'' ''gpt-5.2'' (snd (recordModelLockoutFailure cx_ids 0 7 missing_model no_locks)))
   \<and> failure_key cx_ids missing_model = ''codex:c:gpt-5-old''"
proof -
  have s: "getCodexModelScope ''gpt-5.2'' = getCodexModelScope ''gpt-5-old''" by code_simp
  have m: "mf_provider missing_model = ''cx''" "mf_connectionId missing_model = ''c''" "mf_model missing_model = ''gpt-5-old''"
      "mf_status missing_model = 404" "mf_reason missing_model = ''unknown''" "\<not> lo_exactScope (mf_options missing_model)"
    by (simp_all add: missing_model_def)
  show ?thesis
    using missing_model_locks_scope [of cx_ids missing_model "''gpt-5.2''" "fst (recordModelLockoutFailure cx_ids 0 7 missing_model no_locks)"
        "snd (recordModelLockoutFailure cx_ids 0 7 missing_model no_locks)" 0 7 "[]" 120007]
    by (simp add: missing_cooldown s m resolveProviderId_def cx_ids_def)
qed

text \<open>Two failures without a hint, one with a reset the upstream announced, one of a used up quota, and one without a hint.\<close>

definition failing_run :: "timed_failure list" where
  "failing_run =
     (let plain = missing_model\<lparr>mf_status := 429, mf_reason := ''rate_limit''\<rparr>;
          reset = plain\<lparr>mf_options := (mf_options plain)\<lparr>lo_exactCooldownMs := Some 7200000, lo_exactCooldownIsUpstreamReset := True\<rparr>\<rparr>;
          used_up = plain\<lparr>mf_status := 403, mf_reason := ''quota_exhausted'', mf_options := (mf_options plain)\<lparr>lo_exactCooldownMs := None\<rparr>\<rparr> in
      [(0, 7, plain), (0, 120008, plain), (0, 360000, reset), (10000000, 7500000, used_up), (0, 9300000, plain)])"


end
