(* ===== verification/ProviderFailures.thy ===== *)
theory ProviderFailures
  imports CircuitRegistry ProviderCooldown
begin

text \<open>
  The failures of providers, as the combo router records them: the wrappers of \<^verbatim>\<open>src/open-sse/services/accountFallback.ts\<close>
  around the shared circuit breakers and the cooldowns of connections, with the two maps that keep one event from being
  counted several times. The profiles of providers and whether their hints on 429 are trusted by default come from
  tables, which are the record \<open>provider_env\<close>. An empty connection stands for none.
\<close>

record breaker_profile =
  bp_failureThreshold :: "int option"
  bp_degradationThreshold :: "int option"
  bp_resetTimeoutMs :: "int option"
  bp_circuitBreakerThreshold :: "int option"
  bp_circuitBreakerReset :: "int option"
  bp_maxBackoffMultiplier :: "int option"
  bp_backoffEscalationCount :: "int option"
  bp_useUpstream429BreakerHints :: "bool option"

record 'e provider_env =
  pv_profile :: "string \<Rightarrow> breaker_profile"
  pv_defaultHints :: "string \<Rightarrow> bool"
  pv_classify :: "'e \<Rightarrow> unit + failure_kind option"

record 'e failure_world =
  fw_circuits :: "'e circuit_world"
  fw_cooldowns :: cooldown_map
  fw_connections :: "(string, int) js_map"
  fw_network :: "(string, int) js_map"

definition CONNECTION_FAILURE_DEDUP_MS :: int where "CONNECTION_FAILURE_DEDUP_MS = 5000"
definition MAX_CONNECTION_FAILURE_DEDUP_ENTRIES :: nat where "MAX_CONNECTION_FAILURE_DEDUP_ENTRIES = 10000"
definition NETWORK_ERROR_DEDUP_MS :: int where "NETWORK_ERROR_DEDUP_MS = 10000"
definition MAX_NETWORK_ERROR_DEDUP_ENTRIES :: nat where "MAX_NETWORK_ERROR_DEDUP_ENTRIES = 1000"

definition PROVIDER_FAILURE_ERROR_CODES :: "int list" where
  "PROVIDER_FAILURE_ERROR_CODES = [408, 429, 500, 502, 503, 504]"

definition isProviderFailureCode :: "int \<Rightarrow> bool" where
  "isProviderFailureCode status \<longleftrightarrow> status \<in> set PROVIDER_FAILURE_ERROR_CODES"

subsection \<open>Breakers of providers\<close>

text \<open>\<open>{...a, ...b}\<close>, where an absent property does not overwrite.\<close>

definition spread :: "'a option \<Rightarrow> 'a option \<Rightarrow> 'a option" where
  "spread a b = (case b of Some x \<Rightarrow> Some x | None \<Rightarrow> a)"

definition spread_profile :: "breaker_profile \<Rightarrow> breaker_profile \<Rightarrow> breaker_profile" where
  "spread_profile a b =
     \<lparr>bp_failureThreshold = spread (bp_failureThreshold a) (bp_failureThreshold b),
      bp_degradationThreshold = spread (bp_degradationThreshold a) (bp_degradationThreshold b),
      bp_resetTimeoutMs = spread (bp_resetTimeoutMs a) (bp_resetTimeoutMs b),
      bp_circuitBreakerThreshold = spread (bp_circuitBreakerThreshold a) (bp_circuitBreakerThreshold b),
      bp_circuitBreakerReset = spread (bp_circuitBreakerReset a) (bp_circuitBreakerReset b),
      bp_maxBackoffMultiplier = spread (bp_maxBackoffMultiplier a) (bp_maxBackoffMultiplier b),
      bp_backoffEscalationCount = spread (bp_backoffEscalationCount a) (bp_backoffEscalationCount b),
      bp_useUpstream429BreakerHints = spread (bp_useUpstream429BreakerHints a) (bp_useUpstream429BreakerHints b)\<rparr>"

definition kind_cooldowns :: "failure_kind \<rightharpoonup> int" where
  "kind_cooldowns = [Rate_limit \<mapsto> 60000, Quota_exhausted \<mapsto> 3600000]"

definition provider_options :: "'e provider_env \<Rightarrow> string \<Rightarrow> breaker_profile option \<Rightarrow> 'e breaker_options" where
  "provider_options env provider profile =
     (let resolved = (case profile of Some p \<Rightarrow> spread_profile (pv_profile env provider) p | None \<Rightarrow> pv_profile env provider);
          useHints = nullish (bp_useUpstream429BreakerHints resolved) (pv_defaultHints env provider) in
      no_options
        \<lparr>op_failureThreshold := (case bp_failureThreshold resolved of Some n \<Rightarrow> Some n | None \<Rightarrow> bp_circuitBreakerThreshold resolved),
         op_resetTimeout := (case bp_resetTimeoutMs resolved of Some n \<Rightarrow> Some n | None \<Rightarrow> bp_circuitBreakerReset resolved),
         op_cooldownByKind := (if useHints then Some kind_cooldowns else None),
         op_classifyError := (if useHints then Some (pv_classify env) else None),
         op_degradationThreshold := bp_degradationThreshold resolved,
         op_maxBackoffMultiplier := bp_maxBackoffMultiplier resolved,
         op_backoffEscalationCount := bp_backoffEscalationCount resolved\<rparr>)"

definition configureProviderBreaker ::
  "'e provider_env \<Rightarrow> int \<Rightarrow> string \<Rightarrow> breaker_profile option \<Rightarrow> 'e circuit_world \<Rightarrow> 'e circuit_world" where
  "configureProviderBreaker env now provider profile w =
     snd (getCircuitBreaker now provider (Some (provider_options env provider profile)) w)"

text \<open>A method of the breaker that the registry holds under a name.\<close>

definition on_breaker ::
  "string \<Rightarrow> ('e breaker \<times> circuit_db \<Rightarrow> 'r \<times> 'e breaker \<times> circuit_db) \<Rightarrow> 'e circuit_world \<Rightarrow> 'r \<times> 'e circuit_world" where
  "on_breaker n f w =
     (let (r, b, d) = f (the (map_get (registry w) n), circuitDb w) in
      (r, w\<lparr>registry := map_set n b (registry w), circuitDb := d\<rparr>))"

definition getProviderBreaker :: "int \<Rightarrow> string \<Rightarrow> 'e circuit_world \<Rightarrow> 'e circuit_world" where
  "getProviderBreaker now provider w = snd (getCircuitBreaker now provider None w)"

definition isProviderBlocked :: "int \<Rightarrow> string \<Rightarrow> 'e circuit_world \<Rightarrow> bool \<times> 'e circuit_world" where
  "isProviderBlocked now provider w =
     (if provider = [] then (False, w)
      else let (can, w1) = on_breaker provider (canExecute now) (getProviderBreaker now provider w) in (\<not> can, w1))"

definition getProviderCooldownRemainingMs :: "int \<Rightarrow> string \<Rightarrow> 'e circuit_world \<Rightarrow> int option \<times> 'e circuit_world" where
  "getProviderCooldownRemainingMs now provider w =
     (if provider = [] then (None, w)
      else let (can, w1) = on_breaker provider (canExecute now) (getProviderBreaker now provider w) in
           if can then (None, w1)
           else let (remaining, w2) = on_breaker provider (getRetryAfterMs now) w1 in
                (if 0 < remaining then Some remaining else None, w2))"

definition getProviderBreakerState :: "int \<Rightarrow> string \<Rightarrow> 'e circuit_world \<Rightarrow> breaker_status option \<times> 'e circuit_world" where
  "getProviderBreakerState now provider w =
     (if provider = [] then (None, w)
      else let (st, w1) = on_breaker provider (getStatus now) (getProviderBreaker now provider w) in (Some st, w1))"

definition clearProviderFailure :: "int \<Rightarrow> string \<Rightarrow> 'e circuit_world \<Rightarrow> 'e circuit_world" where
  "clearProviderFailure now provider w =
     (if provider = [] then w
      else snd (on_breaker provider (\<lambda>s. ((), reset_breaker now s)) (getProviderBreaker now provider w)))"

record provider_cooldown_info =
  pc_provider :: string
  pc_failureCount :: int
  pc_cooldownRemainingMs :: "int option"
  pc_lastFailureAt :: "int option"

fun blocked_statuses :: "int \<Rightarrow> breaker_status list \<Rightarrow> 'e circuit_world \<Rightarrow> breaker_status list \<times> 'e circuit_world" where
  "blocked_statuses now [] w = ([], w)"
| "blocked_statuses now (st # sts) w =
     (let (blocked, w1) = isProviderBlocked now (st_name st) w; (rest, w2) = blocked_statuses now sts w1 in
      (if blocked then st # rest else rest, w2))"

definition getProvidersInCooldown :: "int \<Rightarrow> 'e circuit_world \<Rightarrow> provider_cooldown_info list \<times> 'e circuit_world" where
  "getProvidersInCooldown now w =
     (let (sts, w1) = getAllCircuitBreakerStatuses now w; (blocked, w2) = blocked_statuses now sts w1 in
      (map (\<lambda>st. \<lparr>pc_provider = st_name st, pc_failureCount = st_failureCount st,
          pc_cooldownRemainingMs = (if st_retryAfterMs st = 0 then None else Some (st_retryAfterMs st)),
          pc_lastFailureAt = st_lastFailureTime st\<rparr>) blocked, w2))"

subsection \<open>Recording\<close>

text \<open>
  Whether an event counts, and the map after it: not if the last one that counted is nearer than the window. The key of
  one that counts goes to the end, and the oldest keys go while there are more than the limit.
\<close>

definition prune_oldest :: "nat \<Rightarrow> (string, int) js_map \<Rightarrow> (string, int) js_map" where
  "prune_oldest cap m = drop (length m - cap) m"

definition passes_dedup :: "int \<Rightarrow> nat \<Rightarrow> string \<Rightarrow> int \<Rightarrow> (string, int) js_map \<Rightarrow> bool \<times> (string, int) js_map" where
  "passes_dedup window cap key now m =
     (if truthy (map_get m key) \<and> now - nullish (map_get m key) 0 < window then (False, m)
      else (True, prune_oldest cap (map_set key now (map_delete key m))))"

definition connection_key :: "string \<Rightarrow> string \<Rightarrow> string" where
  "connection_key provider connectionId = provider @ '':'' @ connectionId"

definition connectionFailureSweep :: "int \<Rightarrow> (string, int) js_map \<Rightarrow> (string, int) js_map" where
  "connectionFailureSweep now m = filter (\<lambda>(_, ts). \<not> CONNECTION_FAILURE_DEDUP_MS < now - ts) m"

record provider_failure =
  pf_provider :: string
  pf_connectionId :: string
  pf_profile :: "breaker_profile option"
  pf_isQueueTimeout :: bool
  pf_isNetworkError :: bool

text \<open>The part of \<open>recordProviderFailure\<close> up to the breaker: does the failure reach it?\<close>

definition reaches_breaker :: "int \<Rightarrow> provider_failure \<Rightarrow> 'e failure_world \<Rightarrow> bool \<times> 'e failure_world" where
  "reaches_breaker now f w =
     (if pf_provider f = [] \<or> pf_isQueueTimeout f then (False, w)
      else
        let (ok, network) =
              (if pf_isNetworkError f
               then passes_dedup NETWORK_ERROR_DEDUP_MS MAX_NETWORK_ERROR_DEDUP_ENTRIES (pf_provider f) now (fw_network w)
               else (True, fw_network w));
            w1 = w\<lparr>fw_network := network\<rparr> in
        if \<not> ok then (False, w1)
        else
          let (ok2, connections) =
                (if pf_connectionId f = [] then (True, fw_connections w1)
                 else passes_dedup CONNECTION_FAILURE_DEDUP_MS MAX_CONNECTION_FAILURE_DEDUP_ENTRIES
                   (connection_key (pf_provider f) (pf_connectionId f)) now (fw_connections w1)) in
          (ok2, w1\<lparr>fw_connections := connections\<rparr>))"

definition fail_breaker :: "'e provider_env \<Rightarrow> int \<Rightarrow> provider_failure \<Rightarrow> 'e circuit_world \<Rightarrow> 'e circuit_world" where
  "fail_breaker env now f w =
     (let p = pf_provider f; (can, w1) = on_breaker p (canExecute now) (configureProviderBreaker env now p (pf_profile f) w) in
      if \<not> can then w1
      else snd (on_breaker p (canExecute now) (snd (on_breaker p (\<lambda>s. ((), onFailure now None s)) w1))))"

definition recordProviderFailure :: "'e provider_env \<Rightarrow> int \<Rightarrow> provider_failure \<Rightarrow> 'e failure_world \<Rightarrow> 'e failure_world" where
  "recordProviderFailure env now f w =
     (let (reached, w1) = reaches_breaker now f w in
      if reached then w1\<lparr>fw_circuits := fail_breaker env now f (fw_circuits w1)\<rparr> else w1)"

text \<open>\<open>recordProviderSuccess\<close>, whose name the tracker of cooldowns has too.\<close>

definition providerSucceeded :: "int \<Rightarrow> string \<Rightarrow> string \<Rightarrow> 'e failure_world \<Rightarrow> 'e failure_world" where
  "providerSucceeded now provider connectionId w =
     (if untracked provider then w
      else
        let (st, c1) = on_breaker provider (getStatus now) (getProviderBreaker now provider (fw_circuits w));
            w1 = w\<lparr>fw_circuits := c1\<rparr> in
        if st_state st = OPEN then w1
        else
          let w2 = w1\<lparr>fw_cooldowns := recordProviderSuccess provider (if connectionId = [] then None else Some connectionId) (fw_cooldowns w1),
                      fw_connections := (if connectionId = [] then fw_connections w1
                        else map_delete (connection_key provider connectionId) (fw_connections w1))\<rparr> in
          w2\<lparr>fw_circuits := snd (on_breaker provider (\<lambda>s. ((), onSuccess now s)) (fw_circuits w2))\<rparr>)"

subsection \<open>What is counted\<close>

text \<open>
  A key whose last event that counted is not older than a time, with only keys of a set after it in the map.
\<close>

definition kept :: "string \<Rightarrow> int \<Rightarrow> string set \<Rightarrow> (string, int) js_map \<Rightarrow> bool" where
  "kept key t0 K m \<longleftrightarrow>
     map_wf m \<and> (\<exists>pre t post. m = pre @ (key, t) # post \<and> t0 \<le> t \<and> set (map fst post) \<subseteq> K)"

lemma kept_get: "kept key t0 K m \<Longrightarrow> \<exists>t. map_get m key = Some t \<and> t0 \<le> t"
  unfolding kept_def by (metis map_of_is_SomeI in_set_conv_decomp)

lemma delete_append: "map_delete k (xs @ ys) = map_delete k xs @ map_delete k ys"
  by (simp add: AList.delete_eq)

lemma delete_keys_of: "set (map fst (map_delete k m)) = set (map fst m) - {k}"
  by (auto simp: AList.delete_eq)

lemma set_after_delete: "map_set k v (map_delete k m) = map_delete k m @ [(k, v)]"
  by (rule map_set_fresh) simp

lemma passes_moved: "snd (passes_dedup window cap k now m) = m \<or> snd (passes_dedup window cap k now m) = prune_oldest cap (map_delete k m @ [(k, now)])"
  by (simp add: passes_dedup_def set_after_delete)

lemma moved_wf: "map_wf m \<Longrightarrow> map_wf (map_delete k m @ [(k, now)])"
  using delete_keys_of [of k m] map_wf_delete [of m k] by simp

lemma prune_dedup_wf: "map_wf m \<Longrightarrow> map_wf (prune_oldest cap m)"
  by (simp add: prune_oldest_def distinct_drop flip: drop_map)

lemma passes_wf: "map_wf m \<Longrightarrow> map_wf (snd (passes_dedup window cap k now m))"
  using passes_moved [of window cap k now m] prune_dedup_wf moved_wf by metis

lemma prune_keeps_end: "length ys \<le> cap \<Longrightarrow> prune_oldest cap (xs @ ys) = drop (length xs + length ys - cap) xs @ ys"
  by (simp add: prune_oldest_def)

lemma prune_kept:
  assumes "map_wf (pre @ (key, t) # post)" and "t0 \<le> t" and "set (map fst post) \<subseteq> K" and "finite K" and "card K < cap"
  shows "kept key t0 K (prune_oldest cap (pre @ (key, t) # post))"
proof -
  have "distinct (map fst post)" using assms(1) by simp
  then have "length post = card (set (map fst post))" using distinct_card [of "map fst post"] by simp
  also have "\<dots> \<le> card K" using assms(3, 4) by (intro card_mono)
  finally have "prune_oldest cap (pre @ (key, t) # post) = drop (length pre + length ((key, t) # post) - cap) pre @ (key, t) # post"
    using assms(5) by (intro prune_keeps_end) simp
  then show ?thesis using prune_dedup_wf [OF assms(1), of cap] assms(2, 3) unfolding kept_def by metis
qed

lemma passes_kept:
  assumes "kept key t0 K m" and "k \<in> insert key K" and "t0 \<le> now" and "finite K" and "card K < cap"
  shows "kept key t0 K (snd (passes_dedup window cap k now m))"
proof -
  obtain pre t post where m: "m = pre @ (key, t) # post" "t0 \<le> t" "set (map fst post) \<subseteq> K" and wf: "map_wf m"
    using assms(1) by (auto simp: kept_def)
  have wf': "map_wf (map_delete k m @ [(k, now)])" by (rule moved_wf [OF wf])
  have "kept key t0 K (prune_oldest cap (map_delete k m @ [(k, now)]))"
  proof (cases "k = key")
    case True
    then show ?thesis using prune_kept [of "map_delete k m" key now "[]"] wf' assms(3-5) by simp
  next
    case False
    have "map_delete k m @ [(k, now)] = map_delete k pre @ (key, t) # (map_delete k post @ [(k, now)])"
      using False by (simp add: m delete_append)
    moreover have "set (map fst (map_delete k post @ [(k, now)])) \<subseteq> K"
      using m(3) assms(2) False delete_keys_of [of k post] by auto
    ultimately show ?thesis using prune_kept [of "map_delete k pre" key t] wf' m(2) assms(4, 5) by metis
  qed
  then show ?thesis using passes_moved [of window cap k now m] assms(1) by metis
qed

lemma passed_kept:
  assumes "map_wf m" and "fst (passes_dedup window cap key now m)" and "0 < cap"
  shows "kept key now {} (snd (passes_dedup window cap key now m))"
proof -
  have "snd (passes_dedup window cap key now m) = prune_oldest cap (map_delete key m @ [(key, now)])"
    using assms(2) by (auto simp: passes_dedup_def set_after_delete split: if_splits)
  then show ?thesis using prune_kept [of "map_delete key m" key now "[]"] moved_wf [OF assms(1)] assms(3) by simp
qed

lemma delete_kept: "kept key t0 K m \<Longrightarrow> k \<noteq> key \<Longrightarrow> kept key t0 K (map_delete k m)"
proof -
  assume "kept key t0 K m" and k: "k \<noteq> key"
  then obtain pre t post where m: "m = pre @ (key, t) # post" "t0 \<le> t" "set (map fst post) \<subseteq> K" and wf: "map_wf m"
    by (auto simp: kept_def)
  then have "map_delete k m = map_delete k pre @ (key, t) # map_delete k post" using k by (simp add: delete_append)
  moreover have "set (map fst (map_delete k post)) \<subseteq> K" using m(3) delete_keys_of [of k post] by auto
  ultimately show ?thesis using m(2) map_wf_delete [OF wf, of k] unfolding kept_def by metis
qed

lemma sweep_kept: "kept key t0 K m \<Longrightarrow> now - t0 \<le> CONNECTION_FAILURE_DEDUP_MS \<Longrightarrow> kept key t0 K (connectionFailureSweep now m)"
proof -
  assume "kept key t0 K m" and n: "now - t0 \<le> CONNECTION_FAILURE_DEDUP_MS"
  then obtain pre t post where m: "m = pre @ (key, t) # post" "t0 \<le> t" "set (map fst post) \<subseteq> K" and wf: "map_wf m"
    by (auto simp: kept_def)
  then have "connectionFailureSweep now m = connectionFailureSweep now pre @ (key, t) # connectionFailureSweep now post"
    using n by (simp add: connectionFailureSweep_def)
  moreover have "set (map fst (connectionFailureSweep now post)) \<subseteq> K" using m(3) by (auto simp: connectionFailureSweep_def)
  moreover have "map_wf (connectionFailureSweep now m)" using wf by (simp add: connectionFailureSweep_def distinct_map_filter)
  ultimately show ?thesis using m(2) unfolding kept_def by metis
qed

lemma kept_blocks:
  "kept key t0 K m \<Longrightarrow> 0 < t0 \<Longrightarrow> now - t0 < window \<Longrightarrow> passes_dedup window cap key now m = (False, m)"
  using kept_get [of key t0 K m] by (auto simp: passes_dedup_def)

datatype provider_fact = Pf_failure provider_failure | Pf_success string string | Pf_sweep

fun pf_step :: "'e provider_env \<Rightarrow> 'e failure_world \<Rightarrow> int \<times> provider_fact \<Rightarrow> 'e failure_world" where
  "pf_step env w (now, Pf_failure f) = recordProviderFailure env now f w"
| "pf_step env w (now, Pf_success p c) = providerSucceeded now p c w"
| "pf_step env w (now, Pf_sweep) = w\<lparr>fw_connections := connectionFailureSweep now (fw_connections w)\<rparr>"

text \<open>The key under which a fact keeps the map of connections busy.\<close>

fun failed_keys :: "int \<times> provider_fact \<Rightarrow> string set" where
  "failed_keys (now, Pf_failure f) = {connection_key (pf_provider f) (pf_connectionId f)}"
| "failed_keys _ = {}"

fun succeeded_on :: "string \<Rightarrow> int \<times> provider_fact \<Rightarrow> bool" where
  "succeeded_on key (now, Pf_success p c) \<longleftrightarrow> connection_key p c = key"
| "succeeded_on key _ \<longleftrightarrow> False"

lemma record_connections: "fw_connections (recordProviderFailure env now f w) = fw_connections (snd (reaches_breaker now f w))"
  by (simp add: recordProviderFailure_def split_beta)

lemma reaches_connections:
  "fw_connections (snd (reaches_breaker now f w)) = fw_connections w
   \<or> fw_connections (snd (reaches_breaker now f w)) = snd (passes_dedup CONNECTION_FAILURE_DEDUP_MS MAX_CONNECTION_FAILURE_DEDUP_ENTRIES
        (connection_key (pf_provider f) (pf_connectionId f)) now (fw_connections w))"
  by (simp add: reaches_breaker_def split_beta Let_def)

lemma success_connections:
  "fw_connections (providerSucceeded now p c w) \<in> {fw_connections w, map_delete (connection_key p c) (fw_connections w)}"
  by (simp add: providerSucceeded_def split_beta Let_def)

lemma pf_step_wf: "map_wf (fw_connections w) \<Longrightarrow> map_wf (fw_connections (pf_step env w ev))"
proof (cases "(env, w, ev)" rule: pf_step.cases)
  case (1 env' w' now f)
  assume "map_wf (fw_connections w)"
  then show ?thesis using 1 reaches_connections [of now f w] passes_wf by (auto simp: record_connections)
next
  case (2 env' w' now p c)
  assume "map_wf (fw_connections w)"
  then show ?thesis using 2 success_connections [of now p c w] map_wf_delete by auto
next
  case (3 env' w' now)
  assume "map_wf (fw_connections w)"
  then show ?thesis using 3 by (simp add: connectionFailureSweep_def distinct_map_filter)
qed

interpretation facts: step_invariant "pf_step env" "\<lambda>_. True" "\<lambda>w. map_wf (fw_connections w)" for env
  by unfold_locales (rule pf_step_wf)

lemma pf_step_kept:
  assumes "kept key t0 K (fw_connections w)" and "failed_keys ev \<subseteq> insert key K" and "\<not> succeeded_on key ev"
    and "t0 \<le> fst ev" and "fst ev - t0 \<le> CONNECTION_FAILURE_DEDUP_MS" and "finite K" and "card K < MAX_CONNECTION_FAILURE_DEDUP_ENTRIES"
  shows "kept key t0 K (fw_connections (pf_step env w ev))"
proof (cases "(env, w, ev)" rule: pf_step.cases)
  case (1 env' w' now f)
  then show ?thesis using assms reaches_connections [of now f w] passes_kept
    by (auto simp: record_connections)
next
  case (2 env' w' now p c)
  then show ?thesis using assms success_connections [of now p c w] delete_kept by auto
next
  case (3 env' w' now)
  then show ?thesis using assms sweep_kept by auto
qed

definition no_failures :: "'e circuit_world \<Rightarrow> 'e failure_world" where
  "no_failures c = \<lparr>fw_circuits = c, fw_cooldowns = [], fw_connections = [], fw_network = []\<rparr>"

lemma finite_failed: "finite (\<Union> (failed_keys ` set evs))"
proof -
  have "finite (failed_keys ev)" for ev by (cases ev rule: failed_keys.cases) simp_all
  then show ?thesis by simp
qed

lemma reached_kept:
  assumes "map_wf (fw_connections w)" and "fst (reaches_breaker t f w)" and "pf_connectionId f \<noteq> []"
  shows "kept (connection_key (pf_provider f) (pf_connectionId f)) t {} (fw_connections (recordProviderFailure env t f w))"
proof -
  let ?p = "passes_dedup CONNECTION_FAILURE_DEDUP_MS MAX_CONNECTION_FAILURE_DEDUP_ENTRIES
      (connection_key (pf_provider f) (pf_connectionId f)) t (fw_connections w)"
  have "fst ?p" "fw_connections (snd (reaches_breaker t f w)) = snd ?p"
    using assms(2, 3) by (auto simp: reaches_breaker_def split_beta Let_def split: if_splits)
  then show ?thesis using passed_kept [OF assms(1)]
    by (simp add: record_connections MAX_CONNECTION_FAILURE_DEDUP_ENTRIES_def)
qed

lemma kept_mono: "kept key t0 K m \<Longrightarrow> K \<subseteq> K' \<Longrightarrow> kept key t0 K' m"
  unfolding kept_def by blast

text \<open>
  A connection that goes on failing is counted against its provider at most once in five seconds: after a failure
  that reached the breaker no other failure of the connection does in that time, whatever else fails or succeeds, as long
  as the connection itself does not succeed and fewer than ten thousand connections fail meanwhile.
\<close>

theorem connection_counted_once:
  assumes "w = foldl (pf_step env) (no_failures c) before" and "fst (reaches_breaker t1 f1 w)"
    and "pf_connectionId f1 \<noteq> []" and "pf_provider f2 = pf_provider f1" and "pf_connectionId f2 = pf_connectionId f1"
    and "\<forall>ev \<in> set evs. t1 \<le> fst ev \<and> fst ev \<le> t2 \<and> \<not> succeeded_on (connection_key (pf_provider f1) (pf_connectionId f1)) ev"
    and "card (\<Union> (failed_keys ` set evs)) < MAX_CONNECTION_FAILURE_DEDUP_ENTRIES"
    and "0 < t1" and "t2 - t1 < CONNECTION_FAILURE_DEDUP_MS"
    and "w' = foldl (pf_step env) (recordProviderFailure env t1 f1 w) evs"
  shows "fw_circuits (recordProviderFailure env t2 f2 w') = fw_circuits w'"
proof -
  let ?key = "connection_key (pf_provider f1) (pf_connectionId f1)" and ?K = "\<Union> (failed_keys ` set evs)"
  have "map_wf (fw_connections w)"
    using facts.run_inv [of "no_failures c" before env] by (simp add: assms(1) no_failures_def list_all_iff)
  then have k: "kept ?key t1 ?K (fw_connections (recordProviderFailure env t1 f1 w))"
    using reached_kept assms(2, 3) kept_mono by (metis empty_subsetI)
  have "kept ?key t1 ?K (fw_connections (foldl (pf_step env) v es))"
    if "kept ?key t1 ?K (fw_connections v)" "set es \<subseteq> set evs" for es v
    using that
  proof (induction es arbitrary: v)
    case (Cons e es)
    then have "kept ?key t1 ?K (fw_connections (pf_step env v e))"
      using assms(6, 7, 9) finite_failed by (intro pf_step_kept) (auto intro!: bexI)
    then show ?case using Cons by simp
  qed simp
  from this [OF k subset_refl] have "kept ?key t1 ?K (fw_connections w')" by (simp add: assms(10))
  from kept_blocks [OF this assms(8, 9)] have "\<not> fst (reaches_breaker t2 f2 w')" "fw_circuits (snd (reaches_breaker t2 f2 w')) = fw_circuits w'"
    using assms(3-5) by (simp_all add: reaches_breaker_def split_beta Let_def)
  then show ?thesis by (simp add: recordProviderFailure_def split_beta)
qed

subsection \<open>The breaker of a provider\<close>

lemma registry_on_breaker [simp]: "map_get (registry (snd (on_breaker n f w))) n = Some (fst (snd (f (the (map_get (registry w) n), circuitDb w))))"
  by (simp add: on_breaker_def split_beta)

lemma fst_on_breaker [simp]: "fst (on_breaker n f w) = fst (f (the (map_get (registry w) n), circuitDb w))"
  by (simp add: on_breaker_def split_beta)

lemma refreshOpenState_kind [simp]: "lastFailureKind (fst (refreshOpenState now s)) = lastFailureKind (fst s)"
  by (cases s) (simp add: refreshOpenState_def Let_def transition_def)

lemma canExecute_kind [simp]: "lastFailureKind (fst (snd (canExecute now s))) = lastFailureKind (fst s)"
  using refreshOpenState_kind [of now s] by (cases "refreshOpenState now s") (simp add: canExecute_def)

lemma onFailure_unclassified [simp]: "lastFailureKind (fst (onFailure now None s)) = None"
  by (cases s) (simp add: onFailure_def countFailure_def kindTrips_def openCircuit_def transition_def Let_def split: circuit_state.split)

text \<open>The breaker of a provider after a failure of the provider, from the one that the options were applied to.\<close>

lemma fail_breaker_counted:
  assumes "fst (canExecute now (b, circuitDb w1))" and "map_get (registry w1) (pf_provider f) = Some b"
    and "configureProviderBreaker env now (pf_provider f) (pf_profile f) w = w1"
  shows "map_get (registry (fail_breaker env now f w)) (pf_provider f)
    = Some (fst (snd (canExecute now (onFailure now None (snd (canExecute now (b, circuitDb w1)))))))"
  using assms(1) by (simp add: fail_breaker_def split_beta Let_def assms(2, 3) on_breaker_def)

text \<open>
  The kinds of failures are set up and never used: a failure that the combo router records is recorded without its
  kind, so that the provider pauses for the plain timeout also where cooldowns for rate limits and quotas are configured.
\<close>

theorem kinds_not_used:
  assumes "configureProviderBreaker env now (pf_provider f) (pf_profile f) w = w1"
    and "map_get (registry w1) (pf_provider f) = Some b"
    and "fst (canExecute now (b, circuitDb w1))"
    and "map_get (registry (fail_breaker env now f w)) (pf_provider f) = Some b'"
  shows "lastFailureKind b' = None \<and> effectiveCooldown b' = effectiveResetTimeout b'"
proof -
  have "lastFailureKind b' = None"
    using assms(4) fail_breaker_counted [OF assms(3, 2, 1)] by (metis option.inject canExecute_kind onFailure_unclassified)
  then show ?thesis by (simp add: effectiveCooldown_def)
qed

subsection \<open>The pause of a provider\<close>

text \<open>A breaker at rest: open, and the time given is before the end of its pause.\<close>

definition at_rest :: "int \<Rightarrow> 'e breaker \<Rightarrow> bool" where
  "at_rest now b \<longleftrightarrow> cb_state b = OPEN \<and> \<not> shouldAttemptReset now b"

lemma at_rest_refresh: "at_rest now b \<Longrightarrow> refreshOpenState now (b, d) = (b, d)"
  by (simp add: at_rest_def refreshOpenState_def)

lemma at_rest_calls:
  assumes "at_rest now b"
  shows "canExecute now (b, d) = (False, b, d)" and "snd (getStatus now (b, d)) = (b, d)"
    and "st_state (fst (getStatus now (b, d))) = OPEN" and "getRetryAfterMs now (b, d) = (timeUntilReset now b, b, d)"
  using assms at_rest_refresh [OF assms, of d]
  by (simp_all add: canExecute_def getStatus_def getRetryAfterMs_def at_rest_def Let_def split_beta)

lemma at_rest_collect:
  "map_get (registry w) p = Some b \<Longrightarrow> at_rest now b \<Longrightarrow> map_get (registry (snd (collect_statuses now ns w))) p = Some b"
proof (induction ns arbitrary: w)
  case (Cons n ns)
  show ?case
  proof (cases "map_get (registry w) n")
    case (Some c)
    have "n = p \<Longrightarrow> fst (snd (getStatus now (c, circuitDb w))) = b"
      using Some Cons.prems at_rest_calls(2) [OF Cons.prems(2)] by simp
    then show ?thesis using Cons Some by (auto simp: split_beta Let_def)
  qed (use Cons in simp)
qed simp

lemma at_rest_evict:
  "map_get (registry w) p = Some b \<Longrightarrow> at_rest now b \<Longrightarrow> map_get (registry (evictColdBreakersIfNeeded now w)) p = Some b"
  using evicted_cold [of p now w] at_rest_collect [of w p b now]
  by (auto simp: evict_eq foldl_remove_get cold_at_def at_rest_def)

lemma at_rest_lookup:
  assumes "map_get (registry w) p = Some b" and "at_rest now b"
    and "n = p \<Longrightarrow> case opts of None \<Rightarrow> True | Some os \<Rightarrow> apply_options os b = b"
  shows "map_get (registry (snd (getCircuitBreaker now n opts w))) p = Some b"
  using assms at_rest_evict [OF assms(1, 2)]
  by (cases opts; cases "n = p") (auto simp: getCircuitBreaker_def Let_def)

lemma on_breaker_other [simp]: "n \<noteq> p \<Longrightarrow> map_get (registry (snd (on_breaker n f w))) p = map_get (registry w) p"
  by (simp add: on_breaker_def split_beta)

lemma at_rest_on_breaker:
  "map_get (registry w) p = Some b \<Longrightarrow> (n = p \<Longrightarrow> fst (snd (f (b, circuitDb w))) = b)
   \<Longrightarrow> map_get (registry (snd (on_breaker n f w))) p = Some b"
  by (cases "n = p") auto

lemma at_rest_provider:
  "map_get (registry w) p = Some b \<Longrightarrow> at_rest now b \<Longrightarrow> map_get (registry (getProviderBreaker now n w)) p = Some b"
  by (simp add: getProviderBreaker_def at_rest_lookup)

text \<open>A failure whose options the breaker already has, as it has after any failure with the same profile.\<close>

definition options_applied :: "'e provider_env \<Rightarrow> string \<Rightarrow> 'e breaker \<Rightarrow> int \<times> provider_fact \<Rightarrow> bool" where
  "options_applied env p b ev =
     (case snd ev of
        Pf_failure f \<Rightarrow> pf_provider f = p \<longrightarrow> apply_options (provider_options env p (pf_profile f)) b = b
      | _ \<Rightarrow> True)"

lemma at_rest_fail:
  assumes "map_get (registry w) p = Some b" and "at_rest now b" and "options_applied env p b (now, Pf_failure f)"
  shows "map_get (registry (fail_breaker env now f w)) p = Some b"
proof -
  let ?w1 = "configureProviderBreaker env now (pf_provider f) (pf_profile f) w"
  have "map_get (registry ?w1) p = Some b"
    using assms by (simp add: configureProviderBreaker_def at_rest_lookup options_applied_def)
  then show ?thesis
    using at_rest_calls [OF assms(2)] by (cases "pf_provider f = p") (simp_all add: fail_breaker_def split_beta Let_def)
qed

lemma at_rest_success:
  assumes "map_get (registry (fw_circuits w)) p = Some b" and "at_rest now b"
  shows "map_get (registry (fw_circuits (providerSucceeded now n c w))) p = Some b"
  using at_rest_provider [OF assms, of n] at_rest_calls [OF assms(2)]
  by (cases "n = p") (auto simp: providerSucceeded_def assms(1) split_beta Let_def)

lemma reaches_circuits: "fw_circuits (snd (reaches_breaker now f w)) = fw_circuits w"
  by (simp add: reaches_breaker_def split_beta Let_def)

lemma at_rest_step:
  assumes "map_get (registry (fw_circuits w)) p = Some b" and "at_rest (fst ev) b" and "options_applied env p b ev"
  shows "map_get (registry (fw_circuits (pf_step env w ev))) p = Some b"
proof (cases "(env, w, ev)" rule: pf_step.cases)
  case (1 env' w' now f)
  then show ?thesis using assms at_rest_fail [of "fw_circuits w" p b now env f]
    by (simp add: recordProviderFailure_def split_beta reaches_circuits)
next
  case (2 env' w' now q c)
  then show ?thesis using assms at_rest_success by simp
next
  case (3 env' w' now)
  then show ?thesis using assms by simp
qed

lemma at_rest_until:
  "cb_state b = OPEN \<Longrightarrow> lastFailureTime b = Some t0 \<Longrightarrow> t0 \<noteq> 0 \<Longrightarrow> now < t0 + effectiveCooldown b \<Longrightarrow> at_rest now b"
  by (simp add: at_rest_def shouldAttemptReset_def)

lemma at_rest_run:
  assumes "map_get (registry (fw_circuits w)) p = Some b" and "\<forall>ev \<in> set evs. at_rest (fst ev) b \<and> options_applied env p b ev"
  shows "map_get (registry (fw_circuits (foldl (pf_step env) w evs))) p = Some b"
  using assms by (induction evs arbitrary: w) (simp_all add: at_rest_step)

text \<open>
  While a provider pauses, nothing that its requests report moves the end of the pause. However many failures and
  successes of it and of other providers are recorded meanwhile, the provider stays refused and the time that is left is
  counted from the failure that opened its breaker.
\<close>

theorem pause_end_fixed:
  assumes "p \<noteq> []" and "map_get (registry (fw_circuits w)) p = Some b" and "cb_state b = OPEN"
    and "lastFailureTime b = Some t0" and "t0 \<noteq> 0"
    and "\<forall>ev \<in> set evs. fst ev < t0 + effectiveCooldown b \<and> options_applied env p b ev"
    and "now < t0 + effectiveCooldown b" and "w' = fw_circuits (foldl (pf_step env) w evs)"
  shows "fst (isProviderBlocked now p w') \<and> fst (getProviderCooldownRemainingMs now p w') = Some (t0 + effectiveCooldown b - now)"
proof -
  have r: "at_rest now b" using assms(3-5, 7) by (rule at_rest_until)
  have "map_get (registry w') p = Some b"
    unfolding assms(8) using assms(2-6) by (intro at_rest_run) (simp_all add: at_rest_until)
  then have g: "map_get (registry (getProviderBreaker now p w')) p = Some b" using r by (rule at_rest_provider)
  have "timeUntilReset now b = t0 + effectiveCooldown b - now" using assms(4, 5, 7) by (simp add: timeUntilReset_def)
  then show ?thesis
    using assms(1, 7) g at_rest_calls [OF r] by (simp add: isProviderBlocked_def getProviderCooldownRemainingMs_def split_beta Let_def)
qed

subsection \<open>Witnesses\<close>

definition hinted_env :: "int provider_env" where
  "hinted_env =
     \<lparr>pv_profile = (\<lambda>_. \<lparr>bp_failureThreshold = Some 5, bp_degradationThreshold = None, bp_resetTimeoutMs = Some 30000,
        bp_circuitBreakerThreshold = None, bp_circuitBreakerReset = None, bp_maxBackoffMultiplier = None,
        bp_backoffEscalationCount = None, bp_useUpstream429BreakerHints = None\<rparr>),
      pv_defaultHints = (\<lambda>_. True), pv_classify = (\<lambda>_. Inr (Some Rate_limit))\<rparr>"

definition failure_on :: "string \<Rightarrow> provider_failure" where
  "failure_on c = \<lparr>pf_provider = ''openai'', pf_connectionId = c, pf_profile = None, pf_isQueueTimeout = False, pf_isNetworkError = False\<rparr>"

definition one_breaker :: "int breaker \<Rightarrow> int circuit_world" where
  "one_breaker b = \<lparr>registry = [(''openai'', b)], circuitDb = down_db\<rparr>"

theorem connection_counted_once_witness:
  "let w' = recordProviderFailure hinted_env 2000 (failure_on ''b'')
       (recordProviderFailure hinted_env 1000 (failure_on ''a'') (no_failures (one_breaker breaker0)))
   in fw_circuits (recordProviderFailure hinted_env 5999 (failure_on ''a'') w') = fw_circuits w'"
  using connection_counted_once [of "no_failures (one_breaker breaker0)" hinted_env "one_breaker breaker0" "[]" 1000
      "failure_on ''a''" "failure_on ''a''" "[(2000, Pf_failure (failure_on ''b''))]" 5999]
  by (simp add: failure_on_def no_failures_def reaches_breaker_def passes_dedup_def MAX_CONNECTION_FAILURE_DEDUP_ENTRIES_def
      CONNECTION_FAILURE_DEDUP_MS_def)

theorem kinds_not_used_witness:
  "map_option lastFailureKind (map_get (registry (fail_breaker hinted_env 7 (failure_on ''a'') (one_breaker breaker0))) ''openai'') = Some None"
proof -
  let ?w1 = "configureProviderBreaker hinted_env 7 ''openai'' None (one_breaker breaker0)"
  have o: "cb_state (apply_options (provider_options hinted_env ''openai'' None) breaker0) = CLOSED"
    by (simp add: apply_options_def provider_options_def hinted_env_def no_options_def Let_def)
  have "\<exists>b. map_get (registry ?w1) ''openai'' = Some b \<and> cb_state b = CLOSED"
    by (simp add: configureProviderBreaker_def getCircuitBreaker_def one_breaker_def o Let_def)
  then obtain b where b: "map_get (registry ?w1) ''openai'' = Some b" "cb_state b = CLOSED" by blast
  then have can: "fst (canExecute 7 (b, circuitDb ?w1))" by (simp add: canExecute_def refreshOpenState_def Let_def)
  obtain b' where b': "map_get (registry (fail_breaker hinted_env 7 (failure_on ''a'') (one_breaker breaker0))) ''openai'' = Some b'"
    using fail_breaker_counted [of 7 b ?w1 "failure_on ''a''" hinted_env "one_breaker breaker0"] b can by (simp add: failure_on_def)
  show ?thesis
    using kinds_not_used [of hinted_env 7 "failure_on ''a''" "one_breaker breaker0" ?w1 b b'] b can b' by (simp add: failure_on_def)
qed

theorem pause_end_fixed_witness:
  "let b = breaker0\<lparr>cb_state := OPEN, lastFailureTime := Some 100\<rparr>;
       w' = fw_circuits (providerSucceeded 150 ''openai'' ''a'' (no_failures (one_breaker b)))
   in fst (isProviderBlocked 200 ''openai'' w')
     \<and> fst (getProviderCooldownRemainingMs 200 ''openai'' w') = Some (100 + effectiveCooldown b - 200)"
  using pause_end_fixed [of "''openai''" "no_failures (one_breaker (breaker0\<lparr>cb_state := OPEN, lastFailureTime := Some 100\<rparr>))"
      "breaker0\<lparr>cb_state := OPEN, lastFailureTime := Some 100\<rparr>" 100 "[(150, Pf_success ''openai'' ''a'')]" hinted_env 200]
  by (simp add: no_failures_def one_breaker_def options_applied_def effectiveCooldown_def effectiveResetTimeout_def)

end
