(* ===== verification/Spec2Isabelle.thy ===== *)
theory Spec2Isabelle
  imports CircuitRegistry FairQueue AdmissionSafety RollingRpm RateSemaphore AccountResets
    RequestPolicy PolicyEngine CursorReplies StickyRounds FailureTracker QuotaEnforce
    SemanticCache RequestDedup IpFilter ProviderCooldown WildcardRouter ApiKeyRotator ModelLocks ProviderFailures
begin

text \<open>
  OmniRoute: the routing and resilience core.

  OmniRoute is a proxy in front of many model providers. This development models the parts of it
  that decide, without input or output of their own, whether a request runs, waits or is refused,
  and where it goes.

  The program's parts and the theories that model them:

  \<^item> \<^verbatim>\<open>Prelude\<close>: the JavaScript values and operators the code uses, insertion-ordered maps (\<open>js_map\<close>)
    with their laws as the locale \<open>dictionary\<close>, and the locale \<open>step_invariant\<close>, which turns an
    invariant of one step into one of every run.
  \<^item> \<^verbatim>\<open>CircuitBreaker\<close>, \<^verbatim>\<open>CircuitRegistry\<close>: \<^verbatim>\<open>src/src/shared/utils/circuitBreaker.ts\<close> and the rows of
    \<^verbatim>\<open>src/src/lib/db/domainState.ts\<close> it saves. A breaker is the record \<open>breaker\<close>, one field per field
    of the class; \<open>execute\<close> is split where it awaits. The registry is the map and the saved rows.
  \<^item> \<^verbatim>\<open>FairQueue\<close>: \<^verbatim>\<open>src/open-sse/services/admission/queue.ts\<close>, the bounded queue that serves its
    tenants in turn.
  \<^item> \<^verbatim>\<open>AdmissionCost\<close>, \<^verbatim>\<open>AdmissionConfig\<close>, \<^verbatim>\<open>Adaptation\<close>, \<^verbatim>\<open>AdmissionController\<close>, \<^verbatim>\<open>AdmissionSafety\<close>: the files
    \<^verbatim>\<open>cost.ts\<close>, \<^verbatim>\<open>config.ts\<close>, \<^verbatim>\<open>adaptation.ts\<close>, \<^verbatim>\<open>controller.ts\<close> and \<^verbatim>\<open>types.ts\<close> of the same directory. The
    controller's private fields are the record \<open>admission\<close>; timers, abort listeners and settled
    promises are fields of it too, so that what the runtime calls back is an event of a run.

  \<^item> \<^verbatim>\<open>SlidingWindow\<close>, \<^verbatim>\<open>RollingRpm\<close>, \<^verbatim>\<open>RateSemaphore\<close>, \<^verbatim>\<open>AccountSemaphore\<close>, \<^verbatim>\<open>AccountResets\<close>: the limiters of
    \<^verbatim>\<open>src/open-sse/services\<close> (\<^verbatim>\<open>slidingWindowLimiter.ts\<close>, \<^verbatim>\<open>rollingRpmGate.ts\<close>, \<^verbatim>\<open>rateLimitSemaphore.ts\<close>,
    \<^verbatim>\<open>accountSemaphore.ts\<close>). Their waiting promises are identifiers in the state, and a run is a
    sequence of acquisitions, releases, marks, timeouts and readings; the runs of \<^verbatim>\<open>AccountResets\<close> reset gates as well.
  \<^item> \<^verbatim>\<open>LockoutPolicy\<close>, \<^verbatim>\<open>FallbackPolicy\<close>, \<^verbatim>\<open>UtcTime\<close>, \<^verbatim>\<open>NumberText\<close>, \<^verbatim>\<open>SpendBatch\<close>, \<^verbatim>\<open>BudgetRules\<close>, \<^verbatim>\<open>BudgetStore\<close>,
    \<^verbatim>\<open>PolicyEngine\<close>, \<^verbatim>\<open>RequestPolicy\<close>: the policies of \<^verbatim>\<open>src/src/domain\<close> with the rows they keep in the
    database, the buffered writer of costs \<^verbatim>\<open>src/src/lib/spend/batchWriter.ts\<close>, calendar dates in UTC, the
    numbers that texts stand for, and \<open>evaluateRequest\<close>, which puts lockout, budget and fallback chains together.
  \<^item> \<^verbatim>\<open>WireFormat\<close>, \<^verbatim>\<open>ValueCodec\<close>, \<^verbatim>\<open>CursorEvents\<close>, \<^verbatim>\<open>CursorModels\<close>, \<^verbatim>\<open>CursorReplies\<close>: the protocol buffers
    of the Cursor agent (\<^verbatim>\<open>src/open-sse/utils/cursorAgentProtobuf.ts\<close> and its directory) as functions on
    lists of bytes; what throws is a left value.
  \<^item> \<^verbatim>\<open>AccountBuckets\<close>, \<^verbatim>\<open>QuotaInflight\<close>, \<^verbatim>\<open>QuotaShare\<close>, \<^verbatim>\<open>StickyRounds\<close>, \<^verbatim>\<open>FailureTracker\<close>: how a combo
    chooses among its targets (\<^verbatim>\<open>src/open-sse/services/combo\<close> and \<^verbatim>\<open>src/src/lib/quota/accountBuckets.ts\<close>). The
    strategy reads the buckets and the counts of requests on their way, and writes both; one record
    holds the state of the three modules.
  \<^item> \<^verbatim>\<open>FairShare\<close>, \<^verbatim>\<open>QuotaUsage\<close>, \<^verbatim>\<open>QuotaEnforce\<close>: the shared quotas of \<^verbatim>\<open>src/src/lib/quota\<close> and their tables
    in \<^verbatim>\<open>src/src/lib/db\<close>: the decision, the table of what was used with its sliding window, and the gate
    before a request with the recording after it. \<open>pool_step\<close> is the relation of their interleavings.
  \<^item> \<^verbatim>\<open>JsonText\<close>, \<^verbatim>\<open>LruCache\<close>, \<^verbatim>\<open>SemanticCache\<close>: JSON values and the text \<open>JSON.stringify\<close> writes, the cache of
    \<^verbatim>\<open>src/src/lib/cacheLayer.ts\<close>, and the cache of answers \<^verbatim>\<open>src/src/lib/semanticCache.ts\<close> that keeps its entries
    in the former and as rows, with the code of the chat handler that asks and fills it and the deletion of rows in
    \<^verbatim>\<open>src/src/lib/db/semanticCache.ts\<close>.
  \<^item> \<^verbatim>\<open>RequestDedup\<close>, \<^verbatim>\<open>IpFilter\<close>, \<^verbatim>\<open>ProviderCooldown\<close>, \<^verbatim>\<open>WildcardRouter\<close>: \<^verbatim>\<open>requestDedup.ts\<close>, \<^verbatim>\<open>ipFilter.ts\<close>,
    \<^verbatim>\<open>providerCooldownTracker.ts\<close> and \<^verbatim>\<open>wildcardRouter.ts\<close> of \<^verbatim>\<open>src/open-sse/services\<close>: identical requests that share
    one call, the lists and bans of addresses, the pauses of providers, and the patterns of model names.
  \<^item> \<^verbatim>\<open>ApiKeyRotator\<close>: \<^verbatim>\<open>src/open-sse/services/apiKeyRotator.ts\<close> with the choice of the key of a request in the
    executor, the reading and the test of a connection and the recording of outcomes; the objects of health are shared between the
    map of the module and the connections, so the state is a store of objects.
  \<^item> \<^verbatim>\<open>ModelLocks\<close>: the lockouts of models on connections, \<^verbatim>\<open>src/open-sse/services/accountFallback.ts\<close> and its
    directory, with the scopes in which models share a quota. A run is a sequence of failures, locks, checks, clearings
    and sweeps with their times.
  \<^item> \<^verbatim>\<open>ProviderFailures\<close>: the wrappers of the same file around the breakers and cooldowns of providers, with the maps that
    keep one event from being counted several times.

  The interfaces are locales of the prelude and of the theories that use them: \<open>dictionary\<close> (insertion-ordered
  maps, the registry of breakers), \<open>write_through\<close> (a cache over rows that survive a restart: lockouts and
  fallback chains), \<open>step_invariant\<close> (every component with runs) and \<open>reset_schedule\<close> (the windows of budgets);
  each is interpreted on the model's own definitions.

  What the lemmas show. Each component has a well-formedness predicate (\<open>breaker_inv\<close>, \<open>queue_inv\<close>,
  \<open>adaptation_inv\<close>, \<open>adm_inv\<close>, \<open>tracked\<close>, \<open>rr_at\<close>, \<open>in_budget\<close>, \<open>lru_run_ok\<close>, \<open>semantic_ok\<close>, \<open>dedup_ok\<close>, \<open>durable\<close>)
  that every operation preserves, and that is carried to all runs. On top of that the properties state what callers rely on: counters that are
  exact, requests that are neither lost nor settled twice, limits and shares that hold over any
  interleaving, caches that answer like the plain specification they refine, encodings that are decoded
  again, recovery that happens, and refusals and faults that change nothing. Where the code does
  something its comments rule out, a theorem states what it does.

  Idealisations. Times and counters are unbounded integers; the code keeps them far below the safe
  integers, and where it guards against leaving them (costs, limits, the utilization integral) the
  guard is modelled and its exactness proved; the bytes and varints of the wire format are words and
  bounded as they are. Averages, ratios, weights and amounts of a quota, doubles in the code, are reals. The
  clock is read once per operation and given as an argument. Loops end because each round takes an
  entry out or shortens what is left, so no fuel is used. Rows of the database are maps; a reading that
  may throw is a flag or an option.

  Not modelled: callbacks passed in by callers, logging, the database engine, and the parts of the
  program that are input and output: request execution, protocol translation, streaming, the
  dashboard and the stores behind it. Functions of the platform that cannot be read here (hashes, random
  ids, compression, parsing of dates and JSON texts, the texts of numbers, the classes of addresses of
  \<open>net.isIP\<close>) are parameters; where a property needs one to be injective or to undo another, it says so.
\<close>

end
